(* ===== verification/Wibe_Prelude.thy ===== *)
theory Wibe_Prelude
  imports Main "HOL-Library.AList" "HOL-Library.Sublist"
begin

text \<open>
  What the components share: the model of JavaScript strings (trimming, searching,
  splitting, joining, slicing), of the insertion-ordered JavaScript \<open>Map\<close>, and the
  automation collections of the development.

  A JavaScript string is a list of code units; \<^typ>\<open>string\<close> holds the code units below
  256, which is every string the modelled code builds itself. Texts the code only passes
  through are treated by functions that are polymorphic in the element type.
\<close>

named_theorems map_laws \<open>laws of the insertion-ordered map\<close>
named_theorems text_laws \<open>laws of the string functions\<close>
named_theorems step_defs \<open>definitions of state-changing operations\<close>

section \<open>Options\<close>

text \<open>\<open>a ?? b\<close> on a value that may be undefined.\<close>

definition or_else :: "'a option \<Rightarrow> 'a \<Rightarrow> 'a" where
  "or_else x d = (case x of None \<Rightarrow> d | Some v \<Rightarrow> v)"

lemma or_else_simps [simp]: "or_else None d = d" "or_else (Some v) d = v"
  by (simp_all add: or_else_def)

text \<open>One key of the object spread \<open>{...a, ...b}\<close>: the right value wins when it is there.\<close>

definition spread_key :: "'a option \<Rightarrow> 'a option \<Rightarrow> 'a option" where
  "spread_key a b = (case b of None \<Rightarrow> a | Some v \<Rightarrow> Some v)"

lemma spread_key_simps [simp]: "spread_key a None = a" "spread_key a (Some v) = Some v"
  "spread_key None b = b"
  by (simp_all add: spread_key_def split: option.split)

lemma spread_key_assoc: "spread_key (spread_key a b) c = spread_key a (spread_key b c)"
  by (simp add: spread_key_def split: option.split)

section \<open>Strings\<close>

text \<open>White space of \<open>trim\<close> and of \<open>\s\<close> among the code units below 256.\<close>

definition js_ws :: "char \<Rightarrow> bool" where
  "js_ws c = (let n = (of_char c :: nat) in 9 \<le> n \<and> n \<le> 13 \<or> n = 32 \<or> n = 160)"

definition trim_start :: "string \<Rightarrow> string" where
  "trim_start s = dropWhile js_ws s"

definition trim_end :: "string \<Rightarrow> string" where
  "trim_end s = rev (dropWhile js_ws (rev s))"

definition trim :: "string \<Rightarrow> string" where
  "trim s = trim_end (trim_start s)"

text \<open>\<open>toLowerCase\<close> on the code units below 256.\<close>

definition lower_char :: "char \<Rightarrow> char" where
  "lower_char c = (let n = (of_char c :: nat) in
     if 65 \<le> n \<and> n \<le> 90 \<or> 192 \<le> n \<and> n \<le> 222 \<and> n \<noteq> 215 then char_of (n + 32) else c)"

definition to_lower :: "string \<Rightarrow> string" where
  "to_lower s = map lower_char s"

definition starts_with :: "'a list \<Rightarrow> 'a list \<Rightarrow> bool" where
  "starts_with s p = (take (length p) s = p)"

text \<open>\<open>indexOf\<close>: the first position where the pattern starts, \<open>None\<close> for the result -1.\<close>

fun index_of :: "'a list \<Rightarrow> 'a list \<Rightarrow> nat option" where
  "index_of [] p = (if p = [] then Some 0 else None)"
| "index_of (c # s) p =
     (if starts_with (c # s) p then Some 0 else map_option Suc (index_of s p))"

definition js_includes :: "'a list \<Rightarrow> 'a list \<Rightarrow> bool" where
  "js_includes s p = (index_of s p \<noteq> None)"

text \<open>\<open>substring (a, b)\<close> for \<open>a \<le> b\<close>, and the slice of an array.\<close>

definition sub_list :: "nat \<Rightarrow> nat \<Rightarrow> 'a list \<Rightarrow> 'a list" where
  "sub_list a b s = take (b - a) (drop a s)"

fun split_on :: "'a \<Rightarrow> 'a list \<Rightarrow> 'a list list" where
  "split_on d [] = [[]]"
| "split_on d (c # s) =
     (if c = d then [] # split_on d s
      else (case split_on d s of [] \<Rightarrow> [[c]] | w # ws \<Rightarrow> (c # w) # ws))"

fun join_with :: "'a list \<Rightarrow> 'a list list \<Rightarrow> 'a list" where
  "join_with sep [] = []"
| "join_with sep [w] = w"
| "join_with sep (w # v # ws) = w @ sep @ join_with sep (v # ws)"

text \<open>\<open>replace(/\/+$/, '')\<close>: the trailing slashes are removed.\<close>

definition strip_slashes :: "string \<Rightarrow> string" where
  "strip_slashes s = rev (dropWhile (\<lambda>c. c = CHR ''/'') (rev s))"

abbreviation newline :: char where
  "newline \<equiv> char_of (10 :: nat)"

definition js_digit :: "char \<Rightarrow> bool" where
  "js_digit c = (48 \<le> (of_char c :: nat) \<and> (of_char c :: nat) \<le> 57)"

text \<open>\<open>split (/\r?\n/)\<close>: a carriage return right before the line break belongs to the break.\<close>

definition drop_cr :: "string \<Rightarrow> string" where
  "drop_cr l = (if l \<noteq> [] \<and> last l = CHR 0x0D then butlast l else l)"

definition split_lines :: "string \<Rightarrow> string list" where
  "split_lines s = (let ls = split_on newline s in map drop_cr (butlast ls) @ [last ls])"

text \<open>\<open>split(/\r?\n|\r/)\<close>, which is also \<open>split(/\r\n|\r|\n/)\<close>.\<close>

fun split_breaks :: "string \<Rightarrow> string list" where
  "split_breaks [] = [[]]"
| "split_breaks (c # s) =
     (if c = CHR 0x0D then
        [] # (if s \<noteq> [] \<and> hd s = newline then split_breaks (drop 1 s) else split_breaks s)
      else if c = newline then [] # split_breaks s
      else (case split_breaks s of [] \<Rightarrow> [[c]] | w # ws \<Rightarrow> (c # w) # ws))"

lemma split_breaks_not_Nil [simp]: "split_breaks s \<noteq> []"
  by (induction s rule: split_breaks.induct) (auto split: list.splits)

lemma starts_with_iff [text_laws]: "starts_with s p \<longleftrightarrow> (\<exists>r. s = p @ r)"
  by (metis append_eq_conv_conj append_take_drop_id starts_with_def)

lemma starts_with_self_append [simp]: "starts_with (p @ r) p"
  by (simp add: starts_with_def)

lemma starts_with_Nil [simp]: "starts_with s []"
  by (simp add: starts_with_def)

lemma starts_with_length: "starts_with s p \<Longrightarrow> length p \<le> length s"
  by (auto simp: starts_with_iff)

lemma index_of_Nil_pattern [simp]: "index_of s [] = Some 0"
  by (cases s) auto

lemma index_of_Some:
  "index_of s p = Some i \<Longrightarrow> i + length p \<le> length s \<and> sub_list i (i + length p) s = p"
proof (induction s p arbitrary: i rule: index_of.induct)
  case (1 p)
  then show ?case by (auto simp: sub_list_def split: if_splits)
next
  case (2 c s p)
  then show ?case
    by (auto simp: sub_list_def starts_with_def dest: starts_with_length[unfolded starts_with_def]
        split: if_splits)
qed

lemma index_of_least:
  "index_of s p = Some i \<Longrightarrow> j < i \<Longrightarrow> \<not> starts_with (drop j s) p"
proof (induction s p arbitrary: i j rule: index_of.induct)
  case (1 p)
  then show ?case by (auto split: if_splits)
next
  case (2 c s p)
  then show ?case by (cases j) (auto split: if_splits)
qed

lemma index_of_None:
  "index_of s p = None \<Longrightarrow> \<not> starts_with (drop j s) p"
proof (induction s p arbitrary: j rule: index_of.induct)
  case (1 p)
  then show ?case by (auto simp: starts_with_def split: if_splits)
next
  case (2 c s p)
  then show ?case by (cases j) (auto split: if_splits)
qed

lemma includes_iff [text_laws]: "js_includes s p \<longleftrightarrow> (\<exists>a b. s = a @ p @ b)"
proof
  assume "js_includes s p"
  then obtain i where i: "index_of s p = Some i" by (auto simp: js_includes_def)
  from index_of_Some [OF i] have "take (length p) (drop i s) = p"
    by (simp add: sub_list_def)
  then have "s = take i s @ p @ drop (length p) (drop i s)"
    by (metis append_take_drop_id)
  then show "\<exists>a b. s = a @ p @ b" by blast
next
  assume "\<exists>a b. s = a @ p @ b"
  then obtain a b where "s = a @ p @ b" by blast
  then have "starts_with (drop (length a) s) p" by simp
  then show "js_includes s p" unfolding js_includes_def using index_of_None by blast
qed

lemma split_on_not_Nil [simp]: "split_on d s \<noteq> []"
  by (induction s) (auto split: list.splits)

lemma join_with_Cons: "ws \<noteq> [] \<Longrightarrow> join_with sep (w # ws) = w @ sep @ join_with sep ws"
  by (cases ws) auto

lemma join_split_on [text_laws]: "join_with [d] (split_on d s) = s"
proof (induction s)
  case (Cons c s)
  obtain w ws where s: "split_on d s = w # ws" by (cases "split_on d s") auto
  with Cons show ?case by (cases ws) auto
qed simp

lemma split_on_no_sep: "w \<in> set (split_on d s) \<Longrightarrow> d \<notin> set w"
proof (induction s arbitrary: w)
  case (Cons c s)
  then show ?case by (cases "split_on d s") (auto split: if_splits)
qed simp

lemma split_on_append: "d \<notin> set w \<Longrightarrow> split_on d (w @ d # s) = w # split_on d s"
  by (induction w) auto

lemma split_on_single: "d \<notin> set w \<Longrightarrow> split_on d w = [w]"
  by (induction w) auto

lemma sub_list_full [simp]: "sub_list 0 (length s) s = s"
  by (simp add: sub_list_def)

lemma length_sub_list: "length (sub_list a b s) = min (b - a) (length s - a)"
  by (simp add: sub_list_def min.commute)

lemma take_sub_drop: "a \<le> b \<Longrightarrow> take a s @ sub_list a b s @ drop b s = s"
  by (metis append_take_drop_id drop_drop le_add_diff_inverse2 sub_list_def)

lemma strip_slashes_no_trailing: "strip_slashes s = [] \<or> last (strip_slashes s) \<noteq> CHR ''/''"
  unfolding strip_slashes_def
  by (metis (full_types) hd_dropWhile last_rev rev.simps(1))

lemma strip_slashes_idem [simp]: "strip_slashes (strip_slashes s) = strip_slashes s"
  by (simp add: strip_slashes_def)

section \<open>The insertion-ordered map\<close>

text \<open>
  A JavaScript \<open>Map\<close> iterates in insertion order; \<open>set\<close> on a key that is present keeps
  its place, on a new key appends at the end; \<open>delete\<close> forgets the place. It is an
  association list with distinct keys: \<open>AList.update\<close>, \<open>AList.delete\<close>, \<open>map_of\<close>.
\<close>

type_synonym ('k, 'v) jmap = "('k \<times> 'v) list"

abbreviation jkeys :: "('k, 'v) jmap \<Rightarrow> 'k list" where
  "jkeys m \<equiv> map fst m"

abbreviation jmap_ok :: "('k, 'v) jmap \<Rightarrow> bool" where
  "jmap_ok m \<equiv> distinct (map fst m)"

text \<open>\<open>m.delete(k); m.set(k, v)\<close>: the key becomes the youngest.\<close>

definition jrefresh :: "'k \<Rightarrow> 'v \<Rightarrow> ('k, 'v) jmap \<Rightarrow> ('k, 'v) jmap" where
  "jrefresh k v m = AList.update k v (AList.delete k m)"

text \<open>\<open>while (m.size > cap) m.delete(m.keys().next().value)\<close>.\<close>

function jevict :: "nat \<Rightarrow> ('k, 'v) jmap \<Rightarrow> ('k, 'v) jmap" where
  "jevict cap m =
     (if cap < length m then (case m of [] \<Rightarrow> [] | (k, v) # r \<Rightarrow> jevict cap (AList.delete k m))
      else m)"
  by pat_completeness auto
termination
  by (relation "measure (\<lambda>(cap, m). length m)")
    (auto simp: le_imp_less_Suc length_delete_le)

declare jevict.simps [simp del]

lemma AList_update_new: "k \<notin> set (map fst m) \<Longrightarrow> AList.update k v m = m @ [(k, v)]"
  by (induction m) auto

lemma AList_delete_absent: "k \<notin> set (map fst m) \<Longrightarrow> AList.delete k m = m"
  by simp

lemma jrefresh_eq [map_laws]: "jrefresh k v m = AList.delete k m @ [(k, v)]"
  unfolding jrefresh_def by (rule AList_update_new) (simp add: delete_keys)

lemma jmap_ok_refresh [map_laws]: "jmap_ok m \<Longrightarrow> jmap_ok (jrefresh k v m)"
  by (simp add: jrefresh_def distinct_update distinct_delete)

lemma jevict_drop [map_laws]: "jmap_ok m \<Longrightarrow> jevict cap m = drop (length m - cap) m"
proof (induction cap m rule: jevict.induct)
  case (1 cap m)
  show ?case
  proof (cases m)
    case Nil
    then show ?thesis by (simp add: jevict.simps)
  next
    case (Cons p r)
    obtain k v where p: "p = (k, v)" by (cases p)
    with Cons 1(2) have r: "AList.delete k m = r" "jmap_ok r"
      by (auto simp: AList_delete_absent)
    show ?thesis
    proof (cases "cap < length m")
      case True
      have "jevict cap m = jevict cap r"
        using True Cons p r by (subst jevict.simps) simp
      also have "\<dots> = drop (length r - cap) r"
        using 1(1)[OF True Cons, of k v] p r by (simp del: delete_simps)
      finally show ?thesis using True Cons by (simp add: Suc_diff_le)
    qed (simp add: jevict.simps)
  qed
qed

lemma jmap_ok_evict [map_laws]: "jmap_ok m \<Longrightarrow> jmap_ok (jevict cap m)"
  by (simp add: jevict_drop drop_map [symmetric] distinct_drop)

lemma length_jevict [map_laws]: "jmap_ok m \<Longrightarrow> length (jevict cap m) = min cap (length m)"
  by (simp add: jevict_drop)

lemma map_of_drop_None_or_same:
  "distinct (map fst m) \<Longrightarrow> map_of (drop n m) k = None \<or> map_of (drop n m) k = map_of m k"
proof (induction m arbitrary: n)
  case (Cons p m)
  show ?case
  proof (cases n)
    case (Suc n')
    have "map_of (drop n' m) k = None" if "k = fst p"
      using Cons.prems that by (auto simp: map_of_eq_None_iff dest: in_set_dropD)
    with Suc Cons show ?thesis by (cases p) auto
  qed simp
qed simp

lemma map_of_jrefresh [map_laws]: "map_of (jrefresh k v m) = (map_of m)(k \<mapsto> v)"
  by (simp add: jrefresh_def update_conv' delete_conv' fun_eq_iff)

lemma map_of_jevict_cases [map_laws]:
  "jmap_ok m \<Longrightarrow> map_of (jevict cap m) k = None \<or> map_of (jevict cap m) k = map_of m k"
  by (simp add: jevict_drop map_of_drop_None_or_same)

lemma map_of_jevict_last [map_laws]:
  assumes "jmap_ok (m @ [(k, v)])" and "0 < cap"
  shows "map_of (jevict cap (m @ [(k, v)])) k = Some v"
proof -
  have "jevict cap (m @ [(k, v)]) = drop (Suc (length m) - cap) m @ [(k, v)]"
    using assms by (simp add: jevict_drop)
  moreover have "k \<notin> fst ` set (drop (Suc (length m) - cap) m)"
    using assms(1) by (auto dest: in_set_dropD)
  ultimately show ?thesis by (simp add: map_of_eq_None_iff map_add_Some_iff)
qed

section \<open>Bounded stores\<close>

text \<open>
  The contract shared by the bounded tables of the program: a write is readable at once,
  never invents a binding of another key, and the table keeps its bound.
\<close>

locale bounded_store =
  fixes put :: "'k \<Rightarrow> 'v \<Rightarrow> 's \<Rightarrow> 's"
    and get :: "'s \<Rightarrow> 'k \<Rightarrow> 'v option"
    and size_of :: "'s \<Rightarrow> nat"
    and cap :: nat
    and invar :: "'s \<Rightarrow> bool"
  assumes put_invar: "invar s \<Longrightarrow> invar (put k v s)"
    and get_put_same: "invar s \<Longrightarrow> get (put k v s) k = Some v"
    and get_put_other:
      "invar s \<Longrightarrow> k' \<noteq> k \<Longrightarrow> get (put k v s) k' = None \<or> get (put k v s) k' = get s k'"
    and size_put: "invar s \<Longrightarrow> size_of (put k v s) \<le> cap"
begin

fun put_all :: "('k \<times> 'v) list \<Rightarrow> 's \<Rightarrow> 's" where
  "put_all [] s = s"
| "put_all ((k, v) # ws) s = put_all ws (put k v s)"

lemma put_all_invar: "invar s \<Longrightarrow> invar (put_all ws s)"
  by (induction ws s rule: put_all.induct) (auto simp: put_invar)

text \<open>Whatever is read was written under that very key, or was there before.\<close>

lemma put_all_no_crosstalk:
  "invar s \<Longrightarrow> get (put_all ws s) k = Some v \<Longrightarrow> (k, v) \<in> set ws \<or> get s k = Some v"
proof (induction ws s rule: put_all.induct)
  case (2 k' v' ws s)
  then have "(k, v) \<in> set ws \<or> get (put k' v' s) k = Some v"
    by (auto simp: put_invar)
  then show ?case
  proof
    assume got: "get (put k' v' s) k = Some v"
    show ?thesis
    proof (cases "k = k'")
      case True
      with got get_put_same [OF 2(2), of k' v'] show ?thesis by simp
    next
      case False
      with got get_put_other [OF 2(2) False, of v'] show ?thesis by auto
    qed
  qed simp
qed simp

lemma size_put_all: "invar s \<Longrightarrow> ws \<noteq> [] \<Longrightarrow> size_of (put_all ws s) \<le> cap"
proof (induction ws arbitrary: s rule: rev_induct)
  case (snoc w ws)
  have app: "put_all (ws @ [w]) s = put (fst w) (snd w) (put_all ws s)"
    by (induction ws s rule: put_all.induct) (cases w, auto)+
  then show ?case using snoc.prems(1) by (simp add: put_all_invar size_put)
qed simp

end

text \<open>\<open>delete; set; evict\<close>, the write of the bridge's tables.\<close>

definition lru_put :: "nat \<Rightarrow> 'k \<Rightarrow> 'v \<Rightarrow> ('k, 'v) jmap \<Rightarrow> ('k, 'v) jmap" where
  "lru_put cap k v m = jevict cap (jrefresh k v m)"

lemma lru_put_ok: "jmap_ok m \<Longrightarrow> jmap_ok (lru_put cap k v m)"
  unfolding lru_put_def by (intro jmap_ok_evict jmap_ok_refresh)

lemma lru_put_same: "jmap_ok m \<Longrightarrow> 0 < cap \<Longrightarrow> map_of (lru_put cap k v m) k = Some v"
  using jmap_ok_refresh [of m k v]
  by (simp add: lru_put_def jrefresh_eq map_of_jevict_last)

lemma lru_put_other:
  assumes "jmap_ok m" and "k' \<noteq> k"
  shows "map_of (lru_put cap k v m) k' = None \<or> map_of (lru_put cap k v m) k' = map_of m k'"
  using map_of_jevict_cases [OF jmap_ok_refresh [OF assms(1)], of cap k v k'] assms(2)
  by (simp add: lru_put_def map_of_jrefresh)

lemma lru_put_size: "jmap_ok m \<Longrightarrow> length (lru_put cap k v m) \<le> cap"
  by (simp add: lru_put_def length_jevict jmap_ok_refresh)

text \<open>With room left, a write forgets nothing.\<close>

lemma lru_put_room:
  assumes "jmap_ok m" and "length m < cap"
  shows "map_of (lru_put cap k v m) = (map_of m)(k \<mapsto> v)"
proof -
  have "length (jrefresh k v m) \<le> cap"
    using assms(2) length_delete_le [of k m] by (simp add: jrefresh_eq)
  then show ?thesis
    using jmap_ok_refresh [OF assms(1), of k v]
    by (simp add: lru_put_def jevict_drop map_of_jrefresh)
qed

text \<open>
  The retention of a least-recently-written table: an entry outlives any number of writes
  under fewer than \<open>cap\<close> other keys.
\<close>

definition kept_before :: "'k \<Rightarrow> 'v \<Rightarrow> 'k set \<Rightarrow> ('k, 'v) jmap \<Rightarrow> bool" where
  "kept_before k v S m \<longleftrightarrow>
     (\<exists>pre post. m = pre @ (k, v) # post \<and> fst ` set post \<subseteq> S \<and> k \<notin> fst ` set pre)"

lemma AList_delete_append: "AList.delete k (xs @ ys) = AList.delete k xs @ AList.delete k ys"
  by (induction xs) auto

lemma kept_before_put_self: "jmap_ok m \<Longrightarrow> 0 < cap \<Longrightarrow> kept_before k v S (lru_put cap k v m)"
proof -
  assume ok: "jmap_ok m" and cap: "0 < cap"
  have "lru_put cap k v m = drop (Suc (length (AList.delete k m)) - cap) (AList.delete k m) @ [(k, v)]"
    using cap jmap_ok_refresh [OF ok, of k v] by (simp add: lru_put_def jevict_drop jrefresh_eq)
  moreover have "k \<notin> fst ` set (drop n (AList.delete k m))" for n
    using delete_notin_dom [of k m] set_drop_subset [of n "AList.delete k m"] by blast
  ultimately show ?thesis
    unfolding kept_before_def by (metis empty_iff empty_subsetI image_empty list.set(1))
qed

lemma kept_before_put_other:
  assumes ok: "jmap_ok m" and kept: "kept_before k v S m" and k': "k' \<in> S" "k' \<noteq> k"
    and S: "finite S" "card S < cap"
  shows "kept_before k v S (lru_put cap k' v' m)"
proof -
  obtain pre post where m: "m = pre @ (k, v) # post" and post: "fst ` set post \<subseteq> S"
    and pre: "k \<notin> fst ` set pre"
    using kept by (auto simp: kept_before_def)
  define pre' where "pre' = AList.delete k' pre"
  define post' where "post' = AList.delete k' post @ [(k', v')]"
  have r: "jrefresh k' v' m = pre' @ (k, v) # post'"
    using k'(2) by (simp add: m jrefresh_eq AList_delete_append pre'_def post'_def)
  have okr: "jmap_ok (pre' @ (k, v) # post')"
    using jmap_ok_refresh [OF ok] r by metis
  have keys: "fst ` set post' \<subseteq> S"
    using post k'(1) dom_delete_subset [of k' post] by (auto simp: post'_def)
  have "length post' = card (fst ` set post')"
    using okr distinct_card [of "map fst post'"] by simp
  also have "\<dots> \<le> card S" using S(1) keys by (rule card_mono)
  finally have len: "Suc (length post') \<le> cap" using S(2) by simp
  define n where "n = length (pre' @ (k, v) # post') - cap"
  have n: "n \<le> length pre'" using len by (simp add: n_def)
  have "lru_put cap k' v' m = drop n (pre' @ (k, v) # post')"
    by (simp only: lru_put_def r jevict_drop [OF okr] n_def)
  then have "lru_put cap k' v' m = drop n pre' @ (k, v) # post'"
    using n by simp
  moreover have "k \<notin> fst ` set (drop n pre')"
    using okr by (auto dest: in_set_dropD)
  ultimately show ?thesis using keys by (auto simp: kept_before_def)
qed

lemma kept_before_lookup: "kept_before k v S m \<Longrightarrow> map_of m k = Some v"
  by (auto simp: kept_before_def map_add_Some_iff map_of_eq_None_iff)

lemma ex_append_drop: "\<exists>pre. xs = pre @ drop n xs"
  by (rule exI [of _ "take n xs"]) simp

section \<open>Polling\<close>

text \<open>
  A loop with fuel that looks at the clock, makes a step, and either ends with a result or goes on
  from a later moment: if every step takes at least \<open>d\<close>, then \<open>n + 1\<close> rounds reach a deadline that is
  at most \<open>d n\<close> away.
\<close>

lemma rounds_suffice:
  fixes loop :: "nat \<Rightarrow> 's \<Rightarrow> 'r option" and now :: "'s \<Rightarrow> nat"
  assumes loop: "\<And>n s. loop (Suc n) s =
      (if now s < deadline then (case step s of Inl r \<Rightarrow> Some r | Inr s' \<Rightarrow> loop n s') else Some (late s))"
    and step: "\<And>s s'. step s = Inr s' \<Longrightarrow> now s + d \<le> now s'"
  shows "deadline \<le> now s + d * n \<Longrightarrow> loop (Suc n) s \<noteq> None"
proof (induction n arbitrary: s)
  case (Suc n)
  then show ?case
  proof (cases "step s")
    case (Inr s')
    then have "deadline \<le> now s' + d * n" using Suc.prems step [OF Inr] by simp
    then show ?thesis using Suc.IH [of s'] Inr by (subst loop) simp
  qed (simp add: loop)
qed (simp add: loop)

end
