(* ===== verification/Js_Values.thy ===== *)
theory Js_Values
  imports Wibe_Prelude
begin

text \<open>
  Values of the type \<open>any\<close> / \<open>unknown\<close> that the bridge receives from JSON bodies and
  message contents, with the coercions the code applies to them: \<open>String(x)\<close>,
  \<open>String(x ?? d)\<close>, truthiness, property access, \<open>JSON.stringify\<close>. A number is an
  integer here: the code reads indices, turns and counts.
\<close>

datatype json =
    JNull
  | JBool bool
  | JNum int
  | JStr string
  | JArr "json list"
  | JObj "(string \<times> json) list"

fun show_nat :: "nat \<Rightarrow> string" where
  "show_nat n = (if n < 10 then [char_of (48 + n)] else show_nat (n div 10) @ [char_of (48 + n mod 10)])"

declare show_nat.simps [simp del]

definition show_int :: "int \<Rightarrow> string" where
  "show_int i = (if i < 0 then CHR ''-'' # show_nat (nat (- i)) else show_nat (nat i))"

fun js_to_string :: "json \<Rightarrow> string" where
  "js_to_string JNull = ''null''"
| "js_to_string (JBool b) = (if b then ''true'' else ''false'')"
| "js_to_string (JNum n) = show_int n"
| "js_to_string (JStr s) = s"
| "js_to_string (JArr xs) =
     join_with '','' (map (\<lambda>x. if x = JNull then [] else js_to_string x) xs)"
| "js_to_string (JObj _) = ''[object Object]''"

text \<open>\<open>String(x ?? d)\<close> of a possibly undefined value.\<close>

definition string_or :: "string \<Rightarrow> json option \<Rightarrow> string" where
  "string_or d x = (case x of None \<Rightarrow> d | Some j \<Rightarrow> if j = JNull then d else js_to_string j)"

fun truthy :: "json \<Rightarrow> bool" where
  "truthy JNull = False"
| "truthy (JBool b) = b"
| "truthy (JNum n) = (n \<noteq> 0)"
| "truthy (JStr s) = (s \<noteq> [])"
| "truthy (JArr _) = True"
| "truthy (JObj _) = True"

text \<open>\<open>j?.k\<close>: undefined on a value that is not an object.\<close>

fun js_prop :: "string \<Rightarrow> json \<Rightarrow> json option" where
  "js_prop k (JObj fs) = map_of fs k"
| "js_prop k _ = None"

text \<open>\<open>a ?? b\<close> on properties: null counts as missing.\<close>

definition coalesce :: "json option \<Rightarrow> json option \<Rightarrow> json option" where
  "coalesce a b = (case a of None \<Rightarrow> b | Some j \<Rightarrow> if j = JNull then b else a)"

fun elements :: "json option \<Rightarrow> json list" where
  "elements (Some (JArr xs)) = xs"
| "elements _ = []"

fun as_string :: "json option \<Rightarrow> string option" where
  "as_string (Some (JStr s)) = Some s"
| "as_string _ = None"

fun as_number :: "json option \<Rightarrow> int option" where
  "as_number (Some (JNum n)) = Some n"
| "as_number _ = None"

definition nonempty_string :: "json option \<Rightarrow> string option" where
  "nonempty_string v = (case v of Some (JStr s) \<Rightarrow> if s = [] then None else Some s | _ \<Rightarrow> None)"

definition hex_digit :: "nat \<Rightarrow> char" where
  "hex_digit n = (if n < 10 then char_of (48 + n) else char_of (87 + n))"

text \<open>The escapes of \<open>JSON.stringify\<close>: quote, backslash, and the control characters.\<close>

definition json_escape :: "char \<Rightarrow> string" where
  "json_escape c = (let n = (of_char c :: nat) in
     if n = 34 then [char_of (92 :: nat), char_of (34 :: nat)]
     else if n = 92 then [char_of (92 :: nat), char_of (92 :: nat)]
     else if n = 8 then [char_of (92 :: nat), CHR ''b'']
     else if n = 9 then [char_of (92 :: nat), CHR ''t'']
     else if n = 10 then [char_of (92 :: nat), CHR ''n'']
     else if n = 12 then [char_of (92 :: nat), CHR ''f'']
     else if n = 13 then [char_of (92 :: nat), CHR ''r'']
     else if n < 32 then char_of (92 :: nat) # ''u00'' @ [hex_digit (n div 16), hex_digit (n mod 16)]
     else [c])"

definition json_quote :: "string \<Rightarrow> string" where
  "json_quote s = char_of (34 :: nat) # concat (map json_escape s) @ [char_of (34 :: nat)]"

fun json_stringify :: "json \<Rightarrow> string" where
  "json_stringify JNull = ''null''"
| "json_stringify (JBool b) = (if b then ''true'' else ''false'')"
| "json_stringify (JNum n) = show_int n"
| "json_stringify (JStr s) = json_quote s"
| "json_stringify (JArr xs) = ''['' @ join_with '','' (map json_stringify xs) @ '']''"
| "json_stringify (JObj fs) =
     ''{'' @ join_with '','' (map (\<lambda>(k, v). json_quote k @ '':'' @ json_stringify v) fs) @ ''}''"

section \<open>Answers to a request\<close>

text \<open>A request fails, or is answered with a status and a body that is JSON or is not.\<close>

datatype http_answer = Failed | Answered nat "json option"

definition res_ok :: "nat \<Rightarrow> bool" where
  "res_ok status = (200 \<le> status \<and> status < 300)"

section \<open>Components of a path\<close>

text \<open>
  \<open>encodeURIComponent\<close> on the code units below 256: unreserved characters stay, every
  other character becomes the percent escapes of its UTF-8 bytes.
\<close>

definition hex_upper :: "nat \<Rightarrow> char" where
  "hex_upper n = (if n < 10 then char_of (48 + n) else char_of (55 + n))"

definition pct :: "nat \<Rightarrow> string" where
  "pct b = [CHR ''%'', hex_upper (b div 16), hex_upper (b mod 16)]"

definition uri_unreserved :: "char \<Rightarrow> bool" where
  "uri_unreserved c = (let n = (of_char c :: nat) in
     48 \<le> n \<and> n \<le> 57 \<or> 65 \<le> n \<and> n \<le> 90 \<or> 97 \<le> n \<and> n \<le> 122
     \<or> c \<in> set ''-_.!~*'' \<or> n = 39 \<or> n = 40 \<or> n = 41)"

definition encode_uri_char :: "char \<Rightarrow> string" where
  "encode_uri_char c = (let n = (of_char c :: nat) in
     if uri_unreserved c then [c]
     else if n < 128 then pct n
     else pct (192 + n div 64) @ pct (128 + n mod 64))"

definition encode_uri_component :: "string \<Rightarrow> string" where
  "encode_uri_component s = concat (map encode_uri_char s)"

lemma char_of_nat_neq:
  "m < 256 \<Longrightarrow> n < 256 \<Longrightarrow> m \<noteq> n \<Longrightarrow> (char_of (m :: nat) :: char) \<noteq> char_of n"
  by (metis mod_less of_char_of)

lemma hex_upper_not_slash: "n < 16 \<Longrightarrow> hex_upper n \<noteq> CHR ''/''"
proof -
  assume n: "n < 16"
  have slash: "CHR ''/'' = (char_of (47 :: nat) :: char)" by code_simp
  show ?thesis using n unfolding hex_upper_def slash
    by (auto intro!: char_of_nat_neq)
qed

lemma pct_no_slash:
  assumes "b < 256"
  shows "CHR ''/'' \<notin> set (pct b)"
proof -
  have "b div 16 < 16" "b mod 16 < 16" using assms by auto
  then have "hex_upper (b div 16) \<noteq> CHR ''/''" "hex_upper (b mod 16) \<noteq> CHR ''/''"
    by (simp_all add: hex_upper_not_slash)
  then show ?thesis by (auto simp: pct_def)
qed

lemma unreserved_no_slash: "\<not> uri_unreserved (CHR ''/'')"
  by code_simp

lemma encode_char_no_slash: "CHR ''/'' \<notin> set (encode_uri_char c)"
proof -
  have n: "(of_char c :: nat) < 256" by simp
  then have "of_char c div 64 < (4 :: nat)" by (simp add: less_mult_imp_div_less)
  then have "CHR ''/'' \<notin> set (pct (192 + of_char c div 64))"
    "CHR ''/'' \<notin> set (pct (128 + of_char c mod 64))" "CHR ''/'' \<notin> set (pct (of_char c))"
    using n by (auto intro!: pct_no_slash)
  then show ?thesis
    using unreserved_no_slash by (auto simp: encode_uri_char_def Let_def)
qed

lemma encode_uri_no_slash: "CHR ''/'' \<notin> set (encode_uri_component s)"
  using encode_char_no_slash by (auto simp: encode_uri_component_def)

end
