(* ===== verification/Request_Context.thy ===== *)
theory Request_Context
  imports Js_Values
begin

text \<open>
  \<open>extensions/incontrol/core/util/uwaRequestContext.ts\<close>: the module state that decides
  which web conversation a request belongs to. The module variables are one record; every
  exported function is one definition from the state to the new state. The clock
  (\<open>Date.now()\<close>) and the digest (\<open>sha1\<close>, hexadecimal, first 20 digits) are arguments.
\<close>

section \<open>The request fields and the state\<close>

datatype history_mode = Auto | Full | Last | Ide

datatype system_prompt_mode = Inject_once | Always | Never

datatype new_conversation_reason = Compaction | Model_switch | Manual

record conversation_hint =
  hint_reason :: new_conversation_reason
  hint_prev_url :: "string option"

record uwa_fields =
  f_history_mode :: "history_mode option"
  f_force_new :: "bool option"
  f_system_prompt_mode :: "system_prompt_mode option"
  f_hint :: "conversation_hint option"

record conv_state =
  cs_url :: string
  cs_id :: string
  cs_tab :: int
  cs_turn :: int
  cs_updated :: int

record uwa_ctx =
  enabled :: bool
  sidecar_base :: string
  base_fields :: uwa_fields
  one_shot :: "uwa_fields option"
  slots :: "(string, conv_state) jmap"
  conversation :: "conv_state option"
  listeners :: "nat list"
  system_prompts :: "(string, string) jmap"

definition no_fields :: uwa_fields where
  "no_fields = \<lparr>f_history_mode = None, f_force_new = None, f_system_prompt_mode = None, f_hint = None\<rparr>"

definition init_ctx :: uwa_ctx where
  "init_ctx = \<lparr>enabled = False, sidecar_base = [], base_fields = no_fields, one_shot = None,
     slots = [], conversation = None, listeners = [], system_prompts = []\<rparr>"

text \<open>\<open>{ ...a, ...b }\<close> on request fields.\<close>

definition spread_fields :: "uwa_fields \<Rightarrow> uwa_fields \<Rightarrow> uwa_fields" where
  "spread_fields a b =
     \<lparr>f_history_mode = spread_key (f_history_mode a) (f_history_mode b),
      f_force_new = spread_key (f_force_new a) (f_force_new b),
      f_system_prompt_mode = spread_key (f_system_prompt_mode a) (f_system_prompt_mode b),
      f_hint = spread_key (f_hint a) (f_hint b)\<rparr>"

definition max_slots :: nat where
  "max_slots = 64"

definition max_system_prompts :: nat where
  "max_system_prompts = 32"

section \<open>Switching the bridge on and recognising its models\<close>

definition setUwaBridgeEnabled :: "bool \<Rightarrow> uwa_fields option \<Rightarrow> uwa_ctx \<Rightarrow> uwa_ctx" where
  "setUwaBridgeEnabled on defaults c =
     (case defaults of
        None \<Rightarrow> c\<lparr>enabled := on\<rparr>
      | Some d \<Rightarrow> c\<lparr>enabled := on, base_fields := spread_fields (base_fields c) d\<rparr>)"

definition isUwaBridgeEnabled :: "uwa_ctx \<Rightarrow> bool" where
  "isUwaBridgeEnabled c = enabled c"

definition setUwaSidecarBaseUrl :: "string option \<Rightarrow> uwa_ctx \<Rightarrow> uwa_ctx" where
  "setUwaSidecarBaseUrl b c = c\<lparr>sidecar_base := strip_slashes (trim (or_else b []))\<rparr>"

definition isUwaModelApiBase :: "string option \<Rightarrow> uwa_ctx \<Rightarrow> bool" where
  "isUwaModelApiBase api c =
     (if \<not> enabled c \<or> sidecar_base c = [] then False
      else starts_with (strip_slashes (trim (or_else api []))) (sidecar_base c @ ''/''))"

section \<open>One-shot marks\<close>

definition markNextRequest :: "uwa_fields \<Rightarrow> uwa_ctx \<Rightarrow> uwa_ctx" where
  "markNextRequest f c = c\<lparr>one_shot := Some (spread_fields (or_else (one_shot c) no_fields) f)\<rparr>"

definition consumeUwaFields :: "uwa_ctx \<Rightarrow> uwa_fields option \<times> uwa_ctx" where
  "consumeUwaFields c =
     (if \<not> enabled c then (None, c)
      else (Some (spread_fields (base_fields c) (or_else (one_shot c) no_fields)),
            c\<lparr>one_shot := None\<rparr>))"

section \<open>Fingerprints of sessions\<close>

definition uwaSessionFingerprint :: "(string \<Rightarrow> string) \<Rightarrow> string option \<Rightarrow> string option" where
  "uwaSessionFingerprint sha1 sid =
     (let s = trim (or_else sid []) in if s = [] then None else Some (take 20 (sha1 (''sid:'' @ s))))"

record chat_msg =
  msg_role :: "string option"
  msg_content :: "json option"

fun first_user_text :: "chat_msg list \<Rightarrow> string option" where
  "first_user_text [] = None"
| "first_user_text (m # ms) =
     (if to_lower (or_else (msg_role m) []) = ''user'' then
        (let text = (case msg_content m of
                       Some (JArr xs) \<Rightarrow> json_stringify (JArr xs)
                     | x \<Rightarrow> string_or [] x)
         in if text \<noteq> [] \<and> trim text \<noteq> [] then Some text else first_user_text ms)
      else first_user_text ms)"

definition uwaConversationFingerprint ::
  "(string \<Rightarrow> string) \<Rightarrow> chat_msg list \<Rightarrow> string option \<Rightarrow> string option" where
  "uwaConversationFingerprint sha1 msgs sessionKey =
     (case uwaSessionFingerprint sha1 sessionKey of
        Some fp \<Rightarrow> if fp \<noteq> [] then Some fp
                   else map_option (\<lambda>t. take 20 (sha1 (''user:'' @ t))) (first_user_text msgs)
      | None \<Rightarrow> map_option (\<lambda>t. take 20 (sha1 (''user:'' @ t))) (first_user_text msgs))"

section \<open>Binding slots\<close>

text \<open>
  The result lists the listeners that are called, in order, with the new state. A slot is
  written only for a truthy key.
\<close>

definition slot_write :: "string \<Rightarrow> conv_state \<Rightarrow> (string, conv_state) jmap \<Rightarrow> (string, conv_state) jmap" where
  "slot_write fp st m = jevict max_slots (jrefresh fp st m)"

definition setUwaConversationState ::
  "int \<Rightarrow> conv_state \<Rightarrow> string option \<Rightarrow> uwa_ctx \<Rightarrow> (nat \<times> conv_state) list \<times> uwa_ctx" where
  "setUwaConversationState now st fp c =
     (let st' = st\<lparr>cs_updated := now\<rparr>;
          slots' = (case fp of
                      Some k \<Rightarrow> if k \<noteq> [] then slot_write k st' (slots c) else slots c
                    | None \<Rightarrow> slots c);
          changed = (case conversation c of
                       None \<Rightarrow> True
                     | Some p \<Rightarrow> cs_url p \<noteq> cs_url st \<or> cs_turn p \<noteq> cs_turn st)
      in (if changed then map (\<lambda>l. (l, st')) (listeners c) else [],
          c\<lparr>slots := slots', conversation := Some st'\<rparr>))"

definition getUwaConversationState :: "string option \<Rightarrow> uwa_ctx \<Rightarrow> conv_state option" where
  "getUwaConversationState fp c =
     (case fp of
        Some k \<Rightarrow> if k \<noteq> [] then map_of (slots c) k else conversation c
      | None \<Rightarrow> conversation c)"

definition getUwaConversationStateForSession ::
  "(string \<Rightarrow> string) \<Rightarrow> string option \<Rightarrow> uwa_ctx \<Rightarrow> conv_state option" where
  "getUwaConversationStateForSession sha1 sid c =
     (case uwaSessionFingerprint sha1 sid of
        Some fp \<Rightarrow> if fp \<noteq> [] then getUwaConversationState (Some fp) c else None
      | None \<Rightarrow> None)"

definition setUwaConversationStateForSession ::
  "(string \<Rightarrow> string) \<Rightarrow> int \<Rightarrow> string option \<Rightarrow> conv_state \<Rightarrow> uwa_ctx
    \<Rightarrow> bool \<times> (nat \<times> conv_state) list \<times> uwa_ctx" where
  "setUwaConversationStateForSession sha1 now sid st c =
     (case uwaSessionFingerprint sha1 sid of
        Some fp \<Rightarrow> if fp = [] then (False, [], c)
                   else (let (called, c') = setUwaConversationState now st (Some fp) c
                         in (True, called, c'))
      | None \<Rightarrow> (False, [], c))"

section \<open>System prompts\<close>

definition prompt_write :: "string \<Rightarrow> string \<Rightarrow> (string, string) jmap \<Rightarrow> (string, string) jmap" where
  "prompt_write fp t m = jevict max_system_prompts (jrefresh fp t m)"

definition rememberUwaSystemPrompt ::
  "(string \<Rightarrow> string) \<Rightarrow> string option \<Rightarrow> string option \<Rightarrow> uwa_ctx \<Rightarrow> uwa_ctx" where
  "rememberUwaSystemPrompt sha1 sessionKey text c =
     (case text of
        None \<Rightarrow> c
      | Some t \<Rightarrow>
          if \<not> enabled c \<or> t = [] \<or> trim t = [] then c
          else (case uwaSessionFingerprint sha1 sessionKey of
                  None \<Rightarrow> c
                | Some fp \<Rightarrow>
                    if fp = [] then c
                    else c\<lparr>system_prompts := prompt_write fp t (system_prompts c)\<rparr>))"

definition getUwaSystemPrompt ::
  "(string \<Rightarrow> string) \<Rightarrow> string option \<Rightarrow> uwa_ctx \<Rightarrow> string option" where
  "getUwaSystemPrompt sha1 sid c =
     (case uwaSessionFingerprint sha1 sid of
        Some fp \<Rightarrow> if fp \<noteq> [] then map_of (system_prompts c) fp else None
      | None \<Rightarrow> None)"

section \<open>Listeners\<close>

definition onUwaConversationChanged :: "nat \<Rightarrow> uwa_ctx \<Rightarrow> uwa_ctx" where
  "onUwaConversationChanged l c =
     (if l \<in> set (listeners c) then c else c\<lparr>listeners := listeners c @ [l]\<rparr>)"

definition offUwaConversationChanged :: "nat \<Rightarrow> uwa_ctx \<Rightarrow> uwa_ctx" where
  "offUwaConversationChanged l c = c\<lparr>listeners := removeAll l (listeners c)\<rparr>"

section \<open>The two tables are bounded stores\<close>

lemma slot_write_lru: "slot_write = lru_put max_slots"
  by (intro ext) (simp add: slot_write_def lru_put_def)

lemma prompt_write_lru: "prompt_write = lru_put max_system_prompts"
  by (intro ext) (simp add: prompt_write_def lru_put_def)

interpretation slot_table: bounded_store slot_write map_of length max_slots jmap_ok
  by unfold_locales
    (auto simp: slot_write_lru lru_put_same max_slots_def lru_put_size
      dest: lru_put_ok lru_put_other)

interpretation prompt_table: bounded_store prompt_write map_of length max_system_prompts jmap_ok
  by unfold_locales
    (auto simp: prompt_write_lru lru_put_same max_system_prompts_def lru_put_size
      dest: lru_put_ok lru_put_other)

section \<open>Runs of operations\<close>

text \<open>Every exported operation that changes the module state, as an event.\<close>

datatype ctx_op =
    Op_enable bool "uwa_fields option"
  | Op_base "string option"
  | Op_mark uwa_fields
  | Op_consume
  | Op_set int conv_state "string option"
  | Op_set_session int "string option" conv_state
  | Op_remember "string option" "string option"
  | Op_listen nat
  | Op_unlisten nat

fun ctx_step :: "(string \<Rightarrow> string) \<Rightarrow> uwa_ctx \<Rightarrow> ctx_op \<Rightarrow> uwa_ctx" where
  "ctx_step sha1 c (Op_enable b d) = setUwaBridgeEnabled b d c"
| "ctx_step sha1 c (Op_base u) = setUwaSidecarBaseUrl u c"
| "ctx_step sha1 c (Op_mark f) = markNextRequest f c"
| "ctx_step sha1 c Op_consume = snd (consumeUwaFields c)"
| "ctx_step sha1 c (Op_set now st fp) = snd (setUwaConversationState now st fp c)"
| "ctx_step sha1 c (Op_set_session now sid st) =
     snd (snd (setUwaConversationStateForSession sha1 now sid st c))"
| "ctx_step sha1 c (Op_remember sid t) = rememberUwaSystemPrompt sha1 sid t c"
| "ctx_step sha1 c (Op_listen l) = onUwaConversationChanged l c"
| "ctx_step sha1 c (Op_unlisten l) = offUwaConversationChanged l c"

fun ctx_run :: "(string \<Rightarrow> string) \<Rightarrow> uwa_ctx \<Rightarrow> ctx_op list \<Rightarrow> uwa_ctx" where
  "ctx_run sha1 c [] = c"
| "ctx_run sha1 c (e # es) = ctx_run sha1 (ctx_step sha1 c e) es"

text \<open>What an operation writes into the two tables.\<close>

fun slot_writes :: "(string \<Rightarrow> string) \<Rightarrow> ctx_op \<Rightarrow> (string \<times> conv_state) list" where
  "slot_writes sha1 (Op_set now st (Some fp)) = (if fp = [] then [] else [(fp, st\<lparr>cs_updated := now\<rparr>)])"
| "slot_writes sha1 (Op_set_session now sid st) =
     (case uwaSessionFingerprint sha1 sid of
        Some fp \<Rightarrow> if fp = [] then [] else [(fp, st\<lparr>cs_updated := now\<rparr>)]
      | None \<Rightarrow> [])"
| "slot_writes sha1 _ = []"

definition ctx_ok :: "uwa_ctx \<Rightarrow> bool" where
  "ctx_ok c \<longleftrightarrow> jmap_ok (slots c) \<and> length (slots c) \<le> max_slots
     \<and> jmap_ok (system_prompts c) \<and> length (system_prompts c) \<le> max_system_prompts
     \<and> distinct (listeners c)"

lemmas ctx_defs [step_defs] = setUwaBridgeEnabled_def setUwaSidecarBaseUrl_def markNextRequest_def
  consumeUwaFields_def setUwaConversationState_def setUwaConversationStateForSession_def
  rememberUwaSystemPrompt_def onUwaConversationChanged_def offUwaConversationChanged_def

lemma slots_step: "slots (ctx_step sha1 c e) = slot_table.put_all (slot_writes sha1 e) (slots c)"
  by (cases "(sha1, c, e)" rule: ctx_step.cases)
    (auto simp: step_defs Let_def split: option.splits)

lemma slots_run:
  "slots (ctx_run sha1 c es) = slot_table.put_all (concat (map (slot_writes sha1) es)) (slots c)"
proof (induction es arbitrary: c)
  case (Cons e es)
  have app: "slot_table.put_all (xs @ ys) m = slot_table.put_all ys (slot_table.put_all xs m)"
    for xs ys m by (induction xs m rule: slot_table.put_all.induct) auto
  show ?case by (simp add: Cons slots_step app)
qed simp

lemma ctx_ok_init: "ctx_ok init_ctx"
  by (simp add: ctx_ok_def init_ctx_def)

lemma ctx_ok_step: "ctx_ok c \<Longrightarrow> ctx_ok (ctx_step sha1 c e)"
  by (cases "(sha1, c, e)" rule: ctx_step.cases)
    (auto simp: ctx_ok_def step_defs Let_def slot_table.put_invar slot_table.size_put
      prompt_table.put_invar prompt_table.size_put distinct_removeAll split: option.splits)

lemma ctx_ok_run: "ctx_ok c \<Longrightarrow> ctx_ok (ctx_run sha1 c es)"
  by (induction es arbitrary: c) (auto simp: ctx_ok_step)

section \<open>Retention of a slot\<close>

text \<open>The keys of the slot writes of a run.\<close>

definition written_keys :: "(string \<Rightarrow> string) \<Rightarrow> ctx_op list \<Rightarrow> string set" where
  "written_keys sha1 es = fst ` set (concat (map (slot_writes sha1) es))"

lemma kept_before_put_all:
  assumes "jmap_ok m" "kept_before k v S m" "fst ` set ws \<subseteq> S" "k \<notin> S" "finite S"
    "card S < max_slots"
  shows "kept_before k v S (slot_table.put_all ws m)"
  using assms
proof (induction ws m rule: slot_table.put_all.induct)
  case (2 k' v' ws m)
  then have "kept_before k v S (slot_write k' v' m)"
    by (auto simp: slot_write_lru intro!: kept_before_put_other)
  with 2 show ?case by (simp add: slot_table.put_invar)
qed simp

lemma slot_survives:
  assumes ok: "ctx_ok c" and fp: "fp \<noteq> []" and es: "fp \<notin> written_keys sha1 es"
    and few: "card (written_keys sha1 es) < max_slots"
  shows "getUwaConversationState (Some fp)
           (ctx_run sha1 (snd (setUwaConversationState now st (Some fp) c)) es)
         = Some (st\<lparr>cs_updated := now\<rparr>)"
proof -
  let ?st = "st\<lparr>cs_updated := now\<rparr>"
  let ?m = "slot_write fp ?st (slots c)"
  have m: "slots (snd (setUwaConversationState now st (Some fp) c)) = ?m"
    using fp by (simp add: setUwaConversationState_def Let_def)
  have "jmap_ok (slots c)" using ok by (simp add: ctx_ok_def)
  then have "kept_before fp ?st (written_keys sha1 es) ?m" "jmap_ok ?m"
    using kept_before_put_self [of "slots c" max_slots]
    by (simp_all add: slot_write_lru lru_put_ok max_slots_def)
  then have "kept_before fp ?st (written_keys sha1 es)
      (slot_table.put_all (concat (map (slot_writes sha1) es)) ?m)"
    using es few by (intro kept_before_put_all) (auto simp: written_keys_def)
  then show ?thesis
    using fp by (simp add: getUwaConversationState_def slots_run m kept_before_lookup)
qed

lemma fingerprint_of_session:
  "trim sid \<noteq> [] \<Longrightarrow> uwaSessionFingerprint sha1 (Some sid) = Some (take 20 (sha1 (''sid:'' @ trim sid)))"
  by (simp add: uwaSessionFingerprint_def Let_def)

lemma blank_session_no_fingerprint: "trim (or_else sid []) = [] \<Longrightarrow> uwaSessionFingerprint sha1 sid = None"
  by (simp add: uwaSessionFingerprint_def)

lemma slot_writes_mem:
  assumes "(fp, s) \<in> set (slot_writes sha1 e)"
  shows "fp \<noteq> [] \<and> (\<exists>now st. s = st\<lparr>cs_updated := now\<rparr> \<and>
           (e = Op_set now st (Some fp) \<or>
            (\<exists>sid. e = Op_set_session now sid st \<and> uwaSessionFingerprint sha1 sid = Some fp)))"
  using assms by (cases "(sha1, e)" rule: slot_writes.cases) (fastforce split: option.splits if_splits)+

section \<open>Properties\<close>

text \<open>
  C1. Sessions never share a web conversation: after any run of operations from the initial
  state, the binding read for an IDE session was written under the fingerprint of that
  session, by a response that carries the fingerprint or by a write for a session id with
  the same fingerprint; no other operation can be its origin.
\<close>

theorem session_binding_no_crosstalk:
  assumes "getUwaConversationStateForSession sha1 sid (ctx_run sha1 init_ctx es) = Some s"
  shows "\<exists>fp now st. uwaSessionFingerprint sha1 sid = Some fp \<and> s = st\<lparr>cs_updated := now\<rparr> \<and>
    (Op_set now st (Some fp) \<in> set es \<or>
     (\<exists>sid'. Op_set_session now sid' st \<in> set es \<and> uwaSessionFingerprint sha1 sid' = Some fp))"
proof -
  obtain fp where fp: "uwaSessionFingerprint sha1 sid = Some fp" "fp \<noteq> []"
    and s: "map_of (slots (ctx_run sha1 init_ctx es)) fp = Some s"
    using assms
    by (auto simp: getUwaConversationStateForSession_def getUwaConversationState_def
        split: option.splits if_splits)
  from s have "(fp, s) \<in> set (concat (map (slot_writes sha1) es))"
    using slot_table.put_all_no_crosstalk [of "[]" "concat (map (slot_writes sha1) es)" fp s]
    by (simp add: slots_run init_ctx_def)
  then obtain e where "e \<in> set es" "(fp, s) \<in> set (slot_writes sha1 e)" by auto
  from this(1) slot_writes_mem [OF this(2)] fp(1) show ?thesis by blast
qed

definition sample_state :: conv_state where
  "sample_state = \<lparr>cs_url = ''https://x/a'', cs_id = ''a'', cs_tab = 1, cs_turn = 2, cs_updated = 0\<rparr>"

theorem session_binding_no_crosstalk_witness:
  "\<exists>fp now st. uwaSessionFingerprint id (Some ''A'') = Some fp
     \<and> sample_state\<lparr>cs_updated := 7\<rparr> = st\<lparr>cs_updated := now\<rparr> \<and>
    (Op_set now st (Some fp) \<in> set [Op_set_session 7 (Some ''A'') sample_state] \<or>
     (\<exists>sid'. Op_set_session now sid' st \<in> set [Op_set_session 7 (Some ''A'') sample_state]
        \<and> uwaSessionFingerprint id sid' = Some fp))"
proof (rule session_binding_no_crosstalk)
  show "getUwaConversationStateForSession id (Some ''A'')
      (ctx_run id init_ctx [Op_set_session 7 (Some ''A'') sample_state])
    = Some (sample_state\<lparr>cs_updated := 7\<rparr>)"
    by (simp add: step_defs Let_def slot_write_lru lru_put_same max_slots_def init_ctx_def
        uwaSessionFingerprint_def getUwaConversationStateForSession_def getUwaConversationState_def
        trim_def trim_start_def trim_end_def js_ws_def)
qed

text \<open>
  A bound session keeps its web conversation: after its slot was written, the lookup
  still returns that very state as long as the operations that follow write fewer than 64
  other keys and not this one, however many of them there are.
\<close>

theorem bound_session_retained:
  assumes "fp \<noteq> []" and "fp \<notin> written_keys sha1 later"
    and "card (written_keys sha1 later) < max_slots"
  shows "getUwaConversationState (Some fp)
           (ctx_run sha1 (snd (setUwaConversationState now st (Some fp) (ctx_run sha1 init_ctx es))) later)
         = Some (st\<lparr>cs_updated := now\<rparr>)"
  using ctx_ok_run [OF ctx_ok_init] assms by (rule slot_survives)

theorem bound_session_retained_witness:
  "getUwaConversationState (Some ''f'')
     (ctx_run id (snd (setUwaConversationState 3 sample_state (Some ''f'') (ctx_run id init_ctx [])))
        [Op_set 4 sample_state (Some ''g''), Op_consume, Op_set 5 sample_state (Some ''g'')])
   = Some (sample_state\<lparr>cs_updated := 3\<rparr>)"
  by (rule bound_session_retained) (simp_all add: written_keys_def max_slots_def)

text \<open>
  A migration mark acts on exactly one request: the next request carries every field of
  the mark, and the one after it carries the default fields of the bridge alone, whatever
  was marked before.
\<close>

lemma mark_consumed_once:
  assumes "enabled c"
  shows "let (r1, c1) = consumeUwaFields (markNextRequest f c); (r2, c2) = consumeUwaFields c1
    in (\<exists>m. r1 = Some m \<and> spread_fields m f = m) \<and> r2 = Some (base_fields c) \<and> one_shot c2 = None"
  using assms
  by (auto simp: consumeUwaFields_def markNextRequest_def spread_fields_def no_fields_def
      spread_key_def split: option.splits)

text \<open>
  The tables stay bounded and well formed: in every state reachable from the initial one
  the slot table has at most 64 entries, the prompt table at most 32, each key occurs once,
  and no listener is registered twice.
\<close>

theorem context_tables_bounded: "ctx_ok (ctx_run sha1 init_ctx es)"
  by (rule ctx_ok_run [OF ctx_ok_init])

end
