(* ===== verification/Conversation_Bridge.thy ===== *)
theory Conversation_Bridge
  imports Request_Context
begin

text \<open>
  \<open>extensions/incontrol/bridge/protocol.ts\<close> and \<open>conversationBridge.ts\<close>: the binding of
  the IDE to a web conversation and the migration of a context to a fresh conversation.
  \<open>migrate\<close> awaits the sidecar in the middle, so it is two definitions, the part before the
  request (\<open>migrate_begin\<close>) and the part after its outcome (\<open>migrate_end\<close>); a step relation
  interleaves them with every other operation of the bridge.
\<close>

section \<open>The protocol\<close>

record request_ext =
  rx_history_mode :: history_mode
  rx_force_new :: bool
  rx_system_prompt_mode :: system_prompt_mode
  rx_hint :: "conversation_hint option"

record response_ext =
  re_url :: string
  re_id :: string
  re_tab :: int
  re_turn :: int

datatype binding_state = IDLE | BOUND | MIGRATING | DESYNCED

record session_binding =
  sb_state :: binding_state
  sb_url :: "string option"
  sb_id :: "string option"
  sb_tab :: "int option"
  sb_turn :: int
  sb_tokens :: nat
  sb_updated :: int

record migration_request =
  mr_reason :: new_conversation_reason
  mr_system_prompt :: string
  mr_payload :: string
  mr_prev_url :: "string option"
  mr_route_domain :: "string option"
  mr_preset :: "string option"

datatype migration_result =
    Migrated string string int int nat
  | Migration_failed string

fun migration_ok :: "migration_result \<Rightarrow> bool" where
  "migration_ok (Migrated _ _ _ _ _) = True"
| "migration_ok (Migration_failed _) = False"

section \<open>The bridge\<close>

definition init_binding :: "int \<Rightarrow> session_binding" where
  "init_binding now = \<lparr>sb_state = IDLE, sb_url = None, sb_id = None, sb_tab = None, sb_turn = 0,
     sb_tokens = 0, sb_updated = now\<rparr>"

text \<open>
  The token counter is optional and may throw (\<open>None\<close>); the fallback is
  \<open>Math.ceil(text.length / 2.5)\<close>.
\<close>

definition estimate :: "(string \<Rightarrow> nat option) option \<Rightarrow> string \<Rightarrow> nat" where
  "estimate counter text =
     (case counter of
        Some f \<Rightarrow> (case f text of Some n \<Rightarrow> n | None \<Rightarrow> (2 * length text + 4) div 5)
      | None \<Rightarrow> (2 * length text + 4) div 5)"

definition applyResponseExtension :: "int \<Rightarrow> response_ext option \<Rightarrow> session_binding \<Rightarrow> session_binding" where
  "applyResponseExtension now ext b =
     (case ext of
        None \<Rightarrow> b
      | Some e \<Rightarrow>
          if re_url e = [] then b
          else \<lparr>sb_state = BOUND, sb_url = Some (re_url e), sb_id = Some (re_id e),
                sb_tab = Some (re_tab e), sb_turn = re_turn e, sb_tokens = sb_tokens b,
                sb_updated = now\<rparr>)"

record web_note =
  wn_url :: string
  wn_id :: "string option"
  wn_tab :: "int option"
  wn_turn :: "int option"

definition noteWebConversation :: "int \<Rightarrow> web_note \<Rightarrow> session_binding \<Rightarrow> session_binding" where
  "noteWebConversation now n b =
     (if wn_url n = [] then b
      else \<lparr>sb_state = BOUND, sb_url = Some (wn_url n), sb_id = Some (or_else (wn_id n) []),
            sb_tab = Some (or_else (wn_tab n) (-1)), sb_turn = or_else (wn_turn n) (sb_turn b),
            sb_tokens = sb_tokens b, sb_updated = now\<rparr>)"

text \<open>The root field \<open>x_uwa\<close> of a response body, when it is an object.\<close>

definition extractExtension :: "json \<Rightarrow> json option" where
  "extractExtension body =
     (case js_prop ''x_uwa'' body of
        Some (JObj fs) \<Rightarrow> Some (JObj fs)
      | Some (JArr xs) \<Rightarrow> Some (JArr xs)
      | _ \<Rightarrow> None)"

definition markDesynced :: "int \<Rightarrow> session_binding \<Rightarrow> session_binding" where
  "markDesynced now b = b\<lparr>sb_state := DESYNCED, sb_updated := now\<rparr>"

definition buildRequestExtension ::
  "bool \<Rightarrow> new_conversation_reason option \<Rightarrow> string option \<Rightarrow> request_ext" where
  "buildRequestExtension forceNew reason prev =
     \<lparr>rx_history_mode = Ide, rx_force_new = forceNew, rx_system_prompt_mode = Inject_once,
      rx_hint = (if forceNew then Some \<lparr>hint_reason = or_else reason Manual, hint_prev_url = prev\<rparr>
                 else None)\<rparr>"

section \<open>Migration\<close>

datatype chat_role = System | User | Assistant | Tool

definition migrate_messages :: "migration_request \<Rightarrow> (chat_role \<times> string) list" where
  "migrate_messages r =
     (if mr_system_prompt r \<noteq> [] then [(System, mr_system_prompt r)] else []) @ [(User, mr_payload r)]"

definition migrate_route :: "migration_request \<Rightarrow> string" where
  "migrate_route r =
     (case mr_route_domain r of
        Some d \<Rightarrow>
          if d = [] then ''/v1/chat/completions''
          else (case mr_preset r of
                  Some p \<Rightarrow>
                    if p = [] then ''/url/'' @ encode_uri_component d @ ''/v1/chat/completions''
                    else ''/url/'' @ encode_uri_component d @ ''/'' @ encode_uri_component p
                           @ ''/v1/chat/completions''
                | None \<Rightarrow> ''/url/'' @ encode_uri_component d @ ''/v1/chat/completions'')
      | None \<Rightarrow> ''/v1/chat/completions'')"

record migrate_http =
  mh_url :: string
  mh_messages :: "(chat_role \<times> string) list"
  mh_stream :: bool
  mh_ext :: request_ext

definition migrate_http_request :: "string \<Rightarrow> migration_request \<Rightarrow> migrate_http" where
  "migrate_http_request base r =
     \<lparr>mh_url = base @ migrate_route r, mh_messages = migrate_messages r, mh_stream = False,
      mh_ext = buildRequestExtension True (Some (mr_reason r)) (mr_prev_url r)\<rparr>"

definition migrate_begin :: "int \<Rightarrow> session_binding \<Rightarrow> session_binding" where
  "migrate_begin now b = b\<lparr>sb_state := MIGRATING, sb_updated := now\<rparr>"

text \<open>What the awaited request can come to: a rejected fetch, a status that is not ok, a body
  that is not JSON, a body with or without the extension.\<close>

datatype fetch_outcome =
    Fetch_threw string
  | Http_error nat string
  | Bad_body string
  | Body "response_ext option"

definition migrate_end ::
  "(string \<Rightarrow> nat option) option \<Rightarrow> int \<Rightarrow> session_binding \<Rightarrow> migration_request \<Rightarrow> fetch_outcome
    \<Rightarrow> session_binding \<times> migration_result" where
  "migrate_end counter now prev r out =
     (let failed = (\<lambda>msg. (prev\<lparr>sb_state := DESYNCED, sb_updated := now\<rparr>, Migration_failed msg))
      in case out of
           Fetch_threw e \<Rightarrow> failed e
         | Http_error st text \<Rightarrow> failed (''HTTP '' @ show_nat st @ '': '' @ text)
         | Bad_body e \<Rightarrow> failed e
         | Body None \<Rightarrow> failed ''sidecar did not return conversation_url''
         | Body (Some e) \<Rightarrow>
             if re_url e = [] then failed ''sidecar did not return conversation_url''
             else
               (let tokens = estimate counter (mr_system_prompt r @ newline # mr_payload r);
                    turn = (if re_turn e = 0 then 1 else re_turn e)
                in (\<lparr>sb_state = BOUND, sb_url = Some (re_url e), sb_id = Some (re_id e),
                     sb_tab = Some (re_tab e), sb_turn = turn, sb_tokens = tokens, sb_updated = now\<rparr>,
                    Migrated (re_url e) (re_id e) (re_tab e) turn tokens)))"

definition migrateAfterCompaction :: "string \<Rightarrow> string \<Rightarrow> string option \<Rightarrow> session_binding \<Rightarrow> migration_request" where
  "migrateAfterCompaction systemPrompt summary prev b =
     \<lparr>mr_reason = Compaction, mr_system_prompt = systemPrompt, mr_payload = summary,
      mr_prev_url = (case prev of None \<Rightarrow> sb_url b | Some u \<Rightarrow> Some u),
      mr_route_domain = None, mr_preset = None\<rparr>"

definition migrateOnModelSwitch ::
  "string \<Rightarrow> string \<Rightarrow> string option \<Rightarrow> string option \<Rightarrow> session_binding \<Rightarrow> migration_request" where
  "migrateOnModelSwitch systemPrompt packedHistory routeDomain presetName b =
     \<lparr>mr_reason = Model_switch, mr_system_prompt = systemPrompt, mr_payload = packedHistory,
      mr_prev_url = sb_url b, mr_route_domain = routeDomain, mr_preset = presetName\<rparr>"

section \<open>Interleavings\<close>

text \<open>The bridge and its migrations in flight, each with the binding saved when it began.\<close>

record bridge_sys =
  bs_binding :: session_binding
  bs_pending :: "(session_binding \<times> migration_request) list"

inductive bridge_step :: "bridge_sys \<Rightarrow> bridge_sys \<Rightarrow> bool" where
  response: "bridge_step s (s\<lparr>bs_binding := applyResponseExtension now ext (bs_binding s)\<rparr>)"
| note_web: "bridge_step s (s\<lparr>bs_binding := noteWebConversation now n (bs_binding s)\<rparr>)"
| desync: "bridge_step s (s\<lparr>bs_binding := markDesynced now (bs_binding s)\<rparr>)"
| begin_migration:
    "bridge_step s (s\<lparr>bs_binding := migrate_begin now (bs_binding s),
                      bs_pending := (bs_binding s, r) # bs_pending s\<rparr>)"
| end_migration:
    "bs_pending s = ps @ (prev, r) # qs \<Longrightarrow>
     bridge_step s (s\<lparr>bs_binding := fst (migrate_end counter now prev r out), bs_pending := ps @ qs\<rparr>)"

inductive bridge_reach :: "bridge_sys \<Rightarrow> bool" where
  start: "bridge_reach \<lparr>bs_binding = init_binding now, bs_pending = []\<rparr>"
| step: "bridge_reach s \<Longrightarrow> bridge_step s t \<Longrightarrow> bridge_reach t"

inductive_cases bridge_stepE: "bridge_step s t"

definition bound_has_url :: "session_binding \<Rightarrow> bool" where
  "bound_has_url b \<longleftrightarrow>
     (sb_state b = BOUND \<longrightarrow> (\<exists>u. sb_url b = Some u \<and> u \<noteq> [])) \<and> (\<forall>u. sb_url b = Some u \<longrightarrow> u \<noteq> [])"

definition bridge_inv :: "bridge_sys \<Rightarrow> bool" where
  "bridge_inv s \<longleftrightarrow> bound_has_url (bs_binding s)
     \<and> (sb_state (bs_binding s) = MIGRATING \<longrightarrow> bs_pending s \<noteq> [])
     \<and> (sb_state (bs_binding s) = IDLE \<longrightarrow> bs_pending s = [] \<and> sb_url (bs_binding s) = None)
     \<and> (\<forall>(prev, r) \<in> set (bs_pending s). bound_has_url prev)"

lemmas bridge_defs [step_defs] = applyResponseExtension_def noteWebConversation_def markDesynced_def
  migrate_begin_def migrate_end_def

lemma bound_has_url_ops:
  "bound_has_url b \<Longrightarrow> bound_has_url (applyResponseExtension now ext b)"
  "bound_has_url b \<Longrightarrow> bound_has_url (noteWebConversation now n b)"
  "bound_has_url b \<Longrightarrow> bound_has_url (markDesynced now b)"
  "bound_has_url b \<Longrightarrow> bound_has_url (migrate_begin now b)"
  by (auto simp: bound_has_url_def step_defs split: option.split)

lemma migrate_end_binding:
  "bound_has_url prev \<Longrightarrow> bound_has_url (fst (migrate_end counter now prev r out))"
  by (auto simp: bound_has_url_def step_defs Let_def split: fetch_outcome.split option.split)

lemma migrate_end_state:
  "sb_state (fst (migrate_end counter now prev r out)) \<in> {BOUND, DESYNCED}"
  by (auto simp: step_defs Let_def split: fetch_outcome.split option.split)

lemma state_ops:
  "sb_state (applyResponseExtension now ext b) \<in> {BOUND, sb_state b}"
  "sb_state (noteWebConversation now n b) \<in> {BOUND, sb_state b}"
  "sb_state (applyResponseExtension now ext b) \<noteq> BOUND \<Longrightarrow> applyResponseExtension now ext b = b"
  "sb_state (noteWebConversation now n b) \<noteq> BOUND \<Longrightarrow> noteWebConversation now n b = b"
  by (auto simp: step_defs split: option.split if_splits)

lemma bridge_inv_step: "bridge_step s t \<Longrightarrow> bridge_inv s \<Longrightarrow> bridge_inv t"
proof (induction rule: bridge_step.induct)
  case (response s now ext)
  then show ?case using state_ops(1,3) [of now ext "bs_binding s"]
    by (auto simp: bridge_inv_def bound_has_url_ops)
next
  case (note_web s now n)
  then show ?case using state_ops(2,4) [of now n "bs_binding s"]
    by (auto simp: bridge_inv_def bound_has_url_ops)
next
  case (desync s now)
  then show ?case by (auto simp: bridge_inv_def bound_has_url_ops) (auto simp: markDesynced_def)
next
  case (begin_migration s now r)
  then show ?case by (auto simp: bridge_inv_def bound_has_url_ops) (auto simp: migrate_begin_def)
next
  case (end_migration s ps prev r qs counter now out)
  then show ?case using migrate_end_state [of counter now prev r out]
    by (auto simp: bridge_inv_def migrate_end_binding)
qed

lemma bridge_inv_reach: "bridge_reach s \<Longrightarrow> bridge_inv s"
proof (induction rule: bridge_reach.induct)
  case (start now)
  show ?case by (simp add: bridge_inv_def init_binding_def bound_has_url_def)
next
  case (step s t)
  then show ?case by (blast intro: bridge_inv_step)
qed

section \<open>Properties\<close>

text \<open>
  C5. In every reachable interleaving of responses, desync marks and migrations, a bound
  binding names a non-empty conversation URL, the state MIGRATING occurs only while a
  migration is in flight, and an idle bridge has no URL and nothing in flight; so no
  sequence of operations leaves the bridge migrating for ever or bound to nothing.
\<close>

theorem bridge_states_consistent:
  assumes "bridge_reach s"
  shows "(sb_state (bs_binding s) = BOUND \<longrightarrow> (\<exists>u. sb_url (bs_binding s) = Some u \<and> u \<noteq> []))
    \<and> (sb_state (bs_binding s) = MIGRATING \<longrightarrow> bs_pending s \<noteq> [])
    \<and> (sb_state (bs_binding s) = IDLE \<longrightarrow> bs_pending s = [] \<and> sb_url (bs_binding s) = None)"
  using bridge_inv_reach [OF assms] by (auto simp: bridge_inv_def bound_has_url_def)

definition sample_request :: migration_request where
  "sample_request = \<lparr>mr_reason = Compaction, mr_system_prompt = ''sys'', mr_payload = ''sum'',
     mr_prev_url = None, mr_route_domain = Some ''a/b'', mr_preset = Some ''x y''\<rparr>"

definition sample_migrating :: bridge_sys where
  "sample_migrating = \<lparr>bs_binding = migrate_begin 1 (init_binding 0),
     bs_pending = [(init_binding 0, sample_request)]\<rparr>"

lemma sample_migrating_reach: "bridge_reach sample_migrating"
  using bridge_reach.step [OF bridge_reach.start [of 0] bridge_step.begin_migration [where now = 1 and r = sample_request]]
  by (simp add: sample_migrating_def)

theorem bridge_states_consistent_witness:
  "sb_state (bs_binding sample_migrating) = MIGRATING \<and> bs_pending sample_migrating \<noteq> []"
proof -
  have "sb_state (bs_binding sample_migrating) = MIGRATING"
    by (simp add: sample_migrating_def migrate_begin_def)
  with bridge_states_consistent [OF sample_migrating_reach] show ?thesis by blast
qed


text \<open>
  A routed migration addresses exactly the route it was given: whatever the domain and
  the preset contain, each is one segment of the request path, so a slash in a name cannot
  select another route of the sidecar.
\<close>

theorem migrate_route_segments:
  assumes "mr_route_domain r = Some d" and "d \<noteq> []" and "mr_preset r = Some p" and "p \<noteq> []"
  shows "split_on (CHR ''/'') (migrate_route r) =
    [[], ''url'', encode_uri_component d, encode_uri_component p, ''v1'', ''chat'', ''completions'']"
proof -
  have route: "migrate_route r = [] @ CHR ''/'' # ''url'' @ CHR ''/'' # encode_uri_component d
      @ CHR ''/'' # encode_uri_component p @ CHR ''/'' # ''v1/chat/completions''"
    using assms by (simp add: migrate_route_def)
  have tail: "split_on (CHR ''/'') ''v1/chat/completions'' = [''v1'', ''chat'', ''completions'']"
    by simp
  show ?thesis
    unfolding route
    by (subst split_on_append, (simp add: encode_uri_no_slash; fail))+ (simp only: tail)
qed

theorem migrate_route_segments_witness:
  "split_on (CHR ''/'') (migrate_route sample_request) =
    [[], ''url'', encode_uri_component ''a/b'', encode_uri_component ''x y'', ''v1'', ''chat'', ''completions'']"
  by (rule migrate_route_segments) (simp_all add: sample_request_def)

end
