(* ===== verification/Bridge_Triggers.thy ===== *)
theory Bridge_Triggers
  imports Conversation_Bridge
begin

text \<open>
  \<open>extensions/incontrol/bridge/bridgeTriggers.ts\<close> and \<open>core/util/compactionEvents.ts\<close>:
  the route of a model, what is sent when a compaction completes or the model is switched,
  and the event bus between \<open>core\<close> and the extension host. A command that the host executes
  is a value of \<open>bridge_command\<close>.
\<close>

section \<open>Routes of models\<close>

record model_route =
  rt_domain :: "string option"
  rt_preset :: "string option"

definition no_route :: model_route where
  "no_route = \<lparr>rt_domain = None, rt_preset = None\<rparr>"

text \<open>
  The settings object is its list of entries. \<open>sort((a, b) => b.length - a.length)[0]\<close> is the
  first entry of the stable sort by decreasing length; an empty key is falsy.
\<close>

definition resolveModelRoute :: "(string \<times> model_route) list \<Rightarrow> string \<Rightarrow> model_route" where
  "resolveModelRoute table modelName =
     (case map_of table modelName of
        Some r \<Rightarrow> r
      | None \<Rightarrow>
          (case sort_key (\<lambda>k. - int (length k)) (filter (\<lambda>k. starts_with modelName k) (map fst table)) of
             [] \<Rightarrow> no_route
           | k # _ \<Rightarrow> if k = [] then no_route else or_else (map_of table k) no_route))"

section \<open>The commands of the two triggers\<close>

datatype bridge_command =
    Compact_and_migrate string string "string option" "string option"
  | Migrate_on_model_switch string string "string option" "string option"

definition onCompactionComplete ::
  "string \<Rightarrow> string \<Rightarrow> string option \<Rightarrow> string option \<Rightarrow> bridge_command option" where
  "onCompactionComplete systemPrompt summary sessionId prevUrl =
     (if trim summary = [] then None
      else Some (Compact_and_migrate systemPrompt summary sessionId prevUrl))"

definition web_input_soft_limit :: nat where
  "web_input_soft_limit = 30000"

datatype limit_choice = Compress_first | Truncate_tail | Dismissed

text \<open>
  \<open>payload.slice(-WEB_INPUT_SOFT_LIMIT)\<close> keeps the tail. The compactor is optional and may
  reject; its rejection propagates (\<open>Inl\<close>).
\<close>

definition onModelSwitch ::
  "(string \<times> model_route) list \<Rightarrow> string \<Rightarrow> string \<Rightarrow> string \<Rightarrow> (string \<Rightarrow> string + string) option
    \<Rightarrow> limit_choice \<Rightarrow> string + bridge_command option" where
  "onModelSwitch table newModel systemPrompt packedHistory compactFn choice =
     (let send = (\<lambda>payload. let r = resolveModelRoute table newModel in
            Inr (Some (Migrate_on_model_switch systemPrompt payload (rt_domain r) (rt_preset r))));
          tail = drop (length packedHistory - web_input_soft_limit) packedHistory
      in if length packedHistory \<le> web_input_soft_limit then send packedHistory
         else (case compactFn of
                 None \<Rightarrow> send tail
               | Some f \<Rightarrow>
                   (case choice of
                      Compress_first \<Rightarrow> (case f packedHistory of Inl e \<Rightarrow> Inl e | Inr p \<Rightarrow> send p)
                    | Truncate_tail \<Rightarrow> send tail
                    | Dismissed \<Rightarrow> Inr None)))"

section \<open>The event bus\<close>

text \<open>
  \<open>Emitter\<close>: a listener is an identity and a handler that may fail; \<open>emit\<close> awaits the
  handlers in order and swallows their failures. A handler is a state change of its host.
\<close>

type_synonym ('e, 's) handler = "'e \<Rightarrow> 's \<Rightarrow> (string option \<times> 's)"

type_synonym ('e, 's) emitter = "(nat \<times> ('e, 's) handler) list"

definition emitter_on :: "nat \<Rightarrow> ('e, 's) handler \<Rightarrow> ('e, 's) emitter \<Rightarrow> ('e, 's) emitter" where
  "emitter_on i h em = em @ [(i, h)]"

definition emitter_off :: "nat \<Rightarrow> ('e, 's) emitter \<Rightarrow> ('e, 's) emitter" where
  "emitter_off i em = filter (\<lambda>(j, _). j \<noteq> i) em"

fun emitter_emit :: "('e, 's) emitter \<Rightarrow> 'e \<Rightarrow> 's \<Rightarrow> 's" where
  "emitter_emit [] e s = s"
| "emitter_emit ((i, h) # ls) e s = emitter_emit ls e (snd (h e s))"

definition hasListeners :: "('e, 's) emitter \<Rightarrow> bool" where
  "hasListeners em = (0 < length em)"

record compaction_event =
  ce_session :: string
  ce_index :: nat
  ce_summary :: string
  ce_system :: "string option"

record model_switch_event =
  ms_previous :: "string option"
  ms_new :: string
  ms_packed :: string
  ms_system :: "string option"

lemma emitter_emit_append: "emitter_emit (xs @ ys) e s = emitter_emit ys e (emitter_emit xs e s)"
  by (induction xs e s rule: emitter_emit.induct) auto

text \<open>Every listener runs, whatever the ones before it returned.\<close>

lemma emitter_emit_fold: "emitter_emit ls e s = fold (\<lambda>(i, h) s. snd (h e s)) ls s"
  by (induction ls e s rule: emitter_emit.induct) auto

lemma sort_key_hd_max:
  fixes f :: "'a \<Rightarrow> int"
  assumes "sort_key (\<lambda>k. - f k) xs = k # ks"
  shows "k \<in> set xs \<and> (\<forall>x \<in> set xs. f x \<le> f k)"
proof -
  have "set xs = insert k (set ks)" by (metis assms list.simps(15) set_sort)
  moreover have "sorted (map (\<lambda>k. - f k) (k # ks))" by (metis assms sorted_sort_key)
  ultimately show ?thesis by auto
qed

lemma resolveModelRoute_exact: "map_of table m = Some r \<Longrightarrow> resolveModelRoute table m = r"
  by (simp add: resolveModelRoute_def)

lemma resolveModelRoute_prefix:
  assumes exact: "map_of table m = None"
    and k: "k \<in> set (map fst table)" "starts_with m k" "k \<noteq> []"
  shows "\<exists>l. l \<in> set (map fst table) \<and> starts_with m l \<and> length k \<le> length l
     \<and> (\<forall>j \<in> set (map fst table). starts_with m j \<longrightarrow> length j \<le> length l)
     \<and> map_of table l = Some (resolveModelRoute table m)"
proof -
  let ?ks = "filter (\<lambda>k. starts_with m k) (map fst table)"
  obtain l ls where l: "sort_key (\<lambda>k. - int (length k)) ?ks = l # ls"
  proof (cases "sort_key (\<lambda>k. - int (length k)) ?ks")
    case Nil
    then have "set ?ks = {}" by (metis list.set(1) set_sort)
    with k show ?thesis by auto
  qed blast
  from sort_key_hd_max [OF l] have mem: "l \<in> set (map fst table)" "starts_with m l"
    and max: "\<And>j. j \<in> set (map fst table) \<Longrightarrow> starts_with m j \<Longrightarrow> length j \<le> length l"
    by auto
  have ne: "l \<noteq> []" using max [OF k(1,2)] k(3) by auto
  obtain r where r: "map_of table l = Some r"
    using mem(1) by (metis map_of_eq_None_iff not_None_eq list.set_map)
  have "resolveModelRoute table m = r"
    by (simp add: resolveModelRoute_def exact l ne r)
  with mem max k r show ?thesis by blast
qed

section \<open>Properties\<close>

text \<open>
  A model switch never sends more than the web page accepts, unless the user chose to
  compress: the payload of the migration is the history itself when it fits, else its last
  30000 characters, and dismissing the question sends nothing.
\<close>

theorem model_switch_payload_bounded:
  assumes "choice \<noteq> Compress_first \<or> compactFn = None"
  shows "case onModelSwitch table newModel sys packed compactFn choice of
      Inr (Some (Migrate_on_model_switch s payload d p)) \<Rightarrow>
        s = sys \<and> length payload \<le> web_input_soft_limit \<and> (\<exists>pre. packed = pre @ payload) \<and>
        (length packed \<le> web_input_soft_limit \<longrightarrow> payload = packed) \<and>
        \<lparr>rt_domain = d, rt_preset = p\<rparr> = resolveModelRoute table newModel
    | Inr None \<Rightarrow> web_input_soft_limit < length packed \<and> choice = Dismissed
    | _ \<Rightarrow> False"
  using assms ex_append_drop [of packed]
  by (auto simp: onModelSwitch_def Let_def split: option.split limit_choice.split)

theorem model_switch_payload_bounded_witness:
  "case onModelSwitch [] ''m'' ''s'' ''hello'' None Dismissed of
      Inr (Some (Migrate_on_model_switch s payload d p)) \<Rightarrow>
        s = ''s'' \<and> length payload \<le> web_input_soft_limit \<and> (\<exists>pre. ''hello'' = pre @ payload) \<and>
        (length ''hello'' \<le> web_input_soft_limit \<longrightarrow> payload = ''hello'') \<and>
        \<lparr>rt_domain = d, rt_preset = p\<rparr> = resolveModelRoute [] ''m''
    | Inr None \<Rightarrow> web_input_soft_limit < length ''hello'' \<and> Dismissed = Dismissed
    | _ \<Rightarrow> False"
  by (rule model_switch_payload_bounded) simp

end
