(* ===== verification/Array_Search.thy ===== *)
theory Array_Search
  imports Wibe_Prelude
begin

text \<open>
  \<open>src/vs/base/common/arraysFind.ts\<close>: linear and binary searches over arrays. An index is a
  \<open>nat\<close>; a result that can be \<open>-1\<close> is an \<open>int\<close>; \<open>undefined\<close> is \<open>None\<close>. The binary searches
  read \<open>array[k]\<close> only for \<open>k\<close> between their bounds, so a call whose \<open>endIdxEx\<close> is at most the
  length of the array reads no hole.
\<close>

section \<open>Linear searches\<close>

text \<open>\<open>for (let i = fromIndex; i >= 0; i--)\<close>: the argument is \<open>i + 1\<close>.\<close>

fun find_last_from :: "'a list \<Rightarrow> ('a \<Rightarrow> nat \<Rightarrow> bool) \<Rightarrow> nat \<Rightarrow> int" where
  "find_last_from xs P 0 = -1"
| "find_last_from xs P (Suc i) = (if P (xs ! i) i then int i else find_last_from xs P i)"

definition findLastIdx :: "'a list \<Rightarrow> ('a \<Rightarrow> nat \<Rightarrow> bool) \<Rightarrow> int" where
  "findLastIdx xs P = find_last_from xs P (length xs)"

definition findLast :: "'a list \<Rightarrow> ('a \<Rightarrow> nat \<Rightarrow> bool) \<Rightarrow> 'a option" where
  "findLast xs P = (let idx = findLastIdx xs P in if idx = -1 then None else Some (xs ! nat idx))"

function findFirstIdx :: "'a list \<Rightarrow> ('a \<Rightarrow> nat \<Rightarrow> bool) \<Rightarrow> nat \<Rightarrow> int" where
  "findFirstIdx xs P i =
     (if i < length xs then (if P (xs ! i) i then int i else findFirstIdx xs P (i + 1)) else -1)"
  by auto
termination by (relation "measure (\<lambda>(xs, _, i). length xs - i)") auto

declare findFirstIdx.simps [simp del]

definition findFirst :: "'a list \<Rightarrow> ('a \<Rightarrow> nat \<Rightarrow> bool) \<Rightarrow> nat \<Rightarrow> 'a option" where
  "findFirst xs P i = (let idx = findFirstIdx xs P i in if idx = -1 then None else Some (xs ! nat idx))"

section \<open>Binary searches\<close>

function last_mono_loop :: "'a list \<Rightarrow> ('a \<Rightarrow> bool) \<Rightarrow> nat \<Rightarrow> nat \<Rightarrow> nat" where
  "last_mono_loop xs P i j =
     (if i < j then
        let k = (i + j) div 2 in
        if P (xs ! k) then last_mono_loop xs P (k + 1) j else last_mono_loop xs P i k
      else i)"
  by auto
termination by (relation "measure (\<lambda>(_, _, i, j). j - i)") auto

declare last_mono_loop.simps [simp del]

definition findLastIdxMonotonous :: "'a list \<Rightarrow> ('a \<Rightarrow> bool) \<Rightarrow> nat \<Rightarrow> nat \<Rightarrow> int" where
  "findLastIdxMonotonous xs P startIdx endIdxEx = int (last_mono_loop xs P startIdx endIdxEx) - 1"

definition findLastMonotonous :: "'a list \<Rightarrow> ('a \<Rightarrow> bool) \<Rightarrow> 'a option" where
  "findLastMonotonous xs P =
     (let idx = findLastIdxMonotonous xs P 0 (length xs) in if idx = -1 then None else Some (xs ! nat idx))"

function findFirstIdxMonotonousOrArrLen :: "'a list \<Rightarrow> ('a \<Rightarrow> bool) \<Rightarrow> nat \<Rightarrow> nat \<Rightarrow> nat" where
  "findFirstIdxMonotonousOrArrLen xs P i j =
     (if i < j then
        let k = (i + j) div 2 in
        if P (xs ! k) then findFirstIdxMonotonousOrArrLen xs P i k
        else findFirstIdxMonotonousOrArrLen xs P (k + 1) j
      else i)"
  by auto
termination by (relation "measure (\<lambda>(_, _, i, j). j - i)") auto

declare findFirstIdxMonotonousOrArrLen.simps [simp del]

definition findFirstMonotonous :: "'a list \<Rightarrow> ('a \<Rightarrow> bool) \<Rightarrow> 'a option" where
  "findFirstMonotonous xs P =
     (let idx = findFirstIdxMonotonousOrArrLen xs P 0 (length xs)
      in if idx = length xs then None else Some (xs ! idx))"

definition findFirstIdxMonotonous :: "'a list \<Rightarrow> ('a \<Rightarrow> bool) \<Rightarrow> nat \<Rightarrow> nat \<Rightarrow> int" where
  "findFirstIdxMonotonous xs P startIdx endIdxEx =
     (let idx = findFirstIdxMonotonousOrArrLen xs P startIdx endIdxEx
      in if idx = length xs then -1 else int idx)"

section \<open>Repeated searches with weaker and weaker predicates\<close>

text \<open>\<open>MonotonousArray\<close>, without its debug assertion (\<open>assertInvariants\<close> is \<open>false\<close>).\<close>

record 'a monotonous_array =
  ma_array :: "'a list"
  ma_last :: nat

definition new_MonotonousArray :: "'a list \<Rightarrow> 'a monotonous_array" where
  "new_MonotonousArray xs = \<lparr>ma_array = xs, ma_last = 0\<rparr>"

definition ma_findLastMonotonous :: "('a \<Rightarrow> bool) \<Rightarrow> 'a monotonous_array \<Rightarrow> 'a option \<times> 'a monotonous_array" where
  "ma_findLastMonotonous P m =
     (let idx = findLastIdxMonotonous (ma_array m) P (ma_last m) (length (ma_array m))
      in (if idx = -1 then None else Some (ma_array m ! nat idx), m\<lparr>ma_last := nat (idx + 1)\<rparr>))"

fun ma_queries :: "('a \<Rightarrow> bool) list \<Rightarrow> 'a monotonous_array \<Rightarrow> 'a option list" where
  "ma_queries [] m = []"
| "ma_queries (P # Ps) m = (let (r, m') = ma_findLastMonotonous P m in r # ma_queries Ps m')"

section \<open>Extrema\<close>

definition findFirstMax :: "'a list \<Rightarrow> ('a \<Rightarrow> 'a \<Rightarrow> int) \<Rightarrow> 'a option" where
  "findFirstMax xs cmp =
     (case xs of
        [] \<Rightarrow> None
      | x # rest \<Rightarrow> Some (fold (\<lambda>item mx. if cmp item mx > 0 then item else mx) rest x))"

definition findLastMax :: "'a list \<Rightarrow> ('a \<Rightarrow> 'a \<Rightarrow> int) \<Rightarrow> 'a option" where
  "findLastMax xs cmp =
     (case xs of
        [] \<Rightarrow> None
      | x # rest \<Rightarrow> Some (fold (\<lambda>item mx. if cmp item mx \<ge> 0 then item else mx) rest x))"

definition findFirstMin :: "'a list \<Rightarrow> ('a \<Rightarrow> 'a \<Rightarrow> int) \<Rightarrow> 'a option" where
  "findFirstMin xs cmp = findFirstMax xs (\<lambda>a b. - cmp a b)"

definition findMaxIdx :: "'a list \<Rightarrow> ('a \<Rightarrow> 'a \<Rightarrow> int) \<Rightarrow> int" where
  "findMaxIdx xs cmp =
     (if xs = [] then -1
      else int (fold (\<lambda>i mx. if cmp (xs ! i) (xs ! mx) > 0 then i else mx) [1..<length xs] 0))"

fun mapFindFirst :: "'a list \<Rightarrow> ('a \<Rightarrow> 'b option) \<Rightarrow> 'b option" where
  "mapFindFirst [] f = None"
| "mapFindFirst (x # xs) f = (case f x of Some y \<Rightarrow> Some y | None \<Rightarrow> mapFindFirst xs f)"

section \<open>Lemmas\<close>

lemma findFirstIdx_spec:
  "findFirstIdx xs P i =
     (if \<exists>k \<ge> i. k < length xs \<and> P (xs ! k) k then int (LEAST k. i \<le> k \<and> k < length xs \<and> P (xs ! k) k) else -1)"
proof (induction xs P i rule: findFirstIdx.induct)
  case (1 xs P i)
  show ?case
  proof (cases "i < length xs")
    case False
    then show ?thesis by (simp add: findFirstIdx.simps [of xs P i])
  next
    case True
    show ?thesis
    proof (cases "P (xs ! i) i")
      case True
      have "(LEAST k. i \<le> k \<and> k < length xs \<and> P (xs ! k) k) = i"
        by (rule Least_equality) (use True \<open>i < length xs\<close> in auto)
      with True \<open>i < length xs\<close> show ?thesis by (auto simp: findFirstIdx.simps [of xs P i])
    next
      case False
      have eq: "(i \<le> k \<and> k < length xs \<and> P (xs ! k) k) = (i + 1 \<le> k \<and> k < length xs \<and> P (xs ! k) k)" for k
        using False by (cases "k = i") auto
      have "findFirstIdx xs P i = findFirstIdx xs P (i + 1)"
        using False \<open>i < length xs\<close> by (simp add: findFirstIdx.simps [of xs P i])
      with 1 [OF \<open>i < length xs\<close> False] show ?thesis by (simp only: eq)
    qed
  qed
qed

text \<open>Every binary search stops at a boundary of its predicate, monotonous or not.\<close>

lemma last_mono_loop_boundary:
  assumes "i \<le> j"
  shows "i \<le> last_mono_loop xs P i j \<and> last_mono_loop xs P i j \<le> j
    \<and> (last_mono_loop xs P i j = i \<or> P (xs ! (last_mono_loop xs P i j - 1)))
    \<and> (last_mono_loop xs P i j = j \<or> \<not> P (xs ! last_mono_loop xs P i j))"
  using assms
proof (induction xs P i j rule: last_mono_loop.induct)
  case (1 xs P i j)
  define k where "k = (i + j) div 2"
  show ?case
  proof (cases "i < j")
    case False
    then have "last_mono_loop xs P i j = i" by (simp add: last_mono_loop.simps [of xs P i j])
    with False 1(3) show ?thesis by simp
  next
    case True
    then have k: "i \<le> k" "k < j" by (auto simp: k_def)
    show ?thesis
    proof (cases "P (xs ! k)")
      case True
      have eq: "last_mono_loop xs P i j = last_mono_loop xs P (k + 1) j"
        using True \<open>i < j\<close> by (simp add: last_mono_loop.simps [of xs P i j] Let_def k_def)
      have "k + 1 \<le> j" using k by simp
      from 1(1) [OF \<open>i < j\<close> k_def True this] k True show ?thesis
        unfolding eq by (cases "last_mono_loop xs P (k + 1) j = k + 1") auto
    next
      case False
      have eq: "last_mono_loop xs P i j = last_mono_loop xs P i k"
        using False \<open>i < j\<close> by (simp add: last_mono_loop.simps [of xs P i j] Let_def k_def)
      from 1(2) [OF \<open>i < j\<close> k_def False k(1)] k False show ?thesis
        unfolding eq by (cases "last_mono_loop xs P i k = k") auto
    qed
  qed
qed

lemma first_mono_is_last_mono:
  "findFirstIdxMonotonousOrArrLen xs P i j = last_mono_loop xs (\<lambda>x. \<not> P x) i j"
proof (induction xs P i j rule: findFirstIdxMonotonousOrArrLen.induct)
  case (1 xs P i j)
  show ?case
    by (subst findFirstIdxMonotonousOrArrLen.simps, subst last_mono_loop.simps)
      (use 1 in \<open>simp add: Let_def\<close>)
qed

text \<open>The predicate is true on a prefix of the array and false on the rest.\<close>

definition monotonous :: "('a \<Rightarrow> bool) \<Rightarrow> 'a list \<Rightarrow> bool" where
  "monotonous P xs \<longleftrightarrow> (\<forall>j < length xs. \<forall>i \<le> j. P (xs ! j) \<longrightarrow> P (xs ! i))"

lemma monotonous_boundary_unique:
  assumes mono: "monotonous P xs" and r: "r \<le> length xs"
    and l: "r = 0 \<or> P (xs ! (r - 1))" and u: "r = length xs \<or> \<not> P (xs ! r)"
  shows "r = length (takeWhile P xs)"
proof -
  have T: "P (xs ! k)" if "k < r" for k
  proof -
    from that l have "P (xs ! (r - 1))" by auto
    with mono that r show ?thesis
      unfolding monotonous_def by (metis One_nat_def Suc_pred less_Suc_eq_le diff_less less_le_trans
          gr_implies_not0 neq0_conv zero_less_one)
  qed
  show ?thesis
  proof (cases "r = length xs")
    case True
    then have "takeWhile P xs = xs" using True T by (simp only: takeWhile_eq_all_conv all_set_conv_all_nth) simp
    with True show ?thesis by metis
  next
    case False
    with r u have "r < length xs" "\<not> P (xs ! r)" by auto
    then have "takeWhile P xs = take r xs"
      using T by (intro takeWhile_eq_take_P_nth) auto
    with r show ?thesis by simp
  qed
qed

lemma last_mono_loop_takeWhile:
  assumes "monotonous P xs" and "s \<le> length (takeWhile P xs)"
  shows "last_mono_loop xs P s (length xs) = length (takeWhile P xs)"
proof -
  let ?r = "last_mono_loop xs P s (length xs)"
  have "s \<le> length xs" using assms(2) length_takeWhile_le [of P xs] by (rule le_trans)
  note b = last_mono_loop_boundary [OF this, of xs P]
  have "?r = 0 \<or> P (xs ! (?r - 1))"
  proof (cases "?r = s")
    case True
    show ?thesis
    proof (cases "s = 0")
      case False
      with assms(2) have "s - 1 < length (takeWhile P xs)" by simp
      then have "P (takeWhile P xs ! (s - 1))" by (metis nth_mem set_takeWhileD)
      with True \<open>s - 1 < _\<close> show ?thesis by (simp add: takeWhile_nth)
    qed (use True in simp)
  qed (use b in auto)
  with b show ?thesis by (intro monotonous_boundary_unique [OF assms(1)]) auto
qed

lemma findLastIdxMonotonous_takeWhile:
  "monotonous P xs \<Longrightarrow> findLastIdxMonotonous xs P 0 (length xs) = int (length (takeWhile P xs)) - 1"
  by (simp add: findLastIdxMonotonous_def last_mono_loop_takeWhile)

lemma findFirstIdxMonotonous_takeWhile:
  "monotonous (\<lambda>x. \<not> P x) xs \<Longrightarrow>
   findFirstIdxMonotonousOrArrLen xs P 0 (length xs) = length (takeWhile (\<lambda>x. \<not> P x) xs)"
  by (simp add: first_mono_is_last_mono last_mono_loop_takeWhile)

lemma findLastMonotonous_takeWhile:
  assumes "monotonous P xs"
  shows "findLastMonotonous xs P =
    (if takeWhile P xs = [] then None else Some (last (takeWhile P xs)))"
proof (cases "takeWhile P xs = []")
  case False
  then have n: "0 < length (takeWhile P xs)" by simp
  have "xs ! (length (takeWhile P xs) - 1) = last (takeWhile P xs)"
    using False n by (simp add: last_conv_nth takeWhile_nth)
  with n show ?thesis
    by (simp add: findLastMonotonous_def findLastIdxMonotonous_takeWhile [OF assms] Let_def nat_diff_distrib')
qed (simp add: findLastMonotonous_def findLastIdxMonotonous_takeWhile [OF assms])

lemma takeWhile_length_mono:
  "\<forall>x \<in> set xs. P x \<longrightarrow> Q x \<Longrightarrow> length (takeWhile P xs) \<le> length (takeWhile Q xs)"
  by (induction xs) auto

text \<open>The queries of a \<open>MonotonousArray\<close> are those of fresh searches.\<close>

lemma ma_queries_fresh:
  assumes "\<forall>P \<in> set Ps. monotonous P xs"
    and "sorted_wrt (\<lambda>P Q. \<forall>x \<in> set xs. P x \<longrightarrow> Q x) Ps"
    and "\<forall>P \<in> set Ps. s \<le> length (takeWhile P xs)"
  shows "ma_queries Ps \<lparr>ma_array = xs, ma_last = s\<rparr> = map (findLastMonotonous xs) Ps"
  using assms
proof (induction Ps arbitrary: s)
  case (Cons P Ps)
  let ?n = "length (takeWhile P xs)"
  have loop: "last_mono_loop xs P s (length xs) = ?n" "last_mono_loop xs P 0 (length xs) = ?n"
    using Cons.prems by (auto intro: last_mono_loop_takeWhile)
  have "?n \<le> length (takeWhile Q xs)" if "Q \<in> set Ps" for Q
  proof -
    have "\<forall>x \<in> set xs. P x \<longrightarrow> Q x" using Cons.prems(2) that by (simp only: sorted_wrt.simps) blast
    then show ?thesis by (rule takeWhile_length_mono)
  qed
  with Cons show ?case
    by (simp add: ma_findLastMonotonous_def findLastMonotonous_def findLastIdxMonotonous_def loop Let_def)
qed simp

lemma fold_first_max:
  fixes f :: "'a \<Rightarrow> int"
  assumes "\<And>a b. (0 < cmp a b) = (f b < f a)"
  shows "f (fold (\<lambda>item mx. if cmp item mx > 0 then item else mx) rest x) = Max (f ` set (x # rest))
    \<and> fold (\<lambda>item mx. if cmp item mx > 0 then item else mx) rest x \<in> set (x # rest)"
proof (induction rest arbitrary: x)
  case (Cons y ys)
  let ?z = "if cmp y x > 0 then y else x"
  have "f ?z = max (f x) (f y)" by (simp add: assms max_def)
  with Cons [of ?z] show ?case
    by (cases "ys = []") (auto simp: Max_insert max.assoc max.left_commute split: if_splits)
qed simp

end
