(* ===== verification/Intervals.thy ===== *)
theory Intervals
  imports Array_Search
begin

text \<open>
  What the sorted range sets of the editor core share: a list of half-open intervals in which
  no two touch, and the insertion that joins every interval a new one touches. The locale
  \<open>interval_set\<close> states the contract of a range type (its constructor returns the bounds it
  was given); \<open>Offset_Range\<close> and \<open>Line_Range\<close> interpret it for the two range classes.
\<close>

section \<open>Index loops over arrays\<close>

text \<open>\<open>while (i < xs.length && P(xs[i])) i++\<close>\<close>

function advance :: "('a \<Rightarrow> bool) \<Rightarrow> 'a list \<Rightarrow> nat \<Rightarrow> nat" where
  "advance P xs i = (if i < length xs \<and> P (xs ! i) then advance P xs (i + 1) else i)"
  by auto
termination by (relation "measure (\<lambda>(_, xs, i). length xs - i)") auto

declare advance.simps [simp del]

text \<open>\<open>xs.splice(i, n, ...ys)\<close> for \<open>i\<close> within the array\<close>

definition js_splice :: "nat \<Rightarrow> nat \<Rightarrow> 'a list \<Rightarrow> 'a list \<Rightarrow> 'a list" where
  "js_splice i n ys xs = take i xs @ ys @ drop (i + n) xs"

lemma advance_takeWhile: "advance P xs i = i + length (takeWhile P (drop i xs))"
proof (induction P xs i rule: advance.induct)
  case (1 P xs i)
  show ?case
  proof (cases "i < length xs \<and> P (xs ! i)")
    case True
    then have "drop i xs = xs ! i # drop (i + 1) xs" by (simp add: Cons_nth_drop_Suc)
    with True 1 [OF True] show ?thesis by (simp add: advance.simps [of P xs i])
  next
    case False
    have "takeWhile P (drop i xs) = []"
      using False by (cases "drop i xs") (auto simp: nth_via_drop not_less dest: arg_cong [of _ _ length])
    with False show ?thesis by (auto simp: advance.simps [of P xs i])
  qed
qed

lemma take_length_takeWhile: "take (length (takeWhile P xs)) xs = takeWhile P xs"
  by (metis takeWhile_eq_take)

lemma drop_length_takeWhile: "drop (length (takeWhile P xs)) xs = dropWhile P xs"
  by (metis dropWhile_eq_drop)

lemma nth_middle: "xs = a @ b @ c \<Longrightarrow> k < length b \<Longrightarrow> xs ! (length a + k) = b ! k"
  by (simp add: nth_append)

lemma nth_middle_last: "xs = a @ b @ c \<Longrightarrow> b \<noteq> [] \<Longrightarrow> xs ! (length a + length b - 1) = last b"
  by (cases b rule: rev_cases) (auto simp: nth_append)

lemma sorted_dropWhile_not:
  assumes "sorted_wrt R xs" and "\<And>a b. a \<in> set xs \<Longrightarrow> b \<in> set xs \<Longrightarrow> R a b \<Longrightarrow> P b \<Longrightarrow> P a"
    and "y \<in> set (dropWhile P xs)"
  shows "\<not> P y"
  using assms by (induction xs) (auto split: if_splits)

section \<open>Sorted lists of intervals\<close>

definition cover :: "('r \<Rightarrow> int) \<Rightarrow> ('r \<Rightarrow> int) \<Rightarrow> 'r list \<Rightarrow> int set" where
  "cover lo hi rs = (\<Union>r \<in> set rs. {lo r..<hi r})"

definition apart :: "('r \<Rightarrow> int) \<Rightarrow> ('r \<Rightarrow> int) \<Rightarrow> 'r list \<Rightarrow> bool" where
  "apart lo hi rs \<longleftrightarrow> sorted_wrt (\<lambda>a b. hi a < lo b) rs \<and> (\<forall>r \<in> set rs. lo r \<le> hi r)"

definition add_interval ::
  "('r \<Rightarrow> int) \<Rightarrow> ('r \<Rightarrow> int) \<Rightarrow> (int \<Rightarrow> int \<Rightarrow> 'r) \<Rightarrow> 'r \<Rightarrow> 'r list \<Rightarrow> 'r list" where
  "add_interval lo hi mk x rs =
     (let pre = takeWhile (\<lambda>r. hi r < lo x) rs;
          rest = dropWhile (\<lambda>r. hi r < lo x) rs;
          mid = takeWhile (\<lambda>r. lo r \<le> hi x) rest;
          post = dropWhile (\<lambda>r. lo r \<le> hi x) rest
      in pre @ (if mid = [] then x
                else mk (min (lo x) (lo (hd mid))) (max (hi x) (hi (last mid)))) # post)"

lemma cover_simps [simp]:
  "cover lo hi [] = {}"
  "cover lo hi (r # rs) = {lo r..<hi r} \<union> cover lo hi rs"
  "cover lo hi (xs @ ys) = cover lo hi xs \<union> cover lo hi ys"
  by (auto simp: cover_def)

lemma mem_cover: "n \<in> cover lo hi rs \<longleftrightarrow> (\<exists>r \<in> set rs. lo r \<le> n \<and> n < hi r)"
  by (auto simp: cover_def)

lemma apart_simps [simp]:
  "apart lo hi []"
  "apart lo hi (r # rs) \<longleftrightarrow> lo r \<le> hi r \<and> (\<forall>s \<in> set rs. hi r < lo s) \<and> apart lo hi rs"
  by (auto simp: apart_def)

lemma apart_append:
  "apart lo hi (xs @ ys) \<longleftrightarrow> apart lo hi xs \<and> apart lo hi ys \<and> (\<forall>x \<in> set xs. \<forall>y \<in> set ys. hi x < lo y)"
  by (auto simp: apart_def sorted_wrt_append)

lemma apart_dropWhile_hi:
  assumes "apart lo hi rs" and "r \<in> set (dropWhile (\<lambda>r. hi r < n) rs)"
  shows "n \<le> hi r"
proof -
  have "\<not> hi r < n"
    by (rule sorted_dropWhile_not [OF _ _ assms(2)]) (use assms(1) in \<open>fastforce simp: apart_def\<close>)+
  then show ?thesis by simp
qed

lemma apart_dropWhile_lo:
  assumes "apart lo hi rs" and "r \<in> set (dropWhile (\<lambda>r. lo r \<le> n) rs)"
  shows "n < lo r"
proof -
  have "\<not> lo r \<le> n"
    by (rule sorted_dropWhile_not [OF _ _ assms(2)]) (use assms(1) in \<open>fastforce simp: apart_def\<close>)+
  then show ?thesis by simp
qed

lemma apart_parts:
  assumes "apart lo hi rs"
  shows "apart lo hi (takeWhile P rs)" "apart lo hi (dropWhile P rs)"
    and "x \<in> set (takeWhile P rs) \<Longrightarrow> y \<in> set (dropWhile P rs) \<Longrightarrow> hi x < lo y"
  using assms takeWhile_dropWhile_id [of P rs] apart_append [of lo hi "takeWhile P rs" "dropWhile P rs"]
  by auto

lemma apart_bounds:
  assumes "apart lo hi rs" and "m \<in> set rs"
  shows "lo (hd rs) \<le> lo m" "hi m \<le> hi (last rs)"
proof -
  show "lo (hd rs) \<le> lo m" using assms by (cases rs) fastforce+
  have rs: "rs = butlast rs @ [last rs]" using assms(2) by (cases rs rule: rev_cases) auto
  have "apart lo hi (butlast rs @ [last rs])" "m \<in> set (butlast rs @ [last rs])"
    using assms rs by simp_all
  then show "hi m \<le> hi (last rs)" by (fastforce simp: apart_append)
qed

lemma hull_cover:
  assumes ap: "apart lo hi mid" and ne: "mid \<noteq> []"
    and touch: "\<And>m. m \<in> set mid \<Longrightarrow> lo x \<le> hi m \<and> lo m \<le> hi x"
  shows "{min (lo x) (lo (hd mid))..<max (hi x) (hi (last mid))} = {lo x..<hi x} \<union> cover lo hi mid"
proof (intro equalityI subsetI)
  fix n assume n: "n \<in> {min (lo x) (lo (hd mid))..<max (hi x) (hi (last mid))}"
  have h: "hd mid \<in> set mid" "last mid \<in> set mid" using ne by auto
  show "n \<in> {lo x..<hi x} \<union> cover lo hi mid"
  proof (cases "n < lo x")
    case True
    with n touch [OF h(1)] have "lo (hd mid) \<le> n" "n < hi (hd mid)" by auto
    with h show ?thesis by (auto simp: mem_cover)
  next
    case ge: False
    show ?thesis
    proof (cases "n < hi x")
      case False
      with n touch [OF h(2)] have "lo (last mid) \<le> n" "n < hi (last mid)" by auto
      with h show ?thesis by (auto simp: mem_cover)
    qed (use ge in simp)
  qed
next
  fix n assume "n \<in> {lo x..<hi x} \<union> cover lo hi mid"
  then show "n \<in> {min (lo x) (lo (hd mid))..<max (hi x) (hi (last mid))}"
    using apart_bounds [OF ap] by (fastforce simp: mem_cover)
qed

section \<open>The contract of a range type\<close>

locale interval_set =
  fixes lo :: "'r \<Rightarrow> int" and hi :: "'r \<Rightarrow> int" and mk :: "int \<Rightarrow> int \<Rightarrow> 'r"
  assumes lo_mk: "lo (mk a b) = a" and hi_mk: "hi (mk a b) = b"
begin

lemma add_cover:
  assumes ap: "apart lo hi rs"
  shows "cover lo hi (add_interval lo hi mk x rs) = {lo x..<hi x} \<union> cover lo hi rs"
proof -
  define pre where "pre = takeWhile (\<lambda>r. hi r < lo x) rs"
  define rest where "rest = dropWhile (\<lambda>r. hi r < lo x) rs"
  define mid where "mid = takeWhile (\<lambda>r. lo r \<le> hi x) rest"
  define post where "post = dropWhile (\<lambda>r. lo r \<le> hi x) rest"
  have rs: "rs = pre @ mid @ post" by (simp add: pre_def rest_def mid_def post_def)
  have mid: "apart lo hi mid" using ap unfolding rs by (simp add: apart_append)
  have touch: "lo x \<le> hi m \<and> lo m \<le> hi x" if "m \<in> set mid" for m
    using that apart_dropWhile_hi [OF ap, of m "lo x"]
    by (auto simp: mid_def rest_def dest: set_takeWhileD)
  show ?thesis
  proof (cases "mid = []")
    case True
    then show ?thesis
      by (simp add: add_interval_def Let_def flip: pre_def rest_def mid_def post_def) (auto simp: rs)
  next
    case False
    have "add_interval lo hi mk x rs
        = pre @ mk (min (lo x) (lo (hd mid))) (max (hi x) (hi (last mid))) # post"
      using False by (simp add: add_interval_def Let_def flip: pre_def rest_def mid_def post_def)
    with hull_cover [OF mid False touch] show ?thesis by (auto simp: rs lo_mk hi_mk)
  qed
qed

lemma add_apart:
  assumes ap: "apart lo hi rs" and x: "lo x \<le> hi x"
  shows "apart lo hi (add_interval lo hi mk x rs)"
proof -
  define pre where "pre = takeWhile (\<lambda>r. hi r < lo x) rs"
  define rest where "rest = dropWhile (\<lambda>r. hi r < lo x) rs"
  define mid where "mid = takeWhile (\<lambda>r. lo r \<le> hi x) rest"
  define post where "post = dropWhile (\<lambda>r. lo r \<le> hi x) rest"
  have rs: "rs = pre @ mid @ post" by (simp add: pre_def rest_def mid_def post_def)
  have rest: "apart lo hi rest" unfolding rest_def by (rule apart_parts(2) [OF ap])
  have after: "hi x < lo p" if "p \<in> set post" for p
    using apart_dropWhile_lo [OF rest] that by (simp add: post_def)
  have before: "hi p < lo x" if "p \<in> set pre" for p
    using that by (auto simp: pre_def dest: set_takeWhileD)
  have parts: "apart lo hi pre" "apart lo hi mid" "apart lo hi post"
    "\<And>p m. p \<in> set pre \<Longrightarrow> m \<in> set mid \<union> set post \<Longrightarrow> hi p < lo m"
    "\<And>m q. m \<in> set mid \<Longrightarrow> q \<in> set post \<Longrightarrow> hi m < lo q"
    using ap unfolding rs by (auto simp: apart_append)
  show ?thesis
  proof (cases "mid = []")
    case True
    then have "add_interval lo hi mk x rs = pre @ x # post"
      by (simp add: add_interval_def Let_def flip: pre_def rest_def mid_def post_def)
    with parts after before x show ?thesis by (auto simp: apart_append)
  next
    case False
    then have h: "hd mid \<in> set mid" "last mid \<in> set mid" by auto
    have "add_interval lo hi mk x rs
        = pre @ mk (min (lo x) (lo (hd mid))) (max (hi x) (hi (last mid))) # post"
      using False by (simp add: add_interval_def Let_def flip: pre_def rest_def mid_def post_def)
    with parts after before x h show ?thesis by (auto simp: apart_append lo_mk hi_mk)
  qed
qed

text \<open>Adding a family of ranges one by one covers exactly their union.\<close>

lemma fold_add:
  assumes "apart lo hi rs" and "\<forall>x \<in> set xs. lo x \<le> hi x"
  shows "apart lo hi (fold (add_interval lo hi mk) xs rs)
    \<and> cover lo hi (fold (add_interval lo hi mk) xs rs) = cover lo hi xs \<union> cover lo hi rs"
  using assms
proof (induction xs arbitrary: rs)
  case (Cons x xs)
  from Cons.IH [of "add_interval lo hi mk x rs"] Cons.prems add_apart [of rs x] add_cover [of rs x]
  show ?case by auto
qed simp

end

section \<open>Queries by position\<close>

lemma apart_find_last:
  assumes "apart lo hi rs"
  shows "(\<exists>r \<in> set rs. lo r \<le> n \<and> m < hi r) \<longleftrightarrow>
    (takeWhile (\<lambda>r. lo r \<le> n) rs \<noteq> [] \<and> m < hi (last (takeWhile (\<lambda>r. lo r \<le> n) rs)))"
proof
  assume "\<exists>r \<in> set rs. lo r \<le> n \<and> m < hi r"
  then obtain r where r: "r \<in> set rs" "lo r \<le> n" "m < hi r" by blast
  have mem: "r \<in> set (takeWhile (\<lambda>r. lo r \<le> n) rs)"
    using r apart_dropWhile_lo [OF assms, of r n]
    by (metis Un_iff leD set_append takeWhile_dropWhile_id)
  with r apart_bounds(2) [OF apart_parts(1) [OF assms] mem]
  show "takeWhile (\<lambda>r. lo r \<le> n) rs \<noteq> [] \<and> m < hi (last (takeWhile (\<lambda>r. lo r \<le> n) rs))" by auto
next
  assume "takeWhile (\<lambda>r. lo r \<le> n) rs \<noteq> [] \<and> m < hi (last (takeWhile (\<lambda>r. lo r \<le> n) rs))"
  then show "\<exists>r \<in> set rs. lo r \<le> n \<and> m < hi r" by (metis last_in_set set_takeWhileD)
qed

lemma apart_monotonous:
  assumes "apart lo hi rs"
  shows "monotonous (\<lambda>r. lo r \<le> n) rs" "monotonous (\<lambda>r. lo r < n) rs" "monotonous (\<lambda>r. \<not> n \<le> hi r) rs"
proof -
  have step: "lo (rs ! i) \<le> lo (rs ! j) \<and> hi (rs ! i) \<le> hi (rs ! j)" if "j < length rs" "i \<le> j" for i j
  proof (cases "i = j")
    case False
    with that assms have "hi (rs ! i) < lo (rs ! j)"
      by (auto simp: apart_def sorted_wrt_iff_nth_less)
    moreover have "lo (rs ! i) \<le> hi (rs ! i)" "lo (rs ! j) \<le> hi (rs ! j)"
      using assms that by (auto simp: apart_def)
    ultimately show ?thesis by simp
  qed simp
  show "monotonous (\<lambda>r. lo r \<le> n) rs" "monotonous (\<lambda>r. lo r < n) rs" "monotonous (\<lambda>r. \<not> n \<le> hi r) rs"
    unfolding monotonous_def using step by fastforce+
qed

end
