(* ===== verification/Js_Numbers.thy ===== *)
theory Js_Numbers
  imports Js_Values "HOL-Library.Word"
begin

text \<open>
  JavaScript's integer operators on numbers that are integers: the 32-bit truncation of
  \<open>| 0\<close>, the remainder \<open>%\<close>, and the index arguments of \<open>slice\<close> and \<open>substring\<close>.
\<close>

definition js_int32 :: "int \<Rightarrow> int" where
  "js_int32 x = sint (word_of_int x :: 32 word)"

definition js_mod :: "int \<Rightarrow> int \<Rightarrow> int" where
  "js_mod a b = sgn a * (\<bar>a\<bar> mod \<bar>b\<bar>)"

definition max_safe_integer :: int where
  "max_safe_integer = 9007199254740991"

text \<open>A negative index of \<open>slice\<close> counts from the end; \<open>substring\<close> clamps and swaps.\<close>

definition slice_index :: "int \<Rightarrow> nat \<Rightarrow> nat" where
  "slice_index i n = (if i < 0 then nat (int n + i) else min (nat i) n)"

definition js_slice :: "int \<Rightarrow> int \<Rightarrow> 'a list \<Rightarrow> 'a list" where
  "js_slice a b xs = sub_list (slice_index a (length xs)) (slice_index b (length xs)) xs"

definition js_substring :: "int \<Rightarrow> int \<Rightarrow> 'a list \<Rightarrow> 'a list" where
  "js_substring a b xs =
     (let i = min (nat a) (length xs); j = min (nat b) (length xs) in sub_list (min i j) (max i j) xs)"

lemma js_int32_id:
  assumes "- (2 ^ 31) \<le> x" and "x < 2 ^ 31"
  shows "js_int32 x = x"
  using assms by (simp add: js_int32_def signed_of_int signed_take_bit_int_eq_self)

lemma js_int32_small [simp]: "0 \<le> x \<Longrightarrow> x < 2 ^ 31 \<Longrightarrow> js_int32 x = x"
  by (rule js_int32_id) simp_all

lemma js_mod_nonneg: "0 \<le> a \<Longrightarrow> 0 < b \<Longrightarrow> js_mod a b = a mod b"
  by (cases "a = 0") (simp_all add: js_mod_def)

lemma js_slice_in:
  "0 \<le> a \<Longrightarrow> a \<le> b \<Longrightarrow> b \<le> int (length xs) \<Longrightarrow> js_slice a b xs = sub_list (nat a) (nat b) xs"
  by (simp add: js_slice_def slice_index_def min_absorb1 nat_le_iff)

lemma js_substring_in:
  "0 \<le> a \<Longrightarrow> a \<le> b \<Longrightarrow> b \<le> int (length xs) \<Longrightarrow> js_substring a b xs = sub_list (nat a) (nat b) xs"
  by (simp add: js_substring_def Let_def min_absorb1 nat_le_iff max_absorb2 nat_mono)

end
