(* ===== verification/Offset_Range.thy ===== *)
theory Offset_Range
  imports Intervals Js_Numbers
begin

text \<open>
  \<open>src/vs/editor/common/core/ranges/offsetRange.ts\<close>: half-open ranges of offsets and sorted
  sets of them. The constructor throws a \<open>BugIndicatingError\<close> for an inverted range; a method
  whose arguments can make it throw returns \<open>None\<close> there. A method that cannot (its own
  computation puts the ends in order) builds the record directly.
\<close>

section \<open>OffsetRange\<close>

record offset_range =
  o_start :: int
  o_end :: int

definition new_OffsetRange :: "int \<Rightarrow> int \<Rightarrow> offset_range option" where
  "new_OffsetRange s e = (if s > e then None else Some \<lparr>o_start = s, o_end = e\<rparr>)"

definition o_tryCreate :: "int \<Rightarrow> int \<Rightarrow> offset_range option" where
  "o_tryCreate s e = (if s > e then None else new_OffsetRange s e)"

definition o_ofLength :: "int \<Rightarrow> offset_range option" where
  "o_ofLength n = new_OffsetRange 0 n"

definition o_ofStartAndLength :: "int \<Rightarrow> int \<Rightarrow> offset_range option" where
  "o_ofStartAndLength s n = new_OffsetRange s (s + n)"

definition o_emptyAt :: "int \<Rightarrow> offset_range" where
  "o_emptyAt i = \<lparr>o_start = i, o_end = i\<rparr>"

definition o_isEmpty :: "offset_range \<Rightarrow> bool" where
  "o_isEmpty r \<longleftrightarrow> o_start r = o_end r"

definition o_delta :: "int \<Rightarrow> offset_range \<Rightarrow> offset_range" where
  "o_delta n r = \<lparr>o_start = o_start r + n, o_end = o_end r + n\<rparr>"

definition o_deltaStart :: "int \<Rightarrow> offset_range \<Rightarrow> offset_range option" where
  "o_deltaStart n r = new_OffsetRange (o_start r + n) (o_end r)"

definition o_deltaEnd :: "int \<Rightarrow> offset_range \<Rightarrow> offset_range option" where
  "o_deltaEnd n r = new_OffsetRange (o_start r) (o_end r + n)"

definition o_length :: "offset_range \<Rightarrow> int" where
  "o_length r = o_end r - o_start r"

definition o_toString :: "offset_range \<Rightarrow> string" where
  "o_toString r = ''['' @ show_int (o_start r) @ '', '' @ show_int (o_end r) @ '')''"

definition o_equals :: "offset_range \<Rightarrow> offset_range \<Rightarrow> bool" where
  "o_equals a b \<longleftrightarrow> o_start a = o_start b \<and> o_end a = o_end b"

definition o_containsRange :: "offset_range \<Rightarrow> offset_range \<Rightarrow> bool" where
  "o_containsRange r s \<longleftrightarrow> o_start r \<le> o_start s \<and> o_end s \<le> o_end r"

definition o_contains :: "offset_range \<Rightarrow> int \<Rightarrow> bool" where
  "o_contains r n \<longleftrightarrow> o_start r \<le> n \<and> n < o_end r"

definition o_join :: "offset_range \<Rightarrow> offset_range \<Rightarrow> offset_range" where
  "o_join r s = \<lparr>o_start = min (o_start r) (o_start s), o_end = max (o_end r) (o_end s)\<rparr>"

definition o_intersect :: "offset_range \<Rightarrow> offset_range \<Rightarrow> offset_range option" where
  "o_intersect r s =
     (let b = max (o_start r) (o_start s); e = min (o_end r) (o_end s)
      in if b \<le> e then new_OffsetRange b e else None)"

definition o_intersectionLength :: "offset_range \<Rightarrow> offset_range \<Rightarrow> int" where
  "o_intersectionLength r s =
     (let b = max (o_start r) (o_start s); e = min (o_end r) (o_end s) in max 0 (e - b))"

definition o_intersects :: "offset_range \<Rightarrow> offset_range \<Rightarrow> bool" where
  "o_intersects r s \<longleftrightarrow> (let b = max (o_start r) (o_start s); e = min (o_end r) (o_end s) in b < e)"

definition o_intersectsOrTouches :: "offset_range \<Rightarrow> offset_range \<Rightarrow> bool" where
  "o_intersectsOrTouches r s \<longleftrightarrow>
     (let b = max (o_start r) (o_start s); e = min (o_end r) (o_end s) in b \<le> e)"

definition o_isBefore :: "offset_range \<Rightarrow> offset_range \<Rightarrow> bool" where
  "o_isBefore r s \<longleftrightarrow> o_end r \<le> o_start s"

definition o_isAfter :: "offset_range \<Rightarrow> offset_range \<Rightarrow> bool" where
  "o_isAfter r s \<longleftrightarrow> o_start r \<ge> o_end s"

definition o_slice :: "offset_range \<Rightarrow> 'a list \<Rightarrow> 'a list" where
  "o_slice r xs = js_slice (o_start r) (o_end r) xs"

definition o_substring :: "offset_range \<Rightarrow> 'a list \<Rightarrow> 'a list" where
  "o_substring r xs = js_substring (o_start r) (o_end r) xs"

definition o_clip :: "offset_range \<Rightarrow> int \<Rightarrow> int option" where
  "o_clip r v = (if o_isEmpty r then None else Some (max (o_start r) (min (o_end r - 1) v)))"

definition o_clipCyclic :: "offset_range \<Rightarrow> int \<Rightarrow> int option" where
  "o_clipCyclic r v =
     (if o_isEmpty r then None
      else if v < o_start r then Some (o_end r - js_mod (o_start r - v) (o_length r))
      else if v \<ge> o_end r then Some (o_start r + js_mod (v - o_start r) (o_length r))
      else Some v)"

text \<open>\<open>map\<close> and \<open>forEach\<close> call \<open>f\<close> on the same offsets in the same order.\<close>

function offsets_from :: "int \<Rightarrow> int \<Rightarrow> int list" where
  "offsets_from i e = (if i < e then i # offsets_from (i + 1) e else [])"
  by auto
termination by (relation "measure (\<lambda>(i, e). nat (e - i))") auto

declare offsets_from.simps [simp del]

definition o_map :: "(int \<Rightarrow> 'a) \<Rightarrow> offset_range \<Rightarrow> 'a list" where
  "o_map f r = map f (offsets_from (o_start r) (o_end r))"

definition o_forEach :: "(int \<Rightarrow> 's \<Rightarrow> 's) \<Rightarrow> offset_range \<Rightarrow> 's \<Rightarrow> 's" where
  "o_forEach f r s = fold f (offsets_from (o_start r) (o_end r)) s"

definition o_joinRightTouching :: "offset_range \<Rightarrow> offset_range \<Rightarrow> offset_range option" where
  "o_joinRightTouching r s =
     (if o_end r \<noteq> o_start s then None else new_OffsetRange (o_start r) (o_end s))"

definition o_withMargin :: "int \<Rightarrow> int option \<Rightarrow> offset_range \<Rightarrow> offset_range option" where
  "o_withMargin ms me r = new_OffsetRange (o_start r - ms) (o_end r + or_else me ms)"

section \<open>Sorted lists of ranges\<close>

definition o_addRange :: "offset_range \<Rightarrow> offset_range list \<Rightarrow> offset_range list" where
  "o_addRange r rs =
     (let i = advance (\<lambda>x. o_end x < o_start r) rs 0;
          j = advance (\<lambda>x. o_start x \<le> o_end r) rs i
      in if i = j then js_splice i 0 [r] rs
         else js_splice i (j - i)
                [\<lparr>o_start = min (o_start r) (o_start (rs ! i)), o_end = max (o_end r) (o_end (rs ! (j - 1)))\<rparr>] rs)"

text \<open>The class \<open>OffsetRangeSet\<close> holds such a list.\<close>

record offset_range_set =
  os_ranges :: "offset_range list"

definition new_OffsetRangeSet :: offset_range_set where
  "new_OffsetRangeSet = \<lparr>os_ranges = []\<rparr>"

definition os_addRange :: "offset_range \<Rightarrow> offset_range_set \<Rightarrow> offset_range_set" where
  "os_addRange r s =
     (let rs = os_ranges s;
          i = advance (\<lambda>x. o_end x < o_start r) rs 0;
          j = advance (\<lambda>x. o_start x \<le> o_end r) rs i
      in s\<lparr>os_ranges :=
             (if i = j then js_splice i 0 [r] rs
              else js_splice i (j - i)
                [\<lparr>o_start = min (o_start r) (o_start (rs ! i)), o_end = max (o_end r) (o_end (rs ! (j - 1)))\<rparr>] rs)\<rparr>)"

definition os_toString :: "offset_range_set \<Rightarrow> string" where
  "os_toString s = join_with '', '' (map o_toString (os_ranges s))"

definition os_intersectsStrict :: "offset_range_set \<Rightarrow> offset_range \<Rightarrow> bool" where
  "os_intersectsStrict s r =
     (let rs = os_ranges s; i = advance (\<lambda>x. o_end x \<le> o_start r) rs 0
      in i < length rs \<and> o_start (rs ! i) < o_end r)"

definition os_intersectWithRange :: "offset_range_set \<Rightarrow> offset_range \<Rightarrow> offset_range_set" where
  "os_intersectWithRange s r =
     fold (\<lambda>x acc. case o_intersect x r of Some i \<Rightarrow> os_addRange i acc | None \<Rightarrow> acc)
       (os_ranges s) new_OffsetRangeSet"

definition os_length :: "offset_range_set \<Rightarrow> int" where
  "os_length s = foldl (\<lambda>prev cur. prev + o_length cur) 0 (os_ranges s)"

definition os_intersectWithRangeLength :: "offset_range_set \<Rightarrow> offset_range \<Rightarrow> int" where
  "os_intersectWithRangeLength s r = os_length (os_intersectWithRange s r)"

section \<open>Ranges\<close>

definition o_ok :: "offset_range \<Rightarrow> bool" where
  "o_ok r \<longleftrightarrow> o_start r \<le> o_end r"

definition o_set :: "offset_range \<Rightarrow> int set" where
  "o_set r = {o_start r..<o_end r}"

lemma new_OffsetRange_Some: "new_OffsetRange s e = Some r \<longleftrightarrow> s \<le> e \<and> r = \<lparr>o_start = s, o_end = e\<rparr>"
  by (auto simp: new_OffsetRange_def)

lemma o_contains_set: "o_contains r n \<longleftrightarrow> n \<in> o_set r"
  by (auto simp: o_contains_def o_set_def)

lemma o_ops_ok [simp]:
  "o_ok r \<Longrightarrow> o_ok s \<Longrightarrow> o_ok (o_join r s)" "o_ok r \<Longrightarrow> o_ok (o_delta n r)" "o_ok (o_emptyAt n)"
  "o_intersect r s = Some i \<Longrightarrow> o_ok i"
  by (auto simp: o_ok_def o_join_def o_delta_def o_emptyAt_def o_intersect_def Let_def
      new_OffsetRange_def split: if_splits)

text \<open>What the comment of \<open>join\<close> promises, and that the joined range is the smallest one.\<close>

lemma o_join_contains: "o_contains r n \<or> o_contains s n \<Longrightarrow> o_contains (o_join r s) n"
  by (auto simp: o_contains_def o_join_def)

lemma o_join_smallest:
  "o_containsRange t r \<and> o_containsRange t s \<longleftrightarrow> o_containsRange t (o_join r s)"
  by (auto simp: o_containsRange_def o_join_def)

lemma o_intersect_set: "o_intersect r s = Some i \<Longrightarrow> o_set i = o_set r \<inter> o_set s"
  by (auto simp: o_intersect_def o_set_def Let_def new_OffsetRange_Some split: if_splits)

lemma o_intersect_None: "o_intersect r s = None \<Longrightarrow> o_set r \<inter> o_set s = {}"
  by (auto simp: o_intersect_def o_set_def Let_def new_OffsetRange_def split: if_splits)

lemma o_intersects_iff: "o_intersects r s \<longleftrightarrow> (\<exists>n. o_contains r n \<and> o_contains s n)"
  unfolding o_intersects_def o_contains_def Let_def
  by (auto intro: exI [of _ "max (o_start r) (o_start s)"])

lemma o_intersectionLength_card: "o_intersectionLength r s = int (card (o_set r \<inter> o_set s))"
  by (simp add: o_intersectionLength_def o_set_def Let_def max_def)

lemma o_length_card: "o_ok r \<Longrightarrow> o_length r = int (card (o_set r))"
  by (simp add: o_length_def o_set_def o_ok_def)

lemma o_slice_length:
  assumes "o_ok r" "0 \<le> o_start r" "o_end r \<le> int (length xs)"
  shows "int (length (o_slice r xs)) = o_length r" "o_substring r xs = o_slice r xs"
  using assms by (simp_all add: o_slice_def o_substring_def js_slice_in js_substring_in o_ok_def
      length_sub_list o_length_def)

lemma o_clip_contained: "o_ok r \<Longrightarrow> o_clip r v = Some w \<Longrightarrow> o_contains r w \<and> (o_contains r v \<longrightarrow> w = v)"
  by (auto simp: o_clip_def o_isEmpty_def o_ok_def o_contains_def split: if_splits)

lemma offsets_from_upto: "offsets_from i e = [i..e - 1]"
  by (induction i e rule: offsets_from.induct) (simp add: offsets_from.simps upto.simps)

lemma o_map_length: "o_ok r \<Longrightarrow> int (length (o_map f r)) = o_length r"
  by (simp add: o_map_def offsets_from_upto o_ok_def o_length_def)

text \<open>
  \<open>clipCyclic\<close> adds a multiple of the length. The result is contained in the range except when
  the value is below the range by a multiple of the length: then it is the exclusive end.
\<close>

lemma o_clipCyclic_cases:
  assumes "o_ok r" and "o_clipCyclic r v = Some w"
  shows "\<exists>k. w = v + k * o_length r"
    and "o_contains r w \<or> (w = o_end r \<and> v < o_start r \<and> (o_start r - v) mod o_length r = 0)"
proof -
  have pos: "0 < o_length r"
    using assms by (auto simp: o_clipCyclic_def o_isEmpty_def o_length_def o_ok_def split: if_splits)
  consider (below) "v < o_start r" "w = o_end r - (o_start r - v) mod o_length r"
    | (above) "v \<ge> o_end r" "w = o_start r + (v - o_start r) mod o_length r"
    | (inside) "o_start r \<le> v" "v < o_end r" "w = v"
    using assms pos by (auto simp: o_clipCyclic_def js_mod_nonneg o_length_def split: if_splits)
  then have "(\<exists>k. w = v + k * o_length r) \<and>
     (o_contains r w \<or> (w = o_end r \<and> v < o_start r \<and> (o_start r - v) mod o_length r = 0))"
  proof cases
    case below
    let ?q = "(o_start r - v) div o_length r"
    have "w = v + (?q + 1) * o_length r"
      using below(2) div_mult_mod_eq [of "o_start r - v" "o_length r"]
      by (simp add: o_length_def algebra_simps)
    moreover have "0 \<le> (o_start r - v) mod o_length r" "(o_start r - v) mod o_length r < o_length r"
      using pos by simp_all
    ultimately show ?thesis
      using below by (intro conjI exI [of _ "?q + 1"]) (auto simp: o_contains_def o_length_def)
  next
    case above
    let ?q = "(v - o_start r) div o_length r"
    have "w = v + (- ?q) * o_length r"
      using above(2) div_mult_mod_eq [of "v - o_start r" "o_length r"] by (simp add: algebra_simps)
    moreover have "0 \<le> (v - o_start r) mod o_length r" "(v - o_start r) mod o_length r < o_length r"
      using pos by simp_all
    ultimately show ?thesis
      using above by (intro conjI exI [of _ "- ?q"]) (auto simp: o_contains_def o_length_def)
  next
    case inside
    then have "w = v + 0 * o_length r" by simp
    with inside show ?thesis by (auto simp: o_contains_def)
  qed
  then show "\<exists>k. w = v + k * o_length r"
    and "o_contains r w \<or> (w = o_end r \<and> v < o_start r \<and> (o_start r - v) mod o_length r = 0)"
    by auto
qed

lemma o_clipCyclic_not_contained:
  "o_clipCyclic \<lparr>o_start = 5, o_end = 10\<rparr> 0 = Some 10 \<and> \<not> o_contains \<lparr>o_start = 5, o_end = 10\<rparr> 10"
  by (simp add: o_clipCyclic_def o_isEmpty_def o_length_def o_contains_def js_mod_def)

section \<open>Sets of ranges\<close>

definition mk_offset_range :: "int \<Rightarrow> int \<Rightarrow> offset_range" where
  "mk_offset_range s e = \<lparr>o_start = s, o_end = e\<rparr>"

interpretation offset_set: interval_set o_start o_end mk_offset_range
  by unfold_locales (simp_all add: mk_offset_range_def)

lemma o_addRange_interval: "o_addRange r rs = add_interval o_start o_end mk_offset_range r rs"
proof -
  let ?P = "\<lambda>x. o_end x < o_start r" and ?Q = "\<lambda>x. o_start x \<le> o_end r"
  let ?pre = "takeWhile ?P rs" and ?rest = "dropWhile ?P rs"
  have i: "advance ?P rs 0 = length ?pre" by (simp add: advance_takeWhile)
  have j: "advance ?Q rs (length ?pre) = length ?pre + length (takeWhile ?Q ?rest)"
    by (simp add: advance_takeWhile drop_length_takeWhile)
  have split: "rs = ?pre @ takeWhile ?Q ?rest @ dropWhile ?Q ?rest" by simp
  have nth: "rs ! (length ?pre + k) = takeWhile ?Q ?rest ! k" if "k < length (takeWhile ?Q ?rest)" for k
    using that by (rule nth_middle [OF split])
  have tail: "drop (length ?pre + length (takeWhile ?Q ?rest)) rs = dropWhile ?Q ?rest"
    by (simp only: drop_length_takeWhile add.commute [of "length ?pre"] flip: drop_drop)
  show ?thesis
  proof (cases "takeWhile ?Q ?rest = []")
    case True
    then have rest: "dropWhile ?Q ?rest = ?rest" by (metis append_Nil takeWhile_dropWhile_id)
    show ?thesis
      unfolding o_addRange_def add_interval_def Let_def i j using True
      by (simp add: js_splice_def take_length_takeWhile drop_length_takeWhile rest)
  next
    case False
    then have len: "0 < length (takeWhile ?Q ?rest)" by simp
    have "rs ! length ?pre = hd (takeWhile ?Q ?rest)"
      using nth [of 0] len by (simp add: hd_conv_nth)
    moreover have "rs ! (length ?pre + length (takeWhile ?Q ?rest) - 1) = last (takeWhile ?Q ?rest)"
      using nth [of "length (takeWhile ?Q ?rest) - 1"] len False by (simp add: last_conv_nth)
    ultimately show ?thesis
      unfolding o_addRange_def add_interval_def Let_def i j using False
      by (simp add: js_splice_def take_length_takeWhile tail mk_offset_range_def)
  qed
qed

lemma os_addRange_list: "os_ranges (os_addRange r s) = o_addRange r (os_ranges s)"
  by (simp add: os_addRange_def o_addRange_def Let_def)

definition os_ok :: "offset_range_set \<Rightarrow> bool" where
  "os_ok s \<longleftrightarrow> apart o_start o_end (os_ranges s)"

definition os_set :: "offset_range_set \<Rightarrow> int set" where
  "os_set s = cover o_start o_end (os_ranges s)"

lemma os_new [simp]: "os_ok new_OffsetRangeSet" "os_set new_OffsetRangeSet = {}"
  by (simp_all add: os_ok_def os_set_def new_OffsetRangeSet_def)

lemma os_addRange_ok: "os_ok s \<Longrightarrow> o_ok r \<Longrightarrow> os_ok (os_addRange r s)"
  by (simp add: os_ok_def os_addRange_list o_addRange_interval o_ok_def offset_set.add_apart)

lemma os_addRange_set: "os_ok s \<Longrightarrow> os_set (os_addRange r s) = o_set r \<union> os_set s"
  by (simp add: os_ok_def os_set_def o_set_def os_addRange_list o_addRange_interval offset_set.add_cover)

lemma os_intersect_fold:
  assumes "os_ok acc"
  shows "os_ok (fold (\<lambda>x acc. case o_intersect x r of Some i \<Rightarrow> os_addRange i acc | None \<Rightarrow> acc) rs acc)
    \<and> os_set (fold (\<lambda>x acc. case o_intersect x r of Some i \<Rightarrow> os_addRange i acc | None \<Rightarrow> acc) rs acc)
      = (cover o_start o_end rs \<inter> o_set r) \<union> os_set acc"
  using assms
proof (induction rs arbitrary: acc)
  case (Cons x xs)
  show ?case
  proof (cases "o_intersect x r")
    case None
    with Cons show ?thesis using o_intersect_None [OF None] by (auto simp: o_set_def)
  next
    case (Some i)
    have "os_ok (os_addRange i acc)" using Some Cons.prems by (simp add: os_addRange_ok)
    moreover have "os_set (os_addRange i acc) = (o_set x \<inter> o_set r) \<union> os_set acc"
      using os_addRange_set [OF Cons.prems, of i] o_intersect_set [OF Some] by simp
    moreover have "cover o_start o_end (x # xs) \<inter> o_set r
        = (o_set x \<inter> o_set r) \<union> (cover o_start o_end xs \<inter> o_set r)"
      by (auto simp: o_set_def)
    ultimately show ?thesis using Cons.IH [of "os_addRange i acc"] Some by (simp add: Un_ac)
  qed
qed simp

lemma os_length_card:
  assumes "os_ok s"
  shows "os_length s = int (card (os_set s))"
proof -
  have "foldl (\<lambda>prev cur. prev + o_length cur) n rs = n + int (card (cover o_start o_end rs))"
    if "apart o_start o_end rs" for rs n
    using that
  proof (induction rs arbitrary: n)
    case (Cons r rs)
    have disj: "{o_start r..<o_end r} \<inter> cover o_start o_end rs = {}"
      using Cons.prems by (force simp: mem_cover)
    have "finite (cover o_start o_end rs)" by (simp add: cover_def)
    with disj have "card ({o_start r..<o_end r} \<union> cover o_start o_end rs)
        = nat (o_end r - o_start r) + card (cover o_start o_end rs)"
      by (subst card_Un_disjoint) auto
    with Cons show ?case by (simp add: o_length_def)
  qed simp
  with assms show ?thesis by (simp add: os_length_def os_ok_def os_set_def)
qed

text \<open>
  \<open>intersectsStrict\<close> is exact for ranges that are not empty. An empty range strictly inside a
  stored one, or stored, is reported as intersecting, against the comment of the method.
\<close>

lemma os_intersectsStrict_iff:
  assumes ok: "os_ok s" and ne: "\<forall>x \<in> set (os_ranges s). o_start x < o_end x" "o_start r < o_end r"
  shows "os_intersectsStrict s r \<longleftrightarrow> os_set s \<inter> o_set r \<noteq> {}"
proof -
  let ?P = "\<lambda>x. o_end x \<le> o_start r"
  have ap: "apart o_start o_end (os_ranges s)" using ok by (simp add: os_ok_def)
  have i: "advance ?P (os_ranges s) 0 = length (takeWhile ?P (os_ranges s))"
    by (simp add: advance_takeWhile)
  show ?thesis
  proof (cases "dropWhile ?P (os_ranges s)")
    case Nil
    then have "length (takeWhile ?P (os_ranges s)) = length (os_ranges s)"
      by (metis append_Nil2 takeWhile_dropWhile_id)
    moreover have "\<forall>x \<in> set (os_ranges s). o_end x \<le> o_start r" using Nil by (simp add: dropWhile_eq_Nil_conv)
    ultimately show ?thesis by (force simp: os_intersectsStrict_def Let_def i os_set_def o_set_def mem_cover)
  next
    case (Cons y ys)
    have split: "os_ranges s = takeWhile ?P (os_ranges s) @ y # ys" by (metis Cons takeWhile_dropWhile_id)
    have y: "o_start r < o_end y" using hd_dropWhile [of ?P "os_ranges s"] Cons by auto
    have yin: "y \<in> set (os_ranges s)" using split by (metis in_set_conv_decomp)
    have lt: "length (takeWhile ?P (os_ranges s)) < length (os_ranges s)"
      using arg_cong [OF split, of length] by simp
    have nth: "os_ranges s ! length (takeWhile ?P (os_ranges s)) = y"
      using nth_middle [of "os_ranges s" "takeWhile ?P (os_ranges s)" "[y]" ys 0] split by simp
    have later: "\<forall>z \<in> set ys. o_end y < o_start z" using ap unfolding arg_cong [OF split, of "apart o_start o_end"] by (simp add: apart_append)
    have "os_intersectsStrict s r \<longleftrightarrow> o_start y < o_end r"
      using lt nth by (simp add: os_intersectsStrict_def Let_def i)
    also have "\<dots> \<longleftrightarrow> os_set s \<inter> o_set r \<noteq> {}"
    proof
      assume "o_start y < o_end r"
      with ne y yin have "max (o_start y) (o_start r) \<in> os_set s \<inter> o_set r"
        by (auto simp: os_set_def o_set_def mem_cover intro!: bexI [of _ y])
      then show "os_set s \<inter> o_set r \<noteq> {}" by blast
    next
      assume "os_set s \<inter> o_set r \<noteq> {}"
      then obtain n x where x: "x \<in> set (os_ranges s)" "o_start x \<le> n" "n < o_end x" "o_start r \<le> n" "n < o_end r"
        by (auto simp: os_set_def o_set_def mem_cover)
      have "x \<notin> set (takeWhile ?P (os_ranges s))" using x by (auto dest: set_takeWhileD)
      with x(1) have "x = y \<or> x \<in> set ys" using arg_cong [OF split, of set] by auto
      with x later ne(1) yin show "o_start y < o_end r" by force
    qed
    finally show ?thesis .
  qed
qed

lemma os_intersectsStrict_empty_query:
  "let s = os_addRange \<lparr>o_start = 3, o_end = 8\<rparr> new_OffsetRangeSet; q = \<lparr>o_start = 5, o_end = 5\<rparr>
   in os_intersectsStrict s q \<and> \<not> (\<exists>n. n \<in> os_set s \<and> o_contains q n)"
  by (simp add: os_addRange_def new_OffsetRangeSet_def js_splice_def os_intersectsStrict_def
      advance.simps o_contains_def)

lemma fold_os_addRange:
  assumes "\<forall>r \<in> set rs. o_ok r" and "os_ok s"
  shows "os_ok (fold os_addRange rs s) \<and> os_set (fold os_addRange rs s) = \<Union> (o_set ` set rs) \<union> os_set s"
  using assms
proof (induction rs arbitrary: s)
  case (Cons r rs)
  then show ?case
    using os_addRange_ok [of s r] os_addRange_set [of s r] Cons.IH [of "os_addRange r s"] by auto
qed simp

lemma os_intersectWithRange_set:
  assumes "os_ok s"
  shows "os_ok (os_intersectWithRange s r)" "os_set (os_intersectWithRange s r) = os_set s \<inter> o_set r"
  using os_intersect_fold [of new_OffsetRangeSet r "os_ranges s"]
  by (simp_all add: os_intersectWithRange_def os_set_def [of s])

section \<open>Properties\<close>

text \<open>
  C12. A set built by adding ranges in any order and with any overlaps holds exactly their
  union, as ranges in ascending order of which no two touch; its length is the number of
  offsets in it, and its intersection with a range is the intersection of the sets, with the
  length the code computes.
\<close>

theorem offset_range_set_union:
  assumes "\<forall>r \<in> set rs. o_ok r"
  shows "let s = fold os_addRange rs new_OffsetRangeSet in
    os_ok s \<and> os_set s = \<Union> (o_set ` set rs) \<and> os_length s = int (card (\<Union> (o_set ` set rs)))
    \<and> (\<forall>q. os_ok (os_intersectWithRange s q) \<and> os_set (os_intersectWithRange s q) = os_set s \<inter> o_set q
         \<and> os_intersectWithRangeLength s q = int (card (os_set s \<inter> o_set q)))"
proof -
  let ?s = "fold os_addRange rs new_OffsetRangeSet"
  have s: "os_ok ?s" "os_set ?s = \<Union> (o_set ` set rs)"
    using fold_os_addRange [OF assms, of new_OffsetRangeSet] by simp_all
  from os_intersectWithRange_set [OF s(1)]
  have "os_intersectWithRangeLength ?s q = int (card (os_set ?s \<inter> o_set q))" for q
    by (simp add: os_intersectWithRangeLength_def os_length_card)
  with s os_intersectWithRange_set [OF s(1)] os_length_card [OF s(1)] show ?thesis
    by (simp add: Let_def)
qed

theorem offset_range_set_union_witness:
  "os_length (fold os_addRange [\<lparr>o_start = 7, o_end = 9\<rparr>, \<lparr>o_start = 1, o_end = 3\<rparr>, \<lparr>o_start = 3, o_end = 5\<rparr>]
     new_OffsetRangeSet) = int (card ({7..<9} \<union> {1..<3} \<union> {3..<5::int}))"
proof -
  have "\<forall>r \<in> set [\<lparr>o_start = 7, o_end = 9\<rparr>, \<lparr>o_start = 1, o_end = 3\<rparr>, \<lparr>o_start = 3, o_end = 5\<rparr>]. o_ok r"
    by (simp add: o_ok_def)
  from offset_range_set_union [OF this] show ?thesis by (simp add: Let_def o_set_def Un_assoc)
qed

end
