(* ===== verification/Text_Position.thy ===== *)
theory Text_Position
  imports Js_Numbers
begin

text \<open>
  \<open>src/vs/editor/common/core/position.ts\<close> and \<open>range.ts\<close>: positions and ranges of text. The
  classes are immutable, so an instance is its fields; the instance method and the static
  method of a name are one definition. Positions are ordered as the editor orders them, by an
  instance of \<open>linorder\<close>; the lemmas state every predicate of \<open>Range\<close> in that order.
\<close>

section \<open>Positions\<close>

datatype position = Position (lineNumber: int) (column: int)

definition pos_with :: "int option \<Rightarrow> int option \<Rightarrow> position \<Rightarrow> position" where
  "pos_with newLine newColumn p =
     (let l = or_else newLine (lineNumber p); c = or_else newColumn (column p)
      in if l = lineNumber p \<and> c = column p then p else Position l c)"

definition pos_delta :: "int \<Rightarrow> int \<Rightarrow> position \<Rightarrow> position" where
  "pos_delta dl dc p = pos_with (Some (max 1 (lineNumber p + dl))) (Some (max 1 (column p + dc))) p"

definition pos_equals :: "position option \<Rightarrow> position option \<Rightarrow> bool" where
  "pos_equals a b =
     (case (a, b) of
        (None, None) \<Rightarrow> True
      | (Some p, Some q) \<Rightarrow> lineNumber p = lineNumber q \<and> column p = column q
      | _ \<Rightarrow> False)"

definition isBefore :: "position \<Rightarrow> position \<Rightarrow> bool" where
  "isBefore a b =
     (if lineNumber a < lineNumber b then True
      else if lineNumber b < lineNumber a then False
      else column a < column b)"

definition isBeforeOrEqual :: "position \<Rightarrow> position \<Rightarrow> bool" where
  "isBeforeOrEqual a b =
     (if lineNumber a < lineNumber b then True
      else if lineNumber b < lineNumber a then False
      else column a \<le> column b)"

definition pos_compare :: "position \<Rightarrow> position \<Rightarrow> int" where
  "pos_compare a b =
     (let al = js_int32 (lineNumber a); bl = js_int32 (lineNumber b)
      in if al = bl then js_int32 (column a) - js_int32 (column b) else al - bl)"

definition pos_toString :: "position \<Rightarrow> string" where
  "pos_toString p = ''('' @ show_int (lineNumber p) @ '','' @ show_int (column p) @ '')''"

instantiation position :: linorder
begin

definition less_eq_position :: "position \<Rightarrow> position \<Rightarrow> bool" where
  "less_eq_position a b \<longleftrightarrow> isBeforeOrEqual a b"

definition less_position :: "position \<Rightarrow> position \<Rightarrow> bool" where
  "less_position a b \<longleftrightarrow> isBefore a b"

instance
  by standard
    (auto simp: less_eq_position_def less_position_def isBefore_def isBeforeOrEqual_def
      split: if_splits intro: position.expand)

end

named_theorems position_simps \<open>positions and ranges as comparisons of lines and columns\<close>

lemma pos_le_iff [position_simps]:
  "a \<le> b \<longleftrightarrow> lineNumber a < lineNumber b \<or> lineNumber a = lineNumber b \<and> column a \<le> column b"
  by (auto simp: less_eq_position_def isBeforeOrEqual_def)

lemma pos_less_iff [position_simps]:
  "a < b \<longleftrightarrow> lineNumber a < lineNumber b \<or> lineNumber a = lineNumber b \<and> column a < column b"
  by (auto simp: less_position_def isBefore_def)

lemma pos_equals_eq: "pos_equals a b \<longleftrightarrow> a = b"
  by (auto simp: pos_equals_def split: option.splits intro: position.expand)

lemma pos_with_eq: "pos_with l c p = Position (or_else l (lineNumber p)) (or_else c (column p))"
  by (auto simp: pos_with_def Let_def intro: position.expand)

definition in_int32 :: "int \<Rightarrow> bool" where
  "in_int32 x \<longleftrightarrow> - (2 ^ 31) \<le> x \<and> x < 2 ^ 31"

lemma in_int32_id [simp]: "in_int32 x \<Longrightarrow> js_int32 x = x"
  by (simp add: in_int32_def js_int32_id)

definition pos_int32 :: "position \<Rightarrow> bool" where
  "pos_int32 p \<longleftrightarrow> in_int32 (lineNumber p) \<and> in_int32 (column p)"

lemma pos_compare_sign:
  assumes "pos_int32 a" and "pos_int32 b"
  shows "pos_compare a b < 0 \<longleftrightarrow> a < b" and "pos_compare a b = 0 \<longleftrightarrow> a = b"
  using assms
  by (auto simp: pos_compare_def pos_int32_def Let_def position_simps intro: position.expand)

section \<open>Ranges\<close>

record range =
  startLineNumber :: int
  startColumn :: int
  endLineNumber :: int
  endColumn :: int

text \<open>\<open>new Range\<close> exchanges the ends when they are in the wrong order.\<close>

definition mk_Range :: "int \<Rightarrow> int \<Rightarrow> int \<Rightarrow> int \<Rightarrow> range" where
  "mk_Range sl sc el ec =
     (if el < sl \<or> (sl = el \<and> ec < sc)
      then \<lparr>startLineNumber = el, startColumn = ec, endLineNumber = sl, endColumn = sc\<rparr>
      else \<lparr>startLineNumber = sl, startColumn = sc, endLineNumber = el, endColumn = ec\<rparr>)"

definition range_isEmpty :: "range \<Rightarrow> bool" where
  "range_isEmpty r \<longleftrightarrow> startLineNumber r = endLineNumber r \<and> startColumn r = endColumn r"

definition containsPosition :: "range \<Rightarrow> position \<Rightarrow> bool" where
  "containsPosition r p =
     (if lineNumber p < startLineNumber r \<or> lineNumber p > endLineNumber r then False
      else if lineNumber p = startLineNumber r \<and> column p < startColumn r then False
      else if lineNumber p = endLineNumber r \<and> column p > endColumn r then False
      else True)"

definition strictContainsPosition :: "range \<Rightarrow> position \<Rightarrow> bool" where
  "strictContainsPosition r p =
     (if lineNumber p < startLineNumber r \<or> lineNumber p > endLineNumber r then False
      else if lineNumber p = startLineNumber r \<and> column p \<le> startColumn r then False
      else if lineNumber p = endLineNumber r \<and> column p \<ge> endColumn r then False
      else True)"

definition containsRange :: "range \<Rightarrow> range \<Rightarrow> bool" where
  "containsRange r s =
     (if startLineNumber s < startLineNumber r \<or> endLineNumber s < startLineNumber r then False
      else if startLineNumber s > endLineNumber r \<or> endLineNumber s > endLineNumber r then False
      else if startLineNumber s = startLineNumber r \<and> startColumn s < startColumn r then False
      else if endLineNumber s = endLineNumber r \<and> endColumn s > endColumn r then False
      else True)"

definition strictContainsRange :: "range \<Rightarrow> range \<Rightarrow> bool" where
  "strictContainsRange r s =
     (if startLineNumber s < startLineNumber r \<or> endLineNumber s < startLineNumber r then False
      else if startLineNumber s > endLineNumber r \<or> endLineNumber s > endLineNumber r then False
      else if startLineNumber s = startLineNumber r \<and> startColumn s \<le> startColumn r then False
      else if endLineNumber s = endLineNumber r \<and> endColumn s \<ge> endColumn r then False
      else True)"

definition plusRange :: "range \<Rightarrow> range \<Rightarrow> range" where
  "plusRange a b =
     (let (sl, sc) =
            (if startLineNumber b < startLineNumber a then (startLineNumber b, startColumn b)
             else if startLineNumber b = startLineNumber a
               then (startLineNumber b, min (startColumn b) (startColumn a))
             else (startLineNumber a, startColumn a));
          (el, ec) =
            (if endLineNumber b > endLineNumber a then (endLineNumber b, endColumn b)
             else if endLineNumber b = endLineNumber a
               then (endLineNumber b, max (endColumn b) (endColumn a))
             else (endLineNumber a, endColumn a))
      in mk_Range sl sc el ec)"

definition intersectRanges :: "range \<Rightarrow> range \<Rightarrow> range option" where
  "intersectRanges a b =
     (let (sl, sc) =
            (if startLineNumber a < startLineNumber b then (startLineNumber b, startColumn b)
             else if startLineNumber a = startLineNumber b
               then (startLineNumber a, max (startColumn a) (startColumn b))
             else (startLineNumber a, startColumn a));
          (el, ec) =
            (if endLineNumber a > endLineNumber b then (endLineNumber b, endColumn b)
             else if endLineNumber a = endLineNumber b
               then (endLineNumber a, min (endColumn a) (endColumn b))
             else (endLineNumber a, endColumn a))
      in if sl > el then None
         else if sl = el \<and> sc > ec then None
         else Some (mk_Range sl sc el ec))"

definition equalsRange :: "range option \<Rightarrow> range option \<Rightarrow> bool" where
  "equalsRange a b =
     (case (a, b) of
        (None, None) \<Rightarrow> True
      | (Some r, Some s) \<Rightarrow> startLineNumber r = startLineNumber s \<and> startColumn r = startColumn s
          \<and> endLineNumber r = endLineNumber s \<and> endColumn r = endColumn s
      | _ \<Rightarrow> False)"

definition getEndPosition :: "range \<Rightarrow> position" where
  "getEndPosition r = Position (endLineNumber r) (endColumn r)"

definition getStartPosition :: "range \<Rightarrow> position" where
  "getStartPosition r = Position (startLineNumber r) (startColumn r)"

definition range_toString :: "range \<Rightarrow> string" where
  "range_toString r = ''['' @ show_int (startLineNumber r) @ '','' @ show_int (startColumn r) @ '' -> ''
     @ show_int (endLineNumber r) @ '','' @ show_int (endColumn r) @ '']''"

definition setEndPosition :: "int \<Rightarrow> int \<Rightarrow> range \<Rightarrow> range" where
  "setEndPosition el ec r = mk_Range (startLineNumber r) (startColumn r) el ec"

definition setStartPosition :: "int \<Rightarrow> int \<Rightarrow> range \<Rightarrow> range" where
  "setStartPosition sl sc r = mk_Range sl sc (endLineNumber r) (endColumn r)"

definition collapseToStart :: "range \<Rightarrow> range" where
  "collapseToStart r = mk_Range (startLineNumber r) (startColumn r) (startLineNumber r) (startColumn r)"

definition collapseToEnd :: "range \<Rightarrow> range" where
  "collapseToEnd r = mk_Range (endLineNumber r) (endColumn r) (endLineNumber r) (endColumn r)"

definition range_delta :: "int \<Rightarrow> range \<Rightarrow> range" where
  "range_delta n r = mk_Range (startLineNumber r + n) (startColumn r) (endLineNumber r + n) (endColumn r)"

definition isSingleLine :: "range \<Rightarrow> bool" where
  "isSingleLine r \<longleftrightarrow> startLineNumber r = endLineNumber r"

definition fromPositions :: "position \<Rightarrow> position \<Rightarrow> range" where
  "fromPositions s e = mk_Range (lineNumber s) (column s) (lineNumber e) (column e)"

definition range_lift :: "range option \<Rightarrow> range option" where
  "range_lift r = map_option (\<lambda>r. mk_Range (startLineNumber r) (startColumn r) (endLineNumber r) (endColumn r)) r"

definition areIntersectingOrTouching :: "range \<Rightarrow> range \<Rightarrow> bool" where
  "areIntersectingOrTouching a b =
     (if endLineNumber a < startLineNumber b \<or> (endLineNumber a = startLineNumber b \<and> endColumn a < startColumn b)
      then False
      else if endLineNumber b < startLineNumber a \<or> (endLineNumber b = startLineNumber a \<and> endColumn b < startColumn a)
      then False
      else True)"

definition areIntersecting :: "range \<Rightarrow> range \<Rightarrow> bool" where
  "areIntersecting a b =
     (if endLineNumber a < startLineNumber b \<or> (endLineNumber a = startLineNumber b \<and> endColumn a \<le> startColumn b)
      then False
      else if endLineNumber b < startLineNumber a \<or> (endLineNumber b = startLineNumber a \<and> endColumn b \<le> startColumn a)
      then False
      else True)"

definition areOnlyIntersecting :: "range \<Rightarrow> range \<Rightarrow> bool" where
  "areOnlyIntersecting a b =
     (if endLineNumber a < startLineNumber b - 1 \<or> (endLineNumber a = startLineNumber b \<and> endColumn a < startColumn b - 1)
      then False
      else if endLineNumber b < startLineNumber a - 1 \<or> (endLineNumber b = startLineNumber a \<and> endColumn b < startColumn a - 1)
      then False
      else True)"

definition compareRangesUsingStarts :: "range option \<Rightarrow> range option \<Rightarrow> int" where
  "compareRangesUsingStarts x y =
     (case (x, y) of
        (Some a, Some b) \<Rightarrow>
          (if js_int32 (startLineNumber a) = js_int32 (startLineNumber b) then
             if js_int32 (startColumn a) = js_int32 (startColumn b) then
               if js_int32 (endLineNumber a) = js_int32 (endLineNumber b)
               then js_int32 (endColumn a) - js_int32 (endColumn b)
               else js_int32 (endLineNumber a) - js_int32 (endLineNumber b)
             else js_int32 (startColumn a) - js_int32 (startColumn b)
           else js_int32 (startLineNumber a) - js_int32 (startLineNumber b))
      | _ \<Rightarrow> (if x \<noteq> None then 1 else 0) - (if y \<noteq> None then 1 else 0))"

definition compareRangesUsingEnds :: "range \<Rightarrow> range \<Rightarrow> int" where
  "compareRangesUsingEnds a b =
     (if endLineNumber a = endLineNumber b then
        if endColumn a = endColumn b then
          if startLineNumber a = startLineNumber b then startColumn a - startColumn b
          else startLineNumber a - startLineNumber b
        else endColumn a - endColumn b
      else endLineNumber a - endLineNumber b)"

definition spansMultipleLines :: "range \<Rightarrow> bool" where
  "spansMultipleLines r \<longleftrightarrow> endLineNumber r > startLineNumber r"

section \<open>Ranges as intervals of positions\<close>

definition range_ok :: "range \<Rightarrow> bool" where
  "range_ok r \<longleftrightarrow> getStartPosition r \<le> getEndPosition r"

lemma getPosition_sel [position_simps]:
  "lineNumber (getStartPosition r) = startLineNumber r" "column (getStartPosition r) = startColumn r"
  "lineNumber (getEndPosition r) = endLineNumber r" "column (getEndPosition r) = endColumn r"
  by (simp_all add: getStartPosition_def getEndPosition_def)

lemma mk_Range_ends:
  "getStartPosition (mk_Range sl sc el ec) = min (Position sl sc) (Position el ec)"
  "getEndPosition (mk_Range sl sc el ec) = max (Position sl sc) (Position el ec)"
  by (auto simp: mk_Range_def min_def max_def getStartPosition_def getEndPosition_def position_simps)

lemma mk_Range_ok [simp]: "range_ok (mk_Range sl sc el ec)"
  by (simp add: range_ok_def mk_Range_ends le_max_iff_disj min_le_iff_disj)

text \<open>Every operation that returns a range returns one whose ends are in order.\<close>

lemma range_ops_ok [simp]:
  "range_ok (plusRange a b)" "range_ok (setEndPosition l c r)" "range_ok (setStartPosition l c r)"
  "range_ok (collapseToStart r)" "range_ok (collapseToEnd r)" "range_ok (range_delta n r)"
  "range_ok (fromPositions p q)" "intersectRanges a b = Some i \<Longrightarrow> range_ok i"
  "range_lift x = Some r \<Longrightarrow> range_ok r"
  by (auto simp: plusRange_def setEndPosition_def setStartPosition_def collapseToStart_def
      collapseToEnd_def range_delta_def fromPositions_def intersectRanges_def range_lift_def
      Let_def split: prod.splits if_splits)

lemma range_eqI: "getStartPosition r = getStartPosition s \<Longrightarrow> getEndPosition r = getEndPosition s \<Longrightarrow> r = s"
  by (simp add: getStartPosition_def getEndPosition_def)

lemma containsPosition_iff:
  "containsPosition r p \<longleftrightarrow> getStartPosition r \<le> p \<and> p \<le> getEndPosition r"
  by (auto simp: containsPosition_def position_simps)

lemma strictContainsPosition_iff:
  "strictContainsPosition r p \<longleftrightarrow> getStartPosition r < p \<and> p < getEndPosition r"
  by (auto simp: strictContainsPosition_def position_simps)

lemma containsRange_iff:
  assumes "range_ok s"
  shows "containsRange r s \<longleftrightarrow> getStartPosition r \<le> getStartPosition s \<and> getEndPosition s \<le> getEndPosition r"
  using assms by (auto simp: containsRange_def range_ok_def position_simps)

lemma strictContainsRange_iff:
  assumes "range_ok s"
  shows "strictContainsRange r s \<longleftrightarrow> getStartPosition r < getStartPosition s \<and> getEndPosition s < getEndPosition r"
  using assms by (auto simp: strictContainsRange_def range_ok_def position_simps)

text \<open>The componentwise case distinctions of the code pick the smaller and the larger position.\<close>

lemma pick_position:
  "(if lb < la then (lb, cb) else if lb = la then (lb, min cb ca) else (la, ca))
     = (lineNumber (min (Position la ca) (Position lb cb)), column (min (Position la ca) (Position lb cb)))"
  "(if lb > la then (lb, cb) else if lb = la then (lb, max cb ca) else (la, ca))
     = (lineNumber (max (Position la ca) (Position lb cb)), column (max (Position la ca) (Position lb cb)))"
  "(if la < lb then (lb, cb) else if la = lb then (la, max ca cb) else (la, ca))
     = (lineNumber (max (Position la ca) (Position lb cb)), column (max (Position la ca) (Position lb cb)))"
  "(if la > lb then (lb, cb) else if la = lb then (la, min ca cb) else (la, ca))
     = (lineNumber (min (Position la ca) (Position lb cb)), column (min (Position la ca) (Position lb cb)))"
  by (auto simp: min_def max_def pos_le_iff)

lemma plusRange_ends:
  assumes "range_ok a" "range_ok b"
  shows "getStartPosition (plusRange a b) = min (getStartPosition a) (getStartPosition b)
    \<and> getEndPosition (plusRange a b) = max (getEndPosition a) (getEndPosition b)"
proof -
  let ?s = "min (getStartPosition a) (getStartPosition b)"
  let ?e = "max (getEndPosition a) (getEndPosition b)"
  have "?s \<le> ?e" using assms by (auto simp: range_ok_def min_le_iff_disj le_max_iff_disj)
  moreover have "plusRange a b = mk_Range (lineNumber ?s) (column ?s) (lineNumber ?e) (column ?e)"
    unfolding plusRange_def pick_position Let_def prod.case
    by (simp add: getStartPosition_def getEndPosition_def)
  ultimately show ?thesis by (simp add: mk_Range_ends)
qed

lemma intersectRanges_ends:
  "intersectRanges a b =
     (let s = max (getStartPosition a) (getStartPosition b); e = min (getEndPosition a) (getEndPosition b)
      in if s \<le> e then Some (fromPositions s e) else None)"
  unfolding intersectRanges_def pick_position Let_def prod.case fromPositions_def pos_le_iff
  by (auto simp: getStartPosition_def getEndPosition_def)

lemma fromPositions_ends:
  "p \<le> q \<Longrightarrow> getStartPosition (fromPositions p q) = p \<and> getEndPosition (fromPositions p q) = q"
  by (simp add: fromPositions_def mk_Range_ends)

lemma intersecting_iff:
  "areIntersectingOrTouching a b \<longleftrightarrow>
     getStartPosition b \<le> getEndPosition a \<and> getStartPosition a \<le> getEndPosition b"
  "areIntersecting a b \<longleftrightarrow>
     getStartPosition b < getEndPosition a \<and> getStartPosition a < getEndPosition b"
  by (auto simp: areIntersectingOrTouching_def areIntersecting_def position_simps)

definition range_int32 :: "range \<Rightarrow> bool" where
  "range_int32 r \<longleftrightarrow> pos_int32 (getStartPosition r) \<and> pos_int32 (getEndPosition r)"

lemma compare_starts_sign:
  assumes "range_int32 a" "range_int32 b"
  shows "compareRangesUsingStarts (Some a) (Some b) \<le> 0 \<longleftrightarrow>
    getStartPosition a < getStartPosition b
    \<or> getStartPosition a = getStartPosition b \<and> getEndPosition a \<le> getEndPosition b"
  using assms
  by (auto simp: compareRangesUsingStarts_def range_int32_def pos_int32_def position_simps
      getStartPosition_def getEndPosition_def)

lemma compare_ends_sign:
  "compareRangesUsingEnds a b \<le> 0 \<longleftrightarrow>
    getEndPosition a < getEndPosition b
    \<or> getEndPosition a = getEndPosition b \<and> getStartPosition a \<le> getStartPosition b"
  by (auto simp: compareRangesUsingEnds_def position_simps getStartPosition_def getEndPosition_def)

text \<open>
  Where the comments of \<open>range.ts\<close> say something else: \<open>areIntersecting\<close> (``if the ranges are
  touching it returns true'') rejects ranges that touch, and \<open>areOnlyIntersecting\<close>
  (``intersecting, but not touching at all'') accepts ranges that have no position in common.
\<close>

lemma areIntersecting_rejects_touching:
  "\<not> areIntersecting (mk_Range 1 1 1 4) (mk_Range 1 4 1 9)"
  by (simp add: areIntersecting_def mk_Range_def)

lemma areOnlyIntersecting_accepts_disjoint:
  "areOnlyIntersecting (mk_Range 1 1 1 4) (mk_Range 1 5 1 9)
   \<and> intersectRanges (mk_Range 1 1 1 4) (mk_Range 1 5 1 9) = None"
  by (simp add: areOnlyIntersecting_def intersectRanges_def mk_Range_def)

section \<open>Properties\<close>

text \<open>
  The intersection of two ranges is exact: it contains a position if and only if both
  ranges do, its ends are in order, and it is missing only when no position is in both.
\<close>

theorem range_intersection_exact:
  "case intersectRanges a b of
     None \<Rightarrow> \<not> (\<exists>p. containsPosition a p \<and> containsPosition b p)
   | Some i \<Rightarrow> range_ok i
       \<and> (\<forall>p. containsPosition i p = (containsPosition a p \<and> containsPosition b p))"
proof -
  let ?s = "max (getStartPosition a) (getStartPosition b)"
  let ?e = "min (getEndPosition a) (getEndPosition b)"
  have both: "(containsPosition a p \<and> containsPosition b p) = (?s \<le> p \<and> p \<le> ?e)" for p
    by (auto simp: containsPosition_iff)
  show ?thesis
  proof (cases "?s \<le> ?e")
    case True
    then have "containsPosition (fromPositions ?s ?e) p = (?s \<le> p \<and> p \<le> ?e)" for p
      by (simp add: containsPosition_iff fromPositions_ends)
    with True show ?thesis unfolding intersectRanges_ends both by (simp add: Let_def)
  next
    case False
    then show ?thesis unfolding intersectRanges_ends both by (auto simp: Let_def)
  qed
qed

text \<open>
  The reunion of two ranges is the least range that contains both: it contains them, and
  every range that contains them contains it.
\<close>

theorem range_reunion_least:
  assumes "range_ok a" and "range_ok b"
  shows "containsRange (plusRange a b) a \<and> containsRange (plusRange a b) b
    \<and> (\<forall>c. containsRange c a \<and> containsRange c b \<longrightarrow> containsRange c (plusRange a b))"
  using plusRange_ends [OF assms] assms by (auto simp: containsRange_iff)

theorem range_reunion_least_witness:
  "containsRange (plusRange (mk_Range 1 3 2 1) (mk_Range 4 1 4 2)) (mk_Range 1 3 2 1)
   \<and> containsRange (plusRange (mk_Range 1 3 2 1) (mk_Range 4 1 4 2)) (mk_Range 4 1 4 2)"
  using range_reunion_least [OF mk_Range_ok mk_Range_ok] by blast

end
