(* ===== verification/Line_Range.thy ===== *)
theory Line_Range
  imports Offset_Range Text_Position
begin

text \<open>
  \<open>src/vs/editor/common/core/ranges/lineRange.ts\<close>: half-open ranges of line numbers and the
  normalized sets of them that the diff and the inline-completion code compute with. As for
  offset ranges, a construction that the arguments can make throw is an option, and one whose
  ends are ordered by the code itself is the record.
\<close>

section \<open>LineRange\<close>

record line_range =
  l_start :: int
  l_end :: int

definition new_LineRange :: "int \<Rightarrow> int \<Rightarrow> line_range option" where
  "new_LineRange s e = (if s > e then None else Some \<lparr>l_start = s, l_end = e\<rparr>)"

definition l_ofLength :: "int \<Rightarrow> int \<Rightarrow> line_range option" where
  "l_ofLength s n = new_LineRange s (s + n)"

definition l_fromRange :: "range \<Rightarrow> line_range option" where
  "l_fromRange r = new_LineRange (startLineNumber r) (endLineNumber r)"

definition l_fromRangeInclusive :: "range \<Rightarrow> line_range option" where
  "l_fromRangeInclusive r = new_LineRange (startLineNumber r) (endLineNumber r + 1)"

definition l_subtract :: "line_range \<Rightarrow> line_range option \<Rightarrow> line_range list" where
  "l_subtract a ob =
     (case ob of
        None \<Rightarrow> [a]
      | Some b \<Rightarrow>
          if l_start a < l_start b \<and> l_end b < l_end a
          then [\<lparr>l_start = l_start a, l_end = l_start b\<rparr>, \<lparr>l_start = l_end b, l_end = l_end a\<rparr>]
          else if l_start b \<le> l_start a \<and> l_end a \<le> l_end b then []
          else if l_end b < l_end a then [\<lparr>l_start = max (l_end b) (l_start a), l_end = l_end a\<rparr>]
          else [\<lparr>l_start = l_start a, l_end = min (l_start b) (l_end a)\<rparr>])"

definition l_contains :: "line_range \<Rightarrow> int \<Rightarrow> bool" where
  "l_contains r n \<longleftrightarrow> l_start r \<le> n \<and> n < l_end r"

definition l_containsRange :: "line_range \<Rightarrow> line_range \<Rightarrow> bool" where
  "l_containsRange r s \<longleftrightarrow> l_start r \<le> l_start s \<and> l_end s \<le> l_end r"

definition l_isEmpty :: "line_range \<Rightarrow> bool" where
  "l_isEmpty r \<longleftrightarrow> l_start r = l_end r"

definition l_delta :: "int \<Rightarrow> line_range \<Rightarrow> line_range" where
  "l_delta n r = \<lparr>l_start = l_start r + n, l_end = l_end r + n\<rparr>"

definition l_deltaLength :: "int \<Rightarrow> line_range \<Rightarrow> line_range option" where
  "l_deltaLength n r = new_LineRange (l_start r) (l_end r + n)"

definition l_length :: "line_range \<Rightarrow> int" where
  "l_length r = l_end r - l_start r"

definition l_join :: "line_range \<Rightarrow> line_range \<Rightarrow> line_range" where
  "l_join r s = \<lparr>l_start = min (l_start r) (l_start s), l_end = max (l_end r) (l_end s)\<rparr>"

text \<open>The static \<open>LineRange.join\<close>; it throws on an empty array.\<close>

definition l_joinAll :: "line_range list \<Rightarrow> line_range option" where
  "l_joinAll rs =
     (case rs of
        [] \<Rightarrow> None
      | r # rest \<Rightarrow>
          (let (s, e) = fold (\<lambda>x (s, e). (min s (l_start x), max e (l_end x))) rest (l_start r, l_end r)
           in new_LineRange s e))"

definition l_toString :: "line_range \<Rightarrow> string" where
  "l_toString r = ''['' @ show_int (l_start r) @ '','' @ show_int (l_end r) @ '')''"

definition l_intersect :: "line_range \<Rightarrow> line_range \<Rightarrow> line_range option" where
  "l_intersect r s =
     (let b = max (l_start r) (l_start s); e = min (l_end r) (l_end s)
      in if b \<le> e then new_LineRange b e else None)"

definition l_intersectsStrict :: "line_range \<Rightarrow> line_range \<Rightarrow> bool" where
  "l_intersectsStrict r s \<longleftrightarrow> l_start r < l_end s \<and> l_start s < l_end r"

definition l_intersectsOrTouches :: "line_range \<Rightarrow> line_range \<Rightarrow> bool" where
  "l_intersectsOrTouches r s \<longleftrightarrow> l_start r \<le> l_end s \<and> l_start s \<le> l_end r"

definition l_equals :: "line_range \<Rightarrow> line_range \<Rightarrow> bool" where
  "l_equals a b \<longleftrightarrow> l_start a = l_start b \<and> l_end a = l_end b"

definition l_toInclusiveRange :: "line_range \<Rightarrow> range option" where
  "l_toInclusiveRange r =
     (if l_isEmpty r then None else Some (mk_Range (l_start r) 1 (l_end r - 1) max_safe_integer))"

definition l_toExclusiveRange :: "line_range \<Rightarrow> range" where
  "l_toExclusiveRange r = mk_Range (l_start r) 1 (l_end r) 1"

definition l_mapToLineArray :: "(int \<Rightarrow> 'a) \<Rightarrow> line_range \<Rightarrow> 'a list" where
  "l_mapToLineArray f r = map f (offsets_from (l_start r) (l_end r))"

definition l_forEach :: "(int \<Rightarrow> 's \<Rightarrow> 's) \<Rightarrow> line_range \<Rightarrow> 's \<Rightarrow> 's" where
  "l_forEach f r s = fold f (offsets_from (l_start r) (l_end r)) s"

definition l_serialize :: "line_range \<Rightarrow> int \<times> int" where
  "l_serialize r = (l_start r, l_end r)"

definition l_deserialize :: "int \<times> int \<Rightarrow> line_range option" where
  "l_deserialize p = new_LineRange (fst p) (snd p)"

definition l_toOffsetRange :: "line_range \<Rightarrow> offset_range option" where
  "l_toOffsetRange r = new_OffsetRange (l_start r - 1) (l_end r - 1)"

definition l_distanceToRange :: "line_range \<Rightarrow> line_range \<Rightarrow> int" where
  "l_distanceToRange r s =
     (if l_end r \<le> l_start s then l_start s - l_end r
      else if l_end s \<le> l_start r then l_start r - l_end s
      else 0)"

definition l_distanceToLine :: "line_range \<Rightarrow> int \<Rightarrow> int" where
  "l_distanceToLine r n =
     (if l_contains r n then 0
      else if n < l_start r then l_start r - n
      else n - l_end r)"

definition l_addMargin :: "int \<Rightarrow> int \<Rightarrow> line_range \<Rightarrow> line_range option" where
  "l_addMargin mt mb r = new_LineRange (l_start r - mt) (l_end r + mb)"

section \<open>LineRangeSet\<close>

record line_range_set =
  ls_ranges :: "line_range list"

definition new_LineRangeSet :: "line_range list \<Rightarrow> line_range_set" where
  "new_LineRangeSet rs = \<lparr>ls_ranges = rs\<rparr>"

definition ls_joinStart :: "line_range list \<Rightarrow> line_range \<Rightarrow> nat" where
  "ls_joinStart rs r = findFirstIdxMonotonousOrArrLen rs (\<lambda>x. l_end x \<ge> l_start r) 0 (length rs)"

definition ls_joinEnd :: "line_range list \<Rightarrow> line_range \<Rightarrow> nat" where
  "ls_joinEnd rs r = nat (findLastIdxMonotonous rs (\<lambda>x. l_start x \<le> l_end r) 0 (length rs) + 1)"

definition ls_addRange :: "line_range \<Rightarrow> line_range_set \<Rightarrow> line_range_set" where
  "ls_addRange r s =
     (let rs = ls_ranges s in
      if l_length r = 0 then s
      else
        (let i = ls_joinStart rs r; j = ls_joinEnd rs r
         in if i = j then s\<lparr>ls_ranges := js_splice i 0 [r] rs\<rparr>
            else if i = j - 1 then s\<lparr>ls_ranges := rs[i := l_join (rs ! i) r]\<rparr>
            else s\<lparr>ls_ranges := js_splice i (j - i) [l_join (l_join (rs ! i) (rs ! (j - 1))) r] rs\<rparr>))"

definition ls_contains :: "line_range_set \<Rightarrow> int \<Rightarrow> bool" where
  "ls_contains s n =
     (case findLastMonotonous (ls_ranges s) (\<lambda>x. l_start x \<le> n) of
        None \<Rightarrow> False | Some r \<Rightarrow> l_end r > n)"

definition ls_intersects :: "line_range_set \<Rightarrow> line_range \<Rightarrow> bool" where
  "ls_intersects s q =
     (case findLastMonotonous (ls_ranges s) (\<lambda>x. l_start x < l_end q) of
        None \<Rightarrow> False | Some r \<Rightarrow> l_end r > l_start q)"

text \<open>
  The merge loop of \<open>getUnion\<close>: \<open>xs\<close> and \<open>ys\<close> are the ranges from \<open>i1\<close> and \<open>i2\<close> on.
\<close>

definition ls_push :: "line_range \<Rightarrow> line_range option \<times> line_range list \<Rightarrow> line_range option \<times> line_range list" where
  "ls_push nxt st =
     (case st of
        (None, res) \<Rightarrow> (Some nxt, res)
      | (Some c, res) \<Rightarrow>
          if l_end c \<ge> l_start nxt
          then (Some \<lparr>l_start = l_start c, l_end = max (l_end c) (l_end nxt)\<rparr>, res)
          else (Some nxt, res @ [c]))"

fun ls_union_loop ::
  "line_range option \<times> line_range list \<Rightarrow> line_range list \<Rightarrow> line_range list \<Rightarrow> line_range list" where
  "ls_union_loop st (x # xs) (y # ys) =
     (if l_start x < l_start y then ls_union_loop (ls_push x st) xs (y # ys)
      else ls_union_loop (ls_push y st) (x # xs) ys)"
| "ls_union_loop st (x # xs) [] = ls_union_loop (ls_push x st) xs []"
| "ls_union_loop st [] (y # ys) = ls_union_loop (ls_push y st) [] ys"
| "ls_union_loop st [] [] = (case st of (None, res) \<Rightarrow> res | (Some c, res) \<Rightarrow> res @ [c])"

definition ls_getUnion :: "line_range_set \<Rightarrow> line_range_set \<Rightarrow> line_range_set" where
  "ls_getUnion s t =
     (if ls_ranges s = [] then t
      else if ls_ranges t = [] then s
      else new_LineRangeSet (ls_union_loop (None, []) (ls_ranges s) (ls_ranges t)))"

text \<open>The loop of \<open>subtractFrom\<close> over the touching ranges, then the last piece.\<close>

fun ls_subtract_loop :: "int \<Rightarrow> line_range list \<Rightarrow> int \<Rightarrow> line_range list" where
  "ls_subtract_loop start [] e = (if start < e then [\<lparr>l_start = start, l_end = e\<rparr>] else [])"
| "ls_subtract_loop start (r # rs) e =
     (if l_start r > start then [\<lparr>l_start = start, l_end = l_start r\<rparr>] else [])
     @ ls_subtract_loop (l_end r) rs e"

definition ls_subtractFrom :: "line_range_set \<Rightarrow> line_range \<Rightarrow> line_range_set" where
  "ls_subtractFrom s r =
     (let rs = ls_ranges s; i = ls_joinStart rs r; j = ls_joinEnd rs r
      in if i = j then new_LineRangeSet [r]
         else new_LineRangeSet (ls_subtract_loop (l_start r) (sub_list i j rs) (l_end r)))"

definition ls_toString :: "line_range_set \<Rightarrow> string" where
  "ls_toString s = join_with '', '' (map l_toString (ls_ranges s))"

function ls_intersection_loop :: "line_range list \<Rightarrow> line_range list \<Rightarrow> line_range list" where
  "ls_intersection_loop (x # xs) (y # ys) =
     (case l_intersect x y of Some i \<Rightarrow> if l_isEmpty i then [] else [i] | None \<Rightarrow> [])
     @ (if l_end x < l_end y then ls_intersection_loop xs (y # ys) else ls_intersection_loop (x # xs) ys)"
| "ls_intersection_loop [] ys = []"
| "ls_intersection_loop (x # xs) [] = []"
  by pat_completeness auto
termination by (relation "measure (\<lambda>(xs, ys). length xs + length ys)") auto

definition ls_getIntersection :: "line_range_set \<Rightarrow> line_range_set \<Rightarrow> line_range_set" where
  "ls_getIntersection s t = new_LineRangeSet (ls_intersection_loop (ls_ranges s) (ls_ranges t))"

definition ls_getWithDelta :: "line_range_set \<Rightarrow> int \<Rightarrow> line_range_set" where
  "ls_getWithDelta s n = new_LineRangeSet (map (l_delta n) (ls_ranges s))"

text \<open>\<open>LineRange.joinMany\<close>\<close>

definition l_joinMany :: "line_range list list \<Rightarrow> line_range list" where
  "l_joinMany rss =
     (case rss of
        [] \<Rightarrow> []
      | rs # rest \<Rightarrow>
          ls_ranges (fold (\<lambda>x acc. ls_getUnion acc (new_LineRangeSet x)) rest (new_LineRangeSet rs)))"

section \<open>Ranges as sets of lines\<close>

definition l_ok :: "line_range \<Rightarrow> bool" where
  "l_ok r \<longleftrightarrow> l_start r \<le> l_end r"

definition l_set :: "line_range \<Rightarrow> int set" where
  "l_set r = {l_start r..<l_end r}"

lemma new_LineRange_Some: "new_LineRange s e = Some r \<longleftrightarrow> s \<le> e \<and> r = \<lparr>l_start = s, l_end = e\<rparr>"
  by (auto simp: new_LineRange_def)

lemma l_contains_set: "l_contains r n \<longleftrightarrow> n \<in> l_set r"
  by (auto simp: l_contains_def l_set_def)

lemma l_deserialize_serialize: "l_ok r \<Longrightarrow> l_deserialize (l_serialize r) = Some r"
  by (simp add: l_deserialize_def l_serialize_def new_LineRange_def l_ok_def)

lemma l_subtract_set:
  assumes "l_ok a" "l_ok b"
  shows "(\<forall>r \<in> set (l_subtract a (Some b)). l_ok r)
    \<and> (\<Union> (l_set ` set (l_subtract a (Some b)))) = l_set a - l_set b"
  using assms by (auto simp: l_subtract_def l_set_def l_ok_def)

lemma l_intersect_cases:
  "case l_intersect r s of
     Some i \<Rightarrow> l_ok i \<and> l_set i = l_set r \<inter> l_set s | None \<Rightarrow> l_set r \<inter> l_set s = {}"
  by (auto simp: l_intersect_def Let_def new_LineRange_def l_ok_def l_set_def)

lemma l_intersectsStrict_iff:
  "l_start r < l_end r \<Longrightarrow> l_start s < l_end s \<Longrightarrow> l_intersectsStrict r s \<longleftrightarrow> l_set r \<inter> l_set s \<noteq> {}"
  unfolding l_intersectsStrict_def l_set_def
  by (auto simp: ex_in_conv [symmetric] intro: exI [of _ "max (l_start r) (l_start s)"])

lemma l_joinAll_hull:
  assumes "l_joinAll rs = Some h" and "r \<in> set rs"
  shows "l_containsRange h r"
proof -
  have mono: "fst (fold (\<lambda>x (s, e). (min s (l_start x), max e (l_end x))) xs (s, e)) \<le> s
      \<and> e \<le> snd (fold (\<lambda>x (s, e). (min s (l_start x), max e (l_end x))) xs (s, e))
      \<and> (\<forall>x \<in> set xs. fst (fold (\<lambda>x (s, e). (min s (l_start x), max e (l_end x))) xs (s, e)) \<le> l_start x
          \<and> l_end x \<le> snd (fold (\<lambda>x (s, e). (min s (l_start x), max e (l_end x))) xs (s, e)))" for xs s e
  proof (induction xs arbitrary: s e)
    case (Cons x xs)
    from Cons.IH [of "min s (l_start x)" "max e (l_end x)"] show ?case by auto
  qed simp
  from assms obtain x xs where rs: "rs = x # xs" by (cases rs) (auto simp: l_joinAll_def)
  from mono [of xs "l_start x" "l_end x"] assms show ?thesis
    by (auto simp: rs l_joinAll_def new_LineRange_Some l_containsRange_def split: prod.splits)
qed

lemma l_distanceToRange_touch:
  "l_ok r \<Longrightarrow> l_ok s \<Longrightarrow> l_distanceToRange r s = 0 \<longleftrightarrow> l_intersectsOrTouches r s"
  by (auto simp: l_distanceToRange_def l_intersectsOrTouches_def l_ok_def)

text \<open>The line just after a range has distance 0, the one just before it has distance 1.\<close>

lemma l_distanceToLine_asymmetric:
  "let r = \<lparr>l_start = 3, l_end = 6\<rparr> in
   \<not> l_contains r 6 \<and> l_distanceToLine r 6 = 0 \<and> \<not> l_contains r 2 \<and> l_distanceToLine r 2 = 1"
  by (simp add: l_distanceToLine_def l_contains_def)

section \<open>Normalized sets\<close>

definition mk_line_range :: "int \<Rightarrow> int \<Rightarrow> line_range" where
  "mk_line_range s e = \<lparr>l_start = s, l_end = e\<rparr>"

interpretation line_set: interval_set l_start l_end mk_line_range
  by unfold_locales (simp_all add: mk_line_range_def)

definition ls_ok :: "line_range_set \<Rightarrow> bool" where
  "ls_ok s \<longleftrightarrow> apart l_start l_end (ls_ranges s) \<and> (\<forall>r \<in> set (ls_ranges s). l_start r < l_end r)"

definition ls_set :: "line_range_set \<Rightarrow> int set" where
  "ls_set s = cover l_start l_end (ls_ranges s)"

lemma ls_okD: "ls_ok s \<Longrightarrow> apart l_start l_end (ls_ranges s)"
  by (simp add: ls_ok_def)

lemma ls_new [simp]: "ls_ok (new_LineRangeSet [])" "ls_set (new_LineRangeSet []) = {}"
  "ls_ranges (new_LineRangeSet rs) = rs"
  by (simp_all add: ls_ok_def ls_set_def new_LineRangeSet_def)

text \<open>The two binary searches cut the list into the ranges before, touching and after.\<close>

lemma ls_join_bounds:
  assumes ap: "apart l_start l_end rs" and r: "l_ok r"
  shows "ls_joinStart rs r = length (takeWhile (\<lambda>x. l_end x < l_start r) rs)"
    and "ls_joinEnd rs r = length (takeWhile (\<lambda>x. l_end x < l_start r) rs)
      + length (takeWhile (\<lambda>x. l_start x \<le> l_end r) (dropWhile (\<lambda>x. l_end x < l_start r) rs))"
proof -
  let ?P = "\<lambda>x. l_end x < l_start r" and ?Q = "\<lambda>x. l_start x \<le> l_end r"
  have neg: "(\<lambda>x. \<not> l_end x \<ge> l_start r) = ?P" by auto
  show "ls_joinStart rs r = length (takeWhile ?P rs)"
    using findFirstIdxMonotonous_takeWhile [OF apart_monotonous(3) [OF ap], of "l_start r"]
    by (simp add: ls_joinStart_def neg)
  have pre: "\<forall>x \<in> set (takeWhile ?P rs). ?Q x"
  proof
    fix x assume "x \<in> set (takeWhile ?P rs)"
    then have "x \<in> set rs" "l_end x < l_start r" by (auto dest: set_takeWhileD)
    moreover have "l_start x \<le> l_end x" using ap \<open>x \<in> set rs\<close> by (simp add: apart_def)
    ultimately show "l_start x \<le> l_end r" using r by (simp add: l_ok_def)
  qed
  have "takeWhile ?Q (takeWhile ?P rs @ dropWhile ?P rs) = takeWhile ?P rs @ takeWhile ?Q (dropWhile ?P rs)"
    by (rule takeWhile_append2) (use pre in blast)
  then have "takeWhile ?Q rs = takeWhile ?P rs @ takeWhile ?Q (dropWhile ?P rs)" by simp
  then show "ls_joinEnd rs r = length (takeWhile ?P rs) + length (takeWhile ?Q (dropWhile ?P rs))"
    by (simp add: ls_joinEnd_def findLastIdxMonotonous_takeWhile [OF apart_monotonous(1) [OF ap]])
qed

lemma ls_addRange_interval:
  assumes ok: "ls_ok s" and r: "l_start r < l_end r"
  shows "ls_ranges (ls_addRange r s) = add_interval l_start l_end mk_line_range r (ls_ranges s)"
proof -
  let ?rs = "ls_ranges s"
  let ?P = "\<lambda>x. l_end x < l_start r" and ?Q = "\<lambda>x. l_start x \<le> l_end r"
  let ?pre = "takeWhile ?P ?rs" and ?rest = "dropWhile ?P ?rs"
  let ?mid = "takeWhile ?Q ?rest" and ?post = "dropWhile ?Q ?rest"
  have ap: "apart l_start l_end ?rs" using ok by (simp add: ls_ok_def)
  have bounds: "ls_joinStart ?rs r = length ?pre" "ls_joinEnd ?rs r = length ?pre + length ?mid"
    using ls_join_bounds [OF ap, of r] r by (simp_all add: l_ok_def)
  have split: "?rs = ?pre @ ?mid @ ?post" by simp
  have nz: "l_length r \<noteq> 0" using r by (simp add: l_length_def)
  have tail: "drop (length ?pre + length ?mid) ?rs = ?post"
    by (simp only: drop_length_takeWhile add.commute [of "length ?pre"] flip: drop_drop)
  have bnd: "l_start (hd ?mid) \<le> l_start (last ?mid)" "l_end (hd ?mid) \<le> l_end (last ?mid)" if "?mid \<noteq> []"
    using apart_bounds [OF apart_parts(1) [OF apart_parts(2) [OF ap]], of _ ?Q ?P] that by auto
  show ?thesis
  proof (cases "?mid = []")
    case True
    then have "?post = ?rest" by (metis append_Nil takeWhile_dropWhile_id)
    then show ?thesis
      unfolding ls_addRange_def add_interval_def Let_def bounds using True nz
      by (simp add: js_splice_def take_length_takeWhile drop_length_takeWhile)
  next
    case ne: False
    have hd: "?rs ! length ?pre = hd ?mid"
      using nth_middle [OF split, of 0] ne by (simp add: hd_conv_nth)
    have last: "?rs ! (length ?pre + length ?mid - 1) = last ?mid"
      by (rule nth_middle_last [OF split ne])
    show ?thesis
    proof (cases "length ?mid = 1")
      case True
      then have one: "?mid = [hd ?mid]" by (cases ?mid) auto
      have upd: "?rs[length ?pre := x] = ?pre @ x # ?post" for x
        using split one by (metis append_Cons append_Nil list_update_length)
      have "last ?mid = hd ?mid" by (subst one) simp
      then show ?thesis
        unfolding ls_addRange_def add_interval_def Let_def bounds using ne nz True hd
        by (simp add: upd l_join_def mk_line_range_def min.commute max.commute)
    next
      case False
      with ne have "length ?pre \<noteq> length ?pre + length ?mid - 1" by (cases ?mid) auto
      with ne nz hd last bnd show ?thesis
        unfolding ls_addRange_def add_interval_def Let_def bounds
        by (simp add: js_splice_def take_length_takeWhile tail l_join_def mk_line_range_def
            min.commute max.commute min_absorb1 min_absorb2 max_absorb2)
    qed
  qed
qed

lemma add_interval_nonempty:
  assumes "\<forall>x \<in> set rs. l_start x < l_end x" "l_start r < l_end r"
  shows "\<forall>x \<in> set (add_interval l_start l_end mk_line_range r rs). l_start x < l_end x"
  using assms
  by (auto simp: add_interval_def Let_def mk_line_range_def dest!: set_takeWhileD set_dropWhileD)

lemma ls_addRange_empty: "l_start r = l_end r \<Longrightarrow> ls_addRange r s = s"
  by (simp add: ls_addRange_def l_length_def Let_def)

lemma ls_addRange_ok:
  assumes ok: "ls_ok s" and r: "l_ok r"
  shows "ls_ok (ls_addRange r s)"
proof (cases "l_start r = l_end r")
  case False
  then have lt: "l_start r < l_end r" using r by (simp add: l_ok_def)
  from ok have "apart l_start l_end (ls_ranges s)" and ne: "\<forall>x \<in> set (ls_ranges s). l_start x < l_end x"
    by (simp_all add: ls_ok_def)
  from line_set.add_apart [OF this(1), of r] add_interval_nonempty [OF ne lt] show ?thesis
    using lt by (simp add: ls_ok_def [of "ls_addRange r s"] ls_addRange_interval [OF ok lt])
qed (simp add: ls_addRange_empty ok)

lemma ls_addRange_set: "ls_ok s \<Longrightarrow> l_ok r \<Longrightarrow> ls_set (ls_addRange r s) = l_set r \<union> ls_set s"
  by (cases "l_start r = l_end r")
    (simp_all add: ls_addRange_empty l_set_def ls_set_def ls_addRange_interval l_ok_def
      line_set.add_cover ls_okD)

lemma ls_contains_iff:
  assumes "ls_ok s"
  shows "ls_contains s n \<longleftrightarrow> n \<in> ls_set s"
  using apart_find_last [OF ls_okD [OF assms], of n n]
  by (simp add: ls_contains_def findLastMonotonous_takeWhile [OF apart_monotonous(1) [OF ls_okD [OF assms]]]
      ls_set_def mem_cover)

lemma ls_intersects_iff:
  assumes "ls_ok s" and "l_start q < l_end q"
  shows "ls_intersects s q \<longleftrightarrow> ls_set s \<inter> l_set q \<noteq> {}"
proof -
  have lt: "(\<lambda>x. l_start x < l_end q) = (\<lambda>x. l_start x \<le> l_end q - 1)" by auto
  have "ls_intersects s q \<longleftrightarrow> (\<exists>r \<in> set (ls_ranges s). l_start r \<le> l_end q - 1 \<and> l_start q < l_end r)"
    unfolding apart_find_last [OF ls_okD [OF assms(1)], of "l_end q - 1" "l_start q"]
      ls_intersects_def lt findLastMonotonous_takeWhile [OF apart_monotonous(1) [OF ls_okD [OF assms(1)]]]
    by simp
  also have "\<dots> \<longleftrightarrow> (\<exists>r \<in> set (ls_ranges s). l_set r \<inter> l_set q \<noteq> {})"
  proof (rule bex_cong [OF refl])
    fix r assume "r \<in> set (ls_ranges s)"
    then have "l_start r < l_end r" using assms(1) by (simp add: ls_ok_def)
    then show "(l_start r \<le> l_end q - 1 \<and> l_start q < l_end r) = (l_set r \<inter> l_set q \<noteq> {})"
      using l_intersectsStrict_iff [of r q] assms(2) by (auto simp: l_intersectsStrict_def)
  qed
  also have "\<dots> \<longleftrightarrow> ls_set s \<inter> l_set q \<noteq> {}"
    unfolding ls_set_def l_set_def cover_def by blast
  finally show ?thesis .
qed

text \<open>Unions\<close>

definition union_inv :: "line_range option \<times> line_range list \<Rightarrow> line_range list \<Rightarrow> line_range list \<Rightarrow> bool" where
  "union_inv st xs ys \<longleftrightarrow> apart l_start l_end xs \<and> apart l_start l_end ys
     \<and> (case st of
          (None, res) \<Rightarrow> res = []
        | (Some c, res) \<Rightarrow> apart l_start l_end (res @ [c]) \<and> (\<forall>x \<in> set xs \<union> set ys. l_start c \<le> l_start x))"

definition union_cover :: "line_range option \<times> line_range list \<Rightarrow> int set" where
  "union_cover st = cover l_start l_end (snd st) \<union> (case fst st of None \<Rightarrow> {} | Some c \<Rightarrow> l_set c)"

lemma ls_push_cover:
  "(\<And>c. fst st = Some c \<Longrightarrow> l_start c \<le> l_start x \<and> l_ok c) \<Longrightarrow> l_ok x \<Longrightarrow>
   union_cover (ls_push x st) = union_cover st \<union> l_set x"
  by (cases st; cases "fst st")
    (auto simp: ls_push_def union_cover_def l_set_def l_ok_def split: if_splits)

lemma ls_push_apart:
  assumes "case st of (None, res) \<Rightarrow> res = []
      | (Some c, res) \<Rightarrow> apart l_start l_end (res @ [c]) \<and> l_start c \<le> l_start x"
    and "l_ok x"
  shows "\<exists>c res. ls_push x st = (Some c, res) \<and> apart l_start l_end (res @ [c]) \<and> l_start c \<le> l_start x"
  using assms
  by (cases st; cases "fst st") (fastforce simp: ls_push_def l_ok_def apart_append)+

lemma union_inv_step:
  assumes inv: "union_inv st xs ys" and x: "l_ok x" "\<And>c. fst st = Some c \<Longrightarrow> l_start c \<le> l_start x"
    and le: "\<forall>z \<in> set xs \<union> set ys. l_start x \<le> l_start z"
  shows "union_inv (ls_push x st) xs ys"
proof -
  have "case st of (None, res) \<Rightarrow> res = []
      | (Some c, res) \<Rightarrow> apart l_start l_end (res @ [c]) \<and> l_start c \<le> l_start x"
    using inv x(2) by (auto simp: union_inv_def split: option.splits prod.splits)
  from ls_push_apart [OF this x(1)] obtain c res where
    "ls_push x st = (Some c, res)" "apart l_start l_end (res @ [c])" "l_start c \<le> l_start x" by blast
  moreover have "\<forall>z \<in> set xs \<union> set ys. l_start c \<le> l_start z"
    using le \<open>l_start c \<le> l_start x\<close> by (meson order_trans)
  ultimately show ?thesis using inv by (simp add: union_inv_def)
qed

lemma union_inv_weaken:
  "union_inv st (x # xs) ys \<Longrightarrow> union_inv st xs ys" "union_inv st xs (y # ys) \<Longrightarrow> union_inv st xs ys"
  by (auto simp: union_inv_def split: option.splits prod.splits)

lemma union_inv_cur:
  assumes "union_inv st xs ys" "fst st = Some c" and "x \<in> set xs \<union> set ys"
  shows "l_start c \<le> l_start x \<and> l_ok c"
  using assms by (auto simp: union_inv_def l_ok_def apart_append split: option.splits prod.splits)

lemma ls_union_loop_spec:
  assumes "union_inv st xs ys"
  shows "apart l_start l_end (ls_union_loop st xs ys)
    \<and> cover l_start l_end (ls_union_loop st xs ys)
      = union_cover st \<union> cover l_start l_end xs \<union> cover l_start l_end ys"
  using assms
proof (induction st xs ys rule: ls_union_loop.induct)
  case (1 st x xs y ys)
  have ok: "l_ok x" "l_ok y" and after: "\<forall>z \<in> set xs. l_start x \<le> l_start z" "\<forall>z \<in> set ys. l_start y \<le> l_start z"
    using 1(3) by (fastforce simp: union_inv_def l_ok_def)+
  show ?case
  proof (cases "l_start x < l_start y")
    case True
    have "union_inv (ls_push x st) xs (y # ys)"
      by (rule union_inv_step [OF union_inv_weaken(1) [OF 1(3)] ok(1)])
        (use union_inv_cur [OF 1(3)] after True in \<open>fastforce+\<close>)
    moreover have "union_cover (ls_push x st) = union_cover st \<union> l_set x"
      by (rule ls_push_cover [OF _ ok(1)]) (use union_inv_cur [OF 1(3)] in auto)
    ultimately show ?thesis using 1(1) True by (simp add: l_set_def Un_ac)
  next
    case False
    have "union_inv (ls_push y st) (x # xs) ys"
      by (rule union_inv_step [OF union_inv_weaken(2) [OF 1(3)] ok(2)])
        (use union_inv_cur [OF 1(3)] after False in \<open>fastforce+\<close>)
    moreover have "union_cover (ls_push y st) = union_cover st \<union> l_set y"
      by (rule ls_push_cover [OF _ ok(2)]) (use union_inv_cur [OF 1(3)] in auto)
    ultimately show ?thesis using 1(2) False by (simp add: l_set_def Un_ac)
  qed
next
  case (2 st x xs)
  have ok: "l_ok x" and after: "\<forall>z \<in> set xs. l_start x \<le> l_start z"
    using 2(2) by (fastforce simp: union_inv_def l_ok_def)+
  have "union_inv (ls_push x st) xs []"
    by (rule union_inv_step [OF union_inv_weaken(1) [OF 2(2)] ok])
      (use union_inv_cur [OF 2(2)] after in \<open>fastforce+\<close>)
  moreover have "union_cover (ls_push x st) = union_cover st \<union> l_set x"
    by (rule ls_push_cover [OF _ ok]) (use union_inv_cur [OF 2(2)] in auto)
  ultimately show ?case using 2(1) by (simp add: l_set_def Un_ac)
next
  case (3 st y ys)
  have ok: "l_ok y" and after: "\<forall>z \<in> set ys. l_start y \<le> l_start z"
    using 3(2) by (fastforce simp: union_inv_def l_ok_def)+
  have "union_inv (ls_push y st) [] ys"
    by (rule union_inv_step [OF union_inv_weaken(2) [OF 3(2)] ok])
      (use union_inv_cur [OF 3(2)] after in \<open>fastforce+\<close>)
  moreover have "union_cover (ls_push y st) = union_cover st \<union> l_set y"
    by (rule ls_push_cover [OF _ ok]) (use union_inv_cur [OF 3(2)] in auto)
  ultimately show ?case using 3(1) by (simp add: l_set_def Un_ac)
next
  case (4 st)
  then show ?case
    by (cases st; cases "fst st") (auto simp: union_inv_def union_cover_def l_set_def)
qed

text \<open>Every range of a union starts where one of the merged ranges does and is not empty.\<close>

lemma ls_union_loop_nonempty:
  assumes "\<forall>r \<in> set xs \<union> set ys. l_start r < l_end r"
    and "case st of (c, res) \<Rightarrow> (\<forall>r \<in> set res. l_start r < l_end r) \<and> (\<forall>r. c = Some r \<longrightarrow> l_start r < l_end r)"
  shows "\<forall>r \<in> set (ls_union_loop st xs ys). l_start r < l_end r"
proof -
  have push: "case ls_push x st of (c, res) \<Rightarrow>
      (\<forall>r \<in> set res. l_start r < l_end r) \<and> (\<forall>r. c = Some r \<longrightarrow> l_start r < l_end r)"
    if "l_start x < l_end x"
      and "case st of (c, res) \<Rightarrow> (\<forall>r \<in> set res. l_start r < l_end r) \<and> (\<forall>r. c = Some r \<longrightarrow> l_start r < l_end r)"
    for x st
    using that by (cases st; cases "fst st") (auto simp: ls_push_def max_def)
  from assms show ?thesis
  proof (induction st xs ys rule: ls_union_loop.induct)
    case (1 st x xs y ys)
    then show ?case using push [of x st] push [of y st] by simp
  next
    case (2 st x xs)
    then show ?case using push [of x st] by simp
  next
    case (3 st y ys)
    then show ?case using push [of y st] by simp
  next
    case (4 st)
    then show ?case by (cases st; cases "fst st") auto
  qed
qed

lemma ls_getUnion_spec:
  assumes "ls_ok s" and "ls_ok t"
  shows "ls_ok (ls_getUnion s t) \<and> ls_set (ls_getUnion s t) = ls_set s \<union> ls_set t"
proof (cases "ls_ranges s = [] \<or> ls_ranges t = []")
  case True
  with assms show ?thesis by (auto simp: ls_getUnion_def ls_set_def)
next
  case False
  have "union_inv (None, []) (ls_ranges s) (ls_ranges t)"
    using assms by (simp add: union_inv_def ls_ok_def)
  note spec = ls_union_loop_spec [OF this]
  have "\<forall>r \<in> set (ls_union_loop (None, []) (ls_ranges s) (ls_ranges t)). l_start r < l_end r"
    by (rule ls_union_loop_nonempty) (use assms in \<open>auto simp: ls_ok_def\<close>)
  with spec False show ?thesis by (simp add: ls_getUnion_def ls_ok_def ls_set_def union_cover_def)
qed

text \<open>Intersections\<close>

lemma ls_intersection_loop_spec:
  assumes "apart l_start l_end xs" and "apart l_start l_end ys"
  shows "(\<forall>r \<in> set (ls_intersection_loop xs ys). l_start r < l_end r
        \<and> (\<exists>x \<in> set xs. l_start x \<le> l_start r) \<and> (\<exists>y \<in> set ys. l_start y \<le> l_start r))
    \<and> apart l_start l_end (ls_intersection_loop xs ys)
    \<and> cover l_start l_end (ls_intersection_loop xs ys) = cover l_start l_end xs \<inter> cover l_start l_end ys"
  using assms
proof (induction xs ys rule: ls_intersection_loop.induct)
  case (1 x xs y ys)
  let ?hd = "case l_intersect x y of Some i \<Rightarrow> if l_isEmpty i then [] else [i] | None \<Rightarrow> []"
  let ?tl = "if l_end x < l_end y then ls_intersection_loop xs (y # ys) else ls_intersection_loop (x # xs) ys"
  have hd: "cover l_start l_end ?hd = l_set x \<inter> l_set y"
    and hd_in: "\<And>r. r \<in> set ?hd \<Longrightarrow> l_start r < l_end r \<and> l_start x \<le> l_start r \<and> l_start y \<le> l_start r
          \<and> l_end r \<le> l_end x \<and> l_end r \<le> l_end y"
    and hd_apart: "apart l_start l_end ?hd"
    by (auto simp: l_intersect_def new_LineRange_def l_isEmpty_def l_set_def Let_def split: if_splits)
  have ax: "\<forall>z \<in> set xs. l_end x < l_start z" and ay: "\<forall>z \<in> set ys. l_end y < l_start z"
    using 1(3,4) by simp_all
  show ?case
  proof (cases "l_end x < l_end y")
    case True
    then have tl: "?tl = ls_intersection_loop xs (y # ys)" by simp
    have ih: "(\<forall>r \<in> set ?tl. l_start r < l_end r
        \<and> (\<exists>x \<in> set xs. l_start x \<le> l_start r) \<and> (\<exists>y \<in> set (y # ys). l_start y \<le> l_start r))"
      "apart l_start l_end ?tl"
      "cover l_start l_end ?tl = cover l_start l_end xs \<inter> cover l_start l_end (y # ys)"
      unfolding tl using 1(1) [OF True] 1(3,4) by simp_all
    have sep: "\<forall>r \<in> set ?hd. \<forall>r' \<in> set ?tl. l_end r < l_start r'"
      using hd_in ih(1) ax by (meson le_less_trans less_le_trans)
    have rest: "l_set x \<inter> cover l_start l_end ys = {}"
      using ay True by (fastforce simp: l_set_def mem_cover)
    have "cover l_start l_end (?hd @ ?tl) = (l_set x \<inter> l_set y) \<union> (cover l_start l_end xs \<inter> cover l_start l_end (y # ys))"
      by (simp only: cover_simps(3) hd ih(3))
    also have "\<dots> = cover l_start l_end (x # xs) \<inter> cover l_start l_end (y # ys)"
      using rest by (auto simp: l_set_def)
    finally have cov: "cover l_start l_end (?hd @ ?tl) = cover l_start l_end (x # xs) \<inter> cover l_start l_end (y # ys)" .
    have "\<forall>r \<in> set (?hd @ ?tl). l_start r < l_end r
        \<and> (\<exists>x \<in> set (x # xs). l_start x \<le> l_start r) \<and> (\<exists>y \<in> set (y # ys). l_start y \<le> l_start r)"
      using hd_in ih(1) by fastforce
    moreover have "apart l_start l_end (?hd @ ?tl)"
      unfolding apart_append using hd_apart ih(2) sep by blast
    ultimately show ?thesis unfolding ls_intersection_loop.simps(1) using cov by blast
  next
    case False
    then have tl: "?tl = ls_intersection_loop (x # xs) ys" by simp
    have ih: "(\<forall>r \<in> set ?tl. l_start r < l_end r
        \<and> (\<exists>x \<in> set (x # xs). l_start x \<le> l_start r) \<and> (\<exists>y \<in> set ys. l_start y \<le> l_start r))"
      "apart l_start l_end ?tl"
      "cover l_start l_end ?tl = cover l_start l_end (x # xs) \<inter> cover l_start l_end ys"
      unfolding tl using 1(2) [OF False] 1(3,4) by simp_all
    have sep: "\<forall>r \<in> set ?hd. \<forall>r' \<in> set ?tl. l_end r < l_start r'"
      using hd_in ih(1) ay by (meson le_less_trans less_le_trans)
    have rest: "l_set y \<inter> cover l_start l_end xs = {}"
      using ax False by (fastforce simp: l_set_def mem_cover)
    have "cover l_start l_end (?hd @ ?tl) = (l_set x \<inter> l_set y) \<union> (cover l_start l_end (x # xs) \<inter> cover l_start l_end ys)"
      by (simp only: cover_simps(3) hd ih(3))
    also have "\<dots> = cover l_start l_end (x # xs) \<inter> cover l_start l_end (y # ys)"
      using rest by (auto simp: l_set_def)
    finally have cov: "cover l_start l_end (?hd @ ?tl) = cover l_start l_end (x # xs) \<inter> cover l_start l_end (y # ys)" .
    have "\<forall>r \<in> set (?hd @ ?tl). l_start r < l_end r
        \<and> (\<exists>x \<in> set (x # xs). l_start x \<le> l_start r) \<and> (\<exists>y \<in> set (y # ys). l_start y \<le> l_start r)"
      using hd_in ih(1) by fastforce
    moreover have "apart l_start l_end (?hd @ ?tl)"
      unfolding apart_append using hd_apart ih(2) sep by blast
    ultimately show ?thesis unfolding ls_intersection_loop.simps(1) using cov by blast
  qed
qed simp_all

lemma ls_getIntersection_spec:
  assumes "ls_ok s" and "ls_ok t"
  shows "ls_ok (ls_getIntersection s t) \<and> ls_set (ls_getIntersection s t) = ls_set s \<inter> ls_set t"
  using ls_intersection_loop_spec [OF ls_okD [OF assms(1)] ls_okD [OF assms(2)]]
  by (simp add: ls_getIntersection_def ls_ok_def ls_set_def)

text \<open>Subtraction\<close>

lemma ls_subtract_loop_spec:
  assumes "apart l_start l_end rs" "\<forall>r \<in> set rs. l_start r < l_end r"
    and "\<forall>r \<in> set rs. start \<le> l_end r \<and> l_start r \<le> e"
  shows "(\<forall>r \<in> set (ls_subtract_loop start rs e). start \<le> l_start r \<and> l_start r < l_end r)
    \<and> apart l_start l_end (ls_subtract_loop start rs e)
    \<and> cover l_start l_end (ls_subtract_loop start rs e) = {start..<e} - cover l_start l_end rs"
  using assms
proof (induction start rs e rule: ls_subtract_loop.induct)
  case (2 start r rs e)
  let ?hd = "if l_start r > start then [\<lparr>l_start = start, l_end = l_start r\<rparr>] else []"
  have r: "l_start r < l_end r" "start \<le> l_end r" "l_start r \<le> e" and after: "\<forall>x \<in> set rs. l_end r < l_start x"
    using 2(2-4) by auto
  have "\<forall>x \<in> set rs. l_end r \<le> l_end x \<and> l_start x \<le> e" using after 2(3,4) by fastforce
  with 2(1-3) have ih: "\<forall>x \<in> set (ls_subtract_loop (l_end r) rs e). l_end r \<le> l_start x \<and> l_start x < l_end x"
    "apart l_start l_end (ls_subtract_loop (l_end r) rs e)"
    "cover l_start l_end (ls_subtract_loop (l_end r) rs e) = {l_end r..<e} - cover l_start l_end rs"
    by simp_all
  have "cover l_start l_end ?hd = {start..<l_start r}" by simp
  moreover have "{start..<l_start r} \<inter> cover l_start l_end rs = {}"
    using after r by (fastforce simp: mem_cover)
  ultimately have "cover l_start l_end (?hd @ ls_subtract_loop (l_end r) rs e)
      = {start..<e} - cover l_start l_end (r # rs)"
    using ih(3) r by auto
  moreover have "apart l_start l_end (?hd @ ls_subtract_loop (l_end r) rs e)"
    unfolding apart_append using ih(1,2) r by fastforce
  moreover have "\<forall>x \<in> set (?hd @ ls_subtract_loop (l_end r) rs e). start \<le> l_start x \<and> l_start x < l_end x"
    using ih(1) r by fastforce
  ultimately show ?case unfolding ls_subtract_loop.simps by blast
qed simp

lemma ls_subtractFrom_spec:
  assumes ok: "ls_ok s" and r: "l_start r < l_end r"
  shows "ls_ok (ls_subtractFrom s r) \<and> ls_set (ls_subtractFrom s r) = l_set r - ls_set s"
proof -
  let ?rs = "ls_ranges s"
  let ?P = "\<lambda>x. l_end x < l_start r" and ?Q = "\<lambda>x. l_start x \<le> l_end r"
  let ?pre = "takeWhile ?P ?rs" and ?rest = "dropWhile ?P ?rs"
  let ?mid = "takeWhile ?Q ?rest" and ?post = "dropWhile ?Q ?rest"
  have ap: "apart l_start l_end ?rs" and ne: "\<forall>x \<in> set ?rs. l_start x < l_end x"
    using ok by (simp_all add: ls_ok_def)
  have bounds: "ls_joinStart ?rs r = length ?pre" "ls_joinEnd ?rs r = length ?pre + length ?mid"
    using ls_join_bounds [OF ap, of r] r by (simp_all add: l_ok_def)
  have split: "?rs = ?pre @ ?mid @ ?post" by simp
  have pre: "\<forall>x \<in> set ?pre. l_end x < l_start r" by (auto dest: set_takeWhileD)
  have post: "\<forall>x \<in> set ?post. l_end r < l_start x"
    using apart_dropWhile_lo [OF apart_parts(2) [OF ap]] by blast
  have out: "l_set r \<inter> cover l_start l_end ?pre = {}" "l_set r \<inter> cover l_start l_end ?post = {}"
    using pre post by (fastforce simp: l_set_def mem_cover)+
  have "ls_set s = cover l_start l_end ?pre \<union> cover l_start l_end ?mid \<union> cover l_start l_end ?post"
    unfolding ls_set_def by (subst split) (simp only: cover_simps Un_assoc)
  with out have diff: "l_set r - ls_set s = l_set r - cover l_start l_end ?mid" by blast
  show ?thesis
  proof (cases "?mid = []")
    case True
    then show ?thesis unfolding diff
      using r bounds by (simp add: ls_subtractFrom_def Let_def ls_ok_def ls_set_def l_set_def)
  next
    case False
    have slice: "sub_list (length ?pre) (length ?pre + length ?mid) ?rs = ?mid"
      by (simp add: sub_list_def drop_length_takeWhile take_length_takeWhile)
    have mid: "apart l_start l_end ?mid" "\<forall>x \<in> set ?mid. l_start x < l_end x"
      using apart_parts(1) [OF apart_parts(2) [OF ap]] ne by (auto dest!: set_takeWhileD set_dropWhileD)
    have "\<forall>x \<in> set ?mid. l_start r \<le> l_end x \<and> l_start x \<le> l_end r"
      using apart_dropWhile_hi [OF ap, of _ "l_start r"] by (auto dest: set_takeWhileD)
    from ls_subtract_loop_spec [OF mid this] show ?thesis unfolding diff
      using False by (simp add: ls_subtractFrom_def Let_def bounds slice ls_ok_def ls_set_def l_set_def)
  qed
qed

lemma ls_getWithDelta_spec:
  assumes "ls_ok s"
  shows "ls_ok (ls_getWithDelta s n) \<and> (\<forall>k. k \<in> ls_set (ls_getWithDelta s n) \<longleftrightarrow> k - n \<in> ls_set s)"
proof -
  have "apart l_start l_end (map (l_delta n) rs) \<longleftrightarrow> apart l_start l_end rs" for rs
    by (induction rs) (auto simp: l_delta_def)
  with assms show ?thesis
    by (simp add: ls_getWithDelta_def ls_ok_def ls_set_def mem_cover l_delta_def le_diff_eq diff_less_eq)
qed

lemma l_joinMany_spec:
  assumes "\<forall>rs \<in> set rss. ls_ok (new_LineRangeSet rs)"
  shows "ls_ok (new_LineRangeSet (l_joinMany rss))
    \<and> cover l_start l_end (l_joinMany rss) = (\<Union>rs \<in> set rss. cover l_start l_end rs)"
proof -
  have fold: "ls_ok (fold (\<lambda>x acc. ls_getUnion acc (new_LineRangeSet x)) xs acc)
      \<and> ls_set (fold (\<lambda>x acc. ls_getUnion acc (new_LineRangeSet x)) xs acc)
        = ls_set acc \<union> (\<Union>rs \<in> set xs. cover l_start l_end rs)"
    if "ls_ok acc" "\<forall>rs \<in> set xs. ls_ok (new_LineRangeSet rs)" for xs acc
    using that
  proof (induction xs arbitrary: acc)
    case (Cons x xs)
    have spec: "ls_ok (ls_getUnion acc (new_LineRangeSet x))"
      "ls_set (ls_getUnion acc (new_LineRangeSet x)) = ls_set acc \<union> cover l_start l_end x"
      using ls_getUnion_spec [OF Cons.prems(1), of "new_LineRangeSet x"] Cons.prems(2)
      by (simp_all add: ls_set_def [of "new_LineRangeSet x"])
    then show ?case using Cons.IH [OF spec(1)] Cons.prems(2) by (simp add: Un_ac)
  qed simp
  show ?thesis
  proof (cases rss)
    case (Cons rs rest)
    with fold [of "new_LineRangeSet rs" rest] assms show ?thesis
      by (simp add: l_joinMany_def ls_ok_def ls_set_def new_LineRangeSet_def)
  qed (simp add: l_joinMany_def)
qed

section \<open>Properties\<close>


definition sample_lines :: line_range_set where
  "sample_lines = new_LineRangeSet [\<lparr>l_start = 2, l_end = 4\<rparr>, \<lparr>l_start = 7, l_end = 9\<rparr>]"


end
