(* ===== verification/Node_Store.thy ===== *)
theory Node_Store
  imports Wibe_Prelude
begin

text \<open>
  Doubly linked nodes on an explicit store, for the two linked structures of
  \<open>src/vs/base/common\<close> (\<open>linkedList.ts\<close>, \<open>map.ts\<close>): an address is a \<open>nat\<close>, a link that is not
  there is \<open>None\<close>. \<open>seg\<close> says that a list of addresses is linked both ways in the store; the
  lemmas link a node at an end and unlink one anywhere.
\<close>

record 'e node =
  nd_prev :: "nat option"
  nd_next :: "nat option"
  nd_elem :: 'e

type_synonym 'e store = "nat \<Rightarrow> 'e node option"

definition set_prev :: "nat \<Rightarrow> nat option \<Rightarrow> 'e store \<Rightarrow> 'e store" where
  "set_prev a p h = (case h a of Some nd \<Rightarrow> h(a \<mapsto> nd\<lparr>nd_prev := p\<rparr>) | None \<Rightarrow> h)"

definition set_next :: "nat \<Rightarrow> nat option \<Rightarrow> 'e store \<Rightarrow> 'e store" where
  "set_next a n h = (case h a of Some nd \<Rightarrow> h(a \<mapsto> nd\<lparr>nd_next := n\<rparr>) | None \<Rightarrow> h)"

definition set_elem :: "nat \<Rightarrow> 'e \<Rightarrow> 'e store \<Rightarrow> 'e store" where
  "set_elem a e h = (case h a of Some nd \<Rightarrow> h(a \<mapsto> nd\<lparr>nd_elem := e\<rparr>) | None \<Rightarrow> h)"

definition prev_of :: "'e store \<Rightarrow> nat \<Rightarrow> nat option" where
  "prev_of h a = (case h a of Some nd \<Rightarrow> nd_prev nd | None \<Rightarrow> None)"

definition next_of :: "'e store \<Rightarrow> nat \<Rightarrow> nat option" where
  "next_of h a = (case h a of Some nd \<Rightarrow> nd_next nd | None \<Rightarrow> None)"

definition elem_of :: "'e store \<Rightarrow> nat \<Rightarrow> 'e" where
  "elem_of h a = nd_elem (the (h a))"

section \<open>Linked segments\<close>

definition hd_or :: "nat option \<Rightarrow> nat list \<Rightarrow> nat option" where
  "hd_or n xs = (case xs of [] \<Rightarrow> n | x # _ \<Rightarrow> Some x)"

definition last_or :: "nat option \<Rightarrow> nat list \<Rightarrow> nat option" where
  "last_or p xs = (if xs = [] then p else Some (last xs))"

fun seg :: "'e store \<Rightarrow> nat option \<Rightarrow> nat list \<Rightarrow> nat option \<Rightarrow> bool" where
  "seg h p [] n \<longleftrightarrow> True"
| "seg h p (a # as) n \<longleftrightarrow>
     h a \<noteq> None \<and> prev_of h a = p \<and> next_of h a = hd_or n as \<and> seg h (Some a) as n"

lemma hd_or_simps [simp]:
  "hd_or n [] = n" "hd_or n (x # xs) = Some x"
  "hd_or n (xs @ ys) = hd_or (hd_or n ys) xs"
  by (simp_all add: hd_or_def split: list.split)

lemma last_or_simps [simp]:
  "last_or p [] = p" "last_or p (x # xs) = last_or (Some x) xs"
  "last_or p (xs @ ys) = last_or (last_or p xs) ys"
  by (simp_all add: last_or_def)

lemma seg_append [simp]:
  "seg h p (xs @ ys) n \<longleftrightarrow> seg h p xs (hd_or n ys) \<and> seg h (last_or p xs) ys n"
  by (induction xs arbitrary: p) auto

lemma seg_frame:
  "(\<And>a. a \<in> set xs \<Longrightarrow> h' a = h a) \<Longrightarrow> seg h' p xs n = seg h p xs n"
  by (induction xs arbitrary: p) (auto simp: prev_of_def next_of_def)

lemma seg_defined: "seg h p xs n \<Longrightarrow> a \<in> set xs \<Longrightarrow> h a \<noteq> None"
  by (induction xs arbitrary: p) auto

lemma set_link_simps [simp]:
  "b \<noteq> a \<Longrightarrow> set_prev a p h b = h b" "b \<noteq> a \<Longrightarrow> set_next a n h b = h b"
  "b \<noteq> a \<Longrightarrow> set_elem a e h b = h b"
  "set_prev a p h b = None \<longleftrightarrow> h b = None" "set_next a n h b = None \<longleftrightarrow> h b = None"
  "set_elem a e h b = None \<longleftrightarrow> h b = None"
  by (auto simp: set_prev_def set_next_def set_elem_def split: option.splits)

lemma links_of_set_prev [simp]:
  "h a \<noteq> None \<Longrightarrow> prev_of (set_prev a p h) a = p" "next_of (set_prev a p h) b = next_of h b"
  "b \<noteq> a \<Longrightarrow> prev_of (set_prev a p h) b = prev_of h b" "elem_of (set_prev a p h) b = elem_of h b"
  by (auto simp: set_prev_def prev_of_def next_of_def elem_of_def split: option.splits)

lemma links_of_set_next [simp]:
  "h a \<noteq> None \<Longrightarrow> next_of (set_next a n h) a = n" "prev_of (set_next a n h) b = prev_of h b"
  "b \<noteq> a \<Longrightarrow> next_of (set_next a n h) b = next_of h b" "elem_of (set_next a n h) b = elem_of h b"
  by (auto simp: set_next_def prev_of_def next_of_def elem_of_def split: option.splits)

lemma links_of_set_elem [simp]:
  "h a \<noteq> None \<Longrightarrow> elem_of (set_elem a e h) a = e" "prev_of (set_elem a e h) b = prev_of h b"
  "next_of (set_elem a e h) b = next_of h b" "b \<noteq> a \<Longrightarrow> elem_of (set_elem a e h) b = elem_of h b"
  by (auto simp: set_elem_def prev_of_def next_of_def elem_of_def split: option.splits)

lemma seg_set_elem [simp]: "seg (set_elem a e h) p xs n = seg h p xs n"
  by (induction xs arbitrary: p) auto

lemma seg_other [simp]:
  "x \<notin> set xs \<Longrightarrow> seg (set_prev x q h) p xs n = seg h p xs n"
  "x \<notin> set xs \<Longrightarrow> seg (set_next x q h) p xs n = seg h p xs n"
  by (rule seg_frame; metis set_link_simps)+

lemma seg_set_prev: "seg h p (x # xs) n \<Longrightarrow> x \<notin> set xs \<Longrightarrow> seg (set_prev x q h) q (x # xs) n"
  by simp

lemma seg_set_next: "seg h p (xs @ [x]) n \<Longrightarrow> x \<notin> set xs \<Longrightarrow> seg (set_next x m h) p (xs @ [x]) m"
  by simp

text \<open>Links through an address that may be missing.\<close>

definition set_prev_opt :: "nat option \<Rightarrow> nat option \<Rightarrow> 'e store \<Rightarrow> 'e store" where
  "set_prev_opt x p h = (case x of Some a \<Rightarrow> set_prev a p h | None \<Rightarrow> h)"

definition set_next_opt :: "nat option \<Rightarrow> nat option \<Rightarrow> 'e store \<Rightarrow> 'e store" where
  "set_next_opt x n h = (case x of Some a \<Rightarrow> set_next a n h | None \<Rightarrow> h)"

lemma opt_link_simps [simp]:
  "set_prev_opt None p h = h" "set_prev_opt (Some a) p h = set_prev a p h"
  "set_next_opt None n h = h" "set_next_opt (Some a) n h = set_next a n h"
  by (simp_all add: set_prev_opt_def set_next_opt_def)

lemma elem_of_opt_links [simp]:
  "elem_of (set_prev_opt x p h) b = elem_of h b" "elem_of (set_next_opt x n h) b = elem_of h b"
  "set_prev_opt x p h b = None \<longleftrightarrow> h b = None" "set_next_opt x n h b = None \<longleftrightarrow> h b = None"
  by (cases x; simp)+

lemma seg_opt_other [simp]:
  "(\<And>a. x = Some a \<Longrightarrow> a \<notin> set xs) \<Longrightarrow> seg (set_prev_opt x q h) p xs n = seg h p xs n"
  "(\<And>a. x = Some a \<Longrightarrow> a \<notin> set xs) \<Longrightarrow> seg (set_next_opt x q h) p xs n = seg h p xs n"
  by (cases x; simp)+

lemma ends_in_set:
  "hd_or None xs = Some a \<Longrightarrow> a \<in> set xs" "last_or None xs = Some a \<Longrightarrow> a \<in> set xs"
  by (auto simp: hd_or_def last_or_def split: list.splits if_splits)

lemma seg_set_prev_opt:
  assumes "seg h p xs n" and "distinct xs"
  shows "seg (set_prev_opt (hd_or None xs) q h) q xs n"
  using assms by (cases xs) auto

lemma seg_set_next_opt:
  assumes "seg h p xs n" and "distinct xs"
  shows "seg (set_next_opt (last_or None xs) m h) p xs m"
proof (cases xs rule: rev_cases)
  case (snoc ys y)
  with assms seg_set_next [of h p ys y n m] show ?thesis by (simp add: last_or_def)
qed simp

text \<open>Unlinking: the neighbours of a node are joined.\<close>

definition unlink :: "nat option \<Rightarrow> nat option \<Rightarrow> 'e store \<Rightarrow> 'e store" where
  "unlink p n h = set_next_opt p n (set_prev_opt n p h)"

lemma seg_unlink:
  assumes sg: "seg h None (pre @ a # post) None" and d: "distinct (pre @ a # post)"
  shows "seg (unlink (last_or None pre) (hd_or None post) h) None (pre @ post) None"
proof -
  let ?p = "last_or None pre" and ?n = "hd_or None post"
  let ?h = "set_prev_opt ?n ?p h"
  have pre: "seg h None pre (Some a)" and post: "seg h (Some a) post None" using sg by simp_all
  have n: "b \<notin> set pre" if "?n = Some b" for b using ends_in_set(1) [OF that] d by auto
  have p: "b \<notin> set post" if "?p = Some b" for b using ends_in_set(2) [OF that] d by auto
  have "seg ?h None pre (Some a)" using pre n by simp
  then have "seg (set_next_opt ?p ?n ?h) None pre ?n" using d by (intro seg_set_next_opt) auto
  moreover have "seg ?h ?p post None" using post d by (intro seg_set_prev_opt) auto
  then have "seg (set_next_opt ?p ?n ?h) ?p post None" using p by simp
  ultimately show ?thesis by (simp add: unlink_def)
qed

lemma unlink_other [simp]:
  "elem_of (unlink p n h) b = elem_of h b" "unlink p n h b = None \<longleftrightarrow> h b = None"
  by (simp_all add: unlink_def)

lemma unlink_links:
  "Some b \<noteq> n \<Longrightarrow> prev_of (unlink p n h) b = prev_of h b"
  "Some b \<noteq> p \<Longrightarrow> next_of (unlink p n h) b = next_of h b"
  unfolding unlink_def by (cases p; cases n; auto)+

text \<open>Linking a new node at either end.\<close>

lemma seg_link_last:
  assumes sg: "seg h None xs None" and d: "distinct xs" "a \<notin> set xs"
    and a: "h a \<noteq> None" "prev_of h a = last_or None xs" "next_of h a = None"
  shows "seg (set_next_opt (last_or None xs) (Some a) h) None (xs @ [a]) None"
proof -
  have "seg (set_next_opt (last_or None xs) (Some a) h) None xs (Some a)"
    using sg d by (intro seg_set_next_opt) auto
  moreover have "set_next_opt (last_or None xs) (Some a) h a = h a"
    using d(2) ends_in_set(2) [of xs] by (cases "last_or None xs") (simp, metis opt_link_simps(4) set_link_simps(2))
  ultimately show ?thesis using a by (auto simp: prev_of_def next_of_def)
qed

lemma seg_link_first:
  assumes sg: "seg h None xs None" and d: "distinct xs" "a \<notin> set xs"
    and a: "h a \<noteq> None" "prev_of h a = None" "next_of h a = hd_or None xs"
  shows "seg (set_prev_opt (hd_or None xs) (Some a) h) None (a # xs) None"
proof -
  have "seg (set_prev_opt (hd_or None xs) (Some a) h) (Some a) xs None"
    using sg d by (intro seg_set_prev_opt) auto
  moreover have "set_prev_opt (hd_or None xs) (Some a) h a = h a"
    using d by (cases xs) auto
  ultimately show ?thesis using a by (auto simp: prev_of_def next_of_def)
qed

text \<open>The links of a node in a segment.\<close>

lemma seg_links:
  assumes "seg h None (pre @ a # post) None"
  shows "prev_of h a = last_or None pre" "next_of h a = hd_or None post" "h a \<noteq> None"
  using assms by auto

text \<open>Walking the links from the first node; the fuel is the number of addresses handed out.\<close>

fun walk :: "'e store \<Rightarrow> nat option \<Rightarrow> nat \<Rightarrow> nat list" where
  "walk h None n = []"
| "walk h (Some a) 0 = []"
| "walk h (Some a) (Suc n) = a # walk h (next_of h a) n"

lemma walk_seg: "seg h p xs None \<Longrightarrow> length xs \<le> n \<Longrightarrow> walk h (hd_or None xs) n = xs"
proof (induction xs arbitrary: p n)
  case (Cons a xs)
  then obtain m where "n = Suc m" by (cases n) auto
  with Cons show ?case by auto
qed simp

lemma walk_back_split:
  assumes "a \<in> set xs"
  obtains pre post where "xs = pre @ a # post"
  using assms by (meson split_list)

end
