(* ===== verification/Linked_List.thy ===== *)
theory Linked_List
  imports Node_Store
begin

text \<open>
  \<open>src/vs/base/common/linkedList.ts\<close> on an explicit store of nodes. \<open>Node.Undefined\<close> is
  \<open>None\<close>; a write to a link of the sentinel changes no node. \<open>push\<close> and \<open>unshift\<close> return a
  function that removes the inserted node once: it is the address of the node here, the
  addresses whose function has run are kept in \<open>ll_disposed\<close>, and \<open>ll_dispose\<close> calls it.
\<close>

record 'e linked_list =
  ll_store :: "'e store"
  ll_first :: "nat option"
  ll_last :: "nat option"
  ll_size :: int
  ll_alloc :: nat
  ll_disposed :: "nat list"

definition new_LinkedList :: "'e linked_list" where
  "new_LinkedList = \<lparr>ll_store = Map.empty, ll_first = None, ll_last = None, ll_size = 0,
     ll_alloc = 0, ll_disposed = []\<rparr>"

definition ll_isEmpty :: "'e linked_list \<Rightarrow> bool" where
  "ll_isEmpty l \<longleftrightarrow> ll_first l = None"

text \<open>The loop of \<open>clear\<close>; its fuel is the number of nodes ever allocated.\<close>

fun ll_clear_loop :: "nat option \<Rightarrow> nat \<Rightarrow> 'e store \<Rightarrow> 'e store" where
  "ll_clear_loop None n h = h"
| "ll_clear_loop (Some a) 0 h = h"
| "ll_clear_loop (Some a) (Suc n) h =
     ll_clear_loop (next_of h a) n (set_next a None (set_prev a None h))"

definition ll_clear :: "'e linked_list \<Rightarrow> 'e linked_list" where
  "ll_clear l = l\<lparr>ll_store := ll_clear_loop (ll_first l) (ll_alloc l) (ll_store l),
     ll_first := None, ll_last := None, ll_size := 0\<rparr>"

definition ll_insert :: "'e \<Rightarrow> bool \<Rightarrow> 'e linked_list \<Rightarrow> nat \<times> 'e linked_list" where
  "ll_insert e atTheEnd l =
     (let a = ll_alloc l;
          h = (ll_store l)(a \<mapsto> \<lparr>nd_prev = None, nd_next = None, nd_elem = e\<rparr>);
          l' = (case ll_first l of
                  None \<Rightarrow> l\<lparr>ll_store := h, ll_first := Some a, ll_last := Some a\<rparr>
                | Some oldFirst \<Rightarrow>
                    if atTheEnd
                    then l\<lparr>ll_last := Some a,
                           ll_store := set_next_opt (ll_last l) (Some a) (set_prev a (ll_last l) h)\<rparr>
                    else l\<lparr>ll_first := Some a,
                           ll_store := set_prev oldFirst (Some a) (set_next a (Some oldFirst) h)\<rparr>)
      in (a, l'\<lparr>ll_size := ll_size l + 1, ll_alloc := a + 1\<rparr>))"

definition ll_push :: "'e \<Rightarrow> 'e linked_list \<Rightarrow> nat \<times> 'e linked_list" where
  "ll_push e l = ll_insert e True l"

definition ll_unshift :: "'e \<Rightarrow> 'e linked_list \<Rightarrow> nat \<times> 'e linked_list" where
  "ll_unshift e l = ll_insert e False l"

definition ll_remove :: "nat \<Rightarrow> 'e linked_list \<Rightarrow> 'e linked_list" where
  "ll_remove a l =
     (let h = ll_store l;
          l' = (case (prev_of h a, next_of h a) of
                  (Some p, Some n) \<Rightarrow> l\<lparr>ll_store := set_prev n (Some p) (set_next p (Some n) h)\<rparr>
                | (None, None) \<Rightarrow> l\<lparr>ll_first := None, ll_last := None\<rparr>
                | (Some p, None) \<Rightarrow>
                    (let newLast = Option.bind (ll_last l) (prev_of h)
                     in l\<lparr>ll_last := newLast, ll_store := set_next_opt newLast None h\<rparr>)
                | (None, Some n) \<Rightarrow>
                    (let newFirst = Option.bind (ll_first l) (next_of h)
                     in l\<lparr>ll_first := newFirst, ll_store := set_prev_opt newFirst None h\<rparr>))
      in l'\<lparr>ll_size := ll_size l - 1\<rparr>)"

definition ll_dispose :: "nat \<Rightarrow> 'e linked_list \<Rightarrow> 'e linked_list" where
  "ll_dispose a l =
     (if a \<in> set (ll_disposed l) then l
      else ll_remove a (l\<lparr>ll_disposed := a # ll_disposed l\<rparr>))"

definition ll_shift :: "'e linked_list \<Rightarrow> 'e option \<times> 'e linked_list" where
  "ll_shift l =
     (case ll_first l of
        None \<Rightarrow> (None, l)
      | Some a \<Rightarrow> (Some (elem_of (ll_store l) a), ll_remove a l))"

definition ll_pop :: "'e linked_list \<Rightarrow> 'e option \<times> 'e linked_list" where
  "ll_pop l =
     (case ll_last l of
        None \<Rightarrow> (None, l)
      | Some a \<Rightarrow> (Some (elem_of (ll_store l) a), ll_remove a l))"

definition ll_peek :: "'e linked_list \<Rightarrow> 'e option" where
  "ll_peek l = map_option (elem_of (ll_store l)) (ll_last l)"

definition ll_iterate :: "'e linked_list \<Rightarrow> 'e list" where
  "ll_iterate l = map (elem_of (ll_store l)) (walk (ll_store l) (ll_first l) (ll_alloc l))"

section \<open>Representation\<close>

definition ll_repr :: "'e linked_list \<Rightarrow> (nat \<times> 'e) list \<Rightarrow> bool" where
  "ll_repr l xs \<longleftrightarrow>
     distinct (map fst xs) \<and> seg (ll_store l) None (map fst xs) None
     \<and> ll_first l = hd_or None (map fst xs) \<and> ll_last l = last_or None (map fst xs)
     \<and> ll_size l = int (length xs)
     \<and> (\<forall>(a, e) \<in> set xs. elem_of (ll_store l) a = e \<and> a < ll_alloc l)
     \<and> (\<forall>a \<in> set (ll_disposed l). a \<notin> set (map fst xs) \<and> a < ll_alloc l)"

lemma distinct_below_length:
  assumes "distinct xs" and "\<forall>a \<in> set xs. a < (n::nat)"
  shows "length xs \<le> n"
proof -
  have "card (set xs) \<le> card {..<n}" using assms(2) by (intro card_mono) auto
  then show ?thesis using assms(1) by (simp add: distinct_card)
qed

lemma ll_iterate_repr:
  assumes "ll_repr l xs"
  shows "ll_iterate l = map snd xs"
proof -
  have "length (map fst xs) \<le> ll_alloc l"
    by (rule distinct_below_length) (use assms in \<open>auto simp: ll_repr_def\<close>)
  then have "walk (ll_store l) (ll_first l) (ll_alloc l) = map fst xs"
    using assms walk_seg [of "ll_store l" None "map fst xs" "ll_alloc l"] by (simp add: ll_repr_def)
  with assms show ?thesis by (auto simp: ll_iterate_def ll_repr_def)
qed

lemma ll_repr_new: "ll_repr new_LinkedList []"
  by (simp add: ll_repr_def new_LinkedList_def)

lemma ll_repr_clear: "ll_repr l xs \<Longrightarrow> ll_repr (ll_clear l) []"
  by (auto simp: ll_repr_def ll_clear_def)

lemma ll_repr_isEmpty: "ll_repr l xs \<Longrightarrow> ll_isEmpty l \<longleftrightarrow> xs = []"
  by (cases xs) (simp_all add: ll_repr_def ll_isEmpty_def)

lemma seg_cong_store:
  "(\<And>a. a \<in> set xs \<Longrightarrow> h' a = h a) \<Longrightarrow> seg h p xs n \<Longrightarrow> seg h' p xs n"
  by (rule seg_frame [THEN iffD2])

lemma ll_repr_insert_last:
  assumes "ll_repr l xs"
  shows "fst (ll_insert e True l) = ll_alloc l"
    and "ll_repr (snd (ll_insert e True l)) (xs @ [(ll_alloc l, e)])"
proof -
  show "fst (ll_insert e True l) = ll_alloc l" by (simp add: ll_insert_def Let_def)
  let ?a = "ll_alloc l" and ?as = "map fst xs"
  let ?h = "(ll_store l)(?a \<mapsto> \<lparr>nd_prev = None, nd_next = None, nd_elem = e\<rparr>)"
  let ?h1 = "set_prev ?a (ll_last l) ?h"
  have fresh: "?a \<notin> set ?as" and fresh': "?a \<notin> set (ll_disposed l)"
    using assms by (auto simp: ll_repr_def)
  have last: "ll_last l = last_or None ?as" and d: "distinct ?as" using assms by (simp_all add: ll_repr_def)
  have "seg ?h1 None ?as None"
    by (rule seg_cong_store [of _ _ "ll_store l"]) (use assms fresh in \<open>auto simp: ll_repr_def\<close>)
  from seg_link_last [OF this d fresh]
  have seg: "seg (set_next_opt (ll_last l) (Some ?a) ?h1) None (?as @ [?a]) None"
    using last by (simp add: prev_of_def next_of_def set_prev_def)
  have elems: "elem_of ?h b = elem_of (ll_store l) b" if "b \<noteq> ?a" for b
    using that by (simp add: elem_of_def)
  have el: "elem_of ?h ?a = e" by (simp add: elem_of_def)
  show "ll_repr (snd (ll_insert e True l)) (xs @ [(?a, e)])"
  proof (cases xs)
    case Nil
    with assms show ?thesis
      by (auto simp: ll_repr_def ll_insert_def Let_def el prev_of_def next_of_def)
  next
    case (Cons x ys)
    then have f: "ll_first l = Some (fst x)" using assms by (simp add: ll_repr_def)
    have ins: "snd (ll_insert e True l) = l\<lparr>ll_last := Some ?a,
        ll_store := set_next_opt (ll_last l) (Some ?a) ?h1, ll_size := ll_size l + 1, ll_alloc := ?a + 1\<rparr>"
      by (simp add: ll_insert_def Let_def f)
    have old: "\<forall>(b, x) \<in> set xs. elem_of ?h b = x \<and> b < Suc ?a"
      using assms fresh elems by (fastforce simp: ll_repr_def)
    have disposed: "\<forall>b \<in> set (ll_disposed l). b \<noteq> ?a \<and> b \<notin> fst ` set xs \<and> b < Suc ?a"
      using assms fresh' by (auto simp: ll_repr_def less_Suc_eq)
    have "ll_size l = int (length xs)" "ll_last l = last_or None ?as" using assms by (simp_all add: ll_repr_def)
    moreover have "hd_or None (?as @ [?a]) = Some (fst x)" by (simp add: Cons)
    moreover have "last_or None (?a # ?as) = ll_last l" using last by (simp add: Cons)
    moreover have "last_or None (?as @ [?a]) = Some ?a" by simp
    ultimately show ?thesis
      using d seg fresh f old disposed el
      unfolding ins ll_repr_def
      by (simp del: seg.simps seg_append hd_or_simps(3) last_or_simps(2,3))
  qed
qed

lemma ll_repr_insert_first:
  assumes "ll_repr l xs"
  shows "fst (ll_insert e False l) = ll_alloc l"
    and "ll_repr (snd (ll_insert e False l)) ((ll_alloc l, e) # xs)"
proof -
  show "fst (ll_insert e False l) = ll_alloc l" by (simp add: ll_insert_def Let_def)
  let ?a = "ll_alloc l" and ?as = "map fst xs"
  let ?h = "(ll_store l)(?a \<mapsto> \<lparr>nd_prev = None, nd_next = None, nd_elem = e\<rparr>)"
  let ?h1 = "set_next ?a (hd_or None ?as) ?h"
  have fresh: "?a \<notin> set ?as" and fresh': "?a \<notin> set (ll_disposed l)"
    using assms by (auto simp: ll_repr_def)
  have last: "ll_last l = last_or None ?as" and d: "distinct ?as" using assms by (simp_all add: ll_repr_def)
  have "seg ?h1 None ?as None"
    by (rule seg_cong_store [of _ _ "ll_store l"]) (use assms fresh in \<open>auto simp: ll_repr_def\<close>)
  from seg_link_first [OF this d fresh]
  have seg: "seg (set_prev_opt (hd_or None ?as) (Some ?a) ?h1) None (?a # ?as) None"
    by (simp add: prev_of_def next_of_def set_next_def)
  have elems: "elem_of ?h b = elem_of (ll_store l) b" if "b \<noteq> ?a" for b
    using that by (simp add: elem_of_def)
  have el: "elem_of ?h ?a = e" by (simp add: elem_of_def)
  show "ll_repr (snd (ll_insert e False l)) ((?a, e) # xs)"
  proof (cases xs)
    case Nil
    with assms show ?thesis
      by (auto simp: ll_repr_def ll_insert_def Let_def el prev_of_def next_of_def)
  next
    case (Cons x ys)
    then have f: "ll_first l = Some (fst x)" using assms by (simp add: ll_repr_def)
    have ins: "snd (ll_insert e False l) = l\<lparr>ll_first := Some ?a,
        ll_store := set_prev_opt (hd_or None ?as) (Some ?a) ?h1, ll_size := ll_size l + 1, ll_alloc := ?a + 1\<rparr>"
      by (simp add: ll_insert_def Let_def f Cons)
    have old: "\<forall>(b, x) \<in> set xs. elem_of ?h b = x \<and> b < Suc ?a"
      using assms fresh elems by (fastforce simp: ll_repr_def)
    have disposed: "\<forall>b \<in> set (ll_disposed l). b \<noteq> ?a \<and> b \<notin> fst ` set xs \<and> b < Suc ?a"
      using assms fresh' by (auto simp: ll_repr_def less_Suc_eq)
    have "ll_size l = int (length xs)" "ll_last l = last_or None ?as" using assms by (simp_all add: ll_repr_def)
    moreover have "hd_or None (?as @ [?a]) = Some (fst x)" by (simp add: Cons)
    moreover have "last_or None (?a # ?as) = ll_last l" using last by (simp add: Cons)
    moreover have "last_or None (?as @ [?a]) = Some ?a" by simp
    ultimately show ?thesis
      using d seg fresh f old disposed el
      unfolding ins ll_repr_def
      by (simp del: seg.simps seg_append hd_or_simps(3) last_or_simps(2,3))
  qed
qed

text \<open>Removing a node that is in the list joins its neighbours, in every case of the code.\<close>

lemma ll_remove_unlink:
  assumes "ll_repr l (pre @ (a, e) # post)"
  shows "ll_remove a l = l\<lparr>ll_store := unlink (last_or None (map fst pre)) (hd_or None (map fst post)) (ll_store l),
      ll_first := hd_or None (map fst (pre @ post)), ll_last := last_or None (map fst (pre @ post)),
      ll_size := ll_size l - 1\<rparr>"
proof -
  let ?h = "ll_store l" and ?as = "map fst pre" and ?bs = "map fst post"
  have sg: "seg ?h None (?as @ a # ?bs) None" and d: "distinct (?as @ a # ?bs)"
    and ends: "ll_first l = hd_or None (?as @ a # ?bs)" "ll_last l = last_or None (?as @ a # ?bs)"
    using assms by (simp_all add: ll_repr_def)
  note links = seg_links [OF sg]
  show ?thesis
  proof (cases "?as = []")
    case True
    show ?thesis
    proof (cases ?bs)
      case Nil
      with True links ends show ?thesis by (simp add: ll_remove_def Let_def unlink_def)
    next
      case (Cons b bs)
      with True links ends show ?thesis by (simp add: ll_remove_def Let_def unlink_def)
    qed
  next
    case False
    then obtain p ps where ps: "?as = ps @ [p]" by (cases ?as rule: rev_cases) auto
    show ?thesis
    proof (cases ?bs)
      case Nil
      with ps links ends show ?thesis by (simp add: ll_remove_def Let_def unlink_def)
    next
      case (Cons b bs)
      have "p \<noteq> b" using d ps Cons by auto
      then have comm: "set_prev b (Some p) (set_next p (Some b) ?h) = set_next p (Some b) (set_prev b (Some p) ?h)"
        by (auto simp: set_prev_def set_next_def split: option.splits)
      from ps Cons have "hd_or None (?as @ ?bs) = hd_or None (?as @ a # ?bs)"
        "last_or None (?as @ ?bs) = last_or None (?as @ a # ?bs)" by simp_all
      with ps Cons links ends comm show ?thesis
        by (simp add: ll_remove_def Let_def unlink_def)
    qed
  qed
qed

lemma ll_repr_remove:
  assumes "ll_repr l (pre @ (a, e) # post)"
  shows "ll_repr (ll_remove a l) (pre @ post)"
proof -
  have "seg (ll_store l) None (map fst pre @ a # map fst post) None"
    "distinct (map fst pre @ a # map fst post)" using assms by (simp_all add: ll_repr_def)
  from seg_unlink [OF this] assms show ?thesis
    unfolding ll_remove_unlink [OF assms] by (auto simp: ll_repr_def)
qed

section \<open>The abstract list with handles\<close>

datatype 'e ll_op = Op_push 'e | Op_unshift 'e | Op_shift | Op_pop | Op_dispose nat | Op_clear

fun ll_step :: "'e ll_op \<Rightarrow> 'e linked_list \<Rightarrow> 'e linked_list" where
  "ll_step (Op_push e) l = snd (ll_push e l)"
| "ll_step (Op_unshift e) l = snd (ll_unshift e l)"
| "ll_step Op_shift l = snd (ll_shift l)"
| "ll_step Op_pop l = snd (ll_pop l)"
| "ll_step (Op_dispose a) l = ll_dispose a l"
| "ll_step Op_clear l = ll_clear l"

text \<open>The specification: entries with handles, the next handle, the handles disposed of.\<close>

type_synonym 'e deque = "(nat \<times> 'e) list \<times> nat \<times> nat list"

fun deque_step :: "'e ll_op \<Rightarrow> 'e deque \<Rightarrow> 'e deque" where
  "deque_step (Op_push e) (xs, n, ds) = (xs @ [(n, e)], n + 1, ds)"
| "deque_step (Op_unshift e) (xs, n, ds) = ((n, e) # xs, n + 1, ds)"
| "deque_step Op_shift (xs, n, ds) = (tl xs, n, ds)"
| "deque_step Op_pop (xs, n, ds) = (butlast xs, n, ds)"
| "deque_step (Op_dispose a) (xs, n, ds) = (filter (\<lambda>(b, _). b \<noteq> a) xs, n, List.insert a ds)"
| "deque_step Op_clear (xs, n, ds) = ([], n, ds)"

text \<open>A removal function is called for an entry that is still in the list, or again.\<close>

fun deque_ok :: "'e ll_op \<Rightarrow> 'e deque \<Rightarrow> bool" where
  "deque_ok (Op_dispose a) (xs, n, ds) \<longleftrightarrow> a \<in> set (map fst xs) \<or> a \<in> set ds"
| "deque_ok _ d \<longleftrightarrow> True"

fun deque_run_ok :: "'e ll_op list \<Rightarrow> 'e deque \<Rightarrow> bool" where
  "deque_run_ok [] d \<longleftrightarrow> True"
| "deque_run_ok (p # ps) d \<longleftrightarrow> deque_ok p d \<and> deque_run_ok ps (deque_step p d)"

definition ll_sim :: "'e linked_list \<Rightarrow> 'e deque \<Rightarrow> bool" where
  "ll_sim l d \<longleftrightarrow> (case d of (xs, n, ds) \<Rightarrow>
     ll_repr l xs \<and> ll_alloc l = n \<and> set (ll_disposed l) = set ds)"

lemma ll_remove_fields [simp]:
  "ll_alloc (ll_remove a l) = ll_alloc l" "ll_disposed (ll_remove a l) = ll_disposed l"
  by (simp_all add: ll_remove_def Let_def split: option.split)

lemma ll_sim_dispose:
  assumes sim: "ll_sim l (xs, n, ds)" and ok: "deque_ok (Op_dispose a) (xs, n, ds)"
  shows "ll_sim (ll_dispose a l) (deque_step (Op_dispose a) (xs, n, ds))"
proof (cases "a \<in> set (ll_disposed l)")
  case True
  with sim have "filter (\<lambda>(b, _). b \<noteq> a) xs = xs"
    by (intro filter_True) (force simp: ll_sim_def ll_repr_def)
  with True sim show ?thesis by (auto simp: ll_dispose_def ll_sim_def)
next
  case False
  with sim ok obtain e where "(a, e) \<in> set xs" by (auto simp: ll_sim_def)
  then obtain pre post where xs: "xs = pre @ (a, e) # post" by (meson split_list)
  have repr: "ll_repr l (pre @ (a, e) # post)" using sim by (simp add: ll_sim_def xs)
  have "a \<notin> fst ` set pre" "a \<notin> fst ` set post" using repr by (auto simp: ll_repr_def)
  then have "filter (\<lambda>(b, _). b \<noteq> a) pre = pre" "filter (\<lambda>(b, _). b \<noteq> a) post = post"
    by (force simp: filter_id_conv)+
  then have rest: "filter (\<lambda>(b, _). b \<noteq> a) xs = pre @ post" by (simp add: xs)
  have "ll_dispose a l = (ll_remove a l)\<lparr>ll_disposed := a # ll_disposed l\<rparr>"
    using False by (simp add: ll_dispose_def ll_remove_def Let_def split: option.split)
  moreover have "ll_repr ((ll_remove a l)\<lparr>ll_disposed := a # ll_disposed l\<rparr>) (pre @ post)"
    using ll_repr_remove [OF repr] repr by (auto simp: ll_repr_def)
  ultimately show ?thesis using sim rest by (auto simp: ll_sim_def)
qed

lemma ll_sim_step:
  assumes sim: "ll_sim l d" and ok: "deque_ok p d"
  shows "ll_sim (ll_step p l) (deque_step p d)"
proof -
  obtain xs n ds where d: "d = (xs, n, ds)" by (cases d) auto
  have repr: "ll_repr l xs" and n: "ll_alloc l = n" and ds: "set (ll_disposed l) = set ds"
    using sim by (simp_all add: ll_sim_def d)
  show ?thesis
  proof (cases p)
    case (Op_push e)
    with ll_repr_insert_last [OF repr, of e] n ds show ?thesis
      by (simp add: d ll_sim_def ll_push_def ll_insert_def Let_def split: option.split_asm option.split)
  next
    case (Op_unshift e)
    with ll_repr_insert_first [OF repr, of e] n ds show ?thesis
      by (simp add: d ll_sim_def ll_unshift_def ll_insert_def Let_def split: option.split_asm option.split)
  next
    case Op_shift
    show ?thesis
    proof (cases xs)
      case Nil
      with Op_shift repr sim show ?thesis by (simp add: d ll_shift_def ll_repr_def)
    next
      case (Cons x ys)
      with repr have "ll_first l = Some (fst x)" "ll_repr l ([] @ (fst x, snd x) # ys)"
        by (simp_all add: ll_repr_def)
      with ll_repr_remove [OF this(2)] Op_shift Cons n ds show ?thesis
        by (simp add: d ll_sim_def ll_shift_def)
    qed
  next
    case Op_pop
    show ?thesis
    proof (cases xs rule: rev_cases)
      case Nil
      with Op_pop repr sim show ?thesis by (simp add: d ll_pop_def ll_repr_def)
    next
      case (snoc ys x)
      with repr have "ll_last l = Some (fst x)" "ll_repr l (ys @ (fst x, snd x) # [])"
        by (simp_all add: ll_repr_def)
      with ll_repr_remove [OF this(2)] Op_pop snoc n ds show ?thesis
        by (simp add: d ll_sim_def ll_pop_def)
    qed
  next
    case (Op_dispose a)
    with ll_sim_dispose [of l xs n ds a] sim ok show ?thesis by (simp add: d)
  next
    case Op_clear
    with ll_repr_clear [OF repr] n ds show ?thesis by (simp add: d ll_sim_def ll_clear_def)
  qed
qed

lemma ll_sim_run:
  "ll_sim l d \<Longrightarrow> deque_run_ok ps d \<Longrightarrow> ll_sim (fold ll_step ps l) (fold deque_step ps d)"
  by (induction ps arbitrary: l d) (simp_all add: ll_sim_step)

section \<open>Properties\<close>

text \<open>
  C14. The pointer structure implements a double-ended list with handles: after any sequence
  of operations that calls a removal function only for an entry still in the list (or again
  after it ran), iteration, size, emptiness and the last element are those of the list of
  entries, and a removal function has removed exactly its own entry.
\<close>

theorem linked_list_refines_deque:
  assumes "deque_run_ok ps ([], 0, [])"
  shows "let l = fold ll_step ps new_LinkedList; xs = fst (fold deque_step ps ([], 0, [])) in
    ll_iterate l = map snd xs \<and> ll_size l = int (length xs) \<and> ll_isEmpty l = (xs = [])
    \<and> ll_peek l = (if xs = [] then None else Some (snd (last xs)))"
proof -
  let ?l = "fold ll_step ps new_LinkedList" and ?d = "fold deque_step ps ([], 0, [])"
  have "ll_sim new_LinkedList ([], 0, [])" by (simp add: ll_sim_def ll_repr_new) (simp add: new_LinkedList_def)
  from ll_sim_run [OF this assms] have repr: "ll_repr ?l (fst ?d)" by (simp add: ll_sim_def split: prod.splits)
  have "ll_peek ?l = (if fst ?d = [] then None else Some (snd (last (fst ?d))))"
    using repr by (cases "fst ?d" rule: rev_cases) (auto simp: ll_peek_def ll_repr_def)
  with repr ll_iterate_repr [OF repr] ll_repr_isEmpty [OF repr] show ?thesis
    by (simp add: Let_def ll_repr_def)
qed

definition sample_deque_ops :: "nat ll_op list" where
  "sample_deque_ops = [Op_push 10, Op_push 20, Op_unshift 5, Op_dispose 1, Op_dispose 1, Op_shift, Op_push 30]"

theorem linked_list_refines_deque_witness:
  "ll_iterate (fold ll_step sample_deque_ops new_LinkedList) = [10, 30]"
proof -
  have "deque_run_ok sample_deque_ops ([], 0, [])" by (simp add: sample_deque_ops_def)
  from linked_list_refines_deque [OF this] show ?thesis by (simp add: Let_def sample_deque_ops_def)
qed

text \<open>
  Outside that discipline the code loses entries: the function returned by \<open>push\<close>, called
  after its entry was taken out by \<open>shift\<close>, takes out the next one, because a removed node
  keeps its links and only the function itself sets \<open>didRemove\<close>.
\<close>

lemma stale_disposer_drops_entry:
  "let l = fold ll_step [Op_push (10::nat), Op_push 20, Op_shift] new_LinkedList in
   ll_iterate l = [20] \<and> ll_iterate (ll_dispose 0 l) = []"
  by (simp add: Let_def ll_push_def ll_shift_def ll_insert_def new_LinkedList_def ll_remove_def
      ll_iterate_def ll_dispose_def set_prev_def set_next_def prev_of_def next_of_def elem_of_def
      numeral_2_eq_2)

end
