(* ===== verification/Linked_Map.thy ===== *)
theory Linked_Map
  imports Complex_Main Node_Store
begin

text \<open>
  \<open>src/vs/base/common/map.ts\<close>, \<open>LinkedMap\<close> and the two caches built on it: a map whose items
  are doubly linked in order of use, on the store of \<open>Node_Store\<close>. An operation that can throw
  (\<open>Invalid list\<close>, or a link followed from \<open>undefined\<close>) is \<open>None\<close> there.
\<close>

section \<open>The linked map\<close>

type_synonym ('k, 'v) item = "('k \<times> 'v) node"

datatype touch = Touch_none | As_old | As_new

record ('k, 'v) linked_map =
  lm_map :: "'k \<rightharpoonup> nat"
  lm_store :: "('k \<times> 'v) store"
  lm_head :: "nat option"
  lm_tail :: "nat option"
  lm_size :: int
  lm_state :: nat
  lm_alloc :: nat

definition new_LinkedMap :: "('k, 'v) linked_map" where
  "new_LinkedMap = \<lparr>lm_map = Map.empty, lm_store = Map.empty, lm_head = None, lm_tail = None,
     lm_size = 0, lm_state = 0, lm_alloc = 0\<rparr>"

definition lm_clear :: "('k, 'v) linked_map \<Rightarrow> ('k, 'v) linked_map" where
  "lm_clear m = m\<lparr>lm_map := Map.empty, lm_head := None, lm_tail := None, lm_size := 0,
     lm_state := lm_state m + 1\<rparr>"

definition lm_isEmpty :: "('k, 'v) linked_map \<Rightarrow> bool" where
  "lm_isEmpty m \<longleftrightarrow> lm_head m = None \<and> lm_tail m = None"

definition lm_key :: "('k, 'v) linked_map \<Rightarrow> nat \<Rightarrow> 'k" where
  "lm_key m a = fst (elem_of (lm_store m) a)"

definition lm_value :: "('k, 'v) linked_map \<Rightarrow> nat \<Rightarrow> 'v" where
  "lm_value m a = snd (elem_of (lm_store m) a)"

definition lm_firstValue :: "('k, 'v) linked_map \<Rightarrow> 'v option" where
  "lm_firstValue m = map_option (lm_value m) (lm_head m)"

definition lm_lastValue :: "('k, 'v) linked_map \<Rightarrow> 'v option" where
  "lm_lastValue m = map_option (lm_value m) (lm_tail m)"

definition lm_has :: "('k, 'v) linked_map \<Rightarrow> 'k \<Rightarrow> bool" where
  "lm_has m k \<longleftrightarrow> lm_map m k \<noteq> None"

text \<open>Moving an item to an end of the list. \<open>n!.previous = p\<close> throws when \<open>n\<close> is undefined.\<close>

definition lm_touch :: "nat \<Rightarrow> touch \<Rightarrow> ('k, 'v) linked_map \<Rightarrow> ('k, 'v) linked_map option" where
  "lm_touch a t m =
     (case (lm_head m, lm_tail m) of
        (Some hd', Some tl') \<Rightarrow>
          (case t of
             Touch_none \<Rightarrow> Some m
           | As_old \<Rightarrow>
               if a = hd' then Some m
               else
                 (let nxt = next_of (lm_store m) a; prv = prev_of (lm_store m) a;
                      unlinked =
                        (if a = tl' then
                           (case prv of
                              None \<Rightarrow> None
                            | Some p \<Rightarrow> Some (m\<lparr>lm_store := set_next p None (lm_store m), lm_tail := prv\<rparr>))
                         else
                           (case (nxt, prv) of
                              (Some n, Some p) \<Rightarrow>
                                Some (m\<lparr>lm_store := set_next p nxt (set_prev n prv (lm_store m))\<rparr>)
                            | _ \<Rightarrow> None))
                  in map_option
                       (\<lambda>u. u\<lparr>lm_store :=
                                set_prev hd' (Some a) (set_next a (Some hd') (set_prev a None (lm_store u))),
                              lm_head := Some a, lm_state := lm_state m + 1\<rparr>) unlinked)
           | As_new \<Rightarrow>
               if a = tl' then Some m
               else
                 (let nxt = next_of (lm_store m) a; prv = prev_of (lm_store m) a;
                      unlinked =
                        (if a = hd' then
                           (case nxt of
                              None \<Rightarrow> None
                            | Some n \<Rightarrow> Some (m\<lparr>lm_store := set_prev n None (lm_store m), lm_head := nxt\<rparr>))
                         else
                           (case (nxt, prv) of
                              (Some n, Some p) \<Rightarrow>
                                Some (m\<lparr>lm_store := set_next p nxt (set_prev n prv (lm_store m))\<rparr>)
                            | _ \<Rightarrow> None))
                  in map_option
                       (\<lambda>u. u\<lparr>lm_store :=
                                set_next tl' (Some a) (set_prev a (Some tl') (set_next a None (lm_store u))),
                              lm_tail := Some a, lm_state := lm_state m + 1\<rparr>) unlinked))
      | _ \<Rightarrow> None)"

definition lm_get :: "'k \<Rightarrow> touch \<Rightarrow> ('k, 'v) linked_map \<Rightarrow> ('v option \<times> ('k, 'v) linked_map) option" where
  "lm_get k t m =
     (case lm_map m k of
        None \<Rightarrow> Some (None, m)
      | Some a \<Rightarrow>
          map_option (\<lambda>m'. (Some (lm_value m' a), m'))
            (if t \<noteq> Touch_none then lm_touch a t m else Some m))"

definition lm_addItemFirst :: "nat \<Rightarrow> ('k, 'v) linked_map \<Rightarrow> ('k, 'v) linked_map option" where
  "lm_addItemFirst a m =
     (case lm_head m of
        None \<Rightarrow>
          if lm_tail m = None
          then Some (m\<lparr>lm_tail := Some a, lm_head := Some a, lm_state := lm_state m + 1\<rparr>)
          else None
      | Some h \<Rightarrow>
          Some (m\<lparr>lm_store := set_prev h (Some a) (set_next a (Some h) (lm_store m)),
                  lm_head := Some a, lm_state := lm_state m + 1\<rparr>))"

definition lm_addItemLast :: "nat \<Rightarrow> ('k, 'v) linked_map \<Rightarrow> ('k, 'v) linked_map option" where
  "lm_addItemLast a m =
     (case lm_tail m of
        None \<Rightarrow>
          if lm_head m = None
          then Some (m\<lparr>lm_head := Some a, lm_tail := Some a, lm_state := lm_state m + 1\<rparr>)
          else None
      | Some t \<Rightarrow>
          Some (m\<lparr>lm_store := set_next t (Some a) (set_prev a (Some t) (lm_store m)),
                  lm_tail := Some a, lm_state := lm_state m + 1\<rparr>))"

definition lm_set :: "'k \<Rightarrow> 'v \<Rightarrow> touch \<Rightarrow> ('k, 'v) linked_map \<Rightarrow> ('k, 'v) linked_map option" where
  "lm_set k v t m =
     (case lm_map m k of
        Some a \<Rightarrow>
          (let m' = m\<lparr>lm_store := set_elem a (lm_key m a, v) (lm_store m)\<rparr>
           in if t \<noteq> Touch_none then lm_touch a t m' else Some m')
      | None \<Rightarrow>
          (let a = lm_alloc m;
               m' = m\<lparr>lm_store := (lm_store m)(a \<mapsto> \<lparr>nd_prev = None, nd_next = None, nd_elem = (k, v)\<rparr>),
                      lm_alloc := a + 1\<rparr>
           in map_option (\<lambda>u. u\<lparr>lm_map := (lm_map u)(k \<mapsto> a), lm_size := lm_size u + 1\<rparr>)
                (case t of
                   As_old \<Rightarrow> lm_addItemFirst a m'
                 | Touch_none \<Rightarrow> lm_addItemLast a m'
                 | As_new \<Rightarrow> lm_addItemLast a m')))"

definition lm_removeItem :: "nat \<Rightarrow> ('k, 'v) linked_map \<Rightarrow> ('k, 'v) linked_map option" where
  "lm_removeItem a m =
     (let nxt = next_of (lm_store m) a; prv = prev_of (lm_store m) a;
          unlinked =
            (if lm_head m = Some a \<and> lm_tail m = Some a then Some (m\<lparr>lm_head := None, lm_tail := None\<rparr>)
             else if lm_head m = Some a then
               (case nxt of
                  None \<Rightarrow> None
                | Some n \<Rightarrow> Some (m\<lparr>lm_store := set_prev n None (lm_store m), lm_head := nxt\<rparr>))
             else if lm_tail m = Some a then
               (case prv of
                  None \<Rightarrow> None
                | Some p \<Rightarrow> Some (m\<lparr>lm_store := set_next p None (lm_store m), lm_tail := prv\<rparr>))
             else
               (case (nxt, prv) of
                  (Some n, Some p) \<Rightarrow> Some (m\<lparr>lm_store := set_next p nxt (set_prev n prv (lm_store m))\<rparr>)
                | _ \<Rightarrow> None))
      in map_option
           (\<lambda>u. u\<lparr>lm_store := set_prev a None (set_next a None (lm_store u)), lm_state := lm_state m + 1\<rparr>)
           unlinked)"

definition lm_remove :: "'k \<Rightarrow> ('k, 'v) linked_map \<Rightarrow> ('v option \<times> ('k, 'v) linked_map) option" where
  "lm_remove k m =
     (case lm_map m k of
        None \<Rightarrow> Some (None, m)
      | Some a \<Rightarrow>
          map_option (\<lambda>u. (Some (lm_value u a), u\<lparr>lm_size := lm_size u - 1\<rparr>))
            (lm_removeItem a (m\<lparr>lm_map := (lm_map m)(k := None)\<rparr>)))"

definition lm_shift :: "('k, 'v) linked_map \<Rightarrow> ('v option \<times> ('k, 'v) linked_map) option" where
  "lm_shift m =
     (case (lm_head m, lm_tail m) of
        (None, None) \<Rightarrow> Some (None, m)
      | (Some a, Some t) \<Rightarrow>
          map_option (\<lambda>u. (Some (lm_value u a), u\<lparr>lm_size := lm_size u - 1\<rparr>))
            (lm_removeItem a (m\<lparr>lm_map := (lm_map m)(lm_key m a := None)\<rparr>))
      | _ \<Rightarrow> None)"

text \<open>The iterators and \<open>forEach\<close> (with a callback that does not change the map) walk the items.\<close>

definition lm_entries :: "('k, 'v) linked_map \<Rightarrow> ('k \<times> 'v) list" where
  "lm_entries m = map (elem_of (lm_store m)) (walk (lm_store m) (lm_head m) (lm_alloc m))"

text \<open>
  The loops of \<open>trimOld\<close> and \<open>trimNew\<close>: they end when the list or the excess does; \<open>n\<close> is
  \<open>currentSize\<close>.
\<close>

fun lm_trimOld_loop :: "int \<Rightarrow> nat \<Rightarrow> nat option \<Rightarrow> ('k, 'v) linked_map \<Rightarrow> nat option \<times> nat \<times> ('k, 'v) linked_map" where
  "lm_trimOld_loop newSize (Suc n) (Some a) m =
     (if int (Suc n) > newSize
      then lm_trimOld_loop newSize n (next_of (lm_store m) a) (m\<lparr>lm_map := (lm_map m)(lm_key m a := None)\<rparr>)
      else (Some a, Suc n, m))"
| "lm_trimOld_loop newSize n cur m = (cur, n, m)"

definition lm_trimOld :: "int \<Rightarrow> ('k, 'v) linked_map \<Rightarrow> ('k, 'v) linked_map" where
  "lm_trimOld newSize m =
     (if newSize \<ge> lm_size m then m
      else if newSize = 0 then lm_clear m
      else
        (case lm_trimOld_loop newSize (nat (lm_size m)) (lm_head m) m of
           (cur, n, u) \<Rightarrow>
             u\<lparr>lm_head := cur, lm_size := int n, lm_state := lm_state m + 1,
               lm_store := (case cur of Some a \<Rightarrow> set_prev a None (lm_store u) | None \<Rightarrow> lm_store u)\<rparr>))"

fun lm_trimNew_loop :: "int \<Rightarrow> nat \<Rightarrow> nat option \<Rightarrow> ('k, 'v) linked_map \<Rightarrow> nat option \<times> nat \<times> ('k, 'v) linked_map" where
  "lm_trimNew_loop newSize (Suc n) (Some a) m =
     (if int (Suc n) > newSize
      then lm_trimNew_loop newSize n (prev_of (lm_store m) a) (m\<lparr>lm_map := (lm_map m)(lm_key m a := None)\<rparr>)
      else (Some a, Suc n, m))"
| "lm_trimNew_loop newSize n cur m = (cur, n, m)"

definition lm_trimNew :: "int \<Rightarrow> ('k, 'v) linked_map \<Rightarrow> ('k, 'v) linked_map" where
  "lm_trimNew newSize m =
     (if newSize \<ge> lm_size m then m
      else if newSize = 0 then lm_clear m
      else
        (case lm_trimNew_loop newSize (nat (lm_size m)) (lm_tail m) m of
           (cur, n, u) \<Rightarrow>
             u\<lparr>lm_tail := cur, lm_size := int n, lm_state := lm_state m + 1,
               lm_store := (case cur of Some a \<Rightarrow> set_next a None (lm_store u) | None \<Rightarrow> lm_store u)\<rparr>))"

section \<open>The caches\<close>

text \<open>\<open>Cache\<close> extends \<open>LinkedMap\<close>: the inherited part is \<open>c_map\<close>.\<close>

record ('k, 'v) cache =
  c_map :: "('k, 'v) linked_map"
  c_limit :: int
  c_ratio :: rat

text \<open>\<open>Math.min(Math.max(0, ratio), 1)\<close> and \<open>Math.round(limit * ratio)\<close>\<close>

definition clamp_ratio :: "rat \<Rightarrow> rat" where
  "clamp_ratio r = min (max 0 r) 1"

definition c_keep :: "('k, 'v) cache \<Rightarrow> int" where
  "c_keep c = \<lfloor>rat_of_int (c_limit c) * c_ratio c + 1 / 2\<rfloor>"

definition new_Cache :: "int \<Rightarrow> rat \<Rightarrow> ('k, 'v) cache" where
  "new_Cache limit ratio = \<lparr>c_map = new_LinkedMap, c_limit = limit, c_ratio = clamp_ratio ratio\<rparr>"

text \<open>\<open>checkTrim\<close>, with the \<open>trim\<close> of the subclass as argument\<close>

definition c_checkTrim ::
  "(int \<Rightarrow> ('k, 'v) linked_map \<Rightarrow> ('k, 'v) linked_map) \<Rightarrow> ('k, 'v) cache \<Rightarrow> ('k, 'v) cache" where
  "c_checkTrim tr c =
     (if lm_size (c_map c) > c_limit c then c\<lparr>c_map := tr (c_keep c) (c_map c)\<rparr> else c)"

definition c_setLimit ::
  "(int \<Rightarrow> ('k, 'v) linked_map \<Rightarrow> ('k, 'v) linked_map) \<Rightarrow> int \<Rightarrow> ('k, 'v) cache \<Rightarrow> ('k, 'v) cache" where
  "c_setLimit tr limit c = c_checkTrim tr (c\<lparr>c_limit := limit\<rparr>)"

definition c_setRatio ::
  "(int \<Rightarrow> ('k, 'v) linked_map \<Rightarrow> ('k, 'v) linked_map) \<Rightarrow> rat \<Rightarrow> ('k, 'v) cache \<Rightarrow> ('k, 'v) cache" where
  "c_setRatio tr ratio c = c_checkTrim tr (c\<lparr>c_ratio := clamp_ratio ratio\<rparr>)"

definition c_get :: "'k \<Rightarrow> touch \<Rightarrow> ('k, 'v) cache \<Rightarrow> ('v option \<times> ('k, 'v) cache) option" where
  "c_get k t c = map_option (\<lambda>(v, m). (v, c\<lparr>c_map := m\<rparr>)) (lm_get k t (c_map c))"

definition c_peek :: "'k \<Rightarrow> ('k, 'v) cache \<Rightarrow> 'v option" where
  "c_peek k c = Option.bind (lm_get k Touch_none (c_map c)) fst"

definition c_set :: "'k \<Rightarrow> 'v \<Rightarrow> ('k, 'v) cache \<Rightarrow> ('k, 'v) cache option" where
  "c_set k v c = map_option (\<lambda>m. c\<lparr>c_map := m\<rparr>) (lm_set k v As_new (c_map c))"

definition lruc_set :: "'k \<Rightarrow> 'v \<Rightarrow> ('k, 'v) cache \<Rightarrow> ('k, 'v) cache option" where
  "lruc_set k v c = map_option (c_checkTrim lm_trimOld) (c_set k v c)"

definition mruc_set :: "'k \<Rightarrow> 'v \<Rightarrow> ('k, 'v) cache \<Rightarrow> ('k, 'v) cache option" where
  "mruc_set k v c =
     (let c' = (if c_limit c \<le> lm_size (c_map c) \<and> \<not> lm_has (c_map c) k
                then c\<lparr>c_map := lm_trimNew (c_keep c - 1) (c_map c)\<rparr> else c)
      in c_set k v c')"

section \<open>Representation\<close>

definition lm_repr :: "('k, 'v) linked_map \<Rightarrow> nat list \<Rightarrow> bool" where
  "lm_repr m xs \<longleftrightarrow>
     distinct xs \<and> seg (lm_store m) None xs None
     \<and> lm_head m = hd_or None xs \<and> lm_tail m = last_or None xs
     \<and> lm_size m = int (length xs)
     \<and> (\<forall>a \<in> set xs. a < lm_alloc m)
     \<and> (\<forall>k a. lm_map m k = Some a \<longleftrightarrow> a \<in> set xs \<and> lm_key m a = k)"

text \<open>The abstract contents: the entries in order of use, oldest first, with distinct keys.\<close>

definition lm_rel :: "('k, 'v) linked_map \<Rightarrow> ('k \<times> 'v) list \<Rightarrow> bool" where
  "lm_rel m es \<longleftrightarrow> (\<exists>xs. lm_repr m xs \<and> es = map (elem_of (lm_store m)) xs)"

lemma lm_reprD:
  assumes "lm_repr m xs"
  shows "distinct xs" "seg (lm_store m) None xs None" "lm_head m = hd_or None xs"
    "lm_tail m = last_or None xs" "lm_size m = int (length xs)" "\<And>a. a \<in> set xs \<Longrightarrow> a < lm_alloc m"
    "\<And>k a. lm_map m k = Some a \<longleftrightarrow> a \<in> set xs \<and> lm_key m a = k"
  using assms by (simp_all add: lm_repr_def)

lemma lm_repr_keys:
  assumes "lm_repr m xs"
  shows "distinct (map (fst \<circ> elem_of (lm_store m)) xs)"
  using lm_reprD(1,7) [OF assms]
  by (auto simp: distinct_map inj_on_def lm_key_def) (metis option.inject)

lemma lm_repr_distinct_keys: "lm_repr m xs \<Longrightarrow> distinct (map (lm_key m) xs)"
  using lm_repr_keys [of m xs] by (simp add: lm_key_def [abs_def] comp_def)

lemma lm_rel_distinct: "lm_rel m es \<Longrightarrow> jmap_ok es"
  using lm_repr_keys by (fastforce simp: lm_rel_def)

lemma lm_rel_lookup:
  assumes "lm_rel m es"
  shows "map_option (lm_value m) (lm_map m k) = map_of es k"
proof -
  from assms obtain xs where r: "lm_repr m xs" and es: "es = map (elem_of (lm_store m)) xs"
    by (auto simp: lm_rel_def)
  have d: "jmap_ok es" by (rule lm_rel_distinct [OF assms])
  show ?thesis
  proof (cases "lm_map m k")
    case None
    have "k \<notin> fst ` set es"
    proof
      assume "k \<in> fst ` set es"
      then obtain x where "x \<in> set xs" "lm_key m x = k" by (auto simp: es lm_key_def)
      with None show False using lm_reprD(7) [OF r, of k x] by simp
    qed
    then have "map_of es k = None" by (simp add: map_of_eq_None_iff)
    with None show ?thesis by simp
  next
    case (Some a)
    then have "a \<in> set xs" "lm_key m a = k" using lm_reprD(7) [OF r] by blast+
    then have "(k, lm_value m a) \<in> set es"
      by (force simp: es lm_key_def lm_value_def)
    with d Some show ?thesis by simp
  qed
qed

lemma lm_rel_entries: "lm_rel m es \<Longrightarrow> lm_entries m = es"
proof -
  assume "lm_rel m es"
  then obtain xs where r: "lm_repr m xs" and es: "es = map (elem_of (lm_store m)) xs"
    by (auto simp: lm_rel_def)
  have "card (set xs) \<le> card {..<lm_alloc m}" using lm_reprD(6) [OF r] by (intro card_mono) auto
  then have "length xs \<le> lm_alloc m" using lm_reprD(1) [OF r] by (simp add: distinct_card)
  with walk_seg [OF lm_reprD(2) [OF r]] lm_reprD(3) [OF r] show ?thesis by (simp add: lm_entries_def es)
qed

lemma lm_rel_size: "lm_rel m es \<Longrightarrow> lm_size m = int (length es)"
  by (auto simp: lm_rel_def lm_repr_def)

lemma lm_rel_new: "lm_rel new_LinkedMap []"
  by (simp add: lm_rel_def lm_repr_def new_LinkedMap_def)

lemma lm_rel_clear: "lm_rel m es \<Longrightarrow> lm_rel (lm_clear m) []"
  by (simp add: lm_rel_def lm_repr_def lm_clear_def)

text \<open>Relinking: another order of the same items.\<close>

lemma lm_repr_relink:
  assumes "lm_repr m xs" and "distinct ys" "set ys = set xs" and "seg h None ys None"
    and "\<And>b. elem_of h b = elem_of (lm_store m) b"
  shows "lm_repr (m\<lparr>lm_store := h, lm_head := hd_or None ys, lm_tail := last_or None ys, lm_state := n\<rparr>) ys"
proof -
  have "length ys = length xs" using assms lm_reprD(1) [OF assms(1)] by (metis distinct_card)
  with assms show ?thesis by (simp add: lm_repr_def lm_key_def)
qed

lemma seg_append_last:
  assumes "seg h None xs None" "distinct xs" "a \<notin> set xs" "h a \<noteq> None"
  shows "seg (set_next_opt (last_or None xs) (Some a) (set_prev a (last_or None xs) (set_next a None h))) None (xs @ [a]) None"
  by (rule seg_link_last) (use assms in auto)

lemma seg_append_first:
  assumes "seg h None xs None" "distinct xs" "a \<notin> set xs" "h a \<noteq> None"
  shows "seg (set_prev_opt (hd_or None xs) (Some a) (set_next a (hd_or None xs) (set_prev a None h))) None (a # xs) None"
  by (rule seg_link_first) (use assms in auto)

text \<open>Both moves of \<open>touch\<close>\<close>

lemma lm_touch_new:
  assumes r: "lm_repr m (pre @ a # post)"
  shows "\<exists>m'. lm_touch a As_new m = Some m' \<and> lm_repr m' (pre @ post @ [a])
    \<and> (\<forall>b. elem_of (lm_store m') b = elem_of (lm_store m) b)"
proof (cases "post = []")
  case True
  have "lm_tail m = Some a" "lm_head m \<noteq> None" using lm_reprD(3,4) [OF r] True by (auto simp: hd_or_def split: list.split)
  then have "lm_touch a As_new m = Some m" by (auto simp: lm_touch_def)
  with r True show ?thesis by auto
next
  case False
  let ?h = "lm_store m" and ?p = "last_or None pre" and ?n = "hd_or None post"
  let ?u = "unlink ?p ?n ?h"
  note d = lm_reprD(1) [OF r] and sg = lm_reprD(2) [OF r]
  note links = seg_links [OF sg]
  obtain n post' where post: "post = n # post'" using False by (cases post) auto
  let ?tl = "last post"
  have tl: "lm_tail m = Some ?tl" "last_or None (pre @ post) = Some ?tl" using lm_reprD(4) [OF r] False by (auto simp: last_or_def)
  have ne: "a \<noteq> ?tl" using d False by auto
  have "distinct (pre @ post)" "a \<notin> set (pre @ post)" using d by auto
  from seg_append_last [OF seg_unlink [OF sg d] this] links(3)
  have seg: "seg (set_next ?tl (Some a) (set_prev a (Some ?tl) (set_next a None ?u))) None ((pre @ post) @ [a]) None"
    by (simp only: tl(2) opt_link_simps unlink_other simp_thms)
  have eq: "lm_touch a As_new m = Some (m\<lparr>lm_store := set_next ?tl (Some a) (set_prev a (Some ?tl) (set_next a None ?u)),
      lm_head := hd_or None ((pre @ post) @ [a]), lm_tail := last_or None ((pre @ post) @ [a]), lm_state := lm_state m + 1\<rparr>)"
  proof (cases pre rule: rev_cases)
    case Nil
    with lm_reprD(3) [OF r] have "lm_head m = Some a" by simp
    with Nil tl ne links show ?thesis by (simp add: lm_touch_def Let_def post unlink_def)
  next
    case (snoc ps p)
    obtain h0 where h0: "lm_head m = Some h0" "hd_or None ((pre @ post) @ [a]) = Some h0" "a \<noteq> h0"
      using lm_reprD(3) [OF r] d snoc by (cases ps) auto
    with snoc tl ne links show ?thesis by (simp add: lm_touch_def Let_def post unlink_def)
  qed
  have "lm_repr (m\<lparr>lm_store := set_next ?tl (Some a) (set_prev a (Some ?tl) (set_next a None ?u)),
      lm_head := hd_or None ((pre @ post) @ [a]), lm_tail := last_or None ((pre @ post) @ [a]), lm_state := lm_state m + 1\<rparr>)
      ((pre @ post) @ [a])"
    by (rule lm_repr_relink [OF r _ _ seg]) (use d in auto)
  with eq show ?thesis by auto
qed

lemma lm_touch_old:
  assumes r: "lm_repr m (pre @ a # post)"
  shows "\<exists>m'. lm_touch a As_old m = Some m' \<and> lm_repr m' (a # pre @ post)
    \<and> (\<forall>b. elem_of (lm_store m') b = elem_of (lm_store m) b)"
proof (cases "pre = []")
  case True
  have "lm_head m = Some a" "lm_tail m \<noteq> None" using lm_reprD(3,4) [OF r] True by (auto simp: last_or_def)
  then have "lm_touch a As_old m = Some m" by (auto simp: lm_touch_def)
  with r True show ?thesis by auto
next
  case False
  let ?h = "lm_store m" and ?p = "last_or None pre" and ?n = "hd_or None post"
  let ?u = "unlink ?p ?n ?h"
  note d = lm_reprD(1) [OF r] and sg = lm_reprD(2) [OF r]
  note links = seg_links [OF sg]
  let ?hd = "hd pre"
  have hd: "lm_head m = Some ?hd" "hd_or None (pre @ post) = Some ?hd" "?p = Some (last pre)"
    using lm_reprD(3) [OF r] False by (cases pre; simp add: last_or_def)+
  have ne: "a \<noteq> ?hd" using d False by (cases pre) auto
  have "distinct (pre @ post)" "a \<notin> set (pre @ post)" using d by auto
  from seg_append_first [OF seg_unlink [OF sg d] this] links(3)
  have seg: "seg (set_prev ?hd (Some a) (set_next a (Some ?hd) (set_prev a None ?u))) None (a # (pre @ post)) None"
    by (simp only: hd opt_link_simps unlink_other simp_thms)
  have eq: "lm_touch a As_old m = Some (m\<lparr>lm_store := set_prev ?hd (Some a) (set_next a (Some ?hd) (set_prev a None ?u)),
      lm_head := hd_or None (a # (pre @ post)), lm_tail := last_or None (a # (pre @ post)), lm_state := lm_state m + 1\<rparr>)"
  proof (cases post)
    case Nil
    with lm_reprD(4) [OF r] have "lm_tail m = Some a" by simp
    with Nil hd ne links False show ?thesis by (simp add: lm_touch_def Let_def unlink_def last_or_def)
  next
    case (Cons n ns)
    have tl: "lm_tail m = Some (last post)" "a \<noteq> last post" using lm_reprD(4) [OF r] Cons d by (auto simp: last_or_def)
    with Cons hd ne links False show ?thesis by (simp add: lm_touch_def Let_def unlink_def last_or_def)
  qed
  have "lm_repr (m\<lparr>lm_store := set_prev ?hd (Some a) (set_next a (Some ?hd) (set_prev a None ?u)),
      lm_head := hd_or None (a # (pre @ post)), lm_tail := last_or None (a # (pre @ post)), lm_state := lm_state m + 1\<rparr>)
      (a # (pre @ post))"
    by (rule lm_repr_relink [OF r _ _ seg]) (use d in auto)
  with eq show ?thesis by auto
qed

section \<open>Refinement\<close>

lemma lm_rel_split:
  assumes "lm_rel m es" and "lm_map m k = Some a"
  obtains pre post where "lm_repr m (pre @ a # post)"
    and "es = map (elem_of (lm_store m)) (pre @ a # post)" and "lm_key m a = k"
    and "AList.delete k es = map (elem_of (lm_store m)) (pre @ post)"
proof -
  from assms(1) obtain xs where r: "lm_repr m xs" and es: "es = map (elem_of (lm_store m)) xs"
    by (auto simp: lm_rel_def)
  with assms(2) have a: "a \<in> set xs" "lm_key m a = k" using lm_reprD(7) [OF r] by blast+
  then obtain pre post where xs: "xs = pre @ a # post" by (meson split_list)
  have d: "distinct (map (lm_key m) (pre @ a # post))"
    using lm_repr_distinct_keys [OF r] by (simp add: xs)
  then have "k \<notin> fst ` set (map (elem_of (lm_store m)) pre)" "k \<notin> fst ` set (map (elem_of (lm_store m)) post)"
    using a(2) by (auto simp: lm_key_def)
  moreover obtain w where "elem_of (lm_store m) a = (k, w)"
    using a(2) by (cases "elem_of (lm_store m) a") (simp add: lm_key_def)
  ultimately have "AList.delete k es = map (elem_of (lm_store m)) (pre @ post)"
    by (simp add: es xs AList_delete_append AList_delete_absent)
  with r es a(2) show ?thesis using that by (simp add: xs)
qed

lemma lm_repr_set_elem:
  assumes r: "lm_repr m (pre @ a # post)"
  shows "lm_repr (m\<lparr>lm_store := set_elem a (lm_key m a, v) (lm_store m)\<rparr>) (pre @ a # post)"
proof -
  have "lm_store m a \<noteq> None" using seg_links(3) [OF lm_reprD(2) [OF r]] .
  then have "lm_key (m\<lparr>lm_store := set_elem a (lm_key m a, v) (lm_store m)\<rparr>) b = lm_key m b" for b
    by (cases "b = a") (simp_all add: lm_key_def)
  with r show ?thesis unfolding lm_repr_def by simp
qed

lemma lm_map_elems_set:
  assumes "lm_repr m (pre @ a # post)"
  shows "map (elem_of (set_elem a e (lm_store m))) pre = map (elem_of (lm_store m)) pre"
    "map (elem_of (set_elem a e (lm_store m))) post = map (elem_of (lm_store m)) post"
    "elem_of (set_elem a e (lm_store m)) a = e"
  using lm_reprD(1,2) [OF assms] by (auto intro!: links_of_set_elem(4))

fun lm_abs_set :: "'k \<Rightarrow> 'v \<Rightarrow> touch \<Rightarrow> ('k \<times> 'v) list \<Rightarrow> ('k \<times> 'v) list" where
  "lm_abs_set k v Touch_none es = AList.update k v es"
| "lm_abs_set k v As_old es = (k, v) # AList.delete k es"
| "lm_abs_set k v As_new es = AList.delete k es @ [(k, v)]"

lemma AList_update_middle:
  "k \<notin> fst ` set pre \<Longrightarrow> AList.update k v (pre @ (k, w) # post) = pre @ (k, v) # post"
  by (induction pre) auto

lemma lm_alloc_store: "m\<lparr>lm_alloc := n, lm_store := h\<rparr> = m\<lparr>lm_store := h, lm_alloc := n\<rparr>"
  by simp

lemma lm_tail_head: "m\<lparr>lm_tail := t, lm_head := h\<rparr> = m\<lparr>lm_head := h, lm_tail := t\<rparr>"
  by simp

lemma lm_addItemLast_repr:
  assumes r: "lm_repr m xs" and absent: "lm_map m k = None"
  shows "\<exists>u. lm_addItemLast (lm_alloc m)
      (m\<lparr>lm_store := (lm_store m)(lm_alloc m \<mapsto> \<lparr>nd_prev = None, nd_next = None, nd_elem = (k, v)\<rparr>),
         lm_alloc := lm_alloc m + 1\<rparr>) = Some u
    \<and> lm_rel (u\<lparr>lm_map := (lm_map u)(k \<mapsto> lm_alloc m), lm_size := lm_size u + 1\<rparr>)
        (map (elem_of (lm_store m)) xs @ [(k, v)])"
proof -
  let ?a = "lm_alloc m"
  let ?h = "(lm_store m)(?a \<mapsto> \<lparr>nd_prev = None, nd_next = None, nd_elem = (k, v)\<rparr>)"
  let ?g = "set_next_opt (last_or None xs) (Some ?a) (set_prev ?a (last_or None xs) ?h)"
  have fresh: "?a \<notin> set xs" using lm_reprD(6) [OF r] by blast
  have "seg ?h None xs None" using lm_reprD(2) [OF r] fresh by (subst seg_frame [of _ _ "lm_store m"]) auto
  then have "seg (set_prev ?a (last_or None xs) ?h) None xs None" using fresh by simp
  from seg_link_last [OF this lm_reprD(1) [OF r] fresh]
  have seg: "seg ?g None (xs @ [?a]) None"
    by (simp add: prev_of_def next_of_def set_prev_def)
  have base: "elem_of ?h b = (if b = ?a then (k, v) else elem_of (lm_store m) b)" for b
    by (simp add: elem_of_def)
  have elems: "elem_of ?g b = (if b = ?a then (k, v) else elem_of (lm_store m) b)" for b
    by (simp add: base)
  have old: "elem_of ?g b = elem_of (lm_store m) b" if "b \<in> set xs" for b
    using that fresh elems by auto
  let ?m = "m\<lparr>lm_store := ?g, lm_alloc := ?a + 1, lm_head := hd_or None (xs @ [?a]),
      lm_tail := last_or None (xs @ [?a]), lm_state := lm_state m + 1, lm_map := (lm_map m)(k \<mapsto> ?a), lm_size := lm_size m + 1\<rparr>"
  have nokey: "lm_key m b \<noteq> k" if "b \<in> set xs" for b
    using that absent lm_reprD(7) [OF r, of k b] by auto
  have mkey: "lm_key ?m b = (if b = ?a then k else lm_key m b)" for b by (simp add: lm_key_def base)
  have map_ok: "((lm_map m)(k \<mapsto> ?a)) k' = Some b \<longleftrightarrow> b \<in> set (xs @ [?a]) \<and> lm_key ?m b = k'" for k' b
    unfolding mkey using lm_reprD(7) [OF r, of k' b] fresh nokey absent by auto
  have "lm_repr ?m (xs @ [?a])"
    unfolding lm_repr_def
    using lm_reprD(1,5,6) [OF r] fresh seg map_ok by (simp del: seg_append hd_or_simps(3) last_or_simps(3) add: less_Suc_eq)
  moreover have "map (elem_of ?g) (xs @ [?a]) = map (elem_of (lm_store m)) xs @ [(k, v)]"
    using old by (simp add: base)
  ultimately have rel: "lm_rel ?m (map (elem_of (lm_store m)) xs @ [(k, v)])"
    unfolding lm_rel_def by (intro exI [of _ "xs @ [?a]"]) simp
  show ?thesis
  proof (cases xs rule: rev_cases)
    case Nil
    have "set_prev ?a None ?h = ?h" by (auto simp: set_prev_def)
    with Nil rel lm_reprD(3,4) [OF r] show ?thesis by (simp add: lm_addItemLast_def)
  next
    case (snoc ys y)
    have "hd_or None (xs @ [?a]) = lm_head m" using snoc lm_reprD(3) [OF r] by simp
    with snoc rel lm_reprD(4) [OF r] show ?thesis by (simp add: lm_addItemLast_def lm_alloc_store)
  qed
qed

lemma lm_set_new:
  assumes rel: "lm_rel m es"
  shows "\<exists>m'. lm_set k v As_new m = Some m' \<and> lm_rel m' (AList.delete k es @ [(k, v)])"
proof (cases "lm_map m k")
  case None
  from rel obtain xs where r: "lm_repr m xs" and es: "es = map (elem_of (lm_store m)) xs"
    by (auto simp: lm_rel_def)
  have "map_of es k = None" using lm_rel_lookup [OF rel, of k] None by simp
  then have "AList.delete k es = es" by (simp add: map_of_eq_None_iff AList_delete_absent)
  with lm_addItemLast_repr [OF r None, of v] None es show ?thesis by (auto simp: lm_set_def Let_def)
next
  case (Some a)
  from lm_rel_split [OF rel Some] obtain pre post where r: "lm_repr m (pre @ a # post)"
    and key: "lm_key m a = k" and del: "AList.delete k es = map (elem_of (lm_store m)) (pre @ post)" by blast
  let ?m = "m\<lparr>lm_store := set_elem a (k, v) (lm_store m)\<rparr>"
  have "lm_repr ?m (pre @ a # post)" using lm_repr_set_elem [OF r, of v] by (simp add: key)
  from lm_touch_new [OF this] obtain m' where m': "lm_touch a As_new ?m = Some m'"
    "lm_repr m' (pre @ post @ [a])" "\<And>b. elem_of (lm_store m') b = elem_of (lm_store ?m) b" by blast
  have "map (elem_of (lm_store m')) (pre @ post @ [a]) = AList.delete k es @ [(k, v)]"
    using m'(3) lm_map_elems_set [OF r, of "(k, v)"] by (simp add: del)
  with m' Some key show ?thesis by (auto simp: lm_set_def Let_def lm_rel_def)
qed

lemma lm_set_none:
  assumes rel: "lm_rel m es"
  shows "\<exists>m'. lm_set k v Touch_none m = Some m' \<and> lm_rel m' (AList.update k v es)"
proof (cases "lm_map m k")
  case None
  from rel obtain xs where r: "lm_repr m xs" and es: "es = map (elem_of (lm_store m)) xs"
    by (auto simp: lm_rel_def)
  have "map_of es k = None" using lm_rel_lookup [OF rel, of k] None by simp
  then have "AList.update k v es = es @ [(k, v)]" by (simp add: map_of_eq_None_iff AList_update_new)
  with lm_addItemLast_repr [OF r None, of v] None es show ?thesis by (auto simp: lm_set_def Let_def)
next
  case (Some a)
  from lm_rel_split [OF rel Some] obtain pre post where r: "lm_repr m (pre @ a # post)"
    and es: "es = map (elem_of (lm_store m)) (pre @ a # post)" and key: "lm_key m a = k" by blast
  have absent: "k \<notin> fst ` set (map (elem_of (lm_store m)) pre)"
    using lm_repr_distinct_keys [OF r] key by (auto simp: lm_key_def)
  obtain w where w: "elem_of (lm_store m) a = (k, w)" using key by (cases "elem_of (lm_store m) a") (auto simp: lm_key_def)
  have "AList.update k v es = map (elem_of (lm_store m)) pre @ (k, v) # map (elem_of (lm_store m)) post"
    using AList_update_middle [OF absent, of v w] by (simp add: es w)
  with lm_repr_set_elem [OF r, of v] lm_map_elems_set [OF r, of "(k, v)"] Some key show ?thesis
    by (auto simp: lm_set_def Let_def lm_rel_def intro!: exI [of _ "pre @ a # post"])
qed

lemma lm_get_new:
  assumes rel: "lm_rel m es"
  shows "\<exists>m'. lm_get k As_new m = Some (map_of es k, m')
    \<and> lm_rel m' (case map_of es k of None \<Rightarrow> es | Some v \<Rightarrow> AList.delete k es @ [(k, v)])"
proof (cases "lm_map m k")
  case None
  then show ?thesis using lm_rel_lookup [OF rel, of k] rel by (simp add: lm_get_def)
next
  case (Some a)
  from lm_rel_split [OF rel Some] obtain pre post where r: "lm_repr m (pre @ a # post)"
    and key: "lm_key m a = k" and del: "AList.delete k es = map (elem_of (lm_store m)) (pre @ post)" by blast
  have v: "map_of es k = Some (lm_value m a)" using lm_rel_lookup [OF rel, of k] Some by simp
  have e: "elem_of (lm_store m) a = (k, lm_value m a)"
    using key by (simp add: lm_key_def lm_value_def prod_eq_iff)
  from lm_touch_new [OF r] obtain m' where m': "lm_touch a As_new m = Some m'"
    "lm_repr m' (pre @ post @ [a])" "\<And>b. elem_of (lm_store m') b = elem_of (lm_store m) b" by blast
  have "map (elem_of (lm_store m')) (pre @ post @ [a]) = AList.delete k es @ [(k, lm_value m a)]"
    using m'(3) e by (simp add: del)
  with m' Some v show ?thesis by (auto simp: lm_get_def lm_rel_def lm_value_def)
qed

lemma lm_get_none: "lm_rel m es \<Longrightarrow> lm_get k Touch_none m = Some (map_of es k, m)"
  using lm_rel_lookup [of m es k] by (auto simp: lm_get_def split: option.split)

text \<open>Removal\<close>

lemma lm_removeItem_repr:
  assumes r: "lm_repr m (pre @ a # post)"
  shows "\<exists>u. lm_removeItem a m = Some u \<and> lm_head u = hd_or None (pre @ post) \<and> lm_tail u = last_or None (pre @ post)
    \<and> lm_map u = lm_map m \<and> lm_size u = lm_size m \<and> lm_alloc u = lm_alloc m
    \<and> seg (lm_store u) None (pre @ post) None \<and> (\<forall>b. elem_of (lm_store u) b = elem_of (lm_store m) b)"
proof -
  let ?h = "lm_store m" and ?p = "last_or None pre" and ?n = "hd_or None post"
  let ?u = "unlink ?p ?n ?h"
  note d = lm_reprD(1) [OF r] and sg = lm_reprD(2) [OF r]
  note links = seg_links [OF sg]
  have "a \<notin> set pre" "a \<notin> set post" using d by auto
  with seg_unlink [OF sg d] have seg: "seg (set_prev a None (set_next a None ?u)) None (pre @ post) None"
    by simp
  have "lm_removeItem a m = Some (m\<lparr>lm_store := set_prev a None (set_next a None ?u),
      lm_head := hd_or None (pre @ post), lm_tail := last_or None (pre @ post), lm_state := lm_state m + 1\<rparr>)"
  proof (cases pre rule: rev_cases)
    case Nil
    show ?thesis
    proof (cases post)
      case Nil
      with \<open>pre = []\<close> lm_reprD(3,4) [OF r] show ?thesis
        by (simp add: lm_removeItem_def Let_def unlink_def)
    next
      case (Cons n ns)
      have "lm_tail m = Some (last post)" "a \<noteq> last post"
        using lm_reprD(4) [OF r] Cons d by (auto simp: last_or_def)
      with Nil Cons lm_reprD(3) [OF r] links show ?thesis
        by (simp add: lm_removeItem_def Let_def unlink_def last_or_def)
    qed
  next
    case (snoc ps p)
    obtain h0 where h0: "lm_head m = Some h0" "hd_or None (pre @ post) = Some h0" "a \<noteq> h0"
      using lm_reprD(3) [OF r] d snoc by (cases ps) auto
    show ?thesis
    proof (cases post)
      case Nil
      with h0 snoc lm_reprD(4) [OF r] links show ?thesis
        by (simp add: lm_removeItem_def Let_def unlink_def)
    next
      case (Cons n ns)
      have "lm_tail m = Some (last post)" "a \<noteq> last post"
        using lm_reprD(4) [OF r] Cons d by (auto simp: last_or_def)
      with h0 snoc Cons links show ?thesis
        by (simp add: lm_removeItem_def Let_def unlink_def last_or_def)
    qed
  qed
  with seg show ?thesis by auto
qed

lemma lm_remove_rel:
  assumes rel: "lm_rel m es"
  shows "\<exists>m'. lm_remove k m = Some (map_of es k, m') \<and> lm_rel m' (AList.delete k es)"
proof (cases "lm_map m k")
  case None
  then have "map_of es k = None" using lm_rel_lookup [OF rel, of k] by simp
  moreover from this have "AList.delete k es = es" by (simp add: map_of_eq_None_iff AList_delete_absent)
  ultimately show ?thesis using None rel by (simp add: lm_remove_def)
next
  case (Some a)
  from lm_rel_split [OF rel Some] obtain pre post where r: "lm_repr m (pre @ a # post)"
    and key: "lm_key m a = k" and del: "AList.delete k es = map (elem_of (lm_store m)) (pre @ post)" by blast
  have v: "map_of es k = Some (lm_value m a)" using lm_rel_lookup [OF rel, of k] Some by simp
  let ?m = "m\<lparr>lm_map := (lm_map m)(k := None)\<rparr>"
  from lm_removeItem_repr [OF r] obtain u where u: "lm_removeItem a m = Some u"
    "lm_head u = hd_or None (pre @ post)" "lm_tail u = last_or None (pre @ post)" "lm_size u = lm_size m"
    "lm_alloc u = lm_alloc m" "seg (lm_store u) None (pre @ post) None"
    "\<And>b. elem_of (lm_store u) b = elem_of (lm_store m) b" by blast
  have "lm_removeItem a ?m = map_option (\<lambda>u. u\<lparr>lm_map := (lm_map m)(k := None)\<rparr>) (lm_removeItem a m)"
    by (simp add: lm_removeItem_def Let_def split: option.split)
  then have rm: "lm_removeItem a ?m = Some (u\<lparr>lm_map := (lm_map m)(k := None)\<rparr>)" using u(1) by simp
  let ?r = "u\<lparr>lm_map := (lm_map m)(k := None), lm_size := lm_size u - 1\<rparr>"
  have rkey: "lm_key ?r b = lm_key m b" for b by (simp add: lm_key_def u(7))
  have other: "lm_key m b \<noteq> k" if "b \<in> set (pre @ post)" for b
    using lm_reprD(7) [OF r, of k b] lm_reprD(1) [OF r] Some that by auto
  have map_ok: "((lm_map m)(k := None)) k' = Some b \<longleftrightarrow> b \<in> set (pre @ post) \<and> lm_key ?r b = k'" for k' b
    unfolding rkey using lm_reprD(7) [OF r, of k' b] other key by auto
  have "lm_repr ?r (pre @ post)"
    unfolding lm_repr_def using lm_reprD(1,5,6) [OF r] u map_ok by simp
  then have "lm_rel ?r (AList.delete k es)" unfolding lm_rel_def del using u(7) by (intro exI [of _ "pre @ post"]) simp
  with rm Some v u(7) show ?thesis by (simp add: lm_remove_def lm_value_def)
qed

text \<open>Trimming\<close>

lemma lm_trimOld_loop_spec:
  assumes "seg (lm_store m) p xs None" and "0 \<le> newSize"
  shows "lm_trimOld_loop newSize (length xs) (hd_or None xs) m =
    (hd_or None (drop (length xs - nat newSize) xs), min (length xs) (nat newSize),
     m\<lparr>lm_map := (lm_map m) |` (- lm_key m ` set (take (length xs - nat newSize) xs))\<rparr>)"
  using assms
proof (induction xs arbitrary: m p)
  case Nil
  show ?case by (simp add: restrict_map_def)
next
  case (Cons a xs)
  show ?case
  proof (cases "int (Suc (length xs)) > newSize")
    case True
    let ?m = "m\<lparr>lm_map := (lm_map m)(lm_key m a := None)\<rparr>"
    have key: "lm_key ?m = lm_key m" by (simp add: lm_key_def fun_eq_iff)
    have "Suc (length xs) - nat newSize = Suc (length xs - nat newSize)" using True Cons.prems(2) by auto
    moreover have "lm_trimOld_loop newSize (length xs) (hd_or None xs) ?m =
        (hd_or None (drop (length xs - nat newSize) xs), min (length xs) (nat newSize),
         ?m\<lparr>lm_map := (lm_map ?m) |` (- lm_key ?m ` set (take (length xs - nat newSize) xs))\<rparr>)"
      by (rule Cons.IH [of ?m "Some a"]) (use Cons.prems in simp_all)
    moreover have "((lm_map m)(lm_key m a := None)) |` (- S) = (lm_map m) |` (- insert (lm_key m a) S)" for S
      by (auto simp: restrict_map_def fun_eq_iff)
    moreover have "next_of (lm_store m) a = hd_or None xs" using Cons.prems by simp
    moreover have "nat newSize \<le> length xs" using True Cons.prems(2) by auto
    ultimately show ?thesis using True Cons.prems(2) by (simp add: key min_absorb2)
  next
    case False
    then have z: "Suc (length xs) - nat newSize = 0" "min (Suc (length xs)) (nat newSize) = Suc (length xs)" by auto
    have "m\<lparr>lm_map := lm_map m |` (- {})\<rparr> = m" by (simp add: restrict_map_def)
    with False z show ?thesis by simp
  qed
qed

lemma lm_repr_keep:
  assumes r: "lm_repr m xs" and xs: "xs = del1 @ keep @ del2"
    and seg: "seg h None keep None" and el: "\<And>b. elem_of h b = elem_of (lm_store m) b"
    and f: "f = (lm_map m) |` (- lm_key m ` set (del1 @ del2))"
  shows "lm_rel (m\<lparr>lm_map := f, lm_store := h, lm_head := hd_or None keep, lm_tail := last_or None keep,
      lm_size := int (length keep), lm_state := n\<rparr>) (map (elem_of (lm_store m)) keep)"
proof -
  let ?m = "m\<lparr>lm_map := f, lm_store := h, lm_head := hd_or None keep, lm_tail := last_or None keep,
      lm_size := int (length keep), lm_state := n\<rparr>"
  have key: "lm_key ?m b = lm_key m b" for b by (simp add: lm_key_def el)
  have "distinct (map (lm_key m) xs)" by (rule lm_repr_distinct_keys [OF r])
  then have disj: "lm_key m b \<notin> lm_key m ` set (del1 @ del2)" if "b \<in> set keep" for b
    using that by (auto simp: xs)
  have "f k = Some a \<longleftrightarrow> a \<in> set keep \<and> lm_key ?m a = k" for k a
    using lm_reprD(7) [OF r, of k a] disj [of a]
    unfolding key unfolding f by (auto simp: xs restrict_map_def)
  moreover have "distinct keep" "\<forall>a \<in> set keep. a < lm_alloc m"
    using lm_reprD(1,6) [OF r] by (auto simp: xs)
  ultimately have "lm_repr ?m keep" unfolding lm_repr_def using seg by simp
  then show ?thesis unfolding lm_rel_def by (intro exI [of _ keep]) (simp add: el)
qed

lemma lm_trimOld_rel:
  assumes rel: "lm_rel m es" and n: "0 \<le> newSize"
  shows "lm_rel (lm_trimOld newSize m) (drop (length es - nat newSize) es)"
proof -
  from rel obtain xs where r: "lm_repr m xs" and es: "es = map (elem_of (lm_store m)) xs"
    by (auto simp: lm_rel_def)
  let ?k = "length xs - nat newSize"
  consider (keep) "newSize \<ge> lm_size m" | (zero) "newSize < lm_size m" "newSize = 0"
    | (trim) "newSize < lm_size m" "0 < newSize" using n by linarith
  then show ?thesis
  proof cases
    case keep
    then have "?k = 0" using lm_reprD(5) [OF r] by simp
    with keep rel show ?thesis by (simp add: lm_trimOld_def es)
  next
    case zero
    with lm_rel_clear [OF rel] show ?thesis by (simp add: lm_trimOld_def es)
  next
    case trim
    have lt: "?k < length xs" using trim lm_reprD(5) [OF r] by auto
    obtain a ys where ys: "drop ?k xs = a # ys" using lt by (cases "drop ?k xs") auto
    have split: "xs = take ?k xs @ (a # ys) @ []" by (metis append_Nil2 append_take_drop_id ys)
    have segs: "seg (lm_store m) (last_or None (take ?k xs)) (a # ys) None"
      using lm_reprD(2) [OF r] by (subst (asm) split) (simp del: seg.simps)
    have "a \<notin> set ys" using lm_reprD(1) [OF r] by (subst (asm) split) simp
    from seg_set_prev [OF segs this, of None]
    have seg: "seg (set_prev a None (lm_store m)) None (a # ys) None" .
    have tail: "lm_tail m = last_or None (a # ys)"
      using lm_reprD(4) [OF r] by (subst (asm) split) (simp add: last_or_def)
    have len: "min (length xs) (nat newSize) = length (a # ys)"
      using arg_cong [OF ys, of length] trim lm_reprD(5) [OF r] by auto
    have "lm_trimOld newSize m = m\<lparr>lm_map := (lm_map m) |` (- lm_key m ` set (take ?k xs @ [])),
        lm_store := set_prev a None (lm_store m), lm_head := hd_or None (a # ys), lm_tail := last_or None (a # ys),
        lm_size := int (length (a # ys)), lm_state := lm_state m + 1\<rparr>"
      using trim lm_trimOld_loop_spec [OF lm_reprD(2) [OF r] n] lm_reprD(3,5) [OF r] len tail ys
      by (simp add: lm_trimOld_def)
    with lm_repr_keep [OF r split seg _ refl] show ?thesis by (simp add: es drop_map ys)
  qed
qed

lemma lm_trimNew_loop_spec:
  assumes "seg (lm_store m) None xs n" and "0 \<le> newSize"
  shows "lm_trimNew_loop newSize (length xs) (last_or None xs) m =
    (last_or None (take (nat newSize) xs), min (length xs) (nat newSize),
     m\<lparr>lm_map := (lm_map m) |` (- lm_key m ` set (drop (nat newSize) xs))\<rparr>)"
  using assms
proof (induction xs arbitrary: m n rule: rev_induct)
  case Nil
  show ?case by (simp add: restrict_map_def)
next
  case (snoc a xs)
  show ?case
  proof (cases "int (Suc (length xs)) > newSize")
    case True
    let ?m = "m\<lparr>lm_map := (lm_map m)(lm_key m a := None)\<rparr>"
    have key: "lm_key ?m = lm_key m" by (simp add: lm_key_def fun_eq_iff)
    have le: "nat newSize \<le> length xs" using True snoc.prems(2) by auto
    moreover have "lm_trimNew_loop newSize (length xs) (last_or None xs) ?m =
        (last_or None (take (nat newSize) xs), min (length xs) (nat newSize),
         ?m\<lparr>lm_map := (lm_map ?m) |` (- lm_key ?m ` set (drop (nat newSize) xs))\<rparr>)"
      by (rule snoc.IH [of ?m "Some a"]) (use snoc.prems in simp_all)
    moreover have "((lm_map m)(lm_key m a := None)) |` (- S) = (lm_map m) |` (- insert (lm_key m a) S)" for S
      by (auto simp: restrict_map_def fun_eq_iff)
    moreover have "prev_of (lm_store m) a = last_or None xs" using snoc.prems by simp
    ultimately show ?thesis using True snoc.prems(2) by (simp add: key min_absorb2)
  next
    case False
    then have z: "min (Suc (length xs)) (nat newSize) = Suc (length xs)" "Suc (length xs) \<le> nat newSize"
      "nat newSize - length xs = Suc (nat newSize - Suc (length xs))" by auto
    have "m\<lparr>lm_map := lm_map m |` (- {})\<rparr> = m" by (simp add: restrict_map_def)
    with False z show ?thesis by simp
  qed
qed

lemma lm_trimNew_rel:
  assumes rel: "lm_rel m es" and n: "0 \<le> newSize"
  shows "lm_rel (lm_trimNew newSize m) (take (nat newSize) es)"
proof -
  from rel obtain xs where r: "lm_repr m xs" and es: "es = map (elem_of (lm_store m)) xs"
    by (auto simp: lm_rel_def)
  consider (keep) "newSize \<ge> lm_size m" | (zero) "newSize < lm_size m" "newSize = 0"
    | (trim) "newSize < lm_size m" "0 < newSize" using n by linarith
  then show ?thesis
  proof cases
    case keep
    then have "length xs \<le> nat newSize" using lm_reprD(5) [OF r] by simp
    with keep rel show ?thesis by (simp add: lm_trimNew_def es)
  next
    case zero
    with lm_rel_clear [OF rel] show ?thesis by (simp add: lm_trimNew_def es)
  next
    case trim
    let ?k = "nat newSize"
    have lt: "?k < length xs" "0 < ?k" using trim lm_reprD(5) [OF r] by auto
    then obtain ys a where ys: "take ?k xs = ys @ [a]" by (cases "take ?k xs" rule: rev_cases) auto
    have split: "xs = [] @ (ys @ [a]) @ drop ?k xs" by (metis append_Nil append_take_drop_id ys)
    have segs: "seg (lm_store m) None (ys @ [a]) (hd_or None (drop ?k xs))"
      using lm_reprD(2) [OF r] by (subst (asm) split) simp
    have "a \<notin> set ys" using lm_reprD(1) [OF r] by (subst (asm) split) simp
    from seg_set_next [OF segs this, of None]
    have seg: "seg (set_next a None (lm_store m)) None (ys @ [a]) None" .
    have head: "lm_head m = hd_or None (ys @ [a])"
      using lm_reprD(3) [OF r] by (subst (asm) split) simp
    have len: "min (length xs) ?k = length (ys @ [a])"
      using arg_cong [OF ys, of length] lt by simp
    have "lm_trimNew newSize m = m\<lparr>lm_map := (lm_map m) |` (- lm_key m ` set ([] @ drop ?k xs)),
        lm_store := set_next a None (lm_store m), lm_head := hd_or None (ys @ [a]), lm_tail := last_or None (ys @ [a]),
        lm_size := int (length (ys @ [a])), lm_state := lm_state m + 1\<rparr>"
      using trim lm_trimNew_loop_spec [OF lm_reprD(2) [OF r] n] lm_reprD(4,5) [OF r] len head ys
      by (simp add: lm_trimNew_def)
    with lm_repr_keep [OF r split seg _ refl] show ?thesis by (simp add: es take_map ys)
  qed
qed

section \<open>The caches as bounded stores\<close>

lemma jrefresh_length: "jmap_ok es \<Longrightarrow> length (jrefresh k v es) \<le> Suc (length es)"
  using length_delete_le [of k es] by (simp add: jrefresh_eq)

text \<open>A cache whose limit is \<open>cap\<close> and that keeps at least one entry when it trims.\<close>

definition cache_rel :: "int \<Rightarrow> ('k, 'v) cache \<Rightarrow> ('k \<times> 'v) list \<Rightarrow> bool" where
  "cache_rel cap c es \<longleftrightarrow> lm_rel (c_map c) es \<and> c_limit c = cap \<and> 0 < cap \<and> 0 \<le> c_ratio c \<and> c_ratio c \<le> 1
     \<and> 1 \<le> c_keep c \<and> int (length es) \<le> cap"

lemma c_keep_le:
  assumes "0 \<le> c_limit c" and "0 \<le> c_ratio c" and "c_ratio c \<le> 1"
  shows "c_keep c \<le> c_limit c" and "0 \<le> c_keep c"
proof -
  have "rat_of_int (c_limit c) * c_ratio c \<le> rat_of_int (c_limit c)"
    using assms by (simp add: mult_left_le)
  then have "rat_of_int (c_limit c) * c_ratio c + 1 / 2 < rat_of_int (c_limit c + 1)" by simp
  then have "c_keep c < c_limit c + 1" unfolding c_keep_def by (simp only: floor_less_iff)
  then show "c_keep c \<le> c_limit c" by simp
  show "0 \<le> c_keep c" unfolding c_keep_def using assms by (simp add: le_floor_iff)
qed

text \<open>With the ratio 1 the cache trims to its limit.\<close>

lemma c_keep_full: "c_ratio c = 1 \<Longrightarrow> c_keep c = c_limit c"
  by (simp add: c_keep_def floor_eq_iff)

definition lru_abs :: "int \<Rightarrow> int \<Rightarrow> 'k \<Rightarrow> 'v \<Rightarrow> ('k \<times> 'v) list \<Rightarrow> ('k \<times> 'v) list" where
  "lru_abs cap keep k v es =
     (let es' = jrefresh k v es
      in if int (length es') > cap then drop (length es' - nat keep) es' else es')"

lemma lruc_set_rel:
  assumes "cache_rel cap c es"
  shows "\<exists>c'. lruc_set k v c = Some c' \<and> cache_rel cap c' (lru_abs cap (c_keep c) k v es) \<and> c_ratio c' = c_ratio c"
proof -
  have c: "lm_rel (c_map c) es" "c_limit c = cap" "0 < cap" "0 \<le> c_ratio c" "c_ratio c \<le> 1" "1 \<le> c_keep c"
    "int (length es) \<le> cap" using assms by (simp_all add: cache_rel_def)
  let ?es = "jrefresh k v es"
  have jr: "AList.delete k es @ [(k, v)] = ?es" by (simp add: jrefresh_eq)
  from lm_set_new [OF c(1), of k v] obtain m' where m': "lm_set k v As_new (c_map c) = Some m'" "lm_rel m' ?es"
    by (auto simp: jr)
  have size: "lm_size m' = int (length ?es)" by (rule lm_rel_size [OF m'(2)])
  have keep: "c_keep (c\<lparr>c_map := x\<rparr>) = c_keep c" for x by (simp add: c_keep_def)
  have le: "c_keep c \<le> cap" using c_keep_le(1) [of c] c by simp
  show ?thesis
  proof (cases "int (length ?es) > cap")
    case True
    have "lm_rel (lm_trimOld (c_keep c) m') (drop (length ?es - nat (c_keep c)) ?es)"
      by (rule lm_trimOld_rel [OF m'(2)]) (use c in simp)
    with True m' size c le show ?thesis
      by (auto simp: lruc_set_def c_set_def c_checkTrim_def keep cache_rel_def lru_abs_def Let_def)
  next
    case False
    with m' size c show ?thesis
      by (auto simp: lruc_set_def c_set_def c_checkTrim_def keep cache_rel_def lru_abs_def Let_def)
  qed
qed

lemma lru_abs_lookup:
  assumes "jmap_ok es" and "1 \<le> keep"
  shows "map_of (lru_abs cap keep k v es) k = Some v"
    and "k' \<noteq> k \<Longrightarrow> map_of (lru_abs cap keep k v es) k' = None \<or> map_of (lru_abs cap keep k v es) k' = map_of es k'"
proof -
  let ?es = "jrefresh k v es"
  have ok: "jmap_ok ?es" by (rule jmap_ok_refresh [OF assms(1)])
  have drop: "jevict (nat keep) ?es = drop (length ?es - nat keep) ?es" by (rule jevict_drop [OF ok])
  show "map_of (lru_abs cap keep k v es) k = Some v"
    using lru_put_same [OF assms(1), of "nat keep" k v] assms(2)
    by (auto simp: lru_abs_def Let_def lru_put_def drop map_of_jrefresh)
  show "map_of (lru_abs cap keep k v es) k' = None \<or> map_of (lru_abs cap keep k v es) k' = map_of es k'" if "k' \<noteq> k"
    using lru_put_other [OF assms(1) that, of "nat keep" v] that
    by (auto simp: lru_abs_def Let_def lru_put_def drop map_of_jrefresh)
qed

lemma cache_rel_peek: "cache_rel cap c es \<Longrightarrow> c_peek k c = map_of es k"
  using lm_get_none [of "c_map c" es k] by (simp add: cache_rel_def c_peek_def)

lemma lruc_set_the:
  assumes "cache_rel cap c es"
  shows "cache_rel cap (the (lruc_set k v c)) (lru_abs cap (c_keep c) k v es)"
  using lruc_set_rel [OF assms, of k v] by auto

lemma cache_rel_ok: "cache_rel cap c es \<Longrightarrow> jmap_ok es \<and> 1 \<le> c_keep c"
  by (auto simp: cache_rel_def intro: lm_rel_distinct)

interpretation lru_cache: bounded_store
  "\<lambda>k v c. the (lruc_set k v c)" "\<lambda>c k. c_peek k c" "\<lambda>c. nat (lm_size (c_map c))" "nat cap"
  "\<lambda>c. \<exists>es. cache_rel cap c es"
  for cap :: int
proof (unfold_locales, goal_cases)
  case (1 s k v)
  then obtain es where "cache_rel cap s es" by blast
  then show ?case by (intro exI) (rule lruc_set_the)
next
  case (2 s k v)
  then show ?case using lruc_set_the cache_rel_peek lru_abs_lookup(1) cache_rel_ok by metis
next
  case (3 s k' k v)
  then show ?case using lruc_set_the cache_rel_peek lru_abs_lookup(2) cache_rel_ok by metis
next
  case (4 s k v)
  then obtain es where "cache_rel cap s es" by blast
  from lruc_set_the [OF this, of k v] show ?case by (auto simp: cache_rel_def lm_rel_size)
qed

section \<open>Every operation of the map\<close>

lemma lm_addItemFirst_repr:
  assumes r: "lm_repr m xs" and absent: "lm_map m k = None"
  shows "\<exists>u. lm_addItemFirst (lm_alloc m)
      (m\<lparr>lm_store := (lm_store m)(lm_alloc m \<mapsto> \<lparr>nd_prev = None, nd_next = None, nd_elem = (k, v)\<rparr>),
         lm_alloc := lm_alloc m + 1\<rparr>) = Some u
    \<and> lm_rel (u\<lparr>lm_map := (lm_map u)(k \<mapsto> lm_alloc m), lm_size := lm_size u + 1\<rparr>)
        ((k, v) # map (elem_of (lm_store m)) xs)"
proof -
  let ?a = "lm_alloc m"
  let ?h = "(lm_store m)(?a \<mapsto> \<lparr>nd_prev = None, nd_next = None, nd_elem = (k, v)\<rparr>)"
  let ?g = "set_prev_opt (hd_or None xs) (Some ?a) (set_next ?a (hd_or None xs) ?h)"
  have fresh: "?a \<notin> set xs" using lm_reprD(6) [OF r] by blast
  have "seg ?h None xs None" using lm_reprD(2) [OF r] fresh by (subst seg_frame [of _ _ "lm_store m"]) auto
  then have "seg (set_next ?a (hd_or None xs) ?h) None xs None" using fresh by simp
  from seg_link_first [OF this lm_reprD(1) [OF r] fresh]
  have seg: "seg ?g None (?a # xs) None"
    by (simp add: prev_of_def next_of_def set_next_def)
  have base: "elem_of ?h b = (if b = ?a then (k, v) else elem_of (lm_store m) b)" for b
    by (simp add: elem_of_def)
  let ?m = "m\<lparr>lm_store := ?g, lm_alloc := ?a + 1, lm_head := hd_or None (?a # xs),
      lm_tail := last_or None (?a # xs), lm_state := lm_state m + 1, lm_map := (lm_map m)(k \<mapsto> ?a), lm_size := lm_size m + 1\<rparr>"
  have nokey: "lm_key m b \<noteq> k" if "b \<in> set xs" for b
    using that absent lm_reprD(7) [OF r, of k b] by auto
  have mkey: "lm_key ?m b = (if b = ?a then k else lm_key m b)" for b by (simp add: lm_key_def base)
  have map_ok: "((lm_map m)(k \<mapsto> ?a)) k' = Some b \<longleftrightarrow> b \<in> set (?a # xs) \<and> lm_key ?m b = k'" for k' b
    unfolding mkey using lm_reprD(7) [OF r, of k' b] fresh nokey absent by auto
  have "lm_repr ?m (?a # xs)"
    unfolding lm_repr_def
    using lm_reprD(1,5,6) [OF r] fresh seg map_ok by (simp del: seg.simps hd_or_simps last_or_simps add: less_Suc_eq)
  moreover have "map (elem_of ?g) (?a # xs) = (k, v) # map (elem_of (lm_store m)) xs"
    using fresh by (auto simp: base)
  ultimately have rel: "lm_rel ?m ((k, v) # map (elem_of (lm_store m)) xs)"
    unfolding lm_rel_def by (intro exI [of _ "?a # xs"]) simp
  show ?thesis
  proof (cases xs)
    case Nil
    have "set_next ?a None ?h = ?h" by (auto simp: set_next_def)
    then show ?thesis using Nil rel lm_reprD(3,4) [OF r] by (simp add: lm_addItemFirst_def lm_tail_head)
  next
    case (Cons y ys)
    have "last_or None (?a # xs) = lm_tail m" using Cons lm_reprD(4) [OF r] by (simp add: last_or_def)
    with Cons rel lm_reprD(3) [OF r] show ?thesis by (simp add: lm_addItemFirst_def lm_alloc_store last_or_def)
  qed
qed

lemma lm_set_old:
  assumes rel: "lm_rel m es"
  shows "\<exists>m'. lm_set k v As_old m = Some m' \<and> lm_rel m' ((k, v) # AList.delete k es)"
proof (cases "lm_map m k")
  case None
  from rel obtain xs where r: "lm_repr m xs" and es: "es = map (elem_of (lm_store m)) xs"
    by (auto simp: lm_rel_def)
  have "map_of es k = None" using lm_rel_lookup [OF rel, of k] None by simp
  then have "AList.delete k es = es" by (simp add: map_of_eq_None_iff AList_delete_absent)
  with lm_addItemFirst_repr [OF r None, of v] None es show ?thesis by (auto simp: lm_set_def Let_def)
next
  case (Some a)
  from lm_rel_split [OF rel Some] obtain pre post where r: "lm_repr m (pre @ a # post)"
    and key: "lm_key m a = k" and del: "AList.delete k es = map (elem_of (lm_store m)) (pre @ post)" by blast
  let ?m = "m\<lparr>lm_store := set_elem a (k, v) (lm_store m)\<rparr>"
  have "lm_repr ?m (pre @ a # post)" using lm_repr_set_elem [OF r, of v] by (simp add: key)
  from lm_touch_old [OF this] obtain m' where m': "lm_touch a As_old ?m = Some m'"
    "lm_repr m' (a # pre @ post)" "\<And>b. elem_of (lm_store m') b = elem_of (lm_store ?m) b" by blast
  have "map (elem_of (lm_store m')) (a # pre @ post) = (k, v) # AList.delete k es"
    using m'(3) lm_map_elems_set [OF r, of "(k, v)"] by (simp add: del)
  with m' Some key show ?thesis by (auto simp: lm_set_def Let_def lm_rel_def)
qed

lemma lm_get_old:
  assumes rel: "lm_rel m es"
  shows "\<exists>m'. lm_get k As_old m = Some (map_of es k, m')
    \<and> lm_rel m' (case map_of es k of None \<Rightarrow> es | Some v \<Rightarrow> (k, v) # AList.delete k es)"
proof (cases "lm_map m k")
  case None
  then show ?thesis using lm_rel_lookup [OF rel, of k] rel by (simp add: lm_get_def)
next
  case (Some a)
  from lm_rel_split [OF rel Some] obtain pre post where r: "lm_repr m (pre @ a # post)"
    and key: "lm_key m a = k" and del: "AList.delete k es = map (elem_of (lm_store m)) (pre @ post)" by blast
  have v: "map_of es k = Some (lm_value m a)" using lm_rel_lookup [OF rel, of k] Some by simp
  have e: "elem_of (lm_store m) a = (k, lm_value m a)"
    using key by (simp add: lm_key_def lm_value_def prod_eq_iff)
  from lm_touch_old [OF r] obtain m' where m': "lm_touch a As_old m = Some m'"
    "lm_repr m' (a # pre @ post)" "\<And>b. elem_of (lm_store m') b = elem_of (lm_store m) b" by blast
  have "map (elem_of (lm_store m')) (a # pre @ post) = (k, lm_value m a) # AList.delete k es"
    using m'(3) e by (simp add: del)
  with m' Some v show ?thesis by (auto simp: lm_get_def lm_rel_def lm_value_def)
qed

lemma lm_shift_rel:
  assumes rel: "lm_rel m es"
  shows "\<exists>m'. lm_shift m = Some (map_option snd (case es of [] \<Rightarrow> None | e # _ \<Rightarrow> Some e), m') \<and> lm_rel m' (tl es)"
proof -
  from rel obtain xs where r: "lm_repr m xs" and es: "es = map (elem_of (lm_store m)) xs"
    by (auto simp: lm_rel_def)
  show ?thesis
  proof (cases xs)
    case Nil
    with rel lm_reprD(3,4) [OF r] es show ?thesis by (simp add: lm_shift_def)
  next
    case (Cons a ys)
    let ?k = "lm_key m a"
    have map: "lm_map m ?k = Some a" using lm_reprD(7) [OF r, of ?k a] Cons by simp
    have ends: "lm_head m = Some a" "lm_tail m \<noteq> None" using lm_reprD(3,4) [OF r] Cons by (auto simp: last_or_def)
    have e: "elem_of (lm_store m) a = (?k, lm_value m a)" by (simp add: lm_key_def lm_value_def)
    have hd: "es = (?k, lm_value m a) # map (elem_of (lm_store m)) ys" using e by (simp add: es Cons)
    have "?k \<notin> fst ` set (tl es)" using lm_rel_distinct [OF rel] by (simp add: hd image_image comp_def)
    then have "AList.delete ?k es = tl es" by (simp add: hd AList_delete_absent)
    with lm_remove_rel [OF rel, of ?k] map ends hd show ?thesis
      by (auto simp: lm_remove_def lm_shift_def)
  qed
qed

datatype ('k, 'v) lm_op =
    Lm_set 'k 'v touch | Lm_get 'k touch | Lm_remove 'k | Lm_shift | Lm_clear | Lm_trimOld nat | Lm_trimNew nat

fun lm_exec :: "('k, 'v) lm_op \<Rightarrow> ('k, 'v) linked_map \<Rightarrow> ('v option \<times> ('k, 'v) linked_map) option" where
  "lm_exec (Lm_set k v t) m = map_option (Pair None) (lm_set k v t m)"
| "lm_exec (Lm_get k t) m = lm_get k t m"
| "lm_exec (Lm_remove k) m = lm_remove k m"
| "lm_exec Lm_shift m = lm_shift m"
| "lm_exec Lm_clear m = Some (None, lm_clear m)"
| "lm_exec (Lm_trimOld n) m = Some (None, lm_trimOld (int n) m)"
| "lm_exec (Lm_trimNew n) m = Some (None, lm_trimNew (int n) m)"

fun lm_run :: "('k, 'v) lm_op list \<Rightarrow> ('k, 'v) linked_map \<Rightarrow> ('v option list \<times> ('k, 'v) linked_map) option" where
  "lm_run [] m = Some ([], m)"
| "lm_run (p # ps) m =
     (case lm_exec p m of
        None \<Rightarrow> None
      | Some (v, m') \<Rightarrow> map_option (\<lambda>(vs, m''). (v # vs, m'')) (lm_run ps m'))"

text \<open>The specification on the list of entries.\<close>

definition moved :: "'k \<Rightarrow> touch \<Rightarrow> ('k \<times> 'v) list \<Rightarrow> ('k \<times> 'v) list" where
  "moved k t es =
     (case map_of es k of
        None \<Rightarrow> es
      | Some v \<Rightarrow> (case t of Touch_none \<Rightarrow> es | As_old \<Rightarrow> (k, v) # AList.delete k es
                   | As_new \<Rightarrow> AList.delete k es @ [(k, v)]))"

fun entries_exec :: "('k, 'v) lm_op \<Rightarrow> ('k \<times> 'v) list \<Rightarrow> 'v option \<times> ('k \<times> 'v) list" where
  "entries_exec (Lm_set k v t) es = (None, lm_abs_set k v t es)"
| "entries_exec (Lm_get k t) es = (map_of es k, moved k t es)"
| "entries_exec (Lm_remove k) es = (map_of es k, AList.delete k es)"
| "entries_exec Lm_shift es = (map_option snd (case es of [] \<Rightarrow> None | e # _ \<Rightarrow> Some e), tl es)"
| "entries_exec Lm_clear es = (None, [])"
| "entries_exec (Lm_trimOld n) es = (None, drop (length es - n) es)"
| "entries_exec (Lm_trimNew n) es = (None, take n es)"

fun entries_run :: "('k, 'v) lm_op list \<Rightarrow> ('k \<times> 'v) list \<Rightarrow> 'v option list \<times> ('k \<times> 'v) list" where
  "entries_run [] es = ([], es)"
| "entries_run (p # ps) es =
     (let (v, es') = entries_exec p es; (vs, es'') = entries_run ps es' in (v # vs, es''))"

lemma lm_exec_rel:
  assumes rel: "lm_rel m es"
  shows "\<exists>m'. lm_exec p m = Some (fst (entries_exec p es), m') \<and> lm_rel m' (snd (entries_exec p es))"
proof (cases p)
  case (Lm_set k v t)
  then show ?thesis
    using lm_set_new [OF rel, of k v] lm_set_old [OF rel, of k v] lm_set_none [OF rel, of k v] by (cases t) auto
next
  case (Lm_get k t)
  then show ?thesis
    using lm_get_new [OF rel, of k] lm_get_old [OF rel, of k] lm_get_none [OF rel, of k] rel
    by (cases t) (auto simp: moved_def split: option.splits)
next
  case (Lm_remove k)
  then show ?thesis using lm_remove_rel [OF rel, of k] by auto
next
  case Lm_shift
  then show ?thesis using lm_shift_rel [OF rel] by auto
next
  case Lm_clear
  then show ?thesis using lm_rel_clear [OF rel] by auto
next
  case (Lm_trimOld n)
  then show ?thesis using lm_trimOld_rel [OF rel, of "int n"] by auto
next
  case (Lm_trimNew n)
  then show ?thesis using lm_trimNew_rel [OF rel, of "int n"] by auto
qed

lemma lm_run_rel:
  "lm_rel m es \<Longrightarrow> \<exists>m'. lm_run ps m = Some (fst (entries_run ps es), m') \<and> lm_rel m' (snd (entries_run ps es))"
proof (induction ps arbitrary: m es)
  case (Cons p ps)
  from lm_exec_rel [OF Cons.prems, of p] obtain m1 where m1: "lm_exec p m = Some (fst (entries_exec p es), m1)"
    "lm_rel m1 (snd (entries_exec p es))" by blast
  from Cons.IH [OF m1(2)] m1(1) show ?case by (auto simp: split_beta Let_def)
qed simp

section \<open>Runs of the LRU cache\<close>

datatype ('k, 'v) cache_op = Cache_set 'k 'v | Cache_get 'k

fun lruc_step :: "('k, 'v) cache_op \<Rightarrow> ('k, 'v) cache \<Rightarrow> ('k, 'v) cache option" where
  "lruc_step (Cache_set k v) c = lruc_set k v c"
| "lruc_step (Cache_get k) c = map_option snd (c_get k As_new c)"

fun lruc_run :: "('k, 'v) cache_op list \<Rightarrow> ('k, 'v) cache \<Rightarrow> ('k, 'v) cache option" where
  "lruc_run [] c = Some c"
| "lruc_run (p # ps) c = Option.bind (lruc_step p c) (lruc_run ps)"

fun entries_step :: "nat \<Rightarrow> ('k, 'v) cache_op \<Rightarrow> ('k \<times> 'v) list \<Rightarrow> ('k \<times> 'v) list" where
  "entries_step cap (Cache_set k v) es = lru_put cap k v es"
| "entries_step cap (Cache_get k) es = (case map_of es k of None \<Rightarrow> es | Some v \<Rightarrow> jrefresh k v es)"

definition full_cache :: "int \<Rightarrow> ('k, 'v) cache \<Rightarrow> ('k \<times> 'v) list \<Rightarrow> bool" where
  "full_cache cap c es \<longleftrightarrow> cache_rel cap c es \<and> c_ratio c = 1"

lemma lru_abs_full:
  assumes "jmap_ok es" "0 < cap"
  shows "lru_abs cap cap k v es = lru_put (nat cap) k v es"
proof -
  have "int (length (jrefresh k v es)) > cap \<longleftrightarrow> nat cap < length (jrefresh k v es)" using assms(2) by auto
  then show ?thesis
    by (simp add: lru_abs_def lru_put_def jevict_drop [OF jmap_ok_refresh [OF assms(1)]] Let_def)
qed

lemma jrefresh_present:
  assumes "jmap_ok es" "map_of es k = Some w"
  shows "length (jrefresh k v es) = length es"
proof -
  from assms(2) have "(k, w) \<in> set es" by (rule map_of_SomeD)
  then obtain pre post where es: "es = pre @ (k, w) # post" by (meson split_list)
  with assms(1) show ?thesis by (simp add: jrefresh_eq AList_delete_append AList_delete_absent)
qed

lemma full_cache_step:
  assumes "full_cache cap c es"
  shows "\<exists>c'. lruc_step p c = Some c' \<and> full_cache cap c' (entries_step (nat cap) p es)"
proof (cases p)
  case (Cache_set k v)
  have c: "cache_rel cap c es" "c_ratio c = 1" "jmap_ok es" "0 < cap" "c_limit c = cap"
    using assms lm_rel_distinct by (auto simp: full_cache_def cache_rel_def)
  from lruc_set_rel [OF c(1), of k v] Cache_set c lru_abs_full [OF c(3,4), of k v] c_keep_full [OF c(2)]
  show ?thesis by (auto simp: full_cache_def)
next
  case (Cache_get k)
  have c: "lm_rel (c_map c) es" "jmap_ok es" using assms lm_rel_distinct by (auto simp: full_cache_def cache_rel_def)
  from lm_get_new [OF c(1), of k] obtain m' where m': "lm_get k As_new (c_map c) = Some (map_of es k, m')"
    "lm_rel m' (case map_of es k of None \<Rightarrow> es | Some v \<Rightarrow> jrefresh k v es)" unfolding jrefresh_eq by blast
  have len: "length (entries_step (nat cap) p es) = length es"
    using Cache_get jrefresh_present [OF c(2)] by (simp split: option.split)
  have keep: "c_keep (c\<lparr>c_map := m'\<rparr>) = c_keep c" by (simp add: c_keep_def)
  from m' Cache_get len assms show ?thesis
    by (simp add: c_get_def full_cache_def cache_rel_def keep)
qed

lemma full_cache_run:
  "full_cache cap c es \<Longrightarrow> \<exists>c'. lruc_run ps c = Some c' \<and> full_cache cap c' (fold (entries_step (nat cap)) ps es)"
proof (induction ps arbitrary: c es)
  case (Cons p ps)
  from full_cache_step [OF Cons.prems, of p] Cons.IH show ?case by fastforce
qed simp

fun op_key :: "('k, 'v) cache_op \<Rightarrow> 'k" where
  "op_key (Cache_set k v) = k"
| "op_key (Cache_get k) = k"

fun sets_key :: "'k \<Rightarrow> ('k, 'v) cache_op \<Rightarrow> bool" where
  "sets_key k (Cache_set k' v) \<longleftrightarrow> k' = k"
| "sets_key k (Cache_get k') \<longleftrightarrow> False"

lemma entries_step_ok:
  "jmap_ok es \<Longrightarrow> length es \<le> cap \<Longrightarrow> jmap_ok (entries_step cap p es) \<and> length (entries_step cap p es) \<le> cap"
  by (cases p) (auto simp: lru_put_size jrefresh_present split: option.split
      intro: lru_put_ok [unfolded] jmap_ok_refresh)

lemma get_as_put:
  assumes "jmap_ok es" "length es \<le> cap" "map_of es k = Some v"
  shows "jrefresh k v es = lru_put cap k v es"
proof -
  have "length (jrefresh k v es) - cap = 0" using jrefresh_present [OF assms(1,3), of v] assms(2) by simp
  then show ?thesis by (simp add: lru_put_def jevict_drop [OF jmap_ok_refresh [OF assms(1)]])
qed

lemma kept_run:
  assumes "jmap_ok es" "length es \<le> cap" "kept_before k v S es"
    and "finite S" "card S < cap" "\<forall>p \<in> set ps. \<not> sets_key k p \<and> (op_key p = k \<or> op_key p \<in> S)"
  shows "map_of (fold (entries_step cap) ps es) k = Some v"
  using assms
proof (induction ps arbitrary: es)
  case Nil
  then show ?case by (simp add: kept_before_lookup)
next
  case (Cons p ps)
  have cap: "0 < cap" using Cons.prems(5) by simp
  have lookup: "map_of es k = Some v" by (rule kept_before_lookup [OF Cons.prems(3)])
  have "kept_before k v S (entries_step cap p es)"
  proof (cases p)
    case (Cache_set k' v')
    with Cons.prems(6) have "k' \<in> S" "k' \<noteq> k" by auto
    from kept_before_put_other [OF Cons.prems(1,3) this Cons.prems(4,5)] Cache_set show ?thesis by simp
  next
    case (Cache_get k')
    show ?thesis
    proof (cases "map_of es k'")
      case None
      with Cache_get Cons.prems(3) show ?thesis by simp
    next
      case (Some w)
      note put = get_as_put [OF Cons.prems(1,2) Some]
      show ?thesis
      proof (cases "k' = k")
        case True
        with Some lookup have "w = v" by simp
        with True Cache_get Some put kept_before_put_self [OF Cons.prems(1) cap, of k v S] show ?thesis by simp
      next
        case False
        with Cons.prems(6) Cache_get have "k' \<in> S" by auto
        from kept_before_put_other [OF Cons.prems(1,3) this False Cons.prems(4,5)] Cache_get Some put
        show ?thesis by simp
      qed
    qed
  qed
  with Cons entries_step_ok [OF Cons.prems(1,2), of p] show ?case by simp
qed

section \<open>Properties\<close>

text \<open>
  C15. The linked items implement the list of entries: no sequence of operations, with any
  \<open>Touch\<close> argument, makes the map throw; the values returned, the order of the entries and the
  size are those of the specification, in which \<open>Touch.None\<close> keeps an entry in its place, and
  \<open>AsOld\<close> and \<open>AsNew\<close> move it to the front and to the back.
\<close>

theorem linked_map_refines_entries:
  "\<exists>m. lm_run ps new_LinkedMap = Some (fst (entries_run ps []), m)
    \<and> lm_entries m = snd (entries_run ps []) \<and> lm_size m = int (length (snd (entries_run ps [])))
    \<and> distinct (map fst (lm_entries m))"
  using lm_run_rel [OF lm_rel_new, of ps] lm_rel_entries lm_rel_size lm_rel_distinct by metis

text \<open>
  C16. The LRU cache (with the default ratio 1) keeps what is in use: an entry is still there
  after any sequence of reads and writes that touches fewer than \<open>limit\<close> other keys and does
  not overwrite it; the cache never throws and never holds more than \<open>limit\<close> entries.
\<close>

theorem lru_cache_keeps_recent:
  fixes k :: 'k and v :: 'v
  assumes "0 < limit" and "\<forall>p \<in> set later. \<not> sets_key k p"
    and "card (op_key ` set later - {k}) < nat limit"
  shows "\<exists>c. lruc_run (before @ Cache_set k v # later) (new_Cache limit 1) = Some c
    \<and> c_peek k c = Some v \<and> lm_size (c_map c) \<le> limit"
proof -
  let ?cap = "nat limit" and ?S = "op_key ` set later - {k}"
  have ratio: "c_ratio (new_Cache limit 1 :: ('k, 'v) cache) = 1" by (simp add: new_Cache_def clamp_ratio_def)
  have "full_cache limit (new_Cache limit 1 :: ('k, 'v) cache) []"
    using assms(1) c_keep_full [OF ratio] ratio
    by (simp add: full_cache_def cache_rel_def) (simp add: new_Cache_def lm_rel_new)
  note run = full_cache_run [OF this]
  from run [of "before @ Cache_set k v # later"] obtain c where
    c: "lruc_run (before @ Cache_set k v # later) (new_Cache limit 1) = Some c"
    "full_cache limit c (fold (entries_step ?cap) (before @ Cache_set k v # later) [])" by blast
  have es: "jmap_ok (fold (entries_step ?cap) before [])"
    using run [of before] lm_rel_distinct by (auto simp: full_cache_def cache_rel_def)
  let ?es = "lru_put ?cap k v (fold (entries_step ?cap) before [])"
  have "kept_before k v ?S ?es" by (rule kept_before_put_self [OF es]) (use assms(1) in simp)
  moreover have "jmap_ok ?es" "length ?es \<le> ?cap" by (rule lru_put_ok [OF es], rule lru_put_size [OF es])
  ultimately have "map_of (fold (entries_step ?cap) later ?es) k = Some v"
    by (intro kept_run [of _ _ _ _ ?S]) (use assms in auto)
  with c(2) have "c_peek k c = Some v" using cache_rel_peek [of limit c] by (auto simp: full_cache_def)
  moreover have "lm_size (c_map c) \<le> limit" using c(2) by (auto simp: full_cache_def cache_rel_def lm_rel_size)
  ultimately show ?thesis using c(1) by blast
qed

theorem lru_cache_keeps_recent_witness:
  "\<exists>c. lruc_run ([Cache_set (1::nat) ''a''] @ Cache_set 2 ''b'' # [Cache_set 3 ''c'', Cache_get 2, Cache_get 3])
      (new_Cache 2 1) = Some c \<and> c_peek 2 c = Some ''b'' \<and> lm_size (c_map c) \<le> 2"
proof (rule lru_cache_keeps_recent)
  have "op_key ` set [Cache_set 3 ''c'', Cache_get 2, Cache_get 3] - {2} = {3::nat}" by auto
  then show "card (op_key ` set [Cache_set 3 ''c'', Cache_get 2, Cache_get 3] - {2::nat}) < nat 2" by simp
qed simp_all

text \<open>
  \<open>MRUCache\<close> computes \<open>round(limit * ratio) - 1\<close>; when that is negative, trimming loses the tail
  but not the head, and the next insertion throws \<open>Invalid list\<close>.
\<close>

lemma mru_keep: "c_keep \<lparr>c_map = m, c_limit = 1, c_ratio = 0\<rparr> = 0"
  by (simp add: c_keep_def floor_eq_iff)

lemma mru_cache_throws:
  "\<exists>c. mruc_set (1::nat) (0::nat) (new_Cache 1 0) = Some c \<and> mruc_set 2 0 c = None"
  by (simp add: mruc_set_def new_Cache_def clamp_ratio_def mru_keep c_set_def lm_set_def new_LinkedMap_def Let_def
      lm_addItemLast_def lm_has_def lm_trimNew_def numeral_2_eq_2 lm_key_def elem_of_def prev_of_def)

end
