(* ===== verification/Map_Collections.thy ===== *)
theory Map_Collections
  imports Wibe_Prelude "HOL-Library.Multiset"
begin

text \<open>
  The smaller collections of \<open>src/vs/base/common/map.ts\<close>: \<open>getOrSet\<close>, \<open>CounterSet\<close>,
  \<open>BidirectionalMap\<close> and \<open>SetMap\<close>. A JavaScript \<open>Map\<close> is an association list in insertion
  order with distinct keys (\<open>AList.update\<close> keeps the place of a key it overwrites), a \<open>Set\<close>
  inside a \<open>SetMap\<close> a distinct list.
\<close>

definition getOrSet :: "('k \<times> 'v) list \<Rightarrow> 'k \<Rightarrow> 'v \<Rightarrow> 'v \<times> ('k \<times> 'v) list" where
  "getOrSet m k v = (case map_of m k of None \<Rightarrow> (v, AList.update k v m) | Some r \<Rightarrow> (r, m))"

section \<open>CounterSet\<close>

definition cs_add :: "'a \<Rightarrow> ('a \<times> nat) list \<Rightarrow> ('a \<times> nat) list" where
  "cs_add x m = AList.update x (or_else (map_of m x) 0 + 1) m"

definition cs_delete :: "'a \<Rightarrow> ('a \<times> nat) list \<Rightarrow> bool \<times> ('a \<times> nat) list" where
  "cs_delete x m =
     (let counter = or_else (map_of m x) 0
      in if counter = 0 then (False, m)
         else let c = counter - 1
              in if c = 0 then (True, AList.delete x m) else (True, AList.update x c m))"

definition cs_has :: "'a \<Rightarrow> ('a \<times> nat) list \<Rightarrow> bool" where
  "cs_has x m \<longleftrightarrow> map_of m x \<noteq> None"

datatype 'a counter_op = Counter_add 'a | Counter_delete 'a

fun counter_step :: "'a counter_op \<Rightarrow> ('a \<times> nat) list \<Rightarrow> ('a \<times> nat) list" where
  "counter_step (Counter_add x) m = cs_add x m"
| "counter_step (Counter_delete x) m = snd (cs_delete x m)"

fun multiset_step :: "'a counter_op \<Rightarrow> 'a multiset \<Rightarrow> 'a multiset" where
  "multiset_step (Counter_add x) M = add_mset x M"
| "multiset_step (Counter_delete x) M = M - {#x#}"

text \<open>The counters are the positive multiplicities.\<close>

definition cs_rel :: "('a \<times> nat) list \<Rightarrow> 'a multiset \<Rightarrow> bool" where
  "cs_rel m M \<longleftrightarrow> jmap_ok m \<and> (\<forall>x. map_of m x = (if x \<in># M then Some (count M x) else None))"

lemma cs_rel_count: "cs_rel m M \<Longrightarrow> or_else (map_of m x) 0 = count M x"
  by (simp add: cs_rel_def not_in_iff)

lemma cs_rel_add:
  assumes "cs_rel m M"
  shows "cs_rel (cs_add x m) (add_mset x M)"
proof -
  have "jmap_ok (cs_add x m)" using assms distinct_update [of m x] by (simp add: cs_rel_def cs_add_def)
  moreover have "map_of (cs_add x m) = (map_of m)(x \<mapsto> count M x + 1)"
    using cs_rel_count [OF assms, of x] by (simp add: cs_add_def update_conv')
  ultimately show ?thesis using assms by (auto simp: cs_rel_def)
qed

lemma cs_rel_delete:
  assumes "cs_rel m M"
  shows "fst (cs_delete x m) = (x \<in># M) \<and> cs_rel (snd (cs_delete x m)) (M - {#x#})"
proof (cases "x \<in># M")
  case False
  then have "M - {#x#} = M" by (simp add: diff_single_trivial)
  with False assms cs_rel_count [OF assms, of x] show ?thesis by (simp add: cs_delete_def not_in_iff)
next
  case True
  then have c: "or_else (map_of m x) 0 = count M x" "0 < count M x" using cs_rel_count [OF assms] by simp_all
  show ?thesis
  proof (cases "count M x = 1")
    case True
    then have mem: "y \<in># M - {#x#} \<longleftrightarrow> y \<in># M \<and> y \<noteq> x" for y
      by (cases "y = x") (simp_all add: in_diff_count)
    have "jmap_ok (AList.delete x m)" using assms by (simp add: cs_rel_def distinct_delete)
    moreover have "map_of (AList.delete x m) y = (if y \<in># M - {#x#} then Some (count (M - {#x#}) y) else None)" for y
      using assms mem by (auto simp: cs_rel_def delete_conv')
    ultimately show ?thesis using c True \<open>x \<in># M\<close> by (simp add: cs_delete_def Let_def cs_rel_def)
  next
    case False
    with c have gt: "1 < count M x" by linarith
    have mem: "y \<in># M - {#x#} \<longleftrightarrow> y \<in># M" for y
      using gt \<open>x \<in># M\<close> by (cases "y = x") (simp_all add: in_diff_count)
    have "jmap_ok (AList.update x (count M x - 1) m)" using assms distinct_update [of m x] by (simp add: cs_rel_def)
    moreover have "map_of (AList.update x (count M x - 1) m) y
        = (if y \<in># M - {#x#} then Some (count (M - {#x#}) y) else None)" for y
      using assms mem \<open>x \<in># M\<close> by (auto simp: cs_rel_def update_conv')
    ultimately show ?thesis using c gt \<open>x \<in># M\<close> by (simp add: cs_delete_def Let_def cs_rel_def)
  qed
qed

lemma cs_rel_run: "cs_rel m M \<Longrightarrow> cs_rel (fold counter_step ps m) (fold multiset_step ps M)"
proof (induction ps arbitrary: m M)
  case (Cons p ps)
  then show ?case by (cases p) (simp_all add: cs_rel_add cs_rel_delete)
qed simp

section \<open>BidirectionalMap\<close>

record ('k, 'v) bidi =
  bm_fwd :: "('k \<times> 'v) list"
  bm_bwd :: "('v \<times> 'k) list"

definition bm_clear :: "('k, 'v) bidi" where
  "bm_clear = \<lparr>bm_fwd = [], bm_bwd = []\<rparr>"

definition bm_set :: "'k \<Rightarrow> 'v \<Rightarrow> ('k, 'v) bidi \<Rightarrow> ('k, 'v) bidi" where
  "bm_set k v b =
     (let m2 = (case map_of (bm_fwd b) k of None \<Rightarrow> bm_bwd b | Some prev \<Rightarrow> AList.delete prev (bm_bwd b))
      in \<lparr>bm_fwd = AList.update k v (bm_fwd b), bm_bwd = AList.update v k m2\<rparr>)"

definition bm_get :: "('k, 'v) bidi \<Rightarrow> 'k \<Rightarrow> 'v option" where
  "bm_get b k = map_of (bm_fwd b) k"

definition bm_getKey :: "('k, 'v) bidi \<Rightarrow> 'v \<Rightarrow> 'k option" where
  "bm_getKey b v = map_of (bm_bwd b) v"

definition bm_delete :: "'k \<Rightarrow> ('k, 'v) bidi \<Rightarrow> bool \<times> ('k, 'v) bidi" where
  "bm_delete k b =
     (case map_of (bm_fwd b) k of
        None \<Rightarrow> (False, b)
      | Some v \<Rightarrow> (True, \<lparr>bm_fwd = AList.delete k (bm_fwd b), bm_bwd = AList.delete v (bm_bwd b)\<rparr>))"

definition bm_inverse :: "('k, 'v) bidi \<Rightarrow> bool" where
  "bm_inverse b \<longleftrightarrow> (\<forall>k v. bm_get b k = Some v \<longleftrightarrow> bm_getKey b v = Some k)"

lemma bm_inverse_clear: "bm_inverse bm_clear"
  by (simp add: bm_inverse_def bm_clear_def bm_get_def bm_getKey_def)

text \<open>As the class demands, a value is set only while no other key has it.\<close>

lemma bm_inverse_set:
  assumes "bm_inverse b" and "\<And>k'. bm_get b k' = Some v \<Longrightarrow> k' = k"
  shows "bm_inverse (bm_set k v b)"
  using assms
  by (auto simp: bm_inverse_def bm_set_def bm_get_def bm_getKey_def update_conv' delete_conv' Let_def
      split: option.splits) (metis option.inject option.distinct(1))+

lemma bm_inverse_delete: "bm_inverse b \<Longrightarrow> bm_inverse (snd (bm_delete k b))"
  by (auto simp: bm_inverse_def bm_delete_def bm_get_def bm_getKey_def delete_conv' split: option.splits)
    (metis option.inject)+

section \<open>SetMap\<close>

definition sm_add :: "'k \<Rightarrow> 'v \<Rightarrow> ('k \<times> 'v list) list \<Rightarrow> ('k \<times> 'v list) list" where
  "sm_add k v m =
     (let values = or_else (map_of m k) []
      in AList.update k (if v \<in> set values then values else values @ [v]) m)"

definition sm_delete :: "'k \<Rightarrow> 'v \<Rightarrow> ('k \<times> 'v list) list \<Rightarrow> ('k \<times> 'v list) list" where
  "sm_delete k v m =
     (case map_of m k of
        None \<Rightarrow> m
      | Some values \<Rightarrow>
          (let values' = remove1 v values
           in if length values' = 0 then AList.delete k m else AList.update k values' m))"

definition sm_get :: "('k \<times> 'v list) list \<Rightarrow> 'k \<Rightarrow> 'v list" where
  "sm_get m k = or_else (map_of m k) []"

definition sm_forEach :: "('v \<Rightarrow> 's \<Rightarrow> 's) \<Rightarrow> 'k \<Rightarrow> ('k \<times> 'v list) list \<Rightarrow> 's \<Rightarrow> 's" where
  "sm_forEach f k m s = (case map_of m k of None \<Rightarrow> s | Some values \<Rightarrow> fold f values s)"

definition sm_ok :: "('k \<times> 'v list) list \<Rightarrow> bool" where
  "sm_ok m \<longleftrightarrow> jmap_ok m \<and> (\<forall>(k, vs) \<in> set m. distinct vs \<and> vs \<noteq> [])"

lemma sm_get_add: "set (sm_get (sm_add k v m) k') = (if k' = k then insert v (set (sm_get m k)) else set (sm_get m k'))"
  by (auto simp: sm_get_def sm_add_def update_conv' Let_def)

lemma sm_get_delete:
  assumes "sm_ok m"
  shows "set (sm_get (sm_delete k v m) k') = (if k' = k then set (sm_get m k) - {v} else set (sm_get m k'))"
proof -
  show ?thesis
  proof (cases "map_of m k")
    case None
    then show ?thesis by (simp add: sm_get_def sm_delete_def)
  next
    case (Some vs)
    have d: "distinct vs" using assms map_of_SomeD [OF Some] by (auto simp: sm_ok_def)
    have "remove1 v vs = [] \<longleftrightarrow> set vs - {v} = {}" using set_remove1_eq [OF d, of v] by (metis set_empty)
    with Some d show ?thesis
      by (auto simp: sm_get_def sm_delete_def update_conv' delete_conv' Let_def set_remove1_eq)
  qed
qed

section \<open>Properties\<close>

text \<open>
  A \<open>CounterSet\<close> is a multiset: after any sequence of additions and deletions it has
  exactly the values whose deletions do not outnumber their additions (a deletion of an
  absent value counts for nothing and reports \<open>false\<close>), and it keeps no counter at zero.
\<close>

theorem counter_set_is_multiset:
  "let m = fold counter_step ps []; M = fold multiset_step ps {#} in
   (\<forall>x. cs_has x m = (x \<in># M) \<and> fst (cs_delete x m) = (x \<in># M)) \<and> 0 \<notin> snd ` set m"
proof -
  have "cs_rel [] {#}" by (simp add: cs_rel_def)
  from cs_rel_run [OF this] have rel: "cs_rel (fold counter_step ps []) (fold multiset_step ps {#})" .
  have "0 < n" if "(x, n) \<in> set (fold counter_step ps [])" for x n
    using rel map_of_is_SomeI [OF _ that] by (auto simp: cs_rel_def split: if_splits)
  then have "0 \<notin> snd ` set (fold counter_step ps [])" by fastforce
  with rel cs_rel_delete [OF rel] show ?thesis by (simp add: Let_def cs_has_def cs_rel_def)
qed

end
