(* ===== verification/Keyed_Maps.thy ===== *)
theory Keyed_Maps
  imports Wibe_Prelude
begin

text \<open>
  The keyed maps of \<open>src/vs/base/common/map.ts\<close>: \<open>ResourceMap\<close> and \<open>ResourceSet\<close>, whose entries are found
  by a string computed from the resource, and \<open>NKeyMap\<close>, a map for several keys as nested maps.
\<close>

section \<open>Resource maps\<close>

record ('u, 'v) resource_map =
  rm_map :: "(string \<times> 'u \<times> 'v) list"
  rm_toKey :: "'u \<Rightarrow> string"

definition rm_set :: "'u \<Rightarrow> 'v \<Rightarrow> ('u, 'v) resource_map \<Rightarrow> ('u, 'v) resource_map" where
  "rm_set r v m = m\<lparr>rm_map := AList.update (rm_toKey m r) (r, v) (rm_map m)\<rparr>"

definition rm_new :: "('u \<Rightarrow> string) \<Rightarrow> ('u \<times> 'v) list \<Rightarrow> ('u, 'v) resource_map" where
  "rm_new toKey entries = fold (\<lambda>(r, v). rm_set r v) entries \<lparr>rm_map = [], rm_toKey = toKey\<rparr>"

text \<open>A copy takes the entries over with their keys, also under another key function.\<close>

definition rm_copy :: "('u \<Rightarrow> string) \<Rightarrow> ('u, 'v) resource_map \<Rightarrow> ('u, 'v) resource_map" where
  "rm_copy toKey other = \<lparr>rm_map = rm_map other, rm_toKey = toKey\<rparr>"

definition rm_get :: "('u, 'v) resource_map \<Rightarrow> 'u \<Rightarrow> 'v option" where
  "rm_get m r = map_option snd (map_of (rm_map m) (rm_toKey m r))"

definition rm_has :: "('u, 'v) resource_map \<Rightarrow> 'u \<Rightarrow> bool" where
  "rm_has m r = (map_of (rm_map m) (rm_toKey m r) \<noteq> None)"

definition rm_size :: "('u, 'v) resource_map \<Rightarrow> nat" where
  "rm_size m = length (rm_map m)"

definition rm_clear :: "('u, 'v) resource_map \<Rightarrow> ('u, 'v) resource_map" where
  "rm_clear m = m\<lparr>rm_map := []\<rparr>"

definition rm_delete :: "'u \<Rightarrow> ('u, 'v) resource_map \<Rightarrow> bool \<times> ('u, 'v) resource_map" where
  "rm_delete r m = (rm_has m r, m\<lparr>rm_map := AList.delete (rm_toKey m r) (rm_map m)\<rparr>)"

definition rm_entries :: "('u, 'v) resource_map \<Rightarrow> ('u \<times> 'v) list" where
  "rm_entries m = map snd (rm_map m)"

definition rm_forEach :: "('v \<Rightarrow> 'u \<Rightarrow> 's \<Rightarrow> 's) \<Rightarrow> ('u, 'v) resource_map \<Rightarrow> 's \<Rightarrow> 's" where
  "rm_forEach clb m s = fold (\<lambda>(r, v). clb v r) (rm_entries m) s"

type_synonym 'u resource_set = "('u, 'u) resource_map"

definition rs_add :: "'u \<Rightarrow> 'u resource_set \<Rightarrow> 'u resource_set" where
  "rs_add r s = rm_set r r s"

definition rs_new :: "('u \<Rightarrow> string) \<Rightarrow> 'u list \<Rightarrow> 'u resource_set" where
  "rs_new toKey entries = fold rs_add entries (rm_new toKey [])"

definition rs_keys :: "'u resource_set \<Rightarrow> 'u list" where
  "rs_keys s = map fst (rm_entries s)"

definition rm_ok :: "('u, 'v) resource_map \<Rightarrow> bool" where
  "rm_ok m = (distinct (map fst (rm_map m)) \<and> list_all (\<lambda>(k, r, v). k = rm_toKey m r) (rm_map m))"

lemma rm_set_toKey [simp]: "rm_toKey (rm_set r v m) = rm_toKey m"
  by (simp add: rm_set_def)

lemma rm_set_get: "rm_get (rm_set r v m) r' = (if rm_toKey m r' = rm_toKey m r then Some v else rm_get m r')"
  by (simp add: rm_get_def rm_set_def update_conv)

lemma rm_delete_get: "rm_get (snd (rm_delete r m)) r' = (if rm_toKey m r' = rm_toKey m r then None else rm_get m r')"
  by (simp add: rm_get_def rm_delete_def delete_conv)

lemma AList_update_all: "list_all P xs \<Longrightarrow> P (k, v) \<Longrightarrow> list_all P (AList.update k v xs)"
  by (induction xs) auto

lemma AList_delete_all: "list_all P xs \<Longrightarrow> list_all P (AList.delete k xs)"
  by (induction xs) auto

lemma rm_ok_set: "rm_ok m \<Longrightarrow> rm_ok (rm_set r v m)"
  by (auto simp: rm_ok_def rm_set_def distinct_update intro!: AList_update_all)

lemma rm_ok_delete: "rm_ok m \<Longrightarrow> rm_ok (snd (rm_delete r m))"
  by (auto simp: rm_ok_def rm_delete_def distinct_delete intro!: AList_delete_all)

lemma rm_ok_new: "rm_ok (rm_new toKey entries)"
proof -
  have "rm_ok m \<Longrightarrow> rm_ok (fold (\<lambda>(r, v). rm_set r v) entries m)" for m
    by (induction entries arbitrary: m) (auto simp: rm_ok_set)
  then show ?thesis by (simp add: rm_new_def rm_ok_def)
qed

text \<open>The entries are found under their own resources, one for each key.\<close>

lemma rm_entries_get: "rm_ok m \<Longrightarrow> (r, v) \<in> set (rm_entries m) \<Longrightarrow> rm_get m r = Some v"
  by (force simp: rm_ok_def rm_entries_def rm_get_def list_all_iff dest: map_of_is_SomeI)

section \<open>Maps with several keys\<close>

datatype ('k, 'v) nested = Value 'v | Level "('k \<times> ('k, 'v) nested) list"

fun level_of :: "('k, 'v) nested option \<Rightarrow> ('k \<times> ('k, 'v) nested) list" where
  "level_of (Some (Level m)) = m"
| "level_of _ = []"

fun value_of :: "('k, 'v) nested option \<Rightarrow> 'v option" where
  "value_of (Some (Value v)) = Some v"
| "value_of _ = None"

fun nk_set :: "'v \<Rightarrow> 'k list \<Rightarrow> ('k \<times> ('k, 'v) nested) list \<Rightarrow> ('k \<times> ('k, 'v) nested) list" where
  "nk_set v [] m = m"
| "nk_set v [k] m = AList.update k (Value v) m"
| "nk_set v (k # k' # ks) m = AList.update k (Level (nk_set v (k' # ks) (level_of (map_of m k)))) m"

fun nk_get :: "'k list \<Rightarrow> ('k \<times> ('k, 'v) nested) list \<Rightarrow> 'v option" where
  "nk_get [] m = None"
| "nk_get [k] m = value_of (map_of m k)"
| "nk_get (k # k' # ks) m = (case map_of m k of None \<Rightarrow> None | Some n \<Rightarrow> nk_get (k' # ks) (level_of (Some n)))"

text \<open>On the way back a level that became empty is removed from the one above it.\<close>

fun nk_delete :: "'k list \<Rightarrow> ('k \<times> ('k, 'v) nested) list \<Rightarrow> bool \<times> ('k \<times> ('k, 'v) nested) list" where
  "nk_delete [] m = (False, m)"
| "nk_delete [k] m = (map_of m k \<noteq> None, AList.delete k m)"
| "nk_delete (k # k' # ks) m =
     (case map_of m k of
        None \<Rightarrow> (False, m)
      | Some n \<Rightarrow>
          (let (deleted, m') = nk_delete (k' # ks) (level_of (Some n))
           in if \<not> deleted then (False, m)
              else if m' = [] then (True, AList.delete k m)
              else (True, AList.update k (Level m') m)))"

definition nk_deleteAll :: "'k list \<Rightarrow> ('k \<times> ('k, 'v) nested) list \<Rightarrow> bool \<times> ('k \<times> ('k, 'v) nested) list" where
  "nk_deleteAll ks m = (if ks = [] then (m \<noteq> [], []) else nk_delete ks m)"

fun nested_values :: "('k, 'v) nested \<Rightarrow> 'v list" where
  "nested_values (Value v) = [v]"
| "nested_values (Level m) = concat (map (\<lambda>p. nested_values (snd p)) m)"

fun nk_getAll :: "'k list \<Rightarrow> ('k, 'v) nested \<Rightarrow> 'v list" where
  "nk_getAll [] n = nested_values n"
| "nk_getAll (k # ks) n = (case map_of (level_of (Some n)) k of None \<Rightarrow> [] | Some n' \<Rightarrow> nk_getAll ks n')"

text \<open>A map for \<open>d\<close> keys: values sit at depth \<open>d\<close>, and no level below the top is empty.\<close>

fun nk_ok :: "nat \<Rightarrow> ('k \<times> ('k, 'v) nested) list \<Rightarrow> bool" where
  "nk_ok 0 m = False"
| "nk_ok (Suc 0) m = (distinct (map fst m) \<and> (\<forall>(k, n) \<in> set m. \<exists>v. n = Value v))"
| "nk_ok (Suc (Suc d)) m = (distinct (map fst m) \<and> (\<forall>(k, n) \<in> set m. \<exists>l. n = Level l \<and> l \<noteq> [] \<and> nk_ok (Suc d) l))"

lemma nk_ok_level:
  "nk_ok (Suc (Suc d)) m \<Longrightarrow> map_of m k = Some n \<Longrightarrow> \<exists>l. n = Level l \<and> l \<noteq> [] \<and> nk_ok (Suc d) l"
  by (force dest: map_of_SomeD)

lemma nk_ok_empty: "nk_ok (Suc d) []"
  by (cases d) auto

lemma nk_ok_level_of: "nk_ok (Suc (Suc d)) m \<Longrightarrow> nk_ok (Suc d) (level_of (map_of m k))"
  using nk_ok_level [of d m k] nk_ok_empty by (cases "map_of m k") auto

lemma update_not_empty: "AList.update k v m \<noteq> []"
  by (cases m) auto

lemma all_update: "\<forall>(c, n) \<in> set m. P n \<Longrightarrow> P x \<Longrightarrow> \<forall>(c, n) \<in> set (AList.update k x m). P n"
  by (induction m) auto

lemma nk_set_not_empty: "ks \<noteq> [] \<Longrightarrow> nk_set v ks m \<noteq> []"
  by (cases "(v, ks, m)" rule: nk_set.cases) (simp_all add: update_not_empty)

lemma nk_set_ok: "length ks = d \<Longrightarrow> nk_ok d m \<Longrightarrow> nk_ok d (nk_set v ks m)"
proof (induction v ks m arbitrary: d rule: nk_set.induct)
  case (1 v m)
  then show ?case by simp
next
  case (2 v k m)
  then have "\<forall>(c, n) \<in> set (AList.update k (Value v) m). \<exists>v. n = Value v" by (intro all_update) auto
  then show ?case using 2 by (auto simp: distinct_update)
next
  case (3 v k k' ks m)
  then obtain d' where d: "d = Suc (Suc d')" by (cases d) auto
  let ?l = "nk_set v (k' # ks) (level_of (map_of m k))"
  have l: "nk_ok (Suc d') ?l" using 3 nk_ok_level_of [of d' m k] by (simp add: d)
  have "?l \<noteq> []" by (rule nk_set_not_empty) simp
  then have "\<forall>(c, n) \<in> set (AList.update k (Level ?l) m). \<exists>l. n = Level l \<and> l \<noteq> [] \<and> nk_ok (Suc d') l"
    using 3(3) l by (intro all_update) (auto simp: d)
  then show ?case using 3(3) by (simp add: d distinct_update)
qed

lemma nk_get_empty: "nk_get ks [] = None"
proof (cases ks)
  case (Cons k r)
  then show ?thesis by (cases r) auto
qed simp

text \<open>What a lookup returns after setting and after deleting.\<close>

lemma nk_get_set:
  "length ks = d \<Longrightarrow> length ks' = d \<Longrightarrow> nk_ok d m \<Longrightarrow> nk_get ks' (nk_set v ks m) = (if ks' = ks then Some v else nk_get ks' m)"
proof (induction v ks m arbitrary: ks' d rule: nk_set.induct)
  case (1 v m)
  then show ?case by simp
next
  case (2 v k m)
  then obtain c where "ks' = [c]" by (cases ks') auto
  then show ?case by (simp add: update_conv')
next
  case (3 v k k' ks m)
  then obtain d' where d: "d = Suc (Suc d')" by (cases d) auto
  obtain c c' cs where ks': "ks' = c # c' # cs" using 3(3) d by (metis Suc_length_conv)
  have ok: "nk_ok (Suc d') (level_of (map_of m k))" using 3(4) by (simp add: d nk_ok_level_of)
  have "nk_get (c' # cs) (nk_set v (k' # ks) (level_of (map_of m k)))
      = (if c' # cs = k' # ks then Some v else nk_get (c' # cs) (level_of (map_of m k)))"
    using 3(1) [of "Suc d'" "c' # cs"] 3(2,3) ok by (simp add: d ks')
  then show ?case by (auto simp: ks' update_conv' nk_get_empty split: option.splits)
qed

lemma delete_all: "\<forall>(c, n) \<in> set m. P n \<Longrightarrow> \<forall>(c, n) \<in> set (AList.delete k m). P n"
  by (induction m) auto

lemma nk_delete_ok: "length ks = d \<Longrightarrow> nk_ok d m \<Longrightarrow> nk_ok d (snd (nk_delete ks m))"
proof (induction ks m arbitrary: d rule: nk_delete.induct)
  case (1 m)
  then show ?case by simp
next
  case (2 k m)
  then have "\<forall>(c, n) \<in> set (AList.delete k m). \<exists>v. n = Value v" by (intro delete_all) auto
  then show ?case using 2 by (auto simp: distinct_delete)
next
  case (3 k k' ks m)
  then obtain d' where d: "d = Suc (Suc d')" by (cases d) auto
  show ?case
  proof (cases "map_of m k")
    case None
    then show ?thesis using 3 by simp
  next
    case (Some n)
    obtain b m' where r: "nk_delete (k' # ks) (level_of (Some n)) = (b, m')" by (rule prod.exhaust)
    have lv: "nk_ok (Suc d') (level_of (Some n))" using nk_ok_level_of [of d' m k] 3(3) Some by (simp add: d)
    have ih: "nk_ok (Suc d') m'" using 3(1) [OF Some _ lv] 3(2) r by (simp add: d)
    have del: "\<forall>(c, n) \<in> set (AList.delete k m). \<exists>l. n = Level l \<and> l \<noteq> [] \<and> nk_ok (Suc d') l"
      using 3(3) by (intro delete_all) (simp add: d)
    have up: "m' \<noteq> [] \<Longrightarrow> \<forall>(c, n) \<in> set (AList.update k (Level m') m). \<exists>l. n = Level l \<and> l \<noteq> [] \<and> nk_ok (Suc d') l"
      using 3(3) ih by (intro all_update) (auto simp: d)
    show ?thesis using 3(3) del up r Some by (auto simp: d distinct_delete distinct_update)
  qed
qed

lemma nk_delete_missing: "length ks = d \<Longrightarrow> nk_ok d m \<Longrightarrow> fst (nk_delete ks m) = (nk_get ks m \<noteq> None) \<and> (fst (nk_delete ks m) \<or> snd (nk_delete ks m) = m)"
proof (induction ks m arbitrary: d rule: nk_delete.induct)
  case (1 m)
  then show ?case by simp
next
  case (2 k m)
  show ?case
  proof (cases "map_of m k")
    case None
    then have "AList.delete k m = m" by (intro AList_delete_absent) (simp add: map_of_eq_None_iff)
    then show ?thesis using None by simp
  next
    case (Some n)
    then obtain v where "n = Value v" using 2 by (force dest: map_of_SomeD)
    then show ?thesis using Some by simp
  qed
next
  case (3 k k' ks m)
  then obtain d' where d: "d = Suc (Suc d')" by (cases d) auto
  show ?case
  proof (cases "map_of m k")
    case (Some n)
    obtain b m' where r: "nk_delete (k' # ks) (level_of (Some n)) = (b, m')" by (rule prod.exhaust)
    have lv: "nk_ok (Suc d') (level_of (Some n))" using nk_ok_level_of [of d' m k] 3(3) Some by (simp add: d)
    show ?thesis using 3(1) [OF Some _ lv] 3(2) r Some by (simp add: d)
  qed simp
qed

lemma nk_get_delete:
  "length ks = d \<Longrightarrow> length ks' = d \<Longrightarrow> nk_ok d m \<Longrightarrow>
     nk_get ks' (snd (nk_delete ks m)) = (if ks' = ks then None else nk_get ks' m)"
proof (induction ks m arbitrary: ks' d rule: nk_delete.induct)
  case (1 m)
  then show ?case by simp
next
  case (2 k m)
  then obtain c where "ks' = [c]" by (cases ks') auto
  then show ?case by (simp add: delete_conv')
next
  case (3 k k' ks m)
  then obtain d' where d: "d = Suc (Suc d')" by (cases d) auto
  obtain c c' cs where ks': "ks' = c # c' # cs" using 3(3) d by (metis Suc_length_conv)
  show ?case
  proof (cases "map_of m k")
    case None
    then show ?thesis by (auto simp: ks')
  next
    case (Some n)
    obtain b m' where r: "nk_delete (k' # ks) (level_of (Some n)) = (b, m')" by (rule prod.exhaust)
    have lv: "nk_ok (Suc d') (level_of (Some n))" using nk_ok_level_of [of d' m k] 3(4) Some by (simp add: d)
    have ih: "nk_get (c' # cs) m' = (if c' # cs = k' # ks then None else nk_get (c' # cs) (level_of (Some n)))"
      using 3(1) [OF Some, of "Suc d'" "c' # cs"] 3(2,3) lv r by (simp add: d ks')
    have missing: "\<not> b \<Longrightarrow> m' = level_of (Some n)"
      using nk_delete_missing [of "k' # ks" "Suc d'" "level_of (Some n)"] 3(2) lv r by (simp add: d)
    have gone: "m' = [] \<Longrightarrow> c' # cs = k' # ks \<or> nk_get (c' # cs) (level_of (Some n)) = None"
      using ih nk_get_empty [of "c' # cs"] by (metis (full_types))
    show ?thesis using ih missing gone r Some
      by (cases "c = k") (auto simp: ks' update_conv' delete_conv' split: option.splits)
  qed
qed

end
