(* ===== verification/Prefix_Sum.thy ===== *)
theory Prefix_Sum
  imports Js_Numbers
begin

text \<open>
  \<open>src/vs/editor/common/model/prefixSumComputer.ts\<close>: the two computers that map a line to an
  offset and back. \<open>PrefixSumComputer\<close> keeps \<open>Uint32Array\<close>s, lists of \<^typ>\<open>32 word\<close> whose sums
  wrap; a read outside an array is \<open>None\<close>, a write outside a typed array does nothing.
  \<open>ConstantTimePrefixSumComputer\<close> keeps ordinary arrays, whose elements are options because
  JavaScript arrays can have holes.
\<close>

section \<open>PrefixSumComputer\<close>

definition toUint32 :: "int \<Rightarrow> int" where
  "toUint32 v = (if v < 0 then 0 else if v > 4294967295 then 4294967295 else js_int32 v)"

definition array_get :: "'a list \<Rightarrow> int \<Rightarrow> 'a option" where
  "array_get xs i = (if 0 \<le> i \<and> i < int (length xs) then Some (xs ! nat i) else None)"

definition array_put :: "int \<Rightarrow> 'a \<Rightarrow> 'a list \<Rightarrow> 'a list" where
  "array_put i v xs = (if 0 \<le> i \<and> i < int (length xs) then xs[nat i := v] else xs)"

record prefix_sums =
  ps_values :: "32 word list"
  ps_sums :: "32 word list"
  ps_valid :: int

definition new_PrefixSumComputer :: "32 word list \<Rightarrow> prefix_sums" where
  "new_PrefixSumComputer vs = \<lparr>ps_values = vs, ps_sums = replicate (length vs) 0, ps_valid = -1\<rparr>"

definition ps_getCount :: "prefix_sums \<Rightarrow> nat" where
  "ps_getCount c = length (ps_values c)"

text \<open>The valid prefix of the old sums, then zeros: a fresh array with \<open>set(old.subarray(...))\<close>.\<close>

definition carry_sums :: "int \<Rightarrow> nat \<Rightarrow> 32 word list \<Rightarrow> 32 word list" where
  "carry_sums valid n old =
     (if valid \<ge> 0 then take (nat (valid + 1)) old @ replicate (n - nat (valid + 1)) 0 else replicate n 0)"

definition ps_insertValues :: "int \<Rightarrow> 32 word list \<Rightarrow> prefix_sums \<Rightarrow> bool \<times> prefix_sums" where
  "ps_insertValues insertIndex ins c =
     (let i = toUint32 insertIndex; k = min (nat i) (length (ps_values c)) in
      if length ins = 0 then (False, c)
      else
        (let values = take k (ps_values c) @ ins @ drop k (ps_values c);
             valid = (if i - 1 < ps_valid c then i - 1 else ps_valid c)
         in (True, c\<lparr>ps_values := values, ps_valid := valid,
                     ps_sums := carry_sums valid (length values) (ps_sums c)\<rparr>)))"

definition ps_setValue :: "int \<Rightarrow> int \<Rightarrow> prefix_sums \<Rightarrow> bool \<times> prefix_sums" where
  "ps_setValue index0 value0 c =
     (let i = toUint32 index0; v = toUint32 value0 in
      if map_option uint (array_get (ps_values c) i) = Some v then (False, c)
      else (True, c\<lparr>ps_values := array_put i (word_of_int v) (ps_values c),
                    ps_valid := (if i - 1 < ps_valid c then i - 1 else ps_valid c)\<rparr>))"

definition ps_removeValues :: "int \<Rightarrow> int \<Rightarrow> prefix_sums \<Rightarrow> bool \<times> prefix_sums" where
  "ps_removeValues startIndex count0 c =
     (let start = toUint32 startIndex; n = int (length (ps_values c)) in
      if start \<ge> n then (False, c)
      else
        (let maxCount = n - start; count = toUint32 count0;
             count = (if count \<ge> maxCount then maxCount else count)
         in if count = 0 then (False, c)
            else
              (let values = take (nat start) (ps_values c) @ drop (nat (start + count)) (ps_values c);
                   valid = (if start - 1 < ps_valid c then start - 1 else ps_valid c)
               in (True, c\<lparr>ps_values := values, ps_valid := valid,
                           ps_sums := carry_sums valid (length values) (ps_sums c)\<rparr>))))"

text \<open>The summation loop \<open>for (let i = startIndex; i <= index; i++)\<close>.\<close>

function ps_sum_loop :: "int \<Rightarrow> int \<Rightarrow> 32 word list \<Rightarrow> 32 word list \<Rightarrow> 32 word list" where
  "ps_sum_loop i index values sums =
     (if i \<le> index
      then ps_sum_loop (i + 1) index values (array_put i (sums ! nat (i - 1) + values ! nat i) sums)
      else sums)"
  by auto
termination by (relation "measure (\<lambda>(i, index, _). nat (index + 1 - i))") auto

declare ps_sum_loop.simps [simp del]

definition ps_prefix :: "int \<Rightarrow> prefix_sums \<Rightarrow> 32 word option \<times> prefix_sums" where
  "ps_prefix index0 c =
     (if index0 \<le> ps_valid c then (array_get (ps_sums c) index0, c)
      else
        (let start = ps_valid c + 1;
             first = (start = 0);
             sums = (if first \<and> ps_values c \<noteq> [] then array_put 0 (hd (ps_values c)) (ps_sums c) else ps_sums c);
             start = (if first then start + 1 else start);
             index = (if index0 \<ge> int (length (ps_values c)) then int (length (ps_values c)) - 1 else index0);
             sums = ps_sum_loop start index (ps_values c) sums
         in (array_get sums index, c\<lparr>ps_sums := sums, ps_valid := max (ps_valid c) index\<rparr>)))"

definition ps_getTotalSum :: "prefix_sums \<Rightarrow> 32 word option \<times> prefix_sums" where
  "ps_getTotalSum c =
     (if length (ps_values c) = 0 then (Some 0, c) else ps_prefix (int (length (ps_values c)) - 1) c)"

definition ps_getPrefixSum :: "int \<Rightarrow> prefix_sums \<Rightarrow> 32 word option \<times> prefix_sums" where
  "ps_getPrefixSum index0 c = (if index0 < 0 then (Some 0, c) else ps_prefix (toUint32 index0) c)"

text \<open>
  The bisection of \<open>getIndexOf\<close>; it carries \<open>mid\<close> and \<open>midStart\<close>, which keep their last values
  when the loop ends. \<open>low + ((high - low) / 2) | 0\<close> is the floor of the middle.
\<close>

function ps_bisect :: "32 word list \<Rightarrow> 32 word list \<Rightarrow> int \<Rightarrow> int \<Rightarrow> int \<Rightarrow> int \<Rightarrow> int \<Rightarrow> int \<times> int" where
  "ps_bisect values sums s low high mid midStart =
     (if low \<le> high then
        (let mid = low + (high - low) div 2;
             midStop = uint (sums ! nat mid);
             midStart = midStop - uint (values ! nat mid)
         in if s < midStart then ps_bisect values sums s low (mid - 1) mid midStart
            else if s \<ge> midStop then ps_bisect values sums s (mid + 1) high mid midStart
            else (mid, midStart))
      else (mid, midStart))"
  by auto
termination by (relation "measure (\<lambda>(_, _, _, low, high, _). nat (high + 1 - low))") auto

declare ps_bisect.simps [simp del]

record index_of_result =
  ir_index :: int
  ir_remainder :: int

definition ps_getIndexOf :: "int \<Rightarrow> prefix_sums \<Rightarrow> index_of_result \<times> prefix_sums" where
  "ps_getIndexOf s c =
     (let c = snd (ps_getTotalSum c);
          (mid, midStart) = ps_bisect (ps_values c) (ps_sums c) s 0 (int (length (ps_values c)) - 1) 0 0
      in (\<lparr>ir_index = mid, ir_remainder = s - midStart\<rparr>, c))"

section \<open>Its invariant\<close>

definition ps_ok :: "prefix_sums \<Rightarrow> bool" where
  "ps_ok c \<longleftrightarrow> length (ps_sums c) = length (ps_values c)
     \<and> -1 \<le> ps_valid c \<and> ps_valid c < int (length (ps_values c))
     \<and> (\<forall>i. int i \<le> ps_valid c \<longrightarrow> ps_sums c ! i = sum_list (take (Suc i) (ps_values c)))"

lemma toUint32_small [simp]: "0 \<le> v \<Longrightarrow> v < 2 ^ 31 \<Longrightarrow> toUint32 v = v"
  by (simp add: toUint32_def)

lemma ps_ok_new: "ps_ok (new_PrefixSumComputer vs)"
  by (simp add: ps_ok_def new_PrefixSumComputer_def)

text \<open>Changing the values from index \<open>k\<close> on keeps the sums below \<open>k\<close>.\<close>

lemma ps_ok_carry:
  assumes ok: "ps_ok c" and len: "k \<le> length vs" and same: "take k vs = take k (ps_values c)"
    and v: "-1 \<le> v" "v \<le> ps_valid c" "v < int k"
  shows "ps_ok (c\<lparr>ps_values := vs, ps_valid := v, ps_sums := carry_sums v (length vs) (ps_sums c)\<rparr>)"
proof -
  have lens: "length (ps_sums c) = length (ps_values c)" "ps_valid c < int (length (ps_values c))"
    using ok by (simp_all add: ps_ok_def)
  have "carry_sums v (length vs) (ps_sums c) ! i = sum_list (take (Suc i) vs)" if "int i \<le> v" for i
  proof -
    have "i < nat (v + 1)" "i < length (ps_sums c)" using that lens v by auto
    then have "carry_sums v (length vs) (ps_sums c) ! i = ps_sums c ! i"
      using that by (simp add: carry_sums_def nth_append)
    also have "\<dots> = sum_list (take (Suc i) (ps_values c))" using ok that v by (simp add: ps_ok_def)
    also have "take (Suc i) (ps_values c) = take (Suc i) vs"
      using arg_cong [OF same, of "take (Suc i)"] that v by (simp add: min_def split: if_splits)
    finally show ?thesis .
  qed
  moreover have "length (carry_sums v (length vs) (ps_sums c)) = length vs"
    using lens v len by (auto simp: carry_sums_def min_def)
  ultimately show ?thesis using v len by (simp add: ps_ok_def)
qed

lemma ps_ok_insert:
  assumes ok: "ps_ok c" and i: "0 \<le> i" "i < 2 ^ 31"
  shows "ps_ok (snd (ps_insertValues i ins c))"
    and "ps_values (snd (ps_insertValues i ins c)) = take (nat i) (ps_values c) @ ins @ drop (nat i) (ps_values c)"
proof -
  let ?k = "min (nat i) (length (ps_values c))"
  let ?vs = "take ?k (ps_values c) @ ins @ drop ?k (ps_values c)"
  have k: "take ?k (ps_values c) = take (nat i) (ps_values c)" "drop ?k (ps_values c) = drop (nat i) (ps_values c)"
    by (simp_all add: min_def)
  have valid: "ps_valid c < int (length (ps_values c))" "-1 \<le> ps_valid c" using ok by (simp_all add: ps_ok_def)
  show "ps_ok (snd (ps_insertValues i ins c))"
  proof (cases "ins = []")
    case False
    have "ps_ok (c\<lparr>ps_values := ?vs, ps_valid := (if i - 1 < ps_valid c then i - 1 else ps_valid c),
        ps_sums := carry_sums (if i - 1 < ps_valid c then i - 1 else ps_valid c) (length ?vs) (ps_sums c)\<rparr>)"
      by (rule ps_ok_carry [OF ok, where k = ?k]) (use valid i in auto)
    with False i show ?thesis by (simp add: ps_insertValues_def Let_def)
  qed (simp add: ps_insertValues_def ok)
  show "ps_values (snd (ps_insertValues i ins c)) = take (nat i) (ps_values c) @ ins @ drop (nat i) (ps_values c)"
    using i k by (cases "ins = []") (simp_all add: ps_insertValues_def Let_def)
qed

lemma ps_ok_remove:
  assumes ok: "ps_ok c" and i: "0 \<le> i" "i < 2 ^ 31" and n: "0 \<le> n" "n < 2 ^ 31"
  shows "ps_ok (snd (ps_removeValues i n c))"
    and "ps_values (snd (ps_removeValues i n c)) = take (nat i) (ps_values c) @ drop (nat i + nat n) (ps_values c)"
proof -
  let ?len = "int (length (ps_values c))"
  let ?n = "if n \<ge> ?len - i then ?len - i else n"
  let ?vs = "take (nat i) (ps_values c) @ drop (nat (i + ?n)) (ps_values c)"
  have valid: "ps_valid c < int (length (ps_values c))" "-1 \<le> ps_valid c" using ok by (simp_all add: ps_ok_def)
  have eq: "ps_removeValues i n c =
      (if i \<ge> ?len \<or> ?n = 0 then (False, c)
       else (True, c\<lparr>ps_values := ?vs, ps_valid := (if i - 1 < ps_valid c then i - 1 else ps_valid c),
               ps_sums := carry_sums (if i - 1 < ps_valid c then i - 1 else ps_valid c) (length ?vs) (ps_sums c)\<rparr>))"
    using i n by (simp add: ps_removeValues_def Let_def)
  show "ps_ok (snd (ps_removeValues i n c))"
  proof (cases "i \<ge> ?len \<or> ?n = 0")
    case False
    have "ps_ok (c\<lparr>ps_values := ?vs, ps_valid := (if i - 1 < ps_valid c then i - 1 else ps_valid c),
        ps_sums := carry_sums (if i - 1 < ps_valid c then i - 1 else ps_valid c) (length ?vs) (ps_sums c)\<rparr>)"
      by (rule ps_ok_carry [OF ok, where k = "nat i"]) (use valid i False in auto)
    with False show ?thesis unfolding eq by simp
  qed (simp add: eq ok)
  have drop: "drop (nat (i + ?n)) (ps_values c) = drop (nat i + nat n) (ps_values c)" if "i < ?len"
    using that i n by (auto simp: nat_add_distrib)
  show "ps_values (snd (ps_removeValues i n c)) = take (nat i) (ps_values c) @ drop (nat i + nat n) (ps_values c)"
  proof (cases "i \<ge> ?len \<or> ?n = 0")
    case True
    then show ?thesis using i n unfolding eq by (auto split: if_splits)
  next
    case False
    then show ?thesis unfolding eq using drop by simp
  qed
qed

lemma ps_ok_setValue:
  assumes ok: "ps_ok c" and i: "0 \<le> i" "i < int (length (ps_values c))" "i < 2 ^ 31" and v: "0 \<le> v" "v < 2 ^ 31"
  shows "ps_ok (snd (ps_setValue i v c)) \<and> ps_values (snd (ps_setValue i v c)) = (ps_values c)[nat i := word_of_int v]"
proof (cases "ps_values c ! nat i = word_of_int v")
  case True
  then have u: "uint (ps_values c ! nat i) = v" using v by (simp add: uint_word_of_int_eq take_bit_int_eq_self)
  have "(ps_values c)[nat i := word_of_int v] = ps_values c" using True list_update_id [of "ps_values c" "nat i"] by simp
  with u i v ok show ?thesis by (simp add: ps_setValue_def array_get_def Let_def)
next
  case False
  then have "uint (ps_values c ! nat i) \<noteq> v" by (metis word_of_int_uint)
  then have eq: "ps_setValue i v c = (True, c\<lparr>ps_values := (ps_values c)[nat i := word_of_int v],
      ps_valid := (if i - 1 < ps_valid c then i - 1 else ps_valid c)\<rparr>)"
    using i v by (simp add: ps_setValue_def array_get_def array_put_def Let_def)
  have "take (Suc j) ((ps_values c)[nat i := word_of_int v]) = take (Suc j) (ps_values c)" if "int j \<le> i - 1" for j
    using that by (simp add: take_update_cancel)
  with ok i show ?thesis unfolding eq by (auto simp: ps_ok_def)
qed

lemma sum_list_take_Suc:
  fixes xs :: "'a::comm_monoid_add list"
  shows "k < length xs \<Longrightarrow> sum_list (take (Suc k) xs) = sum_list (take k xs) + xs ! k"
  by (simp add: take_Suc_conv_app_nth)

lemma ps_sum_loop_spec:
  assumes "length sums = length vs" and "1 \<le> i" and "index < int (length vs)"
    and "\<forall>j. int j < i \<longrightarrow> j < length vs \<longrightarrow> sums ! j = sum_list (take (Suc j) vs)"
  shows "length (ps_sum_loop i index vs sums) = length vs
    \<and> (\<forall>j. (int j < i \<or> int j \<le> index) \<longrightarrow> j < length vs \<longrightarrow> ps_sum_loop i index vs sums ! j = sum_list (take (Suc j) vs))"
  using assms
proof (induction i index vs sums rule: ps_sum_loop.induct)
  case (1 i index vs sums)
  show ?case
  proof (cases "i \<le> index")
    case False
    then have "ps_sum_loop i index vs sums = sums" by (simp add: ps_sum_loop.simps [of i])
    with 1(2-5) False show ?thesis by auto
  next
    case True
    let ?x = "sums ! nat (i - 1) + vs ! nat i"
    have rec: "ps_sum_loop i index vs sums = ps_sum_loop (i + 1) index vs (array_put i ?x sums)"
      using True by (simp add: ps_sum_loop.simps [of i])
    have "i = int (Suc (nat (i - 1)))" using 1(3) by simp
    then obtain m where m: "i = int (Suc m)" by blast
    have im: "Suc m < length vs" using True 1(4) m by simp
    have put: "array_put i ?x sums = sums[Suc m := sums ! m + vs ! Suc m]"
      using im 1(2) by (simp add: array_put_def m nat_add_distrib)
    have "sums ! m = sum_list (take (Suc m) vs)" using 1(5) im m by simp
    then have x: "sums ! m + vs ! Suc m = sum_list (take (Suc (Suc m)) vs)" by (simp add: sum_list_take_Suc im)
    have "\<forall>j. int j < i + 1 \<longrightarrow> j < length vs \<longrightarrow> array_put i ?x sums ! j = sum_list (take (Suc j) vs)"
      using 1(2,5) im x unfolding put by (auto simp: nth_list_update m less_Suc_eq)
    with 1(1) [OF True] 1(2-4) True show ?thesis unfolding rec by (auto simp: put)
  qed
qed

lemma ps_prefix_spec:
  assumes ok: "ps_ok c" and i: "-1 \<le> index0" and ne: "ps_values c \<noteq> []" "0 \<le> index0"
  shows "ps_ok (snd (ps_prefix index0 c)) \<and> ps_values (snd (ps_prefix index0 c)) = ps_values c
    \<and> fst (ps_prefix index0 c) = Some (sum_list (take (nat (index0 + 1)) (ps_values c)))
    \<and> min index0 (int (length (ps_values c)) - 1) \<le> ps_valid (snd (ps_prefix index0 c))"
proof -
  let ?vs = "ps_values c" and ?len = "int (length (ps_values c))"
  have lens: "length (ps_sums c) = length ?vs" "ps_valid c < ?len" "-1 \<le> ps_valid c"
    and sums: "\<And>j. int j \<le> ps_valid c \<Longrightarrow> ps_sums c ! j = sum_list (take (Suc j) ?vs)"
    using ok by (simp_all add: ps_ok_def)
  show ?thesis
  proof (cases "index0 \<le> ps_valid c")
    case True
    have "Suc (nat index0) = nat (index0 + 1)" using ne by simp
    with True ok lens sums [of "nat index0"] ne show ?thesis
      by (simp add: ps_prefix_def array_get_def)
  next
    case False
    let ?first = "ps_valid c + 1 = 0"
    let ?sums = "if ?first \<and> ?vs \<noteq> [] then array_put 0 (hd ?vs) (ps_sums c) else ps_sums c"
    let ?start = "if ?first then ps_valid c + 1 + 1 else ps_valid c + 1"
    let ?index = "if index0 \<ge> ?len then ?len - 1 else index0"
    have len: "length ?sums = length ?vs" using lens by (simp add: array_put_def)
    have start: "1 \<le> ?start" using lens by simp
    have first: "array_put 0 (hd ?vs) (ps_sums c) ! 0 = sum_list (take (Suc 0) ?vs)"
      using ne lens by (simp add: array_put_def take_Suc)
    have below: "\<forall>j. int j < ?start \<longrightarrow> j < length ?vs \<longrightarrow> ?sums ! j = sum_list (take (Suc j) ?vs)"
      using first sums ne by auto
    have idx: "?index < ?len" "0 \<le> ?index" using ne by auto
    note loop = ps_sum_loop_spec [OF len start idx(1) below]
    let ?res = "ps_sum_loop ?start ?index ?vs ?sums"
    have eq: "ps_prefix index0 c = (array_get ?res ?index, c\<lparr>ps_sums := ?res, ps_valid := max (ps_valid c) ?index\<rparr>)"
      unfolding ps_prefix_def Let_def using False by (simp only: if_False)
    have val: "?res ! nat ?index = sum_list (take (Suc (nat ?index)) ?vs)"
      using loop idx by (metis int_nat_eq nat_less_iff order_refl)
    have "take (Suc (nat ?index)) ?vs = take (nat (index0 + 1)) ?vs"
      using ne idx by (auto simp: Suc_nat_eq_nat_zadd1 add.commute)
    with val loop idx have "array_get ?res ?index = Some (sum_list (take (nat (index0 + 1)) ?vs))"
      by (simp add: array_get_def)
    moreover have "ps_ok (c\<lparr>ps_sums := ?res, ps_valid := max (ps_valid c) ?index\<rparr>)"
      using loop lens idx(1) by (auto simp: ps_ok_def le_max_iff_disj)
    ultimately show ?thesis unfolding eq by auto
  qed
qed

text \<open>The bisection finds the only index whose interval of sums contains the argument.\<close>

definition psum :: "32 word list \<Rightarrow> nat \<Rightarrow> int" where
  "psum vs k = int (\<Sum>v \<leftarrow> take k vs. unat v)"

lemma psum_Suc: "k < length vs \<Longrightarrow> psum vs (Suc k) = psum vs k + uint (vs ! k)"
  by (simp add: psum_def take_Suc_conv_app_nth)

lemma psum_mono: "j \<le> k \<Longrightarrow> psum vs j \<le> psum vs k"
proof -
  assume "j \<le> k"
  then have "take k vs = take j vs @ take (k - j) (drop j vs)" by (metis le_add_diff_inverse take_add)
  then show ?thesis by (simp add: psum_def)
qed

lemma unat_sum_list:
  fixes vs :: "32 word list"
  assumes "(\<Sum>v \<leftarrow> vs. unat v) < 2 ^ 32"
  shows "unat (sum_list vs) = (\<Sum>v \<leftarrow> vs. unat v)"
  using assms
proof (induction vs)
  case (Cons v vs)
  then have "unat (sum_list vs) = (\<Sum>v \<leftarrow> vs. unat v)" by simp
  with Cons.prems show ?case by (simp add: unat_word_ariths)
qed simp

lemma psum_sum_list:
  assumes "psum vs (length vs) < 2 ^ 32" and "k \<le> length vs"
  shows "uint (sum_list (take k vs)) = psum vs k"
proof -
  have "psum vs k < 2 ^ 32" using psum_mono [OF assms(2), of vs] assms(1) by simp
  then have "int (\<Sum>v \<leftarrow> take k vs. unat v) < int (2 ^ 32)" unfolding psum_def by simp
  then have "(\<Sum>v \<leftarrow> take k vs. unat v) < 2 ^ 32" by (simp only: of_nat_less_iff)
  from unat_sum_list [OF this] show ?thesis unfolding psum_def by (metis uint_nat)
qed

lemma ps_bisect_spec:
  assumes sums: "\<forall>j < length vs. uint (sums ! j) = psum vs (Suc j)"
    and range: "0 \<le> low" "high < int (length vs)" "low \<le> high + 1"
    and lo: "psum vs (nat low) \<le> s" and hi: "s < psum vs (nat (high + 1))"
  shows "\<exists>k < length vs. ps_bisect vs sums s low high mid midStart = (int k, psum vs k)
    \<and> psum vs k \<le> s \<and> s < psum vs (Suc k)"
  using assms
proof (induction vs sums s low high mid midStart rule: ps_bisect.induct)
  case (1 vs sums s low high mid midStart)
  let ?m = "low + (high - low) div 2"
  have lt: "low \<le> high"
  proof (rule ccontr)
    assume "\<not> low \<le> high"
    then have "low = high + 1" using 1(6) by simp
    with 1(7,8) show False by simp
  qed
  have "0 \<le> ?m" using lt 1(4) by simp
  then obtain k where k: "?m = int k" by (rule nonneg_int_cases)
  have le: "low \<le> int k" "int k \<le> high" using lt unfolding k [symmetric] by auto
  then have kl: "k < length vs" using 1(5) by simp
  have stop: "uint (sums ! nat ?m) = psum vs (Suc k)" using 1(3) kl by (simp add: k)
  have start: "psum vs (Suc k) - uint (vs ! nat ?m) = psum vs k" using psum_Suc [OF kl] by (simp add: k)
  show ?case
  proof (cases "s < psum vs k")
    case True
    then have eq: "ps_bisect vs sums s low high mid midStart = ps_bisect vs sums s low (?m - 1) ?m (psum vs k)"
      using lt by (simp add: ps_bisect.simps [of vs sums s low high mid midStart] Let_def stop start)
    have "s < psum vs (nat (?m - 1 + 1))" using True by (simp add: k)
    from 1(1) [OF lt refl refl refl, unfolded stop start, OF True 1(3,4) _ _ 1(7) this] le 1(5) show ?thesis
      unfolding eq by (simp add: k)
  next
    case nlt: False
    show ?thesis
    proof (cases "s \<ge> psum vs (Suc k)")
      case True
      then have eq: "ps_bisect vs sums s low high mid midStart = ps_bisect vs sums s (?m + 1) high ?m (psum vs k)"
        using lt nlt by (simp add: ps_bisect.simps [of vs sums s low high mid midStart] Let_def stop start)
      have "psum vs (nat (?m + 1)) \<le> s" using True by (simp add: k nat_add_distrib)
      from 1(2) [OF lt refl refl refl, unfolded stop start, OF nlt True 1(3) _ 1(5) _ this 1(8)] le show ?thesis
        unfolding eq by (simp add: k)
    next
      case False
      with nlt kl show ?thesis using lt
        by (simp add: ps_bisect.simps [of vs sums s low high mid midStart] Let_def stop start)
          (simp add: k)
    qed
  qed
qed

lemma ps_getTotalSum_spec:
  assumes ok: "ps_ok c"
  shows "ps_ok (snd (ps_getTotalSum c)) \<and> ps_values (snd (ps_getTotalSum c)) = ps_values c
    \<and> fst (ps_getTotalSum c) = Some (sum_list (ps_values c))
    \<and> ps_valid (snd (ps_getTotalSum c)) = int (length (ps_values c)) - 1"
proof (cases "ps_values c = []")
  case True
  with ok show ?thesis by (auto simp: ps_getTotalSum_def ps_ok_def)
next
  case False
  then have "0 < length (ps_values c)" by simp
  note spec = ps_prefix_spec [OF ok _ False, of "int (length (ps_values c)) - 1"]
  with False have "ps_ok (snd (ps_prefix (int (length (ps_values c)) - 1) c))" by auto
  then have "ps_valid (snd (ps_prefix (int (length (ps_values c)) - 1) c))
      < int (length (ps_values (snd (ps_prefix (int (length (ps_values c)) - 1) c))))" by (simp add: ps_ok_def)
  with spec False show ?thesis by (auto simp: ps_getTotalSum_def)
qed

lemma ps_getIndexOf_spec:
  assumes ok: "ps_ok c" and total: "psum (ps_values c) (length (ps_values c)) < 2 ^ 32"
    and s: "0 \<le> s" "s < psum (ps_values c) (length (ps_values c))"
  shows "ps_ok (snd (ps_getIndexOf s c)) \<and> ps_values (snd (ps_getIndexOf s c)) = ps_values c
    \<and> (\<exists>k < length (ps_values c). ir_index (fst (ps_getIndexOf s c)) = int k
        \<and> psum (ps_values c) k \<le> s \<and> s < psum (ps_values c) (Suc k)
        \<and> ir_remainder (fst (ps_getIndexOf s c)) = s - psum (ps_values c) k)"
proof -
  let ?c = "snd (ps_getTotalSum c)" and ?vs = "ps_values c"
  note t = ps_getTotalSum_spec [OF ok]
  have "uint (ps_sums ?c ! j) = psum ?vs (Suc j)" if "j < length ?vs" for j
  proof -
    have "ps_sums ?c ! j = sum_list (take (Suc j) ?vs)" using t that by (simp add: ps_ok_def)
    with psum_sum_list [OF total, of "Suc j"] that show ?thesis by simp
  qed
  moreover have "0 < length ?vs" using s by (cases ?vs) (simp_all add: psum_def)
  ultimately have "\<exists>k < length ?vs. ps_bisect ?vs (ps_sums ?c) s 0 (int (length ?vs) - 1) 0 0 = (int k, psum ?vs k)
      \<and> psum ?vs k \<le> s \<and> s < psum ?vs (Suc k)"
    by (intro ps_bisect_spec) (use s in \<open>simp_all add: psum_def [of _ 0]\<close>)
  with t show ?thesis by (auto simp: ps_getIndexOf_def Let_def)
qed

section \<open>ConstantTimePrefixSumComputer\<close>

text \<open>\<open>xs[i] = v\<close> and \<open>xs.length = n\<close> on JavaScript arrays; a hole is \<open>None\<close>.\<close>

definition js_assign :: "nat \<Rightarrow> 'a \<Rightarrow> 'a option list \<Rightarrow> 'a option list" where
  "js_assign i v xs =
     (if i < length xs then xs[i := Some v] else xs @ replicate (i - length xs) None @ [Some v])"

definition js_set_length :: "nat \<Rightarrow> 'a option list \<Rightarrow> 'a option list" where
  "js_set_length n xs = take n xs @ replicate (n - length xs) None"

record const_sums =
  cp_values :: "nat list"
  cp_isValid :: bool
  cp_validEnd :: int
  cp_prefix :: "nat option list"
  cp_indexBySum :: "nat option list"

definition new_ConstantTime :: "nat list \<Rightarrow> const_sums" where
  "new_ConstantTime vs = \<lparr>cp_values = vs, cp_isValid = False, cp_validEnd = -1, cp_prefix = [], cp_indexBySum = []\<rparr>"

definition cp_invalidate :: "int \<Rightarrow> const_sums \<Rightarrow> const_sums" where
  "cp_invalidate i c = c\<lparr>cp_isValid := False, cp_validEnd := min (cp_validEnd c) (i - 1)\<rparr>"

definition cp_removeValues :: "nat \<Rightarrow> nat \<Rightarrow> const_sums \<Rightarrow> const_sums" where
  "cp_removeValues start n c =
     cp_invalidate (int start) (c\<lparr>cp_values := take start (cp_values c) @ drop (start + n) (cp_values c)\<rparr>)"

definition cp_insertValues :: "nat \<Rightarrow> nat list \<Rightarrow> const_sums \<Rightarrow> const_sums" where
  "cp_insertValues i ins c =
     cp_invalidate (int i) (c\<lparr>cp_values := take i (cp_values c) @ ins @ drop i (cp_values c)\<rparr>)"

definition cp_setValue :: "nat \<Rightarrow> nat \<Rightarrow> const_sums \<Rightarrow> const_sums" where
  "cp_setValue i v c =
     (if i < length (cp_values c) \<and> cp_values c ! i = v then c
      else cp_invalidate (int i) (c\<lparr>cp_values := (cp_values c)[i := v]\<rparr>))"

text \<open>The two nested loops of \<open>_ensureValid\<close>\<close>

fun cp_mark :: "nat \<Rightarrow> nat \<Rightarrow> nat \<Rightarrow> nat option list \<Rightarrow> nat option list" where
  "cp_mark 0 at i xs = xs"
| "cp_mark (Suc n) at i xs = cp_mark n (Suc at) i (js_assign at i xs)"

function cp_fill :: "nat \<Rightarrow> nat list \<Rightarrow> nat option list \<times> nat option list \<Rightarrow> nat option list \<times> nat option list" where
  "cp_fill i vs st =
     (if i < length vs then
        (let (prefix, index) = st;
             sumAbove = (if i > 0 then or_else (prefix ! (i - 1)) 0 else 0)
         in cp_fill (i + 1) vs (js_assign i (sumAbove + vs ! i) prefix, cp_mark (vs ! i) sumAbove i index))
      else st)"
  by auto
termination by (relation "measure (\<lambda>(i, vs, _). length vs - i)") auto

declare cp_fill.simps [simp del]

definition cp_ensureValid :: "const_sums \<Rightarrow> const_sums" where
  "cp_ensureValid c =
     (if cp_isValid c then c
      else
        (let vs = cp_values c;
             (prefix, index) = cp_fill (nat (cp_validEnd c + 1)) vs (cp_prefix c, cp_indexBySum c);
             prefix = js_set_length (length vs) prefix;
             index = js_set_length (if vs \<noteq> [] then or_else (prefix ! (length vs - 1)) 0 else 0) index
         in c\<lparr>cp_prefix := prefix, cp_indexBySum := index, cp_isValid := True,
              cp_validEnd := int (length vs) - 1\<rparr>))"

definition cp_getTotalSum :: "const_sums \<Rightarrow> nat \<times> const_sums" where
  "cp_getTotalSum c = (let c = cp_ensureValid c in (length (cp_indexBySum c), c))"

definition cp_getPrefixSum :: "nat \<Rightarrow> const_sums \<Rightarrow> nat option \<times> const_sums" where
  "cp_getPrefixSum count c =
     (let c = cp_ensureValid c in
      if count = 0 then (Some 0, c)
      else (if count - 1 < length (cp_prefix c) then cp_prefix c ! (count - 1) else None, c))"

definition cp_getIndexOf :: "nat \<Rightarrow> const_sums \<Rightarrow> index_of_result \<times> const_sums" where
  "cp_getIndexOf s c =
     (let c = cp_ensureValid c;
          idx = (if s < length (cp_indexBySum c) then cp_indexBySum c ! s else None)
      in case idx of
           None \<Rightarrow>
             (let lastIdx = length (cp_values c) - 1;
                  lastPrefixSum = (if lastIdx > 0 then or_else (cp_prefix c ! (lastIdx - 1)) 0 else 0)
              in (\<lparr>ir_index = int lastIdx, ir_remainder = int s - int lastPrefixSum\<rparr>, c))
         | Some i \<Rightarrow>
             (let above = (if i > 0 then or_else (cp_prefix c ! (i - 1)) 0 else 0)
              in (\<lparr>ir_index = int i, ir_remainder = int s - int above\<rparr>, c)))"

text \<open>What the arrays hold when they are valid: the prefix sums, and each index as often as its value.\<close>

definition prefix_list :: "nat list \<Rightarrow> nat list" where
  "prefix_list vs = map (\<lambda>i. sum_list (take (Suc i) vs)) [0..<length vs]"

definition index_list :: "nat list \<Rightarrow> nat list" where
  "index_list vs = concat (map (\<lambda>i. replicate (vs ! i) i) [0..<length vs])"

lemma prefix_list_take: "n \<le> length vs \<Longrightarrow> prefix_list (take n vs) = take n (prefix_list vs)"
  by (rule nth_equalityI) (simp_all add: prefix_list_def min.absorb1 min.absorb2)

lemma index_list_take:
  assumes "n < length vs"
  shows "index_list (take (Suc n) vs) = index_list (take n vs) @ replicate (vs ! n) n"
proof -
  have "map (\<lambda>i. replicate (take (Suc n) vs ! i) i) [0..<n] = map (\<lambda>i. replicate (take n vs ! i) i) [0..<n]"
    by (rule map_cong) auto
  from arg_cong [OF this, of concat] assms show ?thesis by (simp add: index_list_def min.absorb2)
qed

lemma length_index_list: "length (index_list vs) = sum_list vs"
proof -
  have "length (index_list (take n vs)) = sum_list (take n vs)" if "n \<le> length vs" for n
    using that
  proof (induction n)
    case 0
    show ?case by (simp add: index_list_def)
  next
    case (Suc n)
    then show ?case by (simp add: index_list_take sum_list_take_Suc)
  qed
  from this [of "length vs"] show ?thesis by simp
qed

lemma index_list_nth:
  assumes "s < sum_list (take n vs)" and "n \<le> length vs"
  shows "\<exists>k < n. index_list (take n vs) ! s = k \<and> sum_list (take k vs) \<le> s \<and> s < sum_list (take (Suc k) vs)"
  using assms
proof (induction n)
  case (Suc n)
  have len: "length (index_list (take n vs)) = sum_list (take n vs)" using length_index_list [of "take n vs"] .
  show ?case
  proof (cases "s < sum_list (take n vs)")
    case True
    with Suc.IH Suc.prems(2) obtain k where k: "k < n" "index_list (take n vs) ! s = k"
      "sum_list (take k vs) \<le> s" "s < sum_list (take (Suc k) vs)" by auto
    moreover have "index_list (take (Suc n) vs) ! s = index_list (take n vs) ! s"
      using True len Suc.prems(2) by (simp add: index_list_take nth_append)
    ultimately show ?thesis using less_SucI by metis
  next
    case False
    with Suc.prems len have "index_list (take (Suc n) vs) ! s = n"
      by (simp add: index_list_take nth_append sum_list_take_Suc)
    with False Suc.prems(1) show ?thesis by auto
  qed
qed simp

text \<open>Both arrays are right up to an index \<open>n\<close>.\<close>

definition cp_upto :: "nat list \<Rightarrow> nat \<Rightarrow> nat option list \<times> nat option list \<Rightarrow> bool" where
  "cp_upto vs n st \<longleftrightarrow> n \<le> length vs
     \<and> n \<le> length (fst st) \<and> take n (fst st) = map Some (prefix_list (take n vs))
     \<and> sum_list (take n vs) \<le> length (snd st)
     \<and> take (sum_list (take n vs)) (snd st) = map Some (index_list (take n vs))"

lemma take_js_assign: "n \<le> length xs \<Longrightarrow> take (Suc n) (js_assign n v xs) = take n xs @ [Some v]"
  by (cases "n < length xs") (simp_all add: js_assign_def take_Suc_conv_app_nth)

lemma take_cp_mark:
  "n \<le> length xs \<Longrightarrow> take (n + k) (cp_mark k n i xs) = take n xs @ replicate k (Some i)
     \<and> n + k \<le> length (cp_mark k n i xs)"
proof (induction k n i xs rule: cp_mark.induct)
  case (2 k n i xs)
  have len: "Suc n \<le> length (js_assign n i xs)" using 2(2) by (auto simp: js_assign_def)
  from 2(1) [OF len] take_js_assign [OF 2(2), of i] show ?case by simp
qed simp

lemma cp_fill_spec:
  "cp_upto vs n st \<Longrightarrow> cp_upto vs (length vs) (cp_fill n vs st)"
proof (induction n vs st rule: cp_fill.induct)
  case (1 n vs st)
  show ?case
  proof (cases "n < length vs")
    case False
    then have "cp_fill n vs st = st" by (simp add: cp_fill.simps [of n vs st])
    moreover have "n = length vs" using False 1(2) by (simp add: cp_upto_def)
    ultimately show ?thesis using 1(2) by simp
  next
    case True
    obtain prefix index where st: "st = (prefix, index)" by (cases st)
    let ?above = "if n > 0 then or_else (prefix ! (n - 1)) 0 else 0"
    have u: "n \<le> length prefix" "take n prefix = map Some (prefix_list (take n vs))"
      "sum_list (take n vs) \<le> length index"
      "take (sum_list (take n vs)) index = map Some (index_list (take n vs))"
      using 1(2) by (simp_all add: cp_upto_def st)
    have above: "?above = sum_list (take n vs)"
    proof (cases n)
      case (Suc k)
      have "prefix ! k = take n prefix ! k" using Suc by simp
      also have "\<dots> = Some (sum_list (take (Suc k) vs))"
        unfolding u(2) using Suc True by (simp add: prefix_list_def min.absorb1 min.absorb2 del: upt_Suc)
      finally show ?thesis using Suc by simp
    qed simp
    have "prefix_list (take (Suc n) vs) = prefix_list (take n vs) @ [sum_list (take n vs) + vs ! n]"
      using True by (simp add: prefix_list_take) (simp add: prefix_list_def take_Suc_conv_app_nth sum_list_take_Suc)
    then have p: "take (Suc n) (js_assign n (?above + vs ! n) prefix) = map Some (prefix_list (take (Suc n) vs))"
      "Suc n \<le> length (js_assign n (?above + vs ! n) prefix)"
      using take_js_assign [OF u(1), of "?above + vs ! n"] u(1,2) by (auto simp: above js_assign_def)
    have i: "take (sum_list (take (Suc n) vs)) (cp_mark (vs ! n) ?above n index) = map Some (index_list (take (Suc n) vs))"
      "sum_list (take (Suc n) vs) \<le> length (cp_mark (vs ! n) ?above n index)"
      using take_cp_mark [OF u(3), of "vs ! n" n] u(4) True
      by (simp_all add: above sum_list_take_Suc index_list_take)
    have "cp_upto vs (n + 1) (js_assign n (?above + vs ! n) prefix, cp_mark (vs ! n) ?above n index)"
      using p i True by (simp add: cp_upto_def)
    from 1(1) [OF True refl st [symmetric] refl this] True show ?thesis
      by (simp add: cp_fill.simps [of n] st Let_def)
  qed
qed

definition cp_ok :: "const_sums \<Rightarrow> bool" where
  "cp_ok c \<longleftrightarrow> -1 \<le> cp_validEnd c
     \<and> cp_upto (cp_values c) (nat (cp_validEnd c + 1)) (cp_prefix c, cp_indexBySum c)
     \<and> (cp_isValid c \<longrightarrow> cp_prefix c = map Some (prefix_list (cp_values c))
          \<and> cp_indexBySum c = map Some (index_list (cp_values c)))"

lemma cp_ok_new: "cp_ok (new_ConstantTime vs)"
  by (simp add: cp_ok_def new_ConstantTime_def cp_upto_def prefix_list_def index_list_def)

lemma cp_upto_less:
  assumes "cp_upto vs n st" and "m \<le> n" and "m \<le> length ws" and "take m ws = take m vs"
  shows "cp_upto ws m st"
proof -
  have n: "n \<le> length vs" "n \<le> length (fst st)" "take n (fst st) = map Some (prefix_list (take n vs))"
    "sum_list (take n vs) \<le> length (snd st)" "take (sum_list (take n vs)) (snd st) = map Some (index_list (take n vs))"
    using assms(1) by (simp_all add: cp_upto_def)
  have split: "take n vs = take m vs @ drop m (take n vs)" using assms(2) by (metis append_take_drop_id min.absorb2 take_take min.commute)
  have le: "sum_list (take m vs) \<le> sum_list (take n vs)" by (subst split) simp
  have "take m (fst st) = take m (take n (fst st))" using assms(2) by simp
  also have "\<dots> = map Some (prefix_list (take m vs))"
    unfolding n(3) using assms(2) n(1) by (simp add: take_map prefix_list_take min_def)
  finally have p: "take m (fst st) = map Some (prefix_list (take m vs))" .
  have idx: "take (sum_list (take k vs)) (index_list (take n vs)) = index_list (take k vs)" if "k \<le> n" for k
    using that n(1)
  proof (induction n)
    case (Suc n)
    show ?case
    proof (cases "k = Suc n")
      case False
      then have "k \<le> n" using Suc.prems by simp
      have len: "length (index_list (take n vs)) = sum_list (take n vs)" by (rule length_index_list)
      have "take k vs = take k (take n vs)" using \<open>k \<le> n\<close> by simp
      then have "sum_list (take k vs) \<le> sum_list (take n vs)" by (metis append_take_drop_id le_add1 sum_list_append)
      with Suc \<open>k \<le> n\<close> len show ?thesis by (simp add: index_list_take)
    qed (simp add: length_index_list [of "take (Suc n) vs", symmetric])
  qed (simp add: index_list_def)
  have "take (sum_list (take m vs)) (snd st) = take (sum_list (take m vs)) (take (sum_list (take n vs)) (snd st))"
    using le by (simp add: min_def)
  also have "\<dots> = map Some (index_list (take m vs))" unfolding n(5) using idx [OF assms(2)] by (simp add: take_map)
  finally show ?thesis using p assms n le by (simp add: cp_upto_def)
qed

lemma cp_ensureValid_spec:
  assumes ok: "cp_ok c"
  shows "cp_values (cp_ensureValid c) = cp_values c \<and> cp_ok (cp_ensureValid c)
    \<and> cp_prefix (cp_ensureValid c) = map Some (prefix_list (cp_values c))
    \<and> cp_indexBySum (cp_ensureValid c) = map Some (index_list (cp_values c))"
proof (cases "cp_isValid c")
  case True
  with ok show ?thesis by (auto simp: cp_ensureValid_def cp_ok_def)
next
  case False
  let ?vs = "cp_values c"
  obtain prefix index where fill: "cp_fill (nat (cp_validEnd c + 1)) ?vs (cp_prefix c, cp_indexBySum c) = (prefix, index)"
    by (cases "cp_fill (nat (cp_validEnd c + 1)) ?vs (cp_prefix c, cp_indexBySum c)")
  from ok have "cp_upto ?vs (nat (cp_validEnd c + 1)) (cp_prefix c, cp_indexBySum c)" by (simp add: cp_ok_def)
  from cp_fill_spec [OF this] have u: "cp_upto ?vs (length ?vs) (prefix, index)" by (simp add: fill)
  have p: "js_set_length (length ?vs) prefix = map Some (prefix_list ?vs)"
    using u by (simp add: js_set_length_def cp_upto_def)
  have last: "(if ?vs \<noteq> [] then or_else (map Some (prefix_list ?vs) ! (length ?vs - 1)) 0 else 0) = sum_list ?vs"
    by (simp add: prefix_list_def)
  have i: "js_set_length (sum_list ?vs) index = map Some (index_list ?vs)"
    using u by (simp add: js_set_length_def cp_upto_def)
  have eq: "cp_ensureValid c = c\<lparr>cp_prefix := map Some (prefix_list ?vs), cp_indexBySum := map Some (index_list ?vs),
      cp_isValid := True, cp_validEnd := int (length ?vs) - 1\<rparr>"
    using False by (simp only: cp_ensureValid_def fill Let_def prod.case p last i if_False)
  have "cp_upto ?vs (length ?vs) (map Some (prefix_list ?vs), map Some (index_list ?vs))"
    by (simp add: cp_upto_def prefix_list_def length_index_list)
  then have "cp_ok (cp_ensureValid c)" unfolding eq by (simp add: cp_ok_def)
  then show ?thesis by (simp add: eq)
qed

lemma cp_ok_invalidate:
  assumes ok: "cp_ok c" and i: "i \<le> length vs" "take i vs = take i (cp_values c)"
  shows "cp_ok (cp_invalidate (int i) (c\<lparr>cp_values := vs\<rparr>))"
proof -
  let ?v = "min (cp_validEnd c) (int i - 1)"
  have u: "cp_upto (cp_values c) (nat (cp_validEnd c + 1)) (cp_prefix c, cp_indexBySum c)" "-1 \<le> cp_validEnd c"
    using ok by (simp_all add: cp_ok_def)
  have m: "nat (?v + 1) \<le> i" by auto
  have "take (nat (?v + 1)) vs = take (nat (?v + 1)) (take i vs)" using m by (simp add: min_absorb1)
  also have "\<dots> = take (nat (?v + 1)) (cp_values c)" unfolding i(2) using m by (simp add: min_absorb1)
  finally have "cp_upto vs (nat (?v + 1)) (cp_prefix c, cp_indexBySum c)"
    by (intro cp_upto_less [OF u(1)]) (use m i(1) in auto)
  with u(2) show ?thesis by (simp add: cp_ok_def cp_invalidate_def)
qed

lemma cp_ops_ok:
  "cp_ok c \<Longrightarrow> i \<le> length (cp_values c) \<Longrightarrow> cp_ok (cp_insertValues i ins c)"
  "cp_ok c \<Longrightarrow> i \<le> length (cp_values c) \<Longrightarrow> cp_ok (cp_removeValues i n c)"
  "cp_ok c \<Longrightarrow> i < length (cp_values c) \<Longrightarrow> cp_ok (cp_setValue i v c)"
  unfolding cp_insertValues_def cp_removeValues_def cp_setValue_def
  by (auto intro!: cp_ok_invalidate simp: take_update_cancel)

lemma cp_ops_values:
  "cp_values (cp_insertValues i ins c) = take i (cp_values c) @ ins @ drop i (cp_values c)"
  "cp_values (cp_removeValues i n c) = take i (cp_values c) @ drop (i + n) (cp_values c)"
  "cp_values (cp_setValue i v c) = (cp_values c)[i := v]"
  by (auto simp: cp_insertValues_def cp_removeValues_def cp_setValue_def cp_invalidate_def)

lemma cp_getIndexOf_spec:
  assumes ok: "cp_ok c" and s: "s < sum_list (cp_values c)"
  shows "\<exists>k < length (cp_values c). ir_index (fst (cp_getIndexOf s c)) = int k
    \<and> sum_list (take k (cp_values c)) \<le> s \<and> s < sum_list (take (Suc k) (cp_values c))
    \<and> ir_remainder (fst (cp_getIndexOf s c)) = int s - int (sum_list (take k (cp_values c)))"
proof -
  let ?vs = "cp_values c"
  note e = cp_ensureValid_spec [OF ok]
  from index_list_nth [of s "length ?vs" ?vs] s obtain k where k: "k < length ?vs" "index_list ?vs ! s = k"
    "sum_list (take k ?vs) \<le> s" "s < sum_list (take (Suc k) ?vs)" by auto
  have idx: "s < length (cp_indexBySum (cp_ensureValid c))" "cp_indexBySum (cp_ensureValid c) ! s = Some k"
    using e s k(2) by (simp_all add: length_index_list)
  have above: "(if k > 0 then or_else (cp_prefix (cp_ensureValid c) ! (k - 1)) 0 else 0) = sum_list (take k ?vs)"
    using e k(1) by (simp add: prefix_list_def)
  have "fst (cp_getIndexOf s c) = \<lparr>ir_index = int k, ir_remainder = int s - int (sum_list (take k ?vs))\<rparr>"
    using idx above by (simp add: cp_getIndexOf_def Let_def)
  with k show ?thesis by auto
qed

section \<open>Sequences of edits\<close>

text \<open>
  The edits and queries a view applies to a computer, with the values they leave. Indices and
  values are below \<open>2 ^ 31\<close>, where \<open>toUint32\<close> is the identity, and an edit is inside the list.
\<close>

datatype sum_op = Sum_insert nat "nat list" | Sum_remove nat nat | Sum_set nat nat | Sum_query nat

fun sum_op_ok :: "sum_op \<Rightarrow> nat list \<Rightarrow> bool" where
  "sum_op_ok (Sum_insert i ins) vs \<longleftrightarrow> i \<le> length vs \<and> i < 2 ^ 31 \<and> (\<forall>v \<in> set ins. v < 2 ^ 31)"
| "sum_op_ok (Sum_remove i n) vs \<longleftrightarrow> i \<le> length vs \<and> i < 2 ^ 31 \<and> n < 2 ^ 31"
| "sum_op_ok (Sum_set i v) vs \<longleftrightarrow> i < length vs \<and> i < 2 ^ 31 \<and> v < 2 ^ 31"
| "sum_op_ok (Sum_query s) vs \<longleftrightarrow> s < sum_list vs \<and> sum_list vs < 2 ^ 32"

fun values_step :: "sum_op \<Rightarrow> nat list \<Rightarrow> nat list" where
  "values_step (Sum_insert i ins) vs = take i vs @ ins @ drop i vs"
| "values_step (Sum_remove i n) vs = take i vs @ drop (i + n) vs"
| "values_step (Sum_set i v) vs = vs[i := v]"
| "values_step (Sum_query s) vs = vs"

fun ps_step :: "sum_op \<Rightarrow> prefix_sums \<Rightarrow> prefix_sums" where
  "ps_step (Sum_insert i ins) c = snd (ps_insertValues (int i) (map word_of_nat ins) c)"
| "ps_step (Sum_remove i n) c = snd (ps_removeValues (int i) (int n) c)"
| "ps_step (Sum_set i v) c = snd (ps_setValue (int i) (int v) c)"
| "ps_step (Sum_query s) c = snd (ps_getIndexOf (int s) c)"

fun cp_step :: "sum_op \<Rightarrow> const_sums \<Rightarrow> const_sums" where
  "cp_step (Sum_insert i ins) c = cp_insertValues i ins c"
| "cp_step (Sum_remove i n) c = cp_removeValues i n c"
| "cp_step (Sum_set i v) c = cp_setValue i v c"
| "cp_step (Sum_query s) c = snd (cp_getIndexOf s c)"

fun sum_run_ok :: "sum_op list \<Rightarrow> nat list \<Rightarrow> bool" where
  "sum_run_ok [] vs \<longleftrightarrow> True"
| "sum_run_ok (p # ps) vs \<longleftrightarrow> sum_op_ok p vs \<and> sum_run_ok ps (values_step p vs)"

definition sums_sim :: "prefix_sums \<Rightarrow> const_sums \<Rightarrow> nat list \<Rightarrow> bool" where
  "sums_sim c d vs \<longleftrightarrow> ps_ok c \<and> cp_ok d \<and> ps_values c = map word_of_nat vs \<and> cp_values d = vs
     \<and> (\<forall>v \<in> set vs. v < 2 ^ 32)"

lemma psum_word_of_nat:
  assumes "\<forall>v \<in> set vs. v < 2 ^ 32"
  shows "psum (map word_of_nat vs) k = int (sum_list (take k vs))"
proof -
  have "map (\<lambda>v. unat (word_of_nat v :: 32 word)) (take k vs) = take k vs"
    by (rule map_idI) (use assms in \<open>auto simp: unat_of_nat dest!: in_set_takeD\<close>)
  then show ?thesis unfolding psum_def by (simp add: take_map comp_def)
qed

lemma cp_getIndexOf_state: "snd (cp_getIndexOf s c) = cp_ensureValid c"
  by (simp add: cp_getIndexOf_def Let_def split: option.split)

lemma sums_sim_step:
  assumes sim: "sums_sim c d vs" and ok: "sum_op_ok p vs"
  shows "sums_sim (ps_step p c) (cp_step p d) (values_step p vs)"
proof -
  have s: "ps_ok c" "cp_ok d" "ps_values c = map word_of_nat vs" "cp_values d = vs" "\<forall>v \<in> set vs. v < 2 ^ 32"
    using sim by (simp_all add: sums_sim_def)
  show ?thesis
  proof (cases p)
    case (Sum_insert i ins)
    have "int i < 2 ^ 31" using ok Sum_insert by simp
    with Sum_insert ok s ps_ok_insert [OF s(1), of "int i" "map word_of_nat ins"] show ?thesis
      by (auto simp: sums_sim_def cp_ops_ok cp_ops_values take_map drop_map dest!: in_set_takeD in_set_dropD)
  next
    case (Sum_remove i n)
    have "int i < 2 ^ 31" "int n < 2 ^ 31" using ok Sum_remove by simp_all
    with Sum_remove ok s ps_ok_remove [OF s(1), of "int i" "int n"] show ?thesis
      by (auto simp: sums_sim_def cp_ops_ok cp_ops_values take_map drop_map dest!: in_set_takeD in_set_dropD)
  next
    case (Sum_set i v)
    have "int i < 2 ^ 31" "int v < 2 ^ 31" using ok Sum_set by simp_all
    with Sum_set ok s ps_ok_setValue [OF s(1), of "int i" "int v"] show ?thesis
      by (auto simp: sums_sim_def cp_ops_ok cp_ops_values map_update dest!: set_update_subset_insert [THEN subsetD])
  next
    case (Sum_query q)
    have "psum (ps_values c) (length (ps_values c)) = int (sum_list vs)"
      unfolding s(3) by (simp add: psum_word_of_nat [OF s(5)])
    with Sum_query ok s ps_getIndexOf_spec [OF s(1), of "int q"] cp_ensureValid_spec [OF s(2)] show ?thesis
      by (simp add: sums_sim_def cp_getIndexOf_state)
  qed
qed

lemma sums_sim_run:
  "sums_sim c d vs \<Longrightarrow> sum_run_ok ps vs \<Longrightarrow> sums_sim (fold ps_step ps c) (fold cp_step ps d) (fold values_step ps vs)"
  by (induction ps arbitrary: c d vs) (simp_all add: sums_sim_step)

lemma sums_sim_new:
  "\<forall>v \<in> set vs. v < 2 ^ 32 \<Longrightarrow> sums_sim (new_PrefixSumComputer (map word_of_nat vs)) (new_ConstantTime vs) vs"
  by (simp add: sums_sim_def ps_ok_new cp_ok_new) (simp add: new_PrefixSumComputer_def new_ConstantTime_def)

section \<open>Properties\<close>

text \<open>
  After any sequence of insertions, removals, value changes and queries, a prefix-sum
  query returns the sum (modulo 2 ^ 32) of the values that are then in the list, at every
  index and past the end, although the cache was built for earlier values.
\<close>

lemma prefix_sums_current:
  assumes "\<forall>v \<in> set vs. v < 2 ^ 32" and "sum_run_ok ps vs"
    and "fold values_step ps vs \<noteq> []" and "i < 2 ^ 31"
  shows "fst (ps_getPrefixSum (int i) (fold ps_step ps (new_PrefixSumComputer (map word_of_nat vs))))
    = Some (word_of_nat (sum_list (take (Suc i) (fold values_step ps vs))))"
proof -
  let ?c = "fold ps_step ps (new_PrefixSumComputer (map word_of_nat vs))"
  have sim: "sums_sim ?c (fold cp_step ps (new_ConstantTime vs)) (fold values_step ps vs)"
    by (rule sums_sim_run [OF sums_sim_new [OF assms(1)] assms(2)])
  have hom: "(word_of_nat (sum_list ws) :: 32 word) = sum_list (map word_of_nat ws)" for ws
    by (induction ws) simp_all
  have idx: "nat (int i + 1) = Suc i" by simp
  have "int i < 2 ^ 31" using assms(4) by simp
  with sim assms(3) ps_prefix_spec [of ?c "int i"] show ?thesis
    by (simp add: sums_sim_def ps_getPrefixSum_def idx hom take_map)
qed

text \<open>
  The two computers agree with the lines: after any such sequence, both return for an
  offset below the total the one index whose interval of prefix sums contains the offset, and
  the distance of the offset from the start of that interval.
\<close>

theorem index_of_offset_agrees:
  assumes "\<forall>v \<in> set vs. v < 2 ^ 32" and "sum_run_ok ps vs"
    and "s < sum_list (fold values_step ps vs)" and "sum_list (fold values_step ps vs) < 2 ^ 32"
  shows "let r = fst (ps_getIndexOf (int s) (fold ps_step ps (new_PrefixSumComputer (map word_of_nat vs))));
             r' = fst (cp_getIndexOf s (fold cp_step ps (new_ConstantTime vs)));
             ws = fold values_step ps vs
    in r = r' \<and> (\<exists>k < length ws. ir_index r = int k
         \<and> sum_list (take k ws) \<le> s \<and> s < sum_list (take (Suc k) ws)
         \<and> ir_remainder r = int s - int (sum_list (take k ws)))"
proof -
  let ?c = "fold ps_step ps (new_PrefixSumComputer (map word_of_nat vs))"
  let ?d = "fold cp_step ps (new_ConstantTime vs)" and ?ws = "fold values_step ps vs"
  have sim: "ps_ok ?c" "cp_ok ?d" "ps_values ?c = map word_of_nat ?ws" "cp_values ?d = ?ws" "\<forall>v \<in> set ?ws. v < 2 ^ 32"
    using sums_sim_run [OF sums_sim_new [OF assms(1)] assms(2)] by (simp_all add: sums_sim_def)
  have p: "psum (ps_values ?c) k = int (sum_list (take k ?ws))" for k
    unfolding sim(3) by (rule psum_word_of_nat [OF sim(5)])
  have len: "length (ps_values ?c) = length ?ws" by (simp add: sim(3))
  have "int (sum_list ?ws) < 2 ^ 32" using assms(4) by simp
  then obtain k where k: "k < length ?ws" "ir_index (fst (ps_getIndexOf (int s) ?c)) = int k"
    "sum_list (take k ?ws) \<le> s" "s < sum_list (take (Suc k) ?ws)"
    "ir_remainder (fst (ps_getIndexOf (int s) ?c)) = int s - int (sum_list (take k ?ws))"
    using ps_getIndexOf_spec [OF sim(1), of "int s"] assms(3) by (auto simp: p len)
  from cp_getIndexOf_spec [OF sim(2), of s] assms(3) obtain k' where k': "k' < length ?ws"
    "ir_index (fst (cp_getIndexOf s ?d)) = int k'" "sum_list (take k' ?ws) \<le> s" "s < sum_list (take (Suc k') ?ws)"
    "ir_remainder (fst (cp_getIndexOf s ?d)) = int s - int (sum_list (take k' ?ws))"
    by (auto simp: sim(4))
  have mono: "sum_list (take a ?ws) \<le> sum_list (take b ?ws)" if "a \<le> b" for a b
    using that by (metis le_add1 le_add_diff_inverse sum_list_append take_add)
  have "k = k'"
    using mono [of "Suc k" k'] mono [of "Suc k'" k] k(3,4) k'(3,4) by (cases k k' rule: linorder_cases) auto
  with k k' show ?thesis by (auto simp: Let_def intro!: index_of_result.equality)
qed

theorem index_of_offset_agrees_witness:
  "let r = fst (ps_getIndexOf (int 4) (fold ps_step [Sum_query 4, Sum_set 0 2] (new_PrefixSumComputer (map word_of_nat [3, 4]))))
   in \<exists>k < 2. ir_index r = int k \<and> sum_list (take k [2, 4]) \<le> (4 :: nat)"
  using index_of_offset_agrees [of "[3, 4]" "[Sum_query 4, Sum_set 0 2]" 4] by (auto simp: Let_def)

text \<open>\<open>toUint32\<close> is not the identity on the upper half of its range: \<open>v | 0\<close> is signed.\<close>

lemma toUint32_negative: "toUint32 2147483648 = -2147483648"
  by (simp add: toUint32_def js_int32_def)

end
