(* ===== verification/Base_Edit.thy ===== *)
theory Base_Edit
  imports Offset_Range
begin

text \<open>
  \<open>src/vs/editor/common/core/edits/edit.ts\<close>: edits as sorted lists of disjoint replacements.
  \<open>BaseReplacement\<close> is an abstract class; its methods are the record \<open>replacement_class\<close>, which
  every operation of \<open>BaseEdit\<close> takes as its first argument. The locale \<open>replacement_text\<close>
  states what the methods of a class of text replacements guarantee, and proves the laws of
  edits from that; \<open>String_Edit\<close> interprets it for the classes of \<open>stringEdit.ts\<close>. An edit is
  its list of replacements; a construction that throws is \<open>None\<close>.
\<close>

section \<open>Replacements\<close>

record 'r replacement_class =
  rc_range :: "'r \<Rightarrow> offset_range"
  rc_newLength :: "'r \<Rightarrow> int"
  rc_tryJoin :: "'r \<Rightarrow> 'r \<Rightarrow> 'r option"
  rc_slice :: "offset_range \<Rightarrow> offset_range option \<Rightarrow> 'r \<Rightarrow> 'r"
  rc_equals :: "'r \<Rightarrow> 'r \<Rightarrow> bool"

definition rstart :: "'r replacement_class \<Rightarrow> 'r \<Rightarrow> int" where
  "rstart c r = o_start (rc_range c r)"

definition rend :: "'r replacement_class \<Rightarrow> 'r \<Rightarrow> int" where
  "rend c r = o_end (rc_range c r)"

definition rc_delta :: "'r replacement_class \<Rightarrow> int \<Rightarrow> 'r \<Rightarrow> 'r option" where
  "rc_delta c n r =
     map_option (\<lambda>g. rc_slice c (o_delta n (rc_range c r)) (Some g) r) (new_OffsetRange 0 (rc_newLength c r))"

definition rc_getLengthDelta :: "'r replacement_class \<Rightarrow> 'r \<Rightarrow> int" where
  "rc_getLengthDelta c r = rc_newLength c r - o_length (rc_range c r)"

definition rc_isEmpty :: "'r replacement_class \<Rightarrow> 'r \<Rightarrow> bool" where
  "rc_isEmpty c r \<longleftrightarrow> rc_newLength c r = 0 \<and> o_length (rc_range c r) = 0"

definition rc_getRangeAfterReplace :: "'r replacement_class \<Rightarrow> 'r \<Rightarrow> offset_range option" where
  "rc_getRangeAfterReplace c r = new_OffsetRange (rstart c r) (rstart c r + rc_newLength c r)"

definition rc_toString :: "'r replacement_class \<Rightarrow> 'r \<Rightarrow> string" where
  "rc_toString c r = ''{ '' @ o_toString (rc_range c r) @ '' -> '' @ show_int (rc_newLength c r) @ '' }''"

section \<open>Edits\<close>

fun be_sorted :: "'r replacement_class \<Rightarrow> int \<Rightarrow> 'r list \<Rightarrow> bool" where
  "be_sorted c lastEndEx [] \<longleftrightarrow> True"
| "be_sorted c lastEndEx (r # rs) \<longleftrightarrow> rstart c r \<ge> lastEndEx \<and> be_sorted c (rend c r) rs"

definition new_Edit :: "'r replacement_class \<Rightarrow> 'r list \<Rightarrow> 'r list option" where
  "new_Edit c rs = (if be_sorted c (-1) rs then Some rs else None)"

definition be_equals :: "'r replacement_class \<Rightarrow> 'r list \<Rightarrow> 'r list \<Rightarrow> bool" where
  "be_equals c a b \<longleftrightarrow> length a = length b \<and> list_all2 (rc_equals c) a b"

definition be_toString :: "'r replacement_class \<Rightarrow> 'r list \<Rightarrow> string" where
  "be_toString c e = ''['' @ join_with '', '' (map (rc_toString c) e) @ '']''"

fun be_normalize_loop :: "'r replacement_class \<Rightarrow> 'r option \<Rightarrow> 'r list \<Rightarrow> 'r list \<Rightarrow> 'r list" where
  "be_normalize_loop c lst acc [] = (case lst of None \<Rightarrow> acc | Some l \<Rightarrow> acc @ [l])"
| "be_normalize_loop c lst acc (r # rs) =
     (if rc_newLength c r = 0 \<and> o_length (rc_range c r) = 0 then be_normalize_loop c lst acc rs
      else
        (case lst of
           None \<Rightarrow> be_normalize_loop c (Some r) acc rs
         | Some l \<Rightarrow>
             (case (if rend c l = rstart c r then rc_tryJoin c l r else None) of
                Some j \<Rightarrow> be_normalize_loop c (Some j) acc rs
              | None \<Rightarrow> be_normalize_loop c (Some r) (acc @ [l]) rs)))"

definition be_normalize :: "'r replacement_class \<Rightarrow> 'r list \<Rightarrow> 'r list option" where
  "be_normalize c e = new_Edit c (be_normalize_loop c None [] e)"

definition be_isEmpty :: "'r list \<Rightarrow> bool" where
  "be_isEmpty e \<longleftrightarrow> length e = 0"

text \<open>\<open>compose\<close>: copy what ends before the next replacement of the second edit ...\<close>

fun be_copy_before :: "'r replacement_class \<Rightarrow> int \<Rightarrow> 'r list \<Rightarrow> 'r list \<Rightarrow> int \<Rightarrow> 'r list \<times> 'r list \<times> int" where
  "be_copy_before c start2 [] res d = ([], res, d)"
| "be_copy_before c start2 (r1 # q) res d =
     (if rstart c r1 + d + rc_newLength c r1 \<ge> start2 then (r1 # q, res, d)
      else be_copy_before c start2 q (res @ [r1]) (d + (rc_newLength c r1 - o_length (rc_range c r1))))"

text \<open>... collect what it touches ...\<close>

fun be_take_touching ::
  "'r replacement_class \<Rightarrow> int \<Rightarrow> 'r list \<Rightarrow> ('r \<times> 'r) option \<Rightarrow> int \<Rightarrow> 'r list \<times> ('r \<times> 'r) option \<times> int" where
  "be_take_touching c end2 [] fl d = ([], fl, d)"
| "be_take_touching c end2 (r1 # q) fl d =
     (if rstart c r1 + d > end2 then (r1 # q, fl, d)
      else be_take_touching c end2 q
             (Some (case fl of None \<Rightarrow> (r1, r1) | Some (f, l) \<Rightarrow> (f, r1)))
             (d + (rc_newLength c r1 - o_length (rc_range c r1))))"

text \<open>... and split the first and the last of those.\<close>

definition be_compose_step ::
  "'r replacement_class \<Rightarrow> 'r \<Rightarrow> 'r list \<times> 'r list \<times> int \<Rightarrow> ('r list \<times> 'r list \<times> int) option" where
  "be_compose_step c r2 st0 =
     (case st0 of (q0, res0, d0) \<Rightarrow>
      (case be_copy_before c (rstart c r2) q0 res0 d0 of (q1, res1, firstD) \<Rightarrow>
       (case be_take_touching c (rend c r2) q1 None firstD of
          (q2, None, d) \<Rightarrow> map_option (\<lambda>r. (q2, res1 @ [r], d)) (rc_delta c (- d) r2)
        | (q2, Some (f, l), d) \<Rightarrow>
            (let newStart = min (rstart c f) (rstart c r2 - firstD);
                 prefixLength = rstart c r2 - (rstart c f + firstD);
                 res2 = (if prefixLength > 0
                         then res1 @ [rc_slice c (o_emptyAt newStart) (Some \<lparr>o_start = 0, o_end = prefixLength\<rparr>) f]
                         else res1);
                 suffixLength = rend c l + d - rend c r2;
                 (q3, d') =
                   (if suffixLength > 0
                    then (let e = rc_slice c (o_emptyAt (rend c l))
                                    (Some \<lparr>o_start = rc_newLength c l - suffixLength, o_end = rc_newLength c l\<rparr>) l
                          in (e # q2, d - (rc_newLength c e - o_length (rc_range c e))))
                    else (q2, d))
             in Option.bind (new_OffsetRange newStart (rend c r2 - d')) (\<lambda>g.
                map_option (\<lambda>g2. (q3, res2 @ [rc_slice c g (Some g2) r2], d'))
                  (new_OffsetRange 0 (rc_newLength c r2)))))))"

fun be_compose_loop ::
  "'r replacement_class \<Rightarrow> 'r list \<Rightarrow> 'r list \<times> 'r list \<times> int \<Rightarrow> 'r list option" where
  "be_compose_loop c [] st = (case st of (q, res, d) \<Rightarrow> Some (res @ q))"
| "be_compose_loop c (r2 # rs) st = Option.bind (be_compose_step c r2 st) (be_compose_loop c rs)"

definition be_compose :: "'r replacement_class \<Rightarrow> 'r list \<Rightarrow> 'r list \<Rightarrow> 'r list option" where
  "be_compose c e1 e2 =
     Option.bind (be_normalize c e1) (\<lambda>n1.
     Option.bind (be_normalize c e2) (\<lambda>n2.
       if be_isEmpty n1 then Some n2
       else if be_isEmpty n2 then Some n1
       else Option.bind (be_compose_loop c n2 (n1, [], 0)) (\<lambda>res.
            Option.bind (new_Edit c res) (be_normalize c))))"

fun be_decomposeSplit_loop ::
  "'r replacement_class \<Rightarrow> ('r \<Rightarrow> bool) \<Rightarrow> 'r list \<Rightarrow> 'r list \<Rightarrow> 'r list \<Rightarrow> int \<Rightarrow> 'r list \<times> 'r list" where
  "be_decomposeSplit_loop c P [] e1 e2 d = (e1, e2)"
| "be_decomposeSplit_loop c P (r # rs) e1 e2 d =
     (if P r then be_decomposeSplit_loop c P rs (e1 @ [r]) e2 (d + (rc_newLength c r - o_length (rc_range c r)))
      else be_decomposeSplit_loop c P rs e1
             (e2 @ [rc_slice c (o_delta d (rc_range c r)) (Some \<lparr>o_start = 0, o_end = rc_newLength c r\<rparr>) r]) d)"

definition be_decomposeSplit :: "'r replacement_class \<Rightarrow> ('r \<Rightarrow> bool) \<Rightarrow> 'r list \<Rightarrow> ('r list \<times> 'r list) option" where
  "be_decomposeSplit c P e =
     (case be_decomposeSplit_loop c P e [] [] 0 of (e1, e2) \<Rightarrow>
        Option.bind (new_Edit c e1) (\<lambda>a. map_option (Pair a) (new_Edit c e2)))"

fun be_getNewRanges_loop :: "'r replacement_class \<Rightarrow> int \<Rightarrow> 'r list \<Rightarrow> offset_range list option" where
  "be_getNewRanges_loop c offset [] = Some []"
| "be_getNewRanges_loop c offset (r # rs) =
     Option.bind (o_ofStartAndLength (rstart c r + offset) (rc_newLength c r)) (\<lambda>g.
       map_option (Cons g) (be_getNewRanges_loop c (offset + rc_getLengthDelta c r) rs))"

definition be_getNewRanges :: "'r replacement_class \<Rightarrow> 'r list \<Rightarrow> offset_range list option" where
  "be_getNewRanges c e = be_getNewRanges_loop c 0 e"

definition be_getJoinedReplaceRange :: "'r replacement_class \<Rightarrow> 'r list \<Rightarrow> offset_range option" where
  "be_getJoinedReplaceRange c e =
     (if e = [] then None else Some (o_join (rc_range c (hd e)) (rc_range c (last e))))"

definition be_getLengthDelta :: "'r replacement_class \<Rightarrow> 'r list \<Rightarrow> int" where
  "be_getLengthDelta c e = (\<Sum>r \<leftarrow> e. rc_getLengthDelta c r)"

definition be_getNewDataLength :: "'r replacement_class \<Rightarrow> 'r list \<Rightarrow> int \<Rightarrow> int" where
  "be_getNewDataLength c e n = n + be_getLengthDelta c e"

fun be_applyToOffset_loop :: "'r replacement_class \<Rightarrow> int \<Rightarrow> int \<Rightarrow> 'r list \<Rightarrow> int" where
  "be_applyToOffset_loop c x d [] = x + d"
| "be_applyToOffset_loop c x d (r # rs) =
     (if rstart c r \<le> x then
        if x < rend c r then rstart c r + d
        else be_applyToOffset_loop c x (d + (rc_newLength c r - o_length (rc_range c r))) rs
      else x + d)"

definition be_applyToOffset :: "'r replacement_class \<Rightarrow> 'r list \<Rightarrow> int \<Rightarrow> int" where
  "be_applyToOffset c e x = be_applyToOffset_loop c x 0 e"

definition be_applyToOffsetRange :: "'r replacement_class \<Rightarrow> 'r list \<Rightarrow> offset_range \<Rightarrow> offset_range option" where
  "be_applyToOffsetRange c e g = new_OffsetRange (be_applyToOffset c e (o_start g)) (be_applyToOffset c e (o_end g))"

fun be_applyInverse_loop :: "'r replacement_class \<Rightarrow> int \<Rightarrow> int \<Rightarrow> 'r list \<Rightarrow> int" where
  "be_applyInverse_loop c y d [] = y - d"
| "be_applyInverse_loop c y d (r # rs) =
     (if rstart c r \<le> y - d then
        if y - d < rstart c r + rc_newLength c r then rstart c r
        else be_applyInverse_loop c y (d + (rc_newLength c r - o_length (rc_range c r))) rs
      else y - d)"

definition be_applyInverseToOffset :: "'r replacement_class \<Rightarrow> 'r list \<Rightarrow> int \<Rightarrow> int" where
  "be_applyInverseToOffset c e y = be_applyInverse_loop c y 0 e"

fun be_applyOrUndefined_loop :: "'r replacement_class \<Rightarrow> int \<Rightarrow> int \<Rightarrow> 'r list \<Rightarrow> int option" where
  "be_applyOrUndefined_loop c x d [] = Some (x + d)"
| "be_applyOrUndefined_loop c x d (r # rs) =
     (if rstart c r \<le> x then
        if x < rend c r then None
        else be_applyOrUndefined_loop c x (d + (rc_newLength c r - o_length (rc_range c r))) rs
      else Some (x + d))"

definition be_applyToOffsetOrUndefined :: "'r replacement_class \<Rightarrow> 'r list \<Rightarrow> int \<Rightarrow> int option" where
  "be_applyToOffsetOrUndefined c e x = be_applyOrUndefined_loop c x 0 e"

definition be_applyToOffsetRangeOrUndefined ::
  "'r replacement_class \<Rightarrow> 'r list \<Rightarrow> offset_range \<Rightarrow> offset_range option" where
  "be_applyToOffsetRangeOrUndefined c e g =
     Option.bind (be_applyToOffsetOrUndefined c e (o_start g)) (\<lambda>s.
     Option.bind (be_applyToOffsetOrUndefined c e (o_end g)) (\<lambda>t. new_OffsetRange s t))"

section \<open>Pieces of a text\<close>

definition cut :: "int \<Rightarrow> int \<Rightarrow> 'c list \<Rightarrow> 'c list" where
  "cut a b s = take (nat (b - a)) (drop (nat a) s)"

lemma cut_empty [simp]: "cut a a s = []"
  by (simp add: cut_def)

lemma cut_length: "0 \<le> a \<Longrightarrow> a \<le> b \<Longrightarrow> b \<le> int (length s) \<Longrightarrow> length (cut a b s) = nat (b - a)"
  by (auto simp: cut_def)

lemma drop_nat_shift: "0 \<le> a \<Longrightarrow> a \<le> b \<Longrightarrow> drop (nat (b - a)) (drop (nat a) s) = drop (nat b) s"
proof -
  assume "0 \<le> a" "a \<le> b"
  then have "nat (b - a) + nat a = nat b" by simp
  then show ?thesis by simp
qed

lemma cut_join:
  assumes "0 \<le> a" "a \<le> b" "b \<le> e"
  shows "cut a b s @ cut b e s = cut a e s"
proof -
  have "nat (e - a) = nat (b - a) + nat (e - b)" using assms by simp
  then show ?thesis
    using drop_nat_shift [OF assms(1,2), of s] by (simp add: cut_def take_add del: drop_drop)
qed

lemma cut_join_more: "0 \<le> a \<Longrightarrow> a \<le> b \<Longrightarrow> b \<le> e \<Longrightarrow> cut a b s @ cut b e s @ t = cut a e s @ t"
  by (simp add: cut_join flip: append_assoc)

lemma cut_drop: "0 \<le> a \<Longrightarrow> a \<le> b \<Longrightarrow> cut a b s @ drop (nat b) s = drop (nat a) s"
  using append_take_drop_id [of "nat (b - a)" "drop (nat a) s"] drop_nat_shift [of a b s]
  by (simp add: cut_def del: drop_drop)

lemma cut_prefix: "0 \<le> b \<Longrightarrow> cut 0 b s = take (nat b) s"
  by (simp add: cut_def)

lemma cut_suffix: "b = int (length s) \<Longrightarrow> 0 \<le> a \<Longrightarrow> cut a b s = drop (nat a) s"
  by (simp add: cut_def)

lemma cut_whole [simp]: "cut 0 (int (length s)) s = s"
  by (simp add: cut_def)

lemma cut_cut:
  assumes "0 \<le> a" "0 \<le> x" "x \<le> y" "y \<le> b - a"
  shows "cut x y (cut a b s) = cut (a + x) (a + y) s"
proof -
  have "nat (b - a) - nat x \<ge> nat (y - x)" using assms by simp
  moreover have "drop (nat x) (drop (nat a) s) = drop (nat (a + x)) s"
    using assms drop_nat_shift [of a "a + x" s] by simp
  ultimately show ?thesis
    using assms by (simp add: cut_def drop_take min.absorb1 del: drop_drop)
qed

lemma cut_substring: "0 \<le> a \<Longrightarrow> a \<le> b \<Longrightarrow> b \<le> int (length s) \<Longrightarrow> js_substring a b s = cut a b s"
  by (simp add: js_substring_in sub_list_def cut_def nat_diff_distrib)

text \<open>Reading on from a known position.\<close>

lemma cut_in_append:
  assumes "drop (nat p) s = u @ v" and "0 \<le> p" and "q = p + int (length u)"
  shows "cut p q s = u" "drop (nat q) s = v"
proof -
  show "cut p q s = u" using assms by (simp add: cut_def)
  show "drop (nat q) s = v"
    using assms drop_nat_shift [of p q s] by (simp del: drop_drop)
qed

section \<open>What an edit does to a text\<close>

text \<open>
  \<open>stretch\<close> is what an edit makes of the text between \<open>p\<close> and \<open>e\<close>; \<open>fits\<close> says the replacements
  are sorted and lie between the two. The constructor of \<open>BaseEdit\<close> checks the order only, so
  that an edit fits the text is a hypothesis of the laws below.
\<close>

fun stretch :: "'r replacement_class \<Rightarrow> ('r \<Rightarrow> 'c list) \<Rightarrow> int \<Rightarrow> 'r list \<Rightarrow> int \<Rightarrow> 'c list \<Rightarrow> 'c list" where
  "stretch c content p [] e s = cut p e s"
| "stretch c content p (r # rs) e s = cut p (rstart c r) s @ content r @ stretch c content (rend c r) rs e s"

fun fits :: "'r replacement_class \<Rightarrow> int \<Rightarrow> 'r list \<Rightarrow> int \<Rightarrow> bool" where
  "fits c p [] e \<longleftrightarrow> p \<le> e"
| "fits c p (r # rs) e \<longleftrightarrow> p \<le> rstart c r \<and> rstart c r \<le> rend c r \<and> fits c (rend c r) rs e"

lemma fits_le: "fits c p rs e \<Longrightarrow> p \<le> e"
  by (induction rs arbitrary: p) force+

lemma fits_append: "fits c p xs m \<Longrightarrow> fits c m ys e \<Longrightarrow> fits c p (xs @ ys) e"
proof (induction xs arbitrary: p)
  case Nil
  then show ?case by (cases ys) auto
qed auto

lemma fits_sorted: "fits c p rs e \<Longrightarrow> l \<le> p \<Longrightarrow> be_sorted c l rs"
  by (induction rs arbitrary: p l) force+

lemma fits_new_Edit [simp]: "fits c 0 rs e \<Longrightarrow> new_Edit c rs = Some rs"
  using fits_sorted [of c 0 rs e "-1"] by (simp add: new_Edit_def)

lemma stretch_extend:
  assumes "fits c m ys e" "0 \<le> p" "p \<le> m"
  shows "cut p m s @ stretch c content m ys e s = stretch c content p ys e s"
  using assms by (cases ys) (auto simp: cut_join cut_join_more)

lemma stretch_append:
  assumes "fits c p xs m" "fits c m ys e" "0 \<le> p"
  shows "stretch c content p xs m s @ stretch c content m ys e s = stretch c content p (xs @ ys) e s"
  using assms(1,3)
proof (induction xs arbitrary: p)
  case Nil
  then show ?case using assms(2) by (simp add: stretch_extend)
qed auto

lemma fits_skip:
  assumes "fits c p q n" "q = [] \<Longrightarrow> x \<le> n" "q \<noteq> [] \<Longrightarrow> x \<le> rstart c (hd q)"
  shows "fits c x q n"
  using assms by (cases q) auto

definition deltas :: "'r replacement_class \<Rightarrow> 'r list \<Rightarrow> int" where
  "deltas c rs = (\<Sum>r \<leftarrow> rs. rc_newLength c r - (rend c r - rstart c r))"

lemma deltas_simps [simp]:
  "deltas c [] = 0"
  "deltas c (r # rs) = rc_newLength c r - (rend c r - rstart c r) + deltas c rs"
  "deltas c (xs @ ys) = deltas c xs + deltas c ys"
  by (simp_all add: deltas_def)

lemma o_length_range [simp]: "o_length (rc_range c r) = rend c r - rstart c r"
  by (simp add: o_length_def rstart_def rend_def)

lemma be_getLengthDelta_deltas: "be_getLengthDelta c rs = deltas c rs"
  by (simp add: be_getLengthDelta_def rc_getLengthDelta_def deltas_def)

lemma fits_split:
  "xs \<noteq> [] \<Longrightarrow> fits c p (xs @ ys) e \<longleftrightarrow> fits c p xs (rend c (last xs)) \<and> fits c (rend c (last xs)) ys e"
  by (induction xs arbitrary: p) auto

lemma stretch_last:
  "xs \<noteq> [] \<Longrightarrow> stretch c content p xs (rend c (last xs)) s
     = stretch c content p (butlast xs) (rstart c (last xs)) s @ content (last xs)"
  by (induction xs arbitrary: p) auto

lemma take_touching_split:
  assumes "be_take_touching c e q fl d = (q', fl', d')"
  shows "\<exists>ts. q = ts @ q' \<and> d' = d + deltas c ts \<and> (ts = [] \<longrightarrow> fl' = fl)
    \<and> (ts \<noteq> [] \<longrightarrow> fl' = Some (case fl of None \<Rightarrow> hd ts | Some (f, l) \<Rightarrow> f, last ts)
         \<and> rstart c (last ts) + d + deltas c (butlast ts) \<le> e)
    \<and> (q' \<noteq> [] \<longrightarrow> e < rstart c (hd q') + d')"
  using assms
proof (induction q arbitrary: fl d)
  case (Cons r q)
  show ?case
  proof (cases "rstart c r + d > e")
    case True
    then show ?thesis using Cons.prems by (intro exI [of _ "[]"]) auto
  next
    case False
    then obtain ts where
      "q = ts @ q'" "d' = d + deltas c (r # ts)"
      "ts = [] \<longrightarrow> fl' = Some (case fl of None \<Rightarrow> (r, r) | Some (f, l) \<Rightarrow> (f, r))"
      "ts \<noteq> [] \<longrightarrow> fl' = Some (case fl of None \<Rightarrow> r | Some (f, l) \<Rightarrow> f, last ts)
         \<and> rstart c (last ts) + d + deltas c (r # butlast ts) \<le> e"
      "q' \<noteq> [] \<longrightarrow> e < rstart c (hd q') + d'"
      using Cons.IH [OF Cons.prems [simplified False be_take_touching.simps, simplified]]
      by (auto split: option.splits)
    with False show ?thesis by (intro exI [of _ "r # ts"]) (auto split: option.splits)
  qed
qed auto

section \<open>The contract of a class of replacements\<close>

locale replacement_text =
  fixes c :: "'r replacement_class"
    and content :: "'r \<Rightarrow> 'c list"
  assumes newLength: "rc_newLength c r = int (length (content r))"
    and slice_range: "rc_range c (rc_slice c g h r) = g"
    and slice_text: "0 \<le> a \<Longrightarrow> a \<le> b \<Longrightarrow> b \<le> rc_newLength c r \<Longrightarrow>
      content (rc_slice c g (Some \<lparr>o_start = a, o_end = b\<rparr>) r) = cut a b (content r)"
    and join_range: "rend c l = rstart c r \<Longrightarrow> rc_tryJoin c l r = Some j \<Longrightarrow>
      rc_range c j = \<lparr>o_start = rstart c l, o_end = rend c r\<rparr>"
    and join_text: "rend c l = rstart c r \<Longrightarrow> rc_tryJoin c l r = Some j \<Longrightarrow> content j = content l @ content r"
begin

lemma slice_start [simp]: "rstart c (rc_slice c g h r) = o_start g"
  by (simp add: rstart_def slice_range)

lemma slice_end [simp]: "rend c (rc_slice c g h r) = o_end g"
  by (simp add: rend_def slice_range)

lemma slice_all [simp]:
  "content (rc_slice c g (Some \<lparr>o_start = 0, o_end = rc_newLength c r\<rparr>) r) = content r"
  by (simp add: slice_text newLength)

lemma stretch_length:
  assumes "fits c p rs e" "0 \<le> p" "e \<le> int (length s)"
  shows "int (length (stretch c content p rs e s)) = e - p + deltas c rs"
  using assms
proof (induction rs arbitrary: p)
  case (Cons r rs)
  then show ?case
    using fits_le [of c "rend c r" rs e] by (simp add: cut_length newLength)
qed (simp add: cut_length)

subsection \<open>Normalization\<close>

lemma normalize_loop_acc: "be_normalize_loop c l acc rs = acc @ be_normalize_loop c l [] rs"
proof (induction rs arbitrary: l acc)
  case (Cons r rs)
  note IH = Cons.IH
  show ?case
    by (simp add: IH [of _ "acc @ _"] IH [of _ "[_]"] IH [of _ acc] split: option.split)
qed (auto split: option.split)

definition opt_list :: "'a option \<Rightarrow> 'a list" where
  "opt_list x = (case x of None \<Rightarrow> [] | Some y \<Rightarrow> [y])"

lemma normalize_loop_effect:
  assumes "fits c p (opt_list l @ rs) e" "0 \<le> p"
  shows "fits c p (be_normalize_loop c l [] rs) e \<and>
    stretch c content p (be_normalize_loop c l [] rs) e s = stretch c content p (opt_list l @ rs) e s"
  using assms
proof (induction rs arbitrary: p l)
  case Nil
  then show ?case by (auto simp: opt_list_def split: option.splits)
next
  case (Cons r rs)
  show ?case
  proof (cases "rc_newLength c r = 0 \<and> o_length (rc_range c r) = 0")
    case True
    then have e: "content r = []" "rend c r = rstart c r" by (auto simp: newLength)
    have "fits c p (opt_list l @ rs) e"
      using Cons.prems e by (cases rs) (auto simp: opt_list_def split: option.splits)
    moreover have "stretch c content p (opt_list l @ r # rs) e s = stretch c content p (opt_list l @ rs) e s"
      using Cons.prems e stretch_extend [of c "rstart c r" rs e]
      by (auto simp: opt_list_def split: option.splits)
    ultimately show ?thesis using Cons.IH [of p l] Cons.prems(2) True by simp
  next
    case new: False
    show ?thesis
    proof (cases l)
      case None
      then show ?thesis using new Cons.IH [of p "Some r"] Cons.prems by (auto simp: opt_list_def)
    next
      case (Some k)
      show ?thesis
      proof (cases "if rend c k = rstart c r then rc_tryJoin c k r else None")
        case None
        then have eq: "be_normalize_loop c l [] (r # rs) = k # be_normalize_loop c (Some r) [] rs"
          using new Some normalize_loop_acc [of _ "[k]"] by auto
        show ?thesis
          using Cons.IH [of "rend c k" "Some r"] Cons.prems Some unfolding eq by (auto simp: opt_list_def)
      next
        case (Some j)
        then have t: "rend c k = rstart c r" "rc_tryJoin c k r = Some j" by (auto split: if_splits)
        then have j: "rstart c j = rstart c k" "rend c j = rend c r" "content j = content k @ content r"
          using join_range [OF t] join_text [OF t] by (simp_all add: rstart_def rend_def)
        show ?thesis
          using Cons.IH [of p "Some j"] Cons.prems \<open>l = Some k\<close> new t j by (auto simp: opt_list_def)
      qed
    qed
  qed
qed

lemma normalize_fits: "fits c 0 rs e \<Longrightarrow> \<exists>n. be_normalize c rs = Some n \<and> fits c 0 n e"
  using normalize_loop_effect [of 0 None rs e] fits_new_Edit [of c "be_normalize_loop c None [] rs" e]
  by (simp add: be_normalize_def opt_list_def)

lemma normalize_effect:
  "fits c 0 rs e \<Longrightarrow> be_normalize c rs = Some n \<Longrightarrow> stretch c content 0 n e s = stretch c content 0 rs e s"
  using normalize_loop_effect [of 0 None rs e s] fits_new_Edit [of c "be_normalize_loop c None [] rs" e]
  by (simp add: be_normalize_def opt_list_def)

subsection \<open>Composition\<close>

text \<open>
  The loop of \<open>compose\<close> moves a cursor through the text between the edits: at \<open>y\<close> there, and at
  \<open>y - d\<close> in the original. \<open>composing\<close> says that \<open>out\<close> is what both edits make of the text
  before the cursor, that \<open>res\<close> makes the same of the original, and that \<open>q\<close> makes the rest
  of the text between out of the rest of the original.
\<close>

definition composing ::
  "'c list \<Rightarrow> 'c list \<Rightarrow> 'c list \<Rightarrow> int \<Rightarrow> 'r list \<Rightarrow> 'r list \<times> 'r list \<times> int \<Rightarrow> bool" where
  "composing s0 s1 s2 y rest st \<longleftrightarrow>
     (case st of (q, res, d) \<Rightarrow>
        0 \<le> y \<and> fits c 0 res (y - d) \<and> fits c (y - d) q (int (length s0)) \<and> fits c y rest (int (length s1))
        \<and> drop (nat y) s1 = stretch c content (y - d) q (int (length s0)) s0
        \<and> s2 = stretch c content 0 res (y - d) s0 @ stretch c content y rest (int (length s1)) s1)"

lemma composingI:
  assumes "0 \<le> y" "p = y - d" "fits c 0 res p" "fits c p q (int (length s0))" "fits c y rest (int (length s1))"
    "drop (nat y) s1 = stretch c content p q (int (length s0)) s0"
    "s2 = stretch c content 0 res p s0 @ stretch c content y rest (int (length s1)) s1"
  shows "composing s0 s1 s2 y rest (q, res, d)"
  using assms by (simp add: composing_def)

lemma composing_start:
  assumes "fits c 0 q (int (length s0))" "fits c 0 rest (int (length s1))"
    "s1 = stretch c content 0 q (int (length s0)) s0" "s2 = stretch c content 0 rest (int (length s1)) s1"
  shows "composing s0 s1 s2 0 rest (q, [], 0)"
  using assms by (simp add: composing_def)

lemma composing_end:
  assumes "composing s0 s1 s2 y [] (q, res, d)"
  shows "fits c 0 (res @ q) (int (length s0))" "s2 = stretch c content 0 (res @ q) (int (length s0)) s0"
  using assms by (auto simp: composing_def fits_append cut_suffix stretch_append)

lemma composing_bounds:
  assumes "composing s0 s1 s2 y rest (q, res, d)"
  shows "0 \<le> y - d" "y \<le> int (length s1)" "y - d \<le> int (length s0)"
    "int (length s1) - y = int (length s0) - (y - d) + deltas c q"
proof -
  show 1: "0 \<le> y - d" "y \<le> int (length s1)" "y - d \<le> int (length s0)"
    using assms fits_le by (auto simp: composing_def) force+
  have "length (drop (nat y) s1) = length (stretch c content (y - d) q (int (length s0)) s0)"
    using assms by (simp add: composing_def)
  then show "int (length s1) - y = int (length s0) - (y - d) + deltas c q"
    using assms 1 stretch_length [of "y - d" q "int (length s0)" s0] by (simp add: composing_def) linarith
qed

text \<open>The cursor moves through text that neither edit changes.\<close>

lemma composing_skip:
  assumes i: "composing s0 s1 s2 y rest (q, res, d)" and z: "y \<le> z"
    and rest: "rest \<noteq> []" "z \<le> rstart c (hd rest)"
    and q: "q \<noteq> [] \<Longrightarrow> z - d \<le> rstart c (hd q)"
  shows "composing s0 s1 s2 z rest (q, res, d)"
proof -
  let ?n0 = "int (length s0)" and ?n1 = "int (length s1)"
  have f: "0 \<le> y" "fits c 0 res (y - d)" "fits c (y - d) q ?n0" "fits c y rest ?n1"
    "drop (nat y) s1 = stretch c content (y - d) q ?n0 s0"
    "s2 = stretch c content 0 res (y - d) s0 @ stretch c content y rest ?n1 s1"
    using i by (simp_all add: composing_def)
  have rest': "fits c z rest ?n1" using fits_skip [OF f(4), of z] rest by simp
  have zn: "z \<le> ?n1" using fits_le [OF rest'] .
  have "q = [] \<Longrightarrow> z - d \<le> ?n0" using composing_bounds [OF i] zn by simp
  then have q': "fits c (z - d) q ?n0" using fits_skip [OF f(3)] q by simp
  have b: "0 \<le> y - d" "z - d \<le> ?n0" using composing_bounds [OF i] fits_le [OF q'] by auto
  have len: "length (cut (y - d) (z - d) s0) = nat (z - y)" using b z by (simp add: cut_length)
  have "drop (nat y) s1 = cut (y - d) (z - d) s0 @ stretch c content (z - d) q ?n0 s0"
    using f(5) stretch_extend [OF q', of "y - d" s0 content] b z by simp
  note read = cut_in_append [OF this f(1), of z]
  have res: "fits c 0 res (z - d)"
    using fits_append [OF f(2), of "[]" "z - d"] z by simp
  have "stretch c content 0 res (y - d) s0 @ cut (y - d) (z - d) s0 = stretch c content 0 res (z - d) s0"
    using stretch_append [OF f(2), of "[]" "z - d"] z by simp
  moreover have "cut y z s1 = cut (y - d) (z - d) s0" using read(1) len z by simp
  ultimately have "s2 = stretch c content 0 res (z - d) s0 @ stretch c content z rest ?n1 s1"
    using f(1,6) z stretch_extend [OF rest', of y] by (metis append_assoc)
  then show ?thesis using f(1) z res q' rest' read(2) len by (intro composingI) auto
qed

lemma composing_copy:
  assumes i: "composing s0 s1 s2 y (r2 # rest) (r1 # q, res, d)"
    and le: "rstart c r1 + d + rc_newLength c r1 \<le> rstart c r2"
  shows "composing s0 s1 s2 (rstart c r1 + d + rc_newLength c r1) (r2 # rest)
    (q, res @ [r1], d + (rc_newLength c r1 - o_length (rc_range c r1)))"
proof -
  let ?z = "rstart c r1 + d" and ?n0 = "int (length s0)" and ?n1 = "int (length s1)"
  have f0: "y \<le> ?z" using i by (simp add: composing_def)
  have j: "composing s0 s1 s2 ?z (r2 # rest) (r1 # q, res, d)"
    using composing_skip [OF i f0] le newLength [of r1] by simp
  then have f: "0 \<le> ?z" "fits c 0 res (rstart c r1)" "fits c (rend c r1) q ?n0" "rstart c r1 \<le> rend c r1"
    "drop (nat ?z) s1 = content r1 @ stretch c content (rend c r1) q ?n0 s0"
    "fits c ?z (r2 # rest) ?n1"
    "s2 = stretch c content 0 res (rstart c r1) s0 @ stretch c content ?z (r2 # rest) ?n1 s1"
    by (simp_all add: composing_def)
  let ?z' = "?z + rc_newLength c r1"
  note read = cut_in_append [OF f(5,1), of ?z', unfolded newLength, OF refl, folded newLength]
  have rest': "fits c ?z' (r2 # rest) ?n1" using f(6) le by simp
  have "stretch c content ?z (r2 # rest) ?n1 s1 = content r1 @ stretch c content ?z' (r2 # rest) ?n1 s1"
    using stretch_extend [OF rest', of ?z s1 content] f(1) read(1) newLength [of r1] by simp
  moreover have "stretch c content 0 res (rstart c r1) s0 @ content r1 = stretch c content 0 (res @ [r1]) (rend c r1) s0"
    using stretch_append [OF f(2), of "[r1]" "rend c r1"] f(4) by simp
  ultimately have "s2 = stretch c content 0 (res @ [r1]) (rend c r1) s0 @ stretch c content ?z' (r2 # rest) ?n1 s1"
    using f(7) by (metis append_assoc)
  moreover have "fits c 0 (res @ [r1]) (rend c r1)" using fits_append [OF f(2)] f(4) by simp
  ultimately show ?thesis
    using f(1,3) rest' read(2) newLength [of r1] by (intro composingI) auto
qed

lemma composing_copy_before:
  assumes "be_copy_before c (rstart c r2) q res d = (q', res', d')"
    and "composing s0 s1 s2 y (r2 # rest) (q, res, d)" "y \<le> rstart c r2"
  shows "\<exists>y' \<le> rstart c r2. composing s0 s1 s2 y' (r2 # rest) (q', res', d')
    \<and> (q' \<noteq> [] \<longrightarrow> rstart c r2 \<le> rstart c (hd q') + d' + rc_newLength c (hd q'))"
  using assms
proof (induction q arbitrary: res d y)
  case (Cons r1 q)
  show ?case
  proof (cases "rstart c r1 + d + rc_newLength c r1 \<ge> rstart c r2")
    case True
    then show ?thesis using Cons.prems by auto
  next
    case False
    have "be_copy_before c (rstart c r2) q (res @ [r1]) (d + (rc_newLength c r1 - o_length (rc_range c r1)))
        = (q', res', d')"
      using Cons.prems(1) False by simp
    from Cons.IH [OF this composing_copy [OF Cons.prems(2)]] False show ?thesis by simp
  qed
qed auto

lemma composing_replace:
  assumes "fits c 0 res (rstart c m)" "rstart c m \<le> rend c m" "content m = content r2"
    and "rend c m = rend c r2 - d" "fits c (rend c m) q (int (length s0))"
    and "drop (nat (rend c r2)) s1 = stretch c content (rend c m) q (int (length s0)) s0"
    and "s2 = stretch c content 0 res (rstart c m) s0 @ content r2
           @ stretch c content (rend c r2) rest (int (length s1)) s1"
    and "fits c (rend c r2) rest (int (length s1))" "0 \<le> rend c r2"
  shows "composing s0 s1 s2 (rend c r2) rest (q, res @ [m], d)"
proof -
  have "stretch c content 0 res (rstart c m) s0 @ content r2 = stretch c content 0 (res @ [m]) (rend c m) s0"
    using stretch_append [OF assms(1), of "[m]" "rend c m" content s0] assms(2,3) by simp
  then show ?thesis
    using assms fits_append [OF assms(1), of "[m]" "rend c m"]
    by (intro composingI) (simp_all flip: append_assoc)
qed

text \<open>Before the middle: what is left of the first replacement it touches.\<close>

lemma composing_prefix:
  assumes i: "composing s0 s1 s2 y (r2 # rest) (f # q, res, d)" and y: "y \<le> rstart c r2"
    and touch: "rstart c r2 \<le> rstart c f + d + rc_newLength c f"
  defines "start \<equiv> min (rstart c f) (rstart c r2 - d)"
    and "len \<equiv> rstart c r2 - (rstart c f + d)"
  defines "res' \<equiv> (if len > 0 then res @ [rc_slice c (o_emptyAt start) (Some \<lparr>o_start = 0, o_end = len\<rparr>) f] else res)"
  shows "fits c 0 res' start \<and> s2 = stretch c content 0 res' start s0 @ content r2
    @ stretch c content (rend c r2) rest (int (length s1)) s1"
proof (cases "len > 0")
  case False
  then have st: "start = rstart c r2 - d" "res' = res" by (simp_all add: start_def len_def res'_def)
  have "composing s0 s1 s2 (rstart c r2) (r2 # rest) (f # q, res, d)"
    using composing_skip [OF i y] False by (simp add: len_def)
  then show ?thesis using st by (simp add: composing_def)
next
  case True
  then have st: "start = rstart c f" by (simp add: start_def len_def)
  let ?z = "rstart c f + d" and ?n0 = "int (length s0)" and ?n1 = "int (length s1)"
  let ?p = "rc_slice c (o_emptyAt start) (Some \<lparr>o_start = 0, o_end = len\<rparr>) f"
  have p: "rstart c ?p = start" "rend c ?p = start" by (simp_all add: o_emptyAt_def)
  have t: "content ?p = take (nat len) (content f)"
    using True touch by (simp add: slice_text len_def cut_prefix)
  have f0: "y \<le> ?z" using i by (simp add: composing_def)
  have "composing s0 s1 s2 ?z (r2 # rest) (f # q, res, d)"
    using composing_skip [OF i f0] True by (simp add: len_def)
  then have g: "0 \<le> ?z" "fits c 0 res start"
    "drop (nat ?z) s1 = content f @ stretch c content (rend c f) q ?n0 s0"
    "s2 = stretch c content 0 res start s0 @ cut ?z (rstart c r2) s1 @ content r2
       @ stretch c content (rend c r2) rest ?n1 s1"
    by (simp_all add: composing_def st)
  have "nat len \<le> length (content f)" using touch newLength [of f] by (simp add: len_def)
  then have dz: "drop (nat ?z) s1 = take (nat len) (content f)
      @ (drop (nat len) (content f) @ stretch c content (rend c f) q ?n0 s0)"
    and lz: "rstart c r2 = ?z + int (length (take (nat len) (content f)))"
    using g(3) True by (simp_all add: len_def)
  note cut_in_append(1) [OF dz g(1) lz]
  moreover have "stretch c content 0 res start s0 @ content ?p = stretch c content 0 (res @ [?p]) start s0"
    using stretch_append [OF g(2), of "[?p]" start content s0] p by simp
  moreover have "fits c 0 (res @ [?p]) start"
    using fits_append [OF g(2), of "[?p]" start] p by simp
  ultimately show ?thesis using g(4) t True by (simp add: res'_def flip: append_assoc)
qed

text \<open>After the middle: what is left of the last one.\<close>

lemma composing_suffix:
  assumes i: "composing s0 s1 s2 y (r2 # rest) (ts @ q, res, d)" and ts: "ts \<noteq> []"
    and touch: "rstart c (last ts) + d + deltas c (butlast ts) \<le> rend c r2"
    and next_start: "q = [] \<or> rend c r2 < rstart c (hd q) + (d + deltas c ts)"
  defines "len \<equiv> rend c (last ts) + (d + deltas c ts) - rend c r2"
  defines "e \<equiv> rc_slice c (o_emptyAt (rend c (last ts)))
      (Some \<lparr>o_start = rc_newLength c (last ts) - len, o_end = rc_newLength c (last ts)\<rparr>) (last ts)"
  defines "q' \<equiv> (if len > 0 then e # q else q)"
    and "p \<equiv> rend c r2 - (if len > 0 then d + deltas c ts - (rc_newLength c e - o_length (rc_range c e))
                     else d + deltas c ts)"
  shows "fits c p q' (int (length s0)) \<and> drop (nat (rend c r2)) s1 = stretch c content p q' (int (length s0)) s0
    \<and> rend c (last ts) \<le> p"
proof -
  let ?l = "last ts" and ?n0 = "int (length s0)" and ?n1 = "int (length s1)"
  let ?w = "rend c ?l + (d + deltas c ts)"
  note b = composing_bounds [OF i]
  have f: "0 \<le> y" "fits c (y - d) ts (rend c ?l)" "fits c (rend c ?l) q ?n0"
    "y \<le> rend c r2" "rend c r2 \<le> ?n1"
    using i fits_split [OF ts, of c "y - d" q ?n0] fits_le [of c "rend c r2" rest ?n1]
    by (auto simp: composing_def)
  let ?A = "stretch c content (y - d) ts (rend c ?l) s0"
  have d0: "drop (nat y) s1 = ?A @ stretch c content (rend c ?l) q ?n0 s0"
    using i stretch_append [OF f(2,3), of content s0] b(1) by (simp add: composing_def)
  have lenA: "int (length ?A) = ?w - y"
    using stretch_length [OF f(2), of s0] b(1) fits_le [OF f(3)] by simp
  have dl: "deltas c ts = deltas c (butlast ts) + (rc_newLength c ?l - (rend c ?l - rstart c ?l))"
    using ts deltas_simps(3) [of c "butlast ts" "[last ts]"] by simp
  show ?thesis
  proof (cases "len > 0")
    case False
    then have le: "?w \<le> rend c r2" by (simp add: len_def)
    have p: "q' = q" "p = rend c r2 - (d + deltas c ts)" using False by (simp_all add: q'_def p_def)
    have dw: "drop (nat ?w) s1 = stretch c content (rend c ?l) q ?n0 s0"
      using cut_in_append(2) [OF d0 f(1), of ?w] lenA by simp
    have "q = [] \<Longrightarrow> p \<le> ?n0" using b(4) f(5) p by simp
    then have fq: "fits c p q ?n0" using fits_skip [OF f(3), of p] next_start p by force
    have w0: "0 \<le> rend c ?l" "0 \<le> ?w" using fits_le [OF f(2)] b(1) lenA f(1) by auto
    have "drop (nat ?w) s1 = cut (rend c ?l) p s0 @ stretch c content p q ?n0 s0"
      using dw stretch_extend [OF fq w0(1), of s0 content] le p by simp
    from cut_in_append(2) [OF this w0(2), of "rend c r2"]
    show ?thesis using fq p le w0 fits_le [OF fq] by (simp add: cut_length)
  next
    case True
    let ?k = "nat (rc_newLength c ?l - len)"
    have k: "0 \<le> rc_newLength c ?l - len" using touch dl by (simp add: len_def)
    have e: "rstart c e = rend c ?l" "rend c e = rend c ?l" by (simp_all add: e_def o_emptyAt_def)
    have te: "content e = drop ?k (content ?l)"
      using True k by (simp add: e_def slice_text cut_suffix newLength)
    then have ne: "rc_newLength c e = len" using k True newLength [of ?l] by (simp add: newLength)
    have p: "q' = e # q" "p = rend c ?l"
      using True ne e by (simp_all add: q'_def p_def) (simp add: len_def)
    have "?A = stretch c content (y - d) (butlast ts) (rstart c ?l) s0 @ take ?k (content ?l) @ drop ?k (content ?l)"
      using stretch_last [OF ts] by simp
    then have "drop (nat y) s1 = (stretch c content (y - d) (butlast ts) (rstart c ?l) s0 @ take ?k (content ?l))
        @ (content e @ stretch c content (rend c ?l) q ?n0 s0)"
      and "int (length (stretch c content (y - d) (butlast ts) (rstart c ?l) s0 @ take ?k (content ?l)))
        = rend c r2 - y"
      using d0 te lenA k True newLength [of ?l] by (simp_all add: len_def)
    from cut_in_append(2) [OF this(1) f(1), of "rend c r2"] this(2)
    show ?thesis using p e f(3) by simp
  qed
qed

lemma composing_step:
  assumes i: "composing s0 s1 s2 y (r2 # rest) (q, res, d)" and y: "y \<le> rstart c r2"
  shows "\<exists>st. be_compose_step c r2 (q, res, d) = Some st \<and> composing s0 s1 s2 (rend c r2) rest st"
proof -
  obtain q1 res1 d1 where 1: "be_copy_before c (rstart c r2) q res d = (q1, res1, d1)" by (cases rule: prod_cases3)
  obtain y' where y': "y' \<le> rstart c r2" "composing s0 s1 s2 y' (r2 # rest) (q1, res1, d1)"
    and touch: "q1 \<noteq> [] \<Longrightarrow> rstart c r2 \<le> rstart c (hd q1) + d1 + rc_newLength c (hd q1)"
    using composing_copy_before [OF 1 i y] by auto
  have r2: "rstart c r2 \<le> rend c r2" "fits c (rend c r2) rest (int (length s1))" "0 \<le> rend c r2"
    using y' by (auto simp: composing_def)
  obtain q2 fl d2 where 2: "be_take_touching c (rend c r2) q1 None d1 = (q2, fl, d2)" by (cases rule: prod_cases3)
  obtain ts where ts: "q1 = ts @ q2" "d2 = d1 + deltas c ts" "ts = [] \<Longrightarrow> fl = None"
    "ts \<noteq> [] \<Longrightarrow> fl = Some (hd ts, last ts)"
    "ts \<noteq> [] \<Longrightarrow> rstart c (last ts) + d1 + deltas c (butlast ts) \<le> rend c r2"
    "q2 \<noteq> [] \<Longrightarrow> rend c r2 < rstart c (hd q2) + d2"
    using take_touching_split [OF 2] by auto
  show ?thesis
  proof (cases "ts = []")
    case True
    then have e: "q1 = q2" "d2 = d1" "fl = None" using ts by simp_all
    let ?b = "rstart c r2" and ?n0 = "int (length s0)"
    define m where
      "m = rc_slice c (o_delta (- d1) (rc_range c r2)) (Some \<lparr>o_start = 0, o_end = rc_newLength c r2\<rparr>) r2"
    have step: "be_compose_step c r2 (q, res, d) = Some (q2, res1 @ [m], d1)"
      using newLength [of r2] by (simp add: m_def be_compose_step_def 1 2 [unfolded e] e rc_delta_def new_OffsetRange_def)
    have m: "rstart c m = ?b - d1" "rend c m = rend c r2 - d1" "content m = content r2"
      by (simp_all add: m_def) (simp_all add: o_delta_def rstart_def rend_def)
    have j: "composing s0 s1 s2 ?b (r2 # rest) (q2, res1, d1)"
      using composing_skip [OF y'(2,1)] ts(6) e r2(1) by force
    then have f: "fits c 0 res1 (?b - d1)" "fits c (?b - d1) q2 ?n0" "0 \<le> ?b"
      "drop (nat ?b) s1 = stretch c content (?b - d1) q2 ?n0 s0"
      "s2 = stretch c content 0 res1 (?b - d1) s0 @ content r2 @ stretch c content (rend c r2) rest (int (length s1)) s1"
      by (simp_all add: composing_def)
    have "q2 = [] \<Longrightarrow> rend c r2 - d1 \<le> ?n0"
      using composing_bounds(4) [OF j] fits_le [OF r2(2)] by simp
    then have fq: "fits c (rend c r2 - d1) q2 ?n0" using fits_skip [OF f(2)] ts(6) e by force
    have dz: "drop (nat ?b) s1 = cut (?b - d1) (rend c r2 - d1) s0 @ stretch c content (rend c r2 - d1) q2 ?n0 s0"
      using f(4) stretch_extend [OF fq, of "?b - d1" s0 content] r2(1) composing_bounds(1) [OF j] by simp
    have lz: "rend c r2 = ?b + int (length (cut (?b - d1) (rend c r2 - d1) s0))"
      using r2(1) composing_bounds(1) [OF j] fits_le [OF fq] by (simp add: cut_length)
    note dr = cut_in_append(2) [OF dz f(3) lz]
    have "rstart c m \<le> rend c m" using m r2(1) by simp
    from composing_replace [OF _ this m(3) m(2), unfolded m(1,2), OF f(1) fq dr f(5) r2(2,3)]
    show ?thesis using step by blast
  next
    case False
    then obtain f tl where tl: "ts = f # tl" by (cases ts) auto
    let ?l = "last ts" and ?n0 = "int (length s0)"
    define start where "start = min (rstart c f) (rstart c r2 - d1)"
    define pl where "pl = rstart c r2 - (rstart c f + d1)"
    define res2 where "res2 = (if pl > 0
      then res1 @ [rc_slice c (o_emptyAt start) (Some \<lparr>o_start = 0, o_end = pl\<rparr>) f] else res1)"
    define sl where "sl = rend c ?l + d2 - rend c r2"
    define e where "e = rc_slice c (o_emptyAt (rend c ?l))
      (Some \<lparr>o_start = rc_newLength c ?l - sl, o_end = rc_newLength c ?l\<rparr>) ?l"
    define q3 where "q3 = (if sl > 0 then e # q2 else q2)"
    define d3 where "d3 = (if sl > 0 then d2 - (rc_newLength c e - o_length (rc_range c e)) else d2)"
    define m where "m = rc_slice c \<lparr>o_start = start, o_end = rend c r2 - d3\<rparr>
      (Some \<lparr>o_start = 0, o_end = rc_newLength c r2\<rparr>) r2"
    have i': "composing s0 s1 s2 y' (r2 # rest) (f # (tl @ q2), res1, d1)" using y'(2) ts(1) tl by simp
    have t': "rstart c r2 \<le> rstart c f + d1 + rc_newLength c f" using touch ts(1) tl by simp
    note pre = composing_prefix [OF i' y'(1) t', folded start_def pl_def, folded res2_def]
    have n': "q2 = [] \<or> rend c r2 < rstart c (hd q2) + (d1 + deltas c ts)" using ts(2,6) by blast
    have suf: "fits c (rend c r2 - d3) q3 ?n0"
      "drop (nat (rend c r2)) s1 = stretch c content (rend c r2 - d3) q3 ?n0 s0" "rend c ?l \<le> rend c r2 - d3"
      using composing_suffix [OF y'(2) [unfolded ts(1)] False ts(5) [OF False] n',
          folded ts(2), folded sl_def, folded e_def, folded q3_def d3_def] by blast+
    have "fits c (y' - d1) ts (rend c ?l)"
      using y'(2) fits_split [OF False, of c "y' - d1" q2 ?n0] ts(1) by (auto simp: composing_def)
    then have "rstart c f \<le> rend c ?l"
      unfolding tl using fits_le [of c "rend c f" tl "rend c (last tl)"] by (cases "tl = []") auto
    then have le: "start \<le> rend c r2 - d3" using suf(3) by (simp add: start_def)
    have fl: "fl = Some (f, ?l)" using ts(4) [OF False] tl by simp
    have "be_compose_step c r2 (q, res, d) =
      Option.bind (new_OffsetRange start (rend c r2 - d3)) (\<lambda>g.
        map_option (\<lambda>g2. (q3, res2 @ [rc_slice c g (Some g2) r2], d3)) (new_OffsetRange 0 (rc_newLength c r2)))"
    proof (cases "sl > 0")
      case sl: True
      show ?thesis
        unfolding q3_def d3_def if_P [OF sl]
        using sl by (simp only: be_compose_step_def prod.case 1 2 fl option.case Let_def start_def pl_def res2_def
          sl_def e_def if_True)
    next
      case sl: False
      show ?thesis
        unfolding q3_def d3_def if_not_P [OF sl]
        using sl by (simp only: be_compose_step_def prod.case 1 2 fl option.case Let_def start_def pl_def res2_def
          sl_def if_False)
    qed
    then have "be_compose_step c r2 (q, res, d) = Some (q3, res2 @ [m], d3)"
      using le newLength [of r2] by (simp add: new_OffsetRange_def m_def)
    moreover have "composing s0 s1 s2 (rend c r2) rest (q3, res2 @ [m], d3)"
      by (rule composing_replace) (use pre suf r2 le in \<open>simp_all add: m_def\<close>)
    ultimately show ?thesis by blast
  qed
qed

lemma composing_loop:
  assumes "composing s0 s1 s2 y rest st"
  shows "\<exists>res. be_compose_loop c rest st = Some res
    \<and> fits c 0 res (int (length s0)) \<and> s2 = stretch c content 0 res (int (length s0)) s0"
  using assms
proof (induction rest arbitrary: y st)
  case Nil
  then show ?case using composing_end by (cases st) auto
next
  case (Cons r2 rest)
  obtain q res d where st: "st = (q, res, d)" by (cases st)
  have "y \<le> rstart c r2" using Cons.prems st by (simp add: composing_def)
  from composing_step [OF Cons.prems [unfolded st] this] Cons.IH show ?case by (auto simp: st)
qed

theorem compose_effect:
  assumes e1: "fits c 0 e1 (int (length s0))"
    and e2: "fits c 0 e2 (int (length (stretch c content 0 e1 (int (length s0)) s0)))"
  shows "\<exists>e. be_compose c e1 e2 = Some e \<and> fits c 0 e (int (length s0))
    \<and> stretch c content 0 e (int (length s0)) s0
      = (let s1 = stretch c content 0 e1 (int (length s0)) s0 in stretch c content 0 e2 (int (length s1)) s1)"
proof -
  let ?n0 = "int (length s0)"
  define s1 where "s1 = stretch c content 0 e1 ?n0 s0"
  define s2 where "s2 = stretch c content 0 e2 (int (length s1)) s1"
  obtain m1 where m1: "be_normalize c e1 = Some m1" "fits c 0 m1 ?n0" "s1 = stretch c content 0 m1 ?n0 s0"
    using normalize_fits [OF e1] normalize_effect [OF e1] s1_def by metis
  obtain m2 where m2: "be_normalize c e2 = Some m2" "fits c 0 m2 (int (length s1))"
    "s2 = stretch c content 0 m2 (int (length s1)) s1"
    using normalize_fits [OF e2] normalize_effect [OF e2] s1_def s2_def by metis
  have "\<exists>e. be_compose c e1 e2 = Some e \<and> fits c 0 e ?n0 \<and> stretch c content 0 e ?n0 s0 = s2"
  proof (cases "m1 = [] \<or> m2 = []")
    case True
    then show ?thesis using m1 m2 by (auto simp: be_compose_def be_isEmpty_def)
  next
    case False
    from composing_loop [OF composing_start [OF m1(2) m2(2) m1(3) m2(3)]]
    obtain res where res: "be_compose_loop c m2 (m1, [], 0) = Some res" "fits c 0 res ?n0"
      "s2 = stretch c content 0 res ?n0 s0" by blast
    moreover obtain e where "be_normalize c res = Some e" "fits c 0 e ?n0" using normalize_fits [OF res(2)] by blast
    ultimately show ?thesis
      using False m1 m2 normalize_effect [OF res(2)] fits_new_Edit [OF res(2)]
      by (auto simp: be_compose_def be_isEmpty_def)
  qed
  then show ?thesis by (simp add: s1_def s2_def Let_def)
qed

subsection \<open>Offsets\<close>

lemma applyToOffset_lower:
  "fits c p rs e \<Longrightarrow> p \<le> x \<Longrightarrow> p + d \<le> be_applyToOffset_loop c x d rs"
proof (induction rs arbitrary: p d)
  case (Cons r rs)
  show ?case
  proof (cases "rend c r \<le> x")
    case True
    then have "rend c r + (d + (rc_newLength c r - o_length (rc_range c r)))
        \<le> be_applyToOffset_loop c x (d + (rc_newLength c r - o_length (rc_range c r))) rs"
      using Cons.prems by (intro Cons.IH) simp_all
    then show ?thesis using Cons.prems True by (simp add: newLength)
  qed (use Cons.prems in auto)
qed auto

lemma applyToOffset_mono_loop:
  assumes "fits c p rs e" "p \<le> x" "x \<le> x'"
  shows "be_applyToOffset_loop c x d rs \<le> be_applyToOffset_loop c x' d rs"
  using assms
proof (induction rs arbitrary: p d)
  case (Cons r rs)
  let ?d = "d + (rc_newLength c r - o_length (rc_range c r))"
  have f: "fits c (rend c r) rs e" "rstart c r \<le> rend c r" using Cons.prems by simp_all
  show ?case
  proof (cases "rend c r \<le> x")
    case True
    then show ?thesis using Cons.IH [OF f(1), of ?d] Cons.prems f by simp
  next
    case False
    then show ?thesis
      using applyToOffset_lower [OF f(1), of x' ?d] newLength [of r] Cons.prems(3) by auto
  qed
qed simp

lemma applyToOffset_mono:
  "fits c 0 rs e \<Longrightarrow> 0 \<le> x \<Longrightarrow> x \<le> x' \<Longrightarrow> be_applyToOffset c rs x \<le> be_applyToOffset c rs x'"
  using applyToOffset_mono_loop by (simp add: be_applyToOffset_def)

lemma applyToOffsetRange_defined:
  assumes "fits c 0 rs e" "0 \<le> o_start g" "o_start g \<le> o_end g"
  shows "\<exists>h. be_applyToOffsetRange c rs g = Some h"
  using applyToOffset_mono [OF assms] by (simp add: be_applyToOffsetRange_def new_OffsetRange_def)

lemma applyOrUndefined_loop:
  "be_applyOrUndefined_loop c x d rs = Some y \<Longrightarrow> be_applyToOffset_loop c x d rs = y"
  by (induction rs arbitrary: d) (auto split: if_splits)

lemma applyInverse_untouched_loop:
  assumes "fits c p rs e" "p \<le> x" "be_applyOrUndefined_loop c x d rs = Some y"
  shows "be_applyInverse_loop c y d rs = x"
  using assms
proof (induction rs arbitrary: p d)
  case (Cons r rs)
  let ?d = "d + (rc_newLength c r - o_length (rc_range c r))"
  have f: "fits c (rend c r) rs e" "rstart c r \<le> rend c r" using Cons.prems by simp_all
  show ?case
  proof (cases "rstart c r \<le> x")
    case True
    then have x: "rend c r \<le> x" and y: "be_applyOrUndefined_loop c x ?d rs = Some y"
      using Cons.prems(3) by (auto split: if_splits)
    have "rend c r + ?d \<le> y"
      using applyToOffset_lower [OF f(1) x, of ?d] applyOrUndefined_loop [OF y] by simp
    then show ?thesis using Cons.IH [OF f(1) x y] newLength [of r] f(2) by simp
  qed (use Cons.prems in auto)
qed simp

lemma untouched_loop:
  assumes "fits c p rs (int (length s))" "0 \<le> p" "p \<le> x" "x < int (length s)"
    and "be_applyOrUndefined_loop c x d rs = Some y"
  shows "p + d \<le> y \<and> nat (y - (p + d)) < length (stretch c content p rs (int (length s)) s)
    \<and> stretch c content p rs (int (length s)) s ! nat (y - (p + d)) = s ! nat x"
  using assms
proof (induction rs arbitrary: p d)
  case Nil
  then show ?case by (auto simp: cut_suffix nat_diff_distrib simp flip: of_nat_less_iff)
next
  case (Cons r rs)
  let ?n = "int (length s)" and ?d = "d + (rc_newLength c r - o_length (rc_range c r))"
  have f: "fits c (rend c r) rs ?n" "rstart c r \<le> rend c r" "p \<le> rstart c r" "rstart c r \<le> ?n"
    using Cons.prems(1) fits_le [of c "rend c r" rs ?n] by simp_all
  have lc: "length (cut p (rstart c r) s) = nat (rstart c r - p)"
    using f Cons.prems(2) by (simp add: cut_length)
  show ?case
  proof (cases "rstart c r \<le> x")
    case True
    then have x: "rend c r \<le> x" and y: "be_applyOrUndefined_loop c x ?d rs = Some y"
      using Cons.prems(5) by (auto split: if_splits)
    have IH: "rend c r + ?d \<le> y" "nat (y - (rend c r + ?d)) < length (stretch c content (rend c r) rs ?n s)"
      "stretch c content (rend c r) rs ?n s ! nat (y - (rend c r + ?d)) = s ! nat x"
      using Cons.IH [OF f(1) _ x Cons.prems(4) y] Cons.prems(2) f by simp_all
    have e: "nat (y - (p + d)) = nat (rstart c r - p) + (length (content r) + nat (y - (rend c r + ?d)))"
      using IH(1) f newLength [of r] by simp
    show ?thesis
      using IH e lc f newLength [of r] by (simp add: nth_append)
  next
    case False
    then have y: "y = x + d" using Cons.prems(5) by simp
    have a: "nat (x - p) < nat (rstart c r - p)" "nat p + nat (x - p) = nat x"
      using False Cons.prems by simp_all
    then show ?thesis
      using y lc Cons.prems(3,4) trans_less_add1 [OF a(1)] by (simp add: nth_append) (simp add: cut_def)
  qed
qed

text \<open>
  An offset that no replacement covers: its character is still there at the new offset, and
  the inverse mapping leads back.
\<close>

lemma untouched_offset:
  assumes "fits c 0 rs (int (length s))" "0 \<le> x" "x < int (length s)"
    and "be_applyToOffsetOrUndefined c rs x = Some y"
  shows "be_applyToOffset c rs x = y \<and> be_applyInverseToOffset c rs y = x
    \<and> stretch c content 0 rs (int (length s)) s ! nat y = s ! nat x"
  using untouched_loop [OF assms(1) _ assms(2,3), of 0 y] applyOrUndefined_loop [of x 0 rs y]
    applyInverse_untouched_loop [OF assms(1,2), of 0 y] assms(4)
  by (simp add: be_applyToOffset_def be_applyInverseToOffset_def be_applyToOffsetOrUndefined_def)

end

text \<open>
  If touching replacements can always be joined, a normal form has no empty replacement and no
  two that touch.
\<close>

fun gaps :: "'r replacement_class \<Rightarrow> 'r list \<Rightarrow> bool" where
  "gaps c [] \<longleftrightarrow> True"
| "gaps c [r] \<longleftrightarrow> True"
| "gaps c (r # r' # rs) \<longleftrightarrow> rend c r < rstart c r' \<and> gaps c (r' # rs)"

lemma gaps_Cons: "gaps c (r # rs) \<longleftrightarrow> (rs = [] \<or> rend c r < rstart c (hd rs)) \<and> gaps c rs"
  by (cases rs) auto

locale joining_text = replacement_text +
  assumes join_total: "rstart c l \<le> rend c l \<Longrightarrow> rend c l = rstart c r \<Longrightarrow> rstart c r \<le> rend c r \<Longrightarrow>
    \<exists>j. rc_tryJoin c l r = Some j"
begin

lemma normalize_loop_normal:
  assumes "fits c p (opt_list l @ rs) e" "list_all (\<lambda>r. \<not> rc_isEmpty c r) (opt_list l)"
  shows "list_all (\<lambda>r. \<not> rc_isEmpty c r) (be_normalize_loop c l [] rs) \<and> gaps c (be_normalize_loop c l [] rs)
    \<and> (l \<noteq> None \<longrightarrow> be_normalize_loop c l [] rs \<noteq> []
         \<and> rstart c (hd (be_normalize_loop c l [] rs)) = rstart c (hd (opt_list l)))
    \<and> (be_normalize_loop c l [] rs \<noteq> [] \<longrightarrow> p \<le> rstart c (hd (be_normalize_loop c l [] rs)))"
  using assms
proof (induction rs arbitrary: p l)
  case Nil
  then show ?case by (auto simp: opt_list_def split: option.splits)
next
  case (Cons r rs)
  show ?case
  proof (cases "rc_newLength c r = 0 \<and> o_length (rc_range c r) = 0")
    case True
    then have "fits c p (opt_list l @ rs) e"
      using Cons.prems by (cases rs) (auto simp: opt_list_def split: option.splits)
    from Cons.IH [OF this Cons.prems(2)] show ?thesis using True by simp
  next
    case new: False
    then have nr: "\<not> rc_isEmpty c r" by (simp add: rc_isEmpty_def)
    show ?thesis
    proof (cases l)
      case None
      then show ?thesis using new nr Cons.IH [of p "Some r"] Cons.prems by (auto simp: opt_list_def)
    next
      case (Some k)
      show ?thesis
      proof (cases "rend c k = rstart c r")
        case True
        then obtain j where t: "rc_tryJoin c k r = Some j"
          using join_total [of k r] Cons.prems(1) Some by (auto simp: opt_list_def)
        then have j: "rstart c j = rstart c k" "rend c j = rend c r" "content j = content k @ content r"
          using join_range [OF True t] join_text [OF True t] by (simp_all add: rstart_def rend_def)
        have "rc_newLength c j = rc_newLength c k + rc_newLength c r" using j(3) by (simp add: newLength)
        then have "\<not> rc_isEmpty c j"
          using j nr True Cons.prems Some newLength [of k] newLength [of r]
          by (auto simp: rc_isEmpty_def opt_list_def add_nonneg_eq_0_iff)
        then show ?thesis
          using Cons.IH [of p "Some j"] Cons.prems Some new t j True by (auto simp: opt_list_def)
      next
        case False
        then have eq: "be_normalize_loop c l [] (r # rs) = k # be_normalize_loop c (Some r) [] rs"
          using new Some normalize_loop_acc [of _ "[k]"] by auto
        show ?thesis
          using Cons.IH [of "rend c k" "Some r"] Cons.prems Some nr False unfolding eq
          by (auto simp: opt_list_def gaps_Cons)
      qed
    qed
  qed
qed

lemma normalize_normal:
  assumes "fits c 0 rs e" "be_normalize c rs = Some n"
  shows "list_all (\<lambda>r. \<not> rc_isEmpty c r) n \<and> gaps c n"
  using normalize_loop_normal [of 0 None rs e] normalize_loop_effect [of 0 None rs e] assms
    fits_new_Edit [of c "be_normalize_loop c None [] rs" e]
  by (simp add: be_normalize_def opt_list_def)

end

section \<open>AnnotationReplacement\<close>

text \<open>The replacements of \<open>edit.ts\<close> itself: a length and an annotation in place of a text.\<close>

record 'a annotation_replacement =
  an_range :: offset_range
  an_newLength :: nat
  an_annotation :: 'a

definition new_AnnotationReplacement :: "offset_range \<Rightarrow> nat \<Rightarrow> 'a \<Rightarrow> 'a annotation_replacement" where
  "new_AnnotationReplacement g n a = \<lparr>an_range = g, an_newLength = n, an_annotation = a\<rparr>"

definition an_equals :: "'a annotation_replacement \<Rightarrow> 'a annotation_replacement \<Rightarrow> bool" where
  "an_equals a b \<longleftrightarrow> o_equals (an_range a) (an_range b) \<and> an_newLength a = an_newLength b
     \<and> an_annotation a = an_annotation b"

definition an_getNewLength :: "'a annotation_replacement \<Rightarrow> int" where
  "an_getNewLength r = int (an_newLength r)"

definition an_tryJoinTouching ::
  "'a annotation_replacement \<Rightarrow> 'a annotation_replacement \<Rightarrow> 'a annotation_replacement option" where
  "an_tryJoinTouching a b =
     (if an_annotation a \<noteq> an_annotation b then None
      else map_option (\<lambda>g. new_AnnotationReplacement g (an_newLength a + an_newLength b) (an_annotation a))
             (o_joinRightTouching (an_range a) (an_range b)))"

definition an_slice ::
  "offset_range \<Rightarrow> offset_range option \<Rightarrow> 'a annotation_replacement \<Rightarrow> 'a annotation_replacement" where
  "an_slice g within r = new_AnnotationReplacement g
     (case within of Some w \<Rightarrow> nat (o_length w) | None \<Rightarrow> an_newLength r) (an_annotation r)"

definition annotation_class :: "'a annotation_replacement replacement_class" where
  "annotation_class = \<lparr>rc_range = an_range, rc_newLength = an_getNewLength, rc_tryJoin = an_tryJoinTouching,
     rc_slice = an_slice, rc_equals = an_equals\<rparr>"

interpretation annotation_edit:
  replacement_text annotation_class "\<lambda>r. replicate (an_newLength r) (an_annotation r)"
  by unfold_locales
    (auto simp: annotation_class_def an_getNewLength_def an_slice_def new_AnnotationReplacement_def
      an_tryJoinTouching_def o_joinRightTouching_def new_OffsetRange_def o_length_def cut_def rstart_def rend_def
      min.absorb1 nat_le_iff replicate_add split: if_splits)

end
