(* ===== verification/String_Edit.thy ===== *)
theory String_Edit
  imports Base_Edit
begin

text \<open>
  \<open>src/vs/editor/common/core/edits/stringEdit.ts\<close>: edits of strings, their application,
  inversion, rebasing, trimming and serialization. A \<open>StringEdit\<close> is its list of replacements;
  \<open>AnnotatedStringReplacement\<close> extends the record of a \<open>StringReplacement\<close>. Both classes are
  interpretations of the contract of \<open>Base_Edit\<close>, so composition, normalization and the offset
  mappings are correct for both. Of \<open>strings.ts\<close> the two functions used here are modelled.
\<close>

section \<open>Common prefixes and suffixes (\<open>strings.ts\<close>)\<close>

fun commonPrefixLength :: "'c list \<Rightarrow> 'c list \<Rightarrow> nat" where
  "commonPrefixLength (x # xs) (y # ys) = (if x \<noteq> y then 0 else Suc (commonPrefixLength xs ys))"
| "commonPrefixLength _ _ = 0"

definition commonSuffixLength :: "'c list \<Rightarrow> 'c list \<Rightarrow> nat" where
  "commonSuffixLength a b = commonPrefixLength (rev a) (rev b)"

section \<open>Replacements\<close>

record string_replacement =
  sr_range :: offset_range
  sr_newText :: string

definition new_StringReplacement :: "offset_range \<Rightarrow> string \<Rightarrow> string_replacement" where
  "new_StringReplacement g t = \<lparr>sr_range = g, sr_newText = t\<rparr>"

definition sr_insert :: "int \<Rightarrow> string \<Rightarrow> string_replacement" where
  "sr_insert off t = new_StringReplacement (o_emptyAt off) t"

definition sr_replacement :: "offset_range \<Rightarrow> string \<Rightarrow> string_replacement" where
  "sr_replacement g t = new_StringReplacement g t"

definition sr_delete :: "offset_range \<Rightarrow> string_replacement" where
  "sr_delete g = new_StringReplacement g []"

definition sr_getNewLength :: "'z string_replacement_scheme \<Rightarrow> int" where
  "sr_getNewLength r = int (length (sr_newText r))"

text \<open>\<open>slice\<close> keeps the data of an annotated replacement.\<close>

definition sr_slice ::
  "offset_range \<Rightarrow> offset_range option \<Rightarrow> 'z string_replacement_scheme \<Rightarrow> 'z string_replacement_scheme" where
  "sr_slice g within r =
     r\<lparr>sr_range := g, sr_newText := (case within of Some w \<Rightarrow> o_substring w (sr_newText r) | None \<Rightarrow> sr_newText r)\<rparr>"

definition sr_equals :: "string_replacement \<Rightarrow> string_replacement \<Rightarrow> bool" where
  "sr_equals a b \<longleftrightarrow> o_equals (sr_range a) (sr_range b) \<and> sr_newText a = sr_newText b"

text \<open>
  \<open>joinRightTouching\<close> throws if the ranges do not touch; \<open>normalize\<close> never calls it then.
\<close>

definition sr_tryJoinTouching :: "string_replacement \<Rightarrow> string_replacement \<Rightarrow> string_replacement option" where
  "sr_tryJoinTouching a b =
     map_option (\<lambda>g. new_StringReplacement g (sr_newText a @ sr_newText b))
       (o_joinRightTouching (sr_range a) (sr_range b))"

definition sr_replace :: "'z string_replacement_scheme \<Rightarrow> string \<Rightarrow> string" where
  "sr_replace r s = js_substring 0 (o_start (sr_range r)) s @ sr_newText r
     @ js_substring (o_end (sr_range r)) (int (length s)) s"

definition sr_isNeutralOn :: "string \<Rightarrow> 'z string_replacement_scheme \<Rightarrow> bool" where
  "sr_isNeutralOn s r \<longleftrightarrow> sr_newText r = js_substring (o_start (sr_range r)) (o_end (sr_range r)) s"

definition sr_removeCommonSuffixPrefix :: "string \<Rightarrow> 'z string_replacement_scheme \<Rightarrow> string_replacement option" where
  "sr_removeCommonSuffixPrefix original r =
     (let old = js_substring (o_start (sr_range r)) (o_end (sr_range r)) original;
          new = sr_newText r;
          pre = commonPrefixLength old new;
          suf = min (min (length old - pre) (length new - pre)) (commonSuffixLength old new)
      in map_option (\<lambda>g. new_StringReplacement g (js_substring (int pre) (int (length new) - int suf) new))
           (new_OffsetRange (o_start (sr_range r) + int pre) (o_end (sr_range r) - int suf)))"

fun replace_eol :: "string \<Rightarrow> string \<Rightarrow> string" where
  "replace_eol eol [] = []"
| "replace_eol eol [x] = (if x = CHR 0x0A then eol else [x])"
| "replace_eol eol (x # y # s) =
     (if x = CHR 0x0D \<and> y = CHR 0x0A then eol @ replace_eol eol s
      else if x = CHR 0x0A then eol @ replace_eol eol (y # s)
      else x # replace_eol eol (y # s))"

definition sr_normalizeEOL :: "string \<Rightarrow> 'z string_replacement_scheme \<Rightarrow> string_replacement" where
  "sr_normalizeEOL eol r = new_StringReplacement (sr_range r) (replace_eol eol (sr_newText r))"

definition sr_removeCommonPrefix ::
  "string \<Rightarrow> 'z string_replacement_scheme \<Rightarrow> 'z string_replacement_scheme option" where
  "sr_removeCommonPrefix source r =
     (let pre = commonPrefixLength (o_substring (sr_range r) source) (sr_newText r)
      in if pre = 0 then Some r
         else Option.bind (o_deltaStart (int pre) (sr_range r)) (\<lambda>g.
              map_option (\<lambda>w. sr_slice g (Some w) r) (new_OffsetRange (int pre) (sr_getNewLength r))))"

definition sr_removeCommonSuffix ::
  "string \<Rightarrow> 'z string_replacement_scheme \<Rightarrow> 'z string_replacement_scheme option" where
  "sr_removeCommonSuffix source r =
     (let suf = commonSuffixLength (o_substring (sr_range r) source) (sr_newText r)
      in if suf = 0 then Some r
         else Option.bind (o_deltaEnd (- int suf) (sr_range r)) (\<lambda>g.
              map_option (\<lambda>w. sr_slice g (Some w) r) (new_OffsetRange 0 (sr_getNewLength r - int suf))))"

definition sr_removeCommonSuffixAndPrefix ::
  "string \<Rightarrow> 'z string_replacement_scheme \<Rightarrow> 'z string_replacement_scheme option" where
  "sr_removeCommonSuffixAndPrefix source r =
     Option.bind (sr_removeCommonSuffix source r) (sr_removeCommonPrefix source)"

record serialized_replacement =
  sj_txt :: string
  sj_pos :: int
  sj_len :: int

definition sr_toJson :: "'z string_replacement_scheme \<Rightarrow> serialized_replacement" where
  "sr_toJson r = \<lparr>sj_txt = sr_newText r, sj_pos = o_start (sr_range r), sj_len = o_length (sr_range r)\<rparr>"

definition sr_fromJson :: "serialized_replacement \<Rightarrow> string_replacement option" where
  "sr_fromJson j = map_option (\<lambda>g. new_StringReplacement g (sj_txt j)) (o_ofStartAndLength (sj_pos j) (sj_len j))"

definition string_class :: "string_replacement replacement_class" where
  "string_class = \<lparr>rc_range = sr_range, rc_newLength = sr_getNewLength, rc_tryJoin = sr_tryJoinTouching,
     rc_slice = sr_slice, rc_equals = sr_equals\<rparr>"

section \<open>Annotated replacements\<close>

record 'd annotated_replacement = string_replacement +
  ad_data :: 'd

definition new_AnnotatedStringReplacement :: "offset_range \<Rightarrow> string \<Rightarrow> 'd \<Rightarrow> 'd annotated_replacement" where
  "new_AnnotatedStringReplacement g t d = \<lparr>sr_range = g, sr_newText = t, ad_data = d\<rparr>"

definition ar_equals :: "'d annotated_replacement \<Rightarrow> 'd annotated_replacement \<Rightarrow> bool" where
  "ar_equals a b \<longleftrightarrow> o_equals (sr_range a) (sr_range b) \<and> sr_newText a = sr_newText b \<and> ad_data a = ad_data b"

definition ar_tryJoinTouching ::
  "('d \<Rightarrow> 'd \<Rightarrow> 'd option) \<Rightarrow> 'd annotated_replacement \<Rightarrow> 'd annotated_replacement \<Rightarrow> 'd annotated_replacement option" where
  "ar_tryJoinTouching join a b =
     Option.bind (join (ad_data a) (ad_data b)) (\<lambda>d.
       map_option (\<lambda>g. new_AnnotatedStringReplacement g (sr_newText a @ sr_newText b) d)
         (o_joinRightTouching (sr_range a) (sr_range b)))"

definition annotated_class :: "('d \<Rightarrow> 'd \<Rightarrow> 'd option) \<Rightarrow> 'd annotated_replacement replacement_class" where
  "annotated_class join = \<lparr>rc_range = sr_range, rc_newLength = sr_getNewLength,
     rc_tryJoin = ar_tryJoinTouching join, rc_slice = sr_slice, rc_equals = ar_equals\<rparr>"

text \<open>\<open>VoidEditData\<close>: always joined.\<close>

definition void_join :: "'d \<Rightarrow> 'd \<Rightarrow> 'd option" where
  "void_join a b = Some a"

section \<open>String edits\<close>

fun se_apply_loop :: "string \<Rightarrow> int \<Rightarrow> 'z string_replacement_scheme list \<Rightarrow> string" where
  "se_apply_loop base pos [] = js_substring pos (int (length base)) base"
| "se_apply_loop base pos (e # es) =
     js_substring pos (o_start (sr_range e)) base @ sr_newText e @ se_apply_loop base (o_end (sr_range e)) es"

definition se_apply :: "'z string_replacement_scheme list \<Rightarrow> string \<Rightarrow> string" where
  "se_apply e base = se_apply_loop base 0 e"

abbreviation new_StringEdit :: "string_replacement list \<Rightarrow> string_replacement list option" where
  "new_StringEdit \<equiv> new_Edit string_class"

definition se_empty :: "string_replacement list" where
  "se_empty = []"

definition sr_toEdit :: "string_replacement \<Rightarrow> string_replacement list option" where
  "sr_toEdit r = new_StringEdit [r]"

fun se_inverse_loop ::
  "(int \<Rightarrow> int \<Rightarrow> string) \<Rightarrow> int \<Rightarrow> 'z string_replacement_scheme list \<Rightarrow> string_replacement list option" where
  "se_inverse_loop orig off [] = Some []"
| "se_inverse_loop orig off (e # es) =
     Option.bind (o_ofStartAndLength (o_start (sr_range e) + off) (sr_getNewLength e)) (\<lambda>g.
       map_option (Cons (sr_replacement g (orig (o_start (sr_range e)) (o_end (sr_range e)))))
         (se_inverse_loop orig (off + (sr_getNewLength e - o_length (sr_range e))) es))"

definition se_inverseOnSlice ::
  "(int \<Rightarrow> int \<Rightarrow> string) \<Rightarrow> 'z string_replacement_scheme list \<Rightarrow> string_replacement list option" where
  "se_inverseOnSlice orig e = Option.bind (se_inverse_loop orig 0 e) new_StringEdit"

definition se_inverse :: "string \<Rightarrow> 'z string_replacement_scheme list \<Rightarrow> string_replacement list option" where
  "se_inverse original e = se_inverseOnSlice (\<lambda>s t. js_substring s t original) e"

definition areConcurrentInserts :: "offset_range \<Rightarrow> offset_range \<Rightarrow> bool" where
  "areConcurrentInserts r1 r2 \<longleftrightarrow> o_isEmpty r1 \<and> o_isEmpty r2 \<and> o_start r1 = o_start r2"

definition isInsertStrictlyInsideRange :: "offset_range \<Rightarrow> offset_range \<Rightarrow> bool" where
  "isInsertStrictlyInsideRange ins r \<longleftrightarrow> o_isEmpty ins \<and> o_start r < o_start ins \<and> o_start ins < o_end r"

definition rebase_conflict :: "offset_range \<Rightarrow> offset_range \<Rightarrow> bool" where
  "rebase_conflict our base \<longleftrightarrow> o_intersects our base \<or> areConcurrentInserts our base
     \<or> isInsertStrictlyInsideRange our base \<or> isInsertStrictlyInsideRange base our"

definition rebase_ours_first :: "offset_range \<Rightarrow> offset_range \<Rightarrow> bool" where
  "rebase_ours_first our base \<longleftrightarrow> o_start our < o_start base \<or> o_isEmpty our \<and> o_start our = o_start base"

fun se_rebase_loop ::
  "bool \<Rightarrow> 'z string_replacement_scheme list \<Rightarrow> string_replacement list \<Rightarrow> int \<Rightarrow> string_replacement list option" where
  "se_rebase_loop noOverlap [] bs off = Some []"
| "se_rebase_loop noOverlap (e # es) [] off =
     map_option (Cons (new_StringReplacement (o_delta off (sr_range e)) (sr_newText e)))
       (se_rebase_loop noOverlap es [] off)"
| "se_rebase_loop noOverlap (e # es) (b # bs) off =
     (if rebase_conflict (sr_range e) (sr_range b) then
        (if noOverlap then None else se_rebase_loop noOverlap es (b # bs) off)
      else if rebase_ours_first (sr_range e) (sr_range b) then
        map_option (Cons (new_StringReplacement (o_delta off (sr_range e)) (sr_newText e)))
          (se_rebase_loop noOverlap es (b # bs) off)
      else se_rebase_loop noOverlap (e # es) bs (off + (sr_getNewLength b - o_length (sr_range b))))"

definition se_rebaseOn ::
  "bool \<Rightarrow> string_replacement list \<Rightarrow> 'z string_replacement_scheme list \<Rightarrow> string_replacement list option" where
  "se_rebaseOn noOverlap base e = Option.bind (se_rebase_loop noOverlap e base 0) new_StringEdit"

definition se_rebaseSkipConflicting ::
  "string_replacement list \<Rightarrow> 'z string_replacement_scheme list \<Rightarrow> string_replacement list option" where
  "se_rebaseSkipConflicting base e = se_rebaseOn False base e"

definition se_tryRebase ::
  "string_replacement list \<Rightarrow> 'z string_replacement_scheme list \<Rightarrow> string_replacement list option" where
  "se_tryRebase base e = se_rebaseOn True base e"

definition se_trySwap ::
  "'z string_replacement_scheme list \<Rightarrow> 'w string_replacement_scheme list
     \<Rightarrow> (string_replacement list \<times> string_replacement list) option" where
  "se_trySwap e1 e2 =
     Option.bind (se_inverseOnSlice (\<lambda>s t. replicate (nat (t - s)) CHR '' '') e1) (\<lambda>e1Inv.
     Option.bind (se_tryRebase e1Inv e2) (\<lambda>e1'.
       map_option (Pair e1') (se_tryRebase e1' e1)))"

definition se_toJson :: "'z string_replacement_scheme list \<Rightarrow> serialized_replacement list" where
  "se_toJson e = map sr_toJson e"

definition all_defined :: "'a option list \<Rightarrow> 'a list option" where
  "all_defined xs = (if None \<in> set xs then None else Some (map the xs))"

definition se_fromJson :: "serialized_replacement list \<Rightarrow> string_replacement list option" where
  "se_fromJson js = Option.bind (all_defined (map sr_fromJson js)) new_StringEdit"

definition se_isNeutralOn :: "string \<Rightarrow> 'z string_replacement_scheme list \<Rightarrow> bool" where
  "se_isNeutralOn s e \<longleftrightarrow> list_all (sr_isNeutralOn s) e"

definition se_removeCommonSuffixPrefix ::
  "string \<Rightarrow> 'z string_replacement_scheme list \<Rightarrow> string_replacement list option" where
  "se_removeCommonSuffixPrefix original e =
     Option.bind (all_defined (map (sr_removeCommonSuffixPrefix original) e)) (\<lambda>es.
       new_StringEdit (filter (\<lambda>r. \<not> rc_isEmpty string_class r) es))"

definition se_normalizeEOL :: "string \<Rightarrow> 'z string_replacement_scheme list \<Rightarrow> string_replacement list option" where
  "se_normalizeEOL eol e = new_StringEdit (map (sr_normalizeEOL eol) e)"

definition se_normalizeOnSource :: "string \<Rightarrow> 'z string_replacement_scheme list \<Rightarrow> string_replacement list option" where
  "se_normalizeOnSource source e =
     Option.bind (o_ofLength (int (length source))) (\<lambda>g.
     Option.bind (sr_removeCommonSuffixAndPrefix source (sr_replacement g (se_apply e source))) (\<lambda>r.
       if rc_isEmpty string_class r then Some se_empty else sr_toEdit r))"

definition se_removeCommonSuffixAndPrefix ::
  "'z string_replacement_scheme replacement_class \<Rightarrow> string \<Rightarrow> 'z string_replacement_scheme list
     \<Rightarrow> 'z string_replacement_scheme list option" where
  "se_removeCommonSuffixAndPrefix c source e =
     Option.bind (all_defined (map (sr_removeCommonSuffixAndPrefix source) e)) (\<lambda>es.
     Option.bind (new_Edit c es) (be_normalize c))"

definition se_mapData ::
  "('z string_replacement_scheme \<Rightarrow> 'd) \<Rightarrow> 'z string_replacement_scheme list \<Rightarrow> 'd annotated_replacement list" where
  "se_mapData f e = map (\<lambda>r. new_AnnotatedStringReplacement (sr_range r) (sr_newText r) (f r)) e"

definition as_toStringEdit ::
  "('d annotated_replacement \<Rightarrow> bool) option \<Rightarrow> 'd annotated_replacement list \<Rightarrow> string_replacement list option" where
  "as_toStringEdit keep e =
     new_StringEdit (map (\<lambda>r. new_StringReplacement (sr_range r) (sr_newText r))
       (filter (\<lambda>r. case keep of None \<Rightarrow> True | Some k \<Rightarrow> k r) e))"

text \<open>Both classes compose a list of edits from the left.\<close>

fun compose_all :: "'r replacement_class \<Rightarrow> 'r list \<Rightarrow> 'r list list \<Rightarrow> 'r list option" where
  "compose_all c acc [] = Some acc"
| "compose_all c acc (e # es) = Option.bind (be_compose c acc e) (\<lambda>a. compose_all c a es)"

definition be_compose_list :: "'r replacement_class \<Rightarrow> 'r list list \<Rightarrow> 'r list option" where
  "be_compose_list c es = (case es of [] \<Rightarrow> Some [] | e # es \<Rightarrow> compose_all c e es)"

text \<open>\<open>composeOrUndefined\<close> answers \<open>undefined\<close> for no edits.\<close>

definition se_composeOrUndefined :: "'r replacement_class \<Rightarrow> 'r list list \<Rightarrow> 'r list option option" where
  "se_composeOrUndefined c es = (case es of [] \<Rightarrow> Some None | e # es \<Rightarrow> map_option Some (compose_all c e es))"

fun compose_seq_loop ::
  "string_replacement list \<Rightarrow> string_replacement list \<Rightarrow> string_replacement list \<Rightarrow> string_replacement list option" where
  "compose_seq_loop edit cur [] = Option.bind (new_StringEdit (rev cur)) (be_compose string_class edit)"
| "compose_seq_loop edit cur (r # rs) =
     (if cur = [] \<or> o_isBefore (sr_range r) (sr_range (last cur)) then compose_seq_loop edit (cur @ [r]) rs
      else Option.bind (new_StringEdit (rev cur)) (\<lambda>x.
           Option.bind (be_compose string_class edit x) (\<lambda>edit'. compose_seq_loop edit' [r] rs)))"

definition se_composeSequentialReplacements :: "string_replacement list \<Rightarrow> string_replacement list option" where
  "se_composeSequentialReplacements rs = compose_seq_loop se_empty [] rs"

text \<open>The named constructors of \<open>StringEdit\<close>.\<close>

definition se_create :: "string_replacement list \<Rightarrow> string_replacement list option" where
  "se_create rs = new_StringEdit rs"

definition se_single :: "string_replacement \<Rightarrow> string_replacement list option" where
  "se_single r = new_StringEdit [r]"

definition se_replace :: "offset_range \<Rightarrow> string \<Rightarrow> string_replacement list option" where
  "se_replace g t = new_StringEdit [new_StringReplacement g t]"

definition se_insert :: "int \<Rightarrow> string \<Rightarrow> string_replacement list option" where
  "se_insert off t = new_StringEdit [new_StringReplacement (o_emptyAt off) t]"

definition se_delete :: "offset_range \<Rightarrow> string_replacement list option" where
  "se_delete g = new_StringEdit [new_StringReplacement g []]"

text \<open>\<open>applyEditsToRanges\<close>: ranges before the edit, the ranges it touches, one after the other.\<close>

fun ranges_before :: "int \<Rightarrow> int \<Rightarrow> offset_range list \<Rightarrow> offset_range list \<times> offset_range list" where
  "ranges_before start off [] = ([], [])"
| "ranges_before start off (r # rs) =
     (if o_end r \<ge> start then (r # rs, [])
      else case ranges_before start off rs of (q, out) \<Rightarrow> (q, o_delta off r # out))"

definition adjust_range :: "'z string_replacement_scheme \<Rightarrow> nat \<Rightarrow> offset_range \<Rightarrow> offset_range option" where
  "adjust_range e i r =
     Option.bind (o_intersect r (sr_range e)) (\<lambda>overlap.
     map_option (\<lambda>r1.
         let ahead = o_start r1 - o_start (sr_range e);
             r2 = (if ahead > 0 then o_delta (- ahead) r1 else r1);
             r3 = (if i \<noteq> 0 then o_delta (sr_getNewLength e) r2 else r2)
         in o_delta (- (sr_getNewLength e - o_length (sr_range e))) r3)
       (o_deltaEnd (- o_length overlap + (if i = 0 then sr_getNewLength e else 0)) r))"

definition adjust_ranges :: "'z string_replacement_scheme \<Rightarrow> offset_range list \<Rightarrow> offset_range list option" where
  "adjust_ranges e rs = all_defined (map (\<lambda>(i, r). adjust_range e i r) (zip [0..<length rs] rs))"

fun apply_to_ranges_loop ::
  "'z string_replacement_scheme list \<Rightarrow> int \<Rightarrow> offset_range list \<Rightarrow> offset_range list option" where
  "apply_to_ranges_loop [] off rs = Some (map (o_delta off) rs)"
| "apply_to_ranges_loop (e # es) off rs =
     (case ranges_before (o_start (sr_range e)) off rs of (q, out) \<Rightarrow>
        Option.bind (adjust_ranges e (takeWhile (\<lambda>r. o_intersectsOrTouches r (sr_range e)) q)) (\<lambda>touching.
        map_option (append out)
          (apply_to_ranges_loop es (off + (sr_getNewLength e - o_length (sr_range e)))
             (touching @ dropWhile (\<lambda>r. o_intersectsOrTouches r (sr_range e)) q))))"

definition applyEditsToRanges ::
  "offset_range list \<Rightarrow> 'z string_replacement_scheme list \<Rightarrow> offset_range list option" where
  "applyEditsToRanges sortedRanges e = apply_to_ranges_loop e 0 sortedRanges"

section \<open>Both classes meet the contract\<close>

lemma class_simps [simp]:
  "rc_range string_class = sr_range" "rc_newLength string_class = sr_getNewLength"
  "rc_tryJoin string_class = sr_tryJoinTouching" "rc_slice string_class = sr_slice"
  "rc_range (annotated_class join) = sr_range" "rc_newLength (annotated_class join) = sr_getNewLength"
  "rc_tryJoin (annotated_class join) = ar_tryJoinTouching join" "rc_slice (annotated_class join) = sr_slice"
  by (simp_all add: string_class_def annotated_class_def)

lemma class_bounds [simp]:
  "rstart string_class r = o_start (sr_range r)" "rend string_class r = o_end (sr_range r)"
  "rstart (annotated_class join) a = o_start (sr_range a)" "rend (annotated_class join) a = o_end (sr_range a)"
  by (simp_all add: rstart_def rend_def)

lemma slice_newText:
  "0 \<le> a \<Longrightarrow> a \<le> b \<Longrightarrow> b \<le> sr_getNewLength r \<Longrightarrow>
   sr_newText (sr_slice g (Some \<lparr>o_start = a, o_end = b\<rparr>) r) = cut a b (sr_newText r)"
  by (simp add: sr_slice_def o_substring_def cut_substring sr_getNewLength_def)

lemmas class_laws = sr_getNewLength_def slice_newText sr_tryJoinTouching_def new_StringReplacement_def
  ar_tryJoinTouching_def new_AnnotatedStringReplacement_def o_joinRightTouching_def new_OffsetRange_def

interpretation string_edit: joining_text string_class sr_newText
proof unfold_locales
  fix a b :: int and g r
  assume "0 \<le> a" "a \<le> b" "b \<le> rc_newLength string_class r"
  then show "sr_newText (rc_slice string_class g (Some \<lparr>o_start = a, o_end = b\<rparr>) r) = cut a b (sr_newText r)"
    by (simp add: slice_newText)
qed (auto simp: class_laws sr_slice_def split: if_splits)

interpretation annotated_edit: replacement_text "annotated_class join" sr_newText for join
proof unfold_locales
  fix a b :: int and g and r :: "'a annotated_replacement"
  assume "0 \<le> a" "a \<le> b" "b \<le> rc_newLength (annotated_class join) r"
  then show "sr_newText (rc_slice (annotated_class join) g (Some \<lparr>o_start = a, o_end = b\<rparr>) r)
      = cut a b (sr_newText r)"
    by (simp add: slice_newText)
qed (auto simp: class_laws sr_slice_def split: if_splits bind_splits)

section \<open>Application\<close>

text \<open>An edit can be applied to a text if its replacements lie inside it.\<close>

fun se_fits :: "int \<Rightarrow> 'z string_replacement_scheme list \<Rightarrow> int \<Rightarrow> bool" where
  "se_fits p [] e \<longleftrightarrow> p \<le> e"
| "se_fits p (r # rs) e \<longleftrightarrow> p \<le> o_start (sr_range r) \<and> o_start (sr_range r) \<le> o_end (sr_range r)
     \<and> se_fits (o_end (sr_range r)) rs e"

definition applicable :: "'z string_replacement_scheme list \<Rightarrow> string \<Rightarrow> bool" where
  "applicable e base \<longleftrightarrow> se_fits 0 e (int (length base))"

lemma se_fits_string: "fits string_class p rs e = se_fits p rs e"
  by (induction rs arbitrary: p) simp_all

lemma se_fits_annotated: "fits (annotated_class join) p rs e = se_fits p rs e"
  by (induction rs arbitrary: p) simp_all

lemma se_fits_le: "se_fits p rs e \<Longrightarrow> p \<le> e"
  by (induction rs arbitrary: p) force+

text \<open>The effect of an edit on a text, for both classes.\<close>

fun effect :: "int \<Rightarrow> 'z string_replacement_scheme list \<Rightarrow> string \<Rightarrow> string" where
  "effect p [] s = cut p (int (length s)) s"
| "effect p (r # rs) s = cut p (o_start (sr_range r)) s @ sr_newText r @ effect (o_end (sr_range r)) rs s"

lemma effect_string: "stretch string_class sr_newText p e (int (length s)) s = effect p e s"
  by (induction e arbitrary: p) simp_all

lemma effect_annotated: "stretch (annotated_class join) sr_newText p e (int (length s)) s = effect p e s"
  by (induction e arbitrary: p) simp_all

lemma apply_loop_effect: "se_fits p e (int (length s)) \<Longrightarrow> 0 \<le> p \<Longrightarrow> se_apply_loop s p e = effect p e s"
proof (induction e arbitrary: p)
  case (Cons r e)
  then show ?case using se_fits_le [of "o_end (sr_range r)" e "int (length s)"] by (simp add: cut_substring)
qed (simp add: cut_substring)

lemma apply_effect: "applicable e s \<Longrightarrow> se_apply e s = effect 0 e s"
  by (simp add: applicable_def se_apply_def apply_loop_effect)

lemma effect_extend:
  "se_fits q e (int (length s)) \<Longrightarrow> 0 \<le> p \<Longrightarrow> p \<le> q \<Longrightarrow> cut p q s @ effect q e s = effect p e s"
  by (cases e) (auto simp: cut_join cut_join_more)

lemma se_fits_skip:
  "se_fits p e n \<Longrightarrow> (e = [] \<and> q \<le> n) \<or> (e \<noteq> [] \<and> q \<le> o_start (sr_range (hd e))) \<Longrightarrow> se_fits q e n"
  by (cases e) auto

lemma se_fits_sorted: "se_fits 0 e n \<Longrightarrow> new_StringEdit e = Some e"
  using fits_new_Edit [of string_class e n] by (simp add: se_fits_string)

text \<open>\<open>reads s q v\<close>: from \<open>q\<close> on, \<open>s\<close> reads \<open>v\<close>.\<close>

definition reads :: "string \<Rightarrow> int \<Rightarrow> string \<Rightarrow> bool" where
  "reads s q v \<longleftrightarrow> 0 \<le> q \<and> q \<le> int (length s) \<and> drop (nat q) s = v"

lemma reads_start: "reads s 0 s"
  by (simp add: reads_def)

lemma reads_append:
  assumes "reads s q (u @ v)" and "q' = q + int (length u)"
  shows "cut q q' s = u" "reads s q' v"
proof -
  have d: "0 \<le> q" "q \<le> int (length s)" "drop (nat q) s = u @ v" using assms(1) by (simp_all add: reads_def)
  have "length s - nat q = length u + length v" using arg_cong [OF d(3), of length] by simp
  then show "cut q q' s = u" "reads s q' v"
    using cut_in_append [OF d(3,1) assms(2)] d(1,2) assms(2) by (simp_all add: reads_def)
qed

lemma reads_tail: "reads s q v \<Longrightarrow> cut q (int (length s)) s = v"
  by (simp add: reads_def cut_suffix)

lemma effect_reads: "0 \<le> p \<Longrightarrow> p \<le> int (length s) \<Longrightarrow> effect p [] s = drop (nat p) s"
  by (simp add: cut_suffix)

text \<open>Reading what an edit made of a text, up to and past its first replacement.\<close>

lemma reads_first:
  assumes "reads s1 q (effect p (r # rs) s)" "0 \<le> p" "se_fits p (r # rs) (int (length s))"
  shows "cut q (q + (o_start (sr_range r) - p)) s1 = cut p (o_start (sr_range r)) s"
    "cut q (q + (o_start (sr_range r) - p) + sr_getNewLength r) s1 = cut p (o_start (sr_range r)) s @ sr_newText r"
    "reads s1 (q + (o_start (sr_range r) - p) + sr_getNewLength r) (effect (o_end (sr_range r)) rs s)"
    "reads s1 (q + (o_start (sr_range r) - p)) (sr_newText r @ effect (o_end (sr_range r)) rs s)"
proof -
  have l: "int (length (cut p (o_start (sr_range r)) s)) = o_start (sr_range r) - p"
    using assms(2,3) se_fits_le [of "o_end (sr_range r)" rs "int (length s)"] by (simp add: cut_length)
  note 1 = reads_append [OF assms(1) [unfolded effect.simps], of "q + (o_start (sr_range r) - p)"]
  then show "cut q (q + (o_start (sr_range r) - p)) s1 = cut p (o_start (sr_range r)) s"
    "reads s1 (q + (o_start (sr_range r) - p)) (sr_newText r @ effect (o_end (sr_range r)) rs s)"
    using l by simp_all
  note 2 = reads_append [of s1 q "cut p (o_start (sr_range r)) s @ sr_newText r" "effect (o_end (sr_range r)) rs s"]
  show "cut q (q + (o_start (sr_range r) - p) + sr_getNewLength r) s1 = cut p (o_start (sr_range r)) s @ sr_newText r"
    "reads s1 (q + (o_start (sr_range r) - p) + sr_getNewLength r) (effect (o_end (sr_range r)) rs s)"
    using 2 assms(1) l by (simp_all add: sr_getNewLength_def add.assoc)
qed

section \<open>Composition, normalization and offsets\<close>

text \<open>
  C20. \<open>compose\<close>: the composition of two edits exists, and applying it does what applying the
  two edits one after the other does.
\<close>

theorem string_compose_applies:
  assumes "applicable e1 s" "applicable e2 (se_apply e1 s)"
  shows "\<exists>e. be_compose string_class e1 e2 = Some e \<and> applicable e s
    \<and> se_apply e s = se_apply e2 (se_apply e1 s)"
  using string_edit.compose_effect [of e1 s e2] assms apply_effect [OF assms(1)] apply_effect [OF assms(2)]
  by (auto simp: applicable_def se_fits_string effect_string Let_def apply_effect)

lemma string_compose_applies_witness:
  "\<exists>e. be_compose string_class [\<lparr>sr_range = \<lparr>o_start = 1, o_end = 3\<rparr>, sr_newText = ''XYZ''\<rparr>, \<lparr>sr_range = \<lparr>o_start = 4, o_end = 4\<rparr>, sr_newText = ''q''\<rparr>] [\<lparr>sr_range = \<lparr>o_start = 2, o_end = 5\<rparr>, sr_newText = ''w''\<rparr>] = Some e
    \<and> applicable e ''abcde'' \<and> se_apply e ''abcde'' = ''aXwqe''"
proof -
  have 1: "applicable [\<lparr>sr_range = \<lparr>o_start = 1, o_end = 3\<rparr>, sr_newText = ''XYZ''\<rparr>, \<lparr>sr_range = \<lparr>o_start = 4, o_end = 4\<rparr>, sr_newText = ''q''\<rparr>] ''abcde''" by code_simp
  have 2: "applicable [\<lparr>sr_range = \<lparr>o_start = 2, o_end = 5\<rparr>, sr_newText = ''w''\<rparr>] (se_apply [\<lparr>sr_range = \<lparr>o_start = 1, o_end = 3\<rparr>, sr_newText = ''XYZ''\<rparr>, \<lparr>sr_range = \<lparr>o_start = 4, o_end = 4\<rparr>, sr_newText = ''q''\<rparr>] ''abcde'')"
    by code_simp
  have "se_apply [\<lparr>sr_range = \<lparr>o_start = 2, o_end = 5\<rparr>, sr_newText = ''w''\<rparr>] (se_apply [\<lparr>sr_range = \<lparr>o_start = 1, o_end = 3\<rparr>, sr_newText = ''XYZ''\<rparr>, \<lparr>sr_range = \<lparr>o_start = 4, o_end = 4\<rparr>, sr_newText = ''q''\<rparr>] ''abcde'') = ''aXwqe''"
    by code_simp
  then show ?thesis using string_compose_applies [OF 1 2] by simp
qed

text \<open>The same holds of annotated edits, whatever data can be joined.\<close>

theorem annotated_compose_applies:
  assumes "applicable e1 s" "applicable e2 (se_apply e1 s)"
  shows "\<exists>e. be_compose (annotated_class join) e1 e2 = Some e \<and> applicable e s
    \<and> se_apply e s = se_apply e2 (se_apply e1 s)"
  using annotated_edit.compose_effect [of join e1 s e2] assms apply_effect [OF assms(1)] apply_effect [OF assms(2)]
  by (auto simp: applicable_def se_fits_annotated effect_annotated Let_def apply_effect)

text \<open>
  \<open>normalize\<close>: the normal form exists, has the same effect, no empty replacement, and no
  two replacements that touch.
\<close>

lemma string_normalize_normal:
  assumes "applicable e s"
  shows "\<exists>n. be_normalize string_class e = Some n \<and> applicable n s \<and> se_apply n s = se_apply e s
    \<and> list_all (\<lambda>r. \<not> rc_isEmpty string_class r) n \<and> gaps string_class n"
proof -
  have f: "fits string_class 0 e (int (length s))" using assms by (simp add: applicable_def se_fits_string)
  obtain n where n: "be_normalize string_class e = Some n" "fits string_class 0 n (int (length s))"
    using string_edit.normalize_fits [OF f] by blast
  then show ?thesis
    using string_edit.normalize_effect [OF f n(1), of s] string_edit.normalize_normal [OF f n(1)] assms
    by (simp add: applicable_def se_fits_string effect_string apply_effect)
qed

section \<open>Inversion\<close>

lemma inverse_loop_restores:
  assumes "se_fits p e (int (length s))" "0 \<le> p" "reads s1 (p + off) (effect p e s)"
  shows "\<exists>inv. se_inverse_loop (\<lambda>a b. js_substring a b s) off e = Some inv
    \<and> se_fits (p + off) inv (int (length s1)) \<and> effect (p + off) inv s1 = drop (nat p) s"
  using assms
proof (induction e arbitrary: p off)
  case Nil
  then show ?case by (simp add: reads_tail cut_suffix) (simp add: reads_def)
next
  case (Cons r e)
  let ?n = "int (length s)" and ?b = "o_start (sr_range r)" and ?e = "o_end (sr_range r)"
  let ?off = "off + (sr_getNewLength r - o_length (sr_range r))"
  have f: "p \<le> ?b" "?b \<le> ?e" "se_fits ?e e ?n" "?e \<le> ?n" using Cons.prems(1) se_fits_le [of ?e e ?n] by simp_all
  note first = reads_first [OF Cons.prems(3,2,1)]
  have q: "?b + off + sr_getNewLength r = ?e + ?off" by (simp add: o_length_def)
  have i: "p + off + (?b - p) + sr_getNewLength r = ?e + ?off" by (simp add: o_length_def)
  have "reads s1 (?e + ?off) (effect ?e e s)" using first(3) unfolding i .
  then obtain inv where inv: "se_inverse_loop (\<lambda>a b. js_substring a b s) ?off e = Some inv"
    "se_fits (?e + ?off) inv (int (length s1))" "effect (?e + ?off) inv s1 = drop (nat ?e) s"
    using Cons.IH [of ?e ?off] f Cons.prems(2) by auto
  have "cut (p + off) (?b + off) s1 = cut p ?b s" using first(1) by (simp add: algebra_simps)
  moreover have "cut p ?b s @ cut ?b ?e s @ drop (nat ?e) s = drop (nat p) s"
    using Cons.prems(2) f by (simp add: cut_drop)
  moreover have "0 \<le> sr_getNewLength r" by (simp add: sr_getNewLength_def)
  ultimately show ?case
    using inv(1) inv(2,3) [folded q] f Cons.prems(2)
    by (simp add: o_ofStartAndLength_def new_OffsetRange_def sr_replacement_def new_StringReplacement_def cut_substring)
qed

text \<open>
  C22. \<open>inverse\<close>: the inverse of an edit exists, can be applied to the edited text, and restores
  the original.
\<close>

theorem string_inverse_restores:
  assumes "applicable e s"
  shows "\<exists>inv. se_inverse s e = Some inv \<and> applicable inv (se_apply e s) \<and> se_apply inv (se_apply e s) = s"
proof -
  have f: "se_fits 0 e (int (length s))" using assms by (simp add: applicable_def)
  obtain inv where "se_inverse_loop (\<lambda>a b. js_substring a b s) 0 e = Some inv"
    "se_fits 0 inv (int (length (se_apply e s)))" "effect 0 inv (se_apply e s) = s"
    using inverse_loop_restores [OF f, of "se_apply e s" 0] reads_start [of "se_apply e s"]
    by (auto simp: apply_effect [OF assms])
  then show ?thesis
    by (auto simp: se_inverse_def se_inverseOnSlice_def se_fits_sorted applicable_def apply_effect)
qed

lemma string_inverse_restores_witness:
  "\<exists>inv. se_inverse ''abcde'' [\<lparr>sr_range = \<lparr>o_start = 1, o_end = 3\<rparr>, sr_newText = ''XYZ''\<rparr>, \<lparr>sr_range = \<lparr>o_start = 4, o_end = 4\<rparr>, sr_newText = ''q''\<rparr>] = Some inv \<and> se_apply inv ''aXYZdqe'' = ''abcde''"
proof -
  have 1: "applicable [\<lparr>sr_range = \<lparr>o_start = 1, o_end = 3\<rparr>, sr_newText = ''XYZ''\<rparr>, \<lparr>sr_range = \<lparr>o_start = 4, o_end = 4\<rparr>, sr_newText = ''q''\<rparr>] ''abcde''" by code_simp
  have "se_apply [\<lparr>sr_range = \<lparr>o_start = 1, o_end = 3\<rparr>, sr_newText = ''XYZ''\<rparr>, \<lparr>sr_range = \<lparr>o_start = 4, o_end = 4\<rparr>, sr_newText = ''q''\<rparr>] ''abcde'' = ''aXYZdqe''" by code_simp
  then show ?thesis using string_inverse_restores [OF 1] by auto
qed

section \<open>Rebasing\<close>

text \<open>Replacements that do not conflict lie one before the other, and which is symmetric.\<close>

lemma conflict_sym: "rebase_conflict r1 r2 = rebase_conflict r2 r1"
  by (auto simp: rebase_conflict_def o_intersects_def areConcurrentInserts_def Let_def max.commute min.commute)

lemma intersects_iff:
  "o_intersects r1 r2 \<longleftrightarrow> o_start r1 < o_end r1 \<and> o_start r1 < o_end r2 \<and> o_start r2 < o_end r1 \<and> o_start r2 < o_end r2"
  by (auto simp: o_intersects_def Let_def)

lemma no_conflict_iff:
  assumes "o_start r1 \<le> o_end r1" "o_start r2 \<le> o_end r2"
  shows "\<not> rebase_conflict r1 r2 \<longleftrightarrow> (o_end r1 \<le> o_start r2 \<or> o_end r2 \<le> o_start r1)
    \<and> \<not> (o_start r1 = o_end r1 \<and> o_start r2 = o_end r2 \<and> o_start r1 = o_start r2)"
  unfolding rebase_conflict_def intersects_iff areConcurrentInserts_def isInsertStrictlyInsideRange_def o_isEmpty_def
  using assms by presburger

lemma no_conflict_order:
  assumes "\<not> rebase_conflict r1 r2" "o_start r1 \<le> o_end r1" "o_start r2 \<le> o_end r2"
  shows "rebase_ours_first r1 r2 \<Longrightarrow> o_end r1 \<le> o_start r2"
    "\<not> rebase_ours_first r1 r2 \<Longrightarrow> o_end r2 \<le> o_start r1"
    "rebase_ours_first r2 r1 \<longleftrightarrow> \<not> rebase_ours_first r1 r2"
proof -
  have c: "o_end r1 \<le> o_start r2 \<or> o_end r2 \<le> o_start r1"
    "\<not> (o_start r1 = o_end r1 \<and> o_start r2 = o_end r2 \<and> o_start r1 = o_start r2)"
    using assms(1) no_conflict_iff [OF assms(2,3)] by simp_all
  show "rebase_ours_first r1 r2 \<Longrightarrow> o_end r1 \<le> o_start r2"
    "\<not> rebase_ours_first r1 r2 \<Longrightarrow> o_end r2 \<le> o_start r1"
    "rebase_ours_first r2 r1 \<longleftrightarrow> \<not> rebase_ours_first r1 r2"
    using c assms(2,3) unfolding rebase_ours_first_def o_isEmpty_def by linarith+
qed

text \<open>The two edits merged: where neither conflicts, their union in order.\<close>

fun woven :: "string_replacement list \<Rightarrow> string_replacement list \<Rightarrow> string_replacement list option" where
  "woven [] bs = Some bs"
| "woven (e # es) [] = Some (e # es)"
| "woven (e # es) (b # bs) =
     (if rebase_conflict (sr_range e) (sr_range b) then None
      else if rebase_ours_first (sr_range e) (sr_range b) then map_option (Cons e) (woven es (b # bs))
      else map_option (Cons b) (woven (e # es) bs))"

lemma woven_Nil [simp]: "woven es [] = Some es"
  by (cases es) simp_all

lemma woven_sym: "se_fits p es n \<Longrightarrow> se_fits p bs n \<Longrightarrow> woven es bs = woven bs es"
proof (induction es bs arbitrary: p rule: woven.induct)
  case (3 e es b bs)
  have f: "o_start (sr_range e) \<le> o_end (sr_range e)" "o_start (sr_range b) \<le> o_end (sr_range b)"
    using "3.prems" by simp_all
  show ?case
  proof (cases "rebase_conflict (sr_range e) (sr_range b)")
    case True
    then show ?thesis by (simp add: conflict_sym)
  next
    case False
    note o = no_conflict_order [OF False f]
    show ?thesis
    proof (cases "rebase_ours_first (sr_range e) (sr_range b)")
      case True
      have "woven es (b # bs) = woven (b # bs) es"
        using "3.prems" o(1) [OF True] by (intro "3.IH"(1) [OF False True, of "o_end (sr_range e)"]) simp_all
      then show ?thesis using False True o(3) by (simp add: conflict_sym)
    next
      case second: False
      have "woven (e # es) bs = woven bs (e # es)"
        using "3.prems" o(2) [OF second] by (intro "3.IH"(2) [OF False second, of "o_end (sr_range b)"]) simp_all
      then show ?thesis using False second o(3) by (simp add: conflict_sym)
    qed
  qed
qed (auto split: list.splits)

lemma woven_fits: "woven es bs = Some w \<Longrightarrow> se_fits p es n \<Longrightarrow> se_fits p bs n \<Longrightarrow> se_fits p w n"
proof (induction es bs arbitrary: p w rule: woven.induct)
  case (3 e es b bs)
  have f: "o_start (sr_range e) \<le> o_end (sr_range e)" "o_start (sr_range b) \<le> o_end (sr_range b)"
    using "3.prems" by simp_all
  have c: "\<not> rebase_conflict (sr_range e) (sr_range b)" using "3.prems"(1) by (auto split: if_splits)
  note o = no_conflict_order [OF c f]
  show ?case
  proof (cases "rebase_ours_first (sr_range e) (sr_range b)")
    case True
    then obtain w' where "woven es (b # bs) = Some w'" "w = e # w'" using "3.prems"(1) c by auto
    then show ?thesis using "3.IH"(1) [OF c True] "3.prems" o(1) [OF True] by simp
  next
    case False
    then obtain w' where "woven (e # es) bs = Some w'" "w = b # w'" using "3.prems"(1) c by auto
    then show ?thesis using "3.IH"(2) [OF c False] "3.prems" o(2) [OF False] by simp
  qed
qed auto

text \<open>Reading on in the unchanged text before the next replacement.\<close>

definition clear_to :: "'z string_replacement_scheme list \<Rightarrow> int \<Rightarrow> int \<Rightarrow> bool" where
  "clear_to bs q n \<longleftrightarrow> (if bs = [] then q \<le> n else q \<le> o_start (sr_range (hd bs)))"

lemma clear_fits: "se_fits p bs n \<Longrightarrow> clear_to bs q n \<Longrightarrow> se_fits q bs n"
  by (cases bs) (simp_all add: clear_to_def)

lemma reads_skip:
  assumes "se_fits p bs (int (length s))" "0 \<le> p" "p \<le> q" "clear_to bs q (int (length s))"
    and "reads s1 (p + off) (effect p bs s)"
  shows "cut (p + off) (q + off) s1 = cut p q s" "reads s1 (q + off) (effect q bs s)"
proof -
  note f = clear_fits [OF assms(1,4)]
  have "effect p bs s = cut p q s @ effect q bs s" using effect_extend [OF f assms(2,3)] by simp
  moreover have "int (length (cut p q s)) = q - p" using assms(2,3) se_fits_le [OF f] by (simp add: cut_length)
  ultimately show "cut (p + off) (q + off) s1 = cut p q s" "reads s1 (q + off) (effect q bs s)"
    using reads_append [of s1 "p + off" "cut p q s" "effect q bs s" "q + off"] assms(5) by simp_all
qed

text \<open>
  Rebasing \<open>es\<close> onto \<open>bs\<close> succeeds if the two can be woven, and then has the effect of the
  woven edit, read in the text that \<open>bs\<close> produced.
\<close>

definition rebased ::
  "string \<Rightarrow> string \<Rightarrow> int \<Rightarrow> int \<Rightarrow> string_replacement list option \<Rightarrow> string_replacement list option \<Rightarrow> bool" where
  "rebased s s1 p off w es' \<longleftrightarrow>
     (case (w, es') of
        (None, None) \<Rightarrow> True
      | (Some w, Some es') \<Rightarrow> se_fits (p + off) es' (int (length s1)) \<and> effect (p + off) es' s1 = effect p w s
      | _ \<Rightarrow> False)"

lemma rebased_take:
  assumes fits: "se_fits p bs (int (length s))" "0 \<le> p" "p \<le> o_start (sr_range e)"
      "o_start (sr_range e) \<le> o_end (sr_range e)" "clear_to bs (o_end (sr_range e)) (int (length s))"
    and reads: "reads s1 (p + off) (effect p bs s)"
    and rest: "reads s1 (o_end (sr_range e) + off) (effect (o_end (sr_range e)) bs s) \<Longrightarrow>
      rebased s s1 (o_end (sr_range e)) off w es'"
  shows "rebased s s1 p off (map_option (Cons e) w)
    (map_option (Cons (new_StringReplacement (o_delta off (sr_range e)) (sr_newText e))) es')"
proof -
  let ?b = "o_start (sr_range e)" and ?e = "o_end (sr_range e)"
  have c: "clear_to bs ?b (int (length s))" using fits(4,5) by (auto simp: clear_to_def split: if_splits)
  note 1 = reads_skip [OF fits(1,2,3) c reads]
  have "0 \<le> ?b" using fits(2,3) by simp
  note 2 = reads_skip [OF clear_fits [OF fits(1) c] this fits(4,5) 1(2)]
  show ?thesis
    using rest [OF 2(2)] 1(1) fits
    by (auto simp: rebased_def new_StringReplacement_def o_delta_def split: option.splits)
qed

lemma rebased_base:
  assumes fits: "se_fits p (b # bs) (int (length s))" "0 \<le> p"
    and reads: "reads s1 (p + off) (effect p (b # bs) s)"
    and off': "off' = off + (sr_getNewLength b - o_length (sr_range b))"
    and rest: "reads s1 (o_end (sr_range b) + off') (effect (o_end (sr_range b)) bs s) \<Longrightarrow>
      rebased s s1 (o_end (sr_range b)) off' w es'"
  shows "rebased s s1 p off (map_option (Cons b) w) es'"
proof -
  let ?b = "o_start (sr_range b)" and ?e = "o_end (sr_range b)"
  have i: "p + off + (?b - p) + sr_getNewLength b = ?e + off'" by (simp add: off' o_length_def)
  note first = reads_first [OF reads fits(2,1), unfolded i]
  have le: "p + off \<le> ?e + off'"
    using fits(1) unfolding i [symmetric] by (simp add: sr_getNewLength_def)
  have q: "0 \<le> p + off" using reads by (simp add: reads_def)
  note r = rest [OF first(3)]
  show ?thesis
  proof (cases w)
    case None
    then show ?thesis using r by (auto simp: rebased_def split: option.splits)
  next
    case (Some w')
    then obtain es'' where es'': "es' = Some es''" "se_fits (?e + off') es'' (int (length s1))"
      "effect (?e + off') es'' s1 = effect ?e w' s"
      using r by (auto simp: rebased_def split: option.splits)
    have "se_fits (p + off) es'' (int (length s1))"
      using es''(2) le by (cases es'') simp_all
    moreover have "effect (p + off) es'' s1 = effect p (b # w') s"
      using effect_extend [OF es''(2) q le] es''(3) first(2) by simp
    ultimately show ?thesis using Some es''(1) by (simp add: rebased_def)
  qed
qed

lemma rebase_loop_effect:
  assumes "se_fits p es (int (length s))" "se_fits p bs (int (length s))" "0 \<le> p"
    and "reads s1 (p + off) (effect p bs s)"
  shows "rebased s s1 p off (woven es bs) (se_rebase_loop True es bs off)"
  using assms
proof (induction True es bs off arbitrary: p rule: se_rebase_loop.induct)
  case (1 bs off)
  then show ?case by (auto simp: rebased_def reads_tail) (simp add: reads_def)
next
  case (2 e es off)
  have f: "p \<le> o_start (sr_range e)" "o_start (sr_range e) \<le> o_end (sr_range e)"
    "se_fits (o_end (sr_range e)) es (int (length s))" using "2.prems" by simp_all
  have "clear_to ([] :: string_replacement list) (o_end (sr_range e)) (int (length s))"
    using se_fits_le [OF f(3)] by (simp add: clear_to_def)
  from rebased_take [OF "2.prems"(2,3) f(1,2) this "2.prems"(4), of "Some es"]
  show ?case using "2.hyps" [OF f(3)] f "2.prems"(3) se_fits_le [OF f(3)] by simp
next
  case (3 e es b bs off)
  have f: "o_start (sr_range e) \<le> o_end (sr_range e)" "o_start (sr_range b) \<le> o_end (sr_range b)"
    using "3.prems" by simp_all
  show ?case
  proof (cases "rebase_conflict (sr_range e) (sr_range b)")
    case True
    then show ?thesis by (simp add: rebased_def)
  next
    case c: False
    note o = no_conflict_order [OF c f]
    show ?thesis
    proof (cases "rebase_ours_first (sr_range e) (sr_range b)")
      case True
      then have "clear_to (b # bs) (o_end (sr_range e)) (int (length s))"
        using o(1) by (simp add: clear_to_def)
      from rebased_take [OF "3.prems"(2,3) _ f(1) this "3.prems"(4)]
      show ?thesis using "3.hyps"(2) [OF c True, of "o_end (sr_range e)"] "3.prems" f o(1) [OF True] c True by simp
    next
      case False
      from rebased_base [OF "3.prems"(2,3,4) refl]
      show ?thesis using "3.hyps"(3) [OF c False, of "o_end (sr_range b)"] "3.prems" f o(2) [OF False] c False by simp
    qed
  qed
qed

lemma tryRebase_woven:
  assumes "applicable e s" "applicable b s"
  shows "case woven e b of
      None \<Rightarrow> se_tryRebase b e = None
    | Some w \<Rightarrow> (\<exists>e'. se_tryRebase b e = Some e' \<and> applicable e' (se_apply b s)
        \<and> se_apply e' (se_apply b s) = effect 0 w s)"
proof -
  have r: "rebased s (se_apply b s) 0 0 (woven e b) (se_rebase_loop True e b 0)"
    using rebase_loop_effect [of 0 e s b "se_apply b s" 0] assms reads_start [of "se_apply b s"]
    by (simp add: applicable_def apply_effect [OF assms(2)])
  show ?thesis
    using r se_fits_sorted
    by (auto simp: rebased_def se_tryRebase_def se_rebaseOn_def applicable_def apply_effect split: option.splits)
qed

text \<open>
  C23. \<open>tryRebase\<close>: of two edits of the same text, each can be rebased onto the other or neither
  can; and then it does not matter which is applied first.
\<close>

theorem rebase_converges:
  assumes "applicable e1 s" "applicable e2 s"
  shows "(se_tryRebase e1 e2 = None \<longleftrightarrow> se_tryRebase e2 e1 = None)
    \<and> (\<forall>e1' e2'. se_tryRebase e2 e1 = Some e1' \<and> se_tryRebase e1 e2 = Some e2' \<longrightarrow>
         applicable e1' (se_apply e2 s) \<and> applicable e2' (se_apply e1 s)
         \<and> se_apply e1' (se_apply e2 s) = se_apply e2' (se_apply e1 s))"
  using tryRebase_woven [OF assms] tryRebase_woven [OF assms(2,1)]
    woven_sym [of 0 e1 "int (length s)" e2] assms
  by (auto simp: applicable_def split: option.splits)

lemma rebase_converges_witness:
  "\<exists>e1' e2'. se_tryRebase [\<lparr>sr_range = \<lparr>o_start = 0, o_end = 1\<rparr>, sr_newText = ''''\<rparr>, \<lparr>sr_range = \<lparr>o_start = 3, o_end = 4\<rparr>, sr_newText = ''v''\<rparr>] [\<lparr>sr_range = \<lparr>o_start = 1, o_end = 3\<rparr>, sr_newText = ''XYZ''\<rparr>, \<lparr>sr_range = \<lparr>o_start = 4, o_end = 4\<rparr>, sr_newText = ''q''\<rparr>] = Some e1'
    \<and> se_tryRebase [\<lparr>sr_range = \<lparr>o_start = 1, o_end = 3\<rparr>, sr_newText = ''XYZ''\<rparr>, \<lparr>sr_range = \<lparr>o_start = 4, o_end = 4\<rparr>, sr_newText = ''q''\<rparr>] [\<lparr>sr_range = \<lparr>o_start = 0, o_end = 1\<rparr>, sr_newText = ''''\<rparr>, \<lparr>sr_range = \<lparr>o_start = 3, o_end = 4\<rparr>, sr_newText = ''v''\<rparr>] = Some e2'
    \<and> se_apply e1' (se_apply [\<lparr>sr_range = \<lparr>o_start = 0, o_end = 1\<rparr>, sr_newText = ''''\<rparr>, \<lparr>sr_range = \<lparr>o_start = 3, o_end = 4\<rparr>, sr_newText = ''v''\<rparr>] ''abcde'') = se_apply e2' (se_apply [\<lparr>sr_range = \<lparr>o_start = 1, o_end = 3\<rparr>, sr_newText = ''XYZ''\<rparr>, \<lparr>sr_range = \<lparr>o_start = 4, o_end = 4\<rparr>, sr_newText = ''q''\<rparr>] ''abcde'')"
proof -
  have 1: "applicable [\<lparr>sr_range = \<lparr>o_start = 1, o_end = 3\<rparr>, sr_newText = ''XYZ''\<rparr>, \<lparr>sr_range = \<lparr>o_start = 4, o_end = 4\<rparr>, sr_newText = ''q''\<rparr>] ''abcde''" "applicable [\<lparr>sr_range = \<lparr>o_start = 0, o_end = 1\<rparr>, sr_newText = ''''\<rparr>, \<lparr>sr_range = \<lparr>o_start = 3, o_end = 4\<rparr>, sr_newText = ''v''\<rparr>] ''abcde''"
    by code_simp+
  have "se_tryRebase [\<lparr>sr_range = \<lparr>o_start = 0, o_end = 1\<rparr>, sr_newText = ''''\<rparr>, \<lparr>sr_range = \<lparr>o_start = 3, o_end = 4\<rparr>, sr_newText = ''v''\<rparr>] [\<lparr>sr_range = \<lparr>o_start = 1, o_end = 3\<rparr>, sr_newText = ''XYZ''\<rparr>, \<lparr>sr_range = \<lparr>o_start = 4, o_end = 4\<rparr>, sr_newText = ''q''\<rparr>] \<noteq> None" by code_simp
  then show ?thesis using rebase_converges [OF 1] by auto
qed

section \<open>Swapping\<close>

abbreviation blanks :: "int \<Rightarrow> int \<Rightarrow> string" where
  "blanks a b \<equiv> replicate (nat (b - a)) CHR '' ''"

lemma inverse_loop_Cons:
  assumes "se_inverse_loop orig off (m # ms) = Some invs"
  obtains iv ivs where "invs = iv # ivs" "o_start (sr_range iv) = o_start (sr_range m) + off"
    "o_end (sr_range iv) = o_start (sr_range m) + off + sr_getNewLength m"
    "sr_newText iv = orig (o_start (sr_range m)) (o_end (sr_range m))"
    "se_inverse_loop orig (off + (sr_getNewLength m - o_length (sr_range m))) ms = Some ivs"
proof -
  let ?iv = "\<lparr>sr_range = \<lparr>o_start = o_start (sr_range m) + off, o_end = o_start (sr_range m) + off + sr_getNewLength m\<rparr>,
    sr_newText = orig (o_start (sr_range m)) (o_end (sr_range m))\<rparr>"
  obtain ivs where "invs = ?iv # ivs"
    "se_inverse_loop orig (off + (sr_getNewLength m - o_length (sr_range m))) ms = Some ivs"
    using assms
    by (auto simp: o_ofStartAndLength_def new_OffsetRange_def sr_replacement_def new_StringReplacement_def
        split: bind_splits if_splits)
  then show ?thesis by (intro that [of ?iv ivs]) simp_all
qed

lemma reads_end: "reads s1 (p + d) (effect p [] s) \<Longrightarrow> 0 \<le> p \<Longrightarrow> p \<le> int (length s) \<Longrightarrow> int (length s1) = int (length s) + d"
  by (auto simp: reads_def cut_suffix dest: arg_cong [of _ _ length])

lemma woven_second:
  assumes "woven (m # ms) (x # xs) = Some w" "o_end (sr_range x) \<le> o_start (sr_range m)"
    "o_start (sr_range x) \<le> o_end (sr_range x)" "o_start (sr_range m) \<le> o_end (sr_range m)"
  obtains w' where "w = x # w'" "woven (m # ms) xs = Some w'"
proof -
  have c: "\<not> rebase_conflict (sr_range m) (sr_range x)" using assms(1) by (auto split: if_splits)
  then have "\<not> rebase_ours_first (sr_range m) (sr_range x)"
    using no_conflict_order(1) [OF c assms(4,3)] no_conflict_iff [OF assms(4,3)] assms(2-4) by force
  then show ?thesis using assms(1) c that by auto
qed

lemma woven_first:
  assumes "woven (m # ms) xs = Some w" "se_fits (o_end (sr_range m)) xs n"
    "o_start (sr_range m) \<le> o_end (sr_range m)"
  obtains w' where "w = m # w'" "woven ms xs = Some w'"
proof (cases xs)
  case Nil
  then show ?thesis using assms(1) that by auto
next
  case (Cons x xs')
  then have x: "o_end (sr_range m) \<le> o_start (sr_range x)" using assms(2) by simp
  then have "rebase_ours_first (sr_range m) (sr_range x)"
    using assms(3) by (auto simp: rebase_ours_first_def o_isEmpty_def)
  then show ?thesis using assms(1) Cons that by (auto split: if_splits)
qed

lemma swap_loop:
  assumes "se_fits p ms (int (length s))" "0 \<le> p" "se_inverse_loop blanks d ms = Some invs"
    and "se_fits (p + d) es (int (length s1))" "reads s1 (p + d) (effect p ms s)"
    and "se_rebase_loop True es invs off = Some es'" "off = - d"
  shows "se_fits p es' (int (length s))
    \<and> (\<forall>w. woven ms es' = Some w \<longrightarrow> effect p w s = effect (p + d) es s1)"
  using assms
proof (induction True es invs off arbitrary: p d ms es' rule: se_rebase_loop.induct)
  case (1 bs off)
  then show ?case using se_fits_le [of p ms "int (length s)"] by (auto simp: reads_tail)
next
  case (2 e es off)
  have ms: "ms = []" using "2.prems"(3) by (cases ms) (auto split: bind_splits)
  let ?e' = "new_StringReplacement (o_delta off (sr_range e)) (sr_newText e)" and ?n = "int (length s)"
  obtain rest where rest: "se_rebase_loop True es [] off = Some rest" "es' = ?e' # rest" using "2.prems"(6) by auto
  have f: "p + d \<le> o_start (sr_range e)" "o_start (sr_range e) \<le> o_end (sr_range e)"
    "se_fits (o_end (sr_range e)) es (int (length s1))" using "2.prems"(4) by simp_all
  have pn: "p \<le> ?n" using "2.prems"(1) ms by simp
  have "int (length s1) = ?n + d" using reads_end [OF "2.prems"(5) [unfolded ms] "2.prems"(2) pn] .
  then have c: "clear_to ([] :: string_replacement list) (o_end (sr_range e) - d) ?n"
    "clear_to ([] :: string_replacement list) (o_start (sr_range e) - d) ?n"
    using se_fits_le [OF f(3)] f(2) by (simp_all add: clear_to_def)
  have le: "p \<le> o_end (sr_range e) - d" "p \<le> o_start (sr_range e) - d" using f(1,2) by simp_all
  note skip = reads_skip [OF "2.prems"(1) [unfolded ms] "2.prems"(2) _ _ "2.prems"(5) [unfolded ms]]
  note r = skip(2) [OF le(1) c(1)]
  have "cut (p + d) (o_start (sr_range e)) s1 = cut p (o_start (sr_range e) - d) s"
    using skip(1) [OF le(2) c(2)] by simp
  moreover
  have a: "se_fits (o_end (sr_range e) - d) ([] :: string_replacement list) ?n" "0 \<le> o_end (sr_range e) - d"
    "se_inverse_loop blanks d ([] :: string_replacement list) = Some []"
    "se_fits (o_end (sr_range e) - d + d) es (int (length s1))"
    using c(1) f "2.prems"(2) by (simp_all add: clear_to_def)
  note IH = "2.hyps" [OF a r rest(1) "2.prems"(7)]
  ultimately show ?case
    using rest(2) ms f(1,2) "2.prems"(7) by (simp add: new_StringReplacement_def o_delta_def)
next
  case (3 e es b bs off)
  let ?n = "int (length s)"
  obtain m ms' where ms: "ms = m # ms'" using "3.prems"(3) by (cases ms) auto
  obtain iv ivs where "b # bs = iv # ivs" and iv: "o_start (sr_range iv) = o_start (sr_range m) + d"
    "o_end (sr_range iv) = o_start (sr_range m) + d + sr_getNewLength m"
    "sr_newText iv = blanks (o_start (sr_range m)) (o_end (sr_range m))"
    "se_inverse_loop blanks (d + (sr_getNewLength m - o_length (sr_range m))) ms' = Some ivs"
    using inverse_loop_Cons [OF "3.prems"(3) [unfolded ms]] by metis
  then have b: "b = iv" "bs = ivs" by simp_all
  have f: "p + d \<le> o_start (sr_range e)" "o_start (sr_range e) \<le> o_end (sr_range e)"
    "se_fits (o_end (sr_range e)) es (int (length s1))"
    "p \<le> o_start (sr_range m)" "o_start (sr_range m) \<le> o_end (sr_range m)" "se_fits (o_end (sr_range m)) ms' ?n"
    using "3.prems"(1,4) ms by simp_all
  have fb: "o_start (sr_range b) \<le> o_end (sr_range b)" using iv(1,2) b by (simp add: sr_getNewLength_def)
  have c: "\<not> rebase_conflict (sr_range e) (sr_range b)" using "3.prems"(6) by (auto split: if_splits)
  note o = no_conflict_order [OF c f(2) fb]
  show ?case
  proof (cases "rebase_ours_first (sr_range e) (sr_range b)")
    case True
    let ?e' = "new_StringReplacement (o_delta off (sr_range e)) (sr_newText e)"
    obtain rest where rest: "se_rebase_loop True es (b # bs) off = Some rest" "es' = ?e' # rest"
      using "3.prems"(6) c True by auto
    have le: "o_end (sr_range e) - d \<le> o_start (sr_range m)" using o(1) [OF True] b(1) iv(1) by simp
    then have cl: "clear_to ms (o_end (sr_range e) - d) ?n" "clear_to ms (o_start (sr_range e) - d) ?n"
      using f(2) ms by (simp_all add: clear_to_def)
    have pe: "0 \<le> o_end (sr_range e) - d" "p \<le> o_end (sr_range e) - d" "p \<le> o_start (sr_range e) - d"
      using f(1,2) "3.prems"(2) by simp_all
    have r: "reads s1 (o_end (sr_range e) - d + d) (effect (o_end (sr_range e) - d) ms s)"
      using reads_skip(2) [OF "3.prems"(1,2) pe(2) cl(1) "3.prems"(5)] .
    have cut: "cut (p + d) (o_start (sr_range e)) s1 = cut p (o_start (sr_range e) - d) s"
      using reads_skip(1) [OF "3.prems"(1,2) pe(3) cl(2) "3.prems"(5)] by simp
    have IH: "se_fits (o_end (sr_range e) - d) rest ?n"
      "\<And>w. woven ms rest = Some w \<Longrightarrow> effect (o_end (sr_range e) - d) w s = effect (o_end (sr_range e)) es s1"
      using "3.hyps"(2) [OF c True clear_fits [OF "3.prems"(1) cl(1)] pe(1) "3.prems"(3) _ r rest(1) "3.prems"(7)] f(3)
      by simp_all
    have e': "o_start (sr_range ?e') = o_start (sr_range e) - d" "o_end (sr_range ?e') = o_end (sr_range e) - d"
      "sr_newText ?e' = sr_newText e"
      using "3.prems"(7) by (simp_all add: new_StringReplacement_def o_delta_def)
    have "effect p w s = effect (p + d) (e # es) s1" if w: "woven ms es' = Some w" for w
    proof -
      obtain w' where "w = ?e' # w'" "woven ms rest = Some w'"
        using woven_second [of m ms' ?e' rest w] w le f(2,5) unfolding ms rest(2) e' by auto
      then show ?thesis using IH(2) cut e' by simp
    qed
    then show ?thesis using IH(1) rest(2) e' f(2) pe(3) by simp
  next
    case False
    let ?d = "d + (sr_getNewLength m - o_length (sr_range m))"
    have i: "p + d + (o_start (sr_range m) - p) + sr_getNewLength m = o_end (sr_range m) + ?d"
      by (simp add: o_length_def)
    have iv2: "o_end (sr_range iv) = o_end (sr_range m) + ?d" using iv(2) by (simp add: o_length_def)
    note first = reads_first [OF "3.prems"(5) [unfolded ms] "3.prems"(2,1) [unfolded ms], unfolded i]
    have fe: "se_fits (o_end (sr_range m) + ?d) (e # es) (int (length s1))"
      using o(2) [OF False] b(1) iv2 f(2,3) by simp
    have m0: "0 \<le> o_end (sr_range m)" using f(4,5) "3.prems"(2) by simp
    have nl: "sr_getNewLength iv = o_length (sr_range m)"
      using iv(3) f(5) by (simp add: sr_getNewLength_def o_length_def)
    have off: "off + (sr_getNewLength b - o_length (sr_range b)) = - ?d"
      using "3.prems"(7) nl b(1) iv(1,2) by (simp add: o_length_def)
    have loop: "se_rebase_loop True (e # es) bs (off + (sr_getNewLength b - o_length (sr_range b))) = Some es'"
      using "3.prems"(6) c False by simp
    have inv: "se_inverse_loop blanks ?d ms' = Some bs" using iv(4) b(2) by simp
    have IH: "se_fits (o_end (sr_range m)) es' ?n"
      "\<And>w. woven ms' es' = Some w \<Longrightarrow> effect (o_end (sr_range m)) w s = effect (o_end (sr_range m) + ?d) (e # es) s1"
      using "3.hyps"(3) [OF c False f(6) m0 inv fe first(3) loop off] by simp_all
    have le: "0 \<le> p + d" "p + d \<le> o_end (sr_range m) + ?d"
      using "3.prems"(5) f(4) i [symmetric] by (simp_all add: reads_def sr_getNewLength_def)
    have "effect p w s = effect (p + d) (e # es) s1" if w: "woven ms es' = Some w" for w
    proof -
      obtain w' where "w = m # w'" "woven ms' es' = Some w'"
        using woven_first [OF w [unfolded ms] IH(1) f(5)] by blast
      then show ?thesis using IH(2) first(2) effect_extend [OF fe le] by simp
    qed
    moreover have "se_fits p es' ?n" using IH(1) f(4,5) by (cases es') simp_all
    ultimately show ?thesis by blast
  qed
qed

text \<open>
  \<open>trySwap\<close>: the swapped edits can be applied to the original text, and do together what the
  two edits did.
\<close>

theorem swap_same_effect:
  fixes e1 e2 :: "string_replacement list"
  assumes "applicable e1 s" "applicable e2 (se_apply e1 s)" "se_trySwap e1 e2 = Some (e2', e1')"
  shows "applicable e2' s \<and> applicable e1' (se_apply e2' s)
    \<and> se_apply e1' (se_apply e2' s) = se_apply e2 (se_apply e1 s)"
proof -
  obtain inv where inv: "se_inverseOnSlice blanks e1 = Some inv" "se_tryRebase inv e2 = Some e2'"
    "se_tryRebase e2' e1 = Some e1'"
    using assms(3) by (auto simp: se_trySwap_def split: bind_splits)
  have "se_inverse_loop blanks 0 e1 = Some inv" "se_rebase_loop True e2 inv 0 = Some e2'"
    using inv(1,2) by (auto simp: se_inverseOnSlice_def se_tryRebase_def se_rebaseOn_def new_Edit_def
        split: bind_splits if_splits)
  note loops = this
  have f: "se_fits 0 e1 (int (length s))" "se_fits (0 + 0) e2 (int (length (se_apply e1 s)))"
    "reads (se_apply e1 s) (0 + 0) (effect 0 e1 s)"
    using assms(1,2) reads_start [of "effect 0 e1 s"] by (simp_all add: applicable_def apply_effect [OF assms(1)])
  have l: "se_fits 0 e2' (int (length s))" "\<And>w. woven e1 e2' = Some w \<Longrightarrow> effect 0 w s = effect 0 e2 (se_apply e1 s)"
    using swap_loop [OF f(1) order_refl loops(1) f(2,3) loops(2)] by simp_all
  then have a: "applicable e2' s" by (simp add: applicable_def)
  show ?thesis
    using tryRebase_woven [OF assms(1) a] inv(3) l(2) a apply_effect [OF assms(2)]
    by (auto split: option.splits)
qed

lemma swap_same_effect_witness:
  "se_apply [\<lparr>sr_range = \<lparr>o_start = 1, o_end = 3\<rparr>, sr_newText = ''XYZ''\<rparr>] (se_apply [\<lparr>sr_range = \<lparr>o_start = 4, o_end = 5\<rparr>, sr_newText = ''w''\<rparr>] ''abcde'')
    = se_apply [\<lparr>sr_range = \<lparr>o_start = 5, o_end = 6\<rparr>, sr_newText = ''w''\<rparr>] (se_apply [\<lparr>sr_range = \<lparr>o_start = 1, o_end = 3\<rparr>, sr_newText = ''XYZ''\<rparr>] ''abcde'')"
proof -
  have 1: "applicable [\<lparr>sr_range = \<lparr>o_start = 1, o_end = 3\<rparr>, sr_newText = ''XYZ''\<rparr>] ''abcde''"
    "applicable [\<lparr>sr_range = \<lparr>o_start = 5, o_end = 6\<rparr>, sr_newText = ''w''\<rparr>] (se_apply [\<lparr>sr_range = \<lparr>o_start = 1, o_end = 3\<rparr>, sr_newText = ''XYZ''\<rparr>] ''abcde'')"
    "se_trySwap [\<lparr>sr_range = \<lparr>o_start = 1, o_end = 3\<rparr>, sr_newText = ''XYZ''\<rparr>] [\<lparr>sr_range = \<lparr>o_start = 5, o_end = 6\<rparr>, sr_newText = ''w''\<rparr>]
      = Some ([\<lparr>sr_range = \<lparr>o_start = 4, o_end = 5\<rparr>, sr_newText = ''w''\<rparr>], [\<lparr>sr_range = \<lparr>o_start = 1, o_end = 3\<rparr>, sr_newText = ''XYZ''\<rparr>])"
    by code_simp+
  show ?thesis using swap_same_effect [OF 1] by simp
qed

section \<open>Offsets\<close>

text \<open>
  C25. Offset mapping: an offset outside every replaced range has a new offset, where the edited
  text has the same character, and \<open>applyInverseToOffset\<close> maps it back; and the image of a
  range is always a range.
\<close>

theorem string_offsets_survive:
  assumes "applicable e s" "0 \<le> x" "x < int (length s)" "x \<le> x'"
  shows "(\<forall>y. be_applyToOffsetOrUndefined string_class e x = Some y \<longrightarrow>
      be_applyToOffset string_class e x = y \<and> be_applyInverseToOffset string_class e y = x
      \<and> se_apply e s ! nat y = s ! nat x)
    \<and> be_applyToOffsetRange string_class e \<lparr>o_start = x, o_end = x'\<rparr> \<noteq> None"
proof -
  have f: "fits string_class 0 e (int (length s))" using assms(1) by (simp add: applicable_def se_fits_string)
  show ?thesis
    using string_edit.untouched_offset [OF f assms(2,3)] string_edit.applyToOffsetRange_defined [OF f, of "\<lparr>o_start = x, o_end = x'\<rparr>"]
      assms by (auto simp: apply_effect effect_string)
qed

lemma string_offsets_survive_witness:
  "be_applyInverseToOffset string_class [\<lparr>sr_range = \<lparr>o_start = 1, o_end = 3\<rparr>, sr_newText = ''XYZ''\<rparr>, \<lparr>sr_range = \<lparr>o_start = 4, o_end = 4\<rparr>, sr_newText = ''q''\<rparr>] 4 = 3
    \<and> be_applyToOffset string_class [\<lparr>sr_range = \<lparr>o_start = 1, o_end = 3\<rparr>, sr_newText = ''XYZ''\<rparr>, \<lparr>sr_range = \<lparr>o_start = 4, o_end = 4\<rparr>, sr_newText = ''q''\<rparr>] 3 = 4"
proof -
  have 1: "applicable [\<lparr>sr_range = \<lparr>o_start = 1, o_end = 3\<rparr>, sr_newText = ''XYZ''\<rparr>, \<lparr>sr_range = \<lparr>o_start = 4, o_end = 4\<rparr>, sr_newText = ''q''\<rparr>] ''abcde''" by code_simp
  have "be_applyToOffsetOrUndefined string_class [\<lparr>sr_range = \<lparr>o_start = 1, o_end = 3\<rparr>, sr_newText = ''XYZ''\<rparr>, \<lparr>sr_range = \<lparr>o_start = 4, o_end = 4\<rparr>, sr_newText = ''q''\<rparr>] 3 = Some 4" by code_simp
  then show ?thesis using string_offsets_survive [OF 1, of 3 3] by simp
qed

section \<open>Trimming\<close>

lemma common_prefix: "take (commonPrefixLength a b) a = take (commonPrefixLength a b) b"
  by (induction a b rule: commonPrefixLength.induct) auto

lemma common_prefix_le: "commonPrefixLength a b \<le> length a" "commonPrefixLength a b \<le> length b"
  by (induction a b rule: commonPrefixLength.induct) auto

lemma common_suffix: "k \<le> commonSuffixLength a b \<Longrightarrow> drop (length a - k) a = drop (length b - k) b"
proof -
  assume "k \<le> commonSuffixLength a b"
  then have "take k (rev a) = take k (rev b)"
    using common_prefix [of "rev a" "rev b"] by (metis commonSuffixLength_def min.absorb1 take_take)
  then show ?thesis by (simp add: take_rev)
qed

lemma common_suffix_le: "commonSuffixLength a b \<le> length a" "commonSuffixLength a b \<le> length b"
  using common_prefix_le [of "rev a" "rev b"] by (simp_all add: commonSuffixLength_def)

text \<open>A trimmed replacement writes less, and the text it no longer writes is there already.\<close>

definition trimmed :: "string \<Rightarrow> 'z string_replacement_scheme \<Rightarrow> 'w string_replacement_scheme \<Rightarrow> bool" where
  "trimmed s r r' \<longleftrightarrow>
     o_start (sr_range r) \<le> o_start (sr_range r') \<and> o_start (sr_range r') \<le> o_end (sr_range r')
     \<and> o_end (sr_range r') \<le> o_end (sr_range r)
     \<and> sr_newText r = cut (o_start (sr_range r)) (o_start (sr_range r')) s @ sr_newText r'
         @ cut (o_end (sr_range r')) (o_end (sr_range r)) s"

lemma trimmed_trans:
  assumes "trimmed s r r'" "trimmed s r' r''" "0 \<le> o_start (sr_range r)"
  shows "trimmed s r r''"
proof -
  have "cut (o_start (sr_range r)) (o_start (sr_range r')) s @ cut (o_start (sr_range r')) (o_start (sr_range r'')) s
      = cut (o_start (sr_range r)) (o_start (sr_range r'')) s"
    "cut (o_end (sr_range r'')) (o_end (sr_range r')) s @ cut (o_end (sr_range r')) (o_end (sr_range r)) s
      = cut (o_end (sr_range r'')) (o_end (sr_range r)) s"
    using assms by (intro cut_join; simp add: trimmed_def)+
  then show ?thesis using assms unfolding trimmed_def by (metis append_assoc order_trans)
qed

lemma trimmed_cut:
  assumes r: "0 \<le> o_start (sr_range r)" "o_start (sr_range r) \<le> o_end (sr_range r)" "o_end (sr_range r) \<le> int (length s)"
    and old: "old = cut (o_start (sr_range r)) (o_end (sr_range r)) s"
    and pre: "pre \<le> length old" "take pre old = take pre (sr_newText r)"
    and suf: "suf \<le> length old - pre" "suf \<le> length (sr_newText r) - pre" "pre \<le> length (sr_newText r)"
      "drop (length old - suf) old = drop (length (sr_newText r) - suf) (sr_newText r)"
    and r': "sr_range r' = \<lparr>o_start = o_start (sr_range r) + int pre, o_end = o_end (sr_range r) - int suf\<rparr>"
      "sr_newText r' = cut (int pre) (int (length (sr_newText r)) - int suf) (sr_newText r)"
  shows "trimmed s r r'"
proof -
  let ?b = "o_start (sr_range r)" and ?e = "o_end (sr_range r)" and ?t = "sr_newText r"
  have len: "int (length old) = ?e - ?b" using r by (simp add: old cut_length)
  have le: "int pre + int suf \<le> ?e - ?b" using pre(1) suf(1) len by linarith
  have 1: "cut ?b (?b + int pre) s = take pre ?t"
    using cut_cut [of ?b 0 "int pre" ?e s] r le pre by (simp add: cut_prefix flip: old)
  have "length old - suf = nat (?e - (int suf + ?b))" using len le by linarith
  then have "cut (?e - int suf) ?e s = drop (length old - suf) old"
    using cut_cut [of ?b "int (length old - suf)" "int (length old)" ?e s] r le len
    by (simp add: cut_suffix algebra_simps flip: old)
  then have 2: "cut (?e - int suf) ?e s = drop (length ?t - suf) ?t" using suf(4) by simp
  have "nat (int (length ?t) - int suf - int pre) = length ?t - suf - pre" "pre \<le> length ?t - suf"
    using suf(2,3) by linarith+
  then have "?t = take pre ?t @ cut (int pre) (int (length ?t) - int suf) ?t @ drop (length ?t - suf) ?t"
    by (metis append_take_drop_id cut_def drop_drop le_add_diff_inverse2 nat_int)
  then show ?thesis using 1 2 le by (simp add: trimmed_def r')
qed

lemma trim_both:
  assumes "0 \<le> o_start (sr_range r)" "o_start (sr_range r) \<le> o_end (sr_range r)" "o_end (sr_range r) \<le> int (length s)"
  shows "\<exists>r'. sr_removeCommonSuffixPrefix s r = Some r' \<and> trimmed s r r'"
proof -
  let ?b = "o_start (sr_range r)" and ?e = "o_end (sr_range r)" and ?t = "sr_newText r"
  define old where "old = cut ?b ?e s"
  define pre where "pre = commonPrefixLength old ?t"
  define suf where "suf = min (min (length old - pre) (length ?t - pre)) (commonSuffixLength old ?t)"
  have len: "int (length old) = ?e - ?b" using assms by (simp add: old_def cut_length)
  have le: "pre \<le> length old" "pre \<le> length ?t" "suf \<le> length old - pre" "suf \<le> length ?t - pre"
    using common_prefix_le [of old ?t] by (simp_all add: pre_def suf_def)
  then have le': "int pre + int suf \<le> ?e - ?b" "int pre \<le> int (length ?t) - int suf" using len by linarith+
  let ?r = "new_StringReplacement \<lparr>o_start = ?b + int pre, o_end = ?e - int suf\<rparr>
      (cut (int pre) (int (length ?t) - int suf) ?t)"
  have "js_substring (int pre) (int (length ?t) - int suf) ?t = cut (int pre) (int (length ?t) - int suf) ?t"
    using le' by (intro cut_substring) simp_all
  then have "sr_removeCommonSuffixPrefix s r = Some ?r"
    using assms le' by (simp add: sr_removeCommonSuffixPrefix_def cut_substring Let_def new_OffsetRange_def
        flip: old_def pre_def suf_def)
  moreover have "trimmed s r ?r"
    using common_prefix [of old ?t] common_suffix [of suf old ?t]
    by (intro trimmed_cut [OF assms old_def le(1) _ le(3,4,2)])
      (simp_all add: pre_def suf_def new_StringReplacement_def)
  ultimately show ?thesis by blast
qed

lemma trim_suffix:
  assumes "0 \<le> o_start (sr_range r)" "o_start (sr_range r) \<le> o_end (sr_range r)" "o_end (sr_range r) \<le> int (length s)"
  shows "\<exists>r'. sr_removeCommonSuffix s r = Some r' \<and> trimmed s r r'"
proof -
  let ?b = "o_start (sr_range r)" and ?e = "o_end (sr_range r)" and ?t = "sr_newText r"
  define old where "old = cut ?b ?e s"
  define suf where "suf = commonSuffixLength old ?t"
  have len: "int (length old) = ?e - ?b" using assms by (simp add: old_def cut_length)
  have le: "suf \<le> length old - 0" "suf \<le> length ?t - 0" using common_suffix_le [of old ?t] by (simp_all add: suf_def)
  have o: "o_substring (sr_range r) s = old" using assms by (simp add: o_substring_def cut_substring old_def)
  let ?r = "sr_slice \<lparr>o_start = ?b, o_end = ?e - int suf\<rparr>
      (Some \<lparr>o_start = 0, o_end = int (length ?t) - int suf\<rparr>) r"
  have t: "trimmed s r ?r"
    using le len common_suffix [of suf old ?t]
    by (intro trimmed_cut [OF assms old_def le0 _ le le0])
      (simp_all add: slice_newText sr_getNewLength_def suf_def, simp add: sr_slice_def)
  show ?thesis
  proof (cases "suf = 0")
    case True
    then show ?thesis
      using assms by (intro exI [of _ r]) (simp add: sr_removeCommonSuffix_def o trimmed_def Let_def flip: suf_def)
  next
    case False
    then have "sr_removeCommonSuffix s r = Some ?r"
      using le len by (simp add: sr_removeCommonSuffix_def o Let_def o_deltaEnd_def new_OffsetRange_def
          sr_getNewLength_def flip: suf_def)
    then show ?thesis using t by blast
  qed
qed

lemma trim_prefix:
  assumes "0 \<le> o_start (sr_range r)" "o_start (sr_range r) \<le> o_end (sr_range r)" "o_end (sr_range r) \<le> int (length s)"
  shows "\<exists>r'. sr_removeCommonPrefix s r = Some r' \<and> trimmed s r r'"
proof -
  let ?b = "o_start (sr_range r)" and ?e = "o_end (sr_range r)" and ?t = "sr_newText r"
  define old where "old = cut ?b ?e s"
  define pre where "pre = commonPrefixLength old ?t"
  have len: "int (length old) = ?e - ?b" using assms by (simp add: old_def cut_length)
  have le: "pre \<le> length old" "pre \<le> length ?t" using common_prefix_le [of old ?t] by (simp_all add: pre_def)
  have o: "o_substring (sr_range r) s = old" using assms by (simp add: o_substring_def cut_substring old_def)
  let ?r = "sr_slice \<lparr>o_start = ?b + int pre, o_end = ?e\<rparr>
      (Some \<lparr>o_start = int pre, o_end = int (length ?t)\<rparr>) r"
  have t: "trimmed s r ?r"
    using le len common_prefix [of old ?t]
    by (intro trimmed_cut [OF assms old_def le(1) _ le0 le0 le(2)])
      (simp_all add: slice_newText sr_getNewLength_def pre_def, simp add: sr_slice_def)
  show ?thesis
  proof (cases "pre = 0")
    case True
    then show ?thesis
      using assms by (intro exI [of _ r]) (simp add: sr_removeCommonPrefix_def o trimmed_def Let_def flip: pre_def)
  next
    case False
    then have "sr_removeCommonPrefix s r = Some ?r"
      using le len by (simp add: sr_removeCommonPrefix_def o Let_def o_deltaStart_def new_OffsetRange_def
          sr_getNewLength_def flip: pre_def)
    then show ?thesis using t by blast
  qed
qed

lemma trim_suffix_prefix:
  assumes "0 \<le> o_start (sr_range r)" "o_start (sr_range r) \<le> o_end (sr_range r)" "o_end (sr_range r) \<le> int (length s)"
  shows "\<exists>r'. sr_removeCommonSuffixAndPrefix s r = Some r' \<and> trimmed s r r'"
proof -
  obtain r' where r': "sr_removeCommonSuffix s r = Some r'" "trimmed s r r'" using trim_suffix [OF assms] by blast
  then obtain r'' where "sr_removeCommonPrefix s r' = Some r''" "trimmed s r' r''"
    using trim_prefix [of r' s] assms by (auto simp: trimmed_def)
  then show ?thesis
    using r' trimmed_trans [OF r'(2)] assms(1) by (auto simp: sr_removeCommonSuffixAndPrefix_def)
qed

lemma effect_trimmed:
  "list_all2 (trimmed s) e e' \<Longrightarrow> se_fits p e (int (length s)) \<Longrightarrow> 0 \<le> p \<Longrightarrow>
     se_fits p e' (int (length s)) \<and> effect p e' s = effect p e s"
proof (induction arbitrary: p rule: list_all2_induct)
  case (Cons r e r' e')
  let ?b = "o_start (sr_range r)" and ?b' = "o_start (sr_range r')" and ?e = "o_end (sr_range r)" and ?e' = "o_end (sr_range r')"
  have t: "?b \<le> ?b'" "?b' \<le> ?e'" "?e' \<le> ?e" "sr_newText r = cut ?b ?b' s @ sr_newText r' @ cut ?e' ?e s"
    using Cons.hyps(1) by (simp_all add: trimmed_def)
  have f: "p \<le> ?b" "?b \<le> ?e" "se_fits ?e e (int (length s))" using Cons.prems(1) by simp_all
  have IH: "se_fits ?e e' (int (length s))" "effect ?e e' s = effect ?e e s"
    using Cons.IH [OF f(3)] f(1,2) Cons.prems(2) by simp_all
  have "\<And>X. cut p ?b s @ cut ?b ?b' s @ X = cut p ?b' s @ X" by (rule cut_join_more [OF Cons.prems(2) f(1) t(1)])
  moreover have "cut ?e' ?e s @ effect ?e e s = effect ?e' e' s"
    using effect_extend [OF IH(1), of ?e'] IH(2) t f Cons.prems(2) by simp
  moreover have "se_fits ?e' e' (int (length s))" using IH(1) t(3) by (cases e') simp_all
  ultimately show ?case using t f(1) by simp
qed simp

lemma effect_drop_empty:
  "se_fits p e (int (length s)) \<Longrightarrow> 0 \<le> p \<Longrightarrow>
     se_fits p (filter (\<lambda>r. \<not> rc_isEmpty string_class r) e) (int (length s))
     \<and> effect p (filter (\<lambda>r. \<not> rc_isEmpty string_class r) e) s = effect p e s"
proof (induction e arbitrary: p)
  case (Cons r e)
  let ?e' = "filter (\<lambda>r. \<not> rc_isEmpty string_class r) e"
  have f: "p \<le> o_start (sr_range r)" "o_start (sr_range r) \<le> o_end (sr_range r)"
    "se_fits (o_end (sr_range r)) e (int (length s))" using Cons.prems(1) by simp_all
  have IH: "se_fits (o_end (sr_range r)) ?e' (int (length s))"
    "effect (o_end (sr_range r)) ?e' s = effect (o_end (sr_range r)) e s"
    using Cons.IH [OF f(3)] f(1,2) Cons.prems(2) by simp_all
  show ?case
  proof (cases "rc_isEmpty string_class r")
    case True
    then have t: "sr_newText r = []" "o_end (sr_range r) = o_start (sr_range r)"
      by (auto simp: rc_isEmpty_def sr_getNewLength_def o_length_def)
    have "se_fits p ?e' (int (length s))" using IH(1) f(1) t(2) by (cases ?e') simp_all
    then show ?thesis
      using True t effect_extend [OF IH(1) Cons.prems(2)] IH(2) f(1) by simp
  next
    case False
    then show ?thesis using IH f by simp
  qed
qed simp

lemma all_defined_map:
  assumes "\<And>x. x \<in> set xs \<Longrightarrow> \<exists>y. f x = Some y \<and> P x y"
  shows "\<exists>ys. all_defined (map f xs) = Some ys \<and> list_all2 P xs ys"
proof (intro exI conjI)
  show "all_defined (map f xs) = Some (map (\<lambda>x. the (f x)) xs)"
    using assms by (force simp: all_defined_def image_iff)
  show "list_all2 P xs (map (\<lambda>x. the (f x)) xs)"
    using assms by (force simp: list_all2_map2 list_all2_same)
qed

lemma se_fits_member:
  "se_fits p e n \<Longrightarrow> r \<in> set e \<Longrightarrow> p \<le> o_start (sr_range r) \<and> o_start (sr_range r) \<le> o_end (sr_range r) \<and> o_end (sr_range r) \<le> n"
  by (induction e arbitrary: p) (force dest: se_fits_le)+

lemma removeCommonSuffixPrefix_same:
  assumes "applicable e s"
  shows "\<exists>e'. se_removeCommonSuffixPrefix s e = Some e' \<and> applicable e' s \<and> se_apply e' s = se_apply e s"
proof -
  have f: "se_fits 0 e (int (length s))" using assms by (simp add: applicable_def)
  obtain t where t: "all_defined (map (sr_removeCommonSuffixPrefix s) e) = Some t" "list_all2 (trimmed s) e t"
    using all_defined_map [of e "sr_removeCommonSuffixPrefix s" "trimmed s"] trim_both se_fits_member [OF f] by blast
  note 1 = effect_trimmed [OF t(2) f order_refl]
  note 2 = effect_drop_empty [OF conjunct1 [OF 1] order_refl]
  show ?thesis
    using 1 2 t(1) se_fits_sorted [OF conjunct1 [OF 2]] assms
    by (auto simp: se_removeCommonSuffixPrefix_def applicable_def apply_effect)
qed

text \<open>
  Trimming: \<open>normalizeOnSource\<close> (one replacement, or none) and \<open>removeCommonSuffixPrefix\<close>
  (every replacement trimmed, the empty ones dropped) never throw on a text the edit can be
  applied to, and the trimmed edit makes the same of that text.
\<close>

lemma trimming_keeps_effect:
  assumes "applicable e s"
  shows "(\<exists>e'. se_normalizeOnSource s e = Some e' \<and> length e' \<le> 1 \<and> applicable e' s \<and> se_apply e' s = se_apply e s)
    \<and> (\<exists>e'. se_removeCommonSuffixPrefix s e = Some e' \<and> applicable e' s \<and> se_apply e' s = se_apply e s)"
proof -
  let ?r = "new_StringReplacement \<lparr>o_start = 0, o_end = int (length s)\<rparr> (se_apply e s)"
  obtain r' where r': "sr_removeCommonSuffixAndPrefix s ?r = Some r'" "trimmed s ?r r'"
    using trim_suffix_prefix [of ?r s] by (auto simp: new_StringReplacement_def)
  then have t: "list_all2 (trimmed s) [?r] [r']" by simp
  have "se_fits 0 [?r] (int (length s))" "effect 0 [?r] s = se_apply e s"
    by (simp_all add: new_StringReplacement_def cut_empty)
  with effect_trimmed [OF t] have 1: "se_fits 0 [r'] (int (length s))" "effect 0 [r'] s = se_apply e s" by auto
  have "\<exists>e'. se_normalizeOnSource s e = Some e' \<and> length e' \<le> 1 \<and> applicable e' s \<and> se_apply e' s = se_apply e s"
  proof (cases "rc_isEmpty string_class r'")
    case True
    then have "effect 0 [] s = se_apply e s" using effect_drop_empty [OF 1(1)] 1(2) by simp
    then show ?thesis
      using True r'(1) by (simp add: se_normalizeOnSource_def o_ofLength_def new_OffsetRange_def sr_replacement_def
          se_empty_def applicable_def apply_effect)
  next
    case False
    then show ?thesis
      using 1 r'(1) se_fits_sorted [OF 1(1)]
      by (simp add: se_normalizeOnSource_def o_ofLength_def new_OffsetRange_def sr_replacement_def
          sr_toEdit_def applicable_def apply_effect del: se_fits.simps)
  qed
  then show ?thesis using removeCommonSuffixPrefix_same [OF assms] by blast
qed

lemma trimming_keeps_effect_witness:
  "\<exists>e'. se_normalizeOnSource ''abcde'' [\<lparr>sr_range = \<lparr>o_start = 1, o_end = 3\<rparr>, sr_newText = ''XYZ''\<rparr>, \<lparr>sr_range = \<lparr>o_start = 4, o_end = 4\<rparr>, sr_newText = ''q''\<rparr>] = Some e' \<and> length e' \<le> 1
    \<and> se_apply e' ''abcde'' = ''aXYZdqe''"
proof -
  have 1: "applicable [\<lparr>sr_range = \<lparr>o_start = 1, o_end = 3\<rparr>, sr_newText = ''XYZ''\<rparr>, \<lparr>sr_range = \<lparr>o_start = 4, o_end = 4\<rparr>, sr_newText = ''q''\<rparr>] ''abcde''" by code_simp
  have "se_apply [\<lparr>sr_range = \<lparr>o_start = 1, o_end = 3\<rparr>, sr_newText = ''XYZ''\<rparr>, \<lparr>sr_range = \<lparr>o_start = 4, o_end = 4\<rparr>, sr_newText = ''q''\<rparr>] ''abcde'' = ''aXYZdqe''" by code_simp
  then show ?thesis using trimming_keeps_effect [OF 1] by auto
qed

section \<open>Serialization\<close>

lemma se_fits_strip:
  "se_fits p (map (\<lambda>r. new_StringReplacement (sr_range r) (sr_newText r)) e) n = se_fits p e n"
  by (induction e arbitrary: p) (simp_all add: new_StringReplacement_def)

lemma json_round_trip:
  assumes "applicable e s"
  shows "se_fromJson (se_toJson e) = Some (map (\<lambda>r. new_StringReplacement (sr_range r) (sr_newText r)) e)"
proof -
  have f: "se_fits 0 e (int (length s))" using assms by (simp add: applicable_def)
  have "all_defined (map sr_fromJson (se_toJson e)) = Some (map (\<lambda>r. new_StringReplacement (sr_range r) (sr_newText r)) e)"
    using se_fits_member [OF f]
    by (force simp: se_toJson_def all_defined_def sr_fromJson_def sr_toJson_def o_ofStartAndLength_def
        new_OffsetRange_def new_StringReplacement_def o_length_def image_iff)
  moreover have "se_fits 0 (map (\<lambda>r. new_StringReplacement (sr_range r) (sr_newText r)) e) (int (length s))"
    using f by (simp add: se_fits_strip)
  ultimately show ?thesis using se_fits_sorted by (simp add: se_fromJson_def)
qed

end
