(* ===== verification/Search_Match.thy ===== *)
theory Search_Match
  imports Wibe_Prelude
begin

text \<open>
  \<open>extensions/incontrol/core/edit/searchAndReplace/findSearchMatch.ts\<close>: where the text of an
  edit occurs in a file, exactly or by one of the three laxer strategies. The Jaro-Winkler
  functions of the file are not used by it (their strategy is commented out) and are left out.
  An index is a natural number; no match is \<open>None\<close>.
\<close>

section \<open>The strategies\<close>

record basic_match =
  startIndex :: nat
  endIndex :: nat

datatype strategy = EmptySearch | ExactMatch | TrimmedMatch | CaseInsensitiveMatch | WhitespaceIgnoredMatch

record search_match = basic_match +
  strategyName :: strategy

definition exactMatch :: "string \<Rightarrow> string \<Rightarrow> basic_match option" where
  "exactMatch body search =
     map_option (\<lambda>i. \<lparr>startIndex = i, endIndex = i + length search\<rparr>) (index_of body search)"

definition trimmedMatch :: "string \<Rightarrow> string \<Rightarrow> basic_match option" where
  "trimmedMatch body search =
     map_option (\<lambda>i. \<lparr>startIndex = i, endIndex = i + length (trim search)\<rparr>) (index_of body (trim search))"

definition caseInsensitiveMatch :: "string \<Rightarrow> string \<Rightarrow> basic_match option" where
  "caseInsensitiveMatch body search =
     map_option (\<lambda>i. \<lparr>startIndex = i, endIndex = i + length search\<rparr>) (index_of (to_lower body) (to_lower search))"

definition strip_ws :: "string \<Rightarrow> string" where
  "strip_ws s = filter (\<lambda>c. \<not> js_ws c) s"

text \<open>The two loops that map a position of the stripped file back.\<close>

fun original_start :: "string \<Rightarrow> nat \<Rightarrow> nat \<Rightarrow> nat \<Rightarrow> nat option" where
  "original_start [] i count target = None"
| "original_start (c # cs) i count target =
     (if \<not> js_ws c then
        (if count = target then Some i else original_start cs (Suc i) (Suc count) target)
      else original_start cs (Suc i) count target)"

fun original_end :: "string \<Rightarrow> nat \<Rightarrow> nat \<Rightarrow> nat \<Rightarrow> nat \<Rightarrow> nat" where
  "original_end [] i matched wanted e = e"
| "original_end (c # cs) i matched wanted e =
     (if \<not> js_ws c then
        (if Suc matched = wanted then Suc i else original_end cs (Suc i) (Suc matched) wanted (Suc i))
      else original_end cs (Suc i) matched wanted (Suc i))"

definition whitespaceIgnoredMatch :: "string \<Rightarrow> string \<Rightarrow> basic_match option" where
  "whitespaceIgnoredMatch body search =
     (let target = strip_ws search
      in if target = [] then None
         else (case index_of (strip_ws body) target of
                 None \<Rightarrow> None
               | Some k \<Rightarrow>
                   (case original_start body 0 0 k of
                      None \<Rightarrow> None
                    | Some s \<Rightarrow>
                        Some \<lparr>startIndex = s, endIndex = original_end (drop s body) s 0 (length target) s\<rparr>)))"

definition matchingStrategies :: "((string \<Rightarrow> string \<Rightarrow> basic_match option) \<times> strategy) list" where
  "matchingStrategies =
     [(exactMatch, ExactMatch), (trimmedMatch, TrimmedMatch), (caseInsensitiveMatch, CaseInsensitiveMatch),
      (whitespaceIgnoredMatch, WhitespaceIgnoredMatch)]"

fun first_strategy ::
  "((string \<Rightarrow> string \<Rightarrow> basic_match option) \<times> strategy) list \<Rightarrow> string \<Rightarrow> string \<Rightarrow> search_match option" where
  "first_strategy [] body search = None"
| "first_strategy ((f, name) # fs) body search =
     (case f body search of
        Some m \<Rightarrow> Some \<lparr>startIndex = startIndex m, endIndex = endIndex m, strategyName = name\<rparr>
      | None \<Rightarrow> first_strategy fs body search)"

definition findSearchMatch :: "string \<Rightarrow> string \<Rightarrow> search_match option" where
  "findSearchMatch body search =
     (if trim search = [] then Some \<lparr>startIndex = 0, endIndex = 0, strategyName = EmptySearch\<rparr>
      else first_strategy matchingStrategies body search)"

definition shift_match :: "nat \<Rightarrow> search_match \<Rightarrow> search_match" where
  "shift_match off m = m\<lparr>startIndex := startIndex m + off, endIndex := endIndex m + off\<rparr>"

section \<open>A match lies in the body\<close>

lemma original_start_bounds:
  "original_start cs i count target = Some s \<Longrightarrow>
     i \<le> s \<and> s < i + length cs \<and> \<not> js_ws (cs ! (s - i)) \<and> count + length (strip_ws (take (s - i) cs)) = target"
proof (induction cs i count target rule: original_start.induct)
  case (2 c cs i count target)
  then show ?case
    by (cases "s = i") (fastforce simp: strip_ws_def Suc_diff_le nth_Cons' take_Cons' split: if_splits)+
qed simp

lemma original_start_total:
  "target < count + length (strip_ws cs) \<Longrightarrow> count \<le> target \<Longrightarrow> \<exists>s. original_start cs i count target = Some s"
  by (induction cs i count target rule: original_start.induct) (auto simp: strip_ws_def)

lemma original_end_bounds: "e \<le> i \<Longrightarrow> original_end cs i m t e \<le> i + length cs"
  by (induction cs i m t e rule: original_end.induct) (fastforce split: if_splits)+

lemma original_end_greater: "cs \<noteq> [] \<Longrightarrow> i < original_end cs i m t e"
proof (induction cs i m t e rule: original_end.induct)
  case (2 c cs i m t e)
  then show ?case by (cases cs) (auto split: if_splits)
qed simp

text \<open>The characters up to the end are those of the target.\<close>

lemma original_end_text:
  assumes "matched < wanted" "wanted - matched \<le> length (strip_ws cs)"
  shows "i < original_end cs i matched wanted e \<and> original_end cs i matched wanted e \<le> i + length cs
    \<and> strip_ws (take (original_end cs i matched wanted e - i) cs) = take (wanted - matched) (strip_ws cs)"
  using assms
proof (induction cs i matched wanted e rule: original_end.induct)
  case (2 c cs i matched wanted e)
  show ?case
  proof (cases "js_ws c")
    case True
    then have "i < original_end cs (Suc i) matched wanted (Suc i)"
      "original_end cs (Suc i) matched wanted (Suc i) - i = Suc (original_end cs (Suc i) matched wanted (Suc i) - Suc i)"
      using 2 by (auto simp: strip_ws_def)
    then show ?thesis using 2 True by (auto simp: strip_ws_def)
  next
    case False
    show ?thesis
    proof (cases "Suc matched = wanted")
      case True
      then show ?thesis using False by (auto simp: strip_ws_def)
    next
      case n: False
      then have t: "Suc matched < wanted" "wanted - Suc matched \<le> length (strip_ws cs)"
        "wanted - matched = Suc (wanted - Suc matched)"
        using 2 False by (auto simp: strip_ws_def)
      note IH = "2.IH"(1) [OF False n t(1,2)]
      then have "original_end cs (Suc i) (Suc matched) wanted (Suc i) - i
        = Suc (original_end cs (Suc i) (Suc matched) wanted (Suc i) - Suc i)" by linarith
      then show ?thesis using IH False n t(3) by (simp add: strip_ws_def)
    qed
  qed
qed (simp add: strip_ws_def)

lemma strip_ws_split: "strip_ws s = strip_ws (take n s) @ strip_ws (drop n s)"
  by (metis append_take_drop_id filter_append strip_ws_def)

lemma sub_list_strip: "sub_list a b s = take (b - a) (drop a s)"
  by (simp add: sub_list_def)

lemma whitespace_match:
  assumes "whitespaceIgnoredMatch body search = Some m"
  shows "startIndex m < endIndex m \<and> endIndex m \<le> length body
    \<and> strip_ws (sub_list (startIndex m) (endIndex m) body) = strip_ws search"
proof -
  let ?t = "strip_ws search"
  obtain k s where k: "?t \<noteq> []" "index_of (strip_ws body) ?t = Some k" "original_start body 0 0 k = Some s"
    "m = \<lparr>startIndex = s, endIndex = original_end (drop s body) s 0 (length ?t) s\<rparr>"
    using assms by (auto simp: whitespaceIgnoredMatch_def Let_def split: if_splits option.splits)
  have s: "s < length body" "length (strip_ws (take s body)) = k"
    using original_start_bounds [OF k(3)] by simp_all
  then have d: "strip_ws (drop s body) = drop k (strip_ws body)"
    using strip_ws_split [of body s] by (metis append_eq_conv_conj)
  have t: "k + length ?t \<le> length (strip_ws body)" "take (length ?t) (drop k (strip_ws body)) = ?t"
    using index_of_Some [OF k(2)] by (simp_all add: sub_list_def)
  have "0 < length ?t" "length ?t - 0 \<le> length (strip_ws (drop s body))" using k(1) t(1) d by simp_all
  from original_end_text [OF this, of s s] show ?thesis
    using k(4) s(1) d t(2) by (simp add: sub_list_def)
qed

lemma whitespace_match_None:
  "whitespaceIgnoredMatch body search = None \<longleftrightarrow> strip_ws search = [] \<or> \<not> js_includes (strip_ws body) (strip_ws search)"
proof -
  have "\<exists>s. original_start body 0 0 k = Some s"
    if "index_of (strip_ws body) (strip_ws search) = Some k" "strip_ws search \<noteq> []" for k
    using index_of_Some [OF that(1)] that(2)
    by (intro original_start_total) (cases "strip_ws search"; simp)+
  then show ?thesis
    by (auto simp: whitespaceIgnoredMatch_def js_includes_def Let_def split: option.splits) blast
qed

lemma strip_dropWhile: "strip_ws (dropWhile js_ws s) = strip_ws s"
  by (induction s) (simp_all add: strip_ws_def)

lemma strip_rev: "strip_ws (rev s) = rev (strip_ws s)"
  by (simp add: strip_ws_def rev_filter)

lemma strip_trim [simp]: "strip_ws (trim s) = strip_ws s"
  by (simp add: trim_def trim_end_def trim_start_def strip_rev strip_dropWhile)

lemma trim_ws: "trim s = [] \<longleftrightarrow> strip_ws s = []"
proof
  assume "strip_ws s = []"
  then have "\<forall>c \<in> set s. js_ws c" by (simp add: strip_ws_def filter_empty_conv)
  then show "trim s = []"
    by (auto simp: trim_def trim_end_def trim_start_def dropWhile_eq_Nil_conv dest: set_dropWhileD)
qed (metis strip_trim filter.simps(1) strip_ws_def)

lemma length_lower [simp]: "length (to_lower s) = length s"
  by (simp add: to_lower_def)

text \<open>What each strategy promises of the text it found.\<close>

fun says :: "strategy \<Rightarrow> string \<Rightarrow> string \<Rightarrow> bool" where
  "says EmptySearch search found \<longleftrightarrow> found = []"
| "says ExactMatch search found \<longleftrightarrow> found = search"
| "says TrimmedMatch search found \<longleftrightarrow> found = trim search"
| "says CaseInsensitiveMatch search found \<longleftrightarrow> to_lower found = to_lower search"
| "says WhitespaceIgnoredMatch search found \<longleftrightarrow> strip_ws found = strip_ws search"

lemma findSearchMatch_sound:
  assumes "findSearchMatch body search = Some m" "trim search \<noteq> []"
  shows "startIndex m < endIndex m \<and> endIndex m \<le> length body
    \<and> says (strategyName m) search (sub_list (startIndex m) (endIndex m) body)"
proof -
  have ne: "search \<noteq> []" using assms(2) by (auto simp: trim_def trim_start_def trim_end_def)
  have f: "first_strategy matchingStrategies body search = Some m" using assms by (simp add: findSearchMatch_def)
  consider (1) i where "index_of body search = Some i"
      "m = \<lparr>startIndex = i, endIndex = i + length search, strategyName = ExactMatch\<rparr>"
    | (2) i where "index_of body (trim search) = Some i"
      "m = \<lparr>startIndex = i, endIndex = i + length (trim search), strategyName = TrimmedMatch\<rparr>"
    | (3) i where "index_of (to_lower body) (to_lower search) = Some i"
      "m = \<lparr>startIndex = i, endIndex = i + length search, strategyName = CaseInsensitiveMatch\<rparr>"
    | (4) w where "whitespaceIgnoredMatch body search = Some w"
      "m = \<lparr>startIndex = startIndex w, endIndex = endIndex w, strategyName = WhitespaceIgnoredMatch\<rparr>"
    using f by (auto simp: matchingStrategies_def exactMatch_def trimmedMatch_def caseInsensitiveMatch_def
        split: option.splits)
  then show ?thesis
  proof cases
    case 1
    then show ?thesis using index_of_Some [OF 1(1)] ne by simp
  next
    case 2
    then show ?thesis using index_of_Some [OF 2(1)] assms(2) by simp
  next
    case 3
    have "sub_list i (i + length search) (to_lower body) = to_lower (sub_list i (i + length search) body)"
      by (simp add: sub_list_def to_lower_def take_map drop_map)
    then show ?thesis using index_of_Some [OF 3(1)] 3(2) ne by simp
  next
    case 4
    then show ?thesis using whitespace_match [OF 4(1)] by simp
  qed
qed

lemma findSearchMatch_None:
  assumes "trim search \<noteq> []"
  shows "findSearchMatch body search = None \<longleftrightarrow>
    \<not> js_includes (to_lower body) (to_lower search) \<and> \<not> js_includes (strip_ws body) (strip_ws search)"
proof -
  have inc: "\<not> js_includes body (trim search)" if n: "\<not> js_includes (strip_ws body) (strip_ws search)"
  proof
    assume "js_includes body (trim search)"
    then obtain a b where "body = a @ trim search @ b" by (auto simp: includes_iff)
    then have "strip_ws body = strip_ws a @ strip_ws (trim search) @ strip_ws b" by (simp add: strip_ws_def)
    then show False using n by (auto simp: includes_iff)
  qed
  have low: "\<not> js_includes body search" if n: "\<not> js_includes (to_lower body) (to_lower search)"
  proof
    assume "js_includes body search"
    then obtain a b where "body = a @ search @ b" by (auto simp: includes_iff)
    then have "to_lower body = to_lower a @ to_lower search @ to_lower b" by (simp add: to_lower_def)
    then show False using n by (auto simp: includes_iff)
  qed
  have "findSearchMatch body search = None \<longleftrightarrow> \<not> js_includes body search \<and> \<not> js_includes body (trim search)
      \<and> \<not> js_includes (to_lower body) (to_lower search) \<and> \<not> js_includes (strip_ws body) (strip_ws search)"
    using assms
    whitespace_match_None [of body search]
    by (simp add: findSearchMatch_def matchingStrategies_def exactMatch_def trimmedMatch_def
        caseInsensitiveMatch_def js_includes_def trim_ws split: option.split) auto
  then show ?thesis using inc low by blast
qed

section \<open>All matches\<close>

lemma findSearchMatch_start: "findSearchMatch body search = Some m \<Longrightarrow> startIndex m \<le> length body"
  using findSearchMatch_sound [of body search m] by (cases "trim search = []") (auto simp: findSearchMatch_def)

text \<open>
  The loop of \<open>findSearchMatches\<close>. It ends because a match that does not start after the last
  one breaks it.
\<close>

function matches_loop :: "string \<Rightarrow> string \<Rightarrow> search_match list \<Rightarrow> nat \<Rightarrow> search_match list" where
  "matches_loop body search acc off =
     (if drop off body = [] then acc
      else (case findSearchMatch (drop off body) search of
              None \<Rightarrow> acc
            | Some m \<Rightarrow>
                (let m' = shift_match off m
                 in if acc \<noteq> [] \<and> startIndex m' \<le> startIndex (last acc) then acc
                    else matches_loop body search (acc @ [m']) (endIndex m'))))"
  by pat_completeness auto
termination
proof (relation "measure (\<lambda>(body, search, acc, off).
    if acc = [] then length body + 2 else length body + 1 - startIndex (last acc))", goal_cases)
  case (2 body search acc off m m')
  then have "startIndex m' \<le> length body"
    using findSearchMatch_start [of "drop off body" search m] by (auto simp: shift_match_def)
  then show ?case using 2 by auto
qed simp

declare matches_loop.simps [simp del]

definition findSearchMatches :: "string \<Rightarrow> string \<Rightarrow> search_match list" where
  "findSearchMatches body search =
     (if trim search = [] then [\<lparr>startIndex = 0, endIndex = 0, strategyName = EmptySearch\<rparr>]
      else matches_loop body search [] 0)"

text \<open>\<open>spans p ms n\<close>: matches one after the other, none empty, between \<open>p\<close> and \<open>n\<close>.\<close>

fun spans :: "nat \<Rightarrow> search_match list \<Rightarrow> nat \<Rightarrow> bool" where
  "spans p [] n \<longleftrightarrow> p \<le> n"
| "spans p (m # ms) n \<longleftrightarrow> p \<le> startIndex m \<and> startIndex m < endIndex m \<and> spans (endIndex m) ms n"

lemma spans_le: "spans p ms n \<Longrightarrow> p \<le> n"
  by (induction ms arbitrary: p) force+

lemma spans_snoc: "spans p (ms @ [m]) n \<longleftrightarrow>
    spans p ms (startIndex m) \<and> startIndex m < endIndex m \<and> endIndex m \<le> n"
  by (induction ms arbitrary: p) auto

lemma spans_last: "spans p ms n \<Longrightarrow> ms \<noteq> [] \<Longrightarrow> endIndex (last ms) \<le> n \<and> startIndex (last ms) < endIndex (last ms)"
  by (induction ms arbitrary: p) (auto dest: spans_le)

lemma spans_mono: "spans p ms n \<Longrightarrow> n \<le> n' \<Longrightarrow> spans p ms n'"
  by (induction ms arbitrary: p) auto

text \<open>With a real search text the guard never fires: the loop runs to the end of the matches.\<close>

lemma matches_loop_eq:
  assumes "trim search \<noteq> []" "spans 0 acc off" "off \<le> length body"
  shows "\<exists>ms. matches_loop body search acc off = acc @ ms \<and> spans off ms (length body)
    \<and> list_all (\<lambda>m. says (strategyName m) search (sub_list (startIndex m) (endIndex m) body)) ms
    \<and> findSearchMatch (drop (if ms = [] then off else endIndex (last ms)) body) search = None
    \<and> (ms = [] \<longleftrightarrow> findSearchMatch (drop off body) search = None)"
  using assms
proof (induction body search acc off rule: matches_loop.induct)
  case (1 body search acc off)
  show ?case
  proof (cases "findSearchMatch (drop off body) search")
    case None
    then show ?thesis using "1.prems" by (intro exI [of _ "[]"]) (simp add: matches_loop.simps [of body])
  next
    case (Some m)
    let ?m = "shift_match off m"
    have m: "startIndex m < endIndex m" "endIndex m \<le> length body - off"
      "says (strategyName m) search (sub_list (startIndex m) (endIndex m) (drop off body))"
      using findSearchMatch_sound [OF Some "1.prems"(1)] by simp_all
    have ne: "drop off body \<noteq> []" using m(1,2) by auto
    have g: "\<not> (acc \<noteq> [] \<and> startIndex ?m \<le> startIndex (last acc))"
      using spans_last [OF "1.prems"(2)] by (auto simp: shift_match_def)
    have "spans 0 (acc @ [?m]) (endIndex ?m)" "endIndex ?m \<le> length body"
      using "1.prems"(2,3) m(1,2) by (auto simp: spans_snoc shift_match_def intro: spans_mono)
    from "1.IH" [OF ne Some refl g "1.prems"(1) this] obtain ms where ms:
      "matches_loop body search (acc @ [?m]) (endIndex ?m) = (acc @ [?m]) @ ms" "spans (endIndex ?m) ms (length body)"
      "list_all (\<lambda>m. says (strategyName m) search (sub_list (startIndex m) (endIndex m) body)) ms"
      "findSearchMatch (drop (if ms = [] then endIndex ?m else endIndex (last ms)) body) search = None" by blast
    have "sub_list (startIndex ?m) (endIndex ?m) body = sub_list (startIndex m) (endIndex m) (drop off body)"
      by (simp add: sub_list_def shift_match_def add.commute)
    moreover have "matches_loop body search acc off = acc @ ?m # ms"
      using ne Some g ms(1) by (subst matches_loop.simps) (simp add: Let_def)
    ultimately show ?thesis
      using ms m Some by (intro exI [of _ "?m # ms"]) (auto simp: shift_match_def)
  qed
qed



text \<open>
  The strategies are tried afresh on the rest of the file, so a text that occurs exactly once
  can have a second, laxer match behind it (but not before it).
\<close>

lemma lax_match_behind_exact:
  "map strategyName (findSearchMatches ''foo Foo'' ''foo'') = [ExactMatch, CaseInsensitiveMatch]"
  "map strategyName (findSearchMatches ''Foo foo'' ''foo'') = [ExactMatch]"
  by code_simp+

end
