(* ===== verification/Find_Replace.thy ===== *)
theory Find_Replace
  imports Search_Match Js_Values
begin

text \<open>
  \<open>extensions/incontrol/core/edit/searchAndReplace\<close>: the checks of the edit tools
  (\<open>findAndReplaceUtils.ts\<close>, \<open>multiEditValidation.ts\<close>) and the replacement
  (\<open>performReplace.ts\<close>). The arguments of a tool call are JSON values; an error is the reason of
  the \<open>IncontrolError\<close> with its message, or the \<open>TypeError\<close> of reading a property of \<open>null\<close>.
\<close>

section \<open>Checking the arguments\<close>

datatype reason =
    MissingOldString
  | MissingNewString
  | IdenticalOldAndNewStrings
  | InvalidReplaceAll
  | EditsArrayRequired
  | EditsArrayEmpty
  | NonFirstEmptyOldString
  | OldStringNotFound
  | MultipleOccurrences

datatype edit_error = Incontrol_error reason string | Type_error

record edit_operation =
  old_string :: string
  new_string :: string
  replace_all :: "bool option"

definition edit_context :: "nat option \<Rightarrow> string" where
  "edit_context index = (case index of Some i \<Rightarrow> ''edit at index '' @ show_nat i @ '': '' | None \<Rightarrow> [])"

definition validateSingleEdit ::
  "json option \<Rightarrow> json option \<Rightarrow> json option \<Rightarrow> nat option \<Rightarrow> edit_error + edit_operation" where
  "validateSingleEdit oldString newString replaceAll index =
     (case oldString of
        Some (JStr old) \<Rightarrow>
          (case newString of
             Some (JStr new) \<Rightarrow>
               if old = new
               then Inl (Incontrol_error IdenticalOldAndNewStrings
                      (edit_context index @ ''old_string and new_string must be different''))
               else (case replaceAll of
                       None \<Rightarrow> Inr \<lparr>old_string = old, new_string = new, replace_all = None\<rparr>
                     | Some (JBool b) \<Rightarrow> Inr \<lparr>old_string = old, new_string = new, replace_all = Some b\<rparr>
                     | Some _ \<Rightarrow> Inl (Incontrol_error InvalidReplaceAll
                         (edit_context index @ ''replace_all must be a valid boolean'')))
           | _ \<Rightarrow> Inl (Incontrol_error MissingNewString (edit_context index @ ''string new_string is required'')))
      | _ \<Rightarrow> Inl (Incontrol_error MissingOldString (edit_context index @ ''string old_string is required'')))"

definition trimEmptyLines :: "string list \<Rightarrow> bool \<Rightarrow> string list" where
  "trimEmptyLines lines fromEnd =
     (if fromEnd then rev (dropWhile (\<lambda>l. trim l = []) (rev lines)) else dropWhile (\<lambda>l. trim l = []) lines)"

text \<open>The loop over the edits; reading a property of \<open>null\<close> throws.\<close>

fun validate_edits :: "nat \<Rightarrow> json list \<Rightarrow> edit_error + edit_operation list" where
  "validate_edits i [] = Inr []"
| "validate_edits i (e # es) =
     (if e = JNull then Inl Type_error
      else
        (case validateSingleEdit (js_prop ''old_string'' e) (js_prop ''new_string'' e) (js_prop ''replace_all'' e) (Some i) of
           Inl err \<Rightarrow> Inl err
         | Inr op \<Rightarrow>
             if i > 0 \<and> old_string op = []
             then Inl (Incontrol_error NonFirstEmptyOldString
                    (''Edit at index '' @ show_nat i @ '': old_string cannot be empty. Only the first edit can have an empty old_string for insertion at the beginning of the file.''))
             else (case validate_edits (Suc i) es of
                     Inl err \<Rightarrow> Inl err
                   | Inr ops \<Rightarrow> Inr (op # ops))))"

text \<open>
  \<open>validateMultiEdit\<close> returns the very array it checked; the model returns its elements as the
  operations they are.
\<close>

definition validateMultiEdit :: "json option \<Rightarrow> edit_error + edit_operation list" where
  "validateMultiEdit args =
     (case args of
        Some (JObj fs) \<Rightarrow>
          (case map_of fs ''edits'' of
             None \<Rightarrow> Inl (Incontrol_error EditsArrayRequired ''invalid multi-edit args'')
           | Some (JArr edits) \<Rightarrow>
               if edits = []
               then Inl (Incontrol_error EditsArrayEmpty ''edits array must contain at least one edit'')
               else validate_edits 0 edits
           | Some _ \<Rightarrow> Inl (Incontrol_error EditsArrayRequired ''edits array is required''))
      | _ \<Rightarrow> Inl (Incontrol_error EditsArrayRequired ''invalid multi-edit args''))"

section \<open>Indentation\<close>

definition leading_ws :: "string \<Rightarrow> string" where
  "leading_ws line = takeWhile js_ws line"

definition getLeadingIndent :: "string \<Rightarrow> string" where
  "getLeadingIndent s =
     (case filter (\<lambda>l. 0 < length (trim l)) (split_on newline s) of
        [] \<Rightarrow> []
      | l # _ \<Rightarrow> leading_ws l)"

text \<open>\<open>lastIndexOf ('\n', p)\<close>; a negative \<open>p\<close> counts as 0.\<close>

definition last_newline :: "string \<Rightarrow> nat \<Rightarrow> nat option" where
  "last_newline s p =
     (case filter (\<lambda>i. s ! i = newline) [0..<min (Suc p) (length s)] of
        [] \<Rightarrow> None
      | i # is \<Rightarrow> Some (last (i # is)))"

definition line_start :: "string \<Rightarrow> nat \<Rightarrow> nat" where
  "line_start s p = (case last_newline s (p - 1) of None \<Rightarrow> 0 | Some i \<Rightarrow> Suc i)"

definition getLineIndentAtPosition :: "string \<Rightarrow> nat \<Rightarrow> string" where
  "getLineIndentAtPosition body p =
     (let rest = drop (line_start body p) body
      in leading_ws (case index_of rest [newline] of None \<Rightarrow> rest | Some k \<Rightarrow> take k rest))"

definition adjust_line :: "string \<Rightarrow> string \<Rightarrow> nat \<Rightarrow> string \<Rightarrow> string" where
  "adjust_line matchedIndent oldIndent index line =
     (if length (trim line) = 0 then line
      else if index = 0
      then (if oldIndent \<noteq> [] \<and> starts_with line oldIndent then drop (length oldIndent) line else line)
      else if starts_with line oldIndent then matchedIndent @ drop (length oldIndent) line
      else line)"

definition adjustReplacementIndentation :: "string \<Rightarrow> search_match \<Rightarrow> string \<Rightarrow> string \<Rightarrow> string" where
  "adjustReplacementIndentation body m oldString newString =
     (if strategyName m = ExactMatch \<or> strategyName m = EmptySearch then newString
      else
        (let matchedIndent = getLineIndentAtPosition body (startIndex m);
             oldIndent = getLeadingIndent oldString
         in if matchedIndent = oldIndent then newString
            else (let lines = split_on newline newString
                  in join_with [newline] (map (\<lambda>(i, l). adjust_line matchedIndent oldIndent i l) (zip [0..<length lines] lines)))))"

section \<open>Replacement\<close>

definition replace_match :: "string \<Rightarrow> string \<Rightarrow> search_match \<Rightarrow> string \<Rightarrow> string" where
  "replace_match oldString newString m result =
     take (startIndex m) result @ adjustReplacementIndentation result m oldString newString
       @ drop (endIndex m) result"

definition executeFindAndReplace :: "string \<Rightarrow> string \<Rightarrow> string \<Rightarrow> bool \<Rightarrow> nat \<Rightarrow> edit_error + string" where
  "executeFindAndReplace body oldString newString replaceAll editIndex =
     (let matches = findSearchMatches body oldString
      in if length matches = 0
         then Inl (Incontrol_error OldStringNotFound
                (''Edit at index '' @ show_nat editIndex @ '': string not found in file: '' @ [CHR 0x22] @ oldString @ [CHR 0x22]))
         else if replaceAll then Inr (fold (replace_match oldString newString) (rev matches) body)
         else if length matches > 1
         then Inl (Incontrol_error MultipleOccurrences
                (''Edit at index '' @ show_nat editIndex @ '': String '' @ [CHR 0x22] @ oldString @ [CHR 0x22]
                 @ '' appears '' @ show_nat (length matches)
                 @ '' times in the file. Either provide a more specific string with surrounding context to make it unique, or use replace_all=true to replace all occurrences.''))
         else Inr (replace_match oldString newString (hd matches) body))"

fun multi_replace_loop :: "nat \<Rightarrow> edit_operation list \<Rightarrow> string \<Rightarrow> edit_error + string" where
  "multi_replace_loop i [] result = Inr result"
| "multi_replace_loop i (e # es) result =
     (case executeFindAndReplace result (old_string e) (new_string e) (or_else (replace_all e) False) i of
        Inl err \<Rightarrow> Inl err
      | Inr r \<Rightarrow> multi_replace_loop (Suc i) es r)"

definition executeMultiFindAndReplace :: "string \<Rightarrow> edit_operation list \<Rightarrow> edit_error + string" where
  "executeMultiFindAndReplace body edits = multi_replace_loop 0 edits body"

section \<open>Replacing from the end is replacing from the start\<close>

lemma first_line: "(case index_of s [newline] of None \<Rightarrow> s | Some k \<Rightarrow> take k s) = takeWhile (\<lambda>c. c \<noteq> newline) s"
  by (induction s) (auto simp: starts_with_def split: option.splits)

lemma indent_eq: "getLineIndentAtPosition s p = takeWhile (\<lambda>c. c \<noteq> newline \<and> js_ws c) (drop (line_start s p) s)"
  by (simp add: getLineIndentAtPosition_def Let_def first_line leading_ws_def takeWhile_takeWhile)

lemma line_start_prefix:
  assumes "p < e" "e \<le> length s"
  shows "line_start (take e s @ x) p = line_start s p"
proof -
  have "filter (\<lambda>i. (take e s @ x) ! i = newline) [0..<Suc (p - 1)] = filter (\<lambda>i. s ! i = newline) [0..<Suc (p - 1)]"
    using assms by (intro filter_cong) (auto simp: nth_append)
  moreover have "min (Suc (p - 1)) (length (take e s @ x)) = Suc (p - 1)" "min (Suc (p - 1)) (length s) = Suc (p - 1)"
    using assms by auto
  ultimately show ?thesis unfolding line_start_def last_newline_def by simp
qed

lemma line_start_le:
  assumes "p \<le> j" "j < length s" "\<not> js_ws (s ! j)"
  shows "line_start s p \<le> j"
proof (cases "last_newline s (p - 1)")
  case None
  then show ?thesis by (simp add: line_start_def)
next
  case (Some i)
  then have "i \<in> set (filter (\<lambda>i. s ! i = newline) [0..<min (Suc (p - 1)) (length s)])"
    by (auto simp: last_newline_def split: list.splits simp del: set_filter)
  then have i: "i \<le> p - 1" "s ! i = newline" by auto
  have "js_ws newline" by code_simp
  then have "i \<noteq> j" using i(2) assms(3) by auto
  then show ?thesis using Some i(1) assms(1) by (simp add: line_start_def)
qed

lemma indent_prefix:
  assumes "p < e" "e \<le> length s" "\<exists>j \<ge> p. j < e \<and> \<not> js_ws (s ! j)"
  shows "getLineIndentAtPosition (take e s @ x) p = getLineIndentAtPosition s p"
proof -
  obtain j where j: "p \<le> j" "j < e" "\<not> js_ws (s ! j)" using assms(3) by blast
  let ?l = "line_start s p" and ?P = "\<lambda>c. c \<noteq> newline \<and> js_ws c"
  have l: "?l \<le> j" using line_start_le [of p j s] j assms(2) by simp
  then have "take e s ! j \<in> set (drop ?l (take e s))"
    using j(2) assms(2) by (auto simp: in_set_conv_nth intro!: exI [of _ "j - ?l"])
  then have stop: "s ! j \<in> set (drop ?l (take e s))" using j(2) by simp
  have "takeWhile ?P (drop ?l (take e s @ y)) = takeWhile ?P (drop ?l (take e s))" for y
    using stop j(3) l j(2) assms(2) by (simp add: takeWhile_append1 [of "s ! j"])
  from this [of x] this [of "drop e s"] show ?thesis
    by (simp add: indent_eq line_start_prefix [OF assms(1,2)])
qed

lemma lower_ws: "js_ws (lower_char c) = js_ws c"
proof -
  have "(of_char c :: nat) < 256" by simp
  then show ?thesis by (auto simp: js_ws_def lower_char_def Let_def)
qed

lemma strip_lower: "strip_ws (to_lower s) = to_lower (strip_ws s)"
  by (simp add: strip_ws_def to_lower_def filter_map lower_ws comp_def)

lemma says_visible:
  assumes "says n search found" "trim search \<noteq> []" "n \<noteq> EmptySearch"
  shows "\<exists>c \<in> set found. \<not> js_ws c"
proof -
  have "strip_ws search \<noteq> []" using assms(2) by (simp add: trim_ws)
  moreover have "length (strip_ws found) = length (strip_ws search)"
    using assms(1,3) by (cases n) (auto, metis length_lower strip_lower)
  ultimately have "strip_ws found \<noteq> []" by auto
  then show ?thesis by (auto simp: strip_ws_def filter_empty_conv)
qed

text \<open>What replacing every match should make of a file: one pass from left to right.\<close>

fun spliced :: "string \<Rightarrow> string \<Rightarrow> string \<Rightarrow> nat \<Rightarrow> search_match list \<Rightarrow> string" where
  "spliced body oldString newString p [] = drop p body"
| "spliced body oldString newString p (m # ms) =
     sub_list p (startIndex m) body @ adjustReplacementIndentation body m oldString newString
       @ spliced body oldString newString (endIndex m) ms"

lemma adjust_prefix:
  assumes "startIndex m < endIndex m" "endIndex m \<le> length body" "trim oldString \<noteq> []"
    and "says (strategyName m) oldString (sub_list (startIndex m) (endIndex m) body)"
  shows "adjustReplacementIndentation (take (endIndex m) body @ x) m oldString newString
    = adjustReplacementIndentation body m oldString newString"
proof (cases "strategyName m = ExactMatch \<or> strategyName m = EmptySearch")
  case False
  obtain c where "c \<in> set (sub_list (startIndex m) (endIndex m) body)" "\<not> js_ws c"
    using says_visible [OF assms(4,3)] False by blast
  then obtain k where "k < endIndex m - startIndex m" "\<not> js_ws (body ! (startIndex m + k))"
    using assms(2) by (auto simp: sub_list_def in_set_conv_nth)
  then have "\<exists>j \<ge> startIndex m. j < endIndex m \<and> \<not> js_ws (body ! j)"
    by (intro exI [of _ "startIndex m + k"]) simp
  from indent_prefix [OF assms(1,2) this] show ?thesis by (simp add: adjustReplacementIndentation_def)
qed (simp add: adjustReplacementIndentation_def)

lemma replace_all_spliced:
  assumes "spans p ms (length body)" "trim oldString \<noteq> []"
    and "list_all (\<lambda>m. says (strategyName m) oldString (sub_list (startIndex m) (endIndex m) body)) ms"
  shows "fold (replace_match oldString newString) (rev ms) body = take p body @ spliced body oldString newString p ms"
  using assms
proof (induction ms arbitrary: p)
  case (Cons m ms)
  let ?s = "startIndex m" and ?e = "endIndex m"
  have m: "p \<le> ?s" "?s < ?e" "?e \<le> length body" using Cons.prems(1) spans_le by auto
  have IH: "fold (replace_match oldString newString) (rev ms) body
      = take ?e body @ spliced body oldString newString ?e ms"
    using Cons.IH [of ?e] Cons.prems by simp
  have "take ?s body = take p body @ sub_list p ?s body"
    using m(1) by (simp add: sub_list_def) (metis le_add_diff_inverse take_add)
  moreover have "replace_match oldString newString m (take ?e body @ x)
      = take ?s body @ adjustReplacementIndentation body m oldString newString @ x" for x
    using m Cons.prems adjust_prefix [OF m(2,3) Cons.prems(2)] by (simp add: replace_match_def min.absorb1)
  ultimately show ?case by (simp add: IH)
qed simp

text \<open>
  C28. \<open>executeFindAndReplace\<close> on every branch: no match is an error; several matches without
  \<open>replaceAll\<close> are an error; otherwise the result is the file with every match replaced, each by
  the new text indented as at its match, in one pass from the start, although the code works
  from the end on the text already changed. A blank search text inserts at the start.
\<close>

theorem find_and_replace_exact:
  "(let ms = findSearchMatches body oldString in
    if ms = []
    then \<exists>msg. executeFindAndReplace body oldString newString replaceAll i = Inl (Incontrol_error OldStringNotFound msg)
    else if length ms = 1 \<or> replaceAll
    then executeFindAndReplace body oldString newString replaceAll i = Inr (spliced body oldString newString 0 ms)
    else \<exists>msg. executeFindAndReplace body oldString newString replaceAll i = Inl (Incontrol_error MultipleOccurrences msg))"
proof -
  let ?ms = "findSearchMatches body oldString"
  have all: "fold (replace_match oldString newString) (rev ?ms) body = spliced body oldString newString 0 ?ms"
  proof (cases "trim oldString = []")
    case True
    then show ?thesis
      by (simp add: findSearchMatches_def replace_match_def adjustReplacementIndentation_def sub_list_def)
  next
    case False
    then show ?thesis
      using replace_all_spliced [of 0 ?ms body oldString newString]
        matches_loop_eq [OF False, of "[]" 0 body] by (auto simp: findSearchMatches_def)
  qed
  have "replace_match oldString newString (hd ?ms) body = fold (replace_match oldString newString) (rev ?ms) body"
    if "length ?ms = 1"
    using that by (cases ?ms) auto
  moreover have "length ?ms > 1" if "?ms \<noteq> []" "length ?ms \<noteq> 1" using that by (cases ?ms) auto
  ultimately show ?thesis using all by (auto simp: executeFindAndReplace_def Let_def)
qed

section \<open>Indentation changes nothing else\<close>

lemma trim_start_ws: "\<forall>c \<in> set w. js_ws c \<Longrightarrow> trim_start (w @ s) = trim_start s"
  by (induction w) (simp_all add: trim_start_def)

lemma leading_ws_ws: "c \<in> set (leading_ws s) \<Longrightarrow> js_ws c"
  by (auto simp: leading_ws_def dest: set_takeWhileD)

lemma oldIndent_ws: "c \<in> set (getLeadingIndent s) \<Longrightarrow> js_ws c"
  by (auto simp: getLeadingIndent_def leading_ws_ws split: list.splits)

lemma adjust_line_text:
  assumes "\<forall>c \<in> set mi. js_ws c" "\<forall>c \<in> set oi. js_ws c"
  shows "trim_start (adjust_line mi oi i l) = trim_start l"
proof -
  have "trim_start (drop (length oi) l) = trim_start l" "trim_start (mi @ drop (length oi) l) = trim_start l"
    if "starts_with l oi"
    using that assms by (auto simp: starts_with_iff trim_start_ws)
  then show ?thesis by (auto simp: adjust_line_def)
qed

lemma split_join: "ls \<noteq> [] \<Longrightarrow> \<forall>l \<in> set ls. d \<notin> set l \<Longrightarrow> split_on d (join_with [d] ls) = ls"
  by (induction "[d]" ls rule: join_with.induct) (auto simp: split_on_append split_on_single)

lemma adjust_keeps_lines:
  "map trim_start (split_on newline (adjustReplacementIndentation body m oldString newString))
     = map trim_start (split_on newline newString)"
proof -
  let ?mi = "getLineIndentAtPosition body (startIndex m)" and ?oi = "getLeadingIndent oldString"
  let ?ls = "split_on newline newString"
  let ?ls' = "map (\<lambda>(i, l). adjust_line ?mi ?oi i l) (zip [0..<length ?ls] ?ls)"
  have ws: "\<forall>c \<in> set ?mi. js_ws c" "\<forall>c \<in> set ?oi. js_ws c" "newline \<notin> set ?mi"
    by (auto simp: indent_eq oldIndent_ws dest: set_takeWhileD)
  have "newline \<notin> set l'" if "l' \<in> set ?ls'" for l'
  proof -
    obtain i l where "l \<in> set ?ls" "l' = adjust_line ?mi ?oi i l"
      using \<open>l' \<in> set ?ls'\<close> by (auto dest: set_zip_rightD)
    then show ?thesis
      using split_on_no_sep [of l newline newString] ws(3) by (auto simp: adjust_line_def dest: in_set_dropD)
  qed
  moreover have "?ls' \<noteq> []" by simp
  ultimately have s: "split_on newline (join_with [newline] ?ls') = ?ls'" by (intro split_join) auto
  have t: "map trim_start ?ls' = map trim_start ?ls"
    by (rule nth_equalityI) (simp_all add: adjust_line_text ws(1,2))
  show ?thesis
    unfolding adjustReplacementIndentation_def Let_def using s t by auto
qed

section \<open>What a checked multi-edit is\<close>

definition checked_edit :: "nat \<Rightarrow> edit_operation \<Rightarrow> bool" where
  "checked_edit i e \<longleftrightarrow> old_string e \<noteq> new_string e \<and> (i = 0 \<or> old_string e \<noteq> [])"

text \<open>The JSON value that says the same as a checked edit.\<close>

definition edit_of :: "json \<Rightarrow> edit_operation option" where
  "edit_of e =
     (case (js_prop ''old_string'' e, js_prop ''new_string'' e, js_prop ''replace_all'' e) of
        (Some (JStr a), Some (JStr b), None) \<Rightarrow> Some \<lparr>old_string = a, new_string = b, replace_all = None\<rparr>
      | (Some (JStr a), Some (JStr b), Some (JBool r)) \<Rightarrow> Some \<lparr>old_string = a, new_string = b, replace_all = Some r\<rparr>
      | _ \<Rightarrow> None)"

lemma validateSingle_iff:
  "validateSingleEdit (js_prop ''old_string'' e) (js_prop ''new_string'' e) (js_prop ''replace_all'' e) i = Inr op
     \<longleftrightarrow> edit_of e = Some op \<and> old_string op \<noteq> new_string op"
  by (auto simp: validateSingleEdit_def edit_of_def split: option.splits json.splits if_splits)

lemma edit_of_null: "edit_of JNull = None"
  by (simp add: edit_of_def)

lemma validate_edits_iff:
  "validate_edits i es = Inr ops \<longleftrightarrow>
     map edit_of es = map Some ops \<and> (\<forall>k < length ops. checked_edit (i + k) (ops ! k))"
proof (induction es arbitrary: i ops)
  case (Cons e es)
  show ?case
  proof (cases ops)
    case Nil
    then show ?thesis by (auto split: sum.splits)
  next
    case (Cons op ops')
    have split: "(\<forall>k < length (op # ops'). checked_edit (i + k) ((op # ops') ! k)) \<longleftrightarrow>
      checked_edit i op \<and> (\<forall>k < length ops'. checked_edit (Suc i + k) (ops' ! k))"
      by (auto simp: less_Suc_eq_0_disj)
    show ?thesis
      unfolding Cons split
      using Cons.IH [of "Suc i" ops'] validateSingle_iff [of e "Some i"] edit_of_null
      by (auto simp: checked_edit_def split: sum.splits)
  qed
qed auto

text \<open>
  C29. \<open>validateMultiEdit\<close> accepts exactly the objects whose \<open>edits\<close> are a non-empty array of
  objects with two different strings and an optional boolean, an empty \<open>old_string\<close> only in the
  first; and it returns those edits in order.
\<close>

theorem multi_edit_checked:
  "validateMultiEdit args = Inr ops \<longleftrightarrow>
     (\<exists>fs es. args = Some (JObj fs) \<and> map_of fs ''edits'' = Some (JArr es) \<and> es \<noteq> []
        \<and> map edit_of es = map Some ops
        \<and> list_all (\<lambda>e. old_string e \<noteq> new_string e) ops \<and> [] \<notin> old_string ` set (tl ops))"
proof -
  have "(\<forall>k < length ops. checked_edit (0 + k) (ops ! k)) \<longleftrightarrow>
      list_all (\<lambda>e. old_string e \<noteq> new_string e) ops \<and> [] \<notin> old_string ` set (tl ops)"
    by (cases ops) (auto simp: checked_edit_def list_all_length All_less_Suc2 in_set_conv_nth image_iff, (metis nth_mem)+)
  then show ?thesis
    using validate_edits_iff [of 0]
    by (auto simp: validateMultiEdit_def split: option.splits json.splits if_splits)
qed

end
