(* ===== verification/Common_Subsequence.thy ===== *)
theory Common_Subsequence
  imports Wibe_Prelude "HOL-Library.Sublist"
begin

text \<open>
  \<open>extensions/incontrol/core/util/lcs.ts\<close>: the longest common subsequence by a table of lengths
  and a walk back through it. The two loops fill the table row by row; a row is a list.
\<close>

section \<open>The table and the walk\<close>

text \<open>One row from the row above: \<open>left\<close> is the entry just written.\<close>

fun row_cells :: "'c \<Rightarrow> 'c list \<Rightarrow> nat list \<Rightarrow> nat \<Rightarrow> nat list" where
  "row_cells x (y # ys) (dg # ab # row) left =
     (let v = (if x = y then dg + 1 else max ab left)
      in v # row_cells x ys (ab # row) v)"
| "row_cells x _ _ left = []"

definition next_row :: "'c \<Rightarrow> 'c list \<Rightarrow> nat list \<Rightarrow> nat list" where
  "next_row x b prev = 0 # row_cells x b prev 0"

fun table_rows :: "'c list \<Rightarrow> 'c list \<Rightarrow> nat list \<Rightarrow> nat list list" where
  "table_rows [] b prev = [prev]"
| "table_rows (x # xs) b prev = prev # table_rows xs b (next_row x b prev)"

definition lengths :: "'c list \<Rightarrow> 'c list \<Rightarrow> nat list list" where
  "lengths a b = table_rows a b (replicate (length b + 1) 0)"

fun walk_back :: "nat list list \<Rightarrow> 'c list \<Rightarrow> nat \<Rightarrow> nat \<Rightarrow> 'c list \<Rightarrow> 'c list" where
  "walk_back t a 0 y result = result"
| "walk_back t a (Suc x) 0 result = result"
| "walk_back t a (Suc x) (Suc y) result =
     (if t ! Suc x ! Suc y = t ! x ! Suc y then walk_back t a x (Suc y) result
      else if t ! Suc x ! Suc y = t ! Suc x ! y then walk_back t a (Suc x) y result
      else walk_back t a x y (a ! x # result))"

definition longestCommonSubsequence :: "'c list \<Rightarrow> 'c list \<Rightarrow> 'c list" where
  "longestCommonSubsequence a b = walk_back (lengths a b) a (length a) (length b) []"

section \<open>The entries of the table\<close>

lemma row_cells_length: "length row = length ys + 1 \<Longrightarrow> length (row_cells x ys row left) = length ys"
proof (induction x ys row left rule: row_cells.induct)
  case (1 x y ys dg ab row left)
  then show ?case by (simp add: Let_def)
qed simp_all

lemma row_cells_nth:
  "length row = length ys + 1 \<Longrightarrow> j < length ys \<Longrightarrow>
   row_cells x ys row left ! j =
     (if x = ys ! j then row ! j + 1
      else max (row ! Suc j) (case j of 0 \<Rightarrow> left | Suc k \<Rightarrow> row_cells x ys row left ! k))"
proof (induction x ys row left arbitrary: j rule: row_cells.induct)
  case (1 x y ys dg ab row left)
  then show ?case by (cases j) (auto simp: Let_def split: nat.split)
qed auto

lemma next_row:
  assumes "length prev = length b + 1"
  shows "length (next_row x b prev) = length b + 1" "next_row x b prev ! 0 = 0"
    "j < length b \<Longrightarrow> next_row x b prev ! Suc j =
       (if x = b ! j then prev ! j + 1 else max (prev ! Suc j) (next_row x b prev ! j))"
proof -
  show "length (next_row x b prev) = length b + 1" "next_row x b prev ! 0 = 0"
    using assms by (simp_all add: next_row_def row_cells_length)
  show "next_row x b prev ! Suc j =
       (if x = b ! j then prev ! j + 1 else max (prev ! Suc j) (next_row x b prev ! j))" if "j < length b"
    using row_cells_nth [OF assms that, of x 0] by (cases j) (simp_all add: next_row_def)
qed

lemma table_rows_0: "table_rows a b prev ! 0 = prev"
  by (cases a) simp_all

lemma table_rows_nth:
  assumes "length prev = length b + 1"
  shows "table_rows a b prev ! 0 = prev"
    "i \<le> length a \<Longrightarrow> length (table_rows a b prev ! i) = length b + 1"
    "i < length a \<Longrightarrow> table_rows a b prev ! Suc i = next_row (a ! i) b (table_rows a b prev ! i)"
proof -
  show "table_rows a b prev ! 0 = prev" by (rule table_rows_0)
  show "i \<le> length a \<Longrightarrow> length (table_rows a b prev ! i) = length b + 1"
    using assms
  proof (induction a b prev arbitrary: i rule: table_rows.induct)
    case (2 x xs b prev)
    then show ?case by (cases i) (simp_all add: next_row(1))
  qed simp
  show "i < length a \<Longrightarrow> table_rows a b prev ! Suc i = next_row (a ! i) b (table_rows a b prev ! i)"
  proof (induction a b prev arbitrary: i rule: table_rows.induct)
    case (2 x xs b prev)
    then show ?case by (cases i) (simp_all add: table_rows_0)
  qed simp
qed

lemma lengths_entries:
  "j \<le> length b \<Longrightarrow> lengths a b ! 0 ! j = 0"
  "i \<le> length a \<Longrightarrow> lengths a b ! i ! 0 = 0"
  "i < length a \<Longrightarrow> j < length b \<Longrightarrow> lengths a b ! Suc i ! Suc j =
     (if a ! i = b ! j then lengths a b ! i ! j + 1
      else max (lengths a b ! i ! Suc j) (lengths a b ! Suc i ! j))"
proof -
  let ?z = "replicate (length b + 1) (0 :: nat)"
  have z: "length ?z = length b + 1" by simp
  note rows = table_rows_nth [OF z, where a = a, folded lengths_def]
  show "j \<le> length b \<Longrightarrow> lengths a b ! 0 ! j = 0" using rows(1) by (simp del: replicate_Suc)
  show "i \<le> length a \<Longrightarrow> lengths a b ! i ! 0 = 0"
    using rows(1,3) by (cases i) (simp_all add: next_row_def)
  show "lengths a b ! Suc i ! Suc j =
     (if a ! i = b ! j then lengths a b ! i ! j + 1
      else max (lengths a b ! i ! Suc j) (lengths a b ! Suc i ! j))" if "i < length a" "j < length b"
    using next_row(3) [OF rows(2) [of i], of j "a ! i"] that rows(3) [OF that(1)] by simp
qed

section \<open>The table bounds every common subsequence\<close>

lemma subseq_snoc:
  assumes "subseq (c @ [z]) (u @ [x])"
  shows "subseq c u" "z \<noteq> x \<Longrightarrow> subseq (c @ [z]) u"
proof -
  obtain us vs where uv: "u @ [x] = us @ vs" "subseq c us" "subseq [z] vs"
    using list_emb_appendD [OF assms] by blast
  then have z: "z \<in> set vs" by (simp add: subseq_singleton_left)
  then obtain vs' where vs: "vs = vs' @ [x]" "u = us @ vs'"
    using uv(1) by (cases vs rule: rev_cases) auto
  show "subseq c u" using uv(2) vs(2) by (simp add: subseq_rev_drop_many)
  show "subseq (c @ [z]) u" if "z \<noteq> x"
    using that z vs uv(2) by (auto intro!: list_emb_append_mono simp: subseq_singleton_left)
qed

lemma common_bounded:
  assumes "i \<le> length a" "j \<le> length b" "subseq c (take i a)" "subseq c (take j b)"
  shows "length c \<le> lengths a b ! i ! j"
  using assms
proof (induction "i + j" arbitrary: i j c rule: less_induct)
  case less
  show ?case
  proof (cases "i = 0 \<or> j = 0")
    case True
    then have "c = []" using less.prems by (cases c) auto
    then show ?thesis by simp
  next
    case False
    then obtain i' j' where ij: "i = Suc i'" "j = Suc j'" using not0_implies_Suc by blast
    then have b: "i' < length a" "j' < length b" using less.prems by simp_all
    have t: "take i a = take i' a @ [a ! i']" "take j b = take j' b @ [b ! j']"
      using b ij by (simp_all add: take_Suc_conv_app_nth)
    show ?thesis
    proof (cases c rule: rev_cases)
      case (snoc c' z)
      note u = subseq_snoc [OF less.prems(3) [unfolded snoc t]] and v = subseq_snoc [OF less.prems(4) [unfolded snoc t]]
      have "length c' \<le> lengths a b ! i' ! j'" using less.hyps [of i' j' c'] b ij u(1) v(1) by simp
      moreover have "z \<noteq> a ! i' \<Longrightarrow> length c \<le> lengths a b ! i' ! j"
        using less.hyps [of i' j c] b ij u(2) less.prems(4) snoc by simp
      moreover have "z \<noteq> b ! j' \<Longrightarrow> length c \<le> lengths a b ! i ! j'"
        using less.hyps [of i j' c] b ij v(2) less.prems(3) snoc by simp
      moreover have "z \<noteq> a ! i' \<Longrightarrow> z \<noteq> b ! j' \<Longrightarrow> length c \<le> lengths a b ! i' ! j'"
        using less.hyps [of i' j' c] b ij u(2) v(2) snoc by simp
      ultimately show ?thesis using lengths_entries(3) [OF b] ij snoc
        by (cases "a ! i' = b ! j'"; cases "z = a ! i'") (auto simp: le_max_iff_disj)
    qed simp
  qed
qed

section \<open>The walk collects a subsequence of that length\<close>

lemma walk_back_collects:
  assumes "x \<le> length a" "y \<le> length b"
  shows "\<exists>c. walk_back (lengths a b) a x y r = c @ r \<and> length c = lengths a b ! x ! y
    \<and> subseq c (take x a) \<and> subseq c (take y b)"
  using assms
proof (induction "lengths a b" a x y r rule: walk_back.induct)
  case (1 a y r)
  then show ?case by (simp add: lengths_entries(1))
next
  case (2 a x r)
  then show ?case by (simp add: lengths_entries(2))
next
  case (3 a x y r)
  let ?t = "lengths a b"
  have b: "x < length a" "y < length b" using 3 by simp_all
  have t: "take (Suc x) a = take x a @ [a ! x]" "take (Suc y) b = take y b @ [b ! y]"
    using b by (simp_all add: take_Suc_conv_app_nth)
  show ?case
  proof (cases "?t ! Suc x ! Suc y = ?t ! x ! Suc y")
    case True
    then show ?thesis using "3.hyps"(1) b 3(5) by (auto simp: t(1) subseq_rev_drop_many)
  next
    case n1: False
    show ?thesis
    proof (cases "?t ! Suc x ! Suc y = ?t ! Suc x ! y")
      case True
      then show ?thesis using "3.hyps"(2) n1 b 3(4) by (auto simp: t(2) subseq_rev_drop_many)
    next
      case n2: False
      then have eq: "a ! x = b ! y" "?t ! Suc x ! Suc y = ?t ! x ! y + 1"
        using lengths_entries(3) [OF b] n1 by (auto simp: max_def split: if_splits)
      obtain c where "walk_back ?t a x y (a ! x # r) = c @ a ! x # r" "length c = ?t ! x ! y"
        "subseq c (take x a)" "subseq c (take y b)"
        using "3.hyps"(3) n1 n2 b by auto
      then show ?thesis
        using n1 n2 eq t by (intro exI [of _ "c @ [a ! x]"]) (simp add: list_emb_append_mono)
    qed
  qed
qed

text \<open>
  C30. \<open>longestCommonSubsequence\<close> returns a common subsequence of its arguments, and none is
  longer.
\<close>

theorem lcs_longest:
  "subseq (longestCommonSubsequence a b) a \<and> subseq (longestCommonSubsequence a b) b
    \<and> (\<forall>c. subseq c a \<and> subseq c b \<longrightarrow> length c \<le> length (longestCommonSubsequence a b))"
  using walk_back_collects [of "length a" a "length b" b "[]"] common_bounded [of "length a" a "length b" b]
  by (auto simp: longestCommonSubsequence_def)

lemma lcs_longest_witness:
  "longestCommonSubsequence ''nematode'' ''empty'' = ''emt''
    \<and> length ''et'' \<le> length (longestCommonSubsequence ''nematode'' ''empty'')"
proof -
  have "subseq ''et'' ''nematode'' \<and> subseq ''et'' ''empty''" by simp
  then have "length ''et'' \<le> length (longestCommonSubsequence ''nematode'' ''empty'')"
    using lcs_longest [of "''nematode''" "''empty''"] by blast
  moreover have "longestCommonSubsequence ''nematode'' ''empty'' = ''emt''" by code_simp
  ultimately show ?thesis by blast
qed

end
