(* ===== verification/Line_Diff.thy ===== *)
theory Line_Diff
  imports Wibe_Prelude
begin

text \<open>
  \<open>extensions/incontrol/core/diff\<close>: the streaming line diff (\<open>streamDiff.ts\<close> with \<open>matchLine\<close> of
  \<open>util.ts\<close>), the splitting of a stream of chunks into lines, and the adaptation of the
  third-party diff in \<open>myers.ts\<close>. An asynchronous generator is the list of what it yields. The
  edit distance (package \<open>fastest-levenshtein\<close>) and the diff of package \<open>diff\<close> are arguments.
\<close>

section \<open>Matching a line\<close>

datatype diff_type = Same | New | Old

record diff_line =
  dl_type :: diff_type
  dl_line :: string

record match_result =
  mr_index :: "nat option"
  mr_perfect :: bool
  mr_newLine :: string

definition linesMatchPerfectly :: "string \<Rightarrow> string \<Rightarrow> bool" where
  "linesMatchPerfectly a b \<longleftrightarrow> a = b \<and> a \<noteq> []"

definition end_brackets :: "string list" where
  "end_brackets = [''}'', ''});'', ''})'']"

text \<open>
  \<open>d / max(|a|, |b|) <= max(0, 0.48 - linesBetween * 0.06)\<close> in integers; for two empty lines the
  quotient is \<open>NaN\<close> and the comparison false.
\<close>

definition fuzzy_close :: "(string \<Rightarrow> string \<Rightarrow> nat) \<Rightarrow> string \<Rightarrow> string \<Rightarrow> nat \<Rightarrow> bool" where
  "fuzzy_close distance a b between =
     (let n = max (length a) (length b) in n \<noteq> 0 \<and> 100 * distance a b \<le> n * (48 - 6 * between))"

definition linesMatch :: "(string \<Rightarrow> string \<Rightarrow> nat) \<Rightarrow> string \<Rightarrow> string \<Rightarrow> nat \<Rightarrow> bool" where
  "linesMatch distance a b between =
     (if trim a \<in> set [''}'', ''*'', ''});'', ''})''] then trim a = trim b
      else (fuzzy_close distance a b between \<or> trim a = trim b) \<and> trim a \<noteq> [])"

fun match_loop ::
  "(string \<Rightarrow> string \<Rightarrow> nat) \<Rightarrow> string \<Rightarrow> bool \<Rightarrow> bool \<Rightarrow> nat \<Rightarrow> string list \<Rightarrow> match_result" where
  "match_loop distance line permissive isEndBracket i [] =
     \<lparr>mr_index = None, mr_perfect = False, mr_newLine = line\<rparr>"
| "match_loop distance line permissive isEndBracket i (old # olds) =
     (let o' = trim_end old; n' = trim_end line
      in if i > 4 \<and> isEndBracket then \<lparr>mr_index = None, mr_perfect = False, mr_newLine = line\<rparr>
         else if linesMatchPerfectly n' o' then \<lparr>mr_index = Some i, mr_perfect = True, mr_newLine = line\<rparr>
         else if linesMatch distance n' o' i then
           (if trim_start n' = trim_start o' \<and> (permissive \<or> length (trim line) > 8)
            then \<lparr>mr_index = Some i, mr_perfect = True, mr_newLine = old\<rparr>
            else \<lparr>mr_index = Some i, mr_perfect = False, mr_newLine = line\<rparr>)
         else match_loop distance line permissive isEndBracket (Suc i) olds)"

definition matchLine :: "(string \<Rightarrow> string \<Rightarrow> nat) \<Rightarrow> string \<Rightarrow> string list \<Rightarrow> bool \<Rightarrow> match_result" where
  "matchLine distance line olds permissive =
     (if trim line = [] \<and> olds \<noteq> [] \<and> trim (hd olds) = []
      then \<lparr>mr_index = Some 0, mr_perfect = True, mr_newLine = trim line\<rparr>
      else match_loop distance line permissive (trim line \<in> set end_brackets) 0 olds)"

section \<open>The streaming diff\<close>

abbreviation dl :: "diff_type \<Rightarrow> string \<Rightarrow> diff_line" where
  "dl t l \<equiv> \<lparr>dl_type = t, dl_line = l\<rparr>"

fun stream_diff_loop :: "(string \<Rightarrow> string \<Rightarrow> nat) \<Rightarrow> bool \<Rightarrow> string list \<Rightarrow> string list \<Rightarrow> diff_line list" where
  "stream_diff_loop distance seen olds [] = map (dl Old) olds"
| "stream_diff_loop distance seen olds (n # ns) =
     (if olds = [] then map (dl New) (n # ns)
      else
        (let r = matchLine distance n olds seen;
             seen' = (seen \<or> n \<noteq> mr_newLine r)
         in case mr_index r of
              None \<Rightarrow> dl New (mr_newLine r) # stream_diff_loop distance seen' olds ns
            | Some i \<Rightarrow>
                map (dl Old) (take i olds)
                @ (if mr_perfect r then [dl Same (olds ! i)] else [dl Old (olds ! i), dl New (mr_newLine r)])
                @ stream_diff_loop distance seen' (drop (Suc i) olds) ns))"

definition streamDiff :: "(string \<Rightarrow> string \<Rightarrow> nat) \<Rightarrow> string list \<Rightarrow> string list \<Rightarrow> diff_line list" where
  "streamDiff distance oldLines newLines = stream_diff_loop distance False oldLines newLines"

section \<open>Lines of a stream of chunks\<close>

fun stream_lines_loop :: "string \<Rightarrow> string list \<Rightarrow> string list" where
  "stream_lines_loop buffer [] = (if length buffer > 0 then [buffer] else [])"
| "stream_lines_loop buffer (chunk # chunks) =
     (let lines = split_on newline (buffer @ chunk)
      in butlast lines @ stream_lines_loop (last lines) chunks)"

definition streamLines :: "string list \<Rightarrow> string list" where
  "streamLines chunks = stream_lines_loop [] chunks"

section \<open>Adapting a third-party diff\<close>

record change =
  ch_value :: string
  ch_added :: bool
  ch_removed :: bool

definition convertMyersChangeToDiffLines :: "change \<Rightarrow> diff_line list" where
  "convertMyersChangeToDiffLines c =
     (let t = (if ch_added c then New else if ch_removed c then Old else Same);
          lines = split_on newline (ch_value c)
      in map (dl t) (if last lines = [] then butlast lines else lines))"

text \<open>
  The loop that joins an old line with the new line after it: it goes on behind the joined
  pair, whose \<open>splice\<close> moves the next line to the next index.
\<close>

fun join_pairs :: "diff_line list \<Rightarrow> diff_line list" where
  "join_pairs (a # b # ds) =
     (if dl_type a = Old \<and> dl_type b = New \<and> trim (dl_line a) = trim (dl_line b)
      then dl Same (dl_line a) # join_pairs ds
      else a # join_pairs (b # ds))"
| "join_pairs ds = ds"

definition drop_empty_old :: "diff_line list \<Rightarrow> diff_line list" where
  "drop_empty_old ds = rev (dropWhile (\<lambda>d. dl_type d = Old \<and> dl_line d = []) (rev ds))"

definition myersDiff :: "(string \<Rightarrow> string \<Rightarrow> change list) \<Rightarrow> string \<Rightarrow> string \<Rightarrow> diff_line list" where
  "myersDiff diffLines oldContent newContent =
     drop_empty_old (join_pairs (concat (map convertMyersChangeToDiffLines (diffLines oldContent newContent))))"

section \<open>Replaying a diff\<close>

definition old_side :: "diff_line list \<Rightarrow> string list" where
  "old_side ds = map dl_line (filter (\<lambda>d. dl_type d \<noteq> New) ds)"

definition new_side :: "diff_line list \<Rightarrow> string list" where
  "new_side ds = map dl_line (filter (\<lambda>d. dl_type d \<noteq> Old) ds)"

lemma sides [simp]:
  "old_side [] = []" "new_side [] = []"
  "old_side (d # ds) = (if dl_type d = New then old_side ds else dl_line d # old_side ds)"
  "new_side (d # ds) = (if dl_type d = Old then new_side ds else dl_line d # new_side ds)"
  "old_side (ds @ es) = old_side ds @ old_side es"
  "new_side (ds @ es) = new_side ds @ new_side es"
  "old_side (map (dl Old) ls) = ls" "new_side (map (dl Old) ls) = []"
  "old_side (map (dl New) ls) = []" "new_side (map (dl New) ls) = ls"
  by (simp_all add: old_side_def new_side_def filter_map comp_def)

lemma trim_end_Cons: "\<not> js_ws c \<Longrightarrow> trim_end (c # v) = c # trim_end v"
  by (cases "\<exists>x \<in> set v. \<not> js_ws x") (auto simp: trim_end_def dropWhile_append)

lemma trim_end_blank: "\<forall>c \<in> set v. js_ws c \<Longrightarrow> trim_end v = []"
  by (simp add: trim_end_def)

lemma trim_end_append: "\<exists>c \<in> set v. \<not> js_ws c \<Longrightarrow> trim_end (w @ v) = w @ trim_end v"
  by (auto simp: trim_end_def dropWhile_append)

lemma trim_start_end: "trim_start (trim_end s) = trim_end (trim_start s)"
proof (cases "\<forall>c \<in> set s. js_ws c")
  case True
  then have d: "dropWhile js_ws s = []" by simp
  show ?thesis using True unfolding trim_start_def d by (simp add: trim_end_blank)
next
  case False
  then obtain c v where v: "dropWhile js_ws s = c # v"
    by (cases "dropWhile js_ws s") auto
  then have c: "\<not> js_ws c" by (metis hd_dropWhile list.sel(1) list.simps(3))
  have "s = takeWhile js_ws s @ c # v" using v by (metis takeWhile_dropWhile_id)
  then have "trim_end s = takeWhile js_ws s @ c # trim_end v"
    using trim_end_append [of "c # v" "takeWhile js_ws s"] c by (simp add: trim_end_Cons)
  moreover have "dropWhile js_ws (takeWhile js_ws s @ c # x) = c # x" for x
    using c by (subst dropWhile_append2) (auto dest: set_takeWhileD)
  ultimately show ?thesis using v c by (simp add: trim_start_def trim_end_Cons)
qed

lemma trim_end_idem [simp]: "trim_end (trim_end s) = trim_end s"
  by (simp add: trim_end_def)

lemma trim_trim_end [simp]: "trim (trim_end s) = trim s"
  by (simp add: trim_def trim_start_end)

section \<open>What the streaming diff says\<close>

lemma trim_end_eq: "trim_end a = trim_end b \<Longrightarrow> trim a = trim b"
  by (metis trim_trim_end)

lemma trim_start_eq: "trim_start (trim_end a) = trim_start (trim_end b) \<Longrightarrow> trim a = trim b"
  by (metis trim_def trim_trim_end)

text \<open>A match is in range, and its line is the new line up to surrounding white space.\<close>

lemma match_loop_line: "trim (mr_newLine (match_loop distance line permissive b i olds)) = trim line"
  by (induction olds arbitrary: i) (auto simp: Let_def dest: trim_start_eq)

lemma match_loop_sound:
  "mr_index (match_loop distance line permissive b i olds) = Some k \<Longrightarrow> i \<le> k \<and> k < i + length olds
     \<and> (mr_perfect (match_loop distance line permissive b i olds) \<longrightarrow> trim (olds ! (k - i)) = trim line)"
proof (induction olds arbitrary: i)
  case (Cons old olds)
  let ?r = "match_loop distance line permissive b i (old # olds)"
  let ?n = "trim_end line" and ?o = "trim_end old"
  have ne: "\<not> (4 < i \<and> b)" using Cons.prems by auto
  consider (here) "mr_index ?r = Some i" "mr_perfect ?r \<longrightarrow> trim old = trim line"
    | (later) "?r = match_loop distance line permissive b (Suc i) olds"
  proof (cases "linesMatchPerfectly ?n ?o")
    case True
    then have "trim line = trim old" by (intro trim_end_eq) (simp add: linesMatchPerfectly_def)
    then show ?thesis using here ne True by simp
  next
    case no: False
    show ?thesis
    proof (cases "linesMatch distance ?n ?o i")
      case True
      show ?thesis
      proof (cases "trim_start ?n = trim_start ?o \<and> (permissive \<or> length (trim line) > 8)")
        case exact: True
        then have "trim old = trim line" using trim_start_eq [of line old] by simp
        then show ?thesis using here ne no True exact by (simp add: Let_def)
      next
        case False
        then show ?thesis using here ne no True by (auto simp: Let_def)
      qed
    qed (use later ne no in simp)
  qed
  then show ?case
  proof cases
    case here
    then show ?thesis using Cons.prems by (auto simp del: match_loop.simps)
  next
    case later
    then have "Suc i \<le> k \<and> k < Suc i + length olds \<and> (mr_perfect ?r \<longrightarrow> trim (olds ! (k - Suc i)) = trim line)"
      using Cons.IH [of "Suc i"] Cons.prems by (simp del: match_loop.simps)
    moreover from this have "k - i = Suc (k - Suc i)" by linarith
    ultimately show ?thesis by (auto simp del: match_loop.simps)
  qed
qed simp

lemma matchLine_line: "trim (mr_newLine (matchLine distance line olds permissive)) = trim line"
  by (auto simp: matchLine_def match_loop_line) (simp add: trim_def trim_start_def trim_end_def)

lemma matchLine_sound:
  assumes "mr_index (matchLine distance line olds permissive) = Some k"
  shows "k < length olds \<and> (mr_perfect (matchLine distance line olds permissive) \<longrightarrow> trim (olds ! k) = trim line)"
  using assms match_loop_sound [of distance line permissive _ 0 olds k]
  by (auto simp: matchLine_def hd_conv_nth split: if_splits)

lemma stream_diff_sides:
  "old_side (stream_diff_loop distance seen olds ns) = olds
    \<and> list_all2 (\<lambda>l n. trim l = trim n) (new_side (stream_diff_loop distance seen olds ns)) ns"
proof (induction ns arbitrary: seen olds)
  case (Cons n ns)
  show ?case
  proof (cases "olds = []")
    case True
    then show ?thesis by (simp add: list_all2_same del: list.map)
  next
    case False
    let ?r = "matchLine distance n olds seen"
    show ?thesis
    proof (cases "mr_index ?r")
      case None
      then show ?thesis using False Cons matchLine_line [of distance n olds seen] by (simp add: Let_def)
    next
      case (Some i)
      note m = matchLine_sound [OF Some]
      have "take i olds @ olds ! i # drop (Suc i) olds = olds" using m by (simp add: id_take_nth_drop [symmetric])
      then show ?thesis
        using False Some m Cons matchLine_line [of distance n olds seen] by (simp add: Let_def)
    qed
  qed
qed simp

text \<open>
  \<open>streamDiff\<close>: whatever the edit distance, the lines marked old or same are exactly the old
  lines in order, and the lines marked new or same are, one for one and in order, the streamed
  lines up to white space around them.
\<close>

theorem stream_diff_replays:
  "old_side (streamDiff distance oldLines newLines) = oldLines
    \<and> length (new_side (streamDiff distance oldLines newLines)) = length newLines
    \<and> map trim (new_side (streamDiff distance oldLines newLines)) = map trim newLines"
  using stream_diff_sides [of distance False oldLines newLines]
  by (auto simp: streamDiff_def list_all2_conv_all_nth intro: nth_equalityI)

text \<open>
  Of the invariants the comment of \<open>streamDiff\<close> lists, the last one does not hold: an old line
  can follow a new line of the same hunk.
\<close>

lemma old_after_new:
  "map dl_type (streamDiff (\<lambda>a b. length a + length b) [''alpha'', ''gamma''] [''beta'', ''gamma'']) = [New, Old, Same]"
  by code_simp

section \<open>Splitting a stream into lines\<close>

lemma split_on_append_chunk:
  "split_on d (u @ v) = butlast (split_on d u) @ split_on d (last (split_on d u) @ v)"
proof (induction u)
  case (Cons c u)
  obtain w ws where "split_on d u = w # ws" by (cases "split_on d u") auto
  then show ?case using Cons by (cases ws) auto
qed simp

text \<open>However the text is cut into chunks, the lines are those of the whole text; an empty rest
  after the last line break is not a line.\<close>

lemma stream_lines_whole:
  "newline \<notin> set buffer \<Longrightarrow> stream_lines_loop buffer chunks =
     (let ls = split_on newline (buffer @ concat chunks) in if last ls = [] then butlast ls else ls)"
proof (induction chunks arbitrary: buffer)
  case Nil
  then show ?case by (simp add: split_on_single)
next
  case (Cons chunk chunks)
  let ?ls = "split_on newline (buffer @ chunk)"
  have n: "newline \<notin> set (last ?ls)" by (rule split_on_no_sep [of _ _ "buffer @ chunk"]) simp
  have ne: "split_on newline (last ?ls @ concat chunks) \<noteq> []" by simp
  have "split_on newline (buffer @ concat (chunk # chunks)) = butlast ?ls @ split_on newline (last ?ls @ concat chunks)"
    using split_on_append_chunk [of newline "buffer @ chunk" "concat chunks"] by simp
  then show ?case using Cons.IH [OF n] ne by (simp add: Let_def butlast_append)
qed

lemma stream_lines_chunks:
  "concat chunks = concat chunks' \<Longrightarrow> streamLines chunks = streamLines chunks'"
  by (simp add: streamLines_def stream_lines_whole)

section \<open>The adapted diff\<close>

lemma join_pairs_sides:
  "old_side (join_pairs ds) = old_side ds" "map trim (new_side (join_pairs ds)) = map trim (new_side ds)"
  by (induction ds rule: join_pairs.induct) auto

lemma drop_empty_old_sides:
  "new_side (drop_empty_old ds) = new_side ds"
  "\<exists>k. old_side ds = old_side (drop_empty_old ds) @ replicate k []"
proof -
  let ?P = "\<lambda>d. dl_type d = Old \<and> dl_line d = []"
  define t where "t = takeWhile ?P (rev ds)"
  have "rev ds = t @ dropWhile ?P (rev ds)" by (simp add: t_def)
  from arg_cong [OF this, of rev] have ds: "ds = drop_empty_old ds @ rev t" by (simp add: drop_empty_old_def)
  have all: "\<forall>d \<in> set t. ?P d" by (auto simp: t_def dest: set_takeWhileD)
  have "new_side (rev t) = []" using all by (auto simp: new_side_def filter_empty_conv)
  then show "new_side (drop_empty_old ds) = new_side ds" using arg_cong [OF ds, of new_side] by simp
  have "filter (\<lambda>d. dl_type d \<noteq> New) (rev t) = rev t" using all by auto
  moreover have "map dl_line (rev t) = map (\<lambda>_. []) (rev t)" using all by (intro map_cong) auto
  ultimately have "old_side (rev t) = replicate (length t) []"
    by (simp add: old_side_def map_replicate_const)
  then show "\<exists>k. old_side ds = old_side (drop_empty_old ds) @ replicate k []"
    using arg_cong [OF ds, of old_side] by auto
qed

end
