(* ===== verification/Unified_Diff.thy ===== *)
theory Unified_Diff
  imports Line_Diff
begin

text \<open>
  \<open>extensions/incontrol/core/edit/lazy/unifiedDiffApply.ts\<close>: recognising a unified diff, parsing it
  into hunks, finding each hunk in the source and applying it. An error thrown is \<open>None\<close>.
\<close>

section \<open>Recognising a unified diff\<close>

text \<open>The pattern \<open>\d+,?\d*\<close> at the start of a string: what follows it. No two of its parts can
  match the same character, so reading as much as possible decides the match.\<close>

definition after_range :: "string \<Rightarrow> string option" where
  "after_range s =
     (case s of
        c # _ \<Rightarrow>
          if js_digit c
          then (let r = dropWhile js_digit s
                in Some (dropWhile js_digit (if starts_with r '','' then tl r else r)))
          else None
      | [] \<Rightarrow> None)"

definition after_text :: "string \<Rightarrow> string \<Rightarrow> string option" where
  "after_text p s = (if starts_with s p then Some (drop (length p) s) else None)"

definition is_hunk_header :: "string \<Rightarrow> bool" where
  "is_hunk_header line =
     (Option.bind (Option.bind (Option.bind (Option.bind (after_text ''@@ -'' line) after_range)
        (after_text '' +'')) after_range) (after_text '' @@'') \<noteq> None)"

definition is_file_header :: "string \<Rightarrow> bool" where
  "is_file_header line = (starts_with line ''---'' \<or> starts_with line ''+++'')"

definition is_content_line :: "string \<Rightarrow> bool" where
  "is_content_line line = (line = [] \<or> hd line \<in> set ''+ -'')"

definition isUnifiedDiffFormat :: "string \<Rightarrow> bool" where
  "isUnifiedDiffFormat diff =
     (let lines = split_on newline (trim diff)
      in if length lines < 3 then False
         else (\<exists>l \<in> set lines. \<not> is_file_header l \<and> is_hunk_header l)
            \<and> (\<exists>l \<in> set lines. \<not> is_file_header l \<and> \<not> is_hunk_header l \<and> is_content_line l))"

section \<open>Parsing\<close>

text \<open>The loop over the lines: the hunk being read, if there is one.\<close>

fun parse_hunks :: "string list option \<Rightarrow> string list \<Rightarrow> string list list" where
  "parse_hunks current [] = (case current of None \<Rightarrow> [] | Some h \<Rightarrow> [h])"
| "parse_hunks current (line # lines) =
     (if is_file_header line then parse_hunks current lines
      else if starts_with line ''@@''
      then (case current of None \<Rightarrow> [] | Some h \<Rightarrow> [h]) @ parse_hunks (Some []) lines
      else parse_hunks (map_option (\<lambda>h. h @ [line]) current) lines)"

definition parseUnifiedDiff :: "string \<Rightarrow> string list list" where
  "parseUnifiedDiff diffText = parse_hunks None (split_lines diffText)"

section \<open>Applying\<close>

definition extractBeforeLines :: "string list \<Rightarrow> string list" where
  "extractBeforeLines hunk =
     map tl (filter (\<lambda>l. starts_with l ''-'' \<or> \<not> starts_with l ''+'') hunk)"

definition hunk_lines_match :: "string \<Rightarrow> string \<Rightarrow> bool" where
  "hunk_lines_match a b = (trim_start a = trim_start b)"

definition block_at :: "string list \<Rightarrow> string list \<Rightarrow> nat \<Rightarrow> bool" where
  "block_at source before i = (\<forall>j < length before. hunk_lines_match (source ! (i + j)) (before ! j))"

definition findHunkInSource :: "string list \<Rightarrow> string list \<Rightarrow> nat \<Rightarrow> nat option" where
  "findHunkInSource source before start =
     List.find (block_at source before) [start..<Suc (length source) - length before]"

fun emit_hunk :: "string list \<Rightarrow> nat \<Rightarrow> string list \<Rightarrow> diff_line list" where
  "emit_hunk source p [] = []"
| "emit_hunk source p (d # ds) =
     (if starts_with d ''+'' then dl New (tl d) # emit_hunk source p ds
      else if starts_with d ''-'' then dl Old (source ! p) # emit_hunk source (Suc p) ds
      else dl Same (source ! p) # emit_hunk source (Suc p) ds)"

fun hunk_end :: "nat \<Rightarrow> string list \<Rightarrow> nat" where
  "hunk_end p [] = p"
| "hunk_end p (d # ds) = (if starts_with d ''+'' then hunk_end p ds else hunk_end (Suc p) ds)"

fun apply_hunks :: "string list \<Rightarrow> nat \<Rightarrow> string list list \<Rightarrow> diff_line list option" where
  "apply_hunks source pos [] = Some (map (dl Same) (drop pos source))"
| "apply_hunks source pos (hunk # hunks) =
     (case findHunkInSource source (extractBeforeLines hunk) pos of
        None \<Rightarrow> None
      | Some start \<Rightarrow>
          map_option (\<lambda>rest. map (dl Same) (sub_list pos start source) @ emit_hunk source start hunk @ rest)
            (apply_hunks source (hunk_end start hunk) hunks))"

definition applyUnifiedDiff :: "string \<Rightarrow> string \<Rightarrow> diff_line list option" where
  "applyUnifiedDiff sourceCode diffText = apply_hunks (split_lines sourceCode) 0 (parseUnifiedDiff diffText)"

section \<open>What it means to apply a diff\<close>

definition added_lines :: "string list \<Rightarrow> string list" where
  "added_lines hunk = map tl (filter (\<lambda>l. starts_with l ''+'') hunk)"

definition kind_of :: "string \<Rightarrow> diff_type" where
  "kind_of l = (if starts_with l ''+'' then New else if starts_with l ''-'' then Old else Same)"

text \<open>
  The hunks lie at the given lines: one after the other, none overlapping, each where its old
  lines are, up to white space at the start of a line.
\<close>

fun placed :: "string list \<Rightarrow> nat \<Rightarrow> string list list \<Rightarrow> nat list \<Rightarrow> bool" where
  "placed source pos [] [] = (pos \<le> length source)"
| "placed source pos (h # hs) (i # is) =
     (pos \<le> i \<and> block_at source (extractBeforeLines h) i
       \<and> placed source (i + length (extractBeforeLines h)) hs is)"
| "placed source pos _ _ = False"

text \<open>The sequence of kinds of lines that a placement of the hunks stands for.\<close>

fun kinds :: "nat \<Rightarrow> nat \<Rightarrow> string list list \<Rightarrow> nat list \<Rightarrow> diff_type list" where
  "kinds n pos (h # hs) (i # is) =
     replicate (i - pos) Same @ map kind_of h @ kinds n (i + length (extractBeforeLines h)) hs is"
| "kinds n pos _ _ = replicate (n - pos) Same"

definition inserted :: "diff_line list \<Rightarrow> string list" where
  "inserted ds = map dl_line (filter (\<lambda>d. dl_type d = New) ds)"

lemma inserted_simps [simp]:
  "inserted [] = []" "inserted (ds @ es) = inserted ds @ inserted es"
  "inserted (d # ds) = (if dl_type d = New then dl_line d # inserted ds else inserted ds)"
  by (simp_all add: inserted_def)

lemma inserted_same [simp]: "inserted (map (dl Same) ls) = []"
  by (simp add: inserted_def)

lemma old_side_same [simp]: "old_side (map (dl Same) ls) = ls"
  by (simp add: old_side_def filter_map comp_def)

lemma kinds_of_same: "map dl_type (map (dl Same) ls) = replicate (length ls) Same"
  by (induction ls) simp_all

lemma not_both: "starts_with l ''+'' \<Longrightarrow> \<not> starts_with l ''-''"
  by (cases l) (auto simp: starts_with_def)

lemma hunk_end_before: "hunk_end p h = p + length (extractBeforeLines h)"
  by (induction h arbitrary: p) (auto simp: extractBeforeLines_def dest: not_both)

lemma emit_hunk_kinds: "map dl_type (emit_hunk source p h) = map kind_of h"
  by (induction h arbitrary: p) (simp_all add: kind_of_def)

lemma emit_hunk_inserted: "inserted (emit_hunk source p h) = added_lines h"
  by (induction h arbitrary: p) (simp_all add: added_lines_def)

lemma sub_list_Suc: "a < b \<Longrightarrow> b \<le> length s \<Longrightarrow> sub_list a b s = s ! a # sub_list (Suc a) b s"
  by (simp add: sub_list_def Cons_nth_drop_Suc [symmetric] take_Cons')

lemma hunk_end_ge: "p \<le> hunk_end p h"
  by (simp add: hunk_end_before)

lemma emit_hunk_old: "hunk_end p h \<le> length source \<Longrightarrow> old_side (emit_hunk source p h) = sub_list p (hunk_end p h) source"
proof (induction h arbitrary: p)
  case Nil
  then show ?case by (simp add: sub_list_def)
next
  case (Cons d ds)
  have "Suc p \<le> hunk_end (Suc p) ds" by (rule hunk_end_ge)
  then show ?case using Cons by (auto simp: sub_list_Suc)
qed

text \<open>The search for a hunk.\<close>

lemma findHunk_Some:
  assumes "findHunkInSource source before start = Some i"
  shows "start \<le> i" "i + length before \<le> length source" "block_at source before i"
  using assms by (auto simp: findHunkInSource_def find_Some_iff nth_upt)

lemma findHunk_least:
  assumes "start \<le> k" "k + length before \<le> length source" "block_at source before k"
  shows "\<exists>i \<le> k. findHunkInSource source before start = Some i"
proof -
  let ?is = "[start..<Suc (length source) - length before]"
  have k: "k \<in> set ?is" using assms by auto
  then obtain i where i: "findHunkInSource source before start = Some i"
    using assms(3) by (cases "findHunkInSource source before start") (auto simp: findHunkInSource_def find_None_iff)
  then obtain j where j: "j < length ?is" "i = ?is ! j" "\<forall>m < j. \<not> block_at source before (?is ! m)"
    by (auto simp: findHunkInSource_def find_Some_iff)
  have "\<not> k < i"
  proof
    assume lt: "k < i"
    then have "k - start < j" and "?is ! (k - start) = k" using j assms(1) by (auto simp: nth_upt)
    then show False using j(3) assms(3) by auto
  qed
  then show ?thesis using i by auto
qed

lemma apply_hunks_sound:
  "pos \<le> length source \<Longrightarrow> apply_hunks source pos hs = Some ds \<Longrightarrow>
     old_side ds = drop pos source \<and> inserted ds = concat (map added_lines hs)
     \<and> (\<exists>is. placed source pos hs is \<and> map dl_type ds = kinds (length source) pos hs is)"
proof (induction hs arbitrary: pos ds)
  case Nil
  then have "placed source pos [] []" "map dl_type ds = kinds (length source) pos [] []"
    using kinds_of_same [of "drop pos source"] by auto
  then show ?case using Nil by (auto intro!: exI [of _ "[]"])
next
  case (Cons h hs)
  let ?b = "length (extractBeforeLines h)"
  from Cons.prems(2) obtain i rest where i: "findHunkInSource source (extractBeforeLines h) pos = Some i"
    and rest: "apply_hunks source (i + ?b) hs = Some rest"
    and ds: "ds = map (dl Same) (sub_list pos i source) @ emit_hunk source i h @ rest"
    by (auto simp: hunk_end_before split: option.splits)
  note f = findHunk_Some [OF i]
  obtain "is" where "is": "placed source (i + ?b) hs is" "map dl_type rest = kinds (length source) (i + ?b) hs is"
    and sides: "old_side rest = drop (i + ?b) source" "inserted rest = concat (map added_lines hs)"
    using Cons.IH [OF f(2) rest] by blast
  have "length (sub_list pos i source) = i - pos" using f by (simp add: length_sub_list)
  then have "placed source pos (h # hs) (i # is)" "map dl_type ds = kinds (length source) pos (h # hs) (i # is)"
    using f "is" kinds_of_same [of "sub_list pos i source"] by (simp_all add: ds emit_hunk_kinds)
  moreover have "sub_list pos i source @ sub_list i (i + ?b) source @ drop (i + ?b) source = drop pos source"
  proof -
    have "sub_list i (i + ?b) source @ drop (i + ?b) source = drop i source"
      by (simp add: sub_list_def) (metis append_take_drop_id drop_drop add.commute)
    moreover have "sub_list pos i source @ drop i source = drop pos source"
      using f(1) by (simp add: sub_list_def) (metis append_take_drop_id drop_drop le_add_diff_inverse2)
    ultimately show ?thesis by simp
  qed
  then have "old_side ds = drop pos source"
    using f(2) by (simp add: ds emit_hunk_old hunk_end_before sides)
  moreover have "inserted ds = concat (map added_lines (h # hs))"
    by (simp add: ds emit_hunk_inserted sides)
  ultimately show ?case by blast
qed

text \<open>Taking each hunk at the first place finds a placement whenever there is one.\<close>

lemma placed_bound: "placed source pos hs is \<Longrightarrow> pos \<le> length source"
  by (induction source pos hs "is" rule: placed.induct) auto

lemma apply_hunks_complete:
  "placed source pos hs is \<Longrightarrow> q \<le> pos \<Longrightarrow> apply_hunks source q hs \<noteq> None"
proof (induction source pos hs "is" arbitrary: q rule: placed.induct)
  case (2 source pos h hs i "is")
  let ?b = "length (extractBeforeLines h)"
  have "i + ?b \<le> length source" using 2(2) placed_bound by auto
  then obtain i' where i': "findHunkInSource source (extractBeforeLines h) q = Some i'" "i' \<le> i"
    using findHunk_least [of q i "extractBeforeLines h" source] 2(2,3) by auto
  then show ?case using 2(1) [of "i' + ?b"] 2(2) by (auto simp: hunk_end_before)
qed auto


text \<open>
  A line break at the end of the diff adds an empty context line to the last hunk, and the hunk is
  then only found before a blank line; a removed line that starts with two minus signs is taken
  for a file header and not removed.
\<close>

lemma final_newline_breaks_hunk:
  "applyUnifiedDiff (join_with [newline] [''a'', ''b'', ''c'']) (join_with [newline] [''@@ -1 +1 @@'', ''-a'', ''+x''])
     = Some [dl Old ''a'', dl New ''x'', dl Same ''b'', dl Same ''c'']"
  "applyUnifiedDiff (join_with [newline] [''a'', ''b'', ''c'']) (join_with [newline] [''@@ -1 +1 @@'', ''-a'', ''+x'', []])
     = None"
  by code_simp+

lemma removed_comment_kept:
  "applyUnifiedDiff (join_with [newline] [''a'', ''-- b'', ''c'']) (join_with [newline] [''@@ -1,3 +1,2 @@'', '' a'', ''--- b''])
     = Some [dl Same ''a'', dl Same ''-- b'', dl Same ''c'']"
  by code_simp

end
