(* ===== verification/Char_Diff.thy ===== *)
theory Char_Diff
  imports Line_Diff
begin

text \<open>
  \<open>myersCharDiff\<close> of \<open>extensions/incontrol/core/diff/myers.ts\<close>: a character diff of the package
  \<open>diff\<close>, cut at line breaks, with the offset, line and column of every piece in the old and in
  the new text. The result of \<open>diffChars\<close> is an argument.
\<close>

section \<open>The loop\<close>

record diff_char =
  dc_type :: diff_type
  dc_char :: string
  dc_oldIndex :: "nat option"
  dc_newIndex :: "nat option"
  dc_oldLineIndex :: "nat option"
  dc_newLineIndex :: "nat option"
  dc_oldCharIndexInLine :: "nat option"
  dc_newCharIndexInLine :: "nat option"

record place =
  pl_index :: nat
  pl_line :: nat
  pl_char :: nat

definition change_type :: "change \<Rightarrow> diff_type" where
  "change_type c = (if ch_added c then New else if ch_removed c then Old else Same)"

text \<open>\<open>value.split (/(\n)/g)\<close>: the lines with the line breaks between them.\<close>

definition split_keep :: "string \<Rightarrow> string list" where
  "split_keep s = (case split_on newline s of [] \<Rightarrow> [] | w # ws \<Rightarrow> w # concat (map (\<lambda>l. [[newline], l]) ws))"

definition change_parts :: "change \<Rightarrow> string list" where
  "change_parts c =
     (if newline \<in> set (ch_value c) then filter (\<lambda>p. p \<noteq> []) (split_keep (ch_value c)) else [ch_value c])"

definition advance :: "string \<Rightarrow> place \<Rightarrow> place" where
  "advance part p =
     (if part = [newline]
      then \<lparr>pl_index = pl_index p + length part, pl_line = pl_line p + 1, pl_char = 0\<rparr>
      else p\<lparr>pl_index := pl_index p + length part, pl_char := pl_char p + length part\<rparr>)"

definition char_entry :: "diff_type \<Rightarrow> string \<Rightarrow> place option \<Rightarrow> place option \<Rightarrow> diff_char" where
  "char_entry t part old new =
     \<lparr>dc_type = t, dc_char = part,
      dc_oldIndex = map_option pl_index old, dc_newIndex = map_option pl_index new,
      dc_oldLineIndex = map_option pl_line old, dc_newLineIndex = map_option pl_line new,
      dc_oldCharIndexInLine = map_option pl_char old, dc_newCharIndexInLine = map_option pl_char new\<rparr>"

definition char_step :: "diff_type \<Rightarrow> string \<Rightarrow> place \<times> place \<Rightarrow> diff_char \<times> place \<times> place" where
  "char_step t part pl =
     (let (old, new) = pl
      in case t of
           New \<Rightarrow> (char_entry New part None (Some new), old, advance part new)
         | Old \<Rightarrow> (char_entry Old part (Some old) None, advance part old, new)
         | Same \<Rightarrow> (char_entry Same part (Some old) (Some new), advance part old, advance part new))"

fun char_parts :: "diff_type \<Rightarrow> string list \<Rightarrow> place \<times> place \<Rightarrow> diff_char list \<times> place \<times> place" where
  "char_parts t [] pl = ([], pl)"
| "char_parts t (part # parts) pl =
     (let (e, pl') = char_step t part pl; (es, pl'') = char_parts t parts pl' in (e # es, pl''))"

fun char_changes :: "change list \<Rightarrow> place \<times> place \<Rightarrow> diff_char list" where
  "char_changes [] pl = []"
| "char_changes (c # cs) pl =
     (let (es, pl') = char_parts (change_type c) (change_parts c) pl in es @ char_changes cs pl')"

definition myersCharDiff :: "(string \<Rightarrow> string \<Rightarrow> change list) \<Rightarrow> string \<Rightarrow> string \<Rightarrow> diff_char list" where
  "myersCharDiff diffChars oldContent newContent =
     (let start = \<lparr>pl_index = 0, pl_line = 0, pl_char = 0\<rparr>
      in char_changes (diffChars oldContent newContent) (start, start))"

section \<open>Every piece is where it says\<close>

text \<open>The place of the character at an offset of a text.\<close>

definition place_of :: "string \<Rightarrow> nat \<Rightarrow> place" where
  "place_of s i = \<lparr>pl_index = i, pl_line = count_list (take i s) newline,
     pl_char = length (takeWhile (\<lambda>c. c \<noteq> newline) (rev (take i s)))\<rparr>"

abbreviation end_of :: "string \<Rightarrow> place" where
  "end_of s \<equiv> place_of s (length s)"

text \<open>One side of an entry: absent, or the place where the text reads as the entry says.\<close>

definition side_ok :: "string \<Rightarrow> bool \<Rightarrow> string \<Rightarrow> nat option \<Rightarrow> nat option \<Rightarrow> nat option \<Rightarrow> bool" where
  "side_ok s present part i l c =
     (if present
      then (case i of
              None \<Rightarrow> False
            | Some k \<Rightarrow> sub_list k (k + length part) s = part \<and> k + length part \<le> length s
                \<and> l = Some (pl_line (place_of s k)) \<and> c = Some (pl_char (place_of s k)))
      else i = None \<and> l = None \<and> c = None)"

definition entry_ok :: "string \<Rightarrow> string \<Rightarrow> diff_char \<Rightarrow> bool" where
  "entry_ok old new e =
     (side_ok old (dc_type e \<noteq> New) (dc_char e) (dc_oldIndex e) (dc_oldLineIndex e) (dc_oldCharIndexInLine e)
      \<and> side_ok new (dc_type e \<noteq> Old) (dc_char e) (dc_newIndex e) (dc_newLineIndex e) (dc_newCharIndexInLine e))"

definition old_text :: "change list \<Rightarrow> string" where
  "old_text cs = concat (map ch_value (filter (\<lambda>c. change_type c \<noteq> New) cs))"

definition new_text :: "change list \<Rightarrow> string" where
  "new_text cs = concat (map ch_value (filter (\<lambda>c. change_type c \<noteq> Old) cs))"

lemma concat_split_keep: "concat (split_keep s) = s"
proof -
  have "concat (concat (map (\<lambda>l. [[newline], l]) ws)) = (if ws = [] then [] else newline # join_with [newline] ws)" for ws
    by (induction ws rule: induct_list012) (auto simp: join_with_Cons)
  then show ?thesis using join_split_on [of newline s]
    by (cases "split_on newline s") (auto simp: split_keep_def join_with_Cons split: if_splits)
qed

lemma concat_filter_ne: "concat (filter (\<lambda>p. p \<noteq> []) ps) = concat ps"
  by (induction ps) auto

lemma concat_change_parts: "concat (change_parts c) = ch_value c"
  by (simp add: change_parts_def concat_filter_ne concat_split_keep)

text \<open>A part is a line break or free of line breaks.\<close>

lemma change_parts_clean: "p \<in> set (change_parts c) \<Longrightarrow> p = [newline] \<or> newline \<notin> set p"
  using split_on_no_sep [of _ newline "ch_value c"]
  by (cases "split_on newline (ch_value c)") (auto simp: change_parts_def split_keep_def split: if_splits)

lemma takeWhile_clean: "newline \<notin> set w \<Longrightarrow> takeWhile (\<lambda>c. c \<noteq> newline) (w @ v) = w @ takeWhile (\<lambda>c. c \<noteq> newline) v"
  by (rule takeWhile_append2) auto

lemma advance_end:
  assumes "part = [newline] \<or> newline \<notin> set part"
  shows "advance part (end_of s) = end_of (s @ part)"
proof (cases "part = [newline]")
  case True
  then show ?thesis by (simp add: advance_def place_of_def)
next
  case False
  then have n: "newline \<notin> set part" using assms by simp
  then show ?thesis using False takeWhile_clean [of "rev part" "rev s"]
    by (simp add: advance_def place_of_def count_list_0_iff [THEN iffD2])
qed

lemma place_of_append: "i \<le> length s \<Longrightarrow> place_of (s @ r) i = place_of s i"
  by (simp add: place_of_def)

lemma side_ok_at:
  "side_ok (s @ part @ r) True part (Some (pl_index (end_of s))) (Some (pl_line (end_of s))) (Some (pl_char (end_of s)))"
  by (simp add: side_ok_def sub_list_def place_of_def)

lemma char_step_ok:
  assumes "part = [newline] \<or> newline \<notin> set part"
    and "char_step t part (end_of a, end_of b) = (e, pl)"
  shows "pl = (end_of (if t = New then a else a @ part), end_of (if t = Old then b else b @ part))"
    and "entry_ok ((if t = New then a else a @ part) @ r) ((if t = Old then b else b @ part) @ q) e"
    and "dc_char e = part \<and> dc_type e = t"
  using assms advance_end [OF assms(1)] side_ok_at [of a part r] side_ok_at [of b part q]
  by (cases t; auto simp: char_step_def char_entry_def entry_ok_def; simp add: side_ok_def)+

lemma char_parts_ok:
  "\<forall>p \<in> set parts. p = [newline] \<or> newline \<notin> set p \<Longrightarrow>
   char_parts t parts (end_of a, end_of b) = (es, pl) \<Longrightarrow>
     pl = (end_of (if t = New then a else a @ concat parts), end_of (if t = Old then b else b @ concat parts))
     \<and> list_all (entry_ok ((if t = New then a else a @ concat parts) @ r) ((if t = Old then b else b @ concat parts) @ q)) es
     \<and> concat (map dc_char es) = concat parts \<and> list_all (\<lambda>e. dc_type e = t) es"
proof (induction parts arbitrary: a b es pl)
  case (Cons part parts)
  obtain e pl1 where e: "char_step t part (end_of a, end_of b) = (e, pl1)" by (rule prod.exhaust)
  have clean: "part = [newline] \<or> newline \<notin> set part" using Cons.prems(1) by simp
  let ?a = "if t = New then a else a @ part" and ?b = "if t = Old then b else b @ part"
  note st = char_step_ok [OF clean e]
  obtain es' where es': "char_parts t parts (end_of ?a, end_of ?b) = (es', pl)" "es = e # es'"
    using Cons.prems(2) e st(1) by (auto split: prod.splits)
  note ih = Cons.IH [OF _ es'(1)]
  show ?case
    using ih Cons.prems(1) st(3) st(2) [of "if t = New then r else concat parts @ r" "if t = Old then q else concat parts @ q"]
    by (auto simp: es'(2))
qed auto

lemma filter_all_same: "list_all (\<lambda>e. dc_type e = t) es \<Longrightarrow> filter (\<lambda>e. dc_type e \<noteq> u) es = (if t = u then [] else es)"
  by (induction es) auto

lemma char_changes_ok:
  "list_all (entry_ok (a @ old_text cs) (b @ new_text cs)) (char_changes cs (end_of a, end_of b))
    \<and> concat (map dc_char (filter (\<lambda>e. dc_type e \<noteq> New) (char_changes cs (end_of a, end_of b)))) = old_text cs
    \<and> concat (map dc_char (filter (\<lambda>e. dc_type e \<noteq> Old) (char_changes cs (end_of a, end_of b)))) = new_text cs"
proof (induction cs arbitrary: a b)
  case (Cons c cs)
  let ?t = "change_type c"
  obtain es pl where es: "char_parts ?t (change_parts c) (end_of a, end_of b) = (es, pl)" by (rule prod.exhaust)
  note p = char_parts_ok [OF _ es, where r = "old_text cs" and q = "new_text cs"]
  let ?a = "if ?t = New then a else a @ ch_value c" and ?b = "if ?t = Old then b else b @ ch_value c"
  have all: "list_all (\<lambda>e. dc_type e = ?t) es" and spelt: "concat (map dc_char es) = ch_value c"
    and pl: "pl = (end_of ?a, end_of ?b)" and ok: "list_all (entry_ok (?a @ old_text cs) (?b @ new_text cs)) es"
    using p change_parts_clean [of _ c] by (auto simp: concat_change_parts)
  have all_es: "char_changes (c # cs) (end_of a, end_of b) = es @ char_changes cs (end_of ?a, end_of ?b)"
    by (simp add: es pl del: length_append)
  have sides: "a @ old_text (c # cs) = ?a @ old_text cs" "b @ new_text (c # cs) = ?b @ new_text cs"
    "old_text (c # cs) = (if ?t = New then [] else ch_value c) @ old_text cs"
    "new_text (c # cs) = (if ?t = Old then [] else ch_value c) @ new_text cs"
    by (simp_all add: old_text_def new_text_def)
  show ?case
    unfolding all_es sides(1,2)
    using Cons [of ?a ?b] ok spelt filter_all_same [OF all] sides(3,4) by simp
qed (simp add: old_text_def new_text_def)

text \<open>
  C33. \<open>myersCharDiff\<close>: the pieces that are not new spell the old text and those that are not old
  the new text, and each piece stands in its texts at the offset, the line and the column that it
  carries, and carries none for a text it is not in.
\<close>

theorem char_diff_located:
  "let cs = diffChars oldContent newContent; es = myersCharDiff diffChars oldContent newContent
   in list_all (entry_ok (old_text cs) (new_text cs)) es
      \<and> concat (map dc_char (filter (\<lambda>e. dc_type e \<noteq> New) es)) = old_text cs
      \<and> concat (map dc_char (filter (\<lambda>e. dc_type e \<noteq> Old) es)) = new_text cs"
  using char_changes_ok [of "[]" "diffChars oldContent newContent" "[]"]
  by (simp add: myersCharDiff_def Let_def place_of_def)

end
