(* ===== verification/Conversation_Sync.thy ===== *)
theory Conversation_Sync
  imports Js_Values
begin

text \<open>
  \<open>extensions/incontrol/core/util/uwaConversationSync.ts\<close>: before a message is sent, the managed
  browser is brought back to the conversation the session is bound to, and the message gets an
  address that only that page serves. The network, the clock, \<open>sleep\<close>, the URL parser of the
  platform and the digest are an environment over a world \<open>'w\<close>; the polling loop has fuel, and
  running out of it is \<open>None\<close>.
\<close>

section \<open>The environment\<close>

record url_parts =
  u_origin :: string
  u_protocol :: string
  u_hostname :: string
  u_port :: string
  u_pathname :: string
  u_search :: string
  u_hash :: string

record 'w sync_env =
  parse_url :: "string \<Rightarrow> url_parts option"
  sha1_hex :: "string \<Rightarrow> string"
  http_get :: "string \<Rightarrow> 'w \<Rightarrow> http_answer \<times> 'w"
  http_post :: "string \<Rightarrow> json \<Rightarrow> 'w \<Rightarrow> http_answer \<times> 'w"
  date_now :: "'w \<Rightarrow> nat"
  sleep_ms :: "nat \<Rightarrow> 'w \<Rightarrow> 'w"

text \<open>\<open>getJson\<close>: \<open>None\<close> where it throws.\<close>

definition getJson :: "'w sync_env \<Rightarrow> string \<Rightarrow> string \<Rightarrow> 'w \<Rightarrow> json option \<times> 'w" where
  "getJson env baseUrl path w =
     (case http_get env (baseUrl @ path) w of
        (Failed, w') \<Rightarrow> (None, w')
      | (Answered status body, w') \<Rightarrow> (if res_ok status then body else None, w'))"

section \<open>The pool of tabs\<close>

record uwa_tab =
  persistentIndex :: int
  tab_url :: string
  browserContextId :: "string option"
  urlRouteToken :: "string option"

definition tab_of :: "json \<Rightarrow> uwa_tab option" where
  "tab_of t =
     (case js_prop ''persistent_index'' t of
        Some (JNum i) \<Rightarrow>
          if 1 \<le> i \<and> starts_with (string_or [] (js_prop ''url'' t)) ''http''
          then Some \<lparr>persistentIndex = i, tab_url = string_or [] (js_prop ''url'' t),
                 browserContextId = nonempty_string (js_prop ''browser_context_id'' t),
                 urlRouteToken = nonempty_string (js_prop ''url_route_token'' t)\<rparr>
          else None
      | _ \<Rightarrow> None)"

definition listUwaTabs :: "'w sync_env \<Rightarrow> string \<Rightarrow> 'w \<Rightarrow> uwa_tab list \<times> 'w" where
  "listUwaTabs env baseUrl w =
     (case getJson env baseUrl ''/api/tab-pool/tabs'' w of
        (None, w') \<Rightarrow> ([], w')
      | (Some data, w') \<Rightarrow> (List.map_filter tab_of (elements (js_prop ''tabs'' data)), w'))"

definition tabMatchesConversation :: "'w sync_env \<Rightarrow> string \<Rightarrow> string \<Rightarrow> bool" where
  "tabMatchesConversation env tabUrl targetUrl =
     (case (parse_url env tabUrl, parse_url env targetUrl) of
        (Some t, Some target) \<Rightarrow>
          if u_origin t \<noteq> u_origin target then False
          else if length (u_pathname target) \<le> 1 then False
          else js_includes (u_pathname t) (u_pathname target) \<or> js_includes (u_pathname target) (u_pathname t)
      | _ \<Rightarrow> False)"

section \<open>Route tokens\<close>

text \<open>\<open>replace (/c$/, "")\<close>: one such character at the end goes.\<close>

definition drop_last_char :: "char \<Rightarrow> string \<Rightarrow> string" where
  "drop_last_char c s = (if s \<noteq> [] \<and> last s = c then butlast s else s)"

definition normalized_host :: "string \<Rightarrow> string \<Rightarrow> string \<Rightarrow> string" where
  "normalized_host scheme hostname port =
     (let default = (if scheme = ''http'' then ''80'' else if scheme = ''https'' then ''443'' else []);
          host = (if js_includes hostname '':'' then ''['' @ hostname @ '']'' else hostname)
      in if port \<noteq> [] \<and> port \<noteq> default then host @ '':'' @ port else host)"

definition encodeTabUrlRouteToken :: "'w sync_env \<Rightarrow> string \<Rightarrow> string" where
  "encodeTabUrlRouteToken env value =
     (let raw = trim value
      in if raw = [] then []
         else (case parse_url env raw of
                 None \<Rightarrow> []
               | Some u \<Rightarrow>
                   (let scheme = to_lower (drop_last_char CHR '':'' (u_protocol u));
                        hostname = drop_last_char CHR ''.'' (to_lower (u_hostname u))
                    in if scheme = [] \<or> hostname = [] then []
                       else
                         (let path = (if u_pathname u = [] then ''/'' else u_pathname u);
                              normalized = scheme @ ''://'' @ normalized_host scheme hostname (u_port u)
                                @ path @ u_search u @ u_hash u
                          in take 12 (sha1_hex env normalized)))))"

section \<open>Bringing the page back\<close>

definition page_ready :: "'w sync_env \<Rightarrow> string \<Rightarrow> string \<Rightarrow> 'w \<Rightarrow> bool \<times> 'w" where
  "page_ready env baseUrl targetUrl w =
     (let (tabs, w') = listUwaTabs env baseUrl w
      in (\<exists>t \<in> set tabs. tabMatchesConversation env (tab_url t) targetUrl, w'))"

fun poll_ready :: "'w sync_env \<Rightarrow> string \<Rightarrow> string \<Rightarrow> nat \<Rightarrow> nat \<Rightarrow> 'w \<Rightarrow> (bool \<times> 'w) option" where
  "poll_ready env baseUrl targetUrl deadline 0 w = None"
| "poll_ready env baseUrl targetUrl deadline (Suc fuel) w =
     (if date_now env w < deadline
      then (case page_ready env baseUrl targetUrl (sleep_ms env 700 w) of
              (True, w') \<Rightarrow> Some (True, w')
            | (False, w') \<Rightarrow> poll_ready env baseUrl targetUrl deadline fuel w')
      else Some (False, w))"

definition open_body :: "string \<Rightarrow> string option \<Rightarrow> json" where
  "open_body targetUrl ctxId =
     JObj [(''url'', JStr targetUrl),
       (''profile'', case ctxId of
          Some c \<Rightarrow> JObj [(''browser_context_id'', JStr c)]
        | None \<Rightarrow> JObj [(''name'', JStr ''default'')])]"

definition open_page :: "'w sync_env \<Rightarrow> string \<Rightarrow> string \<Rightarrow> 'w \<Rightarrow> bool \<times> 'w" where
  "open_page env baseUrl targetUrl w =
     (let (tabs, w1) = listUwaTabs env baseUrl w;
          ctxId = (case List.map_filter browserContextId tabs of [] \<Rightarrow> None | c # _ \<Rightarrow> Some c)
      in case http_post env (baseUrl @ ''/api/browser/open-profile-url'') (open_body targetUrl ctxId) w1 of
           (Failed, w2) \<Rightarrow> (False, w2)
         | (Answered status _, w2) \<Rightarrow> (res_ok status, w2))"

definition ensureConversationPage ::
  "'w sync_env \<Rightarrow> string \<Rightarrow> string \<Rightarrow> nat \<Rightarrow> nat \<Rightarrow> 'w \<Rightarrow> (bool \<times> 'w) option" where
  "ensureConversationPage env baseUrl targetUrl timeoutMs fuel w =
     (if \<not> starts_with targetUrl ''http'' then Some (False, w)
      else (case page_ready env baseUrl targetUrl w of
              (True, w1) \<Rightarrow> Some (True, w1)
            | (False, w1) \<Rightarrow>
                (case open_page env baseUrl targetUrl w1 of
                   (False, w2) \<Rightarrow> Some (False, w2)
                 | (True, w2) \<Rightarrow> poll_ready env baseUrl targetUrl (date_now env w2 + timeoutMs) fuel w2)))"

definition token_ready :: "'w sync_env \<Rightarrow> string \<Rightarrow> string \<Rightarrow> 'w \<Rightarrow> bool \<times> 'w" where
  "token_ready env baseUrl token w =
     (let (tabs, w') = listUwaTabs env baseUrl w
      in (\<exists>t \<in> set tabs. encodeTabUrlRouteToken env (tab_url t) = token, w'))"

definition route_url :: "string \<Rightarrow> string \<Rightarrow> string" where
  "route_url baseUrl token = drop_last_char CHR ''/'' baseUrl @ ''/tab-url/'' @ token @ ''/v1/chat/completions''"

definition prepareUwaTargetUrl ::
  "'w sync_env \<Rightarrow> string \<Rightarrow> string \<Rightarrow> nat \<Rightarrow> nat \<Rightarrow> 'w \<Rightarrow> (string option \<times> 'w) option" where
  "prepareUwaTargetUrl env baseUrl targetUrl timeoutMs fuel w =
     (if \<not> starts_with targetUrl ''http'' then Some (None, w)
      else
        (let token = encodeTabUrlRouteToken env targetUrl
         in if token = [] then Some (None, w)
            else (case token_ready env baseUrl token w of
                    (True, w1) \<Rightarrow> Some (Some (route_url baseUrl token), w1)
                  | (False, w1) \<Rightarrow>
                      (case ensureConversationPage env baseUrl targetUrl timeoutMs fuel w1 of
                         None \<Rightarrow> None
                       | Some (_, w2) \<Rightarrow>
                           (case token_ready env baseUrl token w2 of
                              (True, w3) \<Rightarrow> Some (Some (route_url baseUrl token), w3)
                            | (False, w3) \<Rightarrow> Some (None, w3))))))"

section \<open>Returning, and being right\<close>

text \<open>What is asked of the clock: requests do not turn it back, and sleeping takes its time.\<close>

definition clock_law :: "'w sync_env \<Rightarrow> bool" where
  "clock_law env =
     (\<forall>w. (\<forall>u. date_now env w \<le> date_now env (snd (http_get env u w)))
        \<and> (\<forall>u b. date_now env w \<le> date_now env (snd (http_post env u b w)))
        \<and> (\<forall>k. date_now env w + k \<le> date_now env (sleep_ms env k w)))"

lemma clock_get: "clock_law env \<Longrightarrow> date_now env w \<le> date_now env (snd (http_get env u w))"
  and clock_post: "clock_law env \<Longrightarrow> date_now env w \<le> date_now env (snd (http_post env u b w))"
  and clock_sleep: "clock_law env \<Longrightarrow> date_now env w + k \<le> date_now env (sleep_ms env k w)"
  by (simp_all add: clock_law_def)

lemma listUwaTabs_clock:
  "clock_law env \<Longrightarrow> date_now env w \<le> date_now env (snd (listUwaTabs env baseUrl w))"
  using clock_get [of env w "baseUrl @ ''/api/tab-pool/tabs''"]
  by (auto simp: listUwaTabs_def getJson_def split: prod.splits http_answer.splits option.splits)

lemma page_ready_clock:
  "clock_law env \<Longrightarrow> date_now env w \<le> date_now env (snd (page_ready env baseUrl targetUrl w))"
  using listUwaTabs_clock [of env w baseUrl] by (auto simp: page_ready_def split: prod.splits)

lemma open_page_clock:
  assumes "clock_law env"
  shows "date_now env w \<le> date_now env (snd (open_page env baseUrl targetUrl w))"
proof -
  obtain tabs w1 where l: "listUwaTabs env baseUrl w = (tabs, w1)" by (rule prod.exhaust)
  have "date_now env w \<le> date_now env w1" using listUwaTabs_clock [OF assms, of w baseUrl] l by simp
  also have "date_now env w1 \<le> date_now env (snd (http_post env u b w1))" for u b
    by (rule clock_post [OF assms])
  finally show ?thesis
    by (simp add: open_page_def l Let_def split: prod.splits http_answer.splits) (metis snd_conv)
qed

lemma poll_step:
  assumes "clock_law env" "page_ready env baseUrl targetUrl (sleep_ms env 700 w) = (r, w')"
  shows "date_now env w + 700 \<le> date_now env w'"
  using clock_sleep [OF assms(1), of w 700] page_ready_clock [OF assms(1), of "sleep_ms env 700 w" baseUrl targetUrl]
  by (simp add: assms(2))

lemma poll_returns:
  assumes "clock_law env" "deadline \<le> date_now env w + 700 * n"
  shows "poll_ready env baseUrl targetUrl deadline (Suc n) w \<noteq> None"
proof (rule rounds_suffice [where now = "date_now env" and d = 700 and late = "\<lambda>w. (False, w)"
      and step = "\<lambda>w. case page_ready env baseUrl targetUrl (sleep_ms env 700 w) of (r, w') \<Rightarrow> if r then Inl (r, w') else Inr w'"])
  show "date_now env s + 700 \<le> date_now env s'"
    if "(case page_ready env baseUrl targetUrl (sleep_ms env 700 s) of (r, w') \<Rightarrow> if r then Inl (r, w') else Inr w') = Inr s'" for s s'
    using that poll_step [OF assms(1)] by (auto split: prod.splits if_splits)
qed (use assms(2) in \<open>auto split: prod.splits bool.splits\<close>)

lemma poll_finds:
  assumes clock: "clock_law env"
    and served: "\<And>w. ready_at \<le> date_now env w \<Longrightarrow> fst (page_ready env baseUrl targetUrl w)"
    and delay: "\<And>w. date_now env (snd (page_ready env baseUrl targetUrl w)) \<le> date_now env w + d"
    and time: "ready_at + d \<le> deadline"
  shows "date_now env w < deadline \<Longrightarrow> deadline \<le> date_now env w + 700 * n \<Longrightarrow>
    \<exists>w'. poll_ready env baseUrl targetUrl deadline (Suc n) w = Some (True, w')"
proof (induction n arbitrary: w)
  case (Suc n)
  let ?w = "sleep_ms env 700 w"
  obtain r w' where p: "page_ready env baseUrl targetUrl ?w = (r, w')" by (rule prod.exhaust)
  show ?case
  proof (cases r)
    case False
    then have "date_now env ?w < ready_at" using served [of ?w] p by (cases "ready_at \<le> date_now env ?w") auto
    then have "date_now env w' < deadline" using delay [of ?w] time p by simp
    then show ?thesis using Suc.IH [of w'] Suc.prems poll_step [OF clock p] p False by simp
  qed (use p Suc.prems in simp)
qed simp

lemma ensure_returns:
  assumes "clock_law env" "timeoutMs \<le> 700 * n"
  shows "\<exists>r w'. ensureConversationPage env baseUrl targetUrl timeoutMs (Suc n) w = Some (r, w')"
proof -
  have poll: "\<exists>r w'. poll_ready env baseUrl targetUrl (date_now env v + timeoutMs) (Suc n) v = Some (r, w')" for v
    using poll_returns [OF assms(1), of "date_now env v + timeoutMs" v n] assms(2) by auto
  then show ?thesis
    by (auto simp: ensureConversationPage_def simp del: poll_ready.simps split: prod.splits bool.splits)
qed

text \<open>
  C34. \<open>prepareUwaTargetUrl\<close> always returns: with a clock that does not run backwards, \<open>n\<close> rounds
  of 700 ms suffice for the timeout, whatever the network answers. If it returns an address, that
  is the route of the token of the target, the token is not empty, and the last thing seen was a
  listing with a tab of exactly this token.
\<close>

theorem prepare_returns:
  assumes "clock_law env" "timeoutMs \<le> 700 * n"
  shows "\<exists>r w'. prepareUwaTargetUrl env baseUrl targetUrl timeoutMs (Suc n) w = Some (r, w')
    \<and> (r = None
       \<or> r = Some (route_url baseUrl (encodeTabUrlRouteToken env targetUrl))
         \<and> encodeTabUrlRouteToken env targetUrl \<noteq> [] \<and> starts_with targetUrl ''http''
         \<and> (\<exists>w0. token_ready env baseUrl (encodeTabUrlRouteToken env targetUrl) w0 = (True, w')))"
proof -
  let ?t = "encodeTabUrlRouteToken env targetUrl"
  obtain r1 w1 where first: "token_ready env baseUrl ?t w = (r1, w1)" by (rule prod.exhaust)
  obtain r2 w2 where ensure: "ensureConversationPage env baseUrl targetUrl timeoutMs (Suc n) w1 = Some (r2, w2)"
    using ensure_returns [OF assms] by blast
  obtain r3 w3 where last: "token_ready env baseUrl ?t w2 = (r3, w3)" by (rule prod.exhaust)
  show ?thesis
    using first ensure last by (cases r1; cases r3) (auto simp: prepareUwaTargetUrl_def Let_def)
qed

text \<open>
  C35. \<open>ensureConversationPage\<close> succeeds in time: if the page can be opened, and from some moment
  on the pool lists it, and one look at the pool takes at most \<open>d\<close>, then it reports success
  whenever that moment is at least \<open>d\<close> before the timeout has run out.
\<close>

theorem conversation_page_found:
  assumes "clock_law env" "starts_with targetUrl ''http''" "0 < timeoutMs" "timeoutMs \<le> 700 * n"
    and "\<And>w. fst (open_page env baseUrl targetUrl w)"
    and "\<And>w. ready_at \<le> date_now env w \<Longrightarrow> fst (page_ready env baseUrl targetUrl w)"
    and "\<And>w. date_now env (snd (page_ready env baseUrl targetUrl w)) \<le> date_now env w + d"
    and "ready_at + d \<le> date_now env w + timeoutMs"
  shows "\<exists>w'. ensureConversationPage env baseUrl targetUrl timeoutMs (Suc n) w = Some (True, w')"
proof -
  obtain r1 w1 where p1: "page_ready env baseUrl targetUrl w = (r1, w1)" by (rule prod.exhaust)
  obtain w2 where p2: "open_page env baseUrl targetUrl w1 = (True, w2)"
    using assms(5) [of w1] by (cases "open_page env baseUrl targetUrl w1") auto
  have "date_now env w \<le> date_now env w2"
    using page_ready_clock [OF assms(1), of w baseUrl targetUrl] open_page_clock [OF assms(1), of w1 baseUrl targetUrl]
    by (simp add: p1 p2)
  then have "\<exists>w'. poll_ready env baseUrl targetUrl (date_now env w2 + timeoutMs) (Suc n) w2 = Some (True, w')"
    using assms(3,4,8) by (intro poll_finds [OF assms(1,6,7)]) auto
  then show ?thesis using assms(2) p1 p2 by (cases r1) (auto simp: ensureConversationPage_def)
qed

text \<open>
  A tab at the front page of the site passes for the conversation page, since the path of every
  target contains \<open>/\<close>; then nothing is opened.
\<close>

lemma front_page_matches:
  assumes "parse_url env tab = Some t" "parse_url env targetUrl = Some u"
    "u_origin t = u_origin u" "u_pathname t = ''/''" "u_pathname u = CHR ''/'' # p" "p \<noteq> []"
  shows "tabMatchesConversation env tab targetUrl"
proof -
  have "js_includes (u_pathname u) (u_pathname t)"
    unfolding includes_iff by (rule exI [of _ "[]"], rule exI [of _ p]) (simp add: assms)
  then show ?thesis using assms by (simp add: tabMatchesConversation_def)
qed

text \<open>A world that is its clock: the page is listed from 100 ms on, and a request takes 10 ms.\<close>

definition sample_env :: "nat sync_env" where
  "sample_env =
     \<lparr>parse_url = (\<lambda>s. Some \<lparr>u_origin = ''o'', u_protocol = ''https:'', u_hostname = ''h'', u_port = [],
        u_pathname = drop 9 s, u_search = [], u_hash = []\<rparr>),
      sha1_hex = rev,
      http_get = (\<lambda>u w. (Answered 200 (Some (JObj [(''tabs'',
        JArr (if 100 \<le> w then [JObj [(''persistent_index'', JNum 1), (''url'', JStr ''https://h/c/1'')]] else []))])), w + 10)),
      http_post = (\<lambda>u b w. (Answered 200 None, w + 10)),
      date_now = (\<lambda>w. w),
      sleep_ms = (\<lambda>k w. w + k)\<rparr>"

lemma sample_clock: "clock_law sample_env"
  by (simp add: clock_law_def sample_env_def)

lemma prepare_returns_witness:
  "(\<exists>r w'. prepareUwaTargetUrl sample_env ''b'' ''https://h/c/1'' 16000 (Suc 23) 0 = Some (r, w'))
    \<and> prepareUwaTargetUrl sample_env ''b/'' ''https://h/c/1'' 16000 (Suc 23) 0
        = Some (Some ''b/tab-url/1/c/h//:sptt/v1/chat/completions'', 760)"
proof
  show "\<exists>r w'. prepareUwaTargetUrl sample_env ''b'' ''https://h/c/1'' 16000 (Suc 23) 0 = Some (r, w')"
    using prepare_returns [OF sample_clock, of 16000 23 "''b''" "''https://h/c/1''" 0] by auto
qed code_simp

lemma sample_listing:
  "listUwaTabs sample_env u w =
     ((if 100 \<le> w then [\<lparr>persistentIndex = 1, tab_url = ''https://h/c/1'', browserContextId = None, urlRouteToken = None\<rparr>] else []), w + 10)"
  by (simp add: listUwaTabs_def getJson_def sample_env_def res_ok_def map_filter_simps tab_of_def string_or_def
      nonempty_string_def starts_with_def)

lemma conversation_page_found_witness:
  "\<exists>w'. ensureConversationPage sample_env ''b'' ''https://h/c/1'' 12000 (Suc 18) 0 = Some (True, w')"
proof (rule conversation_page_found [OF sample_clock])
  show "starts_with ''https://h/c/1'' ''http''" by (simp add: starts_with_def)
  show "fst (open_page sample_env ''b'' ''https://h/c/1'' w)" for w
    by (simp add: open_page_def sample_listing) (simp add: sample_env_def res_ok_def)
  have "tabMatchesConversation sample_env ''https://h/c/1'' ''https://h/c/1''" by code_simp
  then show "fst (page_ready sample_env ''b'' ''https://h/c/1'' w)" if "100 \<le> date_now sample_env w" for w
    using that by (simp add: page_ready_def sample_listing) (simp add: sample_env_def)
  show "date_now sample_env (snd (page_ready sample_env ''b'' ''https://h/c/1'' w)) \<le> date_now sample_env w + 10" for w
    by (simp add: page_ready_def sample_listing) (simp add: sample_env_def)
qed (simp_all add: sample_env_def)

end
