(* ===== verification/Browser_Launcher.thy ===== *)
theory Browser_Launcher
  imports Js_Values
begin

text \<open>
  \<open>extensions/incontrol/bridge/browserLauncher.ts\<close>: the browser with an open debugging port that
  the sidecar takes over. The operating system, the network and the clock are a platform over a
  world \<open>'w\<close>; polling has fuel, and running out of it is \<open>None\<close>. The exit event of a process is
  read off the world whenever the launcher looks at its process. Log lines are left out.
\<close>

section \<open>The platform\<close>

record 'w platform =
  pf_win32 :: bool
  pf_darwin :: bool
  pf_getenv :: "string \<Rightarrow> string option"
  pf_join :: "string list \<Rightarrow> string"
  pf_exists :: "string \<Rightarrow> 'w \<Rightarrow> bool"
  pf_mkdir :: "string \<Rightarrow> 'w \<Rightarrow> bool \<times> 'w"
  pf_now :: "'w \<Rightarrow> nat"
  pf_sleep :: "nat \<Rightarrow> 'w \<Rightarrow> 'w"
  pf_fetch :: "nat \<Rightarrow> string \<Rightarrow> 'w \<Rightarrow> http_answer \<times> 'w"
  pf_spawn :: "string \<Rightarrow> string list \<Rightarrow> (string \<times> string) list \<Rightarrow> 'w \<Rightarrow> nat option \<times> 'w"
  pf_gone :: "nat \<Rightarrow> 'w \<Rightarrow> bool"
  pf_kill :: "nat \<Rightarrow> 'w \<Rightarrow> 'w"
  pf_netstat :: "nat \<Rightarrow> 'w \<Rightarrow> string option"
  pf_taskkill :: "string \<Rightarrow> 'w \<Rightarrow> bool \<times> 'w"

record browser_options =
  bo_port :: nat
  bo_profileDir :: string
  bo_executablePath :: "string option"

text \<open>A process is undefined, or there with a process id if it could be started.\<close>

record launcher =
  bl_opts :: browser_options
  bl_proc :: "nat option option"
  bl_owned :: bool

definition new_BrowserLauncher :: "browser_options \<Rightarrow> launcher" where
  "new_BrowserLauncher opts = \<lparr>bl_opts = opts, bl_proc = None, bl_owned = False\<rparr>"

section \<open>Finding an executable\<close>

definition WINDOWS_CANDIDATES :: "string list" where
  "WINDOWS_CANDIDATES =
    [''%ProgramFiles%'' @ [CHR 0x5C] @ ''Google'' @ [CHR 0x5C] @ ''Chrome'' @ [CHR 0x5C] @ ''Application'' @ [CHR 0x5C] @ ''chrome.exe'',
     ''%ProgramFiles(x86)%'' @ [CHR 0x5C] @ ''Google'' @ [CHR 0x5C] @ ''Chrome'' @ [CHR 0x5C] @ ''Application'' @ [CHR 0x5C] @ ''chrome.exe'',
     ''%LOCALAPPDATA%'' @ [CHR 0x5C] @ ''Google'' @ [CHR 0x5C] @ ''Chrome'' @ [CHR 0x5C] @ ''Application'' @ [CHR 0x5C] @ ''chrome.exe'',
     ''%ProgramFiles(x86)%'' @ [CHR 0x5C] @ ''Microsoft'' @ [CHR 0x5C] @ ''Edge'' @ [CHR 0x5C] @ ''Application'' @ [CHR 0x5C] @ ''msedge.exe'',
     ''%ProgramFiles%'' @ [CHR 0x5C] @ ''Microsoft'' @ [CHR 0x5C] @ ''Edge'' @ [CHR 0x5C] @ ''Application'' @ [CHR 0x5C] @ ''msedge.exe'']"

definition DARWIN_CANDIDATES :: "string list" where
  "DARWIN_CANDIDATES =
    [''/Applications/Google Chrome.app/Contents/MacOS/Google Chrome'',
     ''/Applications/Microsoft Edge.app/Contents/MacOS/Microsoft Edge'']"

definition LINUX_CANDIDATES :: "string list" where
  "LINUX_CANDIDATES =
    [''/usr/bin/google-chrome'', ''/usr/bin/chromium'', ''/usr/bin/chromium-browser'', ''/usr/bin/microsoft-edge'']"

text \<open>\<open>replace (/%([^%]+)%/g, ...)\<close>.\<close>

function expand :: "('w, 'z) platform_scheme \<Rightarrow> string \<Rightarrow> string" where
  "expand pf [] = []"
| "expand pf (c # s) =
     (let name = takeWhile (\<lambda>x. x \<noteq> CHR ''%'') s; rest = dropWhile (\<lambda>x. x \<noteq> CHR ''%'') s
      in if c = CHR ''%'' \<and> name \<noteq> [] \<and> rest \<noteq> []
         then or_else (pf_getenv pf name) [] @ expand pf (tl rest)
         else c # expand pf s)"
  by pat_completeness auto
termination
  by (relation "measure (\<lambda>(pf, s). length s)")
     (auto simp: less_Suc_eq_le intro: le_trans [OF diff_le_self length_dropWhile_le])

definition detectBrowser :: "('w, 'z) platform_scheme \<Rightarrow> string option \<Rightarrow> 'w \<Rightarrow> string option" where
  "detectBrowser pf explicit w =
     (case explicit of
        Some (c # s) \<Rightarrow> if pf_exists pf (c # s) w then Some (c # s) else None
      | _ \<Rightarrow>
          List.find (\<lambda>full. full \<noteq> [] \<and> pf_exists pf full w)
            (map (expand pf) (if pf_win32 pf then WINDOWS_CANDIDATES
              else if pf_darwin pf then DARWIN_CANDIDATES else LINUX_CANDIDATES)))"

section \<open>Probing\<close>

text \<open>\<open>JSON.parse (body).Browser ?? 'unknown'\<close>; \<open>None\<close> for undefined. Any status is accepted.\<close>

definition probeDevTools :: "('w, 'z) platform_scheme \<Rightarrow> nat \<Rightarrow> 'w \<Rightarrow> json option \<times> 'w" where
  "probeDevTools pf port w =
     (case pf_fetch pf port ''/json/version'' w of
        (Answered _ (Some j), w') \<Rightarrow>
          (if j = JNull then None else coalesce (js_prop ''Browser'' j) (Some (JStr ''unknown'')), w')
      | (_, w') \<Rightarrow> (None, w'))"

definition present :: "json option \<Rightarrow> bool" where
  "present v = (case v of None \<Rightarrow> False | Some j \<Rightarrow> truthy j)"

fun is_array :: "json \<Rightarrow> bool" where
  "is_array (JArr _) = True"
| "is_array _ = False"

definition canCreateTarget :: "('w, 'z) platform_scheme \<Rightarrow> launcher \<Rightarrow> 'w \<Rightarrow> bool \<times> 'w" where
  "canCreateTarget pf l w =
     (case pf_fetch pf (bo_port (bl_opts l)) ''/json/list'' w of
        (Answered _ (Some j), w') \<Rightarrow> (is_array j, w')
      | (_, w') \<Rightarrow> (False, w'))"

section \<open>Clearing the port\<close>

text \<open>The first match of \<open>/LISTENING\s+(\d+)/\<close>.\<close>

fun listening_pid :: "string \<Rightarrow> string option" where
  "listening_pid [] = None"
| "listening_pid (c # s) =
     (if starts_with (c # s) ''LISTENING''
      then (let r = drop 9 (c # s); d = takeWhile js_digit (dropWhile js_ws r)
            in if r \<noteq> [] \<and> js_ws (hd r) \<and> d \<noteq> [] then Some d else listening_pid s)
      else listening_pid s)"

fun kill_all :: "('w, 'z) platform_scheme \<Rightarrow> string list \<Rightarrow> 'w \<Rightarrow> bool \<times> 'w" where
  "kill_all pf [] w = (True, w)"
| "kill_all pf (pid # pids) w =
     (case pf_taskkill pf pid w of
        (False, w') \<Rightarrow> (False, w')
      | (True, w') \<Rightarrow> kill_all pf pids w')"

definition killStale :: "('w, 'z) platform_scheme \<Rightarrow> launcher \<Rightarrow> 'w \<Rightarrow> 'w" where
  "killStale pf l w =
     (if \<not> pf_win32 pf then w
      else (case pf_netstat pf (bo_port (bl_opts l)) w of
              None \<Rightarrow> w
            | Some out \<Rightarrow>
                (case kill_all pf (rev (remdups (rev (List.map_filter listening_pid (map trim (split_lines out)))))) w of
                   (False, w') \<Rightarrow> w'
                 | (True, w') \<Rightarrow> pf_sleep pf 1500 w')))"

section \<open>Launching and disposing\<close>

fun await_devtools :: "('w, 'z) platform_scheme \<Rightarrow> nat \<Rightarrow> nat \<Rightarrow> nat \<Rightarrow> 'w \<Rightarrow> (json option \<times> 'w) option" where
  "await_devtools pf port deadline 0 w = None"
| "await_devtools pf port deadline (Suc fuel) w =
     (if pf_now pf w < deadline
      then (let (v, w') = probeDevTools pf port w
            in if present v then Some (v, w')
               else await_devtools pf port deadline fuel (pf_sleep pf 500 w'))
      else Some (None, w))"

definition launch_arguments :: "browser_options \<Rightarrow> string list" where
  "launch_arguments opts =
     [''--remote-debugging-port='' @ show_nat (bo_port opts),
      ''--user-data-dir='' @ bo_profileDir opts,
      ''--no-first-run'',
      ''--no-default-browser-check'',
      ''--disable-popup-blocking'',
      ''--disable-background-timer-throttling'',
      ''--disable-backgrounding-occluded-windows'',
      ''--disable-renderer-backgrounding'']"

text \<open>\<open>ensure\<close> throws if the profile directory cannot be made, and else returns a version or undefined.\<close>

datatype ensured = Ensure_threw | Ensure_done "json option"

definition launch ::
  "('w, 'z) platform_scheme \<Rightarrow> nat \<Rightarrow> launcher \<Rightarrow> 'w \<Rightarrow> (ensured \<times> launcher \<times> 'w) option" where
  "launch pf fuel l w =
     (case detectBrowser pf (bo_executablePath (bl_opts l)) w of
        None \<Rightarrow> Some (Ensure_done None, l, w)
      | Some exe \<Rightarrow>
          (case pf_mkdir pf (bo_profileDir (bl_opts l)) w of
             (False, w1) \<Rightarrow> Some (Ensure_threw, l, w1)
           | (True, w1) \<Rightarrow>
               (let (pid, w2) = pf_spawn pf exe (launch_arguments (bl_opts l)) [] w1;
                    l' = l\<lparr>bl_proc := Some pid, bl_owned := True\<rparr>
                in map_option (\<lambda>(v, w3). (Ensure_done v, l', w3))
                     (await_devtools pf (bo_port (bl_opts l)) (pf_now pf w2 + 20000) fuel w2))))"

definition ensure_browser ::
  "('w, 'z) platform_scheme \<Rightarrow> nat \<Rightarrow> launcher \<Rightarrow> 'w \<Rightarrow> (ensured \<times> launcher \<times> 'w) option" where
  "ensure_browser pf fuel l w =
     (let (existing, w1) = probeDevTools pf (bo_port (bl_opts l)) w
      in if present existing
         then (case canCreateTarget pf l w1 of
                 (True, w2) \<Rightarrow> Some (Ensure_done existing, l, w2)
               | (False, w2) \<Rightarrow> launch pf fuel l (killStale pf l w2))
         else launch pf fuel l w1)"

text \<open>The exit event clears the process.\<close>

definition browser_events :: "('w, 'z) platform_scheme \<Rightarrow> 'w \<Rightarrow> launcher \<Rightarrow> launcher" where
  "browser_events pf w l =
     (case bl_proc l of
        Some (Some pid) \<Rightarrow> if pf_gone pf pid w then l\<lparr>bl_proc := None\<rparr> else l
      | _ \<Rightarrow> l)"

definition dispose_browser :: "('w, 'z) platform_scheme \<Rightarrow> launcher \<Rightarrow> 'w \<Rightarrow> launcher \<times> 'w" where
  "dispose_browser pf l0 w =
     (let l = browser_events pf w l0
      in case bl_proc l of
           None \<Rightarrow> (l, w)
         | Some pid \<Rightarrow>
             if \<not> bl_owned l then (l, w)
             else (l\<lparr>bl_proc := None\<rparr>, case pid of Some (Suc n) \<Rightarrow> pf_kill pf (Suc n) w | _ \<Rightarrow> w))"

section \<open>Returning, and whose browser is closed\<close>

text \<open>What is asked of the clock: requests do not turn it back, and sleeping takes its time.\<close>

definition platform_clock :: "('w, 'z) platform_scheme \<Rightarrow> bool" where
  "platform_clock pf =
     (\<forall>w. (\<forall>port p. pf_now pf w \<le> pf_now pf (snd (pf_fetch pf port p w)))
        \<and> (\<forall>k. pf_now pf w + k \<le> pf_now pf (pf_sleep pf k w)))"

lemma platform_clock_fetch: "platform_clock pf \<Longrightarrow> pf_now pf w \<le> pf_now pf (snd (pf_fetch pf port p w))"
  and platform_clock_sleep: "platform_clock pf \<Longrightarrow> pf_now pf w + k \<le> pf_now pf (pf_sleep pf k w)"
  by (simp_all add: platform_clock_def)

lemma probeDevTools_world: "snd (probeDevTools pf port w) = snd (pf_fetch pf port ''/json/version'' w)"
  by (simp add: probeDevTools_def split: prod.splits http_answer.splits option.splits)

lemma probeDevTools_clock:
  "platform_clock pf \<Longrightarrow> pf_now pf w + 500 \<le> pf_now pf (pf_sleep pf 500 (snd (probeDevTools pf port w)))"
  using platform_clock_fetch [of pf w port "''/json/version''"] platform_clock_sleep [of pf "snd (probeDevTools pf port w)" 500]
  by (simp add: probeDevTools_world)

lemma await_devtools_returns:
  assumes "platform_clock pf" "deadline \<le> pf_now pf w + 500 * n"
  shows "await_devtools pf port deadline (Suc n) w \<noteq> None"
proof (rule rounds_suffice [where now = "pf_now pf" and d = 500 and late = "\<lambda>w. (None, w)"
      and step = "\<lambda>w. case probeDevTools pf port w of (v, w') \<Rightarrow> if present v then Inl (v, w') else Inr (pf_sleep pf 500 w')"])
  show "pf_now pf s + 500 \<le> pf_now pf s'"
    if "(case probeDevTools pf port s of (v, w') \<Rightarrow> if present v then Inl (v, w') else Inr (pf_sleep pf 500 w')) = Inr s'" for s s'
    using that probeDevTools_clock [OF assms(1), of s port] by (auto split: prod.splits if_splits)
qed (use assms(2) in \<open>auto simp: Let_def split: prod.splits\<close>)

lemma launch_returns:
  assumes "platform_clock pf" "40 \<le> n"
  shows "\<exists>r. launch pf (Suc n) l w = Some r"
proof -
  have "\<exists>r. await_devtools pf port (pf_now pf v + 20000) (Suc n) v = Some r" for port v
    using await_devtools_returns [OF assms(1), of "pf_now pf v + 20000" v n port] assms(2) by auto
  then show ?thesis
    by (fastforce simp: launch_def Let_def simp del: await_devtools.simps split: option.splits prod.splits bool.splits)
qed

lemma ensure_browser_returns:
  assumes "platform_clock pf" "40 \<le> n"
  shows "\<exists>r. ensure_browser pf (Suc n) l w = Some r"
  using launch_returns [OF assms] by (auto simp: ensure_browser_def Let_def split: prod.splits bool.splits)

text \<open>A browser that answers and lists its targets is left alone, and never closed afterwards.\<close>

lemma reused_browser_not_closed:
  assumes "probeDevTools pf (bo_port opts) w = (v, w1)" "present v"
    "canCreateTarget pf (new_BrowserLauncher opts) w1 = (True, w2)"
  shows "ensure_browser pf fuel (new_BrowserLauncher opts) w = Some (Ensure_done v, new_BrowserLauncher opts, w2)"
    "dispose_browser pf (new_BrowserLauncher opts) w3 = (new_BrowserLauncher opts, w3)"
  using assms by (simp_all add: ensure_browser_def dispose_browser_def browser_events_def new_BrowserLauncher_def)

end
