(* ===== verification/Sidecar_Manager.thy ===== *)
theory Sidecar_Manager
  imports Browser_Launcher
begin

text \<open>
  \<open>extensions/incontrol/bridge/sidecarManager.ts\<close>: choosing a Python interpreter, starting the
  sidecar, waiting for it, recovering from a failed update, stopping. The manager's fields are a
  record passed through the steps of the asynchronous methods. Between two awaits nothing else
  runs; at the awaits the handlers of the process (\<open>exit\<close>, \<open>error\<close>) and a \<open>stop\<close> called
  meanwhile can set fields, which the model reads off the world. Log lines are left out.
\<close>

section \<open>Platform, options and fields\<close>

record run_result =
  rr_code :: "int option"
  rr_stdout :: string
  rr_stderr :: string
  rr_spawnError :: "string option"

record 'w sidecar_platform = "'w platform" +
  sp_vars :: "(string \<times> string) list"
  sp_resolve :: "string list \<Rightarrow> string"
  sp_dirname :: "string \<Rightarrow> string"
  sp_relative :: "string \<Rightarrow> string \<Rightarrow> string"
  sp_absolute :: "string \<Rightarrow> bool"
  sp_delimiter :: char
  sp_isdir :: "string \<Rightarrow> 'w \<Rightarrow> bool"
  sp_probe :: "nat \<Rightarrow> 'w \<Rightarrow> bool \<times> 'w"
  sp_run :: "string \<Rightarrow> string list \<Rightarrow> (string \<times> string) list \<Rightarrow> nat \<Rightarrow> 'w \<Rightarrow> run_result \<times> 'w"
  sp_sha256 :: "string \<Rightarrow> string"
  sp_json :: "string \<Rightarrow> json option"
  sp_shutdown :: "nat \<Rightarrow> 'w \<Rightarrow> 'w"
  sp_wait_exit :: "nat option \<Rightarrow> nat \<Rightarrow> 'w \<Rightarrow> bool \<times> 'w"
  sp_stopping :: "'w \<Rightarrow> bool"

record sidecar_options =
  so_sidecarRoot :: string
  so_pythonPath :: "string option"
  so_runtimeStateRoot :: "string option"
  so_browserPath :: "string option"
  so_browserPort :: "nat option"
  so_preferredPort :: "nat option"

definition DEFAULT_SIDECAR_PORT :: nat where
  "DEFAULT_SIDECAR_PORT = 8199"

record manager =
  sm_proc :: "nat option option"
  sm_browser :: "launcher option"
  sm_port :: nat
  sm_timer :: bool
  sm_disposed :: bool
  sm_managed :: "string option"
  sm_pending :: bool

definition new_SidecarManager :: manager where
  "new_SidecarManager = \<lparr>sm_proc = None, sm_browser = None, sm_port = DEFAULT_SIDECAR_PORT, sm_timer = False,
     sm_disposed = False, sm_managed = None, sm_pending = False\<rparr>"

datatype health_error = Http_status nat | No_answer | Startup_timeout | No_interpreter

record health =
  he_alive :: bool
  he_port :: nat
  he_pid :: "nat option"
  he_browserReady :: bool
  he_error :: "health_error option"

abbreviation dead :: "nat \<Rightarrow> health_error \<Rightarrow> health" where
  "dead port e \<equiv> \<lparr>he_alive = False, he_port = port, he_pid = None, he_browserReady = False, he_error = Some e\<rparr>"

datatype sidecar_error = No_free_port | Browser_failed | Not_exited

text \<open>The handlers that ran while a method waited.\<close>

definition manager_events :: "('w, 'z) sidecar_platform_scheme \<Rightarrow> 'w \<Rightarrow> manager \<Rightarrow> manager" where
  "manager_events pf w m =
     (let m' = (case sm_proc m of
                  None \<Rightarrow> m
                | Some None \<Rightarrow> m\<lparr>sm_proc := None\<rparr>
                | Some (Some pid) \<Rightarrow> if pf_gone pf pid w then m\<lparr>sm_proc := None\<rparr> else m)
      in if sp_stopping pf w then m'\<lparr>sm_disposed := True\<rparr> else m')"

fun pickPort :: "('w, 'z) sidecar_platform_scheme \<Rightarrow> nat \<Rightarrow> nat \<Rightarrow> 'w \<Rightarrow> nat option \<times> 'w" where
  "pickPort pf p 0 w = (None, w)"
| "pickPort pf p (Suc k) w =
     (case sp_probe pf p w of
        (False, w') \<Rightarrow> (Some p, w')
      | (True, w') \<Rightarrow> pickPort pf (Suc p) k w')"

section \<open>The bundled interpreter\<close>

definition bundledPython :: "('w, 'z) sidecar_platform_scheme \<Rightarrow> sidecar_options \<Rightarrow> string" where
  "bundledPython pf opts =
     sp_resolve pf [so_sidecarRoot opts, ''..'', ''python'', if pf_win32 pf then ''python.exe'' else ''bin/python3'']"

definition isBundledPython :: "('w, 'z) sidecar_platform_scheme \<Rightarrow> sidecar_options \<Rightarrow> manager \<Rightarrow> string \<Rightarrow> bool" where
  "isBundledPython pf opts m executable =
     (let resolved = sp_resolve pf [executable];
          candidates = bundledPython pf opts # (case sm_managed m of Some (c # s) \<Rightarrow> [c # s] | _ \<Rightarrow> [])
      in \<exists>c \<in> set candidates. if pf_win32 pf then to_lower resolved = to_lower c else resolved = c)"

definition pythonEnvironment ::
  "('w, 'z) sidecar_platform_scheme \<Rightarrow> sidecar_options \<Rightarrow> manager \<Rightarrow> string \<Rightarrow> (string \<times> string) list" where
  "pythonEnvironment pf opts m executable =
     (if isBundledPython pf opts m executable
      then filter (\<lambda>(k, v). \<not> starts_with (to_lower k) ''python'') (sp_vars pf)
      else sp_vars pf)"

definition pythonArguments ::
  "('w, 'z) sidecar_platform_scheme \<Rightarrow> sidecar_options \<Rightarrow> manager \<Rightarrow> string \<Rightarrow> string list \<Rightarrow> string list" where
  "pythonArguments pf opts m executable args =
     (if isBundledPython pf opts m executable then [''-I'', ''-B'', ''-X'', ''utf8'', ''-u''] @ args else args)"

definition runtimeManager :: "('w, 'z) sidecar_platform_scheme \<Rightarrow> sidecar_options \<Rightarrow> string" where
  "runtimeManager pf opts = sp_resolve pf [so_sidecarRoot opts, ''..'', ''uwa-runtime'', ''manager.py'']"

definition runtimeStateRoot :: "('w, 'z) sidecar_platform_scheme \<Rightarrow> sidecar_options \<Rightarrow> string" where
  "runtimeStateRoot pf opts =
     (let installation = take 16 (sp_sha256 pf (to_lower (sp_resolve pf [so_sidecarRoot opts])))
      in pf_join pf [or_else (so_runtimeStateRoot opts) (sp_resolve pf [so_sidecarRoot opts, ''..'', ''.wibe-runtime'']),
           installation])"

definition managerArguments :: "('w, 'z) sidecar_platform_scheme \<Rightarrow> sidecar_options \<Rightarrow> string \<Rightarrow> string list" where
  "managerArguments pf opts action =
     [runtimeManager pf opts, action, ''--sidecar-root'', so_sidecarRoot opts,
      ''--state-root'', runtimeStateRoot pf opts, ''--base-python'', bundledPython pf opts]"

definition runtimeControl ::
  "('w, 'z) sidecar_platform_scheme \<Rightarrow> sidecar_options \<Rightarrow> manager \<Rightarrow> string \<Rightarrow> 'w \<Rightarrow> json option \<times> 'w" where
  "runtimeControl pf opts m action w =
     (let base = bundledPython pf opts;
          (r, w') = sp_run pf base (pythonArguments pf opts m base (managerArguments pf opts action))
                      (pythonEnvironment pf opts m base) 120000 w
      in if rr_code r \<noteq> Some 0 \<or> or_else (rr_spawnError r) [] \<noteq> [] then (None, w')
         else (sp_json pf (last (split_on newline (trim (rr_stdout r)))), w'))"

definition rollbackUpdate ::
  "('w, 'z) sidecar_platform_scheme \<Rightarrow> sidecar_options \<Rightarrow> manager \<Rightarrow> 'w \<Rightarrow> bool \<times> manager \<times> 'w" where
  "rollbackUpdate pf opts m w =
     (if \<not> sm_pending m then (False, m, w)
      else (case runtimeControl pf opts m ''rollback'' w of
              (None, w') \<Rightarrow> (False, m, w')
            | (Some j, w') \<Rightarrow>
                (js_prop ''rolledBack'' j = Some (JBool True), m\<lparr>sm_managed := None, sm_pending := False\<rparr>, w')))"

definition sidecarArguments ::
  "('w, 'z) sidecar_platform_scheme \<Rightarrow> sidecar_options \<Rightarrow> manager \<Rightarrow> string \<Rightarrow> string list" where
  "sidecarArguments pf opts m executable =
     (if isBundledPython pf opts m executable then managerArguments pf opts ''launch''
      else [pf_join pf [so_sidecarRoot opts, ''main.py'']])"

section \<open>Probing an interpreter\<close>

datatype probe_result =
    Usable
  | Cannot_run string
  | Foreign_venv
  | Too_old
  | Check_missing
  | Deps_incomplete string
  | Manager_missing

text \<open>\<open>/No Python at\s/i\<close>.\<close>

fun isForeignVenv :: "string \<Rightarrow> bool" where
  "isForeignVenv [] = False"
| "isForeignVenv (c # s) =
     (starts_with (to_lower (c # s)) ''no python at'' \<and> (case drop 12 (c # s) of [] \<Rightarrow> False | d # _ \<Rightarrow> js_ws d)
      \<or> isForeignVenv s)"

definition version_script :: string where
  "version_script = ''import sys; raise SystemExit(0 if sys.version_info >= (3, 10) else 1)''"

definition probeInterpreter ::
  "('w, 'z) sidecar_platform_scheme \<Rightarrow> sidecar_options \<Rightarrow> manager \<Rightarrow> string \<Rightarrow> 'w \<Rightarrow> probe_result \<times> 'w" where
  "probeInterpreter pf opts m python w =
     (let (ver, w1) = sp_run pf python (pythonArguments pf opts m python [''-c'', version_script])
                        (pythonEnvironment pf opts m python) 10000 w
      in if or_else (rr_spawnError ver) [] \<noteq> [] then (Cannot_run (or_else (rr_spawnError ver) []), w1)
         else if isForeignVenv (rr_stderr ver) then (Foreign_venv, w1)
         else if rr_code ver \<noteq> Some 0 then (Too_old, w1)
         else
           (let checkScript = pf_join pf [so_sidecarRoot opts, ''check_deps.py'']
            in if \<not> pf_exists pf checkScript w1
               then (if isBundledPython pf opts m python then (Check_missing, w1) else (Usable, w1))
               else
                 (let (deps, w2) = sp_run pf python (pythonArguments pf opts m python [checkScript])
                                     (pythonEnvironment pf opts m python) 30000 w1
                  in if or_else (rr_spawnError deps) [] \<noteq> [] \<or> rr_code deps \<noteq> Some 0
                     then (Deps_incomplete (last (split_on newline
                             (trim (if rr_stdout deps \<noteq> [] then rr_stdout deps else rr_stderr deps)))), w2)
                     else if isBundledPython pf opts m python \<and> \<not> pf_exists pf (runtimeManager pf opts) w2
                     then (Manager_missing, w2)
                     else (Usable, w2))))"

section \<open>Candidates\<close>

text \<open>\<open>trim ().replace (/^"(.*)"$/, '$1')\<close>: the dot matches no line break.\<close>

definition unquote :: "string \<Rightarrow> string" where
  "unquote p =
     (let t = trim p
      in if 2 \<le> length t \<and> hd t = CHR 0x22 \<and> last t = CHR 0x22
            \<and> (\<forall>c \<in> set (butlast (tl t)). c \<noteq> newline \<and> c \<noteq> CHR 0x0D)
         then butlast (tl t) else t)"

definition asExe :: "('w, 'z) sidecar_platform_scheme \<Rightarrow> string \<Rightarrow> 'w \<Rightarrow> string \<Rightarrow> string" where
  "asExe pf exe w p = (if pf_exists pf p w \<and> sp_isdir pf p w then pf_join pf [p, exe] else p)"

text \<open>What \<open>push\<close> adds to the list.\<close>

definition pushed :: "('w, 'z) sidecar_platform_scheme \<Rightarrow> 'w \<Rightarrow> string \<Rightarrow> string list" where
  "pushed pf w raw =
     (if raw = [] then []
      else (let cleaned = unquote raw
            in if cleaned = [] \<or> sp_absolute pf cleaned \<and> \<not> pf_exists pf cleaned w then [] else [cleaned]))"

definition listEnvCandidates :: "('w, 'z) sidecar_platform_scheme \<Rightarrow> 'w \<Rightarrow> string list" where
  "listEnvCandidates pf w =
     (let exe = (if pf_win32 pf then ''python.exe'' else ''python'')
      in concat (map (\<lambda>key. case pf_getenv pf key of
             Some (c # s) \<Rightarrow> pushed pf w (asExe pf exe w (unquote (c # s)))
           | _ \<Rightarrow> []) [''PYTHON'', ''PYTHON_EXE''])
       @ (case pf_getenv pf ''PYTHONHOME'' of
            Some (c # s) \<Rightarrow> pushed pf w (pf_join pf [unquote (c # s), exe])
          | _ \<Rightarrow> [])
       @ concat (map (\<lambda>dir. if dir = [] then [] else pushed pf w (pf_join pf [dir, exe]))
           (split_on (sp_delimiter pf) (or_else (pf_getenv pf ''PATH'') []))))"

definition WINDOWS_PYTHON_MINORS :: "nat list" where
  "WINDOWS_PYTHON_MINORS = [14, 13, 12, 11, 10]"

definition listInstalledCandidates :: "('w, 'z) sidecar_platform_scheme \<Rightarrow> string list" where
  "listInstalledCandidates pf =
     (if \<not> pf_win32 pf then []
      else concat (map (\<lambda>minor.
             let tag = ''Python3'' @ show_nat minor
             in concat (map (\<lambda>root. case root of
                  Some (c # s) \<Rightarrow>
                    [pf_join pf [c # s, ''Programs'', ''Python'', tag, ''python.exe''], pf_join pf [c # s, tag, ''python.exe'']]
                | _ \<Rightarrow> [])
                [pf_getenv pf ''LOCALAPPDATA'', pf_getenv pf ''ProgramFiles'', pf_getenv pf ''ProgramFiles(x86)'']))
             WINDOWS_PYTHON_MINORS))"

definition listPackagedCandidates :: "('w, 'z) sidecar_platform_scheme \<Rightarrow> sidecar_options \<Rightarrow> string list" where
  "listPackagedCandidates pf opts =
     [pf_join pf [so_sidecarRoot opts, ''venv'', if pf_win32 pf then ''Scripts'' else ''bin'',
        if pf_win32 pf then ''python.exe'' else ''python'']]"

fun py_versions :: "('w, 'z) sidecar_platform_scheme \<Rightarrow> nat list \<Rightarrow> 'w \<Rightarrow> string list \<times> 'w" where
  "py_versions pf [] w = ([], w)"
| "py_versions pf (minor # minors) w =
     (let (r, w1) = sp_run pf ''py'' [''-3.'' @ show_nat minor, ''-c'', ''import sys; print(sys.executable)'']
                      (sp_vars pf) 10000 w;
          (found, w2) = py_versions pf minors w1
      in (if rr_code r = Some 0 \<and> trim (rr_stdout r) \<noteq> [] then trim (rr_stdout r) # found else found, w2))"

definition resolveViaPyLauncher :: "('w, 'z) sidecar_platform_scheme \<Rightarrow> 'w \<Rightarrow> string list \<times> 'w" where
  "resolveViaPyLauncher pf w = (if pf_win32 pf then py_versions pf WINDOWS_PYTHON_MINORS w else ([], w))"

section \<open>Resolving\<close>

text \<open>The first candidate that passes the probe; the set of those seen is shared by all groups.\<close>

fun firstViable ::
  "('w, 'z) sidecar_platform_scheme \<Rightarrow> sidecar_options \<Rightarrow> manager \<Rightarrow> string list \<Rightarrow> string list \<Rightarrow> 'w
     \<Rightarrow> string option \<times> string list \<times> 'w" where
  "firstViable pf opts m seen [] w = (None, seen, w)"
| "firstViable pf opts m seen (c # cs) w =
     (if c = [] \<or> c \<in> set seen then firstViable pf opts m seen cs w
      else (case probeInterpreter pf opts m c w of
              (Usable, w') \<Rightarrow> (Some c, c # seen, w')
            | (_, w') \<Rightarrow> firstViable pf opts m (c # seen) cs w'))"

text \<open>A path the runtime manager selects is the bundled interpreter, or lies under the state root.\<close>

definition selection_allowed :: "('w, 'z) sidecar_platform_scheme \<Rightarrow> sidecar_options \<Rightarrow> string \<Rightarrow> bool" where
  "selection_allowed pf opts python =
     (let relative = sp_relative pf (runtimeStateRoot pf opts) python
      in \<not> (to_lower (sp_resolve pf [python]) \<noteq> to_lower (sp_resolve pf [bundledPython pf opts])
            \<and> (starts_with relative ''..'' \<or> sp_absolute pf relative)))"

definition select_managed ::
  "('w, 'z) sidecar_platform_scheme \<Rightarrow> sidecar_options \<Rightarrow> manager \<Rightarrow> string list \<Rightarrow> 'w
     \<Rightarrow> string option \<times> manager \<times> 'w" where
  "select_managed pf opts m seen w =
     (case runtimeControl pf opts m ''select'' w of
        (None, w1) \<Rightarrow> (None, m, w1)
      | (Some selection, w1) \<Rightarrow>
          (case nonempty_string (js_prop ''python'' selection) of
             None \<Rightarrow> (None, m, w1)
           | Some python \<Rightarrow>
               if \<not> selection_allowed pf opts python then (None, m, w1)
               else
                 (let m' = m\<lparr>sm_managed := Some python,
                        sm_pending := (js_prop ''pending'' selection = Some (JBool True))\<rparr>;
                      (hit, _, w2) = firstViable pf opts m' seen [python] w1
                  in (hit, m', w2))))"

definition resolve_system ::
  "('w, 'z) sidecar_platform_scheme \<Rightarrow> sidecar_options \<Rightarrow> manager \<Rightarrow> string list \<Rightarrow> 'w \<Rightarrow> string option \<times> 'w" where
  "resolve_system pf opts m seen w =
     (case firstViable pf opts m seen (listEnvCandidates pf w) w of
        (Some p, _, w1) \<Rightarrow> (Some p, w1)
      | (None, seen1, w1) \<Rightarrow>
          (case resolveViaPyLauncher pf w1 of
             (py, w2) \<Rightarrow>
               (case firstViable pf opts m seen1 py w2 of
                  (Some p, _, w3) \<Rightarrow> (Some p, w3)
                | (None, seen2, w3) \<Rightarrow>
                    (case firstViable pf opts m seen2 (listInstalledCandidates pf) w3 of
                       (Some p, _, w4) \<Rightarrow> (Some p, w4)
                     | (None, seen3, w4) \<Rightarrow>
                         (case firstViable pf opts m seen3 (listPackagedCandidates pf opts) w4 of
                            (p, _, w5) \<Rightarrow> (p, w5))))))"

definition resolvePython ::
  "('w, 'z) sidecar_platform_scheme \<Rightarrow> sidecar_options \<Rightarrow> manager \<Rightarrow> 'w \<Rightarrow> string option \<times> manager \<times> 'w" where
  "resolvePython pf opts m w =
     (let (hit, seen, w1) =
            (case so_pythonPath opts of
               Some (c # s) \<Rightarrow>
                 if isBundledPython pf opts m (c # s) then (None, [], w)
                 else firstViable pf opts m [] [c # s] w
             | _ \<Rightarrow> (None, [], w))
      in case hit of
           Some p \<Rightarrow> (Some p, m, w1)
         | None \<Rightarrow>
             if pf_exists pf (sp_dirname pf (bundledPython pf opts)) w1
             then select_managed pf opts m seen w1
             else (let (p, w2) = resolve_system pf opts m seen w1 in (p, m, w2)))"

section \<open>Health\<close>

text \<open>\<open>body?.tabs?.length\<close>.\<close>

definition js_length :: "json option \<Rightarrow> json option" where
  "js_length v = (case v of
     Some (JArr xs) \<Rightarrow> Some (JNum (int (length xs)))
   | Some (JStr s) \<Rightarrow> Some (JNum (int (length s)))
   | Some j \<Rightarrow> js_prop ''length'' j
   | None \<Rightarrow> None)"

definition checkHealth :: "('w, 'z) sidecar_platform_scheme \<Rightarrow> manager \<Rightarrow> nat \<Rightarrow> 'w \<Rightarrow> health \<times> 'w" where
  "checkHealth pf m port w =
     (case pf_fetch pf port ''/api/pool/status'' w of
        (Failed, w') \<Rightarrow> (dead port No_answer, w')
      | (Answered status answer, w') \<Rightarrow>
          if \<not> res_ok status then (dead port (Http_status status), w')
          else
            (let body = or_else answer (JObj [])
             in (\<lparr>he_alive = True, he_port = port,
                  he_pid = Option.bind (sm_proc (manager_events pf w' m)) id,
                  he_browserReady = present (coalesce (js_prop ''browser_ready'' body) (js_length (js_prop ''tabs'' body))),
                  he_error = None\<rparr>, w')))"

definition startHealthLoop :: "manager \<Rightarrow> manager" where
  "startHealthLoop m = m\<lparr>sm_timer := True\<rparr>"

definition stopHealthLoop :: "manager \<Rightarrow> manager" where
  "stopHealthLoop m = m\<lparr>sm_timer := False\<rparr>"

definition getBaseUrl :: "manager \<Rightarrow> string" where
  "getBaseUrl m = ''http://127.0.0.1:'' @ show_nat (sm_port m)"

fun wait_loop :: "('w, 'z) sidecar_platform_scheme \<Rightarrow> nat \<Rightarrow> nat \<Rightarrow> manager \<Rightarrow> 'w \<Rightarrow> (bool \<times> manager \<times> 'w) option" where
  "wait_loop pf deadline 0 m w = None"
| "wait_loop pf deadline (Suc fuel) m w =
     (if pf_now pf w < deadline
      then
        (if sm_disposed m then Some (False, m, w)
         else
           (let (h, w1) = checkHealth pf m (sm_port m) w;
                m1 = manager_events pf w1 m
            in if he_alive h then Some (True, m1, w1)
               else (let w2 = pf_sleep pf 1000 w1 in wait_loop pf deadline fuel (manager_events pf w2 m1) w2)))
      else Some (False, m, w))"

definition waitReady :: "('w, 'z) sidecar_platform_scheme \<Rightarrow> nat \<Rightarrow> nat \<Rightarrow> manager \<Rightarrow> 'w \<Rightarrow> (bool \<times> manager \<times> 'w) option" where
  "waitReady pf timeoutMs fuel m w = wait_loop pf (pf_now pf w + timeoutMs) fuel m w"

section \<open>Stopping\<close>

text \<open>\<open>this.browser?.dispose ()\<close> and forgetting the launcher.\<close>

definition drop_browser :: "('w, 'z) sidecar_platform_scheme \<Rightarrow> manager \<Rightarrow> 'w \<Rightarrow> manager \<times> 'w" where
  "drop_browser pf m w =
     (m\<lparr>sm_browser := None\<rparr>, case sm_browser m of None \<Rightarrow> w | Some l \<Rightarrow> snd (dispose_browser pf l w))"

definition force_kill :: "('w, 'z) sidecar_platform_scheme \<Rightarrow> nat \<Rightarrow> 'w \<Rightarrow> 'w" where
  "force_kill pf pid w =
     (if pf_win32 pf
      then snd (sp_run pf ''taskkill'' [''/pid'', show_nat pid, ''/T'', ''/F''] (sp_vars pf) 15000 w)
      else pf_kill pf pid w)"

definition stop_sidecar ::
  "('w, 'z) sidecar_platform_scheme \<Rightarrow> manager \<Rightarrow> 'w \<Rightarrow> sidecar_error option \<times> manager \<times> 'w" where
  "stop_sidecar pf m0 w0 =
     (let (m1, w1) = drop_browser pf m0 w0;
          m2 = stopHealthLoop ((manager_events pf w1 m1)\<lparr>sm_disposed := True\<rparr>)
      in case sm_proc m2 of
           None \<Rightarrow> (None, m2, w1)
         | Some pid \<Rightarrow>
             (let w2 = sp_shutdown pf (sm_port m2) w1;
                  (exited, w3) = sp_wait_exit pf pid 5000 w2;
                  w4 = (case pid of Some p \<Rightarrow> if exited then w3 else force_kill pf p w3 | None \<Rightarrow> w3)
              in case sp_wait_exit pf pid 5000 w4 of
                   (False, w5) \<Rightarrow> (Some Not_exited, m2, w5)
                 | (True, w5) \<Rightarrow> (None, m2\<lparr>sm_proc := None\<rparr>, w5)))"

section \<open>Starting\<close>

text \<open>One pass of \<open>startInternal\<close> ends with a health, an error, or the recursive call
  \<open>startInternal (true)\<close> after a rollback.\<close>

datatype outcome = Health health | Threw sidecar_error | Again

definition spread_env :: "(string \<times> string) list \<Rightarrow> (string \<times> string) list \<Rightarrow> (string \<times> string) list" where
  "spread_env vars kvs = fold (\<lambda>(k, v) e. AList.update k v e) kvs vars"

definition spawn_sidecar ::
  "('w, 'z) sidecar_platform_scheme \<Rightarrow> sidecar_options \<Rightarrow> manager \<Rightarrow> string \<Rightarrow> nat \<Rightarrow> 'w \<Rightarrow> nat option \<times> 'w" where
  "spawn_sidecar pf opts m python browserPort w =
     pf_spawn pf python (pythonArguments pf opts m python (sidecarArguments pf opts m python))
       (spread_env (pythonEnvironment pf opts m python)
          [(''APP_PORT'', show_nat (sm_port m)), (''BROWSER_PORT'', show_nat browserPort),
           (''HISTORY_MODE'', ''ide''), (''PYTHONIOENCODING'', ''utf-8''), (''PYTHONUNBUFFERED'', ''1'')]) w"

text \<open>After the readiness of the service is known.\<close>

definition after_wait ::
  "('w, 'z) sidecar_platform_scheme \<Rightarrow> sidecar_options \<Rightarrow> bool \<Rightarrow> bool \<Rightarrow> manager \<Rightarrow> 'w \<Rightarrow> outcome \<times> manager \<times> 'w" where
  "after_wait pf opts retried ok m w =
     (if \<not> ok
      then
        (case stop_sidecar pf m w of
           (Some e, m1, w1) \<Rightarrow> (Threw e, m1, w1)
         | (None, m1, w1) \<Rightarrow>
             if \<not> sm_disposed m \<and> \<not> retried
             then (case rollbackUpdate pf opts m1 w1 of
                     (True, m2, w2) \<Rightarrow> (Again, m2, w2)
                   | (False, m2, w2) \<Rightarrow> (Health (dead (sm_port m2) Startup_timeout), m2, w2))
             else (Health (dead (sm_port m1) Startup_timeout), m1, w1))
      else
        (let (m1, w1) =
               (if sm_pending m
                then (case runtimeControl pf opts m ''confirm'' w of
                        (None, w1) \<Rightarrow> (m, w1)
                      | (Some j, w1) \<Rightarrow> (m\<lparr>sm_pending := (js_prop ''confirmed'' j \<noteq> Some (JBool True))\<rparr>, w1))
                else (m, w));
             m2 = startHealthLoop (manager_events pf w1 m1);
             (h, w2) = checkHealth pf m2 (sm_port m2) w1
         in (Health h, manager_events pf w2 m2, w2)))"

definition start_with ::
  "('w, 'z) sidecar_platform_scheme \<Rightarrow> sidecar_options \<Rightarrow> nat \<Rightarrow> bool \<Rightarrow> manager \<Rightarrow> string \<Rightarrow> 'w
     \<Rightarrow> (outcome \<times> manager \<times> 'w) option" where
  "start_with pf opts fuel retried m python w =
     (let browserPort = or_else (so_browserPort opts) 9222;
          launcher = new_BrowserLauncher \<lparr>bo_port = browserPort,
            bo_profileDir = pf_join pf [so_sidecarRoot opts, ''chrome_profile''], bo_executablePath = so_browserPath opts\<rparr>
      in case ensure_browser pf fuel launcher w of
           None \<Rightarrow> None
         | Some (Ensure_threw, l, w1) \<Rightarrow> Some (Threw Browser_failed, m\<lparr>sm_browser := Some l\<rparr>, w1)
         | Some (Ensure_done _, l, w1) \<Rightarrow>
             (let m1 = (manager_events pf w1 m)\<lparr>sm_browser := Some l\<rparr>;
                  (pid, w2) = spawn_sidecar pf opts m1 python browserPort w1
              in map_option (\<lambda>(ok, m2, w3). after_wait pf opts retried ok m2 w3)
                   (waitReady pf 60000 fuel (m1\<lparr>sm_proc := Some pid\<rparr>) w2)))"

definition without_python ::
  "('w, 'z) sidecar_platform_scheme \<Rightarrow> sidecar_options \<Rightarrow> bool \<Rightarrow> manager \<Rightarrow> 'w \<Rightarrow> outcome \<times> manager \<times> 'w" where
  "without_python pf opts retried m w =
     (let (rolled, m1, w1) = (if retried then (False, m, w) else rollbackUpdate pf opts m w)
      in if rolled then (Again, m1, w1)
         else (let (m2, w2) = drop_browser pf m1 w1; m3 = stopHealthLoop m2
               in (Health (dead (sm_port m3) No_interpreter), m3, w2)))"

definition start_fresh ::
  "('w, 'z) sidecar_platform_scheme \<Rightarrow> sidecar_options \<Rightarrow> nat \<Rightarrow> bool \<Rightarrow> nat \<Rightarrow> manager \<Rightarrow> 'w
     \<Rightarrow> (outcome \<times> manager \<times> 'w) option" where
  "start_fresh pf opts fuel retried preferred m w =
     (case pickPort pf preferred 20 w of
        (None, w1) \<Rightarrow> Some (Threw No_free_port, m, w1)
      | (Some port, w1) \<Rightarrow>
          (case resolvePython pf opts (m\<lparr>sm_port := port\<rparr>) w1 of
             (None, m2, w2) \<Rightarrow> Some (without_python pf opts retried m2 w2)
           | (Some python, m2, w2) \<Rightarrow> start_with pf opts fuel retried (manager_events pf w2 m2) python w2))"

definition start_pass ::
  "('w, 'z) sidecar_platform_scheme \<Rightarrow> sidecar_options \<Rightarrow> nat \<Rightarrow> bool \<Rightarrow> manager \<Rightarrow> 'w
     \<Rightarrow> (outcome \<times> manager \<times> 'w) option" where
  "start_pass pf opts fuel retried m0 w =
     (let m = m0\<lparr>sm_disposed := False\<rparr>;
          preferred = or_else (so_preferredPort opts) DEFAULT_SIDECAR_PORT
      in case sp_probe pf preferred w of
           (False, w1) \<Rightarrow> start_fresh pf opts fuel retried preferred m w1
         | (True, w1) \<Rightarrow>
             (let (h, w2) = checkHealth pf m preferred w1
              in if he_alive h
                 then Some (Health h, startHealthLoop (m\<lparr>sm_port := preferred\<rparr>), w2)
                 else start_fresh pf opts fuel retried preferred m w2))"

definition startInternal ::
  "('w, 'z) sidecar_platform_scheme \<Rightarrow> sidecar_options \<Rightarrow> nat \<Rightarrow> bool \<Rightarrow> manager \<Rightarrow> 'w
     \<Rightarrow> (outcome \<times> manager \<times> 'w) option" where
  "startInternal pf opts fuel retried m w =
     (case start_pass pf opts fuel retried m w of
        Some (Again, m', w') \<Rightarrow> start_pass pf opts fuel True m' w'
      | r \<Rightarrow> r)"

definition start_sidecar ::
  "('w, 'z) sidecar_platform_scheme \<Rightarrow> sidecar_options \<Rightarrow> nat \<Rightarrow> manager \<Rightarrow> 'w \<Rightarrow> (outcome \<times> manager \<times> 'w) option" where
  "start_sidecar pf opts fuel m w =
     (case startInternal pf opts fuel False m w of
        Some (Threw e, m1, w1) \<Rightarrow>
          if \<not> sm_disposed m1 \<and> sm_pending m1
          then (case stop_sidecar pf m1 w1 of
                  (Some e', m2, w2) \<Rightarrow> Some (Threw e', m2, w2)
                | (None, m2, w2) \<Rightarrow>
                    (case rollbackUpdate pf opts m2 w2 of
                       (True, m3, w3) \<Rightarrow> startInternal pf opts fuel True m3 w3
                     | (False, m3, w3) \<Rightarrow> Some (Threw e, m3, w3)))
          else Some (Threw e, m1, w1)
      | r \<Rightarrow> r)"

text \<open>One tick of the health loop.\<close>

definition health_tick ::
  "('w, 'z) sidecar_platform_scheme \<Rightarrow> sidecar_options \<Rightarrow> nat \<Rightarrow> manager \<Rightarrow> 'w \<Rightarrow> (manager \<times> 'w) option" where
  "health_tick pf opts fuel m0 w =
     (let m = manager_events pf w m0
      in if \<not> sm_timer m \<or> sm_disposed m then Some (m, w)
         else
           (let (h, w1) = checkHealth pf m (sm_port m) w; m1 = manager_events pf w1 m
            in if \<not> he_alive h \<and> sm_proc m1 = None
               then map_option (\<lambda>(_, m2, w2). (m2, w2)) (start_sidecar pf opts fuel m1 w1)
               else Some (m1, w1)))"

section \<open>Starting comes to an end\<close>

lemma checkHealth_world: "snd (checkHealth pf m port w) = snd (pf_fetch pf port ''/api/pool/status'' w)"
  by (simp add: checkHealth_def Let_def split: prod.splits http_answer.splits)

definition wait_step ::
  "('w, 'z) sidecar_platform_scheme \<Rightarrow> manager \<times> 'w \<Rightarrow> bool \<times> manager \<times> 'w + manager \<times> 'w" where
  "wait_step pf = (\<lambda>(m, w).
     if sm_disposed m then Inl (False, m, w)
     else
       (let (h, w1) = checkHealth pf m (sm_port m) w; m1 = manager_events pf w1 m; w2 = pf_sleep pf 1000 w1
        in if he_alive h then Inl (True, m1, w1) else Inr (manager_events pf w2 m1, w2)))"

lemma wait_step_clock:
  assumes "platform_clock pf" "wait_step pf (m, w) = Inr (m', w')"
  shows "pf_now pf w + 1000 \<le> pf_now pf w'"
  using assms(2) platform_clock_fetch [OF assms(1), of w "sm_port m" "''/api/pool/status''"]
    platform_clock_sleep [OF assms(1), of "snd (checkHealth pf m (sm_port m) w)" 1000] checkHealth_world [of pf m "sm_port m" w]
  by (auto simp: wait_step_def Let_def split: prod.splits if_splits)

lemma wait_loop_returns:
  assumes "platform_clock pf" "deadline \<le> pf_now pf w + 1000 * n"
  shows "wait_loop pf deadline (Suc n) m w \<noteq> None"
  using rounds_suffice [where loop = "\<lambda>n (m, w). wait_loop pf deadline n m w" and now = "\<lambda>(m, w). pf_now pf w" and d = 1000
      and step = "wait_step pf" and late = "\<lambda>(m, w). (False, m, w)" and s = "(m, w)" and deadline = deadline and n = n]
    wait_step_clock [OF assms(1)] assms(2)
  by (auto simp: wait_step_def Let_def split: prod.splits if_splits)

lemma waitReady_returns:
  "platform_clock pf \<Longrightarrow> 60 \<le> n \<Longrightarrow> waitReady pf 60000 (Suc n) m w \<noteq> None"
  unfolding waitReady_def by (rule wait_loop_returns) simp_all

lemma start_with_returns:
  assumes "platform_clock pf" "60 \<le> n"
  shows "start_with pf opts (Suc n) retried m python w \<noteq> None"
proof -
  have b: "ensure_browser pf (Suc n) l v \<noteq> None" for l v
    using ensure_browser_returns [of pf n l v] assms by auto
  note waitReady_returns [OF assms]
  then show ?thesis
    by (simp add: start_with_def Let_def b del: not_None_eq split: option.split prod.split ensured.split)
qed

lemma start_pass_returns:
  assumes "platform_clock pf" "60 \<le> n"
  shows "start_pass pf opts (Suc n) retried m w \<noteq> None"
  using start_with_returns [OF assms]
  by (simp add: start_pass_def start_fresh_def Let_def del: not_None_eq split: option.split prod.split bool.split)

text \<open>The second pass does not ask for a third.\<close>

lemma after_wait_retried: "fst (after_wait pf opts True ok m w) \<noteq> Again"
  by (auto simp: after_wait_def Let_def split: prod.splits option.splits)

lemma start_pass_retried: "start_pass pf opts fuel True m w = Some (r, m', w') \<Longrightarrow> r \<noteq> Again"
proof -
  have aw: "after_wait pf opts True ok m2 w2 = (r2, m3, w3) \<Longrightarrow> r2 \<noteq> Again" for ok m2 w2 r2 m3 w3
    using after_wait_retried [of pf opts ok m2 w2] by auto
  have "start_with pf opts fuel True m1 python w1 = Some (r, m', w') \<Longrightarrow> r \<noteq> Again" for m1 python w1
    by (auto simp: start_with_def Let_def dest: aw split: option.splits prod.splits ensured.splits)
  then show "start_pass pf opts fuel True m w = Some (r, m', w') \<Longrightarrow> r \<noteq> Again"
    by (auto simp: start_pass_def start_fresh_def without_python_def Let_def split: option.splits prod.splits bool.splits if_splits)
qed

lemma startInternal_cases:
  assumes "startInternal pf opts fuel retried m w = Some (r, m', w')"
  obtains m1 w1 again where "start_pass pf opts fuel again m1 w1 = Some (r, m', w')" "r \<noteq> Again"
proof (cases "start_pass pf opts fuel retried m w")
  case (Some res)
  obtain r0 m0 w0 where [simp]: "res = (r0, m0, w0)" by (cases res) auto
  show ?thesis
  proof (cases "r0 = Again")
    case True
    then have "start_pass pf opts fuel True m0 w0 = Some (r, m', w')" using assms Some by (simp add: startInternal_def)
    then show ?thesis by (rule that) (rule start_pass_retried, fact)
  next
    case False
    then have "start_pass pf opts fuel retried m w = Some (r, m', w') \<and> r = r0"
      using assms Some by (cases r0) (auto simp: startInternal_def)
    then show ?thesis using that False by blast
  qed
qed (use assms in \<open>simp add: startInternal_def\<close>)

lemma startInternal_returns:
  assumes "platform_clock pf" "60 \<le> n"
  shows "\<exists>r m' w'. startInternal pf opts (Suc n) retried m w = Some (r, m', w') \<and> r \<noteq> Again"
proof -
  obtain r m1 w1 where one: "start_pass pf opts (Suc n) retried m w = Some (r, m1, w1)"
    using start_pass_returns [OF assms, of opts retried m w] by auto
  obtain r2 m2 w2 where two: "start_pass pf opts (Suc n) True m1 w1 = Some (r2, m2, w2)"
    using start_pass_returns [OF assms, of opts True m1 w1] by auto
  then have "r2 \<noteq> Again" by (rule start_pass_retried)
  then show ?thesis using one two by (cases r) (auto simp: startInternal_def)
qed


section \<open>A damaged bundle fails closed\<close>

lemma firstViable_sound:
  "firstViable pf opts m seen cs w = (Some p, seen', w') \<Longrightarrow>
     p \<in> set cs \<and> (\<exists>w0 w1. probeInterpreter pf opts m p w0 = (Usable, w1))"
proof (induction cs arbitrary: seen w)
  case (Cons c cs)
  then show ?case by (auto split: if_splits prod.splits probe_result.splits)
qed simp

lemma select_managed_sound:
  "select_managed pf opts m seen w = (Some p, m', w') \<Longrightarrow>
     sm_managed m' = Some p \<and> selection_allowed pf opts p
     \<and> (\<exists>w0 w1. probeInterpreter pf opts m' p w0 = (Usable, w1))"
  by (auto simp: select_managed_def Let_def simp del: firstViable.simps dest!: firstViable_sound split: option.splits prod.splits if_splits)

text \<open>
  C37. Where the directory of the bundled interpreter exists, an interpreter is chosen only if it
  passed its probe and is either the configured one or the one the runtime manager selected,
  which is the bundled one or lies under the state directory: no other interpreter of the system
  is ever taken, whether the bundle works or not.
\<close>

theorem bundle_fails_closed:
  assumes "\<And>v. pf_exists pf (sp_dirname pf (bundledPython pf opts)) v"
    and "resolvePython pf opts m w = (Some p, m', w')"
  shows "(\<exists>w0 w1. probeInterpreter pf opts m' p w0 = (Usable, w1))
    \<and> (so_pythonPath opts = Some p \<and> \<not> isBundledPython pf opts m p
       \<or> sm_managed m' = Some p \<and> selection_allowed pf opts p)"
  using assms
  by (auto simp: resolvePython_def Let_def simp del: firstViable.simps dest!: firstViable_sound select_managed_sound
      split: option.splits prod.splits if_splits list.splits)

section \<open>What a failed start leaves behind\<close>

lemma stop_sidecar_clean:
  "stop_sidecar pf m w = (None, m', w') \<Longrightarrow> sm_proc m' = None \<and> sm_browser m' = None \<and> \<not> sm_timer m' \<and> sm_disposed m'"
  by (auto simp: stop_sidecar_def drop_browser_def stopHealthLoop_def manager_events_def Let_def
      split: option.splits prod.splits bool.splits if_splits)

definition given_up :: "health \<Rightarrow> bool" where
  "given_up h = (he_error h = Some Startup_timeout \<or> he_error h = Some No_interpreter)"

definition nothing_left :: "health \<Rightarrow> manager \<Rightarrow> bool" where
  "nothing_left h m =
     (sm_browser m = None \<and> \<not> sm_timer m \<and> (he_error h = Some Startup_timeout \<longrightarrow> sm_proc m = None))"

lemma checkHealth_not_given_up: "checkHealth pf m port w = (h, w') \<Longrightarrow> \<not> given_up h"
  by (auto simp: checkHealth_def given_up_def Let_def split: prod.splits http_answer.splits if_splits)

lemma rollback_keeps:
  "rollbackUpdate pf opts m w = (b, m', w') \<Longrightarrow>
     sm_browser m' = sm_browser m \<and> sm_timer m' = sm_timer m \<and> sm_proc m' = sm_proc m"
  by (auto simp: rollbackUpdate_def split: if_splits option.splits prod.splits)

lemma after_wait_clean:
  assumes "after_wait pf opts retried ok m w = (Health h, m', w')" "given_up h"
  shows "nothing_left h m'"
proof (cases ok)
  case True
  then show ?thesis using assms
    by (auto simp: after_wait_def Let_def dest: checkHealth_not_given_up split: prod.splits)
next
  case False
  then obtain m1 w1 where "stop_sidecar pf m w = (None, m1, w1)"
    using assms(1) by (auto simp: after_wait_def split: prod.splits option.splits)
  note clean = stop_sidecar_clean [OF this] and s = this
  show ?thesis using assms(1) False s clean
    by (auto simp: after_wait_def nothing_left_def dest!: rollback_keeps split: prod.splits if_splits bool.splits)
qed

lemma start_pass_clean:
  assumes "start_pass pf opts fuel retried m w = Some (Health h, m', w')" "given_up h"
  shows "nothing_left h m'"
proof -
  have with_p: "nothing_left h m'" if "start_with pf opts fuel retried m1 python w1 = Some (Health h, m', w')" for m1 python w1
    using that assms(2) by (auto simp: start_with_def Let_def dest: after_wait_clean split: option.splits prod.splits ensured.splits)
  have without: "nothing_left h m'" if "without_python pf opts retried m1 w1 = (Health h, m', w')" for m1 w1
    using that by (auto simp: without_python_def drop_browser_def stopHealthLoop_def nothing_left_def Let_def
        split: prod.splits if_splits)
  have fresh: "nothing_left h m'" if "start_fresh pf opts fuel retried preferred m1 w1 = Some (Health h, m', w')" for preferred m1 w1
    using that with_p without by (auto simp: start_fresh_def split: option.splits prod.splits)
  show ?thesis
    using assms fresh by (auto simp: start_pass_def Let_def dest: checkHealth_not_given_up split: prod.splits bool.splits if_splits)
qed

lemma startInternal_clean:
  assumes "startInternal pf opts fuel retried m w = Some (Health h, m', w')" "given_up h"
  shows "nothing_left h m'"
proof -
  obtain m1 w1 again where "start_pass pf opts fuel again m1 w1 = Some (Health h, m', w')"
    using startInternal_cases [OF assms(1)] .
  then show ?thesis using assms(2) by (rule start_pass_clean)
qed


section \<open>A concrete platform\<close>

text \<open>A world that is its clock: nothing listens on any port, and every path exists.\<close>

definition sample_platform :: "run_result \<Rightarrow> nat sidecar_platform" where
  "sample_platform r =
     \<lparr>pf_win32 = False, pf_darwin = False, pf_getenv = (\<lambda>_. None), pf_join = join_with ''/'',
      pf_exists = (\<lambda>_ _. True), pf_mkdir = (\<lambda>_ w. (True, w)), pf_now = (\<lambda>w. w), pf_sleep = (\<lambda>k w. w + k),
      pf_fetch = (\<lambda>_ _ w. (Failed, w + 1)), pf_spawn = (\<lambda>_ _ _ w. (Some 7, w + 1)), pf_gone = (\<lambda>_ _. False),
      pf_kill = (\<lambda>_ w. w), pf_netstat = (\<lambda>_ _. None), pf_taskkill = (\<lambda>_ w. (True, w)),
      sp_vars = [(''PYTHONHOME'', ''x'')], sp_resolve = join_with ''/'', sp_dirname = (\<lambda>p. p),
      sp_relative = (\<lambda>_ _. ''py''), sp_absolute = (\<lambda>_. False), sp_delimiter = CHR '':'', sp_isdir = (\<lambda>_ _. False),
      sp_probe = (\<lambda>_ w. (False, w)), sp_run = (\<lambda>_ _ _ _ w. (r, w + 5)), sp_sha256 = (\<lambda>s. s),
      sp_json = (\<lambda>_. Some (JObj [(''python'', JStr ''/state/py''), (''pending'', JBool True)])),
      sp_shutdown = (\<lambda>_ w. w), sp_wait_exit = (\<lambda>_ _ w. (True, w)), sp_stopping = (\<lambda>_. False)\<rparr>"

definition sample_options :: sidecar_options where
  "sample_options = \<lparr>so_sidecarRoot = ''/s'', so_pythonPath = None, so_runtimeStateRoot = None, so_browserPath = None,
     so_browserPort = None, so_preferredPort = None\<rparr>"

definition run_ok :: run_result where
  "run_ok = \<lparr>rr_code = Some 0, rr_stdout = ''x'', rr_stderr = [], rr_spawnError = None\<rparr>"

definition run_failed :: run_result where
  "run_failed = \<lparr>rr_code = None, rr_stdout = [], rr_stderr = [], rr_spawnError = Some ''ENOENT''\<rparr>"

lemma sample_platform_clock: "platform_clock (sample_platform r)"
  by (simp add: platform_clock_def sample_platform_def)

lemma sample_simps:
  "sp_run (sample_platform r) p a e t w = (r, w + 5)" "sp_probe (sample_platform r) port w = (False, w)"
  "pf_exists (sample_platform r) f w" "pf_win32 (sample_platform r) = False"
  by (simp_all add: sample_platform_def)

lemma sample_no_path: "so_pythonPath sample_options = None"
  by (simp add: sample_options_def)

lemma probe_ok: "probeInterpreter (sample_platform run_ok) opts m p w = (Usable, w + 10)"
  by (simp add: probeInterpreter_def sample_simps) (simp add: run_ok_def)
lemma probe_bad: "probeInterpreter (sample_platform run_failed) opts m p w = (Cannot_run ''ENOENT'', w + 5)"
  by (simp add: probeInterpreter_def sample_simps) (simp add: run_failed_def)
lemma select_bad: "runtimeControl (sample_platform run_failed) opts m a w = (None, w + 5)"
  by (simp add: runtimeControl_def sample_simps) (simp add: run_failed_def)
lemma sample_port: "pickPort (sample_platform r) p 20 w = (Some p, w)"
  by (simp add: numeral_eq_Suc sample_simps)

lemma start_bad: "start_sidecar (sample_platform run_failed) sample_options 1 new_SidecarManager 0
      = Some (Health (dead 8199 No_interpreter), new_SidecarManager\<lparr>sm_port := 8199\<rparr>, 5)"
proof -
  have "resolvePython (sample_platform run_failed) sample_options m w = (None, m, w + 5)" for m w
    by (simp add: resolvePython_def select_managed_def select_bad sample_simps sample_no_path)
  then show ?thesis
    by (simp add: start_sidecar_def startInternal_def start_pass_def start_fresh_def sample_simps Let_def without_python_def
      rollbackUpdate_def drop_browser_def stopHealthLoop_def sample_port)
     (simp add: sample_options_def new_SidecarManager_def DEFAULT_SIDECAR_PORT_def)
qed


lemma resolve_sample:
  "resolvePython (sample_platform run_ok) sample_options new_SidecarManager 0
    = (Some ''/state/py'', new_SidecarManager\<lparr>sm_managed := Some ''/state/py'', sm_pending := True\<rparr>, 15)"
proof -
  let ?sel = "JObj [(''python'', JStr ''/state/py''), (''pending'', JBool True)]"
  have c: "runtimeControl (sample_platform run_ok) opts m a w = (Some ?sel, w + 5)" for opts m a w
    by (simp add: runtimeControl_def sample_simps) (simp add: run_ok_def sample_platform_def)
  have a: "selection_allowed (sample_platform run_ok) opts p" for opts p
    by (simp add: selection_allowed_def) (simp add: sample_platform_def starts_with_def)
  show ?thesis
    by (simp add: resolvePython_def sample_no_path sample_simps select_managed_def c a probe_ok nonempty_string_def)
qed

lemma bundle_fails_closed_witness:
  "\<exists>p m' w'. resolvePython (sample_platform run_ok) sample_options new_SidecarManager 0 = (Some p, m', w')
     \<and> sm_managed m' = Some p \<and> selection_allowed (sample_platform run_ok) sample_options p"
proof -
  from bundle_fails_closed [OF _ resolve_sample]
  have "selection_allowed (sample_platform run_ok) sample_options ''/state/py''"
    by (simp add: sample_simps sample_no_path)
  then show ?thesis using resolve_sample by simp
qed


section \<open>A restart loses the browser\<close>

text \<open>
  When the service is restarted while the browser of the first start still answers, a new launcher
  takes the place of the one that owns it; the new one finds the browser running, so it does not
  own it, and no later stop closes it.
\<close>

lemma restart_forgets_browser:
  assumes "sm_browser m = Some old" "bl_owned old" "bl_proc old = Some (Some pid)"
    and "probeDevTools pf (or_else (so_browserPort opts) 9222) w = (v, w1)" "present v"
    and "\<And>l. bo_port (bl_opts l) = or_else (so_browserPort opts) 9222 \<Longrightarrow> canCreateTarget pf l w1 = (True, w2)"
    and "start_with pf opts fuel retried m python w = Some (Health h, m', w')"
  shows "snd (drop_browser pf m' w'') = w''"
proof -
  let ?l = "new_BrowserLauncher \<lparr>bo_port = or_else (so_browserPort opts) 9222,
      bo_profileDir = pf_join pf [so_sidecarRoot opts, ''chrome_profile''], bo_executablePath = so_browserPath opts\<rparr>"
  have e: "ensure_browser pf fuel ?l w = Some (Ensure_done v, ?l, w2)"
    using assms(4-6) by (intro reused_browser_not_closed) (auto simp: new_BrowserLauncher_def)
  have unowned: "sm_browser m1 = Some ?l \<or> sm_browser m1 = None \<Longrightarrow> snd (drop_browser pf m1 w'') = w''" for m1
    by (auto simp: drop_browser_def new_BrowserLauncher_def dispose_browser_def browser_events_def)
  have keeps: "sm_browser (manager_events pf v m1) = sm_browser m1" for v m1
    by (simp add: manager_events_def Let_def split: option.splits)
  have loop: "wait_loop pf deadline n m1 w1 = Some (ok, m2, w2) \<Longrightarrow> sm_browser m2 = sm_browser m1" for deadline n m1 w1 ok m2 w2
  proof (induction n arbitrary: m1 w1)
    case (Suc n)
    then show ?case by (auto simp: Let_def keeps split: prod.splits if_splits)
  qed simp
  have aw: "after_wait pf opts retried ok m2 w2 = (Health h, m', w') \<Longrightarrow> sm_browser m' = sm_browser m2 \<or> sm_browser m' = None" for ok m2 w2
    by (auto simp: after_wait_def Let_def startHealthLoop_def keeps dest!: stop_sidecar_clean rollback_keeps
        split: prod.splits option.splits bool.splits if_splits)
  show ?thesis
    using assms(7) loop aw
    by (intro unowned) (fastforce simp: start_with_def e Let_def waitReady_def split: prod.splits)
qed

end
