(* ===== verification/Context_Pruning.thy ===== *)
theory Context_Pruning
  imports Js_Values Js_Numbers
begin

text \<open>
  \<open>extensions/incontrol/core/llm/countTokens.ts\<close> with \<open>messages.ts\<close>, \<open>getAdjustedTokenCount.ts\<close> and the
  rendering of \<open>core/util/messageContent.ts\<close>: fitting a chat into the context of a model. The
  tokenizer is an argument. The safety buffer is two hundredths of the context length, so token
  budgets are counted in fiftieths of a token; products with a multiplier are exact here.
\<close>

section \<open>Messages\<close>

datatype message_part = TextPart string | ImagePart string

datatype message_content = Plain string | Parts "message_part list"

datatype message_role = UserRole | AssistantRole | ThinkingRole | SystemRole | ToolRole

text \<open>A tool call is the JSON value that the model streamed.\<close>

record chat_message =
  cm_role :: message_role
  cm_content :: message_content
  cm_toolCalls :: "json list option"
  cm_toolCallId :: "string option"
  cm_signature :: "string option"
  cm_redacted :: "string option"

fun text_parts :: "message_part list \<Rightarrow> string list" where
  "text_parts [] = []"
| "text_parts (TextPart t # ps) = t # text_parts ps"
| "text_parts (ImagePart _ # ps) = text_parts ps"

fun stripImages :: "message_content \<Rightarrow> string" where
  "stripImages (Plain s) = s"
| "stripImages (Parts ps) = join_with [newline] (text_parts ps)"

definition renderChatMessage :: "chat_message \<Rightarrow> string" where
  "renderChatMessage m = stripImages (cm_content m)"

fun blank_part :: "message_part \<Rightarrow> bool" where
  "blank_part (TextPart t) = (trim t = [])"
| "blank_part (ImagePart _) = False"

fun messageIsEmpty :: "message_content \<Rightarrow> bool" where
  "messageIsEmpty (Plain s) = (trim s = [])"
| "messageIsEmpty (Parts ps) = list_all blank_part ps"

definition addSpaceToAnyEmptyMessages :: "chat_message list \<Rightarrow> chat_message list" where
  "addSpaceToAnyEmptyMessages ms =
     map (\<lambda>m. if messageIsEmpty (cm_content m) then m\<lparr>cm_content := Plain '' ''\<rparr> else m) ms"

definition blank_text :: "message_content \<Rightarrow> bool" where
  "blank_text c = (case c of Plain s \<Rightarrow> trim s = [] | Parts _ \<Rightarrow> False)"

definition chatMessageIsEmpty :: "chat_message \<Rightarrow> bool" where
  "chatMessageIsEmpty m =
     (case cm_role m of
        SystemRole \<Rightarrow> blank_text (cm_content m)
      | UserRole \<Rightarrow> blank_text (cm_content m)
      | AssistantRole \<Rightarrow> blank_text (cm_content m) \<and> cm_toolCalls m = None
      | ThinkingRole \<Rightarrow> False
      | ToolRole \<Rightarrow> False)"

definition messageHasToolCallId :: "chat_message \<Rightarrow> string option \<Rightarrow> bool" where
  "messageHasToolCallId m i =
     (cm_role m = AssistantRole
      \<and> (\<exists>call \<in> set (or_else (cm_toolCalls m) []). js_prop ''id'' call = map_option JStr i))"

section \<open>Counting\<close>

definition multiplier :: "string \<Rightarrow> nat" where
  "multiplier modelName =
     (let lower = to_lower modelName
      in if js_includes lower ''claude'' then 123
         else if js_includes lower ''gemini'' then 118
         else if js_includes lower ''stral'' \<or> js_includes lower ''mixtral'' then 126
         else 100)"

definition getAdjustedTokenCountFromModel :: "nat \<Rightarrow> string \<Rightarrow> nat" where
  "getAdjustedTokenCountFromModel base modelName = (base * multiplier modelName + 99) div 100"

fun part_tokens :: "(string \<Rightarrow> nat list) \<Rightarrow> message_part \<Rightarrow> nat" where
  "part_tokens encode (TextPart t) = length (encode t)"
| "part_tokens encode (ImagePart _) = 1024"

definition countTokens :: "(string \<Rightarrow> nat list) \<Rightarrow> string \<Rightarrow> message_content \<Rightarrow> nat" where
  "countTokens encode modelName c =
     getAdjustedTokenCountFromModel
       (case c of Parts ps \<Rightarrow> sum_list (map (part_tokens encode) ps) | Plain s \<Rightarrow> length (encode s)) modelName"

definition truthy_string :: "string option \<Rightarrow> string list" where
  "truthy_string s = (case s of Some (c # r) \<Rightarrow> [c # r] | _ \<Rightarrow> [])"

definition countChatMessageTokens :: "(string \<Rightarrow> nat list) \<Rightarrow> string \<Rightarrow> chat_message \<Rightarrow> nat" where
  "countChatMessageTokens encode modelName m =
     (let count = (\<lambda>s. countTokens encode modelName (Plain s))
      in 4 + (if cm_content m = Plain [] then 0 else countTokens encode modelName (cm_content m))
         + sum_list (map (\<lambda>call. 10 + count (json_stringify call)) (or_else (cm_toolCalls m) []))
         + (if cm_role m = ThinkingRole
            then sum_list (map count (truthy_string (cm_redacted m) @ truthy_string (cm_signature m))) else 0)
         + (if cm_role m = ToolRole then 10 + sum_list (map count (truthy_string (cm_toolCallId m))) else 0))"

record tool_function =
  tf_name :: string
  tf_description :: "string option"
  tf_properties :: "(string \<times> json) list option"

definition field_tokens :: "(string \<Rightarrow> nat list) \<Rightarrow> json \<Rightarrow> int" where
  "field_tokens encode fs =
     (if \<not> truthy fs then 0
      else
        sum_list (map (\<lambda>t. 2 + int (length (encode t))) (truthy_string (as_string (js_prop ''type'' fs))))
        + sum_list (map (\<lambda>t. 2 + int (length (encode t))) (truthy_string (as_string (js_prop ''description'' fs))))
        + (case js_prop ''enum'' fs of
             Some (JArr es) \<Rightarrow>
               sum_list (map (\<lambda>e. 3 + (case e of JStr s \<Rightarrow> int (length (encode s)) | _ \<Rightarrow> 5)) es) - 3
           | _ \<Rightarrow> 0))"

definition tool_tokens :: "(string \<Rightarrow> nat list) \<Rightarrow> tool_function \<Rightarrow> int" where
  "tool_tokens encode t =
     int (length (encode (tf_name t)))
     + sum_list (map (\<lambda>d. int (length (encode d))) (truthy_string (tf_description t)))
     + sum_list (map (\<lambda>(k, fs). int (length (encode k)) + field_tokens encode fs) (or_else (tf_properties t) []))"

definition countToolsTokens :: "(string \<Rightarrow> nat list) \<Rightarrow> tool_function list \<Rightarrow> int" where
  "countToolsTokens encode tools = 12 + sum_list (map (tool_tokens encode) tools) + 12"

section \<open>The last messages\<close>

datatype compile_error = No_last_message | Unmatched_output "string option" | Not_enough_context

text \<open>The result is the sequence and the messages left after popping it.\<close>

definition extractToolSequence :: "chat_message list \<Rightarrow> compile_error + chat_message list \<times> chat_message list" where
  "extractToolSequence ms =
     (if ms = [] then Inl No_last_message
      else if cm_role (last ms) = ToolRole
      then
        (let outputs = rev (takeWhile (\<lambda>m. cm_role m = ToolRole) (rev ms));
             before = rev (dropWhile (\<lambda>m. cm_role m = ToolRole) (rev ms))
         in if before = [] then Inr (outputs, [])
            else (case List.find (\<lambda>m. \<not> messageHasToolCallId (last before) (cm_toolCallId m)) outputs of
                    Some m \<Rightarrow> Inl (Unmatched_output (cm_toolCallId m))
                  | None \<Rightarrow> Inr (last before # outputs, butlast before)))
      else if cm_role (last ms) = AssistantRole \<or> cm_role (last ms) = ThinkingRole
      then
        (let spoken = (\<lambda>m. cm_role m = AssistantRole \<or> cm_role m = ThinkingRole)
         in Inr (rev (takeWhile spoken (rev ms)), rev (dropWhile spoken (rev ms))))
      else Inr ([last ms], butlast ms))"

section \<open>Compiling\<close>

text \<open>Fiftieths of a token.\<close>

definition getTokenCountingBufferSafety :: "nat \<Rightarrow> int" where
  "getTokenCountingBufferSafety contextLength = min (50 * 1000) (int contextLength)"

definition DEFAULT_PRUNING_LENGTH :: nat where
  "DEFAULT_PRUNING_LENGTH = 128000"

text \<open>The loop over the history: the messages kept, their tally, and whether any was removed.\<close>

function prune_history ::
  "int \<Rightarrow> (chat_message \<times> nat) list \<Rightarrow> int \<Rightarrow> (chat_message \<times> nat) list \<times> int \<times> bool" where
  "prune_history available [] tally = ([], tally, False)"
| "prune_history available ((m, t) # ms) tally =
     (if 50 * tally > available
      then
        (let orphan = (\<lambda>(m, _). cm_role m = ToolRole);
             dropped = takeWhile orphan ms;
             (kept, tally', _) = prune_history available (dropWhile orphan ms)
                                   (tally - int t - int (sum_list (map snd dropped)))
         in (kept, tally', True))
      else ((m, t) # ms, tally, False))"
  by pat_completeness auto
termination
  by (relation "measure (\<lambda>(available, ms, tally). length ms)") (auto simp: less_Suc_eq_le length_dropWhile_le)

record compiled =
  co_messages :: "chat_message list"
  co_didPrune :: bool
  co_inputTokens :: int
  co_availableTokens :: int

definition prepare_messages :: "bool \<Rightarrow> chat_message list \<Rightarrow> chat_message list" where
  "prepare_messages supportsImages ms =
     (if supportsImages then ms
      else map (\<lambda>m. case cm_content m of Parts _ \<Rightarrow> m\<lparr>cm_content := Plain (renderChatMessage m)\<rparr> | Plain _ \<Rightarrow> m) ms)"

definition system_message :: "bool \<Rightarrow> chat_message list \<Rightarrow> chat_message list" where
  "system_message supportsImages msgs =
     (case List.find (\<lambda>m. cm_role m = SystemRole) (prepare_messages supportsImages msgs) of
        None \<Rightarrow> [] | Some m \<Rightarrow> [m])"

definition conversation :: "bool \<Rightarrow> chat_message list \<Rightarrow> chat_message list" where
  "conversation supportsImages msgs =
     addSpaceToAnyEmptyMessages
       (filter (\<lambda>m. \<not> chatMessageIsEmpty m)
         (filter (\<lambda>m. cm_role m \<noteq> SystemRole) (prepare_messages supportsImages msgs)))"

definition compileChatMessages ::
  "(string \<Rightarrow> nat list) \<Rightarrow> string \<Rightarrow> chat_message list \<Rightarrow> nat option \<Rightarrow> nat \<Rightarrow> bool \<Rightarrow> tool_function list option
     \<Rightarrow> compile_error + compiled" where
  "compileChatMessages encode modelName msgs knownContextLength maxTokens supportsImages tools =
     (let systemMsg = system_message supportsImages msgs
      in case extractToolSequence (conversation supportsImages msgs) of
           Inl e \<Rightarrow> Inl e
         | Inr (toolSequence, history) \<Rightarrow>
             (let count = countChatMessageTokens encode modelName;
                  lastTokens = int (sum_list (map count toolSequence));
                  systemTokens = int (sum_list (map count systemMsg));
                  toolTokens = (case tools of None \<Rightarrow> 0 | Some ts \<Rightarrow> countToolsTokens encode ts);
                  contextLength = or_else knownContextLength DEFAULT_PRUNING_LENGTH;
                  available = 50 * int contextLength - getTokenCountingBufferSafety contextLength
                                - 50 * int (min 1000 maxTokens);
                  inputAvailable = available - 50 * toolTokens - 50 * systemTokens - 50 * lastTokens
              in if knownContextLength \<noteq> None \<and> inputAvailable < 0 then Inl Not_enough_context
                 else
                   (let historyWithTokens = map (\<lambda>m. (m, count m)) history;
                        (kept, tally, didPrune) =
                          prune_history inputAvailable historyWithTokens (int (sum_list (map snd historyWithTokens)))
                    in Inr \<lparr>co_messages = systemMsg @ map fst kept @ toolSequence,
                        co_didPrune = didPrune,
                        co_inputTokens = tally + systemTokens + toolTokens + lastTokens,
                        co_availableTokens = available\<rparr>)))"

section \<open>Pruning lines and strings\<close>

fun prune_top :: "int \<Rightarrow> int \<Rightarrow> nat list \<Rightarrow> nat" where
  "prune_top maxTokens tally [] = 0"
| "prune_top maxTokens tally (t # ts) =
     (if tally > maxTokens
      then Suc (prune_top maxTokens (tally - int t - (if ts = [] then 0 else 1)) ts)
      else 0)"

definition line_tokens :: "(string \<Rightarrow> nat) \<Rightarrow> string list \<Rightarrow> int" where
  "line_tokens count ls = int (sum_list (map count ls)) + int (length ls - 1)"

definition pruneLinesFromTop :: "(string \<Rightarrow> nat) \<Rightarrow> string \<Rightarrow> int \<Rightarrow> string" where
  "pruneLinesFromTop count prompt maxTokens =
     (let lines = split_on newline prompt
      in join_with [newline] (drop (prune_top maxTokens (line_tokens count lines) (map count lines)) lines))"

text \<open>From the bottom the loop runs over the lines from the last one on.\<close>

definition pruneLinesFromBottom :: "(string \<Rightarrow> nat) \<Rightarrow> string \<Rightarrow> int \<Rightarrow> string" where
  "pruneLinesFromBottom count prompt maxTokens =
     (let lines = split_on newline prompt
      in join_with [newline]
           (take (length lines - prune_top maxTokens (line_tokens count lines) (map count (rev lines))) lines))"

definition pruneStringFromBottom :: "(string \<Rightarrow> nat list) \<Rightarrow> (nat list \<Rightarrow> string) \<Rightarrow> int \<Rightarrow> string \<Rightarrow> string" where
  "pruneStringFromBottom encode decode maxTokens prompt =
     (let tokens = encode prompt
      in if int (length tokens) \<le> maxTokens then prompt else decode (js_slice 0 maxTokens tokens))"

text \<open>The budget in fiftieths; \<open>slice\<close> cuts a fractional start off.\<close>

definition pruneStringFromTop :: "(string \<Rightarrow> nat list) \<Rightarrow> (nat list \<Rightarrow> string) \<Rightarrow> int \<Rightarrow> string \<Rightarrow> string" where
  "pruneStringFromTop encode decode max50 prompt =
     (let tokens = encode prompt; over = 50 * int (length tokens) - max50
      in if over \<le> 0 then prompt else decode (drop (nat (over div 50)) tokens))"

definition pruneRawPromptFromTop ::
  "(string \<Rightarrow> nat list) \<Rightarrow> (nat list \<Rightarrow> string) \<Rightarrow> nat \<Rightarrow> string \<Rightarrow> nat \<Rightarrow> string" where
  "pruneRawPromptFromTop encode decode contextLength prompt tokensForCompletion =
     pruneStringFromTop encode decode
       (50 * int contextLength - 50 * int tokensForCompletion - getTokenCountingBufferSafety contextLength) prompt"

section \<open>What pruning keeps\<close>

lemma prune_history_spec:
  assumes "tally = int (sum_list (map snd ms))" "prune_history available ms tally = (kept, tally', pruned)"
  shows "suffix kept ms \<and> tally' = int (sum_list (map snd kept)) \<and> (kept = [] \<or> 50 * tally' \<le> available)
    \<and> (if pruned then kept = [] \<or> cm_role (fst (hd kept)) \<noteq> ToolRole else kept = ms)
    \<and> pruned = (ms \<noteq> [] \<and> 50 * tally > available)"
  using assms
proof (induction available ms tally arbitrary: kept tally' pruned rule: prune_history.induct)
  case (1 available tally)
  then show ?case by simp
next
  case (2 available m t ms tally)
  let ?orphan = "\<lambda>(m, _). cm_role m = ToolRole"
  let ?rest = "dropWhile ?orphan ms" and ?dropped = "takeWhile ?orphan ms"
  show ?case
  proof (cases "50 * tally > available")
    case True
    obtain k1 t1 p1 where rec: "prune_history available ?rest (tally - int t - int (sum_list (map snd ?dropped))) = (k1, t1, p1)"
      by (metis prod.exhaust)
    have res: "kept = k1" "tally' = t1" "pruned"
      using "2.prems"(2) True rec by (auto simp: Let_def)
    have "sum_list (map snd ms) = sum_list (map snd ?dropped) + sum_list (map snd ?rest)"
      by (metis map_append sum_list.append takeWhile_dropWhile_id)
    then have "tally - int t - int (sum_list (map snd ?dropped)) = int (sum_list (map snd ?rest))"
      using "2.prems"(1) by simp
    note ih = "2.IH" [OF True refl refl this rec]
    have "suffix ?rest (p # ms)" for p by (metis suffix_ConsI suffix_dropWhile)
    then have sfx: "suffix k1 ((m, t) # ms)" using ih suffix_order.trans by blast
    have hd: "?rest = [] \<or> cm_role (fst (hd ?rest)) \<noteq> ToolRole"
      by (metis (mono_tags, lifting) case_prod_unfold hd_dropWhile)
    show ?thesis
      using ih hd sfx True by (auto simp: res split: if_splits)
  next
    case False
    then show ?thesis using 2 by auto
  qed
qed

definition available_tokens :: "nat option \<Rightarrow> nat \<Rightarrow> int" where
  "available_tokens known maxTokens =
     (let n = or_else known DEFAULT_PRUNING_LENGTH
      in 50 * int n - getTokenCountingBufferSafety n - 50 * int (min 1000 maxTokens))"

definition tokens_of_tools :: "(string \<Rightarrow> nat list) \<Rightarrow> tool_function list option \<Rightarrow> int" where
  "tokens_of_tools encode tools = (case tools of None \<Rightarrow> 0 | Some ts \<Rightarrow> countToolsTokens encode ts)"

lemma suffix_map_fst: "suffix kept (map (\<lambda>m. (m, f m)) history) \<Longrightarrow>
    suffix (map fst kept) history \<and> map snd kept = map f (map fst kept)"
  by (auto simp: suffix_def append_eq_map_conv map_eq_append_conv comp_def)


definition sample_message :: "message_role \<Rightarrow> string \<Rightarrow> chat_message" where
  "sample_message role s = \<lparr>cm_role = role, cm_content = Plain s, cm_toolCalls = None, cm_toolCallId = None,
     cm_signature = None, cm_redacted = None\<rparr>"

definition sample_chat :: "chat_message list" where
  "sample_chat = [sample_message SystemRole ''s'', sample_message UserRole ''first'', sample_message UserRole ''last'']"


text \<open>Outputs of tools at the very start of a chat are passed on without the call they answer.\<close>

lemma orphaned_output_kept:
  "cm_role m = ToolRole \<Longrightarrow> extractToolSequence [m] = Inr ([m], [])"
  by (simp add: extractToolSequence_def)

text \<open>Pruning lines removes as few as possible from its side.\<close>

lemma prune_top_spec:
  "prune_top maxTokens (line_tokens count ls) (map count ls) = k \<Longrightarrow>
     k \<le> length ls \<and> (k = length ls \<or> line_tokens count (drop k ls) \<le> maxTokens)
     \<and> (\<forall>j < k. maxTokens < line_tokens count (drop j ls))"
proof (induction ls arbitrary: k)
  case (Cons l ls)
  have step: "line_tokens count (l # ls) - int (count l) - (if ls = [] then 0 else 1) = line_tokens count ls"
    by (cases ls) (simp_all add: line_tokens_def)
  show ?case
  proof (cases "line_tokens count (l # ls) > maxTokens")
    case True
    then obtain k' where k': "k = Suc k'" "prune_top maxTokens (line_tokens count ls) (map count ls) = k'"
      using Cons.prems step by auto
    then show ?thesis using Cons.IH [OF k'(2)] True by (auto simp: less_Suc_eq_0_disj)
  next
    case False
    then show ?thesis using Cons.prems by auto
  qed
qed simp


lemma pruneLinesFromTop_keeps:
  "\<exists>k. pruneLinesFromTop count prompt maxTokens = join_with [newline] (drop k (split_on newline prompt))
    \<and> (k = length (split_on newline prompt) \<or> line_tokens count (drop k (split_on newline prompt)) \<le> maxTokens)
    \<and> (\<forall>j < k. maxTokens < line_tokens count (drop j (split_on newline prompt)))"
  unfolding pruneLinesFromTop_def Let_def by (intro exI conjI refl) (use prune_top_spec [OF refl] in blast)+

lemma line_tokens_rev: "line_tokens count (rev ls) = line_tokens count ls"
  by (simp add: line_tokens_def rev_map [symmetric])

lemma pruneLinesFromBottom_keeps:
  "\<exists>k. pruneLinesFromBottom count prompt maxTokens = join_with [newline] (take k (split_on newline prompt))
    \<and> (k = 0 \<or> line_tokens count (take k (split_on newline prompt)) \<le> maxTokens)
    \<and> (\<forall>j \<in> {k<..length (split_on newline prompt)}. maxTokens < line_tokens count (take j (split_on newline prompt)))"
proof -
  let ?ls = "split_on newline prompt"
  define q where "q = prune_top maxTokens (line_tokens count (rev ?ls)) (map count (rev ?ls))"
  note spec = prune_top_spec [OF q_def [symmetric]]
  have t: "line_tokens count (drop j (rev ?ls)) = line_tokens count (take (length ?ls - j) ?ls)" for j
    by (simp add: drop_rev line_tokens_rev)
  have "maxTokens < line_tokens count (take j ?ls)" if "length ?ls - q < j" "j \<le> length ?ls" for j
  proof -
    have "length ?ls - j < q" using that spec by auto
    then have "maxTokens < line_tokens count (drop (length ?ls - j) (rev ?ls))" using spec by blast
    then show ?thesis using that(2) by (simp add: t)
  qed
  then show ?thesis using spec t
    by (intro exI [of _ "length ?ls - q"]) (auto simp: pruneLinesFromBottom_def Let_def q_def line_tokens_rev)
qed

end
