(* ===== verification/Session_History.thy ===== *)
theory Session_History
  imports Context_Pruning Request_Context Bridge_Triggers
begin

text \<open>
  Histories of a chat session on their way to the web page: packing a session for a migration
  (\<open>core/util/historyPacker.ts\<close>), compacting a conversation (\<open>conversationCompaction.ts\<close>), sending an
  image only once (\<open>uwaImages.ts\<close>), and the overlay of models synchronised from the page
  (\<open>uwaModelOverlay.ts\<close>), all of \<open>extensions/incontrol\<close>.
\<close>

section \<open>Packing a session\<close>

text \<open>An item of the history may be missing, or have no message; roles are not normalised yet.\<close>

record pack_message =
  pk_role :: "string option"
  pk_content :: "message_content option"

record pack_item =
  pk_message :: "pack_message option"
  pk_summary :: "string option"

record packed_session =
  packedHistory :: string
  systemPrompt :: string
  turnCount :: nat
  charCount :: nat

definition textOf :: "message_content option \<Rightarrow> string" where
  "textOf c = (case c of None \<Rightarrow> [] | Some c \<Rightarrow> stripImages c)"

definition pack_role :: "pack_message \<Rightarrow> string" where
  "pack_role m = to_lower (or_else (pk_role m) ''user'')"

definition summary_lines :: "pack_item \<Rightarrow> string list" where
  "summary_lines item =
     (case pk_summary item of
        Some (c # s) \<Rightarrow> [''[earlier conversation summary]'' @ [newline] @ (c # s)]
      | _ \<Rightarrow> [])"

text \<open>One round of the loop over lines, system prompt and number of turns.\<close>

definition pack_step :: "pack_item option \<Rightarrow> string list \<times> string \<times> nat \<Rightarrow> string list \<times> string \<times> nat" where
  "pack_step it st =
     (let (lines, sys, turns) = st
      in case it of
           None \<Rightarrow> st
         | Some item \<Rightarrow>
             (case pk_message item of
                None \<Rightarrow> st
              | Some m \<Rightarrow>
                  (let role = pack_role m; lines' = lines @ summary_lines item; body = textOf (pk_content m)
                   in if role = ''system'' then (lines', if body \<noteq> [] then body else sys, turns)
                      else if role \<in> {''tool'', ''function'', ''error''} then (lines', sys, turns)
                      else
                        (let turns' = (if role = ''user'' \<or> role = ''assistant'' then turns + 1 else turns)
                         in if body = [] then (lines', sys, turns')
                            else (lines' @ [role @ '': '' @ body], sys, turns')))))"

definition packSessionForMigration :: "pack_item option list \<Rightarrow> packed_session" where
  "packSessionForMigration history =
     (let (lines, sys, turns) = fold pack_step history ([], [], 0);
          packed = join_with [newline, newline] lines
      in \<lparr>packedHistory = packed, systemPrompt = sys, turnCount = turns, charCount = length packed\<rparr>)"

section \<open>Compacting a conversation\<close>

record history_item =
  hi_message :: chat_message
  hi_summary :: "string option"

definition has_summary :: "history_item \<Rightarrow> bool" where
  "has_summary item = (truthy_string (hi_summary item) \<noteq> [])"

text \<open>The last summary and the items behind it; a summary of the target itself does not count.\<close>

definition since_summary :: "nat \<Rightarrow> history_item list \<Rightarrow> string \<times> history_item list" where
  "since_summary index upTo =
     (let search = (if has_summary (upTo ! index) then take index upTo else upTo)
      in case filter (\<lambda>i. has_summary (search ! i)) (rev [0..<length search]) of
           [] \<Rightarrow> ([], upTo)
         | i # _ \<Rightarrow> (or_else (hi_summary (search ! i)) [], drop (Suc i) upTo))"

definition cancelled_output :: "json \<Rightarrow> chat_message" where
  "cancelled_output call =
     \<lparr>cm_role = ToolRole, cm_content = Plain ''Tool cancelled'', cm_toolCalls = None,
      cm_toolCallId = as_string (js_prop ''id'' call), cm_signature = None, cm_redacted = None\<rparr>"

definition answered :: "history_item list \<Rightarrow> json \<Rightarrow> bool" where
  "answered items call =
     (\<exists>it \<in> set items. cm_role (hi_message it) = ToolRole
        \<and> js_prop ''id'' call = map_option JStr (cm_toolCallId (hi_message it)))"

definition with_outputs :: "history_item list \<Rightarrow> history_item \<Rightarrow> chat_message list" where
  "with_outputs items item =
     hi_message item #
       (if cm_role (hi_message item) = AssistantRole
        then map cancelled_output (filter (\<lambda>call. \<not> answered items call) (or_else (cm_toolCalls (hi_message item)) []))
        else [])"

definition user_message :: "string \<Rightarrow> chat_message" where
  "user_message s = \<lparr>cm_role = UserRole, cm_content = Plain s, cm_toolCalls = None, cm_toolCallId = None,
     cm_signature = None, cm_redacted = None\<rparr>"

definition compaction_prompt :: string where
  "compaction_prompt = join_with [newline] [
    ''Create a comprehensive summary of this conversation that captures all essential information needed to continue the work seamlessly. Structure your response to preserve technical accuracy and context continuity.'',
    [],
    ''Your summary should include:'',
    [],
    ''1. **Conversation Overview**: Describe the main topic and progression of the discussion, including any shifts in focus or direction.'',
    [],
    ''2. **Active Development**: Detail what was being implemented, modified, or debugged most recently. Include specific technical approaches and methodologies used.'',
    [],
    ''3. **Technical Stack**: List all relevant technologies, frameworks, libraries, coding patterns, and architectural decisions discussed.'',
    [],
    ''4. **File Operations**: Document all files that were created, modified, or referenced, including their purposes and key changes. Include important code snippets and their locations.'',
    [],
    ''5. **Solutions & Troubleshooting**: Summarize problems encountered and how they were resolved, including any debugging steps or workarounds applied.'',
    [],
    ''6. **Outstanding Work**: Clearly identify any incomplete tasks, pending implementations, or next steps that were discussed. Include direct references to user requests and current progress.'',
    [],
    ''If there's a previous summary in the conversation, integrate its relevant information while removing outdated details. Focus on technical precision and include specific identifiers (file paths, function names, class names, etc.) that would be essential for continuation. Write in third person and maintain an objective, technical tone.'']"

text \<open>
  The part before the model answers: \<open>None\<close> where reading the target item throws. The session is
  loaded by its caller.
\<close>

definition compaction_request :: "nat \<Rightarrow> history_item list \<Rightarrow> chat_message list option" where
  "compaction_request index history =
     (if length history \<le> index then None
      else
        (let (summary, items) = since_summary index (take (Suc index) history);
             messages = concat (map (with_outputs items) items)
         in Some ((if summary = [] then []
                   else [user_message (''Previous conversation summary:'' @ [newline, newline] @ summary)])
                  @ messages @ [user_message compaction_prompt])))"

definition last_system_prompt :: "history_item list \<Rightarrow> string option" where
  "last_system_prompt history =
     (case filter (\<lambda>it. cm_role (hi_message it) = SystemRole) (rev history) of
        [] \<Rightarrow> None
      | it # _ \<Rightarrow> Some (stripImages (cm_content (hi_message it))))"

text \<open>The part after it: the history that is saved, and the event.\<close>

definition compaction_finish ::
  "(string \<Rightarrow> string) \<Rightarrow> uwa_ctx \<Rightarrow> string \<Rightarrow> nat \<Rightarrow> history_item list \<Rightarrow> message_content
     \<Rightarrow> history_item list \<times> compaction_event" where
  "compaction_finish sha1 ctx sessionId index history response =
     (let summary = stripImages response;
          updated = history[index := (history ! index)\<lparr>hi_summary := Some summary\<rparr>];
          cached = or_else (getUwaSystemPrompt sha1 (Some sessionId) ctx) []
      in (updated,
          \<lparr>ce_session = sessionId, ce_index = index, ce_summary = summary,
           ce_system = (if cached \<noteq> [] \<and> trim cached \<noteq> [] then Some cached else last_system_prompt updated)\<rparr>))"

section \<open>Sending an image once\<close>

text \<open>A message on the wire; its other fields are passed on.\<close>

record wire_message =
  wm_role :: string
  wm_content :: "json option"
  wm_tool_calls :: "json option"
  wm_function_call :: "json option"

definition substantial :: "json option \<Rightarrow> bool" where
  "substantial v = (case v of Some (JStr s) \<Rightarrow> 0 < length (trim s) | _ \<Rightarrow> False)"

definition hasAssistantResponse :: "wire_message \<Rightarrow> bool" where
  "hasAssistantResponse m =
     (if wm_role m = ''tool'' \<or> wm_role m = ''function'' then True
      else if wm_role m \<noteq> ''assistant'' then False
      else if elements (wm_tool_calls m) \<noteq> [] then True
      else if (case wm_function_call m of None \<Rightarrow> False | Some j \<Rightarrow> truthy j) then True
      else (case wm_content m of
              Some (JStr s) \<Rightarrow> 0 < length (trim s)
            | Some (JArr parts) \<Rightarrow>
                (\<exists>p \<in> set parts. substantial (js_prop ''text'' p) \<or> substantial (js_prop ''refusal'' p))
            | _ \<Rightarrow> False))"

definition image_part :: "json \<Rightarrow> bool" where
  "image_part p = (js_prop ''type'' p \<in> {Some (JStr ''image_url''), Some (JStr ''imageUrl''), Some (JStr ''input_image'')})"

definition latest_user :: "wire_message list \<Rightarrow> nat option" where
  "latest_user ms =
     (case filter (\<lambda>i. wm_role (ms ! i) = ''user'') (rev [0..<length ms]) of [] \<Rightarrow> None | i # _ \<Rightarrow> Some i)"

definition latest_handled :: "wire_message list \<Rightarrow> bool" where
  "latest_handled ms =
     list_ex hasAssistantResponse (drop (case latest_user ms of None \<Rightarrow> 0 | Some i \<Rightarrow> Suc i) ms)"

definition strip_message_images :: "wire_message \<Rightarrow> wire_message" where
  "strip_message_images m =
     (case wm_content m of
        Some (JArr parts) \<Rightarrow>
          (let content = filter (\<lambda>p. \<not> image_part p) parts
           in if length content = length parts then m
              else m\<lparr>wm_content := Some (if 0 < length content then JArr content else JStr [])\<rparr>)
      | _ \<Rightarrow> m)"

definition prepareUwaChatMessages ::
  "uwa_ctx \<Rightarrow> wire_message list \<Rightarrow> string option \<Rightarrow> json option \<Rightarrow> wire_message list" where
  "prepareUwaChatMessages ctx ms apiBase historyMode =
     (let mode = (case historyMode of None \<Rightarrow> ''undefined'' | Some j \<Rightarrow> js_to_string j)
      in if \<not> isUwaModelApiBase apiBase ctx \<or> to_lower mode \<noteq> ''ide'' then ms
         else map (\<lambda>(i, m). if wm_role m \<noteq> ''user'' \<or> Some i = latest_user ms \<and> \<not> latest_handled ms then m
                     else strip_message_images m) (zip [0..<length ms] ms))"

section \<open>Models of the page\<close>

record synced_model =
  um_title :: string
  um_model :: string
  um_apiBase :: string

record model_description =
  md_title :: string
  md_provider :: string
  md_model :: string
  md_apiBase :: "string option"
  md_uploadImage :: bool

record 's overlay =
  ov_synced :: "synced_model list"
  ov_listeners :: "(synced_model list, 's) emitter"

definition hasUwaSyncedModels :: "'s overlay \<Rightarrow> bool" where
  "hasUwaSyncedModels ov = (0 < length (ov_synced ov))"

definition setUwaSyncedModels :: "synced_model list \<Rightarrow> 's overlay \<Rightarrow> 's \<Rightarrow> 's overlay \<times> 's" where
  "setUwaSyncedModels models ov s =
     (ov\<lparr>ov_synced := models\<rparr>, emitter_emit (ov_listeners ov) models s)"

definition clearUwaSyncedModels :: "'s overlay \<Rightarrow> 's \<Rightarrow> 's overlay \<times> 's" where
  "clearUwaSyncedModels ov s = setUwaSyncedModels [] ov s"

definition described :: "synced_model \<Rightarrow> model_description" where
  "described m = \<lparr>md_title = um_title m, md_provider = ''openai'', md_model = um_model m,
     md_apiBase = Some (um_apiBase m), md_uploadImage = True\<rparr>"

fun append_models :: "synced_model list \<Rightarrow> string set \<Rightarrow> model_description list \<Rightarrow> model_description list" where
  "append_models [] known models = models"
| "append_models (m # ms) known models =
     (if um_title m \<in> known then append_models ms known models
      else append_models ms (insert (um_title m) known) (models @ [described m]))"

text \<open>The list of a configuration without models is a new one, which nothing refers to.\<close>

definition applyUwaModelsToSerialized ::
  "'s overlay \<Rightarrow> model_description list option \<Rightarrow> model_description list option" where
  "applyUwaModelsToSerialized ov serialized =
     (if ov_synced ov = [] then serialized
      else (case serialized of
              None \<Rightarrow> None
            | Some models \<Rightarrow> Some (append_models (ov_synced ov) (md_title ` set models) models)))"

section \<open>Images are sent once\<close>

definition wire_images :: "wire_message \<Rightarrow> json list" where
  "wire_images m = filter image_part (elements (wm_content m))"

definition wire_rest :: "wire_message \<Rightarrow> json list" where
  "wire_rest m = filter (\<lambda>p. \<not> image_part p) (elements (wm_content m))"

definition filters_images :: "uwa_ctx \<Rightarrow> string option \<Rightarrow> json option \<Rightarrow> bool" where
  "filters_images ctx apiBase historyMode =
     (isUwaModelApiBase apiBase ctx
      \<and> to_lower (case historyMode of None \<Rightarrow> ''undefined'' | Some j \<Rightarrow> js_to_string j) = ''ide'')"

definition keeps_images :: "wire_message list \<Rightarrow> nat \<Rightarrow> wire_message \<Rightarrow> bool" where
  "keeps_images ms i m = (wm_role m \<noteq> ''user'' \<or> Some i = latest_user ms \<and> \<not> latest_handled ms)"

lemma prepare_eq:
  "prepareUwaChatMessages ctx ms apiBase historyMode =
     map (\<lambda>(i, m). if filters_images ctx apiBase historyMode \<and> \<not> keeps_images ms i m then strip_message_images m else m)
       (zip [0..<length ms] ms)"
proof (cases "filters_images ctx apiBase historyMode")
  case True
  then show ?thesis
    by (auto simp: prepareUwaChatMessages_def filters_images_def keeps_images_def Let_def split: option.splits intro!: map_cong)
next
  case False
  have "map (\<lambda>(i, m). m) (zip [0..<length ms] ms) = ms"
    by (rule nth_equalityI) simp_all
  then show ?thesis using False by (auto simp: prepareUwaChatMessages_def filters_images_def Let_def)
qed

lemma strip_role [simp]: "wm_role (strip_message_images m) = wm_role m"
  by (simp add: strip_message_images_def Let_def split: option.splits json.splits)

lemma filter_length_all: "length (filter P xs) = length xs \<longleftrightarrow> list_all P xs"
  by (metis filter_id_conv length_filter_less list_all_iff nat_neq_iff)

lemma strip_parts: "wire_images (strip_message_images m) = []" "wire_rest (strip_message_images m) = wire_rest m"
  by (auto simp: strip_message_images_def wire_images_def wire_rest_def Let_def filter_length_all list_all_iff filter_empty_conv
      split: option.splits json.splits)

lemma strip_clean: "wire_images m = [] \<Longrightarrow> strip_message_images m = m"
  by (auto simp: strip_message_images_def wire_images_def Let_def filter_length_all list_all_iff filter_empty_conv
      split: option.splits json.splits)

lemma latest_user_roles: "map wm_role ms = map wm_role ns \<Longrightarrow> latest_user ms = latest_user ns"
proof -
  assume r: "map wm_role ms = map wm_role ns"
  then have l: "length ms = length ns" by (metis length_map)
  have "wm_role (ms ! i) = wm_role (ns ! i)" if "i < length ns" for i using r l that by (metis nth_map)
  then have "filter (\<lambda>i. wm_role (ms ! i) = ''user'') (rev [0..<length ms]) = filter (\<lambda>i. wm_role (ns ! i) = ''user'') (rev [0..<length ns])"
    by (auto simp: l intro!: filter_cong)
  then show ?thesis by (simp add: latest_user_def)
qed

lemma latest_user_None: "latest_user ms = None \<Longrightarrow> i < length ms \<Longrightarrow> wm_role (ms ! i) \<noteq> ''user''"
  by (auto simp: latest_user_def filter_empty_conv split: list.splits)

lemma latest_user_last: "latest_user ms = Some k \<Longrightarrow> k < i \<Longrightarrow> i < length ms \<Longrightarrow> wm_role (ms ! i) \<noteq> ''user''"
proof -
  assume k: "latest_user ms = Some k" "k < i" "i < length ms"
  let ?P = "\<lambda>i. wm_role (ms ! i) = ''user''"
  obtain js where js: "filter ?P (rev [0..<length ms]) = k # js" using k(1) by (auto simp: latest_user_def split: list.splits)
  have "sorted_wrt (>) (filter ?P (rev [0..<length ms]))"
    by (intro sorted_wrt_filter) (simp add: sorted_wrt_rev)
  then have "\<forall>j \<in> set js. j < k" by (simp add: js)
  then have "i \<notin> set (k # js)" using k(2) by auto
  moreover have "set (k # js) = set (filter ?P (rev [0..<length ms]))" by (simp only: js)
  ultimately show ?thesis using k(3) by auto
qed

lemma prepare_nth:
  "i < length ms \<Longrightarrow> prepareUwaChatMessages ctx ms apiBase historyMode ! i =
     (if filters_images ctx apiBase historyMode \<and> \<not> keeps_images ms i (ms ! i) then strip_message_images (ms ! i) else ms ! i)"
  by (simp add: prepare_eq)

lemma prepare_length [simp]: "length (prepareUwaChatMessages ctx ms apiBase historyMode) = length ms"
  by (simp add: prepare_eq)

lemma prepare_roles: "map wm_role (prepareUwaChatMessages ctx ms apiBase historyMode) = map wm_role ms"
  by (rule nth_equalityI) (simp_all add: prepare_nth)

lemma prepare_handled: "latest_handled (prepareUwaChatMessages ctx ms apiBase historyMode) = latest_handled ms"
proof -
  let ?r = "prepareUwaChatMessages ctx ms apiBase historyMode"
  let ?k = "case latest_user ms of None \<Rightarrow> 0 | Some i \<Rightarrow> Suc i"
  have "wm_role (ms ! i) \<noteq> ''user''" if "?k \<le> i" "i < length ms" for i
    using that latest_user_None [of ms i] latest_user_last [of ms _ i] by (cases "latest_user ms") auto
  then have "?r ! i = ms ! i" if "?k \<le> i" "i < length ms" for i
    using that by (simp add: prepare_nth keeps_images_def)
  then have "drop ?k ?r = drop ?k ms" by (intro nth_equalityI) auto
  then show ?thesis by (simp add: latest_handled_def latest_user_roles [OF prepare_roles])
qed


section \<open>Packing and compacting\<close>

definition is_turn :: "pack_item option \<Rightarrow> bool" where
  "is_turn it =
     (case it of
        Some item \<Rightarrow> (case pk_message item of Some m \<Rightarrow> pack_role m \<in> {''user'', ''assistant''} | None \<Rightarrow> False)
      | None \<Rightarrow> False)"

lemma pack_fold:
  "fold pack_step history (lines, sys, turns) = (ls, s, n) \<Longrightarrow>
     n = turns + length (filter is_turn history)
     \<and> prefix lines ls"
proof (induction history arbitrary: lines sys turns)
  case (Cons it history)
  obtain l1 s1 n1 where one: "pack_step it (lines, sys, turns) = (l1, s1, n1)" by (rule prod_cases3)
  then have "fold pack_step history (l1, s1, n1) = (ls, s, n)" using Cons.prems by simp
  note ih = Cons.IH [OF this]
  have "prefix lines l1"
    using one by (auto simp: pack_step_def Let_def split: option.splits if_splits)
  moreover have "n1 = turns + (if is_turn it then 1 else 0)"
    using one by (auto simp: pack_step_def is_turn_def Let_def split: option.splits if_splits)
  ultimately show ?case using ih by (auto dest: prefix_order.trans)
qed simp

text \<open>Every turn of the user or the assistant is counted, whether or not it has text.\<close>

lemma packed_turns:
  "turnCount (packSessionForMigration history) =
     length (filter is_turn history)"
proof -
  obtain ls s n where r: "fold pack_step history ([], [], 0) = (ls, s, n)" by (rule prod_cases3)
  show ?thesis using pack_fold [OF r] unfolding packSessionForMigration_def r by (simp add: Let_def)
qed

text \<open>What is sent for a summary answers every tool call in it.\<close>

lemma compaction_calls_answered:
  assumes "compaction_request index history = Some messages"
    and "m \<in> set messages" "cm_role m = AssistantRole" "call \<in> set (or_else (cm_toolCalls m) [])"
    and "js_prop ''id'' call = None \<or> (\<exists>i. js_prop ''id'' call = Some (JStr i))"
  shows "\<exists>out \<in> set messages. cm_role out = ToolRole \<and> js_prop ''id'' call = map_option JStr (cm_toolCallId out)"
proof -
  obtain summary items where ss: "since_summary index (take (Suc index) history) = (summary, items)" by (rule prod.exhaust)
  let ?body = "concat (map (with_outputs items) items)"
  have msgs: "set ?body \<subseteq> set messages" and only: "m \<in> set ?body"
    using assms(1-3) ss by (auto simp: compaction_request_def Let_def user_message_def split: if_splits)
  from only obtain it where it: "it \<in> set items" "m \<in> set (with_outputs items it)" by auto
  then have m: "m = hi_message it"
    using assms(3) by (auto simp: with_outputs_def cancelled_output_def split: if_splits)
  show ?thesis
  proof (cases "answered items call")
    case True
    then obtain jt where jt: "jt \<in> set items" "cm_role (hi_message jt) = ToolRole"
        "js_prop ''id'' call = map_option JStr (cm_toolCallId (hi_message jt))"
      by (auto simp: answered_def)
    have "hi_message jt \<in> set ?body" using jt(1) by (auto simp: with_outputs_def)
    then show ?thesis using jt msgs by blast
  next
    case False
    then have "cancelled_output call \<in> set (with_outputs items it)"
      using assms(3,4) m by (auto simp: with_outputs_def)
    then have "cancelled_output call \<in> set ?body" using it(1) by auto
    moreover have "js_prop ''id'' call = map_option JStr (cm_toolCallId (cancelled_output call))"
      using assms(5) by (auto simp: cancelled_output_def)
    moreover have "cm_role (cancelled_output call) = ToolRole" by (simp add: cancelled_output_def)
    ultimately show ?thesis using msgs by blast
  qed
qed

section \<open>The overlay\<close>

lemma append_models_spec:
  "md_title ` set models \<subseteq> known \<Longrightarrow>
     \<exists>new. append_models ms known models = models @ new
       \<and> md_title ` set new = um_title ` set ms - known \<and> distinct (map md_title new)"
proof (induction ms arbitrary: known models)
  case (Cons m ms)
  show ?case
  proof (cases "um_title m \<in> known")
    case True
    then show ?thesis using Cons by auto
  next
    case False
    have "md_title ` set (models @ [described m]) \<subseteq> insert (um_title m) known"
      using Cons.prems by (auto simp: described_def)
    from Cons.IH [OF this] obtain new where new:
      "append_models ms (insert (um_title m) known) (models @ [described m]) = (models @ [described m]) @ new"
      "md_title ` set new = um_title ` set ms - insert (um_title m) known" "distinct (map md_title new)" by blast
    then show ?thesis using False
      by (intro exI [of _ "described m # new"]) (auto simp: described_def)
  qed
qed simp

lemma overlay_appends:
  "\<exists>new. applyUwaModelsToSerialized ov (Some models) = Some (models @ new)
     \<and> md_title ` set new = um_title ` set (ov_synced ov) - md_title ` set models \<and> distinct (map md_title new)"
  using append_models_spec [of models "md_title ` set models" "ov_synced ov"]
  by (auto simp: applyUwaModelsToSerialized_def intro: exI [of _ "[]"])

end
