(* ===== verification/Command_Rules.thy ===== *)
theory Command_Rules
  imports Wibe_Prelude
begin

text \<open>
  The rules of \<open>packages/terminal-security/src/evaluateTerminalCommandSecurity.ts\<close> on one
  simple command: which commands are critical (never run), which carry a high risk (run
  with permission) and which are safe (run without). A command is its lower-cased first
  word and its arguments. A regular expression is the function that matches it; the ones
  here need no backtracking.
\<close>

section \<open>Policies\<close>

datatype tool_policy = AllowedWithPermission | AllowedWithoutPermission | Disabled

text \<open>The order of restrictiveness, so that the library's \<open>max\<close> is available.\<close>

definition severity :: "tool_policy \<Rightarrow> nat" where
  "severity p = (case p of AllowedWithoutPermission \<Rightarrow> 0 | AllowedWithPermission \<Rightarrow> 1 | Disabled \<Rightarrow> 2)"

instantiation tool_policy :: linorder
begin

definition less_eq_tool_policy :: "tool_policy \<Rightarrow> tool_policy \<Rightarrow> bool" where
  "less_eq_tool_policy p q \<longleftrightarrow> severity p \<le> severity q"

definition less_tool_policy :: "tool_policy \<Rightarrow> tool_policy \<Rightarrow> bool" where
  "less_tool_policy p q \<longleftrightarrow> severity p < severity q"

instance
  by standard
    (auto simp: less_eq_tool_policy_def less_tool_policy_def severity_def split: tool_policy.splits)

end

definition getMostRestrictive :: "tool_policy list \<Rightarrow> tool_policy" where
  "getMostRestrictive policies =
     (if Disabled \<in> set policies then Disabled
      else if AllowedWithPermission \<in> set policies then AllowedWithPermission
      else AllowedWithoutPermission)"

lemma policy_order [simp]:
  "AllowedWithoutPermission \<le> p" "p \<le> Disabled"
  "Disabled \<le> p \<longleftrightarrow> p = Disabled" "p \<le> AllowedWithoutPermission \<longleftrightarrow> p = AllowedWithoutPermission"
  "AllowedWithPermission \<le> p \<longleftrightarrow> p \<noteq> AllowedWithoutPermission"
  "p \<le> AllowedWithPermission \<longleftrightarrow> p \<noteq> Disabled"
  by (cases p; simp add: less_eq_tool_policy_def severity_def)+

lemma max_policy [simp]:
  "max p Disabled = Disabled" "max Disabled p = Disabled"
  "max p AllowedWithoutPermission = p" "max AllowedWithoutPermission p = p"
  by (simp_all add: max_def)

lemma max_policy_eq [simp]:
  "max p q = Disabled \<longleftrightarrow> p = Disabled \<or> q = Disabled"
  "Disabled = max p q \<longleftrightarrow> p = Disabled \<or> q = Disabled"
  "AllowedWithoutPermission = max p q \<longleftrightarrow> p = AllowedWithoutPermission \<and> q = AllowedWithoutPermission"
  "max p q = AllowedWithoutPermission \<longleftrightarrow> p = AllowedWithoutPermission \<and> q = AllowedWithoutPermission"
  by (cases p; cases q; simp add: max_def)+

lemma policy_eqI: "(\<And>r. p \<le> r \<longleftrightarrow> q \<le> r) \<Longrightarrow> p = (q :: tool_policy)"
  using order.antisym by blast

text \<open>\<open>getMostRestrictive\<close> is the least upper bound of its arguments.\<close>

lemma getMostRestrictive_le: "getMostRestrictive ps \<le> r \<longleftrightarrow> (\<forall>p\<in>set ps. p \<le> r)"
proof (cases r)
  case AllowedWithoutPermission
  then show ?thesis
    by (auto simp: getMostRestrictive_def) (metis tool_policy.exhaust)
qed (auto simp: getMostRestrictive_def)

lemma getMostRestrictive_simps [simp]:
  "getMostRestrictive [] = AllowedWithoutPermission"
  "getMostRestrictive (p # ps) = max p (getMostRestrictive ps)"
  "getMostRestrictive (ps @ qs) = max (getMostRestrictive ps) (getMostRestrictive qs)"
  by (auto intro!: policy_eqI simp: getMostRestrictive_le)

lemma getMostRestrictive_eq:
  "getMostRestrictive ps = Disabled \<longleftrightarrow> Disabled \<in> set ps"
  "getMostRestrictive ps = AllowedWithoutPermission \<longleftrightarrow> set ps \<subseteq> {AllowedWithoutPermission}"
  using getMostRestrictive_le [of ps AllowedWithPermission]
    getMostRestrictive_le [of ps AllowedWithoutPermission]
  by auto

section \<open>Critical commands\<close>

definition has_rf :: "string list \<Rightarrow> bool" where
  "has_rf allTokens \<longleftrightarrow>
     list_ex (\<lambda>arg. arg = ''-rf'' \<or> arg = ''-fr'' \<or>
       starts_with arg ''-'' \<and> js_includes arg ''r'' \<and> js_includes arg ''f'') allTokens \<or>
     ''-r'' \<in> set allTokens \<and> ''-f'' \<in> set allTokens \<or>
     ''--recursive'' \<in> set allTokens \<and> ''--force'' \<in> set allTokens"

definition has_dangerous_path :: "string list \<Rightarrow> bool" where
  "has_dangerous_path allTokens \<longleftrightarrow>
     list_ex (\<lambda>arg. arg = ''/'' \<or> arg = ''/*'' \<or> arg = ''~'' \<or> arg = ''~/*'' \<or>
       arg = ''/usr'' \<or> arg = ''/etc'' \<or> arg = ''/bin'' \<or> arg = ''/sbin'' \<or>
       starts_with arg ''/usr/'' \<or> starts_with arg ''/etc/'' \<or>
       starts_with arg ''/bin/'' \<or> starts_with arg ''/sbin/'') allTokens"

definition critical_paths :: "string list" where
  "critical_paths =
     [''/etc/passwd'', ''/etc/shadow'', ''/etc/sudoers'', ''/etc/hosts'', ''/boot/'', ''/sys/'',
      ''/proc/'', ''/dev/'', ''/bin/'', ''/sbin/'', ''/usr/bin/'', ''/usr/sbin/'', ''/lib/'',
      ''/lib64/'']"

definition critical_del :: "string list \<Rightarrow> bool" where
  "critical_del args \<longleftrightarrow>
     ''/s'' \<in> set args \<and> ''/q'' \<in> set args \<or>
     list_ex (\<lambda>arg. js_includes (to_lower arg) (''c:'' @ [CHR 0x5C]) \<or> js_includes arg ''c:/'') args"

definition critical_dd :: "string list \<Rightarrow> bool" where
  "critical_dd args \<longleftrightarrow>
     list_ex (\<lambda>arg. js_includes arg ''of=/dev/'' \<or> js_includes arg ''of=/dev/sda'' \<or>
       js_includes arg ''of=/dev/disk'') args"

definition critical_chmod :: "string list \<Rightarrow> bool" where
  "critical_chmod args \<longleftrightarrow>
     list_ex (\<lambda>arg. arg = ''777'' \<or> arg = ''776'' \<or> arg = ''775'' \<or>
       arg = ''+s'' \<or> arg = ''u+s'' \<or> arg = ''g+s'') args"

definition critical_icacls :: "string list \<Rightarrow> bool" where
  "critical_icacls args \<longleftrightarrow>
     list_ex (\<lambda>arg. js_includes (to_lower arg) ''everyone:f'' \<or>
       js_includes arg ''*s-1-1-0:(oi)(ci)f'') args"

definition privEscCommands :: "string list" where
  "privEscCommands = [''sudo'', ''su'', ''doas'', ''runas'', ''gsudo'', ''psexec'']"

definition kernelCommands :: "string list" where
  "kernelCommands = [''insmod'', ''modprobe'', ''rmmod'', ''iptables'', ''ip6tables'', ''nftables'']"

definition isCriticalCommand :: "string \<Rightarrow> string list \<Rightarrow> bool" where
  "isCriticalCommand baseCommand args =
     (if starts_with baseCommand ''mkfs'' then True
      else if has_rf (baseCommand # args) \<and> has_dangerous_path (baseCommand # args) then True
      else if baseCommand = ''rm'' \<and> list_ex (\<lambda>arg. list_ex (js_includes arg) critical_paths) args then True
      else if baseCommand = ''del'' \<and> critical_del args then True
      else if baseCommand = ''format'' \<or> baseCommand = ''cipher'' then True
      else if baseCommand = ''dd'' \<and> critical_dd args then True
      else if baseCommand \<in> set privEscCommands then True
      else if baseCommand = ''chmod'' \<and> critical_chmod args then True
      else if baseCommand = ''chown'' \<and> list_ex (\<lambda>arg. js_includes arg ''root'') args then True
      else if baseCommand = ''icacls'' \<and> critical_icacls args then True
      else if baseCommand = ''takeown'' then True
      else if baseCommand \<in> set kernelCommands then True
      else if baseCommand = ''eval'' \<or> baseCommand = ''exec'' then True
      else False)"

section \<open>High-risk commands\<close>

definition packageManagers :: "string list" where
  "packageManagers =
     [''npm'', ''yarn'', ''pnpm'', ''pip'', ''pip3'', ''gem'', ''cargo'', ''go'', ''apt'', ''apt-get'',
      ''yum'', ''dnf'', ''zypper'', ''pacman'', ''brew'', ''choco'', ''scoop'', ''winget'']"

definition isHighRiskPackageManager :: "string \<Rightarrow> string list \<Rightarrow> bool" where
  "isHighRiskPackageManager baseCommand args \<longleftrightarrow>
     baseCommand \<in> set packageManagers \<and> args \<noteq> [] \<and> hd args \<in> set [''install'', ''add'', ''i'']"

definition isHighRiskNetworkTool :: "string \<Rightarrow> bool" where
  "isHighRiskNetworkTool baseCommand \<longleftrightarrow>
     baseCommand \<in> set [''curl'', ''wget'', ''nc'', ''netcat'', ''ncat'', ''telnet'', ''ssh'', ''scp'',
       ''rsync'', ''ftp'', ''sftp'', ''tftp'', ''socat'']"

definition scriptInterpreters :: "string list" where
  "scriptInterpreters =
     [''sh'', ''bash'', ''zsh'', ''fish'', ''ksh'', ''csh'', ''tcsh'', ''dash'', ''python'', ''python3'',
      ''python2'', ''ruby'', ''perl'', ''php'', ''node'', ''nodejs'', ''deno'', ''bun'', ''lua'', ''tcl'',
      ''powershell'', ''pwsh'']"

definition isHighRiskScriptInterpreter :: "string \<Rightarrow> string list \<Rightarrow> bool" where
  "isHighRiskScriptInterpreter baseCommand args =
     (if baseCommand \<in> set scriptInterpreters then
        (if length args = 1 \<and> (hd args = ''--help'' \<or> hd args = ''--version'') then False
         else if ''-c'' \<in> set args then True
         else args \<noteq> [])
      else False)"

text \<open>\<open>endsWith\<close>.\<close>

definition ends_with :: "'a list \<Rightarrow> 'a list \<Rightarrow> bool" where
  "ends_with s p \<longleftrightarrow> starts_with (rev s) (rev p)"

definition isHighRiskDirectScript :: "string \<Rightarrow> bool" where
  "isHighRiskDirectScript baseCommand \<longleftrightarrow>
     starts_with baseCommand ''./'' \<or> ends_with baseCommand ''.sh'' \<or> ends_with baseCommand ''.py'' \<or>
     ends_with baseCommand ''.rb'' \<or> ends_with baseCommand ''.pl'' \<or> ends_with baseCommand ''.ps1'' \<or>
     ends_with baseCommand ''.bat'' \<or> ends_with baseCommand ''.cmd''"

definition dangerousVars :: "string list" where
  "dangerousVars =
     [''PATH'', ''LD_PRELOAD'', ''LD_LIBRARY_PATH'', ''PYTHONPATH'', ''NODE_PATH'', ''PERL5LIB'', ''RUBYLIB'']"

definition isHighRiskEnvironmentModifier :: "string \<Rightarrow> string list \<Rightarrow> bool" where
  "isHighRiskEnvironmentModifier baseCommand args \<longleftrightarrow>
     (baseCommand = ''export'' \<or> baseCommand = ''setx'' \<or> baseCommand = ''set'') \<and>
     list_ex (\<lambda>arg. list_ex (js_includes arg) dangerousVars) args"

definition isHighRiskProcessCommand :: "string \<Rightarrow> bool" where
  "isHighRiskProcessCommand baseCommand \<longleftrightarrow>
     baseCommand \<in> set [''kill'', ''killall'', ''pkill'', ''taskkill'', ''pskill'']"

definition isHighRiskSystemService :: "string \<Rightarrow> bool" where
  "isHighRiskSystemService baseCommand \<longleftrightarrow>
     baseCommand = ''systemctl'' \<or> baseCommand = ''service'' \<or> baseCommand = ''launchctl'' \<or>
     baseCommand = ''sc''"

definition sensitiveLocations :: "string list" where
  "sensitiveLocations =
     [''/etc/'', ''/usr/'', ''/bin/'', ''/sbin/'', ''c:'' @ [CHR 0x5C] @ ''windows'',
      ''c:'' @ [CHR 0x5C] @ ''program'']"

definition isHighRiskFileOperation :: "string \<Rightarrow> string list \<Rightarrow> bool" where
  "isHighRiskFileOperation baseCommand args \<longleftrightarrow>
     (baseCommand = ''mv'' \<or> baseCommand = ''cp'' \<or> baseCommand = ''copy'') \<and>
     list_ex (\<lambda>arg. list_ex (js_includes (to_lower arg)) sensitiveLocations) args"

definition isHighRiskRmCommand :: "string \<Rightarrow> string list \<Rightarrow> bool" where
  "isHighRiskRmCommand baseCommand args \<longleftrightarrow>
     baseCommand = ''rm'' \<and>
     \<not> list_ex (\<lambda>arg. arg = ''-rf'' \<or> arg = ''-fr'') args \<and>
     \<not> list_ex (\<lambda>arg. list_ex (js_includes arg) [''/etc/'', ''/usr/'', ''/bin/'', ''/sbin/'']) args"

text \<open>
  The argument of an option is looked at where the option stands: \<open>-C /path\<close>, or
  \<open>-C/path\<close> in one word.
\<close>

fun extracts_to_system :: "string list \<Rightarrow> bool" where
  "extracts_to_system [] = False"
| "extracts_to_system (arg # rest) =
     ((if (arg = ''-C'' \<or> arg = ''-d'' \<or> arg = ''-o'') \<and> rest \<noteq> [] then
         starts_with (hd rest) ''/'' \<or> starts_with (hd rest) (''C:'' @ [CHR 0x5C])
       else starts_with arg ''-C/'' \<or> starts_with arg ''-d/'' \<or> starts_with arg ''-o/'') \<or>
      extracts_to_system rest)"

definition isHighRiskArchiveExtraction :: "string \<Rightarrow> string list \<Rightarrow> bool" where
  "isHighRiskArchiveExtraction baseCommand args \<longleftrightarrow>
     (baseCommand = ''tar'' \<or> baseCommand = ''unzip'' \<or> baseCommand = ''7z'') \<and>
     extracts_to_system args"

definition isHighRiskContainerCommand :: "string \<Rightarrow> bool" where
  "isHighRiskContainerCommand baseCommand \<longleftrightarrow>
     baseCommand \<in> set [''docker'', ''podman'', ''kubectl'', ''helm'', ''terraform'', ''vagrant'']"

definition isHighRiskCloudCLI :: "string \<Rightarrow> bool" where
  "isHighRiskCloudCLI baseCommand \<longleftrightarrow>
     baseCommand \<in> set [''aws'', ''gcloud'', ''az'', ''oci'', ''ibmcloud'']"

definition isHighRiskUserCommand :: "string \<Rightarrow> bool" where
  "isHighRiskUserCommand baseCommand \<longleftrightarrow>
     baseCommand \<in> set [''useradd'', ''usermod'', ''userdel'', ''groupadd'', ''passwd'', ''chpasswd'']"

definition isHighRiskScheduledTask :: "string \<Rightarrow> bool" where
  "isHighRiskScheduledTask baseCommand \<longleftrightarrow>
     baseCommand = ''crontab'' \<or> baseCommand = ''at'' \<or> baseCommand = ''schtasks''"

definition isHighRiskWindowsRegistry :: "string \<Rightarrow> bool" where
  "isHighRiskWindowsRegistry baseCommand \<longleftrightarrow>
     baseCommand = ''reg'' \<or> baseCommand = ''regedit'' \<or> baseCommand = ''regsvr32''"

definition isHighRiskWindowsManagement :: "string \<Rightarrow> bool" where
  "isHighRiskWindowsManagement baseCommand \<longleftrightarrow>
     baseCommand = ''wmic'' \<or> baseCommand = ''net'' \<or> baseCommand = ''netsh''"

definition isHighRiskSecurityTool :: "string \<Rightarrow> bool" where
  "isHighRiskSecurityTool baseCommand \<longleftrightarrow> baseCommand = ''certutil'' \<or> baseCommand = ''bitsadmin''"

definition isHighRiskSourceCommand :: "string \<Rightarrow> bool" where
  "isHighRiskSourceCommand baseCommand \<longleftrightarrow> baseCommand = ''source'' \<or> baseCommand = ''.''"

definition isHighRiskHistoryManipulation :: "string \<Rightarrow> string list \<Rightarrow> bool" where
  "isHighRiskHistoryManipulation baseCommand args \<longleftrightarrow>
     baseCommand = ''history'' \<and> ''-c'' \<in> set args \<or>
     baseCommand = ''unset'' \<and> list_ex (\<lambda>arg. js_includes arg ''HIST'') args"

definition isHighRiskDNSTool :: "string \<Rightarrow> bool" where
  "isHighRiskDNSTool baseCommand \<longleftrightarrow>
     baseCommand = ''dig'' \<or> baseCommand = ''nslookup'' \<or> baseCommand = ''host''"

definition isHighRiskMacOSCommand :: "string \<Rightarrow> string list \<Rightarrow> bool" where
  "isHighRiskMacOSCommand baseCommand args \<longleftrightarrow>
     baseCommand = ''defaults'' \<and> list_ex (\<lambda>arg. js_includes arg ''/Library/'') args \<or>
     baseCommand = ''pmset'' \<or> baseCommand = ''csrutil''"

text \<open>\<open>\w\<close>, and the three patterns of a function definition.\<close>

definition word_char :: "char \<Rightarrow> bool" where
  "word_char c = (let n = (of_char c :: nat) in
     48 \<le> n \<and> n \<le> 57 \<or> 65 \<le> n \<and> n \<le> 90 \<or> n = 95 \<or> 97 \<le> n \<and> n \<le> 122)"

text \<open>\<open>p+\<close> at the start of the text: the rest after it, if there is at least one.\<close>

definition many1 :: "(char \<Rightarrow> bool) \<Rightarrow> string \<Rightarrow> string option" where
  "many1 p s = (if s \<noteq> [] \<and> p (hd s) then Some (dropWhile p s) else None)"

text \<open>A literal at the start of the text: the rest after it.\<close>

definition lit :: "string \<Rightarrow> string \<Rightarrow> string option" where
  "lit p s = (if starts_with s p then Some (drop (length p) s) else None)"

definition name_parens_brace :: "string \<Rightarrow> bool" where
  "name_parens_brace s \<longleftrightarrow>
     Option.bind (many1 word_char (dropWhile js_ws s)) (\<lambda>r1.
     Option.bind (lit ''()'' (dropWhile js_ws r1)) (\<lambda>r2.
     lit ''{'' (dropWhile js_ws r2))) \<noteq> None"

definition function_name :: "string \<Rightarrow> string option" where
  "function_name s =
     Option.bind (lit ''function'' (dropWhile js_ws s)) (\<lambda>r1.
     Option.bind (many1 js_ws r1) (\<lambda>r2.
     map_option (dropWhile js_ws) (many1 word_char r2)))"

definition isFunctionDefinition :: "string list \<Rightarrow> string \<Rightarrow> bool" where
  "isFunctionDefinition tokens originalCommand \<longleftrightarrow>
     tokens \<noteq> [] \<and> hd tokens = ''function'' \<or>
     name_parens_brace originalCommand \<or>
     Option.bind (function_name originalCommand) (lit ''{'') \<noteq> None \<or>
     Option.bind (function_name originalCommand) (lit ''()'') \<noteq> None"

definition isHighRiskCommand :: "string \<Rightarrow> string list \<Rightarrow> string \<Rightarrow> bool" where
  "isHighRiskCommand baseCommand args originalCommand \<longleftrightarrow>
     isHighRiskPackageManager baseCommand args \<or>
     isHighRiskNetworkTool baseCommand \<or>
     isHighRiskScriptInterpreter baseCommand args \<or>
     isHighRiskDirectScript baseCommand \<or>
     isHighRiskEnvironmentModifier baseCommand args \<or>
     baseCommand = ''alias'' \<or>
     isFunctionDefinition (baseCommand # args) originalCommand \<or>
     isHighRiskProcessCommand baseCommand \<or>
     isHighRiskSystemService baseCommand \<or>
     isHighRiskFileOperation baseCommand args \<or>
     isHighRiskRmCommand baseCommand args \<or>
     isHighRiskArchiveExtraction baseCommand args \<or>
     isHighRiskContainerCommand baseCommand \<or>
     isHighRiskCloudCLI baseCommand \<or>
     isHighRiskUserCommand baseCommand \<or>
     isHighRiskScheduledTask baseCommand \<or>
     isHighRiskWindowsRegistry baseCommand \<or>
     isHighRiskWindowsManagement baseCommand \<or>
     isHighRiskSecurityTool baseCommand \<or>
     isHighRiskSourceCommand baseCommand \<or>
     isHighRiskHistoryManipulation baseCommand args \<or>
     isHighRiskDNSTool baseCommand \<or>
     isHighRiskMacOSCommand baseCommand args"

section \<open>Safe commands\<close>

definition infoCommands :: "string list" where
  "infoCommands =
     [''ls'', ''dir'', ''pwd'', ''whoami'', ''id'', ''hostname'', ''uname'', ''date'', ''uptime'', ''df'',
      ''du'', ''free'', ''top'', ''htop'', ''ps'', ''jobs'', ''which'', ''whereis'', ''type'', ''file'',
      ''stat'', ''wc'', ''head'', ''tail'']"

definition readCommands :: "string list" where
  "readCommands = [''cat'', ''less'', ''more'', ''nl'', ''od'', ''strings'']"

definition safe_find :: "string list \<Rightarrow> bool" where
  "safe_find args \<longleftrightarrow>
     \<not> list_ex (\<lambda>arg. arg \<in> set [''-exec'', ''-execdir'', ''-ok'', ''-okdir'', ''-delete'']) args"

definition safe_git :: "string list \<Rightarrow> bool" where
  "safe_git args \<longleftrightarrow>
     args \<noteq> [] \<and> hd args \<in> set [''status'', ''log'', ''diff'', ''show'', ''branch'', ''remote'']"

definition safe_npm :: "string list \<Rightarrow> bool" where
  "safe_npm args \<longleftrightarrow>
     args \<noteq> [] \<and> hd args \<in> set [''test'', ''build'', ''start'', ''run''] \<and>
     1 < length args \<and>
     args ! 1 \<notin> set [''preinstall'', ''postinstall'', ''prepare'', ''prepublish'']"

definition safe_build :: "string list \<Rightarrow> bool" where
  "safe_build args \<longleftrightarrow>
     list_ex (\<lambda>arg. arg \<in> set [''build'', ''compile'', ''test'', ''check'', ''clean'']) args"

fun changes_to_system :: "string list \<Rightarrow> bool" where
  "changes_to_system [] = False"
| "changes_to_system (arg # rest) =
     (arg = ''-C'' \<and> rest \<noteq> [] \<and> starts_with (hd rest) ''/'' \<or> starts_with arg ''-C/'' \<or>
      changes_to_system rest)"

definition safe_tar :: "string list \<Rightarrow> bool" where
  "safe_tar args \<longleftrightarrow> list_ex (\<lambda>arg. js_includes arg ''c'') args \<and> \<not> changes_to_system args"

definition isSafeCommand :: "string \<Rightarrow> string list \<Rightarrow> bool" where
  "isSafeCommand baseCommand args =
     (if baseCommand \<in> set infoCommands then True
      else if baseCommand \<in> set readCommands then True
      else if baseCommand = ''echo'' then True
      else if baseCommand = ''grep'' \<and> ''--exec'' \<notin> set args then True
      else if baseCommand = ''find'' \<and> safe_find args then True
      else if baseCommand = ''git'' \<and> safe_git args then True
      else if (baseCommand = ''npm'' \<or> baseCommand = ''yarn'' \<or> baseCommand = ''pnpm'') \<and> safe_npm args then True
      else if baseCommand \<in> set [''make'', ''gradle'', ''mvn'', ''cargo''] \<and> safe_build args then True
      else if baseCommand = ''tar'' \<and> safe_tar args then True
      else if baseCommand = ''zip'' \<and> \<not> list_ex (\<lambda>arg. starts_with arg ''-d/'') args then True
      else False)"

section \<open>One simple command\<close>

definition evaluateSingleCommand :: "string list \<Rightarrow> string \<Rightarrow> tool_policy" where
  "evaluateSingleCommand commandTokens originalCommand =
     (case commandTokens of
        [] \<Rightarrow> AllowedWithoutPermission
      | c # args \<Rightarrow>
          (let baseCommand = to_lower c in
           if isCriticalCommand baseCommand args then Disabled
           else if starts_with baseCommand ''$'' then AllowedWithPermission
           else if isHighRiskCommand baseCommand args originalCommand then AllowedWithPermission
           else if isSafeCommand baseCommand args then AllowedWithoutPermission
           else AllowedWithPermission))"

end
