(* ===== verification/Terminal_Security.thy ===== *)
theory Terminal_Security
  imports Command_Rules
begin

text \<open>
  \<open>evaluateTerminalCommandSecurity\<close>: the policy of a whole command line, from the tokens
  of its lines, the commands substituted into it and the signs of obfuscation. The tokenizer
  is the third-party \<open>parse\<close> of shell-quote: a parameter that gives the tokens of a line or
  \<open>None\<close> where it throws. The recursion into substituted commands has a termination proof:
  an extracted command is shorter than the line it stands in.
\<close>

section \<open>Tokens\<close>

text \<open>\<open>ParsedToken\<close>; an operator is an object with an \<open>op\<close> other than \<open>glob\<close>.\<close>

datatype parsed_token = Plain string | Operator string | Glob string | Comment string

primrec isOperator :: "parsed_token \<Rightarrow> bool" where
  "isOperator (Plain w) = False"
| "isOperator (Operator op) = True"
| "isOperator (Glob p) = False"
| "isOperator (Comment c) = False"

text \<open>What the loops push for a token that is not an operator; a comment is skipped.\<close>

primrec token_words :: "parsed_token \<Rightarrow> string list" where
  "token_words (Plain w) = [w]"
| "token_words (Operator op) = []"
| "token_words (Glob p) = [p]"
| "token_words (Comment c) = []"

section \<open>Signs in the text of the command\<close>

text \<open>A pattern without anchor matches if it matches at some position.\<close>

fun some_suffix :: "(string \<Rightarrow> bool) \<Rightarrow> string \<Rightarrow> bool" where
  "some_suffix p [] = p []"
| "some_suffix p (c # s) = (p (c # s) \<or> some_suffix p s)"

definition hasCommandSubstitution :: "string \<Rightarrow> bool" where
  "hasCommandSubstitution command \<longleftrightarrow>
     js_includes command [CHR 0x60] \<or> js_includes command ''$('' \<or>
     some_suffix (\<lambda>s. starts_with s ''<('' \<or> starts_with s ''>('') command"

definition hex_digit :: "char \<Rightarrow> bool" where
  "hex_digit c = (let n = (of_char c :: nat) in
     48 \<le> n \<and> n \<le> 57 \<or> 65 \<le> n \<and> n \<le> 70 \<or> 97 \<le> n \<and> n \<le> 102)"

definition octal_digit :: "char \<Rightarrow> bool" where
  "octal_digit c = (let n = (of_char c :: nat) in 48 \<le> n \<and> n \<le> 55)"

text \<open>\<open>p{k}\<close> at the start of the text.\<close>

definition exactly :: "nat \<Rightarrow> (char \<Rightarrow> bool) \<Rightarrow> string \<Rightarrow> bool" where
  "exactly k p s \<longleftrightarrow> k \<le> length s \<and> list_all p (take k s)"

definition base64_decode :: "string \<Rightarrow> bool" where
  "base64_decode s \<longleftrightarrow>
     (case Option.bind (lit ''base64'' s) (many1 js_ws) of
        None \<Rightarrow> False
      | Some r \<Rightarrow> starts_with r ''-d'' \<or> starts_with r ''--decode'')"

text \<open>A backslash, one of the letters, and \<open>k\<close> characters of the class.\<close>

definition escape :: "string \<Rightarrow> nat \<Rightarrow> (char \<Rightarrow> bool) \<Rightarrow> string \<Rightarrow> bool" where
  "escape letters k p s =
     (case s of
        b # l # r \<Rightarrow> b = CHR 0x5C \<and> l \<in> set letters \<and> exactly k p r
      | _ \<Rightarrow> False)"

definition octal_escape :: "string \<Rightarrow> bool" where
  "octal_escape s = (case s of [] \<Rightarrow> False | b # r \<Rightarrow> b = CHR 0x5C \<and> exactly 3 octal_digit r)"

definition any_escape :: "string \<Rightarrow> bool" where
  "any_escape s = escape ''xnu01234567'' 0 (\<lambda>_. True) s"

definition hasObfuscationPatterns :: "string \<Rightarrow> bool" where
  "hasObfuscationPatterns command \<longleftrightarrow>
     some_suffix base64_decode command \<or>
     some_suffix (escape ''xX'' 2 hex_digit) command \<or>
     some_suffix (escape ''uU'' 4 hex_digit) command \<or>
     some_suffix octal_escape command \<or>
     js_includes command ''echo'' \<and> js_includes command ''-e'' \<and> some_suffix any_escape command \<or>
     js_includes command ''printf'' \<and> some_suffix any_escape command \<or>
     js_includes command ''xxd'' \<and> js_includes command ''-r'' \<or>
     js_includes command ''od'' \<and> (js_includes command ''-x'' \<or> js_includes command ''-o'')"

section \<open>Substituted commands\<close>

text \<open>
  All matches of the global pattern for a text between two back quotes: at a back quote
  that a nonempty text and a second back quote follow, the search goes on behind the second.
\<close>

fun backtick_commands :: "string \<Rightarrow> string list" where
  "backtick_commands [] = []"
| "backtick_commands (c # s) =
     (let x = takeWhile (\<lambda>d. d \<noteq> CHR 0x60) s; r = dropWhile (\<lambda>d. d \<noteq> CHR 0x60) s in
      if c = CHR 0x60 \<and> x \<noteq> [] \<and> r \<noteq> [] then x # backtick_commands (drop (length x + 1) s)
      else backtick_commands s)"

text \<open>
  The inner loop: the text up to the parenthesis that closes depth \<open>d\<close> and the rest behind
  it; \<open>None\<close> if the text ends before.
\<close>

fun matching_paren :: "nat \<Rightarrow> string \<Rightarrow> (string \<times> string) option" where
  "matching_paren d [] = None"
| "matching_paren d (c # s) =
     (if c = CHR ''('' then map_option (apfst (Cons c)) (matching_paren (d + 1) s)
      else if c = CHR '')'' then
        (if d = 1 then Some ([], s) else map_option (apfst (Cons c)) (matching_paren (d - 1) s))
      else map_option (apfst (Cons c)) (matching_paren d s))"

lemma matching_paren_parts: "matching_paren d s = Some (x, r) \<Longrightarrow> s = x @ CHR '')'' # r"
  by (induction d s arbitrary: x rule: matching_paren.induct) (auto split: if_splits)

text \<open>The outer loop, from the position \<open>idx\<close> on (the text \<open>s\<close>).\<close>

function paren_commands :: "string \<Rightarrow> string list" where
  "paren_commands s =
     (case index_of s ''$('' of
        None \<Rightarrow> []
      | Some i \<Rightarrow>
          (case matching_paren 1 (drop (i + 2) s) of
             None \<Rightarrow> []
           | Some (x, r) \<Rightarrow> x # paren_commands r))"
  by pat_completeness auto
termination
  by (relation "measure length") (auto dest!: matching_paren_parts index_of_Some arg_cong [of _ _ length])

declare paren_commands.simps [simp del]

lemma backtick_shorter: "x \<in> set (backtick_commands s) \<Longrightarrow> length x < length s"
proof (induction s rule: backtick_commands.induct)
  case (2 c s)
  show ?case
    using 2 length_takeWhile_le [of "\<lambda>d. d \<noteq> CHR 0x60" s]
    by (fastforce simp: Let_def split: if_splits)
qed simp

lemma paren_shorter: "x \<in> set (paren_commands s) \<Longrightarrow> length x < length s"
proof (induction s rule: paren_commands.induct)
  case (1 s)
  obtain i y r where i: "index_of s ''$('' = Some i" "matching_paren 1 (drop (i + 2) s) = Some (y, r)"
    and x: "x = y \<or> x \<in> set (paren_commands r)"
    using 1(2) paren_commands.simps [of s] by (auto split: option.splits)
  have l: "length s = length y + length r + i + 3"
    using arg_cong [OF matching_paren_parts [OF i(2)], of length] index_of_Some [OF i(1)] by simp
  from x show ?case
  proof
    assume "x \<in> set (paren_commands r)"
    from 1(1) [OF i(1) i(2) refl this] l show ?thesis by simp
  qed (use l in simp)
qed

function extractSubstitutedCommands :: "string \<Rightarrow> string list" where
  "extractSubstitutedCommands command =
     backtick_commands command @
     concat (map (\<lambda>extracted.
         extracted #
         (if js_includes extracted ''$('' \<or> js_includes extracted [CHR 0x60]
          then extractSubstitutedCommands extracted else []))
       (paren_commands command))"
  by pat_completeness auto
termination
  by (relation "measure length") (auto dest: paren_shorter)

declare extractSubstitutedCommands.simps [simp del]

lemma extracted_shorter: "x \<in> set (extractSubstitutedCommands s) \<Longrightarrow> length x < length s"
proof (induction s rule: extractSubstitutedCommands.induct)
  case (1 s)
  from 1(2) consider "x \<in> set (backtick_commands s)" | "x \<in> set (paren_commands s)"
    | y where "y \<in> set (paren_commands s)" "js_includes y ''$('' \<or> js_includes y [CHR 0x60]"
      "x \<in> set (extractSubstitutedCommands y)"
    using extractSubstitutedCommands.simps [of s] by (auto split: if_splits)
  then show ?case
  proof cases
    case 3
    from 1(1) [OF this] paren_shorter [OF this(1)] show ?thesis by simp
  qed (simp_all add: backtick_shorter paren_shorter)
qed

section \<open>The evaluation\<close>

text \<open>The command after a pipe: what stands up to the next operator.\<close>

definition next_command :: "parsed_token list \<Rightarrow> string list" where
  "next_command after_pipe =
     concat (map token_words (takeWhile (Not \<circ> isOperator) (dropWhile isOperator after_pipe)))"

definition evaluatePipeChain :: "parsed_token list \<Rightarrow> tool_policy" where
  "evaluatePipeChain after_pipe =
     (case next_command after_pipe of
        [] \<Rightarrow> AllowedWithoutPermission
      | c # _ \<Rightarrow>
          (let command = to_lower c in
           if command \<in> set [''sh'', ''bash'', ''zsh'', ''python'', ''perl'', ''ruby'', ''node'']
           then AllowedWithPermission
           else if command = ''curl'' \<or> command = ''wget'' \<or> command = ''nc'' \<or> command = ''netcat''
           then AllowedWithPermission
           else AllowedWithoutPermission))"

text \<open>
  The loop over the tokens, with \<open>mostRestrictivePolicy\<close> and \<open>currentCommand\<close>;
  \<open>Inl\<close> is the early return.
\<close>

fun tokens_loop ::
  "string \<Rightarrow> parsed_token list \<Rightarrow> tool_policy \<Rightarrow> string list \<Rightarrow> tool_policy + tool_policy \<times> string list"
  where
  "tokens_loop orig [] p cur = Inr (p, cur)"
| "tokens_loop orig (Comment c # ts) p cur = tokens_loop orig ts p cur"
| "tokens_loop orig (Glob w # ts) p cur = tokens_loop orig ts p (cur @ [w])"
| "tokens_loop orig (Plain w # ts) p cur = tokens_loop orig ts p (cur @ [w])"
| "tokens_loop orig (Operator op # ts) p cur =
     (let p1 = (if cur \<noteq> [] then getMostRestrictive [p, evaluateSingleCommand cur orig] else p) in
      if cur \<noteq> [] \<and> p1 = Disabled then Inl Disabled
      else if op = ''|'' then
        (let p2 = getMostRestrictive [p1, evaluatePipeChain ts] in
         if p2 = Disabled then Inl Disabled else tokens_loop orig ts p2 [])
      else tokens_loop orig ts p1 [])"

text \<open>The loop over the substituted commands; \<open>nested\<close> evaluates one of them.\<close>

fun substituted_loop ::
  "(string \<Rightarrow> tool_policy) \<Rightarrow> string list \<Rightarrow> tool_policy \<Rightarrow> tool_policy + tool_policy" where
  "substituted_loop nested [] p = Inr p"
| "substituted_loop nested (subCmd # rest) p =
     (let p1 = getMostRestrictive [p, nested subCmd] in
      if p1 = Disabled then Inl Disabled else substituted_loop nested rest p1)"

definition check_substitution ::
  "(string \<Rightarrow> tool_policy) \<Rightarrow> string \<Rightarrow> tool_policy \<Rightarrow> tool_policy + tool_policy" where
  "check_substitution nested orig p =
     (if hasCommandSubstitution orig then
        (case substituted_loop nested (extractSubstitutedCommands orig) p of
           Inl d \<Rightarrow> Inl d
         | Inr q \<Rightarrow> Inr (if q = AllowedWithoutPermission then AllowedWithPermission else q))
      else Inr p)"

definition check_obfuscation :: "string \<Rightarrow> tool_policy \<Rightarrow> tool_policy" where
  "check_obfuscation orig p =
     (if hasObfuscationPatterns orig then getMostRestrictive [p, AllowedWithPermission] else p)"

definition evaluateTokens ::
  "(string \<Rightarrow> tool_policy) \<Rightarrow> parsed_token list \<Rightarrow> tool_policy \<Rightarrow> string \<Rightarrow> tool_policy" where
  "evaluateTokens nested tokens basePolicy orig =
     (case tokens_loop orig tokens basePolicy [] of
        Inl d \<Rightarrow> d
      | Inr (p, cur) \<Rightarrow>
          (let p1 = (if cur \<noteq> [] then getMostRestrictive [p, evaluateSingleCommand cur orig] else p) in
           case check_substitution nested orig p1 of
             Inl d \<Rightarrow> d
           | Inr p2 \<Rightarrow> check_obfuscation orig p2))"

definition variable_pattern :: "string \<Rightarrow> bool" where
  "variable_pattern s =
     (case s of a # b # _ \<Rightarrow> a = CHR ''$'' \<and> (word_char b \<or> b = CHR ''{'') | _ \<Rightarrow> False)"

text \<open>Whether an empty word is taken for an expanded variable.\<close>

definition expands_variable :: "parsed_token list \<Rightarrow> string \<Rightarrow> bool" where
  "expands_variable tokens orig \<longleftrightarrow>
     Plain [] \<in> set tokens \<and>
     (\<not> (js_includes orig [CHR 0x22, CHR 0x22] \<or> js_includes orig [CHR 0x27, CHR 0x27]) \<or>
      some_suffix variable_pattern orig)"

definition evaluateTokensSecurity ::
  "(string \<Rightarrow> tool_policy) \<Rightarrow> parsed_token list \<Rightarrow> tool_policy \<Rightarrow> string \<Rightarrow> tool_policy" where
  "evaluateTokensSecurity nested tokens basePolicy orig =
     (if expands_variable tokens orig then
        (let policyWithEmpty = evaluateTokens nested tokens basePolicy orig;
             tokensWithoutEmpty = filter (\<lambda>t. t \<noteq> Plain []) tokens;
             policyWithoutEmpty =
               (if tokensWithoutEmpty \<noteq> [] then evaluateTokens nested tokensWithoutEmpty basePolicy orig
                else basePolicy)
         in getMostRestrictive [policyWithEmpty, policyWithoutEmpty, AllowedWithPermission])
      else evaluateTokens nested tokens basePolicy orig)"

definition evaluate_line ::
  "(string \<Rightarrow> parsed_token list option) \<Rightarrow> (string \<Rightarrow> tool_policy) \<Rightarrow> tool_policy \<Rightarrow> string \<Rightarrow> tool_policy option"
  where
  "evaluate_line parse nested basePolicy line =
     map_option (\<lambda>tokens. evaluateTokensSecurity nested tokens basePolicy line) (parse line)"

text \<open>The loop over the lines; \<open>None\<close> where the tokenizer throws on a line.\<close>

fun lines_loop :: "(string \<Rightarrow> tool_policy option) \<Rightarrow> string list \<Rightarrow> tool_policy \<Rightarrow> tool_policy option" where
  "lines_loop ev [] p = Some p"
| "lines_loop ev (line # rest) p =
     (let trimmedLine = trim line in
      if trimmedLine = [] then lines_loop ev rest p
      else (case ev trimmedLine of
          None \<Rightarrow> None
        | Some linePolicy \<Rightarrow>
            (let p1 = getMostRestrictive [p, linePolicy] in
             if p1 = Disabled then Some Disabled else lines_loop ev rest p1)))"

lemma substituted_loop_cong [fundef_cong]:
  "xs = ys \<Longrightarrow> p = q \<Longrightarrow> (\<And>x. x \<in> set ys \<Longrightarrow> f x = g x) \<Longrightarrow>
   substituted_loop f xs p = substituted_loop g ys q"
  by (induction f xs p arbitrary: ys q rule: substituted_loop.induct) (auto simp: Let_def)

lemma evaluate_line_cong [fundef_cong]:
  assumes "parse = parse'" "base = base'" "line = line'"
    and "\<And>x. x \<in> set (extractSubstitutedCommands line') \<Longrightarrow> f x = g x"
  shows "evaluate_line parse f base line = evaluate_line parse' g base' line'"
proof -
  have sub: "check_substitution f line' = check_substitution g line'"
    using assms(4) by (auto simp: check_substitution_def fun_eq_iff cong: substituted_loop_cong)
  have "evaluateTokens f ts base line = evaluateTokens g ts base' line'" for ts
    unfolding evaluateTokens_def assms(2,3) sub by (rule refl)
  note tokens = this
  have "evaluateTokensSecurity f ts base line = evaluateTokensSecurity g ts base' line'" for ts
    unfolding evaluateTokensSecurity_def tokens unfolding assms(2,3) by (rule refl)
  then show ?thesis
    using assms(1,3) by (simp add: evaluate_line_def)
qed

lemma lines_loop_cong [fundef_cong]:
  "ls = ks \<Longrightarrow> p = q \<Longrightarrow> (\<And>l. l \<in> set ks \<Longrightarrow> f (trim l) = g (trim l)) \<Longrightarrow>
   lines_loop f ls p = lines_loop g ks q"
  by (induction f ls p arbitrary: ks q rule: lines_loop.induct)
    (auto simp: Let_def split: option.splits)

lemma length_trim_le: "length (trim s) \<le> length s"
  using length_dropWhile_le [of js_ws s] length_dropWhile_le [of js_ws "rev (dropWhile js_ws s)"]
  by (simp add: trim_def trim_end_def trim_start_def)

lemma split_breaks_step:
  "l \<in> set (split_breaks (c # s)) \<Longrightarrow>
   l = [] \<or> l \<in> set (split_breaks (drop 1 s)) \<or> l \<in> set (split_breaks s) \<or>
   (\<exists>w. l = c # w \<and> (w = [] \<or> w \<in> set (split_breaks s)))"
  by (cases "split_breaks s") (simp_all split: if_split_asm, blast+)

lemma split_breaks_le: "l \<in> set (split_breaks s) \<Longrightarrow> length l \<le> length s"
proof (induction s arbitrary: l rule: length_induct)
  case (1 s)
  show ?case
  proof (cases s)
    case (Cons c r)
    have ih: "length w \<le> length t" if "w \<in> set (split_breaks t)" "length t \<le> length r" for w t
      using 1(1) that Cons by (simp add: less_Suc_eq_le)
    from split_breaks_step [of l c r] 1(2) Cons
    consider "l = []" | "l \<in> set (split_breaks (drop 1 r))" | "l \<in> set (split_breaks r)"
      | w where "l = c # w" "w = [] \<or> w \<in> set (split_breaks r)" by blast
    then show ?thesis
      using ih [of l "drop 1 r"] ih [of l r] ih [of _ r] Cons by cases (auto intro: le_SucI)
  qed (use 1(2) in simp)
qed

text \<open>A command that is null, undefined or not a string is \<open>None\<close>.\<close>

function evaluateTerminalCommandSecurity ::
  "(string \<Rightarrow> parsed_token list option) \<Rightarrow> tool_policy \<Rightarrow> string option \<Rightarrow> tool_policy" where
  "evaluateTerminalCommandSecurity parse basePolicy command =
     (if basePolicy = Disabled then Disabled
      else (case command of
          None \<Rightarrow> basePolicy
        | Some c \<Rightarrow>
            if c = [] then basePolicy
            else if trim c = [] then basePolicy
            else (case
                (if 1 < length (split_breaks (trim c))
                 then lines_loop
                   (\<lambda>line. evaluate_line parse
                      (\<lambda>subCmd. evaluateTerminalCommandSecurity parse basePolicy (Some subCmd))
                      basePolicy line)
                   (split_breaks (trim c)) basePolicy
                 else evaluate_line parse
                      (\<lambda>subCmd. evaluateTerminalCommandSecurity parse basePolicy (Some subCmd))
                      basePolicy (trim c)) of
                None \<Rightarrow> AllowedWithPermission
              | Some p \<Rightarrow> p)))"
  by pat_completeness auto
termination
proof (relation "measure (\<lambda>(parse, base, command). case command of None \<Rightarrow> 0 | Some c \<Rightarrow> length c)", goal_cases)
  case (2 parse base command c l x)
  then show ?case
    using extracted_shorter [of x "trim l"] length_trim_le [of l] length_trim_le [of c] split_breaks_le [of l "trim c"]
    by simp
next
  case (3 parse base command c x)
  then show ?case
    using extracted_shorter [of x "trim c"] length_trim_le [of c] by simp
qed simp

declare evaluateTerminalCommandSecurity.simps [simp del]

section \<open>What the loops compute\<close>

text \<open>
  The simple commands of a token list, cut at the operators, and the policies of its pipes.
\<close>

fun simple_commands :: "string list \<Rightarrow> parsed_token list \<Rightarrow> string list list" where
  "simple_commands cur [] = (if cur = [] then [] else [cur])"
| "simple_commands cur (t # ts) =
     (if isOperator t then (if cur = [] then [] else [cur]) @ simple_commands [] ts
      else simple_commands (cur @ token_words t) ts)"

fun pipe_policies :: "parsed_token list \<Rightarrow> tool_policy list" where
  "pipe_policies [] = []"
| "pipe_policies (t # ts) =
     (if t = Operator ''|'' then evaluatePipeChain ts # pipe_policies ts else pipe_policies ts)"

definition command_policies :: "string \<Rightarrow> string list \<Rightarrow> parsed_token list \<Rightarrow> tool_policy" where
  "command_policies orig cur ts =
     getMostRestrictive (map (\<lambda>c. evaluateSingleCommand c orig) (simple_commands cur ts) @ pipe_policies ts)"

definition rest_policy :: "string \<Rightarrow> string list \<Rightarrow> tool_policy" where
  "rest_policy orig cur = (if cur \<noteq> [] then evaluateSingleCommand cur orig else AllowedWithoutPermission)"

lemma command_policies_simps [simp]:
  "command_policies orig cur [] = rest_policy orig cur"
  "command_policies orig cur (Comment c # ts) = command_policies orig cur ts"
  "command_policies orig cur (Glob w # ts) = command_policies orig (cur @ [w]) ts"
  "command_policies orig cur (Plain w # ts) = command_policies orig (cur @ [w]) ts"
  "command_policies orig cur (Operator op # ts) =
     max (rest_policy orig cur)
       (max (if op = ''|'' then evaluatePipeChain ts else AllowedWithoutPermission) (command_policies orig [] ts))"
  by (simp_all add: command_policies_def rest_policy_def max.left_commute max.assoc)

lemma rest_policy_max:
  "(if cur \<noteq> [] then getMostRestrictive [p, evaluateSingleCommand cur orig] else p) = max p (rest_policy orig cur)"
  by (simp add: rest_policy_def)

text \<open>The early returns change nothing: the loop computes the greatest of the policies.\<close>

lemma tokens_loop_max:
  "(case tokens_loop orig ts p cur of Inl d \<Rightarrow> d | Inr (q, c) \<Rightarrow> max q (rest_policy orig c)) =
   max p (command_policies orig cur ts)"
proof (induction orig ts p cur rule: tokens_loop.induct)
  case (5 orig op ts p cur)
  show ?case
  proof (cases "max p (rest_policy orig cur) = Disabled")
    case True
    have "cur = [] \<Longrightarrow> rest_policy orig cur = AllowedWithoutPermission"
      by (simp add: rest_policy_def)
    then show ?thesis
      using 5 True unfolding tokens_loop.simps rest_policy_max Let_def
      by (cases "cur = []") (auto simp: max.assoc [symmetric])
  next
    case False
    then show ?thesis
      using 5 unfolding tokens_loop.simps rest_policy_max Let_def
      by (simp add: max.assoc [symmetric])
  qed
qed (simp_all add: max.assoc)

lemma substituted_loop_max:
  "(case substituted_loop f xs p of Inl d \<Rightarrow> d | Inr q \<Rightarrow> q) = max p (getMostRestrictive (map f xs))"
proof (induction f xs p rule: substituted_loop.induct)
  case (2 f x xs p)
  then show ?case
    by (cases "max p (f x) = Disabled") (auto simp: Let_def max.assoc [symmetric])
qed simp

lemma tokens_loop_Inl: "tokens_loop orig ts p cur = Inl d \<Longrightarrow> d = Disabled"
  by (induction orig ts p cur rule: tokens_loop.induct) (simp_all add: Let_def split: if_split_asm)

lemma substituted_loop_Inl: "substituted_loop f xs p = Inl d \<Longrightarrow> d = Disabled"
  by (induction f xs p rule: substituted_loop.induct) (simp_all add: Let_def split: if_split_asm)

definition at_least :: "bool \<Rightarrow> tool_policy" where
  "at_least b = (if b then AllowedWithPermission else AllowedWithoutPermission)"

lemma check_substitution_max:
  "(case check_substitution f orig p of Inl d \<Rightarrow> d | Inr q \<Rightarrow> q) =
   max p (if hasCommandSubstitution orig
          then max AllowedWithPermission (getMostRestrictive (map f (extractSubstitutedCommands orig)))
          else AllowedWithoutPermission)"
proof (cases "hasCommandSubstitution orig")
  case True
  define m where "m = getMostRestrictive (map f (extractSubstitutedCommands orig))"
  have m: "max p (max AllowedWithPermission m) =
      (if max p m = AllowedWithoutPermission then AllowedWithPermission else max p m)"
    by (cases p; cases m; simp add: max_def)
  show ?thesis
  proof (cases "substituted_loop f (extractSubstitutedCommands orig) p")
    case (Inl d)
    then have "d = Disabled" "max p m = Disabled"
      using substituted_loop_max [of f "extractSubstitutedCommands orig" p] substituted_loop_Inl [OF Inl]
      by (simp_all add: m_def)
    then show ?thesis using True Inl m by (auto simp: check_substitution_def m_def [symmetric])
  next
    case (Inr q)
    then have "q = max p m"
      using substituted_loop_max [of f "extractSubstitutedCommands orig" p] by (simp add: m_def)
    then show ?thesis using True Inr m by (simp add: check_substitution_def m_def [symmetric])
  qed
qed (simp add: check_substitution_def)

lemma check_substitution_Inl: "check_substitution f orig p = Inl d \<Longrightarrow> d = Disabled"
  by (auto simp: check_substitution_def dest: substituted_loop_Inl split: if_split_asm sum.split_asm)

text \<open>The policy of a token list is the greatest of those of its parts.\<close>

lemma evaluateTokens_max:
  "evaluateTokens f ts base orig =
   max base (max (command_policies orig [] ts)
     (max (if hasCommandSubstitution orig
           then max AllowedWithPermission (getMostRestrictive (map f (extractSubstitutedCommands orig)))
           else AllowedWithoutPermission)
       (at_least (hasObfuscationPatterns orig))))" (is "_ = max base (max ?c (max ?s ?o))")
proof (cases "tokens_loop orig ts base []")
  case (Inl d)
  then show ?thesis
    using tokens_loop_max [of orig ts base "[]"] tokens_loop_Inl [OF Inl]
    by (simp add: evaluateTokens_def max.assoc [symmetric])
next
  case (Inr r)
  obtain q c where r: "r = (q, c)" by (rule prod.exhaust)
  define p where "p = max q (rest_policy orig c)"
  have p: "p = max base ?c" using tokens_loop_max [of orig ts base "[]"] Inr r by (simp add: p_def)
  have "evaluateTokens f ts base orig =
      (case check_substitution f orig p of Inl d \<Rightarrow> d | Inr p2 \<Rightarrow> check_obfuscation orig p2)"
    unfolding evaluateTokens_def Inr r sum.case prod.case rest_policy_max Let_def p_def by (rule refl)
  also have "\<dots> = max (case check_substitution f orig p of Inl d \<Rightarrow> d | Inr p2 \<Rightarrow> p2) ?o"
    by (auto simp: check_obfuscation_def at_least_def dest: check_substitution_Inl split: sum.split)
  also have "\<dots> = max (max p ?s) ?o"
    unfolding check_substitution_max by (rule refl)
  finally show ?thesis unfolding p max.assoc .
qed

text \<open>The simple commands that the evaluation of a line looks at.\<close>

definition line_commands :: "parsed_token list \<Rightarrow> string \<Rightarrow> string list list" where
  "line_commands ts line =
     simple_commands [] ts @
     (if expands_variable ts line then simple_commands [] (filter (\<lambda>t. t \<noteq> Plain []) ts) else [])"

definition line_pipes :: "parsed_token list \<Rightarrow> string \<Rightarrow> tool_policy list" where
  "line_pipes ts line =
     pipe_policies ts @
     (if expands_variable ts line then pipe_policies (filter (\<lambda>t. t \<noteq> Plain []) ts) else [])"

lemma evaluateTokensSecurity_le:
  "evaluateTokensSecurity f ts base line \<le> r \<longleftrightarrow>
     base \<le> r \<and>
     (\<forall>c\<in>set (line_commands ts line). evaluateSingleCommand c line \<le> r) \<and>
     (\<forall>p\<in>set (line_pipes ts line). p \<le> r) \<and>
     (hasCommandSubstitution line \<longrightarrow>
        AllowedWithPermission \<le> r \<and> (\<forall>x\<in>set (extractSubstitutedCommands line). f x \<le> r)) \<and>
     (hasObfuscationPatterns line \<or> expands_variable ts line \<longrightarrow> AllowedWithPermission \<le> r)"
proof -
  have tokens: "evaluateTokens f ts base line \<le> r \<longleftrightarrow>
      base \<le> r \<and> (\<forall>c\<in>set (simple_commands [] ts). evaluateSingleCommand c line \<le> r) \<and>
      (\<forall>p\<in>set (pipe_policies ts). p \<le> r) \<and>
      (hasCommandSubstitution line \<longrightarrow>
        AllowedWithPermission \<le> r \<and> (\<forall>x\<in>set (extractSubstitutedCommands line). f x \<le> r)) \<and>
      (hasObfuscationPatterns line \<longrightarrow> AllowedWithPermission \<le> r)" for ts
    unfolding evaluateTokens_max command_policies_def at_least_def
    by (simp add: getMostRestrictive_le ball_Un del: getMostRestrictive_simps)
  show ?thesis
  proof (cases "expands_variable ts line")
    case False
    then show ?thesis
      by (simp add: evaluateTokensSecurity_def tokens line_commands_def line_pipes_def)
  next
    case True
    then show ?thesis
      by (cases "filter (\<lambda>t. t \<noteq> Plain []) ts = []")
        (auto simp: evaluateTokensSecurity_def tokens line_commands_def line_pipes_def Let_def ball_Un)
  qed
qed

section \<open>The lines of a command\<close>

lemma split_breaks_single: "length (split_breaks s) \<le> 1 \<Longrightarrow> split_breaks s = [s]"
proof (induction s rule: split_breaks.induct)
  case (2 c s)
  have ne: "1 \<le> length (split_breaks t)" for t by (simp add: Suc_le_eq)
  have c: "c \<noteq> CHR 0x0D" "c \<noteq> newline"
    using 2(5) ne [of s] ne [of "drop 1 s"] by (force split: if_split_asm)+
  then have "length (split_breaks s) \<le> 1"
    using 2(5) by (cases "split_breaks s") (auto split: list.splits)
  then have "split_breaks s = [s]" using 2(4) c by simp
  then show ?case using c by simp
qed simp

lemma dropWhile_stops: "t = [] \<or> \<not> P (hd t) \<Longrightarrow> dropWhile P t = t"
  by (cases t) auto

lemma dropWhile_rev_idem:
  "dropWhile P s = s \<Longrightarrow> dropWhile P (rev (dropWhile P (rev s))) = rev (dropWhile P (rev s))"
proof -
  assume a: "dropWhile P s = s"
  have "rev (dropWhile P (rev s)) = [] \<or> \<not> P (hd (rev (dropWhile P (rev s))))"
  proof (cases "rev (dropWhile P (rev s))")
    case (Cons c r)
    have "s = rev (dropWhile P (rev s)) @ rev (takeWhile P (rev s))"
      by (metis rev_append rev_rev_ident takeWhile_dropWhile_id)
    with Cons have "s \<noteq> []" "hd s = c" by (metis append_Cons list.sel(1) list.simps(3))+
    then show ?thesis using a Cons by (metis hd_dropWhile list.sel(1))
  qed simp
  then show ?thesis by (rule dropWhile_stops)
qed

lemma trim_idem [simp]: "trim (trim s) = trim s"
proof -
  have "dropWhile js_ws (trim s) = trim s"
    unfolding trim_def trim_end_def trim_start_def
    by (rule dropWhile_rev_idem) simp
  then show ?thesis by (simp add: trim_def trim_end_def trim_start_def)
qed

definition command_lines :: "string \<Rightarrow> string list" where
  "command_lines c = filter (\<lambda>l. l \<noteq> []) (map trim (split_breaks (trim c)))"

lemma command_lines_le: "l \<in> set (command_lines c) \<Longrightarrow> length l \<le> length c"
proof -
  assume "l \<in> set (command_lines c)"
  then obtain k where k: "k \<in> set (split_breaks (trim c))" "l = trim k" by (auto simp: command_lines_def)
  from length_trim_le [of k] split_breaks_le [OF k(1)] length_trim_le [of c] k(2) show ?thesis by simp
qed

abbreviation evaluate_sub ::
  "(string \<Rightarrow> parsed_token list option) \<Rightarrow> tool_policy \<Rightarrow> string \<Rightarrow> tool_policy" where
  "evaluate_sub parse base x \<equiv> evaluateTerminalCommandSecurity parse base (Some x)"

text \<open>A single line is the loop over one line.\<close>

lemma evaluate_lines:
  assumes "base \<noteq> Disabled"
  shows "evaluate_sub parse base c =
    (case lines_loop (evaluate_line parse (evaluate_sub parse base) base) (split_breaks (trim c)) base of
       None \<Rightarrow> AllowedWithPermission | Some p \<Rightarrow> p)"
proof (cases "1 < length (split_breaks (trim c)) \<or> trim c = []")
  case True
  have "c = [] \<Longrightarrow> trim c = []" by (simp add: trim_def trim_end_def trim_start_def)
  moreover have "trim [] = []" by (simp add: trim_def trim_end_def trim_start_def)
  ultimately show ?thesis
    using True assms by (subst evaluateTerminalCommandSecurity.simps) auto
next
  case False
  then have one: "split_breaks (trim c) = [trim c]" using split_breaks_single [of "trim c"] by simp
  have c: "c \<noteq> []" using False by (auto simp: trim_def trim_end_def trim_start_def)
  show ?thesis
  proof (cases "parse (trim c)")
    case None
    then show ?thesis
      using False assms one c by (subst evaluateTerminalCommandSecurity.simps) (simp add: evaluate_line_def)
  next
    case (Some ts)
    have "base \<le> evaluateTokensSecurity f ts base (trim c)" for f
      using evaluateTokensSecurity_le by blast
    then have "max base (evaluateTokensSecurity f ts base (trim c)) = evaluateTokensSecurity f ts base (trim c)" for f
      by (rule max.absorb2)
    then show ?thesis
      using Some False assms one c
      by (subst evaluateTerminalCommandSecurity.simps) (simp add: evaluate_line_def Let_def)
  qed
qed

lemma lines_loop_max:
  "\<forall>l\<in>set ls. trim l \<noteq> [] \<longrightarrow> ev (trim l) \<noteq> None \<Longrightarrow>
   lines_loop ev ls p =
     Some (max p (getMostRestrictive (map (the \<circ> ev) (filter (\<lambda>l. l \<noteq> []) (map trim ls)))))"
proof (induction ev ls p rule: lines_loop.induct)
  case (2 ev l ls p)
  then show ?case
    by (cases "trim l = []"; cases "ev (trim l)") (auto simp: Let_def max.assoc [symmetric])
qed simp

lemma lines_loop_free:
  "lines_loop ev ls p = Some AllowedWithoutPermission \<longleftrightarrow>
   p = AllowedWithoutPermission \<and>
   (\<forall>l\<in>set ls. trim l \<noteq> [] \<longrightarrow> ev (trim l) = Some AllowedWithoutPermission)"
  by (induction ev ls p rule: lines_loop.induct) (auto simp: Let_def split: option.splits if_split_asm)

lemma lines_loop_disabled:
  "lines_loop ev ls p = Some Disabled \<Longrightarrow>
   p = Disabled \<or> (\<exists>l\<in>set ls. trim l \<noteq> [] \<and> ev (trim l) = Some Disabled)"
  by (induction ev ls p rule: lines_loop.induct) (auto simp: Let_def split: option.splits if_split_asm)

lemma lines_loop_base:
  assumes "\<forall>l\<in>set ls. trim l \<noteq> [] \<longrightarrow> ev' (trim l) = map_option (max b) (ev (trim l))" "b \<noteq> Disabled"
  shows "lines_loop ev' ls (max b p) = map_option (max b) (lines_loop ev ls p)"
  using assms(1)
proof (induction ls arbitrary: p)
  case (Cons l ls)
  have eq: "max (max b p) (max b q) = max b (max p q)" for q
    by (metis max.assoc max.idem max.left_commute)
  show ?case
  proof (cases "trim l = []")
    case False
    then have ev: "ev' (trim l) = map_option (max b) (ev (trim l))" using Cons(2) by simp
    then show ?thesis
      using Cons False assms(2) by (cases "ev (trim l)") (auto simp: Let_def eq)
  qed (use Cons in simp)
qed simp

section \<open>The policy and the base policy\<close>

lemma evaluate_line_base:
  assumes "\<And>x. x \<in> set (extractSubstitutedCommands l) \<Longrightarrow> f x = max b (g x)"
  shows "evaluate_line parse f b l = map_option (max b) (evaluate_line parse g AllowedWithoutPermission l)"
proof -
  have "evaluateTokensSecurity f ts b l = max b (evaluateTokensSecurity g ts AllowedWithoutPermission l)" for ts
    by (rule policy_eqI) (auto simp: evaluateTokensSecurity_le assms)
  then show ?thesis by (cases "parse l") (simp_all add: evaluate_line_def)
qed

lemma extracted_from_line_shorter:
  "l \<in> set (command_lines c) \<Longrightarrow> x \<in> set (extractSubstitutedCommands l) \<Longrightarrow> length x < length c"
  using command_lines_le [of l c] extracted_shorter [of x l] by simp

lemma in_command_lines:
  "l \<in> set (split_breaks (trim c)) \<Longrightarrow> trim l \<noteq> [] \<Longrightarrow> trim l \<in> set (command_lines c)"
  by (auto simp: command_lines_def)

lemma evaluate_sub_base:
  "b \<noteq> Disabled \<Longrightarrow> evaluate_sub parse b c = max b (evaluate_sub parse AllowedWithoutPermission c)"
proof (induction c rule: length_induct)
  case (1 c)
  let ?ev = "\<lambda>b. evaluate_line parse (evaluate_sub parse b) b"
  have "?ev b (trim l) = map_option (max b) (?ev AllowedWithoutPermission (trim l))"
    if "l \<in> set (split_breaks (trim c))" "trim l \<noteq> []" for l
    using 1 extracted_from_line_shorter [OF in_command_lines [OF that]] by (intro evaluate_line_base) auto
  then have "lines_loop (?ev b) (split_breaks (trim c)) (max b AllowedWithoutPermission) =
      map_option (max b) (lines_loop (?ev AllowedWithoutPermission) (split_breaks (trim c)) AllowedWithoutPermission)"
    using 1(2) by (intro lines_loop_base) auto
  moreover have "max b AllowedWithPermission = AllowedWithPermission"
    using 1(2) by (cases b) (simp_all add: max_def)
  ultimately show ?case
    using 1(2) by (simp add: evaluate_lines [of _ parse c] split: option.split)
qed

text \<open>
  The policy of a command never falls below the base policy, and the base policy only
  raises it: the result is the greater of the base policy and the policy that the command
  gets on its own. A disabled tool stays disabled; a command without text gets the base policy.
\<close>

lemma policy_above_base:
  "evaluateTerminalCommandSecurity parse base command =
     max base (evaluateTerminalCommandSecurity parse AllowedWithoutPermission command) \<and>
   (command = None \<or> trim (the command) = [] \<longrightarrow> evaluateTerminalCommandSecurity parse base command = base)"
proof
  have "evaluateTerminalCommandSecurity parse base command =
     max base (evaluateTerminalCommandSecurity parse AllowedWithoutPermission command)"
  proof (cases "base = Disabled")
    case True
    then show ?thesis by (simp add: evaluateTerminalCommandSecurity.simps)
  next
    case False
    then show ?thesis
      by (cases command) (simp add: evaluateTerminalCommandSecurity.simps, simp add: evaluate_sub_base [symmetric])
  qed
  then show "evaluateTerminalCommandSecurity parse base command =
     max base (evaluateTerminalCommandSecurity parse AllowedWithoutPermission command)" .
  show "command = None \<or> trim (the command) = [] \<longrightarrow> evaluateTerminalCommandSecurity parse base command = base"
    by (auto simp: evaluateTerminalCommandSecurity.simps split: option.split)
qed

section \<open>Critical commands are refused\<close>

text \<open>The lines that are evaluated: those of the command and those of what they substitute.\<close>

inductive looked_at :: "string \<Rightarrow> string \<Rightarrow> bool" where
  line: "l \<in> set (command_lines c) \<Longrightarrow> looked_at c l"
| substituted: "l \<in> set (command_lines c) \<Longrightarrow> hasCommandSubstitution l \<Longrightarrow>
    x \<in> set (extractSubstitutedCommands l) \<Longrightarrow> looked_at x k \<Longrightarrow> looked_at c k"

inductive_cases looked_atE: "looked_at c l"

definition critical :: "string list \<Rightarrow> bool" where
  "critical cmd \<longleftrightarrow> isCriticalCommand (to_lower (hd cmd)) (tl cmd)"

definition harmless :: "string \<Rightarrow> string list \<Rightarrow> bool" where
  "harmless line cmd \<longleftrightarrow>
     \<not> critical cmd \<and> \<not> starts_with (to_lower (hd cmd)) ''$'' \<and>
     \<not> isHighRiskCommand (to_lower (hd cmd)) (tl cmd) line \<and> isSafeCommand (to_lower (hd cmd)) (tl cmd)"

lemma simple_commands_not_Nil: "c \<in> set (simple_commands cur ts) \<Longrightarrow> c \<noteq> []"
  by (induction cur ts rule: simple_commands.induct) (auto split: if_split_asm)

lemma evaluateSingleCommand_eq:
  assumes "cmd \<in> set (line_commands ts line)"
  shows "evaluateSingleCommand cmd line = Disabled \<longleftrightarrow> critical cmd"
    and "evaluateSingleCommand cmd line = AllowedWithoutPermission \<longleftrightarrow> harmless line cmd"
proof -
  from assms have "cmd \<noteq> []"
    by (auto simp: line_commands_def dest: simple_commands_not_Nil split: if_split_asm)
  then obtain c args where "cmd = c # args" by (cases cmd) auto
  then show "evaluateSingleCommand cmd line = Disabled \<longleftrightarrow> critical cmd"
    and "evaluateSingleCommand cmd line = AllowedWithoutPermission \<longleftrightarrow> harmless line cmd"
    by (simp_all add: evaluateSingleCommand_def critical_def harmless_def Let_def)
qed

lemma evaluatePipeChain_mild: "evaluatePipeChain ts \<noteq> Disabled"
  by (simp add: evaluatePipeChain_def Let_def split: list.split)

lemma pipe_policies_mild: "Disabled \<notin> set (pipe_policies ts)"
  by (induction ts) (auto simp: evaluatePipeChain_mild [symmetric])

lemma evaluateTokensSecurity_disabled:
  assumes "base \<noteq> Disabled"
  shows "evaluateTokensSecurity f ts base line = Disabled \<longleftrightarrow>
    (\<exists>cmd\<in>set (line_commands ts line). critical cmd) \<or>
    hasCommandSubstitution line \<and> (\<exists>x\<in>set (extractSubstitutedCommands line). f x = Disabled)"
proof -
  have "evaluateTokensSecurity f ts base line = Disabled \<longleftrightarrow>
      \<not> evaluateTokensSecurity f ts base line \<le> AllowedWithPermission" by simp
  also have "\<dots> \<longleftrightarrow>
      (\<exists>cmd\<in>set (line_commands ts line). evaluateSingleCommand cmd line = Disabled) \<or>
      (\<exists>p\<in>set (line_pipes ts line). p = Disabled) \<or>
      hasCommandSubstitution line \<and> (\<exists>x\<in>set (extractSubstitutedCommands line). f x = Disabled)"
    unfolding evaluateTokensSecurity_le using assms by auto
  also have "(\<exists>p\<in>set (line_pipes ts line). p = Disabled) \<longleftrightarrow> False"
    using pipe_policies_mild by (auto simp: line_pipes_def)
  finally show ?thesis using evaluateSingleCommand_eq(1) by auto
qed

text \<open>The verdict on a command whose lines parse: the greatest of the verdicts on its lines.\<close>

lemma evaluate_sub_disabled:
  assumes "\<And>l. l \<in> set (command_lines c) \<Longrightarrow> parse l \<noteq> None" "base \<noteq> Disabled"
  shows "evaluate_sub parse base c = Disabled \<longleftrightarrow>
    (\<exists>l\<in>set (command_lines c).
       evaluateTokensSecurity (evaluate_sub parse base) (the (parse l)) base l = Disabled)"
proof -
  let ?ev = "evaluate_line parse (evaluate_sub parse base) base"
  have "lines_loop ?ev (split_breaks (trim c)) base =
      Some (max base (getMostRestrictive (map (the \<circ> ?ev) (command_lines c))))"
    unfolding command_lines_def
    by (rule lines_loop_max) (use assms(1) in \<open>auto simp: evaluate_line_def dest: in_command_lines\<close>)
  moreover have "the (?ev l) = evaluateTokensSecurity (evaluate_sub parse base) (the (parse l)) base l"
    if "l \<in> set (command_lines c)" for l
    using assms(1) [OF that] by (auto simp: evaluate_line_def)
  ultimately show ?thesis
    using assms(2) by (simp add: evaluate_lines [of _ parse c] getMostRestrictive_eq image_iff) metis
qed

lemma critical_iff:
  assumes "\<And>l. looked_at c l \<Longrightarrow> parse l \<noteq> None" "base \<noteq> Disabled"
  shows "evaluate_sub parse base c = Disabled \<longleftrightarrow>
    (\<exists>l cmd. looked_at c l \<and> cmd \<in> set (line_commands (the (parse l)) l) \<and> critical cmd)"
  using assms(1)
proof (induction c rule: length_induct)
  case (1 c)
  have nested: "evaluate_sub parse base x = Disabled \<longleftrightarrow>
      (\<exists>l cmd. looked_at x l \<and> cmd \<in> set (line_commands (the (parse l)) l) \<and> critical cmd)"
    if "l \<in> set (command_lines c)" "hasCommandSubstitution l" "x \<in> set (extractSubstitutedCommands l)" for l x
    using 1 extracted_from_line_shorter [OF that(1,3)] looked_at.substituted [OF that] by blast
  have "evaluate_sub parse base c = Disabled \<longleftrightarrow>
      (\<exists>l\<in>set (command_lines c). (\<exists>cmd\<in>set (line_commands (the (parse l)) l). critical cmd) \<or>
         hasCommandSubstitution l \<and>
         (\<exists>x\<in>set (extractSubstitutedCommands l). evaluate_sub parse base x = Disabled))"
    using 1(2) assms(2) looked_at.line
    by (subst evaluate_sub_disabled) (simp_all add: evaluateTokensSecurity_disabled)
  also have "\<dots> \<longleftrightarrow> (\<exists>l cmd. looked_at c l \<and> cmd \<in> set (line_commands (the (parse l)) l) \<and> critical cmd)"
    using nested by (blast intro: looked_at.intros elim: looked_atE)
  finally show ?case .
qed


section \<open>What runs without permission\<close>

lemma evaluateTokensSecurity_free:
  "evaluateTokensSecurity f ts base line = AllowedWithoutPermission \<longleftrightarrow>
     base = AllowedWithoutPermission \<and>
     (\<forall>cmd\<in>set (simple_commands [] ts). harmless line cmd) \<and>
     (\<forall>p\<in>set (pipe_policies ts). p = AllowedWithoutPermission) \<and>
     \<not> hasCommandSubstitution line \<and> \<not> hasObfuscationPatterns line \<and> \<not> expands_variable ts line"
proof -
  have "evaluateTokensSecurity f ts base line = AllowedWithoutPermission \<longleftrightarrow>
      base = AllowedWithoutPermission \<and>
      (\<forall>cmd\<in>set (line_commands ts line). evaluateSingleCommand cmd line = AllowedWithoutPermission) \<and>
      (\<forall>p\<in>set (line_pipes ts line). p = AllowedWithoutPermission) \<and>
      \<not> hasCommandSubstitution line \<and> \<not> hasObfuscationPatterns line \<and> \<not> expands_variable ts line"
    unfolding policy_order(4) [symmetric] evaluateTokensSecurity_le by auto
  also have "\<dots> \<longleftrightarrow> base = AllowedWithoutPermission \<and>
      (\<forall>cmd\<in>set (line_commands ts line). harmless line cmd) \<and>
      (\<forall>p\<in>set (line_pipes ts line). p = AllowedWithoutPermission) \<and>
      \<not> hasCommandSubstitution line \<and> \<not> hasObfuscationPatterns line \<and> \<not> expands_variable ts line"
    using evaluateSingleCommand_eq(2) by auto
  finally show ?thesis by (auto simp: line_commands_def line_pipes_def)
qed

text \<open>
  C11. A command runs without permission exactly if the base policy allows that and every line
  parses, consists of harmless simple commands (not critical, not a variable, of no high risk,
  on the list of safe commands), pipes into no interpreter and no network tool, substitutes no
  command, shows no sign of obfuscation and expands no variable to an empty word.
\<close>

theorem auto_approved_exactly:
  "evaluateTerminalCommandSecurity parse base (Some c) = AllowedWithoutPermission \<longleftrightarrow>
     base = AllowedWithoutPermission \<and>
     (\<forall>l\<in>set (command_lines c). \<exists>ts. parse l = Some ts \<and>
        (\<forall>cmd\<in>set (simple_commands [] ts). harmless l cmd) \<and>
        (\<forall>p\<in>set (pipe_policies ts). p = AllowedWithoutPermission) \<and>
        \<not> hasCommandSubstitution l \<and> \<not> hasObfuscationPatterns l \<and> \<not> expands_variable ts l)"
proof (cases "base = Disabled")
  case False
  let ?ev = "evaluate_line parse (evaluate_sub parse base) base"
  have "evaluateTerminalCommandSecurity parse base (Some c) = AllowedWithoutPermission \<longleftrightarrow>
      lines_loop ?ev (split_breaks (trim c)) base = Some AllowedWithoutPermission"
    using False by (auto simp: evaluate_lines [of _ parse c] split: option.split)
  also have "\<dots> \<longleftrightarrow> base = AllowedWithoutPermission \<and>
      (\<forall>l\<in>set (command_lines c). ?ev l = Some AllowedWithoutPermission)"
    unfolding lines_loop_free command_lines_def by auto
  also have "\<dots> \<longleftrightarrow> base = AllowedWithoutPermission \<and>
      (\<forall>l\<in>set (command_lines c). \<exists>ts. parse l = Some ts \<and>
        evaluateTokensSecurity (evaluate_sub parse base) ts base l = AllowedWithoutPermission)"
    by (simp add: evaluate_line_def)
  finally show ?thesis unfolding evaluateTokensSecurity_free by auto
qed (simp add: evaluateTerminalCommandSecurity.simps)

section \<open>Examples\<close>

text \<open>A tokenizer that cuts at blanks and knows three operators.\<close>

definition blank_tokens :: "string \<Rightarrow> parsed_token list option" where
  "blank_tokens line =
     Some (map (\<lambda>w. if w \<in> set [''|'', '';'', ''&&''] then Operator w else Plain w)
       (filter (\<lambda>w. w \<noteq> []) (split_on (CHR '' '') line)))"

text \<open>The privileged command is inside a substitution inside a substitution.\<close>

definition nested_sudo :: string where
  "nested_sudo = ''ls; echo $(echo $(sudo reboot) )''"

lemma extracted_in_nested_sudo:
  "command_lines nested_sudo = [nested_sudo]" "hasCommandSubstitution nested_sudo"
  "''sudo reboot'' \<in> set (extractSubstitutedCommands nested_sudo)"
  "command_lines ''sudo reboot'' = [''sudo reboot'']"
  by code_simp+


theorem auto_approved_exactly_witness:
  "evaluateTerminalCommandSecurity blank_tokens AllowedWithoutPermission (Some ''ls -la | wc'') =
   AllowedWithoutPermission"
proof -
  let ?ts = "[Plain ''ls'', Plain ''-la'', Operator ''|'', Plain ''wc'']"
  have "command_lines ''ls -la | wc'' = [''ls -la | wc'']" "blank_tokens ''ls -la | wc'' = Some ?ts"
    by code_simp+
  moreover have "simple_commands [] ?ts = [[''ls'', ''-la''], [''wc'']]"
    "pipe_policies ?ts = [AllowedWithoutPermission]" by code_simp+
  moreover have "harmless ''ls -la | wc'' [''ls'', ''-la'']" "harmless ''ls -la | wc'' [''wc'']"
    by code_simp+
  moreover have "\<not> hasCommandSubstitution ''ls -la | wc''" "\<not> hasObfuscationPatterns ''ls -la | wc''"
    "\<not> expands_variable ?ts ''ls -la | wc''" by code_simp+
  ultimately show ?thesis
    using auto_approved_exactly [of blank_tokens AllowedWithoutPermission "''ls -la | wc''"] by simp
qed

text \<open>
  A line that the tokenizer rejects hides the lines behind it: the answer is the permission
  prompt, although the second line alone is refused.
\<close>

lemma rejected_line_hides_critical:
  assumes "parse ''echo ${}'' = None" "\<And>l. l \<noteq> ''echo ${}'' \<Longrightarrow> parse l = blank_tokens l"
  shows "evaluateTerminalCommandSecurity parse AllowedWithoutPermission
           (Some (''echo ${}'' @ [newline] @ ''sudo reboot'')) = AllowedWithPermission"
    and "evaluateTerminalCommandSecurity parse AllowedWithoutPermission (Some ''sudo reboot'') = Disabled"
proof -
  have "split_breaks (trim (''echo ${}'' @ [newline] @ ''sudo reboot'')) = [''echo ${}'', ''sudo reboot'']"
    "trim ''echo ${}'' = ''echo ${}''" by code_simp+
  then show "evaluateTerminalCommandSecurity parse AllowedWithoutPermission
      (Some (''echo ${}'' @ [newline] @ ''sudo reboot'')) = AllowedWithPermission"
    by (subst evaluate_lines) (simp_all add: evaluate_line_def assms(1))
  have "split_breaks (trim ''sudo reboot'') = [''sudo reboot'']" "trim ''sudo reboot'' = ''sudo reboot''"
    "blank_tokens ''sudo reboot'' = Some [Plain ''sudo'', Plain ''reboot'']" by code_simp+
  moreover have "parse ''sudo reboot'' = blank_tokens ''sudo reboot''" by (rule assms(2)) simp
  moreover have "line_commands [Plain ''sudo'', Plain ''reboot''] ''sudo reboot'' = [[''sudo'', ''reboot'']]"
    "critical [''sudo'', ''reboot'']" by code_simp+
  ultimately show "evaluateTerminalCommandSecurity parse AllowedWithoutPermission (Some ''sudo reboot'') = Disabled"
    by (subst evaluate_lines) (simp_all add: evaluate_line_def evaluateTokensSecurity_disabled)
qed

text \<open>
  The identifier of the group Everyone is compared in lower case with the argument as it was
  written; the name is not.
\<close>

lemma everyone_by_identifier:
  "critical [''icacls'', ''x'', ''/grant'', ''Everyone:F'']"
  "\<not> critical [''icacls'', ''x'', ''/grant'', ''*S-1-1-0:(OI)(CI)F'']"
  by code_simp+

text \<open>The test for the creation of an archive is met by any argument with the letter c.\<close>

lemma extraction_taken_for_creation:
  "harmless line [''tar'', ''-xf'', ''archive.tar''] \<longleftrightarrow>
   \<not> isFunctionDefinition [''tar'', ''-xf'', ''archive.tar''] line"
proof -
  have "to_lower ''tar'' = ''tar''" "isSafeCommand ''tar'' [''-xf'', ''archive.tar'']"
    "\<not> critical [''tar'', ''-xf'', ''archive.tar'']" "\<not> starts_with ''tar'' ''$''"
    "\<not> starts_with ''tar'' ''./''" by code_simp+
  moreover have "isHighRiskCommand ''tar'' [''-xf'', ''archive.tar''] line \<longleftrightarrow>
      isFunctionDefinition [''tar'', ''-xf'', ''archive.tar''] line"
  proof -
    have "\<not> isHighRiskDirectScript ''tar''" "\<not> isHighRiskArchiveExtraction ''tar'' [''-xf'', ''archive.tar'']"
      by code_simp+
    moreover have "\<not> isHighRiskPackageManager ''tar'' args" "\<not> isHighRiskScriptInterpreter ''tar'' args" for args
      by (simp_all add: isHighRiskPackageManager_def packageManagers_def isHighRiskScriptInterpreter_def
          scriptInterpreters_def)
    ultimately show ?thesis
      by (simp add: isHighRiskCommand_def isHighRiskNetworkTool_def isHighRiskEnvironmentModifier_def
          isHighRiskProcessCommand_def isHighRiskSystemService_def isHighRiskFileOperation_def
          isHighRiskRmCommand_def isHighRiskContainerCommand_def isHighRiskCloudCLI_def
          isHighRiskUserCommand_def isHighRiskScheduledTask_def isHighRiskWindowsRegistry_def
          isHighRiskWindowsManagement_def isHighRiskSecurityTool_def isHighRiskSourceCommand_def
          isHighRiskHistoryManipulation_def isHighRiskDNSTool_def isHighRiskMacOSCommand_def)
  qed
  ultimately show ?thesis by (simp add: harmless_def)
qed

end
