(* ===== verification/Text_Length.thy ===== *)
theory Text_Length
  imports Text_Position
begin

text \<open>
  Lengths of text in lines and columns: the class \<open>TextLength\<close>
  (\<open>core/text/textLength.ts\<close>) and its encoding in one number, \<open>Length\<close>
  (\<open>bracketPairsTree/length.ts\<close>), which keeps the lines in the upper and the columns in the
  lower 26 of 52 bits. The class is a linear order and, on non-negative lengths,
  a monoid; the encoding agrees with it as long as the columns stay below \<open>2 ^ 26\<close>.
\<close>

section \<open>The class TextLength\<close>

datatype text_length = TextLength (lineCount: int) (columnCount: int)

definition tl_zero :: text_length where
  "tl_zero = TextLength 0 0"

definition tl_isLessThan :: "text_length \<Rightarrow> text_length \<Rightarrow> bool" where
  "tl_isLessThan a b =
     (if lineCount a \<noteq> lineCount b then lineCount a < lineCount b else columnCount a < columnCount b)"

definition tl_isGreaterThan :: "text_length \<Rightarrow> text_length \<Rightarrow> bool" where
  "tl_isGreaterThan a b =
     (if lineCount a \<noteq> lineCount b then lineCount a > lineCount b else columnCount a > columnCount b)"

definition tl_isGreaterThanOrEqualTo :: "text_length \<Rightarrow> text_length \<Rightarrow> bool" where
  "tl_isGreaterThanOrEqualTo a b =
     (if lineCount a \<noteq> lineCount b then lineCount a > lineCount b else columnCount a \<ge> columnCount b)"

definition tl_equals :: "text_length \<Rightarrow> text_length \<Rightarrow> bool" where
  "tl_equals a b \<longleftrightarrow> lineCount a = lineCount b \<and> columnCount a = columnCount b"

definition tl_compare :: "text_length \<Rightarrow> text_length \<Rightarrow> int" where
  "tl_compare a b =
     (if lineCount a \<noteq> lineCount b then lineCount a - lineCount b else columnCount a - columnCount b)"

definition tl_isZero :: "text_length \<Rightarrow> bool" where
  "tl_isZero a \<longleftrightarrow> lineCount a = 0 \<and> columnCount a = 0"

definition tl_add :: "text_length \<Rightarrow> text_length \<Rightarrow> text_length" where
  "tl_add a b =
     (if lineCount b = 0 then TextLength (lineCount a) (columnCount a + columnCount b)
      else TextLength (lineCount a + lineCount b) (columnCount b))"

text \<open>The library's notation for the order and the addition of the class.\<close>

instantiation text_length :: linorder
begin

definition less_eq_text_length :: "text_length \<Rightarrow> text_length \<Rightarrow> bool" where
  "less_eq_text_length a b \<longleftrightarrow> tl_isGreaterThanOrEqualTo b a"

definition less_text_length :: "text_length \<Rightarrow> text_length \<Rightarrow> bool" where
  "less_text_length a b \<longleftrightarrow> tl_isLessThan a b"

instance
  by standard
    (auto simp: less_eq_text_length_def less_text_length_def tl_isGreaterThanOrEqualTo_def tl_isLessThan_def
      intro: text_length.expand split: if_splits)

end

instantiation text_length :: "{zero, plus}"
begin

definition zero_text_length :: text_length where
  "zero_text_length = tl_zero"

definition plus_text_length :: "text_length \<Rightarrow> text_length \<Rightarrow> text_length" where
  "plus_text_length a b = tl_add a b"

instance ..

end

lemma tl_le_iff:
  "a \<le> b \<longleftrightarrow> lineCount a < lineCount b \<or> lineCount a = lineCount b \<and> columnCount a \<le> columnCount b"
  by (auto simp: less_eq_text_length_def tl_isGreaterThanOrEqualTo_def)

lemma tl_less_iff:
  "a < b \<longleftrightarrow> lineCount a < lineCount b \<or> lineCount a = lineCount b \<and> columnCount a < columnCount b"
  by (auto simp: less_text_length_def tl_isLessThan_def)

lemma tl_plus_sel [simp]:
  "lineCount (a + b) = lineCount a + lineCount b"
  "columnCount (a + b) = (if lineCount b = 0 then columnCount a + columnCount b else columnCount b)"
  by (simp_all add: plus_text_length_def tl_add_def)

lemma tl_zero_sel [simp]: "lineCount 0 = 0" "columnCount 0 = 0"
  by (simp_all add: zero_text_length_def tl_zero_def)

definition tl_nonneg :: "text_length \<Rightarrow> bool" where
  "tl_nonneg a \<longleftrightarrow> 0 \<le> lineCount a \<and> 0 \<le> columnCount a"

lemma tl_nonneg_plus [simp]: "tl_nonneg a \<Longrightarrow> tl_nonneg b \<Longrightarrow> tl_nonneg (a + b)"
  by (auto simp: tl_nonneg_def)

lemma tl_nonneg_zero [simp]: "tl_nonneg 0"
  by (simp add: tl_nonneg_def)

lemma tl_plus_zero [simp]: "a + 0 = a" "(0 :: text_length) + a = a"
  by (auto intro: text_length.expand)

lemma tl_plus_assoc: "tl_nonneg b \<Longrightarrow> tl_nonneg c \<Longrightarrow> a + b + c = a + (b + c)"
  by (rule text_length.expand) (auto simp: tl_nonneg_def)

definition tl_lengthDiffNonNegative :: "text_length \<Rightarrow> text_length \<Rightarrow> text_length" where
  "tl_lengthDiffNonNegative start end1 =
     (if tl_isLessThan end1 start then tl_zero
      else if lineCount start = lineCount end1 then TextLength 0 (columnCount end1 - columnCount start)
      else TextLength (lineCount end1 - lineCount start) (columnCount end1))"

definition tl_betweenPositions :: "position \<Rightarrow> position \<Rightarrow> text_length" where
  "tl_betweenPositions p q =
     (if lineNumber p = lineNumber q then TextLength 0 (column q - column p)
      else TextLength (lineNumber q - lineNumber p) (column q - 1))"

definition tl_fromPosition :: "position \<Rightarrow> text_length" where
  "tl_fromPosition p = TextLength (lineNumber p - 1) (column p - 1)"

definition tl_ofRange :: "range \<Rightarrow> text_length" where
  "tl_ofRange r = tl_betweenPositions (getStartPosition r) (getEndPosition r)"

text \<open>
  \<open>for (const c of text)\<close> steps through the code points of a text, so a surrogate pair is one
  step; the text is its list of code units.
\<close>

fun code_points :: "nat list \<Rightarrow> nat list" where
  "code_points (h # l # s) =
     (if 55296 \<le> h \<and> h < 56320 \<and> 56320 \<le> l \<and> l < 57344
      then ((h - 55296) * 1024 + (l - 56320) + 65536) # code_points s
      else h # code_points (l # s))"
| "code_points s = s"

definition tl_step :: "text_length \<Rightarrow> nat \<Rightarrow> text_length" where
  "tl_step acc c =
     (if c = 10 then TextLength (lineCount acc + 1) 0 else TextLength (lineCount acc) (columnCount acc + 1))"

definition tl_ofText :: "nat list \<Rightarrow> text_length" where
  "tl_ofText text1 = foldl tl_step (TextLength 0 0) (code_points text1)"

definition tl_ofSubstr :: "nat list \<Rightarrow> nat \<Rightarrow> nat \<Rightarrow> text_length" where
  "tl_ofSubstr str start endEx = tl_ofText (sub_list start endEx str)"

definition tl_sum :: "'a list \<Rightarrow> ('a \<Rightarrow> text_length) \<Rightarrow> text_length" where
  "tl_sum fragments getLength = foldl (\<lambda>acc f. tl_add acc (getLength f)) tl_zero fragments"

definition tl_createRange :: "text_length \<Rightarrow> position \<Rightarrow> range" where
  "tl_createRange a p =
     (if lineCount a = 0 then mk_Range (lineNumber p) (column p) (lineNumber p) (column p + columnCount a)
      else mk_Range (lineNumber p) (column p) (lineNumber p + lineCount a) (columnCount a + 1))"

definition tl_toRange :: "text_length \<Rightarrow> range" where
  "tl_toRange a = mk_Range 1 1 (lineCount a + 1) (columnCount a + 1)"

definition tl_addToPosition :: "text_length \<Rightarrow> position \<Rightarrow> position" where
  "tl_addToPosition a p =
     (if lineCount a = 0 then Position (lineNumber p) (column p + columnCount a)
      else Position (lineNumber p + lineCount a) (columnCount a + 1))"

definition tl_addToRange :: "text_length \<Rightarrow> range \<Rightarrow> range" where
  "tl_addToRange a r =
     fromPositions (tl_addToPosition a (getStartPosition r)) (tl_addToPosition a (getEndPosition r))"

lemma tl_sum_simps [simp]: "tl_sum [] f = 0" "tl_sum (xs @ [x]) f = tl_sum xs f + f x"
  by (simp_all add: tl_sum_def zero_text_length_def plus_text_length_def)

lemma tl_nonneg_sum [simp]: "\<forall>x\<in>set xs. tl_nonneg (f x) \<Longrightarrow> tl_nonneg (tl_sum xs f)"
  by (induction xs rule: rev_induct) auto

lemma tl_sum_append:
  "\<forall>x\<in>set ys. tl_nonneg (f x) \<Longrightarrow> tl_sum (xs @ ys) f = tl_sum xs f + tl_sum ys f"
proof (induction ys rule: rev_induct)
  case (snoc y ys)
  then show ?case
    by (simp add: append_assoc [symmetric] tl_plus_assoc del: append_assoc)
qed simp

lemma tl_compare_iff:
  "tl_compare a b < 0 \<longleftrightarrow> a < b" "tl_compare a b = 0 \<longleftrightarrow> a = b"
  "tl_isGreaterThan a b \<longleftrightarrow> b < a" "tl_equals a b \<longleftrightarrow> a = b" "tl_isZero a \<longleftrightarrow> a = 0"
  by (auto simp: tl_compare_def tl_less_iff tl_isGreaterThan_def tl_equals_def tl_isZero_def
      intro: text_length.expand)

text \<open>The difference is what has to be added, and moving a position by a length is adding to it.\<close>

lemma tl_add_diff: "a \<le> b \<Longrightarrow> a + tl_lengthDiffNonNegative a b = b"
  by (rule text_length.expand) (auto simp: tl_lengthDiffNonNegative_def tl_isLessThan_def tl_le_iff)

lemma tl_diff_unique: "tl_nonneg d \<Longrightarrow> tl_lengthDiffNonNegative a (a + d) = d"
  by (rule text_length.expand)
    (auto simp: tl_lengthDiffNonNegative_def tl_isLessThan_def tl_nonneg_def tl_zero_def)

lemma tl_nonneg_diff: "tl_nonneg b \<Longrightarrow> tl_nonneg (tl_lengthDiffNonNegative a b)"
  by (auto simp: tl_lengthDiffNonNegative_def tl_isLessThan_def tl_nonneg_def tl_zero_def)

lemma tl_addToPosition_plus: "tl_addToPosition (a + b) p = tl_addToPosition b (tl_addToPosition a p)"
  if "tl_nonneg a" "tl_nonneg b"
  using that by (auto simp: tl_addToPosition_def tl_nonneg_def)

lemma tl_addToPosition_between: "p \<le> q \<Longrightarrow> tl_addToPosition (tl_betweenPositions p q) p = q"
  by (cases q) (auto simp: tl_addToPosition_def tl_betweenPositions_def pos_le_iff)

lemma tl_createRange_end:
  "tl_nonneg a \<Longrightarrow> getStartPosition (tl_createRange a p) = p \<and>
   getEndPosition (tl_createRange a p) = tl_addToPosition a p"
  by (cases p) (auto simp: tl_createRange_def tl_addToPosition_def tl_nonneg_def mk_Range_def
      getStartPosition_def getEndPosition_def)

text \<open>A character outside the basic plane is two columns wide in every position, and one here.\<close>

lemma ofText_astral: "tl_ofText [0xD83D, 0xDE00] = TextLength 0 1"
  by (simp add: tl_ofText_def tl_step_def)

lemma code_points_no_pair: "\<forall>c\<in>set s. c < 55296 \<Longrightarrow> code_points s = s"
  by (induction s rule: code_points.induct) auto

lemma tl_nonneg_steps [simp]: "tl_nonneg a \<Longrightarrow> tl_nonneg (foldl tl_step a s)"
  by (induction s arbitrary: a) (auto simp: tl_step_def tl_nonneg_def)

lemma foldl_tl_step: "foldl tl_step a s = a + foldl tl_step 0 s"
proof (induction s rule: rev_induct)
  case (snoc c s)
  have "tl_step (a + b) c = a + tl_step b c" if "tl_nonneg b" for b
    by (rule text_length.expand) (use that in \<open>auto simp: tl_step_def tl_nonneg_def\<close>)
  then show ?case using snoc by simp
qed simp

lemma tl_ofText_append:
  assumes "\<forall>c\<in>set (s @ t). c < 55296"
  shows "tl_ofText (s @ t) = tl_ofText s + tl_ofText t"
proof -
  have z: "TextLength 0 0 = 0" by (simp add: zero_text_length_def tl_zero_def)
  have "code_points (s @ t) = s @ t" "code_points s = s" "code_points t = t"
    using assms by (simp_all add: code_points_no_pair ball_Un)
  then show ?thesis
    using foldl_tl_step [of "foldl tl_step 0 s"] by (simp add: tl_ofText_def z)
qed

end
