(* ===== verification/Length_Code.thy ===== *)
theory Length_Code
  imports Text_Length Js_Numbers
begin

text \<open>
  The encoding of a text length in one number (\<open>bracketPairsTree/length.ts\<close>): the lines
  times \<open>2 ^ 26\<close> plus the columns. The numbers are integers below \<open>2 ^ 53\<close> and
  the division by a power of two is exact, so they are modelled by \<open>int\<close>.
\<close>

type_synonym len = int

definition factor :: int where
  "factor = 2 ^ 26"

definition lengthZero :: len where
  "lengthZero = 0"

definition toLength :: "int \<Rightarrow> int \<Rightarrow> len" where
  "toLength lines columns = lines * factor + columns"

definition lengthDiff :: "int \<Rightarrow> int \<Rightarrow> int \<Rightarrow> int \<Rightarrow> len" where
  "lengthDiff startLineCount startColumnCount endLineCount endColumnCount =
     (if startLineCount \<noteq> endLineCount then toLength (endLineCount - startLineCount) endColumnCount
      else toLength 0 (endColumnCount - startColumnCount))"

definition lengthIsZero :: "len \<Rightarrow> bool" where
  "lengthIsZero l \<longleftrightarrow> l = 0"

definition lengthToObj :: "len \<Rightarrow> text_length" where
  "lengthToObj l = (let lines = l div factor in TextLength lines (l - lines * factor))"

definition lengthGetLineCount :: "len \<Rightarrow> int" where
  "lengthGetLineCount l = l div factor"

definition lengthGetColumnCountIfZeroLineCount :: "len \<Rightarrow> int" where
  "lengthGetColumnCountIfZeroLineCount l = l"

definition lengthAdd :: "len \<Rightarrow> len \<Rightarrow> len" where
  "lengthAdd l1 l2 = (let r = l1 + l2 in if l2 \<ge> factor then r - js_mod l1 factor else r)"

definition sumLengths :: "'a list \<Rightarrow> ('a \<Rightarrow> len) \<Rightarrow> len" where
  "sumLengths items lengthFn = foldl (\<lambda>a b. lengthAdd a (lengthFn b)) lengthZero items"

definition lengthEquals :: "len \<Rightarrow> len \<Rightarrow> bool" where
  "lengthEquals l1 l2 \<longleftrightarrow> l1 = l2"

definition lengthDiffNonNegative :: "len \<Rightarrow> len \<Rightarrow> len" where
  "lengthDiffNonNegative l1 l2 =
     (let diff = l2 - l1 in
      if diff \<le> 0 then lengthZero
      else
        (let lineCount1 = l1 div factor; lineCount2 = l2 div factor;
             colCount2 = l2 - lineCount2 * factor
         in if lineCount1 = lineCount2
            then (let colCount1 = l1 - lineCount1 * factor in toLength 0 (colCount2 - colCount1))
            else toLength (lineCount2 - lineCount1) colCount2))"

definition lengthLessThan :: "len \<Rightarrow> len \<Rightarrow> bool" where
  "lengthLessThan l1 l2 \<longleftrightarrow> l1 < l2"

definition lengthLessThanEqual :: "len \<Rightarrow> len \<Rightarrow> bool" where
  "lengthLessThanEqual l1 l2 \<longleftrightarrow> l1 \<le> l2"

definition lengthGreaterThanEqual :: "len \<Rightarrow> len \<Rightarrow> bool" where
  "lengthGreaterThanEqual l1 l2 \<longleftrightarrow> l1 \<ge> l2"

definition lengthToPosition :: "len \<Rightarrow> position" where
  "lengthToPosition l =
     (let lines = l div factor; columns = l - lines * factor in Position (lines + 1) (columns + 1))"

definition positionToLength :: "position \<Rightarrow> len" where
  "positionToLength p = toLength (lineNumber p - 1) (column p - 1)"

definition lengthsToRange :: "len \<Rightarrow> len \<Rightarrow> range" where
  "lengthsToRange lengthStart lengthEnd =
     (let lines = lengthStart div factor; columns = lengthStart - lines * factor;
          lines2 = lengthEnd div factor; columns2 = lengthEnd - lines2 * factor
      in mk_Range (lines + 1) (columns + 1) (lines2 + 1) (columns2 + 1))"

definition lengthOfRange :: "range \<Rightarrow> text_length" where
  "lengthOfRange r =
     (if startLineNumber r = endLineNumber r then TextLength 0 (endColumn r - startColumn r)
      else TextLength (endLineNumber r - startLineNumber r) (endColumn r - 1))"

definition lengthCompare :: "len \<Rightarrow> len \<Rightarrow> int" where
  "lengthCompare l1 l2 = l1 - l2"

definition lengthOfString :: "string \<Rightarrow> len" where
  "lengthOfString str =
     (let lines = split_breaks str in toLength (int (length lines) - 1) (int (length (last lines))))"

definition lengthOfStringObj :: "string \<Rightarrow> text_length" where
  "lengthOfStringObj str =
     (let lines = split_breaks str in TextLength (int (length lines) - 1) (int (length (last lines))))"

definition lengthHash :: "len \<Rightarrow> int" where
  "lengthHash l = l"

definition lengthMax :: "len \<Rightarrow> len \<Rightarrow> len" where
  "lengthMax l1 l2 = (if l1 > l2 then l1 else l2)"

section \<open>The encoding\<close>

definition len_code :: "text_length \<Rightarrow> len" where
  "len_code a = toLength (lineCount a) (columnCount a)"

text \<open>The columns fit into the lower bits.\<close>

definition fits :: "text_length \<Rightarrow> bool" where
  "fits a \<longleftrightarrow> tl_nonneg a \<and> columnCount a < factor"

lemma factor_pos [simp]: "0 < factor" "0 \<le> factor"
  by (simp_all add: factor_def)

lemma fitsD: "fits a \<Longrightarrow> tl_nonneg a" "fits a \<Longrightarrow> 0 \<le> columnCount a" "fits a \<Longrightarrow> 0 \<le> lineCount a"
  "fits a \<Longrightarrow> columnCount a < factor"
  by (simp_all add: fits_def tl_nonneg_def)

lemma fits_zero [simp]: "fits 0"
  by (simp add: fits_def)

lemma len_code_div_mod:
  assumes "fits a"
  shows "len_code a div factor = lineCount a" "len_code a mod factor = columnCount a"
    "len_code a - lineCount a * factor = columnCount a"
  using fitsD [OF assms] by (simp_all add: len_code_def toLength_def)

lemma len_code_zero [simp]: "len_code 0 = 0"
  by (simp add: len_code_def toLength_def)

lemma len_code_nonneg: "fits a \<Longrightarrow> 0 \<le> len_code a"
  using fitsD [of a] by (simp add: len_code_def toLength_def factor_def)

lemma lengthToObj_len_code: "fits a \<Longrightarrow> lengthToObj (len_code a) = a"
  by (simp add: lengthToObj_def Let_def len_code_div_mod)

lemma len_code_ge_factor:
  assumes "fits a"
  shows "factor \<le> len_code a \<longleftrightarrow> lineCount a \<noteq> 0"
proof
  assume "lineCount a \<noteq> 0"
  then have "1 * factor \<le> lineCount a * factor"
    using fitsD [OF assms] by (intro mult_right_mono) auto
  then have "factor + 0 \<le> lineCount a * factor + columnCount a"
    using fitsD(2) [OF assms] by (intro add_mono) simp_all
  then show "factor \<le> len_code a"
    by (simp add: len_code_def toLength_def)
qed (use fitsD [OF assms] in \<open>auto simp: len_code_def toLength_def\<close>)

lemma lengthAdd_len_code:
  assumes "fits a" "fits b"
  shows "lengthAdd (len_code a) (len_code b) = len_code (a + b)"
proof -
  have "js_mod (len_code a) factor = columnCount a"
    using len_code_nonneg [OF assms(1)] len_code_div_mod [OF assms(1)] by (simp add: js_mod_nonneg)
  moreover have "factor \<le> len_code b \<longleftrightarrow> lineCount b \<noteq> 0" by (rule len_code_ge_factor [OF assms(2)])
  ultimately show ?thesis
    by (auto simp: lengthAdd_def Let_def len_code_def toLength_def algebra_simps)
qed

lemma len_code_less_iff:
  assumes "fits a" "fits b"
  shows "len_code a < len_code b \<longleftrightarrow> a < b"
proof -
  have less: "len_code x < len_code y" if "lineCount x < lineCount y" "fits x" "fits y" for x y
  proof -
    have "(lineCount x + 1) * factor \<le> lineCount y * factor"
      using that(1) by (intro mult_right_mono) auto
    then show ?thesis
      using fitsD [OF that(2)] fitsD [OF that(3)] by (simp add: len_code_def toLength_def algebra_simps)
  qed
  show ?thesis
    using less [OF _ assms] less [OF _ assms(2,1)]
    by (cases "lineCount a" "lineCount b" rule: linorder_cases) (auto simp: tl_less_iff len_code_def toLength_def)
qed

lemma len_code_eq_iff: "fits a \<Longrightarrow> fits b \<Longrightarrow> len_code a = len_code b \<longleftrightarrow> a = b"
  by (metis lengthToObj_len_code)

lemma len_code_le_iff: "fits a \<Longrightarrow> fits b \<Longrightarrow> len_code a \<le> len_code b \<longleftrightarrow> a \<le> b"
  by (metis len_code_less_iff not_le)

lemma lengthDiffNonNegative_len_code:
  assumes "fits a" "fits b"
  shows "lengthDiffNonNegative (len_code a) (len_code b) = len_code (tl_lengthDiffNonNegative a b)"
proof (cases "b \<le> a")
  case True
  then have "tl_lengthDiffNonNegative a b = 0"
    by (cases "a = b")
      (auto simp: tl_lengthDiffNonNegative_def tl_isLessThan_def tl_le_iff zero_text_length_def tl_zero_def
        intro: text_length.expand)
  then show ?thesis
    using True len_code_le_iff [OF assms(2,1)] by (simp add: lengthDiffNonNegative_def lengthZero_def)
next
  case False
  then have "\<not> len_code b - len_code a \<le> 0" using len_code_le_iff [OF assms(2,1)] by simp
  moreover have "\<not> tl_isLessThan b a" using False by (simp add: less_text_length_def [symmetric])
  ultimately show ?thesis
    using len_code_div_mod(1,3) [OF assms(1)] len_code_div_mod(1,3) [OF assms(2)]
    by (auto simp: lengthDiffNonNegative_def tl_lengthDiffNonNegative_def Let_def)
      (simp_all add: len_code_def)
qed

lemma fits_diff:
  assumes "fits a" "fits b"
  shows "fits (tl_lengthDiffNonNegative a b)"
  using assms by (auto simp: fits_def tl_lengthDiffNonNegative_def tl_isLessThan_def tl_nonneg_def tl_zero_def)

text \<open>A sum of lengths whose columns fit together.\<close>

definition columns :: "text_length list \<Rightarrow> int" where
  "columns as = sum_list (map columnCount as)"

lemma columns_simps [simp]: "columns [] = 0" "columns (a # as) = columnCount a + columns as"
  "columns (as @ bs) = columns as + columns bs"
  by (simp_all add: columns_def)

lemma columns_nonneg: "\<forall>a\<in>set as. tl_nonneg a \<Longrightarrow> 0 \<le> columns as"
  by (induction as) (auto simp: tl_nonneg_def)

lemma columns_tl_sum:
  assumes "\<forall>a\<in>set as. tl_nonneg a"
  shows "columnCount (tl_sum as (\<lambda>a. a)) \<le> columns as"
  using assms
proof (induction as rule: rev_induct)
  case (snoc a as)
  then show ?case using columns_nonneg [of as] by (auto simp: tl_nonneg_def)
qed simp

lemma fits_tl_sum:
  assumes "\<forall>a\<in>set as. tl_nonneg a" "columns as < factor"
  shows "fits (tl_sum as (\<lambda>a. a))"
  using columns_tl_sum [OF assms(1)] assms by (simp add: fits_def)

lemma sumLengths_len_code:
  assumes "\<forall>a\<in>set as. tl_nonneg a" "columns as < factor"
  shows "sumLengths (map len_code as) (\<lambda>l. l) = len_code (tl_sum as (\<lambda>a. a))"
  using assms
proof (induction as rule: rev_induct)
  case (snoc a as)
  have a: "fits a" "columns as < factor"
    using snoc.prems columns_nonneg [of as] by (auto simp: fits_def tl_nonneg_def)
  have s: "fits (tl_sum as (\<lambda>a. a))" using snoc.prems a by (intro fits_tl_sum) auto
  have "sumLengths (map len_code (as @ [a])) (\<lambda>l. l) =
      lengthAdd (sumLengths (map len_code as) (\<lambda>l. l)) (len_code a)"
    by (simp add: sumLengths_def)
  then show ?case using snoc a s by (simp add: lengthAdd_len_code)
qed (simp add: sumLengths_def lengthZero_def)

lemma lengthToPosition_len_code: "fits a \<Longrightarrow> lengthToPosition (len_code a) = tl_addToPosition a (Position 1 1)"
  by (auto simp: lengthToPosition_def Let_def len_code_div_mod tl_addToPosition_def)

lemma positionToLength_len_code: "positionToLength p = len_code (tl_fromPosition p)"
  by (simp add: positionToLength_def tl_fromPosition_def len_code_def)

lemma lengthOfString_len_code: "lengthOfString s = len_code (lengthOfStringObj s)"
  by (simp add: lengthOfString_def lengthOfStringObj_def len_code_def Let_def)

text \<open>Past the bound the columns spill over into the lines.\<close>

lemma columns_overflow:
  "lengthToObj (lengthAdd (toLength 0 (2 ^ 26 - 1)) (toLength 0 1)) = TextLength 1 0"
  by (simp add: lengthToObj_def lengthAdd_def toLength_def factor_def)

section \<open>Properties\<close>



end
