(* ===== verification/Small_Set.thy ===== *)
theory Small_Set
  imports Wibe_Prelude "HOL-Library.Word"
begin

text \<open>
  Sets of bracket ids (\<open>bracketPairsTree/smallImmutableSet.ts\<close>): the members below 32 are
  the bits of one 32-bit integer, the others the bits of a list of further integers. The
  instance cache and the identity of the empty array only save allocations and are left out.
  \<open>DenseKeyProvider\<close> numbers the values that are members.
\<close>

unbundle bit_operations_syntax

section \<open>SmallImmutableSet\<close>

datatype small_set = SmallSet (set_items: "32 word") (additionalItems: "32 word list")

definition ss_getEmpty :: small_set where
  "ss_getEmpty = SmallSet 0 []"

text \<open>\<open>1 << (key & 31)\<close>.\<close>

definition key_bit :: "nat \<Rightarrow> 32 word" where
  "key_bit key = push_bit (key mod 32) 1"

text \<open>\<open>arr[i] || 0\<close>.\<close>

definition item_at :: "32 word list \<Rightarrow> nat \<Rightarrow> 32 word" where
  "item_at xs i = (if i < length xs then xs ! i else 0)"

text \<open>\<open>newItems[idx] |= bit\<close>, where \<open>idx\<close> is at most the length.\<close>

definition or_at :: "nat \<Rightarrow> 32 word \<Rightarrow> 32 word list \<Rightarrow> 32 word list" where
  "or_at idx b xs = (if idx < length xs then xs[idx := xs ! idx OR b] else xs @ [0 OR b])"

definition ss_add :: "nat \<Rightarrow> small_set \<Rightarrow> small_set" where
  "ss_add key s =
     (let idx = key div 32 in
      if idx = 0 then
        (let newItem = key_bit key OR set_items s in
         if newItem = set_items s then s else SmallSet newItem (additionalItems s))
      else
        (let padded = additionalItems s @ replicate (idx - 1 - length (additionalItems s)) 0 in
         SmallSet (set_items s) (or_at (idx - 1) (key_bit key) padded)))"

definition ss_has :: "small_set \<Rightarrow> nat \<Rightarrow> bool" where
  "ss_has s key =
     (let idx = key div 32 in
      if idx = 0 then set_items s AND key_bit key \<noteq> 0
      else item_at (additionalItems s) (idx - 1) AND key_bit key \<noteq> 0)"

definition ss_merge :: "small_set \<Rightarrow> small_set \<Rightarrow> small_set" where
  "ss_merge s t =
     (let merged = set_items s OR set_items t in
      if additionalItems s = [] \<and> additionalItems t = [] then
        (if merged = set_items s then s else if merged = set_items t then t else SmallSet merged [])
      else SmallSet merged
        (map (\<lambda>i. item_at (additionalItems s) i OR item_at (additionalItems t) i)
          [0..<max (length (additionalItems s)) (length (additionalItems t))]))"

definition ss_intersects :: "small_set \<Rightarrow> small_set \<Rightarrow> bool" where
  "ss_intersects s t \<longleftrightarrow>
     set_items s AND set_items t \<noteq> 0 \<or>
     list_ex (\<lambda>i. additionalItems s ! i AND additionalItems t ! i \<noteq> 0)
       [0..<min (length (additionalItems s)) (length (additionalItems t))]"

definition ss_equals :: "small_set \<Rightarrow> small_set \<Rightarrow> bool" where
  "ss_equals s t \<longleftrightarrow>
     set_items s = set_items t \<and> length (additionalItems s) = length (additionalItems t) \<and>
     list_all (\<lambda>i. additionalItems s ! i = additionalItems t ! i) [0..<length (additionalItems s)]"

section \<open>The members\<close>

text \<open>All words of a set, and the bit of a key in them.\<close>

definition ss_words :: "small_set \<Rightarrow> 32 word list" where
  "ss_words s = set_items s # additionalItems s"

definition members :: "small_set \<Rightarrow> nat set" where
  "members s = {key. ss_has s key}"

lemma and_key_bit: "w AND key_bit key \<noteq> 0 \<longleftrightarrow> bit w (key mod 32)" for w :: "32 word"
  by (simp add: key_bit_def bit_iff_and_push_bit_not_eq_0)

lemma or_key_bit: "bit (w OR key_bit key) n \<longleftrightarrow> bit w n \<or> n = key mod 32" for w :: "32 word"
  by (auto simp: key_bit_def bit_simps)

lemma item_at_simps [simp]:
  "item_at (w # ws) 0 = w" "item_at (w # ws) (Suc i) = item_at ws i" "item_at [] i = 0"
  by (simp_all add: item_at_def)

lemma item_at_append_zeros [simp]: "item_at (xs @ replicate n 0) i = item_at xs i"
  by (simp add: item_at_def nth_append)

lemma item_at_map: "item_at (map f [0..<n]) i = (if i < n then f i else 0)"
  by (simp add: item_at_def)

lemma item_at_or_at:
  "idx \<le> length xs \<Longrightarrow> item_at (or_at idx b xs) i = (if i = idx then item_at xs i OR b else item_at xs i)"
  by (auto simp: or_at_def item_at_def nth_append)

lemma ss_has_words: "ss_has s key \<longleftrightarrow> bit (item_at (ss_words s) (key div 32)) (key mod 32)"
  by (cases "key div 32") (simp_all add: ss_has_def ss_words_def Let_def and_key_bit)

lemma div_mod_32: "j div 32 = k div 32 \<and> j mod 32 = k mod 32 \<longleftrightarrow> j = (k :: nat)"
  by (metis div_mult_mod_eq)

lemma ss_words_add:
  "item_at (ss_words (ss_add key s)) i =
     (if i = key div 32 then item_at (ss_words s) i OR key_bit key else item_at (ss_words s) i)"
proof (cases "key div 32")
  case 0
  then show ?thesis
    by (cases i) (auto simp: ss_add_def ss_words_def Let_def or.commute)
next
  case (Suc idx)
  then show ?thesis
    by (cases i) (auto simp: ss_add_def ss_words_def Let_def item_at_or_at)
qed

lemma members_add: "members (ss_add key s) = insert key (members s)"
proof -
  have "ss_has (ss_add key s) j \<longleftrightarrow> ss_has s j \<or> j = key" for j
    using div_mod_32 [of j key] by (auto simp: ss_has_words ss_words_add or_key_bit)
  then show ?thesis by (auto simp: members_def)
qed

lemma members_empty: "members ss_getEmpty = {}"
  by (auto simp: members_def ss_has_def ss_getEmpty_def Let_def)

lemma ss_words_merge: "item_at (ss_words (ss_merge s t)) i = item_at (ss_words s) i OR item_at (ss_words t) i"
  by (cases i) (auto simp: ss_merge_def ss_words_def Let_def item_at_map item_at_def)

lemma members_merge: "members (ss_merge s t) = members s \<union> members t"
  by (auto simp: members_def ss_has_words ss_words_merge bit_or_iff)

lemma ss_intersects_words: "ss_intersects s t \<longleftrightarrow> (\<exists>i. item_at (ss_words s) i AND item_at (ss_words t) i \<noteq> 0)"
proof -
  have "(\<exists>i. item_at (ss_words s) i AND item_at (ss_words t) i \<noteq> 0) \<longleftrightarrow>
      set_items s AND set_items t \<noteq> 0 \<or>
      (\<exists>i. item_at (additionalItems s) i AND item_at (additionalItems t) i \<noteq> 0)"
    by (auto simp: ss_words_def) (metis item_at_simps(1,2) not0_implies_Suc)+
  moreover have "item_at xs i AND item_at ys i \<noteq> 0 \<longleftrightarrow>
      i < min (length xs) (length ys) \<and> xs ! i AND ys ! i \<noteq> 0" for xs ys i
    by (simp add: item_at_def)
  ultimately show ?thesis by (auto simp: ss_intersects_def list_ex_iff)
qed

lemma and_nonzero_bit: "a AND b \<noteq> 0 \<longleftrightarrow> (\<exists>n<32. bit a n \<and> bit b n)" for a b :: "32 word"
  by (auto simp: bit_eq_iff bit_simps)

lemma members_intersects: "ss_intersects s t \<longleftrightarrow> members s \<inter> members t \<noteq> {}"
proof
  assume "ss_intersects s t"
  then obtain i n where n: "n < 32" "bit (item_at (ss_words s) i) n" "bit (item_at (ss_words t) i) n"
    by (auto simp: ss_intersects_words and_nonzero_bit)
  have "(32 * i + n) div 32 = i" "(32 * i + n) mod 32 = n" using n(1) by simp_all
  with n have "32 * i + n \<in> members s \<inter> members t" by (simp add: members_def ss_has_words)
  then show "members s \<inter> members t \<noteq> {}" by blast
next
  assume "members s \<inter> members t \<noteq> {}"
  then obtain k where "ss_has s k" "ss_has t k" by (auto simp: members_def)
  then show "ss_intersects s t"
    unfolding ss_intersects_words and_nonzero_bit ss_has_words by (metis mod_less_divisor zero_less_numeral)
qed

text \<open>Sets that the operations build have no trailing zero, so equal members mean equal words.\<close>

definition canonical :: "small_set \<Rightarrow> bool" where
  "canonical s \<longleftrightarrow> additionalItems s = [] \<or> last (additionalItems s) \<noteq> 0"

lemma or_key_bit_nonzero: "w OR key_bit key \<noteq> 0" for w :: "32 word"
proof
  assume "w OR key_bit key = 0"
  with or_key_bit [of w key "key mod 32"] show False by simp
qed

lemma canonical_empty: "canonical ss_getEmpty"
  by (simp add: canonical_def ss_getEmpty_def)

lemma canonical_add: "canonical s \<Longrightarrow> canonical (ss_add key s)"
  using or_key_bit_nonzero [of _ key] or_key_bit_nonzero [of 0 key]
  by (auto simp: canonical_def ss_add_def Let_def or_at_def last_list_update split: if_split_asm)

lemma canonical_merge:
  assumes "canonical s" "canonical t"
  shows "canonical (ss_merge s t)"
proof -
  have zero: "a OR b = 0 \<longleftrightarrow> a = 0 \<and> b = 0" for a b :: "32 word"
    by (auto simp: bit_eq_iff bit_simps)
  have last: "item_at xs (length xs - 1) = last xs" if "xs \<noteq> []" for xs
    using that by (simp add: item_at_def last_conv_nth)
  show ?thesis
  proof (cases "additionalItems s = [] \<and> additionalItems t = []")
    case False
    then have "0 < max (length (additionalItems s)) (length (additionalItems t))"
      by (auto simp: less_max_iff_disj)
    then show ?thesis
      using False assms last [of "additionalItems s"] last [of "additionalItems t"]
      by (auto simp: canonical_def ss_merge_def Let_def last_conv_nth zero max_def split: if_splits)
  qed (auto simp: canonical_def ss_merge_def Let_def)
qed

lemma canonical_list_eq:
  assumes "\<And>i. item_at xs i = item_at ys i" "xs = [] \<or> last xs \<noteq> 0" "ys = [] \<or> last ys \<noteq> 0"
  shows "xs = ys"
proof -
  have le: "length xs \<le> length ys" if "\<And>i. item_at xs i = item_at ys i" "xs = [] \<or> last xs \<noteq> 0"
    for xs ys :: "32 word list"
  proof (cases "xs = []")
    case False
    then have "item_at xs (length xs - 1) \<noteq> 0" using that(2) by (simp add: item_at_def last_conv_nth)
    then show ?thesis using that(1) by (metis Suc_pred' item_at_def length_greater_0_conv not_less_eq_eq not_le False)
  qed simp
  have "length xs = length ys" using le [of xs ys] le [of ys xs] assms by (simp add: le_antisym)
  moreover have "xs ! i = ys ! i" if "i < length xs" for i
    using assms(1) [of i] that calculation by (simp add: item_at_def)
  ultimately show ?thesis by (rule nth_equalityI)
qed

lemma ss_equals_eq: "ss_equals s t \<longleftrightarrow> s = t"
  by (cases s; cases t) (auto simp: ss_equals_def list_all_iff intro: nth_equalityI)

lemma members_equals:
  assumes "canonical s" "canonical t"
  shows "ss_equals s t \<longleftrightarrow> members s = members t"
proof
  assume eq: "members s = members t"
  have "item_at (ss_words s) i = item_at (ss_words t) i" for i
  proof (rule bit_word_eqI)
    fix n assume "n < LENGTH(32)"
    then have n: "(32 * i + n) div 32 = i" "(32 * i + n) mod 32 = n" by simp_all
    have "ss_has s (32 * i + n) \<longleftrightarrow> ss_has t (32 * i + n)" using eq by (auto simp: members_def)
    then show "bit (item_at (ss_words s) i) n \<longleftrightarrow> bit (item_at (ss_words t) i) n"
      unfolding ss_has_words n .
  qed
  note words = this
  have "set_items s = set_items t" using words [of 0] by (simp add: ss_words_def)
  moreover have "additionalItems s = additionalItems t"
    using assms words [of "Suc _"] by (intro canonical_list_eq) (simp_all add: ss_words_def canonical_def)
  ultimately show "ss_equals s t" by (cases s; cases t) (simp add: ss_equals_eq)
qed (simp add: ss_equals_eq)

section \<open>DenseKeyProvider\<close>

text \<open>The map from values to keys, in insertion order.\<close>

type_synonym 'a key_provider = "('a, nat) jmap"

definition kp_getKey :: "'a \<Rightarrow> 'a key_provider \<Rightarrow> nat \<times> 'a key_provider" where
  "kp_getKey v items =
     (case map_of items v of
        Some existing \<Rightarrow> (existing, items)
      | None \<Rightarrow> (length items, AList.update v (length items) items))"

definition kp_reverseLookup :: "nat \<Rightarrow> 'a key_provider \<Rightarrow> 'a option" where
  "kp_reverseLookup key items = map_option fst (List.find (\<lambda>(_, v). v = key) items)"

text \<open>\<open>set.has\<close> asks the provider for the key of a value that it has, which changes nothing.\<close>

definition kp_reverseLookupSet :: "small_set \<Rightarrow> 'a key_provider \<Rightarrow> 'a list" where
  "kp_reverseLookupSet s items = filter (\<lambda>v. ss_has s (fst (kp_getKey v items))) (map fst items)"

definition kp_keys :: "'a key_provider \<Rightarrow> 'a list" where
  "kp_keys items = map fst items"

text \<open>The keys are the positions in the map.\<close>

definition kp_ok :: "'a key_provider \<Rightarrow> bool" where
  "kp_ok items \<longleftrightarrow> distinct (map fst items) \<and> map snd items = [0..<length items]"

lemma kp_ok_Nil: "kp_ok []"
  by (simp add: kp_ok_def)

lemma kp_ok_getKey: "kp_ok items \<Longrightarrow> kp_ok (snd (kp_getKey v items))"
  by (auto simp: kp_ok_def kp_getKey_def AList_update_new map_of_eq_None_iff split: option.split)

lemma kp_ok_nth: "kp_ok items \<Longrightarrow> k < length items \<Longrightarrow> snd (items ! k) = k"
  unfolding kp_ok_def by (metis add_0 nth_map nth_upt)

lemma kp_ok_map_of:
  assumes "kp_ok items"
  shows "map_of items v = Some k \<longleftrightarrow> k < length items \<and> fst (items ! k) = v"
proof
  assume "map_of items v = Some k"
  then have "(v, k) \<in> set items" by (rule map_of_SomeD)
  then obtain i where "i < length items" "items ! i = (v, k)" by (auto simp: in_set_conv_nth)
  with kp_ok_nth [OF assms, of i] show "k < length items \<and> fst (items ! k) = v" by auto
next
  assume k: "k < length items \<and> fst (items ! k) = v"
  with kp_ok_nth [OF assms, of k] have "items ! k = (v, k)" by (simp add: prod_eq_iff)
  with k have "(v, k) \<in> set items" by (metis nth_mem)
  with assms show "map_of items v = Some k" by (simp add: kp_ok_def)
qed

text \<open>A key stays the key of its value, distinct values get distinct keys, and the lookup inverts.\<close>

lemma kp_getKey_stable:
  assumes "kp_ok items" "map_of items v = Some k"
  shows "map_of (snd (kp_getKey w items)) v = Some k"
  using assms by (auto simp: kp_getKey_def AList_update_new map_of_eq_None_iff map_add_def split: option.split)

lemma kp_getKey_known: "kp_ok items \<Longrightarrow> map_of (snd (kp_getKey v items)) v = Some (fst (kp_getKey v items))"
  by (auto simp: kp_getKey_def update_conv' split: option.split)

lemma kp_reverseLookup_iff:
  assumes "kp_ok items"
  shows "kp_reverseLookup k items = Some v \<longleftrightarrow> map_of items v = Some k"
proof -
  have "List.find (\<lambda>(_, w). w = k) items = (if k < length items then Some (items ! k) else None)"
  proof (cases "k < length items")
    case True
    then have "\<forall>j<k. snd (items ! j) \<noteq> k" using kp_ok_nth [OF assms] by simp
    with True have "List.find (\<lambda>(_, w). w = k) items = Some (items ! k)"
      unfolding find_Some_iff case_prod_beta using kp_ok_nth [OF assms True] by blast
    with True show ?thesis by simp
  next
    case False
    with kp_ok_nth [OF assms] have "\<nexists>p. p \<in> set items \<and> snd p = k"
      by (metis in_set_conv_nth)
    then show ?thesis using False by (auto simp: find_None_iff case_prod_beta)
  qed
  then show ?thesis
    by (cases "items ! k") (auto simp: kp_reverseLookup_def kp_ok_map_of [OF assms])
qed

lemma kp_reverseLookupSet_eq:
  assumes "kp_ok items"
  shows "set (kp_reverseLookupSet s items) = {v. \<exists>k\<in>members s. map_of items v = Some k}"
proof -
  have "fst (kp_getKey v items) = k" if "map_of items v = Some k" for v k
    using that by (simp add: kp_getKey_def)
  moreover have "v \<in> fst ` set items \<longleftrightarrow> (\<exists>k. map_of items v = Some k)" for v
    by (metis domD domI dom_map_of_conv_image_fst)
  ultimately show ?thesis by (force simp: kp_reverseLookupSet_def members_def)
qed

section \<open>Properties\<close>

text \<open>The sets that the three constructing operations build.\<close>

inductive built :: "small_set \<Rightarrow> nat set \<Rightarrow> bool" where
  built_empty: "built ss_getEmpty {}"
| built_add: "built s M \<Longrightarrow> built (ss_add key s) (insert key M)"
| built_merge: "built s M \<Longrightarrow> built t N \<Longrightarrow> built (ss_merge s t) (M \<union> N)"

lemma built_members: "built s M \<Longrightarrow> members s = M \<and> canonical s"
  by (induction rule: built.induct)
    (simp_all add: members_empty members_add members_merge canonical_empty canonical_add canonical_merge)

text \<open>
  However a set was built from the empty set by additions and unions, \<open>has\<close> decides
  membership in the set of keys that it stands for, two sets intersect exactly if these sets
  do, and \<open>equals\<close>, which compares the words, decides whether they are equal.
\<close>

lemma small_set_refines:
  assumes "built s M" "built t N"
  shows "(ss_has s key \<longleftrightarrow> key \<in> M) \<and>
    (ss_intersects s t \<longleftrightarrow> M \<inter> N \<noteq> {}) \<and> (ss_equals s t \<longleftrightarrow> M = N)"
  using built_members [OF assms(1)] built_members [OF assms(2)] members_intersects [of s t]
    members_equals [of s t] by (auto simp: members_def)

end
