(* ===== verification/Bracket_Tree.thy ===== *)
theory Bracket_Tree
  imports Length_Code Small_Set
begin

text \<open>
  The syntax tree of brackets (\<open>bracketPairsTree/ast.ts\<close>) and the concatenation of its
  (2,3)-trees of lists (\<open>concat23Trees.ts\<close>). Nodes are values: where the code changes a
  node in place it owns the node, and the changed node takes its place here. A call that
  throws is \<open>None\<close>. The kind of a bracket (\<open>BracketKind\<close>) is a parameter. The minimal
  indentation and its cache belong to the text model and are left out.
\<close>

section \<open>Nodes\<close>

datatype 'b bracket = BracketNode (bk_length: len) (bk_info: 'b) (bk_ids: small_set)

datatype 'b ast =
    Text len
  | Bracket "'b bracket"
  | BracketPair len "'b bracket" "'b ast option" "'b bracket option" small_set
  | UnexpectedClosingBracket small_set len
  | List23 bool len nat "'b ast" "'b ast" "'b ast option" small_set
  | ListArray bool len nat "'b ast list" small_set

text \<open>The flag of a list says that it is immutable.\<close>

primrec ast_length :: "'b ast \<Rightarrow> len" where
  "ast_length (Text l) = l"
| "ast_length (Bracket b) = bk_length b"
| "ast_length (BracketPair l op c cl m) = l"
| "ast_length (UnexpectedClosingBracket m l) = l"
| "ast_length (List23 im l h a b c m) = l"
| "ast_length (ListArray im l h cs m) = l"

primrec missingOpeningBracketIds :: "'b ast \<Rightarrow> small_set" where
  "missingOpeningBracketIds (Text l) = ss_getEmpty"
| "missingOpeningBracketIds (Bracket b) = ss_getEmpty"
| "missingOpeningBracketIds (BracketPair l op c cl m) = m"
| "missingOpeningBracketIds (UnexpectedClosingBracket m l) = m"
| "missingOpeningBracketIds (List23 im l h a b c m) = m"
| "missingOpeningBracketIds (ListArray im l h cs m) = m"

primrec listHeight :: "'b ast \<Rightarrow> nat" where
  "listHeight (Text l) = 0"
| "listHeight (Bracket b) = 0"
| "listHeight (BracketPair l op c cl m) = 0"
| "listHeight (UnexpectedClosingBracket m l) = 0"
| "listHeight (List23 im l h a b c m) = h"
| "listHeight (ListArray im l h cs m) = h"

primrec is_list :: "'b ast \<Rightarrow> bool" where
  "is_list (Text l) = False"
| "is_list (Bracket b) = False"
| "is_list (BracketPair l op c cl m) = False"
| "is_list (UnexpectedClosingBracket m l) = False"
| "is_list (List23 im l h a b c m) = True"
| "is_list (ListArray im l h cs m) = True"

definition opt_list :: "'a option \<Rightarrow> 'a list" where
  "opt_list x = (case x of None \<Rightarrow> [] | Some a \<Rightarrow> [a])"

lemma opt_list_simps [simp]: "opt_list None = []" "opt_list (Some a) = [a]"
  by (simp_all add: opt_list_def)

text \<open>The children of a node; a pair has three places, of which the last two may be empty.\<close>

primrec childrenLength :: "'b ast \<Rightarrow> nat" where
  "childrenLength (Text l) = 0"
| "childrenLength (Bracket b) = 0"
| "childrenLength (BracketPair l op c cl m) = 3"
| "childrenLength (UnexpectedClosingBracket m l) = 0"
| "childrenLength (List23 im l h a b c m) = (if c = None then 2 else 3)"
| "childrenLength (ListArray im l h cs m) = length cs"

definition getChild :: "'b ast \<Rightarrow> nat \<Rightarrow> 'b ast option" where
  "getChild t idx =
     (case t of
        BracketPair l op c cl m \<Rightarrow>
          (if idx = 0 then Some (Bracket op) else if idx = 1 then c else map_option Bracket cl)
      | List23 im l h a b c m \<Rightarrow> (if idx = 0 then Some a else if idx = 1 then Some b else c)
      | ListArray im l h cs m \<Rightarrow> (if idx < length cs then Some (cs ! idx) else None)
      | _ \<Rightarrow> None)"

definition children :: "'b ast \<Rightarrow> 'b ast list" where
  "children t =
     (case t of
        BracketPair l op c cl m \<Rightarrow> Bracket op # opt_list c @ map Bracket (opt_list cl)
      | List23 im l h a b c m \<Rightarrow> a # b # opt_list c
      | ListArray im l h cs m \<Rightarrow> cs
      | _ \<Rightarrow> [])"

definition createPair :: "'b bracket \<Rightarrow> 'b ast option \<Rightarrow> 'b bracket option \<Rightarrow> 'b ast" where
  "createPair openingBracket child closingBracket =
     (let l0 = bk_length openingBracket;
          l1 = (case child of None \<Rightarrow> l0 | Some c \<Rightarrow> lengthAdd l0 (ast_length c));
          l2 = (case closingBracket of None \<Rightarrow> l1 | Some c \<Rightarrow> lengthAdd l1 (bk_length c))
      in BracketPair l2 openingBracket child closingBracket
        (case child of None \<Rightarrow> ss_getEmpty | Some c \<Rightarrow> missingOpeningBracketIds c))"

text \<open>\<open>handleChildrenChanged\<close>: length and missing ids from the children, of which there is one.\<close>

definition sum_length :: "'b ast list \<Rightarrow> len" where
  "sum_length items = foldl (\<lambda>l t. lengthAdd l (ast_length t)) (ast_length (hd items)) (tl items)"

definition merge_missing :: "'b ast list \<Rightarrow> small_set" where
  "merge_missing items =
     foldl (\<lambda>s t. ss_merge s (missingOpeningBracketIds t)) (missingOpeningBracketIds (hd items)) (tl items)"

definition create23 :: "bool \<Rightarrow> 'b ast \<Rightarrow> 'b ast \<Rightarrow> 'b ast option \<Rightarrow> 'b ast option" where
  "create23 immutable item1 item2 item3 =
     (if listHeight item1 \<noteq> listHeight item2 then None
      else (case item3 of
          None \<Rightarrow>
            Some (List23 immutable (lengthAdd (ast_length item1) (ast_length item2)) (listHeight item1 + 1)
              item1 item2 None
              (ss_merge (missingOpeningBracketIds item1) (missingOpeningBracketIds item2)))
        | Some i3 \<Rightarrow>
            if listHeight item1 \<noteq> listHeight i3 then None
            else Some (List23 immutable
                (lengthAdd (lengthAdd (ast_length item1) (ast_length item2)) (ast_length i3))
                (listHeight item1 + 1) item1 item2 item3
                (ss_merge (ss_merge (missingOpeningBracketIds item1) (missingOpeningBracketIds item2))
                  (missingOpeningBracketIds i3)))))"

definition getEmptyList :: "'b ast" where
  "getEmptyList = ListArray True lengthZero 0 [] ss_getEmpty"

definition createList :: "bool \<Rightarrow> 'b ast list \<Rightarrow> 'b ast" where
  "createList immutable items =
     (if items = [] then getEmptyList
      else ListArray immutable (sum_length items) (listHeight (hd items) + 1) items (merge_missing items))"

text \<open>\<open>toMutable\<close>: an immutable list is copied into a mutable one.\<close>

primrec toMutable :: "'b ast \<Rightarrow> 'b ast" where
  "toMutable (Text l) = Text l"
| "toMutable (Bracket b) = Bracket b"
| "toMutable (BracketPair l op c cl m) = BracketPair l op c cl m"
| "toMutable (UnexpectedClosingBracket m l) = UnexpectedClosingBracket m l"
| "toMutable (List23 im l h a b c m) = List23 False l h a b c m"
| "toMutable (ListArray im l h cs m) = ListArray False l h cs m"

text \<open>\<open>throwIfImmutable\<close> makes the change of an immutable list fail.\<close>

definition handleChildrenChanged :: "'b ast \<Rightarrow> 'b ast option" where
  "handleChildrenChanged t =
     (case t of
        List23 im l h a b c m \<Rightarrow>
          if im then None
          else Some (List23 im (sum_length (a # b # opt_list c)) h a b c (merge_missing (a # b # opt_list c)))
      | ListArray im l h cs m \<Rightarrow>
          if im \<or> cs = [] then None else Some (ListArray im (sum_length cs) h cs (merge_missing cs))
      | _ \<Rightarrow> None)"

definition setLastChild :: "'b ast \<Rightarrow> 'b ast \<Rightarrow> 'b ast" where
  "setLastChild child t =
     (case t of
        List23 im l h a b None m \<Rightarrow> List23 im l h a child None m
      | List23 im l h a b (Some c) m \<Rightarrow> List23 im l h a b (Some child) m
      | ListArray im l h cs m \<Rightarrow> ListArray im l h (cs[length cs - 1 := child]) m
      | _ \<Rightarrow> t)"

definition setFirstChild :: "'b ast \<Rightarrow> 'b ast \<Rightarrow> 'b ast" where
  "setFirstChild child t =
     (case t of
        List23 im l h a b c m \<Rightarrow> List23 im l h child b c m
      | ListArray im l h cs m \<Rightarrow> ListArray im l h (cs[0 := child]) m
      | _ \<Rightarrow> t)"

text \<open>
  \<open>makeLastElementMutable\<close> and \<open>makeFirstElementMutable\<close>: the child in a mutable form, which
  replaces it in the list; \<open>None\<close> if the list is immutable or has no children.
\<close>

definition makeLastElementMutable :: "'b ast \<Rightarrow> 'b ast option" where
  "makeLastElementMutable t =
     (case t of
        List23 im l h a b c m \<Rightarrow> if im then None else Some (toMutable (case c of None \<Rightarrow> b | Some d \<Rightarrow> d))
      | ListArray im l h cs m \<Rightarrow> if im \<or> cs = [] then None else Some (toMutable (last cs))
      | _ \<Rightarrow> None)"

definition makeFirstElementMutable :: "'b ast \<Rightarrow> 'b ast option" where
  "makeFirstElementMutable t =
     (case t of
        List23 im l h a b c m \<Rightarrow> if im then None else Some (toMutable a)
      | ListArray im l h cs m \<Rightarrow> if im \<or> cs = [] then None else Some (toMutable (hd cs))
      | _ \<Rightarrow> None)"

definition appendChildOfSameHeight :: "'b ast \<Rightarrow> 'b ast \<Rightarrow> 'b ast option" where
  "appendChildOfSameHeight node t =
     (case t of
        List23 im l h a b c m \<Rightarrow>
          if c \<noteq> None \<or> im then None else handleChildrenChanged (List23 im l h a b (Some node) m)
      | ListArray im l h cs m \<Rightarrow> if im then None else handleChildrenChanged (ListArray im l h (cs @ [node]) m)
      | _ \<Rightarrow> None)"

definition prependChildOfSameHeight :: "'b ast \<Rightarrow> 'b ast \<Rightarrow> 'b ast option" where
  "prependChildOfSameHeight node t =
     (case t of
        List23 im l h a b c m \<Rightarrow>
          if c \<noteq> None \<or> im then None else handleChildrenChanged (List23 im l h node a (Some b) m)
      | ListArray im l h cs m \<Rightarrow> if im then None else handleChildrenChanged (ListArray im l h (node # cs) m)
      | _ \<Rightarrow> None)"

text \<open>The removed child and the rest of the list.\<close>

definition unappendChild :: "'b ast \<Rightarrow> ('b ast \<times> 'b ast) option" where
  "unappendChild t =
     (case t of
        List23 im l h a b (Some c) m \<Rightarrow>
          if im then None else map_option (Pair c) (handleChildrenChanged (List23 im l h a b None m))
      | ListArray im l h cs m \<Rightarrow>
          if im \<or> cs = [] then None
          else map_option (Pair (last cs)) (handleChildrenChanged (ListArray im l h (butlast cs) m))
      | _ \<Rightarrow> None)"

definition unprependChild :: "'b ast \<Rightarrow> ('b ast \<times> 'b ast) option" where
  "unprependChild t =
     (case t of
        List23 im l h a b (Some c) m \<Rightarrow>
          if im then None else map_option (Pair a) (handleChildrenChanged (List23 im l h b c None m))
      | ListArray im l h cs m \<Rightarrow>
          if im \<or> cs = [] then None
          else map_option (Pair (hd cs)) (handleChildrenChanged (ListArray im l h (tl cs) m))
      | _ \<Rightarrow> None)"

text \<open>\<open>canBeReused\<close>: the last node below the lists decides; \<open>None\<close> for an empty list inside a list.\<close>

definition leaf_canBeReused :: "small_set \<Rightarrow> 'b ast \<Rightarrow> bool" where
  "leaf_canBeReused openBracketIds t =
     (case t of
        Text l \<Rightarrow> True
      | Bracket b \<Rightarrow> False
      | BracketPair l op c cl m \<Rightarrow> cl \<noteq> None \<and> \<not> ss_intersects openBracketIds m
      | UnexpectedClosingBracket m l \<Rightarrow> \<not> ss_intersects openBracketIds m
      | _ \<Rightarrow> False)"

lemma size_last_child: "cs \<noteq> [] \<Longrightarrow> size (last cs) < Suc (size_list size cs)"
  unfolding less_Suc_eq_le by (rule size_list_estimation' [OF last_in_set order_refl])

function last_leaf :: "'b ast \<Rightarrow> 'b ast option" where
  "last_leaf t =
     (case t of
        List23 im l h a b c m \<Rightarrow> last_leaf (case c of None \<Rightarrow> b | Some d \<Rightarrow> d)
      | ListArray im l h cs m \<Rightarrow> if cs = [] then None else last_leaf (last cs)
      | _ \<Rightarrow> Some t)"
  by pat_completeness auto
termination
  by (relation "measure size") (auto simp: size_last_child split: option.split)

declare last_leaf.simps [simp del]

definition canBeReused :: "small_set \<Rightarrow> 'b ast \<Rightarrow> bool option" where
  "canBeReused openBracketIds t =
     (if is_list t then
        (if ss_intersects openBracketIds (missingOpeningBracketIds t) then Some False
         else if childrenLength t = 0 then Some False
         else map_option (leaf_canBeReused openBracketIds) (last_leaf t))
      else Some (leaf_canBeReused openBracketIds t))"

function flattenLists :: "'b ast \<Rightarrow> 'b ast" where
  "flattenLists t =
     (case t of
        BracketPair l op c cl m \<Rightarrow>
          createPair op (case c of None \<Rightarrow> None | Some d \<Rightarrow> Some (flattenLists d)) cl
      | List23 im l h a b c m \<Rightarrow>
          createList False (concat (map (\<lambda>n. if is_list n then children n else [n])
            (map flattenLists (a # b # opt_list c))))
      | ListArray im l h cs m \<Rightarrow>
          createList False (concat (map (\<lambda>n. if is_list n then children n else [n]) (map flattenLists cs)))
      | _ \<Rightarrow> t)"
  by pat_completeness auto
termination
proof (relation "measure size", goal_cases)
  case (3 t l im h a b c m x)
  then show ?case by (cases c) auto
next
  case (4 t im l h cs m x)
  then show ?case by (auto intro: size_list_estimation' less_Suc_eq_le[THEN iffD2])
qed auto

text \<open>A deep clone is mutable throughout.\<close>

function deepClone :: "'b ast \<Rightarrow> 'b ast" where
  "deepClone t =
     (case t of
        BracketPair l op c cl m \<Rightarrow>
          BracketPair l op (case c of None \<Rightarrow> None | Some d \<Rightarrow> Some (deepClone d)) cl m
      | List23 im l h a b c m \<Rightarrow>
          List23 False l h (deepClone a) (deepClone b)
            (case c of None \<Rightarrow> None | Some d \<Rightarrow> Some (deepClone d)) m
      | ListArray im l h cs m \<Rightarrow> ListArray False l h (map deepClone cs) m
      | _ \<Rightarrow> t)"
  by pat_completeness auto
termination
proof (relation "measure size", goal_cases)
  case (6 t im l h cs m x)
  then show ?case by (auto intro: size_list_estimation' less_Suc_eq_le[THEN iffD2])
qed auto

declare flattenLists.simps [simp del] deepClone.simps [simp del]

section \<open>Well-formed lists\<close>

text \<open>
  The items of a list in order: the nodes below its (2,3)-tree. A tree is well formed if its
  subtrees have equal heights and its stored height, length and missing ids are current.
\<close>

primrec leaves :: "'b ast \<Rightarrow> 'b ast list" where
  "leaves (Text l) = [Text l]"
| "leaves (Bracket b) = [Bracket b]"
| "leaves (BracketPair l op c cl m) = [BracketPair l op c cl m]"
| "leaves (UnexpectedClosingBracket m l) = [UnexpectedClosingBracket m l]"
| "leaves (List23 im l h a b c m) =
     leaves a @ leaves b @ (case map_option leaves c of None \<Rightarrow> [] | Some xs \<Rightarrow> xs)"
| "leaves (ListArray im l h cs m) = concat (map leaves cs)"

primrec tree23 :: "'b ast \<Rightarrow> bool" where
  "tree23 (Text l) = True"
| "tree23 (Bracket b) = True"
| "tree23 (BracketPair l op c cl m) = True"
| "tree23 (UnexpectedClosingBracket m l) = True"
| "tree23 (List23 im l h a b c m) =
     (tree23 a \<and> tree23 b \<and> (case map_option tree23 c of None \<Rightarrow> True | Some x \<Rightarrow> x) \<and>
      h = listHeight a + 1 \<and> listHeight b = listHeight a \<and>
      (\<forall>d. c = Some d \<longrightarrow> listHeight d = listHeight a) \<and>
      l = sum_length (a # b # opt_list c) \<and> m = merge_missing (a # b # opt_list c))"
| "tree23 (ListArray im l h cs m) = False"

lemma leaves_List23 [simp]: "leaves (List23 im l h a b c m) = concat (map leaves (a # b # opt_list c))"
  by (cases c) auto

lemma tree23_List23 [simp]:
  "tree23 (List23 im l h a b c m) \<longleftrightarrow>
     (\<forall>t\<in>set (a # b # opt_list c). tree23 t \<and> listHeight t = listHeight a) \<and> h = listHeight a + 1 \<and>
     l = sum_length (a # b # opt_list c) \<and> m = merge_missing (a # b # opt_list c)"
  by (cases c) auto

declare leaves.simps(5) [simp del] tree23.simps(5) [simp del]

lemma tree23_toMutable [simp]:
  "tree23 (toMutable t) = tree23 t" "listHeight (toMutable t) = listHeight t"
  "leaves (toMutable t) = leaves t"
  by (cases t; simp)+

lemma toMutable_idem [simp]: "toMutable (toMutable t) = toMutable t"
  by (cases t) auto

lemma leaves_not_Nil: "tree23 t \<Longrightarrow> leaves t \<noteq> []"
  by (induction t) auto

lemma leaves_no_list: "tree23 t \<Longrightarrow> x \<in> set (leaves t) \<Longrightarrow> \<not> is_list x"
proof (induction t arbitrary: x)
  case (List23 im l h a b c m)
  then show ?case by (cases c) auto
qed auto

text \<open>The height of a tree is at most logarithmic in the number of its items.\<close>

lemma tree23_balanced: "tree23 t \<Longrightarrow> 2 ^ listHeight t \<le> length (leaves t) \<and> length (leaves t) \<le> 3 ^ listHeight t"
proof (induction t)
  case (List23 im l h a b c m)
  have ih: "2 ^ listHeight a \<le> length (leaves t) \<and> length (leaves t) \<le> 3 ^ listHeight a"
    if "t \<in> set (a # b # opt_list c)" for t
  proof (cases "c = Some t")
    case True
    with List23 show ?thesis by auto
  next
    case False
    with that have "t = a \<or> t = b" by (cases c) auto
    with List23 show ?thesis by auto
  qed
  show ?case
  proof (cases c)
    case None
    then show ?thesis using ih [of a] ih [of b] List23.prems by simp
  next
    case (Some d)
    then show ?thesis using ih [of a] ih [of b] ih [of d] List23.prems by simp
  qed
qed auto

lemma create23_eq:
  assumes "listHeight b = listHeight a" "\<forall>d. c = Some d \<longrightarrow> listHeight d = listHeight a"
  shows "create23 im a b c =
    Some (List23 im (sum_length (a # b # opt_list c)) (listHeight a + 1) a b c (merge_missing (a # b # opt_list c)))"
  using assms by (cases c) (auto simp: create23_def sum_length_def merge_missing_def)

lemma create23_tree23:
  assumes "tree23 a" "tree23 b" "listHeight b = listHeight a"
    "\<forall>d. c = Some d \<longrightarrow> tree23 d \<and> listHeight d = listHeight a"
  shows "\<exists>t. create23 im a b c = Some t \<and> tree23 t \<and> listHeight t = listHeight a + 1 \<and>
    leaves t = concat (map leaves (a # b # opt_list c))"
proof -
  have "\<forall>t\<in>set (a # b # opt_list c). tree23 t \<and> listHeight t = listHeight a"
    using assms by (cases c) auto
  then show ?thesis
    using assms(3,4) by (subst create23_eq) auto
qed

end
