(* ===== verification/Concat_Trees.thy ===== *)
theory Concat_Trees
  imports Bracket_Tree
begin

text \<open>
  \<open>concat23Trees.ts\<close>: a list of (2,3)-trees of any heights becomes one (2,3)-tree with the
  same items in the same order. Runs of trees of the same height are joined level by level,
  and the joined trees by appending and prepending along the right and left spine.
\<close>

text \<open>
  One pass of the loop of \<open>concat23TreesOfSameHeight\<close> over the first \<open>length\<close> items: they are
  joined in pairs, a last odd one goes to the last pair.
\<close>

fun join_level :: "bool \<Rightarrow> 'b ast list \<Rightarrow> 'b ast list option" where
  "join_level im [a, b, c] = map_option (\<lambda>t. [t]) (create23 im a b (Some c))"
| "join_level im (a # b # rest) =
     Option.bind (create23 im a b None) (\<lambda>t. map_option ((#) t) (join_level im rest))"
| "join_level im _ = Some []"

lemma join_level_length: "join_level im xs = Some ys \<Longrightarrow> length ys = length xs div 2"
  by (induction im xs arbitrary: ys rule: join_level.induct) (auto simp: bind_eq_Some_conv)

function same_height_loop :: "bool \<Rightarrow> 'b ast list \<Rightarrow> 'b ast option" where
  "same_height_loop im items =
     (if 3 < length items
      then (case join_level im items of None \<Rightarrow> None | Some next \<Rightarrow> same_height_loop im next)
      else create23 im (items ! 0) (items ! 1) (if 3 \<le> length items then Some (items ! 2) else None))"
  by pat_completeness auto
termination
  by (relation "measure (\<lambda>(im, items). length items)") (auto dest: join_level_length)

declare same_height_loop.simps [simp del]

text \<open>The outer option is the exception, the inner one the null that the code returns.\<close>

definition concat23TreesOfSameHeight :: "bool \<Rightarrow> 'b ast list \<Rightarrow> 'b ast option option" where
  "concat23TreesOfSameHeight createImmutableLists items =
     (case items of
        [] \<Rightarrow> Some None
      | [t] \<Rightarrow> Some (Some t)
      | _ \<Rightarrow> map_option Some (same_height_loop createImmutableLists items))"

definition heightDiff :: "'b ast \<Rightarrow> 'b ast \<Rightarrow> int" where
  "heightDiff node1 node2 = \<bar>int (listHeight node1) - int (listHeight node2)\<bar>"

text \<open>
  \<open>append\<close>: the descent to the node of the right height makes the last children mutable;
  on the way up a full parent gives its last child and the pending node to its own parent. The
  result is the changed node and what is still pending.
\<close>

definition append_up ::
  "'b ast \<times> 'b ast option \<Rightarrow> 'b ast \<Rightarrow> ('b ast \<times> 'b ast option) option" where
  "append_up changed parent =
     (let p = setLastChild (fst changed) parent in
      case snd changed of
        None \<Rightarrow> map_option (\<lambda>q. (q, None)) (handleChildrenChanged p)
      | Some pending \<Rightarrow>
          if 3 \<le> childrenLength p
          then Option.bind (unappendChild p) (\<lambda>(lastChild, q).
            map_option (\<lambda>n. (q, Some n)) (create23 False lastChild pending None))
          else map_option (\<lambda>q. (q, None)) (appendChildOfSameHeight pending p))"

lemma size_toMutable [simp]: "size (toMutable t) = size t"
  by (cases t) auto

lemma size_makeLast: "makeLastElementMutable t = Some c \<Longrightarrow> size c < size t"
  by (cases t) (auto simp: makeLastElementMutable_def size_last_child split: if_splits option.splits)

lemma size_hd_child: "cs \<noteq> [] \<Longrightarrow> size (hd cs) < Suc (size_list size cs)"
  unfolding less_Suc_eq_le by (rule size_list_estimation' [OF list.set_sel(1) order_refl])

lemma size_makeFirst: "makeFirstElementMutable t = Some c \<Longrightarrow> size c < size t"
  by (cases t) (auto simp: makeFirstElementMutable_def size_hd_child split: if_splits option.splits)

function append_at :: "'b ast \<Rightarrow> 'b ast \<Rightarrow> ('b ast \<times> 'b ast option) option" where
  "append_at curNode nodeToAppend =
     (if listHeight nodeToAppend = listHeight curNode then Some (curNode, Some nodeToAppend)
      else (case makeLastElementMutable curNode of
          None \<Rightarrow> None
        | Some c \<Rightarrow> Option.bind (append_at c nodeToAppend) (\<lambda>r. append_up r curNode)))"
  by pat_completeness auto
termination
  by (relation "measure (\<lambda>(t, n). size t)") (auto dest: size_makeLast)

declare append_at.simps [simp del]

definition append_node :: "'b ast \<Rightarrow> 'b ast \<Rightarrow> 'b ast option" where
  "append_node list nodeToAppend =
     Option.bind (append_at (toMutable list) nodeToAppend) (\<lambda>(t, pending).
       case pending of None \<Rightarrow> Some t | Some n \<Rightarrow> create23 False t n None)"

definition prepend_up ::
  "'b ast \<times> 'b ast option \<Rightarrow> 'b ast \<Rightarrow> ('b ast \<times> 'b ast option) option" where
  "prepend_up changed parent =
     (let p = setFirstChild (fst changed) parent in
      case snd changed of
        None \<Rightarrow> map_option (\<lambda>q. (q, None)) (handleChildrenChanged p)
      | Some pending \<Rightarrow>
          if 3 \<le> childrenLength p
          then Option.bind (unprependChild p) (\<lambda>(firstChild, q).
            map_option (\<lambda>n. (q, Some n)) (create23 False pending firstChild None))
          else map_option (\<lambda>q. (q, None)) (prependChildOfSameHeight pending p))"

function prepend_at :: "'b ast \<Rightarrow> 'b ast \<Rightarrow> ('b ast \<times> 'b ast option) option" where
  "prepend_at curNode nodeToAppend =
     (if listHeight nodeToAppend = listHeight curNode then Some (curNode, Some nodeToAppend)
      else (case makeFirstElementMutable curNode of
          None \<Rightarrow> None
        | Some c \<Rightarrow> Option.bind (prepend_at c nodeToAppend) (\<lambda>r. prepend_up r curNode)))"
  by pat_completeness auto
termination
  by (relation "measure (\<lambda>(t, n). size t)") (auto dest: size_makeFirst)

declare prepend_at.simps [simp del]

definition prepend_node :: "'b ast \<Rightarrow> 'b ast \<Rightarrow> 'b ast option" where
  "prepend_node list nodeToAppend =
     Option.bind (prepend_at (toMutable list) nodeToAppend) (\<lambda>(t, pending).
       case pending of None \<Rightarrow> Some t | Some n \<Rightarrow> create23 False n t None)"

definition concat_nodes :: "'b ast \<Rightarrow> 'b ast \<Rightarrow> 'b ast option" where
  "concat_nodes node1 node2 =
     (if listHeight node1 = listHeight node2 then create23 False node1 node2 None
      else if listHeight node1 > listHeight node2 then append_node node1 node2
      else prepend_node node2 node1)"

text \<open>\<open>readNode\<close>: a run of nodes of the same height as one node, and the items behind it.\<close>

definition readNode :: "'b ast list \<Rightarrow> ('b ast option \<times> 'b ast list) option" where
  "readNode items =
     (case items of
        [] \<Rightarrow> Some (None, [])
      | t # rest \<Rightarrow>
          (let run = t # takeWhile (\<lambda>x. listHeight x = listHeight t) rest;
               behind = dropWhile (\<lambda>x. listHeight x = listHeight t) rest
           in map_option (\<lambda>n. (n, behind))
             (if 2 \<le> length run then concat23TreesOfSameHeight False run else Some (Some t))))"

function concat_loop :: "'b ast \<Rightarrow> 'b ast \<Rightarrow> 'b ast list \<Rightarrow> ('b ast \<times> 'b ast) option" where
  "concat_loop first second items =
     (case readNode items of
        None \<Rightarrow> None
      | Some (None, _) \<Rightarrow> Some (first, second)
      | Some (Some item, rest) \<Rightarrow>
          if heightDiff first second \<le> heightDiff second item
          then Option.bind (concat_nodes first second) (\<lambda>f. concat_loop f item rest)
          else Option.bind (concat_nodes second item) (\<lambda>s. concat_loop first s rest))"
  by pat_completeness auto
termination
proof -
  have less: "length rest < length items" if "readNode items = Some (Some n, rest)" for items n and rest :: "'b ast list"
  proof (cases items)
    case (Cons t xs)
    with that have "rest = dropWhile (\<lambda>x. listHeight x = listHeight t) xs"
      by (auto simp: readNode_def Let_def split: if_splits)
    then show ?thesis using Cons length_dropWhile_le [of "\<lambda>x. listHeight x = listHeight t" xs] by simp
  qed (use that in \<open>simp add: readNode_def\<close>)
  show ?thesis by (relation "measure (\<lambda>(f, s, items). length items)") (auto dest: less)
qed

declare concat_loop.simps [simp del]

definition concat23Trees :: "'b ast list \<Rightarrow> 'b ast option option" where
  "concat23Trees items =
     (case items of
        [] \<Rightarrow> Some None
      | [t] \<Rightarrow> Some (Some t)
      | _ \<Rightarrow>
          (case readNode items of
             Some (Some first, rest) \<Rightarrow>
               (case readNode rest of
                  None \<Rightarrow> None
                | Some (None, _) \<Rightarrow> Some (Some first)
                | Some (Some second, rest2) \<Rightarrow>
                    Option.bind (concat_loop first second rest2) (\<lambda>(f, s).
                      map_option Some (concat_nodes f s)))
           | _ \<Rightarrow> None))"

section \<open>Joining trees of the same height\<close>

text \<open>A list of well-formed trees of one height, and what a function on it has to return.\<close>

definition same_level :: "nat \<Rightarrow> 'b ast list \<Rightarrow> bool" where
  "same_level n xs \<longleftrightarrow> (\<forall>t\<in>set xs. tree23 t \<and> listHeight t = n)"

lemma same_level_simps [simp]: "same_level n []" "same_level n (t # xs) \<longleftrightarrow> tree23 t \<and> listHeight t = n \<and> same_level n xs"
  by (auto simp: same_level_def)

abbreviation items_of :: "'b ast list \<Rightarrow> 'b ast list" where
  "items_of xs \<equiv> concat (map leaves xs)"

lemma create23_pair:
  assumes "tree23 a" "tree23 b" "listHeight b = listHeight a"
  shows "\<exists>t. create23 im a b None = Some t \<and> tree23 t \<and> listHeight t = listHeight a + 1 \<and>
    leaves t = leaves a @ leaves b"
  using create23_tree23 [of a b None im] assms by simp

lemma create23_triple:
  assumes "tree23 a" "tree23 b" "tree23 c" "listHeight b = listHeight a" "listHeight c = listHeight a"
  shows "\<exists>t. create23 im a b (Some c) = Some t \<and> tree23 t \<and> listHeight t = listHeight a + 1 \<and>
    leaves t = leaves a @ leaves b @ leaves c"
  using create23_tree23 [of a b "Some c" im] assms by simp

lemma join_level_correct:
  "same_level n xs \<Longrightarrow> length xs \<noteq> 1 \<Longrightarrow>
   \<exists>ys. join_level im xs = Some ys \<and> same_level (n + 1) ys \<and> items_of ys = items_of xs"
proof (induction im xs rule: join_level.induct, goal_cases)
  case (1 im a b c)
  then show ?case using create23_triple [of a b c im] by auto
next
  case (2 im a b)
  then show ?case using create23_pair [of a b im] by auto
next
  case (3 im a b c d rest)
  obtain t where "create23 im a b None = Some t" "tree23 t" "listHeight t = n + 1" "leaves t = leaves a @ leaves b"
    using create23_pair [of a b im] 3(2) by auto
  moreover obtain ys where "join_level im (c # d # rest) = Some ys" "same_level (n + 1) ys"
    "items_of ys = items_of (c # d # rest)"
    using 3 calculation(1) by auto
  ultimately show ?case by simp
qed auto

lemma same_height_loop_correct:
  "same_level n xs \<Longrightarrow> 2 \<le> length xs \<Longrightarrow>
   \<exists>t. same_height_loop im xs = Some t \<and> tree23 t \<and> n < listHeight t \<and> leaves t = items_of xs"
proof (induction im xs arbitrary: n rule: same_height_loop.induct)
  case (1 im xs)
  show ?case
  proof (cases "3 < length xs")
    case True
    obtain ys where ys: "join_level im xs = Some ys" "same_level (n + 1) ys" "items_of ys = items_of xs"
      using join_level_correct [of n xs im] 1(2,3) by auto
    have "2 \<le> length ys" using join_level_length [OF ys(1)] True by simp
    with 1(1) [OF True ys(1,2)] True ys show ?thesis
      by (subst same_height_loop.simps) fastforce
  next
    case False
    with 1(3) have "length xs = 2 \<or> length xs = 3" by linarith
    then consider a b where "xs = [a, b]" | a b c where "xs = [a, b, c]"
      by (auto simp: numeral_2_eq_2 numeral_3_eq_3 length_Suc_conv)
    then show ?thesis
    proof cases
      case (1 a b)
      then show ?thesis
        using create23_pair [of a b im] \<open>same_level n xs\<close> by (subst same_height_loop.simps) auto
    next
      case (2 a b c)
      then show ?thesis
        using create23_triple [of a b c im] \<open>same_level n xs\<close> by (subst same_height_loop.simps) auto
    qed
  qed
qed

lemma same_height_correct:
  assumes "same_level n xs" "xs \<noteq> []"
  shows "\<exists>t. concat23TreesOfSameHeight im xs = Some (Some t) \<and> tree23 t \<and> n \<le> listHeight t \<and>
    leaves t = items_of xs"
proof (cases "length xs = 1")
  case True
  then show ?thesis
    using assms by (auto simp: length_Suc_conv concat23TreesOfSameHeight_def)
next
  case False
  with assms(2) obtain a b r where xs: "xs = a # b # r" by (cases xs; cases "tl xs") auto
  obtain t where "same_height_loop im xs = Some t" "tree23 t" "n < listHeight t" "leaves t = items_of xs"
    using same_height_loop_correct [OF assms(1), of im] xs by auto
  then show ?thesis using xs by (auto simp: concat23TreesOfSameHeight_def)
qed

section \<open>Appending and prepending\<close>

lemma handleChildrenChanged_List23 [simp]:
  "handleChildrenChanged (List23 False l h a b c m) =
   Some (List23 False (sum_length (a # b # opt_list c)) h a b c (merge_missing (a # b # opt_list c)))"
  by (simp add: handleChildrenChanged_def)

lemmas child_ops = setLastChild_def setFirstChild_def unappendChild_def unprependChild_def
  appendChildOfSameHeight_def prependChildOfSameHeight_def

text \<open>What the descent returns: the changed tree, which keeps its height, and what is pending.\<close>

definition changed_ok :: "nat \<Rightarrow> 'b ast \<times> 'b ast option \<Rightarrow> bool" where
  "changed_ok h r \<longleftrightarrow> tree23 (fst r) \<and> listHeight (fst r) = h \<and>
     (\<forall>x. snd r = Some x \<longrightarrow> tree23 x \<and> listHeight x = h)"

lemma append_up_correct:
  assumes "tree23 (List23 False l h a b c m)" "d = (case c of None \<Rightarrow> b | Some e \<Rightarrow> e)"
    "changed_ok (listHeight d) r"
  shows "\<exists>q. append_up r (List23 False l h a b c m) = Some q \<and> changed_ok h q \<and>
    items_of (fst q # opt_list (snd q)) =
    items_of (a # (if c = None then [] else [b])) @ items_of (fst r # opt_list (snd r))"
proof -
  obtain d' pend where r: "r = (d', pend)" by (rule prod.exhaust)
  show ?thesis
  proof (cases pend)
    case None
    then show ?thesis
      using assms r by (cases c) (auto simp: append_up_def child_ops changed_ok_def)
  next
    case (Some x)
    show ?thesis
    proof (cases c)
      case None
      then show ?thesis
        using assms r Some by (auto simp: append_up_def child_ops changed_ok_def)
    next
      case c: (Some e)
      then have d': "tree23 d'" "tree23 x" "listHeight d' = listHeight a" "listHeight x = listHeight a"
        using assms r Some by (auto simp: changed_ok_def)
      then obtain n where n: "create23 False d' x None = Some n" "tree23 n" "listHeight n = listHeight a + 1"
        "leaves n = leaves d' @ leaves x"
        using create23_pair [of d' x False] by auto
      then show ?thesis
        using assms(1) r Some c by (simp add: append_up_def child_ops changed_ok_def)
    qed
  qed
qed

lemma tree23_above:
  assumes "tree23 t" "n < listHeight t" "toMutable t = t"
  obtains l h a b c m where "t = List23 False l h a b c m"
  using assms by (cases t) auto

lemma append_at_correct:
  "tree23 t \<Longrightarrow> toMutable t = t \<Longrightarrow> tree23 n \<Longrightarrow> listHeight n \<le> listHeight t \<Longrightarrow>
   \<exists>r. append_at t n = Some r \<and> changed_ok (listHeight t) r \<and>
     items_of (fst r # opt_list (snd r)) = leaves t @ leaves n"
proof (induction t n rule: append_at.induct)
  case (1 t n)
  show ?case
  proof (cases "listHeight n = listHeight t")
    case True
    then show ?thesis using 1(2,4) by (subst append_at.simps) (auto simp: changed_ok_def)
  next
    case False
    with 1(5) have less: "listHeight n < listHeight t" by simp
    obtain l h a b c m where t: "t = List23 False l h a b c m"
      using tree23_above [OF 1(2) less 1(3)] .
    define d where "d = (case c of None \<Rightarrow> b | Some e \<Rightarrow> e)"
    have d: "makeLastElementMutable t = Some (toMutable d)" by (simp add: t d_def makeLastElementMutable_def)
    have td: "tree23 d" "listHeight d = listHeight a" "h = listHeight a + 1"
      using 1(2) by (auto simp: t d_def split: option.split)
    have "\<exists>r. append_at (toMutable d) n = Some r \<and> changed_ok (listHeight d) r \<and>
        items_of (fst r # opt_list (snd r)) = leaves d @ leaves n"
      using 1(1) [OF False d] td 1(4) less by (simp add: t toMutable_idem)
    then obtain r where r: "append_at (toMutable d) n = Some r" "changed_ok (listHeight d) r"
      "items_of (fst r # opt_list (snd r)) = leaves d @ leaves n" by blast
    obtain q where q: "append_up r t = Some q" "changed_ok h q" "items_of (fst q # opt_list (snd q)) =
        items_of (a # (if c = None then [] else [b])) @ items_of (fst r # opt_list (snd r))"
      using append_up_correct [OF 1(2) [unfolded t] d_def r(2)] t by blast
    have "append_at t n = Some q" using False d r(1) q(1) by (subst append_at.simps) simp
    moreover have "items_of (fst q # opt_list (snd q)) = leaves t @ leaves n"
      unfolding q(3) r(3) by (cases c) (simp_all add: t d_def)
    ultimately show ?thesis using q(2) t by auto
  qed
qed

lemma append_node_correct:
  assumes "tree23 a" "tree23 n" "listHeight n \<le> listHeight a"
  shows "\<exists>t. append_node a n = Some t \<and> tree23 t \<and> listHeight a \<le> listHeight t \<and> leaves t = leaves a @ leaves n"
proof -
  obtain t p where r: "append_at (toMutable a) n = Some (t, p)" "changed_ok (listHeight a) (t, p)"
    "items_of (t # opt_list p) = leaves a @ leaves n"
    using append_at_correct [of "toMutable a" n] assms by (auto simp: toMutable_idem)
  show ?thesis
  proof (cases p)
    case (Some x)
    then show ?thesis
      using r create23_pair [of t x False] by (auto simp: append_node_def changed_ok_def)
  qed (use r in \<open>auto simp: append_node_def changed_ok_def\<close>)
qed

lemma prepend_up_correct:
  assumes "tree23 (List23 False l h a b c m)" "changed_ok (listHeight a) r"
  shows "\<exists>q. prepend_up r (List23 False l h a b c m) = Some q \<and> changed_ok h q \<and>
    items_of (opt_list (snd q) @ [fst q]) = items_of (opt_list (snd r) @ [fst r]) @ items_of (b # opt_list c)"
proof -
  obtain a' pend where r: "r = (a', pend)" by (rule prod.exhaust)
  show ?thesis
  proof (cases pend)
    case None
    then show ?thesis
      using assms r by (auto simp: prepend_up_def child_ops changed_ok_def)
  next
    case (Some x)
    show ?thesis
    proof (cases c)
      case None
      then show ?thesis
        using assms r Some by (auto simp: prepend_up_def child_ops changed_ok_def)
    next
      case c: (Some e)
      then have a': "tree23 a'" "tree23 x" "listHeight a' = listHeight a" "listHeight x = listHeight a"
        using assms r Some by (auto simp: changed_ok_def)
      then obtain n where n: "create23 False x a' None = Some n" "tree23 n" "listHeight n = listHeight a + 1"
        "leaves n = leaves x @ leaves a'"
        using create23_pair [of x a' False] by auto
      then show ?thesis
        using assms(1) r Some c by (simp add: prepend_up_def child_ops changed_ok_def)
    qed
  qed
qed

lemma prepend_at_correct:
  "tree23 t \<Longrightarrow> toMutable t = t \<Longrightarrow> tree23 n \<Longrightarrow> listHeight n \<le> listHeight t \<Longrightarrow>
   \<exists>r. prepend_at t n = Some r \<and> changed_ok (listHeight t) r \<and>
     items_of (opt_list (snd r) @ [fst r]) = leaves n @ leaves t"
proof (induction t n rule: prepend_at.induct)
  case (1 t n)
  show ?case
  proof (cases "listHeight n = listHeight t")
    case True
    then show ?thesis using 1(2,4) by (subst prepend_at.simps) (auto simp: changed_ok_def)
  next
    case False
    with 1(5) have less: "listHeight n < listHeight t" by simp
    obtain l h a b c m where t: "t = List23 False l h a b c m"
      using tree23_above [OF 1(2) less 1(3)] .
    have d: "makeFirstElementMutable t = Some (toMutable a)" by (simp add: t makeFirstElementMutable_def)
    have "\<exists>r. prepend_at (toMutable a) n = Some r \<and> changed_ok (listHeight a) r \<and>
        items_of (opt_list (snd r) @ [fst r]) = leaves n @ leaves a"
      using 1(1) [OF False d] 1(2,4) less by (simp add: t)
    then obtain r where r: "prepend_at (toMutable a) n = Some r" "changed_ok (listHeight a) r"
      "items_of (opt_list (snd r) @ [fst r]) = leaves n @ leaves a" by blast
    obtain q where q: "prepend_up r t = Some q" "changed_ok h q" "items_of (opt_list (snd q) @ [fst q]) =
        items_of (opt_list (snd r) @ [fst r]) @ items_of (b # opt_list c)"
      using prepend_up_correct [OF 1(2) [unfolded t] r(2)] t by blast
    have "prepend_at t n = Some q" using False d r(1) q(1) by (subst prepend_at.simps) simp
    moreover have "items_of (opt_list (snd q) @ [fst q]) = leaves n @ leaves t"
      unfolding q(3) r(3) by (simp add: t)
    ultimately show ?thesis using q(2) t by auto
  qed
qed

lemma prepend_node_correct:
  assumes "tree23 a" "tree23 n" "listHeight n \<le> listHeight a"
  shows "\<exists>t. prepend_node a n = Some t \<and> tree23 t \<and> listHeight a \<le> listHeight t \<and> leaves t = leaves n @ leaves a"
proof -
  obtain t p where r: "prepend_at (toMutable a) n = Some (t, p)" "changed_ok (listHeight a) (t, p)"
    "items_of (opt_list p @ [t]) = leaves n @ leaves a"
    using prepend_at_correct [of "toMutable a" n] assms by auto
  show ?thesis
  proof (cases p)
    case (Some x)
    then show ?thesis
      using r create23_pair [of x t False] by (auto simp: prepend_node_def changed_ok_def)
  qed (use r in \<open>auto simp: prepend_node_def changed_ok_def\<close>)
qed

lemma concat_nodes_correct:
  assumes "tree23 a" "tree23 b"
  shows "\<exists>t. concat_nodes a b = Some t \<and> tree23 t \<and> leaves t = leaves a @ leaves b"
  using create23_pair [OF assms, of False] append_node_correct [OF assms] prepend_node_correct [OF assms(2,1)]
  by (cases "listHeight a" "listHeight b" rule: linorder_cases) (auto simp: concat_nodes_def)

section \<open>The concatenation\<close>

lemma readNode_correct:
  assumes "\<forall>t\<in>set xs. tree23 t"
  shows "\<exists>n rest. readNode xs = Some (n, rest) \<and> (n = None \<longleftrightarrow> xs = []) \<and>
    (\<forall>t\<in>set (opt_list n @ rest). tree23 t) \<and> items_of (opt_list n @ rest) = items_of xs"
proof (cases xs)
  case (Cons t ts)
  let ?P = "\<lambda>x. listHeight x = listHeight t"
  have "same_level (listHeight t) (t # takeWhile ?P ts)"
    using assms Cons by (auto simp: same_level_def dest: set_takeWhileD)
  then obtain n where n: "concat23TreesOfSameHeight False (t # takeWhile ?P ts) = Some (Some n)" "tree23 n"
    "leaves n = items_of (t # takeWhile ?P ts)"
    using same_height_correct by blast
  have one: "takeWhile ?P ts = [] \<Longrightarrow> n = t" using n(1) by (simp add: concat23TreesOfSameHeight_def)
  have "readNode xs = Some (Some n, dropWhile ?P ts)"
    using n(1) one Cons by (cases "takeWhile ?P ts") (simp_all add: readNode_def Let_def)
  moreover have "items_of (takeWhile ?P ts) @ items_of (dropWhile ?P ts) = items_of ts"
    by (metis concat_append map_append takeWhile_dropWhile_id)
  ultimately show ?thesis
    using n(2,3) assms Cons by (auto dest: set_dropWhileD)
qed (simp add: readNode_def)

lemma concat_loop_correct:
  "tree23 f \<Longrightarrow> tree23 s \<Longrightarrow> \<forall>t\<in>set xs. tree23 t \<Longrightarrow>
   \<exists>f' s'. concat_loop f s xs = Some (f', s') \<and> tree23 f' \<and> tree23 s' \<and>
     leaves f' @ leaves s' = leaves f @ leaves s @ items_of xs"
proof (induction f s xs rule: concat_loop.induct)
  case (1 f s xs)
  obtain n rest where n: "readNode xs = Some (n, rest)" "n = None \<longleftrightarrow> xs = []"
    "\<forall>t\<in>set (opt_list n @ rest). tree23 t" "items_of (opt_list n @ rest) = items_of xs"
    using readNode_correct [OF 1(5)] by blast
  show ?case
  proof (cases n)
    case None
    then show ?thesis using n 1(3,4) by (subst concat_loop.simps) auto
  next
    case (Some i)
    then have i: "tree23 i" "\<forall>t\<in>set rest. tree23 t" "leaves i @ items_of rest = items_of xs"
      using n by auto
    show ?thesis
    proof (cases "heightDiff f s \<le> heightDiff s i")
      case True
      obtain g where g: "concat_nodes f s = Some g" "tree23 g" "leaves g = leaves f @ leaves s"
        using concat_nodes_correct [OF 1(3,4)] by blast
      from 1(1) [OF n(1) refl Some True g(1,2) i(1,2)] g i(3) n(1) Some True show ?thesis
        by (subst concat_loop.simps) auto
    next
      case False
      obtain g where g: "concat_nodes s i = Some g" "tree23 g" "leaves g = leaves s @ leaves i"
        using concat_nodes_correct [OF 1(4) i(1)] by blast
      from 1(2) [OF n(1) refl Some False g(1) 1(3) g(2) i(2)] g i(3) n(1) Some False show ?thesis
        by (subst concat_loop.simps) (auto simp: i(3))
    qed
  qed
qed

text \<open>
  C31. The concatenation of any well-formed trees never throws and gives nothing for no trees;
  otherwise it gives one well-formed (2,3)-tree, whose stored heights, lengths and missing ids
  are current, with exactly the items of the given trees in their order, and whose height is at most
  logarithmic in their number.
\<close>

theorem concat23_concatenates:
  assumes "\<forall>t\<in>set items. tree23 t"
  shows "(items = [] \<and> concat23Trees items = Some None) \<or>
    (\<exists>t. concat23Trees items = Some (Some t) \<and> tree23 t \<and> leaves t = concat (map leaves items) \<and>
       2 ^ listHeight t \<le> length (leaves t))"
proof -
  consider "items = []" | t where "items = [t]" | a b r where "items = a # b # r"
    by (metis list.exhaust)
  then show ?thesis
  proof cases
    case 2
    then show ?thesis using assms tree23_balanced by (auto simp: concat23Trees_def)
  next
    case 3
    obtain f rest where f: "readNode items = Some (Some f, rest)" "tree23 f" "\<forall>t\<in>set rest. tree23 t"
      "leaves f @ items_of rest = items_of items"
      using readNode_correct [OF assms] 3 by (auto simp: opt_list_def split: option.splits)
    obtain n rest2 where n: "readNode rest = Some (n, rest2)" "n = None \<longleftrightarrow> rest = []"
      "\<forall>t\<in>set (opt_list n @ rest2). tree23 t" "items_of (opt_list n @ rest2) = items_of rest"
      using readNode_correct [OF f(3)] by blast
    show ?thesis
    proof (cases n)
      case None
      then have "concat23Trees items = Some (Some f)" "leaves f = items_of items"
        using 3 f n by (simp_all add: concat23Trees_def)
      then show ?thesis using f(2) tree23_balanced by blast
    next
      case (Some s)
      then have s: "tree23 s" "\<forall>t\<in>set rest2. tree23 t" "leaves s @ items_of rest2 = items_of rest"
        using n by auto
      obtain f' s' where l: "concat_loop f s rest2 = Some (f', s')" "tree23 f'" "tree23 s'"
        "leaves f' @ leaves s' = items_of items"
        using concat_loop_correct [OF f(2) s(1,2)] f(4) s(3) by (metis append.assoc)
      obtain t where t: "concat_nodes f' s' = Some t" "tree23 t" "leaves t = items_of items"
        using concat_nodes_correct [OF l(2,3)] l(4) by metis
      have "concat23Trees items = Some (Some t)"
        using 3 f(1) n(1) Some l(1) t(1) by (simp add: concat23Trees_def)
      then show ?thesis using t tree23_balanced by blast
    qed
  qed (simp add: concat23Trees_def)
qed

text \<open>Five leaves and a tree of two.\<close>

definition sample_items :: "nat ast list" where
  "sample_items = [Text 3, Text 1, List23 True 9 1 (Text 4) (Text 5) None ss_getEmpty, Text 2, Text 6]"

theorem concat23_concatenates_witness:
  "\<exists>t. concat23Trees sample_items = Some (Some t) \<and> tree23 t \<and>
     leaves t = [Text 3, Text 1, Text 4, Text 5, Text 2, Text 6]"
proof -
  have "sum_length [Text 4, Text 5 :: nat ast] = 9" "merge_missing [Text 4, Text 5 :: nat ast] = ss_getEmpty"
    by (simp_all add: sum_length_def lengthAdd_def factor_def merge_missing_def ss_merge_def ss_getEmpty_def)
  then have "\<forall>t\<in>set sample_items. tree23 t" by (simp add: sample_items_def)
  from concat23_concatenates [OF this] show ?thesis by (auto simp: sample_items_def)
qed

end
