(* ===== verification/Node_Reader.thy ===== *)
theory Node_Reader
  imports Bracket_Tree
begin

text \<open>
  \<open>nodeReader.ts\<close>: a reader that finds the longest acceptable node at an offset of a fixed tree, for
  offsets that only grow. Its stacks are lists with the top at the head. The loops terminate
  because every round passes over a node.
\<close>

section \<open>The reader\<close>

text \<open>\<open>nextNodes\<close> and \<open>offsets\<close> are pushed and popped together.\<close>

record 'b node_reader =
  nr_nodes :: "('b ast \<times> len) list"
  nr_idxs :: "nat list"
  nr_lastOffset :: len

definition new_NodeReader :: "'b ast \<Rightarrow> 'b node_reader" where
  "new_NodeReader node = \<lparr>nr_nodes = [(node, lengthZero)], nr_idxs = [], nr_lastOffset = lengthZero\<rparr>"

text \<open>\<open>getNextChildIdx\<close>: the first child from an index on that is not null; \<open>None\<close> is -1.\<close>

definition child_from :: "'b ast \<Rightarrow> nat \<Rightarrow> nat option" where
  "child_from node i = List.find (\<lambda>j. getChild node j \<noteq> None) [i..<childrenLength node]"

definition getNextChildIdx :: "'b ast \<Rightarrow> nat option \<Rightarrow> nat option" where
  "getNextChildIdx node curIdx = child_from node (case curIdx of None \<Rightarrow> 0 | Some i \<Rightarrow> i + 1)"

text \<open>
  \<open>nextNodeAfterCurrent\<close> on the stacks: the next sibling of the current node, or of the
  nearest ancestor that has one.
\<close>

fun next_stacks :: "('b ast \<times> len) list \<Rightarrow> nat list \<Rightarrow> ('b ast \<times> len) list \<times> nat list" where
  "next_stacks ((currentNode, currentOffset) # (parent, parentOffset) # ns) (i # idxs) =
     (case getNextChildIdx parent (Some i) of
        Some j \<Rightarrow>
          ((the (getChild parent j), lengthAdd currentOffset (ast_length currentNode)) #
             (parent, parentOffset) # ns, j # idxs)
      | None \<Rightarrow> next_stacks ((parent, parentOffset) # ns) idxs)"
| "next_stacks ns idxs = (drop 1 ns, idxs)"

definition nextNodeAfterCurrent :: "'b node_reader \<Rightarrow> 'b node_reader" where
  "nextNodeAfterCurrent r =
     (let s = next_stacks (nr_nodes r) (nr_idxs r) in r\<lparr>nr_nodes := fst s, nr_idxs := snd s\<rparr>)"

definition descend :: "'b ast \<Rightarrow> nat \<Rightarrow> len \<Rightarrow> 'b node_reader \<Rightarrow> 'b node_reader" where
  "descend curNode idx curNodeOffset r =
     r\<lparr>nr_nodes := (the (getChild curNode idx), curNodeOffset) # nr_nodes r, nr_idxs := idx # nr_idxs r\<rparr>"

text \<open>The number of nodes in a tree, and of those below the children from an index on.\<close>

primrec nodes :: "'b ast \<Rightarrow> nat" where
  "nodes (Text l) = 1"
| "nodes (Bracket b) = 1"
| "nodes (BracketPair l op c cl m) =
     2 + (case map_option nodes c of None \<Rightarrow> 0 | Some n \<Rightarrow> n) + (if cl = None then 0 else 1)"
| "nodes (UnexpectedClosingBracket m l) = 1"
| "nodes (List23 im l h a b c m) =
     1 + nodes a + nodes b + (case map_option nodes c of None \<Rightarrow> 0 | Some n \<Rightarrow> n)"
| "nodes (ListArray im l h cs m) = 1 + sum_list (map nodes cs)"

definition later_children :: "'b ast \<Rightarrow> nat \<Rightarrow> nat" where
  "later_children p i = sum_list (map nodes (List.map_filter (getChild p) [i..<childrenLength p]))"

lemma nodes_pos [simp]: "0 < nodes t"
  by (cases t) auto

lemma upt_2: "[0..<2] = [0, 1]" and upt_3: "[0..<3] = [0, 1, 2]"
  by code_simp+

lemma later_children_all: "nodes p = Suc (later_children p 0)"
proof (cases p)
  case (ListArray im l h cs m)
  have "List.map_filter (getChild p) [0..<length cs] = map (\<lambda>j. cs ! j) [0..<length cs]"
    unfolding List.map_filter_def by (simp add: ListArray getChild_def)
  also have "\<dots> = cs" by (rule map_nth)
  finally show ?thesis by (simp add: ListArray later_children_def)
qed (auto simp: later_children_def getChild_def List.map_filter_def upt_2 upt_3 split: option.split)

lemma child_from_Some:
  assumes "child_from node i = Some j"
  shows "i \<le> j" "j < childrenLength node" "\<exists>c. getChild node j = Some c"
    "\<And>k. i \<le> k \<Longrightarrow> k < j \<Longrightarrow> getChild node k = None"
proof -
  let ?js = "[i..<childrenLength node]"
  obtain d where "d < length ?js" "getChild node (?js ! d) \<noteq> None" "j = ?js ! d"
    "\<forall>e<d. \<not> getChild node (?js ! e) \<noteq> None"
    using assms unfolding child_from_def find_Some_iff by blast
  then have d: "d < childrenLength node - i" "getChild node (i + d) \<noteq> None" "j = i + d"
    "\<forall>e<d. getChild node (i + e) = None" by auto
  then show "i \<le> j" "j < childrenLength node" "\<exists>c. getChild node j = Some c" by auto
  fix k assume "i \<le> k" "k < j"
  then have "k = i + (k - i)" "k - i < d" using d(3) by simp_all
  with d(4) show "getChild node k = None" by metis
qed

lemma later_children_step:
  assumes "child_from p i = Some j"
  shows "later_children p i = nodes (the (getChild p j)) + later_children p (j + 1)"
proof -
  note c = child_from_Some [OF assms]
  have "[i..<childrenLength p] = [i..<j] @ j # [j + 1..<childrenLength p]"
    using c(1,2) upt_add_eq_append [of i j "childrenLength p - j"]
    by (simp add: upt_conv_Cons [symmetric])
  moreover have "List.map_filter (getChild p) [i..<j] = []"
    using c(4) by (auto simp: List.map_filter_def)
  ultimately show ?thesis
    using c(3) by (auto simp: later_children_def List.map_filter_def)
qed

text \<open>
  The nodes that are still ahead: the current one and the later children of its ancestors (an
  ancestor without an index, which never occurs, counts in full).
\<close>

fun ahead_above :: "('b ast \<times> len) list \<Rightarrow> nat list \<Rightarrow> nat" where
  "ahead_above [] idxs = 0"
| "ahead_above (p # ps) [] = nodes (fst p) + ahead_above ps []"
| "ahead_above (p # ps) (i # idxs) = later_children (fst p) (i + 1) + ahead_above ps idxs"

definition ahead :: "'b node_reader \<Rightarrow> nat" where
  "ahead r =
     (case nr_nodes r of [] \<Rightarrow> 0 | n # ps \<Rightarrow> nodes (fst n) + ahead_above ps (nr_idxs r))"

lemma ahead_next_stacks:
  "next_stacks (n # ps) idxs = (ns', idxs') \<Longrightarrow>
   (case ns' of [] \<Rightarrow> 0 | m # qs \<Rightarrow> nodes (fst m) + ahead_above qs idxs') \<le> ahead_above ps idxs"
proof (induction ps arbitrary: n idxs)
  case (Cons p ps)
  obtain a b c d where n: "n = (a, b)" "p = (c, d)" by (cases n; cases p)
  show ?case
  proof (cases idxs)
    case Nil
    with Cons.prems n show ?thesis by auto
  next
    case idxs: (Cons i rest)
    show ?thesis
    proof (cases "getNextChildIdx c (Some i)")
      case None
      with Cons n idxs have "(case ns' of [] \<Rightarrow> 0 | m # qs \<Rightarrow> nodes (fst m) + ahead_above qs idxs') \<le> ahead_above ps rest"
        by simp
      then show ?thesis using n idxs by simp
    next
      case (Some j)
      then have "later_children c (i + 1) = nodes (the (getChild c j)) + later_children c (j + 1)"
        by (intro later_children_step) (simp add: getNextChildIdx_def)
      with Some Cons.prems n idxs show ?thesis by auto
    qed
  qed
qed (cases n; auto)

lemma ahead_next: "nr_nodes r \<noteq> [] \<Longrightarrow> ahead (nextNodeAfterCurrent r) < ahead r"
proof -
  assume "nr_nodes r \<noteq> []"
  then obtain n ps where n: "nr_nodes r = n # ps" by (cases "nr_nodes r") auto
  obtain ns' idxs' where s: "next_stacks (n # ps) (nr_idxs r) = (ns', idxs')" by (rule prod.exhaust)
  have "ahead (nextNodeAfterCurrent r) \<le> ahead_above ps (nr_idxs r)"
    using ahead_next_stacks [OF s] by (cases ns') (auto simp: ahead_def nextNodeAfterCurrent_def n s Let_def)
  also have "\<dots> < ahead r" by (simp add: ahead_def n)
  finally show ?thesis .
qed

lemma ahead_descend:
  assumes "nr_nodes r = (curNode, off) # ps" "getNextChildIdx curNode None = Some i"
  shows "ahead (descend curNode i off r) < ahead r"
proof -
  have "nodes curNode = Suc (later_children curNode 0)" by (rule later_children_all)
  also have "later_children curNode 0 = nodes (the (getChild curNode i)) + later_children curNode (i + 1)"
    using assms(2) by (intro later_children_step) (simp add: getNextChildIdx_def)
  finally show ?thesis using assms(1) by (simp add: ahead_def descend_def)
qed

text \<open>The loop of \<open>readLongestNodeAt\<close>; \<open>None\<close> where the predicate throws.\<close>

function read_loop ::
  "len \<Rightarrow> ('b ast \<Rightarrow> bool option) \<Rightarrow> 'b node_reader \<Rightarrow> ('b ast option \<times> 'b node_reader) option" where
  "read_loop offset predicate r =
     (case nr_nodes r of
        [] \<Rightarrow> Some (None, r)
      | (curNode, curNodeOffset) # _ \<Rightarrow>
          if lengthLessThan offset curNodeOffset then Some (None, r)
          else if lengthLessThan curNodeOffset offset then
            (if lengthAdd curNodeOffset (ast_length curNode) \<le> offset
             then read_loop offset predicate (nextNodeAfterCurrent r)
             else (case getNextChildIdx curNode None of
                 Some i \<Rightarrow> read_loop offset predicate (descend curNode i curNodeOffset r)
               | None \<Rightarrow> read_loop offset predicate (nextNodeAfterCurrent r)))
          else (case predicate curNode of
              None \<Rightarrow> None
            | Some True \<Rightarrow> Some (Some curNode, nextNodeAfterCurrent r)
            | Some False \<Rightarrow>
                (case getNextChildIdx curNode None of
                   None \<Rightarrow> Some (None, nextNodeAfterCurrent r)
                 | Some i \<Rightarrow> read_loop offset predicate (descend curNode i curNodeOffset r))))"
  by pat_completeness auto
termination
  by (relation "measure (\<lambda>(offset, predicate, r). ahead r)") (auto simp: ahead_next ahead_descend)

declare read_loop.simps [simp del]

text \<open>\<open>None\<close> is also the error for an offset before the last one.\<close>

definition readLongestNodeAt ::
  "len \<Rightarrow> ('b ast \<Rightarrow> bool option) \<Rightarrow> 'b node_reader \<Rightarrow> ('b ast option \<times> 'b node_reader) option" where
  "readLongestNodeAt offset predicate r =
     (if lengthLessThan offset (nr_lastOffset r) then None
      else read_loop offset predicate (r\<lparr>nr_lastOffset := offset\<rparr>))"

section \<open>Where the nodes stand\<close>

text \<open>
  A node stands at an offset of the tree: the root at the start, a child behind the children
  before it.
\<close>

fun child_offset :: "'b ast \<Rightarrow> len \<Rightarrow> nat \<Rightarrow> len" where
  "child_offset p off 0 = off"
| "child_offset p off (Suc j) =
     (case getChild p j of
        None \<Rightarrow> child_offset p off j
      | Some c \<Rightarrow> lengthAdd (child_offset p off j) (ast_length c))"

inductive node_at :: "'b ast \<Rightarrow> len \<Rightarrow> 'b ast \<Rightarrow> bool" for root where
  node_at_root: "node_at root lengthZero root"
| node_at_child: "node_at root off p \<Longrightarrow> getChild p j = Some c \<Longrightarrow> node_at root (child_offset p off j) c"

text \<open>The invariant of the stacks: each node stands at its offset, at its index in its parent.\<close>

fun stacks_ok :: "'b ast \<Rightarrow> ('b ast \<times> len) list \<Rightarrow> nat list \<Rightarrow> bool" where
  "stacks_ok root [] idxs = True"
| "stacks_ok root [(n, off)] idxs \<longleftrightarrow> node_at root off n \<and> idxs = []"
| "stacks_ok root ((n, off) # (p, poff) # ns) idxs \<longleftrightarrow>
     (\<exists>i rest. idxs = i # rest \<and> getChild p i = Some n \<and> off = child_offset p poff i \<and>
        node_at root poff p \<and> stacks_ok root ((p, poff) # ns) rest)"

lemma stacks_ok_node_at: "stacks_ok root ((n, off) # ns) idxs \<Longrightarrow> node_at root off n"
  by (cases ns) (auto intro: node_at_child)

lemma child_offset_skip:
  assumes "child_from p (Suc i) = Some j" "getChild p i = Some n"
  shows "child_offset p off j = lengthAdd (child_offset p off i) (ast_length n)"
proof -
  note c = child_from_Some [OF assms(1)]
  have "child_offset p off (Suc i + d) = child_offset p off (Suc i)" if "Suc i + d \<le> j" for d
    using that by (induction d) (use c(4) in auto)
  from this [of "j - Suc i"] c(1) assms(2) show ?thesis by simp
qed

lemma child_offset_first: "child_from p 0 = Some j \<Longrightarrow> child_offset p off j = off"
proof -
  assume j: "child_from p 0 = Some j"
  have "child_offset p off d = off" if "d \<le> j" for d
    using that by (induction d) (use child_from_Some(4) [OF j] in auto)
  then show ?thesis by simp
qed

lemma stacks_ok_next:
  "stacks_ok root ns idxs \<Longrightarrow> next_stacks ns idxs = (ns', idxs') \<Longrightarrow> stacks_ok root ns' idxs'"
proof (induction ns arbitrary: idxs)
  case (Cons n ns)
  obtain a b where n: "n = (a, b)" by (cases n)
  show ?case
  proof (cases ns)
    case Nil
    with Cons.prems n show ?thesis by simp
  next
    case ns: (Cons p ps)
    obtain c d where p: "p = (c, d)" by (cases p)
    obtain i rest where i: "idxs = i # rest" "getChild c i = Some a" "b = child_offset c d i"
      "node_at root d c" "stacks_ok root ((c, d) # ps) rest"
      using Cons.prems(1) n ns p by auto
    show ?thesis
    proof (cases "getNextChildIdx c (Some i)")
      case None
      with Cons i n ns p show ?thesis by simp
    next
      case (Some j)
      then have j: "child_from c (Suc i) = Some j" by (simp add: getNextChildIdx_def)
      have "getChild c j = Some (the (getChild c j))" using child_from_Some(3) [OF j] by auto
      moreover have "child_offset c d j = lengthAdd b (ast_length a)"
        using child_offset_skip [OF j i(2)] i(3) by simp
      ultimately show ?thesis using Some Cons.prems(2) i n ns p by auto
    qed
  qed
qed auto

definition reader_ok :: "'b ast \<Rightarrow> 'b node_reader \<Rightarrow> bool" where
  "reader_ok root r \<longleftrightarrow> stacks_ok root (nr_nodes r) (nr_idxs r)"

lemma reader_ok_new: "reader_ok root (new_NodeReader root)"
  by (simp add: reader_ok_def new_NodeReader_def node_at_root)

lemma reader_ok_next: "reader_ok root r \<Longrightarrow> reader_ok root (nextNodeAfterCurrent r)"
  using stacks_ok_next [of root "nr_nodes r" "nr_idxs r"]
  by (cases "next_stacks (nr_nodes r) (nr_idxs r)") (simp add: reader_ok_def nextNodeAfterCurrent_def Let_def)

lemma reader_ok_descend:
  assumes "reader_ok root r" "nr_nodes r = (curNode, off) # ps" "getNextChildIdx curNode None = Some i"
  shows "reader_ok root (descend curNode i off r)"
proof -
  have i: "child_from curNode 0 = Some i" using assms(3) by (simp add: getNextChildIdx_def)
  have "getChild curNode i = Some (the (getChild curNode i))" using child_from_Some(3) [OF i] by auto
  moreover have "node_at root off curNode" using assms(1,2) stacks_ok_node_at by (fastforce simp: reader_ok_def)
  ultimately show ?thesis
    using assms(1,2) child_offset_first [OF i] by (auto simp: reader_ok_def descend_def)
qed

lemma read_loop_at:
  "reader_ok root r \<Longrightarrow> read_loop offset predicate r = Some (res, r') \<Longrightarrow>
   reader_ok root r' \<and> (\<forall>n. res = Some n \<longrightarrow> node_at root offset n \<and> predicate n = Some True)"
proof (induction offset predicate r rule: read_loop.induct)
  case (1 offset predicate r)
  show ?case
  proof (cases "nr_nodes r")
    case Nil
    with 1(5,6) read_loop.simps [of offset predicate r] show ?thesis by simp
  next
    case (Cons p ps)
    obtain n off where p: "p = (n, off)" by (cases p)
    have at: "node_at root off n" using 1(5) Cons p stacks_ok_node_at by (fastforce simp: reader_ok_def)
    have reader: "reader_ok root r" by (rule 1(5))
    have after: "reader_ok root (nextNodeAfterCurrent r)" by (rule reader_ok_next [OF 1(5)])
    have down: "reader_ok root (descend n i off r)" if "getNextChildIdx n None = Some i" for i
      using reader_ok_descend [OF 1(5)] Cons p that by simp
    have loop: "read_loop offset predicate r = Some (res, r')" by (rule 1(6))
    note unfolded = loop [unfolded read_loop.simps [of offset predicate r] Cons p list.case prod.case]
    consider "lengthLessThan offset off" | "\<not> lengthLessThan offset off" "lengthLessThan off offset"
      | "\<not> lengthLessThan offset off" "\<not> lengthLessThan off offset" by blast
    then show ?thesis
    proof cases
      case 1
      then show ?thesis using unfolded reader by auto
    next
      case 2
      show ?thesis
      proof (cases "lengthAdd off (ast_length n) \<le> offset")
        case True
        from 1(1) [OF Cons p [symmetric] 2 True after] unfolded 2 True show ?thesis by simp
      next
        case False
        show ?thesis
        proof (cases "getNextChildIdx n None")
          case None
          from 1(2) [OF Cons p [symmetric] 2 False None after] unfolded 2 False None show ?thesis by simp
        next
          case (Some i)
          from 1(3) [OF Cons p [symmetric] 2 False Some down [OF Some]] unfolded 2 False Some
          show ?thesis by simp
        qed
      qed
    next
      case 3
      then have eq: "off = offset" by (simp add: lengthLessThan_def)
      show ?thesis
      proof (cases "predicate n")
        case pred: (Some b)
        show ?thesis
        proof (cases b)
          case True
          then show ?thesis using unfolded 3 pred after at eq by auto
        next
          case False
          show ?thesis
          proof (cases "getNextChildIdx n None")
            case None
            then show ?thesis using unfolded 3 pred False after by auto
          next
            case (Some i)
            have "b = False" using False by simp
            from 1(4) [OF Cons p [symmetric] 3 pred this Some down [OF Some]] unfolded 3 pred False Some
            show ?thesis by simp
          qed
        qed
      qed (use unfolded 3 in simp)
    qed
  qed
qed


text \<open>A node that is read stands at the offset and passes the predicate.\<close>

lemma readLongestNodeAt_at:
  "reader_ok root r \<Longrightarrow> readLongestNodeAt offset predicate r = Some (res, r') \<Longrightarrow>
   reader_ok root r' \<and> (\<forall>n. res = Some n \<longrightarrow> node_at root offset n \<and> predicate n = Some True)"
  using read_loop_at [of root "r\<lparr>nr_lastOffset := offset\<rparr>" offset predicate res r']
  by (simp add: readLongestNodeAt_def reader_ok_def split: if_splits)

end
