(* ===== verification/Edit_Mapper.thy ===== *)
theory Edit_Mapper
  imports Length_Code
begin

text \<open>
  \<open>beforeEditPositionMapper.ts\<close>: translates positions of an edited text back to the text before
  the edits, for positions that only grow. The mapper keeps the difference of lines, and the
  difference of columns on the one line where the last passed edit ends.
\<close>

record text_edit_info =
  tei_startOffset :: len
  tei_endOffset :: len
  tei_newLength :: len

text \<open>\<open>TextEditInfoCache\<close>.\<close>

record edit_cache =
  ec_endOffsetBeforeObj :: text_length
  ec_endOffsetAfterObj :: text_length
  ec_offsetObj :: text_length

definition edit_cache_from :: "text_edit_info \<Rightarrow> edit_cache" where
  "edit_cache_from e =
     \<lparr>ec_endOffsetBeforeObj = lengthToObj (tei_endOffset e),
      ec_endOffsetAfterObj = lengthToObj (lengthAdd (tei_startOffset e) (tei_newLength e)),
      ec_offsetObj = lengthToObj (tei_startOffset e)\<rparr>"

text \<open>\<open>fromModelContentChanges\<close>: the changes come in descending order.\<close>

definition fromModelContentChanges :: "(range \<times> string) list \<Rightarrow> text_edit_info list" where
  "fromModelContentChanges changes =
     rev (map (\<lambda>(r, text1).
       \<lparr>tei_startOffset = positionToLength (getStartPosition r),
        tei_endOffset = positionToLength (getEndPosition r),
        tei_newLength = lengthOfString text1\<rparr>) changes)"

record edit_mapper =
  em_nextEditIdx :: nat
  em_deltaOldToNewLineCount :: int
  em_deltaOldToNewColumnCount :: int
  em_deltaLineIdxInOld :: int
  em_edits :: "edit_cache list"

definition new_BeforeEditPositionMapper :: "text_edit_info list \<Rightarrow> edit_mapper" where
  "new_BeforeEditPositionMapper edits =
     \<lparr>em_nextEditIdx = 0, em_deltaOldToNewLineCount = 0, em_deltaOldToNewColumnCount = 0,
      em_deltaLineIdxInOld = -1, em_edits = map edit_cache_from edits\<rparr>"

definition translateOldToCur :: "edit_mapper \<Rightarrow> text_length \<Rightarrow> len" where
  "translateOldToCur m o1 =
     (if lineCount o1 = em_deltaLineIdxInOld m
      then toLength (lineCount o1 + em_deltaOldToNewLineCount m) (columnCount o1 + em_deltaOldToNewColumnCount m)
      else toLength (lineCount o1 + em_deltaOldToNewLineCount m) (columnCount o1))"

definition translateCurToOld :: "edit_mapper \<Rightarrow> len \<Rightarrow> len" where
  "translateCurToOld m newOffset =
     (let o1 = lengthToObj newOffset in
      if lineCount o1 - em_deltaOldToNewLineCount m = em_deltaLineIdxInOld m
      then toLength (lineCount o1 - em_deltaOldToNewLineCount m) (columnCount o1 - em_deltaOldToNewColumnCount m)
      else toLength (lineCount o1 - em_deltaOldToNewLineCount m) (columnCount o1))"

text \<open>What passing an edit does to the differences.\<close>

definition skip_edit :: "edit_cache \<Rightarrow> edit_mapper \<Rightarrow> edit_mapper" where
  "skip_edit nextEdit m =
     (let endInCur = lengthToObj (translateOldToCur m (ec_endOffsetAfterObj nextEdit));
          endBeforeInCur = lengthToObj (translateOldToCur m (ec_endOffsetBeforeObj nextEdit));
          lineDelta = lineCount endInCur - lineCount endBeforeInCur;
          previousColumnDelta =
            (if em_deltaLineIdxInOld m = lineCount (ec_endOffsetBeforeObj nextEdit)
             then em_deltaOldToNewColumnCount m else 0);
          columnDelta = columnCount endInCur - columnCount endBeforeInCur
      in m\<lparr>em_nextEditIdx := em_nextEditIdx m + 1,
           em_deltaOldToNewLineCount := em_deltaOldToNewLineCount m + lineDelta,
           em_deltaOldToNewColumnCount := previousColumnDelta + columnDelta,
           em_deltaLineIdxInOld := lineCount (ec_endOffsetBeforeObj nextEdit)\<rparr>)"

function adjustNextEdit :: "len \<Rightarrow> edit_mapper \<Rightarrow> edit_mapper" where
  "adjustNextEdit offset m =
     (if em_nextEditIdx m < length (em_edits m)
      then (let nextEdit = em_edits m ! em_nextEditIdx m in
            if lengthLessThanEqual (translateOldToCur m (ec_endOffsetAfterObj nextEdit)) offset
            then adjustNextEdit offset (skip_edit nextEdit m)
            else m)
      else m)"
  by pat_completeness auto
termination
  by (relation "measure (\<lambda>(offset, m). length (em_edits m) - em_nextEditIdx m)")
    (auto simp: skip_edit_def Let_def)

declare adjustNextEdit.simps [simp del]

definition getOffsetBeforeChange :: "len \<Rightarrow> edit_mapper \<Rightarrow> len \<times> edit_mapper" where
  "getOffsetBeforeChange offset m =
     (let m1 = adjustNextEdit offset m in (translateCurToOld m1 offset, m1))"

definition getDistanceToNextChange :: "len \<Rightarrow> edit_mapper \<Rightarrow> len option \<times> edit_mapper" where
  "getDistanceToNextChange offset m =
     (let m1 = adjustNextEdit offset m in
      (if em_nextEditIdx m1 < length (em_edits m1)
       then Some (lengthDiffNonNegative offset
         (translateOldToCur m1 (ec_offsetObj (em_edits m1 ! em_nextEditIdx m1))))
       else None, m1))"

section \<open>What the differences stand for\<close>

text \<open>
  An edit in lengths: the start and end of the replaced text and the length of the new text.
  Behind the edits \<open>es\<close>, which end at \<open>fst (ends es)\<close> before and at \<open>snd (ends es)\<close>
  after them, a position keeps its distance to that end.
\<close>

record edit_span =
  es_start :: text_length
  es_end :: text_length
  es_new :: text_length

definition edit_info :: "edit_span \<Rightarrow> text_edit_info" where
  "edit_info e =
     \<lparr>tei_startOffset = len_code (es_start e), tei_endOffset = len_code (es_end e),
      tei_newLength = len_code (es_new e)\<rparr>"

definition behind :: "text_length \<times> text_length \<Rightarrow> text_length \<Rightarrow> text_length" where
  "behind ends p = snd ends + tl_lengthDiffNonNegative (fst ends) p"

definition ends :: "edit_span list \<Rightarrow> text_length \<times> text_length" where
  "ends es = foldl (\<lambda>b e. (es_end e, behind b (es_start e) + es_new e)) (0, 0) es"

text \<open>The edits are in order, do not overlap, and all their positions fit.\<close>

fun edits_ok :: "text_length \<times> text_length \<Rightarrow> edit_span list \<Rightarrow> bool" where
  "edits_ok b [] = True"
| "edits_ok b (e # es) \<longleftrightarrow>
     fits (es_start e) \<and> fits (es_end e) \<and> fits (es_new e) \<and> fits (es_start e + es_new e) \<and>
     fst b \<le> es_start e \<and> es_start e \<le> es_end e \<and>
     fits (behind b (es_start e)) \<and> fits (behind b (es_start e) + es_new e) \<and> fits (behind b (es_end e)) \<and>
     edits_ok (es_end e, behind b (es_start e) + es_new e) es"

text \<open>The differences of the mapper describe the last passed edit.\<close>

definition describes :: "edit_mapper \<Rightarrow> text_length \<times> text_length \<Rightarrow> bool" where
  "describes m b \<longleftrightarrow>
     em_deltaOldToNewLineCount m = lineCount (snd b) - lineCount (fst b) \<and>
     (em_deltaLineIdxInOld m = lineCount (fst b) \<and>
        em_deltaOldToNewColumnCount m = columnCount (snd b) - columnCount (fst b) \<or>
      em_deltaLineIdxInOld m = -1 \<and> em_deltaOldToNewColumnCount m = 0 \<and> b = (0, 0))"

lemma behind_sel:
  assumes "fst b \<le> p" "tl_nonneg p"
  shows "lineCount (behind b p) = lineCount p + (lineCount (snd b) - lineCount (fst b))"
    "columnCount (behind b p) =
      (if lineCount p = lineCount (fst b) then columnCount p + (columnCount (snd b) - columnCount (fst b))
       else columnCount p)"
  using assms by (auto simp: behind_def tl_lengthDiffNonNegative_def tl_isLessThan_def tl_le_iff)

lemma translateOldToCur_behind:
  assumes "describes m b" "fst b \<le> p" "tl_nonneg p"
  shows "translateOldToCur m p = len_code (behind b p)"
proof -
  have p: "0 \<le> lineCount p" using assms(3) by (simp add: tl_nonneg_def)
  have d: "em_deltaOldToNewLineCount m = lineCount (snd b) - lineCount (fst b)"
    using assms(1) by (simp add: describes_def)
  have "columnCount (behind b p) =
      (if lineCount p = em_deltaLineIdxInOld m then columnCount p + em_deltaOldToNewColumnCount m
       else columnCount p)"
  proof -
    consider "em_deltaLineIdxInOld m = lineCount (fst b)"
        "em_deltaOldToNewColumnCount m = columnCount (snd b) - columnCount (fst b)"
      | "em_deltaLineIdxInOld m = -1" "b = (0, 0)"
      using assms(1) unfolding describes_def by blast
    then show ?thesis
      unfolding behind_sel(2) [OF assms(2,3)] by cases (use p in simp_all)
  qed
  then show ?thesis
    unfolding translateOldToCur_def len_code_def behind_sel(1) [OF assms(2,3)] d by simp
qed

text \<open>The end of an edit in its own text is translated like its start.\<close>

lemma translateOldToCur_edit:
  assumes "describes m b" "fst b \<le> p" "tl_nonneg p" "tl_nonneg l" "tl_nonneg (fst b)"
  shows "translateOldToCur m (p + l) = len_code (behind b p + l)"
proof -
  have "fst b \<le> p + l" using assms by (auto simp: tl_le_iff tl_nonneg_def)
  then have "translateOldToCur m (p + l) = len_code (behind b (p + l))"
    using assms by (intro translateOldToCur_behind) auto
  also have "behind b (p + l) = behind b p + l"
  proof (rule text_length.expand)
    have l: "lineCount l \<noteq> 0 \<Longrightarrow> lineCount (p + l) \<noteq> lineCount (fst b)"
      using assms(2,4) by (auto simp: tl_le_iff tl_nonneg_def)
    note sel = behind_sel [OF \<open>fst b \<le> p + l\<close> tl_nonneg_plus [OF assms(3,4)]] behind_sel [OF assms(2,3)]
    show "lineCount (behind b (p + l)) = lineCount (behind b p + l) \<and>
        columnCount (behind b (p + l)) = columnCount (behind b p + l)"
      using l by (cases "lineCount l = 0") (simp_all add: sel)
  qed
  finally show ?thesis .
qed

lemma edit_cache_from_span:
  assumes "fits (es_start e)" "fits (es_end e)" "fits (es_new e)" "fits (es_start e + es_new e)"
  shows "ec_endOffsetBeforeObj (edit_cache_from (edit_info e)) = es_end e"
    "ec_endOffsetAfterObj (edit_cache_from (edit_info e)) = es_start e + es_new e"
    "ec_offsetObj (edit_cache_from (edit_info e)) = es_start e"
  using assms by (simp_all add: edit_cache_from_def edit_info_def lengthToObj_len_code lengthAdd_len_code)

lemma skip_edit_describes:
  assumes "describes m b" "edits_ok b (e # es)" "tl_nonneg (fst b)"
  shows "describes (skip_edit (edit_cache_from (edit_info e)) m) (es_end e, behind b (es_start e) + es_new e)"
    "em_nextEditIdx (skip_edit (edit_cache_from (edit_info e)) m) = em_nextEditIdx m + 1"
    "em_edits (skip_edit (edit_cache_from (edit_info e)) m) = em_edits m"
proof -
  have f: "fits (es_start e)" "fits (es_end e)" "fits (es_new e)" "fits (es_start e + es_new e)"
    "fst b \<le> es_start e" "fst b \<le> es_end e" "fits (behind b (es_start e) + es_new e)" "fits (behind b (es_end e))"
    using assms(2) by auto
  note n = fitsD(1) [OF f(1)] fitsD(1) [OF f(2)] fitsD(1) [OF f(3)]
  have "lengthToObj (translateOldToCur m (es_start e + es_new e)) = behind b (es_start e) + es_new e"
    unfolding translateOldToCur_edit [OF assms(1) f(5) n(1,3) assms(3)] by (rule lengthToObj_len_code [OF f(7)])
  moreover have "lengthToObj (translateOldToCur m (es_end e)) = behind b (es_end e)"
    unfolding translateOldToCur_behind [OF assms(1) f(6) n(2)] by (rule lengthToObj_len_code [OF f(8)])
  ultimately show "describes (skip_edit (edit_cache_from (edit_info e)) m) (es_end e, behind b (es_start e) + es_new e)"
    using assms(1) behind_sel [OF f(6) n(2)] n(2)
    by (auto simp: skip_edit_def edit_cache_from_span f Let_def describes_def tl_nonneg_def)
qed (simp_all add: skip_edit_def Let_def)

section \<open>The mapper is exact\<close>

definition ends_from :: "text_length \<times> text_length \<Rightarrow> edit_span list \<Rightarrow> text_length \<times> text_length" where
  "ends_from b es = foldl (\<lambda>b e. (es_end e, behind b (es_start e) + es_new e)) b es"

lemma ends_from_simps [simp]:
  "ends_from b [] = b"
  "ends_from b (e # es) = ends_from (es_end e, behind b (es_start e) + es_new e) es"
  "ends_from b (es @ fs) = ends_from (ends_from b es) fs"
  by (simp_all add: ends_from_def)

lemma ends_eq: "ends es = ends_from (0, 0) es"
  by (simp add: ends_def ends_from_def)

lemma edits_ok_append: "edits_ok b (es @ fs) \<longleftrightarrow> edits_ok b es \<and> edits_ok (ends_from b es) fs"
  by (induction es arbitrary: b) auto

lemma tl_le_plus: "tl_nonneg l \<Longrightarrow> p \<le> p + l"
  by (auto simp: tl_le_iff tl_nonneg_def)

lemma behind_ge: "tl_nonneg p \<Longrightarrow> snd b \<le> behind b p"
  unfolding behind_def by (intro tl_le_plus tl_nonneg_diff)

lemma behind_less:
  assumes "fst b \<le> p" "p < q" "tl_nonneg p" "tl_nonneg q"
  shows "behind b p < behind b q"
proof -
  have q: "fst b \<le> q" using assms(1,2) by simp
  have "lineCount p < lineCount q \<or> lineCount p = lineCount q \<and> columnCount p < columnCount q"
    using assms(2) by (simp add: tl_less_iff)
  then show ?thesis
    unfolding tl_less_iff behind_sel [OF assms(1,3)] behind_sel [OF q assms(4)] by (elim disjE) simp_all
qed

lemma ends_from_mono: "edits_ok b es \<Longrightarrow> snd b \<le> snd (ends_from b es)"
proof (induction es arbitrary: b)
  case (Cons e es)
  have "snd b \<le> behind b (es_start e)" using Cons.prems by (intro behind_ge fitsD) auto
  also have "\<dots> \<le> behind b (es_start e) + es_new e" using Cons.prems by (intro tl_le_plus fitsD) auto
  also have "\<dots> \<le> snd (ends_from b (e # es))"
    using Cons.IH [of "(es_end e, behind b (es_start e) + es_new e)"] Cons.prems by simp
  finally show ?case .
qed simp

lemma ends_from_nonneg: "edits_ok b es \<Longrightarrow> tl_nonneg (fst b) \<Longrightarrow> tl_nonneg (fst (ends_from b es))"
  by (induction es arbitrary: b) (auto dest: fitsD)

text \<open>The mapper has passed the first \<open>k\<close> edits.\<close>

definition passed :: "edit_span list \<Rightarrow> nat \<Rightarrow> edit_mapper \<Rightarrow> bool" where
  "passed es k m \<longleftrightarrow>
     k \<le> length es \<and> em_nextEditIdx m = k \<and> em_edits m = map (edit_cache_from \<circ> edit_info) es \<and>
     describes m (ends (take k es))"

lemma passed_new: "passed es 0 (new_BeforeEditPositionMapper (map edit_info es))"
  by (simp add: passed_def new_BeforeEditPositionMapper_def describes_def ends_eq)

lemma take_Suc_split: "k < length es \<Longrightarrow> take (Suc k) es = take k es @ [es ! k] \<and> es = take k es @ es ! k # drop (Suc k) es"
  by (simp add: take_Suc_conv_app_nth id_take_nth_drop [symmetric])

lemma edits_ok_at:
  assumes "edits_ok (0, 0) es" "k < length es"
  shows "edits_ok (ends (take k es)) (es ! k # drop (Suc k) es)" "tl_nonneg (fst (ends (take k es)))"
    "ends (take (Suc k) es) =
      (es_end (es ! k), behind (ends (take k es)) (es_start (es ! k)) + es_new (es ! k))"
proof -
  have ok: "edits_ok (0, 0) (take k es)" "edits_ok (ends_from (0, 0) (take k es)) (es ! k # drop (Suc k) es)"
    using assms(1) edits_ok_append [of "(0, 0)" "take k es" "es ! k # drop (Suc k) es"]
      take_Suc_split [OF assms(2)] by metis+
  then show "edits_ok (ends (take k es)) (es ! k # drop (Suc k) es)" by (simp add: ends_eq)
  show "tl_nonneg (fst (ends (take k es)))" using ends_from_nonneg [OF ok(1)] by (simp add: ends_eq)
  show "ends (take (Suc k) es) =
      (es_end (es ! k), behind (ends (take k es)) (es_start (es ! k)) + es_new (es ! k))"
    using take_Suc_split [OF assms(2)] by (simp add: ends_eq)
qed

lemma translate_next_end:
  assumes "edits_ok (0, 0) es" "passed es k m" "k < length es"
  shows "translateOldToCur m (ec_endOffsetAfterObj (em_edits m ! k)) = len_code (snd (ends (take (Suc k) es)))"
    "passed es (Suc k) (skip_edit (em_edits m ! k) m)"
    "fits (snd (ends (take (Suc k) es)))"
proof -
  note at = edits_ok_at [OF assms(1,3)]
  define e where "e = es ! k"
  have c: "em_edits m ! k = edit_cache_from (edit_info e)"
    using assms(2,3) by (simp add: passed_def e_def)
  have f: "fits (es_start e)" "fits (es_end e)" "fits (es_new e)" "fits (es_start e + es_new e)"
    "fst (ends (take k es)) \<le> es_start e"
    using at(1) by (auto simp: e_def)
  have d: "describes m (ends (take k es))" using assms(2) by (simp add: passed_def)
  show "translateOldToCur m (ec_endOffsetAfterObj (em_edits m ! k)) = len_code (snd (ends (take (Suc k) es)))"
    unfolding c edit_cache_from_span [OF f(1-4)] at(3) snd_conv e_def [symmetric]
    by (rule translateOldToCur_edit [OF d f(5) fitsD(1) [OF f(1)] fitsD(1) [OF f(3)] at(2)])
  have "describes (skip_edit (edit_cache_from (edit_info e)) m) (ends (take (Suc k) es))"
    unfolding at(3) e_def [symmetric]
    by (rule skip_edit_describes(1) [OF d at(1) [folded e_def] at(2)])
  then show "passed es (Suc k) (skip_edit (em_edits m ! k) m)"
    unfolding c using assms(2,3) by (simp add: passed_def skip_edit_def Let_def)
  show "fits (snd (ends (take (Suc k) es)))" using at(1) by (simp add: at(3))
qed

lemma ends_take_mono:
  assumes "edits_ok (0, 0) es" "j \<le> k" "k \<le> length es"
  shows "snd (ends (take j es)) \<le> snd (ends (take k es))"
proof -
  have t: "take k es = take j es @ take (k - j) (drop j es)"
    using assms(2) by (metis le_add_diff_inverse take_add)
  have "edits_ok (0, 0) (take k es)" using assms(1) by (metis append_take_drop_id edits_ok_append)
  then have "edits_ok (ends_from (0, 0) (take j es)) (take (k - j) (drop j es))"
    unfolding t by (simp add: edits_ok_append)
  from ends_from_mono [OF this] show ?thesis unfolding t by (simp add: ends_eq)
qed

text \<open>The loop passes exactly the edits that end at or before the offset.\<close>

lemma adjust_passes:
  assumes "edits_ok (0, 0) es" "fits q"
  shows "passed es k m \<Longrightarrow>
    \<exists>j\<ge>k. passed es j (adjustNextEdit (len_code q) m) \<and> (j = k \<or> snd (ends (take j es)) \<le> q) \<and>
      (j < length es \<longrightarrow> q < snd (ends (take (Suc j) es)))"
proof (induction "length es - k" arbitrary: k m)
  case 0
  then have "k = length es" by (simp add: passed_def)
  with 0 show ?case by (subst adjustNextEdit.simps) (auto simp: passed_def intro!: exI [of _ k])
next
  case (Suc n)
  then have k: "k < length es" and n: "n = length es - Suc k" by simp_all
  note next_end = translate_next_end [OF assms(1) Suc(3) k]
  have len: "em_nextEditIdx m = k" "length (em_edits m) = length es" using Suc(3) by (auto simp: passed_def)
  show ?case
  proof (cases "snd (ends (take (Suc k) es)) \<le> q")
    case True
    then have "adjustNextEdit (len_code q) m = adjustNextEdit (len_code q) (skip_edit (em_edits m ! k) m)"
      using k len next_end(1,3) assms(2)
      by (subst adjustNextEdit.simps) (simp add: lengthLessThanEqual_def len_code_le_iff Let_def)
    moreover obtain j where "j \<ge> Suc k" "passed es j (adjustNextEdit (len_code q) (skip_edit (em_edits m ! k) m))"
      "j = Suc k \<or> snd (ends (take j es)) \<le> q" "j < length es \<longrightarrow> q < snd (ends (take (Suc j) es))"
      using Suc(1) [OF n next_end(2)] by blast
    ultimately show ?thesis using True by (intro exI [of _ j]) auto
  next
    case False
    then have "adjustNextEdit (len_code q) m = m"
      using k len next_end(1,3) assms(2)
      by (subst adjustNextEdit.simps) (simp add: lengthLessThanEqual_def len_code_le_iff Let_def)
    with False Suc(3) show ?thesis by (intro exI [of _ k]) auto
  qed
qed

text \<open>The mapper after queries at growing offsets, of which the last was at \<open>q\<close>.\<close>

inductive queried :: "edit_span list \<Rightarrow> text_length \<Rightarrow> edit_mapper \<Rightarrow> bool" for es where
  queried_new: "queried es 0 (new_BeforeEditPositionMapper (map edit_info es))"
| queried_offset: "queried es q m \<Longrightarrow> q \<le> p \<Longrightarrow> fits p \<Longrightarrow>
    queried es p (snd (getOffsetBeforeChange (len_code p) m))"
| queried_distance: "queried es q m \<Longrightarrow> q \<le> p \<Longrightarrow> fits p \<Longrightarrow>
    queried es p (snd (getDistanceToNextChange (len_code p) m))"

lemma queried_passed:
  assumes "edits_ok (0, 0) es"
  shows "queried es q m \<Longrightarrow> \<exists>k. passed es k m \<and> (k = 0 \<or> snd (ends (take k es)) \<le> q)"
proof (induction rule: queried.induct)
  case queried_new
  then show ?case using passed_new by blast
next
  case (queried_offset q m p)
  then obtain k where k: "passed es k m" "k = 0 \<or> snd (ends (take k es)) \<le> q" by blast
  from adjust_passes [OF assms queried_offset(3) k(1)] k(2) queried_offset(2) show ?case
    by (fastforce simp: getOffsetBeforeChange_def Let_def)
next
  case (queried_distance q m p)
  then obtain k where k: "passed es k m" "k = 0 \<or> snd (ends (take k es)) \<le> q" by blast
  from adjust_passes [OF assms queried_distance(3) k(1)] k(2) queried_distance(2) show ?case
    by (fastforce simp: getDistanceToNextChange_def Let_def)
qed

text \<open>
  C24. Take a position \<open>p\<close> of the old text behind the edits \<open>pre\<close> and before the edits
  \<open>post\<close>. Asked for its place in the edited text, after any queries at smaller offsets, the
  mapper answers \<open>p\<close>, and as distance to the next change the distance to where the first edit
  of \<open>post\<close> starts in the edited text, or null if there is none.
\<close>

theorem edit_mapper_exact:
  assumes "edits_ok (0, 0) (pre @ post)"
    and "fst (ends pre) \<le> p" and "post \<noteq> [] \<longrightarrow> p < es_start (hd post)"
    and "fits p" and "fits (behind (ends pre) p)"
    and "queried (pre @ post) q m" and "q \<le> behind (ends pre) p"
  shows "fst (getOffsetBeforeChange (len_code (behind (ends pre) p)) m) = len_code p \<and>
    fst (getDistanceToNextChange (len_code (behind (ends pre) p)) m) =
      (if post = [] then None
       else Some (len_code (tl_lengthDiffNonNegative (behind (ends pre) p) (behind (ends pre) (es_start (hd post))))))"
proof -
  let ?es = "pre @ post" and ?n = "behind (ends pre) p"
  note np = fitsD(1) [OF assms(4)]
  obtain k where k: "passed ?es k m" "k = 0 \<or> snd (ends (take k ?es)) \<le> q"
    using queried_passed [OF assms(1,6)] by blast
  obtain j where j: "j \<ge> k" "passed ?es j (adjustNextEdit (len_code ?n) m)"
    "j = k \<or> snd (ends (take j ?es)) \<le> ?n" "j < length ?es \<longrightarrow> ?n < snd (ends (take (Suc j) ?es))"
    using adjust_passes [OF assms(1,5) k(1)] by blast
  define m1 where "m1 = adjustNextEdit (len_code ?n) m"
  have jl: "j \<le> length ?es" and d: "describes m1 (ends (take j ?es))" using j(2) by (simp_all add: passed_def m1_def)
  have "snd (ends pre) \<le> ?n" by (rule behind_ge [OF np])
  then have "\<not> j < length pre"
    using j(4) ends_take_mono [OF assms(1), of "Suc j" "length pre"] by auto
  moreover have "\<not> length pre < j"
  proof
    assume less: "length pre < j"
    then have post: "post \<noteq> []" using jl by auto
    then have at: "(pre @ post) ! length pre = hd post" by (simp add: nth_append hd_conv_nth)
    have "length pre < length ?es" using post by simp
    note next_end = edits_ok_at [OF assms(1) this]
    have "?n < behind (ends pre) (es_start (hd post))"
      using next_end(1) at assms(3) post by (intro behind_less [OF assms(2) _ np] fitsD(1)) auto
    also have "\<dots> \<le> snd (ends (take (Suc (length pre)) ?es))"
      using next_end(1,3) at by (auto intro!: tl_le_plus fitsD(1))
    also have "\<dots> \<le> snd (ends (take j ?es))" by (rule ends_take_mono [OF assms(1)]) (use less jl in auto)
    finally have "?n < snd (ends (take j ?es))" .
    with j(3) k(2) assms(7) less show False by auto
  qed
  ultimately have jp: "j = length pre" by simp
  then have d: "describes m1 (ends pre)" using d by simp
  have nl: "lineCount ?n = lineCount p + em_deltaOldToNewLineCount m1"
    using behind_sel(1) [OF assms(2) np] d by (simp add: describes_def)
  have "translateCurToOld m1 (len_code ?n) = len_code p"
  proof -
    consider "em_deltaLineIdxInOld m1 = lineCount (fst (ends pre))"
        "em_deltaOldToNewColumnCount m1 = columnCount (snd (ends pre)) - columnCount (fst (ends pre))"
      | "em_deltaLineIdxInOld m1 = -1" "ends pre = (0, 0)"
      using d unfolding describes_def by blast
    then show ?thesis
      unfolding translateCurToOld_def lengthToObj_len_code [OF assms(5)] Let_def nl len_code_def [of p]
        behind_sel(2) [OF assms(2) np]
      by cases (use np in \<open>simp_all add: tl_nonneg_def\<close>)
  qed
  then have "fst (getOffsetBeforeChange (len_code ?n) m) = len_code p"
    by (simp add: getOffsetBeforeChange_def Let_def m1_def)
  moreover have "fst (getDistanceToNextChange (len_code ?n) m) =
      (if post = [] then None
       else Some (len_code (tl_lengthDiffNonNegative ?n (behind (ends pre) (es_start (hd post))))))"
  proof (cases post)
    case Nil
    then show ?thesis
      using j(2) jp by (simp add: getDistanceToNextChange_def Let_def passed_def)
  next
    case (Cons e rest)
    have idx: "em_nextEditIdx m1 = length pre" "em_edits m1 ! length pre = edit_cache_from (edit_info e)"
      "length (em_edits m1) = length ?es"
      using j(2) jp Cons by (simp_all add: passed_def m1_def nth_append)
    have ok: "edits_ok (ends pre) post" using assms(1) by (simp add: edits_ok_append ends_eq)
    then have f: "fits (es_start e)" "fits (behind (ends pre) (es_start e))" "fst (ends pre) \<le> es_start e"
      "ec_offsetObj (edit_cache_from (edit_info e)) = es_start e"
      using Cons by (simp_all add: edit_cache_from_span)
    have "translateOldToCur m1 (es_start e) = len_code (behind (ends pre) (es_start e))"
      by (rule translateOldToCur_behind [OF d f(3) fitsD(1) [OF f(1)]])
    then show ?thesis
      using idx Cons f assms(5)
      by (simp add: getDistanceToNextChange_def Let_def m1_def [symmetric] lengthDiffNonNegative_len_code)
  qed
  ultimately show ?thesis by blast
qed

text \<open>Two lines are inserted in front of a word; the word is found where it was.\<close>

theorem edit_mapper_exact_witness:
  "fst (getOffsetBeforeChange (len_code (TextLength 3 6))
     (new_BeforeEditPositionMapper [edit_info \<lparr>es_start = TextLength 1 4, es_end = TextLength 1 6, es_new = TextLength 2 3\<rparr>])) =
   len_code (TextLength 1 9)"
proof -
  let ?e = "\<lparr>es_start = TextLength 1 4, es_end = TextLength 1 6, es_new = TextLength 2 3\<rparr>"
  have b: "behind (0, 0) (TextLength 1 4) = TextLength 1 4" "behind (0, 0) (TextLength 1 6) = TextLength 1 6"
    by (auto simp: behind_def tl_lengthDiffNonNegative_def tl_isLessThan_def intro!: text_length.expand)
  have s: "TextLength 1 4 + TextLength 2 3 = TextLength 3 3" by (rule text_length.expand) simp
  have e: "ends [?e] = (TextLength 1 6, TextLength 3 3)" by (simp add: ends_eq b s)
  have p: "behind (TextLength 1 6, TextLength 3 3) (TextLength 1 9) = TextLength 3 6"
    by (auto simp: behind_def tl_lengthDiffNonNegative_def tl_isLessThan_def intro!: text_length.expand)
  have "edits_ok (0, 0) ([?e] @ [])"
    by (simp add: b s fits_def tl_nonneg_def factor_def tl_le_iff)
  moreover have "queried ([?e] @ []) 0 (new_BeforeEditPositionMapper (map edit_info ([?e] @ [])))"
    by (rule queried_new)
  moreover have "fits (TextLength 1 9)" "fits (TextLength 3 6)" "fst (TextLength 1 6, TextLength 3 3) \<le> TextLength 1 9"
    "0 \<le> TextLength 3 6"
    by (simp_all add: fits_def tl_nonneg_def factor_def tl_le_iff)
  ultimately show ?thesis
    using edit_mapper_exact [of "[?e]" "[]" "TextLength 1 9" 0] unfolding e p by simp
qed

end
