(* ===== verification/Bracket_Parser.thy ===== *)
theory Bracket_Parser
  imports Concat_Trees Node_Reader Edit_Mapper
begin

text \<open>
  \<open>parser.ts\<close>: the parser of brackets, which reuses nodes of an old tree. The tokenizer is a
  parameter over its state; \<open>FastTokenizer\<close>, which has all tokens in a list, is one. The
  recursion carries fuel; for a list of tokens twice their number and one is enough.
\<close>

section \<open>Tokens and tokenizers\<close>

datatype token_kind = TextToken | OpeningBracket | ClosingBracket

record 'b token =
  tk_length :: len
  tk_kind :: token_kind
  tk_bracketId :: int
  tk_bracketIds :: small_set
  tk_astNode :: "'b ast option"

text \<open>The interface \<open>Tokenizer\<close>; \<open>skip\<close> may throw.\<close>

record ('t, 'b) tokenizer =
  tz_offset :: "'t \<Rightarrow> len"
  tz_read :: "'t \<Rightarrow> 'b token option \<times> 't"
  tz_peek :: "'t \<Rightarrow> 'b token option \<times> 't"
  tz_skip :: "len \<Rightarrow> 't \<Rightarrow> 't option"

text \<open>\<open>FastTokenizer\<close>: the tokens that are left; its offset is never advanced.\<close>

definition FastTokenizer :: "('b token list, 'b) tokenizer" where
  "FastTokenizer =
     \<lparr>tz_offset = (\<lambda>ts. lengthZero),
      tz_read = (\<lambda>ts. case ts of [] \<Rightarrow> (None, []) | t # rest \<Rightarrow> (Some t, rest)),
      tz_peek = (\<lambda>ts. case ts of [] \<Rightarrow> (None, []) | t # rest \<Rightarrow> (Some t, ts)),
      tz_skip = (\<lambda>l ts. None)\<rparr>"

section \<open>The parser\<close>

text \<open>The result of a run: it may throw, and its fuel may be used up.\<close>

datatype 'a run = Out_of_fuel | Threw | Done 'a

definition run_bind :: "'a run \<Rightarrow> ('a \<Rightarrow> 'c run) \<Rightarrow> 'c run" where
  "run_bind r f = (case r of Out_of_fuel \<Rightarrow> Out_of_fuel | Threw \<Rightarrow> Threw | Done a \<Rightarrow> f a)"

definition run_option :: "'a option \<Rightarrow> 'a run" where
  "run_option x = (case x of None \<Rightarrow> Threw | Some a \<Rightarrow> Done a)"

lemma run_bind_simps [simp]:
  "run_bind (Done a) f = f a" "run_bind Threw f = Threw" "run_bind Out_of_fuel f = Out_of_fuel"
  by (simp_all add: run_bind_def)

lemma run_bind_Done: "run_bind r f = Done b \<longleftrightarrow> (\<exists>a. r = Done a \<and> f a = Done b)"
  by (cases r) (auto simp: run_bind_def)

lemma run_option_Done [simp]: "run_option x = Done a \<longleftrightarrow> x = Some a"
  by (simp add: run_option_def split: option.split)

record ('t, 'b) parser_state =
  ps_tokenizer :: 't
  ps_oldNodeReader :: "'b node_reader option"
  ps_positionMapper :: edit_mapper
  ps_itemsConstructed :: nat
  ps_itemsFromCache :: nat

text \<open>The constructor; it throws for an old node together with immutable lists.\<close>

definition new_Parser ::
  "'t \<Rightarrow> text_edit_info list \<Rightarrow> 'b ast option \<Rightarrow> bool \<Rightarrow> ('t, 'b) parser_state option" where
  "new_Parser tokenizer edits oldNode createImmutableLists =
     (if oldNode \<noteq> None \<and> createImmutableLists then None
      else Some \<lparr>ps_tokenizer = tokenizer, ps_oldNodeReader = map_option new_NodeReader oldNode,
        ps_positionMapper = new_BeforeEditPositionMapper edits,
        ps_itemsConstructed = 0, ps_itemsFromCache = 0\<rparr>)"

text \<open>The test that a node of the old tree has to pass.\<close>

definition reusable :: "small_set \<Rightarrow> len option \<Rightarrow> 'b ast \<Rightarrow> bool option" where
  "reusable openedBracketIds maxCacheableLength curNode =
     (if (case maxCacheableLength of None \<Rightarrow> False | Some l \<Rightarrow> \<not> lengthLessThan (ast_length curNode) l)
      then Some False
      else canBeReused openedBracketIds curNode)"

definition tryReadChildFromCache ::
  "('t, 'b) tokenizer \<Rightarrow> small_set \<Rightarrow> ('t, 'b) parser_state \<Rightarrow> ('b ast option \<times> ('t, 'b) parser_state) run"
  where
  "tryReadChildFromCache tz openedBracketIds st =
     (case ps_oldNodeReader st of
        None \<Rightarrow> Done (None, st)
      | Some reader \<Rightarrow>
          (let (maxCacheableLength, mapper) =
             getDistanceToNextChange (tz_offset tz (ps_tokenizer st)) (ps_positionMapper st) in
           if maxCacheableLength = None \<or> \<not> lengthIsZero (the maxCacheableLength) then
             (let (offset, mapper2) = getOffsetBeforeChange (tz_offset tz (ps_tokenizer st)) mapper in
              run_bind (run_option (readLongestNodeAt offset (reusable openedBracketIds maxCacheableLength) reader))
                (\<lambda>(cachedNode, reader2).
                  let st2 = st\<lparr>ps_positionMapper := mapper2, ps_oldNodeReader := Some reader2\<rparr> in
                  case cachedNode of
                    None \<Rightarrow> Done (None, st2)
                  | Some node \<Rightarrow>
                      run_bind (run_option (tz_skip tz (ast_length node) (ps_tokenizer st2)))
                        (\<lambda>t. Done (Some node,
                           st2\<lparr>ps_itemsFromCache := ps_itemsFromCache st2 + 1, ps_tokenizer := t\<rparr>))))
           else Done (None, st\<lparr>ps_positionMapper := mapper\<rparr>)))"

definition is_closing :: "small_set \<Rightarrow> 'b token \<Rightarrow> bool" where
  "is_closing openedBracketIds token \<longleftrightarrow>
     tk_kind token = ClosingBracket \<and> ss_intersects (tk_bracketIds token) openedBracketIds"

text \<open>\<open>token.astNode as BracketAstNode\<close>.\<close>

definition bracket_of :: "'b token \<Rightarrow> 'b bracket option" where
  "bracket_of token = (case tk_astNode token of Some (Bracket b) \<Rightarrow> Some b | _ \<Rightarrow> None)"

definition closes :: "'b token \<Rightarrow> 'b token \<Rightarrow> bool" where
  "closes nextToken token \<longleftrightarrow>
     tk_kind nextToken = ClosingBracket \<and>
     (tk_bracketId nextToken = tk_bracketId token \<or>
      ss_intersects (tk_bracketIds nextToken) (tk_bracketIds token))"

text \<open>The end of a list: the items as one node, null if there are none.\<close>

definition finish_list :: "bool \<Rightarrow> 'b ast list \<Rightarrow> ('t, 'b) parser_state \<Rightarrow> ('b ast option \<times> ('t, 'b) parser_state) run" where
  "finish_list createImmutableLists items st =
     run_bind (run_option
       (if ps_oldNodeReader st \<noteq> None then concat23Trees items
        else concat23TreesOfSameHeight createImmutableLists items))
       (\<lambda>r. Done (r, st))"

definition read_token ::
  "('t, 'b) tokenizer \<Rightarrow> ('t, 'b) parser_state \<Rightarrow> 'b token option \<times> ('t, 'b) parser_state" where
  "read_token tz st = (let (t, s) = tz_read tz (ps_tokenizer st) in (t, st\<lparr>ps_tokenizer := s\<rparr>))"

definition peek_token ::
  "('t, 'b) tokenizer \<Rightarrow> ('t, 'b) parser_state \<Rightarrow> 'b token option \<times> ('t, 'b) parser_state" where
  "peek_token tz st = (let (t, s) = tz_peek tz (ps_tokenizer st) in (t, st\<lparr>ps_tokenizer := s\<rparr>))"

text \<open>The end of a pair: the closing bracket is read if it closes the opening one.\<close>

definition finish_pair ::
  "('t, 'b) tokenizer \<Rightarrow> 'b token \<Rightarrow> 'b ast option \<Rightarrow> ('t, 'b) parser_state \<Rightarrow>
   ('b ast \<times> ('t, 'b) parser_state) run" where
  "finish_pair tz token child st =
     (let (nextToken, st2) = peek_token tz st in
      run_bind (run_option (bracket_of token)) (\<lambda>opening.
        case nextToken of
          Some nt \<Rightarrow>
            if closes nt token then
              run_bind (run_option (bracket_of nt)) (\<lambda>closing.
                Done (createPair opening child (Some closing), snd (read_token tz st2)))
            else Done (createPair opening child None, st2)
        | None \<Rightarrow> Done (createPair opening child None, st2)))"

fun parseList ::
  "nat \<Rightarrow> ('t, 'b) tokenizer \<Rightarrow> bool \<Rightarrow> small_set \<Rightarrow> nat \<Rightarrow> 'b ast list \<Rightarrow> ('t, 'b) parser_state \<Rightarrow>
   ('b ast option \<times> ('t, 'b) parser_state) run"
  and parseChild ::
  "nat \<Rightarrow> ('t, 'b) tokenizer \<Rightarrow> bool \<Rightarrow> small_set \<Rightarrow> nat \<Rightarrow> ('t, 'b) parser_state \<Rightarrow>
   ('b ast \<times> ('t, 'b) parser_state) run" where
  "parseList 0 tz im opened level items st = Out_of_fuel"
| "parseList (Suc n) tz im opened level items st =
     run_bind (tryReadChildFromCache tz opened st) (\<lambda>(cached, st1).
       case cached of
         Some child \<Rightarrow>
           parseList n tz im opened level
             (if is_list child \<and> childrenLength child = 0 then items else items @ [child]) st1
       | None \<Rightarrow>
           (let (token, st2) = peek_token tz st1 in
            if token = None \<or> is_closing opened (the token) then finish_list im items st2
            else run_bind (parseChild n tz im opened (level + 1) st2) (\<lambda>(child, st3).
              parseList n tz im opened level
                (if is_list child \<and> childrenLength child = 0 then items else items @ [child]) st3)))"
| "parseChild 0 tz im opened level st = Out_of_fuel"
| "parseChild (Suc n) tz im opened level st =
     (let (token, st1) = read_token tz (st\<lparr>ps_itemsConstructed := ps_itemsConstructed st + 1\<rparr>) in
      case token of
        None \<Rightarrow> Threw
      | Some tok \<Rightarrow>
          (case tk_kind tok of
             ClosingBracket \<Rightarrow> Done (UnexpectedClosingBracket (tk_bracketIds tok) (tk_length tok), st1)
           | TextToken \<Rightarrow> run_bind (run_option (tk_astNode tok)) (\<lambda>a. Done (a, st1))
           | OpeningBracket \<Rightarrow>
               if 300 < level then Done (Text (tk_length tok), st1)
               else run_bind (parseList n tz im (ss_merge opened (tk_bracketIds tok)) (level + 1) [] st1)
                 (\<lambda>(child, st2). finish_pair tz tok child st2)))"

text \<open>The result of \<open>parseDocument\<close> with the final state.\<close>

definition parser_parseDocument ::
  "nat \<Rightarrow> ('t, 'b) tokenizer \<Rightarrow> bool \<Rightarrow> ('t, 'b) parser_state \<Rightarrow> ('b ast \<times> ('t, 'b) parser_state) run" where
  "parser_parseDocument fuel tz im st =
     run_bind (parseList fuel tz im ss_getEmpty 0 [] (st\<lparr>ps_itemsConstructed := 0, ps_itemsFromCache := 0\<rparr>))
       (\<lambda>(result, st2). Done (case result of None \<Rightarrow> getEmptyList | Some t \<Rightarrow> t, st2))"

definition parseDocument ::
  "nat \<Rightarrow> ('t, 'b) tokenizer \<Rightarrow> 't \<Rightarrow> text_edit_info list \<Rightarrow> 'b ast option \<Rightarrow> bool \<Rightarrow> 'b ast run" where
  "parseDocument fuel tz tokenizer edits oldNode createImmutableLists =
     run_bind (run_option (new_Parser tokenizer edits oldNode createImmutableLists)) (\<lambda>st.
     run_bind (parser_parseDocument fuel tz createImmutableLists st) (\<lambda>(t, _). Done t))"

section \<open>What the tree of a parse is\<close>

text \<open>The nodes of the tokens of a tree, in order.\<close>

primrec spelled :: "'b ast \<Rightarrow> 'b ast list" where
  "spelled (Text l) = [Text l]"
| "spelled (Bracket b) = [Bracket b]"
| "spelled (BracketPair l op c cl m) =
     Bracket op # (case map_option spelled c of None \<Rightarrow> [] | Some xs \<Rightarrow> xs) @ map Bracket (opt_list cl)"
| "spelled (UnexpectedClosingBracket m l) = [UnexpectedClosingBracket m l]"
| "spelled (List23 im l h a b c m) =
     spelled a @ spelled b @ (case map_option spelled c of None \<Rightarrow> [] | Some xs \<Rightarrow> xs)"
| "spelled (ListArray im l h cs m) = concat (map spelled cs)"

text \<open>
  What the tokenizers promise: a text token comes with its node, a bracket with a node of the same
  length and ids; an opening bracket has its own id, a closing one the ids that it closes.
\<close>

definition token_ok :: "'b token \<Rightarrow> bool" where
  "token_ok tok \<longleftrightarrow>
     (case tk_kind tok of
        TextToken \<Rightarrow> tk_astNode tok = Some (Text (tk_length tok))
      | OpeningBracket \<Rightarrow>
          (\<exists>b. tk_astNode tok = Some (Bracket b) \<and> bk_length b = tk_length tok \<and> bk_ids b = tk_bracketIds tok) \<and>
          0 \<le> tk_bracketId tok \<and> members (tk_bracketIds tok) = {nat (tk_bracketId tok)}
      | ClosingBracket \<Rightarrow>
          (\<exists>b. tk_astNode tok = Some (Bracket b) \<and> bk_length b = tk_length tok \<and> bk_ids b = tk_bracketIds tok) \<and>
          0 \<le> tk_bracketId tok \<and> nat (tk_bracketId tok) \<in> members (tk_bracketIds tok))"

text \<open>
  A node for a token: a bracket may be too deep and become text, or be unexpected.
\<close>

definition represents :: "'b ast \<Rightarrow> 'b token \<Rightarrow> bool" where
  "represents node tok \<longleftrightarrow>
     Some node = tk_astNode tok \<or>
     tk_kind tok = OpeningBracket \<and> node = Text (tk_length tok) \<or>
     tk_kind tok = ClosingBracket \<and> node = UnexpectedClosingBracket (tk_bracketIds tok) (tk_length tok)"

primrec unclosed :: "'b ast \<Rightarrow> bool" where
  "unclosed (Text l) = False"
| "unclosed (Bracket b) = False"
| "unclosed (BracketPair l op c cl m) = (cl = None)"
| "unclosed (UnexpectedClosingBracket m l) = False"
| "unclosed (List23 im l h a b c m) = False"
| "unclosed (ListArray im l h cs m) = False"

text \<open>In a list only the last item may be an unclosed pair.\<close>

definition open_only_last :: "'b ast list \<Rightarrow> bool" where
  "open_only_last xs \<longleftrightarrow> (\<forall>x\<in>set (butlast xs). \<not> unclosed x)"

text \<open>
  Well nested below the open brackets \<open>B\<close>: an unexpected bracket closes none of them, a closed
  pair has brackets that belong together, only the last item of a list is unclosed, and
  everything stored in the nodes is current.
\<close>

primrec well_nested :: "'b ast \<Rightarrow> nat set \<Rightarrow> bool" where
  "well_nested (Text l) = (\<lambda>B. True)"
| "well_nested (Bracket b) = (\<lambda>B. False)"
| "well_nested (BracketPair l op c cl m) =
     (\<lambda>B. BracketPair l op c cl m = createPair op c cl \<and>
        (case map_option well_nested c of None \<Rightarrow> True | Some f \<Rightarrow> f (B \<union> members (bk_ids op))) \<and>
        (\<forall>t. c = Some t \<longrightarrow> tree23 t \<and> open_only_last (leaves t)) \<and>
        (\<forall>b. cl = Some b \<longrightarrow> members (bk_ids b) \<inter> members (bk_ids op) \<noteq> {}))"
| "well_nested (UnexpectedClosingBracket m l) = (\<lambda>B. members m \<inter> B = {})"
| "well_nested (List23 im l h a b c m) =
     (\<lambda>B. tree23 (List23 im l h a b c m) \<and> well_nested a B \<and> well_nested b B \<and>
        (case map_option well_nested c of None \<Rightarrow> True | Some f \<Rightarrow> f B))"
| "well_nested (ListArray im l h cs m) = (\<lambda>B. False)"

text \<open>The tree of a document.\<close>

definition document_tree :: "'b ast \<Rightarrow> bool" where
  "document_tree t \<longleftrightarrow>
     t = getEmptyList \<or> tree23 t \<and> well_nested t {} \<and> open_only_last (leaves t)"

lemma well_nested_leaves: "tree23 t \<Longrightarrow> well_nested t B \<longleftrightarrow> (\<forall>x\<in>set (leaves t). well_nested x B)"
proof (induction t)
  case (List23 im l h a b c m)
  then show ?case by (cases c) (auto simp del: tree23.simps)
qed auto

lemma spelled_leaves: "tree23 t \<Longrightarrow> spelled t = concat (map spelled (leaves t))"
proof (induction t)
  case (List23 im l h a b c m)
  then show ?case by (cases c) auto
qed auto

lemma createPair_sel:
  "\<exists>l m. createPair op c cl = BracketPair l op c cl m"
  by (simp add: createPair_def Let_def)

section \<open>Parsing a list of tokens\<close>

text \<open>A state without an old tree.\<close>

definition fresh :: "('b token list, 'b) parser_state \<Rightarrow> bool" where
  "fresh st \<longleftrightarrow> ps_oldNodeReader st = None"

lemma fresh_cache: "fresh st \<Longrightarrow> tryReadChildFromCache tz opened st = Done (None, st)"
  by (simp add: fresh_def tryReadChildFromCache_def)

text \<open>Where a list ends: at the end or in front of a bracket that closes an open one.\<close>

definition at_end :: "small_set \<Rightarrow> 'b token list \<Rightarrow> bool" where
  "at_end opened ts \<longleftrightarrow> ts = [] \<or> is_closing opened (hd ts)"

text \<open>An item for the tokens that were read, in front of the tokens that are left.\<close>

definition item_ok :: "small_set \<Rightarrow> 'b ast \<Rightarrow> bool" where
  "item_ok opened c \<longleftrightarrow> \<not> is_list c \<and> tree23 c \<and> leaves c = [c] \<and> well_nested c (members opened)"

definition read_as :: "'b ast list \<Rightarrow> 'b token list \<Rightarrow> 'b token list \<Rightarrow> bool" where
  "read_as items ts rest \<longleftrightarrow>
     (\<exists>used. ts = used @ rest \<and> list_all2 represents (concat (map spelled items)) used)"

lemma read_as_Nil: "read_as [] ts ts"
  by (simp add: read_as_def)

lemma read_as_append: "read_as xs ts us \<Longrightarrow> read_as ys us vs \<Longrightarrow> read_as (xs @ ys) ts vs"
  unfolding read_as_def by (fastforce intro: list_all2_appendI)

lemma closes_iff: "token_ok nt \<Longrightarrow> token_ok tok \<Longrightarrow> tk_kind tok = OpeningBracket \<Longrightarrow>
   closes nt tok \<longleftrightarrow> tk_kind nt = ClosingBracket \<and> members (tk_bracketIds nt) \<inter> members (tk_bracketIds tok) \<noteq> {}"
  by (auto simp: closes_def members_intersects token_ok_def split: token_kind.splits)

lemma is_closing_merge: "is_closing (ss_merge s t) nt \<longleftrightarrow> is_closing s nt \<or> is_closing t nt"
  by (auto simp: is_closing_def members_intersects members_merge)

lemma open_only_last_snoc:
  "open_only_last (xs @ [x]) \<longleftrightarrow> (\<forall>y\<in>set xs. \<not> unclosed y)"
  by (simp add: open_only_last_def)

lemma open_only_last_Cons_snoc:
  "open_only_last xs \<Longrightarrow> (xs \<noteq> [] \<Longrightarrow> \<not> unclosed (last xs)) \<Longrightarrow> open_only_last (xs @ [x])"
  unfolding open_only_last_def by (cases xs rule: rev_cases) (auto simp: butlast_append)

lemma item_ok_pair:
  assumes "\<forall>t. child = Some t \<longrightarrow> tree23 t \<and> open_only_last (leaves t) \<and>
      well_nested t (members opened \<union> members (bk_ids b))"
    and "\<forall>b2. cl = Some b2 \<longrightarrow> members (bk_ids b2) \<inter> members (bk_ids b) \<noteq> {}"
  shows "item_ok opened (createPair b child cl)"
proof -
  obtain l m where p: "createPair b child cl = BracketPair l b child cl m"
    using createPair_sel by blast
  have "item_ok opened (BracketPair l b child cl m)"
    using assms p by (cases child) (simp_all add: item_ok_def)
  then show ?thesis by (simp add: p)
qed

text \<open>The pair that is built from an opening bracket, the list behind it and what follows.\<close>

lemma finish_pair_correct:
  assumes "fresh st" "token_ok tok" "tk_kind tok = OpeningBracket" "list_all token_ok (ps_tokenizer st)"
    and "at_end (ss_merge opened (tk_bracketIds tok)) (ps_tokenizer st)"
    and "\<forall>t. child = Some t \<longrightarrow> tree23 t \<and> open_only_last (leaves t) \<and>
      well_nested t (members opened \<union> members (tk_bracketIds tok))"
    and "list_all2 represents (case child of None \<Rightarrow> [] | Some t \<Rightarrow> spelled t) used"
  shows "\<exists>c st'. finish_pair FastTokenizer tok child st = Done (c, st') \<and> fresh st' \<and> item_ok opened c \<and>
    read_as [c] (tok # used @ ps_tokenizer st) (ps_tokenizer st') \<and>
    (unclosed c \<longrightarrow> at_end opened (ps_tokenizer st')) \<and> list_all token_ok (ps_tokenizer st')"
proof -
  obtain b where b: "tk_astNode tok = Some (Bracket b)" "bk_ids b = tk_bracketIds tok" "bracket_of tok = Some b"
    using assms(2,3) by (auto simp: token_ok_def bracket_of_def)
  have rep: "represents (Bracket b) tok" using b by (simp add: represents_def)
  have sp: "(case map_option spelled child of None \<Rightarrow> [] | Some xs \<Rightarrow> xs) = (case child of None \<Rightarrow> [] | Some t \<Rightarrow> spelled t)"
    by (cases child) auto
  obtain lo mo where open_pair: "createPair b child None = BracketPair lo b child None mo"
    using createPair_sel by blast
  have ok_open: "item_ok opened (createPair b child None)"
    using assms(6) b(2) by (intro item_ok_pair) simp_all
  have read_open: "read_as [createPair b child None] (tok # used @ ts) ts" for ts
    unfolding read_as_def open_pair using rep assms(7) sp by (intro exI [of _ "tok # used"]) simp
  show ?thesis
  proof (cases "ps_tokenizer st")
    case Nil
    then show ?thesis
      using assms(1,4) ok_open read_open [of "[]"] b(3)
      by (auto simp: finish_pair_def peek_token_def FastTokenizer_def fresh_def at_end_def run_option_def)
  next
    case (Cons nt rest)
    show ?thesis
    proof (cases "closes nt tok")
      case True
      have nt: "token_ok nt" using assms(4) Cons by simp
      then have m: "tk_kind nt = ClosingBracket" "members (tk_bracketIds nt) \<inter> members (tk_bracketIds tok) \<noteq> {}"
        using True closes_iff [OF nt assms(2,3)] by auto
      then obtain b2 where b2: "tk_astNode nt = Some (Bracket b2)" "bk_ids b2 = tk_bracketIds nt" "bracket_of nt = Some b2"
        using nt by (auto simp: token_ok_def bracket_of_def)
      obtain lc mc where pair: "createPair b child (Some b2) = BracketPair lc b child (Some b2) mc"
        using createPair_sel by blast
      have "item_ok opened (createPair b child (Some b2))"
        using assms(6) m(2) b(2) b2(2) by (intro item_ok_pair) simp_all
      moreover have "read_as [createPair b child (Some b2)] (tok # used @ nt # rest) rest"
        unfolding read_as_def pair using rep assms(7) sp b2(1)
        by (intro exI [of _ "tok # used @ [nt]"])
          (simp add: list_all2_appendI represents_def)
      moreover have "\<not> unclosed (createPair b child (Some b2))" by (simp add: pair)
      ultimately show ?thesis
        using assms(1,4) True Cons b(3) b2(3)
        by (auto simp: finish_pair_def peek_token_def read_token_def FastTokenizer_def fresh_def run_option_def)
    next
      case False
      have nt: "token_ok nt" using assms(4) Cons by simp
      have "at_end opened (nt # rest)"
        using assms(5) False closes_iff [OF nt assms(2,3)] Cons
        by (auto simp: at_end_def is_closing_def members_intersects members_merge)
      then show ?thesis
        using assms(1,4) ok_open read_open [of "nt # rest"] False Cons b(3)
        by (auto simp: finish_pair_def peek_token_def FastTokenizer_def fresh_def run_option_def)
    qed
  qed
qed


text \<open>What is known of the items that a list has so far, of its result, and of a parsed child.\<close>

definition items_ok :: "small_set \<Rightarrow> 'b ast list \<Rightarrow> 'b token list \<Rightarrow> bool" where
  "items_ok opened items ts \<longleftrightarrow>
     (\<forall>c\<in>set items. item_ok opened c) \<and> open_only_last items \<and>
     (items \<noteq> [] \<and> unclosed (last items) \<longrightarrow> at_end opened ts)"

definition list_of :: "'b ast list \<Rightarrow> 'b ast option \<Rightarrow> bool" where
  "list_of items r \<longleftrightarrow> items = [] \<and> r = None \<or> items \<noteq> [] \<and> (\<exists>t. r = Some t \<and> tree23 t \<and> leaves t = items)"

definition going :: "('b token list, 'b) parser_state \<Rightarrow> bool" where
  "going st \<longleftrightarrow> fresh st \<and> list_all token_ok (ps_tokenizer st)"

definition list_parsed ::
  "small_set \<Rightarrow> 'b ast list \<Rightarrow> 'b token list \<Rightarrow> 'b ast option \<Rightarrow> ('b token list, 'b) parser_state \<Rightarrow> bool" where
  "list_parsed opened items ts r st \<longleftrightarrow>
     going st \<and> at_end opened (ps_tokenizer st) \<and>
     (\<exists>new. read_as new ts (ps_tokenizer st) \<and> items_ok opened (items @ new) (ps_tokenizer st) \<and>
        list_of (items @ new) r)"

definition child_parsed ::
  "small_set \<Rightarrow> 'b token list \<Rightarrow> 'b ast \<Rightarrow> ('b token list, 'b) parser_state \<Rightarrow> bool" where
  "child_parsed opened ts c st \<longleftrightarrow>
     going st \<and> item_ok opened c \<and> read_as [c] ts (ps_tokenizer st) \<and>
     (unclosed c \<longrightarrow> at_end opened (ps_tokenizer st))"

lemma child_parsed_shorter: "child_parsed opened ts c st \<Longrightarrow> length (ps_tokenizer st) < length ts"
  by (cases c) (auto simp: child_parsed_def item_ok_def read_as_def list_all2_Cons1)

lemma items_ok_same_level: "items_ok opened items ts \<Longrightarrow> same_level 0 items \<and> concat (map leaves items) = items"
proof -
  assume a: "items_ok opened items ts"
  have "listHeight c = 0" if "\<not> is_list c" for c :: "'b ast" using that by (cases c) auto
  with a have "same_level 0 items" by (auto simp: items_ok_def item_ok_def same_level_def)
  moreover have "\<forall>c\<in>set items. leaves c = [c]" using a by (simp add: items_ok_def item_ok_def)
  then have "concat (map leaves items) = items" by (induction items) auto
  ultimately show ?thesis by simp
qed

lemma finish_list_correct:
  assumes "going st" "items_ok opened items (ps_tokenizer st)" "at_end opened (ps_tokenizer st)"
  shows "\<exists>r. finish_list im items st = Done (r, st) \<and> list_parsed opened items (ps_tokenizer st) r st"
proof -
  note lv = items_ok_same_level [OF assms(2)]
  have "\<exists>r. concat23TreesOfSameHeight im items = Some r \<and> list_of items r"
    using same_height_correct [of 0 items im] lv
    by (cases "items = []") (auto simp: list_of_def concat23TreesOfSameHeight_def)
  then obtain r where "concat23TreesOfSameHeight im items = Some r" "list_of items r" by blast
  then show ?thesis
    using assms read_as_Nil
    by (auto simp: finish_list_def going_def fresh_def run_option_def list_parsed_def intro!: exI [of _ "[]"])
qed

lemma items_ok_snoc:
  assumes "items_ok opened items ts" "\<not> at_end opened ts" "child_parsed opened ts c st"
  shows "items_ok opened (items @ [c]) (ps_tokenizer st)"
  using assms open_only_last_Cons_snoc [of items c] by (auto simp: items_ok_def child_parsed_def)

lemma list_parsed_step:
  assumes "child_parsed opened ts c st" "list_parsed opened (items @ [c]) (ps_tokenizer st) r st'"
  shows "list_parsed opened items ts r st'"
proof -
  obtain new where "going st'" "at_end opened (ps_tokenizer st')" "read_as new (ps_tokenizer st) (ps_tokenizer st')"
    "items_ok opened (items @ [c] @ new) (ps_tokenizer st')" "list_of (items @ [c] @ new) r"
    using assms(2) by (auto simp: list_parsed_def)
  moreover have "read_as ([c] @ new) ts (ps_tokenizer st')"
    using assms(1) calculation(3) by (intro read_as_append) (auto simp: child_parsed_def)
  ultimately show ?thesis unfolding list_parsed_def by blast
qed

text \<open>An opening bracket in front of a parsed list.\<close>

lemma pair_parsed:
  assumes "token_ok tok" "tk_kind tok = OpeningBracket"
    and "list_parsed (ss_merge opened (tk_bracketIds tok)) [] ts r st"
  shows "\<exists>c st'. finish_pair FastTokenizer tok r st = Done (c, st') \<and> child_parsed opened (tok # ts) c st'"
proof -
  let ?o = "ss_merge opened (tk_bracketIds tok)"
  obtain new where st: "fresh st" "list_all token_ok (ps_tokenizer st)" "at_end ?o (ps_tokenizer st)"
    and new: "read_as new ts (ps_tokenizer st)" "items_ok ?o new (ps_tokenizer st)" "list_of new r"
    using assms(3) by (auto simp: list_parsed_def going_def)
  obtain used where used: "ts = used @ ps_tokenizer st" "list_all2 represents (concat (map spelled new)) used"
    using new(1) by (auto simp: read_as_def)
  have child: "\<forall>t. r = Some t \<longrightarrow> tree23 t \<and> open_only_last (leaves t) \<and>
      well_nested t (members opened \<union> members (tk_bracketIds tok))"
  proof (intro allI impI)
    fix t assume "r = Some t"
    then have t: "tree23 t" "leaves t = new" using new(3) by (simp_all add: list_of_def)
    have "\<forall>c\<in>set new. well_nested c (members ?o)" using new(2) by (simp add: items_ok_def item_ok_def)
    then show "tree23 t \<and> open_only_last (leaves t) \<and> well_nested t (members opened \<union> members (tk_bracketIds tok))"
      using t new(2) well_nested_leaves [OF t(1)] by (simp add: items_ok_def members_merge)
  qed
  have "list_all2 represents (case r of None \<Rightarrow> [] | Some t \<Rightarrow> spelled t) used"
    using used(2) new(3) spelled_leaves by (fastforce simp: list_of_def)
  from finish_pair_correct [OF st(1) assms(1,2) st(2,3) child this]
  show ?thesis unfolding used(1) [symmetric] child_parsed_def going_def by blast
qed

lemma going_update [simp]:
  "going (st\<lparr>ps_itemsConstructed := k\<rparr>) = going st"
  "going (st\<lparr>ps_itemsConstructed := k, ps_itemsFromCache := j\<rparr>) = going st"
  by (simp_all add: going_def fresh_def)


lemma fast_peek: "peek_token FastTokenizer st = (if ps_tokenizer st = [] then None else Some (hd (ps_tokenizer st)), st)"
  by (cases "ps_tokenizer st") (simp_all add: peek_token_def FastTokenizer_def)

lemma fast_read: "ps_tokenizer st = tok # ts \<Longrightarrow> read_token FastTokenizer st = (Some tok, st\<lparr>ps_tokenizer := ts\<rparr>)"
  by (simp add: read_token_def FastTokenizer_def)

text \<open>A child: the first token is read, and behind an opening bracket a list.\<close>

lemma parseChild_correct:
  assumes "going st" "ps_tokenizer st = tok # ts" "\<not> is_closing opened tok"
    and list: "\<And>im opened' level st'. going st' \<Longrightarrow> ps_tokenizer st' = ts \<Longrightarrow>
      \<exists>r st2. parseList n FastTokenizer im opened' level [] st' = Done (r, st2) \<and>
        list_parsed opened' [] ts r st2"
  shows "\<exists>c st'. parseChild (Suc n) FastTokenizer im opened level st = Done (c, st') \<and>
    child_parsed opened (tok # ts) c st'"
proof -
  define st1 where "st1 = st\<lparr>ps_itemsConstructed := ps_itemsConstructed st + 1, ps_tokenizer := ts\<rparr>"
  have read: "read_token FastTokenizer (st\<lparr>ps_itemsConstructed := ps_itemsConstructed st + 1\<rparr>) = (Some tok, st1)"
    using assms(2) by (simp add: fast_read st1_def)
  have tok: "token_ok tok" and st1: "going st1" "ps_tokenizer st1 = ts"
    using assms(1,2) by (simp_all add: going_def fresh_def st1_def)
  have one: "child_parsed opened (tok # ts) c st1" if "item_ok opened c" "spelled c = [c]" "represents c tok" "\<not> unclosed c" for c
    using that st1 by (auto simp: child_parsed_def read_as_def intro!: exI [of _ "[tok]"])
  show ?thesis
  proof (cases "tk_kind tok")
    case TextToken
    then have "tk_astNode tok = Some (Text (tk_length tok))" using tok by (simp add: token_ok_def)
    then show ?thesis
      using read TextToken one [of "Text (tk_length tok)"]
      by (simp add: item_ok_def represents_def run_option_def)
  next
    case ClosingBracket
    have "members (tk_bracketIds tok) \<inter> members opened = {}"
      using assms(3) ClosingBracket by (simp add: is_closing_def members_intersects)
    then show ?thesis
      using read ClosingBracket one [of "UnexpectedClosingBracket (tk_bracketIds tok) (tk_length tok)"]
      by (simp add: item_ok_def represents_def)
  next
    case OpeningBracket
    show ?thesis
    proof (cases "300 < level")
      case True
      then show ?thesis
        using read OpeningBracket one [of "Text (tk_length tok)"] by (simp add: item_ok_def represents_def)
    next
      case False
      obtain r st2 where r: "parseList n FastTokenizer im (ss_merge opened (tk_bracketIds tok)) (level + 1) [] st1 = Done (r, st2)"
        "list_parsed (ss_merge opened (tk_bracketIds tok)) [] ts r st2"
        using list [OF st1] by blast
      from pair_parsed [OF tok OpeningBracket r(2)] r(1) False read OpeningBracket show ?thesis by simp
    qed
  qed
qed

text \<open>With fuel for the tokens that are left, a list is parsed to its end.\<close>

lemma parseList_correct:
  "going st \<Longrightarrow> items_ok opened items (ps_tokenizer st) \<Longrightarrow> 2 * length (ps_tokenizer st) + 1 \<le> n \<Longrightarrow>
   \<exists>r st'. parseList n FastTokenizer im opened level items st = Done (r, st') \<and>
     list_parsed opened items (ps_tokenizer st) r st'"
proof (induction n arbitrary: st opened items im level rule: less_induct)
  case (less n)
  then obtain m where n: "n = Suc m" by (cases n) auto
  have cache: "tryReadChildFromCache FastTokenizer opened st = Done (None, st)"
    using less.prems(1) by (simp add: going_def fresh_cache)
  show ?case
  proof (cases "at_end opened (ps_tokenizer st)")
    case True
    then have "parseList n FastTokenizer im opened level items st = finish_list im items st"
      using cache by (auto simp: n fast_peek at_end_def)
    then show ?thesis using finish_list_correct [OF less.prems(1,2) True, of im] by auto
  next
    case False
    then obtain tok ts where ts: "ps_tokenizer st = tok # ts" "\<not> is_closing opened tok"
      by (cases "ps_tokenizer st") (auto simp: at_end_def)
    then obtain k where k: "m = Suc k" using less.prems(3) n by (cases m) auto
    obtain c st1 where c: "parseChild m FastTokenizer im opened (level + 1) st = Done (c, st1)"
      "child_parsed opened (tok # ts) c st1"
    proof -
      have "\<exists>r st2. parseList k FastTokenizer im' opened' level' [] st' = Done (r, st2) \<and>
          list_parsed opened' [] ts r st2"
        if "going st'" "ps_tokenizer st' = ts" for im' opened' level' st'
        using less.IH [of k st' opened' "[]" im' level'] that less.prems(3) n k ts(1)
        by (auto simp: items_ok_def open_only_last_def)
      from parseChild_correct [OF less.prems(1) ts this] that show thesis unfolding k by blast
    qed
    have "\<not> is_list c" using c(2) by (simp add: child_parsed_def item_ok_def)
    then have step: "parseList n FastTokenizer im opened level items st =
        parseList m FastTokenizer im opened level (items @ [c]) st1"
      using cache c(1) ts by (simp add: n fast_peek)
    have "items_ok opened (items @ [c]) (ps_tokenizer st1)"
      using items_ok_snoc [OF less.prems(2) False] c(2) ts(1) by simp
    moreover have "2 * length (ps_tokenizer st1) + 1 \<le> m"
      using child_parsed_shorter [OF c(2)] less.prems(3) n ts(1) by simp
    moreover have "going st1" using c(2) by (simp add: child_parsed_def)
    ultimately obtain r st' where "parseList m FastTokenizer im opened level (items @ [c]) st1 = Done (r, st')"
      "list_parsed opened (items @ [c]) (ps_tokenizer st1) r st'"
      using less.IH [of m st1 opened "items @ [c]" im level] n by auto
    then show ?thesis using step list_parsed_step [OF c(2)] ts(1) by auto
  qed
qed


lemma parse_tokens:
  fixes toks :: "'b token list"
  assumes "\<forall>tok\<in>set toks. token_ok tok"
  shows "\<exists>t. parseDocument (2 * length toks + 1) FastTokenizer toks [] None im = Done t \<and>
    list_all2 represents (spelled t) toks \<and>
    document_tree t \<and> (t = getEmptyList \<longleftrightarrow> toks = [])"
proof -
  define st where "st = \<lparr>ps_tokenizer = toks, ps_oldNodeReader = (None :: 'b node_reader option),
    ps_positionMapper = new_BeforeEditPositionMapper [], ps_itemsConstructed = 0, ps_itemsFromCache = 0\<rparr>"
  have "going st" "items_ok ss_getEmpty [] (ps_tokenizer st)" "2 * length (ps_tokenizer st) + 1 \<le> 2 * length toks + 1"
    using assms by (simp_all add: st_def going_def fresh_def list_all_iff items_ok_def open_only_last_def)
  from parseList_correct [OF this, of im 0] obtain r st' where
    r: "parseList (2 * length toks + 1) FastTokenizer im ss_getEmpty 0 [] st = Done (r, st')"
    "list_parsed ss_getEmpty [] toks r st'" by (auto simp: st_def)
  have doc: "parseDocument (2 * length toks + 1) FastTokenizer toks [] None im =
      Done (case r of None \<Rightarrow> getEmptyList | Some t \<Rightarrow> t)"
    using r(1) by (simp add: parseDocument_def new_Parser_def run_option_def parser_parseDocument_def st_def)
  have "ps_tokenizer st' = []"
    using r(2) by (simp add: list_parsed_def at_end_def is_closing_def members_intersects members_empty)
  then obtain new where new: "list_all2 represents (concat (map spelled new)) toks" "items_ok ss_getEmpty new []"
    "list_of new r"
    using r(2) by (auto simp: list_parsed_def read_as_def)
  show ?thesis
  proof (cases r)
    case None
    then have "new = []" using new(3) by (simp add: list_of_def)
    then show ?thesis using doc None new(1) by (simp add: getEmptyList_def document_tree_def)
  next
    case (Some t)
    then have t: "tree23 t" "leaves t = new" "new \<noteq> []" using new(3) by (auto simp: list_of_def)
    have sp: "list_all2 represents (spelled t) toks" using new(1) spelled_leaves [OF t(1)] t(2) by simp
    have "spelled x \<noteq> []" if "tree23 x" for x :: "'b ast" using that by (induction x) auto
    with sp t(1) have "toks \<noteq> []" by auto
    moreover have "well_nested t {}" "open_only_last (leaves t)"
      using new(2) t well_nested_leaves [OF t(1)] by (simp_all add: items_ok_def item_ok_def members_empty)
    moreover have "t \<noteq> getEmptyList" using t(1) by (auto simp: getEmptyList_def)
    ultimately show ?thesis using doc Some t(1) sp by (simp add: document_tree_def)
  qed
qed


text \<open>The brackets of \<open>(]a)(\<close> with ids 0 for the round and 1 for the square ones.\<close>

definition bracket_token :: "token_kind \<Rightarrow> nat \<Rightarrow> unit token" where
  "bracket_token kind i =
     \<lparr>tk_length = 1, tk_kind = kind, tk_bracketId = int i, tk_bracketIds = ss_add i ss_getEmpty,
      tk_astNode = Some (Bracket (BracketNode 1 () (ss_add i ss_getEmpty)))\<rparr>"

definition sample_tokens :: "unit token list" where
  "sample_tokens =
     [bracket_token OpeningBracket 0, bracket_token ClosingBracket 1,
      \<lparr>tk_length = 1, tk_kind = TextToken, tk_bracketId = -1, tk_bracketIds = ss_getEmpty,
       tk_astNode = Some (Text 1)\<rparr>,
      bracket_token ClosingBracket 0, bracket_token OpeningBracket 0]"



section \<open>Nodes of an old tree\<close>

text \<open>The missing ids of a node decide below which open brackets it is well nested.\<close>

lemma members_foldl_merge:
  "members (foldl (\<lambda>s t. ss_merge s (missingOpeningBracketIds t)) s ts) =
     members s \<union> (\<Union>t\<in>set ts. members (missingOpeningBracketIds t))"
  by (induction ts arbitrary: s) (auto simp: members_merge)

lemma members_merge_missing:
  "members (merge_missing (t # ts)) = (\<Union>u\<in>set (t # ts). members (missingOpeningBracketIds u))"
  by (simp add: merge_missing_def members_foldl_merge)

lemma missing_createPair:
  "missingOpeningBracketIds (createPair op c cl) =
     (case c of None \<Rightarrow> ss_getEmpty | Some t \<Rightarrow> missingOpeningBracketIds t)"
  by (simp add: createPair_def Let_def)

lemma well_nested_createPair:
  "well_nested (createPair op c cl) B \<longleftrightarrow>
     (\<forall>t. c = Some t \<longrightarrow> well_nested t (B \<union> members (bk_ids op)) \<and> tree23 t \<and> open_only_last (leaves t)) \<and>
     (\<forall>b. cl = Some b \<longrightarrow> members (bk_ids b) \<inter> members (bk_ids op) \<noteq> {})"
proof -
  obtain l m where p: "createPair op c cl = BracketPair l op c cl m" using createPair_sel by blast
  have "well_nested (BracketPair l op c cl m) B \<longleftrightarrow>
      (\<forall>t. c = Some t \<longrightarrow> well_nested t (B \<union> members (bk_ids op)) \<and> tree23 t \<and> open_only_last (leaves t)) \<and>
      (\<forall>b. cl = Some b \<longrightarrow> members (bk_ids b) \<inter> members (bk_ids op) \<noteq> {})"
    using p by (cases c) auto
  then show ?thesis unfolding p .
qed

lemma well_nested_missing:
  "well_nested t B \<Longrightarrow> well_nested t B' \<longleftrightarrow> members (missingOpeningBracketIds t) \<inter> B' = {}"
proof (induction t arbitrary: B B')
  case (BracketPair l op c cl m)
  then have p: "BracketPair l op c cl m = createPair op c cl" by simp
  note wn = BracketPair.prems [unfolded p well_nested_createPair]
  show ?case
  proof (cases c)
    case None
    then show ?thesis unfolding p well_nested_createPair missing_createPair using wn by (simp add: members_empty)
  next
    case (Some t)
    then have t: "well_nested t (B \<union> members (bk_ids op))" using wn by simp
    have iff: "well_nested t B'' \<longleftrightarrow> members (missingOpeningBracketIds t) \<inter> B'' = {}" for B''
      by (rule BracketPair.IH(1) [OF _ t]) (simp add: Some)
    have "members (missingOpeningBracketIds t) \<inter> members (bk_ids op) = {}"
      using iff [of "B \<union> members (bk_ids op)"] t by blast
    then have "well_nested t (B' \<union> members (bk_ids op)) \<longleftrightarrow> members (missingOpeningBracketIds t) \<inter> B' = {}"
      unfolding iff by blast
    then show ?thesis
      unfolding p well_nested_createPair missing_createPair using wn Some by simp
  qed
next
  case (List23 im l h a b c m)
  then have m: "members m = members (missingOpeningBracketIds a) \<union> members (missingOpeningBracketIds b) \<union>
      (\<Union>u\<in>set (opt_list c). members (missingOpeningBracketIds u))"
    by (simp add: members_merge_missing Un_assoc)
  have "well_nested a B' \<longleftrightarrow> members (missingOpeningBracketIds a) \<inter> B' = {}"
    "well_nested b B' \<longleftrightarrow> members (missingOpeningBracketIds b) \<inter> B' = {}"
    using List23.IH(1,2) [of B B'] List23.prems by (simp_all del: tree23.simps)
  moreover have "case c of None \<Rightarrow> True | Some t \<Rightarrow> well_nested t B' \<longleftrightarrow> members (missingOpeningBracketIds t) \<inter> B' = {}"
    using List23.IH(3) List23.prems by (auto split: option.splits)
  ultimately show ?case using List23.prems m by (cases c) (auto simp del: tree23.simps)
qed (auto simp: members_empty)

lemma last_leaf_List23: "last_leaf (List23 im l h a b c m) = last_leaf (case c of None \<Rightarrow> b | Some d \<Rightarrow> d)"
  by (subst last_leaf.simps) simp

lemma last_leaf_leaves: "tree23 t \<Longrightarrow> leaves t \<noteq> [] \<and> last_leaf t = Some (last (leaves t))"
proof (induction t)
  case (List23 im l h a b c m)
  then show ?case by (cases c) (auto simp: last_leaf_List23)
qed (simp_all add: last_leaf.simps)

lemma leaves_not_list: "tree23 t \<Longrightarrow> x \<in> set (leaves t) \<Longrightarrow> \<not> is_list x"
proof (induction t)
  case (List23 im l h a b c m)
  then show ?case by (cases c) auto
qed auto

text \<open>A node that is no list passes the test if it is well nested and not unclosed.\<close>

lemma leaf_canBeReused_exact:
  assumes "well_nested t B" "\<not> is_list t"
  shows "leaf_canBeReused opened t \<longleftrightarrow> well_nested t (members opened) \<and> \<not> unclosed t"
proof (cases t)
  case (BracketPair l op c cl m)
  show ?thesis
    unfolding well_nested_missing [OF assms(1)] by (auto simp: BracketPair leaf_canBeReused_def members_intersects)
qed (use assms in \<open>auto simp: leaf_canBeReused_def members_intersects\<close>)

text \<open>
  The test \<open>canBeReused\<close> on a well-nested node never throws and is exact: it holds if and
  only if the node is also well nested below the brackets that are open now and its last item is
  not an unclosed pair.
\<close>

lemma canBeReused_iff:
  assumes "tree23 t" "well_nested t B"
  shows "canBeReused opened t =
    Some (well_nested t (members opened) \<and> \<not> unclosed (last (leaves t)))"
proof (cases "is_list t")
  case False
  then have "leaves t = [t]" by (cases t) auto
  then show ?thesis using leaf_canBeReused_exact [OF assms(2) False] False by (simp add: canBeReused_def)
next
  case True
  have ll: "leaves t \<noteq> []" "last_leaf t = Some (last (leaves t))" using last_leaf_leaves [OF assms(1)] by auto
  then have mem: "last (leaves t) \<in> set (leaves t)" by simp
  have "well_nested (last (leaves t)) B" "\<not> is_list (last (leaves t))"
    using assms mem well_nested_leaves leaves_not_list by blast+
  note leaf = leaf_canBeReused_exact [OF this, of opened]
  have "childrenLength t \<noteq> 0" using True assms(1) by (cases t) auto
  moreover have "well_nested t (members opened) \<longleftrightarrow> \<not> ss_intersects opened (missingOpeningBracketIds t)"
    using well_nested_missing [OF assms(2)] by (auto simp: members_intersects)
  moreover have "well_nested t (members opened) \<Longrightarrow> well_nested (last (leaves t)) (members opened)"
    using well_nested_leaves [OF assms(1)] mem by blast
  ultimately show ?thesis using True ll(2) leaf by (auto simp: canBeReused_def)
qed

section \<open>What is read from an old tree\<close>

text \<open>Every node of a document's tree is a bracket or well nested below the brackets around it.\<close>

definition node_ok :: "'b ast \<Rightarrow> bool" where
  "node_ok n \<longleftrightarrow> (\<exists>b. n = Bracket b) \<or> (tree23 n \<and> open_only_last (leaves n) \<and> (\<exists>B. well_nested n B))"

lemma open_only_last_append:
  "open_only_last (xs @ ys) \<Longrightarrow> open_only_last xs \<and> open_only_last ys"
proof (cases "ys = []")
  case False
  assume "open_only_last (xs @ ys)"
  with False show ?thesis
    by (auto simp: open_only_last_def butlast_append dest: in_set_butlastD)
qed (simp add: open_only_last_def)

lemma child_ok:
  assumes "node_ok p" "getChild p j = Some n"
  shows "node_ok n"
proof (cases p)
  case (BracketPair l op c cl m)
  with assms(1) obtain B where B: "well_nested (BracketPair l op c cl m) B" unfolding node_ok_def by blast
  then have "BracketPair l op c cl m = createPair op c cl" by simp
  with B have wn: "well_nested (createPair op c cl) B" by simp
  consider b where "n = Bracket b" | "c = Some n"
    using assms(2) BracketPair by (auto simp: getChild_def split: if_splits)
  then show ?thesis
    using wn unfolding well_nested_createPair node_ok_def by cases blast+
next
  case (List23 im l h a b c m)
  then have lv: "leaves p = leaves a @ leaves b @ (case c of None \<Rightarrow> [] | Some d \<Rightarrow> leaves d)"
    and ok: "tree23 p" "open_only_last (leaves p)" "\<exists>B. well_nested p B"
    using assms(1) by (auto simp: node_ok_def split: option.split)
  have n: "n = a \<or> n = b \<or> c = Some n" using assms(2) List23 by (auto simp: getChild_def split: if_splits)
  then have "open_only_last (leaves n)"
    using ok(2) unfolding lv by (auto dest!: open_only_last_append)
  moreover have "tree23 n" using ok(1) n List23 by auto
  moreover have "\<exists>B. well_nested n B" using ok(3) n List23 by (auto simp del: tree23.simps)
  ultimately show ?thesis by (simp add: node_ok_def)
qed (use assms in \<open>auto simp: getChild_def node_ok_def\<close>)

lemma node_at_ok: "node_at root off n \<Longrightarrow> node_ok root \<Longrightarrow> node_ok n"
  by (induction rule: node_at.induct) (auto intro: child_ok)

lemma reusable_node:
  assumes "document_tree root" "node_at root off n" "reusable opened dist n = Some True"
  shows "tree23 n \<and> well_nested n (members opened) \<and> (\<forall>x\<in>set (leaves n). \<not> unclosed x) \<and>
    (\<forall>l. dist = Some l \<longrightarrow> lengthLessThan (ast_length n) l)"
proof -
  have reuse: "canBeReused opened n = Some True" "\<forall>l. dist = Some l \<longrightarrow> lengthLessThan (ast_length n) l"
    using assms(3) by (auto simp: reusable_def split: if_splits option.splits)
  have "\<not> canBeReused opened getEmptyList = Some True" for opened and x :: 'b
    by (simp add: canBeReused_def getEmptyList_def)
  moreover have "n = getEmptyList" if "root = getEmptyList"
    using assms(2) that by (induction rule: node_at.induct) (auto simp: getEmptyList_def getChild_def)
  ultimately have "node_ok root" using assms(1) reuse(1) by (auto simp: document_tree_def node_ok_def)
  then have "node_ok n" by (rule node_at_ok [OF assms(2)])
  moreover have "\<not> canBeReused opened (Bracket b) = Some True" for b
    by (simp add: canBeReused_def leaf_canBeReused_def)
  ultimately obtain B where n: "tree23 n" "open_only_last (leaves n)" "well_nested n B"
    using reuse(1) by (auto simp: node_ok_def)
  then have ex: "well_nested n (members opened)" "\<not> unclosed (last (leaves n))"
    using canBeReused_iff [OF n(1,3), of opened] reuse(1) by simp_all
  have "leaves n \<noteq> []" using last_leaf_leaves [OF n(1)] by simp
  then have "set (leaves n) = insert (last (leaves n)) (set (butlast (leaves n)))"
    by (metis append_butlast_last_id list.simps(15) rotate1.simps(2) set_rotate1)
  then show ?thesis using n(1,2) ex reuse(2) by (auto simp: open_only_last_def)
qed

text \<open>
  C2. A child that the parser takes from the tree of an old document stands in it where the
  position mapper places the tokenizer, is shorter than the distance to the next change, is a
  (2,3)-tree that is well nested below the brackets that are open now and has no unclosed pair
  among its items. The reader stays on the nodes of the old tree, so this holds for all children.
\<close>

theorem cached_child_sound:
  assumes "document_tree root" "ps_oldNodeReader st = Some reader" "reader_ok root reader"
    and "tryReadChildFromCache tz opened st = Done (Some c, st')"
  shows "tree23 c \<and> well_nested c (members opened) \<and> (\<forall>x\<in>set (leaves c). \<not> unclosed x) \<and>
    (let off = tz_offset tz (ps_tokenizer st); (dist, mapper) = getDistanceToNextChange off (ps_positionMapper st)
     in node_at root (fst (getOffsetBeforeChange off mapper)) c \<and>
       (case dist of None \<Rightarrow> True | Some l \<Rightarrow> lengthLessThan (ast_length c) l)) \<and>
    (\<exists>reader'. ps_oldNodeReader st' = Some reader' \<and> reader_ok root reader')"
proof -
  obtain dist mapper where d: "getDistanceToNextChange (tz_offset tz (ps_tokenizer st)) (ps_positionMapper st) = (dist, mapper)"
    by (rule prod.exhaust)
  obtain off mapper2 where o: "getOffsetBeforeChange (tz_offset tz (ps_tokenizer st)) mapper = (off, mapper2)"
    by (rule prod.exhaust)
  from assms(4) obtain reader2 where r: "readLongestNodeAt off (reusable opened dist) reader = Some (Some c, reader2)"
    "ps_oldNodeReader st' = Some reader2"
    unfolding tryReadChildFromCache_def assms(2)
    by (auto simp: d o Let_def run_bind_Done split: if_splits option.splits)
  have at: "reader_ok root reader2" "node_at root off c" "reusable opened dist c = Some True"
    using readLongestNodeAt_at [OF assms(3) r(1)] by auto
  from reusable_node [OF assms(1) at(2,3)] at r(2) show ?thesis
    by (auto simp: d o split: option.split)
qed


text \<open>A list of two texts and an unexpected bracket, and a tokenizer that only knows its position.\<close>

definition sample_node :: "unit ast" where
  "sample_node =
     List23 False (lengthAdd (lengthAdd 1 2) 3) 1 (Text 1) (Text 2)
       (Some (UnexpectedClosingBracket (ss_add 1 ss_getEmpty) 3))
       (merge_missing [Text 1, Text 2, UnexpectedClosingBracket (ss_add 1 ss_getEmpty) 3 :: unit ast])"

lemma sample_node_ok: "tree23 sample_node" "well_nested sample_node B \<longleftrightarrow> 1 \<notin> B"
  by (simp_all add: sample_node_def sum_length_def members_add members_empty)

definition position_tokenizer :: "(len, unit) tokenizer" where
  "position_tokenizer =
     \<lparr>tz_offset = (\<lambda>p. p), tz_read = (\<lambda>p. (None, p)), tz_peek = (\<lambda>p. (None, p)),
      tz_skip = (\<lambda>l p. Some (lengthAdd p l))\<rparr>"

definition sample_state :: "(len, unit) parser_state" where
  "sample_state =
     \<lparr>ps_tokenizer = lengthZero, ps_oldNodeReader = Some (new_NodeReader sample_node),
      ps_positionMapper = new_BeforeEditPositionMapper [], ps_itemsConstructed = 0, ps_itemsFromCache = 0\<rparr>"

lemma sample_read:
  "\<exists>st. tryReadChildFromCache position_tokenizer (ss_add 0 ss_getEmpty) sample_state = Done (Some sample_node, st)"
proof -
  have "canBeReused (ss_add 0 ss_getEmpty) sample_node = Some True"
    using canBeReused_iff [OF sample_node_ok(1), of "{}"]
    by (simp add: sample_node_ok(2) members_add members_empty) (simp add: sample_node_def)
  then have "reusable (ss_add 0 ss_getEmpty) None sample_node = Some True" by (simp add: reusable_def)
  then have "readLongestNodeAt 0 (reusable (ss_add 0 ss_getEmpty) None) (new_NodeReader sample_node) =
      Some (Some sample_node, nextNodeAfterCurrent ((new_NodeReader sample_node)\<lparr>nr_lastOffset := 0\<rparr>))"
    by (simp add: readLongestNodeAt_def new_NodeReader_def lengthLessThan_def lengthZero_def
        read_loop.simps [of 0 "reusable (ss_add 0 ss_getEmpty) None"])
  moreover have "getDistanceToNextChange 0 (new_BeforeEditPositionMapper []) = (None, new_BeforeEditPositionMapper [])"
    "fst (getOffsetBeforeChange 0 (new_BeforeEditPositionMapper [])) = 0"
    by code_simp+
  ultimately show ?thesis
    by (simp add: tryReadChildFromCache_def sample_state_def position_tokenizer_def lengthZero_def run_option_def
        case_prod_beta Let_def)
qed

theorem cached_child_sound_witness:
  "\<exists>st. tryReadChildFromCache position_tokenizer (ss_add 0 ss_getEmpty) sample_state = Done (Some sample_node, st) \<and>
     well_nested sample_node (members (ss_add 0 ss_getEmpty)) \<and> (\<forall>x\<in>set (leaves sample_node). \<not> unclosed x)"
proof -
  obtain st where st: "tryReadChildFromCache position_tokenizer (ss_add 0 ss_getEmpty) sample_state = Done (Some sample_node, st)"
    using sample_read by blast
  have "document_tree sample_node"
    using sample_node_ok by (simp add: document_tree_def) (simp add: sample_node_def open_only_last_def)
  moreover have "ps_oldNodeReader sample_state = Some (new_NodeReader sample_node)"
    by (simp add: sample_state_def)
  ultimately show ?thesis
    using cached_child_sound [OF _ _ reader_ok_new st] st by blast
qed

end
