(* ===== verification/Bracket_Tokens.thy ===== *)
theory Bracket_Tokens
  imports Bracket_Parser "HOL-Library.Char_ord" "HOL-Library.List_Lexorder"
begin

text \<open>
  From the brackets of a language to tokens: \<open>languageBracketsConfiguration.ts\<close>, \<open>brackets.ts\<close> and
  the constructor of \<open>FastTokenizer\<close> (\<open>tokenizer.ts\<close>). JavaScript sets are lists in insertion order
  without duplicates. The regular expression of the brackets is modelled by what it matches.
\<close>

section \<open>The brackets of a language\<close>

text \<open>
  \<open>LanguageBracketsConfiguration\<close>: opening brackets with the closing ones they go with, closing
  brackets with the opening ones that they close, and those they close for colorization. A kind of
  bracket is identified by its text.
\<close>

record bracket_config =
  bc_languageId :: string
  bc_openingBrackets :: "(string, string list) jmap"
  bc_closingBrackets :: "(string, string list \<times> string list) jmap"

datatype bracket_kind = OpeningBracketKind string string | ClosingBracketKind string string

definition set_add :: "'a \<Rightarrow> 'a list \<Rightarrow> 'a list" where
  "set_add x xs = (if x \<in> set xs then xs else xs @ [x])"

text \<open>\<open>filterValidBrackets\<close>.\<close>

definition filterValidBrackets :: "(string \<times> string) list \<Rightarrow> (string \<times> string) list" where
  "filterValidBrackets = filter (\<lambda>(open, close). open \<noteq> [] \<and> close \<noteq> [])"

definition add_pair :: "bool \<Rightarrow> string \<times> string \<Rightarrow> bracket_config \<Rightarrow> bracket_config" where
  "add_pair colorized p c =
     (let (open, close) = p;
          closing = or_else (map_of (bc_openingBrackets c) open) [];
          (opening, openingColorized) = or_else (map_of (bc_closingBrackets c) close) ([], [])
      in c\<lparr>bc_openingBrackets := AList.update open (set_add close closing) (bc_openingBrackets c),
           bc_closingBrackets := AList.update close
             (set_add open opening, if colorized then set_add open openingColorized else openingColorized)
             (bc_closingBrackets c)\<rparr>)"

text \<open>Unless configured, the colorized brackets are all brackets but the angle brackets.\<close>

definition colorized_pairs ::
  "(string \<times> string) list \<Rightarrow> (string \<times> string) list option \<Rightarrow> (string \<times> string) list" where
  "colorized_pairs bracketPairs colorized =
     (case colorized of
        Some ps \<Rightarrow> filterValidBrackets ps
      | None \<Rightarrow> filter (\<lambda>p. \<not> (fst p = ''<'' \<and> snd p = ''>'')) bracketPairs)"

definition new_LanguageBracketsConfiguration ::
  "string \<Rightarrow> (string \<times> string) list option \<Rightarrow> (string \<times> string) list option \<Rightarrow> bracket_config" where
  "new_LanguageBracketsConfiguration languageId brackets colorized =
     (let bracketPairs = (case brackets of None \<Rightarrow> [] | Some ps \<Rightarrow> filterValidBrackets ps) in
      fold (add_pair True) (colorized_pairs bracketPairs colorized)
        (fold (add_pair False) bracketPairs
          \<lparr>bc_languageId = languageId, bc_openingBrackets = [], bc_closingBrackets = []\<rparr>))"

definition getOpeningBracketInfo :: "string \<Rightarrow> bracket_config \<Rightarrow> bracket_kind option" where
  "getOpeningBracketInfo bracketText c =
     map_option (\<lambda>_. OpeningBracketKind (bc_languageId c) bracketText) (map_of (bc_openingBrackets c) bracketText)"

definition getClosingBracketInfo :: "string \<Rightarrow> bracket_config \<Rightarrow> bracket_kind option" where
  "getClosingBracketInfo bracketText c =
     map_option (\<lambda>_. ClosingBracketKind (bc_languageId c) bracketText) (map_of (bc_closingBrackets c) bracketText)"

definition getBracketInfo :: "string \<Rightarrow> bracket_config \<Rightarrow> bracket_kind option" where
  "getBracketInfo bracketText c =
     (case getOpeningBracketInfo bracketText c of
        Some k \<Rightarrow> Some k | None \<Rightarrow> getClosingBracketInfo bracketText c)"

text \<open>\<open>closes\<close> and \<open>closesColorized\<close> for two brackets of one configuration.\<close>

definition kind_closes :: "bracket_config \<Rightarrow> string \<Rightarrow> string \<Rightarrow> bool" where
  "kind_closes c close open = (case map_of (bc_closingBrackets c) close of None \<Rightarrow> False | Some (os, _) \<Rightarrow> open \<in> set os)"

definition kind_closesColorized :: "bracket_config \<Rightarrow> string \<Rightarrow> string \<Rightarrow> bool" where
  "kind_closesColorized c close open =
     (case map_of (bc_closingBrackets c) close of None \<Rightarrow> False | Some (_, os) \<Rightarrow> open \<in> set os)"

section \<open>The tokens of the brackets\<close>

type_synonym token_map = "(string, bracket_kind token) jmap"

definition bracket_id :: "string \<Rightarrow> string \<Rightarrow> string key_provider \<Rightarrow> nat \<times> string key_provider" where
  "bracket_id languageId bracketText kp = kp_getKey (languageId @ '':::'' @ bracketText) kp"

definition bracket_token_of :: "token_kind \<Rightarrow> string \<Rightarrow> nat \<Rightarrow> small_set \<Rightarrow> bracket_kind \<Rightarrow> bracket_kind token" where
  "bracket_token_of kind bracketText i ids info =
     (let len = toLength 0 (int (length bracketText)) in
      \<lparr>tk_length = len, tk_kind = kind, tk_bracketId = int i, tk_bracketIds = ids,
       tk_astNode = Some (Bracket (BracketNode len info ids))\<rparr>)"

definition add_opening :: "string \<Rightarrow> string \<Rightarrow> token_map \<times> string key_provider \<Rightarrow> token_map \<times> string key_provider" where
  "add_opening languageId bracketText s =
     (let (i, kp) = bracket_id languageId bracketText (snd s);
          ids = ss_add i ss_getEmpty
      in (AList.update bracketText
            (bracket_token_of OpeningBracket bracketText i ids (OpeningBracketKind languageId bracketText)) (fst s), kp))"

definition collect_ids :: "string \<Rightarrow> string list \<Rightarrow> string key_provider \<Rightarrow> small_set \<times> string key_provider" where
  "collect_ids languageId brackets kp =
     foldl (\<lambda>(ids, kp) b. let (i, kp') = bracket_id languageId b kp in (ss_add i ids, kp')) (ss_getEmpty, kp) brackets"

text \<open>A closing bracket without opening brackets, which the configuration never has, would throw.\<close>

definition add_closing ::
  "string \<Rightarrow> string \<times> string list \<Rightarrow> token_map \<times> string key_provider \<Rightarrow> (token_map \<times> string key_provider) option" where
  "add_closing languageId b s =
     (let (ids, kp) = collect_ids languageId (snd b) (snd s) in
      case snd b of
        [] \<Rightarrow> None
      | first # _ \<Rightarrow>
          (let (i, kp') = bracket_id languageId first kp in
           Some (AList.update (fst b)
             (bracket_token_of ClosingBracket (fst b) i ids (ClosingBracketKind languageId (fst b))) (fst s), kp')))"

fun add_closings ::
  "string \<Rightarrow> (string \<times> string list) list \<Rightarrow> token_map \<times> string key_provider \<Rightarrow> (token_map \<times> string key_provider) option" where
  "add_closings languageId [] s = Some s"
| "add_closings languageId (b # bs) s = Option.bind (add_closing languageId b s) (add_closings languageId bs)"

definition createFromLanguage ::
  "bracket_config \<Rightarrow> string key_provider \<Rightarrow> (token_map \<times> string key_provider) option" where
  "createFromLanguage c kp =
     add_closings (bc_languageId c) (map (\<lambda>(t, os, _). (t, os)) (bc_closingBrackets c))
       (fold (add_opening (bc_languageId c)) (jkeys (bc_openingBrackets c)) ([], kp))"

definition bt_getToken :: "string \<Rightarrow> token_map \<Rightarrow> bracket_kind token option" where
  "bt_getToken value m = map_of m (to_lower value)"

definition findClosingTokenText :: "small_set \<Rightarrow> token_map \<Rightarrow> string option" where
  "findClosingTokenText openingBracketIds m =
     map_option fst (List.find (\<lambda>(_, info). tk_kind info = ClosingBracket \<and>
       ss_intersects (tk_bracketIds info) openingBracketIds) m)"

definition bt_isEmpty :: "token_map \<Rightarrow> bool" where
  "bt_isEmpty m \<longleftrightarrow> m = []"

text \<open>
  \<open>LanguageAgnosticBracketTokens\<close>: the tokens of a language are created when they are first asked
  for; the configurations of the languages are a parameter.
\<close>

record agnostic_tokens =
  at_languages :: "(string, token_map) jmap"
  at_provider :: "string key_provider"

definition didLanguageChange :: "string \<Rightarrow> agnostic_tokens \<Rightarrow> bool" where
  "didLanguageChange languageId s \<longleftrightarrow> map_of (at_languages s) languageId \<noteq> None"

definition getSingleLanguageBracketTokens ::
  "(string \<Rightarrow> bracket_config) \<Rightarrow> string \<Rightarrow> agnostic_tokens \<Rightarrow> (token_map \<times> agnostic_tokens) option" where
  "getSingleLanguageBracketTokens config languageId s =
     (case map_of (at_languages s) languageId of
        Some m \<Rightarrow> Some (m, s)
      | None \<Rightarrow> map_option (\<lambda>(m, kp).
          (m, s\<lparr>at_languages := AList.update languageId m (at_languages s), at_provider := kp\<rparr>))
          (createFromLanguage (config languageId) (at_provider s)))"

definition at_getToken ::
  "(string \<Rightarrow> bracket_config) \<Rightarrow> string \<Rightarrow> string \<Rightarrow> agnostic_tokens \<Rightarrow> (bracket_kind token option \<times> agnostic_tokens) option" where
  "at_getToken config value languageId s =
     map_option (\<lambda>(m, s'). (bt_getToken value m, s')) (getSingleLanguageBracketTokens config languageId s)"

section \<open>The regular expression\<close>

text \<open>The characters of \<open>\w\<close>, and whether \<open>\b\<close> holds between two characters.\<close>

definition regex_word_char :: "char \<Rightarrow> bool" where
  "regex_word_char c = (let n = (of_char c :: nat) in
     48 \<le> n \<and> n \<le> 57 \<or> 65 \<le> n \<and> n \<le> 90 \<or> n = 95 \<or> 97 \<le> n \<and> n \<le> 122)"

definition word_boundary :: "char option \<Rightarrow> char option \<Rightarrow> bool" where
  "word_boundary a b \<longleftrightarrow>
     (case a of None \<Rightarrow> False | Some c \<Rightarrow> regex_word_char c) \<noteq> (case b of None \<Rightarrow> False | Some c \<Rightarrow> regex_word_char c)"

definition wordy :: "char \<Rightarrow> bool" where
  "wordy c \<longleftrightarrow> regex_word_char c \<or> c = CHR '' ''"

definition char_at :: "string \<Rightarrow> nat \<Rightarrow> char option" where
  "char_at s i = (if i < length s then Some (s ! i) else None)"

text \<open>
  \<open>prepareBracketForRegExp\<close> escapes the text, so that it matches itself, here regardless of case, and
  puts \<open>\b\<close> in front of and behind a text that begins or ends with a letter. The match is at the
  start of \<open>s\<close>, behind the character \<open>prev\<close>.
\<close>

definition prepareBracketForRegExp :: "string \<Rightarrow> char option \<Rightarrow> string \<Rightarrow> bool" where
  "prepareBracketForRegExp str prev s \<longleftrightarrow>
     length str \<le> length s \<and> to_lower (take (length str) s) = to_lower str \<and>
     (str \<noteq> [] \<and> wordy (hd str) \<longrightarrow> word_boundary prev (char_at s 0)) \<and>
     (str \<noteq> [] \<and> wordy (last str) \<longrightarrow>
       word_boundary (char_at s (length str - 1)) (char_at s (length str)))"

text \<open>\<open>getRegExpStr\<close>: the alternatives in their order.\<close>

definition getRegExpStr :: "token_map \<Rightarrow> string list" where
  "getRegExpStr m = rev (sort (jkeys m))"

text \<open>What \<open>exec\<close> matches at one place, with the alternative \<open>\n\<close> at the end.\<close>

definition match_here :: "string list \<Rightarrow> char option \<Rightarrow> string \<Rightarrow> string option" where
  "match_here alts prev s =
     (case List.find (\<lambda>k. prepareBracketForRegExp k prev s) alts of
        Some k \<Rightarrow> Some (take (length k) s)
      | None \<Rightarrow> if s \<noteq> [] \<and> hd s = newline then Some [newline] else None)"

text \<open>
  All matches of the global expression, with their places. No bracket is empty, so every match
  advances.
\<close>

function exec_all :: "string list \<Rightarrow> nat \<Rightarrow> char option \<Rightarrow> string \<Rightarrow> (nat \<times> string) list" where
  "exec_all alts i prev [] = []"
| "exec_all alts i prev (c # s) =
     (case match_here alts prev (c # s) of
        None \<Rightarrow> exec_all alts (i + 1) (Some c) s
      | Some v \<Rightarrow>
          (i, v) # exec_all alts (i + max 1 (length v)) (Some (last (c # v))) (drop (max 1 (length v)) (c # s)))"
  by pat_completeness auto
termination
  by (relation "measure (\<lambda>(alts, i, prev, s). length s)") auto

section \<open>The constructor of FastTokenizer\<close>

definition text_token :: "len \<Rightarrow> 'b token" where
  "text_token l =
     \<lparr>tk_length = l, tk_kind = TextToken, tk_bracketId = -1, tk_bracketIds = ss_getEmpty,
      tk_astNode = Some (Text l)\<rparr>"

record fast_state =
  fs_curLineCount :: nat
  fs_lastLineBreakOffset :: nat
  fs_lastTokenEndOffset :: nat
  fs_lastTokenEndLine :: nat
  fs_tokens :: "bracket_kind token option list"

text \<open>
  The text in front of a bracket or at the end. The code shares the tokens of short texts; they
  are equal to the ones it would create.
\<close>

definition text_length_to :: "nat \<Rightarrow> fast_state \<Rightarrow> len" where
  "text_length_to curOffset st =
     (if fs_lastTokenEndLine st = fs_curLineCount st
      then toLength 0 (int curOffset - int (fs_lastTokenEndOffset st))
      else toLength (int (fs_curLineCount st) - int (fs_lastTokenEndLine st))
        (int curOffset - int (fs_lastLineBreakOffset st)))"

definition text_tokens :: "nat \<Rightarrow> fast_state \<Rightarrow> bracket_kind token option list" where
  "text_tokens curOffset st =
     (if fs_lastTokenEndOffset st \<noteq> curOffset then [Some (text_token (text_length_to curOffset st))] else [])"

definition fast_step :: "token_map \<Rightarrow> fast_state \<Rightarrow> nat \<times> string \<Rightarrow> fast_state" where
  "fast_step m st found =
     (let (curOffset, value) = found in
      if value = [newline]
      then st\<lparr>fs_curLineCount := fs_curLineCount st + 1, fs_lastLineBreakOffset := curOffset + 1\<rparr>
      else st\<lparr>fs_tokens := fs_tokens st @ text_tokens curOffset st @ [bt_getToken value m],
              fs_lastTokenEndOffset := curOffset + length value,
              fs_lastTokenEndLine := fs_curLineCount st\<rparr>)"

text \<open>The tokens, of which a missing one is undefined, and the length of the text.\<close>

definition new_FastTokenizer :: "string \<Rightarrow> token_map \<Rightarrow> bracket_kind token option list \<times> len" where
  "new_FastTokenizer text1 brackets =
     (let found = (if bt_isEmpty brackets then [] else exec_all (getRegExpStr brackets) 0 None text1);
          st = foldl (fast_step brackets) \<lparr>fs_curLineCount = 0, fs_lastLineBreakOffset = 0,
            fs_lastTokenEndOffset = 0, fs_lastTokenEndLine = 0, fs_tokens = []\<rparr> found
      in (fs_tokens st @ text_tokens (length text1) st,
          toLength (int (fs_curLineCount st)) (int (length text1) - int (fs_lastLineBreakOffset st))))"

text \<open>\<open>undefined || null\<close>: reading ends at the first token that is undefined.\<close>

definition readable :: "'b token option list \<Rightarrow> 'b token list" where
  "readable toks = map the (takeWhile (\<lambda>t. t \<noteq> None) toks)"

text \<open>The parse of a whole text, as the tree of bracket pairs does it without an old tree.\<close>

definition parse_text :: "string \<Rightarrow> token_map \<Rightarrow> bool \<Rightarrow> bracket_kind ast run" where
  "parse_text text1 brackets im =
     (let toks = readable (fst (new_FastTokenizer text1 brackets)) in
      parseDocument (2 * length toks + 1) FastTokenizer toks [] None im)"


section \<open>What the configuration says\<close>

lemma set_add_set [simp]: "set (set_add x xs) = insert x (set xs)"
  by (auto simp: set_add_def)

lemma set_add_not_Nil [simp]: "set_add x xs \<noteq> []"
  by (auto simp: set_add_def)

lemma add_pair_closes:
  "kind_closes (add_pair col p c) close open \<longleftrightarrow> kind_closes c close open \<or> p = (open, close)"
  by (cases p) (auto simp: kind_closes_def add_pair_def update_conv' or_else_def Let_def split: option.splits)

lemma add_pair_colorized:
  "kind_closesColorized (add_pair col p c) close open \<longleftrightarrow>
     kind_closesColorized c close open \<or> col \<and> p = (open, close)"
  by (cases p) (auto simp: kind_closesColorized_def add_pair_def update_conv' or_else_def Let_def
      split: option.splits)

lemma fold_closes:
  "kind_closes (fold (add_pair col) ps c) close open \<longleftrightarrow> kind_closes c close open \<or> (open, close) \<in> set ps"
  by (induction ps arbitrary: c) (auto simp: add_pair_closes)

lemma fold_colorized:
  "kind_closesColorized (fold (add_pair col) ps c) close open \<longleftrightarrow>
     kind_closesColorized c close open \<or> col \<and> (open, close) \<in> set ps"
  by (induction ps arbitrary: c) (auto simp: add_pair_colorized)

text \<open>A bracket closes another one exactly if they are a configured pair without an empty bracket.\<close>

lemma closes_exact:
  fixes pairs colorized :: "(string \<times> string) list option"
  defines "valid \<equiv> case pairs of None \<Rightarrow> [] | Some ps \<Rightarrow> filterValidBrackets ps"
  shows "kind_closes (new_LanguageBracketsConfiguration lang pairs colorized) close open \<longleftrightarrow>
      (open, close) \<in> set valid \<union> set (colorized_pairs valid colorized)"
    and "kind_closesColorized (new_LanguageBracketsConfiguration lang pairs colorized) close open \<longleftrightarrow>
      (open, close) \<in> set (colorized_pairs valid colorized)"
  unfolding valid_def new_LanguageBracketsConfiguration_def Let_def fold_closes fold_colorized
  by (auto simp: kind_closes_def kind_closesColorized_def)

text \<open>All texts of a configuration come from its pairs, and every closing bracket closes one.\<close>

definition config_ok :: "(string \<Rightarrow> bool) \<Rightarrow> bracket_config \<Rightarrow> bool" where
  "config_ok P c \<longleftrightarrow>
     (\<forall>t\<in>set (jkeys (bc_openingBrackets c)). P t) \<and>
     (\<forall>(t, os, oc)\<in>set (bc_closingBrackets c). P t \<and> os \<noteq> []) \<and>
     distinct (jkeys (bc_closingBrackets c))"

lemma keys_update [simp]: "fst ` set (AList.update k v m) = insert k (fst ` set m)"
  by (induction m) auto

lemma in_set_update: "x \<in> set (AList.update k v m) \<Longrightarrow> x = (k, v) \<or> x \<in> set m"
  by (induction m) (auto split: if_splits)

lemma config_ok_add: "config_ok P c \<Longrightarrow> P (fst p) \<Longrightarrow> P (snd p) \<Longrightarrow> config_ok P (add_pair col p c)"
  by (auto simp: config_ok_def add_pair_def Let_def case_prod_beta update_keys distinct_update dest: in_set_update)

lemma config_ok_fold:
  "config_ok P c \<Longrightarrow> \<forall>p\<in>set ps. P (fst p) \<and> P (snd p) \<Longrightarrow> config_ok P (fold (add_pair col) ps c)"
  by (induction ps arbitrary: c) (auto intro: config_ok_add)

lemma config_ok_new:
  assumes "\<forall>p\<in>set (or_else pairs []) \<union> set (or_else colorized []). P (fst p) \<and> P (snd p)"
  shows "config_ok P (new_LanguageBracketsConfiguration lang pairs colorized)"
proof -
  define valid where "valid = (case pairs of None \<Rightarrow> [] | Some ps \<Rightarrow> filterValidBrackets ps)"
  have v: "\<forall>p\<in>set valid. P (fst p) \<and> P (snd p)"
    using assms by (cases pairs) (auto simp: valid_def or_else_def filterValidBrackets_def)
  have c: "\<forall>p\<in>set (colorized_pairs valid colorized). P (fst p) \<and> P (snd p)"
    using assms v by (cases colorized) (auto simp: colorized_pairs_def or_else_def filterValidBrackets_def)
  have "config_ok P \<lparr>bc_languageId = lang, bc_openingBrackets = [], bc_closingBrackets = []\<rparr>"
    by (simp add: config_ok_def)
  then show ?thesis
    unfolding new_LanguageBracketsConfiguration_def Let_def valid_def [symmetric]
    by (intro config_ok_fold v c)
qed

section \<open>What the tokens say\<close>

abbreviation bracket_key :: "string \<Rightarrow> string \<Rightarrow> string" where
  "bracket_key lang t \<equiv> lang @ '':::'' @ t"

abbreviation id_of :: "string \<Rightarrow> string key_provider \<Rightarrow> string \<Rightarrow> nat option" where
  "id_of lang kp t \<equiv> map_of kp (bracket_key lang t)"

lemma bracket_id_ok:
  assumes "kp_ok kp" "bracket_id lang t kp = (i, kp')"
  shows "kp_ok kp'" "map_of kp \<subseteq>\<^sub>m map_of kp'" "id_of lang kp' t = Some i"
  using kp_ok_getKey [OF assms(1), of "bracket_key lang t"] kp_getKey_known [OF assms(1), of "bracket_key lang t"]
    kp_getKey_stable [OF assms(1), of _ _ "bracket_key lang t"] assms(2)
  by (auto simp: bracket_id_def map_le_def)

lemma bracket_id_known: "id_of lang kp t = Some i \<Longrightarrow> bracket_id lang t kp = (i, kp)"
  by (simp add: bracket_id_def kp_getKey_def)

lemma collect_ids_ok:
  assumes "kp_ok kp" "collect_ids lang bs kp = (ids, kp')"
  shows "kp_ok kp' \<and> map_of kp \<subseteq>\<^sub>m map_of kp' \<and> (\<forall>b\<in>set bs. id_of lang kp' b \<noteq> None) \<and>
    members ids = (\<lambda>b. the (id_of lang kp' b)) ` set bs"
  using assms(2)
proof (induction bs arbitrary: ids kp' rule: rev_induct)
  case Nil
  then show ?case using assms(1) by (simp add: collect_ids_def members_empty)
next
  case (snoc b bs)
  obtain ids1 kp1 where s: "collect_ids lang bs kp = (ids1, kp1)" by (rule prod.exhaust)
  obtain i kp2 where b: "bracket_id lang b kp1 = (i, kp2)" by (rule prod.exhaust)
  have r: "ids = ss_add i ids1" "kp' = kp2" using snoc.prems s b by (simp_all add: collect_ids_def)
  note IH = snoc.IH [OF s]
  note step = bracket_id_ok [OF _ b]
  have le: "map_of kp1 \<subseteq>\<^sub>m map_of kp2" using step IH by blast
  have same: "id_of lang kp2 x = id_of lang kp1 x" if "x \<in> set bs" for x
    using le IH that by (auto simp: map_le_def domIff)
  have "map_of kp \<subseteq>\<^sub>m map_of kp2" using IH le map_le_trans by blast
  moreover have "(\<lambda>b. the (id_of lang kp2 b)) ` set bs = (\<lambda>b. the (id_of lang kp1 b)) ` set bs"
    using same by (intro image_cong) auto
  ultimately show ?case using IH step same by (auto simp: r members_add)
qed


text \<open>
  A token of the text \<open>k\<close>: an opening bracket with its own id, or a closing one with the ids of
  what it closes.
\<close>

definition describes_token ::
  "string \<Rightarrow> (string, string list) jmap \<Rightarrow> string key_provider \<Rightarrow> string \<Rightarrow> bracket_kind token \<Rightarrow> bool" where
  "describes_token lang cs kp k t \<longleftrightarrow>
     (\<exists>kind i ids info. t = bracket_token_of kind k i ids info \<and>
        (case kind of
           TextToken \<Rightarrow> False
         | OpeningBracket \<Rightarrow> id_of lang kp k = Some i \<and> members ids = {i}
         | ClosingBracket \<Rightarrow>
             \<exists>os. map_of cs k = Some os \<and> os \<noteq> [] \<and> id_of lang kp (hd os) = Some i \<and>
               (\<forall>b\<in>set os. id_of lang kp b \<noteq> None) \<and> members ids = (\<lambda>b. the (id_of lang kp b)) ` set os))"

definition tokens_ok :: "string \<Rightarrow> (string, string list) jmap \<Rightarrow> token_map \<times> string key_provider \<Rightarrow> bool" where
  "tokens_ok lang cs s \<longleftrightarrow> kp_ok (snd s) \<and> (\<forall>(k, t)\<in>set (fst s). describes_token lang cs (snd s) k t)"

lemma describes_opening:
  assumes "id_of lang kp k = Some i" "members ids = {i}"
  shows "describes_token lang cs kp k (bracket_token_of OpeningBracket k i ids info)"
  unfolding describes_token_def
  using assms by (intro exI [of _ OpeningBracket] exI [of _ i] exI [of _ ids] exI [of _ info]) simp

lemma describes_closing:
  assumes "map_of cs k = Some os" "os \<noteq> []" "id_of lang kp (hd os) = Some i"
    "\<forall>b\<in>set os. id_of lang kp b \<noteq> None" "members ids = (\<lambda>b. the (id_of lang kp b)) ` set os"
  shows "describes_token lang cs kp k (bracket_token_of ClosingBracket k i ids info)"
  unfolding describes_token_def
  using assms by (intro exI [of _ ClosingBracket] exI [of _ i] exI [of _ ids] exI [of _ info]) simp

lemma describes_openingD:
  assumes "describes_token lang cs kp k t" "tk_kind t = OpeningBracket"
  shows "\<exists>i ids info. t = bracket_token_of OpeningBracket k i ids info \<and> id_of lang kp k = Some i \<and> members ids = {i}"
proof -
  have kind: "tk_kind (bracket_token_of kind k i ids info) = kind" for kind i ids info
    by (simp add: bracket_token_of_def Let_def)
  show ?thesis
    using assms unfolding describes_token_def by (elim exE conjE) (auto simp: kind)
qed

lemma describes_closingD:
  assumes "describes_token lang cs kp k t" "tk_kind t = ClosingBracket"
  shows "\<exists>i ids info os. t = bracket_token_of ClosingBracket k i ids info \<and> map_of cs k = Some os \<and> os \<noteq> [] \<and>
    id_of lang kp (hd os) = Some i \<and> (\<forall>b\<in>set os. id_of lang kp b \<noteq> None) \<and>
    members ids = (\<lambda>b. the (id_of lang kp b)) ` set os"
proof -
  have kind: "tk_kind (bracket_token_of kind k i ids info) = kind" for kind i ids info
    by (simp add: bracket_token_of_def Let_def)
  show ?thesis
    using assms unfolding describes_token_def by (elim exE conjE) (simp only: kind token_kind.case, blast)
qed

lemma describes_token_mono:
  assumes "describes_token lang cs kp k t" "map_of kp \<subseteq>\<^sub>m map_of kp'"
  shows "describes_token lang cs kp' k t"
proof -
  obtain kind i ids info where t: "t = bracket_token_of kind k i ids info"
    "case kind of TextToken \<Rightarrow> False
     | OpeningBracket \<Rightarrow> id_of lang kp k = Some i \<and> members ids = {i}
     | ClosingBracket \<Rightarrow> \<exists>os. map_of cs k = Some os \<and> os \<noteq> [] \<and> id_of lang kp (hd os) = Some i \<and>
         (\<forall>b\<in>set os. id_of lang kp b \<noteq> None) \<and> members ids = (\<lambda>b. the (id_of lang kp b)) ` set os"
    using assms(1) unfolding describes_token_def by blast
  have known: "id_of lang kp' b = id_of lang kp b" if "id_of lang kp b \<noteq> None" for b
    using assms(2) that by (metis domIff map_le_def)
  show ?thesis
  proof (cases kind)
    case OpeningBracket
    then show ?thesis using t known [of k] by (auto intro: describes_opening)
  next
    case ClosingBracket
    then obtain os where os: "map_of cs k = Some os" "os \<noteq> []" "id_of lang kp (hd os) = Some i"
      "\<forall>b\<in>set os. id_of lang kp b \<noteq> None" "members ids = (\<lambda>b. the (id_of lang kp b)) ` set os"
      using t(2) by auto
    have same: "id_of lang kp' b = id_of lang kp b" if "b \<in> set os" for b
      using known os(4) that by blast
    then have "(\<lambda>b. the (id_of lang kp' b)) ` set os = (\<lambda>b. the (id_of lang kp b)) ` set os"
      by (intro image_cong) auto
    then show ?thesis
      unfolding t(1) ClosingBracket using os same by (intro describes_closing) auto
  qed (use t(2) in simp)
qed

lemma tokens_ok_update:
  assumes "tokens_ok lang cs (m, kp)" "kp_ok kp'" "map_of kp \<subseteq>\<^sub>m map_of kp'" "describes_token lang cs kp' k t"
  shows "tokens_ok lang cs (AList.update k t m, kp')"
  using assms describes_token_mono [OF _ assms(3)] by (auto simp: tokens_ok_def dest!: in_set_update)

lemma add_opening_ok: "tokens_ok lang cs s \<Longrightarrow> tokens_ok lang cs (add_opening lang t s)"
proof -
  assume ok: "tokens_ok lang cs s"
  obtain m kp where s: "s = (m, kp)" by (rule prod.exhaust)
  obtain i kp' where i: "bracket_id lang t kp = (i, kp')" by (rule prod.exhaust)
  have "kp_ok kp" using ok s by (simp add: tokens_ok_def)
  note b = bracket_id_ok [OF this i]
  have "describes_token lang cs kp' t
      (bracket_token_of OpeningBracket t i (ss_add i ss_getEmpty) (OpeningBracketKind lang t))"
    using b(3) by (intro describes_opening) (simp_all add: members_add members_empty)
  from tokens_ok_update [OF ok [unfolded s] b(1,2) this] show ?thesis by (simp add: add_opening_def s i Let_def)
qed

lemma add_closing_ok:
  assumes ok: "tokens_ok lang cs s" and os: "map_of cs (fst b) = Some (snd b)" "snd b \<noteq> []"
  shows "\<exists>s'. add_closing lang b s = Some s' \<and> tokens_ok lang cs s' \<and> set (jkeys (fst s')) = insert (fst b) (set (jkeys (fst s)))"
proof -
  obtain m kp where s: "s = (m, kp)" by (rule prod.exhaust)
  obtain ids kp' where c: "collect_ids lang (snd b) kp = (ids, kp')" by (rule prod.exhaust)
  have "kp_ok kp" using ok s by (simp add: tokens_ok_def)
  note ids = collect_ids_ok [OF this c]
  obtain first rest where f: "snd b = first # rest" using os(2) by (cases "snd b") auto
  then obtain i where i: "id_of lang kp' first = Some i" using ids by auto
  have "describes_token lang cs kp' (fst b)
      (bracket_token_of ClosingBracket (fst b) i ids (ClosingBracketKind lang (fst b)))"
    using os ids i f by (intro describes_closing) auto
  from tokens_ok_update [OF ok [unfolded s] _ _ this] ids
  have "tokens_ok lang cs (AList.update (fst b)
      (bracket_token_of ClosingBracket (fst b) i ids (ClosingBracketKind lang (fst b))) m, kp')" by blast
  then show ?thesis
    using c f bracket_id_known [OF i] by (simp add: add_closing_def s)
qed

lemma add_closings_ok:
  "tokens_ok lang cs s \<Longrightarrow> \<forall>b\<in>set bs. map_of cs (fst b) = Some (snd b) \<and> snd b \<noteq> [] \<Longrightarrow>
   \<exists>s'. add_closings lang bs s = Some s' \<and> tokens_ok lang cs s' \<and>
     set (jkeys (fst s')) = fst ` set bs \<union> set (jkeys (fst s))"
proof (induction bs arbitrary: s)
  case (Cons b bs)
  from add_closing_ok [OF Cons.prems(1), of b] Cons.prems(2) obtain s1 where
    s1: "add_closing lang b s = Some s1" "tokens_ok lang cs s1"
      "set (jkeys (fst s1)) = insert (fst b) (set (jkeys (fst s)))" by auto
  from Cons.IH [OF s1(2)] Cons.prems(2) s1(1,3) show ?case by auto
qed simp

lemma fold_opening_ok:
  "tokens_ok lang cs s \<Longrightarrow>
   tokens_ok lang cs (fold (add_opening lang) ts s) \<and>
   set (jkeys (fst (fold (add_opening lang) ts s))) = set ts \<union> set (jkeys (fst s))"
proof (induction ts arbitrary: s)
  case (Cons t ts)
  have "set (jkeys (fst (add_opening lang t s))) = insert t (set (jkeys (fst s)))"
    by (simp add: add_opening_def case_prod_beta Let_def)
  with Cons.IH [OF add_opening_ok [OF Cons.prems]] show ?case by auto
qed simp

text \<open>The tokens of a language, for all its bracket texts.\<close>

lemma createFromLanguage_ok:
  assumes "config_ok P c" "kp_ok kp"
  shows "\<exists>m kp'. createFromLanguage c kp = Some (m, kp') \<and>
    tokens_ok (bc_languageId c) (map (\<lambda>(t, os, _). (t, os)) (bc_closingBrackets c)) (m, kp') \<and>
    set (jkeys m) = set (jkeys (bc_openingBrackets c)) \<union> set (jkeys (bc_closingBrackets c))"
proof -
  let ?cs = "map (\<lambda>(t, os, _). (t, os)) (bc_closingBrackets c)"
  have keys: "jkeys ?cs = jkeys (bc_closingBrackets c)" by (auto simp: case_prod_beta)
  have "tokens_ok (bc_languageId c) ?cs ([], kp)" using assms(2) by (simp add: tokens_ok_def)
  note opens = fold_opening_ok [OF this, of "jkeys (bc_openingBrackets c)"]
  have "\<forall>b\<in>set ?cs. map_of ?cs (fst b) = Some (snd b) \<and> snd b \<noteq> []"
  proof
    fix b assume b: "b \<in> set ?cs"
    then have "snd b \<noteq> []" using assms(1) by (fastforce simp: config_ok_def)
    moreover have "distinct (jkeys ?cs)" unfolding keys using assms(1) by (simp add: config_ok_def)
    from map_of_is_SomeI [OF this, of "fst b" "snd b"] b have "map_of ?cs (fst b) = Some (snd b)" by simp
    ultimately show "map_of ?cs (fst b) = Some (snd b) \<and> snd b \<noteq> []" by simp
  qed
  from add_closings_ok [OF conjunct1 [OF opens] this] obtain s' where
    s': "add_closings (bc_languageId c) ?cs (fold (add_opening (bc_languageId c)) (jkeys (bc_openingBrackets c)) ([], kp)) = Some s'"
      "tokens_ok (bc_languageId c) ?cs s'"
      "set (jkeys (fst s')) = fst ` set ?cs \<union> set (jkeys (fst (fold (add_opening (bc_languageId c)) (jkeys (bc_openingBrackets c)) ([], kp))))"
    by blast
  obtain m kp' where "s' = (m, kp')" by (rule prod.exhaust)
  moreover have "fst ` set ?cs = set (jkeys (bc_closingBrackets c))" using keys by (metis set_map)
  ultimately show ?thesis using s' opens by (auto simp: createFromLanguage_def)
qed


text \<open>A closing token of a language closes an opening one exactly if the configuration says so.\<close>

lemma id_of_inj: "kp_ok kp \<Longrightarrow> id_of lang kp a = Some i \<Longrightarrow> id_of lang kp b = Some i \<Longrightarrow> a = b"
  using kp_ok_map_of [of kp] by fastforce

lemma token_closes_iff:
  assumes m: "tokens_ok lang cs (m, kp)"
    and op: "(open, t) \<in> set m" "tk_kind t = OpeningBracket"
    and cl: "(close, u) \<in> set m" "tk_kind u = ClosingBracket"
  shows "closes u t \<longleftrightarrow> (\<exists>os. map_of cs close = Some os \<and> open \<in> set os)"
proof -
  have d: "describes_token lang cs kp open t" "describes_token lang cs kp close u" and kp: "kp_ok kp"
    using m op(1) cl(1) by (auto simp: tokens_ok_def)
  obtain i ids info where t: "t = bracket_token_of OpeningBracket open i ids info" "id_of lang kp open = Some i"
    "members ids = {i}"
    using describes_openingD [OF d(1) op(2)] by blast
  obtain j jds jnfo os where u: "u = bracket_token_of ClosingBracket close j jds jnfo" "map_of cs close = Some os"
    "os \<noteq> []" "id_of lang kp (hd os) = Some j" "\<forall>b\<in>set os. id_of lang kp b \<noteq> None"
    "members jds = (\<lambda>b. the (id_of lang kp b)) ` set os"
    using describes_closingD [OF d(2) cl(2)] by blast
  have mem: "i \<in> members jds \<longleftrightarrow> open \<in> set os"
  proof
    assume "i \<in> members jds"
    then obtain b where "b \<in> set os" "id_of lang kp b = Some i" using u(5,6) by fastforce
    with id_of_inj [OF kp t(2)] show "open \<in> set os" by blast
  next
    assume "open \<in> set os"
    then have "the (id_of lang kp open) \<in> members jds" unfolding u(6) by (rule imageI)
    then show "i \<in> members jds" using t(2) by simp
  qed
  have "j \<in> members jds"
    unfolding u(6) using u(3,4) by (intro image_eqI [of _ _ "hd os"]) simp_all
  then have "closes u t \<longleftrightarrow> i \<in> members jds"
    using t(1,3) u(1) by (auto simp: closes_def bracket_token_of_def Let_def members_intersects)
  then show ?thesis using mem u(2) by simp
qed

section \<open>The tokens of a text\<close>

text \<open>Lines and columns of a text, where a line ends with a line feed.\<close>

definition text_measure :: "string \<Rightarrow> text_length" where
  "text_measure s =
     TextLength (int (count_list s newline)) (int (length (takeWhile (\<lambda>c. c \<noteq> newline) (rev s))))"

lemma line_length: "newline \<notin> set s \<Longrightarrow> length (takeWhile (\<lambda>c. c \<noteq> newline) (rev s)) = length s"
proof -
  assume "newline \<notin> set s"
  then have "takeWhile (\<lambda>c. c \<noteq> newline) (rev s) = rev s"
    unfolding takeWhile_eq_all_conv by (metis set_rev)
  then have "length (takeWhile (\<lambda>c. c \<noteq> newline) (rev s)) = length (rev s)" by (rule arg_cong)
  then show ?thesis by simp
qed

lemma text_measure_append: "text_measure (s @ t) = text_measure s + text_measure t"
proof (rule text_length.expand, intro conjI)
  show "columnCount (text_measure (s @ t)) = columnCount (text_measure s + text_measure t)"
  proof (cases "newline \<in> set t")
    case True
    then have "takeWhile (\<lambda>c. c \<noteq> newline) (rev t @ rev s) = takeWhile (\<lambda>c. c \<noteq> newline) (rev t)"
      by (intro takeWhile_append1 [of newline]) simp_all
    then show ?thesis using True by (simp add: text_measure_def count_list_0_iff)
  next
    case False
    then have "\<And>c. c \<in> set (rev t) \<Longrightarrow> c \<noteq> newline" by (metis set_rev)
    then have "takeWhile (\<lambda>c. c \<noteq> newline) (rev t @ rev s) = rev t @ takeWhile (\<lambda>c. c \<noteq> newline) (rev s)"
      by (rule takeWhile_append2)
    then show ?thesis using False line_length [OF False] by (simp add: text_measure_def count_list_0_iff)
  qed
qed (simp add: text_measure_def)

lemma text_measure_line: "newline \<notin> set s \<Longrightarrow> text_measure s = TextLength 0 (int (length s))"
  by (simp add: text_measure_def count_list_0_iff line_length)

lemma text_measure_newline: "text_measure [newline] = TextLength 1 0"
  by (simp add: text_measure_def)

lemma text_measure_Nil [simp]: "text_measure [] = 0"
  by (rule text_length.expand) (simp add: text_measure_def)

lemma text_measure_nonneg [simp]: "tl_nonneg (text_measure s)"
  by (simp add: text_measure_def tl_nonneg_def)

lemma text_measure_column: "columnCount (text_measure s) \<le> int (length s)"
  using length_takeWhile_le [of "\<lambda>c. c \<noteq> newline" "rev s"] by (simp add: text_measure_def)

lemma fits_text_measure: "int (length s) < factor \<Longrightarrow> fits (text_measure s)"
  using text_measure_column [of s] by (simp add: fits_def)

text \<open>
  Brackets whose tokens can be found: no text is empty or has a line feed, and all are in lower
  case, because \<open>getToken\<close> looks for the text in lower case.
\<close>

definition text_ok :: "string \<Rightarrow> bool" where
  "text_ok t \<longleftrightarrow> t \<noteq> [] \<and> newline \<notin> set t \<and> to_lower t = t"

definition map_ok :: "token_map \<Rightarrow> bool" where
  "map_ok m \<longleftrightarrow> (\<forall>(k, t)\<in>set m. text_ok k \<and> token_ok t \<and> tk_length t = toLength 0 (int (length k)))"

lemma describes_token_ok:
  assumes "kp_ok kp" "describes_token lang cs kp k t"
  shows "token_ok t \<and> tk_length t = toLength 0 (int (length k))"
proof -
  obtain kind i ids info where t: "t = bracket_token_of kind k i ids info"
    "case kind of TextToken \<Rightarrow> False
     | OpeningBracket \<Rightarrow> id_of lang kp k = Some i \<and> members ids = {i}
     | ClosingBracket \<Rightarrow> \<exists>os. map_of cs k = Some os \<and> os \<noteq> [] \<and> id_of lang kp (hd os) = Some i \<and>
         (\<forall>b\<in>set os. id_of lang kp b \<noteq> None) \<and> members ids = (\<lambda>b. the (id_of lang kp b)) ` set os"
    using assms(2) unfolding describes_token_def by blast
  show ?thesis
  proof (cases kind)
    case ClosingBracket
    then obtain os where os: "os \<noteq> []" "id_of lang kp (hd os) = Some i"
      "members ids = (\<lambda>b. the (id_of lang kp b)) ` set os"
      using t(2) by auto
    then have "i \<in> members ids" unfolding os(3) by (intro image_eqI [of _ _ "hd os"]) simp_all
    then show ?thesis using t(1) ClosingBracket by (auto simp: token_ok_def bracket_token_of_def Let_def)
  qed (use t in \<open>auto simp: token_ok_def bracket_token_of_def Let_def\<close>)
qed

lemma tokens_map_ok:
  assumes "tokens_ok lang cs (m, kp)" "\<forall>k\<in>set (jkeys m). text_ok k"
  shows "map_ok m"
  using assms describes_token_ok [of kp lang cs] by (fastforce simp: tokens_ok_def map_ok_def)

text \<open>Matches in the rest of a text from the place \<open>q\<close> on.\<close>

fun matched :: "token_map \<Rightarrow> nat \<Rightarrow> string \<Rightarrow> (nat \<times> string) list \<Rightarrow> bool" where
  "matched m q rest [] \<longleftrightarrow> newline \<notin> set rest"
| "matched m q rest ((i, v) # ms) \<longleftrightarrow>
     (\<exists>gap rest'. rest = gap @ v @ rest' \<and> i = q + length gap \<and> newline \<notin> set gap \<and>
        (v = [newline] \<or> v \<noteq> [] \<and> newline \<notin> set v \<and> bt_getToken v m \<noteq> None) \<and>
        matched m (i + length v) rest' ms)"

lemma matched_skip: "matched m (Suc q) s ms \<Longrightarrow> c \<noteq> newline \<Longrightarrow> matched m q (c # s) ms"
proof (cases ms)
  case (Cons f ms')
  assume a: "matched m (Suc q) s ms" "c \<noteq> newline"
  obtain i v where f: "f = (i, v)" by (rule prod.exhaust)
  from a Cons f obtain gap rest' where "s = gap @ v @ rest'" "i = Suc q + length gap" "newline \<notin> set gap"
    "v = [newline] \<or> v \<noteq> [] \<and> newline \<notin> set v \<and> bt_getToken v m \<noteq> None" "matched m (i + length v) rest' ms'"
    by auto
  with a(2) show ?thesis
    unfolding Cons f matched.simps by (intro exI [of _ "c # gap"] exI [of _ rest']) simp
qed auto

lemma find_SomeD: "List.find P xs = Some x \<Longrightarrow> x \<in> set xs \<and> P x"
  by (induction xs) (auto split: if_splits)

lemma match_here_ok:
  assumes "map_ok m" "match_here (getRegExpStr m) prev s = Some v"
  shows "\<exists>rest. s = v @ rest \<and> (v = [newline] \<or> v \<noteq> [] \<and> newline \<notin> set v \<and> bt_getToken v m \<noteq> None)"
proof (cases "List.find (\<lambda>k. prepareBracketForRegExp k prev s) (getRegExpStr m)")
  case None
  then show ?thesis using assms(2) by (cases s) (auto simp: match_here_def split: if_splits)
next
  case (Some k)
  then have k: "k \<in> set (jkeys m)" "prepareBracketForRegExp k prev s" "v = take (length k) s"
    using assms(2) find_SomeD [OF Some] by (auto simp: match_here_def getRegExpStr_def)
  then have t: "text_ok k" using assms(1) by (fastforce simp: map_ok_def)
  have low: "to_lower v = k" and len: "length v = length k"
    using k(2,3) t by (auto simp: prepareBracketForRegExp_def text_ok_def)
  have "newline \<notin> set v"
  proof
    assume "newline \<in> set v"
    then have "lower_char newline \<in> set (to_lower v)" by (simp add: to_lower_def)
    then show False using low t by (simp add: text_ok_def lower_char_def)
  qed
  moreover have "v \<noteq> []" using len t by (auto simp: text_ok_def)
  moreover have "bt_getToken v m \<noteq> None" using k(1) low by (auto simp: bt_getToken_def map_of_eq_None_iff)
  moreover have "s = v @ drop (length k) s" using k(3) by simp
  ultimately show ?thesis by blast
qed

lemma exec_all_matched: "map_ok m \<Longrightarrow> matched m i s (exec_all (getRegExpStr m) i prev s)"
proof (induction "getRegExpStr m" i prev s rule: exec_all.induct)
  case (2 i prev c s)
  show ?case
  proof (cases "match_here (getRegExpStr m) prev (c # s)")
    case None
    then have "c \<noteq> newline" by (auto simp: match_here_def split: option.splits)
    then show ?thesis using 2(1) [OF None 2(3)] None by (auto intro: matched_skip)
  next
    case (Some v)
    from match_here_ok [OF 2(3) Some] obtain rest where v: "c # s = v @ rest"
      "v = [newline] \<or> v \<noteq> [] \<and> newline \<notin> set v \<and> bt_getToken v m \<noteq> None" by blast
    then have len: "max 1 (length v) = length v" by (cases v) auto
    let ?tail = "exec_all (getRegExpStr m) (i + max 1 (length v)) (Some (last (c # v))) (drop (max 1 (length v)) (c # s))"
    have "matched m (i + length v) rest ?tail"
      using 2(2) [OF Some 2(3)] unfolding len v(1) by simp
    then have "matched m i (c # s) ((i, v) # ?tail)"
      unfolding v(1) matched.simps using v(2) by (intro exI [of _ "[]"] exI [of _ rest]) simp
    then show ?thesis by (simp add: Some)
  qed
qed simp


text \<open>The token of a piece of text, and tokens for a whole text.\<close>

definition token_for :: "token_map \<Rightarrow> string \<Rightarrow> bracket_kind token \<Rightarrow> bool" where
  "token_for m piece tok \<longleftrightarrow>
     piece \<noteq> [] \<and> token_ok tok \<and> tk_length tok = len_code (text_measure piece) \<and>
     (tk_kind tok = TextToken \<or> bt_getToken piece m = Some tok)"

definition tiles :: "token_map \<Rightarrow> string \<Rightarrow> bracket_kind token list \<Rightarrow> bool" where
  "tiles m s toks \<longleftrightarrow> (\<exists>pieces. concat pieces = s \<and> list_all2 (token_for m) pieces toks)"

lemma tiles_Nil: "tiles m [] []"
  unfolding tiles_def by (intro exI [of _ "[]"]) simp

lemma tiles_append: "tiles m s ts \<Longrightarrow> tiles m s' ts' \<Longrightarrow> tiles m (s @ s') (ts @ ts')"
  unfolding tiles_def by (metis concat_append list_all2_appendI)

lemma tiles_one: "token_for m s t \<Longrightarrow> tiles m s [t]"
  unfolding tiles_def by (intro exI [of _ "[s]"]) simp

lemma token_for_text: "s \<noteq> [] \<Longrightarrow> token_for m s (text_token (len_code (text_measure s)))"
  by (simp add: token_for_def text_token_def token_ok_def)

lemma token_for_bracket:
  assumes "map_ok m" "bt_getToken v m = Some t" "v \<noteq> []" "newline \<notin> set v"
  shows "token_for m v t"
proof -
  have "(to_lower v, t) \<in> set m" using assms(2) by (simp add: bt_getToken_def map_of_SomeD)
  then have "token_ok t" "tk_length t = toLength 0 (int (length v))"
    using assms(1) by (auto simp: map_ok_def to_lower_def)
  then show ?thesis using assms by (simp add: token_for_def text_measure_line len_code_def)
qed

text \<open>The state of the loop behind \<open>pre @ mid\<close>, where the last token ends behind \<open>pre\<close>.\<close>

definition fast_ok :: "token_map \<Rightarrow> string \<Rightarrow> string \<Rightarrow> fast_state \<Rightarrow> bool" where
  "fast_ok m pre mid st \<longleftrightarrow>
     int (fs_curLineCount st) = lineCount (text_measure (pre @ mid)) \<and>
     int (fs_lastLineBreakOffset st) = int (length (pre @ mid)) - columnCount (text_measure (pre @ mid)) \<and>
     fs_lastTokenEndOffset st = length pre \<and>
     int (fs_lastTokenEndLine st) = lineCount (text_measure pre) \<and>
     (\<exists>toks. fs_tokens st = map Some toks \<and> tiles m pre toks)"

lemma text_length_to_code:
  assumes "fast_ok m pre mid st" "newline \<notin> set gap"
  shows "text_length_to (length (pre @ mid @ gap)) st = len_code (text_measure (mid @ gap))"
proof -
  have st: "int (fs_curLineCount st) = lineCount (text_measure pre) + lineCount (text_measure mid)"
    "int (fs_lastTokenEndLine st) = lineCount (text_measure pre)" "fs_lastTokenEndOffset st = length pre"
    "int (fs_lastLineBreakOffset st) = int (length (pre @ mid)) - columnCount (text_measure (pre @ mid))"
    using assms(1) by (simp_all add: fast_ok_def text_measure_append)
  have line: "fs_lastTokenEndLine st = fs_curLineCount st \<longleftrightarrow> lineCount (text_measure mid) = 0"
    using st(1,2) by linarith
  show ?thesis
  proof (cases "lineCount (text_measure mid) = 0")
    case True
    then have "newline \<notin> set (mid @ gap)" using assms(2) by (simp add: text_measure_def count_list_0_iff)
    then show ?thesis
      using line True st(3) by (simp add: text_length_to_def text_measure_line len_code_def)
  next
    case False
    then show ?thesis
      using line st
      by (simp add: text_length_to_def text_measure_append text_measure_line [OF assms(2)] len_code_def add.commute)
  qed
qed

lemma fast_ok_text:
  assumes "fast_ok m pre mid st" "newline \<notin> set gap"
  shows "\<exists>toks. fs_tokens st @ text_tokens (length (pre @ mid @ gap)) st = map Some toks \<and> tiles m (pre @ mid @ gap) toks"
proof -
  obtain toks where toks: "fs_tokens st = map Some toks" "tiles m pre toks" "fs_lastTokenEndOffset st = length pre"
    using assms(1) by (auto simp: fast_ok_def)
  show ?thesis
  proof (cases "mid @ gap = []")
    case True
    then show ?thesis using toks by (auto simp: text_tokens_def)
  next
    case False
    then have ne: "length pre \<noteq> length (pre @ mid @ gap)" by auto
    let ?t = "text_token (len_code (text_measure (mid @ gap)))"
    have "text_tokens (length (pre @ mid @ gap)) st = [Some ?t]"
      unfolding text_tokens_def toks(3) text_length_to_code [OF assms] using ne by simp
    moreover have "tiles m (mid @ gap) [?t]" using False by (intro tiles_one token_for_text)
    ultimately show ?thesis
      using toks(1) tiles_append [OF toks(2)] by (intro exI [of _ "toks @ [?t]"]) simp
  qed
qed

lemma fast_step_newline:
  assumes "fast_ok m pre mid st" "newline \<notin> set gap"
  shows "fast_ok m pre (mid @ gap @ [newline]) (fast_step m st (length (pre @ mid @ gap), [newline]))"
  using assms text_measure_nonneg [of mid]
  by (simp add: fast_ok_def fast_step_def text_measure_append text_measure_newline text_measure_line tl_nonneg_def)

lemma fast_step_bracket:
  assumes "fast_ok m pre mid st" "newline \<notin> set gap" "map_ok m" "bt_getToken v m = Some t" "v \<noteq> []" "newline \<notin> set v"
  shows "fast_ok m (pre @ mid @ gap @ v) [] (fast_step m st (length (pre @ mid @ gap), v))"
proof -
  obtain toks where toks: "fs_tokens st @ text_tokens (length (pre @ mid @ gap)) st = map Some toks"
    "tiles m (pre @ mid @ gap) toks"
    using fast_ok_text [OF assms(1,2)] by blast
  have "tiles m ((pre @ mid @ gap) @ v) (toks @ [t])"
    using assms by (intro tiles_append toks(2) tiles_one token_for_bracket)
  moreover have "v \<noteq> [newline]" using assms(6) by auto
  moreover have "fs_tokens st @ text_tokens (length (pre @ mid @ gap)) st @ [Some t] = map Some (toks @ [t])"
    using toks(1) by simp
  moreover have "int (fs_lastTokenEndLine st) = lineCount (text_measure pre)" using assms(1) by (simp add: fast_ok_def)
  ultimately show ?thesis
    using assms(1,2,4,6)
    unfolding fast_ok_def fast_step_def Let_def prod.case
    by (auto simp: text_measure_append text_measure_line intro!: exI [of _ "toks @ [t]"])
qed

lemma fast_steps:
  "fast_ok m pre mid st \<Longrightarrow> map_ok m \<Longrightarrow> matched m (length (pre @ mid)) rest ms \<Longrightarrow>
   \<exists>pre' mid' rest'. pre @ mid @ rest = pre' @ mid' @ rest' \<and> newline \<notin> set rest' \<and>
     fast_ok m pre' mid' (foldl (fast_step m) st ms)"
proof (induction ms arbitrary: pre mid rest st)
  case Nil
  then show ?case by auto
next
  case (Cons f ms)
  obtain i v where f: "f = (i, v)" by (rule prod.exhaust)
  obtain gap rest' where g: "rest = gap @ v @ rest'" "i = length (pre @ mid) + length gap" "newline \<notin> set gap"
    "v = [newline] \<or> v \<noteq> [] \<and> newline \<notin> set v \<and> bt_getToken v m \<noteq> None" "matched m (i + length v) rest' ms"
    using Cons.prems(3) f by auto
  have i: "i = length (pre @ mid @ gap)" using g(2) by simp
  consider (line) "v = [newline]" | (found) t where "v \<noteq> []" "newline \<notin> set v" "bt_getToken v m = Some t"
    using g(4) by auto
  then show ?case
  proof cases
    case line
    have "fast_ok m pre (mid @ gap @ [newline]) (fast_step m st f)"
      unfolding f i line by (rule fast_step_newline [OF Cons.prems(1) g(3)])
    from Cons.IH [OF this Cons.prems(2), of rest'] g(1,2,5) line show ?thesis by (simp add: add.assoc)
  next
    case found
    have "fast_ok m (pre @ mid @ gap @ v) [] (fast_step m st f)"
      unfolding f i by (rule fast_step_bracket [OF Cons.prems(1) g(3) Cons.prems(2) found(3,1,2)])
    from Cons.IH [OF this Cons.prems(2), of rest'] g(1,2,5) show ?thesis by (simp add: add.assoc)
  qed
qed

text \<open>The tokens tile the text, and its length is returned.\<close>

lemma new_FastTokenizer_tiles:
  assumes "map_ok m" "m \<noteq> []"
  shows "\<exists>toks. new_FastTokenizer s m = (map Some toks, len_code (text_measure s)) \<and> tiles m s toks"
proof -
  define st0 where "st0 = \<lparr>fs_curLineCount = 0, fs_lastLineBreakOffset = 0, fs_lastTokenEndOffset = 0,
    fs_lastTokenEndLine = 0, fs_tokens = []\<rparr>"
  define st where "st = foldl (fast_step m) st0 (exec_all (getRegExpStr m) 0 None s)"
  have "fast_ok m [] [] st0" using tiles_Nil by (simp add: fast_ok_def st0_def)
  from fast_steps [OF this assms(1), of s "exec_all (getRegExpStr m) 0 None s"] exec_all_matched [OF assms(1), of 0 s None]
  obtain pre mid gap where f: "s = pre @ mid @ gap" "newline \<notin> set gap" "fast_ok m pre mid st"
    by (auto simp: st_def)
  obtain toks where toks: "fs_tokens st @ text_tokens (length s) st = map Some toks" "tiles m s toks"
    using fast_ok_text [OF f(3,2)] f(1) by blast
  have "toLength (int (fs_curLineCount st)) (int (length s) - int (fs_lastLineBreakOffset st)) = len_code (text_measure s)"
    using f(3,2) by (simp add: f(1) fast_ok_def len_code_def text_measure_append text_measure_line ac_simps)
  then show ?thesis
    using toks assms(2)
    by (auto simp: new_FastTokenizer_def bt_isEmpty_def Let_def st_def [symmetric] st0_def [symmetric])
qed


section \<open>The tree of a text\<close>

text \<open>The length of a tree is the length of the pieces that its nodes stand for.\<close>

definition sized :: "'b ast \<Rightarrow> string \<Rightarrow> bool" where
  "sized n piece \<longleftrightarrow> ast_length n = len_code (text_measure piece)"

lemma add_codes:
  "int (length (p @ q)) < factor \<Longrightarrow>
   lengthAdd (len_code (text_measure p)) (len_code (text_measure q)) = len_code (text_measure (p @ q))"
  by (simp add: lengthAdd_len_code fits_text_measure text_measure_append)

lemma length_createPair:
  "ast_length (createPair op c cl) =
     (let l1 = (case c of None \<Rightarrow> bk_length op | Some t \<Rightarrow> lengthAdd (bk_length op) (ast_length t))
      in case cl of None \<Rightarrow> l1 | Some b \<Rightarrow> lengthAdd l1 (bk_length b))"
  by (simp add: createPair_def Let_def)

lemma tree_sized:
  "tree23 t \<Longrightarrow> well_nested t B \<Longrightarrow> list_all2 sized (spelled t) pieces \<Longrightarrow>
   int (length (concat pieces)) < factor \<Longrightarrow> ast_length t = len_code (text_measure (concat pieces))"
proof (induction t arbitrary: B pieces)
  case (BracketPair l op c cl m)
  then have p: "BracketPair l op c cl m = createPair op c cl" by simp
  note wn = BracketPair.prems(2) [unfolded p well_nested_createPair]
  obtain p0 mid last where pieces: "pieces = p0 # mid @ last" "sized (Bracket op :: 'a ast) p0"
    "list_all2 sized (case c of None \<Rightarrow> [] | Some t \<Rightarrow> spelled t) mid" "list_all2 sized (map Bracket (opt_list cl) :: 'a ast list) last"
    using BracketPair.prems(3) by (cases c) (auto simp: list_all2_Cons1 list_all2_append1)
  have l0: "bk_length op = len_code (text_measure p0)" using pieces(2) by (simp add: sized_def)
  define l1 where "l1 = (case c of None \<Rightarrow> bk_length op | Some t \<Rightarrow> lengthAdd (bk_length op) (ast_length t))"
  have l1: "l1 = len_code (text_measure (p0 @ concat mid))"
  proof (cases c)
    case None
    then show ?thesis using pieces(3) l0 by (simp add: l1_def)
  next
    case (Some t)
    then have "ast_length t = len_code (text_measure (concat mid))"
      using BracketPair.IH(1) [of t _ mid] wn pieces(1,3) BracketPair.prems(4) by auto
    then show ?thesis using Some l0 add_codes [of p0 "concat mid"] pieces(1) BracketPair.prems(4) by (simp add: l1_def)
  qed
  show ?case
  proof (cases cl)
    case None
    then show ?thesis
      unfolding p length_createPair using l1 pieces(1,4) by (simp add: l1_def [symmetric])
  next
    case (Some b)
    then obtain p2 where "last = [p2]" "bk_length b = len_code (text_measure p2)"
      using pieces(4) by (auto simp: list_all2_Cons1 sized_def)
    then show ?thesis
      unfolding p length_createPair
      using Some l1 add_codes [of "p0 @ concat mid" p2] pieces(1) BracketPair.prems(4) by (simp add: l1_def [symmetric])
  qed
next
  case (List23 im l h a b c m)
  obtain pa pb pc where pieces: "pieces = pa @ pb @ pc" "list_all2 sized (spelled a) pa" "list_all2 sized (spelled b) pb"
    "list_all2 sized (case c of None \<Rightarrow> [] | Some t \<Rightarrow> spelled t) pc"
    using List23.prems(3) by (cases c) (auto simp: list_all2_append1)
  have a: "ast_length a = len_code (text_measure (concat pa))"
    using List23.IH(1) [of B pa] List23.prems pieces by auto
  have b: "ast_length b = len_code (text_measure (concat pb))"
    using List23.IH(2) [of B pb] List23.prems pieces by auto
  have ab: "lengthAdd (ast_length a) (ast_length b) = len_code (text_measure (concat pa @ concat pb))"
    unfolding a b using List23.prems(4) pieces(1) by (intro add_codes) simp
  show ?case
  proof (cases c)
    case None
    then show ?thesis using List23.prems(1) ab pieces by (simp add: sum_length_def)
  next
    case (Some t)
    then have "ast_length t = len_code (text_measure (concat pc))"
      using List23.IH(3) [of t B pc] List23.prems pieces by auto
    then show ?thesis
      using Some List23.prems(1,4) ab pieces(1) add_codes [of "concat pa @ concat pb" "concat pc"]
      by (simp add: sum_length_def)
  qed
qed (auto simp: sized_def list_all2_Cons1)

lemma represents_length: "token_ok tok \<Longrightarrow> represents n tok \<Longrightarrow> ast_length n = tk_length tok"
  by (auto simp: token_ok_def represents_def split: token_kind.splits)

text \<open>A node for a piece of the text: a bracket node is the one of the bracket that the piece spells.\<close>

definition node_for :: "token_map \<Rightarrow> string \<Rightarrow> bracket_kind ast \<Rightarrow> bool" where
  "node_for m piece node \<longleftrightarrow>
     piece \<noteq> [] \<and> ast_length node = len_code (text_measure piece) \<and>
     (\<forall>b. node = Bracket b \<longrightarrow> (\<exists>tok. bt_getToken piece m = Some tok \<and> tk_astNode tok = Some (Bracket b)))"

lemma node_for_token: "token_for m piece tok \<Longrightarrow> represents node tok \<Longrightarrow> node_for m piece node"
  using represents_length [of tok node]
  by (auto simp: token_for_def node_for_def represents_def token_ok_def split: token_kind.splits)

lemma parse_text_tree:
  assumes "map_ok m" "m \<noteq> []" "int (length s) < factor"
  shows "\<exists>t. parse_text s m im = Done t \<and> document_tree t \<and> ast_length t = snd (new_FastTokenizer s m) \<and>
    (\<exists>pieces. concat pieces = s \<and> list_all2 (node_for m) pieces (spelled t))"
proof -
  obtain toks where toks: "new_FastTokenizer s m = (map Some toks, len_code (text_measure s))" "tiles m s toks"
    using new_FastTokenizer_tiles [OF assms(1,2)] by blast
  obtain pieces where pieces: "concat pieces = s" "list_all2 (token_for m) pieces toks"
    using toks(2) by (auto simp: tiles_def)
  have ok: "\<forall>tok\<in>set toks. token_ok tok"
    using pieces(2) by (auto simp: list_all2_conv_all_nth in_set_conv_nth token_for_def)
  have readable: "readable (fst (new_FastTokenizer s m)) = toks"
    using toks(1) by (simp add: readable_def takeWhile_map o_def)
  obtain t where t: "parse_text s m im = Done t" "list_all2 represents (spelled t) toks" "document_tree t"
    "t = getEmptyList \<longleftrightarrow> toks = []"
    using parse_tokens [OF ok, of im] unfolding parse_text_def readable Let_def by blast
  have nodes: "list_all2 (node_for m) pieces (spelled t)"
    using pieces(2) t(2) node_for_token
    by (fastforce simp: list_all2_conv_all_nth)
  then have "list_all2 sized (spelled t) pieces"
    by (simp add: list_all2_conv_all_nth node_for_def sized_def)
  moreover have "ast_length t = len_code (text_measure s)" if "t = getEmptyList"
    using that t(4) pieces by (simp add: getEmptyList_def lengthZero_def)
  ultimately have "ast_length t = len_code (text_measure s)"
    using t(3) tree_sized [of t "{}" pieces] pieces(1) assms(3) by (auto simp: document_tree_def)
  then show ?thesis using t(1,3) toks(1) pieces(1) nodes by auto
qed


lemma config_nonempty:
  assumes "pairs = Some ps" "ps \<noteq> []" "\<forall>p\<in>set ps. fst p \<noteq> [] \<and> snd p \<noteq> []"
  shows "set (jkeys (bc_closingBrackets (new_LanguageBracketsConfiguration lang pairs colorized))) \<noteq> {}"
proof -
  obtain op cl qs where ps: "ps = (op, cl) # qs" using assms(2) by (cases ps) auto
  then have "(op, cl) \<in> set (filterValidBrackets ps)" using assms(3) by (simp add: filterValidBrackets_def)
  then have "kind_closes (new_LanguageBracketsConfiguration lang pairs colorized) cl op"
    using assms(1) by (simp add: closes_exact)
  then show ?thesis by (auto simp: kind_closes_def split: option.splits)
qed



section \<open>Two gaps\<close>

text \<open>
  A bracket that is configured with a capital is matched but has no token, although the code says
  that the token must exist: reading stops there, and the text is an empty list.
\<close>

lemma capital_bracket_lost:
  "let m = fst (the (createFromLanguage (new_LanguageBracketsConfiguration ''l'' (Some [(''DO'', ''end'')]) None) []))
   in fst (new_FastTokenizer ''do x end'' m) ! 0 = None \<and> parse_text ''do x end'' m True = Done getEmptyList"
  by code_simp

text \<open>Without brackets no line feed is matched, so the lines of a text are not counted.\<close>

lemma lines_without_brackets:
  "snd (new_FastTokenizer s []) = toLength 0 (int (length s))"
  by (simp add: new_FastTokenizer_def bt_isEmpty_def)

end
