(* ===== verification/Tool_Calls.thy ===== *)
theory Tool_Calls
  imports Context_Pruning Command_Rules
begin

text \<open>
  Tool calls of the chat: the deltas in which a model streams them and the states into which
  \<open>gui/src/util/toolCallState.ts\<close> merges them. \<open>JSON.parse\<close> and the parser of partial JSON (a
  package outside the repository) are parameters; parsed arguments are \<open>json\<close> values.
\<close>

section \<open>Data\<close>

text \<open>\<open>ToolCallDelta\<close>; a missing \<open>function\<close> has neither name nor arguments.\<close>

record tool_call_delta =
  td_id :: "string option"
  td_name :: "string option"
  td_args :: "string option"

record tool_call =
  tc_id :: string
  tc_name :: string
  tc_args :: string

datatype tool_status = Generating | Generated | Calling | Errored | DoneStatus | Canceled

text \<open>Of a context item also its status, its image, its address (kind and value) and its id in a chat.\<close>

record context_item =
  ci_name :: string
  ci_description :: string
  ci_content :: string
  ci_status :: "string option"
  ci_imageUrl :: "string option"
  ci_uri :: "(string \<times> string) option"
  ci_itemId :: "string option"

text \<open>Of a tool of the configuration its name, its group and its default policy matter.\<close>

record tool =
  tool_name :: string
  tool_group :: string
  tool_readonly :: bool
  tool_defaultPolicy :: "tool_policy option"

record tool_call_state =
  ts_toolCallId :: string
  ts_toolCall :: tool_call
  ts_status :: tool_status
  ts_parsedArgs :: json
  ts_processedArgs :: "json option"
  ts_output :: "context_item list option"
  ts_tool :: "tool option"
  ts_mcpUiState :: "json option"

text \<open>A message of a stream: a chat message whose tool calls are deltas.\<close>

record chat_delta =
  cd_role :: message_role
  cd_content :: message_content
  cd_toolCalls :: "tool_call_delta list option"
  cd_toolCallId :: "string option"
  cd_signature :: "string option"
  cd_redacted :: "string option"
  cd_outputId :: "string option"
  cd_details :: "json list option"

fun normalizeToMessageParts :: "message_content \<Rightarrow> message_part list" where
  "normalizeToMessageParts (Plain s) = [TextPart s]"
| "normalizeToMessageParts (Parts ps) = ps"

text \<open>A string that is missing or empty is falsy.\<close>

definition is_given :: "string option \<Rightarrow> bool" where
  "is_given x \<longleftrightarrow> x \<noteq> None \<and> x \<noteq> Some []"

section \<open>Merging deltas\<close>

text \<open>\<open>incrementalParseJson\<close>: complete JSON, else partial JSON, else an empty object.\<close>

definition incrementalParseJson ::
  "(string \<Rightarrow> json option) \<Rightarrow> (string \<Rightarrow> json option) \<Rightarrow> string \<Rightarrow> bool \<times> json" where
  "incrementalParseJson parse partial raw =
     (case parse raw of
        Some v \<Rightarrow> (True, v)
      | None \<Rightarrow> (False, or_else (partial raw) (JObj [])))"

text \<open>A name is streamed in pieces, or in full and growing.\<close>

definition merge_name :: "string \<Rightarrow> string \<Rightarrow> string" where
  "merge_name currentName nameDelta =
     (if starts_with nameDelta currentName then nameDelta
      else if \<not> starts_with currentName nameDelta then currentName @ nameDelta
      else currentName)"

text \<open>Arguments that are complete JSON are not extended.\<close>

definition merge_args :: "(string \<Rightarrow> json option) \<Rightarrow> string \<Rightarrow> string \<Rightarrow> string" where
  "merge_args parse currentArgs argsDelta =
     (if parse currentArgs \<noteq> None then currentArgs else currentArgs @ argsDelta)"

definition addToolCallDeltaToState ::
  "(string \<Rightarrow> json option) \<Rightarrow> (string \<Rightarrow> json option) \<Rightarrow> tool_call_delta \<Rightarrow> tool_call_state option \<Rightarrow> tool_call_state"
  where
  "addToolCallDeltaToState parse partial d currentState =
     (let currentCall = map_option ts_toolCall currentState in
      if currentState \<noteq> None \<and> is_given (td_id d) \<and> map_option tc_id currentCall \<noteq> td_id d
      then the currentState
      else
        (let callId =
               (if is_given (map_option tc_id currentCall) then the (map_option tc_id currentCall)
                else or_else (td_id d) []);
             mergedName = merge_name (or_else (map_option tc_name currentCall) []) (or_else (td_name d) []);
             mergedArgs = merge_args parse (or_else (map_option tc_args currentCall) []) (or_else (td_args d) [])
         in \<lparr>ts_toolCallId = callId,
             ts_toolCall = \<lparr>tc_id = callId, tc_name = mergedName, tc_args = mergedArgs\<rparr>,
             ts_status = Generating,
             ts_parsedArgs = snd (incrementalParseJson parse partial (if mergedArgs = [] then ''{}'' else mergedArgs)),
             ts_processedArgs = None, ts_output = None, ts_tool = None, ts_mcpUiState = None\<rparr>))"

definition editToolNames :: "string list" where
  "editToolNames = [''edit_existing_file'', ''single_find_and_replace'', ''multi_edit'']"

definition isEditTool :: "string \<Rightarrow> bool" where
  "isEditTool toolName \<longleftrightarrow> toolName \<in> set editToolNames"

section \<open>What is merged\<close>

text \<open>The state behind a sequence of deltas.\<close>

definition merge_deltas ::
  "(string \<Rightarrow> json option) \<Rightarrow> (string \<Rightarrow> json option) \<Rightarrow> tool_call_delta list \<Rightarrow> tool_call_state option" where
  "merge_deltas parse partial ds =
     foldl (\<lambda>s d. Some (addToolCallDeltaToState parse partial d s)) None ds"

lemma merge_name_Nil [simp]: "merge_name [] n = n" "merge_name n [] = n"
  by (cases n; simp add: merge_name_def starts_with_def)+

text \<open>
  The deltas of one call: the first has the id, the others the id or none. The arguments are put
  together in order as long as no proper prefix of them is complete JSON.
\<close>

definition one_call :: "string \<Rightarrow> tool_call_delta \<Rightarrow> bool" where
  "one_call i d \<longleftrightarrow> td_id d = Some i \<or> \<not> is_given (td_id d)"

abbreviation args_of :: "tool_call_delta list \<Rightarrow> string" where
  "args_of ds \<equiv> concat (map (\<lambda>d. or_else (td_args d) []) ds)"

lemma merge_deltas_snoc:
  "merge_deltas parse partial (ds @ [d]) = Some (addToolCallDeltaToState parse partial d (merge_deltas parse partial ds))"
  by (simp add: merge_deltas_def)

lemma merge_deltas_args:
  assumes "i \<noteq> []" "td_id d = Some i" "\<forall>e\<in>set ds. one_call i e"
    and "\<And>p q. args_of (d # ds) = p @ q \<Longrightarrow> q \<noteq> [] \<Longrightarrow> parse p = None"
  shows "\<exists>s. merge_deltas parse partial (d # ds) = Some s \<and> ts_toolCallId s = i \<and>
    ((\<forall>e\<in>set ds. or_else (td_name e) [] = []) \<longrightarrow> tc_name (ts_toolCall s) = or_else (td_name d) []) \<and>
    tc_id (ts_toolCall s) = i \<and> tc_args (ts_toolCall s) = args_of (d # ds) \<and> ts_status s = Generating \<and>
    ts_parsedArgs s =
      snd (incrementalParseJson parse partial (if args_of (d # ds) = [] then ''{}'' else args_of (d # ds)))"
  using assms(3,4)
proof (induction ds rule: rev_induct)
  case Nil
  have "parse [] = None" if "or_else (td_args d) [] \<noteq> []" using Nil(2) [of "[]"] that by simp
  then have "merge_args parse [] (or_else (td_args d) []) = or_else (td_args d) []"
    by (cases "or_else (td_args d) [] = []") (auto simp: merge_args_def)
  then show ?case
    using assms(1,2) by (simp add: merge_deltas_def addToolCallDeltaToState_def Let_def is_given_def or_else_def)
next
  case (snoc e ds)
  have "\<And>p q. args_of (d # ds) = p @ q \<Longrightarrow> q \<noteq> [] \<Longrightarrow> parse p = None"
    using snoc.prems(2) by (metis append.assoc append_is_Nil_conv concat_append list.simps(9) map_append append_Cons)
  then obtain s where s: "merge_deltas parse partial (d # ds) = Some s" "ts_toolCallId s = i"
    "tc_id (ts_toolCall s) = i" "tc_args (ts_toolCall s) = args_of (d # ds)"
    "(\<forall>e\<in>set ds. or_else (td_name e) [] = []) \<longrightarrow> tc_name (ts_toolCall s) = or_else (td_name d) []"
    using snoc.IH snoc.prems(1) by auto
  have e: "one_call i e" using snoc.prems(1) by simp
  have "parse (args_of (d # ds)) = None" if "or_else (td_args e) [] \<noteq> []"
    using snoc.prems(2) [of "args_of (d # ds)" "or_else (td_args e) []"] that by simp
  then have "merge_args parse (args_of (d # ds)) (or_else (td_args e) []) = args_of (d # ds @ [e])"
    by (cases "or_else (td_args e) [] = []") (auto simp: merge_args_def)
  moreover have "merge_deltas parse partial (d # ds @ [e]) = Some (addToolCallDeltaToState parse partial e (Some s))"
    using merge_deltas_snoc [of parse partial "d # ds" e] s(1) by simp
  moreover have "is_given (Some i)" using assms(1) by (simp add: is_given_def)
  ultimately show ?case
    using s(2-5) e by (auto simp: addToolCallDeltaToState_def Let_def one_call_def or_else_def is_given_def)
qed

end
