(* ===== verification/System_Tools.thy ===== *)
theory System_Tools
  imports Tool_Calls
begin

text \<open>
  Tool calls in the text of an answer (\<open>core/tools/systemMessageTools\<close>): models without native tools
  write a call as a code block. \<open>toolCodeblocks/index.ts\<close> prints calls,
  \<open>toolCodeblocks/parseSystemToolCall.ts\<close> parses them line by line, and
  \<open>interceptSystemToolCalls.ts\<close> takes them out of the stream of the answer. A
  line number in the array of lines is never behind its end, so the array is a list of lines.
\<close>

abbreviation fence :: string where
  "fence \<equiv> ''```''"

section \<open>Text tools\<close>

text \<open>\<open>content.split(/(```|\n)/g).filter(Boolean)\<close>.\<close>

definition nonempty :: "string \<Rightarrow> string list" where
  "nonempty s = (if s = [] then [] else [s])"

function split_chunks :: "string \<Rightarrow> string \<Rightarrow> string list" where
  "split_chunks acc s =
     (if s = [] then nonempty acc
      else if starts_with s fence then nonempty acc @ fence # split_chunks [] (drop 3 s)
      else if hd s = newline then nonempty acc @ [newline] # split_chunks [] (tl s)
      else split_chunks (acc @ [hd s]) (tl s))"
  by pat_completeness auto
termination
  by (relation "measure (\<lambda>(acc, s). length s)") auto

declare split_chunks.simps [simp del]

definition splitAtCodeblocksAndNewLines :: "string \<Rightarrow> string list" where
  "splitAtCodeblocksAndNewLines content = split_chunks [] content"

text \<open>
  The tags \<open>/tool_?name:/i\<close>, \<open>/begin_?arg:/i\<close> and \<open>/end_?arg/i\<close>, as the two texts that each
  of them matches.
\<close>

definition tool_name_tag :: "string list" where
  "tool_name_tag = [''tool_name:'', ''toolname:'']"

definition begin_arg_tag :: "string list" where
  "begin_arg_tag = [''begin_arg:'', ''beginarg:'']"

definition end_arg_tag :: "string list" where
  "end_arg_tag = [''end_arg'', ''endarg'']"

definition tag_here :: "string list \<Rightarrow> string \<Rightarrow> string option" where
  "tag_here tag s = List.find (\<lambda>p. to_lower (take (length p) s) = p) tag"

text \<open>\<open>line.match(tag)\<close>, and \<open>line.split(tag)[1] ?? ''''\<close> trimmed.\<close>

fun has_tag :: "string list \<Rightarrow> string \<Rightarrow> bool" where
  "has_tag tag [] \<longleftrightarrow> tag_here tag [] \<noteq> None"
| "has_tag tag (c # s) \<longleftrightarrow> tag_here tag (c # s) \<noteq> None \<or> has_tag tag s"

fun before_tag :: "string list \<Rightarrow> string \<Rightarrow> string" where
  "before_tag tag [] = []"
| "before_tag tag (c # s) = (if tag_here tag (c # s) \<noteq> None then [] else c # before_tag tag s)"

fun behind_tag :: "string list \<Rightarrow> string \<Rightarrow> string option" where
  "behind_tag tag [] = None"
| "behind_tag tag (c # s) =
     (case tag_here tag (c # s) of Some p \<Rightarrow> Some (drop (length p) (c # s)) | None \<Rightarrow> behind_tag tag s)"

definition tag_value :: "string list \<Rightarrow> string \<Rightarrow> string" where
  "tag_value tag line = trim (before_tag tag (or_else (behind_tag tag line) []))"

definition createDelta :: "string \<Rightarrow> string \<Rightarrow> string \<Rightarrow> tool_call_delta" where
  "createDelta name args i = \<lparr>td_id = Some i, td_name = Some name, td_args = Some args\<rparr>"

section \<open>The parser of a call\<close>

record parse_state =
  pt_toolCallId :: string
  pt_isWithinArgStart :: bool
  pt_currentArgName :: "string option"
  pt_currentArgChunks :: "string list"
  pt_processedArgNames :: "string list"
  pt_currentLineIndex :: nat
  pt_lineChunks :: "string list list"
  pt_done :: bool

definition getInitialToolCallParseState :: "string \<Rightarrow> parse_state" where
  "getInitialToolCallParseState toolCallId =
     \<lparr>pt_toolCallId = toolCallId, pt_isWithinArgStart = False, pt_currentArgName = None,
      pt_currentArgChunks = [], pt_processedArgNames = [], pt_currentLineIndex = 0,
      pt_lineChunks = [], pt_done = False\<rparr>"

text \<open>\<open>lines[i] = xs\<close>, where \<open>i\<close> may be the length.\<close>

definition set_line :: "nat \<Rightarrow> string list \<Rightarrow> string list list \<Rightarrow> string list list" where
  "set_line i xs ls = (if i < length ls then ls[i := xs] else ls @ [xs])"

definition line_at :: "nat \<Rightarrow> string list list \<Rightarrow> string list" where
  "line_at i ls = (if i < length ls then ls ! i else [])"

text \<open>
  Line breaks inside the strings of a JSON text. The content of a string ends at its first quote that is
  not escaped.
\<close>

fun string_body :: "string \<Rightarrow> string \<Rightarrow> (string \<times> string) option" where
  "string_body acc [] = None"
| "string_body acc (c # s) =
     (if c = char_of (92 :: nat)
      then (case s of [] \<Rightarrow> None | d # r \<Rightarrow> string_body (acc @ [c, d]) r)
      else if c = char_of (34 :: nat) then Some (acc, s)
      else string_body (acc @ [c]) s)"

text \<open>\<open>replace(/([^\\])\n/g, '$1\\n')\<close> and then \<open>replace(/^\n/g, '\\n')\<close>.\<close>

fun escape_inner_breaks :: "string \<Rightarrow> string" where
  "escape_inner_breaks (c # d # s) =
     (if c \<noteq> char_of (92 :: nat) \<and> d = newline
      then c # char_of (92 :: nat) # CHR ''n'' # escape_inner_breaks s
      else c # escape_inner_breaks (d # s))"
| "escape_inner_breaks s = s"

definition escape_breaks :: "string \<Rightarrow> string" where
  "escape_breaks content =
     (let s = escape_inner_breaks content in
      if s \<noteq> [] \<and> hd s = newline then char_of (92 :: nat) # CHR ''n'' # tl s else s)"

lemma string_body_length: "string_body acc s = Some (b, r) \<Longrightarrow> length r < length s"
  by (induction acc s arbitrary: b r rule: string_body.induct) (fastforce split: if_splits list.splits)+

function escape_string_breaks :: "string \<Rightarrow> string" where
  "escape_string_breaks [] = []"
| "escape_string_breaks (c # s) =
     (if c = char_of (34 :: nat)
      then (case string_body [] s of
              Some (content, rest) \<Rightarrow> c # escape_breaks content @ c # escape_string_breaks rest
            | None \<Rightarrow> c # escape_string_breaks s)
      else c # escape_string_breaks s)"
  by pat_completeness auto
termination
  by (relation "measure length") (auto dest: string_body_length)

text \<open>The JSON of an argument: its text if that is JSON, else the text as a string.\<close>

definition arg_json :: "(string \<Rightarrow> json option) \<Rightarrow> string \<Rightarrow> string" where
  "arg_json parse trimmedValue =
     (let v = (if starts_with trimmedValue ''['' \<or> starts_with trimmedValue ''{''
               then escape_string_breaks trimmedValue else trimmedValue)
      in case parse v of Some j \<Rightarrow> json_stringify j | None \<Rightarrow> json_stringify (JStr v))"

text \<open>A line of the call behind the first two; the result is what the chunk yields.\<close>

definition handle_line ::
  "(string \<Rightarrow> json option) \<Rightarrow> string \<Rightarrow> bool \<Rightarrow> parse_state \<Rightarrow> (string + tool_call_delta option \<times> parse_state)"
  where
  "handle_line parse line isNewLine st =
     (if pt_isWithinArgStart st
      then (if isNewLine
            then (let argName = tag_value begin_arg_tag line in
              if argName = [] then Inl ''Invalid begin arg line''
              else Inr (Some (createDelta []
                     ((if pt_processedArgNames st = [] then ''{'' else '','') @ [char_of (34 :: nat)] @ argName @
                      [char_of (34 :: nat)] @ '':'') (pt_toolCallId st)),
                   st\<lparr>pt_currentArgName := Some argName, pt_isWithinArgStart := False\<rparr>))
            else Inr (None, st))
      else case pt_currentArgName st of
        Some argName \<Rightarrow>
          if isNewLine
          then (if has_tag end_arg_tag line
                then Inr (Some (createDelta []
                       (arg_json parse (trim (concat (pt_currentArgChunks st)))) (pt_toolCallId st)),
                     st\<lparr>pt_currentArgChunks := [],
                        pt_processedArgNames := List.insert argName (pt_processedArgNames st),
                        pt_currentArgName := None\<rparr>)
                else Inr (None, st\<lparr>pt_currentArgChunks := pt_currentArgChunks st @ [line]\<rparr>))
          else Inr (None, st)
      | None \<Rightarrow>
          (let st1 = (if has_tag begin_arg_tag line then st\<lparr>pt_isWithinArgStart := True\<rparr> else st) in
           if line = fence \<or> isNewLine
           then Inr (if pt_processedArgNames st \<noteq> [] then Some (createDelta [] ''}'' (pt_toolCallId st)) else None,
                  st1\<lparr>pt_done := True\<rparr>)
           else Inr (None, st1)))"

text \<open>The line of the name.\<close>

definition handle_name ::
  "string \<Rightarrow> bool \<Rightarrow> parse_state \<Rightarrow> (string + tool_call_delta option \<times> parse_state)" where
  "handle_name line isNewLine st =
     (if isNewLine
      then (let name = tag_value tool_name_tag line in
            if name = [] then Inl ''Invalid tool name''
            else Inr (Some (createDelta name [] (pt_toolCallId st)), st))
      else Inr (None, st))"

text \<open>The first line: what is behind its line break goes to the second line.\<close>

definition split_first_line :: "string \<Rightarrow> parse_state \<Rightarrow> parse_state" where
  "split_first_line line st =
     (let splitBuffer = split_on newline line;
          ls1 = (if splitBuffer ! 0 \<noteq> [] then set_line 0 [splitBuffer ! 0, [newline]] (pt_lineChunks st)
                 else pt_lineChunks st);
          ls2 = (if 1 < length splitBuffer \<and> splitBuffer ! 1 \<noteq> [] then set_line 1 [splitBuffer ! 1] ls1 else ls1)
      in st\<lparr>pt_lineChunks := ls2, pt_currentLineIndex := 1\<rparr>)"

definition handleToolCallBuffer ::
  "(string \<Rightarrow> json option) \<Rightarrow> string \<Rightarrow> parse_state \<Rightarrow> (string + tool_call_delta option \<times> parse_state)" where
  "handleToolCallBuffer parse chunk st =
     (let lineIndex = pt_currentLineIndex st;
          chunks = line_at lineIndex (pt_lineChunks st) @ [chunk];
          isNewLine = (chunk = [newline]);
          st1 = st\<lparr>pt_lineChunks := set_line lineIndex chunks (pt_lineChunks st),
                   pt_currentLineIndex := (if isNewLine then lineIndex + 1 else lineIndex)\<rparr>;
          line = concat chunks
      in if lineIndex = 0 then handle_name line isNewLine (split_first_line line st1)
         else if lineIndex = 1 then handle_name line isNewLine st1
         else handle_line parse line isNewLine st1)"

section \<open>The stream\<close>

text \<open>\<open>acceptedToolCallStarts\<close>.\<close>

definition acceptedToolCallStarts :: "(string \<times> string) list" where
  "acceptedToolCallStarts =
     [(''```tool'' @ [newline], ''```tool'' @ [newline]),
      (''tool_name:'', ''```tool'' @ [newline] @ ''TOOL_NAME:'')]"

text \<open>
  The loop of \<open>detectToolCallStart\<close> from the start \<open>i\<close> on. The replacement is that of the first
  occurrence of the start, regardless of case, which is at the front of the buffer.
\<close>

fun detect_loop :: "nat \<Rightarrow> (string \<times> string) list \<Rightarrow> bool \<Rightarrow> string \<Rightarrow> bool \<times> bool \<times> string" where
  "detect_loop i [] partial buffer = (False, partial, buffer)"
| "detect_loop i ((start, replacement) # starts) partial buffer =
     (if starts_with (to_lower buffer) start
      then (True, partial, if i \<noteq> 0 then replacement @ drop (length start) buffer else buffer)
      else detect_loop (i + 1) starts (partial \<or> starts_with start (to_lower buffer)) buffer)"

definition detectToolCallStart :: "string \<Rightarrow> bool \<times> bool \<times> string" where
  "detectToolCallStart buffer = detect_loop 0 acceptedToolCallStarts False buffer"

text \<open>
  A message of the answer; \<open>im_aborted\<close> is whether the stream is aborted when the message is looked
  at. A chunk yields its buffer as text or a delta, in a copy of the message that it came with.
\<close>

record in_message =
  im_message :: chat_delta
  im_aborted :: bool

datatype out_part = TextOut string | CallOut tool_call_delta

fun yielded :: "chat_delta \<Rightarrow> out_part \<Rightarrow> chat_delta" where
  "yielded m (TextOut t) = m\<lparr>cd_content := Parts [TextPart t]\<rparr>"
| "yielded m (CallOut d) = m\<lparr>cd_content := Plain [], cd_toolCalls := Some [d]\<rparr>"

definition final_message :: "tool_call_delta \<Rightarrow> chat_delta" where
  "final_message d =
     \<lparr>cd_role = AssistantRole, cd_content = Plain [], cd_toolCalls = Some [d], cd_toolCallId = None,
      cd_signature = None, cd_redacted = None, cd_outputId = None, cd_details = None\<rparr>"

record stream_state =
  sm_buffer :: string
  sm_parseState :: "parse_state option"
  sm_calls :: nat

text \<open>One chunk; \<open>new_id n\<close> is the id that is made up for the n-th call.\<close>

definition chunk_step ::
  "(string \<Rightarrow> json option) \<Rightarrow> (nat \<Rightarrow> string) \<Rightarrow> string \<Rightarrow> stream_state \<Rightarrow> (string + out_part list \<times> stream_state)"
  where
  "chunk_step parse new_id chunk st =
     (let buffer = sm_buffer st @ chunk;
          (inToolCall, partialStart, modified) =
            (if sm_parseState st = None then detectToolCallStart buffer else (False, False, buffer))
      in if partialStart then Inr ([], st\<lparr>sm_buffer := buffer\<rparr>)
         else
           (let st1 = (if inToolCall
                       then st\<lparr>sm_parseState := Some (getInitialToolCallParseState (new_id (sm_calls st))),
                               sm_calls := sm_calls st + 1\<rparr> else st)
            in case sm_parseState st1 of
                 Some p \<Rightarrow>
                   (case handleToolCallBuffer parse modified p of
                      Inl e \<Rightarrow> Inl e
                    | Inr (delta, p') \<Rightarrow>
                        Inr (case delta of None \<Rightarrow> [] | Some d \<Rightarrow> [CallOut d],
                          st1\<lparr>sm_parseState := (if pt_done p' then None else Some p'), sm_buffer := []\<rparr>))
               | None \<Rightarrow> Inr ([TextOut modified], st1\<lparr>sm_buffer := []\<rparr>)))"

fun chunk_steps ::
  "(string \<Rightarrow> json option) \<Rightarrow> (nat \<Rightarrow> string) \<Rightarrow> string list \<Rightarrow> stream_state \<Rightarrow> (string + out_part list \<times> stream_state)"
  where
  "chunk_steps parse new_id [] st = Inr ([], st)"
| "chunk_steps parse new_id (c # cs) st =
     (case chunk_step parse new_id c st of
        Inl e \<Rightarrow> Inl e
      | Inr (out1, st1) \<Rightarrow>
          (case chunk_steps parse new_id cs st1 of Inl e \<Rightarrow> Inl e | Inr (out2, st2) \<Rightarrow> Inr (out1 @ out2, st2)))"

text \<open>A batch of messages; messages that are no text of an assistant pass, and an abort drops the rest of the batch.\<close>

fun is_image :: "message_part \<Rightarrow> bool" where
  "is_image (ImagePart _) = True"
| "is_image (TextPart _) = False"

fun part_chunks :: "message_part \<Rightarrow> string list" where
  "part_chunks (TextPart t) = splitAtCodeblocksAndNewLines t"
| "part_chunks (ImagePart _) = []"

definition passes :: "chat_delta \<Rightarrow> bool" where
  "passes m \<longleftrightarrow> cd_role m \<noteq> AssistantRole \<or> cd_toolCalls m \<noteq> None \<or>
     list_ex is_image (normalizeToMessageParts (cd_content m))"

definition message_chunks :: "chat_delta \<Rightarrow> string list" where
  "message_chunks m = concat (map part_chunks (normalizeToMessageParts (cd_content m)))"

fun batch_step ::
  "(string \<Rightarrow> json option) \<Rightarrow> (nat \<Rightarrow> string) \<Rightarrow> in_message list \<Rightarrow> stream_state \<Rightarrow> (string + chat_delta list \<times> stream_state)"
  where
  "batch_step parse new_id [] st = Inr ([], st)"
| "batch_step parse new_id (m # ms) st =
     (if im_aborted m then Inr ([], st)
      else
        (case (if passes (im_message m) then Inr ([im_message m], st)
               else
                 (case chunk_steps parse new_id (message_chunks (im_message m)) st of
                    Inl e \<Rightarrow> Inl e
                  | Inr (out1, st1) \<Rightarrow> Inr (map (yielded (im_message m)) out1, st1))) of
           Inl e \<Rightarrow> Inl e
         | Inr (out1, st1) \<Rightarrow>
             (case batch_step parse new_id ms st1 of Inl e \<Rightarrow> Inl e | Inr (out2, st2) \<Rightarrow> Inr (out1 @ out2, st2))))"

fun intercept_loop ::
  "(string \<Rightarrow> json option) \<Rightarrow> (nat \<Rightarrow> string) \<Rightarrow> in_message list list \<Rightarrow> stream_state \<Rightarrow> (string + chat_delta list)"
  where
  "intercept_loop parse new_id [] st =
     Inr (case sm_parseState st of
            Some p \<Rightarrow>
              if \<not> pt_done p \<and> pt_processedArgNames p \<noteq> []
              then [final_message (createDelta [] ''}'' (pt_toolCallId p))] else []
          | None \<Rightarrow> [])"
| "intercept_loop parse new_id (b # bs) st =
     (case batch_step parse new_id b st of
        Inl e \<Rightarrow> Inl e
      | Inr (out1, st1) \<Rightarrow>
          (case intercept_loop parse new_id bs st1 of Inl e \<Rightarrow> Inl e | Inr out2 \<Rightarrow> Inr (out1 @ out2)))"

definition interceptSystemToolCalls ::
  "(string \<Rightarrow> json option) \<Rightarrow> (nat \<Rightarrow> string) \<Rightarrow> in_message list list \<Rightarrow> (string + chat_delta list)" where
  "interceptSystemToolCalls parse new_id batches =
     intercept_loop parse new_id batches \<lparr>sm_buffer = [], sm_parseState = None, sm_calls = 0\<rparr>"

section \<open>Printing calls\<close>

definition toolCallStateToSystemToolCall :: "string \<Rightarrow> (string \<times> json) list \<Rightarrow> string" where
  "toolCallStateToSystemToolCall name args =
     join_with [newline]
       ([''```tool'', ''TOOL_NAME: '' @ name] @
        concat (map (\<lambda>(k, v). [''BEGIN_ARG: '' @ k, json_stringify v, ''END_ARG'']) args) @ [fence])"


section \<open>Chunks\<close>

definition chunk_ok :: "string \<Rightarrow> bool" where
  "chunk_ok c \<longleftrightarrow> c = [newline] \<or> c \<noteq> [] \<and> newline \<notin> set c"

lemma split_chunks_eqs:
  "split_chunks acc [] = nonempty acc"
  "split_chunks acc (fence @ r) = nonempty acc @ fence # split_chunks [] r"
  "\<not> starts_with s fence \<Longrightarrow> s = newline # r \<Longrightarrow> split_chunks acc s = nonempty acc @ [newline] # split_chunks [] r"
  "\<not> starts_with s fence \<Longrightarrow> s = c # r \<Longrightarrow> c \<noteq> newline \<Longrightarrow> split_chunks acc s = split_chunks (acc @ [c]) r"
proof -
  show "split_chunks acc [] = nonempty acc"
    unfolding split_chunks.simps [of acc "[]"] by simp
  show "split_chunks acc (fence @ r) = nonempty acc @ fence # split_chunks [] r"
    unfolding split_chunks.simps [of acc "fence @ r"] by (simp add: starts_with_def)
  show "split_chunks acc s = nonempty acc @ [newline] # split_chunks [] r"
    if "\<not> starts_with s fence" "s = newline # r"
    unfolding split_chunks.simps [of acc s] using that by simp
  show "split_chunks acc s = split_chunks (acc @ [c]) r"
    if "\<not> starts_with s fence" "s = c # r" "c \<noteq> newline"
    unfolding split_chunks.simps [of acc s] using that by simp
qed

lemma nonempty_ok: "newline \<notin> set acc \<Longrightarrow> concat (nonempty acc) = acc \<and> (\<forall>c\<in>set (nonempty acc). chunk_ok c)"
  by (simp add: nonempty_def chunk_ok_def)

lemma split_chunks_ok:
  "newline \<notin> set acc \<Longrightarrow> concat (split_chunks acc s) = acc @ s \<and> (\<forall>c\<in>set (split_chunks acc s). chunk_ok c)"
proof (induction "length s" arbitrary: acc s rule: less_induct)
  case less
  have parts: "chunk_ok fence" "chunk_ok [newline]" by code_simp+
  consider "s = []" | r where "s = fence @ r" | r where "s = newline # r" "\<not> starts_with s fence"
    | c r where "s = c # r" "c \<noteq> newline" "\<not> starts_with s fence"
    by (cases s) (auto simp: starts_with_iff)
  then show ?case
  proof cases
    case 1
    then show ?thesis using nonempty_ok [OF less.prems] by (simp add: split_chunks_eqs(1))
  next
    case (2 r)
    have eq: "split_chunks acc s = nonempty acc @ fence # split_chunks [] r" unfolding 2 by (rule split_chunks_eqs(2))
    from less.hyps [of r "[]"] 2 have "concat (split_chunks [] r) = r" "\<forall>c\<in>set (split_chunks [] r). chunk_ok c" by simp_all
    then show ?thesis using nonempty_ok [OF less.prems] parts 2 unfolding eq by auto
  next
    case (3 r)
    have eq: "split_chunks acc s = nonempty acc @ [newline] # split_chunks [] r"
      by (rule split_chunks_eqs(3) [OF 3(2,1)])
    from less.hyps [of r "[]"] 3 have "concat (split_chunks [] r) = r" "\<forall>c\<in>set (split_chunks [] r). chunk_ok c" by simp_all
    then show ?thesis using nonempty_ok [OF less.prems] parts 3(1) unfolding eq by auto
  next
    case (4 c r)
    have eq: "split_chunks acc s = split_chunks (acc @ [c]) r" by (rule split_chunks_eqs(4) [OF 4(3,1,2)])
    from less.hyps [of r "acc @ [c]"] 4 less.prems show ?thesis unfolding eq by simp
  qed
qed

lemma splitAt_ok:
  "concat (splitAtCodeblocksAndNewLines s) = s" "c \<in> set (splitAtCodeblocksAndNewLines s) \<Longrightarrow> chunk_ok c"
  using split_chunks_ok [of "[]" s] by (auto simp: splitAtCodeblocksAndNewLines_def)

text \<open>Chunks that spell a line and more: the line break is a chunk of its own.\<close>

lemma chunks_break:
  "\<forall>c\<in>set cs. chunk_ok c \<Longrightarrow> concat cs = l @ newline # rest \<Longrightarrow>
   \<exists>xs ys. cs = xs @ [newline] # ys \<and> concat xs = l \<and> concat ys = rest \<and>
     (\<forall>c\<in>set xs. chunk_ok c) \<and> (\<forall>c\<in>set ys. chunk_ok c)"
proof (induction cs arbitrary: l)
  case (Cons c cs)
  have split: "c @ concat cs = l @ newline # rest" using Cons.prems(2) by simp
  consider "c = [newline]" "l = []" | l' where "l = c @ l'" "concat cs = l' @ newline # rest"
  proof -
    from split consider us where "c = l @ us" "us @ concat cs = newline # rest" | l' where "l = c @ l'" "concat cs = l' @ newline # rest"
      by (auto simp: append_eq_append_conv2)
    then show ?thesis
    proof cases
      case (1 us)
      show ?thesis
      proof (cases us)
        case Nil
        then show ?thesis using 1 that(2) [of "[]"] by simp
      next
        case (Cons u us')
        then have "newline \<in> set c" using 1 by auto
        then have "c = [newline]" using Cons.prems(1) by (auto simp: chunk_ok_def)
        then show ?thesis using 1 Cons that(1) by (cases l) auto
      qed
    qed (use that(2) in blast)
  qed
  then show ?case
  proof cases
    case 1
    then show ?thesis using Cons.prems split by (intro exI [of _ "[]"] exI [of _ cs]) simp
  next
    case (2 l')
    obtain xs ys where "cs = xs @ [newline] # ys" "concat xs = l'" "concat ys = rest"
      "\<forall>c\<in>set xs. chunk_ok c" "\<forall>c\<in>set ys. chunk_ok c"
      using Cons.IH [OF _ 2(2)] Cons.prems(1) by auto
    then show ?thesis using 2(1) Cons.prems(1) by (intro exI [of _ "c # xs"] exI [of _ ys]) simp
  qed
qed simp

lemma chunks_line:
  assumes "\<forall>c\<in>set cs. chunk_ok c" "concat cs = l @ newline # rest" "newline \<notin> set l"
  shows "\<exists>xs ys. cs = xs @ [newline] # ys \<and> concat xs = l \<and> concat ys = rest \<and>
     (\<forall>c\<in>set xs. c \<noteq> [] \<and> newline \<notin> set c) \<and> (\<forall>c\<in>set ys. chunk_ok c)"
proof -
  obtain xs ys where x: "cs = xs @ [newline] # ys" "concat xs = l" "concat ys = rest"
    "\<forall>c\<in>set xs. chunk_ok c" "\<forall>c\<in>set ys. chunk_ok c"
    using chunks_break [OF assms(1,2)] by blast
  have "newline \<notin> set c" if "c \<in> set xs" for c using that x(2) assms(3) by auto
  then show ?thesis using x by (auto simp: chunk_ok_def)
qed

lemma chunk_steps_append:
  "chunk_steps parse new_id (xs @ ys) st =
     (case chunk_steps parse new_id xs st of
        Inl e \<Rightarrow> Inl e
      | Inr (out1, st1) \<Rightarrow>
          (case chunk_steps parse new_id ys st1 of Inl e \<Rightarrow> Inl e | Inr (out2, st2) \<Rightarrow> Inr (out1 @ out2, st2)))"
  by (induction xs arbitrary: st) (auto split: sum.splits prod.splits)

section \<open>Tags\<close>

lemma to_lower_append [simp]: "to_lower (xs @ ys) = to_lower xs @ to_lower ys"
  by (simp add: to_lower_def)

lemma tag_here_mono: "tag_here tag xs \<noteq> None \<Longrightarrow> \<forall>p\<in>set tag. p \<noteq> [] \<Longrightarrow> tag_here tag (xs @ ys) \<noteq> None"
proof -
  assume a: "tag_here tag xs \<noteq> None" "\<forall>p\<in>set tag. p \<noteq> []"
  have find: "List.find P ps \<noteq> None \<longleftrightarrow> (\<exists>p\<in>set ps. P p)" for P and ps :: "string list"
    by (induction ps) auto
  from a(1) obtain p where p: "p \<in> set tag" "to_lower (take (length p) xs) = p"
    unfolding tag_here_def find by blast
  then have "length p \<le> length xs" by (metis length_map length_take min.cobounded1 to_lower_def)
  then have "to_lower (take (length p) (xs @ ys)) = p" using p(2) by simp
  with p(1) show ?thesis unfolding tag_here_def find by blast
qed

lemma has_tag_mono: "has_tag tag xs \<Longrightarrow> \<forall>p\<in>set tag. p \<noteq> [] \<Longrightarrow> has_tag tag (xs @ ys)"
proof (induction xs)
  case Nil
  then show ?case by (auto simp: tag_here_def find_None_iff to_lower_def)
next
  case (Cons c xs)
  then show ?case using tag_here_mono [of tag "c # xs" ys] by auto
qed

lemma before_tag_none: "\<not> has_tag tag s \<Longrightarrow> before_tag tag s = s"
  by (induction s) auto

lemma trim_padded: "trim k = k \<Longrightarrow> js_ws c \<Longrightarrow> js_ws d \<Longrightarrow> trim (c # k @ [d]) = k"
proof -
  assume a: "trim k = k" "js_ws c" "js_ws d"
  show "trim (c # k @ [d]) = k"
  proof (cases k)
    case Nil
    then show ?thesis using a by (simp add: trim_def trim_start_def trim_end_def)
  next
    case (Cons x xs)
    have "\<not> js_ws x"
    proof
      assume x: "js_ws x"
      have "length (trim k) \<le> length (dropWhile js_ws k)"
        unfolding trim_def trim_end_def trim_start_def using length_dropWhile_le [of js_ws "rev (dropWhile js_ws k)"] by simp
      also have "\<dots> \<le> length xs" using x Cons length_dropWhile_le [of js_ws xs] by simp
      finally show False using a(1) Cons by simp
    qed
    then have "trim (c # k @ [d]) = trim_end (k @ [d])" using a(2) Cons by (simp add: trim_def trim_start_def)
    also have "\<dots> = trim_end k" using a(3) by (simp add: trim_end_def)
    also have "\<dots> = trim k" using \<open>\<not> js_ws x\<close> Cons by (simp add: trim_def trim_start_def)
    finally show ?thesis using a(1) by simp
  qed
qed

lemma ws_space: "js_ws (CHR '' '')" "js_ws newline"
  by code_simp+


section \<open>Lines of a call\<close>

text \<open>The parser within the line \<open>i\<close>, of which \<open>line\<close> has arrived; \<open>s\<close> is its state without the lines.\<close>

definition core :: "parse_state \<Rightarrow> parse_state" where
  "core p = p\<lparr>pt_lineChunks := [], pt_currentLineIndex := 0\<rparr>"

definition at_line :: "nat \<Rightarrow> string \<Rightarrow> parse_state \<Rightarrow> parse_state \<Rightarrow> bool" where
  "at_line i line s p \<longleftrightarrow>
     pt_currentLineIndex p = i \<and> i \<le> length (pt_lineChunks p) \<and> length (pt_lineChunks p) \<le> i + 1 \<and>
     concat (line_at i (pt_lineChunks p)) = line \<and> core p = s"

lemma handle_line_core:
  "handle_line parse l nl (core p) = Inr (d, s) \<Longrightarrow>
   handle_line parse l nl p = Inr (d, s\<lparr>pt_lineChunks := pt_lineChunks p, pt_currentLineIndex := pt_currentLineIndex p\<rparr>) \<and>
   core s = s"
  by (cases p) (auto simp: handle_line_def core_def Let_def split: if_splits option.splits)

lemma line_at_set_line:
  "i \<le> length ls \<Longrightarrow> length ls \<le> i + 1 \<Longrightarrow> line_at i (set_line i xs ls) = xs \<and> length (set_line i xs ls) = i + 1"
  by (auto simp: line_at_def set_line_def)

lemma handle_chunk:
  assumes "at_line i line s p" "2 \<le> i" "handle_line parse (line @ c) (c = [newline]) s = Inr (d, s')"
  shows "\<exists>p'. handleToolCallBuffer parse c p = Inr (d, p') \<and> pt_done p' = pt_done s' \<and>
    (if c = [newline] then at_line (i + 1) [] s' p' else at_line i (line @ c) s' p')"
proof -
  define ls where "ls = set_line i (line_at i (pt_lineChunks p) @ [c]) (pt_lineChunks p)"
  define p1 where "p1 = p\<lparr>pt_lineChunks := ls, pt_currentLineIndex := (if c = [newline] then i + 1 else i)\<rparr>"
  have p: "pt_currentLineIndex p = i" "concat (line_at i (pt_lineChunks p)) = line" "core p = s"
    and ls: "line_at i ls = line_at i (pt_lineChunks p) @ [c]" "length ls = i + 1"
    using assms(1) line_at_set_line [of i "pt_lineChunks p"] by (auto simp: at_line_def ls_def)
  have "core p1 = s" using p(3) by (auto simp: p1_def core_def)
  then have h: "handle_line parse (line @ c) (c = [newline]) p1 =
      Inr (d, s'\<lparr>pt_lineChunks := ls, pt_currentLineIndex := pt_currentLineIndex p1\<rparr>)" "core s' = s'"
    using handle_line_core [of parse "line @ c" "c = [newline]" p1 d s'] assms(3) by (auto simp: p1_def)
  have "handleToolCallBuffer parse c p = handle_line parse (line @ c) (c = [newline]) p1"
    using assms(2) p by (simp add: handleToolCallBuffer_def Let_def p1_def ls_def)
  moreover have "line_at (i + 1) ls = []" using ls(2) by (simp add: line_at_def)
  moreover have "core (s'\<lparr>pt_lineChunks := ls, pt_currentLineIndex := k\<rparr>) = core s'" for k by (simp add: core_def)
  ultimately show ?thesis
    using h ls p(2) by (auto simp: at_line_def p1_def)
qed

text \<open>A run of chunks in a call that is not finished by them.\<close>

definition in_call :: "parse_state \<Rightarrow> nat \<Rightarrow> stream_state" where
  "in_call p n = \<lparr>sm_buffer = [], sm_parseState = Some p, sm_calls = n\<rparr>"

lemma chunk_step_call:
  assumes "handleToolCallBuffer parse c p = Inr (d, p')"
  shows "chunk_step parse new_id c (in_call p n) =
    Inr (case d of None \<Rightarrow> [] | Some x \<Rightarrow> [CallOut x],
      if pt_done p' then \<lparr>sm_buffer = [], sm_parseState = None, sm_calls = n\<rparr> else in_call p' n)"
  using assms by (simp add: chunk_step_def in_call_def)

definition runs ::
  "(string \<Rightarrow> json option) \<Rightarrow> string list \<Rightarrow> parse_state \<Rightarrow> tool_call_delta list \<Rightarrow> parse_state \<Rightarrow> bool" where
  "runs parse cs p ds p' \<longleftrightarrow>
     (\<forall>new_id n. chunk_steps parse new_id cs (in_call p n) = Inr (map CallOut ds, in_call p' n))"

lemma runs_Nil: "runs parse [] p [] p"
  by (simp add: runs_def)

lemma runs_append: "runs parse cs p ds p1 \<Longrightarrow> runs parse es p1 ds' p' \<Longrightarrow> runs parse (cs @ es) p (ds @ ds') p'"
  by (simp add: runs_def chunk_steps_append)

lemma runs_one:
  "handleToolCallBuffer parse c p = Inr (d, p') \<Longrightarrow> \<not> pt_done p' \<Longrightarrow>
   runs parse [c] p (case d of None \<Rightarrow> [] | Some x \<Rightarrow> [x]) p'"
  by (simp add: runs_def chunk_step_call split: option.split)

text \<open>
  The chunks of a line in front of its break, where the state depends only on what has arrived.
\<close>

lemma runs_quiet:
  assumes "2 \<le> i"
    and quiet: "\<And>q c r. l = q @ c @ r \<Longrightarrow> c \<noteq> [] \<Longrightarrow>
      handle_line parse (q @ c) False (g q) = Inr (None, g (q @ c)) \<and> \<not> pt_done (g (q @ c))"
  shows "at_line i line (g line) p \<Longrightarrow> \<forall>c\<in>set cs. c \<noteq> [] \<and> newline \<notin> set c \<Longrightarrow> l = line @ concat cs @ rest \<Longrightarrow>
    \<exists>p'. runs parse cs p [] p' \<and> at_line i (line @ concat cs) (g (line @ concat cs)) p'"
proof (induction cs arbitrary: line p)
  case Nil
  then have "runs parse [] p [] p \<and> at_line i (line @ concat []) (g (line @ concat [])) p"
    by (simp add: runs_Nil)
  then show ?case by blast
next
  case (Cons c cs)
  have c: "c \<noteq> []" "c \<noteq> [newline]" using Cons.prems(2) by auto
  have step: "handle_line parse (line @ c) False (g line) = Inr (None, g (line @ c))" "\<not> pt_done (g (line @ c))"
    using quiet [of line c "concat cs @ rest"] Cons.prems(3) c(1) by simp_all
  obtain p1 where p1: "handleToolCallBuffer parse c p = Inr (None, p1)" "pt_done p1 = pt_done (g (line @ c))"
    "at_line i (line @ c) (g (line @ c)) p1"
    using handle_chunk [OF Cons.prems(1) assms(1), of parse c None "g (line @ c)"] step(1) c(2) by auto
  obtain p' where p': "runs parse cs p1 [] p'" "at_line i (line @ c @ concat cs) (g (line @ c @ concat cs)) p'"
    using Cons.IH [OF p1(3)] Cons.prems(2,3) by auto
  have "runs parse [c] p [] p1" using runs_one [OF p1(1)] p1(2) step(2) by simp
  from runs_append [OF this p'(1)] p'(2) show ?case by auto
qed

text \<open>A whole line with its break.\<close>

lemma runs_line:
  assumes "2 \<le> i" "at_line i [] s p" "\<forall>c\<in>set cs. c \<noteq> [] \<and> newline \<notin> set c" "concat cs = l" "g [] = s"
    and quiet: "\<And>q c r. l = q @ c @ r \<Longrightarrow> c \<noteq> [] \<Longrightarrow>
      handle_line parse (q @ c) False (g q) = Inr (None, g (q @ c)) \<and> \<not> pt_done (g (q @ c))"
    and last: "handle_line parse (l @ [newline]) True (g l) = Inr (d, s')" "\<not> pt_done s'"
  shows "\<exists>p'. runs parse (cs @ [[newline]]) p (case d of None \<Rightarrow> [] | Some x \<Rightarrow> [x]) p' \<and> at_line (i + 1) [] s' p'"
proof -
  have at: "at_line i [] (g []) p" and l: "l = [] @ concat cs @ []" using assms(2,4,5) by simp_all
  have eq: "[] @ concat cs = l" using assms(4) by simp
  have "\<exists>p1. runs parse cs p [] p1 \<and> at_line i ([] @ concat cs) (g ([] @ concat cs)) p1"
    by (rule runs_quiet [OF assms(1) quiet at assms(3) l])
  then obtain p1 where p1: "runs parse cs p [] p1" "at_line i l (g l) p1" unfolding eq by blast
  obtain p' where p': "handleToolCallBuffer parse [newline] p1 = Inr (d, p')" "pt_done p' = pt_done s'" "at_line (i + 1) [] s' p'"
    using handle_chunk [OF p1(2) assms(1), of parse "[newline]" d s'] last(1) by auto
  have "runs parse [[newline]] p1 (case d of None \<Rightarrow> [] | Some x \<Rightarrow> [x]) p'"
    using runs_one [OF p'(1)] p'(2) last(2) by simp
  from runs_append [OF p1(1) this] p'(3) show ?thesis by auto
qed


section \<open>JSON texts\<close>

lemma show_nat_digits: "show_nat n \<noteq> [] \<and> (\<forall>c\<in>set (show_nat n). 48 \<le> (of_char c :: nat) \<and> (of_char c :: nat) \<le> 57)"
proof (induction n rule: show_nat.induct)
  case (1 n)
  have d: "(of_char (char_of (48 + m) :: char) :: nat) = 48 + m" if "m < 10" for m :: nat using that by simp
  show ?case
  proof (cases "n < 10")
    case True
    then show ?thesis using d [of n] by (simp add: show_nat.simps [of n])
  next
    case False
    have "n mod 10 < 10" by simp
    with 1 False d [of "n mod 10"] show ?thesis by (simp add: show_nat.simps [of n])
  qed
qed

lemma show_int_chars: "show_int i \<noteq> [] \<and> (\<forall>c\<in>set (show_int i). 45 \<le> (of_char c :: nat) \<and> (of_char c :: nat) \<le> 57)"
proof -
  have "45 \<le> (of_char c :: nat) \<and> (of_char c :: nat) \<le> 57" if "c \<in> set (show_nat n)" for c n
    using show_nat_digits [of n] that by fastforce
  then show ?thesis using show_nat_digits by (auto simp: show_int_def)
qed

text \<open>A character that is printed and is no white space.\<close>

definition solid :: "char \<Rightarrow> bool" where
  "solid c \<longleftrightarrow> \<not> js_ws c"

lemma solid_chars:
  "45 \<le> (of_char c :: nat) \<and> (of_char c :: nat) \<le> 57 \<Longrightarrow> solid c" "c \<in> set ''nulltruefalse[]{}'' \<Longrightarrow> solid c"
  "solid (char_of (34 :: nat))"
  by (simp add: solid_def js_ws_def Let_def) (auto simp: solid_def js_ws_def Let_def)

lemma newline_not_solid: "solid c \<Longrightarrow> c \<noteq> newline"
  using ws_space(2) by (auto simp: solid_def)

lemma stringify_ends: "json_stringify v \<noteq> [] \<and> solid (hd (json_stringify v)) \<and> solid (last (json_stringify v))"
proof (cases v)
  case (JNum i)
  then show ?thesis using show_int_chars [of i] solid_chars(1) by simp
next
  case (JStr s)
  then show ?thesis using solid_chars(3) by (simp add: json_quote_def)
qed (auto intro: solid_chars(2))

lemma newline_char: "newline = CHR 0x0A"
  by code_simp

lemma escape_no_newline: "newline \<notin> set (json_escape c)"
proof -
  have "json_escape c \<noteq> [c] \<or> c \<noteq> newline" by (cases "c = newline") (simp_all add: json_escape_def Let_def)
  moreover have "newline \<noteq> hex_digit (n div 16) \<and> newline \<noteq> hex_digit (n mod 16)" if "n < 32" for n
  proof -
    have "newline \<noteq> hex_digit m" if "m < 16" for m
      using that by (auto simp: hex_digit_def dest: arg_cong [where f = "of_char :: char \<Rightarrow> nat"])
    then show ?thesis using that by simp
  qed
  moreover have "newline \<noteq> CHR ''b''" "newline \<noteq> CHR ''t''" "newline \<noteq> CHR ''n''" "newline \<noteq> CHR ''f''"
    "newline \<noteq> CHR ''r''" "newline \<noteq> CHR ''u''" "newline \<noteq> CHR ''0''" by code_simp+
  ultimately show ?thesis
    by (auto simp: json_escape_def Let_def split: if_splits)
qed

lemma join_no_newline: "\<forall>x\<in>set xs. newline \<notin> set x \<Longrightarrow> newline \<notin> set sep \<Longrightarrow> newline \<notin> set (join_with sep xs)"
  by (induction sep xs rule: join_with.induct) auto

lemma quote_no_newline: "newline \<notin> set (json_quote s)"
  using escape_no_newline by (auto simp: json_quote_def)

lemma stringify_no_newline: "newline \<notin> set (json_stringify v)"
proof (induction v rule: json_stringify.induct)
  case (3 n)
  then show ?case using show_int_chars [of n] by fastforce
next
  case (5 xs)
  then show ?case using join_no_newline [of "map json_stringify xs" "'',''"] by (auto simp: newline_char)
next
  case (6 fs)
  have "newline \<notin> set (join_with '','' (map (\<lambda>(k, v). json_quote k @ '':'' @ json_stringify v) fs))"
    using 6 quote_no_newline by (intro join_no_newline) (auto simp: newline_char)
  then show ?case by (simp add: newline_char)
qed (use quote_no_newline in \<open>auto simp: newline_char\<close>)

lemma trim_solid:
  assumes "k \<noteq> []" "solid (hd k)" "solid (last k)"
  shows "trim k = k" "trim (k @ [newline]) = k"
proof -
  obtain x xs where x: "k = x # xs" using assms(1) by (cases k) auto
  obtain y ys where y: "rev k = y # ys" using assms(1) by (cases "rev k") auto
  have sx: "\<not> js_ws x" using assms(2) x by (simp add: solid_def)
  have sy: "\<not> js_ws y" using assms(3) y by (metis assms(1) hd_rev list.sel(1) solid_def)
  have start: "trim_start (k @ r) = k @ r" for r using sx x by (simp add: trim_start_def)
  have fin: "trim_end k = k" using sy y by (simp add: trim_end_def rev_swap)
  have "trim_end (k @ [newline]) = trim_end k" using ws_space(2) by (simp add: trim_end_def)
  then show "trim k = k" "trim (k @ [newline]) = k" using start [of "[]"] start [of "[newline]"] fin by (simp_all add: trim_def)
qed

lemma string_body_split: "string_body acc s = Some (b, r) \<Longrightarrow> acc @ s = b @ char_of (34 :: nat) # r"
proof (induction acc s rule: string_body.induct)
  case (2 acc c s)
  then show ?case by (cases s) (auto split: if_splits)
qed simp

lemma escape_inner_none: "newline \<notin> set s \<Longrightarrow> escape_inner_breaks s = s"
  by (induction s rule: escape_inner_breaks.induct) auto

lemma escape_breaks_none: "newline \<notin> set s \<Longrightarrow> escape_breaks s = s"
  by (cases s) (auto simp: escape_breaks_def Let_def escape_inner_none)

lemma escape_string_none: "newline \<notin> set s \<Longrightarrow> escape_string_breaks s = s"
proof (induction s rule: escape_string_breaks.induct)
  case (2 c s)
  show ?case
  proof (cases "c = char_of (34 :: nat)")
    case True
    show ?thesis
    proof (cases "string_body [] s")
      case None
      then show ?thesis using 2 True by simp
    next
      case (Some br)
      then obtain b r where b: "string_body [] s = Some (b, r)" "s = b @ char_of (34 :: nat) # r"
        using string_body_split [of "[]" s] by (cases br) auto
      have "escape_string_breaks r = r" using 2(2) [OF True b(1) refl] 2(4) b(2) by simp
      moreover have "escape_breaks b = b" using 2(4) b(2) by (intro escape_breaks_none) simp
      ultimately show ?thesis using True b by simp
    qed
  next
    case False
    then show ?thesis using 2 by simp
  qed
qed simp

lemma arg_json_stringify:
  assumes "parse (json_stringify v) = Some v"
  shows "arg_json parse (json_stringify v) = json_stringify v"
  using assms escape_string_none [OF stringify_no_newline [of v]] by (simp add: arg_json_def Let_def)


section \<open>The lines of a printed call\<close>

text \<open>Between two arguments, behind those with the names \<open>names\<close>.\<close>

definition between :: "string \<Rightarrow> string list \<Rightarrow> parse_state" where
  "between i names = (getInitialToolCallParseState i)\<lparr>pt_processedArgNames := names\<rparr>"

definition quoted :: "string \<Rightarrow> string" where
  "quoted k = [char_of (34 :: nat)] @ k @ [char_of (34 :: nat)]"

text \<open>A name that survives its line: nothing of it is trimmed and no tag is in it.\<close>

definition name_ok :: "string list \<Rightarrow> string \<Rightarrow> bool" where
  "name_ok tag k \<longleftrightarrow> k \<noteq> [] \<and> solid (hd k) \<and> solid (last k) \<and> newline \<notin> set k \<and> \<not> has_tag tag (CHR '' '' # k @ [newline])"

lemma trim_name: "name_ok tag k \<Longrightarrow> trim (CHR '' '' # k @ [newline]) = k"
  using trim_padded [OF trim_solid(1) ws_space] by (simp add: name_ok_def)

lemma tag_here_front: "to_lower u = p \<Longrightarrow> tag = p # ps \<Longrightarrow> tag_here tag (u @ r) = Some p"
  by (auto simp: tag_here_def to_lower_def)

lemma printed_tags: "to_lower ''BEGIN_ARG:'' = ''begin_arg:''" "to_lower ''TOOL_NAME:'' = ''tool_name:''"
  by code_simp+

lemma begin_tag_value:
  assumes "name_ok begin_arg_tag k"
  shows "tag_value begin_arg_tag ((''BEGIN_ARG: '' @ k) @ [newline]) = k" "has_tag begin_arg_tag (''BEGIN_ARG: '' @ k)"
proof -
  have here: "tag_here begin_arg_tag (''BEGIN_ARG: '' @ r) = Some ''begin_arg:''" for r
    using tag_here_front [OF printed_tags(1) begin_arg_tag_def, of "CHR '' '' # r"] by simp
  have "behind_tag begin_arg_tag (''BEGIN_ARG: '' @ k @ [newline]) = Some (CHR '' '' # k @ [newline])"
    using here [of "k @ [newline]"] by simp
  then show "tag_value begin_arg_tag ((''BEGIN_ARG: '' @ k) @ [newline]) = k"
    using assms trim_name [OF assms] by (simp add: tag_value_def before_tag_none name_ok_def)
  show "has_tag begin_arg_tag (''BEGIN_ARG: '' @ k)" using here [of k] by simp
qed

lemma name_tag_value:
  assumes "name_ok tool_name_tag k"
  shows "tag_value tool_name_tag ((''TOOL_NAME: '' @ k) @ [newline]) = k"
proof -
  have here: "tag_here tool_name_tag (''TOOL_NAME: '' @ r) = Some ''tool_name:''" for r
    using tag_here_front [OF printed_tags(2) tool_name_tag_def, of "CHR '' '' # r"] by simp
  have "behind_tag tool_name_tag (''TOOL_NAME: '' @ k @ [newline]) = Some (CHR '' '' # k @ [newline])"
    using here [of "k @ [newline]"] by simp
  then show ?thesis
    using assms trim_name [OF assms] by (simp add: tag_value_def before_tag_none name_ok_def)
qed

lemma end_tag_line: "has_tag end_arg_tag (''END_ARG'' @ [newline])"
  by code_simp

lemma tags_nonempty: "\<forall>p\<in>set begin_arg_tag. p \<noteq> []"
  by (simp add: begin_arg_tag_def)

lemma runs_begin:
  assumes "2 \<le> i" "at_line i [] (between cid names) p" "\<forall>c\<in>set cs. c \<noteq> [] \<and> newline \<notin> set c"
    "concat cs = ''BEGIN_ARG: '' @ k" "name_ok begin_arg_tag k"
  shows "\<exists>p'. runs parse (cs @ [[newline]]) p
      [createDelta [] ((if names = [] then ''{'' else '','') @ quoted k @ '':'') cid] p' \<and>
    at_line (i + 1) [] ((between cid names)\<lparr>pt_currentArgName := Some k\<rparr>) p'"
proof -
  let ?s = "between cid names"
  define g where "g q = (if has_tag begin_arg_tag q then ?s\<lparr>pt_isWithinArgStart := True\<rparr> else ?s)" for q
  have g0: "g [] = ?s" by (simp add: g_def tag_here_def begin_arg_tag_def to_lower_def)
  have quiet: "handle_line parse (q @ c) False (g q) = Inr (None, g (q @ c)) \<and> \<not> pt_done (g (q @ c))"
    if "''BEGIN_ARG: '' @ k = q @ c @ r" "c \<noteq> []" for q c r
  proof (cases "has_tag begin_arg_tag q")
    case True
    then show ?thesis
      using has_tag_mono [OF True tags_nonempty, of c]
      by (simp add: g_def handle_line_def between_def getInitialToolCallParseState_def)
  next
    case False
    have "hd (q @ c) = CHR ''B''" using arg_cong [OF that(1), of hd] that(2) by (cases q; cases c) auto
    then have "q @ c \<noteq> fence" by auto
    then show ?thesis
      using False by (simp add: g_def handle_line_def between_def getInitialToolCallParseState_def Let_def)
  qed
  have "handle_line parse ((''BEGIN_ARG: '' @ k) @ [newline]) True (g (''BEGIN_ARG: '' @ k)) =
      Inr (Some (createDelta [] ((if names = [] then ''{'' else '','') @ quoted k @ '':'') cid),
        ?s\<lparr>pt_currentArgName := Some k\<rparr>)"
    using begin_tag_value [OF assms(5)] assms(5)
    by (simp add: g_def handle_line_def Let_def between_def getInitialToolCallParseState_def name_ok_def quoted_def)
  from runs_line [OF assms(1-4) g0 quiet this] show ?thesis
    by (simp add: between_def getInitialToolCallParseState_def)
qed

lemma runs_value:
  assumes "2 \<le> i" "at_line i [] ((between cid names)\<lparr>pt_currentArgName := Some k\<rparr>) p"
    "\<forall>c\<in>set cs. c \<noteq> [] \<and> newline \<notin> set c" "concat cs = l" "\<not> has_tag end_arg_tag (l @ [newline])"
  shows "\<exists>p'. runs parse (cs @ [[newline]]) p [] p' \<and>
    at_line (i + 1) [] ((between cid names)\<lparr>pt_currentArgName := Some k, pt_currentArgChunks := [l @ [newline]]\<rparr>) p'"
proof -
  let ?s = "(between cid names)\<lparr>pt_currentArgName := Some k\<rparr>"
  have quiet: "handle_line parse (q @ c) False ?s = Inr (None, ?s) \<and> \<not> pt_done ?s" for q c
    by (simp add: handle_line_def between_def getInitialToolCallParseState_def)
  have "handle_line parse (l @ [newline]) True ?s = Inr (None, ?s\<lparr>pt_currentArgChunks := [l @ [newline]]\<rparr>)"
    using assms(5) by (simp add: handle_line_def between_def getInitialToolCallParseState_def)
  from runs_line [where g = "\<lambda>_. ?s", OF assms(1-4) refl quiet this] show ?thesis
    by (simp add: between_def getInitialToolCallParseState_def)
qed

lemma runs_end:
  assumes "2 \<le> i"
    "at_line i [] ((between cid names)\<lparr>pt_currentArgName := Some k, pt_currentArgChunks := [json_stringify v @ [newline]]\<rparr>) p"
    "\<forall>c\<in>set cs. c \<noteq> [] \<and> newline \<notin> set c" "concat cs = ''END_ARG''" "parse (json_stringify v) = Some v"
  shows "\<exists>p'. runs parse (cs @ [[newline]]) p [createDelta [] (json_stringify v) cid] p' \<and>
    at_line (i + 1) [] (between cid (List.insert k names)) p'"
proof -
  let ?s = "(between cid names)\<lparr>pt_currentArgName := Some k, pt_currentArgChunks := [json_stringify v @ [newline]]\<rparr>"
  have quiet: "handle_line parse (q @ c) False ?s = Inr (None, ?s) \<and> \<not> pt_done ?s" for q c
    by (simp add: handle_line_def between_def getInitialToolCallParseState_def)
  have "trim (concat [json_stringify v @ [newline]]) = json_stringify v"
    using trim_solid(2) stringify_ends [of v] by simp
  then have "handle_line parse (''END_ARG'' @ [newline]) True ?s =
      Inr (Some (createDelta [] (json_stringify v) cid), between cid (List.insert k names))"
    using end_tag_line arg_json_stringify [of parse v, OF assms(5)]
    by (simp add: handle_line_def between_def getInitialToolCallParseState_def)
  from runs_line [where g = "\<lambda>_. ?s", OF assms(1-4) refl quiet this] show ?thesis
    by (simp add: between_def getInitialToolCallParseState_def)
qed


text \<open>The last line: the closing fence ends the call.\<close>

lemma fence_prefixes:
  "list_all (\<lambda>n. \<not> has_tag begin_arg_tag (take n fence)) [0..<4]"
  "list_all (\<lambda>n. take n fence \<noteq> fence) [0..<3]"
  by code_simp+

lemma fence_prefix:
  assumes "fence = q @ r"
  shows "\<not> has_tag begin_arg_tag q" "r \<noteq> [] \<Longrightarrow> q \<noteq> fence"
proof -
  have "length (q @ r) = 3" unfolding assms [symmetric] by simp
  moreover have "q = take (length q) fence" unfolding assms by simp
  ultimately have q: "q = take (length q) fence" "length q + length r = 3" by simp_all
  then have "length q \<in> set [0..<4]" by simp
  then show "\<not> has_tag begin_arg_tag q" using fence_prefixes(1) q(1) unfolding list_all_iff by metis
  assume "r \<noteq> []"
  then show "q \<noteq> fence" using assms by auto
qed

lemma fence_line:
  assumes "2 \<le> i" "at_line i [] (between cid names) p" "\<forall>c\<in>set cs. c \<noteq> [] \<and> newline \<notin> set c" "concat cs = fence"
  shows "chunk_steps parse new_id cs (in_call p n) =
    Inr (if names = [] then [] else [CallOut (createDelta [] ''}'' cid)], \<lparr>sm_buffer = [], sm_parseState = None, sm_calls = n\<rparr>)"
proof -
  let ?s = "between cid names"
  have "cs \<noteq> []" using assms(4) by auto
  then obtain cs0 c where cs: "cs = cs0 @ [c]" by (cases cs rule: rev_cases) auto
  have c: "c \<noteq> []" "c \<noteq> [newline]" and split: "fence = concat cs0 @ c" using assms(3,4) cs by auto
  have s: "\<not> pt_isWithinArgStart ?s" "pt_currentArgName ?s = None" "pt_processedArgNames ?s = names"
    "pt_toolCallId ?s = cid" "\<not> pt_done ?s"
    by (simp_all add: between_def getInitialToolCallParseState_def)
  have quiet: "handle_line parse (q @ e) False ?s = Inr (None, ?s) \<and> \<not> pt_done ?s"
    if "concat cs0 = q @ e @ r" "e \<noteq> []" for q e r
  proof -
    have f: "fence = (q @ e) @ (r @ c)" using split that(1) by simp
    have "\<not> has_tag begin_arg_tag (q @ e)" "q @ e \<noteq> fence"
      using fence_prefix [OF f] c(1) by simp_all
    then show ?thesis using s by (simp add: handle_line_def Let_def)
  qed
  have nl: "\<forall>c\<in>set cs0. c \<noteq> [] \<and> newline \<notin> set c" using assms(3) cs by simp
  have "\<exists>p1. runs parse cs0 p [] p1 \<and> at_line i ([] @ concat cs0) ?s p1"
    using runs_quiet [where g = "\<lambda>_. ?s" and line = "[]" and rest = "[]", OF assms(1) quiet assms(2) nl] by simp
  then obtain p1 where p1: "runs parse cs0 p [] p1" "at_line i (concat cs0) ?s p1" by auto
  have last: "handle_line parse (concat cs0 @ c) (c = [newline]) ?s =
      Inr (if names = [] then None else Some (createDelta [] ''}'' cid), ?s\<lparr>pt_done := True\<rparr>)"
    using s c(2) fence_prefix(1) [of fence "[]"] unfolding split [symmetric] by (simp add: handle_line_def Let_def)
  obtain p2 where "handleToolCallBuffer parse c p1 = Inr (if names = [] then None else Some (createDelta [] ''}'' cid), p2)"
    "pt_done p2"
    using handle_chunk [OF p1(2) assms(1) last] by auto
  then have "chunk_steps parse new_id [c] (in_call p1 n) =
      Inr (if names = [] then [] else [CallOut (createDelta [] ''}'' cid)], \<lparr>sm_buffer = [], sm_parseState = None, sm_calls = n\<rparr>)"
    by (simp add: chunk_step_call)
  then show ?thesis using p1(1) unfolding cs by (simp add: chunk_steps_append runs_def)
qed

section \<open>The start of a call\<close>

lemma start_prefixes:
  "list_all (\<lambda>n. detectToolCallStart (take n ''```tool'') = (False, True, take n ''```tool'')) [1..<8]"
  by code_simp

lemma start_prefix: "''```tool'' = q @ r \<Longrightarrow> q \<noteq> [] \<Longrightarrow> detectToolCallStart q = (False, True, q)"
proof -
  assume a: "''```tool'' = q @ r" "q \<noteq> []"
  have "length (q @ r) = 7" unfolding a(1) [symmetric] by simp
  moreover have "q = take (length q) ''```tool''" unfolding a(1) by simp
  ultimately have q: "q = take (length q) ''```tool''" "length q + length r = 7" by simp_all
  then have "length q \<in> set [1..<8]" using a(2) by (cases q) auto
  then show ?thesis using start_prefixes q(1) unfolding list_all_iff by metis
qed

lemma start_chunks:
  "\<forall>c\<in>set cs. c \<noteq> [] \<Longrightarrow> ''```tool'' = q @ concat cs \<Longrightarrow>
   chunk_steps parse new_id cs \<lparr>sm_buffer = q, sm_parseState = None, sm_calls = n\<rparr> =
     Inr ([], \<lparr>sm_buffer = ''```tool'', sm_parseState = None, sm_calls = n\<rparr>)"
proof (induction cs arbitrary: q)
  case (Cons c cs)
  have "detectToolCallStart (q @ c) = (False, True, q @ c)"
    using start_prefix [of "q @ c" "concat cs"] Cons.prems by simp
  then have "chunk_step parse new_id c \<lparr>sm_buffer = q, sm_parseState = None, sm_calls = n\<rparr> =
      Inr ([], \<lparr>sm_buffer = q @ c, sm_parseState = None, sm_calls = n\<rparr>)"
    by (simp add: chunk_step_def)
  then show ?case using Cons.IH [of "q @ c"] Cons.prems by simp
qed simp

lemma start_newline:
  "\<exists>p. chunk_step parse new_id [newline] \<lparr>sm_buffer = ''```tool'', sm_parseState = None, sm_calls = n\<rparr> =
     Inr ([], in_call p (n + 1)) \<and> at_line 1 [] (between (new_id n) []) p"
proof -
  let ?first = "''```tool'' @ [newline]"
  have detect: "detectToolCallStart ?first = (True, False, ?first)" by code_simp
  have split: "split_on newline ?first = [''```tool'', []]" by code_simp
  have "\<exists>p. handleToolCallBuffer parse ?first (getInitialToolCallParseState (new_id n)) = Inr (None, p) \<and>
      at_line 1 [] (between (new_id n) []) p \<and> \<not> pt_done p"
    by (simp add: handleToolCallBuffer_def Let_def getInitialToolCallParseState_def line_at_def set_line_def
        split_first_line_def split [simplified] handle_name_def at_line_def core_def between_def)
  then obtain p where p: "handleToolCallBuffer parse ?first (getInitialToolCallParseState (new_id n)) = Inr (None, p)"
    "at_line 1 [] (between (new_id n) []) p" "\<not> pt_done p" by blast
  then show ?thesis using detect by (simp add: chunk_step_def in_call_def Let_def)
qed

text \<open>The line of the name.\<close>

lemma name_chunk:
  assumes "at_line 1 line s p"
  shows "\<exists>p'. handleToolCallBuffer parse c p =
      (if c = [newline]
       then (if tag_value tool_name_tag (line @ c) = [] then Inl ''Invalid tool name''
             else Inr (Some (createDelta (tag_value tool_name_tag (line @ c)) [] (pt_toolCallId s)), p'))
       else Inr (None, p')) \<and> pt_done p' = pt_done s \<and>
    (if c = [newline] then at_line 2 [] s p' else at_line 1 (line @ c) s p')"
proof -
  define ls where "ls = set_line 1 (line_at 1 (pt_lineChunks p) @ [c]) (pt_lineChunks p)"
  define p1 where "p1 = p\<lparr>pt_lineChunks := ls, pt_currentLineIndex := (if c = [newline] then 2 else 1)\<rparr>"
  have p: "pt_currentLineIndex p = 1" "concat (line_at 1 (pt_lineChunks p)) = line" "core p = s"
    and ls: "line_at 1 ls = line_at 1 (pt_lineChunks p) @ [c]" "length ls = 2"
    using assms line_at_set_line [of 1 "pt_lineChunks p"] by (auto simp: at_line_def ls_def)
  have c: "core p1 = s" "pt_done p1 = pt_done s" "pt_toolCallId p1 = pt_toolCallId s"
    using p(3) by (auto simp: p1_def core_def)
  have "handleToolCallBuffer parse c p = handle_name (line @ c) (c = [newline]) p1"
    using p by (simp add: handleToolCallBuffer_def Let_def p1_def ls_def numeral_2_eq_2)
  moreover have "line_at 2 ls = []" using ls(2) by (simp add: line_at_def)
  ultimately show ?thesis
    using c ls p(2) by (intro exI [of _ p1]) (auto simp: handle_name_def Let_def at_line_def p1_def)
qed

lemma name_quiet:
  "at_line 1 line s p \<Longrightarrow> \<not> pt_done s \<Longrightarrow> \<forall>c\<in>set cs. newline \<notin> set c \<Longrightarrow>
   \<exists>p'. runs parse cs p [] p' \<and> at_line 1 (line @ concat cs) s p'"
proof (induction cs arbitrary: line p)
  case Nil
  then have "runs parse [] p [] p \<and> at_line 1 (line @ concat []) s p" by (simp add: runs_Nil)
  then show ?case by blast
next
  case (Cons c cs)
  have "c \<noteq> [newline]" using Cons.prems(3) by auto
  then obtain p1 where p1: "handleToolCallBuffer parse c p = Inr (None, p1)" "pt_done p1 = pt_done s" "at_line 1 (line @ c) s p1"
    using name_chunk [OF Cons.prems(1), of parse c] by auto
  obtain p' where p': "runs parse cs p1 [] p'" "at_line 1 (line @ c @ concat cs) s p'"
    using Cons.IH [OF p1(3)] Cons.prems(2,3) by auto
  have "runs parse [c] p [] p1" using runs_one [OF p1(1)] p1(2) Cons.prems(2) by simp
  from runs_append [OF this p'(1)] p'(2) show ?case by auto
qed

lemma runs_name:
  assumes "at_line 1 [] (between cid []) p" "\<forall>c\<in>set cs. newline \<notin> set c" "concat cs = ''TOOL_NAME: '' @ name"
    "name_ok tool_name_tag name"
  shows "\<exists>p'. runs parse (cs @ [[newline]]) p [createDelta name [] cid] p' \<and> at_line 2 [] (between cid []) p'"
proof -
  have s: "\<not> pt_done (between cid [])" "pt_toolCallId (between cid []) = cid"
    by (simp_all add: between_def getInitialToolCallParseState_def)
  obtain p1 where p1: "runs parse cs p [] p1" "at_line 1 (''TOOL_NAME: '' @ name) (between cid []) p1"
    using name_quiet [OF assms(1) s(1) assms(2), of parse] assms(3) by auto
  obtain p' where p': "handleToolCallBuffer parse [newline] p1 = Inr (Some (createDelta name [] cid), p')"
    "\<not> pt_done p'" "at_line 2 [] (between cid []) p'"
    using name_chunk [OF p1(2), of parse "[newline]"] name_tag_value [OF assms(4)] assms(4) s
    by (auto simp: name_ok_def)
  have "runs parse [[newline]] p1 [createDelta name [] cid] p'" using runs_one [OF p'(1,2)] by simp
  from runs_append [OF p1(1) this] p'(3) show ?thesis by auto
qed

end
