(* ===== verification/Tool_Round_Trip.thy ===== *)
theory Tool_Round_Trip
  imports System_Tools
begin

text \<open>
  The calls that \<open>toolCallStateToSystemToolCall\<close> prints are read back by the interceptor, however
  the text is cut into messages.
\<close>

section \<open>The printed arguments\<close>

text \<open>The lines of the arguments, each with its line break.\<close>

definition arg_lines :: "string \<times> json \<Rightarrow> string list" where
  "arg_lines kv = [''BEGIN_ARG: '' @ fst kv, json_stringify (snd kv), ''END_ARG'']"

lemma arg_lines_pair: "arg_lines (k, v) = [''BEGIN_ARG: '' @ k, json_stringify v, ''END_ARG'']"
  by (simp add: arg_lines_def)

definition spell :: "string list \<Rightarrow> string" where
  "spell ls = concat (map (\<lambda>l. l @ [newline]) ls)"

lemma spell_simps [simp]:
  "spell [] = []" "spell (l # ls) = l @ newline # spell ls" "spell (ls @ ls') = spell ls @ spell ls'"
  by (simp_all add: spell_def)

lemma printed_call:
  "toolCallStateToSystemToolCall name args =
     ''```tool'' @ newline # (''TOOL_NAME: '' @ name) @ newline # spell (concat (map arg_lines args)) @ fence"
proof -
  have join: "join_with [newline] (ls @ [l]) = spell ls @ l" for ls l
    by (induction "[newline]" ls rule: join_with.induct) (simp_all add: spell_def)
  have "concat (map (\<lambda>(k, v). [''BEGIN_ARG: '' @ k, json_stringify v, ''END_ARG'']) args) = concat (map arg_lines args)"
    by (induction args) (auto simp: arg_lines_def)
  then show ?thesis
    using join [of "[''```tool'', ''TOOL_NAME: '' @ name] @ concat (map arg_lines args)" fence]
    by (simp add: toolCallStateToSystemToolCall_def)
qed

text \<open>The deltas of the arguments behind those with the names \<open>names\<close>.\<close>

fun arg_deltas :: "string \<Rightarrow> string list \<Rightarrow> (string \<times> json) list \<Rightarrow> tool_call_delta list" where
  "arg_deltas cid names [] = []"
| "arg_deltas cid names ((k, v) # args) =
     createDelta [] ((if names = [] then ''{'' else '','') @ quoted k @ '':'') cid #
     createDelta [] (json_stringify v) cid # arg_deltas cid (List.insert k names) args"

definition arg_ok :: "(string \<Rightarrow> json option) \<Rightarrow> string \<times> json \<Rightarrow> bool" where
  "arg_ok parse kv \<longleftrightarrow> name_ok begin_arg_tag (fst kv) \<and> json_quote (fst kv) = quoted (fst kv) \<and>
     \<not> has_tag end_arg_tag (json_stringify (snd kv) @ [newline]) \<and>
     parse (json_stringify (snd kv)) = Some (snd kv)"

lemma insert_names: "List.insert k names \<noteq> []" "set (List.insert k names) = insert k (set names)"
  by (auto simp: List.insert_def)

lemma runs_args:
  "2 \<le> i \<Longrightarrow> at_line i [] (between cid names) p \<Longrightarrow> \<forall>a\<in>set args. arg_ok parse a \<Longrightarrow> \<forall>c\<in>set cs. chunk_ok c \<Longrightarrow>
   concat cs = spell (concat (map arg_lines args)) @ rest \<Longrightarrow>
   \<exists>xs ys p' names' j. cs = xs @ ys \<and> concat ys = rest \<and> (\<forall>c\<in>set ys. chunk_ok c) \<and>
     runs parse xs p (arg_deltas cid names args) p' \<and> 2 \<le> j \<and> at_line j [] (between cid names') p' \<and>
     (names' = [] \<longleftrightarrow> names = [] \<and> args = [])"
proof (induction args arbitrary: i p names cs)
  case Nil
  then have "cs = [] @ cs \<and> concat cs = rest \<and> (\<forall>c\<in>set cs. chunk_ok c) \<and>
      runs parse [] p (arg_deltas cid names []) p \<and> 2 \<le> i \<and> at_line i [] (between cid names) p \<and>
      (names = [] \<longleftrightarrow> names = [] \<and> ([] :: (string \<times> json) list) = [])"
    by (simp add: runs_Nil)
  then show ?case by blast
next
  case (Cons a args)
  obtain k v where a: "a = (k, v)" by (cases a)
  have ok: "name_ok begin_arg_tag k" "\<not> has_tag end_arg_tag (json_stringify v @ [newline])"
    "parse (json_stringify v) = Some v"
    using Cons.prems(3) by (simp_all add: a arg_ok_def)
  let ?r3 = "spell (concat (map arg_lines args)) @ rest"
  let ?r2 = "''END_ARG'' @ newline # ?r3"
  let ?r1 = "json_stringify v @ newline # ?r2"
  have "concat cs = (''BEGIN_ARG: '' @ k) @ newline # ?r1"
    using Cons.prems(5) by (simp add: a arg_lines_pair)
  moreover have "newline \<notin> set (''BEGIN_ARG: '' @ k)" using ok(1) by (simp add: name_ok_def newline_char)
  ultimately obtain xs1 ys1 where 1: "cs = xs1 @ [newline] # ys1" "concat xs1 = ''BEGIN_ARG: '' @ k" "concat ys1 = ?r1"
    "\<forall>c\<in>set xs1. c \<noteq> [] \<and> newline \<notin> set c" "\<forall>c\<in>set ys1. chunk_ok c"
    using chunks_line [OF Cons.prems(4)] by blast
  obtain xs2 ys2 where 2: "ys1 = xs2 @ [newline] # ys2" "concat xs2 = json_stringify v" "concat ys2 = ?r2"
    "\<forall>c\<in>set xs2. c \<noteq> [] \<and> newline \<notin> set c" "\<forall>c\<in>set ys2. chunk_ok c"
    using chunks_line [OF 1(5,3) stringify_no_newline] by blast
  have "newline \<notin> set ''END_ARG''" by code_simp
  then obtain xs3 ys3 where 3: "ys2 = xs3 @ [newline] # ys3" "concat xs3 = ''END_ARG''" "concat ys3 = ?r3"
    "\<forall>c\<in>set xs3. c \<noteq> [] \<and> newline \<notin> set c" "\<forall>c\<in>set ys3. chunk_ok c"
    using chunks_line [OF 2(5,3)] by blast
  obtain p1 where p1: "runs parse (xs1 @ [[newline]]) p
      [createDelta [] ((if names = [] then ''{'' else '','') @ quoted k @ '':'') cid] p1"
    "at_line (i + 1) [] ((between cid names)\<lparr>pt_currentArgName := Some k\<rparr>) p1"
    using runs_begin [OF Cons.prems(1,2) 1(4,2) ok(1), of parse] by blast
  obtain p2 where p2: "runs parse (xs2 @ [[newline]]) p1 [] p2"
    "at_line (i + 1 + 1) [] ((between cid names)\<lparr>pt_currentArgName := Some k, pt_currentArgChunks := [json_stringify v @ [newline]]\<rparr>) p2"
    using runs_value [OF _ p1(2) 2(4,2) ok(2), of parse] Cons.prems(1) by auto
  obtain p3 where p3: "runs parse (xs3 @ [[newline]]) p2 [createDelta [] (json_stringify v) cid] p3"
    "at_line (i + 1 + 1 + 1) [] (between cid (List.insert k names)) p3"
    using runs_end [where i = "i + 1 + 1" and cid = cid and names = names and k = k and v = v and cs = xs3 and parse = parse, OF _ p2(2) 3(4,2) ok(3)] Cons.prems(1) by auto
  obtain xs ys p' names' j where ih: "ys3 = xs @ ys" "concat ys = rest" "\<forall>c\<in>set ys. chunk_ok c"
    "runs parse xs p3 (arg_deltas cid (List.insert k names) args) p'" "2 \<le> j" "at_line j [] (between cid names') p'"
    "names' \<noteq> []"
    using Cons.IH [OF _ p3(2) _ 3(5,3)] Cons.prems(1,3) insert_names(1) [of k names] by auto
  have "runs parse ((((xs1 @ [[newline]]) @ (xs2 @ [[newline]])) @ (xs3 @ [[newline]])) @ xs) p
      (arg_deltas cid names (a # args)) p'"
    using runs_append [OF runs_append [OF runs_append [OF p1(1) p2(1)] p3(1)] ih(4)] by (simp add: a)
  moreover have "cs = ((((xs1 @ [[newline]]) @ (xs2 @ [[newline]])) @ (xs3 @ [[newline]])) @ xs) @ ys"
    using 1(1) 2(1) 3(1) ih(1) by simp
  ultimately show ?case using ih by blast
qed


text \<open>The chunks of a whole call.\<close>

definition call_deltas :: "string \<Rightarrow> string \<Rightarrow> (string \<times> json) list \<Rightarrow> tool_call_delta list" where
  "call_deltas cid name args =
     createDelta name [] cid # arg_deltas cid [] args @ (if args = [] then [] else [createDelta [] ''}'' cid])"

lemma call_chunks:
  assumes "\<forall>c\<in>set cs. chunk_ok c" "concat cs = toolCallStateToSystemToolCall name args"
    and "name_ok tool_name_tag name" "\<forall>a\<in>set args. arg_ok parse a"
  shows "chunk_steps parse new_id cs \<lparr>sm_buffer = [], sm_parseState = None, sm_calls = n\<rparr> =
    Inr (map CallOut (call_deltas (new_id n) name args), \<lparr>sm_buffer = [], sm_parseState = None, sm_calls = n + 1\<rparr>)"
proof -
  let ?st = "\<lparr>sm_buffer = [], sm_parseState = None, sm_calls = n\<rparr>"
  have "newline \<notin> set ''```tool''" by code_simp
  then obtain xs1 ys1 where 1: "cs = xs1 @ [newline] # ys1" "concat xs1 = ''```tool''"
    "concat ys1 = (''TOOL_NAME: '' @ name) @ newline # spell (concat (map arg_lines args)) @ fence"
    "\<forall>c\<in>set xs1. c \<noteq> [] \<and> newline \<notin> set c" "\<forall>c\<in>set ys1. chunk_ok c"
    using chunks_line [OF assms(1)] assms(2) unfolding printed_call by blast
  have "newline \<notin> set (''TOOL_NAME: '' @ name)" using assms(3) by (simp add: name_ok_def newline_char)
  then obtain xs2 ys2 where 2: "ys1 = xs2 @ [newline] # ys2" "concat xs2 = ''TOOL_NAME: '' @ name"
    "concat ys2 = spell (concat (map arg_lines args)) @ fence"
    "\<forall>c\<in>set xs2. c \<noteq> [] \<and> newline \<notin> set c" "\<forall>c\<in>set ys2. chunk_ok c"
    using chunks_line [OF 1(5,3)] by blast
  have "chunk_steps parse new_id xs1 ?st = Inr ([], \<lparr>sm_buffer = ''```tool'', sm_parseState = None, sm_calls = n\<rparr>)"
    using start_chunks [of xs1 "[]"] 1(2,4) by simp
  moreover obtain p1 where p1: "at_line 1 [] (between (new_id n) []) p1"
    "chunk_step parse new_id [newline] \<lparr>sm_buffer = ''```tool'', sm_parseState = None, sm_calls = n\<rparr> =
      Inr ([], in_call p1 (n + 1))"
    using start_newline by blast
  ultimately have start: "chunk_steps parse new_id (xs1 @ [[newline]]) ?st = Inr ([], in_call p1 (n + 1))"
    by (simp add: chunk_steps_append)
  obtain p2 where p2: "runs parse (xs2 @ [[newline]]) p1 [createDelta name [] (new_id n)] p2"
    "at_line 2 [] (between (new_id n) []) p2"
    using runs_name [OF p1(1) _ 2(2) assms(3), of parse] 2(4) by blast
  obtain xs ys p' names' j where args: "ys2 = xs @ ys" "concat ys = fence" "\<forall>c\<in>set ys. chunk_ok c"
    "runs parse xs p2 (arg_deltas (new_id n) [] args) p'" "2 \<le> j" "at_line j [] (between (new_id n) names') p'"
    "names' = [] \<longleftrightarrow> args = []"
    using runs_args [OF le_refl p2(2) assms(4) 2(5,3)] by auto
  have "c \<noteq> [] \<and> newline \<notin> set c" if "c \<in> set ys" for c
  proof -
    have "set c \<subseteq> set fence" unfolding args(2) [symmetric] using that by auto
    moreover have "newline \<notin> set fence" by code_simp
    ultimately show ?thesis using args(3) that by (auto simp: chunk_ok_def)
  qed
  then have last: "chunk_steps parse new_id ys (in_call p' (n + 1)) =
      Inr (if names' = [] then [] else [CallOut (createDelta [] ''}'' (new_id n))], \<lparr>sm_buffer = [], sm_parseState = None, sm_calls = n + 1\<rparr>)"
    using fence_line [OF args(5,6) _ args(2)] by blast
  have "runs parse ((xs2 @ [[newline]]) @ xs) p1 (createDelta name [] (new_id n) # arg_deltas (new_id n) [] args) p'"
    using runs_append [OF p2(1) args(4)] by simp
  then have mid: "chunk_steps parse new_id ((xs2 @ [[newline]]) @ xs) (in_call p1 (n + 1)) =
      Inr (map CallOut (createDelta name [] (new_id n) # arg_deltas (new_id n) [] args), in_call p' (n + 1))"
    unfolding runs_def by blast
  have cs: "cs = (xs1 @ [[newline]]) @ ((xs2 @ [[newline]]) @ xs) @ ys" using 1(1) 2(1) args(1) by simp
  show ?thesis
    unfolding cs chunk_steps_append [of parse new_id "xs1 @ [[newline]]"] start
      chunk_steps_append [of parse new_id "(xs2 @ [[newline]]) @ xs"] prod.case sum.case mid last
    using args(7) by (auto simp: call_deltas_def)
qed

section \<open>Through the stream\<close>

text \<open>A message that brings text.\<close>

definition text_message :: "in_message \<Rightarrow> bool" where
  "text_message m \<longleftrightarrow> \<not> passes (im_message m) \<and> \<not> im_aborted m"

fun part_text :: "message_part \<Rightarrow> string" where
  "part_text (TextPart t) = t"
| "part_text (ImagePart _) = []"

definition message_text :: "chat_delta \<Rightarrow> string" where
  "message_text m = concat (map part_text (normalizeToMessageParts (cd_content m)))"

definition message_deltas :: "chat_delta \<Rightarrow> tool_call_delta list" where
  "message_deltas m = or_else (cd_toolCalls m) []"

lemma message_chunks_ok: "concat (message_chunks m) = message_text m" "c \<in> set (message_chunks m) \<Longrightarrow> chunk_ok c"
proof -
  have part: "concat (part_chunks x) = part_text x \<and> (\<forall>c\<in>set (part_chunks x). chunk_ok c)" for x
    using splitAt_ok by (cases x) auto
  then have "concat (concat (map part_chunks xs)) = concat (map part_text xs)" for xs
    by (induction xs) simp_all
  then show "concat (message_chunks m) = message_text m" by (simp add: message_chunks_def message_text_def)
  show "c \<in> set (message_chunks m) \<Longrightarrow> chunk_ok c" using part by (auto simp: message_chunks_def)
qed

text \<open>What is yielded for the parts of an output, each in a copy of a message with text.\<close>

definition in_copies :: "chat_delta list \<Rightarrow> out_part list \<Rightarrow> bool" where
  "in_copies ys ps \<longleftrightarrow> list_all2 (\<lambda>y p. \<exists>m. \<not> passes m \<and> y = yielded m p) ys ps"

lemma in_copies_Nil: "in_copies [] []"
  by (simp add: in_copies_def)

lemma in_copies_append: "in_copies ys ps \<Longrightarrow> in_copies zs qs \<Longrightarrow> in_copies (ys @ zs) (ps @ qs)"
  by (simp add: in_copies_def list_all2_appendI)

lemma in_copies_map: "\<not> passes m \<Longrightarrow> in_copies (map (yielded m) ps) ps"
  by (auto simp: in_copies_def list_all2_conv_all_nth)

lemma in_copies_texts:
  "in_copies ys (map TextOut ts) \<Longrightarrow> concat (map message_text ys) = concat ts \<and> (\<forall>y\<in>set ys. message_deltas y = [])"
proof (induction ts arbitrary: ys)
  case (Cons t ts)
  then obtain y zs m where y: "ys = y # zs" "in_copies zs (map TextOut ts)" "\<not> passes m" "y = yielded m (TextOut t)"
    by (auto simp: in_copies_def list_all2_Cons2)
  then have "message_deltas y = []" by (simp add: message_deltas_def passes_def or_else_def)
  then show ?case using Cons.IH [OF y(2)] y by (simp add: message_text_def)
qed (simp add: in_copies_def)

lemma in_copies_calls:
  "in_copies ys (map CallOut ds) \<Longrightarrow> concat (map message_deltas ys) = ds \<and> (\<forall>y\<in>set ys. message_text y = [])"
proof (induction ds arbitrary: ys)
  case (Cons d ds)
  then obtain y zs m where y: "ys = y # zs" "in_copies zs (map CallOut ds)" "y = yielded m (CallOut d)"
    by (auto simp: in_copies_def list_all2_Cons2)
  then show ?case using Cons.IH [OF y(2)] by (simp add: message_deltas_def message_text_def or_else_def)
qed (simp add: in_copies_def)

lemma batch_text:
  "\<forall>m\<in>set ms. text_message m \<Longrightarrow>
   chunk_steps parse new_id (concat (map (\<lambda>m. message_chunks (im_message m)) ms)) st = Inr (ps, st') \<Longrightarrow>
   \<exists>ys. batch_step parse new_id ms st = Inr (ys, st') \<and> in_copies ys ps"
proof (induction ms arbitrary: st ps)
  case (Cons m ms)
  then have m: "\<not> passes (im_message m)" "\<not> im_aborted m" and ms: "\<forall>m\<in>set ms. text_message m"
    by (simp_all add: text_message_def)
  obtain ps1 st1 ps2 where p: "chunk_steps parse new_id (message_chunks (im_message m)) st = Inr (ps1, st1)"
    "chunk_steps parse new_id (concat (map (\<lambda>m. message_chunks (im_message m)) ms)) st1 = Inr (ps2, st')" "ps = ps1 @ ps2"
    using Cons.prems(2) by (auto simp: chunk_steps_append split: sum.splits prod.splits)
  obtain ys where "batch_step parse new_id ms st1 = Inr (ys, st')" "in_copies ys ps2"
    using Cons.IH [OF ms p(2)] by blast
  then show ?case using p m in_copies_append [OF in_copies_map [OF m(1)]] by simp
qed (simp add: in_copies_Nil)

lemma intercept_text:
  "\<forall>b\<in>set bs. \<forall>m\<in>set b. text_message m \<Longrightarrow>
   chunk_steps parse new_id (concat (map (\<lambda>m. message_chunks (im_message m)) (concat bs))) st = Inr (ps, st') \<Longrightarrow>
   sm_parseState st' = None \<Longrightarrow> \<exists>ys. intercept_loop parse new_id bs st = Inr ys \<and> in_copies ys ps"
proof (induction bs arbitrary: st ps)
  case (Cons b bs)
  then have b: "\<forall>m\<in>set b. text_message m" and bs: "\<forall>b\<in>set bs. \<forall>m\<in>set b. text_message m" by simp_all
  obtain ps1 st1 ps2 where p: "chunk_steps parse new_id (concat (map (\<lambda>m. message_chunks (im_message m)) b)) st = Inr (ps1, st1)"
    "chunk_steps parse new_id (concat (map (\<lambda>m. message_chunks (im_message m)) (concat bs))) st1 = Inr (ps2, st')" "ps = ps1 @ ps2"
    using Cons.prems(2) by (auto simp: chunk_steps_append split: sum.splits prod.splits)
  obtain ys where ys: "batch_step parse new_id b st = Inr (ys, st1)" "in_copies ys ps1" using batch_text [OF b p(1)] by blast
  obtain zs where "intercept_loop parse new_id bs st1 = Inr zs" "in_copies zs ps2"
    using Cons.IH [OF bs p(2) Cons.prems(3)] by blast
  then show ?case using ys p(3) in_copies_append by (intro exI [of _ "ys @ zs"]) simp
qed (simp add: in_copies_Nil)

text \<open>The text of a whole answer.\<close>

definition answer_text :: "in_message list list \<Rightarrow> string" where
  "answer_text bs = concat (map (\<lambda>m. message_text (im_message m)) (concat bs))"

lemma answer_text_chunks:
  "concat (concat (map (\<lambda>m. message_chunks (im_message m)) (concat bs))) = answer_text bs"
  "c \<in> set (concat (map (\<lambda>m. message_chunks (im_message m)) (concat bs))) \<Longrightarrow> chunk_ok c"
proof -
  have "concat (concat (map (\<lambda>m. message_chunks (im_message m)) ms)) = concat (map (\<lambda>m. message_text (im_message m)) ms)" for ms
    by (induction ms) (simp_all add: message_chunks_ok(1))
  then show "concat (concat (map (\<lambda>m. message_chunks (im_message m)) (concat bs))) = answer_text bs"
    unfolding answer_text_def by blast
  show "c \<in> set (concat (map (\<lambda>m. message_chunks (im_message m)) (concat bs))) \<Longrightarrow> chunk_ok c"
    using message_chunks_ok(2) by auto
qed

section \<open>Prose\<close>

text \<open>A text in which no call starts, and a text that may become the start of a call.\<close>

definition start_here :: "string \<Rightarrow> bool" where
  "start_here s \<longleftrightarrow> list_ex (\<lambda>(start, _). starts_with (to_lower s) start) acceptedToolCallStarts"

fun has_start :: "string \<Rightarrow> bool" where
  "has_start [] = False"
| "has_start (c # s) = (start_here (c # s) \<or> has_start s)"

definition start_of_start :: "string \<Rightarrow> bool" where
  "start_of_start s \<longleftrightarrow> list_ex (\<lambda>(start, _). starts_with start (to_lower s)) acceptedToolCallStarts"

lemma start_here_mono: "start_here s \<Longrightarrow> start_here (s @ r)"
proof -
  have mono: "starts_with (to_lower s) x \<Longrightarrow> starts_with (to_lower s @ to_lower r) x" for x
    by (auto simp: starts_with_iff)
  show "start_here s \<Longrightarrow> start_here (s @ r)" using mono by (auto simp: start_here_def list_ex_iff)
qed

lemma has_start_append: "has_start r \<Longrightarrow> has_start (s @ r)" "has_start s \<Longrightarrow> has_start (s @ r)"
proof -
  show "has_start r \<Longrightarrow> has_start (s @ r)" by (induction s) simp_all
  show "has_start s \<Longrightarrow> has_start (s @ r)"
  proof (induction s)
    case (Cons c s)
    then show ?case using start_here_mono [of "c # s" r] by auto
  qed simp
qed

lemma has_start_front: "s \<noteq> [] \<Longrightarrow> start_here s \<Longrightarrow> has_start s"
  by (cases s) auto

lemma detect_prose: "\<not> start_here s \<Longrightarrow> detectToolCallStart s = (False, start_of_start s, s)"
  by (simp add: detectToolCallStart_def acceptedToolCallStarts_def start_here_def start_of_start_def)

lemma newline_ends_start: "start_of_start (s @ [newline]) \<Longrightarrow> start_here (s @ [newline])"
proof -
  have low: "lower_char newline = newline" by code_simp
  assume "start_of_start (s @ [newline])"
  moreover have nl: "to_lower (s @ [newline]) = to_lower s @ [newline]"
    using low by (simp add: to_lower_def)
  ultimately obtain a b r where "(a, b) \<in> set acceptedToolCallStarts" "a = to_lower s @ newline # r"
    by (auto simp: start_of_start_def list_ex_iff starts_with_iff)
  then have a: "a \<in> fst ` set acceptedToolCallStarts" "a = to_lower s @ newline # r" by force+
  have starts: "fst ` set acceptedToolCallStarts = {''```tool'' @ [newline], ''tool_name:''}"
    by (auto simp: acceptedToolCallStarts_def)
  have no: "newline \<notin> set ''```tool''" "newline \<notin> set ''tool_name:''" by code_simp+
  have "newline \<in> set a" unfolding a(2) by simp
  then have "a \<noteq> ''tool_name:''" using no(2) by metis
  then have eq: "''```tool'' @ [newline] = to_lower s @ newline # r" using a starts by auto
  have "to_lower s = ''```tool'' \<and> r = []"
  proof (cases r rule: rev_cases)
    case Nil
    then show ?thesis using eq append1_eq_conv [of "''```tool''" newline "to_lower s" newline] by argo
  next
    case (snoc r' c)
    then have "''```tool'' = to_lower s @ newline # r'" 
      using eq append1_eq_conv [of "''```tool''" newline "to_lower s @ newline # r'" c] by (metis append.assoc append_Cons)
    then have "newline \<in> set ''```tool''" unfolding in_set_conv_decomp by blast
    then show ?thesis using no(1) by contradiction
  qed
  then show ?thesis
    unfolding start_here_def nl by (simp add: acceptedToolCallStarts_def starts_with_def)
qed


text \<open>Prose passes: only what may still become a start is held back.\<close>

lemma prose_steps:
  "\<forall>c\<in>set cs. chunk_ok c \<Longrightarrow> q = [] \<or> start_of_start q \<Longrightarrow> \<not> has_start (q @ concat cs) \<Longrightarrow>
   \<exists>ts r. chunk_steps parse new_id cs \<lparr>sm_buffer = q, sm_parseState = None, sm_calls = n\<rparr> =
       Inr (map TextOut ts, \<lparr>sm_buffer = r, sm_parseState = None, sm_calls = n\<rparr>) \<and>
     concat ts @ r = q @ concat cs \<and> (r = [] \<or> start_of_start r) \<and> (cs \<noteq> [] \<and> last cs = [newline] \<longrightarrow> r = [])"
proof (induction cs arbitrary: q)
  case Nil
  then show ?case by (intro exI [of _ "[]"] exI [of _ q]) simp
next
  case (Cons c cs)
  have c: "c \<noteq> []" "c = [newline] \<or> newline \<notin> set c" and cs: "\<forall>c\<in>set cs. chunk_ok c"
    using Cons.prems(1) by (auto simp: chunk_ok_def)
  have no: "\<not> start_here (q @ c)"
    using Cons.prems(3) has_start_append(2) [of "q @ c" "concat cs"] has_start_front [of "q @ c"] c(1) by auto
  show ?case
  proof (cases "start_of_start (q @ c)")
    case True
    have step: "chunk_step parse new_id c \<lparr>sm_buffer = q, sm_parseState = None, sm_calls = n\<rparr> =
        Inr ([], \<lparr>sm_buffer = q @ c, sm_parseState = None, sm_calls = n\<rparr>)"
      using True detect_prose [OF no] by (simp add: chunk_step_def)
    obtain ts r where ih: "chunk_steps parse new_id cs \<lparr>sm_buffer = q @ c, sm_parseState = None, sm_calls = n\<rparr> =
        Inr (map TextOut ts, \<lparr>sm_buffer = r, sm_parseState = None, sm_calls = n\<rparr>)"
      "concat ts @ r = (q @ c) @ concat cs" "r = [] \<or> start_of_start r" "cs \<noteq> [] \<and> last cs = [newline] \<longrightarrow> r = []"
      using Cons.IH [OF cs, of "q @ c"] True Cons.prems(3) by auto
    have "c \<noteq> [newline]" using newline_ends_start [of q] True no by auto
    then show ?thesis using ih step by (intro exI [of _ ts] exI [of _ r]) auto
  next
    case False
    have step: "chunk_step parse new_id c \<lparr>sm_buffer = q, sm_parseState = None, sm_calls = n\<rparr> =
        Inr ([TextOut (q @ c)], \<lparr>sm_buffer = [], sm_parseState = None, sm_calls = n\<rparr>)"
      using False detect_prose [OF no] by (simp add: chunk_step_def)
    have rest: "\<not> has_start ([] @ concat cs)"
      using Cons.prems(3) has_start_append(1) [of "concat cs" "q @ c"] by auto
    obtain ts r where ih: "chunk_steps parse new_id cs \<lparr>sm_buffer = [], sm_parseState = None, sm_calls = n\<rparr> =
        Inr (map TextOut ts, \<lparr>sm_buffer = r, sm_parseState = None, sm_calls = n\<rparr>)"
      "concat ts @ r = concat cs" "r = [] \<or> start_of_start r" "cs \<noteq> [] \<and> last cs = [newline] \<longrightarrow> r = []"
      using Cons.IH [OF cs _ rest] by auto
    then show ?thesis using step by (intro exI [of _ "(q @ c) # ts"] exI [of _ r]) auto
  qed
qed

text \<open>The arguments that the deltas spell.\<close>

lemma args_of_append: "args_of (xs @ ys) = args_of xs @ args_of ys"
  by simp

lemma arg_deltas_text:
  assumes "\<forall>a\<in>set args. json_quote (fst a) = quoted (fst a)"
  shows "args_of (arg_deltas cid names args) =
    (if args = [] then []
     else (if names = [] then ''{'' else '','') @ join_with '','' (map (\<lambda>(k, v). json_quote k @ '':'' @ json_stringify v) args))"
  using assms
proof (induction args arbitrary: names)
  case (Cons a args)
  obtain k v where a: "a = (k, v)" by (cases a)
  have k: "json_quote k = quoted k" using Cons.prems by (simp add: a)
  have ih: "args_of (arg_deltas cid (List.insert k names) args) =
      (if args = [] then [] else '','' @ join_with '','' (map (\<lambda>(k, v). json_quote k @ '':'' @ json_stringify v) args))"
    using Cons.IH [of "List.insert k names"] Cons.prems insert_names(1) [of k names] by simp
  show ?case
    using ih k by (cases args) (simp_all add: a createDelta_def or_else_def)
qed simp

lemma call_deltas_text:
  assumes "\<forall>a\<in>set args. arg_ok parse a"
  shows "args_of (call_deltas cid name args) = (if args = [] then [] else json_stringify (JObj args))"
  using arg_deltas_text [of args cid "[]"] assms
  by (auto simp: call_deltas_def createDelta_def or_else_def arg_ok_def)

lemma arg_deltas_names: "e \<in> set (arg_deltas cid names args) \<Longrightarrow> td_id e = Some cid \<and> td_name e = Some []"
proof (induction args arbitrary: names)
  case (Cons a args)
  then show ?case by (cases a) (auto simp: createDelta_def)
qed simp


section \<open>An answer with a call\<close>

lemma answer_chunks:
  assumes "\<forall>c\<in>set cs. chunk_ok c" "concat cs = prose @ toolCallStateToSystemToolCall name args"
    and "\<not> has_start prose" "prose = [] \<or> last prose = newline"
    and "name_ok tool_name_tag name" "\<forall>a\<in>set args. arg_ok parse a"
  shows "\<exists>ts. chunk_steps parse new_id cs \<lparr>sm_buffer = [], sm_parseState = None, sm_calls = n\<rparr> =
      Inr (map TextOut ts @ map CallOut (call_deltas (new_id n) name args),
        \<lparr>sm_buffer = [], sm_parseState = None, sm_calls = n + 1\<rparr>) \<and> concat ts = prose"
proof -
  let ?st = "\<lparr>sm_buffer = [], sm_parseState = None, sm_calls = n\<rparr>"
  let ?call = "toolCallStateToSystemToolCall name args"
  obtain xs ys where split: "cs = xs @ ys" "concat xs = prose" "concat ys = ?call" "\<forall>c\<in>set xs. chunk_ok c"
    "\<forall>c\<in>set ys. chunk_ok c" "xs = [] \<or> last xs = [newline]"
  proof (cases prose rule: rev_cases)
    case Nil
    then show ?thesis using that [of "[]" cs] assms(1,2) by simp
  next
    case (snoc p d)
    then have "concat cs = p @ newline # ?call" using assms(2,4) by simp
    from chunks_break [OF assms(1) this] obtain us vs where "cs = us @ [newline] # vs" "concat us = p" "concat vs = ?call"
      "\<forall>c\<in>set us. chunk_ok c" "\<forall>c\<in>set vs. chunk_ok c" by blast
    then show ?thesis using that [of "us @ [[newline]]" vs] snoc assms(4) by (simp add: chunk_ok_def)
  qed
  obtain ts r where pr: "chunk_steps parse new_id xs ?st = Inr (map TextOut ts, \<lparr>sm_buffer = r, sm_parseState = None, sm_calls = n\<rparr>)"
    "concat ts @ r = prose" "xs \<noteq> [] \<and> last xs = [newline] \<longrightarrow> r = []"
    using prose_steps [OF split(4), of "[]" parse new_id n] split(2) assms(3) by auto
  have "r = []" using pr(2,3) split(2,6) by (cases "xs = []") auto
  then show ?thesis
    using pr call_chunks [OF split(5,3) assms(5,6), of new_id n] split(1) by (intro exI [of _ ts]) (simp add: chunk_steps_append)
qed

lemma call_merged:
  assumes "cid \<noteq> []" "\<forall>a\<in>set args. arg_ok parse a"
    and "parse (json_stringify (JObj args)) = Some (JObj args)"
    and "\<forall>p q. json_stringify (JObj args) = p @ q \<and> q \<noteq> [] \<longrightarrow> parse p = None"
  shows "\<exists>s. merge_deltas parse partial (call_deltas cid name args) = Some s \<and> ts_toolCallId s = cid \<and>
    ts_toolCall s = \<lparr>tc_id = cid, tc_name = name, tc_args = (if args = [] then [] else json_stringify (JObj args))\<rparr> \<and>
    ts_status s = Generating \<and> ts_parsedArgs s = JObj args"
proof -
  define rest where "rest = arg_deltas cid [] args @ (if args = [] then [] else [createDelta [] ''}'' cid])"
  have call: "call_deltas cid name args = createDelta name [] cid # rest" by (simp add: call_deltas_def rest_def)
  have rest: "td_id e = Some cid \<and> td_name e = Some []" if "e \<in> set rest" for e
    using that arg_deltas_names [of e cid "[]" args] by (auto simp: rest_def createDelta_def split: if_splits)
  have spelt: "args_of (createDelta name [] cid # rest) = (if args = [] then [] else json_stringify (JObj args))"
    using call_deltas_text [OF assms(2), of cid name] call by simp
  obtain s where s: "merge_deltas parse partial (createDelta name [] cid # rest) = Some s" "ts_toolCallId s = cid"
    "(\<forall>e\<in>set rest. or_else (td_name e) [] = []) \<longrightarrow> tc_name (ts_toolCall s) = or_else (td_name (createDelta name [] cid)) []"
    "tc_id (ts_toolCall s) = cid" "tc_args (ts_toolCall s) = args_of (createDelta name [] cid # rest)" "ts_status s = Generating"
    "ts_parsedArgs s = snd (incrementalParseJson parse partial
      (if args_of (createDelta name [] cid # rest) = [] then ''{}'' else args_of (createDelta name [] cid # rest)))"
  proof -
    have "parse p = None" if "args_of (createDelta name [] cid # rest) = p @ q" "q \<noteq> []" for p q
      using that assms(4) unfolding spelt by (cases "args = []") auto
    then show ?thesis
      using merge_deltas_args [of cid "createDelta name [] cid" rest parse partial] rest assms(1) that
      by (auto simp: createDelta_def one_call_def)
  qed
  have empty: "json_stringify (JObj []) = ''{}''" by simp
  have "ts_parsedArgs s = JObj args"
    using s(7) assms(3) empty stringify_ends [of "JObj args"] unfolding spelt by (cases "args = []") (simp_all add: incrementalParseJson_def del: json_stringify.simps)
  moreover have "tc_name (ts_toolCall s) = name" using s(3) rest by (simp add: createDelta_def or_else_def)
  ultimately show ?thesis using s spelt call by (intro exI [of _ s]) (cases "ts_toolCall s", simp)
qed



definition sample_args :: "(string \<times> json) list" where
  "sample_args = [(''path'', JStr ''a b''), (''line'', JNum 3)]"

definition sample_parse :: "string \<Rightarrow> json option" where
  "sample_parse s = map_of (map (\<lambda>v. (json_stringify v, v)) (JObj sample_args # map snd sample_args)) s"

definition text_in :: "string \<Rightarrow> in_message" where
  "text_in t =
     \<lparr>im_message = \<lparr>cd_role = AssistantRole, cd_content = Plain t, cd_toolCalls = None, cd_toolCallId = None,
        cd_signature = None, cd_redacted = None, cd_outputId = None, cd_details = None\<rparr>, im_aborted = False\<rparr>"

definition sample_batches :: "in_message list list" where
  "sample_batches =
     map (map text_in)
       [[''Let me'', '' look.'' @ [newline, CHR 0x60]], [''``tool'' @ [newline] @ ''TOOL_NAME: re''],
        [''ad'' @ [newline] @ ''BEGIN_ARG: path'' @ [newline] @ json_stringify (JStr ''a b'') @ [newline] @ ''END_ARG'' @ [newline],
         ''BEGIN_ARG: line'' @ [newline] @ ''3'' @ [newline] @ ''END_ARG'' @ [newline] @ fence]]"

lemma sample_facts:
  "list_all (list_all text_message) sample_batches"
  "answer_text sample_batches = (''Let me look.'' @ [newline]) @ toolCallStateToSystemToolCall ''read'' sample_args"
  "\<not> has_start (''Let me look.'' @ [newline])" "last (''Let me look.'' @ [newline]) = newline"
  "name_ok tool_name_tag ''read''" "list_all (arg_ok sample_parse) sample_args"
  "sample_parse (json_stringify (JObj sample_args)) = Some (JObj sample_args)"
  "list_all (\<lambda>n. sample_parse (take n (json_stringify (JObj sample_args))) = None) [0..<length (json_stringify (JObj sample_args))]"
  by code_simp+

lemma proper_prefixes:
  "list_all (\<lambda>n. f (take n s) = None) [0..<length s] \<Longrightarrow> \<forall>p q. s = p @ q \<and> q \<noteq> [] \<longrightarrow> f p = None"
proof (intro allI impI)
  fix p q assume l: "list_all (\<lambda>n. f (take n s) = None) [0..<length s]" and s: "s = p @ q \<and> q \<noteq> []"
  then have "length p \<in> set [0..<length s]" "take (length p) s = p" by simp_all
  then show "f p = None" using l unfolding list_all_iff by metis
qed


section \<open>What is lost\<close>

text \<open>Prose goes through; what is held back at the end of the stream is not yielded.\<close>

lemma prose_through:
  assumes "\<forall>b\<in>set bs. \<forall>m\<in>set b. text_message m" "\<not> has_start (answer_text bs)"
  shows "\<exists>ys r. interceptSystemToolCalls parse new_id bs = Inr ys \<and> (\<forall>y\<in>set ys. message_deltas y = []) \<and>
    concat (map message_text ys) @ r = answer_text bs \<and> (r = [] \<or> start_of_start r)"
proof -
  let ?cs = "concat (map (\<lambda>m. message_chunks (im_message m)) (concat bs))"
  have ok: "\<forall>c\<in>set ?cs. chunk_ok c" using answer_text_chunks(2) by blast
  obtain ts r where ts: "chunk_steps parse new_id ?cs \<lparr>sm_buffer = [], sm_parseState = None, sm_calls = 0\<rparr> =
      Inr (map TextOut ts, \<lparr>sm_buffer = r, sm_parseState = None, sm_calls = 0\<rparr>)" "concat ts @ r = concat ?cs"
      "r = [] \<or> start_of_start r"
    using prose_steps [OF ok, of "[]" parse new_id 0] assms(2) answer_text_chunks(1) by auto
  obtain ys where ys: "interceptSystemToolCalls parse new_id bs = Inr ys" "in_copies ys (map TextOut ts)"
    using intercept_text [OF assms(1) ts(1)] by (auto simp: interceptSystemToolCalls_def)
  then show ?thesis using ts(2,3) in_copies_texts [OF ys(2)] answer_text_chunks(1) [of bs]
    by (intro exI [of _ ys] exI [of _ r]) simp
qed

text \<open>An answer that ends with a code block loses the fence that closes it.\<close>

definition said :: "string list \<Rightarrow> (string \<times> tool_call_delta list) list" where
  "said ts =
     (case interceptSystemToolCalls (\<lambda>_. None) (\<lambda>_. ''call_1'') (map (\<lambda>t. [text_in t]) ts) of
        Inl e \<Rightarrow> [] | Inr ms \<Rightarrow> map (\<lambda>m. (message_text m, message_deltas m)) ms)"

lemma closing_fence_lost:
  "said [''```py'' @ [newline] @ ''x'' @ [newline] @ fence] =
   [(''```py'', []), ([newline], []), (''x'', []), ([newline], [])]"
  by code_simp

text \<open>So does an answer whose last token could begin the line of a name.\<close>

lemma last_token_lost:
  "said [''I can do i'', ''t''] = [(''I can do i'', [])]"
  by code_simp

text \<open>A line of a value that contains \<open>end_arg\<close> or \<open>endarg\<close> within a word ends the value, and what follows ends the call.\<close>

lemma value_cut_short:
  "said [''```tool'' @ [newline] @ ''TOOL_NAME: t'' @ [newline] @ ''BEGIN_ARG: a'' @ [newline] @ ''x'' @ [newline] @
        ''appendArg(y)'' @ [newline] @ ''z'' @ [newline] @ ''END_ARG'' @ [newline] @ fence] =
   [([], [createDelta ''t'' [] ''call_1'']), ([], [createDelta [] (''{'' @ quoted ''a'' @ '':'') ''call_1'']),
    ([], [createDelta [] (quoted ''x'') ''call_1'']), ([], [createDelta [] ''}'' ''call_1'']), (''END_ARG'', []), ([newline], [])]"
  by code_simp

text \<open>Of two line breaks in a row within a string only the first is escaped, so the text stays no JSON.\<close>

lemma blank_line_not_escaped:
  "escape_string_breaks ([CHR ''[''] @ quoted (''a'' @ [newline, newline] @ ''b'') @ '']'') =
   [CHR ''[''] @ quoted (''a'' @ [char_of (92 :: nat), CHR ''n'', newline] @ ''b'') @ '']''"
  by code_simp

end
