(* ===== verification/Chat_Session.thy ===== *)
theory Chat_Session
  imports Tool_Calls "HOL-Library.AList"
begin

text \<open>
  The session of the chat: the reducers of \<open>gui/src/redux/slices/sessionSlice.ts\<close> and the lookups
  of \<open>gui/src/redux/util/index.ts\<close>. A reducer is a function on the session; \<open>new_id n\<close> is the
  id that is made up for the item at place \<open>n\<close> of the history and \<open>now\<close> the time. An abort controller is
  a number; those below that of the session are aborted, since a session replaces its controller
  exactly when it aborts it.
\<close>

section \<open>State\<close>

record reasoning =
  rs_text :: string
  rs_active :: bool
  rs_startAt :: int
  rs_endAt :: "int option"

text \<open>
  An item of the history. The metadata of a message is the list of its output item ids; the single id kept
  beside it is the last of them.
\<close>

record chat_item =
  it_id :: string
  it_message :: chat_message
  it_outputIds :: "string list"
  it_details :: "json list option"
  it_contextItems :: "context_item list"
  it_editorState :: "json option"
  it_promptLogs :: "json list option"
  it_states :: "tool_call_state list option"
  it_gathering :: bool
  it_reasoning :: "reasoning option"
  it_appliedRules :: "json list option"
  it_summary :: "string option"

record session_metadata =
  sd_sessionId :: string
  sd_title :: string
  sd_dateCreated :: string
  sd_workspaceDirectory :: string
  sd_messageCount :: "int option"

record apply_state =
  ap_streamId :: string
  ap_status :: "string option"
  ap_numDiffs :: "int option"
  ap_filepath :: "string option"
  ap_fileContent :: "string option"
  ap_originalFileContent :: "string option"
  ap_toolCallId :: "string option"

record session_goal =
  go_text :: string
  go_nudgeCount :: nat
  go_completed :: bool

record session =
  ss_lastSessionId :: "string option"
  ss_metadataLoading :: bool
  ss_allMetadata :: "session_metadata list"
  ss_history :: "chat_item list"
  ss_isStreaming :: bool
  ss_title :: string
  ss_id :: string
  ss_aborter :: nat
  ss_editorTrigger :: "json option"
  ss_symbols :: "(string \<times> json) list"
  ss_isInEdit :: bool
  ss_applyStates :: "apply_state list"
  ss_applyIndex :: int
  ss_toolbarPreview :: "(string \<times> string) list"
  ss_reasoningEnabled :: "bool option"
  ss_manualSystemMessage :: bool
  ss_isPruned :: bool
  ss_contextPercentage :: "int option"
  ss_inlineError :: "string option"
  ss_compactionLoading :: "nat list"
  ss_goal :: "session_goal option"

definition NEW_SESSION_TITLE :: string where
  "NEW_SESSION_TITLE = ''New Session''"

definition INITIAL_SESSION_STATE :: "string \<Rightarrow> session" where
  "INITIAL_SESSION_STATE uuid =
     \<lparr>ss_lastSessionId = None, ss_metadataLoading = False, ss_allMetadata = [], ss_history = [],
      ss_isStreaming = False, ss_title = NEW_SESSION_TITLE, ss_id = uuid, ss_aborter = 0,
      ss_editorTrigger = None, ss_symbols = [], ss_isInEdit = False, ss_applyStates = [], ss_applyIndex = 0,
      ss_toolbarPreview = [], ss_reasoningEnabled = None, ss_manualSystemMessage = False, ss_isPruned = False,
      ss_contextPercentage = None, ss_inlineError = None, ss_compactionLoading = [], ss_goal = None\<rparr>"

text \<open>The messages that the reducers make.\<close>

definition plain_message :: "message_role \<Rightarrow> string \<Rightarrow> chat_message" where
  "plain_message role s =
     \<lparr>cm_role = role, cm_content = Plain s, cm_toolCalls = None, cm_toolCallId = None,
      cm_signature = None, cm_redacted = None\<rparr>"

definition new_item :: "string \<Rightarrow> chat_message \<Rightarrow> chat_item" where
  "new_item i m =
     \<lparr>it_id = i, it_message = m, it_outputIds = [], it_details = None, it_contextItems = [],
      it_editorState = None, it_promptLogs = None, it_states = None, it_gathering = False,
      it_reasoning = None, it_appliedRules = None, it_summary = None\<rparr>"

definition item_role :: "chat_item \<Rightarrow> message_role" where
  "item_role it = cm_role (it_message it)"

definition update_last :: "('a \<Rightarrow> 'a) \<Rightarrow> 'a list \<Rightarrow> 'a list" where
  "update_last f xs = (if xs = [] then [] else butlast xs @ [f (last xs)])"

text \<open>A tool call, and a delta of one, as the value that a message carries.\<close>

definition call_json :: "tool_call \<Rightarrow> json" where
  "call_json c =
     JObj [(''id'', JStr (tc_id c)), (''type'', JStr ''function''),
       (''function'', JObj [(''name'', JStr (tc_name c)), (''arguments'', JStr (tc_args c))])]"

definition delta_json :: "tool_call_delta \<Rightarrow> json" where
  "delta_json d =
     (let field = (\<lambda>k v. case v of None \<Rightarrow> [] | Some s \<Rightarrow> [(k, JStr s)])
      in JObj (field ''id'' (td_id d) @
           [(''type'', JStr ''function''), (''function'', JObj (field ''name'' (td_name d) @ field ''arguments'' (td_args d)))]))"

section \<open>Looking up tool calls\<close>

text \<open>The loop of \<open>findAllCurToolCalls\<close> over the reversed history; \<open>seen\<close> is \<open>seenAssistantMessage\<close>.\<close>

fun current_calls :: "bool \<Rightarrow> chat_item list \<Rightarrow> tool_call_state list" where
  "current_calls seen [] = []"
| "current_calls seen (it # its) =
     (if item_role it = UserRole then []
      else if item_role it = AssistantRole \<or> item_role it = ThinkingRole
      then (if or_else (it_states it) [] \<noteq> [] then or_else (it_states it) [] else current_calls True its)
      else if seen then [] else current_calls seen its)"

definition findAllCurToolCalls :: "chat_item list \<Rightarrow> tool_call_state list" where
  "findAllCurToolCalls h = current_calls False (rev h)"

definition hasCurrentToolCalls :: "chat_item list \<Rightarrow> bool" where
  "hasCurrentToolCalls h \<longleftrightarrow> 0 < length (findAllCurToolCalls h)"

definition findAllCurToolCallsByStatus :: "chat_item list \<Rightarrow> tool_status \<Rightarrow> tool_call_state list" where
  "findAllCurToolCallsByStatus h status = filter (\<lambda>c. ts_status c = status) (findAllCurToolCalls h)"

fun find_call :: "string \<Rightarrow> chat_item list \<Rightarrow> tool_call_state option" where
  "find_call i [] = None"
| "find_call i (it # its) =
     (case List.find (\<lambda>c. ts_toolCallId c = i) (or_else (it_states it) []) of
        Some c \<Rightarrow> Some c | None \<Rightarrow> find_call i its)"

definition findToolCallById :: "chat_item list \<Rightarrow> string \<Rightarrow> tool_call_state option" where
  "findToolCallById h i = find_call i (rev h)"

text \<open>The same call is written where it was found.\<close>

fun update_first :: "('a \<Rightarrow> bool) \<Rightarrow> ('a \<Rightarrow> 'a) \<Rightarrow> 'a list \<Rightarrow> 'a list" where
  "update_first P f [] = []"
| "update_first P f (x # xs) = (if P x then f x # xs else x # update_first P f xs)"

definition has_call :: "string \<Rightarrow> chat_item \<Rightarrow> bool" where
  "has_call i it \<longleftrightarrow> list_ex (\<lambda>c. ts_toolCallId c = i) (or_else (it_states it) [])"

definition update_call :: "string \<Rightarrow> (tool_call_state \<Rightarrow> tool_call_state) \<Rightarrow> chat_item list \<Rightarrow> chat_item list" where
  "update_call i f h =
     rev (update_first (has_call i)
       (\<lambda>it. it\<lparr>it_states := map_option (update_first (\<lambda>c. ts_toolCallId c = i) f) (it_states it)\<rparr>) (rev h))"

definition is_output_of :: "string \<Rightarrow> chat_item \<Rightarrow> bool" where
  "is_output_of i it \<longleftrightarrow> item_role it = ToolRole \<and> cm_toolCallId (it_message it) = Some i"

definition findChatHistoryItemByToolCallId :: "chat_item list \<Rightarrow> string \<Rightarrow> chat_item option" where
  "findChatHistoryItemByToolCallId h i = List.find (is_output_of i) (rev h)"

section \<open>Tool calls of a message\<close>

fun filter_edit_calls :: "bool \<Rightarrow> tool_call_delta list \<Rightarrow> tool_call_delta list" where
  "filter_edit_calls seen [] = []"
| "filter_edit_calls seen (d # ds) =
     (if isEditTool (or_else (td_name d) [])
      then (if seen then filter_edit_calls True ds else d # filter_edit_calls True ds)
      else d # filter_edit_calls seen ds)"

definition filterMultipleEditToolCalls :: "tool_call_delta list \<Rightarrow> tool_call_delta list" where
  "filterMultipleEditToolCalls ds = filter_edit_calls False ds"

text \<open>The states of a message, and the calls that it carries with them.\<close>

definition set_states :: "tool_call_state list \<Rightarrow> chat_item \<Rightarrow> chat_item" where
  "set_states ss it =
     it\<lparr>it_states := Some ss,
        it_message := (it_message it)\<lparr>cm_toolCalls := Some (map (\<lambda>s. call_json (ts_toolCall s)) ss)\<rparr>\<rparr>"

definition handleToolCallsInMessage ::
  "(string \<Rightarrow> json option) \<Rightarrow> (string \<Rightarrow> json option) \<Rightarrow> chat_delta \<Rightarrow> chat_item \<Rightarrow> chat_item" where
  "handleToolCallsInMessage parse partial m lastItem =
     (if (cd_role m = AssistantRole \<or> cd_role m = ThinkingRole) \<and> or_else (cd_toolCalls m) [] \<noteq> []
      then set_states (map (\<lambda>d. addToolCallDeltaToState parse partial d None)
             (filterMultipleEditToolCalls (or_else (cd_toolCalls m) []))) lastItem
      else lastItem)"

definition applyToolCallDelta ::
  "(string \<Rightarrow> json option) \<Rightarrow> (string \<Rightarrow> json option) \<Rightarrow> tool_call_delta \<Rightarrow> tool_call_state list \<Rightarrow> tool_call_state list"
  where
  "applyToolCallDelta parse partial d ss =
     (if is_given (td_id d)
      then (if \<exists>s\<in>set ss. Some (ts_toolCallId s) = td_id d
            then update_first (\<lambda>s. Some (ts_toolCallId s) = td_id d)
                   (\<lambda>s. addToolCallDeltaToState parse partial d (Some s)) ss
            else ss @ [addToolCallDeltaToState parse partial d None])
      else if ss = [] then [addToolCallDeltaToState parse partial d None]
      else update_last (\<lambda>s. addToolCallDeltaToState parse partial d (Some s)) ss)"

definition handleStreamingToolCallUpdates ::
  "(string \<Rightarrow> json option) \<Rightarrow> (string \<Rightarrow> json option) \<Rightarrow> chat_delta \<Rightarrow> chat_item \<Rightarrow> chat_item" where
  "handleStreamingToolCallUpdates parse partial m lastItem =
     (if cd_role m = AssistantRole \<and> or_else (cd_toolCalls m) [] \<noteq> [] \<and> item_role lastItem = AssistantRole
      then set_states (fold (applyToolCallDelta parse partial) (filterMultipleEditToolCalls (or_else (cd_toolCalls m) []))
             (or_else (it_states lastItem) [])) lastItem
      else lastItem)"

section \<open>Streamed messages\<close>

definition think_open :: string where
  "think_open = ''<think>''"

definition think_close :: string where
  "think_close = ''</think>''"

text \<open>The text in front of the first, and behind it; the same for the last.\<close>

definition split_first :: "string \<Rightarrow> string \<Rightarrow> (string \<times> string) option" where
  "split_first p s = map_option (\<lambda>i. (take i s, drop (i + length p) s)) (index_of s p)"

definition split_last :: "string \<Rightarrow> string \<Rightarrow> (string \<times> string) option" where
  "split_last p s = map_option (\<lambda>(a, b). (rev b, rev a)) (split_first (rev p) (rev s))"

text \<open>\<open>/<think>([\s\S]*)<\/think>([\s\S]*)/\<close>: the first opening tag and the last closing one.\<close>

definition think_match :: "string \<Rightarrow> (string \<times> string) option" where
  "think_match s = (case split_first think_open s of None \<Rightarrow> None | Some (_, r) \<Rightarrow> split_last think_close r)"

text \<open>\<open>content += s\<close>; an array becomes a string first.\<close>

fun append_content :: "message_content \<Rightarrow> string \<Rightarrow> message_content" where
  "append_content (Plain a) s = Plain (a @ s)"
| "append_content (Parts ps) s = Plain (join_with '','' (map (\<lambda>_. ''[object Object]'') ps) @ s)"

fun content_length :: "message_content \<Rightarrow> nat" where
  "content_length (Plain a) = length a"
| "content_length (Parts ps) = length ps"

text \<open>
  \<open>mergeReasoningDetails\<close> of \<open>core/llm/openaiTypeConverters.ts\<close>; the concatenated fields are strings or numbers.
\<close>

definition js_add :: "json \<Rightarrow> json \<Rightarrow> json" where
  "js_add a b =
     (case (a, b) of (JNum x, JNum y) \<Rightarrow> JNum (x + y) | _ \<Rightarrow> JStr (js_to_string a @ js_to_string b))"

definition merge_field :: "string \<times> json \<Rightarrow> (string \<times> json) list \<Rightarrow> (string \<times> json) list" where
  "merge_field kv fs =
     (let (k, v) = kv in
      if v = JNull then fs
      else if k \<in> {''text'', ''signature'', ''summary''}
      then AList.update k (js_add (case map_of fs k of Some w \<Rightarrow> if truthy w then w else JStr [] | None \<Rightarrow> JStr []) v) fs
      else if k \<noteq> ''type'' then AList.update k v fs else fs)"

fun object_fields :: "json \<Rightarrow> (string \<times> json) list" where
  "object_fields (JObj fs) = fs"
| "object_fields _ = []"

definition merge_detail :: "json \<Rightarrow> json list \<Rightarrow> json list" where
  "merge_detail d result =
     (case js_prop ''type'' d of
        None \<Rightarrow> result
      | Some t \<Rightarrow>
          if \<not> truthy t then result
          else if \<exists>x\<in>set result. js_prop ''type'' x = Some t
          then update_first (\<lambda>x. js_prop ''type'' x = Some t)
                 (\<lambda>x. JObj (fold merge_field (object_fields d) (object_fields x))) result
          else result @ [d])"

definition mergeReasoningDetails :: "json list option \<Rightarrow> json list option \<Rightarrow> json list option" where
  "mergeReasoningDetails existing delta =
     (case (existing, delta) of
        (_, None) \<Rightarrow> existing
      | (None, Some d) \<Rightarrow> Some d
      | (Some e, Some d) \<Rightarrow> Some (fold merge_detail d e))"

text \<open>Text that is added to the last item.\<close>

definition add_text :: "int \<Rightarrow> message_role \<Rightarrow> string \<Rightarrow> chat_item \<Rightarrow> chat_item" where
  "add_text now role body it =
     (let active = (case it_reasoning it of Some r \<Rightarrow> rs_active r | None \<Rightarrow> False);
          say = (\<lambda>s it. it\<lparr>it_message := (it_message it)\<lparr>cm_content := append_content (cm_content (it_message it)) s\<rparr>\<rparr>)
      in if js_includes body think_open \<and> role \<noteq> ToolRole
         then it\<lparr>it_reasoning := Some \<lparr>rs_text = trim (case split_first think_open body of None \<Rightarrow> body | Some (a, b) \<Rightarrow> a @ b),
                  rs_active = True, rs_startAt = now, rs_endAt = None\<rparr>\<rparr>
         else if active \<and> js_includes body think_close
         then (case split_first think_close body of
                 None \<Rightarrow> it
               | Some (a, b) \<Rightarrow>
                   say (trim_start (case split_first think_close b of None \<Rightarrow> b | Some (c, _) \<Rightarrow> c))
                     (it\<lparr>it_reasoning := map_option (\<lambda>r. r\<lparr>rs_text := rs_text r @ trim_end a, rs_active := False,
                           rs_endAt := Some now\<rparr>) (it_reasoning it)\<rparr>))
         else if active
         then it\<lparr>it_reasoning := map_option (\<lambda>r. if 0 < length (rs_text r) \<or> 0 < length (trim body)
                    then r\<lparr>rs_text := rs_text r @ body\<rparr> else r) (it_reasoning it)\<rparr>
         else if 0 < content_length (cm_content (it_message it)) \<or> 0 < length (trim body)
         then say body it else it)"

text \<open>A streamed message on the last item, once it has the right role.\<close>

definition extend_item ::
  "(string \<Rightarrow> json option) \<Rightarrow> (string \<Rightarrow> json option) \<Rightarrow> int \<Rightarrow> chat_delta \<Rightarrow> string \<Rightarrow> chat_item \<Rightarrow> chat_item" where
  "extend_item parse partial now m body it =
     (let it1 =
            (if body \<noteq> [] then add_text now (cd_role m) body it
             else if cd_role m = ThinkingRole \<and> is_given (cd_signature m)
             then (if item_role it = ThinkingRole
                   then it\<lparr>it_message := (it_message it)\<lparr>cm_signature := cd_signature m\<rparr>\<rparr> else it)
             else if cd_role m = AssistantRole \<and> or_else (cd_toolCalls m) [] \<noteq> [] \<and> item_role it = AssistantRole
             then handleStreamingToolCallUpdates parse partial m it
             else it);
          it2 =
            (if cd_role m = AssistantRole \<and> item_role it1 = AssistantRole \<and> is_given (cd_outputId m)
             then it1\<lparr>it_outputIds := it_outputIds it1 @ [the (cd_outputId m)]\<rparr> else it1)
      in if cd_role m = ThinkingRole \<and> cd_details m \<noteq> None \<and> item_role it2 = ThinkingRole
         then it2\<lparr>it_details := mergeReasoningDetails (it_details it2) (cd_details m)\<rparr> else it2)"

text \<open>The copy of a streamed message that starts a new item.\<close>

definition copied_message :: "chat_delta \<Rightarrow> chat_message" where
  "copied_message m =
     \<lparr>cm_role = cd_role m, cm_content = Plain [], cm_toolCalls = map_option (map delta_json) (cd_toolCalls m),
      cm_toolCallId = cd_toolCallId m, cm_signature = cd_signature m, cm_redacted = cd_redacted m\<rparr>"

definition copied_item :: "string \<Rightarrow> chat_delta \<Rightarrow> chat_item" where
  "copied_item i m =
     (new_item i (copied_message m))\<lparr>it_details := cd_details m\<rparr>"

text \<open>One message; the second component is whether the rest of the action is dropped.\<close>

definition stream_message ::
  "(string \<Rightarrow> json option) \<Rightarrow> (string \<Rightarrow> json option) \<Rightarrow> (nat \<Rightarrow> string) \<Rightarrow> int \<Rightarrow> chat_delta \<Rightarrow> chat_item list
     \<Rightarrow> chat_item list \<times> bool" where
  "stream_message parse partial new_id now m h =
     (if cd_role m = ThinkingRole \<and> is_given (cd_redacted m)
      then (h @ [new_item (new_id (length h))
              ((plain_message ThinkingRole ''internal reasoning is hidden due to safety reasons'')\<lparr>cm_redacted := cd_redacted m\<rparr>)], False)
      else
        (let body = stripImages (cd_content m)
         in case (if body \<noteq> [] \<and> cd_role m \<noteq> ToolRole then think_match body else None) of
              Some (thought, answer) \<Rightarrow>
                (update_last (\<lambda>it. it\<lparr>it_reasoning := Some \<lparr>rs_text = trim thought, rs_active = False,
                     rs_startAt = now, rs_endAt = Some now\<rparr>\<rparr>) h @
                 [handleToolCallsInMessage parse partial m
                    (new_item (new_id (length h)) (plain_message AssistantRole (trim answer)))], True)
            | None \<Rightarrow>
                (let h1 = (if item_role (last h) \<noteq> cd_role m \<or> cd_role m = ToolRole
                           then h @ [copied_item (new_id (length h)) m] else h)
                 in (update_last (extend_item parse partial now m body) h1, False))))"

fun stream_messages ::
  "(string \<Rightarrow> json option) \<Rightarrow> (string \<Rightarrow> json option) \<Rightarrow> (nat \<Rightarrow> string) \<Rightarrow> int \<Rightarrow> chat_delta list \<Rightarrow> chat_item list
     \<Rightarrow> chat_item list" where
  "stream_messages parse partial new_id now [] h = h"
| "stream_messages parse partial new_id now (m # ms) h =
     (let (h1, stop) = stream_message parse partial new_id now m h
      in if stop then h1 else stream_messages parse partial new_id now ms h1)"

definition streamUpdate ::
  "(string \<Rightarrow> json option) \<Rightarrow> (string \<Rightarrow> json option) \<Rightarrow> (nat \<Rightarrow> string) \<Rightarrow> int \<Rightarrow> chat_delta list \<Rightarrow> session \<Rightarrow> session"
  where
  "streamUpdate parse partial new_id now payload s =
     (if ss_history s = [] then s
      else s\<lparr>ss_history := stream_messages parse partial new_id now payload (ss_history s)\<rparr>)"

section \<open>Reducers of the history\<close>

definition addPromptCompletionPair :: "int \<Rightarrow> json list \<Rightarrow> session \<Rightarrow> session" where
  "addPromptCompletionPair now logs s =
     s\<lparr>ss_history := update_last (\<lambda>it. it\<lparr>it_promptLogs := Some (or_else (it_promptLogs it) [] @ logs),
          it_reasoning := map_option (\<lambda>r. if rs_active r then r\<lparr>rs_active := False, rs_endAt := Some now\<rparr> else r)
            (it_reasoning it)\<rparr>) (ss_history s)\<rparr>"

definition setActive :: "session \<Rightarrow> session" where
  "setActive s = s\<lparr>ss_isStreaming := True\<rparr>"

definition setIsGatheringContext :: "bool \<Rightarrow> session \<Rightarrow> session" where
  "setIsGatheringContext b s = s\<lparr>ss_history := update_last (\<lambda>it. it\<lparr>it_gathering := b\<rparr>) (ss_history s)\<rparr>"

definition setInactive :: "session \<Rightarrow> session" where
  "setInactive s = (setIsGatheringContext False s)\<lparr>ss_isStreaming := False\<rparr>"

definition abortStream :: "session \<Rightarrow> session" where
  "abortStream s = s\<lparr>ss_aborter := ss_aborter s + 1\<rparr>"

definition aborted :: "nat \<Rightarrow> session \<Rightarrow> bool" where
  "aborted controller s \<longleftrightarrow> controller < ss_aborter s"

text \<open>
  \<open>clearDanglingMessages\<close>. The history is looked at from its end down to the last user or tool message
  (\<open>answer_part\<close>, which comes with the length of what is in front of it).
\<close>

definition asked :: "chat_item \<Rightarrow> bool" where
  "asked it \<longleftrightarrow> item_role it = ToolRole \<or> item_role it = UserRole"

definition answer_part :: "chat_item list \<Rightarrow> nat \<times> chat_item list" where
  "answer_part h = (let r = takeWhile (\<lambda>it. \<not> asked it) (rev h) in (length h - length r, rev r))"

definition content_truthy :: "message_content \<Rightarrow> bool" where
  "content_truthy c \<longleftrightarrow> c \<noteq> Plain []"

definition valid_answer :: "chat_item \<Rightarrow> bool" where
  "valid_answer it \<longleftrightarrow> content_truthy (cm_content (it_message it)) \<or>
     list_ex (\<lambda>c. ts_status c \<noteq> Generating) (or_else (it_states it) [])"

definition cancel_pending :: "tool_call_state \<Rightarrow> tool_call_state" where
  "cancel_pending c =
     (if ts_status c = Generated \<or> ts_status c = Generating then c\<lparr>ts_status := Canceled\<rparr> else c)"

definition cancel_dangling :: "chat_item \<Rightarrow> chat_item" where
  "cancel_dangling it = it\<lparr>it_states := map_option (map cancel_pending) (it_states it)\<rparr>"

text \<open>\<open>None\<close> where the code throws: no answer is valid and there is no user or tool message.\<close>

definition clearDanglingMessages :: "session \<Rightarrow> session option" where
  "clearDanglingMessages s =
     (let h = ss_history s; (n, answers) = answer_part h; kept = rev (dropWhile (\<lambda>it. \<not> valid_answer it) (rev answers))
      in if length h < 2 then Some s
         else if kept \<noteq> [] then Some (s\<lparr>ss_history := take n h @ update_last cancel_dangling kept\<rparr>)
         else if n = 0 then None
         else if item_role (h ! (n - 1)) = UserRole
         then Some (s\<lparr>ss_editorTrigger := it_editorState (h ! (n - 1)), ss_history := take (n - 1) h\<rparr>)
         else Some (s\<lparr>ss_history := take n h\<rparr>))"

definition setMainEditorContentTrigger :: "json option \<Rightarrow> session \<Rightarrow> session" where
  "setMainEditorContentTrigger x s = s\<lparr>ss_editorTrigger := x\<rparr>"

definition updateFileSymbols :: "(string \<times> json) list \<Rightarrow> session \<Rightarrow> session" where
  "updateFileSymbols xs s = s\<lparr>ss_symbols := fold (\<lambda>(k, v). AList.update k v) xs (ss_symbols s)\<rparr>"

definition update_at :: "nat \<Rightarrow> ('a \<Rightarrow> 'a) \<Rightarrow> 'a list \<Rightarrow> 'a list" where
  "update_at i f xs = (if i < length xs then xs[i := f (xs ! i)] else xs)"

definition setContextItemsAtIndex :: "nat \<Rightarrow> context_item list \<Rightarrow> session \<Rightarrow> session" where
  "setContextItemsAtIndex i items s =
     s\<lparr>ss_history := update_at i (\<lambda>it. it\<lparr>it_contextItems := items\<rparr>) (ss_history s)\<rparr>"

definition addContextItemsAtIndex :: "nat \<Rightarrow> context_item list \<Rightarrow> session \<Rightarrow> session" where
  "addContextItemsAtIndex i items s =
     s\<lparr>ss_history := update_at i (\<lambda>it. it\<lparr>it_contextItems := it_contextItems it @ items\<rparr>) (ss_history s)\<rparr>"

text \<open>The index may be -1.\<close>

definition setAppliedRulesAtIndex :: "int \<Rightarrow> json list \<Rightarrow> session \<Rightarrow> session" where
  "setAppliedRulesAtIndex i rules s =
     (if i < 0 then s
      else s\<lparr>ss_history := update_at (nat i) (\<lambda>it. it\<lparr>it_appliedRules := Some rules\<rparr>) (ss_history s)\<rparr>)"

definition submitEditorAndInitAtIndex :: "(nat \<Rightarrow> string) \<Rightarrow> nat \<Rightarrow> json \<Rightarrow> session \<Rightarrow> session" where
  "submitEditorAndInitAtIndex new_id index editorState s =
     (let h = ss_history s in
      s\<lparr>ss_history :=
          (if h \<noteq> [] \<and> index < length h
           then take (index + 1)
                  (h[index := (h ! index)\<lparr>it_message := (it_message (h ! index))\<lparr>cm_content := Plain []\<rparr>,
                                it_editorState := Some editorState, it_contextItems := []\<rparr>]) @
                [new_item (new_id (index + 1)) (plain_message AssistantRole [])]
           else h @ [(new_item (new_id (length h)) (plain_message UserRole []))\<lparr>it_editorState := Some editorState\<rparr>,
                     new_item (new_id (length h + 1)) (plain_message AssistantRole [])]),
        ss_isStreaming := True\<rparr>)"

definition truncateHistoryToMessage :: "(nat \<Rightarrow> string) \<Rightarrow> nat \<Rightarrow> session \<Rightarrow> session" where
  "truncateHistoryToMessage new_id index s =
     (let h = ss_history s in
      if h \<noteq> [] \<and> index < length h
      then s\<lparr>ss_applyIndex := 0,
             ss_history := take (index + 1) h @ [new_item (new_id (index + 1)) (plain_message AssistantRole [])],
             ss_inlineError := None, ss_isPruned := False, ss_contextPercentage := None\<rparr>
      else s)"

text \<open>\<open>splice(index - 1, 2)\<close>, where a negative start counts from the end.\<close>

definition deleteMessage :: "nat \<Rightarrow> session \<Rightarrow> session" where
  "deleteMessage index s =
     (let h = ss_history s; start = (if index = 0 then length h - 1 else index - 1) in
      s\<lparr>ss_history := take start h @ drop (start + 2) h,
        ss_inlineError := None, ss_isPruned := False, ss_contextPercentage := None\<rparr>)"

definition deleteCompaction :: "nat \<Rightarrow> session \<Rightarrow> session" where
  "deleteCompaction i s =
     s\<lparr>ss_history := update_at i (\<lambda>it. if is_given (it_summary it) then it\<lparr>it_summary := None\<rparr> else it) (ss_history s)\<rparr>"

text \<open>The updates of an item are a function; the item at place 0 is made if there is none.\<close>

definition updateHistoryItemAtIndex :: "chat_item \<Rightarrow> nat \<Rightarrow> (chat_item \<Rightarrow> chat_item) \<Rightarrow> session \<Rightarrow> session" where
  "updateHistoryItemAtIndex absent index updates s =
     (let h = ss_history s in
      if index \<noteq> 0 \<and> length h \<le> index then s
      else s\<lparr>ss_history := (if index < length h then h[index := updates (h ! index)] else [updates absent])\<rparr>)"

section \<open>Sessions\<close>

definition newSession :: "string \<Rightarrow> (chat_item list \<times> string \<times> string) option \<Rightarrow> session \<Rightarrow> session" where
  "newSession uuid payload s =
     (let t = s\<lparr>ss_lastSessionId := Some (ss_id s), ss_aborter := ss_aborter s + 1, ss_isStreaming := False,
                ss_manualSystemMessage := False, ss_symbols := [], ss_inlineError := None, ss_isPruned := False,
                ss_contextPercentage := None, ss_goal := None\<rparr>
      in case payload of
           Some (history, title, i) \<Rightarrow> t\<lparr>ss_history := history, ss_title := title, ss_id := i\<rparr>
         | None \<Rightarrow> t\<lparr>ss_history := [], ss_title := NEW_SESSION_TITLE, ss_id := uuid\<rparr>)"

definition updateSessionTitle :: "string \<Rightarrow> session \<Rightarrow> session" where
  "updateSessionTitle title s = s\<lparr>ss_title := title\<rparr>"

definition setIsSessionMetadataLoading :: "bool \<Rightarrow> session \<Rightarrow> session" where
  "setIsSessionMetadataLoading b s = s\<lparr>ss_metadataLoading := b\<rparr>"

definition setAllSessionMetadata :: "session_metadata list \<Rightarrow> session \<Rightarrow> session" where
  "setAllSessionMetadata ms s = s\<lparr>ss_allMetadata := ms\<rparr>"

definition addSessionMetadata :: "session_metadata \<Rightarrow> session \<Rightarrow> session" where
  "addSessionMetadata m s = s\<lparr>ss_allMetadata := ss_allMetadata s @ [m]\<rparr>"

text \<open>The updates of the metadata are a function, and the new title if one is given.\<close>

definition updateSessionMetadata ::
  "string \<Rightarrow> (session_metadata \<Rightarrow> session_metadata) \<Rightarrow> string option \<Rightarrow> session \<Rightarrow> session" where
  "updateSessionMetadata i updates title s =
     (let t = s\<lparr>ss_allMetadata := map (\<lambda>m. if sd_sessionId m = i then updates m else m) (ss_allMetadata s)\<rparr>
      in if is_given title \<and> i = ss_id t then t\<lparr>ss_title := the title\<rparr> else t)"

definition deleteSessionMetadata :: "string \<Rightarrow> session \<Rightarrow> session" where
  "deleteSessionMetadata i s = s\<lparr>ss_allMetadata := filter (\<lambda>m. sd_sessionId m \<noteq> i) (ss_allMetadata s)\<rparr>"

definition updateApplyState :: "apply_state \<Rightarrow> session \<Rightarrow> session" where
  "updateApplyState p s =
     (let same = (\<lambda>a. ap_streamId a = ap_streamId p);
          merge = (\<lambda>a. a\<lparr>ap_status := spread_key (ap_status a) (ap_status p),
            ap_numDiffs := spread_key (ap_numDiffs a) (ap_numDiffs p), ap_filepath := spread_key (ap_filepath a) (ap_filepath p),
            ap_fileContent := spread_key (ap_fileContent a) (ap_fileContent p),
            ap_originalFileContent := spread_key (ap_originalFileContent a) (ap_originalFileContent p)\<rparr>)
      in s\<lparr>ss_applyStates := (if list_ex same (ss_applyStates s) then update_first same merge (ss_applyStates s)
                                else ss_applyStates s @ [p]),
           ss_applyIndex := (if ap_status p = Some ''done'' then ss_applyIndex s + 1 else ss_applyIndex s)\<rparr>)"

definition resetNextCodeBlockToApplyIndex :: "session \<Rightarrow> session" where
  "resetNextCodeBlockToApplyIndex s = s\<lparr>ss_applyIndex := 0\<rparr>"

section \<open>Reducers of tool calls\<close>

definition on_call :: "string \<Rightarrow> (tool_call_state \<Rightarrow> tool_call_state) \<Rightarrow> session \<Rightarrow> session" where
  "on_call i f s = s\<lparr>ss_history := update_call i f (ss_history s)\<rparr>"

definition setToolGenerated :: "string \<Rightarrow> tool list \<Rightarrow> session \<Rightarrow> session" where
  "setToolGenerated i tools =
     on_call i (\<lambda>c. let c1 = c\<lparr>ts_status := Generated\<rparr>
       in case List.find (\<lambda>t. tool_name t = tc_name (ts_toolCall c)) tools of
            None \<Rightarrow> c1 | Some t \<Rightarrow> c1\<lparr>ts_tool := Some t\<rparr>)"

definition renderContextItems :: "context_item list \<Rightarrow> string" where
  "renderContextItems items = join_with [newline, newline] (map ci_content items)"

definition toolCallCtxItemToCtxItemWithId :: "string \<Rightarrow> context_item \<Rightarrow> context_item" where
  "toolCallCtxItemToCtxItemWithId i item = item\<lparr>ci_itemId := Some i\<rparr>"

definition updateToolCallOutput :: "string \<Rightarrow> context_item list \<Rightarrow> json option \<Rightarrow> session \<Rightarrow> session" where
  "updateToolCallOutput i items ui s =
     (let t = on_call i (\<lambda>c. c\<lparr>ts_output := Some items, ts_mcpUiState := ui\<rparr>) s
      in t\<lparr>ss_history := rev (update_first (is_output_of i)
             (\<lambda>it. it\<lparr>it_message := (it_message it)\<lparr>cm_content := Plain (renderContextItems items)\<rparr>,
                     it_contextItems := map (toolCallCtxItemToCtxItemWithId i) items\<rparr>)
             (rev (ss_history t)))\<rparr>)"

definition setProcessedToolCallArgs :: "string \<Rightarrow> json \<Rightarrow> session \<Rightarrow> session" where
  "setProcessedToolCallArgs i args = on_call i (\<lambda>c. c\<lparr>ts_processedArgs := Some args\<rparr>)"

definition cancelToolCall :: "string \<Rightarrow> session \<Rightarrow> session" where
  "cancelToolCall i = on_call i (\<lambda>c. c\<lparr>ts_status := Canceled\<rparr>)"

definition errorToolCall :: "string \<Rightarrow> context_item list option \<Rightarrow> session \<Rightarrow> session" where
  "errorToolCall i out = on_call i (\<lambda>c. c\<lparr>ts_status := Errored,
     ts_output := (case out of None \<Rightarrow> ts_output c | Some x \<Rightarrow> Some x)\<rparr>)"

definition acceptToolCall :: "string \<Rightarrow> session \<Rightarrow> session" where
  "acceptToolCall i = on_call i (\<lambda>c. c\<lparr>ts_status := DoneStatus\<rparr>)"

definition setToolCallCalling :: "string \<Rightarrow> session \<Rightarrow> session" where
  "setToolCallCalling i = on_call i (\<lambda>c. c\<lparr>ts_status := Calling\<rparr>)"

section \<open>Goals and other settings\<close>

definition setGoal :: "string \<Rightarrow> session \<Rightarrow> session" where
  "setGoal goal s = s\<lparr>ss_goal := Some \<lparr>go_text = goal, go_nudgeCount = 0, go_completed = False\<rparr>\<rparr>"

definition clearGoal :: "session \<Rightarrow> session" where
  "clearGoal s = s\<lparr>ss_goal := None\<rparr>"

definition incrementGoalNudge :: "session \<Rightarrow> session" where
  "incrementGoalNudge s = s\<lparr>ss_goal := map_option (\<lambda>g. g\<lparr>go_nudgeCount := go_nudgeCount g + 1\<rparr>) (ss_goal s)\<rparr>"

definition completeGoal :: "session \<Rightarrow> session" where
  "completeGoal s = s\<lparr>ss_goal := map_option (\<lambda>g. g\<lparr>go_completed := True\<rparr>) (ss_goal s)\<rparr>"

definition setIsInEdit :: "bool \<Rightarrow> session \<Rightarrow> session" where
  "setIsInEdit b s = s\<lparr>ss_isInEdit := b\<rparr>"

definition setHasReasoningEnabled :: "bool \<Rightarrow> session \<Rightarrow> session" where
  "setHasReasoningEnabled b s = s\<lparr>ss_reasoningEnabled := Some b\<rparr>"

definition setManualSystemMessageEnabled :: "bool \<Rightarrow> session \<Rightarrow> session" where
  "setManualSystemMessageEnabled b s = s\<lparr>ss_manualSystemMessage := b\<rparr>"

definition setNewestToolbarPreviewForInput :: "string \<Rightarrow> string \<Rightarrow> session \<Rightarrow> session" where
  "setNewestToolbarPreviewForInput i x s = s\<lparr>ss_toolbarPreview := AList.update i x (ss_toolbarPreview s)\<rparr>"

definition setCompactionLoading :: "nat \<Rightarrow> bool \<Rightarrow> session \<Rightarrow> session" where
  "setCompactionLoading i b s =
     s\<lparr>ss_compactionLoading := (if b then List.insert i (ss_compactionLoading s) else removeAll i (ss_compactionLoading s))\<rparr>"

definition setInlineErrorMessage :: "string option \<Rightarrow> session \<Rightarrow> session" where
  "setInlineErrorMessage x s = s\<lparr>ss_inlineError := x\<rparr>"

definition setIsPruned :: "bool \<Rightarrow> session \<Rightarrow> session" where
  "setIsPruned b s = s\<lparr>ss_isPruned := b\<rparr>"

definition setContextPercentage :: "int \<Rightarrow> session \<Rightarrow> session" where
  "setContextPercentage x s = s\<lparr>ss_contextPercentage := Some x\<rparr>"

end
