(* ===== verification/Chat_Calls.thy ===== *)
theory Chat_Calls
  imports Chat_Session
begin

text \<open>
  Tool calls in the session: streams of several calls at once, the states that the reducers of tool
  calls leave, and what cancelling leaves.
\<close>

section \<open>Lists\<close>

lemma update_last_snoc [simp]: "update_last f (xs @ [x]) = xs @ [f x]"
  by (simp add: update_last_def)

lemma update_last_map:
  "(\<And>x. x \<in> set xs \<Longrightarrow> h (f x) = g (h x)) \<Longrightarrow> map h (update_last f xs) = update_last g (map h xs)"
  by (cases xs rule: rev_cases) (auto simp: update_last_def)

lemma update_first_map:
  "(\<And>x. x \<in> set xs \<Longrightarrow> Q (h x) = P x) \<Longrightarrow> (\<And>x. x \<in> set xs \<Longrightarrow> P x \<Longrightarrow> h (f x) = g (h x)) \<Longrightarrow>
   map h (update_first P f xs) = update_first Q g (map h xs)"
  by (induction xs) auto

lemma set_update_first: "y \<in> set (update_first P f xs) \<Longrightarrow> y \<in> set xs \<or> (\<exists>x\<in>set xs. P x \<and> y = f x)"
  by (induction xs) (auto split: if_splits)

lemma set_update_last: "y \<in> set (update_last f xs) \<Longrightarrow> y \<in> set xs \<or> (xs \<noteq> [] \<and> y = f (last xs))"
  by (cases xs rule: rev_cases) (auto simp: update_last_def)

lemma update_first_none: "(\<And>x. x \<in> set xs \<Longrightarrow> \<not> P x) \<Longrightarrow> update_first P f xs = xs"
  by (induction xs) auto

section \<open>Several calls in one stream\<close>

text \<open>The fragments of each call: a fragment without id belongs to the last call.\<close>

definition add_fragment :: "tool_call_delta \<Rightarrow> (string \<times> tool_call_delta list) list \<Rightarrow> (string \<times> tool_call_delta list) list" where
  "add_fragment d gs =
     (if is_given (td_id d)
      then (if \<exists>g\<in>set gs. Some (fst g) = td_id d
            then update_first (\<lambda>g. Some (fst g) = td_id d) (\<lambda>(i, ds). (i, ds @ [d])) gs
            else gs @ [(the (td_id d), [d])])
      else if gs = [] then [([], [d])]
      else update_last (\<lambda>(i, ds). (i, ds @ [d])) gs)"

definition fragments :: "tool_call_delta list \<Rightarrow> (string \<times> tool_call_delta list) list" where
  "fragments ds = fold add_fragment ds []"

abbreviation merged :: "(string \<Rightarrow> json option) \<Rightarrow> (string \<Rightarrow> json option) \<Rightarrow> string \<times> tool_call_delta list \<Rightarrow> tool_call_state" where
  "merged parse partial g \<equiv> the (merge_deltas parse partial (snd g))"

text \<open>A group whose fragments merge into a state with its id.\<close>

definition group_ok :: "(string \<Rightarrow> json option) \<Rightarrow> (string \<Rightarrow> json option) \<Rightarrow> string \<times> tool_call_delta list \<Rightarrow> bool" where
  "group_ok parse partial g \<longleftrightarrow>
     (\<exists>s. merge_deltas parse partial (snd g) = Some s \<and> ts_toolCallId s = fst g \<and> tc_id (ts_toolCall s) = fst g)"

lemma new_state:
  "merge_deltas parse partial [d] = Some (addToolCallDeltaToState parse partial d None)"
  "ts_toolCallId (addToolCallDeltaToState parse partial d None) = or_else (td_id d) []"
  "tc_id (ts_toolCall (addToolCallDeltaToState parse partial d None)) = or_else (td_id d) []"
  by (simp_all add: merge_deltas_def addToolCallDeltaToState_def Let_def is_given_def)

lemma next_state:
  assumes "tc_id (ts_toolCall s) = ts_toolCallId s" "\<not> is_given (td_id d) \<or> td_id d = Some (ts_toolCallId s)"
  shows "ts_toolCallId (addToolCallDeltaToState parse partial d (Some s)) = ts_toolCallId s"
    "tc_id (ts_toolCall (addToolCallDeltaToState parse partial d (Some s))) = ts_toolCallId s"
  using assms by (auto simp: addToolCallDeltaToState_def Let_def is_given_def or_else_def split: option.splits)

lemma group_ok_new: "group_ok parse partial (or_else (td_id d) [], [d])"
  by (simp add: group_ok_def new_state)

lemma group_ok_next:
  assumes "group_ok parse partial (i, ds)" "\<not> is_given (td_id d) \<or> td_id d = Some i"
  shows "group_ok parse partial (i, ds @ [d]) \<and>
    merged parse partial (i, ds @ [d]) = addToolCallDeltaToState parse partial d (Some (merged parse partial (i, ds)))"
proof -
  obtain s where s: "merge_deltas parse partial ds = Some s" "ts_toolCallId s = i" "tc_id (ts_toolCall s) = i"
    using assms(1) by (auto simp: group_ok_def)
  then show ?thesis using next_state [of s d parse partial] assms(2) by (simp add: group_ok_def merge_deltas_snoc)
qed

lemma apply_fragment:
  assumes "\<forall>g\<in>set gs. group_ok parse partial g"
  shows "applyToolCallDelta parse partial d (map (merged parse partial) gs) = map (merged parse partial) (add_fragment d gs) \<and>
    (\<forall>g\<in>set (add_fragment d gs). group_ok parse partial g)"
proof -
  have ids: "ts_toolCallId (merged parse partial g) = fst g" if "g \<in> set gs" for g
    using assms that by (auto simp: group_ok_def)
  have new: "the (td_id d) = or_else (td_id d) []" if "is_given (td_id d)" using that by (auto simp: is_given_def)
  have none: "or_else (td_id d) [] = []" if "\<not> is_given (td_id d)" using that by (auto simp: is_given_def)
  consider "is_given (td_id d)" "\<exists>g\<in>set gs. Some (fst g) = td_id d" | "is_given (td_id d)" "\<not> (\<exists>g\<in>set gs. Some (fst g) = td_id d)"
    | "\<not> is_given (td_id d)" "gs = []" | "\<not> is_given (td_id d)" "gs \<noteq> []" by blast
  then show ?thesis
  proof cases
    case 1
    have step: "merged parse partial (case g of (i, ds) \<Rightarrow> (i, ds @ [d])) =
        addToolCallDeltaToState parse partial d (Some (merged parse partial g)) \<and>
        group_ok parse partial (case g of (i, ds) \<Rightarrow> (i, ds @ [d]))"
      if "g \<in> set gs" "Some (fst g) = td_id d" for g
      using group_ok_next [of parse partial "fst g" "snd g" d] assms that by (cases g) auto
    have "\<exists>s\<in>set (map (merged parse partial) gs). Some (ts_toolCallId s) = td_id d" using 1(2) ids by auto
    moreover have "map (merged parse partial) (update_first (\<lambda>g. Some (fst g) = td_id d) (\<lambda>(i, ds). (i, ds @ [d])) gs) =
        update_first (\<lambda>s. Some (ts_toolCallId s) = td_id d) (\<lambda>s. addToolCallDeltaToState parse partial d (Some s))
          (map (merged parse partial) gs)"
      using ids step by (intro update_first_map) auto
    moreover have "group_ok parse partial g"
      if "g \<in> set (update_first (\<lambda>g. Some (fst g) = td_id d) (\<lambda>(i, ds). (i, ds @ [d])) gs)" for g
      using set_update_first [OF that] step assms by auto
    ultimately show ?thesis using 1 by (simp add: applyToolCallDelta_def add_fragment_def)
  next
    case 2
    then have "\<not> (\<exists>s\<in>set (map (merged parse partial) gs). Some (ts_toolCallId s) = td_id d)" using ids by auto
    then show ?thesis
      using 2 assms new group_ok_new [of parse partial d] by (simp add: applyToolCallDelta_def add_fragment_def new_state)
  next
    case 3
    then show ?thesis using none group_ok_new [of parse partial d] by (simp add: applyToolCallDelta_def add_fragment_def new_state)
  next
    case 4
    then obtain gs' i ds where gs: "gs = gs' @ [(i, ds)]" by (cases gs rule: rev_cases) auto
    have "group_ok parse partial (i, ds)" using assms gs by simp
    from group_ok_next [OF this, of d] 4(1) show ?thesis
      using assms 4(1) unfolding gs by (simp add: applyToolCallDelta_def add_fragment_def)
  qed
qed

lemma apply_fragments:
  "\<forall>g\<in>set gs. group_ok parse partial g \<Longrightarrow>
   fold (applyToolCallDelta parse partial) ds (map (merged parse partial) gs) = map (merged parse partial) (fold add_fragment ds gs) \<and>
   (\<forall>g\<in>set (fold add_fragment ds gs). group_ok parse partial g)"
proof (induction ds arbitrary: gs)
  case (Cons d ds)
  show ?case using apply_fragment [OF Cons.prems, of d] Cons.IH [of "add_fragment d gs"] by simp
qed simp

text \<open>With ids on all fragments the groups are the fragments of each id, in the order of the first ones.\<close>

definition first_ids :: "tool_call_delta list \<Rightarrow> string list" where
  "first_ids ds = rev (remdups (rev (map (\<lambda>d. the (td_id d)) ds)))"

lemma update_first_distinct:
  "distinct xs \<Longrightarrow> update_first (\<lambda>g. fst g = i) f (map (\<lambda>j. (j, h j)) xs) = map (\<lambda>j. if j = i then f (j, h j) else (j, h j)) xs"
  by (induction xs) (auto intro!: map_cong)

lemma fragments_by_id:
  "\<forall>d\<in>set ds. is_given (td_id d) \<Longrightarrow> fragments ds = map (\<lambda>i. (i, filter (\<lambda>d. td_id d = Some i) ds)) (first_ids ds)"
proof (induction ds rule: rev_induct)
  case Nil
  then show ?case by (simp add: fragments_def first_ids_def)
next
  case (snoc d ds)
  then obtain i where i: "td_id d = Some i" "is_given (td_id d)" by (auto simp: is_given_def)
  let ?g = "\<lambda>ds j. (j, filter (\<lambda>d. td_id d = Some j) ds)"
  have ih: "fold add_fragment ds [] = map (?g ds) (first_ids ds)"
    using snoc by (simp add: fragments_def)
  have ids: "set (first_ids ds) = (\<lambda>d. the (td_id d)) ` set ds" "distinct (first_ids ds)"
    by (simp_all add: first_ids_def)
  have snoc_ids: "first_ids (ds @ [d]) = (if i \<in> set (first_ids ds) then first_ids ds else first_ids ds @ [i])"
    using i(1) by (auto simp: first_ids_def)
  have old: "(\<exists>g\<in>set (map (?g ds) (first_ids ds)). Some (fst g) = td_id d) \<longleftrightarrow> i \<in> set (first_ids ds)" using i(1) by auto
  have eq: "(\<lambda>g. Some (fst g) = td_id d) = (\<lambda>g :: string \<times> tool_call_delta list. fst g = i)" using i(1) by auto
  show ?case
  proof (cases "i \<in> set (first_ids ds)")
    case True
    then have "fragments (ds @ [d]) = update_first (\<lambda>g. fst g = i) (\<lambda>(i, ds). (i, ds @ [d])) (map (?g ds) (first_ids ds))"
      using i(2) old unfolding fragments_def fold_append comp_apply ih eq [symmetric]
      by (simp add: add_fragment_def)
    also have "\<dots> = map (?g (ds @ [d])) (first_ids ds)"
      unfolding update_first_distinct [OF ids(2)] using i(1) by (intro map_cong) auto
    finally show ?thesis using snoc_ids True by simp
  next
    case False
    then have "filter (\<lambda>d. td_id d = Some i) ds = []" using ids(1) by (force simp: filter_empty_conv)
    moreover have "fragments (ds @ [d]) = map (?g ds) (first_ids ds) @ [(i, [d])]"
      using i False old unfolding fragments_def fold_append comp_apply ih by (simp add: add_fragment_def)
    ultimately show ?thesis using snoc_ids False i(1) by auto
  qed
qed

text \<open>A message of the stream that brings fragments and nothing else.\<close>

definition call_message :: "chat_delta \<Rightarrow> bool" where
  "call_message m \<longleftrightarrow> cd_role m = AssistantRole \<and> stripImages (cd_content m) = [] \<and>
     or_else (cd_toolCalls m) [] \<noteq> [] \<and> \<not> is_given (cd_outputId m)"

definition kept_fragments :: "chat_delta list \<Rightarrow> tool_call_delta list" where
  "kept_fragments ms = concat (map (\<lambda>m. filterMultipleEditToolCalls (or_else (cd_toolCalls m) [])) ms)"

lemma set_states_twice [simp]: "set_states ss (set_states ss' it) = set_states ss it"
  by (simp add: set_states_def)

lemma set_states_role [simp]: "item_role (set_states ss it) = item_role it" "it_states (set_states ss it) = Some ss"
  by (simp_all add: set_states_def item_role_def)

lemma stream_call_message:
  assumes "call_message m" "item_role it = AssistantRole"
  shows "stream_message parse partial new_id now m (h @ [it]) =
    (h @ [set_states (fold (applyToolCallDelta parse partial) (filterMultipleEditToolCalls (or_else (cd_toolCalls m) []))
            (or_else (it_states it) [])) it], False)"
  using assms
  by (simp add: stream_message_def call_message_def Let_def extend_item_def handleStreamingToolCallUpdates_def)

lemma stream_call_messages:
  "\<forall>m\<in>set ms. call_message m \<Longrightarrow> item_role it = AssistantRole \<Longrightarrow>
   stream_messages parse partial new_id now ms (h @ [it]) =
     (if ms = [] then h @ [it]
      else h @ [set_states (fold (applyToolCallDelta parse partial) (kept_fragments ms) (or_else (it_states it) [])) it])"
proof (induction ms arbitrary: it)
  case (Cons m ms)
  then show ?case
    using stream_call_message [of m it parse partial new_id now h]
    by (simp add: kept_fragments_def)
qed simp


definition part_delta :: "string \<Rightarrow> string \<Rightarrow> string \<Rightarrow> tool_call_delta" where
  "part_delta i name args = \<lparr>td_id = Some i, td_name = Some name, td_args = Some args\<rparr>"

definition call_part :: "string \<Rightarrow> string \<Rightarrow> string \<Rightarrow> chat_delta" where
  "call_part i name args =
     \<lparr>cd_role = AssistantRole, cd_content = Plain [], cd_toolCalls = Some [part_delta i name args],
      cd_toolCallId = None, cd_signature = None, cd_redacted = None, cd_outputId = None, cd_details = None\<rparr>"

definition sample_parts :: "chat_delta list" where
  "sample_parts = [call_part ''a'' ''read'' ''{'', call_part ''b'' ''list'' [], call_part ''a'' [] ''}'', call_part ''b'' [] ''{}'']"

definition sample_session :: session where
  "sample_session = (INITIAL_SESSION_STATE ''s'')\<lparr>ss_history :=
     [new_item ''1'' (plain_message UserRole ''hello''), new_item ''2'' (plain_message AssistantRole [])]\<rparr>"


text \<open>Two edits are kept if they arrive in two messages, and a fragment without id goes to the last call.\<close>

lemma second_edit_kept:
  "map (\<lambda>it. map (\<lambda>c. tc_name (ts_toolCall c)) (or_else (it_states it) []))
     (ss_history (streamUpdate (\<lambda>_. None) (\<lambda>_. None) (\<lambda>_. ''x'') 0
       [call_part ''a'' ''multi_edit'' ''{}'', call_part ''b'' ''multi_edit'' ''{}''] sample_session)) =
   [[], [''multi_edit'', ''multi_edit'']]"
  by code_simp

text \<open>A message with both text and calls loses the calls: they get no state.\<close>

lemma calls_beside_text_lost:
  "map (\<lambda>it. (cm_content (it_message it), it_states it))
     (ss_history (streamUpdate (\<lambda>_. None) (\<lambda>_. None) (\<lambda>_. ''x'') 0
       [(call_part ''a'' ''read'' ''{}'')\<lparr>cd_content := Plain ''I look.''\<rparr>] sample_session)) =
   [(Plain ''hello'', None), (Plain ''I look.'', None)]"
  by code_simp

text \<open>The first details of a thinking message are doubled, its signature included.\<close>

lemma first_details_doubled:
  "map it_details
     (ss_history (streamUpdate (\<lambda>_. None) (\<lambda>_. None) (\<lambda>_. ''x'') 0
       [(call_part [] [] [])\<lparr>cd_role := ThinkingRole, cd_toolCalls := None,
          cd_details := Some [JObj [(''type'', JStr ''reasoning.text''), (''text'', JStr ''So''), (''signature'', JStr ''s1'')]]\<rparr>]
       sample_session)) =
   [None, None, Some [JObj [(''type'', JStr ''reasoning.text''), (''text'', JStr ''SoSo''), (''signature'', JStr ''s1s1'')]]]"
  by code_simp

end
