(* ===== verification/Chat_Rules.thy ===== *)
theory Chat_Rules
  imports Tool_Calls "HOL-Library.AList"
begin

text \<open>
  \<open>core/llm/rules/getSystemMessageWithRules.ts\<close> with \<open>core/llm/utils/extractPathsFromCodeBlocks.ts\<close> and
  \<open>extractContentFromCodeBlocks.ts\<close>: which rules apply to a message and what they add to the system
  message. Globs (\<open>minimatch\<close>), addresses and the engine of regular expressions are arguments.
\<close>

record rule_env =
  re_minimatch :: "string \<Rightarrow> string \<Rightarrow> bool"
  re_test :: "string \<Rightarrow> string \<Rightarrow> bool option"
  re_match :: "string \<Rightarrow> string \<Rightarrow> string option"
  re_uriPath :: "string \<Rightarrow> string option"

text \<open>One pattern or an array of them.\<close>

datatype patterns = One string | Many "string list"

record rule =
  ru_name :: "string option"
  ru_slug :: "string option"
  ru_source :: string
  ru_globs :: "patterns option"
  ru_regex :: "patterns option"
  ru_alwaysApply :: "bool option"
  ru_sourceFile :: "string option"
  ru_rule :: string

section \<open>Globs and regular expressions\<close>

definition is_negative :: "string \<Rightarrow> bool" where
  "is_negative g \<longleftrightarrow> starts_with g ''!''"

text \<open>An undefined or empty pattern is falsy.\<close>

definition given_patterns :: "patterns option \<Rightarrow> bool" where
  "given_patterns p \<longleftrightarrow> p \<noteq> None \<and> p \<noteq> Some (One [])"

definition matchesGlobs :: "rule_env \<Rightarrow> string \<Rightarrow> patterns option \<Rightarrow> bool" where
  "matchesGlobs env filePath globs =
     (if \<not> given_patterns globs then True
      else case the globs of
        One g \<Rightarrow> (if is_negative g then \<not> re_minimatch env filePath (drop 1 g) else re_minimatch env filePath g)
      | Many gs \<Rightarrow>
          (let positive = filter (\<lambda>g. \<not> is_negative g) gs;
               negative = map (drop 1) (filter is_negative gs)
           in if positive = [] then \<not> list_ex (re_minimatch env filePath) negative
              else list_ex (re_minimatch env filePath) positive \<and> \<not> list_ex (re_minimatch env filePath) negative))"

text \<open>A regular expression that is none matches nothing.\<close>

definition contentMatchesRegex :: "rule_env \<Rightarrow> string \<Rightarrow> patterns \<Rightarrow> bool" where
  "contentMatchesRegex env content p =
     (case p of
        One r \<Rightarrow> re_test env r content = Some True
      | Many rs \<Rightarrow> rs = [] \<or> list_ex (\<lambda>r. re_test env r content = Some True) rs)"

definition forward_slashes :: "string \<Rightarrow> string" where
  "forward_slashes s = map (\<lambda>c. if c = char_of (92 :: nat) then CHR ''/'' else c) s"

definition drop_file_scheme :: "string \<Rightarrow> string" where
  "drop_file_scheme s = (if starts_with s ''file://'' then drop 7 s else s)"

definition isFileInDirectory :: "string \<Rightarrow> string \<Rightarrow> bool" where
  "isFileInDirectory filePath directoryPath =
     js_includes (drop_file_scheme (forward_slashes filePath))
       (last (split_on (CHR ''/'') (drop_file_scheme (forward_slashes directoryPath))) @ ''/'')"

section \<open>Rules\<close>

definition isRootLevelRule :: "rule \<Rightarrow> bool" where
  "isRootLevelRule r \<longleftrightarrow>
     \<not> is_given (ru_sourceFile r) \<or> js_includes (the (ru_sourceFile r)) ''.continue/'' \<or>
     js_includes (the (ru_sourceFile r)) ''.incontrol/''"

definition isGlobalRule :: "rule \<Rightarrow> bool" where
  "isGlobalRule r \<longleftrightarrow>
     ru_alwaysApply r = Some True \<or>
     isRootLevelRule r \<and> \<not> given_patterns (ru_globs r) \<and> \<not> given_patterns (ru_regex r) \<and> ru_alwaysApply r \<noteq> Some False"

text \<open>The contents of files are a map; an empty content counts as none.\<close>

definition checkGlobsAndRegex :: "rule_env \<Rightarrow> rule \<Rightarrow> string list \<Rightarrow> (string \<times> string) list \<Rightarrow> bool" where
  "checkGlobsAndRegex env r filePaths fileContents =
     (let matchingFiles = (if given_patterns (ru_globs r) then filter (\<lambda>p. matchesGlobs env p (ru_globs r)) filePaths
                           else filePaths)
      in if matchingFiles = [] then False
         else if given_patterns (ru_regex r)
         then list_ex (\<lambda>p. is_given (map_of fileContents p) \<and>
                contentMatchesRegex env (the (map_of fileContents p)) (the (ru_regex r))) matchingFiles
         else True)"

text \<open>\<open>getCleanUriPath\<close> of \<open>core/util/uri.ts\<close>, and what is in front of the last slash.\<close>

definition getCleanUriPath :: "rule_env \<Rightarrow> string \<Rightarrow> string" where
  "getCleanUriPath env uri =
     (let path = or_else (re_uriPath env uri) [];
          clean = (if starts_with path ''/'' then drop 1 path else path)
      in if clean \<noteq> [] \<and> last clean = CHR ''/'' then butlast clean else clean)"

definition directory_of :: "string \<Rightarrow> string" where
  "directory_of p = (let ps = split_on (CHR ''/'') p in if length ps < 2 then [] else join_with ''/'' (butlast ps))"

definition shouldApplyRule :: "rule_env \<Rightarrow> rule \<Rightarrow> string list \<Rightarrow> (string \<times> string) list \<Rightarrow> (string \<times> string) list \<Rightarrow> bool" where
  "shouldApplyRule env r filePaths rulePolicies fileContents =
     (if map_of rulePolicies (or_else (ru_name r) []) = Some ''off'' then False
      else if isGlobalRule r then True
      else if filePaths = [] then False
      else if \<not> isRootLevelRule r \<and> is_given (ru_sourceFile r)
      then checkGlobsAndRegex env r
             (filter (\<lambda>p. isFileInDirectory p (directory_of (getCleanUriPath env (the (ru_sourceFile r))))) filePaths)
             fileContents
      else if ru_alwaysApply r = Some False \<and> ru_globs r = None \<and> ru_regex r = None then False
      else checkGlobsAndRegex env r filePaths fileContents)"

section \<open>Files that a message names\<close>

text \<open>\<open>content.match(/```[^\n]+/g)\<close>: the fences and what follows them on their line, if anything does.\<close>

function block_starts :: "string \<Rightarrow> string list" where
  "block_starts s =
     (if s = [] then []
      else if starts_with s ''```'' \<and> takeWhile (\<lambda>c. c \<noteq> newline) (drop 3 s) \<noteq> []
      then (''```'' @ takeWhile (\<lambda>c. c \<noteq> newline) (drop 3 s)) # block_starts (dropWhile (\<lambda>c. c \<noteq> newline) (drop 3 s))
      else block_starts (tl s))"
  by pat_completeness auto
termination
proof (relation "measure length", goal_cases)
  case (2 s)
  have "length (dropWhile (\<lambda>c. c \<noteq> newline) (drop 3 s)) \<le> length (drop 3 s)" by (rule length_dropWhile_le)
  then show ?case using 2(1) by (cases s) auto
qed auto

declare block_starts.simps [simp del]

definition js_alnum :: "char \<Rightarrow> bool" where
  "js_alnum c \<longleftrightarrow> (let n = (of_char c :: nat) in 48 \<le> n \<and> n \<le> 57 \<or> 65 \<le> n \<and> n \<le> 90 \<or> 97 \<le> n \<and> n \<le> 122)"

definition name_char :: "char \<Rightarrow> bool" where
  "name_char c \<longleftrightarrow> \<not> js_ws c \<and> c \<noteq> CHR ''('' \<and> c \<noteq> CHR '')'' \<and> c \<noteq> CHR 0x60"

text \<open>
  \<open>/([^\s()```]+\.[a-zA-Z0-9]+)/\<close> within a word of such characters: the last dot that has a
  character in front of it and an alphanumeric one behind it.
\<close>

definition word_name :: "string \<Rightarrow> string option" where
  "word_name w =
     (case filter (\<lambda>k. w ! k = CHR ''.'' \<and> js_alnum (w ! (k + 1))) (rev [1..<length w - 1]) of
        [] \<Rightarrow> None
      | k # _ \<Rightarrow> Some (take (k + 1) w @ takeWhile js_alnum (drop (k + 1) w)))"

function first_name :: "string \<Rightarrow> string option" where
  "first_name s =
     (if s = [] then None
      else if name_char (hd s)
      then (case word_name (takeWhile name_char s) of
              Some n \<Rightarrow> Some n | None \<Rightarrow> first_name (dropWhile name_char s))
      else first_name (tl s))"
  by pat_completeness auto
termination
  by (relation "measure length") (auto simp: neq_Nil_conv less_Suc_eq_le length_dropWhile_le)

declare first_name.simps [simp del]

definition extractPathsFromCodeBlocks :: "string \<Rightarrow> string list" where
  "extractPathsFromCodeBlocks content =
     fold (\<lambda>b paths. case first_name b of
         Some n \<Rightarrow> if \<not> js_includes n ''://'' \<and> n \<notin> set paths then paths @ [n] else paths
       | None \<Rightarrow> paths) (block_starts content) []"

text \<open>The regular expression for the block of a file, with the path escaped.\<close>

definition escape_regex :: "string \<Rightarrow> string" where
  "escape_regex s = concat (map (\<lambda>c. if c \<in> set (''.*+?^${}()|[]'' @ [char_of (92 :: nat)])
     then [char_of (92 :: nat), c] else [c]) s)"

definition block_pattern :: "string \<Rightarrow> string" where
  "block_pattern path =
     (let bs = [char_of (92 :: nat)] in
      ''```[^'' @ bs @ ''n]*'' @ bs @ ''b'' @ escape_regex path @ ''(?:'' @ bs @ ''s+'' @ bs @ ''(['' @ bs @ ''d-]+'' @ bs @
      '')'' @ '')?[^'' @ bs @ ''n]*'' @ bs @ ''n(['' @ bs @ ''s'' @ bs @ ''S]*?)'' @ bs @ ''n```'')"

definition extractContentFromCodeBlock :: "rule_env \<Rightarrow> string \<Rightarrow> string \<Rightarrow> string option" where
  "extractContentFromCodeBlock env content path =
     (let r = re_match env (block_pattern path) content in if is_given r then r else None)"

section \<open>The system message\<close>

definition file_uri :: "context_item \<Rightarrow> string option" where
  "file_uri item = (case ci_uri item of Some (kind, v) \<Rightarrow> if kind = ''file'' \<and> v \<noteq> [] then Some v else None | None \<Rightarrow> None)"

definition item_contents :: "context_item list \<Rightarrow> (string \<times> string) list" where
  "item_contents items =
     fold (\<lambda>it m. case file_uri it of Some p \<Rightarrow> AList.update p (ci_content it) m | None \<Rightarrow> m) items []"

definition block_contents :: "rule_env \<Rightarrow> string \<Rightarrow> string list \<Rightarrow> (string \<times> string) list \<Rightarrow> (string \<times> string) list" where
  "block_contents env text paths m =
     fold (\<lambda>p m. if is_given (map_of m p) then m
        else (case extractContentFromCodeBlock env text p of Some c \<Rightarrow> AList.update p c m | None \<Rightarrow> m)) paths m"

text \<open>The message is its text, if there is one.\<close>

definition getApplicableRules ::
  "rule_env \<Rightarrow> string option \<Rightarrow> rule list \<Rightarrow> context_item list \<Rightarrow> (string \<times> string) list \<Rightarrow> rule list" where
  "getApplicableRules env message rules items rulePolicies =
     (let fromMessage = (case message of Some t \<Rightarrow> extractPathsFromCodeBlocks t | None \<Rightarrow> []);
          allFilePaths = fromMessage @ List.map_filter file_uri items;
          contents = (case message of
              Some t \<Rightarrow> block_contents env t fromMessage (item_contents items) | None \<Rightarrow> item_contents items)
      in filter (\<lambda>r. shouldApplyRule env r allFilePaths rulePolicies contents) rules)"

definition getRuleId :: "rule \<Rightarrow> string" where
  "getRuleId r = or_else (ru_slug r) (or_else (ru_sourceFile r) (or_else (ru_name r) (ru_source r)))"

definition add_rule :: "rule \<Rightarrow> string \<Rightarrow> string" where
  "add_rule r systemMessage = (if systemMessage \<noteq> [] then systemMessage @ [newline, newline] else systemMessage) @ ru_rule r"

text \<open>The applied rules are given with their texts.\<close>

definition getSystemMessageWithRules ::
  "rule_env \<Rightarrow> string option \<Rightarrow> string option \<Rightarrow> rule list \<Rightarrow> context_item list \<Rightarrow> (string \<times> string) list
     \<Rightarrow> string \<times> rule list" where
  "getSystemMessageWithRules env baseSystemMessage message rules items rulePolicies =
     (let applied = getApplicableRules env message rules items rulePolicies
      in (fold add_rule applied (or_else baseSystemMessage []), applied))"


section \<open>What applies\<close>

text \<open>The system message is the base and the texts of the applied rules, with empty lines between them.\<close>

lemma add_rules:
  "fold add_rule rs m = (if m = [] then fold add_rule rs [] else m @ concat (map (\<lambda>r. [newline, newline] @ ru_rule r) rs))"
proof -
  have "m \<noteq> [] \<Longrightarrow> fold add_rule rs m = m @ concat (map (\<lambda>r. [newline, newline] @ ru_rule r) rs)" for m
    by (induction rs arbitrary: m) (simp_all add: add_rule_def)
  then show ?thesis by simp
qed

lemma system_message_parts:
  assumes "getSystemMessageWithRules env base message rules items policies = (msg, applied)"
    and "\<forall>r\<in>set rules. ru_rule r \<noteq> []"
  shows "msg = join_with [newline, newline] ((if or_else base [] = [] then [] else [or_else base []]) @ map ru_rule applied)"
proof -
  have join: "w # map ru_rule rs \<noteq> [] \<Longrightarrow>
      join_with [newline, newline] (w # map ru_rule rs) = w @ concat (map (\<lambda>r. [newline, newline] @ ru_rule r) rs)" for w and rs :: "rule list"
    by (induction rs arbitrary: w) simp_all
  have applied: "applied = getApplicableRules env message rules items policies" "msg = fold add_rule applied (or_else base [])"
    using assms(1) by (auto simp: getSystemMessageWithRules_def Let_def)
  have nonempty: "ru_rule r \<noteq> []" if "r \<in> set applied" for r
    using that assms(2) by (auto simp: applied(1) getApplicableRules_def Let_def split: option.splits)
  show ?thesis
  proof (cases "or_else base [] = []")
    case False
    then show ?thesis using join add_rules [of applied "or_else base []"] by (simp add: applied(2))
  next
    case True
    show ?thesis
    proof (cases applied)
      case (Cons r rs)
      then have "fold add_rule applied [] = fold add_rule rs (ru_rule r)" "ru_rule r \<noteq> []"
        using nonempty [of r] by (simp_all add: add_rule_def)
      then show ?thesis using True Cons join add_rules [of rs "ru_rule r"] by (simp add: applied(2))
    qed (simp add: True applied(2))
  qed
qed

text \<open>Where a rule is looked for, and what it asks of one file.\<close>

definition in_scope :: "rule_env \<Rightarrow> rule \<Rightarrow> string \<Rightarrow> bool" where
  "in_scope env r p \<longleftrightarrow>
     isRootLevelRule r \<or> isFileInDirectory p (directory_of (getCleanUriPath env (the (ru_sourceFile r))))"

definition file_matches :: "rule_env \<Rightarrow> rule \<Rightarrow> (string \<times> string) list \<Rightarrow> string \<Rightarrow> bool" where
  "file_matches env r contents p \<longleftrightarrow>
     matchesGlobs env p (ru_globs r) \<and>
     (given_patterns (ru_regex r) \<longrightarrow>
       is_given (map_of contents p) \<and> contentMatchesRegex env (the (map_of contents p)) (the (ru_regex r)))"

lemma checkGlobsAndRegex_iff:
  "checkGlobsAndRegex env r paths contents \<longleftrightarrow> (\<exists>p\<in>set paths. file_matches env r contents p)"
proof -
  have "filter (\<lambda>p. matchesGlobs env p (ru_globs r)) paths = paths" if "\<not> given_patterns (ru_globs r)"
    using that by (simp add: matchesGlobs_def)
  then have "checkGlobsAndRegex env r paths contents \<longleftrightarrow>
      (let fs = filter (\<lambda>p. matchesGlobs env p (ru_globs r)) paths in
        if fs = [] then False
        else if given_patterns (ru_regex r)
        then list_ex (\<lambda>p. is_given (map_of contents p) \<and> contentMatchesRegex env (the (map_of contents p)) (the (ru_regex r))) fs
        else True)"
    by (simp add: checkGlobsAndRegex_def)
  also have "\<dots> \<longleftrightarrow> (\<exists>p\<in>set paths. file_matches env r contents p)"
    by (auto simp: Let_def file_matches_def list_ex_iff filter_empty_conv)
  finally show ?thesis .
qed

text \<open>
  Which rules reach the model: a rule applies exactly if its policy is not off and either it is
  global or some named file is in its scope (the directory of the rule, unless it belongs to the root),
  matches its globs, and, if it has expressions, has a known content that matches one of them. A
  root rule with \<open>alwaysApply: false\<close> and no pattern never applies.
\<close>

lemma shouldApplyRule_iff:
  "shouldApplyRule env r paths policies contents \<longleftrightarrow>
     map_of policies (or_else (ru_name r) []) \<noteq> Some ''off'' \<and>
     (isGlobalRule r \<or>
      \<not> (isRootLevelRule r \<and> ru_alwaysApply r = Some False \<and> ru_globs r = None \<and> ru_regex r = None) \<and>
      (\<exists>p\<in>set paths. in_scope env r p \<and> file_matches env r contents p))"
proof -
  have "\<not> isRootLevelRule r \<Longrightarrow> is_given (ru_sourceFile r)" by (simp add: isRootLevelRule_def)
  then show ?thesis
    by (auto simp: shouldApplyRule_def checkGlobsAndRegex_iff in_scope_def)
qed

text \<open>The directory of a rule is only searched as text: \<open>lib/src/\<close> is found in \<open>other/mysrc/x.ts\<close>.\<close>

lemma directory_as_text: "isFileInDirectory ''other/mysrc/x.ts'' ''lib/src''"
  by code_simp

end
