(* ===== verification/Chat_Messages.thy ===== *)
theory Chat_Messages
  imports System_Tools Chat_Session Chat_Rules
begin

text \<open>
  From the history of a session to the messages of a request: \<open>constructMessages\<close> of
  \<open>gui/src/redux/util/constructMessages.ts\<close> with \<open>core/tools/systemMessageTools/convertSystemTools.ts\<close> and the
  rendering of \<open>core/util/messageContent.ts\<close>.
\<close>

section \<open>Outputs of tools\<close>

definition NO_TOOL_CALL_OUTPUT_MESSAGE :: string where
  "NO_TOOL_CALL_OUTPUT_MESSAGE = ''No tool output''"

definition CANCELLED_TOOL_CALL_MESSAGE :: string where
  "CANCELLED_TOOL_CALL_MESSAGE = ''The user cancelled this tool call.''"

definition ERRORED_TOOL_CALL_OUTPUT_MESSAGE :: string where
  "ERRORED_TOOL_CALL_OUTPUT_MESSAGE = ''There was an error calling the tool.''"

definition render_with_status :: "context_item \<Rightarrow> string" where
  "render_with_status item =
     ci_content item @ (if is_given (ci_status item) then [newline] @ ''[Status: '' @ the (ci_status item) @ '']'' else [])"

definition renderContextItemsWithStatus :: "context_item list \<Rightarrow> string" where
  "renderContextItemsWithStatus items = join_with [newline, newline] (map render_with_status items)"

definition collectContextItemImages :: "context_item list \<Rightarrow> string list" where
  "collectContextItemImages items =
     List.map_filter (\<lambda>it. case ci_imageUrl it of
         Some u \<Rightarrow> if trim u \<noteq> [] then Some (trim u) else None | None \<Rightarrow> None) items"

definition buildToolImageUserMessage :: "string list \<Rightarrow> string \<Rightarrow> chat_message option" where
  "buildToolImageUserMessage urls note =
     (if urls = [] then None
      else Some ((plain_message UserRole [])\<lparr>cm_content := Parts (map ImagePart urls @ [TextPart note])\<rparr>))"

definition toolCallStateToContextItems :: "tool_call_state \<Rightarrow> context_item list" where
  "toolCallStateToContextItems c =
     map (toolCallCtxItemToCtxItemWithId (ts_toolCallId c)) (or_else (ts_output c) [])"

text \<open>The message that answers a call.\<close>

definition tool_output :: "tool_call_state \<Rightarrow> string" where
  "tool_output c =
     (if ts_status c = Canceled then CANCELLED_TOOL_CALL_MESSAGE
      else case ts_output c of
        Some out \<Rightarrow>
          if tc_name (ts_toolCall c) = ''run_terminal_command'' then renderContextItemsWithStatus out
          else renderContextItems out
      | None \<Rightarrow>
          if ts_status c = Errored then ERRORED_TOOL_CALL_OUTPUT_MESSAGE else NO_TOOL_CALL_OUTPUT_MESSAGE)"

definition tool_message :: "tool_call_state \<Rightarrow> chat_message" where
  "tool_message c = (plain_message ToolRole (tool_output c))\<lparr>cm_toolCallId := Some (tc_id (ts_toolCall c))\<rparr>"

section \<open>Tools in the system message\<close>

text \<open>\<open>for (const arg in parsedArgs)\<close> with the values.\<close>

fun own_entries :: "json \<Rightarrow> (string \<times> json) list" where
  "own_entries (JObj fs) = fs"
| "own_entries (JArr xs) = zip (map show_nat [0..<length xs]) xs"
| "own_entries (JStr s) = zip (map show_nat [0..<length s]) (map (\<lambda>c. JStr [c]) s)"
| "own_entries _ = []"

definition system_tool_call :: "tool_call_state \<Rightarrow> string" where
  "system_tool_call c = toolCallStateToSystemToolCall (tc_name (ts_toolCall c)) (own_entries (ts_parsedArgs c))"

definition toolCallStateToSystemToolOutput :: "tool_call_state \<Rightarrow> string" where
  "toolCallStateToSystemToolOutput c =
     ''Tool output for '' @ tc_name (ts_toolCall c) @ '' tool call:'' @ [newline, newline] @
     (if ts_status c = Canceled then CANCELLED_TOOL_CALL_MESSAGE
      else if or_else (ts_output c) [] \<noteq> [] then renderContextItems (or_else (ts_output c) [])
      else NO_TOOL_CALL_OUTPUT_MESSAGE)"

definition convertToolCallStatesToSystemCallsAndOutput ::
  "chat_message \<Rightarrow> tool_call_state list \<Rightarrow> chat_message \<times> chat_message" where
  "convertToolCallStatesToSystemCallsAndOutput m states =
     (let parts = normalizeToMessageParts (cm_content m) @
            (if cm_toolCalls m \<noteq> None then map (\<lambda>c. TextPart (system_tool_call c)) states else []);
          outputs = map (\<lambda>c. TextPart (toolCallStateToSystemToolOutput c)) states
      in (m\<lparr>cm_content := Parts parts, cm_toolCalls := None\<rparr>,
          (plain_message UserRole [])\<lparr>cm_content :=
             Parts (if outputs = [] then [TextPart ''Error: no tool output for tool calls''] else outputs)\<rparr>))"

section \<open>Messages of an item\<close>

type_synonym item_message = "context_item list \<times> chat_message"

definition context_parts :: "context_item list \<Rightarrow> message_part list" where
  "context_parts items = map TextPart (filter (\<lambda>t. trim t \<noteq> []) (map (\<lambda>it. ci_content it @ [newline]) items))"

definition user_messages :: "chat_item \<Rightarrow> item_message list" where
  "user_messages it =
     [(it_contextItems it, (it_message it)\<lparr>cm_content :=
         Parts (context_parts (it_contextItems it) @ normalizeToMessageParts (cm_content (it_message it)))\<rparr>)]"

text \<open>\<open>newest\<close> is whether the item is the last answer, whose images are sent.\<close>

definition system_tool_messages :: "bool \<Rightarrow> chat_item \<Rightarrow> tool_call_state list \<Rightarrow> item_message list" where
  "system_tool_messages newest it states =
     (let (assistant, user) = convertToolCallStatesToSystemCallsAndOutput (it_message it) states;
          images = (if newest then collectContextItemImages (concat (map (\<lambda>c. or_else (ts_output c) []) states)) else [])
      in [([], assistant),
          ([], if images = [] then user
               else user\<lparr>cm_content := Parts (map ImagePart images @ normalizeToMessageParts (cm_content user) @
                 [TextPart ''Image(s) returned by the tool call(s) above. Inspect them directly.''])\<rparr>)])"

definition call_messages :: "bool \<Rightarrow> tool_call_state \<Rightarrow> item_message list" where
  "call_messages newest c =
     (toolCallStateToContextItems c, tool_message c) #
     (if newest
      then (case buildToolImageUserMessage (collectContextItemImages (or_else (ts_output c) []))
               (''Image returned by the '' @ tc_name (ts_toolCall c) @ '' tool.'') of
              Some m \<Rightarrow> [([], m)] | None \<Rightarrow> [])
      else [])"

definition item_messages :: "bool \<Rightarrow> bool \<Rightarrow> chat_item \<Rightarrow> item_message list" where
  "item_messages systemTools newest it =
     (let states = or_else (it_states it) [] in
      if item_role it = SystemRole \<or> item_role it = ToolRole \<or> chatMessageIsEmpty (it_message it) then []
      else if item_role it = UserRole then user_messages it
      else if item_role it = ThinkingRole then [(it_contextItems it, it_message it)]
      else if states \<noteq> [] \<and> systemTools then system_tool_messages newest it states
      else (it_contextItems it, it_message it) # concat (map (call_messages newest) states))"

section \<open>Messages of a history\<close>

fun last_index :: "('a \<Rightarrow> bool) \<Rightarrow> 'a list \<Rightarrow> int" where
  "last_index P [] = -1"
| "last_index P (x # xs) =
     (let i = last_index P xs in if i \<ge> 0 then i + 1 else if P x then 0 else -1)"

fun all_messages :: "bool \<Rightarrow> int \<Rightarrow> int \<Rightarrow> chat_item list \<Rightarrow> item_message list" where
  "all_messages systemTools lastAssistant i [] = []"
| "all_messages systemTools lastAssistant i (it # its) =
     item_messages systemTools (i = lastAssistant) it @ all_messages systemTools lastAssistant (i + 1) its"

text \<open>The last summary and the items behind it.\<close>

fun behind_summary :: "chat_item list \<Rightarrow> chat_item list \<Rightarrow> string \<times> chat_item list" where
  "behind_summary acc [] = ([], acc)"
| "behind_summary acc (it # its) =
     (if is_given (it_summary it) then (the (it_summary it), acc) else behind_summary (it # acc) its)"

definition filteredHistory :: "chat_item list \<Rightarrow> string \<times> chat_item list" where
  "filteredHistory h = behind_summary [] (rev h)"

definition sent_user :: "chat_item \<Rightarrow> bool" where
  "sent_user it \<longleftrightarrow> item_role it = UserRole \<and> \<not> chatMessageIsEmpty (it_message it)"

definition user_or_tool :: "item_message \<Rightarrow> bool" where
  "user_or_tool im \<longleftrightarrow> cm_role (snd im) = UserRole \<or> cm_role (snd im) = ToolRole"

text \<open>\<open>msgs.slice(lastUserMsgIndex)\<close>, where -1 is the last message.\<close>

definition since_user :: "item_message list \<Rightarrow> item_message list" where
  "since_user ms =
     (let i = last_index (\<lambda>im. cm_role (snd im) = UserRole) ms
      in if i < 0 then drop (length ms - 1) ms else drop (nat i) ms)"

text \<open>The result is the messages, the applied rules and the index of the item that they are attached to.\<close>

definition constructMessages ::
  "rule_env \<Rightarrow> chat_item list \<Rightarrow> string option \<Rightarrow> rule list \<Rightarrow> (string \<times> string) list \<Rightarrow> bool
     \<Rightarrow> chat_message list \<times> rule list \<times> int" where
  "constructMessages env history baseSystemMessage rules policies systemTools =
     (let (summary, its) = filteredHistory history;
          msgs = all_messages systemTools (last_index (\<lambda>it. item_role it = AssistantRole) its) 0 its;
          asking = filter user_or_tool msgs;
          items = concat (map fst (filter user_or_tool (since_user msgs)));
          (systemMessage, applied) =
            getSystemMessageWithRules env baseSystemMessage
              (if asking = [] then None else Some (renderChatMessage (snd (last asking)))) rules items policies;
          final =
            (if summary = [] then systemMessage
             else (if systemMessage = [] then [] else systemMessage @ [newline, newline]) @
               ''Previous conversation summary:'' @ [newline, newline] @ '' '' @ summary)
      in ((if trim final = [] then [] else [plain_message SystemRole final]) @ map snd msgs,
          applied, last_index sent_user its))"

section \<open>Answered calls\<close>

text \<open>A message that is no output, and outputs of calls that it carries.\<close>

definition answered_block :: "chat_message list \<Rightarrow> bool" where
  "answered_block ms \<longleftrightarrow>
     (\<exists>a ts. ms = a # ts \<and> cm_role a \<noteq> ToolRole \<and>
        (\<forall>t\<in>set ts. cm_role t = ToolRole \<and> messageHasToolCallId a (cm_toolCallId t)))"

definition well_answered :: "chat_message list \<Rightarrow> bool" where
  "well_answered ms \<longleftrightarrow> (\<exists>bs. ms = concat bs \<and> (\<forall>b\<in>set bs. answered_block b))"

lemma well_answered_Nil: "well_answered []"
  unfolding well_answered_def by (intro exI [of _ "[]"]) simp

lemma well_answered_append: "well_answered ms \<Longrightarrow> well_answered ns \<Longrightarrow> well_answered (ms @ ns)"
proof -
  assume "well_answered ms" "well_answered ns"
  then obtain bs cs where "ms = concat bs" "\<forall>b\<in>set bs. answered_block b" "ns = concat cs" "\<forall>b\<in>set cs. answered_block b"
    by (auto simp: well_answered_def)
  then show ?thesis unfolding well_answered_def by (intro exI [of _ "bs @ cs"]) auto
qed

lemma well_answered_block: "answered_block b \<Longrightarrow> well_answered b"
  unfolding well_answered_def by (intro exI [of _ "[b]"]) simp

lemma well_answered_concat: "(\<And>ms. ms \<in> set mss \<Longrightarrow> well_answered ms) \<Longrightarrow> well_answered (concat mss)"
  by (induction mss) (auto intro: well_answered_Nil well_answered_append)

lemma answered_single: "cm_role m \<noteq> ToolRole \<Longrightarrow> well_answered [m]"
  by (intro well_answered_block) (simp add: answered_block_def)

text \<open>Messages in which all outputs are answered this way never fail for an output without its call.\<close>

lemma well_answered_extract:
  assumes "well_answered ms"
  shows "extractToolSequence ms \<noteq> Inl (Unmatched_output i)"
proof -
  obtain bs where bs: "ms = concat bs" "\<forall>b\<in>set bs. answered_block b" using assms by (auto simp: well_answered_def)
  show ?thesis
  proof (cases bs rule: rev_cases)
    case Nil
    then show ?thesis using bs by (simp add: extractToolSequence_def)
  next
    case (snoc cs b)
    then obtain a ts where b: "b = a # ts" "cm_role a \<noteq> ToolRole"
      "\<forall>t\<in>set ts. cm_role t = ToolRole \<and> messageHasToolCallId a (cm_toolCallId t)"
      using bs(2) by (auto simp: answered_block_def)
    have ms: "ms = (concat cs @ [a]) @ ts" using bs(1) snoc b(1) by simp
    show ?thesis
    proof (cases "ts = []")
      case True
      then show ?thesis using b(2) ms by (simp add: extractToolSequence_def Let_def)
    next
      case False
      have outs: "takeWhile (\<lambda>m. cm_role m = ToolRole) (rev ms) = rev ts"
        "dropWhile (\<lambda>m. cm_role m = ToolRole) (rev ms) = a # rev (concat cs)"
        using b(2,3) ms by (simp_all add: takeWhile_append dropWhile_append)
      have "cm_role (last ms) = ToolRole" using False b(3) ms by simp
      moreover have "List.find (\<lambda>m. \<not> messageHasToolCallId a (cm_toolCallId m)) ts = None"
        using b(3) by (simp add: find_None_iff)
      moreover have "ms \<noteq> []" using ms by simp
      ultimately show ?thesis unfolding extractToolSequence_def Let_def outs by simp
    qed
  qed
qed

lemma call_needs_message: "messageHasToolCallId a i \<Longrightarrow> cm_role a = AssistantRole \<and> cm_toolCalls a \<noteq> None"
  by (cases "cm_toolCalls a") (auto simp: messageHasToolCallId_def)

lemma well_answered_filter:
  assumes "well_answered ms" "\<And>m. cm_role m = ToolRole \<Longrightarrow> P m" "\<And>m. cm_role m = AssistantRole \<Longrightarrow> cm_toolCalls m \<noteq> None \<Longrightarrow> P m"
  shows "well_answered (filter P ms)"
proof -
  obtain bs where bs: "ms = concat bs" "\<forall>b\<in>set bs. answered_block b" using assms(1) by (auto simp: well_answered_def)
  have "well_answered (filter P b)" if block: "answered_block b" for b
  proof -
    obtain a ts where b: "b = a # ts" "cm_role a \<noteq> ToolRole"
      "\<forall>t\<in>set ts. cm_role t = ToolRole \<and> messageHasToolCallId a (cm_toolCallId t)"
      using block by (auto simp: answered_block_def)
    have ts: "filter P ts = ts" using b(3) assms(2) by (simp add: filter_id_conv)
    show ?thesis
    proof (cases "P a")
      case True
      then show ?thesis using block b(1) ts by (simp add: well_answered_block)
    next
      case False
      then have "ts = []" using b(3) call_needs_message assms(3) by (cases ts) auto
      then show ?thesis using False b(1) by (simp add: well_answered_Nil)
    qed
  qed
  then have "well_answered (concat (map (filter P) bs))" using bs(2) by (intro well_answered_concat) auto
  then show ?thesis by (simp add: bs(1) filter_concat)
qed

lemma well_answered_map:
  assumes "well_answered ms"
    "\<And>m. cm_role (f m) = cm_role m \<and> cm_toolCalls (f m) = cm_toolCalls m \<and> cm_toolCallId (f m) = cm_toolCallId m"
  shows "well_answered (map f ms)"
proof -
  obtain bs where bs: "ms = concat bs" "\<forall>b\<in>set bs. answered_block b" using assms(1) by (auto simp: well_answered_def)
  have "messageHasToolCallId (f a) i = messageHasToolCallId a i" for a i
    using assms(2) [of a] by (simp add: messageHasToolCallId_def)
  then have "answered_block b \<Longrightarrow> answered_block (map f b)" for b
    using assms(2) by (auto simp: answered_block_def)
  then have "well_answered (concat (map (map f) bs))" using bs(2) well_answered_block by (intro well_answered_concat) auto
  then show ?thesis by (simp add: bs(1) map_concat)
qed

lemma well_answered_conversation: "well_answered ms \<Longrightarrow> well_answered (conversation images ms)"
proof -
  assume "well_answered ms"
  then have "well_answered (prepare_messages images ms)"
    by (auto simp: prepare_messages_def split: message_content.split intro!: well_answered_map)
  then have "well_answered (filter (\<lambda>m. \<not> chatMessageIsEmpty m) (filter (\<lambda>m. cm_role m \<noteq> SystemRole) (prepare_messages images ms)))"
    by (intro well_answered_filter) (auto simp: chatMessageIsEmpty_def)
  then show ?thesis
    unfolding conversation_def addSpaceToAnyEmptyMessages_def by (intro well_answered_map) auto
qed

text \<open>Items whose messages carry the calls of their states.\<close>

definition calls_match :: "chat_item \<Rightarrow> bool" where
  "calls_match it \<longleftrightarrow>
     (\<forall>ss. it_states it = Some ss \<longrightarrow> ss \<noteq> [] \<longrightarrow>
       cm_toolCalls (it_message it) = Some (map (\<lambda>c. call_json (ts_toolCall c)) ss))"

definition no_image :: "tool_call_state \<Rightarrow> bool" where
  "no_image c \<longleftrightarrow> collectContextItemImages (or_else (ts_output c) []) = []"

text \<open>No call but the last one of an item returns an image.\<close>

definition images_last :: "chat_item \<Rightarrow> bool" where
  "images_last it \<longleftrightarrow> list_all no_image (butlast (or_else (it_states it) []))"

lemma call_messages_plain: "no_image c \<or> \<not> newest \<Longrightarrow> map snd (call_messages newest c) = [tool_message c]"
  by (auto simp: call_messages_def no_image_def buildToolImageUserMessage_def)

lemma call_messages_cases:
  "map snd (call_messages newest c) = [tool_message c] \<or>
   (\<exists>m. map snd (call_messages newest c) = [tool_message c, m] \<and> cm_role m = UserRole)"
  by (auto simp: call_messages_def buildToolImageUserMessage_def plain_message_def split: option.split)

lemma tool_message_answers:
  "cm_role (tool_message c) = ToolRole"
  "\<lbrakk>cm_role m = AssistantRole; cm_toolCalls m = Some (map (\<lambda>c. call_json (ts_toolCall c)) ss); c \<in> set ss\<rbrakk> \<Longrightarrow>
   messageHasToolCallId m (cm_toolCallId (tool_message c))"
  by (auto simp: tool_message_def plain_message_def messageHasToolCallId_def call_json_def)

lemma item_well_answered:
  assumes "calls_match it" "newest \<Longrightarrow> images_last it"
  shows "well_answered (map snd (item_messages systemTools newest it))"
proof -
  let ?ss = "or_else (it_states it) []"
  let ?m = "it_message it"
  consider "item_messages systemTools newest it = []" | "item_messages systemTools newest it = user_messages it" "item_role it = UserRole"
    | "item_messages systemTools newest it = [(it_contextItems it, ?m)]" "item_role it \<noteq> ToolRole"
    | "item_messages systemTools newest it = system_tool_messages newest it ?ss" "item_role it = AssistantRole"
    | "item_messages systemTools newest it = (it_contextItems it, ?m) # concat (map (call_messages newest) ?ss)"
      "item_role it = AssistantRole" "?ss \<noteq> []"
  proof (cases "item_role it = SystemRole \<or> item_role it = ToolRole \<or> chatMessageIsEmpty ?m")
    case True
    then show ?thesis using that(1) by (simp add: item_messages_def)
  next
    case False
    then show ?thesis
      using that(2,3,4,5) by (cases "item_role it"; cases "?ss = []"; cases systemTools) (simp_all add: item_messages_def Let_def)
  qed
  then show ?thesis
  proof cases
    case 2
    then show ?thesis using answered_single by (simp add: user_messages_def item_role_def)
  next
    case 3
    then show ?thesis using answered_single by (simp add: item_role_def)
  next
    case 4
    have "well_answered ([a] @ [u])" if "cm_role a = AssistantRole" "cm_role u = UserRole" for a u
      using well_answered_append [OF answered_single answered_single, of a u] that by simp
    then show ?thesis
      using 4 by (auto simp: system_tool_messages_def convertToolCallStatesToSystemCallsAndOutput_def Let_def
          item_role_def plain_message_def)
  next
    case 5
    then obtain ss c where ss: "?ss = ss @ [c]" by (metis rev_exhaust)
    then have states: "it_states it = Some (ss @ [c])" by (cases "it_states it") simp_all
    have m: "cm_role ?m = AssistantRole" "cm_toolCalls ?m = Some (map (\<lambda>c. call_json (ts_toolCall c)) (ss @ [c]))"
      using 5(2) assms(1) states by (simp_all add: item_role_def calls_match_def)
    have answers: "messageHasToolCallId ?m (cm_toolCallId (tool_message t))" if "t \<in> set (ss @ [c])" for t
      by (rule tool_message_answers(2) [OF m that])
    have block: "well_answered (?m # map tool_message (ss @ [c]))"
    proof (rule well_answered_block)
      show "answered_block (?m # map tool_message (ss @ [c]))"
        unfolding answered_block_def using m(1) tool_message_answers(1) answers
        by (intro exI [of _ ?m] exI [of _ "map tool_message (ss @ [c])"]) auto
    qed
    have "map snd (concat (map (call_messages newest) ss)) = map tool_message ss"
    proof -
      have "no_image c \<or> \<not> newest" if "c \<in> set ss" for c
        using assms(2) ss that by (auto simp: images_last_def list_all_iff)
      then show ?thesis using call_messages_plain by (induction ss) auto
    qed
    then have eq: "map snd (item_messages systemTools newest it) = (?m # map tool_message ss) @ map snd (call_messages newest c)"
      using 5(1) ss by simp
    from call_messages_cases [of newest c] show ?thesis
    proof
      assume "map snd (call_messages newest c) = [tool_message c]"
      then show ?thesis using eq block by simp
    next
      assume "\<exists>m. map snd (call_messages newest c) = [tool_message c, m] \<and> cm_role m = UserRole"
      then obtain u where u: "map snd (call_messages newest c) = [tool_message c] @ [u]" "cm_role u = UserRole" by auto
      then show ?thesis using eq well_answered_append [OF block answered_single [of u]] by simp
    qed
  qed (simp add: well_answered_Nil)
qed

section \<open>The messages of a session compile\<close>

lemma all_messages_well_answered:
  "\<forall>it\<in>set its. calls_match it \<and> images_last it \<Longrightarrow> well_answered (map snd (all_messages systemTools l i its))"
proof (induction its arbitrary: i)
  case (Cons it its)
  then show ?case
    using well_answered_append [OF item_well_answered [of it "i = l" systemTools] Cons.IH [of "i + 1"]] by simp
qed (simp add: well_answered_Nil)

lemma behind_summary_set: "set (snd (behind_summary acc its)) \<subseteq> set acc \<union> set its"
proof (induction its arbitrary: acc)
  case (Cons it its)
  then show ?case using Cons.IH [of "it # acc"] by auto
qed simp

lemma construct_well_answered:
  assumes "\<forall>it\<in>set h. calls_match it \<and> images_last it"
    and "constructMessages env h base rules policies systemTools = (ms, applied, index)"
  shows "well_answered ms"
proof -
  obtain summary its where f: "filteredHistory h = (summary, its)" by (cases "filteredHistory h")
  then have "set its \<subseteq> set h" using behind_summary_set [of "[]" "rev h"] by (simp add: filteredHistory_def)
  then have ok: "well_answered (map snd (all_messages systemTools l 0 its))" for l
    using assms(1) by (intro all_messages_well_answered) auto
  have "\<exists>final l. fst (constructMessages env h base rules policies systemTools) =
      (if trim final = [] then [] else [plain_message SystemRole final]) @ map snd (all_messages systemTools l 0 its)"
    unfolding constructMessages_def f Let_def prod.case split_beta fst_conv snd_conv by (rule exI, rule exI, rule refl)
  then have "\<exists>final l. ms = (if trim final = [] then [] else [plain_message SystemRole final]) @ map snd (all_messages systemTools l 0 its)"
    using assms(2) by (metis fst_conv)
  moreover have "well_answered [plain_message SystemRole final]" for final
    by (rule answered_single) (simp add: plain_message_def)
  ultimately show ?thesis using ok well_answered_append well_answered_Nil by auto
qed

lemma compile_well_answered:
  assumes "well_answered ms"
  shows "compileChatMessages encode model ms contextLength maxTokens images tools \<noteq> Inl (Unmatched_output i)"
proof -
  have "extractToolSequence (conversation images ms) \<noteq> Inl (Unmatched_output i)"
    by (rule well_answered_extract [OF well_answered_conversation [OF assms]])
  then show ?thesis
    by (auto simp: compileChatMessages_def Let_def split: sum.splits prod.splits if_splits)
qed

text \<open>An image that is not the last output hides the calls of the outputs behind it.\<close>

definition done_call :: "string \<Rightarrow> string option \<Rightarrow> tool_call_state" where
  "done_call i pic =
     \<lparr>ts_toolCallId = i, ts_toolCall = \<lparr>tc_id = i, tc_name = ''fetch_image'', tc_args = ''{}''\<rparr>, ts_status = DoneStatus,
      ts_parsedArgs = JObj [], ts_processedArgs = None,
      ts_output = Some [\<lparr>ci_name = ''image'', ci_description = [], ci_content = ''seen'', ci_status = None,
        ci_imageUrl = pic, ci_uri = None, ci_itemId = None\<rparr>],
      ts_tool = None, ts_mcpUiState = None\<rparr>"

definition quiet_env :: rule_env where
  "quiet_env = \<lparr>re_minimatch = \<lambda>_ _. False, re_test = \<lambda>_ _. None, re_match = \<lambda>_ _. None, re_uriPath = \<lambda>_. None\<rparr>"

lemma image_hides_call:
  "compileChatMessages (\<lambda>_. []) ''m''
     (fst (constructMessages quiet_env
        [new_item ''1'' (plain_message UserRole ''look''),
         set_states [done_call ''a'' (Some ''data:x''), done_call ''b'' None] (new_item ''2'' (plain_message AssistantRole []))]
        None [] [] False))
     None 1000 True None = Inl (Unmatched_output (Some ''b''))"
  by code_simp

text \<open>
  With a summary the index of the item that rules are attached to counts from the summary, while the
  session counts from its start.
\<close>

lemma rules_on_wrong_item:
  "snd (snd (constructMessages quiet_env
     [(new_item ''1'' (plain_message UserRole ''old''))\<lparr>it_summary := Some ''s''\<rparr>, new_item ''2'' (plain_message UserRole ''new'')]
     None [] [] False)) = 0"
  by code_simp

end
