(* ===== verification/Session_Steps.thy ===== *)
theory Session_Steps
  imports Chat_Calls Chat_Messages
begin

text \<open>
  The reducer of the session (\<open>sessionSlice\<close>) as one function of the actions that are dispatched, and what
  holds in every session that actions lead to: the messages of its items carry exactly the calls of
  their states, so that the messages constructed from it compile.
\<close>

section \<open>Actions\<close>

record reduce_env =
  rd_parse :: "string \<Rightarrow> json option"
  rd_partial :: "string \<Rightarrow> json option"
  rd_newId :: "nat \<Rightarrow> string"
  rd_now :: int
  rd_absent :: chat_item

text \<open>Actions on the history, on tool calls, and on the other fields of the session.\<close>

datatype history_action =
    AddPromptCompletionPair "json list"
  | SetIsGatheringContext bool
  | ClearDanglingMessages
  | SetContextItemsAtIndex nat "context_item list"
  | SubmitEditorAndInitAtIndex nat json
  | TruncateHistoryToMessage nat
  | DeleteMessage nat
  | DeleteCompaction nat
  | UpdateHistoryItemAtIndex nat "chat_item \<Rightarrow> chat_item"
  | AddContextItemsAtIndex nat "context_item list"
  | SetAppliedRulesAtIndex int "json list"
  | SetInactive
  | StreamUpdate "chat_delta list"
  | NewSession string "(chat_item list \<times> string \<times> string) option"

datatype call_action =
    SetToolGenerated string "tool list"
  | UpdateToolCallOutput string "context_item list" "json option"
  | SetProcessedToolCallArgs string json
  | CancelToolCall string
  | ErrorToolCall string "context_item list option"
  | AcceptToolCall string
  | SetToolCallCalling string

datatype setting_action =
    SetActive
  | SetMainEditorContentTrigger "json option"
  | UpdateFileSymbols "(string \<times> json) list"
  | AbortStream
  | UpdateSessionTitle string
  | SetIsSessionMetadataLoading bool
  | SetAllSessionMetadata "session_metadata list"
  | AddSessionMetadata session_metadata
  | UpdateSessionMetadata string "session_metadata \<Rightarrow> session_metadata" "string option"
  | DeleteSessionMetadata string
  | UpdateApplyState apply_state
  | ResetNextCodeBlockToApplyIndex
  | SetGoal string
  | ClearGoal
  | IncrementGoalNudge
  | CompleteGoal
  | SetIsInEdit bool
  | SetHasReasoningEnabled bool
  | SetManualSystemMessageEnabled bool
  | SetNewestToolbarPreviewForInput string string
  | SetCompactionLoading nat bool
  | SetInlineErrorMessage "string option"
  | SetIsPruned bool
  | SetContextPercentage int

datatype action = History history_action | Call call_action | Setting setting_action

text \<open>\<open>None\<close> where a reducer throws.\<close>

fun reduce_history :: "reduce_env \<Rightarrow> history_action \<Rightarrow> session \<Rightarrow> session option" where
  "reduce_history env (AddPromptCompletionPair logs) s = Some (addPromptCompletionPair (rd_now env) logs s)"
| "reduce_history env (SetIsGatheringContext b) s = Some (setIsGatheringContext b s)"
| "reduce_history env ClearDanglingMessages s = clearDanglingMessages s"
| "reduce_history env (SetContextItemsAtIndex i items) s = Some (setContextItemsAtIndex i items s)"
| "reduce_history env (SubmitEditorAndInitAtIndex i ed) s = Some (submitEditorAndInitAtIndex (rd_newId env) i ed s)"
| "reduce_history env (TruncateHistoryToMessage i) s = Some (truncateHistoryToMessage (rd_newId env) i s)"
| "reduce_history env (DeleteMessage i) s = Some (deleteMessage i s)"
| "reduce_history env (DeleteCompaction i) s = Some (deleteCompaction i s)"
| "reduce_history env (UpdateHistoryItemAtIndex i f) s = Some (updateHistoryItemAtIndex (rd_absent env) i f s)"
| "reduce_history env (AddContextItemsAtIndex i items) s = Some (addContextItemsAtIndex i items s)"
| "reduce_history env (SetAppliedRulesAtIndex i rules) s = Some (setAppliedRulesAtIndex i rules s)"
| "reduce_history env SetInactive s = Some (setInactive s)"
| "reduce_history env (StreamUpdate ms) s = Some (streamUpdate (rd_parse env) (rd_partial env) (rd_newId env) (rd_now env) ms s)"
| "reduce_history env (NewSession uuid p) s = Some (newSession uuid p s)"

fun reduce_call :: "call_action \<Rightarrow> session \<Rightarrow> session" where
  "reduce_call (SetToolGenerated i tools) s = setToolGenerated i tools s"
| "reduce_call (UpdateToolCallOutput i items ui) s = updateToolCallOutput i items ui s"
| "reduce_call (SetProcessedToolCallArgs i args) s = setProcessedToolCallArgs i args s"
| "reduce_call (CancelToolCall i) s = cancelToolCall i s"
| "reduce_call (ErrorToolCall i out) s = errorToolCall i out s"
| "reduce_call (AcceptToolCall i) s = acceptToolCall i s"
| "reduce_call (SetToolCallCalling i) s = setToolCallCalling i s"

fun reduce_setting :: "setting_action \<Rightarrow> session \<Rightarrow> session" where
  "reduce_setting SetActive s = setActive s"
| "reduce_setting (SetMainEditorContentTrigger x) s = setMainEditorContentTrigger x s"
| "reduce_setting (UpdateFileSymbols xs) s = updateFileSymbols xs s"
| "reduce_setting AbortStream s = abortStream s"
| "reduce_setting (UpdateSessionTitle t) s = updateSessionTitle t s"
| "reduce_setting (SetIsSessionMetadataLoading b) s = setIsSessionMetadataLoading b s"
| "reduce_setting (SetAllSessionMetadata ms) s = setAllSessionMetadata ms s"
| "reduce_setting (AddSessionMetadata m) s = addSessionMetadata m s"
| "reduce_setting (UpdateSessionMetadata i f t) s = updateSessionMetadata i f t s"
| "reduce_setting (DeleteSessionMetadata i) s = deleteSessionMetadata i s"
| "reduce_setting (UpdateApplyState p) s = updateApplyState p s"
| "reduce_setting ResetNextCodeBlockToApplyIndex s = resetNextCodeBlockToApplyIndex s"
| "reduce_setting (SetGoal g) s = setGoal g s"
| "reduce_setting ClearGoal s = clearGoal s"
| "reduce_setting IncrementGoalNudge s = incrementGoalNudge s"
| "reduce_setting CompleteGoal s = completeGoal s"
| "reduce_setting (SetIsInEdit b) s = setIsInEdit b s"
| "reduce_setting (SetHasReasoningEnabled b) s = setHasReasoningEnabled b s"
| "reduce_setting (SetManualSystemMessageEnabled b) s = setManualSystemMessageEnabled b s"
| "reduce_setting (SetNewestToolbarPreviewForInput i x) s = setNewestToolbarPreviewForInput i x s"
| "reduce_setting (SetCompactionLoading i b) s = setCompactionLoading i b s"
| "reduce_setting (SetInlineErrorMessage x) s = setInlineErrorMessage x s"
| "reduce_setting (SetIsPruned b) s = setIsPruned b s"
| "reduce_setting (SetContextPercentage x) s = setContextPercentage x s"

fun reduce :: "reduce_env \<Rightarrow> action \<Rightarrow> session \<Rightarrow> session option" where
  "reduce env (History a) s = reduce_history env a s"
| "reduce env (Call a) s = Some (reduce_call a s)"
| "reduce env (Setting a) s = Some (reduce_setting a s)"

fun dispatch_all :: "(reduce_env \<times> action) list \<Rightarrow> session \<Rightarrow> session option" where
  "dispatch_all [] s = Some s"
| "dispatch_all ((env, a) # as) s = (case reduce env a s of None \<Rightarrow> None | Some t \<Rightarrow> dispatch_all as t)"

section \<open>Messages carry the calls of their states\<close>

definition history_ok :: "chat_item list \<Rightarrow> bool" where
  "history_ok h \<longleftrightarrow> (\<forall>it\<in>set h. calls_match it)"

text \<open>What actions bring from outside: items of a saved session, and changes of one item.\<close>

fun action_ok :: "reduce_env \<Rightarrow> action \<Rightarrow> bool" where
  "action_ok env (History (NewSession uuid (Some (h, t, i)))) = history_ok h"
| "action_ok env (History (UpdateHistoryItemAtIndex i f)) = (\<forall>it. calls_match it \<or> it = rd_absent env \<longrightarrow> calls_match (f it))"
| "action_ok env _ = True"

text \<open>A change of an item that its calls do not notice.\<close>

definition same_calls :: "(chat_item \<Rightarrow> chat_item) \<Rightarrow> bool" where
  "same_calls f \<longleftrightarrow> (\<forall>it. it_states (f it) = it_states it \<and> cm_toolCalls (it_message (f it)) = cm_toolCalls (it_message it))"

lemma same_calls_match: "same_calls f \<Longrightarrow> calls_match (f it) = calls_match it"
  by (simp add: same_calls_def calls_match_def)

lemma history_ok_simps [simp]:
  "history_ok []" "history_ok (it # h) \<longleftrightarrow> calls_match it \<and> history_ok h"
  "history_ok (g @ h) \<longleftrightarrow> history_ok g \<and> history_ok h" "history_ok (rev h) = history_ok h"
  by (auto simp: history_ok_def)

lemma history_ok_take: "history_ok h \<Longrightarrow> history_ok (take n h)" "history_ok h \<Longrightarrow> history_ok (drop n h)"
  by (auto simp: history_ok_def dest: in_set_takeD in_set_dropD)

lemma history_ok_update_last:
  "history_ok h \<Longrightarrow> (\<And>it. calls_match it \<Longrightarrow> calls_match (f it)) \<Longrightarrow> history_ok (update_last f h)"
  by (cases h rule: rev_cases) (auto simp: update_last_def)

lemma history_ok_list_update: "history_ok h \<Longrightarrow> calls_match it \<Longrightarrow> history_ok (h[i := it])"
proof -
  assume h: "history_ok h" "calls_match it"
  have "x \<in> set h \<or> x = it" if "x \<in> set (h[i := it])" for x
    using set_update_subset_insert [of h i it] that by blast
  then show ?thesis using h unfolding history_ok_def by blast
qed

lemma history_ok_nth: "history_ok h \<Longrightarrow> i < length h \<Longrightarrow> calls_match (h ! i)"
  by (simp add: history_ok_def)

lemma history_ok_update_at: "history_ok h \<Longrightarrow> (\<And>it. calls_match it \<Longrightarrow> calls_match (f it)) \<Longrightarrow> history_ok (update_at i f h)"
  by (simp add: update_at_def history_ok_list_update history_ok_nth)

lemma history_ok_update_first:
  "history_ok h \<Longrightarrow> (\<And>it. calls_match it \<Longrightarrow> calls_match (f it)) \<Longrightarrow> history_ok (update_first P f h)"
  by (auto simp: history_ok_def dest: set_update_first)

lemma calls_match_new [simp]: "calls_match (new_item i m)"
  by (simp add: calls_match_def new_item_def)

lemma calls_match_set_states [simp]: "calls_match (set_states ss it)"
  by (simp add: calls_match_def set_states_def)

lemma calls_match_copied [simp]: "calls_match (copied_item i m)"
  by (simp add: copied_item_def calls_match_def new_item_def)

text \<open>Streaming.\<close>

lemma add_text_calls: "same_calls (add_text now role t)"
  by (auto simp: same_calls_def add_text_def Let_def split: option.split)

lemma extend_item_match: "calls_match it \<Longrightarrow> calls_match (extend_item parse partial now m t it)"
proof -
  assume it: "calls_match it"
  define it1 where "it1 =
            (if t \<noteq> [] then add_text now (cd_role m) t it
             else if cd_role m = ThinkingRole \<and> is_given (cd_signature m)
             then (if item_role it = ThinkingRole
                   then it\<lparr>it_message := (it_message it)\<lparr>cm_signature := cd_signature m\<rparr>\<rparr> else it)
             else if cd_role m = AssistantRole \<and> or_else (cd_toolCalls m) [] \<noteq> [] \<and> item_role it = AssistantRole
             then handleStreamingToolCallUpdates parse partial m it
             else it)"
  have "calls_match (it\<lparr>it_message := (it_message it)\<lparr>cm_signature := cd_signature m\<rparr>\<rparr>)"
    using it by (simp add: calls_match_def)
  moreover have "calls_match (handleStreamingToolCallUpdates parse partial m it)"
    using it by (simp add: handleStreamingToolCallUpdates_def)
  ultimately have 1: "calls_match it1"
    using it same_calls_match [OF add_text_calls] by (simp add: it1_def)
  have 2: "calls_match (it1\<lparr>it_outputIds := x\<rparr>)" "calls_match (it1\<lparr>it_details := y\<rparr>)"
    "calls_match (it1\<lparr>it_outputIds := x, it_details := y\<rparr>)" for x y
    using 1 by (simp_all add: calls_match_def)
  show ?thesis
    unfolding extend_item_def Let_def it1_def [symmetric] using 1 2 by simp
qed

lemma stream_message_ok: "history_ok h \<Longrightarrow> history_ok (fst (stream_message parse partial new_id now m h))"
proof -
  assume h: "history_ok h"
  have "calls_match (it\<lparr>it_reasoning := r\<rparr>) = calls_match it" for it r by (simp add: calls_match_def)
  moreover have "calls_match (handleToolCallsInMessage parse partial m (new_item i x))" for i x
    by (simp add: handleToolCallsInMessage_def)
  ultimately show ?thesis
    using h history_ok_update_last [OF h] extend_item_match
    by (auto simp: stream_message_def Let_def split: option.split)
qed

lemma stream_messages_ok: "history_ok h \<Longrightarrow> history_ok (stream_messages parse partial new_id now ms h)"
proof (induction ms arbitrary: h)
  case (Cons m ms)
  then show ?case using stream_message_ok [of h parse partial new_id now m] by (auto split: prod.split)
qed simp

text \<open>Reducers of tool calls.\<close>

lemma update_first_states:
  "(\<And>c. ts_toolCall (f c) = ts_toolCall c) \<Longrightarrow> map ts_toolCall (update_first P f cs) = map ts_toolCall cs"
  by (induction cs) auto

lemma update_first_Nil [simp]: "update_first P f xs = [] \<longleftrightarrow> xs = []"
  by (cases xs) auto

lemma update_call_ok:
  assumes "\<And>c. ts_toolCall (f c) = ts_toolCall c" "history_ok h"
  shows "history_ok (update_call i f h)"
proof -
  have "calls_match (it\<lparr>it_states := map_option (update_first (\<lambda>c. ts_toolCallId c = i) f) (it_states it)\<rparr>)"
    if it: "calls_match it" for it
  proof -
    have "map (\<lambda>c. call_json (ts_toolCall c)) (update_first P f cs) = map (\<lambda>c. call_json (ts_toolCall c)) cs" for P cs
      using arg_cong [OF update_first_states [of f P cs, OF assms(1)], of "map call_json"] by (simp add: comp_def)
    then show ?thesis using it by (auto simp: calls_match_def)
  qed
  then show ?thesis
    unfolding update_call_def using assms(2) by (simp add: history_ok_update_first)
qed

lemma reduce_call_ok: "history_ok (ss_history s) \<Longrightarrow> history_ok (ss_history (reduce_call a s))"
proof (cases a)
  case (UpdateToolCallOutput i items ui)
  assume "history_ok (ss_history s)"
  then have "history_ok (update_call i (\<lambda>c. c\<lparr>ts_output := Some items, ts_mcpUiState := ui\<rparr>) (ss_history s))"
    by (intro update_call_ok) simp_all
  then have "history_ok (update_first (is_output_of i)
      (\<lambda>it. it\<lparr>it_message := (it_message it)\<lparr>cm_content := Plain (renderContextItems items)\<rparr>,
         it_contextItems := map (toolCallCtxItemToCtxItemWithId i) items\<rparr>)
      (rev (update_call i (\<lambda>c. c\<lparr>ts_output := Some items, ts_mcpUiState := ui\<rparr>) (ss_history s))))"
    by (intro history_ok_update_first) (auto simp: calls_match_def)
  then show ?thesis by (simp add: UpdateToolCallOutput updateToolCallOutput_def on_call_def Let_def)
qed (auto simp: setToolGenerated_def setProcessedToolCallArgs_def cancelToolCall_def errorToolCall_def acceptToolCall_def
    setToolCallCalling_def on_call_def Let_def split: option.split intro!: update_call_ok)

lemma reduce_setting_ok: "ss_history (reduce_setting a s) = ss_history s"
  by (cases a) (auto simp: setMainEditorContentTrigger_def updateFileSymbols_def updateSessionTitle_def
    setIsSessionMetadataLoading_def setAllSessionMetadata_def addSessionMetadata_def updateSessionMetadata_def
    deleteSessionMetadata_def updateApplyState_def resetNextCodeBlockToApplyIndex_def setGoal_def clearGoal_def
    incrementGoalNudge_def completeGoal_def setIsInEdit_def setHasReasoningEnabled_def
    setManualSystemMessageEnabled_def setNewestToolbarPreviewForInput_def setCompactionLoading_def
    setInlineErrorMessage_def setIsPruned_def setContextPercentage_def setActive_def abortStream_def Let_def)

lemma cancel_pending_call [simp]: "ts_toolCall (cancel_pending c) = ts_toolCall c"
  by (simp add: cancel_pending_def)

lemma cancel_dangling_match: "calls_match it \<Longrightarrow> calls_match (cancel_dangling it)"
  by (auto simp: cancel_dangling_def calls_match_def comp_def)

lemma clear_ok: "history_ok (ss_history s) \<Longrightarrow> clearDanglingMessages s = Some t \<Longrightarrow> history_ok (ss_history t)"
proof -
  assume h: "history_ok (ss_history s)" and t: "clearDanglingMessages s = Some t"
  obtain n answers where a: "answer_part (ss_history s) = (n, answers)" by (cases "answer_part (ss_history s)")
  then have "set answers \<subseteq> set (ss_history s)"
    using set_takeWhileD [of _ _ "rev (ss_history s)"] by (auto simp: answer_part_def Let_def)
  moreover have "set (rev (dropWhile (\<lambda>it. \<not> valid_answer it) (rev answers))) \<subseteq> set answers"
    by (auto dest: set_dropWhileD)
  ultimately have "history_ok (rev (dropWhile (\<lambda>it. \<not> valid_answer it) (rev answers)))"
    using h by (auto simp: history_ok_def)
  then show ?thesis
    using h t history_ok_take cancel_dangling_match
    by (auto simp: clearDanglingMessages_def a Let_def history_ok_update_last split: if_splits)
qed

lemma reduce_history_ok:
  assumes "history_ok (ss_history s)" "reduce_history env a s = Some t" "action_ok env (History a)"
  shows "history_ok (ss_history t)"
proof (cases a)
  case ClearDanglingMessages
  then show ?thesis using assms clear_ok by simp
next
  case (SubmitEditorAndInitAtIndex i ed)
  define it where "it = (ss_history s ! i)\<lparr>it_message := (it_message (ss_history s ! i))\<lparr>cm_content := Plain []\<rparr>,
    it_editorState := Some ed, it_contextItems := []\<rparr>"
  have "calls_match it" if "i < length (ss_history s)"
  proof -
    have "calls_match (ss_history s ! i)" using assms(1) that by (simp add: history_ok_def)
    then show ?thesis by (simp add: it_def calls_match_def)
  qed
  then have "history_ok (take (i + 1) ((ss_history s)[i := it]))" if "i < length (ss_history s)"
    using assms(1) that by (intro history_ok_take history_ok_list_update)
  moreover have "calls_match ((new_item x m)\<lparr>it_editorState := e\<rparr>)" for x m e by (simp add: calls_match_def new_item_def)
  moreover have "ss_history t = (if ss_history s \<noteq> [] \<and> i < length (ss_history s)
      then take (i + 1) ((ss_history s)[i := it]) @ [new_item (rd_newId env (i + 1)) (plain_message AssistantRole [])]
      else ss_history s @ [(new_item (rd_newId env (length (ss_history s))) (plain_message UserRole []))\<lparr>it_editorState := Some ed\<rparr>,
             new_item (rd_newId env (length (ss_history s) + 1)) (plain_message AssistantRole [])])"
    using assms(2) unfolding SubmitEditorAndInitAtIndex reduce_history.simps submitEditorAndInitAtIndex_def Let_def it_def
    by (auto split: if_splits)
  ultimately show ?thesis using assms(1) by simp
next
  case (UpdateHistoryItemAtIndex i f)
  have f: "calls_match it \<or> it = rd_absent env \<Longrightarrow> calls_match (f it)" for it
    using assms(3) UpdateHistoryItemAtIndex by auto
  have "t = updateHistoryItemAtIndex (rd_absent env) i f s" using assms(2) UpdateHistoryItemAtIndex by simp
  then have t: "ss_history t = (if i \<noteq> 0 \<and> length (ss_history s) \<le> i then ss_history s
      else if i < length (ss_history s) then (ss_history s)[i := f (ss_history s ! i)] else [f (rd_absent env)])"
    by (simp add: updateHistoryItemAtIndex_def Let_def)
  have "history_ok ((ss_history s)[i := f (ss_history s ! i)])" if "i < length (ss_history s)"
    using history_ok_list_update [OF assms(1)] f history_ok_nth [OF assms(1) that] by blast
  moreover have "history_ok [f (rd_absent env)]" using f by simp
  ultimately show ?thesis using assms(1) unfolding t by presburger
next
  case (NewSession uuid p)
  then show ?thesis using assms by (cases p) (auto simp: newSession_def Let_def)
next
  case (StreamUpdate ms)
  then show ?thesis using assms stream_messages_ok by (auto simp: streamUpdate_def)
next
  case (AddPromptCompletionPair logs)
  have "history_ok (update_last (\<lambda>it. it\<lparr>it_promptLogs := l it, it_reasoning := r it\<rparr>) (ss_history s))" for l r
    using assms(1) by (intro history_ok_update_last) (simp_all add: calls_match_def)
  then show ?thesis using assms(2) by (auto simp: AddPromptCompletionPair addPromptCompletionPair_def)
next
  case (SetIsGatheringContext b)
  have "history_ok (update_last (\<lambda>it. it\<lparr>it_gathering := b\<rparr>) (ss_history s))"
    using assms(1) by (intro history_ok_update_last) (simp_all add: calls_match_def)
  then show ?thesis using assms(2) by (auto simp: SetIsGatheringContext setIsGatheringContext_def)
next
  case SetInactive
  have "history_ok (update_last (\<lambda>it. it\<lparr>it_gathering := False\<rparr>) (ss_history s))"
    using assms(1) by (intro history_ok_update_last) (simp_all add: calls_match_def)
  then show ?thesis using assms(2) by (auto simp: SetInactive setInactive_def setIsGatheringContext_def)
next
  case (SetContextItemsAtIndex i items)
  have "history_ok (update_at i (\<lambda>it. it\<lparr>it_contextItems := items\<rparr>) (ss_history s))"
    using assms(1) by (intro history_ok_update_at) (simp_all add: calls_match_def)
  then show ?thesis using assms(2) by (auto simp: SetContextItemsAtIndex setContextItemsAtIndex_def)
next
  case (AddContextItemsAtIndex i items)
  have "history_ok (update_at i (\<lambda>it. it\<lparr>it_contextItems := it_contextItems it @ items\<rparr>) (ss_history s))"
    using assms(1) by (intro history_ok_update_at) (simp_all add: calls_match_def)
  then show ?thesis using assms(2) by (auto simp: AddContextItemsAtIndex addContextItemsAtIndex_def)
next
  case (SetAppliedRulesAtIndex i rules)
  have "history_ok (update_at (nat i) (\<lambda>it. it\<lparr>it_appliedRules := Some rules\<rparr>) (ss_history s))"
    using assms(1) by (intro history_ok_update_at) (simp_all add: calls_match_def)
  then show ?thesis using assms(1,2) by (auto simp: SetAppliedRulesAtIndex setAppliedRulesAtIndex_def)
next
  case (DeleteCompaction i)
  have "history_ok (update_at i (\<lambda>it. if is_given (it_summary it) then it\<lparr>it_summary := None\<rparr> else it) (ss_history s))"
    using assms(1) by (intro history_ok_update_at) (simp_all add: calls_match_def)
  then show ?thesis using assms(2) by (auto simp: DeleteCompaction deleteCompaction_def)
next
  case (TruncateHistoryToMessage i)
  then show ?thesis using assms(1,2) history_ok_take by (auto simp: truncateHistoryToMessage_def Let_def)
next
  case (DeleteMessage i)
  then show ?thesis using assms(1,2) history_ok_take by (auto simp: deleteMessage_def Let_def)
qed

lemma reduce_ok:
  "history_ok (ss_history s) \<Longrightarrow> reduce env a s = Some t \<Longrightarrow> action_ok env a \<Longrightarrow> history_ok (ss_history t)"
  using reduce_history_ok reduce_call_ok reduce_setting_ok by (cases a) auto

lemma dispatch_all_ok:
  "dispatch_all as s = Some t \<Longrightarrow> \<forall>(env, a)\<in>set as. action_ok env a \<Longrightarrow> history_ok (ss_history s) \<Longrightarrow>
   history_ok (ss_history t)"
proof (induction as arbitrary: s)
  case (Cons x as)
  then show ?case using reduce_ok by (cases x) (auto split: option.splits)
qed simp

section \<open>Requests of a session\<close>

lemma history_ok_initial: "history_ok (ss_history (INITIAL_SESSION_STATE uuid))"
  by (simp add: INITIAL_SESSION_STATE_def)


definition sample_env :: reduce_env where
  "sample_env = \<lparr>rd_parse = \<lambda>s. if s = ''{}'' then Some (JObj []) else None, rd_partial = \<lambda>_. None, rd_newId = show_nat,
     rd_now = 0, rd_absent = new_item [] (plain_message UserRole [])\<rparr>"

definition sample_actions :: "action list" where
  "sample_actions =
     [History (SubmitEditorAndInitAtIndex 0 (JStr ''hello'')),
      History (StreamUpdate [call_part ''a'' ''read_file'' ''{}'', call_part ''b'' ''ls'' ''{}'']),
      Call (SetToolGenerated ''a'' []), Call (SetToolGenerated ''b'' []), Call (SetToolCallCalling ''a''),
      Call (UpdateToolCallOutput ''a'' [\<lparr>ci_name = ''f'', ci_description = [], ci_content = ''text'', ci_status = None,
        ci_imageUrl = None, ci_uri = None, ci_itemId = None\<rparr>] None),
      Call (AcceptToolCall ''a''), Call (CancelToolCall ''b'')]"


end
