(* ===== verification/Agent_Tools.thy ===== *)
theory Agent_Tools
  imports Session_Steps Terminal_Security
begin

text \<open>
  Which tools a chat offers and which calls run without a question: the settings of tools and rules
  (\<open>gui/src/redux/slices/uiSlice.ts\<close>), the active tools (\<open>selectors/selectActiveTools.ts\<close>,
  \<open>core/tools/applyToolOverrides.ts\<close>), the policy of a call
  (\<open>thunks/evaluateToolPolicies.ts\<close>) and the answer of the core (\<open>core/core.ts\<close>, \<open>definitions/runTerminalCommand.ts\<close>,
  \<open>policies/fileAccess.ts\<close>).
\<close>

section \<open>Settings\<close>

record ui_settings =
  ui_toolSettings :: "(string, tool_policy) jmap"
  ui_toolGroupSettings :: "(string, string) jmap"
  ui_ruleSettings :: "(string, string) jmap"
  ui_reasoningSettings :: "(string, bool) jmap"

definition BUILT_IN_GROUP_NAME :: string where
  "BUILT_IN_GROUP_NAME = ''Built-In''"

definition DEFAULT_TOOL_SETTING :: tool_policy where
  "DEFAULT_TOOL_SETTING = AllowedWithPermission"

definition DEFAULT_RULE_SETTING :: string where
  "DEFAULT_RULE_SETTING = ''on''"

definition DEFAULT_UI_SLICE :: ui_settings where
  "DEFAULT_UI_SLICE =
     \<lparr>ui_toolSettings = [], ui_toolGroupSettings = [(BUILT_IN_GROUP_NAME, ''include'')],
      ui_ruleSettings = [], ui_reasoningSettings = []\<rparr>"

definition addTool :: "tool \<Rightarrow> ui_settings \<Rightarrow> ui_settings" where
  "addTool t u = u\<lparr>ui_toolSettings :=
     AList.update (tool_name t) (or_else (tool_defaultPolicy t) DEFAULT_TOOL_SETTING) (ui_toolSettings u)\<rparr>"

definition setToolPolicy :: "string \<Rightarrow> tool_policy \<Rightarrow> ui_settings \<Rightarrow> ui_settings" where
  "setToolPolicy name p u = u\<lparr>ui_toolSettings := AList.update name p (ui_toolSettings u)\<rparr>"

definition clearToolPolicy :: "string \<Rightarrow> ui_settings \<Rightarrow> ui_settings" where
  "clearToolPolicy name u = u\<lparr>ui_toolSettings := AList.delete name (ui_toolSettings u)\<rparr>"

definition next_setting :: "tool_policy option \<Rightarrow> tool_policy" where
  "next_setting p =
     (case p of
        Some AllowedWithPermission \<Rightarrow> AllowedWithoutPermission
      | Some AllowedWithoutPermission \<Rightarrow> Disabled
      | Some Disabled \<Rightarrow> AllowedWithPermission
      | None \<Rightarrow> DEFAULT_TOOL_SETTING)"

definition toggleToolSetting :: "string \<Rightarrow> ui_settings \<Rightarrow> ui_settings" where
  "toggleToolSetting name u =
     u\<lparr>ui_toolSettings := AList.update name (next_setting (map_of (ui_toolSettings u) name)) (ui_toolSettings u)\<rparr>"

definition toggleToolGroupSetting :: "string \<Rightarrow> ui_settings \<Rightarrow> ui_settings" where
  "toggleToolGroupSetting g u =
     (let setting = or_else (map_of (ui_toolGroupSettings u) g) ''include'' in
      u\<lparr>ui_toolGroupSettings :=
        AList.update g (if setting = ''include'' then ''exclude'' else ''include'') (ui_toolGroupSettings u)\<rparr>)"

definition addRule :: "string \<Rightarrow> ui_settings \<Rightarrow> ui_settings" where
  "addRule name u = u\<lparr>ui_ruleSettings := AList.update name DEFAULT_RULE_SETTING (ui_ruleSettings u)\<rparr>"

definition toggleRuleSetting :: "string \<Rightarrow> ui_settings \<Rightarrow> ui_settings" where
  "toggleRuleSetting name u =
     (let setting = map_of (ui_ruleSettings u) name in
      u\<lparr>ui_ruleSettings :=
        AList.update name
          (if setting = Some ''on'' then ''off'' else if setting = Some ''off'' then ''on'' else DEFAULT_RULE_SETTING)
          (ui_ruleSettings u)\<rparr>)"

definition setReasoningSetting :: "string \<Rightarrow> bool \<Rightarrow> ui_settings \<Rightarrow> ui_settings" where
  "setReasoningSetting title enabled u =
     u\<lparr>ui_reasoningSettings := AList.update title enabled (ui_reasoningSettings u)\<rparr>"

section \<open>Active tools\<close>

definition base_policy :: "(string, tool_policy) jmap \<Rightarrow> string \<Rightarrow> tool_policy option \<Rightarrow> tool_policy" where
  "base_policy policies name fallback =
     (case map_of policies name of Some p \<Rightarrow> p | None \<Rightarrow> or_else fallback DEFAULT_TOOL_SETTING)"

definition selectActiveTools :: "tool list \<Rightarrow> ui_settings \<Rightarrow> session_goal option \<Rightarrow> tool list" where
  "selectActiveTools tools u goal =
     filter (\<lambda>t.
       if tool_name t = ''mark_goal_complete'' then (case goal of Some g \<Rightarrow> \<not> go_completed g | None \<Rightarrow> False)
       else base_policy (ui_toolSettings u) (tool_name t) (tool_defaultPolicy t) \<noteq> Disabled \<and>
            map_of (ui_toolGroupSettings u) (tool_group t) \<noteq> Some ''exclude'') tools"

text \<open>
  An override changes descriptions and titles, which are no part of the model, or disables the tool.
  The second result lists the names that no tool has.
\<close>

record tool_override =
  tv_name :: string
  tv_disabled :: bool

fun override_loop :: "tool_override list \<Rightarrow> (string, tool) jmap \<times> string list \<Rightarrow> (string, tool) jmap \<times> string list" where
  "override_loop [] st = st"
| "override_loop (v # vs) (m, errors) =
     (case map_of m (tv_name v) of
        None \<Rightarrow> override_loop vs (m, errors @ [tv_name v])
      | Some t \<Rightarrow>
          if tv_disabled v then override_loop vs (AList.delete (tv_name v) m, errors)
          else override_loop vs (AList.update (tv_name v) t m, errors))"

definition applyToolOverrides :: "tool list \<Rightarrow> tool_override list \<Rightarrow> tool list \<times> string list" where
  "applyToolOverrides tools overrides =
     (if overrides = [] then (tools, [])
      else let (m, errors) = override_loop overrides (fold (\<lambda>t. AList.update (tool_name t) t) tools [], [])
           in (map snd m, errors))"

section \<open>The answer of the core\<close>

text \<open>
  A tool of the core with the policy it computes from the arguments of a call; \<open>None\<close> is a thrown
  error, here the property of \<open>null\<close>.
\<close>

record core_tool =
  co_name :: string
  co_evaluate :: "(tool_policy \<Rightarrow> json \<Rightarrow> json option \<Rightarrow> tool_policy option) option"

definition command_of :: "json \<Rightarrow> string option" where
  "command_of args = (case js_prop ''command'' args of Some (JStr c) \<Rightarrow> Some c | _ \<Rightarrow> None)"

definition evaluateTerminalCall ::
  "(string \<Rightarrow> parsed_token list option) \<Rightarrow> tool_policy \<Rightarrow> json \<Rightarrow> json option \<Rightarrow> tool_policy option" where
  "evaluateTerminalCall parse base args processed =
     (if args = JNull then None else Some (evaluateTerminalCommandSecurity parse base (command_of args)))"

definition evaluateFileAccessPolicy :: "tool_policy \<Rightarrow> bool \<Rightarrow> tool_policy" where
  "evaluateFileAccessPolicy basePolicy isWithinWorkspace =
     (if basePolicy = Disabled then Disabled else if isWithinWorkspace then basePolicy else AllowedWithPermission)"

text \<open>The handler of \<open>tools/evaluatePolicy\<close>; a configuration that is not loaded is \<open>None\<close>.\<close>

definition evaluatePolicy ::
  "core_tool list option \<Rightarrow> string \<Rightarrow> tool_policy \<Rightarrow> json \<Rightarrow> json option \<Rightarrow> (tool_policy \<times> json option) option" where
  "evaluatePolicy config toolName basePolicy parsedArgs processedArgs =
     (case config of
        None \<Rightarrow> None
      | Some tools \<Rightarrow>
          (case List.find (\<lambda>t. co_name t = toolName) tools of
             None \<Rightarrow> Some (basePolicy, None)
           | Some tool \<Rightarrow>
               if toolName = ''runTerminalCommand'' \<and> parsedArgs = JNull then None
               else let display = (if toolName = ''runTerminalCommand''
                                   then (case js_prop ''command'' parsedArgs of
                                           Some c \<Rightarrow> if truthy c then Some c else None | None \<Rightarrow> None)
                                   else None)
                    in (case co_evaluate tool of
                          None \<Rightarrow> Some (basePolicy, display)
                        | Some f \<Rightarrow> map_option (\<lambda>p. (p, display)) (f basePolicy parsedArgs processedArgs))))"

section \<open>The policy of a call\<close>

record evaluated_policy =
  ep_policy :: tool_policy
  ep_display :: "json option"
  ep_call :: tool_call_state

abbreviation call_name :: "tool_call_state \<Rightarrow> string" where
  "call_name c \<equiv> tc_name (ts_toolCall c)"

definition call_base :: "tool list \<Rightarrow> (string, tool_policy) jmap \<Rightarrow> string \<Rightarrow> tool_policy" where
  "call_base activeTools toolPolicies name =
     base_policy toolPolicies name
       (case List.find (\<lambda>t. tool_name t = name) activeTools of Some t \<Rightarrow> tool_defaultPolicy t | None \<Rightarrow> None)"

text \<open>\<open>request\<close> is the answer to \<open>tools/evaluatePolicy\<close>, \<open>None\<close> an error.\<close>

type_synonym policy_request = "string \<Rightarrow> tool_policy \<Rightarrow> json \<Rightarrow> json option \<Rightarrow> (tool_policy \<times> json option) option"

definition evaluateToolPolicy ::
  "policy_request \<Rightarrow> tool list \<Rightarrow> (string, tool_policy) jmap \<Rightarrow> tool_call_state \<Rightarrow> evaluated_policy" where
  "evaluateToolPolicy request activeTools toolPolicies c =
     (let basePolicy = call_base activeTools toolPolicies (call_name c);
          answer = (\<lambda>p display. \<lparr>ep_policy = p, ep_display = display, ep_call = c\<rparr>)
      in if isEditTool (call_name c) then answer AllowedWithoutPermission None
         else if map_of toolPolicies (call_name c) = Some AllowedWithoutPermission then answer AllowedWithoutPermission None
         else (case request (call_name c) basePolicy (ts_parsedArgs c) (ts_processedArgs c) of
                 None \<Rightarrow> answer Disabled None
               | Some (dynamicPolicy, display) \<Rightarrow>
                   if basePolicy = Disabled then answer Disabled display
                   else if basePolicy = AllowedWithPermission \<and> dynamicPolicy = AllowedWithoutPermission
                   then answer AllowedWithPermission display
                   else answer dynamicPolicy display))"

definition text_item :: "string \<Rightarrow> string \<Rightarrow> string \<Rightarrow> context_item" where
  "text_item name description body =
     \<lparr>ci_name = name, ci_description = description, ci_content = body, ci_status = None, ci_imageUrl = None,
      ci_uri = None, ci_itemId = None\<rparr>"

definition refusal :: "evaluated_policy \<Rightarrow> context_item" where
  "refusal e =
     text_item ''Security Policy Violation'' ''Command Disabled''
       (''This command has been disabled by security policy:'' @ [newline, newline] @
        (case ep_display e of Some d \<Rightarrow> if truthy d then js_to_string d else call_name (ep_call e) | None \<Rightarrow> call_name (ep_call e)) @
        [newline, newline] @ ''This command cannot be executed as it may pose a security risk.'')"

definition refuse_call :: "evaluated_policy \<Rightarrow> session \<Rightarrow> session" where
  "refuse_call e s =
     updateToolCallOutput (ts_toolCallId (ep_call e)) [refusal e] None (errorToolCall (ts_toolCallId (ep_call e)) None s)"

definition refuse_disabled :: "evaluated_policy list \<Rightarrow> session \<Rightarrow> session" where
  "refuse_disabled results s = fold refuse_call (filter (\<lambda>e. ep_policy e = Disabled) results) s"

text \<open>The whole function, where nothing happens while the requests are answered.\<close>

definition evaluateToolPolicies ::
  "policy_request \<Rightarrow> tool list \<Rightarrow> (string, tool_policy) jmap \<Rightarrow> tool_call_state list \<Rightarrow> session \<Rightarrow>
   evaluated_policy list \<times> session" where
  "evaluateToolPolicies request activeTools toolPolicies calls s =
     (let results = map (evaluateToolPolicy request activeTools toolPolicies) calls
      in (results, refuse_disabled results s))"

section \<open>What runs without a question\<close>

text \<open>
  Three ways: the edit tools, the tools the user set to automatic, and those whose base policy and whose
  computed policy are both automatic.
\<close>

definition permitted :: "policy_request \<Rightarrow> tool list \<Rightarrow> (string, tool_policy) jmap \<Rightarrow> tool_call_state \<Rightarrow> bool" where
  "permitted request activeTools toolPolicies c \<longleftrightarrow>
     isEditTool (call_name c) \<or>
     map_of toolPolicies (call_name c) = Some AllowedWithoutPermission \<or>
     (call_base activeTools toolPolicies (call_name c) = AllowedWithoutPermission \<and>
      map_option fst (request (call_name c) AllowedWithoutPermission (ts_parsedArgs c) (ts_processedArgs c)) =
        Some AllowedWithoutPermission)"

lemma automatic_iff:
  "ep_policy (evaluateToolPolicy request activeTools toolPolicies c) = AllowedWithoutPermission \<longleftrightarrow>
   permitted request activeTools toolPolicies c"
  by (cases "call_base activeTools toolPolicies (call_name c)")
    (auto simp: evaluateToolPolicy_def permitted_def Let_def split: option.splits)

lemma ep_call_evaluate [simp]: "ep_call (evaluateToolPolicy request activeTools toolPolicies c) = c"
  by (auto simp: evaluateToolPolicy_def Let_def split: option.splits)

text \<open>The computed policy never undercuts the base policy unless the user or the edit tools do.\<close>

lemma policy_at_least_base:
  assumes "\<not> isEditTool (call_name c)" "map_of toolPolicies (call_name c) \<noteq> Some AllowedWithoutPermission"
  shows "call_base activeTools toolPolicies (call_name c) \<le> ep_policy (evaluateToolPolicy request activeTools toolPolicies c)"
  using assms
  by (cases "call_base activeTools toolPolicies (call_name c)")
    (auto simp: evaluateToolPolicy_def Let_def less_eq_tool_policy_def severity_def split: option.splits tool_policy.splits)

text \<open>With the handler of the core: a terminal command that the user did not set to automatic runs without a
  question only if the classifier of commands lets it.\<close>

lemma terminal_permitted:
  assumes "permitted (evaluatePolicy (Some tools)) activeTools toolPolicies c" "call_name c = ''run_terminal_command''"
    "map_of toolPolicies ''run_terminal_command'' \<noteq> Some AllowedWithoutPermission"
    "List.find (\<lambda>t. co_name t = ''run_terminal_command'') tools =
       Some \<lparr>co_name = ''run_terminal_command'', co_evaluate = Some (evaluateTerminalCall parse)\<rparr>"
  shows "evaluateTerminalCommandSecurity parse AllowedWithoutPermission (command_of (ts_parsedArgs c)) = AllowedWithoutPermission"
proof -
  have "\<not> isEditTool ''run_terminal_command''" by code_simp
  then show ?thesis
    using assms by (auto simp: permitted_def evaluatePolicy_def evaluateTerminalCall_def Let_def split: if_splits)
qed

text \<open>
  An edit tool runs even where its setting is \<open>disabled\<close>; and the command of a refused terminal
  call is never shown, since the handler looks for the tool under another name.
\<close>

lemma disabled_edit_runs:
  "ep_policy (evaluateToolPolicy request activeTools [(''multi_edit'', Disabled)]
     (c\<lparr>ts_toolCall := \<lparr>tc_id = i, tc_name = ''multi_edit'', tc_args = a\<rparr>\<rparr>)) = AllowedWithoutPermission"
proof -
  have "isEditTool ''multi_edit''" by code_simp
  then show ?thesis by (simp add: evaluateToolPolicy_def)
qed

lemma terminal_display_missing:
  assumes "evaluatePolicy (Some tools) ''run_terminal_command'' base args processed = Some (p, display)"
  shows "display = None"
  using assms by (auto simp: evaluatePolicy_def Let_def split: option.splits)

text \<open>A tool that the user or its definition disables is not offered, and neither is one of an excluded group.\<close>

lemma selectActiveTools_iff:
  "t \<in> set (selectActiveTools tools u goal) \<longleftrightarrow> t \<in> set tools \<and>
     (if tool_name t = ''mark_goal_complete'' then \<exists>g. goal = Some g \<and> \<not> go_completed g
      else base_policy (ui_toolSettings u) (tool_name t) (tool_defaultPolicy t) \<noteq> Disabled \<and>
        map_of (ui_toolGroupSettings u) (tool_group t) \<noteq> Some ''exclude'')"
  by (auto simp: selectActiveTools_def split: option.splits)

lemma toggle_cycle:
  "map_of (ui_toolSettings (toggleToolSetting n (toggleToolSetting n (toggleToolSetting n u)))) n =
     Some (case map_of (ui_toolSettings u) n of Some p \<Rightarrow> p | None \<Rightarrow> Disabled)"
  by (auto simp: toggleToolSetting_def next_setting_def DEFAULT_TOOL_SETTING_def update_conv' split: option.splits tool_policy.splits)

text \<open>Overriding gives back the tools, by name, that no override disables.\<close>

lemma delete_filter: "AList.delete k m = filter (\<lambda>(n, t). n \<noteq> k) m"
  by (induction m) auto

lemma update_same: "map_of m k = Some t \<Longrightarrow> AList.update k t m = m"
  by (induction m) (auto split: if_splits)

lemma override_loop_keys:
  "fst (override_loop vs (m, errors)) = filter (\<lambda>(n, t). \<forall>v\<in>set vs. tv_disabled v \<longrightarrow> tv_name v \<noteq> n) m"
proof (induction vs "(m, errors)" arbitrary: m errors rule: override_loop.induct)
  case (2 v vs m errors)
  show ?case
  proof (cases "map_of m (tv_name v)")
    case None
    then have "tv_name v \<notin> fst ` set m" by (simp add: map_of_eq_None_iff)
    with 2 None show ?thesis by (force intro!: filter_cong)
  next
    case (Some t)
    show ?thesis
    proof (cases "tv_disabled v")
      case True
      with 2(2) Some show ?thesis by (auto simp: delete_filter intro!: filter_cong)
    qed (use 2(3) Some in \<open>auto simp: update_same intro!: filter_cong\<close>)
  qed
qed simp

end
