(* ===== verification/Agent_Turn.thy ===== *)
theory Agent_Turn
  imports Agent_Tools
begin

text \<open>
  A turn of the agent: what \<open>gui/src/redux/thunks/streamNormalInput.ts\<close> does with the tool calls of an answer
  once it has arrived, with \<open>preprocessToolCallArgs.ts\<close>, \<open>evaluateToolPolicies.ts\<close>, \<open>callToolById.ts\<close>,
  \<open>streamResponseAfterToolCall.ts\<close>, \<open>cancelToolCall.ts\<close> and \<open>cancelStream.ts\<close>. A thunk is split at its awaits into functions of the
  session; \<open>turn_step\<close> interleaves the parts with actions of the user and of other thunks.
\<close>

section \<open>The request\<close>

record completion_options =
  op_tools :: "tool list option"
  op_reasoning :: "bool option"
  op_budget :: "int option"

record chat_model =
  md_provider :: string
  md_budget :: "int option"

definition buildReasoningCompletionOptions :: "completion_options \<Rightarrow> bool option \<Rightarrow> chat_model \<Rightarrow> completion_options" where
  "buildReasoningCompletionOptions base enabled model =
     (case enabled of
        None \<Rightarrow> base
      | Some b \<Rightarrow>
          let opts = base\<lparr>op_reasoning := Some b\<rparr>
          in if b \<and> md_provider model \<noteq> ''ollama'' then opts\<lparr>op_budget := Some (or_else (md_budget model) 2048)\<rparr> else opts)"

text \<open>
  What stays fixed during a turn: the tools of the configuration and the active ones, the settings as they
  are read, the answers to \<open>tools/evaluatePolicy\<close>, and the brake on goals.
\<close>

record turn_env =
  te_reduce :: reduce_env
  te_tools :: "tool list"
  te_active :: "tool list"
  te_settings :: "(string, tool_policy) jmap"
  te_request :: policy_request
  te_maxGoalNudges :: "int option"
  te_goalNudgeMessage :: "string option"

abbreviation stream_update :: "turn_env \<Rightarrow> chat_delta list \<Rightarrow> session \<Rightarrow> session" where
  "stream_update env \<equiv>
     streamUpdate (rd_parse (te_reduce env)) (rd_partial (te_reduce env)) (rd_newId (te_reduce env)) (rd_now (te_reduce env))"

text \<open>One round of the loop that reads the stream; the result is \<open>False\<close> where it is left.\<close>

definition stream_round :: "turn_env \<Rightarrow> chat_delta list \<Rightarrow> session \<Rightarrow> session \<times> bool" where
  "stream_round env ms s = (if \<not> ss_isStreaming s then (abortStream s, False) else (stream_update env ms s, True))"

text \<open>A stream that is closed too early is an error of its calls.\<close>

definition premature_close :: "session \<Rightarrow> session" where
  "premature_close s =
     fold (\<lambda>c. errorToolCall (ts_toolCallId c) (Some [text_item ''Tool Call Error'' ''Premature Close''
       (CHR 0x22 # ''Premature Close'' @ CHR 0x22 # '' error: this tool call was aborted mid-stream because the arguments took too long to stream or there were network issues. Please re-attempt by breaking the operation into smaller chunks or trying something else'')]))
       (findAllCurToolCalls (ss_history s)) s"

section \<open>From the end of the stream to the calls\<close>

abbreviation pending :: "session \<Rightarrow> tool_call_state list" where
  "pending s \<equiv> findAllCurToolCallsByStatus (ss_history s) Generated"

abbreviation find_in :: "session \<Rightarrow> string \<Rightarrow> tool_call_state option" where
  "find_in s i \<equiv> findToolCallById (ss_history s) i"

definition stopped :: "nat \<Rightarrow> session \<Rightarrow> bool" where
  "stopped a s \<longleftrightarrow> aborted a s \<or> \<not> ss_isStreaming s"

datatype phase =
    Streamed
  | Preprocessing "tool_call_state list" "tool_call_state list"
  | Evaluating "tool_call_state list" "(tool_call_state \<times> evaluated_policy option) list"
  | Deciding "tool_call_state list" "evaluated_policy list"
  | Starting bool "string list"
  | Responding "string list"
  | Nudged
  | Stopped

definition mark_generated :: "tool list \<Rightarrow> session \<Rightarrow> session" where
  "mark_generated tools s =
     fold (\<lambda>c. setToolGenerated (ts_toolCallId c) tools)
       (filter (\<lambda>c. ts_status c = Generating) (findAllCurToolCalls (ss_history s))) s"

definition after_stream :: "turn_env \<Rightarrow> nat \<Rightarrow> session \<Rightarrow> session \<times> phase" where
  "after_stream env a s =
     (if stopped a s then (s, Stopped)
      else let s2 = mark_generated (te_tools env) s
           in if stopped a s2 then (s2, Stopped)
              else (s2, Preprocessing (findAllCurToolCalls (ss_history s)) (pending s2)))"

text \<open>The answer to \<open>tools/preprocessArgs\<close>: arguments, message and reason of an error.\<close>

datatype preprocess_answer = Request_failed string | Preprocessed "json option" "string option" "string option"

fun answer_error :: "preprocess_answer \<Rightarrow> string option" where
  "answer_error (Request_failed e) = Some e"
| "answer_error (Preprocessed args message reason) =
     (if is_given reason then Some (or_else message ''undefined'') else None)"

fun answer_args :: "preprocess_answer \<Rightarrow> json option" where
  "answer_args (Request_failed e) = None"
| "answer_args (Preprocessed args message reason) = args"

definition preprocessToolCall :: "tool_call_state \<Rightarrow> preprocess_answer \<Rightarrow> session \<Rightarrow> session" where
  "preprocessToolCall c ans s =
     (case answer_error ans of
        Some e \<Rightarrow>
          updateToolCallOutput (ts_toolCallId c)
            [text_item ''Invalid Tool Call'' []
              (call_name c @ '' failed because the arguments were invalid, with the following message: '' @ e @
               [newline, newline] @ ''Please try something else or request further instructions.'')] None
            (errorToolCall (ts_toolCallId c) None s)
      | None \<Rightarrow> (case answer_args ans of Some x \<Rightarrow> setProcessedToolCallArgs (ts_toolCallId c) x s | None \<Rightarrow> s))"

definition after_preprocessing :: "nat \<Rightarrow> tool_call_state list \<Rightarrow> session \<Rightarrow> phase" where
  "after_preprocessing a original s =
     (if stopped a s then Stopped else Evaluating original (map (\<lambda>c. (c, None)) (pending s)))"

section \<open>The decision\<close>

text \<open>\<open>String.replace\<close> with a string as pattern: the first place, and the dollar patterns of the replacement.\<close>

fun expand_dollars :: "string \<Rightarrow> string \<Rightarrow> string \<Rightarrow> string \<Rightarrow> string" where
  "expand_dollars before found behind (c # d # r) =
     (if c = CHR ''$'' \<and> d = CHR ''$'' then CHR ''$'' # expand_dollars before found behind r
      else if c = CHR ''$'' \<and> d = CHR ''&'' then found @ expand_dollars before found behind r
      else if c = CHR ''$'' \<and> d = CHR 0x60 then before @ expand_dollars before found behind r
      else if c = CHR ''$'' \<and> d = CHR 0x27 then behind @ expand_dollars before found behind r
      else c # expand_dollars before found behind (d # r))"
| "expand_dollars before found behind r = r"

definition js_replace :: "string \<Rightarrow> string \<Rightarrow> string \<Rightarrow> string" where
  "js_replace pattern replacement s =
     (case split_first pattern s of
        None \<Rightarrow> s
      | Some (before, behind) \<Rightarrow> before @ expand_dollars before pattern behind replacement @ behind)"

definition defaultNudgeMessage :: string where
  "defaultNudgeMessage = join_with [newline]
     [''Your goal is: {{goal}}'', [],
      ''This goal has not been marked complete yet. Check the current state and continue working towards it.'', [],
      ''When you determine the goal is achieved, mark it complete by calling the tool:'', [],
      ''  mark_goal_complete(summary='' @ CHR 0x22 # ''one sentence on how the goal was achieved'' @ CHR 0x22 # '')'', [],
      ''Simply stating that the goal is complete in plain text does NOT stop goal tracking - only the mark_goal_complete tool call does.'']"

definition nudge_text :: "turn_env \<Rightarrow> string \<Rightarrow> string" where
  "nudge_text env goal = js_replace ''{{goal}}'' goal (or_else (te_goalNudgeMessage env) defaultNudgeMessage)"

definition user_delta :: "string \<Rightarrow> chat_delta" where
  "user_delta body =
     \<lparr>cd_role = UserRole, cd_content = message_content.Plain body, cd_toolCalls = None, cd_toolCallId = None,
      cd_signature = None, cd_redacted = None, cd_outputId = None, cd_details = None\<rparr>"

definition nudges :: "turn_env \<Rightarrow> session_goal \<Rightarrow> bool" where
  "nudges env g \<longleftrightarrow>
     \<not> go_completed g \<and> 0 < or_else (te_maxGoalNudges env) 5 \<and> int (go_nudgeCount g) < or_else (te_maxGoalNudges env) 5"

definition builtin_readonly :: "tool_call_state \<Rightarrow> bool" where
  "builtin_readonly c \<longleftrightarrow>
     (case ts_tool c of Some t \<Rightarrow> tool_group t = BUILT_IN_GROUP_NAME \<and> tool_readonly t | None \<Rightarrow> False)"

definition decide ::
  "turn_env \<Rightarrow> nat \<Rightarrow> tool_call_state list \<Rightarrow> evaluated_policy list \<Rightarrow> session \<Rightarrow> session \<times> phase" where
  "decide env a original policies s =
     (if original = []
      then (case ss_goal s of
              Some g \<Rightarrow>
                if nudges env g
                then (stream_update env [user_delta (nudge_text env (go_text g))] (incrementGoalNudge s), Nudged)
                else (setInactive s, Stopped)
            | None \<Rightarrow> (setInactive s, Stopped))
      else if \<exists>e\<in>set policies. ep_policy e = AllowedWithPermission
      then (let readonly = filter (\<lambda>e. ep_policy e = AllowedWithoutPermission \<and> builtin_readonly (ep_call e)) policies
            in if readonly \<noteq> []
               then if stopped a s then (s, Stopped) else (s, Starting True (map (\<lambda>e. ts_toolCallId (ep_call e)) readonly))
               else (setInactive s, Stopped))
      else if stopped a s then (s, Stopped)
      else if pending s \<noteq> [] then (s, Starting False (map ts_toolCallId (pending s)))
      else (s, Responding (map ts_toolCallId original)))"

section \<open>Calling a tool\<close>

text \<open>\<open>callToolById\<close> down to the request; \<open>Inl\<close> is the error it throws.\<close>

definition callToolById_start :: "bool \<Rightarrow> string \<Rightarrow> session \<Rightarrow> string + (tool_call_state option \<times> session)" where
  "callToolById_start modelSelected i s =
     (case find_in s i of
        None \<Rightarrow> Inr (None, s)
      | Some c \<Rightarrow>
          if ts_status c \<noteq> Generated then Inr (None, s)
          else if \<not> modelSelected then Inl ''No model selected''
          else Inr (Some c, setToolCallCalling i s))"

text \<open>The answer of the tool: output, state of its user interface, error and whether to respond.\<close>

record call_answer =
  ca_output :: "context_item list option"
  ca_mcpUiState :: "json option"
  ca_error :: "string option"
  ca_respond :: bool

definition callToolById_finish :: "tool_call_state \<Rightarrow> call_answer \<Rightarrow> session \<Rightarrow> session" where
  "callToolById_finish c ans s =
     (let i = ts_toolCallId c;
          s1 = (case ca_error ans of
                  Some e \<Rightarrow> updateToolCallOutput i
                    [text_item ''Tool Call Error'' ''Tool Call Failed''
                      (call_name c @ '' failed with the message: '' @ e @ [newline, newline] @
                       ''Please try something else or request further instructions.'')] None s
                | None \<Rightarrow> if or_else (ca_output ans) [] \<noteq> []
                          then updateToolCallOutput i (or_else (ca_output ans) []) (ca_mcpUiState ans) s else s)
      in if ca_respond ans
         then (if ca_error ans \<noteq> None then errorToolCall i None s1 else acceptToolCall i s1)
         else setInactive s1)"

definition completed :: "bool \<Rightarrow> tool_call_state \<Rightarrow> bool" where
  "completed continueAfterToolRejection c \<longleftrightarrow>
     ts_status c = DoneStatus \<or> ts_status c = Errored \<or> (continueAfterToolRejection \<and> ts_status c = Canceled)"

definition areAllToolsDoneStreaming :: "chat_item \<Rightarrow> bool \<Rightarrow> bool" where
  "areAllToolsDoneStreaming it continueAfterToolRejection =
     (case it_states it of
        None \<Rightarrow> True
      | Some cs \<Rightarrow> length (filter (completed continueAfterToolRejection) cs) = length cs)"

definition tool_delta :: "string \<Rightarrow> string \<Rightarrow> chat_delta" where
  "tool_delta i body =
     \<lparr>cd_role = ToolRole, cd_content = message_content.Plain body, cd_toolCalls = None, cd_toolCallId = Some i,
      cd_signature = None, cd_redacted = None, cd_outputId = None, cd_details = None\<rparr>"

text \<open>\<open>streamResponseAfterToolCall\<close> down to the next request; the flag says whether there is one.\<close>

definition streamResponseAfterToolCall :: "turn_env \<Rightarrow> bool \<Rightarrow> string \<Rightarrow> session \<Rightarrow> session \<times> bool" where
  "streamResponseAfterToolCall env continueAfterToolRejection i s =
     (case List.find (\<lambda>c. ts_toolCallId c = i) (findAllCurToolCalls (ss_history s)) of
        None \<Rightarrow> (s, False)
      | Some c \<Rightarrow>
          let s1 = stream_update env [tool_delta i (renderContextItems (or_else (ts_output c) []))] (resetNextCodeBlockToApplyIndex s)
          in (s1, case List.find (\<lambda>it. item_role it = AssistantRole \<and> has_call i it) (rev (ss_history s1)) of
                    Some it \<Rightarrow> areAllToolsDoneStreaming it continueAfterToolRejection
                  | None \<Rightarrow> False))"

definition DEFAULT_USER_REJECTION_MESSAGE :: string where
  "DEFAULT_USER_REJECTION_MESSAGE = join_with [newline]
     [''The user skipped the tool call.'',
      ''If the tool call is optional or non-critical to the main goal, skip it and continue with the next step.'',
      ''If the tool call is essential, try an alternative approach.'',
      ''If no alternatives exist, offer to pause here.'']"

definition cancelToolCallThunk :: "turn_env \<Rightarrow> bool \<Rightarrow> string \<Rightarrow> session \<Rightarrow> session \<times> bool" where
  "cancelToolCallThunk env continueAfterToolRejection i s =
     streamResponseAfterToolCall env continueAfterToolRejection i
       (cancelToolCall i
         (if continueAfterToolRejection
          then updateToolCallOutput i
            [text_item ''Tool Call Rejected'' ''User skipped the tool call'' DEFAULT_USER_REJECTION_MESSAGE] None s
          else s))"

definition cancelStream :: "session \<Rightarrow> session option" where
  "cancelStream s = clearDanglingMessages (abortStream (setInactive s))"

section \<open>Turns\<close>

text \<open>
  A turn with the calls it has started, each with the flag whether another call of the answer waits for the
  user. Between the parts other code may dispatch: a user who accepts or refuses a call or whose edit
  is done, tool outputs, settings (\<open>quiet_action\<close>); before the calls are started also anything that leaves the stream
  aborted, as a cancelled stream or another session does.
\<close>

record turn =
  tu_session :: session
  tu_phase :: phase
  tu_started :: "(bool \<times> tool_call_state) list"

fun quiet_call :: "call_action \<Rightarrow> bool" where
  "quiet_call (SetToolGenerated i tools) = False"
| "quiet_call (SetProcessedToolCallArgs i args) = False"
| "quiet_call _ = True"

fun quiet_action :: "action \<Rightarrow> bool" where
  "quiet_action (Call a) = quiet_call a"
| "quiet_action (Setting a) = True"
| "quiet_action (History (StreamUpdate ms)) = (\<exists>i body. ms = [tool_delta i body])"
| "quiet_action (History SetInactive) = True"
| "quiet_action (History (SetAppliedRulesAtIndex i rules)) = True"
| "quiet_action (History _) = False"

inductive turn_step :: "turn_env \<Rightarrow> nat \<Rightarrow> turn \<Rightarrow> turn \<Rightarrow> bool" for env a where
  stream_ended:
    "tu_phase t = Streamed \<Longrightarrow> after_stream env a (tu_session t) = (s, ph) \<Longrightarrow>
     turn_step env a t (t\<lparr>tu_session := s, tu_phase := ph\<rparr>)"
| preprocessed:
    "tu_phase t = Preprocessing original (cs @ c # ds) \<Longrightarrow>
     turn_step env a t (t\<lparr>tu_session := preprocessToolCall c ans (tu_session t), tu_phase := Preprocessing original (cs @ ds)\<rparr>)"
| evaluation_begun:
    "tu_phase t = Preprocessing original [] \<Longrightarrow>
     turn_step env a t (t\<lparr>tu_phase := after_preprocessing a original (tu_session t)\<rparr>)"
| evaluated:
    "tu_phase t = Evaluating original (xs @ (c, None) # ys) \<Longrightarrow>
     e = evaluateToolPolicy (if answered then te_request env else (\<lambda>_ _ _ _. None)) (te_active env) (te_settings env) c \<Longrightarrow>
     turn_step env a t (t\<lparr>tu_phase := Evaluating original (xs @ (c, Some e) # ys)\<rparr>)"
| evaluation_ended:
    "tu_phase t = Evaluating original xs \<Longrightarrow> map snd xs = map Some es \<Longrightarrow>
     turn_step env a t (t\<lparr>tu_session := refuse_disabled es (tu_session t), tu_phase := Deciding original es\<rparr>)"
| decided:
    "tu_phase t = Deciding original es \<Longrightarrow> decide env a original es (tu_session t) = (s, ph) \<Longrightarrow>
     turn_step env a t (t\<lparr>tu_session := s, tu_phase := ph\<rparr>)"
| call_started:
    "tu_phase t = Starting q (i # is) \<Longrightarrow> callToolById_start True i (tu_session t) = Inr (Some c, s) \<Longrightarrow>
     turn_step env a t (t\<lparr>tu_session := s, tu_phase := Starting q is, tu_started := tu_started t @ [(q, c)]\<rparr>)"
| call_skipped:
    "tu_phase t = Starting q (i # is) \<Longrightarrow>
     callToolById_start selected i (tu_session t) \<in> {Inr (None, tu_session t), Inl ''No model selected''} \<Longrightarrow>
     turn_step env a t (t\<lparr>tu_phase := Starting q is\<rparr>)"
| calls_ended:
    "tu_phase t = Starting q [] \<Longrightarrow>
     turn_step env a t (t\<lparr>tu_session := (if q then setInactive (tu_session t) else tu_session t), tu_phase := Stopped\<rparr>)"
| dispatched:
    "reduce renv act (tu_session t) = Some s \<Longrightarrow>
     quiet_action act \<or> (aborted a s \<and> (\<forall>q is. tu_phase t \<noteq> Starting q is)) \<Longrightarrow>
     turn_step env a t (t\<lparr>tu_session := s\<rparr>)"

definition new_turn :: "session \<Rightarrow> turn" where
  "new_turn s = \<lparr>tu_session = s, tu_phase = Streamed, tu_started = []\<rparr>"

section \<open>What actions do to the waiting calls\<close>

text \<open>
  Items other than answers carry no calls and the ids of the current calls differ, so that an id
  finds the current call.
\<close>

definition turn_ok :: "chat_item list \<Rightarrow> bool" where
  "turn_ok h \<longleftrightarrow>
     (\<forall>it\<in>set h. or_else (it_states it) [] \<noteq> [] \<longrightarrow> item_role it = AssistantRole \<or> item_role it = ThinkingRole) \<and>
     distinct (map ts_toolCallId (findAllCurToolCalls h))"

text \<open>A call but for its progress.\<close>

definition call_key :: "tool_call_state \<Rightarrow> tool_call_state" where
  "call_key c = c\<lparr>ts_status := Generated, ts_output := None, ts_mcpUiState := None\<rparr>"

definition quiet :: "chat_item list \<Rightarrow> chat_item list \<Rightarrow> bool" where
  "quiet g h \<longleftrightarrow>
     (\<forall>i d. findToolCallById h i = Some d \<and> ts_status d = Generated \<longrightarrow>
        (\<exists>c. findToolCallById g i = Some c \<and> ts_status c = Generated \<and> call_key c = call_key d)) \<and>
     (\<forall>d\<in>set (findAllCurToolCallsByStatus h Generated). \<exists>c\<in>set (findAllCurToolCallsByStatus g Generated). call_key c = call_key d) \<and>
     (turn_ok g \<longrightarrow> turn_ok h)"

lemma quiet_refl [simp]: "quiet h h"
  by (auto simp: quiet_def)

lemma quiet_trans: "quiet f g \<Longrightarrow> quiet g h \<Longrightarrow> quiet f h"
  unfolding quiet_def by metis

lemma find_call_id: "find_call i its = Some c \<Longrightarrow> ts_toolCallId c = i"
  by (induction its) (auto split: option.splits simp: find_Some_iff)

lemma findToolCallById_id: "findToolCallById h i = Some c \<Longrightarrow> ts_toolCallId c = i"
  by (auto simp: findToolCallById_def dest: find_call_id)

text \<open>Under \<open>turn_ok\<close> a current call is the one its id finds.\<close>

lemma find_distinct:
  "distinct (map f cs) \<Longrightarrow> c \<in> set cs \<Longrightarrow> List.find (\<lambda>x. f x = f c) cs = Some c"
  by (induction cs) (auto simp: rev_image_eqI)

lemma find_current:
  assumes "\<forall>it\<in>set its. or_else (it_states it) [] \<noteq> [] \<longrightarrow> item_role it = AssistantRole \<or> item_role it = ThinkingRole"
    "distinct (map ts_toolCallId (current_calls seen its))" "c \<in> set (current_calls seen its)"
  shows "find_call (ts_toolCallId c) its = Some c"
  using assms
proof (induction seen its rule: current_calls.induct)
  case (2 seen it its)
  show ?case
  proof (cases "or_else (it_states it) [] = []")
    case True
    then show ?thesis using 2 by (auto split: if_splits)
  next
    case False
    then have "item_role it = AssistantRole \<or> item_role it = ThinkingRole" using 2(3) by simp
    then show ?thesis using 2(4,5) False find_distinct [of ts_toolCallId _ c] by (auto split: if_splits)
  qed
qed simp

lemma turn_ok_find: "turn_ok h \<Longrightarrow> c \<in> set (findAllCurToolCalls h) \<Longrightarrow> findToolCallById h (ts_toolCallId c) = Some c"
  unfolding turn_ok_def findAllCurToolCalls_def findToolCallById_def by (rule find_current) auto

text \<open>Updates of one call.\<close>

abbreviation on_states :: "string \<Rightarrow> (tool_call_state \<Rightarrow> tool_call_state) \<Rightarrow> chat_item \<Rightarrow> chat_item" where
  "on_states i f it \<equiv> it\<lparr>it_states := map_option (update_first (\<lambda>c. ts_toolCallId c = i) f) (it_states it)\<rparr>"

lemma find_update_first:
  "(\<And>c. ts_toolCallId (f c) = ts_toolCallId c) \<Longrightarrow>
   List.find (\<lambda>c. ts_toolCallId c = j) (update_first (\<lambda>c. ts_toolCallId c = i) f cs) =
     (if j = i then map_option f (List.find (\<lambda>c. ts_toolCallId c = j) cs) else List.find (\<lambda>c. ts_toolCallId c = j) cs)"
  by (induction cs) auto

lemma or_else_update [simp]: "or_else (map_option (update_first P f) x) [] = update_first P f (or_else x [])"
  by (cases x) auto

lemma has_call_find: "has_call i it \<longleftrightarrow> List.find (\<lambda>c. ts_toolCallId c = i) (or_else (it_states it) []) \<noteq> None"
  by (auto simp: has_call_def list_ex_iff find_None_iff)

lemma item_role_on_states [simp]: "item_role (on_states i f it) = item_role it"
  by (simp add: item_role_def)

lemma find_call_update:
  assumes "\<And>c. ts_toolCallId (f c) = ts_toolCallId c"
  shows "find_call j (update_first (has_call i) (on_states i f) its) =
    (if j = i then map_option f (find_call j its) else find_call j its)"
proof (induction its)
  case (Cons it its)
  then show ?case
    by (cases "List.find (\<lambda>c. ts_toolCallId c = i) (or_else (it_states it) [])")
      (auto simp: has_call_find find_update_first [where f = f, OF assms] split: option.splits)
qed simp

lemma findToolCallById_update:
  assumes "\<And>c. ts_toolCallId (f c) = ts_toolCallId c"
  shows "findToolCallById (update_call i f h) j =
    (if j = i then map_option f (findToolCallById h j) else findToolCallById h j)"
  using find_call_update [OF assms] by (simp add: findToolCallById_def update_call_def)

lemma update_first_all2: "(\<And>x. R x x) \<Longrightarrow> (\<And>x. R (f x) x) \<Longrightarrow> list_all2 R (update_first P f xs) xs"
  by (induction xs) (auto intro: list.rel_refl)

lemma current_update:
  "list_all2 (\<lambda>d c. d = c \<or> d = f c) (current_calls seen (update_first (has_call i) (on_states i f) its)) (current_calls seen its)"
  by (induction seen its rule: current_calls.induct) (auto intro: list.rel_refl update_first_all2 simp: item_role_def)

lemma all2_member: "list_all2 R xs ys \<Longrightarrow> x \<in> set xs \<Longrightarrow> \<exists>y\<in>set ys. R x y"
  by (induction rule: list_all2_induct) auto

lemma findAll_update:
  "list_all2 (\<lambda>d c. d = c \<or> d = f c) (findAllCurToolCalls (update_call i f h)) (findAllCurToolCalls h)"
  using current_update [of f False i "rev h"] by (simp add: findAllCurToolCalls_def update_call_def)

lemma turn_ok_update:
  assumes "\<And>c. ts_toolCallId (f c) = ts_toolCallId c" "turn_ok h"
  shows "turn_ok (update_call i f h)"
proof -
  have "map ts_toolCallId (findAllCurToolCalls (update_call i f h)) = map ts_toolCallId (findAllCurToolCalls h)"
    using findAll_update [of f i h] assms(1) by (induction rule: list_all2_induct) auto
  moreover have "item_role it = AssistantRole \<or> item_role it = ThinkingRole"
    if "it \<in> set (update_call i f h)" "or_else (it_states it) [] \<noteq> []" for it
    using that assms(2) set_update_first [of it "has_call i" "on_states i f" "rev h"]
    by (auto simp: update_call_def turn_ok_def)
  ultimately show ?thesis using assms(2) by (auto simp: turn_ok_def)
qed

lemma call_key_id: "call_key c = call_key d \<Longrightarrow> ts_toolCallId c = ts_toolCallId d"
  by (cases c; cases d) (simp add: call_key_def)

lemma quiet_update:
  assumes key: "\<And>c. call_key (f c) = call_key c" and gen: "\<And>c. ts_status (f c) = Generated \<Longrightarrow> ts_status c = Generated"
  shows "quiet h (update_call i f h)"
proof -
  have ids: "ts_toolCallId (f c) = ts_toolCallId c" for c using key call_key_id by blast
  have "\<exists>c. findToolCallById h j = Some c \<and> ts_status c = Generated \<and> call_key c = call_key d"
    if d: "findToolCallById (update_call i f h) j = Some d" "ts_status d = Generated" for j d
  proof (cases "j = i")
    case True
    with d(1) obtain c where "findToolCallById h j = Some c" "d = f c"
      using findToolCallById_update [of f i h j, OF ids] by (cases "findToolCallById h j") auto
    with d(2) show ?thesis using key gen by auto
  next
    case False
    with d show ?thesis using findToolCallById_update [of f i h j, OF ids] by auto
  qed
  moreover have "\<exists>c\<in>set (findAllCurToolCallsByStatus h Generated). call_key c = call_key d"
    if "d \<in> set (findAllCurToolCallsByStatus (update_call i f h) Generated)" for d
  proof -
    have "d \<in> set (findAllCurToolCalls (update_call i f h))" "ts_status d = Generated"
      using that by (simp_all add: findAllCurToolCallsByStatus_def)
    then obtain c where "c \<in> set (findAllCurToolCalls h)" "d = c \<or> d = f c"
      using all2_member [OF findAll_update] by blast
    with \<open>ts_status d = Generated\<close> show ?thesis using key gen by (auto simp: findAllCurToolCallsByStatus_def)
  qed
  ultimately show ?thesis using turn_ok_update [of f h i, OF ids] unfolding quiet_def by blast
qed

text \<open>Changes of items that leave their roles and states.\<close>

definition same_item :: "chat_item \<Rightarrow> chat_item \<Rightarrow> bool" where
  "same_item g h \<longleftrightarrow> item_role g = item_role h \<and> it_states g = it_states h"

lemma same_items:
  assumes "list_all2 same_item g h"
  shows "current_calls seen g = current_calls seen h" "find_call i g = find_call i h"
    "(\<forall>it\<in>set g. or_else (it_states it) [] \<noteq> [] \<longrightarrow> item_role it = AssistantRole \<or> item_role it = ThinkingRole) \<longleftrightarrow>
     (\<forall>it\<in>set h. or_else (it_states it) [] \<noteq> [] \<longrightarrow> item_role it = AssistantRole \<or> item_role it = ThinkingRole)"
  using assms by (induction arbitrary: seen rule: list_all2_induct) (auto simp: same_item_def split: option.splits)

lemma quiet_same: "list_all2 same_item g h \<Longrightarrow> quiet g h"
  using same_items [of "rev g" "rev h"] same_items(3) [of g h]
  by (auto simp: quiet_def turn_ok_def findAllCurToolCallsByStatus_def findAllCurToolCalls_def findToolCallById_def)

lemma quiet_tool_item: "item_role it = ToolRole \<Longrightarrow> it_states it = None \<Longrightarrow> quiet h (h @ [it])"
  by (auto simp: quiet_def turn_ok_def findAllCurToolCallsByStatus_def findAllCurToolCalls_def findToolCallById_def)

lemma same_item_refl [simp]: "same_item it it"
  by (simp add: same_item_def)

lemma same_update_first: "(\<And>it. same_item it (f it)) \<Longrightarrow> list_all2 same_item xs (update_first P f xs)"
  by (induction xs) (auto intro: list.rel_refl)

lemma same_update_last: "(\<And>it. same_item it (f it)) \<Longrightarrow> list_all2 same_item xs (update_last f xs)"
  by (cases xs rule: rev_cases) (auto simp: update_last_def list_all2_append list.rel_refl)

lemma same_update_at: "(\<And>it. same_item it (f it)) \<Longrightarrow> list_all2 same_item xs (update_at i f xs)"
  by (auto simp: update_at_def list_all2_conv_all_nth nth_list_update)

text \<open>The state of a session that a turn looks at, and that its aborted streams stay aborted.\<close>

definition calm :: "session \<Rightarrow> session \<Rightarrow> bool" where
  "calm s t \<longleftrightarrow> quiet (ss_history s) (ss_history t) \<and> ss_aborter s \<le> ss_aborter t"

lemma calm_refl [simp]: "calm s s"
  by (simp add: calm_def)

lemma calm_trans: "calm r s \<Longrightarrow> calm s t \<Longrightarrow> calm r t"
  by (auto simp: calm_def intro: quiet_trans)

lemma calm_on_call:
  "(\<And>c. call_key (f c) = call_key c) \<Longrightarrow> (\<And>c. ts_status (f c) = Generated \<Longrightarrow> ts_status c = Generated) \<Longrightarrow> calm s (on_call i f s)"
  by (simp add: calm_def on_call_def quiet_update)

lemma calm_same:
  "list_all2 same_item (ss_history s) (ss_history t) \<Longrightarrow> ss_aborter s \<le> ss_aborter t \<Longrightarrow> calm s t"
  by (simp add: calm_def quiet_same)

lemma calm_cancel: "calm s (cancelToolCall i s)"
  unfolding cancelToolCall_def by (rule calm_on_call) (auto simp: call_key_def)

lemma calm_error: "calm s (errorToolCall i out s)"
  unfolding errorToolCall_def by (rule calm_on_call) (auto simp: call_key_def)

lemma calm_accept: "calm s (acceptToolCall i s)"
  unfolding acceptToolCall_def by (rule calm_on_call) (auto simp: call_key_def)

lemma calm_calling: "calm s (setToolCallCalling i s)"
  unfolding setToolCallCalling_def by (rule calm_on_call) (auto simp: call_key_def)

lemma calm_output: "calm s (updateToolCallOutput i items ui s)"
proof -
  let ?t = "on_call i (\<lambda>c. c\<lparr>ts_output := Some items, ts_mcpUiState := ui\<rparr>) s"
  have "calm s ?t" by (rule calm_on_call) (auto simp: call_key_def)
  moreover have "list_all2 same_item (ss_history ?t) (ss_history (updateToolCallOutput i items ui s))"
    by (auto simp: updateToolCallOutput_def Let_def list_all2_rev1 [symmetric] same_item_def item_role_def
        intro!: same_update_first)
  then have "calm ?t (updateToolCallOutput i items ui s)"
    by (rule calm_same) (simp add: updateToolCallOutput_def Let_def)
  ultimately show ?thesis by (rule calm_trans)
qed

lemma calm_call: "quiet_call a \<Longrightarrow> calm s (reduce_call a s)"
  by (cases a) (auto intro: calm_cancel calm_error calm_accept calm_calling calm_output)

lemma setting_aborter: "ss_aborter s \<le> ss_aborter (reduce_setting a s)"
  by (cases a) (auto simp: setMainEditorContentTrigger_def updateFileSymbols_def updateSessionTitle_def
    setIsSessionMetadataLoading_def setAllSessionMetadata_def addSessionMetadata_def updateSessionMetadata_def
    deleteSessionMetadata_def updateApplyState_def resetNextCodeBlockToApplyIndex_def setGoal_def clearGoal_def
    incrementGoalNudge_def completeGoal_def setIsInEdit_def setHasReasoningEnabled_def
    setManualSystemMessageEnabled_def setNewestToolbarPreviewForInput_def setCompactionLoading_def
    setInlineErrorMessage_def setIsPruned_def setContextPercentage_def setActive_def abortStream_def Let_def)

lemma calm_setting: "calm s (reduce_setting a s)"
  by (simp add: calm_def reduce_setting_ok setting_aborter)

lemma calm_inactive: "calm s (setInactive s)"
  by (rule calm_same)
    (auto simp: setInactive_def setIsGatheringContext_def same_item_def item_role_def intro!: same_update_last)

text \<open>The message of a tool is an item without calls.\<close>

lemma stream_tool:
  "ss_history (streamUpdate parse partial new_id now [tool_delta i body] s) =
     (if ss_history s = [] then []
      else ss_history s @ [extend_item parse partial now (tool_delta i body) body
        (copied_item (new_id (length (ss_history s))) (tool_delta i body))])"
  by (simp add: streamUpdate_def stream_message_def tool_delta_def update_last_def)

lemma tool_item:
  "item_role (extend_item parse partial now (tool_delta i body) body (copied_item j (tool_delta i body))) = ToolRole"
  "it_states (extend_item parse partial now (tool_delta i body) body (copied_item j (tool_delta i body))) = None"
  by (auto simp: extend_item_def tool_delta_def copied_item_def copied_message_def new_item_def add_text_def
      item_role_def Let_def is_given_def)

lemma calm_tool: "calm s (streamUpdate parse partial new_id now [tool_delta i body] s)"
proof -
  have "ss_aborter (streamUpdate parse partial new_id now [tool_delta i body] s) = ss_aborter s"
    by (simp add: streamUpdate_def)
  then show ?thesis by (simp add: calm_def stream_tool tool_item quiet_tool_item)
qed

lemma calm_rules: "calm s (setAppliedRulesAtIndex i rules s)"
  by (rule calm_same)
    (auto simp: setAppliedRulesAtIndex_def same_item_def item_role_def intro!: same_update_at list.rel_refl)

lemma calm_reduce: "quiet_action act \<Longrightarrow> reduce renv act s = Some t \<Longrightarrow> calm s t"
  by (cases act rule: quiet_action.cases)
    (auto intro: calm_call calm_setting calm_inactive calm_tool calm_rules)

lemma calm_processed: "turn_ok (ss_history s) \<Longrightarrow> turn_ok (ss_history (setProcessedToolCallArgs i x s))"
  by (simp add: setProcessedToolCallArgs_def on_call_def turn_ok_update)

lemma generated_ok: "turn_ok (ss_history s) \<Longrightarrow> turn_ok (ss_history (setToolGenerated i tools s))"
  by (auto simp: setToolGenerated_def on_call_def Let_def intro!: turn_ok_update split: option.splits)

lemma calm_turn_ok: "calm s t \<Longrightarrow> turn_ok (ss_history s) \<Longrightarrow> turn_ok (ss_history t)"
  by (simp add: calm_def quiet_def)

lemma calm_aborted: "calm s t \<Longrightarrow> aborted a s \<Longrightarrow> aborted a t"
  by (simp add: calm_def aborted_def)

lemma calm_refuse: "calm s (refuse_call e s)"
  unfolding refuse_call_def by (rule calm_trans [OF calm_error calm_output])

lemma calm_refuse_disabled: "calm s (refuse_disabled es s)"
proof -
  have "calm s (fold refuse_call xs s)" for xs
    by (induction xs arbitrary: s) (auto intro: calm_trans [OF calm_refuse])
  then show ?thesis by (simp add: refuse_disabled_def)
qed

section \<open>Nothing runs without a question that must be asked\<close>

text \<open>
  What a turn keeps. While it evaluates, each pending call is one of those evaluated, and what their ids find is
  still the evaluated call; then no pending call was refused; and what is about to start is permitted.
\<close>

definition covers :: "session \<Rightarrow> tool_call_state list \<Rightarrow> bool" where
  "covers s cs \<longleftrightarrow>
     (\<forall>d\<in>set (pending s). \<exists>c\<in>set cs. call_key c = call_key d) \<and>
     (\<forall>c\<in>set cs. \<forall>d. find_in s (ts_toolCallId c) = Some d \<and> ts_status d = Generated \<longrightarrow> call_key d = call_key c)"

abbreviation allowed :: "turn_env \<Rightarrow> tool_call_state \<Rightarrow> bool" where
  "allowed env \<equiv> permitted (te_request env) (te_active env) (te_settings env)"

abbreviation startable :: "turn_env \<Rightarrow> bool \<Rightarrow> tool_call_state \<Rightarrow> bool" where
  "startable env q c \<equiv> allowed env c \<and> (q \<longrightarrow> builtin_readonly c)"

fun phase_ok :: "turn_env \<Rightarrow> nat \<Rightarrow> session \<Rightarrow> (bool \<times> tool_call_state) list \<Rightarrow> phase \<Rightarrow> bool" where
  "phase_ok env a s started Streamed \<longleftrightarrow> started = [] \<and> (aborted a s \<or> turn_ok (ss_history s))"
| "phase_ok env a s started (Preprocessing original waiting) \<longleftrightarrow> started = [] \<and> (aborted a s \<or> turn_ok (ss_history s))"
| "phase_ok env a s started (Evaluating original xs) \<longleftrightarrow> started = [] \<and> (aborted a s \<or>
     turn_ok (ss_history s) \<and> covers s (map fst xs) \<and>
     (\<forall>(c, r)\<in>set xs. \<forall>e. r = Some e \<longrightarrow> ep_call e = c \<and> (ep_policy e = AllowedWithoutPermission \<longrightarrow> allowed env c)))"
| "phase_ok env a s started (Deciding original es) \<longleftrightarrow> started = [] \<and> (aborted a s \<or>
     turn_ok (ss_history s) \<and> covers s (map ep_call es) \<and>
     (\<forall>e\<in>set es. ep_policy e = AllowedWithoutPermission \<longrightarrow> allowed env (ep_call e)) \<and>
     (\<forall>d\<in>set (pending s). \<exists>e\<in>set es. call_key (ep_call e) = call_key d \<and> ep_policy e \<noteq> Disabled))"
| "phase_ok env a s started (Starting q ids) \<longleftrightarrow>
     (\<forall>i\<in>set ids. \<forall>c. find_in s i = Some c \<and> ts_status c = Generated \<longrightarrow> startable env q c) \<and>
     (\<forall>(p, c)\<in>set started. \<forall>d. find_in s (ts_toolCallId c) = Some d \<longrightarrow> ts_status d \<noteq> Generated)"
| "phase_ok env a s started _ \<longleftrightarrow> True"

definition turn_safe :: "turn_env \<Rightarrow> nat \<Rightarrow> turn \<Rightarrow> bool" where
  "turn_safe env a t \<longleftrightarrow>
     phase_ok env a (tu_session t) (tu_started t) (tu_phase t) \<and>
     (\<forall>(q, c)\<in>set (tu_started t). startable env q c) \<and>
     distinct (map (\<lambda>(q, c). ts_toolCallId c) (tu_started t))"

lemma key_startable: "call_key c = call_key d \<Longrightarrow> startable env q c = startable env q d"
  by (cases c; cases d) (simp add: call_key_def permitted_def builtin_readonly_def)

lemma calm_find:
  "calm s t \<Longrightarrow> find_in t i = Some d \<Longrightarrow> ts_status d = Generated \<Longrightarrow>
   \<exists>c. find_in s i = Some c \<and> ts_status c = Generated \<and> call_key c = call_key d"
  by (simp add: calm_def quiet_def)

lemma calm_pending: "calm s t \<Longrightarrow> d \<in> set (pending t) \<Longrightarrow> \<exists>c\<in>set (pending s). call_key c = call_key d"
  unfolding calm_def quiet_def by blast

lemma calm_covers: "calm s t \<Longrightarrow> covers s cs \<Longrightarrow> covers t cs"
  unfolding covers_def by (metis calm_find calm_pending)

lemma calm_phase:
  assumes "calm s t" "phase_ok env a s started ph"
  shows "phase_ok env a t started ph"
proof (cases ph)
  case (Deciding original es)
  have "\<exists>e\<in>set es. call_key (ep_call e) = call_key d \<and> ep_policy e \<noteq> Disabled"
    if "\<not> aborted a s" "d \<in> set (pending t)" for d
    using calm_pending [OF assms(1) that(2)] assms(2) that(1) Deciding by fastforce
  then show ?thesis
    using assms Deciding calm_aborted calm_turn_ok calm_covers by (cases "aborted a s") auto
next
  case (Starting q ids)
  have "startable env q d" if d: "i \<in> set ids" "find_in t i = Some d" "ts_status d = Generated" for i d
  proof -
    obtain c where c: "find_in s i = Some c" "ts_status c = Generated" "call_key c = call_key d"
      using calm_find [OF assms(1) d(2,3)] by blast
    have "startable env q c" using assms(2) Starting d(1) c(1,2) by simp
    then show ?thesis using key_startable [OF c(3)] by simp
  qed
  moreover have "ts_status d \<noteq> Generated" if "(p, c) \<in> set started" "find_in t (ts_toolCallId c) = Some d" for p c d
    using calm_find [OF assms(1) that(2)] assms(2) Starting that(1) by fastforce
  ultimately show ?thesis using Starting by auto
qed (use assms calm_aborted calm_turn_ok calm_covers in auto)

text \<open>The parts of a turn.\<close>

lemma on_call_aborter [simp]: "ss_aborter (on_call i f s) = ss_aborter s"
  by (simp add: on_call_def)

lemma after_stream_ok:
  "after_stream env a s = (t, ph) \<Longrightarrow> aborted a s \<or> turn_ok (ss_history s) \<Longrightarrow> phase_ok env a t [] ph"
proof -
  assume t: "after_stream env a s = (t, ph)" and s: "aborted a s \<or> turn_ok (ss_history s)"
  have marked: "turn_ok (ss_history u) \<Longrightarrow> turn_ok (ss_history (fold (\<lambda>c. setToolGenerated (ts_toolCallId c) tools) cs u))"
    for cs u and tools :: "tool list"
    by (induction cs arbitrary: u) (auto intro: generated_ok)
  show ?thesis
  proof (cases "stopped a s")
    case False
    then have "turn_ok (ss_history s)" using s by (simp add: stopped_def)
    then have "turn_ok (ss_history (mark_generated (te_tools env) s))" by (simp add: mark_generated_def marked)
    then show ?thesis using t False by (auto simp: after_stream_def Let_def split: if_splits)
  qed (use t in \<open>auto simp: after_stream_def\<close>)
qed

lemma preprocess_ok:
  "aborted a s \<or> turn_ok (ss_history s) \<Longrightarrow>
   aborted a (preprocessToolCall c ans s) \<or> turn_ok (ss_history (preprocessToolCall c ans s))"
proof (cases "answer_error ans")
  case None
  assume "aborted a s \<or> turn_ok (ss_history s)"
  moreover have "ss_aborter (preprocessToolCall c ans s) = ss_aborter s"
    using None by (auto simp: preprocessToolCall_def setProcessedToolCallArgs_def split: option.split)
  moreover have "turn_ok (ss_history s) \<Longrightarrow> turn_ok (ss_history (preprocessToolCall c ans s))"
    using None by (auto simp: preprocessToolCall_def calm_processed split: option.split)
  ultimately show ?thesis by (auto simp: aborted_def)
next
  case (Some e)
  have "calm s (preprocessToolCall c ans s)"
    using Some by (auto simp: preprocessToolCall_def intro: calm_trans [OF calm_error calm_output])
  then show "aborted a s \<or> turn_ok (ss_history s) \<Longrightarrow> ?thesis" using calm_aborted calm_turn_ok by blast
qed

lemma pendingD: "d \<in> set (pending s) \<Longrightarrow> d \<in> set (findAllCurToolCalls (ss_history s)) \<and> ts_status d = Generated"
  by (simp add: findAllCurToolCallsByStatus_def)

lemma pending_covers: "turn_ok (ss_history s) \<Longrightarrow> covers s (pending s)"
  unfolding covers_def using turn_ok_find pendingD by fastforce

lemma after_preprocessing_ok:
  "aborted a s \<or> turn_ok (ss_history s) \<Longrightarrow> phase_ok env a s [] (after_preprocessing a original s)"
  using pending_covers [of s] by (auto simp: after_preprocessing_def stopped_def comp_def)

text \<open>A refused call is no longer pending.\<close>

abbreviation settled :: "session \<Rightarrow> string \<Rightarrow> bool" where
  "settled s i \<equiv> \<forall>d. find_in s i = Some d \<longrightarrow> ts_status d \<noteq> Generated"

lemma calm_settled: "calm s t \<Longrightarrow> settled s i \<Longrightarrow> settled t i"
  using calm_find by blast

lemma on_call_settled:
  "(\<And>c. ts_toolCallId (f c) = ts_toolCallId c) \<Longrightarrow> (\<And>c. ts_status (f c) \<noteq> Generated) \<Longrightarrow> settled (on_call i f s) i"
  by (auto simp: on_call_def findToolCallById_update)

lemma refused_settled:
  assumes "e \<in> set es" "ep_policy e = Disabled"
  shows "settled (refuse_disabled es s) (ts_toolCallId (ep_call e))"
proof -
  have later: "calm t (fold refuse_call xs t)" for xs t
    by (induction xs arbitrary: t) (auto intro: calm_trans [OF calm_refuse])
  have "e \<in> set (filter (\<lambda>e. ep_policy e = Disabled) es)" using assms by simp
  then obtain xs ys where "filter (\<lambda>e. ep_policy e = Disabled) es = xs @ e # ys" by (meson split_list)
  then have eq: "refuse_disabled es s = fold refuse_call ys (refuse_call e (fold refuse_call xs s))"
    by (simp add: refuse_disabled_def)
  have "settled (errorToolCall i None t) i" for i t
    unfolding errorToolCall_def by (rule on_call_settled) auto
  then have "settled (refuse_call e t) (ts_toolCallId (ep_call e))" for t
    unfolding refuse_call_def by (rule calm_settled [OF calm_output])
  then show ?thesis unfolding eq by (rule calm_settled [OF later])
qed

abbreviation answer_ok :: "turn_env \<Rightarrow> tool_call_state \<times> evaluated_policy option \<Rightarrow> bool" where
  "answer_ok env x \<equiv> case x of (c, r) \<Rightarrow>
     \<forall>e. r = Some e \<longrightarrow> ep_call e = c \<and> (ep_policy e = AllowedWithoutPermission \<longrightarrow> allowed env c)"

lemma all_answered:
  "\<forall>x\<in>set xs. answer_ok env x \<Longrightarrow> map snd xs = map Some es \<Longrightarrow>
   map ep_call es = map fst xs \<and> (\<forall>e\<in>set es. ep_policy e = AllowedWithoutPermission \<longrightarrow> allowed env (ep_call e))"
  by (induction xs arbitrary: es) (auto simp: Cons_eq_map_conv map_eq_Cons_conv)

lemma after_evaluation_ok:
  assumes "phase_ok env a s [] (Evaluating original xs)" "map snd xs = map Some es"
  shows "phase_ok env a (refuse_disabled es s) [] (Deciding original es)"
proof (cases "aborted a s")
  case True
  then show ?thesis using calm_aborted [OF calm_refuse_disabled] by simp
next
  case False
  let ?t = "refuse_disabled es s"
  have s: "turn_ok (ss_history s)" "covers s (map fst xs)"
    and "\<forall>x\<in>set xs. answer_ok env x" using assms(1) False by auto
  then have e: "map ep_call es = map fst xs" "\<forall>e\<in>set es. ep_policy e = AllowedWithoutPermission \<longrightarrow> allowed env (ep_call e)"
    using all_answered [OF _ assms(2)] by blast+
  have t: "turn_ok (ss_history ?t)" "covers ?t (map ep_call es)"
    using s e(1) calm_turn_ok [OF calm_refuse_disabled] calm_covers [OF calm_refuse_disabled] by auto
  have "\<exists>e\<in>set es. call_key (ep_call e) = call_key d \<and> ep_policy e \<noteq> Disabled" if d: "d \<in> set (pending ?t)" for d
  proof -
    obtain e where e: "e \<in> set es" "call_key (ep_call e) = call_key d" using t(2) d by (auto simp: covers_def)
    have "find_in ?t (ts_toolCallId d) = Some d" "ts_status d = Generated"
      using turn_ok_find [OF t(1)] pendingD [OF d] by auto
    then have "ep_policy e \<noteq> Disabled"
      using refused_settled [OF e(1)] call_key_id [OF e(2)] by metis
    with e show ?thesis by blast
  qed
  then show ?thesis using t e(2) by simp
qed

lemma decide_ok:
  assumes "phase_ok env a s [] (Deciding original es)" "decide env a original es s = (t, ph)"
  shows "phase_ok env a t [] ph"
proof (cases ph)
  case (Starting q ids)
  then have live: "\<not> aborted a s" and same: "t = s" using assms(2)
    by (auto simp: decide_def stopped_def Let_def split: if_splits option.splits)
  then have s: "turn_ok (ss_history s)" "covers s (map ep_call es)"
    "\<forall>e\<in>set es. ep_policy e = AllowedWithoutPermission \<longrightarrow> allowed env (ep_call e)"
    "\<forall>d\<in>set (pending s). \<exists>e\<in>set es. call_key (ep_call e) = call_key d \<and> ep_policy e \<noteq> Disabled"
    using assms(1) by simp_all
  have "startable env q c" if c: "i \<in> set ids" "find_in s i = Some c" "ts_status c = Generated" for i c
  proof (cases q)
    case True
    then obtain e where e: "e \<in> set es" "ep_policy e = AllowedWithoutPermission" "builtin_readonly (ep_call e)"
      "i = ts_toolCallId (ep_call e)"
      using assms(2) Starting c(1) by (auto simp: decide_def Let_def split: if_splits option.splits)
    then have "call_key c = call_key (ep_call e)" using s(2) c(2,3) by (auto simp: covers_def)
    then show ?thesis using key_startable [of c "ep_call e" env q] e(1-3) s(3) by simp
  next
    case False
    then have ids: "ids = map ts_toolCallId (pending s)" "\<forall>e\<in>set es. ep_policy e \<noteq> AllowedWithPermission"
      using assms(2) Starting by (auto simp: decide_def Let_def split: if_splits option.splits)
    then obtain d where d: "d \<in> set (pending s)" "i = ts_toolCallId d" using c(1) by auto
    then have "c = d" using turn_ok_find [OF s(1)] pendingD [of d s] c(2) by auto
    then obtain e where e: "e \<in> set es" "call_key (ep_call e) = call_key c" "ep_policy e \<noteq> Disabled" using s(4) d(1) by blast
    then have "ep_policy e = AllowedWithoutPermission" using ids(2) by (cases "ep_policy e") auto
    then show ?thesis using key_startable [OF e(2), of env q] e(1) s(3) False by simp
  qed
  then show ?thesis using Starting same by simp
qed (use assms in \<open>auto simp: decide_def Let_def split: if_splits option.splits\<close>)

lemma call_started_ok:
  assumes "turn_safe env a t" "tu_phase t = Starting q (i # is)" "callToolById_start True i (tu_session t) = Inr (Some c, s)"
  shows "turn_safe env a (t\<lparr>tu_session := s, tu_phase := Starting q is, tu_started := tu_started t @ [(q, c)]\<rparr>)"
proof -
  have c: "find_in (tu_session t) i = Some c" "ts_status c = Generated" and s: "s = setToolCallCalling i (tu_session t)"
    using assms(3) by (auto simp: callToolById_start_def split: option.splits if_splits)
  have i: "ts_toolCallId c = i" by (rule findToolCallById_id [OF c(1)])
  have safe: "startable env q c" "phase_ok env a (tu_session t) (tu_started t) (Starting q is)"
    "\<forall>(p, d)\<in>set (tu_started t). settled (tu_session t) (ts_toolCallId d)"
    using assms(1,2) c by (auto simp: turn_safe_def)
  have "phase_ok env a s (tu_started t) (Starting q is)"
    unfolding s by (rule calm_phase [OF calm_calling safe(2)])
  moreover have "settled s i" unfolding s setToolCallCalling_def by (rule on_call_settled) auto
  ultimately have "phase_ok env a s (tu_started t @ [(q, c)]) (Starting q is)" using i by auto
  moreover have "i \<notin> set (map (\<lambda>(q, c). ts_toolCallId c) (tu_started t))"
    using safe(3) c by fastforce
  ultimately show ?thesis using assms(1) safe(1) i by (simp add: turn_safe_def del: phase_ok.simps)
qed

lemma turn_step_safe: "turn_step env a t u \<Longrightarrow> turn_safe env a t \<Longrightarrow> turn_safe env a u"
proof (induction rule: turn_step.induct)
  case (stream_ended t s ph)
  then show ?case using after_stream_ok [of env a "tu_session t" s ph] by (auto simp: turn_safe_def)
next
  case (preprocessed t original cs c ds ans)
  then show ?case using preprocess_ok [of a "tu_session t" c ans] by (simp add: turn_safe_def)
next
  case (evaluation_begun t original)
  then show ?case using after_preprocessing_ok [of a "tu_session t" env original] by (auto simp: turn_safe_def)
next
  case (evaluated t original xs c ys e answered)
  have "ep_policy e = AllowedWithoutPermission \<Longrightarrow> allowed env c" "ep_call e = c"
    using evaluated(2) by (auto simp: automatic_iff permitted_def split: if_splits)
  with evaluated(1,3) show ?case by (auto simp: turn_safe_def)
next
  case (evaluation_ended t original xs es)
  then show ?case using after_evaluation_ok [of env a "tu_session t" original xs es] by (auto simp: turn_safe_def)
next
  case (decided t original es s ph)
  then show ?case using decide_ok [of env a "tu_session t" original es s ph] by (auto simp: turn_safe_def)
next
  case (call_started t q i "is" c s)
  then show ?case using call_started_ok by blast
next
  case (dispatched renv act t s)
  show ?case
  proof (cases "quiet_action act")
    case True
    from calm_phase [OF calm_reduce [OF True dispatched(1)]] show ?thesis
      using dispatched(3) by (auto simp: turn_safe_def)
  next
    case False
    with dispatched(2,3) show ?thesis by (cases "tu_phase t") (auto simp: turn_safe_def)
  qed
qed (auto simp: turn_safe_def)

lemma turn_steps_safe: "(turn_step env a)\<^sup>*\<^sup>* t u \<Longrightarrow> turn_safe env a t \<Longrightarrow> turn_safe env a u"
  by (induction rule: rtranclp_induct) (auto intro: turn_step_safe)


text \<open>An answer with two calls: a file is read while a command waits for the user.\<close>

definition read_tool :: tool where
  "read_tool = \<lparr>tool_name = ''read_file'', tool_group = ''Built-In'', tool_readonly = True,
     tool_defaultPolicy = Some AllowedWithoutPermission\<rparr>"

definition sample_call :: "string \<Rightarrow> string \<Rightarrow> tool_status \<Rightarrow> tool option \<Rightarrow> tool_call_state" where
  "sample_call i name status t =
     \<lparr>ts_toolCallId = i, ts_toolCall = \<lparr>tc_id = i, tc_name = name, tc_args = ''{}''\<rparr>, ts_status = status,
      ts_parsedArgs = JObj [], ts_processedArgs = None, ts_output = None, ts_tool = t, ts_mcpUiState = None\<rparr>"

definition sample_turn_env :: turn_env where
  "sample_turn_env =
     \<lparr>te_reduce = sample_env, te_tools = [read_tool], te_active = [read_tool], te_settings = [],
      te_request = evaluatePolicy (Some []), te_maxGoalNudges = None, te_goalNudgeMessage = None\<rparr>"

definition sample_answer :: "tool_call_state list \<Rightarrow> session" where
  "sample_answer cs = (INITIAL_SESSION_STATE ''s'')\<lparr>ss_isStreaming := True, ss_history :=
     [new_item ''1'' (plain_message UserRole ''hello''), set_states cs (new_item ''2'' (plain_message AssistantRole []))]\<rparr>"

lemma run_then: "(turn_step env a)\<^sup>*\<^sup>* t u \<Longrightarrow> turn_step env a u v \<Longrightarrow> (turn_step env a)\<^sup>*\<^sup>* t v"
  by auto


text \<open>
  The ids must differ: with one id for two calls, the approval of the second one, which reads a file, runs the
  first one, a command for which the user should have been asked.
\<close>

lemma shared_id_runs_other_call:
  "let s = sample_answer [sample_call ''a'' ''run_terminal_command'' Generated None, sample_call ''a'' ''read_file'' Generated (Some read_tool)];
       (es, s1) = evaluateToolPolicies (evaluatePolicy (Some [])) [read_tool] [] (pending s) s
   in map ep_policy es = [AllowedWithPermission, AllowedWithoutPermission] \<and>
      decide sample_turn_env 0 (pending s) es s1 = (s1, Starting True [''a'']) \<and>
      (case callToolById_start True ''a'' s1 of Inr (Some c, _) \<Rightarrow> call_name c = ''run_terminal_command'' | _ \<Rightarrow> False)"
  by code_simp

text \<open>The dollar patterns of \<open>replace\<close> change a goal that contains them.\<close>

lemma goal_text_changed: "js_replace ''{{goal}}'' ''cost in $$'' ''Goal: {{goal}}.'' = ''Goal: cost in $.''"
  by code_simp

section \<open>Goals and the next request\<close>

text \<open>Each nudge uses up one of the allowed number, so that a goal without progress ends the turns.\<close>

lemma nudge_counted:
  assumes "decide env a original es s = (t, Nudged)"
  obtains g where "ss_goal s = Some g" "ss_goal t = Some (g\<lparr>go_nudgeCount := go_nudgeCount g + 1\<rparr>)"
    "int (go_nudgeCount g) < or_else (te_maxGoalNudges env) 5"
proof -
  obtain g where g: "ss_goal s = Some g" "nudges env g"
    "t = stream_update env [user_delta (nudge_text env (go_text g))] (incrementGoalNudge s)"
    using assms by (auto simp: decide_def Let_def split: if_splits option.splits)
  have "ss_goal t = ss_goal (incrementGoalNudge s)" unfolding g(3) by (simp add: streamUpdate_def)
  then show ?thesis using g(1,2) that by (simp add: incrementGoalNudge_def nudges_def)
qed

text \<open>The agent goes on exactly if all calls of the answer are completed.\<close>

lemma filter_full: "length (filter P xs) = length xs \<longleftrightarrow> (\<forall>x\<in>set xs. P x)"
proof (induction xs)
  case (Cons x xs)
  have "length (filter P xs) \<noteq> Suc (length xs)" using length_filter_le [of P xs] by linarith
  with Cons show ?case by simp
qed simp

lemma all_done_iff: "areAllToolsDoneStreaming it b \<longleftrightarrow> (\<forall>c\<in>set (or_else (it_states it) []). completed b c)"
  by (simp add: areAllToolsDoneStreaming_def filter_full split: option.split)

text \<open>What a finished call dispatches are actions that a turn may meet at any time.\<close>

lemma finish_calm: "calm s (callToolById_finish c ans s)"
  by (auto simp: callToolById_finish_def Let_def
      intro: calm_trans [OF calm_output] calm_error calm_accept calm_inactive split: option.split)

end
