(* ===== verification/Sequence_Diff.thy ===== *)
theory Sequence_Diff
  imports Offset_Range
begin

text \<open>
  \<open>diff/defaultLinesDiffComputer/algorithms/diffAlgorithm.ts\<close> of the editor: sequences, pairs of offsets and
  the differences between two sequences, and what it means that differences lead from one sequence to the
  other.
\<close>

section \<open>Sequences\<close>

text \<open>
  \<open>ISequence\<close>: the elements (numbers), the stronger equality of two of its offsets, and the score of an
  offset as a boundary, if the sequence has one. An offset that is out of range has no element.
\<close>

record 'a iseq =
  sq_elements :: "'a list"
  sq_isStronglyEqual :: "int \<Rightarrow> int \<Rightarrow> bool"
  sq_getBoundaryScore :: "(int \<Rightarrow> int) option"

definition sq_length :: "'a iseq \<Rightarrow> int" where
  "sq_length s = int (length (sq_elements s))"

definition getElement :: "'a iseq \<Rightarrow> int \<Rightarrow> 'a option" where
  "getElement s i = (if 0 \<le> i \<and> i < sq_length s then Some (sq_elements s ! nat i) else None)"

section \<open>Pairs of offsets and differences\<close>

record offset_pair =
  op_offset1 :: int
  op_offset2 :: int

definition op_zero :: offset_pair where
  "op_zero = \<lparr>op_offset1 = 0, op_offset2 = 0\<rparr>"

definition op_delta :: "int \<Rightarrow> offset_pair \<Rightarrow> offset_pair" where
  "op_delta n p = \<lparr>op_offset1 = op_offset1 p + n, op_offset2 = op_offset2 p + n\<rparr>"

definition op_equals :: "offset_pair \<Rightarrow> offset_pair \<Rightarrow> bool" where
  "op_equals p q \<longleftrightarrow> op_offset1 p = op_offset1 q \<and> op_offset2 p = op_offset2 q"

record sequence_diff =
  sd_seq1 :: offset_range
  sd_seq2 :: offset_range

abbreviation start1 :: "sequence_diff \<Rightarrow> int" where "start1 d \<equiv> o_start (sd_seq1 d)"
abbreviation start2 :: "sequence_diff \<Rightarrow> int" where "start2 d \<equiv> o_start (sd_seq2 d)"
abbreviation end1 :: "sequence_diff \<Rightarrow> int" where "end1 d \<equiv> o_end (sd_seq1 d)"
abbreviation end2 :: "sequence_diff \<Rightarrow> int" where "end2 d \<equiv> o_end (sd_seq2 d)"

text \<open>\<open>new SequenceDiff(new OffsetRange(a, b), new OffsetRange(c, e))\<close>.\<close>

definition new_diff :: "int \<Rightarrow> int \<Rightarrow> int \<Rightarrow> int \<Rightarrow> sequence_diff option" where
  "new_diff a b c e =
     (case (new_OffsetRange a b, new_OffsetRange c e) of
        (Some r, Some s) \<Rightarrow> Some \<lparr>sd_seq1 = r, sd_seq2 = s\<rparr> | _ \<Rightarrow> None)"

definition fromOffsetPairs :: "offset_pair \<Rightarrow> offset_pair \<Rightarrow> sequence_diff option" where
  "fromOffsetPairs p q = new_diff (op_offset1 p) (op_offset1 q) (op_offset2 p) (op_offset2 q)"

definition getStarts :: "sequence_diff \<Rightarrow> offset_pair" where
  "getStarts d = \<lparr>op_offset1 = start1 d, op_offset2 = start2 d\<rparr>"

definition getEndExclusives :: "sequence_diff \<Rightarrow> offset_pair" where
  "getEndExclusives d = \<lparr>op_offset1 = end1 d, op_offset2 = end2 d\<rparr>"

definition sd_swap :: "sequence_diff \<Rightarrow> sequence_diff" where
  "sd_swap d = \<lparr>sd_seq1 = sd_seq2 d, sd_seq2 = sd_seq1 d\<rparr>"

definition sd_join :: "sequence_diff \<Rightarrow> sequence_diff \<Rightarrow> sequence_diff" where
  "sd_join d e = \<lparr>sd_seq1 = o_join (sd_seq1 d) (sd_seq1 e), sd_seq2 = o_join (sd_seq2 d) (sd_seq2 e)\<rparr>"

definition sd_delta :: "int \<Rightarrow> sequence_diff \<Rightarrow> sequence_diff" where
  "sd_delta n d = (if n = 0 then d else \<lparr>sd_seq1 = o_delta n (sd_seq1 d), sd_seq2 = o_delta n (sd_seq2 d)\<rparr>)"

definition sd_deltaStart :: "int \<Rightarrow> sequence_diff \<Rightarrow> sequence_diff option" where
  "sd_deltaStart n d =
     (if n = 0 then Some d
      else case (o_deltaStart n (sd_seq1 d), o_deltaStart n (sd_seq2 d)) of
        (Some r, Some s) \<Rightarrow> Some \<lparr>sd_seq1 = r, sd_seq2 = s\<rparr> | _ \<Rightarrow> None)"

definition sd_deltaEnd :: "int \<Rightarrow> sequence_diff \<Rightarrow> sequence_diff option" where
  "sd_deltaEnd n d =
     (if n = 0 then Some d
      else case (o_deltaEnd n (sd_seq1 d), o_deltaEnd n (sd_seq2 d)) of
        (Some r, Some s) \<Rightarrow> Some \<lparr>sd_seq1 = r, sd_seq2 = s\<rparr> | _ \<Rightarrow> None)"

definition sd_intersectsOrTouches :: "sequence_diff \<Rightarrow> sequence_diff \<Rightarrow> bool" where
  "sd_intersectsOrTouches d e \<longleftrightarrow>
     o_intersectsOrTouches (sd_seq1 d) (sd_seq1 e) \<or> o_intersectsOrTouches (sd_seq2 d) (sd_seq2 e)"

definition sd_intersect :: "sequence_diff \<Rightarrow> sequence_diff \<Rightarrow> sequence_diff option" where
  "sd_intersect d e =
     (case (o_intersect (sd_seq1 d) (sd_seq1 e), o_intersect (sd_seq2 d) (sd_seq2 e)) of
        (Some r, Some s) \<Rightarrow> Some \<lparr>sd_seq1 = r, sd_seq2 = s\<rparr> | _ \<Rightarrow> None)"

text \<open>\<open>assertSorted\<close>: whether it returns.\<close>

fun sorted_behind :: "sequence_diff option \<Rightarrow> sequence_diff list \<Rightarrow> bool" where
  "sorted_behind prev [] \<longleftrightarrow> True"
| "sorted_behind prev (cur # ds) \<longleftrightarrow>
     (case prev of Some l \<Rightarrow> end1 l \<le> start1 cur \<and> end2 l \<le> start2 cur | None \<Rightarrow> True) \<and> sorted_behind (Some cur) ds"

definition assertSorted :: "sequence_diff list \<Rightarrow> bool" where
  "assertSorted ds = sorted_behind None ds"

text \<open>\<open>invert\<close>: what is between the differences.\<close>

fun invert_behind :: "sequence_diff option \<Rightarrow> sequence_diff list \<Rightarrow> int \<Rightarrow> sequence_diff list option" where
  "invert_behind a [] doc1Length =
     (case fromOffsetPairs (case a of Some x \<Rightarrow> getEndExclusives x | None \<Rightarrow> op_zero)
        \<lparr>op_offset1 = doc1Length, op_offset2 = (case a of Some x \<Rightarrow> end2 x - end1 x | None \<Rightarrow> 0) + doc1Length\<rparr> of
        Some d \<Rightarrow> Some [d] | None \<Rightarrow> None)"
| "invert_behind a (b # ds) doc1Length =
     (case fromOffsetPairs (case a of Some x \<Rightarrow> getEndExclusives x | None \<Rightarrow> op_zero) (getStarts b) of
        Some d \<Rightarrow> map_option ((#) d) (invert_behind (Some b) ds doc1Length) | None \<Rightarrow> None)"

definition sd_invert :: "sequence_diff list \<Rightarrow> int \<Rightarrow> sequence_diff list option" where
  "sd_invert ds doc1Length = invert_behind None ds doc1Length"

record diff_result =
  dr_diffs :: "sequence_diff list"
  dr_hitTimeout :: bool

definition whole_diff :: "'a iseq \<Rightarrow> 'a iseq \<Rightarrow> sequence_diff" where
  "whole_diff s t = \<lparr>sd_seq1 = \<lparr>o_start = 0, o_end = sq_length s\<rparr>, sd_seq2 = \<lparr>o_start = 0, o_end = sq_length t\<rparr>\<rparr>"

definition trivial :: "'a iseq \<Rightarrow> 'a iseq \<Rightarrow> diff_result" where
  "trivial s t = \<lparr>dr_diffs = [whole_diff s t], dr_hitTimeout = False\<rparr>"

definition trivialTimedOut :: "'a iseq \<Rightarrow> 'a iseq \<Rightarrow> diff_result" where
  "trivialTimedOut s t = \<lparr>dr_diffs = [whole_diff s t], dr_hitTimeout = True\<rparr>"

section \<open>Differences that lead from one sequence to the other\<close>

text \<open>Both sequences have the same elements along a stretch.\<close>

definition run :: "'a iseq \<Rightarrow> 'a iseq \<Rightarrow> int \<Rightarrow> int \<Rightarrow> int \<Rightarrow> bool" where
  "run s t i j n \<longleftrightarrow> (\<forall>k. 0 \<le> k \<and> k < n \<longrightarrow> getElement s (i + k) = getElement t (j + k))"

text \<open>
  From two offsets on, the differences come in order, at least \<open>g\<close> elements behind the offsets and
  one element behind each other, and what is between them is the same in both sequences.
\<close>

fun diffs_from :: "'a iseq \<Rightarrow> 'a iseq \<Rightarrow> int \<Rightarrow> int \<Rightarrow> int \<Rightarrow> sequence_diff list \<Rightarrow> bool" where
  "diffs_from s t g i j [] \<longleftrightarrow> i \<le> sq_length s \<and> sq_length t = j + (sq_length s - i) \<and> run s t i j (sq_length s - i)"
| "diffs_from s t g i j (d # ds) \<longleftrightarrow>
     i \<le> start1 d \<and> g \<le> start1 d - i \<and> start2 d = j + (start1 d - i) \<and> run s t i j (start1 d - i) \<and>
     start1 d \<le> end1 d \<and> start2 d \<le> end2 d \<and> diffs_from s t 1 (end1 d) (end2 d) ds"

definition diffs_ok :: "'a iseq \<Rightarrow> 'a iseq \<Rightarrow> sequence_diff list \<Rightarrow> bool" where
  "diffs_ok s t ds \<longleftrightarrow> diffs_from s t 0 0 0 ds"

text \<open>Such differences rebuild the second sequence from the first.\<close>

fun replay :: "'a list \<Rightarrow> 'a list \<Rightarrow> int \<Rightarrow> sequence_diff list \<Rightarrow> 'a list" where
  "replay xs ys i [] = drop (nat i) xs"
| "replay xs ys i (d # ds) =
     take (nat (start1 d - i)) (drop (nat i) xs) @ take (nat (end2 d - start2 d)) (drop (nat (start2 d)) ys) @ replay xs ys (end1 d) ds"

lemma run_0 [simp]: "run s t i j 0"
  by (auto simp: run_def)

lemma run_one: "getElement s i = getElement t j \<Longrightarrow> run s t i j 1"
  unfolding run_def
proof (intro allI impI)
  fix k :: int assume "getElement s i = getElement t j" "0 \<le> k \<and> k < 1"
  then show "getElement s (i + k) = getElement t (j + k)" by (cases "k = 0") auto
qed

lemma run_lists:
  assumes "run s t i j n" "0 \<le> i" "0 \<le> j" "i + n \<le> sq_length s" "j + n \<le> sq_length t"
  shows "take (nat n) (drop (nat i) (sq_elements s)) = take (nat n) (drop (nat j) (sq_elements t))"
proof (rule nth_equalityI)
  fix k assume k: "k < length (take (nat n) (drop (nat i) (sq_elements s)))"
  then have "int k < n" by auto
  with assms(1) have "getElement s (i + int k) = getElement t (j + int k)"
    by (simp add: run_def)
  moreover have "i + int k < sq_length s" "j + int k < sq_length t" "nat (i + int k) = nat i + k" "nat (j + int k) = nat j + k"
    using \<open>int k < n\<close> assms(2-) by auto
  ultimately show "take (nat n) (drop (nat i) (sq_elements s)) ! k = take (nat n) (drop (nat j) (sq_elements t)) ! k"
    using k assms(2-) by (simp add: getElement_def sq_length_def)
qed (use assms in \<open>auto simp: sq_length_def\<close>)

lemma diffs_from_le:
  "diffs_from s t g i j ds \<Longrightarrow> i \<le> sq_length s \<and> j \<le> sq_length t \<and> (\<forall>d\<in>set ds. i \<le> start1 d \<and> end1 d \<le> sq_length s \<and> end2 d \<le> sq_length t)"
  by (induction ds arbitrary: g i j) fastforce+

lemma diffs_from_replay:
  "diffs_from s t g i j ds \<Longrightarrow> 0 \<le> i \<Longrightarrow> 0 \<le> j \<Longrightarrow> replay (sq_elements s) (sq_elements t) i ds = drop (nat j) (sq_elements t)"
proof (induction ds arbitrary: g i j)
  case Nil
  then have "take (nat (sq_length s - i)) (drop (nat i) (sq_elements s)) = take (nat (sq_length s - i)) (drop (nat j) (sq_elements t))"
    by (intro run_lists) auto
  moreover have "length (drop (nat i) (sq_elements s)) = nat (sq_length s - i)" "length (drop (nat j) (sq_elements t)) = nat (sq_length s - i)"
    using Nil by (auto simp: sq_length_def)
  ultimately show ?case by simp
next
  case (Cons d ds)
  let ?ys = "sq_elements t"
  have le: "end1 d \<le> sq_length s" "end2 d \<le> sq_length t" using diffs_from_le [OF Cons.prems(1)] by auto
  have "replay (sq_elements s) ?ys (end1 d) ds = drop (nat (end2 d)) ?ys"
    using Cons.IH [of 1 "end1 d" "end2 d"] Cons.prems by simp
  moreover have "take (nat (start1 d - i)) (drop (nat i) (sq_elements s)) = take (nat (start2 d - j)) (drop (nat j) ?ys)"
  proof -
    have "start1 d - i = start2 d - j" "run s t i j (start2 d - j)" using Cons.prems(1) by auto
    then show ?thesis using run_lists [of s t i j "start2 d - j"] Cons.prems le by simp
  qed
  moreover have "drop (nat j) ?ys = take (nat (start2 d - j)) (drop (nat j) ?ys) @
      take (nat (end2 d - start2 d)) (drop (nat (start2 d)) ?ys) @ drop (nat (end2 d)) ?ys"
  proof -
    have "nat (start2 d - j) + nat j = nat (start2 d)" "nat (end2 d - start2 d) + nat (start2 d) = nat (end2 d)"
      using Cons.prems by auto
    then show ?thesis by (metis append_take_drop_id drop_drop)
  qed
  ultimately show ?case by simp
qed

lemma diffs_ok_replay: "diffs_ok s t ds \<Longrightarrow> replay (sq_elements s) (sq_elements t) 0 ds = sq_elements t"
  using diffs_from_replay [of s t 0 0 0 ds] by (simp add: diffs_ok_def)

lemma trivial_ok: "diffs_ok s t [whole_diff s t]"
  by (auto simp: diffs_ok_def whole_diff_def sq_length_def run_def)

lemma diffs_from_weaken: "diffs_from s t g i j ds \<Longrightarrow> h \<le> g \<Longrightarrow> diffs_from s t h i j ds"
  by (cases ds) auto

lemma run_split: "0 \<le> m \<Longrightarrow> 0 \<le> n \<Longrightarrow> run s t i j (m + n) \<longleftrightarrow> run s t i j m \<and> run s t (i + m) (j + m) n"
proof -
  assume mn: "0 \<le> m" "0 \<le> n"
  have "getElement s (i + k) = getElement t (j + k)"
    if "run s t i j m" "run s t (i + m) (j + m) n" "0 \<le> k" "k < m + n" for k
  proof (cases "k < m")
    case False
    then show ?thesis using that(2,4) by (auto simp: run_def dest!: spec [of _ "k - m"])
  qed (use that in \<open>simp add: run_def\<close>)
  moreover have "run s t (i + m) (j + m) n" if "run s t i j (m + n)"
    using that mn by (auto simp: run_def dest!: spec [of _ "m + _"] simp: add.assoc)
  ultimately show ?thesis using mn by (auto simp: run_def)
qed

lemma run_swap: "run s t i j n = run t s j i n"
  by (auto simp: run_def)

lemma diffs_from_swap: "diffs_from t s g j i (map sd_swap ds) = diffs_from s t g i j ds"
  by (induction ds arbitrary: g i j) (auto simp: sd_swap_def run_swap [of t s])

text \<open>The rest of the differences seen from earlier offsets.\<close>

lemma diffs_from_earlier:
  assumes "diffs_from s t g i j ds" "run s t (i - n) (j - n) n" "0 \<le> n"
  shows "diffs_from s t (g + n) (i - n) (j - n) ds"
proof (cases ds)
  case Nil
  have "run s t (i - n) (j - n) (n + (sq_length s - i))"
    using assms Nil by (subst run_split) auto
  then show ?thesis using assms Nil by (simp add: algebra_simps)
next
  case (Cons d ds')
  have "run s t (i - n) (j - n) (n + (start1 d - i))"
    using assms Cons by (subst run_split) auto
  then show ?thesis using assms Cons by (simp add: algebra_simps)
qed

text \<open>A text as a sequence, for examples.\<close>

definition text_seq :: "string \<Rightarrow> char iseq" where
  "text_seq x = \<lparr>sq_elements = x, sq_isStronglyEqual = (\<lambda>i j. getElement \<lparr>sq_elements = x, sq_isStronglyEqual = \<lambda>_ _. False,
     sq_getBoundaryScore = None\<rparr> i = getElement \<lparr>sq_elements = x, sq_isStronglyEqual = \<lambda>_ _. False, sq_getBoundaryScore = None\<rparr> j),
     sq_getBoundaryScore = Some (\<lambda>i. if 0 < i \<and> x ! nat (i - 1) = CHR '' '' then 1 else 0)\<rparr>"

end
