(* ===== verification/Diff_Optimize.thy ===== *)
theory Diff_Optimize
  imports Sequence_Diff
begin

text \<open>
  \<open>diff/defaultLinesDiffComputer/heuristicSequenceOptimizations.ts\<close>: differences are moved to better places and
  joined. The theorems show that all of this leaves a list of differences what it is, a way from one
  sequence to the other. An inverted range, for which the constructor throws, is \<open>None\<close>.
\<close>

section \<open>Joining by shifting\<close>

text \<open>How many of the numbers from \<open>i\<close> on, at most \<open>n\<close>, satisfy a condition before the first that does not.\<close>

fun count_while :: "(int \<Rightarrow> bool) \<Rightarrow> int \<Rightarrow> nat \<Rightarrow> int" where
  "count_while P i 0 = 0"
| "count_while P i (Suc n) = (if P i then 1 + count_while P (i + 1) n else 0)"

definition one_empty :: "sequence_diff \<Rightarrow> bool" where
  "one_empty d \<longleftrightarrow> o_isEmpty (sd_seq1 d) \<or> o_isEmpty (sd_seq2 d)"

text \<open>The first loop of \<open>joinSequenceDiffsByShifting\<close>, with the last result.\<close>

definition steps_left :: "'a iseq \<Rightarrow> 'a iseq \<Rightarrow> sequence_diff \<Rightarrow> int \<Rightarrow> int" where
  "steps_left s t cur len =
     count_while (\<lambda>d. getElement s (start1 cur - d) = getElement s (end1 cur - d) \<and>
       getElement t (start2 cur - d) = getElement t (end2 cur - d)) 1 (nat len)"

definition merge_left :: "sequence_diff \<Rightarrow> sequence_diff \<Rightarrow> int \<Rightarrow> sequence_diff option" where
  "merge_left prevResult cur len =
     new_diff (start1 prevResult) (end1 cur - len) (start2 prevResult) (end2 cur - len)"

fun join_left :: "'a iseq \<Rightarrow> 'a iseq \<Rightarrow> sequence_diff \<Rightarrow> sequence_diff list \<Rightarrow> sequence_diff list option" where
  "join_left s t prevResult [] = Some [prevResult]"
| "join_left s t prevResult (cur # ds) =
     (if one_empty cur
      then (if steps_left s t cur (start1 cur - end1 prevResult) = start1 cur - end1 prevResult
            then (case merge_left prevResult cur (start1 cur - end1 prevResult) of
                    None \<Rightarrow> None | Some m \<Rightarrow> join_left s t m ds)
            else map_option ((#) prevResult)
                   (join_left s t (sd_delta (- steps_left s t cur (start1 cur - end1 prevResult)) cur) ds))
      else map_option ((#) prevResult) (join_left s t cur ds))"

text \<open>The second loop.\<close>

definition steps_right :: "'a iseq \<Rightarrow> 'a iseq \<Rightarrow> sequence_diff \<Rightarrow> int \<Rightarrow> int" where
  "steps_right s t cur len =
     count_while (\<lambda>d. sq_isStronglyEqual s (start1 cur + d) (end1 cur + d) \<and>
       sq_isStronglyEqual t (start2 cur + d) (end2 cur + d)) 0 (nat len)"

definition merge_right :: "sequence_diff \<Rightarrow> sequence_diff \<Rightarrow> int \<Rightarrow> sequence_diff option" where
  "merge_right cur nextResult len =
     new_diff (start1 cur + len) (end1 nextResult) (start2 cur + len) (end2 nextResult)"

fun join_right :: "'a iseq \<Rightarrow> 'a iseq \<Rightarrow> sequence_diff \<Rightarrow> sequence_diff list \<Rightarrow> sequence_diff list option" where
  "join_right s t cur [] = Some [cur]"
| "join_right s t cur (nextResult # ds) =
     (if one_empty cur
      then (if steps_right s t cur (start1 nextResult - end1 cur) = start1 nextResult - end1 cur
            then (case merge_right cur nextResult (start1 nextResult - end1 cur) of
                    None \<Rightarrow> None | Some m \<Rightarrow> join_right s t m ds)
            else map_option ((#) (sd_delta (steps_right s t cur (start1 nextResult - end1 cur)) cur))
                   (join_right s t nextResult ds))
      else map_option ((#) cur) (join_right s t nextResult ds))"

definition joinSequenceDiffsByShifting :: "'a iseq \<Rightarrow> 'a iseq \<Rightarrow> sequence_diff list \<Rightarrow> sequence_diff list option" where
  "joinSequenceDiffsByShifting s t ds =
     (case ds of
        [] \<Rightarrow> Some []
      | d # ds' \<Rightarrow>
          (case join_left s t d ds' of
             None \<Rightarrow> None | Some [] \<Rightarrow> Some [] | Some (e # es) \<Rightarrow> join_right s t e es))"

section \<open>Shifting to better places\<close>

definition maxShiftLimit :: nat where
  "maxShiftLimit = 100"

text \<open>The best of the shifts from \<open>delta\<close> on, \<open>n\<close> of them.\<close>

fun best_shift :: "(int \<Rightarrow> int) \<Rightarrow> int \<Rightarrow> nat \<Rightarrow> int \<times> int \<Rightarrow> int" where
  "best_shift score delta 0 (bestDelta, bestScore) = bestDelta"
| "best_shift score delta (Suc n) (bestDelta, bestScore) =
     best_shift score (delta + 1) n
       (if score delta > bestScore then (delta, score delta) else (bestDelta, bestScore))"

definition shiftDiffToBetterPosition ::
  "sequence_diff \<Rightarrow> (int \<Rightarrow> int) \<Rightarrow> (int \<Rightarrow> int) \<Rightarrow> (int \<Rightarrow> int \<Rightarrow> bool) \<Rightarrow> offset_range \<Rightarrow> offset_range \<Rightarrow> sequence_diff" where
  "shiftDiffToBetterPosition diff score1 score2 stronglyEqual2 valid1 valid2 =
     (let deltaBefore =
            count_while (\<lambda>d. start1 diff - d \<ge> o_start valid1 \<and> start2 diff - d \<ge> o_start valid2 \<and>
              stronglyEqual2 (start2 diff - d) (end2 diff - d)) 1 (maxShiftLimit - 1);
          deltaAfter =
            count_while (\<lambda>d. start1 diff + d < o_end valid1 \<and> end2 diff + d < o_end valid2 \<and>
              stronglyEqual2 (start2 diff + d) (end2 diff + d)) 0 maxShiftLimit
      in if deltaBefore = 0 \<and> deltaAfter = 0 then diff
         else sd_delta
           (best_shift (\<lambda>delta. score1 (start1 diff + delta) + score2 (start2 diff + delta) + score2 (end2 diff + delta))
             (- deltaBefore) (nat (deltaBefore + deltaAfter + 1)) (0, -1)) diff)"

fun shift_from :: "'a iseq \<Rightarrow> 'a iseq \<Rightarrow> (int \<Rightarrow> int) \<Rightarrow> (int \<Rightarrow> int) \<Rightarrow> sequence_diff option \<Rightarrow> sequence_diff list
    \<Rightarrow> sequence_diff list option" where
  "shift_from s t score1 score2 prev [] = Some []"
| "shift_from s t score1 score2 prev (d # ds) =
     (case (new_OffsetRange (case prev of Some p \<Rightarrow> end1 p + 1 | None \<Rightarrow> 0)
              (case ds of n # _ \<Rightarrow> start1 n - 1 | [] \<Rightarrow> sq_length s),
            new_OffsetRange (case prev of Some p \<Rightarrow> end2 p + 1 | None \<Rightarrow> 0)
              (case ds of n # _ \<Rightarrow> start2 n - 1 | [] \<Rightarrow> sq_length t)) of
        (Some valid1, Some valid2) \<Rightarrow>
          (let e = (if o_isEmpty (sd_seq1 d)
                    then shiftDiffToBetterPosition d score1 score2 (sq_isStronglyEqual t) valid1 valid2
                    else if o_isEmpty (sd_seq2 d)
                    then sd_swap (shiftDiffToBetterPosition (sd_swap d) score2 score1 (sq_isStronglyEqual s) valid2 valid1)
                    else d)
           in map_option ((#) e) (shift_from s t score1 score2 (Some e) ds))
      | _ \<Rightarrow> None)"

definition shiftSequenceDiffs :: "'a iseq \<Rightarrow> 'a iseq \<Rightarrow> sequence_diff list \<Rightarrow> sequence_diff list option" where
  "shiftSequenceDiffs s t ds =
     (case (sq_getBoundaryScore s, sq_getBoundaryScore t) of
        (Some score1, Some score2) \<Rightarrow> shift_from s t score1 score2 None ds
      | _ \<Rightarrow> Some ds)"

definition optimizeSequenceDiffs :: "'a iseq \<Rightarrow> 'a iseq \<Rightarrow> sequence_diff list \<Rightarrow> sequence_diff list option" where
  "optimizeSequenceDiffs s t ds =
     (case joinSequenceDiffsByShifting s t ds of
        None \<Rightarrow> None
      | Some a \<Rightarrow>
          (case joinSequenceDiffsByShifting s t a of
             None \<Rightarrow> None
           | Some b \<Rightarrow> shiftSequenceDiffs s t b))"

section \<open>Joining over short matches\<close>

fun short_matches :: "sequence_diff \<Rightarrow> sequence_diff list \<Rightarrow> sequence_diff list" where
  "short_matches l [] = [l]"
| "short_matches l (d # ds) =
     (if start1 d - end1 l \<le> 2 \<or> start2 d - end2 l \<le> 2 then short_matches (sd_join l d) ds
      else l # short_matches d ds)"

definition removeShortMatches :: "sequence_diff list \<Rightarrow> sequence_diff list" where
  "removeShortMatches ds = (case ds of [] \<Rightarrow> [] | d # ds' \<Rightarrow> short_matches d ds')"

text \<open>
  \<open>removeVeryShortMatchingLinesBetweenDiffs\<close>: differences are joined over unchanged lines with at most four
  characters that are no white space, if one of the two is long; up to eleven rounds. \<open>getText\<close> is the text of
  a range of lines of the first sequence.
\<close>

definition shouldJoinLines :: "(offset_range \<Rightarrow> string) \<Rightarrow> sequence_diff \<Rightarrow> sequence_diff \<Rightarrow> bool" where
  "shouldJoinLines getText before after \<longleftrightarrow>
     length (filter (\<lambda>c. \<not> js_ws c) (getText \<lparr>o_start = end1 before, o_end = start1 after\<rparr>)) \<le> 4 \<and>
     (o_length (sd_seq1 before) + o_length (sd_seq2 before) > 5 \<or> o_length (sd_seq1 after) + o_length (sd_seq2 after) > 5)"

fun join_round :: "(sequence_diff \<Rightarrow> sequence_diff \<Rightarrow> bool) \<Rightarrow> sequence_diff \<Rightarrow> sequence_diff list \<Rightarrow> sequence_diff list \<times> bool" where
  "join_round should l [] = ([l], False)"
| "join_round should l (cur # ds) =
     (if should l cur then (fst (join_round should (sd_join l cur) ds), True)
      else let (r, b) = join_round should cur ds in (l # r, b))"

fun join_rounds :: "(sequence_diff \<Rightarrow> sequence_diff \<Rightarrow> bool) \<Rightarrow> nat \<Rightarrow> sequence_diff list \<Rightarrow> sequence_diff list" where
  "join_rounds should n ds =
     (case ds of
        [] \<Rightarrow> []
      | d # ds' \<Rightarrow>
          let (r, again) = join_round should d ds' in
          (case n of 0 \<Rightarrow> r | Suc m \<Rightarrow> if again then join_rounds should m r else r))"

definition removeVeryShortMatchingLinesBetweenDiffs :: "(offset_range \<Rightarrow> string) \<Rightarrow> sequence_diff list \<Rightarrow> sequence_diff list" where
  "removeVeryShortMatchingLinesBetweenDiffs getText ds = join_rounds (shouldJoinLines getText) 10 ds"

section \<open>Differences stay differences\<close>

lemma count_while_range: "0 \<le> count_while P i n \<and> count_while P i n \<le> int n"
proof (induction n arbitrary: i)
  case (Suc n)
  then show ?case using Suc [of "i + 1"] by (cases "P i") auto
qed simp

lemma count_while_holds: "i \<le> d \<Longrightarrow> d < i + count_while P i n \<Longrightarrow> P d"
proof (induction n arbitrary: i)
  case (Suc n)
  have i: "P i" using Suc.prems by (cases "P i") auto
  show ?case
  proof (cases "d = i")
    case False
    then show ?thesis using Suc.IH [of "i + 1"] Suc.prems i by simp
  qed (use i in simp)
qed simp

text \<open>How far to the right the difference in front of others may end.\<close>

definition room :: "'a iseq \<Rightarrow> sequence_diff list \<Rightarrow> int" where
  "room s ds = (case ds of [] \<Rightarrow> sq_length s | n # _ \<Rightarrow> start1 n - 1)"

lemma run_part: "run s t i j n \<Longrightarrow> 0 \<le> m \<Longrightarrow> m + l \<le> n \<Longrightarrow> run s t (i + m) (j + m) l"
  unfolding run_def
proof (intro allI impI)
  fix k assume "\<forall>k. 0 \<le> k \<and> k < n \<longrightarrow> getElement s (i + k) = getElement t (j + k)" "0 \<le> m" "m + l \<le> n" "0 \<le> k \<and> k < l"
  then have "getElement s (i + (m + k)) = getElement t (j + (m + k))" by simp
  then show "getElement s (i + m + k) = getElement t (j + m + k)" by (simp add: add.assoc)
qed

lemma run_le: "run s t i j n \<Longrightarrow> m \<le> n \<Longrightarrow> run s t i j m"
  by (simp add: run_def)

lemma diffs_from_later:
  assumes "diffs_from s t g i j ds" "0 \<le> k" "i + k \<le> room s ds"
  shows "diffs_from s t 1 (i + k) (j + k) ds"
proof (cases ds)
  case Nil
  with assms have "run s t i j (sq_length s - i)" by simp
  then have "run s t (i + k) (j + k) (sq_length s - (i + k))" by (rule run_part) (use assms in auto)
  with assms Nil show ?thesis by (simp add: room_def)
next
  case (Cons d ds')
  with assms have "run s t i j (start1 d - i)" by simp
  then have "run s t (i + k) (j + k) (start1 d - (i + k))" by (rule run_part) (use assms in auto)
  with assms Cons show ?thesis by (simp add: room_def)
qed

lemma delta_ok:
  assumes d: "diffs_from s t g i j (d # ds)"
    and left: "k < 0 \<Longrightarrow> g \<le> start1 d + k - i \<and> i \<le> start1 d + k \<and> run s t (end1 d + k) (end2 d + k) (- k)"
    and right: "0 < k \<Longrightarrow> end1 d + k \<le> room s ds \<and> run s t (start1 d) (start2 d) k"
  shows "diffs_from s t g i j (sd_delta k d # ds)"
proof (cases "k < 0")
  case True
  have "diffs_from s t 1 (end1 d + k) (end2 d + k) ds"
    using diffs_from_earlier [of s t 1 "end1 d" "end2 d" ds "- k"] d left [OF True] True
    by (auto intro: diffs_from_weaken)
  moreover have "run s t i j (start1 d + k - i)"
    by (rule run_le [of s t i j "start1 d - i"]) (use d True in auto)
  ultimately show ?thesis using d left [OF True] True by (auto simp: sd_delta_def o_delta_def)
next
  case False
  then consider "k = 0" | "0 < k" by linarith
  then show ?thesis
  proof cases
    case 2
    have "diffs_from s t 1 (end1 d + k) (end2 d + k) ds"
      using diffs_from_later [of s t 1 "end1 d" "end2 d" ds k] d right [OF 2] 2 by simp
    moreover have "run s t i j (start1 d - i + k)"
      using d right [OF 2] 2 by (subst run_split) auto
    ultimately show ?thesis using d 2 by (auto simp: sd_delta_def o_delta_def algebra_simps)
  qed (use d in \<open>simp add: sd_delta_def\<close>)
qed

text \<open>Shifting to the left and to the right over equal elements.\<close>

lemma shift_left_run:
  assumes "run s t i j n" "start1 d - i = n" "start2 d - j = n" "0 \<le> k" "k \<le> n"
    and eq: "\<And>l. 1 \<le> l \<Longrightarrow> l \<le> k \<Longrightarrow> getElement s (start1 d - l) = getElement s (end1 d - l) \<and>
        getElement t (start2 d - l) = getElement t (end2 d - l)"
  shows "run s t (end1 d - k) (end2 d - k) k"
  unfolding run_def
proof (intro allI impI)
  fix m assume m: "0 \<le> m \<and> m < k"
  let ?l = "k - m"
  have "getElement s (i + (n - ?l)) = getElement t (j + (n - ?l))"
    using assms(1,5) m by (simp add: run_def)
  moreover have "i + (n - ?l) = start1 d - ?l" "j + (n - ?l) = start2 d - ?l" using assms(2,3) by linarith+
  ultimately have "getElement s (end1 d - ?l) = getElement t (end2 d - ?l)" using eq [of ?l] m by simp
  moreover have "end1 d - ?l = end1 d - k + m" "end2 d - ?l = end2 d - k + m" by linarith+
  ultimately show "getElement s (end1 d - k + m) = getElement t (end2 d - k + m)" by simp
qed

lemma shift_right_run:
  assumes "run s t (end1 d) (end2 d) n" "k \<le> n"
    and eq: "\<And>l. 0 \<le> l \<Longrightarrow> l < k \<Longrightarrow> getElement s (start1 d + l) = getElement s (end1 d + l) \<and>
        getElement t (start2 d + l) = getElement t (end2 d + l)"
  shows "run s t (start1 d) (start2 d) k"
  using assms(1,2) eq by (simp add: run_def)

text \<open>A difference that reaches the one in front of it, or the one behind it, is joined with it.\<close>

lemma new_diff_Some: "a \<le> b \<Longrightarrow> c \<le> e \<Longrightarrow>
   new_diff a b c e = Some \<lparr>sd_seq1 = \<lparr>o_start = a, o_end = b\<rparr>, sd_seq2 = \<lparr>o_start = c, o_end = e\<rparr>\<rparr>"
  by (simp add: new_diff_def new_OffsetRange_def)

lemma steps_left_bounds:
  "0 \<le> steps_left s t cur len \<and> (0 \<le> len \<longrightarrow> steps_left s t cur len \<le> len) \<and>
   (\<forall>l. 1 \<le> l \<and> l \<le> steps_left s t cur len \<longrightarrow> getElement s (start1 cur - l) = getElement s (end1 cur - l) \<and>
      getElement t (start2 cur - l) = getElement t (end2 cur - l))"
proof -
  let ?P = "\<lambda>d. getElement s (start1 cur - d) = getElement s (end1 cur - d) \<and>
     getElement t (start2 cur - d) = getElement t (end2 cur - d)"
  have "?P l" if l: "1 \<le> l" "l \<le> count_while ?P 1 (nat len)" for l
    by (rule count_while_holds [of 1 l ?P "nat len"]) (use l in linarith)+
  moreover have "0 \<le> count_while ?P 1 (nat len)" "0 \<le> len \<longrightarrow> count_while ?P 1 (nat len) \<le> len"
    using count_while_range [of ?P 1 "nat len"] by linarith+
  ultimately show ?thesis unfolding steps_left_def by blast
qed

lemma join_left_ok:
  "diffs_from s t g i j (d # ds) \<Longrightarrow> \<exists>r. join_left s t d ds = Some r \<and> diffs_from s t g i j r"
proof (induction ds arbitrary: d g i j)
  case (Cons cur ds)
  define len where "len = start1 cur - end1 d"
  define k where "k = steps_left s t cur len"
  have d: "i \<le> start1 d" "g \<le> start1 d - i" "start1 d - i = start2 d - j" "run s t i j (start1 d - i)"
    "start1 d \<le> end1 d" "start2 d \<le> end2 d"
    and cur: "diffs_from s t 1 (end1 d) (end2 d) (cur # ds)" using Cons.prems by auto
  have gap: "1 \<le> len" "start2 cur - end2 d = len" "run s t (end1 d) (end2 d) len"
    "start1 cur \<le> end1 cur" "start2 cur \<le> end2 cur" using cur by (auto simp: len_def)
  have k: "0 \<le> k" "k \<le> len"
    and eq: "\<And>l. 1 \<le> l \<Longrightarrow> l \<le> k \<Longrightarrow> getElement s (start1 cur - l) = getElement s (end1 cur - l) \<and>
        getElement t (start2 cur - l) = getElement t (end2 cur - l)"
    using steps_left_bounds [of s t cur len] gap(1) unfolding k_def by auto
  have run: "run s t (end1 cur - k) (end2 cur - k) k"
    by (rule shift_left_run [OF gap(3) _ gap(2) k eq]) (simp add: len_def)
  have keep: "\<exists>r. map_option ((#) d) (join_left s t c ds) = Some r \<and> diffs_from s t g i j r"
    if "diffs_from s t 1 (end1 d) (end2 d) (c # ds)" for c
    using Cons.IH [OF that] d by auto
  show ?case
  proof (cases "one_empty cur")
    case True
    note empty = True
    show ?thesis
    proof (cases "k = len")
      case True
      let ?m = "\<lparr>sd_seq1 = \<lparr>o_start = start1 d, o_end = end1 cur - len\<rparr>, sd_seq2 = \<lparr>o_start = start2 d, o_end = end2 cur - len\<rparr>\<rparr>"
      have le: "start1 d \<le> end1 cur - len" "start2 d \<le> end2 cur - len" using gap d by (auto simp: len_def)
      have "diffs_from s t (1 + len) (end1 cur - len) (end2 cur - len) ds"
        using diffs_from_earlier [of s t 1 "end1 cur" "end2 cur" ds len] cur run True gap(1) by auto
      then have "diffs_from s t g i j (?m # ds)"
        using d le gap(1) diffs_from_weaken [of s t "1 + len" _ _ ds 1] by auto
      from Cons.IH [OF this] show ?thesis
        using empty True le by (auto simp: merge_left_def new_diff_Some simp flip: len_def k_def)
    next
      case False
      have "diffs_from s t 1 (end1 d) (end2 d) (sd_delta (- k) cur # ds)"
        by (rule delta_ok [OF cur]) (use False k run in \<open>auto simp: len_def\<close>)
      from keep [OF this] show ?thesis using empty False by (simp flip: len_def k_def)
    qed
  next
    case False
    with keep [OF cur] show ?thesis by simp
  qed
qed simp

text \<open>The stronger equality of a sequence implies that the elements are equal.\<close>

definition strong_sound :: "'a iseq \<Rightarrow> bool" where
  "strong_sound s \<longleftrightarrow> (\<forall>i j. sq_isStronglyEqual s i j \<longrightarrow> getElement s i = getElement s j)"

lemma steps_right_bounds:
  "0 \<le> steps_right s t cur len \<and> (0 \<le> len \<longrightarrow> steps_right s t cur len \<le> len) \<and>
   (\<forall>l. 0 \<le> l \<and> l < steps_right s t cur len \<longrightarrow> sq_isStronglyEqual s (start1 cur + l) (end1 cur + l) \<and>
      sq_isStronglyEqual t (start2 cur + l) (end2 cur + l))"
proof -
  let ?P = "\<lambda>d. sq_isStronglyEqual s (start1 cur + d) (end1 cur + d) \<and> sq_isStronglyEqual t (start2 cur + d) (end2 cur + d)"
  have "?P l" if l: "0 \<le> l" "l < count_while ?P 0 (nat len)" for l
    by (rule count_while_holds [of 0 l ?P "nat len"]) (use l in linarith)+
  moreover have "0 \<le> count_while ?P 0 (nat len)" "0 \<le> len \<longrightarrow> count_while ?P 0 (nat len) \<le> len"
    using count_while_range [of ?P 0 "nat len"] by linarith+
  ultimately show ?thesis unfolding steps_right_def by blast
qed

lemma join_right_ok:
  assumes "strong_sound s" "strong_sound t"
  shows "diffs_from s t g i j (d # ds) \<Longrightarrow> \<exists>r. join_right s t d ds = Some r \<and> diffs_from s t g i j r"
proof (induction ds arbitrary: d g i j)
  case (Cons n ds)
  define len where "len = start1 n - end1 d"
  define k where "k = steps_right s t d len"
  have d: "i \<le> start1 d" "g \<le> start1 d - i" "start2 d = j + (start1 d - i)" "run s t i j (start1 d - i)"
    "start1 d \<le> end1 d" "start2 d \<le> end2 d"
    and n: "diffs_from s t 1 (end1 d) (end2 d) (n # ds)" using Cons.prems by auto
  have gap: "1 \<le> len" "start2 n = end2 d + len" "run s t (end1 d) (end2 d) len"
    "start1 n \<le> end1 n" "start2 n \<le> end2 n" "diffs_from s t 1 (end1 n) (end2 n) ds" using n by (auto simp: len_def)
  have k: "0 \<le> k" "k \<le> len" using steps_right_bounds [of s t d len] gap(1) unfolding k_def by auto
  have run: "run s t (start1 d) (start2 d) k"
  proof (rule shift_right_run [OF gap(3) k(2)])
    fix l assume "0 \<le> l" "l < k"
    then have "sq_isStronglyEqual s (start1 d + l) (end1 d + l)" "sq_isStronglyEqual t (start2 d + l) (end2 d + l)"
      using steps_right_bounds [of s t d len] unfolding k_def by auto
    then show "getElement s (start1 d + l) = getElement s (end1 d + l) \<and> getElement t (start2 d + l) = getElement t (end2 d + l)"
      using assms unfolding strong_sound_def by blast
  qed
  have keep: "\<exists>r. map_option ((#) c) (join_right s t n ds) = Some r \<and> diffs_from s t g i j r"
    if c: "diffs_from s t g i j (c # n # ds)" for c
  proof -
    have "diffs_from s t 1 (end1 c) (end2 c) (n # ds)" using c by simp
    from Cons.IH [OF this] c show ?thesis by auto
  qed
  show ?case
  proof (cases "one_empty d")
    case True
    note empty = True
    show ?thesis
    proof (cases "k = len")
      case True
      let ?m = "\<lparr>sd_seq1 = \<lparr>o_start = start1 d + len, o_end = end1 n\<rparr>, sd_seq2 = \<lparr>o_start = start2 d + len, o_end = end2 n\<rparr>\<rparr>"
      have le: "start1 d + len \<le> end1 n" "start2 d + len \<le> end2 n" using gap d by (auto simp: len_def)
      have "run s t i j (start1 d - i + len)"
        using d run True gap(1) by (subst run_split) auto
      then have "diffs_from s t g i j (?m # ds)" using d le gap by (simp add: algebra_simps)
      from Cons.IH [OF this] show ?thesis
        using empty True le by (auto simp: merge_right_def new_diff_Some simp flip: len_def k_def)
    next
      case False
      have "diffs_from s t g i j (sd_delta k d # n # ds)"
        by (rule delta_ok [OF Cons.prems]) (use False k run in \<open>auto simp: len_def room_def\<close>)
      from keep [OF this] show ?thesis using empty False by (simp flip: len_def k_def)
    qed
  next
    case False
    with keep [OF Cons.prems] show ?thesis by simp
  qed
qed simp

lemma joinSequenceDiffsByShifting_ok:
  assumes "strong_sound s" "strong_sound t" "diffs_ok s t ds"
  shows "\<exists>r. joinSequenceDiffsByShifting s t ds = Some r \<and> diffs_ok s t r"
proof (cases ds)
  case (Cons d ds')
  then obtain r where r: "join_left s t d ds' = Some r" "diffs_ok s t r"
    using join_left_ok [of s t 0 0 0 d ds'] assms(3) by (auto simp: diffs_ok_def)
  show ?thesis
  proof (cases r)
    case Nil
    with r Cons show ?thesis by (simp add: joinSequenceDiffsByShifting_def)
  next
    case (Cons e es)
    with join_right_ok [OF assms(1,2), of 0 0 0 e es] r \<open>ds = d # ds'\<close> show ?thesis
      by (simp add: joinSequenceDiffsByShifting_def diffs_ok_def)
  qed
qed (use assms in \<open>simp add: joinSequenceDiffsByShifting_def\<close>)

text \<open>Shifting a difference that is empty in the first sequence.\<close>

lemma best_shift_range:
  "best = (b, sc) \<Longrightarrow> lo \<le> b \<and> b \<le> hi \<Longrightarrow> lo \<le> delta \<Longrightarrow> delta + int n \<le> hi + 1 \<Longrightarrow>
   lo \<le> best_shift score delta n best \<and> best_shift score delta n best \<le> hi"
  by (induction score delta n best arbitrary: b sc rule: best_shift.induct) auto

lemma shift_better:
  assumes strong: "\<And>k l. strong2 k l \<Longrightarrow> getElement t k = getElement t l"
    and empty: "start1 d = end1 d"
    and left: "0 \<le> n" "run s t (start1 d - n) (start2 d - n) n" "start1 d - n \<le> o_start valid1"
    and right: "run s t (end1 d) (end2 d) m" "o_end valid1 \<le> end1 d + m"
  obtains k where "shiftDiffToBetterPosition d score1 score2 strong2 valid1 valid2 = sd_delta k d"
    "k < 0 \<Longrightarrow> o_start valid1 \<le> start1 d + k \<and> run s t (end1 d + k) (end2 d + k) (- k)"
    "0 < k \<Longrightarrow> end1 d + k \<le> o_end valid1 \<and> run s t (start1 d) (start2 d) k"
proof -
  let ?P = "\<lambda>l. start1 d - l \<ge> o_start valid1 \<and> start2 d - l \<ge> o_start valid2 \<and> strong2 (start2 d - l) (end2 d - l)"
  let ?Q = "\<lambda>l. start1 d + l < o_end valid1 \<and> end2 d + l < o_end valid2 \<and> strong2 (start2 d + l) (end2 d + l)"
  let ?b = "count_while ?P 1 (maxShiftLimit - 1)" and ?a = "count_while ?Q 0 maxShiftLimit"
  have b: "0 \<le> ?b" "0 \<le> ?a" using count_while_range by blast+
  have P: "?P l" if l: "1 \<le> l" "l \<le> ?b" for l
    by (rule count_while_holds [of 1 l ?P "maxShiftLimit - 1"]) (use l in linarith)+
  have Q: "?Q l" if l: "0 \<le> l" "l < ?a" for l
    by (rule count_while_holds [of 0 l ?Q maxShiftLimit]) (use l in linarith)+
  have "\<exists>k. - ?b \<le> k \<and> k \<le> ?a \<and> shiftDiffToBetterPosition d score1 score2 strong2 valid1 valid2 = sd_delta k d"
  proof (cases "?b = 0 \<and> ?a = 0")
    case True
    then show ?thesis by (intro exI [of _ 0]) (simp add: shiftDiffToBetterPosition_def sd_delta_def)
  next
    case False
    let ?score = "\<lambda>delta. score1 (start1 d + delta) + score2 (start2 d + delta) + score2 (end2 d + delta)"
    have "- ?b \<le> best_shift ?score (- ?b) (nat (?b + ?a + 1)) (0, -1) \<and> best_shift ?score (- ?b) (nat (?b + ?a + 1)) (0, -1) \<le> ?a"
      by (rule best_shift_range) (use b in auto)
    then show ?thesis using False by (auto simp: shiftDiffToBetterPosition_def Let_def)
  qed
  then obtain k where k: "- ?b \<le> k" "k \<le> ?a" "shiftDiffToBetterPosition d score1 score2 strong2 valid1 valid2 = sd_delta k d"
    by blast
  have "o_start valid1 \<le> start1 d + k \<and> run s t (end1 d + k) (end2 d + k) (- k)" if "k < 0"
  proof
    show ge: "o_start valid1 \<le> start1 d + k" using P [of "- k"] k(1) that by simp
    have "run s t (end1 d - (- k)) (end2 d - (- k)) (- k)"
      by (rule shift_left_run [OF left(2)]) (use that ge left empty k(1) strong P in auto)
    then show "run s t (end1 d + k) (end2 d + k) (- k)" by simp
  qed
  moreover have "end1 d + k \<le> o_end valid1 \<and> run s t (start1 d) (start2 d) k" if "0 < k"
  proof
    show le: "end1 d + k \<le> o_end valid1" using Q [of "k - 1"] k(2) that empty by simp
    show "run s t (start1 d) (start2 d) k"
      by (rule shift_right_run [OF right(1)]) (use le right(2) k(2) strong Q empty in auto)
  qed
  ultimately show ?thesis using that k(3) by blast
qed

lemma swap_delta: "sd_swap (sd_delta k (sd_swap d)) = sd_delta k d"
  by (simp add: sd_swap_def sd_delta_def)

text \<open>One step of \<open>shiftSequenceDiffs\<close>, in front of the differences \<open>ds\<close>.\<close>

lemma shift_one:
  assumes strong: "strong_sound s" "strong_sound t" and d: "diffs_from s t g i j (d # ds)" and g: "0 \<le> g"
    and room2: "room2 = end2 d + (room s ds - end1 d)"
  shows "diffs_from s t g i j
    ((if o_isEmpty (sd_seq1 d)
      then shiftDiffToBetterPosition d score1 score2 (sq_isStronglyEqual t) \<lparr>o_start = i + g, o_end = room s ds\<rparr> \<lparr>o_start = j + g, o_end = room2\<rparr>
      else if o_isEmpty (sd_seq2 d)
      then sd_swap (shiftDiffToBetterPosition (sd_swap d) score2 score1 (sq_isStronglyEqual s)
        \<lparr>o_start = j + g, o_end = room2\<rparr> \<lparr>o_start = i + g, o_end = room s ds\<rparr>)
      else d) # ds)"
proof -
  let ?v1 = "\<lparr>o_start = i + g, o_end = room s ds\<rparr>" and ?v2 = "\<lparr>o_start = j + g, o_end = room2\<rparr>"
  let ?n = "start1 d - (i + g)" and ?m = "room s ds - end1 d"
  have start: "i + g \<le> start1 d" "start2 d = j + (start1 d - i)" and before: "run s t i j (start1 d - i)" using d by auto
  have "run s t (i + g) (j + g) ?n" by (rule run_part [OF before g]) simp
  then have left: "run s t (start1 d - ?n) (start2 d - ?n) ?n" using start by (simp add: algebra_simps)
  have right: "run s t (end1 d) (end2 d) ?m"
    using d by (cases ds) (auto simp: room_def intro: run_le)
  show ?thesis
  proof (cases "o_isEmpty (sd_seq1 d)")
    case True
    obtain k where k: "shiftDiffToBetterPosition d score1 score2 (sq_isStronglyEqual t) ?v1 ?v2 = sd_delta k d"
      "k < 0 \<Longrightarrow> o_start ?v1 \<le> start1 d + k \<and> run s t (end1 d + k) (end2 d + k) (- k)"
      "0 < k \<Longrightarrow> end1 d + k \<le> o_end ?v1 \<and> run s t (start1 d) (start2 d) k"
    proof (rule shift_better [of "sq_isStronglyEqual t" t d ?n s ?v1 ?m])
      show "start1 d = end1 d" using True by (simp add: o_isEmpty_def)
    qed (use strong left right start in \<open>auto simp: strong_sound_def\<close>)
    have "diffs_from s t g i j (sd_delta k d # ds)"
      by (rule delta_ok [OF d]) (use k(2,3) g in auto)
    then show ?thesis using True k(1) by simp
  next
    case False
    show ?thesis
    proof (cases "o_isEmpty (sd_seq2 d)")
      case True
      let ?d = "sd_swap d"
      obtain k where k: "shiftDiffToBetterPosition ?d score2 score1 (sq_isStronglyEqual s) ?v2 ?v1 = sd_delta k ?d"
        "k < 0 \<Longrightarrow> o_start ?v2 \<le> start1 ?d + k \<and> run t s (end1 ?d + k) (end2 ?d + k) (- k)"
        "0 < k \<Longrightarrow> end1 ?d + k \<le> o_end ?v2 \<and> run t s (start1 ?d) (start2 ?d) k"
      proof (rule shift_better [of "sq_isStronglyEqual s" s ?d ?n t ?v2 ?m])
        show "start1 ?d = end1 ?d" using True by (simp add: o_isEmpty_def sd_swap_def)
      qed (use strong left right start room2 in \<open>auto simp: strong_sound_def sd_swap_def run_swap [of t s]\<close>)
      have "diffs_from s t g i j (sd_delta k d # ds)"
        by (rule delta_ok [OF d]) (use k(2,3) g start room2 in \<open>auto simp: sd_swap_def run_swap [of t s]\<close>)
      then show ?thesis using True False k(1) by (simp add: swap_delta)
    qed (use False d in simp)
  qed
qed

lemma shift_from_ok:
  assumes strong: "strong_sound s" "strong_sound t"
  shows "diffs_from s t g i j ds \<Longrightarrow>
    (case prev of None \<Rightarrow> g = 0 \<and> i = 0 \<and> j = 0 | Some p \<Rightarrow> g = 1 \<and> i = end1 p \<and> j = end2 p) \<Longrightarrow>
    \<exists>r. shift_from s t score1 score2 prev ds = Some r \<and> diffs_from s t g i j r"
proof (induction ds arbitrary: prev g i j)
  case (Cons d ds)
  define room2 where "room2 = (case ds of n # _ \<Rightarrow> start2 n - 1 | [] \<Rightarrow> sq_length t)"
  have r2: "room2 = end2 d + (room s ds - end1 d)"
    using Cons.prems(1) by (cases ds) (auto simp: room_def room2_def)
  have ends: "(case prev of Some p \<Rightarrow> end1 p + 1 | None \<Rightarrow> 0) = i + g" "(case prev of Some p \<Rightarrow> end2 p + 1 | None \<Rightarrow> 0) = j + g"
    and g: "0 \<le> g" using Cons.prems(2) by (auto split: option.splits)
  have room1: "(case ds of n # _ \<Rightarrow> start1 n - 1 | [] \<Rightarrow> sq_length s) = room s ds" by (simp add: room_def split: list.split)
  have le: "i + g \<le> room s ds" "j + g \<le> room2"
    using Cons.prems(1) r2 by (cases ds; auto simp: room_def)+
  define e where "e = (if o_isEmpty (sd_seq1 d)
      then shiftDiffToBetterPosition d score1 score2 (sq_isStronglyEqual t) \<lparr>o_start = i + g, o_end = room s ds\<rparr> \<lparr>o_start = j + g, o_end = room2\<rparr>
      else if o_isEmpty (sd_seq2 d)
      then sd_swap (shiftDiffToBetterPosition (sd_swap d) score2 score1 (sq_isStronglyEqual s)
        \<lparr>o_start = j + g, o_end = room2\<rparr> \<lparr>o_start = i + g, o_end = room s ds\<rparr>)
      else d)"
  have e: "diffs_from s t g i j (e # ds)"
    unfolding e_def by (rule shift_one [OF strong Cons.prems(1) g r2])
  then have "diffs_from s t 1 (end1 e) (end2 e) ds" by simp
  from Cons.IH [OF this, of "Some e"] obtain r where r: "shift_from s t score1 score2 (Some e) ds = Some r"
    "diffs_from s t 1 (end1 e) (end2 e) r" by auto
  have "shift_from s t score1 score2 prev (d # ds) = map_option ((#) e) (shift_from s t score1 score2 (Some e) ds)"
    using le by (simp add: ends room1 new_OffsetRange_def Let_def e_def flip: room2_def)
  with r e show ?case by auto
qed simp

lemma shiftSequenceDiffs_ok:
  "strong_sound s \<Longrightarrow> strong_sound t \<Longrightarrow> diffs_ok s t ds \<Longrightarrow> \<exists>r. shiftSequenceDiffs s t ds = Some r \<and> diffs_ok s t r"
  using shift_from_ok [of s t 0 0 0 ds None] by (auto simp: shiftSequenceDiffs_def diffs_ok_def split: option.split)

lemma optimizeSequenceDiffs_ok:
  assumes "strong_sound s" "strong_sound t" "diffs_ok s t ds"
  shows "\<exists>r. optimizeSequenceDiffs s t ds = Some r \<and> diffs_ok s t r"
proof -
  obtain a where a: "joinSequenceDiffsByShifting s t ds = Some a" "diffs_ok s t a"
    using joinSequenceDiffsByShifting_ok [OF assms] by blast
  obtain b where b: "joinSequenceDiffsByShifting s t a = Some b" "diffs_ok s t b"
    using joinSequenceDiffsByShifting_ok [OF assms(1,2) a(2)] by blast
  from shiftSequenceDiffs_ok [OF assms(1,2) b(2)] a b show ?thesis by (simp add: optimizeSequenceDiffs_def)
qed

text \<open>Two neighbours joined are one difference.\<close>

lemma sd_join_ok: "diffs_from s t g i j (a # b # ds) \<Longrightarrow> diffs_from s t g i j (sd_join a b # ds)"
  by (auto simp: sd_join_def o_join_def min_def max_def)

lemma short_matches_ok: "diffs_from s t g i j (l # ds) \<Longrightarrow> diffs_from s t g i j (short_matches l ds)"
proof (induction l ds arbitrary: g i j rule: short_matches.induct)
  case (2 l d ds)
  show ?case
  proof (cases "start1 d - end1 l \<le> 2 \<or> start2 d - end2 l \<le> 2")
    case True
    with 2(1) [OF True sd_join_ok [OF 2(3)]] show ?thesis by simp
  next
    case False
    from 2(3) have "diffs_from s t 1 (end1 l) (end2 l) (d # ds)" by simp
    from 2(2) [OF False this] 2(3) False show ?thesis by simp
  qed
qed simp

lemma removeShortMatches_ok: "diffs_ok s t ds \<Longrightarrow> diffs_ok s t (removeShortMatches ds)"
  using short_matches_ok [of s t 0 0 0] by (auto simp: removeShortMatches_def diffs_ok_def split: list.split)

lemma join_round_ok: "diffs_from s t g i j (l # ds) \<Longrightarrow> diffs_from s t g i j (fst (join_round should l ds))"
proof (induction ds arbitrary: l g i j)
  case (Cons d ds)
  show ?case
  proof (cases "should l d")
    case True
    with Cons.IH [OF sd_join_ok [OF Cons.prems]] show ?thesis by simp
  next
    case False
    from Cons.prems have "diffs_from s t 1 (end1 l) (end2 l) (d # ds)" by simp
    from Cons.IH [OF this] Cons.prems False show ?thesis by (simp add: case_prod_beta)
  qed
qed simp

lemma join_rounds_ok: "diffs_ok s t ds \<Longrightarrow> diffs_ok s t (join_rounds should n ds)"
proof (induction n arbitrary: ds)
  case 0
  then show ?case using join_round_ok [of s t 0 0 0 "hd ds" "tl ds" should]
    by (cases ds) (auto simp: diffs_ok_def case_prod_beta)
next
  case (Suc n)
  show ?case
  proof (cases ds)
    case (Cons d ds')
    have "diffs_ok s t (fst (join_round should d ds'))"
      using join_round_ok [of s t 0 0 0 d ds' should] Suc.prems Cons by (simp add: diffs_ok_def)
    from Suc.IH [OF this] this Cons show ?thesis by (simp add: case_prod_beta)
  qed (use Suc in simp)
qed

text \<open>
  C17. Optimising differences: whatever differences lead from one sequence to the other, shifting and joining them, joining
  them over short matches and joining them over very short lines never throws and gives differences that rebuild the
  second sequence from the first, in order and apart from each other.
\<close>

theorem optimized_diffs_ok:
  assumes "strong_sound s" "strong_sound t" "diffs_ok s t ds"
  shows "\<exists>r. optimizeSequenceDiffs s t ds = Some r \<and>
    (\<forall>r'\<in>{r, removeShortMatches r, removeVeryShortMatchingLinesBetweenDiffs getText r}.
       diffs_ok s t r' \<and> replay (sq_elements s) (sq_elements t) 0 r' = sq_elements t)"
proof -
  obtain r where r: "optimizeSequenceDiffs s t ds = Some r" "diffs_ok s t r"
    using optimizeSequenceDiffs_ok [OF assms] by blast
  have "diffs_ok s t (removeShortMatches r)" by (rule removeShortMatches_ok [OF r(2)])
  moreover have "diffs_ok s t (removeVeryShortMatchingLinesBetweenDiffs getText r)"
    unfolding removeVeryShortMatchingLinesBetweenDiffs_def by (rule join_rounds_ok [OF r(2)])
  ultimately show ?thesis using r diffs_ok_replay by blast
qed

theorem optimized_diffs_ok_witness:
  "\<exists>r. optimizeSequenceDiffs (text_seq ''a b d'') (text_seq ''a b c d'')
      [\<lparr>sd_seq1 = \<lparr>o_start = 3, o_end = 3\<rparr>, sd_seq2 = \<lparr>o_start = 3, o_end = 5\<rparr>\<rparr>] = Some r \<and>
    replay ''a b d'' ''a b c d'' 0 r = ''a b c d''"
proof -
  let ?ds = "[\<lparr>sd_seq1 = \<lparr>o_start = 3, o_end = 3\<rparr>, sd_seq2 = \<lparr>o_start = 3, o_end = 5\<rparr>\<rparr>]"
  have strong: "strong_sound (text_seq x)" for x
    by (simp add: strong_sound_def text_seq_def getElement_def sq_length_def)
  have "run (text_seq ''a b d'') (text_seq ''a b c d'') 0 0 3" "run (text_seq ''a b d'') (text_seq ''a b c d'') 3 5 2"
    by (auto simp: run_def getElement_def text_seq_def sq_length_def nth_Cons' nat_eq_iff)
  then have "diffs_ok (text_seq ''a b d'') (text_seq ''a b c d'') ?ds"
    by (simp add: diffs_ok_def) (simp add: text_seq_def sq_length_def)
  from optimized_diffs_ok [OF strong strong this, of "\<lambda>_. []"] show ?thesis
    by (auto simp: text_seq_def)
qed

end
