(* ===== verification/Dp_Diff.thy ===== *)
theory Dp_Diff
  imports Sequence_Diff
begin

text \<open>
  \<open>Array2D\<close> of \<open>diff/defaultLinesDiffComputer/utils.ts\<close> and
  \<open>diff/defaultLinesDiffComputer/algorithms/dynamicProgrammingDiffing.ts\<close>. Scores are numbers of any type with
  an addition and a linear order: no law of addition is used, so that what is shown also holds for floating
  point numbers. An entry that was never set is \<open>None\<close>; it counts as not a number, which is in no
  sum or maximum a number and equal to nothing.
\<close>

section \<open>Two-dimensional arrays\<close>

record 'a array2d =
  a2_width :: nat
  a2_array :: "'a option list"

definition new_Array2D :: "nat \<Rightarrow> nat \<Rightarrow> 'a array2d" where
  "new_Array2D width height = \<lparr>a2_width = width, a2_array = replicate (width * height) None\<rparr>"

definition a2_get :: "'a array2d \<Rightarrow> nat \<Rightarrow> nat \<Rightarrow> 'a option" where
  "a2_get a x y = (let i = x + y * a2_width a in if i < length (a2_array a) then a2_array a ! i else None)"

definition a2_set :: "'a array2d \<Rightarrow> nat \<Rightarrow> nat \<Rightarrow> 'a option \<Rightarrow> 'a array2d" where
  "a2_set a x y v =
     (let i = x + y * a2_width a; xs = a2_array a
      in a\<lparr>a2_array := (if i < length xs then xs[i := v] else xs @ replicate (i - length xs) None @ [v])\<rparr>)"

lemma a2_width_set [simp]: "a2_width (a2_set a x y v) = a2_width a"
  by (simp add: a2_set_def Let_def)

lemma a2_get_new [simp]: "a2_get (new_Array2D w h) x y = None"
  by (simp add: a2_get_def new_Array2D_def Let_def)

text \<open>In the width of the array, an entry is only changed by setting it.\<close>

lemma a2_get_set:
  assumes "x < a2_width a" "x' < a2_width a"
  shows "a2_get (a2_set a x y v) x' y' = (if x' = x \<and> y' = y then v else a2_get a x' y')"
proof -
  have "x' + y' * a2_width a = x + y * a2_width a \<longleftrightarrow> x' = x \<and> y' = y"
  proof
    assume eq: "x' + y' * a2_width a = x + y * a2_width a"
    from arg_cong [OF eq, of "\<lambda>n. n mod a2_width a"] have "x' = x" using assms by simp
    with eq assms show "x' = x \<and> y' = y" by simp
  qed simp
  then show ?thesis
    by (auto simp: a2_get_def a2_set_def Let_def nth_append nth_Cons')
qed

section \<open>Filling the tables\<close>

record 'n dp_tables =
  lcsLengths :: "'n array2d"
  directions :: "nat array2d"
  lengths :: "'n array2d"

definition num_add :: "'n::plus option \<Rightarrow> 'n option \<Rightarrow> 'n option" where
  "num_add a b = (case (a, b) of (Some x, Some y) \<Rightarrow> Some (x + y) | _ \<Rightarrow> None)"

definition num_max :: "'n::linorder option \<Rightarrow> 'n option \<Rightarrow> 'n option" where
  "num_max a b = (case (a, b) of (Some x, Some y) \<Rightarrow> Some (max x y) | _ \<Rightarrow> None)"

definition num_eq :: "'n option \<Rightarrow> 'n option \<Rightarrow> bool" where
  "num_eq a b \<longleftrightarrow> a = b \<and> a \<noteq> None"

text \<open>The score of ending with an alignment of two offsets.\<close>

definition extendedSeqScore ::
  "'a iseq \<Rightarrow> 'a iseq \<Rightarrow> (nat \<Rightarrow> nat \<Rightarrow> 'n) option \<Rightarrow> nat \<Rightarrow> nat \<Rightarrow> ('n::{zero,one,plus,uminus,linorder}) dp_tables \<Rightarrow> 'n option" where
  "extendedSeqScore s t equalityScore s1 s2 st =
     (if getElement s (int s1) = getElement t (int s2)
      then num_add
        (let base = (if s1 = 0 \<or> s2 = 0 then Some 0 else a2_get (lcsLengths st) (s1 - 1) (s2 - 1))
         in if s1 > 0 \<and> s2 > 0 \<and> a2_get (directions st) (s1 - 1) (s2 - 1) = Some 3
            then num_add base (a2_get (lengths st) (s1 - 1) (s2 - 1)) else base)
        (Some (case equalityScore of Some score \<Rightarrow> score s1 s2 | None \<Rightarrow> 1))
      else Some (- 1))"

definition dp_cell ::
  "'a iseq \<Rightarrow> 'a iseq \<Rightarrow> (nat \<Rightarrow> nat \<Rightarrow> 'n) option \<Rightarrow> nat \<times> nat \<Rightarrow> ('n::{zero,one,plus,uminus,linorder}) dp_tables \<Rightarrow> 'n dp_tables" where
  "dp_cell s t equalityScore = (\<lambda>(s1, s2) st.
     let horizontalLen = (if s1 = 0 then Some 0 else a2_get (lcsLengths st) (s1 - 1) s2);
         verticalLen = (if s2 = 0 then Some 0 else a2_get (lcsLengths st) s1 (s2 - 1));
         extended = extendedSeqScore s t equalityScore s1 s2 st;
         newValue = num_max (num_max horizontalLen verticalLen) extended;
         prevLen = (if s1 > 0 \<and> s2 > 0 then a2_get (lengths st) (s1 - 1) (s2 - 1) else Some 0);
         st' = (if num_eq newValue extended
                then st\<lparr>lengths := a2_set (lengths st) s1 s2 (num_add prevLen (Some 1)),
                        directions := a2_set (directions st) s1 s2 (Some 3)\<rparr>
                else if num_eq newValue horizontalLen
                then st\<lparr>lengths := a2_set (lengths st) s1 s2 (Some 0), directions := a2_set (directions st) s1 s2 (Some 1)\<rparr>
                else if num_eq newValue verticalLen
                then st\<lparr>lengths := a2_set (lengths st) s1 s2 (Some 0), directions := a2_set (directions st) s1 s2 (Some 2)\<rparr>
                else st)
     in st'\<lparr>lcsLengths := a2_set (lcsLengths st') s1 s2 newValue\<rparr>)"

text \<open>The two loops; \<open>valid\<close> answers the checks of the timeout by their number. \<open>None\<close> is a time-out.\<close>

fun dp_cells ::
  "'a iseq \<Rightarrow> 'a iseq \<Rightarrow> (nat \<Rightarrow> bool) \<Rightarrow> (nat \<Rightarrow> nat \<Rightarrow> 'n) option \<Rightarrow> nat \<Rightarrow> (nat \<times> nat) list
    \<Rightarrow> ('n::{zero,one,plus,uminus,linorder}) dp_tables \<Rightarrow> 'n dp_tables option" where
  "dp_cells s t valid equalityScore n [] st = Some st"
| "dp_cells s t valid equalityScore n (c # cs) st =
     (if valid n then dp_cells s t valid equalityScore (Suc n) cs (dp_cell s t equalityScore c st) else None)"

section \<open>Reading the alignment back\<close>

record aligning =
  al_result :: "sequence_diff list"
  lastAligningPosS1 :: int
  lastAligningPosS2 :: int

definition reportDecreasingAligningPositions :: "int \<Rightarrow> int \<Rightarrow> aligning \<Rightarrow> aligning option" where
  "reportDecreasingAligningPositions s1 s2 a =
     map_option (\<lambda>r. \<lparr>al_result = r, lastAligningPosS1 = s1, lastAligningPosS2 = s2\<rparr>)
       (if s1 + 1 \<noteq> lastAligningPosS1 a \<or> s2 + 1 \<noteq> lastAligningPosS2 a
        then map_option (\<lambda>d. al_result a @ [d]) (new_diff (s1 + 1) (lastAligningPosS1 a) (s2 + 1) (lastAligningPosS2 a))
        else Some (al_result a))"

function backtrack :: "nat array2d \<Rightarrow> int \<Rightarrow> int \<Rightarrow> aligning \<Rightarrow> aligning option" where
  "backtrack dirs s1 s2 a =
     (if s1 \<ge> 0 \<and> s2 \<ge> 0
      then if a2_get dirs (nat s1) (nat s2) = Some 3
        then (case reportDecreasingAligningPositions s1 s2 a of None \<Rightarrow> None | Some a' \<Rightarrow> backtrack dirs (s1 - 1) (s2 - 1) a')
        else if a2_get dirs (nat s1) (nat s2) = Some 1 then backtrack dirs (s1 - 1) s2 a
        else backtrack dirs s1 (s2 - 1) a
      else reportDecreasingAligningPositions (- 1) (- 1) a)"
  by pat_completeness auto
termination by (relation "measure (\<lambda>(dirs, s1, s2, a). nat (s1 + 1) + nat (s2 + 1))") auto

declare backtrack.simps [simp del]

definition dp_compute ::
  "'a iseq \<Rightarrow> 'a iseq \<Rightarrow> (nat \<Rightarrow> bool) \<Rightarrow> (nat \<Rightarrow> nat \<Rightarrow> 'n::{zero,one,plus,uminus,linorder}) option \<Rightarrow> diff_result option" where
  "dp_compute s t valid equalityScore =
     (let m = nat (sq_length s); n = nat (sq_length t) in
      if m = 0 \<or> n = 0 then Some (trivial s t)
      else case dp_cells s t valid equalityScore 0 (List.product [0..<m] [0..<n])
             \<lparr>lcsLengths = new_Array2D m n, directions = new_Array2D m n, lengths = new_Array2D m n\<rparr> of
             None \<Rightarrow> Some (trivialTimedOut s t)
           | Some st \<Rightarrow>
               map_option (\<lambda>a. \<lparr>dr_diffs = rev (al_result a), dr_hitTimeout = False\<rparr>)
                 (backtrack (directions st) (int m - 1) (int n - 1)
                   \<lparr>al_result = [], lastAligningPosS1 = int m, lastAligningPosS2 = int n\<rparr>))"

section \<open>The result is a way from one sequence to the other\<close>

text \<open>Where the table says that two offsets are aligned, the elements are equal.\<close>

definition aligned_equal :: "'a iseq \<Rightarrow> 'a iseq \<Rightarrow> nat array2d \<Rightarrow> bool" where
  "aligned_equal s t dirs \<longleftrightarrow>
     (\<forall>i j. i < a2_width dirs \<longrightarrow> a2_get dirs i j = Some 3 \<longrightarrow> getElement s (int i) = getElement t (int j))"

text \<open>The lengths are not negative, so that the score of unequal elements never is the greatest.\<close>

definition tables_ok :: "'a iseq \<Rightarrow> 'a iseq \<Rightarrow> nat \<Rightarrow> ('n::{zero,one,plus,uminus,linorder}) dp_tables \<Rightarrow> bool" where
  "tables_ok s t w st \<longleftrightarrow> a2_width (lcsLengths st) = w \<and> a2_width (directions st) = w \<and>
     (\<forall>i j v. i < w \<longrightarrow> a2_get (lcsLengths st) i j = Some v \<longrightarrow> 0 \<le> v) \<and> aligned_equal s t (directions st)"

lemma aligned_set:
  "aligned_equal s t dirs \<Longrightarrow> i < a2_width dirs \<Longrightarrow> (v = 3 \<Longrightarrow> getElement s (int i) = getElement t (int j)) \<Longrightarrow>
   aligned_equal s t (a2_set dirs i j (Some v))"
  by (auto simp: aligned_equal_def a2_get_set split: if_splits)

lemma num_max_ge: "num_max (num_max h v) e = Some x \<Longrightarrow> \<exists>y. h = Some y \<and> y \<le> x"
  by (auto simp: num_max_def le_max_iff_disj split: option.splits)

lemma dp_cell_ok:
  fixes st :: "('n::{zero,one,plus,uminus,linorder}) dp_tables"
  assumes neg: "- 1 < (0::'n)" and ok: "tables_ok s t w st" and i: "i < w"
  shows "tables_ok s t w (dp_cell s t es (i, j) st)"
proof -
  let ?h = "if i = 0 then Some 0 else a2_get (lcsLengths st) (i - 1) j"
  let ?v = "if j = 0 then Some 0 else a2_get (lcsLengths st) i (j - 1)"
  let ?e = "extendedSeqScore s t es i j st"
  let ?new = "num_max (num_max ?h ?v) ?e"
  have new: "0 \<le> x" if "?new = Some x" for x
  proof -
    from num_max_ge [OF that] obtain y where y: "?h = Some y" "y \<le> x" by blast
    have "i - 1 < w" using i by simp
    with ok y(1) have "0 \<le> y" unfolding tables_ok_def by (metis option.inject order_refl)
    with y show ?thesis by simp
  qed
  have eq: "getElement s (int i) = getElement t (int j)" if "num_eq ?new ?e"
  proof (rule ccontr)
    assume "getElement s (int i) \<noteq> getElement t (int j)"
    then have "?e = Some (- 1)" by (simp add: extendedSeqScore_def)
    with that have "?new = Some (- 1)" by (simp add: num_eq_def)
    from new [OF this] neg show False by simp
  qed
  have dirs: "aligned_equal s t (directions (dp_cell s t es (i, j) st)) \<and> a2_width (directions (dp_cell s t es (i, j) st)) = w"
    using ok i eq by (auto simp: dp_cell_def Let_def tables_ok_def intro!: aligned_set)
  have "lcsLengths (dp_cell s t es (i, j) st) = a2_set (lcsLengths st) i j ?new"
    by (simp add: dp_cell_def Let_def)
  with dirs ok i new show ?thesis by (auto simp: tables_ok_def a2_get_set split: if_splits)
qed

lemma dp_cells_ok:
  fixes st :: "('n::{zero,one,plus,uminus,linorder}) dp_tables"
  assumes "- 1 < (0::'n)"
  shows "tables_ok s t w st \<Longrightarrow> (\<forall>c\<in>set cs. fst c < w) \<Longrightarrow> dp_cells s t valid es n cs st = Some st' \<Longrightarrow> tables_ok s t w st'"
proof (induction cs arbitrary: st n)
  case (Cons c cs)
  obtain i j where c: "c = (i, j)" by force
  with Cons.prems have "tables_ok s t w (dp_cell s t es c st)" by (simp add: dp_cell_ok [OF assms])
  with Cons.IH Cons.prems c show ?case by (auto split: if_splits)
qed simp

text \<open>What has been read back so far: differences behind the last aligned pair of offsets.\<close>

lemma report_ok:
  assumes "diffs_from s t 1 (lastAligningPosS1 a) (lastAligningPosS2 a) (rev (al_result a))"
    and "run s t i j 1" "i < lastAligningPosS1 a" "j < lastAligningPosS2 a"
  shows "\<exists>a'. reportDecreasingAligningPositions i j a = Some a' \<and> lastAligningPosS1 a' = i \<and> lastAligningPosS2 a' = j \<and>
    diffs_from s t 1 i j (rev (al_result a'))"
proof (cases "i + 1 = lastAligningPosS1 a \<and> j + 1 = lastAligningPosS2 a")
  case True
  then have "lastAligningPosS1 a - 1 = i" "lastAligningPosS2 a - 1 = j" by auto
  with diffs_from_earlier [OF assms(1), of 1] assms(2) True have "diffs_from s t 2 i j (rev (al_result a))" by simp
  with True show ?thesis by (auto simp: reportDecreasingAligningPositions_def intro: diffs_from_weaken)
next
  case False
  then show ?thesis using assms by (auto simp: reportDecreasingAligningPositions_def new_diff_def new_OffsetRange_def)
qed

lemma report_last_ok:
  assumes "diffs_from s t 1 (lastAligningPosS1 a) (lastAligningPosS2 a) (rev (al_result a))"
    and "0 \<le> lastAligningPosS1 a" "0 \<le> lastAligningPosS2 a"
  shows "\<exists>a'. reportDecreasingAligningPositions (- 1) (- 1) a = Some a' \<and> diffs_ok s t (rev (al_result a'))"
  using assms
  by (auto simp: reportDecreasingAligningPositions_def new_diff_def new_OffsetRange_def diffs_ok_def run_def intro: diffs_from_weaken)

lemma backtrack_ok:
  "aligned_equal s t dirs \<Longrightarrow> diffs_from s t 1 (lastAligningPosS1 a) (lastAligningPosS2 a) (rev (al_result a)) \<Longrightarrow>
   i < lastAligningPosS1 a \<Longrightarrow> j < lastAligningPosS2 a \<Longrightarrow> - 1 \<le> i \<Longrightarrow> - 1 \<le> j \<Longrightarrow> i < int (a2_width dirs) \<Longrightarrow>
   \<exists>a'. backtrack dirs i j a = Some a' \<and> diffs_ok s t (rev (al_result a'))"
proof (induction dirs i j a rule: backtrack.induct)
  case (1 dirs i j a)
  show ?case
  proof (cases "i \<ge> 0 \<and> j \<ge> 0")
    case False
    with 1 report_last_ok [of s t a] show ?thesis by (subst backtrack.simps) auto
  next
    case ge: True
    show ?thesis
    proof (cases "a2_get dirs (nat i) (nat j) = Some 3")
      case True
      then have "run s t i j 1"
        using 1(4) [unfolded aligned_equal_def, rule_format, of "nat i" "nat j"] 1(10) ge True
        by (intro run_one) (simp add: nat_less_iff)
      from report_ok [OF 1(5) this 1(6,7)] obtain a' where a': "reportDecreasingAligningPositions i j a = Some a'"
        "lastAligningPosS1 a' = i" "lastAligningPosS2 a' = j" "diffs_from s t 1 i j (rev (al_result a'))" by blast
      have "\<exists>a''. backtrack dirs (i - 1) (j - 1) a' = Some a'' \<and> diffs_ok s t (rev (al_result a''))"
        by (rule 1(1) [OF ge True a'(1)]) (use 1 ge a' in auto)
      with ge True a'(1) show ?thesis by (subst backtrack.simps) simp
    next
      case False
      then show ?thesis using 1(2,3) [OF ge False] 1(4-) ge by (subst backtrack.simps) auto
    qed
  qed
qed

lemma dp_compute_ok:
  fixes es :: "(nat \<Rightarrow> nat \<Rightarrow> 'n::{zero,one,plus,uminus,linorder}) option"
  assumes neg: "- 1 < (0::'n)"
  shows "\<exists>r. dp_compute s t valid es = Some r \<and> diffs_ok s t (dr_diffs r)"
proof -
  define m n where "m = nat (sq_length s)" and "n = nat (sq_length t)"
  define st0 :: "'n dp_tables" where
    "st0 = \<lparr>lcsLengths = new_Array2D m n, directions = new_Array2D m n, lengths = new_Array2D m n\<rparr>"
  have mn: "sq_length s = int m" "sq_length t = int n" by (simp_all add: m_def n_def sq_length_def)
  show ?thesis
  proof (cases "m = 0 \<or> n = 0")
    case True
    then show ?thesis by (auto simp: dp_compute_def mn trivial_def trivial_ok)
  next
    case pos: False
    show ?thesis
    proof (cases "dp_cells s t valid es 0 (List.product [0..<m] [0..<n]) st0")
      case None
      with pos show ?thesis by (simp add: dp_compute_def mn trivialTimedOut_def trivial_ok flip: st0_def)
    next
      case (Some st)
      have "tables_ok s t m st0" by (simp add: tables_ok_def st0_def aligned_equal_def) (simp add: new_Array2D_def)
      from dp_cells_ok [OF neg this _ Some] have "tables_ok s t m st" by auto
      then have "\<exists>a. backtrack (directions st) (int m - 1) (int n - 1)
          \<lparr>al_result = [], lastAligningPosS1 = int m, lastAligningPosS2 = int n\<rparr> = Some a \<and> diffs_ok s t (rev (al_result a))"
        using pos by (intro backtrack_ok) (auto simp: tables_ok_def mn run_def)
      with Some pos show ?thesis by (auto simp: dp_compute_def mn simp flip: st0_def)
    qed
  qed
qed

end
