(* ===== verification/Myers_Diff.thy ===== *)
theory Myers_Diff
  imports Sequence_Diff
begin

text \<open>
  \<open>diff/defaultLinesDiffComputer/algorithms/myersDiffAlgorithm.ts\<close>: the algorithm of Myers that cuts off the
  diagonals that it takes to be irrelevant. Its array of 32-bit integers starts with room for ten entries on
  either side; an entry behind its end is \<open>undefined\<close>, and what is computed from that is not a number. Both
  are \<open>None\<close> here.
\<close>

section \<open>The arrays\<close>

text \<open>\<open>FastInt32Array\<close>. Setting an entry behind the end doubles the length once.\<close>

record fast_array =
  positiveArr :: "int list"
  negativeArr :: "int list"

definition new_FastInt32Array :: fast_array where
  "new_FastInt32Array = \<lparr>positiveArr = replicate 10 0, negativeArr = replicate 10 0\<rparr>"

definition to_int32 :: "int option \<Rightarrow> int" where
  "to_int32 v = (case v of None \<Rightarrow> 0 | Some x \<Rightarrow> (x + 2147483648) mod 4294967296 - 2147483648)"

definition typed_get :: "int list \<Rightarrow> nat \<Rightarrow> int option" where
  "typed_get arr i = (if i < length arr then Some (arr ! i) else None)"

definition typed_set :: "int list \<Rightarrow> nat \<Rightarrow> int option \<Rightarrow> int list" where
  "typed_set arr i v = (if i \<ge> length arr then arr @ replicate (length arr) 0 else arr)[i := to_int32 v]"

definition fa_get :: "fast_array \<Rightarrow> int \<Rightarrow> int option" where
  "fa_get a idx = (if idx < 0 then typed_get (negativeArr a) (nat (- idx - 1)) else typed_get (positiveArr a) (nat idx))"

definition fa_set :: "fast_array \<Rightarrow> int \<Rightarrow> int option \<Rightarrow> fast_array" where
  "fa_set a idx v =
     (if idx < 0 then a\<lparr>negativeArr := typed_set (negativeArr a) (nat (- idx - 1)) v\<rparr>
      else a\<lparr>positiveArr := typed_set (positiveArr a) (nat idx) v\<rparr>)"

text \<open>
  A \<open>SnakePath\<close> with those it links to, the last snake first; \<open>null\<close> is \<open>[]\<close>, and so is an entry of
  \<open>FastArrayNegativeIndices\<close> that is not set.
\<close>

record snake =
  sn_x :: "int option"
  sn_y :: "int option"
  sn_length :: "int option"

record myers =
  my_V :: fast_array
  my_paths :: "int \<Rightarrow> snake list"

section \<open>The search\<close>

function getXAfterSnake :: "'a iseq \<Rightarrow> 'a iseq \<Rightarrow> int \<Rightarrow> int \<Rightarrow> int" where
  "getXAfterSnake s t x y =
     (if x < sq_length s \<and> y < sq_length t \<and> getElement s x = getElement t y then getXAfterSnake s t (x + 1) (y + 1) else x)"
  by pat_completeness auto
termination by (relation "measure (\<lambda>(s, t, x, y). nat (sq_length s - x))") auto

declare getXAfterSnake.simps [simp del]

text \<open>One diagonal of a round; the flag says that the end of both sequences is reached.\<close>

definition myers_step :: "'a iseq \<Rightarrow> 'a iseq \<Rightarrow> int \<Rightarrow> int \<Rightarrow> int \<Rightarrow> myers \<Rightarrow> myers \<times> bool" where
  "myers_step s t lowerBound upperBound k st =
     (let maxXofDLineTop = (if k = upperBound then Some (- 1) else fa_get (my_V st) (k + 1));
          maxXofDLineLeft = (if k = lowerBound then Some (- 1) else map_option (\<lambda>v. v + 1) (fa_get (my_V st) (k - 1)))
      in case (maxXofDLineTop, maxXofDLineLeft) of
           (Some a, Some b) \<Rightarrow>
             (let x = min (max a b) (sq_length s); y = x - k in
              if x > sq_length s \<or> y > sq_length t then (st, False)
              else let newMaxX = getXAfterSnake s t x y;
                       V = fa_set (my_V st) k (Some newMaxX);
                       lastPath = (if x = a then my_paths st (k + 1) else my_paths st (k - 1));
                       path = (if newMaxX \<noteq> x then \<lparr>sn_x = Some x, sn_y = Some y, sn_length = Some (newMaxX - x)\<rparr> # lastPath
                               else lastPath)
                   in (\<lparr>my_V = V, my_paths = (my_paths st)(k := path)\<rparr>,
                       fa_get V k = Some (sq_length s) \<and> sq_length s - k = sq_length t))
         | _ \<Rightarrow>
             (let V = fa_set (my_V st) k None
              in (\<lparr>my_V = V, my_paths = (my_paths st)(k := \<lparr>sn_x = None, sn_y = None, sn_length = None\<rparr> # my_paths st (k - 1))\<rparr>,
                  fa_get V k = Some (sq_length s) \<and> sq_length s - k = sq_length t)))"

text \<open>A round, and the diagonal that it stops at if it reaches the end.\<close>

function myers_round :: "'a iseq \<Rightarrow> 'a iseq \<Rightarrow> int \<Rightarrow> int \<Rightarrow> int \<Rightarrow> myers \<Rightarrow> myers \<times> int option" where
  "myers_round s t lowerBound upperBound k st =
     (if k \<le> upperBound
      then if snd (myers_step s t lowerBound upperBound k st)
        then (fst (myers_step s t lowerBound upperBound k st), Some k)
        else myers_round s t lowerBound upperBound (k + 2) (fst (myers_step s t lowerBound upperBound k st))
      else (st, None))"
  by pat_completeness auto
termination by (relation "measure (\<lambda>(s, t, l, u, k, st). nat (u + 1 - k))") auto

declare myers_round.simps [simp del]

definition lowerBound :: "'a iseq \<Rightarrow> int \<Rightarrow> int" where
  "lowerBound t d = - min d (sq_length t + d mod 2)"

definition upperBound :: "'a iseq \<Rightarrow> int \<Rightarrow> int" where
  "upperBound s d = min d (sq_length s + d mod 2)"

text \<open>
  The outer loop behind \<open>d\<close> rounds, with fuel; \<open>valid\<close> answers the check of the timeout in a round. The inner
  \<open>None\<close> is a time-out.
\<close>

fun myers_rounds :: "nat \<Rightarrow> 'a iseq \<Rightarrow> 'a iseq \<Rightarrow> (int \<Rightarrow> bool) \<Rightarrow> int \<Rightarrow> myers \<Rightarrow> snake list option option" where
  "myers_rounds 0 s t valid d st = None"
| "myers_rounds (Suc fuel) s t valid d st =
     (if valid (d + 1)
      then (case myers_round s t (lowerBound t (d + 1)) (upperBound s (d + 1)) (lowerBound t (d + 1)) st of
              (st', Some k) \<Rightarrow> Some (Some (my_paths st' k))
            | (st', None) \<Rightarrow> myers_rounds fuel s t valid (d + 1) st')
      else Some None)"

section \<open>Reading the path back\<close>

definition snake_end :: "int option \<Rightarrow> int option \<Rightarrow> int option" where
  "snake_end p l = (case (p, l) of (Some x, Some n) \<Rightarrow> Some (x + n) | _ \<Rightarrow> None)"

definition path_endX :: "snake list \<Rightarrow> int option" where
  "path_endX path = (case path of [] \<Rightarrow> Some 0 | sn # _ \<Rightarrow> snake_end (sn_x sn) (sn_length sn))"

definition path_endY :: "snake list \<Rightarrow> int option" where
  "path_endY path = (case path of [] \<Rightarrow> Some 0 | sn # _ \<Rightarrow> snake_end (sn_y sn) (sn_length sn))"

text \<open>\<open>None\<close>: an inverted range, for which the constructor throws, or a difference with an offset that is not a number.\<close>

definition gap :: "int option \<Rightarrow> int option \<Rightarrow> int option \<Rightarrow> int option \<Rightarrow> sequence_diff list \<Rightarrow> sequence_diff list option" where
  "gap endX endY last1 last2 result =
     (case (endX, endY, last1, last2) of
        (Some a, Some c, Some b, Some e) \<Rightarrow>
          (if a \<noteq> b \<or> c \<noteq> e then map_option (\<lambda>d. result @ [d]) (new_diff a b c e) else Some result)
      | _ \<Rightarrow> None)"

fun read_back :: "snake list \<Rightarrow> int option \<Rightarrow> int option \<Rightarrow> sequence_diff list \<Rightarrow> sequence_diff list option" where
  "read_back [] last1 last2 result = gap (path_endX []) (path_endY []) last1 last2 result"
| "read_back (sn # path) last1 last2 result =
     (case gap (path_endX (sn # path)) (path_endY (sn # path)) last1 last2 result of
        None \<Rightarrow> None | Some r \<Rightarrow> read_back path (sn_x sn) (sn_y sn) r)"

definition myers_start :: "'a iseq \<Rightarrow> 'a iseq \<Rightarrow> myers" where
  "myers_start s t =
     (let V = fa_set new_FastInt32Array 0 (Some (getXAfterSnake s t 0 0)) in
      \<lparr>my_V = V,
       my_paths = (\<lambda>_. [])(0 := (if fa_get V 0 = Some 0 then [] else [\<lparr>sn_x = Some 0, sn_y = Some 0, sn_length = fa_get V 0\<rparr>]))\<rparr>)"

text \<open>\<open>compute\<close>, with fuel for the outer loop.\<close>

definition myers_compute :: "nat \<Rightarrow> 'a iseq \<Rightarrow> 'a iseq \<Rightarrow> (int \<Rightarrow> bool) \<Rightarrow> diff_result option" where
  "myers_compute fuel s t valid =
     (if sq_length s = 0 \<or> sq_length t = 0 then Some (trivial s t)
      else case myers_rounds fuel s t valid 0 (myers_start s t) of
        None \<Rightarrow> None
      | Some None \<Rightarrow> Some (trivialTimedOut s t)
      | Some (Some path) \<Rightarrow>
          map_option (\<lambda>r. \<lparr>dr_diffs = rev r, dr_hitTimeout = False\<rparr>)
            (read_back path (Some (sq_length s)) (Some (sq_length t)) []))"

section \<open>What the arrays hold\<close>

lemma to_int32_small: "0 \<le> x \<Longrightarrow> x < 2147483648 \<Longrightarrow> to_int32 (Some x) = x"
  by (simp add: to_int32_def)

lemma typed_set_length: "length (typed_set arr i v) = (if i \<ge> length arr then 2 * length arr else length arr)"
  by (simp add: typed_set_def)

lemma typed_get_set:
  "typed_get (typed_set arr i v) j =
     (if j = i \<and> i < 2 * length arr \<and> arr \<noteq> [] then Some (to_int32 v)
      else if j < length arr then Some (arr ! j) else if i \<ge> length arr \<and> j < 2 * length arr then Some 0 else None)"
  by (auto simp: typed_get_def typed_set_def nth_append nth_list_update)

lemma typed_set_other:
  "j \<noteq> i \<Longrightarrow> typed_get (typed_set arr i v) j = typed_get arr j \<or>
     typed_get arr j = None \<and> typed_get (typed_set arr i v) j = Some 0"
  unfolding typed_get_set by (simp add: typed_get_def)

definition pos_len :: "fast_array \<Rightarrow> int" where "pos_len a = int (length (positiveArr a))"
definition neg_len :: "fast_array \<Rightarrow> int" where "neg_len a = int (length (negativeArr a))"

lemma fa_get_None: "fa_get a k = None \<longleftrightarrow> k < - neg_len a \<or> pos_len a \<le> k"
  by (auto simp: fa_get_def typed_get_def pos_len_def neg_len_def)

lemma fa_len_set: "pos_len a \<le> pos_len (fa_set a k v) \<and> neg_len a \<le> neg_len (fa_set a k v)"
  by (auto simp: fa_set_def pos_len_def neg_len_def typed_set_length)

lemma fa_get_set_same:
  "- 2 * neg_len a \<le> k \<Longrightarrow> k < 2 * pos_len a \<Longrightarrow> fa_get (fa_set a k v) k = Some (to_int32 v)"
  by (auto simp: fa_get_def fa_set_def typed_get_set pos_len_def neg_len_def)

lemma fa_get_set_other:
  "j \<noteq> k \<Longrightarrow> fa_get (fa_set a k v) j = fa_get a j \<or> fa_get a j = None \<and> fa_get (fa_set a k v) j = Some 0"
proof -
  assume ne: "j \<noteq> k"
  consider "j < 0" "k < 0" "nat (- j - 1) \<noteq> nat (- k - 1)" | "0 \<le> j" "0 \<le> k" "nat j \<noteq> nat k" | "(j < 0) \<noteq> (k < 0)"
    using ne by linarith
  then show ?thesis
  proof cases
    case 1
    then show ?thesis using typed_set_other [OF 1(3), of "negativeArr a" v] by (simp add: fa_get_def fa_set_def)
  next
    case 2
    then show ?thesis using typed_set_other [OF 2(3), of "positiveArr a" v] by (simp add: fa_get_def fa_set_def)
  qed (auto simp: fa_get_def fa_set_def)
qed

lemma snake_steps:
  "\<exists>l. getXAfterSnake s t x y = x + l \<and> 0 \<le> l \<and> run s t x y l \<and> (0 < l \<longrightarrow> x + l \<le> sq_length s \<and> y + l \<le> sq_length t) \<and>
     (0 < l \<and> 0 \<le> x \<longrightarrow> 0 \<le> y)"
proof (induction s t x y rule: getXAfterSnake.induct)
  case (1 s t x y)
  show ?case
  proof (cases "x < sq_length s \<and> y < sq_length t \<and> getElement s x = getElement t y")
    case True
    from 1 [OF True] obtain l where l: "getXAfterSnake s t (x + 1) (y + 1) = x + 1 + l" "0 \<le> l" "run s t (x + 1) (y + 1) l"
      "0 < l \<longrightarrow> x + 1 + l \<le> sq_length s \<and> y + 1 + l \<le> sq_length t" by blast
    have "run s t x y 1" using True by (intro run_one) simp
    then have "run s t x y (1 + l)" using l run_split [of 1 l s t x y] by simp
    moreover have "0 \<le> x \<Longrightarrow> 0 \<le> y" using True by (auto simp: getElement_def split: if_splits)
    moreover have "getXAfterSnake s t x y = x + (1 + l)"
      using True l(1) by (subst getXAfterSnake.simps) simp
    moreover have "x + (1 + l) \<le> sq_length s \<and> y + (1 + l) \<le> sq_length t"
      using True l(2,4) by (cases "l = 0") auto
    ultimately show ?thesis using l(2) by (intro exI [of _ "1 + l"]) simp
  next
    case False
    then have "getXAfterSnake s t x y = x" by (subst getXAfterSnake.simps) (simp only: if_False)
    then show ?thesis by (intro exI [of _ 0]) simp
  qed
qed

section \<open>Paths\<close>

fun chain :: "'a iseq \<Rightarrow> 'a iseq \<Rightarrow> snake list \<Rightarrow> bool" where
  "chain s t [] \<longleftrightarrow> True"
| "chain s t (sn # p) \<longleftrightarrow>
     (\<exists>x y l a c. sn = \<lparr>sn_x = Some x, sn_y = Some y, sn_length = Some l\<rparr> \<and> 0 < l \<and> run s t x y l \<and>
        path_endX p = Some a \<and> path_endY p = Some c \<and> a \<le> x \<and> c \<le> y \<and> 0 \<le> a \<and> 0 \<le> c) \<and> chain s t p"

text \<open>A path that ends before a point.\<close>

definition fits :: "'a iseq \<Rightarrow> 'a iseq \<Rightarrow> snake list \<Rightarrow> int \<Rightarrow> int \<Rightarrow> bool" where
  "fits s t p u v \<longleftrightarrow> chain s t p \<and>
     (\<exists>a c. path_endX p = Some a \<and> path_endY p = Some c \<and> 0 \<le> a \<and> 0 \<le> c \<and> a \<le> u \<and> c \<le> v)"

lemma fits_Nil [simp]: "fits s t [] u v \<longleftrightarrow> 0 \<le> u \<and> 0 \<le> v"
  by (auto simp: fits_def path_endX_def path_endY_def)

lemma fits_mono: "fits s t p u v \<Longrightarrow> u \<le> u' \<Longrightarrow> v \<le> v' \<Longrightarrow> fits s t p u' v'"
  unfolding fits_def by (meson order_trans)

lemma fits_Cons:
  "fits s t p x y \<Longrightarrow> 0 < l \<Longrightarrow> run s t x y l \<Longrightarrow> x + l \<le> u \<Longrightarrow> y + l \<le> v \<Longrightarrow>
   fits s t (\<lparr>sn_x = Some x, sn_y = Some y, sn_length = Some l\<rparr> # p) u v"
  by (auto simp: fits_def path_endX_def path_endY_def snake_end_def)

lemma fits_ge: "fits s t p u v \<Longrightarrow> 0 \<le> u \<and> 0 \<le> v"
  by (auto simp: fits_def)

text \<open>Reading a path back gives the differences between its snakes.\<close>

lemma gap_ok:
  assumes "diffs_from s t 1 l1 l2 (rev r)" "0 \<le> n" "a \<le> l1" "c \<le> l2" "run s t (a - n) (c - n) n"
    and n: "g = 0 \<or> g \<le> n"
    and "a - n = i" "c - n = j" "g \<le> 1"
  shows "\<exists>r'. gap (Some a) (Some c) (Some l1) (Some l2) r = Some r' \<and> diffs_from s t g i j (rev r')"
proof (cases "a = l1 \<and> c = l2")
  case True
  from diffs_from_earlier [OF assms(1), of n] assms True have "diffs_from s t (1 + n) i j (rev r)" by simp
  then show ?thesis using True assms(2,9) by (auto simp: gap_def intro: diffs_from_weaken)
next
  case False
  then show ?thesis using assms by (auto simp: gap_def new_diff_def new_OffsetRange_def)
qed

lemma read_back_ok:
  "fits s t p l1 l2 \<Longrightarrow> diffs_from s t 1 l1 l2 (rev r) \<Longrightarrow>
   \<exists>r'. read_back p (Some l1) (Some l2) r = Some r' \<and> diffs_ok s t (rev r')"
proof (induction p arbitrary: l1 l2 r)
  case Nil
  then show ?case
    using gap_ok [of s t l1 l2 r 0 0 0 0 0 0] by (simp add: path_endX_def path_endY_def diffs_ok_def)
next
  case (Cons sn p)
  then obtain x y l a c where sn: "sn = \<lparr>sn_x = Some x, sn_y = Some y, sn_length = Some l\<rparr>" "0 < l" "run s t x y l"
    and p: "path_endX p = Some a" "path_endY p = Some c" "a \<le> x" "c \<le> y" "0 \<le> a" "0 \<le> c" "chain s t p"
    and e: "x + l \<le> l1" "y + l \<le> l2"
    by (auto simp: fits_def path_endX_def path_endY_def snake_end_def)
  have end_sn: "path_endX (sn # p) = Some (x + l)" "path_endY (sn # p) = Some (y + l)"
    by (simp_all add: sn(1) path_endX_def path_endY_def snake_end_def)
  from gap_ok [OF Cons.prems(2), of l "x + l" "y + l" 1 x y] sn e obtain r' where
    r': "gap (Some (x + l)) (Some (y + l)) (Some l1) (Some l2) r = Some r'" "diffs_from s t 1 x y (rev r')" by auto
  moreover have "fits s t p x y" using p by (auto simp: fits_def)
  from Cons.IH [OF this r'(2)] obtain r'' where "read_back p (Some x) (Some y) r' = Some r''" "diffs_ok s t (rev r'')" by blast
  ultimately show ?case using end_sn sn(1) by simp
qed

end
