(* ===== verification/Myers_Correct.thy ===== *)
theory Myers_Correct
  imports Myers_Diff
begin

text \<open>
  The algorithm of \<open>Myers_Diff\<close> always returns, and what it returns leads from one sequence to the other,
  in spite of the entries that it reads behind the end of its array. With \<open>e\<close> rounds done, the
  entries of interest are those of the diagonals \<open>k\<close> from \<open>b\<close> to \<open>e\<close> with the parity of \<open>e\<close>, where \<open>b\<close> is the
  lowest diagonal or one that has reached the end of the second sequence.
\<close>

section \<open>Entries\<close>

text \<open>A path to \<open>u\<close> on a diagonal. At the end of the first sequence it may end anywhere in the second one.\<close>

definition fits_at :: "'a iseq \<Rightarrow> 'a iseq \<Rightarrow> snake list \<Rightarrow> int \<Rightarrow> int \<Rightarrow> bool" where
  "fits_at s t p k u \<longleftrightarrow> 0 \<le> u \<and> u \<le> sq_length s \<and> u - k \<le> sq_length t \<and>
     fits s t p u (if u = sq_length s then sq_length t else max 0 (u - k))"

definition good :: "'a iseq \<Rightarrow> 'a iseq \<Rightarrow> int \<Rightarrow> int option \<Rightarrow> snake list \<Rightarrow> bool" where
  "good s t k v p \<longleftrightarrow> (\<exists>u. v = Some u \<and> fits_at s t p k u)"

text \<open>An entry that is not better than what the diagonal below gives.\<close>

definition low :: "int \<Rightarrow> int option \<Rightarrow> bool" where
  "low k v \<longleftrightarrow> 2 \<le> k \<and> (\<forall>u. v = Some u \<longrightarrow> 0 \<le> u \<and> u \<le> k - 2)"

definition unset :: "int option \<Rightarrow> snake list \<Rightarrow> bool" where
  "unset v p \<longleftrightarrow> (v = None \<or> v = Some 0) \<and> p = []"

text \<open>An entry after others were set.\<close>

definition kept :: "int option \<Rightarrow> int option \<Rightarrow> bool" where
  "kept v v' \<longleftrightarrow> v' = v \<or> v = None \<and> v' = Some 0"

lemma kept_cases: "kept v v' \<Longrightarrow> (v' = v \<Longrightarrow> P) \<Longrightarrow> (v = None \<Longrightarrow> v' = Some 0 \<Longrightarrow> P) \<Longrightarrow> P"
  unfolding kept_def by blast

lemma kept_good: "kept v v' \<Longrightarrow> good s t k v p \<Longrightarrow> good s t k v' p"
  by (erule kept_cases) (simp_all add: good_def)

lemma kept_low: "kept v v' \<Longrightarrow> low k v \<Longrightarrow> low k v'"
  by (erule kept_cases) (simp_all add: low_def)

lemma kept_Some: "kept v v' \<Longrightarrow> v = Some u \<Longrightarrow> v' = Some u"
  by (erule kept_cases) simp_all

lemma kept_unset: "kept v v' \<Longrightarrow> unset v p \<Longrightarrow> unset v' p"
  by (erule kept_cases) (simp_all add: unset_def)

lemma sq_length_nonneg [simp]: "0 \<le> sq_length s"
  by (simp add: sq_length_def)

lemma fits_at_range: "fits_at s t p k u \<Longrightarrow> 0 \<le> u \<and> u \<le> sq_length s \<and> u - k \<le> sq_length t"
  by (simp add: fits_at_def)

lemma fits_at_end:
  "fits_at s t p k (sq_length s) \<Longrightarrow> fits s t p (sq_length s) (sq_length t)"
  by (simp add: fits_at_def)

lemma fits_at_snake:
  assumes p: "fits_at s t p k x" and w: "w = getXAfterSnake s t x (x - k)"
  shows "x \<le> w \<and> fits_at s t
    (if w \<noteq> x then \<lparr>sn_x = Some x, sn_y = Some (x - k), sn_length = Some (w - x)\<rparr> # p else p) k w"
proof -
  from snake_steps [of s t x "x - k"] obtain l where l: "w = x + l" "0 \<le> l" "run s t x (x - k) l"
    "0 < l \<longrightarrow> x + l \<le> sq_length s \<and> x - k + l \<le> sq_length t" "0 < l \<and> 0 \<le> x \<longrightarrow> 0 \<le> x - k"
    unfolding w by blast
  show ?thesis
  proof (cases "l = 0")
    case True
    with l(1) p show ?thesis by simp
  next
    case False
    let ?p = "\<lparr>sn_x = Some x, sn_y = Some (x - k), sn_length = Some l\<rparr> # p"
    have x: "0 \<le> x" using fits_at_range [OF p] by simp
    then have le: "x < sq_length s" "0 \<le> x - k" "x + l \<le> sq_length s" "x - k + l \<le> sq_length t" using l False by auto
    then have "fits s t p x (x - k)" using p by (simp add: fits_at_def)
    then have q: "fits s t ?p (x + l) (x - k + l)"
      by (rule fits_Cons) (use l False in auto)
    have "fits s t ?p w (if w = sq_length s then sq_length t else max 0 (w - k))"
      by (rule fits_mono [OF q]) (use l le in auto)
    then have "fits_at s t ?p k w" unfolding fits_at_def using l(1,2) x le by (intro conjI) linarith+
    then show ?thesis using l(1,2) False by simp
  qed
qed

text \<open>A step from the diagonal below, and one from the diagonal above.\<close>

lemma fits_from_left:
  assumes "fits_at s t p (k - 1) u"
  shows "fits_at s t p k (min (u + 1) (sq_length s))"
proof -
  have u: "0 \<le> u" "u \<le> sq_length s" "u - (k - 1) \<le> sq_length t"
    and f: "fits s t p u (if u = sq_length s then sq_length t else max 0 (u - (k - 1)))" using assms by (simp_all add: fits_at_def)
  have "fits s t p (min (u + 1) (sq_length s))
      (if min (u + 1) (sq_length s) = sq_length s then sq_length t else max 0 (min (u + 1) (sq_length s) - k))"
    by (rule fits_mono [OF f]) (use u in \<open>simp_all add: min_def max_def\<close>)
  then show ?thesis using u by (simp add: fits_at_def)
qed

lemma fits_from_top:
  assumes "fits_at s t p (k + 1) x" "x - k \<le> sq_length t"
  shows "fits_at s t p k x"
proof -
  have f: "fits s t p x (if x = sq_length s then sq_length t else max 0 (x - (k + 1)))" using assms(1) by (simp add: fits_at_def)
  have "fits s t p x (if x = sq_length s then sq_length t else max 0 (x - k))"
    by (rule fits_mono [OF f]) (simp_all add: max_def)
  then show ?thesis using assms by (simp add: fits_at_def)
qed

section \<open>The state between rounds\<close>

definition reach :: "'a iseq \<Rightarrow> 'a iseq \<Rightarrow> int \<Rightarrow> int \<Rightarrow> int" where
  "reach s t e k = min (min ((e + k) div 2 - 1) (sq_length s)) (sq_length t + k)"

definition room_ok :: "'a iseq \<Rightarrow> int \<Rightarrow> int \<Rightarrow> fast_array \<Rightarrow> bool" where
  "room_ok s e b V \<longleftrightarrow> 10 \<le> pos_len V \<and> 10 \<le> neg_len V \<and> min e (sq_length s) < pos_len V \<and> - b \<le> neg_len V"

abbreviation entry :: "myers \<Rightarrow> int \<Rightarrow> int option" where
  "entry st k \<equiv> fa_get (my_V st) k"

definition entry_ok :: "'a iseq \<Rightarrow> 'a iseq \<Rightarrow> int \<Rightarrow> int \<Rightarrow> myers \<Rightarrow> bool" where
  "entry_ok s t e k st \<longleftrightarrow>
     (good s t k (entry st k) (my_paths st k) \<or> low k (entry st k)) \<and>
     (k \<le> e - 2 \<and> k \<le> sq_length s - 1 \<longrightarrow> (\<exists>u. entry st k = Some u \<and> reach s t e k \<le> u))"

definition at_bottom :: "'a iseq \<Rightarrow> int \<Rightarrow> myers \<Rightarrow> bool" where
  "at_bottom t b st \<longleftrightarrow> entry st b = Some (b + sq_length t)"

text \<open>The next diagonal gets to the end of the second sequence from here.\<close>

definition pending :: "'a iseq \<Rightarrow> 'a iseq \<Rightarrow> int \<Rightarrow> myers \<Rightarrow> bool" where
  "pending s t b st \<longleftrightarrow>
     (\<exists>u. entry st b = Some u \<and> fits_at s t (my_paths st b) b u \<and> b \<le> u \<and>
        getXAfterSnake s t (u + 1) (u - b) = b + 1 + sq_length t \<and> b + 1 + sq_length t \<le> sq_length s)"

definition trusted_from :: "'a iseq \<Rightarrow> 'a iseq \<Rightarrow> int \<Rightarrow> int \<Rightarrow> myers \<Rightarrow> bool" where
  "trusted_from s t e b st \<longleftrightarrow>
     (\<forall>k. b \<le> k \<and> even (k - e) \<and> k \<le> e \<and> k \<le> sq_length s + 1 \<longrightarrow> entry_ok s t e k st) \<and>
     (\<forall>k u. b < k \<and> even (k - e) \<and> k \<le> e \<and> k \<le> sq_length s + 1 \<and> entry st k = Some u \<longrightarrow> u - k < sq_length t)"

definition mode_ok :: "'a iseq \<Rightarrow> 'a iseq \<Rightarrow> int \<Rightarrow> int \<Rightarrow> myers \<Rightarrow> bool" where
  "mode_ok s t e b st \<longleftrightarrow>
     (b = - e \<or> at_bottom t b st \<or> b = e - 2 \<and> low e (entry st e) \<and> pending s t b st) \<and>
     (b = e \<and> 1 \<le> e \<and> at_bottom t e st \<longrightarrow> pending s t (e - 1) st)"

text \<open>The entry behind the last diagonal that matters, which is not set in every round.\<close>

definition edge_ok :: "'a iseq \<Rightarrow> 'a iseq \<Rightarrow> myers \<Rightarrow> bool" where
  "edge_ok s t st \<longleftrightarrow>
     good s t (sq_length s + 1) (entry st (sq_length s + 1)) (my_paths st (sq_length s + 1)) \<or>
     low (sq_length s + 1) (entry st (sq_length s + 1))"

definition frontier :: "'a iseq \<Rightarrow> 'a iseq \<Rightarrow> int \<Rightarrow> int \<Rightarrow> myers \<Rightarrow> bool" where
  "frontier s t e b st \<longleftrightarrow>
     0 \<le> e \<and> even (e - b) \<and> - e \<le> b \<and> b \<le> e \<and> b \<le> sq_length s + 1 \<and> room_ok s e b (my_V st) \<and> trusted_from s t e b st \<and> mode_ok s t e b st \<and>
     (\<forall>k. k > e \<and> (even (k - e) \<or> k > e + 1) \<longrightarrow> unset (entry st k) (my_paths st k)) \<and>
     edge_ok s t st \<and>
     entry st (sq_length s - sq_length t) \<noteq> Some (sq_length s)"

lemma frontier_entry:
  "frontier s t e b st \<Longrightarrow> b \<le> k \<Longrightarrow> even (k - e) \<Longrightarrow> k \<le> e \<Longrightarrow> k \<le> sq_length s + 1 \<Longrightarrow> entry_ok s t e k st"
  by (simp add: frontier_def trusted_from_def)

lemma frontier_below:
  "frontier s t e b st \<Longrightarrow> b < k \<Longrightarrow> even (k - e) \<Longrightarrow> k \<le> e \<Longrightarrow> k \<le> sq_length s + 1 \<Longrightarrow> entry st k = Some u \<Longrightarrow>
   u - k < sq_length t"
  unfolding frontier_def trusted_from_def by blast

lemma frontier_unset:
  "frontier s t e b st \<Longrightarrow> k > e \<Longrightarrow> even (k - e) \<or> k > e + 1 \<Longrightarrow> unset (entry st k) (my_paths st k)"
  by (simp add: frontier_def)

text \<open>What a step leaves alone.\<close>

definition only_changes :: "int \<Rightarrow> myers \<Rightarrow> myers \<Rightarrow> bool" where
  "only_changes k st st' \<longleftrightarrow>
     (\<forall>j. j \<noteq> k \<longrightarrow> my_paths st' j = my_paths st j \<and> kept (entry st j) (entry st' j)) \<and>
     pos_len (my_V st) \<le> pos_len (my_V st') \<and> neg_len (my_V st) \<le> neg_len (my_V st')"

lemma only_changes_refl: "only_changes k st st"
  by (simp add: only_changes_def kept_def)

lemma only_changes_set: "only_changes k st \<lparr>my_V = fa_set (my_V st) k v, my_paths = (my_paths st)(k := p)\<rparr>"
  using fa_get_set_other [of _ k "my_V st" v] fa_len_set [of "my_V st" k v]
  by (simp add: only_changes_def kept_def)

lemma only_changes_entry: "only_changes k st st' \<Longrightarrow> j \<noteq> k \<Longrightarrow> entry st j = Some v \<Longrightarrow> entry st' j = Some v"
  unfolding only_changes_def using kept_Some by blast

lemma only_changes_rest:
  "only_changes k st st' \<Longrightarrow> j \<noteq> k \<Longrightarrow> my_paths st' j = my_paths st j"
  "only_changes k st st' \<Longrightarrow> pos_len (my_V st) \<le> pos_len (my_V st') \<and> neg_len (my_V st) \<le> neg_len (my_V st')"
  by (simp_all add: only_changes_def)

lemma step_only_changes: "only_changes k st (fst (myers_step s t l u k st))"
  by (simp add: myers_step_def Let_def only_changes_refl only_changes_set split: option.split)

lemma entry_ok_kept:
  assumes "only_changes k st st'" "j \<noteq> k" "entry_ok s t e j st"
  shows "entry_ok s t e j st'"
proof -
  have p: "my_paths st' j = my_paths st j" and v: "kept (entry st j) (entry st' j)" using assms(1,2) by (simp_all add: only_changes_def)
  have "good s t j (entry st' j) (my_paths st' j) \<or> low j (entry st' j)"
    using assms(3) kept_good [OF v] kept_low [OF v] p unfolding entry_ok_def by auto
  moreover have "\<exists>u. entry st' j = Some u \<and> reach s t e j \<le> u" if "\<exists>u. entry st j = Some u \<and> reach s t e j \<le> u"
    using that kept_Some [OF v] by blast
  ultimately show ?thesis using assms(3) unfolding entry_ok_def by blast
qed

lemma pending_kept:
  assumes "only_changes k st st'" "b \<noteq> k" "pending s t b st"
  shows "pending s t b st'"
proof -
  have "my_paths st' b = my_paths st b" "kept (entry st b) (entry st' b)" using assms(1,2) by (simp_all add: only_changes_def)
  with assms(3) kept_Some show ?thesis unfolding pending_def by metis
qed

lemma at_bottom_kept:
  "only_changes k st st' \<Longrightarrow> b \<noteq> k \<Longrightarrow> at_bottom t b st \<Longrightarrow> at_bottom t b st'"
  unfolding only_changes_def at_bottom_def using kept_Some by blast

lemma at_bottom_kept_iff:
  "only_changes k st st' \<Longrightarrow> b \<noteq> k \<Longrightarrow> - b < sq_length t \<or> 0 \<le> b \<Longrightarrow> 0 < sq_length t \<Longrightarrow> at_bottom t b st' = at_bottom t b st"
  unfolding only_changes_def at_bottom_def kept_def by force

text \<open>
  A step on a diagonal of the other parity, up to the next one, leaves the state what it is, unless it
  reaches the end or changes the entry that the last diagonal came from.
\<close>

lemma frontier_kept:
  assumes fr: "frontier s t e b st" and oc: "only_changes k st st'" and k: "odd (k - e)" "k \<le> e + 1"
    and m: "0 < sq_length t"
    and last: "b = e \<and> 1 \<le> e \<and> at_bottom t e st \<Longrightarrow> k = e - 1 \<Longrightarrow> st' = st"
    and edge: "k = sq_length s + 1 \<Longrightarrow> edge_ok s t st'"
    and fin: "entry st' (sq_length s - sq_length t) \<noteq> Some (sq_length s)"
  shows "frontier s t e b st'"
proof -
  have ne: "j \<noteq> k" if "even (j - e)" for j using that k by auto
  have e: "0 \<le> e" "even (e - b)" "- e \<le> b" "b \<le> e" "b \<le> sq_length s + 1" using fr by (simp_all add: frontier_def)
  have oc': "my_paths st' j = my_paths st j" "kept (entry st j) (entry st' j)" if "j \<noteq> k" for j
    using oc that by (simp_all add: only_changes_def)
  have "room_ok s e b (my_V st')" using fr oc by (simp add: frontier_def room_ok_def only_changes_def)
  moreover have "trusted_from s t e b st'"
  proof -
    have "u - j < sq_length t" if j: "b < j" "even (j - e)" "j \<le> e" "j \<le> sq_length s + 1" "entry st' j = Some u" for j u
      using oc'(2) [OF ne [OF j(2)]]
    proof (rule kept_cases)
      assume "entry st j = None" "entry st' j = Some 0"
      then have "low j (entry st j)" using frontier_entry [OF fr _ j(2-4)] j(1) by (simp add: entry_ok_def good_def)
      then show ?thesis using \<open>entry st' j = Some 0\<close> j(5) m by (simp add: low_def)
    qed (use frontier_below [OF fr j(1-4)] j(5) in simp)
    then show ?thesis using frontier_entry [OF fr] entry_ok_kept [OF oc ne] unfolding trusted_from_def by blast
  qed
  moreover have "mode_ok s t e b st'"
  proof -
    have parity: "b \<noteq> k" "e - 2 \<noteq> k" "e \<noteq> k" using ne [of b] ne [of "e - 2"] ne [of e] e(2) by auto
    have fr': "mode_ok s t e b st" using fr by (simp add: frontier_def)
    have "b = - e \<or> at_bottom t b st' \<or> b = e - 2 \<and> low e (entry st' e) \<and> pending s t b st'"
      using fr' kept_low [OF oc'(2) [OF parity(3)]] at_bottom_kept [OF oc parity(1)] pending_kept [OF oc parity(1)]
      unfolding mode_ok_def by blast
    moreover have "pending s t (e - 1) st'" if b: "b = e" "1 \<le> e" "at_bottom t e st'"
    proof -
      have bot: "at_bottom t e st" using at_bottom_kept_iff [OF oc parity(3) _ m] b by simp
      then have p: "pending s t (e - 1) st" using fr' b by (simp add: mode_ok_def)
      show ?thesis
      proof (cases "k = e - 1")
        case True
        then show ?thesis using last b bot p by simp
      qed (use pending_kept [OF oc _ p] in simp)
    qed
    ultimately show ?thesis unfolding mode_ok_def by blast
  qed
  moreover have "unset (entry st' j) (my_paths st' j)" if j: "j > e" "even (j - e) \<or> j > e + 1" for j
  proof -
    have "j \<noteq> k" using j(2) k(2) ne [of j] by linarith
    from kept_unset [OF oc'(2) [OF this] frontier_unset [OF fr j]] oc'(1) [OF this] show ?thesis by simp
  qed
  moreover have "edge_ok s t st'"
  proof (cases "k = sq_length s + 1")
    case False
    then have "my_paths st' (sq_length s + 1) = my_paths st (sq_length s + 1)"
      and v: "kept (entry st (sq_length s + 1)) (entry st' (sq_length s + 1))" using oc' by auto
    then show ?thesis using fr kept_good [OF v] kept_low [OF v] unfolding frontier_def edge_ok_def by auto
  qed (use edge in simp)
  ultimately show ?thesis using e fin unfolding frontier_def by blast
qed

section \<open>One diagonal\<close>

definition top_of :: "int \<Rightarrow> int \<Rightarrow> myers \<Rightarrow> int option" where
  "top_of u k st = (if k = u then Some (- 1) else entry st (k + 1))"

definition left_of :: "int \<Rightarrow> int \<Rightarrow> myers \<Rightarrow> int option" where
  "left_of l k st = (if k = l then Some (- 1) else map_option (\<lambda>v. v + 1) (entry st (k - 1)))"

lemma step_number:
  assumes "top_of u k st = Some a" "left_of l k st = Some c" "x = min (max a c) (sq_length s)" "x - k \<le> sq_length t"
    "w = getXAfterSnake s t x (x - k)"
  shows "fst (myers_step s t l u k st) =
      \<lparr>my_V = fa_set (my_V st) k (Some w),
       my_paths = (my_paths st)(k := (let p = (if x = a then my_paths st (k + 1) else my_paths st (k - 1)) in
         if w \<noteq> x then \<lparr>sn_x = Some x, sn_y = Some (x - k), sn_length = Some (w - x)\<rparr> # p else p))\<rparr>"
proof -
  have "\<not> (x > sq_length s \<or> x - k > sq_length t)" using assms(3,4) by simp
  then show ?thesis
    unfolding myers_step_def Let_def top_of_def [symmetric] left_of_def [symmetric] assms(1,2)
    by (simp only: prod.case option.case if_False fst_conv flip: assms(3) assms(5))
qed

lemma step_skips:
  assumes "top_of u k st = Some a" "left_of l k st = Some c" "sq_length t < min (max a c) (sq_length s) - k"
  shows "myers_step s t l u k st = (st, False)"
  using assms by (simp add: myers_step_def Let_def flip: top_of_def left_of_def)

lemma step_nan:
  assumes "top_of u k st = None \<or> left_of l k st = None"
  shows "fst (myers_step s t l u k st) =
      \<lparr>my_V = fa_set (my_V st) k None,
       my_paths = (my_paths st)(k := \<lparr>sn_x = None, sn_y = None, sn_length = None\<rparr> # my_paths st (k - 1))\<rparr>"
  using assms by (auto simp: myers_step_def Let_def simp flip: top_of_def left_of_def split: option.split)

lemma step_number_done:
  assumes "top_of u k st = Some a" "left_of l k st = Some c" "x = min (max a c) (sq_length s)" "x - k \<le> sq_length t"
  shows "snd (myers_step s t l u k st) \<longleftrightarrow>
    entry (fst (myers_step s t l u k st)) k = Some (sq_length s) \<and> sq_length s - k = sq_length t"
proof -
  have "\<not> (x > sq_length s \<or> x - k > sq_length t)" using assms(3,4) by simp
  then show ?thesis
    unfolding myers_step_def Let_def top_of_def [symmetric] left_of_def [symmetric] assms(1,2)
    by (simp only: prod.case option.case if_False fst_conv snd_conv myers.simps flip: assms(3))
qed

text \<open>A step that does not reach the end does not write the end.\<close>

lemma step_flag:
  "myers_step s t l u k st = (st, False) \<or>
   snd (myers_step s t l u k st) = (entry (fst (myers_step s t l u k st)) k = Some (sq_length s) \<and> sq_length s - k = sq_length t)"
  by (simp add: myers_step_def Let_def split: option.split)

lemma step_not_done:
  assumes "\<not> snd (myers_step s t l u k st)" "entry st (sq_length s - sq_length t) \<noteq> Some (sq_length s)" "0 < sq_length s"
  shows "entry (fst (myers_step s t l u k st)) (sq_length s - sq_length t) \<noteq> Some (sq_length s)"
proof (cases "k = sq_length s - sq_length t")
  case True
  from step_flag [of s t l u k st] show ?thesis
  proof
    assume "myers_step s t l u k st = (st, False)"
    with assms(2) show ?thesis by simp
  qed (use assms(1) True in auto)
next
  case False
  then have "kept (entry st (sq_length s - sq_length t)) (entry (fst (myers_step s t l u k st)) (sq_length s - sq_length t))"
    using step_only_changes [of k st s t l u] by (simp add: only_changes_def)
  then show ?thesis
  proof (rule kept_cases)
    assume n: "entry st (sq_length s - sq_length t) = None" "entry (fst (myers_step s t l u k st)) (sq_length s - sq_length t) = Some 0"
    show ?thesis using n(2) assms(3) by simp
  qed (use assms(2) in simp)
qed

text \<open>
  A step from a diagonal of interest: it sets the entry to a number that the diagonal below bounds, or, at the
  upper edge, to zero, because it has read behind the end of the array.
\<close>

definition blind_step :: "'a iseq \<Rightarrow> int \<Rightarrow> int \<Rightarrow> int \<Rightarrow> myers \<Rightarrow> myers \<Rightarrow> bool" where
  "blind_step s e u k st st' \<longleftrightarrow>
     entry st' k = Some 0 \<and> 2 \<le> k \<and> (k = e + 1 \<or> sq_length s \<le> k) \<and> (top_of u k st = None \<or> entry st (k - 1) = None)"

definition number_step :: "'a iseq \<Rightarrow> 'a iseq \<Rightarrow> int \<Rightarrow> int \<Rightarrow> int \<Rightarrow> myers \<Rightarrow> myers \<Rightarrow> int \<Rightarrow> int \<Rightarrow> bool" where
  "number_step s t e u k st st' v x \<longleftrightarrow>
     entry st (k - 1) = Some v \<and> 0 \<le> v \<and> min (v + 1) (sq_length s) \<le> x \<and>
     (x = min (v + 1) (sq_length s) \<or> k \<noteq> u \<and> k + 1 \<le> e \<and> entry st (k + 1) = Some x) \<and>
     entry st' k = Some (getXAfterSnake s t x (x - k)) \<and> x \<le> getXAfterSnake s t x (x - k) \<and>
     (fits_at s t (my_paths st (k - 1)) (k - 1) v \<and> fits_at s t (my_paths st' k) k (getXAfterSnake s t x (x - k)) \<or>
      low k (Some (getXAfterSnake s t x (x - k))))"

lemma snake_bounds: "x \<le> sq_length s \<Longrightarrow> x \<le> getXAfterSnake s t x y \<and> getXAfterSnake s t x y \<le> sq_length s"
  using snake_steps [of s t x y] by (metis add.right_neutral add_increasing2 order_le_less order_refl)

lemma snake_negative: "0 \<le> x \<Longrightarrow> y < 0 \<Longrightarrow> getXAfterSnake s t x y = x"
  by (subst getXAfterSnake.simps) (auto simp: getElement_def)

lemma trusted_step:
  assumes fr: "frontier s t e b st" and k: "odd (k - e)" "b < k" "k \<le> e + 1" "k \<le> u" and u: "u \<le> sq_length s + 1" "0 \<le> u" and l: "l < k"
    and n: "0 < sq_length s" "sq_length s < 2147483648" and m: "0 < sq_length t"
  defines "st' \<equiv> fst (myers_step s t l u k st)"
  shows "blind_step s e u k st st' \<or> (\<exists>v x. number_step s t e u k st st' v x)"
proof -
  have e: "0 \<le> e" "even (e - b)" "- e \<le> b" "b \<le> e" and room: "room_ok s e b (my_V st)" using fr by (simp_all add: frontier_def)
  have cap: "- neg_len (my_V st) < k" "k \<le> pos_len (my_V st)" "10 \<le> pos_len (my_V st)" "10 \<le> neg_len (my_V st)"
    "min e (sq_length s) < pos_len (my_V st)"
    using room k u by (auto simp: room_ok_def)
  have left: "entry_ok s t e (k - 1) st"
    by (rule frontier_entry [OF fr]) (use k u in auto)
  have grown: "\<exists>v. entry st (k - 1) = Some v \<and> k - 1 \<le> v" if d: "k - 1 \<le> e - 2" "k \<le> sq_length s"
  proof -
    obtain v where v: "entry st (k - 1) = Some v" "reach s t e (k - 1) \<le> v" using left d by (auto simp: entry_ok_def)
    have "2 * (k - 1) \<le> e + (k - 1) - 2" using d by simp
    then have "k - 1 \<le> (e + (k - 1)) div 2 - 1" by presburger
    then have "k - 1 \<le> reach s t e (k - 1)" using d m by (simp add: reach_def)
    with v show ?thesis by auto
  qed
  have edge: "k = e + 1 \<or> k = sq_length s + 1" if "\<not> (k - 1 \<le> e - 2 \<and> k \<le> sq_length s)"
  proof -
    have "k - 1 \<noteq> e - 1" using k(1) by auto
    then show ?thesis using that k u by linarith
  qed
  have parity: "k \<noteq> e" using k(1) by auto
  have set_k: "entry \<lparr>my_V = fa_set (my_V st) k v, my_paths = p\<rparr> k = Some (to_int32 v)" for v p
    using fa_get_set_same [of "my_V st" k v] cap by simp
  have top: "a \<le> 0 \<and> 0 \<le> k \<or> k \<noteq> u \<and> k + 1 \<le> e \<and> entry st (k + 1) = Some a \<and> entry_ok s t e (k + 1) st \<and> a - (k + 1) < sq_length t"
    if "top_of u k st = Some a" for a
  proof (cases "k = u \<or> \<not> k + 1 \<le> e")
    case True
    then show ?thesis
    proof
      assume "\<not> k + 1 \<le> e"
      then have "k = e + 1" using k(3) parity by linarith
      then have "unset (entry st (k + 1)) (my_paths st (k + 1))" by (intro frontier_unset [OF fr]) auto
      then show ?thesis using that \<open>k = e + 1\<close> e(1) u(2) by (auto simp: top_of_def unset_def split: if_splits)
    qed (use that u(2) in \<open>auto simp: top_of_def\<close>)
  next
    case False
    have "entry_ok s t e (k + 1) st" by (rule frontier_entry [OF fr]) (use False k u in auto)
    moreover have "entry st (k + 1) = Some a" using that False by (simp add: top_of_def)
    moreover have "a - (k + 1) < sq_length t"
      by (rule frontier_below [OF fr _ _ _ _ calculation(2)]) (use False k u in auto)
    ultimately show ?thesis using False by blast
  qed
  show ?thesis
  proof (cases "top_of u k st = None \<or> entry st (k - 1) = None")
    case True
    have "2 \<le> k" using True
    proof
      assume "top_of u k st = None"
      then have "entry st (k + 1) = None" by (simp add: top_of_def split: if_splits)
      then show ?thesis using cap by (auto simp: fa_get_None)
    next
      assume "entry st (k - 1) = None"
      then show ?thesis using left by (auto simp: entry_ok_def good_def low_def)
    qed
    moreover have "k = e + 1 \<or> sq_length s \<le> k"
    proof (rule ccontr)
      assume "\<not> ?thesis"
      then have in_range: "k \<le> e - 1" "k \<le> sq_length s - 1" using k(3) parity by linarith+
      then have "entry st (k + 1) \<noteq> None" unfolding fa_get_None using cap by linarith
      then show False using True grown in_range by (auto simp: top_of_def split: if_splits)
    qed
    moreover have "top_of u k st = None \<or> left_of l k st = None" using True l by (auto simp: left_of_def)
    then have "entry st' k = Some 0" unfolding st'_def step_nan [OF \<open>top_of u k st = None \<or> left_of l k st = None\<close>] set_k
      by (simp add: to_int32_def)
    ultimately show ?thesis using True by (simp add: blind_step_def)
  next
    case False
    then obtain a v where a: "top_of u k st = Some a" and v: "entry st (k - 1) = Some v" by auto
    have lf: "left_of l k st = Some (v + 1)" using v l by (simp add: left_of_def)
    define x where "x = min (max a (v + 1)) (sq_length s)"
    define w where "w = getXAfterSnake s t x (x - k)"
    have v_cases: "fits_at s t (my_paths st (k - 1)) (k - 1) v \<or> 0 \<le> v \<and> v \<le> k - 3"
      using left v by (auto simp: entry_ok_def good_def low_def)
    then have v0: "0 \<le> v" "v - (k - 1) \<le> sq_length t" using m by (auto dest: fits_at_range)
    have a_cases: "a \<le> 0 \<and> 0 \<le> k \<or> k \<noteq> u \<and> k + 1 \<le> e \<and> entry st (k + 1) = Some a \<and> a - (k + 1) < sq_length t \<and>
        (fits_at s t (my_paths st (k + 1)) (k + 1) a \<or> 0 \<le> a \<and> a \<le> k - 1)"
      using top [OF a] by (auto simp: entry_ok_def good_def low_def)
    then have a_le: "a \<le> sq_length s" "a - k \<le> sq_length t"
      using m n(1) k(4) u(1) by (auto dest: fits_at_range)
    have x: "0 \<le> x" "x \<le> sq_length s" "x - k \<le> sq_length t" "min (v + 1) (sq_length s) \<le> x" using a_le v0 n by (auto simp: x_def)
    have x_top: "x = min (v + 1) (sq_length s) \<or> k \<noteq> u \<and> k + 1 \<le> e \<and> entry st (k + 1) = Some x"
      using a_cases a_le(1) v0(1) by (auto simp: x_def min_def max_def)
    note st' = step_number [OF a lf x_def x(3) w_def, folded st'_def]
    have w: "x \<le> w \<and> w \<le> sq_length s" using snake_bounds [OF x(2)] by (simp add: w_def)
    then have set: "entry st' k = Some w" using x(1) n(2) unfolding st' set_k by (simp add: to_int32_small)
    have "fits_at s t (my_paths st (k - 1)) (k - 1) v \<and> fits_at s t (my_paths st' k) k w \<or> low k (Some w)"
    proof (cases "fits_at s t (my_paths st (k - 1)) (k - 1) v")
      case True
      define p where "p = (if x = a then my_paths st (k + 1) else my_paths st (k - 1))"
      have "fits_at s t p k x"
      proof (cases "x = a")
        case xa: True
        then have "0 < a" using x(4) v0(1) n(1) by linarith
        then have c: "k \<noteq> u" "k + 1 \<le> e" "fits_at s t (my_paths st (k + 1)) (k + 1) a \<or> a \<le> k - 1" using a_cases by auto
        have "\<not> a \<le> k - 1"
        proof
          assume "a \<le> k - 1"
          moreover have "k - 1 \<le> e - 2" "k \<le> sq_length s" using c(1,2) k(4) u(1) by linarith+
          from grown [OF this] v have "k - 1 \<le> v" by simp
          ultimately show False using x(4) xa \<open>k \<le> sq_length s\<close> by linarith
        qed
        then have "fits_at s t (my_paths st (k + 1)) (k + 1) x" using c(3) xa by simp
        from fits_from_top [OF this x(3)] show ?thesis using xa by (simp add: p_def)
      next
        case False
        then have "x = min (v + 1) (sq_length s)" using a_le(1) by (auto simp: x_def min_def max_def split: if_splits)
        with fits_from_left [OF True] False show ?thesis by (simp add: p_def)
      qed
      from fits_at_snake [OF this w_def] have "fits_at s t (my_paths st' k) k w"
        unfolding st' myers.simps fun_upd_same Let_def p_def [symmetric] by blast
      with True show ?thesis by simp
    next
      case False
      then have v3: "v \<le> k - 3" using v_cases by simp
      then have "\<not> (k - 1 \<le> e - 2 \<and> k \<le> sq_length s)" using grown v by auto
      then have "k = e + 1 \<or> k = u" using edge k(4) u(1) by auto
      then have "a \<le> 0" using a_cases by auto
      then have "x \<le> k - 2" using v3 v0(1) by (auto simp: x_def)
      then have "w = x" unfolding w_def using x(1) by (intro snake_negative) auto
      then show ?thesis using \<open>x \<le> k - 2\<close> x(1) by (simp add: low_def)
    qed
    then have "number_step s t e u k st st' v x"
      using v v0(1) x(4) x_top set w unfolding number_step_def w_def [symmetric] by blast
    then show ?thesis by blast
  qed
qed

section \<open>What a round does to the diagonals of interest\<close>

lemma reach_next: "reach s t (e + 1) k \<le> min (reach s t e (k - 1) + 1) (sq_length s)"
proof -
  have "(e + 1 + k) div 2 = (e + (k - 1)) div 2 + 1"
    using div_add_self2 [of 2 "e + (k - 1)"] by (simp add: algebra_simps)
  then show ?thesis unfolding reach_def by linarith
qed

lemma snake_at_bottom: "sq_length t \<le> y \<Longrightarrow> getXAfterSnake s t x y = x"
  by (subst getXAfterSnake.simps) simp

lemma frontier_grown:
  "frontier s t e b st \<Longrightarrow> b \<le> k \<Longrightarrow> even (k - e) \<Longrightarrow> k \<le> e - 2 \<Longrightarrow> k \<le> sq_length s - 1 \<Longrightarrow> entry st k = Some v \<Longrightarrow>
   reach s t e k \<le> v"
  using frontier_entry [of s t e b st k] by (auto simp: entry_ok_def)

lemma trusted_entry:
  assumes "frontier s t e b st" "odd (k - e)" "b < k" "k \<le> e + 1" "k \<le> sq_length s + 1"
    and "blind_step s e u k st st' \<or> number_step s t e u k st st' v x"
  shows "entry_ok s t (e + 1) k st' \<and> entry st' k \<noteq> None"
  using assms(6)
proof
  assume "blind_step s e u k st st'"
  then show ?thesis by (auto simp: blind_step_def entry_ok_def low_def)
next
  assume ns: "number_step s t e u k st st' v x"
  have "reach s t (e + 1) k \<le> getXAfterSnake s t x (x - k)" if "k \<le> e + 1 - 2" "k \<le> sq_length s - 1"
  proof -
    have "reach s t e (k - 1) \<le> v"
      by (rule frontier_grown [OF assms(1)]) (use that assms(2,3) ns in \<open>auto simp: number_step_def\<close>)
    then have "reach s t (e + 1) k \<le> min (v + 1) (sq_length s)" using reach_next [of s t e k] by linarith
    then show ?thesis using ns by (auto simp: number_step_def)
  qed
  then show ?thesis using ns by (auto simp: number_step_def entry_ok_def good_def)
qed

text \<open>Behind a diagonal at the bottom the next one is at the bottom.\<close>

lemma at_bottom_before_end:
  assumes fr: "frontier s t e b st" and bot: "at_bottom t b st" and m: "0 < sq_length t"
  shows "b < sq_length s - sq_length t"
proof -
  have v: "entry st b = Some (b + sq_length t)" using bot by (simp add: at_bottom_def)
  have "b \<le> e" "even (b - e)" and b: "b \<le> sq_length s + 1" using fr by (auto simp: frontier_def)
  then have "good s t b (entry st b) (my_paths st b) \<or> low b (entry st b)"
    using frontier_entry [OF fr order_refl] b by (simp add: entry_ok_def)
  then have "b + sq_length t \<le> sq_length s" using v m by (auto simp: good_def low_def dest: fits_at_range)
  moreover have "b \<noteq> sq_length s - sq_length t"
  proof
    assume "b = sq_length s - sq_length t"
    then have "entry st (sq_length s - sq_length t) = Some (sq_length s)" using v by simp
    then show False using fr by (simp add: frontier_def)
  qed
  ultimately show ?thesis by linarith
qed

lemma next_at_bottom:
  assumes fr: "frontier s t e b st" and bot: "at_bottom t b st" and k: "k = b + 1" and m: "0 < sq_length t"
    and b: "b < sq_length s - sq_length t"
    and ns: "number_step s t e u k st st' v x"
  shows "at_bottom t k st'"
proof -
  have v: "v = b + sq_length t" using ns bot k by (simp add: number_step_def at_bottom_def)
  then have le: "v + 1 \<le> sq_length s" using b by linarith
  have "x \<le> v + 1" if "k + 1 \<le> e" "entry st (k + 1) = Some x"
  proof -
    have "x - (k + 1) < sq_length t"
      by (rule frontier_below [OF fr _ _ _ _ that(2)]) (use that k b fr m in \<open>auto simp: frontier_def\<close>)
    then show ?thesis using v k by simp
  qed
  then have x: "x = k + sq_length t" using ns le v k unfolding number_step_def by linarith
  then have "entry st' k = Some (getXAfterSnake s t x (sq_length t))" using ns by (simp add: number_step_def)
  then show ?thesis using x snake_at_bottom [of t "sq_length t" s x] by (simp add: at_bottom_def)
qed

lemma pending_at_bottom:
  assumes pen: "pending s t b st" and low: "low e (entry st e)" and k: "k = b + 1" "b = e - 2"
    and ns: "number_step s t e u k st st' v x"
  shows "at_bottom t k st'"
proof -
  have v: "b \<le> v" "getXAfterSnake s t (v + 1) (v - b) = b + 1 + sq_length t" "b + 1 + sq_length t \<le> sq_length s"
    using pen ns k by (auto simp: pending_def number_step_def)
  have "v + 1 \<le> getXAfterSnake s t (v + 1) (v - b)" using snake_steps [of s t "v + 1" "v - b"] by auto
  then have le: "v + 1 \<le> sq_length s" using v(2,3) by linarith
  have "x \<le> v" if "entry st (k + 1) = Some x"
    using that low k v(1) by (simp add: low_def)
  then have "x = v + 1" using ns le unfolding number_step_def by auto
  then have "x = v + 1" "x - k = v - b" using k(1) by simp_all
  then have "entry st' k = Some (b + 1 + sq_length t)" using ns v(2) unfolding number_step_def by metis
  then show ?thesis using k(1) by (simp add: at_bottom_def)
qed

text \<open>If the upper edge gets to the bottom, it did so from the diagonal below.\<close>

lemma edge_pending:
  assumes oc: "only_changes k st st'" and k: "k = e + 1" and bot: "at_bottom t k st'" and m: "0 < sq_length t" and e: "0 \<le> e"
    and fin: "entry st' (sq_length s - sq_length t) \<noteq> Some (sq_length s)"
    and step: "blind_step s e u k st st' \<or> number_step s t e u k st st' v x"
  shows "pending s t e st'"
proof -
  have w: "entry st' k = Some (k + sq_length t)" using bot by (simp add: at_bottom_def)
  then have "\<not> blind_step s e u k st st'" using m k e by (auto simp: blind_step_def)
  with step have ns: "number_step s t e u k st st' v x" by simp
  then have x: "x = min (v + 1) (sq_length s)" "getXAfterSnake s t x (x - k) = k + sq_length t" "x \<le> k + sq_length t" "0 \<le> v"
    and v: "entry st e = Some v" and fit: "fits_at s t (my_paths st e) e v" "fits_at s t (my_paths st' k) k (k + sq_length t)"
    using w k m by (auto simp: number_step_def low_def)
  have "k + sq_length t \<noteq> sq_length s"
  proof
    assume "k + sq_length t = sq_length s"
    then have "k = sq_length s - sq_length t" by simp
    then show False using w fin by simp
  qed
  then have "k + sq_length t < sq_length s" using fits_at_range [OF fit(2)] by linarith
  then have x': "x = v + 1" using x(1,3) by linarith
  have "e \<le> v"
  proof (rule ccontr)
    assume "\<not> e \<le> v"
    then have "getXAfterSnake s t x (x - k) = x" using x(4) x' k by (intro snake_negative) auto
    then show False using x(2) x' k m \<open>\<not> e \<le> v\<close> by linarith
  qed
  then have "pending s t e st"
    using v fit(1) x(2) x' k \<open>k + sq_length t < sq_length s\<close> by (auto simp: pending_def algebra_simps)
  then show ?thesis using pending_kept [OF oc, of e s t] k by simp
qed

text \<open>The lowest diagonal, as long as the end of the second sequence is not reached.\<close>

lemma lowest_entry:
  assumes fr: "frontier s t e (- e) st" and bot: "\<not> at_bottom t (- e) st" and u: "0 \<le> u"
    and n: "0 < sq_length s" "sq_length s < 2147483648" and m: "0 < sq_length t"
  defines "k \<equiv> - (e + 1)"
  defines "st' \<equiv> fst (myers_step s t k u k st)"
  shows "entry_ok s t (e + 1) k st' \<and> (\<exists>w. entry st' k = Some w \<and> fits_at s t (my_paths st' k) k w)"
proof -
  have e: "0 \<le> e" "room_ok s e (- e) (my_V st)" using fr by (simp_all add: frontier_def)
  have "entry_ok s t e (- e) st" by (rule frontier_entry [OF fr]) (use e n in auto)
  then obtain a where a: "entry st (- e) = Some a" "fits_at s t (my_paths st (- e)) (- e) a"
    using e by (auto simp: entry_ok_def good_def low_def)
  have r: "0 \<le> a" "a \<le> sq_length s" "a + e \<le> sq_length t" using fits_at_range [OF a(2)] by auto
  moreover have "a + e \<noteq> sq_length t" using bot a(1) by (auto simp: at_bottom_def)
  ultimately have y: "a - k \<le> sq_length t" by (simp add: k_def)
  have tp: "top_of u k st = Some a" using a(1) e u by (simp add: top_of_def k_def)
  have lf: "left_of k k st = Some (- 1)" by (simp add: left_of_def)
  have x: "a = min (max a (- 1)) (sq_length s)" using r by simp
  define w where "w = getXAfterSnake s t a (a - k)"
  note st' = step_number [OF tp lf x y w_def, folded st'_def]
  have "fits_at s t (my_paths st (- e)) k a" by (rule fits_from_top) (use a(2) y in \<open>simp_all add: k_def\<close>)
  from fits_at_snake [OF this w_def] have fit: "fits_at s t (my_paths st' k) k w" and "a \<le> w"
    unfolding st' by (simp_all add: Let_def k_def)
  have "w \<le> sq_length s" using fits_at_range [OF fit] by simp
  then have "entry st' k = Some w" unfolding st'
    using fa_get_set_same [of "my_V st" k "Some w"] e r \<open>a \<le> w\<close> n(2) by (simp add: to_int32_small room_ok_def k_def)
  moreover have "reach s t (e + 1) k \<le> w" using r \<open>a \<le> w\<close> by (simp add: reach_def k_def)
  ultimately show ?thesis using fit by (auto simp: entry_ok_def good_def)
qed

section \<open>A round\<close>

text \<open>The bounds of a round.\<close>

definition bounds_ok :: "'a iseq \<Rightarrow> 'a iseq \<Rightarrow> int \<Rightarrow> int \<Rightarrow> int \<Rightarrow> bool" where
  "bounds_ok s t e l u \<longleftrightarrow> odd (l - e) \<and> l \<ge> - (e + 1) \<and> (l \<le> - sq_length t \<or> l = - (e + 1)) \<and>
     u \<le> sq_length s + 1 \<and> u \<le> e + 2 \<and> min (e + 1) (sq_length s) \<le> u"

text \<open>The first diagonal that matters in a round.\<close>

definition starts_at :: "'a iseq \<Rightarrow> 'a iseq \<Rightarrow> int \<Rightarrow> int \<Rightarrow> int \<Rightarrow> myers \<Rightarrow> bool" where
  "starts_at s t e b f st \<longleftrightarrow>
     f = b + 1 \<and> (at_bottom t b st \<or> b = e - 2 \<and> low e (entry st e) \<and> pending s t b st) \<or>
     f = b - 1 \<and> b = - e \<and> (\<exists>a. entry st b = Some a \<and> a - b < sq_length t)"

lemma starts_at_ex:
  assumes fr: "frontier s t e b st"
  shows "\<exists>f. starts_at s t e b f st"
proof (cases "at_bottom t b st \<or> b = e - 2 \<and> low e (entry st e) \<and> pending s t b st")
  case False
  then have b: "b = - e" "0 \<le> e" "\<not> at_bottom t b st" using fr by (auto simp: frontier_def mode_ok_def)
  have "entry_ok s t e b st" by (rule frontier_entry [OF fr order_refl]) (use b fr in \<open>auto simp: frontier_def\<close>)
  then obtain a where a: "entry st b = Some a" "a - b \<le> sq_length t" using b by (auto simp: entry_ok_def good_def low_def dest: fits_at_range)
  then have "a - b < sq_length t" using b(3) by (auto simp: at_bottom_def)
  with a b show ?thesis by (auto simp: starts_at_def)
qed (auto simp: starts_at_def)

lemma starts_at_kept:
  assumes "only_changes k st st'" "odd (k - e)" "even (e - b)" "starts_at s t e b f st"
  shows "starts_at s t e b f st'"
proof -
  have ne: "b \<noteq> k" "e \<noteq> k" using assms(2,3) by auto
  have e: "kept (entry st e) (entry st' e)" "kept (entry st b) (entry st' b)" using assms(1) ne by (simp_all add: only_changes_def)
  have "entry st b = Some a \<Longrightarrow> entry st' b = Some a" for a using kept_Some [OF e(2)] by simp
  then show ?thesis
    using assms(4) at_bottom_kept [OF assms(1) ne(1)] kept_low [OF e(1)] pending_kept [OF assms(1) ne(1)]
    unfolding starts_at_def by blast
qed

definition cell_ok :: "'a iseq \<Rightarrow> 'a iseq \<Rightarrow> int \<Rightarrow> int \<Rightarrow> int \<Rightarrow> int \<Rightarrow> myers \<Rightarrow> bool" where
  "cell_ok s t e b f j st \<longleftrightarrow> entry_ok s t (e + 1) j st \<and> entry st j \<noteq> None \<and>
     (j = b + 1 \<and> f = b + 1 \<longrightarrow> at_bottom t j st \<or> b = e \<and> at_bottom t e st \<and> low (e + 1) (entry st (e + 1))) \<and>
     (j = e + 1 \<and> at_bottom t j st \<longrightarrow> pending s t e st)"

lemma cell_ok_kept:
  assumes "only_changes k st st'" "odd (k - e)" "j \<noteq> k" "cell_ok s t e b f j st"
  shows "cell_ok s t e b f j st'"
proof -
  obtain v where v: "entry st j = Some v" using assms(4) by (auto simp: cell_ok_def)
  have v': "entry st' j = Some v"
    using assms(1,3) v unfolding only_changes_def by (metis kept_Some)
  have ne: "e \<noteq> k" using assms(2) by auto
  have "at_bottom t j st' = at_bottom t j st" using v v' by (simp add: at_bottom_def)
  moreover have "low j (entry st' j) = low j (entry st j)" using v v' by simp
  moreover have "at_bottom t e st \<Longrightarrow> at_bottom t e st'" by (rule at_bottom_kept [OF assms(1) ne])
  moreover have "pending s t e st \<Longrightarrow> pending s t e st'" by (rule pending_kept [OF assms(1) ne])
  moreover have "entry_ok s t (e + 1) j st'" using assms(4) entry_ok_kept [OF assms(1,3)] unfolding cell_ok_def by blast
  ultimately show ?thesis using assms(4) v' v unfolding cell_ok_def
    by (metis add_diff_cancel_right' option.distinct(1))
qed

lemma starts_above_lowest:
  assumes fr: "frontier s t e b st" and f: "starts_at s t e b f st" and bd: "bounds_ok s t e l u" and m: "0 < sq_length t"
  shows "l < f \<and> f = b + 1 \<or> l = f \<and> f = - (e + 1) \<and> b = - e \<and> \<not> at_bottom t b st"
proof -
  have e: "- e \<le> b" using fr by (simp add: frontier_def)
  have l: "l \<ge> - (e + 1)" "l \<le> - sq_length t \<or> l = - (e + 1)" using bd by (simp_all add: bounds_ok_def)
  from f consider "f = b + 1" "at_bottom t b st" | "f = b + 1" "b = e - 2" "low e (entry st e)"
    | a where "f = b - 1" "b = - e" "entry st b = Some a" "a - b < sq_length t"
    unfolding starts_at_def by blast
  then show ?thesis
  proof cases
    case 1
    have "entry_ok s t e b st" by (rule frontier_entry [OF fr order_refl]) (use fr in \<open>auto simp: frontier_def\<close>)
    then have "0 \<le> b + sq_length t" using 1 m by (auto simp: entry_ok_def good_def low_def at_bottom_def dest: fits_at_range)
    then show ?thesis using 1 l e by auto
  next
    case 2
    then show ?thesis using l m by (auto simp: low_def)
  next
    case 3
    have "entry_ok s t e b st" by (rule frontier_entry [OF fr order_refl]) (use fr in \<open>auto simp: frontier_def\<close>)
    then have "0 \<le> a" using 3 fr by (auto simp: entry_ok_def good_def low_def frontier_def dest: fits_at_range)
    then show ?thesis using 3 l by (auto simp: at_bottom_def)
  qed
qed

text \<open>The diagonals below do not matter; they are neither the one of the end nor change what is pending.\<close>

lemma starts_before_end:
  assumes fr: "frontier s t e b st" and f: "starts_at s t e b f st" and m: "0 < sq_length t"
  shows "f = b + 1 \<and> f \<le> sq_length s - sq_length t \<or> f = - (e + 1)"
proof -
  from f consider "f = b + 1" "at_bottom t b st" | "f = b + 1" "pending s t b st" | "f = b - 1" "b = - e"
    unfolding starts_at_def by blast
  then show ?thesis
  proof cases
    case 1
    then show ?thesis using at_bottom_before_end [OF fr 1(2) m] by simp
  qed (auto simp: pending_def)
qed

lemma step_skipped_below_bottom:
  assumes fr: "frontier s t e e st" and bot: "at_bottom t e st" and e: "1 \<le> e" and bd: "bounds_ok s t e l u" and m: "0 < sq_length t"
  shows "myers_step s t l u (e - 1) st = (st, False)"
proof -
  have en: "e < sq_length s - sq_length t" by (rule at_bottom_before_end [OF fr bot m])
  have room: "room_ok s e e (my_V st)" using fr by (simp add: frontier_def)
  have "e - 1 \<noteq> u" using bd en m by (auto simp: bounds_ok_def)
  then have tp: "top_of u (e - 1) st = Some (e + sq_length t)" using bot by (simp add: top_of_def at_bottom_def)
  have "entry st (e - 1 - 1) \<noteq> None" unfolding fa_get_None using room e en m by (auto simp: room_ok_def)
  then have "left_of l (e - 1) st \<noteq> None" by (simp add: left_of_def)
  then obtain c where lf: "left_of l (e - 1) st = Some c" by blast
  have "sq_length t < min (max (e + sq_length t) c) (sq_length s) - (e - 1)" using en by simp
  from step_skips [OF tp lf this] show ?thesis .
qed

text \<open>One diagonal of a round. If it reaches the end, its path ends there.\<close>

lemma cell_step:
  assumes fr: "frontier s t e b st" and f: "starts_at s t e b f st" and bd: "bounds_ok s t e l u"
    and k: "odd (k - e)" "f \<le> k" "l \<le> k" "k \<le> u"
    and n: "0 < sq_length s" "sq_length s < 2147483648" and m: "0 < sq_length t"
  defines "st' \<equiv> fst (myers_step s t l u k st)"
  shows "(k = f \<and> f = - (e + 1) \<and> b = - e \<and> (\<exists>w. entry st' k = Some w \<and> fits_at s t (my_paths st' k) k w) \<and> entry_ok s t (e + 1) k st') \<or>
    (b < k \<and> f = b + 1 \<or> b < k \<and> b = - e) \<and>
    (blind_step s e u k st st' \<or> (\<exists>v x. number_step s t e u k st st' v x))"
proof -
  have e: "0 \<le> e" "b \<le> e" "- e \<le> b" using fr by (simp_all add: frontier_def)
  have u: "u \<le> sq_length s + 1" "u \<le> e + 2" "0 \<le> u" using bd e n by (auto simp: bounds_ok_def)
  have "k \<noteq> e + 2" using k(1) by auto
  then have k': "k \<le> e + 1" using k(4) u(2) by linarith
  from starts_above_lowest [OF fr f bd m] show ?thesis
  proof
    assume "l < f \<and> f = b + 1"
    then show ?thesis using trusted_step [OF fr k(1) _ k' k(4) u(1,3) _ n m, of l] k(2) unfolding st'_def by auto
  next
    assume lf: "l = f \<and> f = - (e + 1) \<and> b = - e \<and> \<not> at_bottom t b st"
    show ?thesis
    proof (cases "k = f")
      case True
      then show ?thesis using lowest_entry [of s t e st u] fr lf u(3) n m unfolding st'_def by auto
    next
      case False
      then have "b < k" using k(1,2) lf by (cases "k = b") auto
      then show ?thesis using trusted_step [OF fr k(1) _ k' k(4) u(1,3) _ n m, of l] lf unfolding st'_def by auto
    qed
  qed
qed

lemma cell_step_entry:
  assumes "frontier s t e b st" "starts_at s t e b f st" "bounds_ok s t e l u"
    and "odd (k - e)" "f \<le> k" "l \<le> k" "k \<le> u" "0 < sq_length s" "sq_length s < 2147483648" "0 < sq_length t"
  shows "entry_ok s t (e + 1) k (fst (myers_step s t l u k st)) \<and> entry (fst (myers_step s t l u k st)) k \<noteq> None"
proof -
  have "k \<noteq> e + 2" using assms(4) by auto
  then have "k \<le> e + 1" "k \<le> sq_length s + 1" using assms(3,7) by (auto simp: bounds_ok_def)
  then show ?thesis
    using cell_step [OF assms] trusted_entry [OF assms(1,4), of u "fst (myers_step s t l u k st)"] by blast
qed

lemma done_path:
  assumes fr: "frontier s t e b st" and f: "starts_at s t e b f st" and bd: "bounds_ok s t e l u"
    and k: "odd (k - e)" "l \<le> k" "k \<le> u"
    and n: "0 < sq_length s" "sq_length s < 2147483648" and m: "0 < sq_length t"
    and dn: "snd (myers_step s t l u k st)"
  shows "fits s t (my_paths (fst (myers_step s t l u k st)) k) (sq_length s) (sq_length t)"
proof -
  define st' where "st' = fst (myers_step s t l u k st)"
  have w: "entry st' k = Some (sq_length s)" "k = sq_length s - sq_length t"
    using dn step_flag [of s t l u k st] by (auto simp: st'_def)
  have "f \<le> k" using starts_before_end [OF fr f m] k(2) bd w(2) by (auto simp: bounds_ok_def)
  from cell_step [OF fr f bd k(1) this k(2,3) n m] w have "fits_at s t (my_paths st' k) k (sq_length s)"
    using n(1) m by (auto simp: st'_def blind_step_def number_step_def low_def)
  then show ?thesis unfolding st'_def by (rule fits_at_end)
qed

lemma cell_step_ok:
  assumes fr: "frontier s t e b st" and f: "starts_at s t e b f st" and bd: "bounds_ok s t e l u"
    and k: "odd (k - e)" "f \<le> k" "l \<le> k" "k \<le> u"
    and n: "0 < sq_length s" "sq_length s < 2147483648" and m: "0 < sq_length t"
    and dn: "\<not> snd (myers_step s t l u k st)"
  shows "cell_ok s t e b f k (fst (myers_step s t l u k st))"
proof -
  define st' where "st' = fst (myers_step s t l u k st)"
  have e: "0 \<le> e" using fr by (simp add: frontier_def)
  have oc: "only_changes k st st'" unfolding st'_def by (rule step_only_changes)
  note step = cell_step [OF fr f bd k n m, folded st'_def]
  have ent: "entry_ok s t (e + 1) k st'" "entry st' k \<noteq> None"
    using cell_step_entry [OF fr f bd k n m] by (simp_all add: st'_def)
  have fin: "entry st' (sq_length s - sq_length t) \<noteq> Some (sq_length s)"
    unfolding st'_def by (rule step_not_done [OF dn _ n(1)]) (use fr in \<open>simp add: frontier_def\<close>)
  have nxt: "at_bottom t k st' \<or> b = e \<and> at_bottom t e st' \<and> low (e + 1) (entry st' (e + 1))" if kb: "k = b + 1" "f = b + 1"
  proof -
    have "k \<noteq> - (e + 1)" using kb fr by (simp add: frontier_def)
    with step have st: "blind_step s e u k st st' \<or> (\<exists>v x. number_step s t e u k st st' v x)" by blast
    have "f \<noteq> - (e + 1)" using kb fr by (simp add: frontier_def)
    with starts_before_end [OF fr f m] have kn: "k \<le> sq_length s - sq_length t" using kb by simp
    from f kb consider "at_bottom t b st" | "b = e - 2" "low e (entry st e)" "pending s t b st" by (auto simp: starts_at_def)
    then show ?thesis
    proof cases
      case 1
      from st show ?thesis
      proof
        assume bl: "blind_step s e u k st st'"
        then have "k = e + 1" "low k (entry st' k)" using kn m by (auto simp: blind_step_def low_def)
        moreover have "at_bottom t b st'" by (rule at_bottom_kept [OF oc _ 1]) (use kb in simp)
        ultimately show ?thesis using kb by simp
      next
        assume "\<exists>v x. number_step s t e u k st st' v x"
        then show ?thesis using next_at_bottom [OF fr 1 kb(1) m] kn kb by auto
      qed
    next
      case 2
      then have "\<not> blind_step s e u k st st'" using kn kb m by (auto simp: blind_step_def)
      then show ?thesis using st pending_at_bottom [OF 2(3,2) kb(1) 2(1)] by blast
    qed
  qed
  have edge: "pending s t e st'" if ke: "k = e + 1" "at_bottom t k st'"
  proof -
    have "k \<noteq> - (e + 1)" using ke e by simp
    with step show ?thesis using edge_pending [OF oc ke m e fin] by blast
  qed
  show ?thesis using ent nxt edge unfolding cell_ok_def st'_def by blast
qed

lemma frontier_step:
  assumes fr: "frontier s t e b st" and f: "starts_at s t e b f st" and bd: "bounds_ok s t e l u"
    and k: "odd (k - e)" "l \<le> k" "k \<le> u"
    and n: "0 < sq_length s" "sq_length s < 2147483648" and m: "0 < sq_length t"
    and dn: "\<not> snd (myers_step s t l u k st)"
  shows "frontier s t e b (fst (myers_step s t l u k st))"
proof (rule frontier_kept [OF fr step_only_changes k(1) _ m])
  have "k \<noteq> e + 2" using k(1) by auto
  then show "k \<le> e + 1" using k(3) bd by (auto simp: bounds_ok_def)
  show "fst (myers_step s t l u k st) = st" if "b = e \<and> 1 \<le> e \<and> at_bottom t e st" "k = e - 1"
    using step_skipped_below_bottom [of s t e st l u] fr bd m that by simp
  show "edge_ok s t (fst (myers_step s t l u k st))" if "k = sq_length s + 1"
  proof -
    have "0 \<le> e" using fr by (simp add: frontier_def)
    then have "f \<le> k" using starts_before_end [OF fr f m] that n(1) m by auto
    from cell_step_entry [OF fr f bd k(1) this k(2,3) n m] that show ?thesis by (simp add: entry_ok_def edge_ok_def)
  qed
  show "entry (fst (myers_step s t l u k st)) (sq_length s - sq_length t) \<noteq> Some (sq_length s)"
    by (rule step_not_done [OF dn _ n(1)]) (use fr in \<open>simp add: frontier_def\<close>)
qed

lemma round_run:
  assumes bd: "bounds_ok s t e l u" and n: "0 < sq_length s" "sq_length s < 2147483648" and m: "0 < sq_length t"
  shows "frontier s t e b st \<Longrightarrow> starts_at s t e b f st \<Longrightarrow> odd (k - e) \<Longrightarrow> l \<le> k \<Longrightarrow>
    (\<forall>j. odd (j - e) \<and> f \<le> j \<and> j < k \<longrightarrow> cell_ok s t e b f j st) \<Longrightarrow>
    (case myers_round s t l u k st of
       (st', Some j) \<Rightarrow> fits s t (my_paths st' j) (sq_length s) (sq_length t)
     | (st', None) \<Rightarrow> frontier s t e b st' \<and> starts_at s t e b f st' \<and>
         (\<forall>j. odd (j - e) \<and> f \<le> j \<and> j \<le> u \<longrightarrow> cell_ok s t e b f j st'))"
proof (induction "nat (u + 2 - k)" arbitrary: k st rule: less_induct)
  case less
  note fr = less.prems(1) and f = less.prems(2) and odd_k = less.prems(3) and l = less.prems(4) and cells = less.prems(5)
  show ?case
  proof (cases "k \<le> u")
    case False
    then have "myers_round s t l u k st = (st, None)" by (subst myers_round.simps) simp
    then show ?thesis using fr f cells False by auto
  next
    case ku: True
    let ?st' = "fst (myers_step s t l u k st)"
    show ?thesis
    proof (cases "snd (myers_step s t l u k st)")
      case True
      then have "myers_round s t l u k st = (?st', Some k)" using ku by (subst myers_round.simps) simp
      then show ?thesis using done_path [OF fr f bd odd_k l ku n m True] by simp
    next
      case False
      have eq: "myers_round s t l u k st = myers_round s t l u (k + 2) ?st'" using ku False by (subst myers_round.simps) simp
      have oc: "only_changes k st ?st'" by (rule step_only_changes)
      have "even (e - b)" using fr by (simp add: frontier_def)
      from starts_at_kept [OF oc odd_k this f] have f': "starts_at s t e b f ?st'" .
      have "cell_ok s t e b f j ?st'" if j: "odd (j - e)" "f \<le> j" "j < k + 2" for j
      proof (cases "j = k")
        case True
        then show ?thesis using cell_step_ok [OF fr f bd odd_k _ l ku n m False] j by simp
      next
        case ne: False
        have "j \<noteq> k + 1" using j(1) odd_k by auto
        then have "cell_ok s t e b f j st" using cells j ne by simp
        then show ?thesis by (rule cell_ok_kept [OF oc odd_k ne])
      qed
      then show ?thesis unfolding eq
        by (intro less.hyps) (use ku l odd_k frontier_step [OF fr f bd odd_k l ku n m False] f' in auto)
    qed
  qed
qed

lemma entry_ok_range:
  assumes "entry_ok s t e k st" "entry st k = Some v"
  shows "v - k \<le> sq_length t \<and> (v \<le> sq_length s \<or> v \<le> k - 2)"
proof -
  have "fits_at s t (my_paths st k) k v \<or> v \<le> k - 2" using assms by (auto simp: entry_ok_def good_def low_def)
  then show ?thesis using fits_at_range [of s t "my_paths st k" k v] sq_length_nonneg [of t] by linarith
qed

text \<open>What the diagonals are after a round gives the state for the next round.\<close>

lemma next_frontier:
  assumes fr: "frontier s t e b st" and bd: "bounds_ok s t e l u" and n: "0 < sq_length s"
    and b': "even (e + 1 - b')" "- (e + 1) \<le> b'" "b' \<le> e + 1" "b' \<le> sq_length s + 1"
    and entries: "\<And>j. odd (j - e) \<Longrightarrow> b' \<le> j \<Longrightarrow> j \<le> u \<Longrightarrow> entry_ok s t (e + 1) j st \<and> entry st j \<noteq> None"
    and below: "\<And>j. odd (j - e) \<Longrightarrow> b' < j \<Longrightarrow> j \<le> u \<Longrightarrow> \<not> at_bottom t j st"
    and mode: "b' \<le> u" "mode_ok s t (e + 1) b' st"
  shows "frontier s t (e + 1) b' st"
proof -
  have e: "0 \<le> e" "room_ok s e b (my_V st)" "edge_ok s t st" using fr by (simp_all add: frontier_def)
  have u: "min (e + 1) (sq_length s) \<le> u" using bd by (simp add: bounds_ok_def)
  have entry': "entry_ok s t (e + 1) j st" if j: "odd (j - e)" "b' \<le> j" "j \<le> e + 1" "j \<le> sq_length s + 1" for j
  proof (cases "j \<le> u")
    case False
    then have "j = sq_length s + 1" using u j by linarith
    then show ?thesis using e(3) by (simp add: entry_ok_def edge_ok_def)
  qed (use entries j in blast)
  have par: "even (j - (e + 1)) = odd (j - e)" for j by simp
  have "trusted_from s t (e + 1) b' st"
  proof -
    have "v - j < sq_length t" if j: "b' < j" "odd (j - e)" "j \<le> e + 1" "j \<le> sq_length s + 1" "entry st j = Some v" for j v
    proof (cases "j \<le> u")
      case True
      have "v - j \<noteq> sq_length t" using below [OF j(2,1) True] j(5) by (auto simp: at_bottom_def)
      moreover have "v - j \<le> sq_length t"
        using entry_ok_range [OF entry' [OF j(2) _ j(3,4)] j(5)] j(1) by simp
      ultimately show ?thesis by simp
    next
      case False
      then have "j = sq_length s + 1" using u j by linarith
      then have "v \<le> sq_length s" using entry_ok_range [OF entry' [OF j(2) _ j(3,4)] j(5)] j(1) by auto
      then show ?thesis using \<open>j = sq_length s + 1\<close> sq_length_nonneg [of t] by linarith
    qed
    then show ?thesis using entry' unfolding trusted_from_def par by blast
  qed
  moreover have "room_ok s (e + 1) b' (my_V st)"
  proof -
    have "entry st b' \<noteq> None" using entries [of b'] b'(1) mode(1) by simp
    then have "- b' \<le> neg_len (my_V st)" unfolding fa_get_None by linarith
    moreover have "min (e + 1) (sq_length s) < pos_len (my_V st)"
    proof (cases "e + 1 \<le> sq_length s")
      case True
      then have "entry st (e + 1) \<noteq> None" using entries [of "e + 1"] b'(3) u by simp
      then show ?thesis unfolding fa_get_None using True by linarith
    next
      case False
      then show ?thesis using e(2) by (simp add: room_ok_def)
    qed
    ultimately show ?thesis using e(2) by (simp add: room_ok_def)
  qed
  moreover have "unset (entry st k) (my_paths st k)" if "k > e + 1" for k
    by (rule frontier_unset [OF fr]) (use that in auto)
  ultimately show ?thesis using fr b' mode(2) e(1) unfolding frontier_def by auto
qed

lemma round_frontier:
  assumes fr: "frontier s t e b st" and f: "starts_at s t e b f st" and bd: "bounds_ok s t e l u"
    and n: "0 < sq_length s" and m: "0 < sq_length t"
    and cells: "\<And>j. odd (j - e) \<Longrightarrow> f \<le> j \<Longrightarrow> j \<le> u \<Longrightarrow> cell_ok s t e b f j st"
  shows "\<exists>b'. frontier s t (e + 1) b' st"
proof -
  have e: "0 \<le> e" "b \<le> e" "- e \<le> b" "even (e - b)" using fr by (simp_all add: frontier_def)
  have u: "min (e + 1) (sq_length s) \<le> u" "u \<le> sq_length s + 1" "u \<le> e + 2" using bd by (simp_all add: bounds_ok_def)
  have u0: "1 \<le> u" using u(1) e(1) n by linarith
  have ent: "entry_ok s t (e + 1) j st \<and> entry st j \<noteq> None" if "odd (j - e)" "f \<le> j" "j \<le> u" for j
    using cells [OF that] by (simp add: cell_ok_def)
  have f_odd: "odd (f - e)" and f_le: "f \<le> u" and f_ge: "- (e + 1) \<le> f" and f_e: "f \<le> e + 1"
    using starts_before_end [OF fr f m] f e u u0 m by (auto simp: starts_at_def)
  define S where "S = {j. odd (j - e) \<and> f \<le> j \<and> j \<le> u \<and> at_bottom t j st}"
  have "S \<subseteq> {f..u}" by (auto simp: S_def)
  then have fin: "finite S" by (rule finite_subset) simp
  show ?thesis
  proof (cases "S = {}")
    case False
    define b' where "b' = Max S"
    have b': "odd (b' - e)" "f \<le> b'" "b' \<le> u" "at_bottom t b' st" using Max_in [OF fin False] by (auto simp: b'_def S_def)
    have "b' \<noteq> e + 2" using b'(1) by auto
    then have le: "b' \<le> e + 1" using b'(3) u by linarith
    have "frontier s t (e + 1) b' st"
    proof (rule next_frontier [OF fr bd n])
      show "\<not> at_bottom t j st" if "odd (j - e)" "b' < j" "j \<le> u" for j
      proof
        assume "at_bottom t j st"
        then have "j \<in> S" using that b'(2) by (simp add: S_def)
        from Max_ge [OF fin this] that(2) show False by (simp add: b'_def)
      qed
      show "mode_ok s t (e + 1) b' st"
        using b' cells [OF b'(1-3)] by (auto simp: mode_ok_def cell_ok_def)
    qed (use b' le f_ge u ent in auto)
    then show ?thesis by blast
  next
    case True
    then have none: "\<not> at_bottom t j st" if "odd (j - e)" "f \<le> j" "j \<le> u" for j using that by (auto simp: S_def)
    show ?thesis
    proof (cases "f = b + 1")
      case fb: True
      have "cell_ok s t e b f f st" by (rule cells [OF f_odd order_refl f_le])
      then have low: "b = e" "at_bottom t e st" "low (e + 1) (entry st (e + 1))" using none [OF f_odd order_refl f_le] fb by (auto simp: cell_ok_def)
      then have "1 \<le> e" by (simp add: low_def)
      then have pen: "pending s t (e - 1) st" using fr low by (simp add: frontier_def mode_ok_def)
      then obtain v where v: "entry st (e - 1) = Some v" "fits_at s t (my_paths st (e - 1)) (e - 1) v" "e - 1 \<le> v"
        "e + sq_length t \<le> sq_length s" by (auto simp: pending_def)
      have j_cases: "j = e - 1 \<or> j = e + 1" if "odd (j - e)" "e - 1 \<le> j" "j \<le> u" for j
      proof -
        have "j \<noteq> e" "j \<noteq> e + 2" using that(1) by auto
        then show ?thesis using that(2,3) u(3) by linarith
      qed
      have "frontier s t (e + 1) (e - 1) st"
      proof (rule next_frontier [OF fr bd n])
        show "entry_ok s t (e + 1) j st \<and> entry st j \<noteq> None" if j: "odd (j - e)" "e - 1 \<le> j" "j \<le> u" for j
          using j_cases [OF j]
        proof
          assume "j = e - 1"
          then show ?thesis using v by (auto simp: entry_ok_def good_def reach_def)
        next
          assume "j = e + 1"
          then show ?thesis using ent [of j] j fb low(1) by simp
        qed
        show "\<not> at_bottom t j st" if j: "odd (j - e)" "e - 1 < j" "j \<le> u" for j
          using j_cases [of j] j none [of j] fb low(1) by auto
        show "mode_ok s t (e + 1) (e - 1) st" using low pen by (simp add: mode_ok_def)
      qed (use e u v m \<open>1 \<le> e\<close> in auto)
      then show ?thesis by blast
    next
      case False
      then have fb: "f = - (e + 1)" "b = - e" using f by (auto simp: starts_at_def)
      have "frontier s t (e + 1) f st"
      proof (rule next_frontier [OF fr bd n])
        show "mode_ok s t (e + 1) f st" using fb e by (auto simp: mode_ok_def)
      qed (use fb e u f_odd f_le ent none in auto)
      then show ?thesis by blast
    qed
  qed
qed

text \<open>A round from one state to the next; it also keeps what is known of the state before it.\<close>

lemma round_ok:
  assumes fr: "frontier s t e b st" and bd: "bounds_ok s t e l u"
    and n: "0 < sq_length s" "sq_length s < 2147483648" and m: "0 < sq_length t"
  shows "case myers_round s t l u l st of
      (st', Some j) \<Rightarrow> fits s t (my_paths st' j) (sq_length s) (sq_length t)
    | (st', None) \<Rightarrow> frontier s t e b st' \<and> (\<exists>b'. frontier s t (e + 1) b' st')"
proof -
  obtain f where f: "starts_at s t e b f st" using starts_at_ex [OF fr] by blast
  have l: "odd (l - e)" "l \<le> f" using bd starts_above_lowest [OF fr f bd m] by (auto simp: bounds_ok_def)
  have none: "\<forall>j. odd (j - e) \<and> f \<le> j \<and> j < l \<longrightarrow> cell_ok s t e b f j st" using l(2) by auto
  from round_run [OF bd n m fr f l(1) order_refl none] show ?thesis
    using round_frontier [OF _ _ bd n(1) m] by (auto split: prod.splits option.splits)
qed

section \<open>All rounds\<close>

lemma bounds_early:
  assumes d: "0 \<le> d" "even (sq_length t) \<or> d < sq_length t" and m: "0 < sq_length t"
  shows "bounds_ok s t d (lowerBound t (d + 1)) (upperBound s (d + 1))"
proof -
  define l where "l = lowerBound t (d + 1)"
  obtain p where p: "(d + 1) mod 2 = p" "p = 0 \<and> odd d \<or> p = 1 \<and> even d" by (cases "even d") (auto simp: mod2_eq_if)
  have l: "l = - min (d + 1) (sq_length t + p)" by (simp add: l_def lowerBound_def p(1))
  have "odd (l - d)"
  proof (cases "d + 1 \<le> sq_length t + p")
    case False
    then have "even (sq_length t)" "l = - (sq_length t + p)" using d(2) p(2) by (auto simp: l)
    then show ?thesis using p(2) by auto
  qed (simp add: l)
  moreover have "- (d + 1) \<le> l" "l \<le> - sq_length t \<or> l = - (d + 1)" using p(2) by (auto simp: l)
  moreover have "upperBound s (d + 1) = min (d + 1) (sq_length s + p)" by (simp add: upperBound_def p(1))
  ultimately show ?thesis using p(2) unfolding bounds_ok_def l_def by auto
qed

lemma bounds_late:
  assumes d: "odd (sq_length t)" "sq_length t \<le> d" and m: "0 < sq_length t"
  shows "bounds_ok s t (d - 1) (lowerBound t (d + 1)) (upperBound s (d + 1))"
proof -
  define l where "l = lowerBound t (d + 1)"
  obtain p where p: "(d + 1) mod 2 = p" "p = 0 \<and> odd d \<or> p = 1 \<and> even d" by (cases "even d") (auto simp: mod2_eq_if)
  have l: "l = - (sq_length t + p)" using d(2) p(2) by (auto simp: l_def lowerBound_def p(1))
  have "odd (l - (d - 1))" using d(1) p(2) by (auto simp: l)
  moreover have "p = 1 \<Longrightarrow> sq_length t + 1 \<le> d" using d p(2) by (cases "sq_length t = d") auto
  then have "- (d - 1 + 1) \<le> l" "l \<le> - sq_length t" using p(2) d(2) by (auto simp: l)
  moreover have "upperBound s (d + 1) = min (d + 1) (sq_length s + p)" by (simp add: upperBound_def p(1))
  ultimately show ?thesis using p(2) unfolding bounds_ok_def l_def by auto
qed

text \<open>The number of rounds that count: with an odd second sequence, one round is done twice.\<close>

definition rounds_of :: "'a iseq \<Rightarrow> int \<Rightarrow> int" where
  "rounds_of t d = (if odd (sq_length t) \<and> sq_length t < d then d - 1 else d)"

lemma frontier_ends:
  assumes fr: "frontier s t e b st" and m: "0 < sq_length t"
  shows "e \<noteq> sq_length s + sq_length t + 2"
proof
  assume e: "e = sq_length s + sq_length t + 2"
  let ?k = "sq_length s - sq_length t"
  obtain f where f: "starts_at s t e b f st" using starts_at_ex [OF fr] by blast
  then have "b \<le> f + 1" by (auto simp: starts_at_def)
  then have "b \<le> ?k" using starts_before_end [OF fr f m] e m sq_length_nonneg [of s] by linarith
  moreover have "even (?k - e)" by (simp add: e)
  ultimately have ok: "entry_ok s t e ?k st"
    using sq_length_nonneg [of t] m by (intro frontier_entry [OF fr]) (auto simp: e)
  have "?k \<le> e - 2 \<and> ?k \<le> sq_length s - 1" using m e by simp
  then obtain v where v: "entry st ?k = Some v" "reach s t e ?k \<le> v" using ok by (auto simp: entry_ok_def)
  have "reach s t e ?k = sq_length s" by (simp add: reach_def e)
  then have "v = sq_length s" using v(2) entry_ok_range [OF ok v(1)] m by linarith
  then show False using fr v(1) by (simp add: frontier_def)
qed

lemma rounds_ok:
  assumes n: "0 < sq_length s" "sq_length s < 2147483648" and m: "0 < sq_length t"
  shows "0 \<le> d \<Longrightarrow> frontier s t (rounds_of t d) b st \<Longrightarrow> rounds_of t d < sq_length s + sq_length t + 2 \<Longrightarrow>
    (odd (sq_length t) \<and> d = sq_length t \<longrightarrow> (\<exists>b. frontier s t (d - 1) b st)) \<Longrightarrow>
    sq_length s + sq_length t + 3 \<le> int fuel + d \<Longrightarrow>
    (\<exists>r. myers_rounds fuel s t valid d st = Some r \<and> (\<forall>p. r = Some p \<longrightarrow> fits s t p (sq_length s) (sq_length t)))"
proof (induction fuel arbitrary: d b st)
  case 0
  then show ?case by (auto simp: rounds_of_def split: if_splits)
next
  case (Suc fuel)
  define late where "late \<longleftrightarrow> odd (sq_length t) \<and> sq_length t \<le> d"
  define e where "e = (if late then d - 1 else d)"
  have bd: "bounds_ok s t e (lowerBound t (d + 1)) (upperBound s (d + 1))"
    using bounds_early [of d t s] bounds_late [of t d s] Suc.prems(1) m by (auto simp: e_def late_def not_le)
  have "\<exists>b. frontier s t e b st"
    using Suc.prems(2,4) by (cases "d = sq_length t") (auto simp: e_def late_def rounds_of_def split: if_splits)
  then obtain b' where fr: "frontier s t e b' st" by blast
  have next_e: "rounds_of t (d + 1) = e + 1" by (auto simp: rounds_of_def e_def late_def)
  note rd = round_ok [OF fr bd n m]
  show ?case
  proof (cases "valid (d + 1)")
    case True
    obtain st' k where r: "myers_round s t (lowerBound t (d + 1)) (upperBound s (d + 1)) (lowerBound t (d + 1)) st = (st', k)" by force
    show ?thesis
    proof (cases k)
      case (Some j)
      then show ?thesis using rd r True by simp
    next
      case None
      then obtain b'' where st': "frontier s t e b' st'" "frontier s t (e + 1) b'' st'" using rd r by auto
      have "\<exists>r. myers_rounds fuel s t valid (d + 1) st' = Some r \<and> (\<forall>p. r = Some p \<longrightarrow> fits s t p (sq_length s) (sq_length t))"
      proof (rule Suc.IH)
        show "frontier s t (rounds_of t (d + 1)) b'' st'" using st'(2) next_e by simp
        have "e \<le> rounds_of t d" by (auto simp: e_def late_def rounds_of_def)
        then show "rounds_of t (d + 1) < sq_length s + sq_length t + 2"
          using frontier_ends [OF st'(2) m] Suc.prems(3) next_e by simp
        show "odd (sq_length t) \<and> d + 1 = sq_length t \<longrightarrow> (\<exists>b. frontier s t (d + 1 - 1) b st')"
        proof
          assume "odd (sq_length t) \<and> d + 1 = sq_length t"
          then have "e = d + 1 - 1" by (simp add: e_def late_def)
          then show "\<exists>b. frontier s t (d + 1 - 1) b st'" using st'(1) by blast
        qed
      qed (use Suc.prems in auto)
      then show ?thesis using r None True by simp
    qed
  qed simp
qed

section \<open>The start\<close>

lemma new_entry: "fa_get new_FastInt32Array k = (if - 10 \<le> k \<and> k < 10 then Some 0 else None)"
proof -
  have "typed_get (replicate 10 0) i = (if i < 10 then Some 0 else None)" for i by (auto simp: typed_get_def)
  then show ?thesis by (auto simp: fa_get_def new_FastInt32Array_def)
qed

lemma start_entries:
  fixes s t :: "'a iseq"
  assumes "sq_length s < 2147483648"
  defines "w \<equiv> getXAfterSnake s t 0 0"
  shows "entry (myers_start s t) k = (if k = 0 then Some w else if - 10 \<le> k \<and> k < 10 then Some 0 else None)"
    and "my_paths (myers_start s t) = (\<lambda>_. [])(0 := (if w \<noteq> 0 then [\<lparr>sn_x = Some 0, sn_y = Some 0, sn_length = Some w\<rparr>] else []))"
    and "pos_len (my_V (myers_start s t)) = 10" "neg_len (my_V (myers_start s t)) = 10"
    and "fits_at s t (my_paths (myers_start s t) 0) 0 w"
proof -
  have f: "fits_at s t [] 0 0" by (simp add: fits_at_def)
  have w: "0 \<le> w" using fits_at_snake [OF f, of w] by (simp add: w_def)
  have fw: "fits_at s t (if w \<noteq> 0 then [\<lparr>sn_x = Some 0, sn_y = Some 0, sn_length = Some w\<rparr>] else []) 0 w"
    using fits_at_snake [OF f, of w] by (cases "getXAfterSnake s t 0 0 = 0") (simp_all add: w_def)
  have lens: "pos_len new_FastInt32Array = 10" "neg_len new_FastInt32Array = 10"
    by (simp_all add: pos_len_def neg_len_def new_FastInt32Array_def)
  have z: "fa_get (fa_set new_FastInt32Array 0 (Some w)) 0 = Some w"
    using fa_get_set_same [of new_FastInt32Array 0 "Some w"] lens w fits_at_range [OF fw] assms(1) by (simp add: to_int32_small)
  have V: "my_V (myers_start s t) = fa_set new_FastInt32Array 0 (Some w)" by (simp add: myers_start_def Let_def w_def)
  show paths: "my_paths (myers_start s t) = (\<lambda>_. [])(0 := (if w \<noteq> 0 then [\<lparr>sn_x = Some 0, sn_y = Some 0, sn_length = Some w\<rparr>] else []))"
    using z by (simp add: myers_start_def Let_def flip: w_def)
  show pl: "pos_len (my_V (myers_start s t)) = 10" "neg_len (my_V (myers_start s t)) = 10"
    by (simp_all add: V fa_set_def pos_len_def neg_len_def new_FastInt32Array_def typed_set_length)
  show "entry (myers_start s t) k = (if k = 0 then Some w else if - 10 \<le> k \<and> k < 10 then Some 0 else None)"
  proof (cases "k = 0")
    case False
    have "entry (myers_start s t) k = None \<longleftrightarrow> \<not> (- 10 \<le> k \<and> k < 10)" using pl by (auto simp: fa_get_None)
    then show ?thesis using fa_get_set_other [OF False, of new_FastInt32Array "Some w"] False
      by (auto simp: V new_entry split: if_splits)
  qed (simp add: V z)
  show "fits_at s t (my_paths (myers_start s t) 0) 0 w" using fw by (simp add: paths)
qed

lemma start_frontier:
  assumes n: "0 < sq_length s" "sq_length s < 2147483648" and m: "0 < sq_length t"
    and ne: "sq_length s \<noteq> sq_length t \<or> getXAfterSnake s t 0 0 \<noteq> sq_length s"
  shows "frontier s t 0 0 (myers_start s t)"
proof -
  note st = start_entries [OF n(2), of t]
  have "trusted_from s t 0 0 (myers_start s t)"
    using st(1) [of 0] st(5) by (auto simp: trusted_from_def entry_ok_def good_def)
  moreover have "unset (entry (myers_start s t) k) (my_paths (myers_start s t) k)" if "k \<noteq> 0" for k
    using that st(1) [of k] st(2) by (simp add: unset_def)
  moreover have "edge_ok s t (myers_start s t)"
    using n(1) st(1) [of "sq_length s + 1"] by (auto simp: edge_ok_def low_def)
  moreover have "entry (myers_start s t) (sq_length s - sq_length t) \<noteq> Some (sq_length s)"
    using ne n(1) st(1) [of "sq_length s - sq_length t"] by (auto split: if_splits)
  ultimately show ?thesis using n(1) st(3,4) by (auto simp: frontier_def room_ok_def mode_ok_def)
qed

section \<open>Equal sequences\<close>

text \<open>
  If the first snake reaches the end of both sequences, the rounds still go on until the diagonal is visited
  again, and find the same path.
\<close>

definition whole_snake :: "'a iseq \<Rightarrow> myers \<Rightarrow> snake list \<Rightarrow> bool" where
  "whole_snake s st p \<longleftrightarrow> entry st 0 = Some (sq_length s) \<and> entry st (- 1) = Some 0 \<and> my_paths st 0 = p \<and>
     10 \<le> pos_len (my_V st) \<and> 10 \<le> neg_len (my_V st)"

lemma round_three:
  assumes "\<not> snd (myers_step s t l u k st)" "k \<le> u"
  shows "myers_round s t l u k st = myers_round s t l u (k + 2) (fst (myers_step s t l u k st))"
  using assms by (subst myers_round.simps) simp

lemma equal_first_round:
  assumes w: "whole_snake s st p" and n: "0 < sq_length s" "sq_length s < 2147483648" "sq_length t = sq_length s"
  shows "\<exists>st'. myers_round s t (- 1) 1 (- 1) st = (st', None) \<and> whole_snake s st' p \<and>
    entry st' 1 = Some (sq_length s) \<and> my_paths st' 1 = p"
proof -
  have "myers_step s t (- 1) 1 (- 1) st = (st, False)"
    using step_skips [of 1 "- 1" st "sq_length s" "- 1" "- 1" t s] w n by (simp add: top_of_def left_of_def whole_snake_def)
  then have r: "myers_round s t (- 1) 1 (- 1) st = myers_round s t (- 1) 1 1 st"
    using round_three [of s t "- 1" 1 "- 1" st] by simp
  have tp: "top_of 1 1 st = Some (- 1)" "left_of (- 1) 1 st = Some (sq_length s + 1)"
    using w by (simp_all add: top_of_def left_of_def whole_snake_def)
  have x: "sq_length s = min (max (- 1) (sq_length s + 1)) (sq_length s)" "sq_length s - 1 \<le> sq_length t" using n by auto
  have sn: "sq_length s = getXAfterSnake s t (sq_length s) (sq_length s - 1)"
    by (subst getXAfterSnake.simps) simp
  let ?st' = "fst (myers_step s t (- 1) 1 1 st)"
  have st': "?st' = \<lparr>my_V = fa_set (my_V st) 1 (Some (sq_length s)), my_paths = (my_paths st)(1 := p)\<rparr>"
    using step_number [OF tp x sn] w n by (simp add: whole_snake_def)
  have "snd (myers_step s t (- 1) 1 1 st) = False" using step_number_done [OF tp x] n by simp
  then have "myers_round s t (- 1) 1 1 st = (?st', None)"
    using round_three [of s t "- 1" 1 1 st] by (simp add: myers_round.simps [of s t _ _ 3])
  moreover have "entry ?st' 1 = Some (sq_length s)"
    unfolding st' using fa_get_set_same [of "my_V st" 1] w n by (simp add: whole_snake_def to_int32_small)
  moreover have oc: "only_changes 1 st ?st'" by (rule step_only_changes)
  have "whole_snake s ?st' p"
    using w only_changes_entry [OF oc, of 0] only_changes_entry [OF oc, of "- 1"] only_changes_rest(1) [OF oc, of 0] only_changes_rest(2) [OF oc]
    unfolding whole_snake_def by simp
  ultimately show ?thesis using r by (auto simp: st')
qed

lemma equal_last_round:
  assumes w: "whole_snake s st p" "entry st 1 = Some (sq_length s)" "my_paths st 1 = p"
    and n: "0 < sq_length s" "sq_length s < 2147483648" "sq_length t = sq_length s"
  shows "\<exists>st'. myers_round s t (- 2) 2 (- 2) st = (st', Some 0) \<and> my_paths st' 0 = p"
proof -
  let ?st1 = "fst (myers_step s t (- 2) 2 (- 2) st)"
  have "\<not> snd (myers_step s t (- 2) 2 (- 2) st)"
    using step_flag [of s t "- 2" 2 "- 2" st] n by auto
  then have r: "myers_round s t (- 2) 2 (- 2) st = myers_round s t (- 2) 2 0 ?st1"
    using round_three [of s t "- 2" 2 "- 2" st] by simp
  have oc: "only_changes (- 2) st ?st1" by (rule step_only_changes)
  have st1: "entry ?st1 1 = Some (sq_length s)" "entry ?st1 (- 1) = Some 0" "my_paths ?st1 1 = p"
    "10 \<le> pos_len (my_V ?st1)" "10 \<le> neg_len (my_V ?st1)"
    using w only_changes_entry [OF oc, of 1] only_changes_entry [OF oc, of "- 1"] only_changes_rest(1) [OF oc, of 1] only_changes_rest(2) [OF oc]
    unfolding whole_snake_def by simp_all
  have tp: "top_of 2 0 ?st1 = Some (sq_length s)" "left_of (- 2) 0 ?st1 = Some 1"
    using st1 by (simp_all add: top_of_def left_of_def)
  have x: "sq_length s = min (max (sq_length s) 1) (sq_length s)" "sq_length s - 0 \<le> sq_length t" using n by auto
  have sn: "sq_length s = getXAfterSnake s t (sq_length s) (sq_length s - 0)"
    by (subst getXAfterSnake.simps) simp
  let ?st' = "fst (myers_step s t (- 2) 2 0 ?st1)"
  have st': "?st' = \<lparr>my_V = fa_set (my_V ?st1) 0 (Some (sq_length s)), my_paths = (my_paths ?st1)(0 := p)\<rparr>"
    using step_number [OF tp x sn] st1 n by simp
  have "entry ?st' 0 = Some (sq_length s)"
    unfolding st' using fa_get_set_same [of "my_V ?st1" 0] st1 n by (simp add: to_int32_small)
  then have "snd (myers_step s t (- 2) 2 0 ?st1)" using step_number_done [OF tp x] n by simp
  then have "myers_round s t (- 2) 2 0 ?st1 = (?st', Some 0)" by (subst myers_round.simps) simp
  then show ?thesis using r by (simp add: st')
qed

lemma start_whole:
  assumes n: "0 < sq_length s" "sq_length s < 2147483648" and w: "getXAfterSnake s t 0 0 = sq_length s"
  shows "whole_snake s (myers_start s t) (my_paths (myers_start s t) 0)"
  using start_entries [OF n(2), of t] w by (simp add: whole_snake_def)

lemma equal_rounds:
  assumes n: "0 < sq_length s" "sq_length s < 2147483648" "sq_length t = sq_length s" and w: "getXAfterSnake s t 0 0 = sq_length s"
  shows "\<exists>r. myers_rounds (Suc (Suc (Suc fuel))) s t valid 0 (myers_start s t) = Some r \<and>
    (\<forall>p. r = Some p \<longrightarrow> fits s t p (sq_length s) (sq_length t))"
proof -
  let ?p = "my_paths (myers_start s t) 0"
  have fit: "fits s t ?p (sq_length s) (sq_length t)"
    using start_entries(5) [OF n(2), of t] w by (intro fits_at_end [of s t _ 0]) simp
  from equal_first_round [OF start_whole [OF n(1,2) w] n] obtain st1 where
    st1: "myers_round s t (- 1) 1 (- 1) (myers_start s t) = (st1, None)" "whole_snake s st1 ?p"
      "entry st1 1 = Some (sq_length s)" "my_paths st1 1 = ?p" by blast
  have one: "lowerBound t 1 = - 1" "upperBound s 1 = 1" using n by (simp_all add: lowerBound_def upperBound_def)
  show ?thesis
  proof (cases "sq_length s = 1")
    case False
    then have two: "lowerBound t 2 = - 2" "upperBound s 2 = 2" using n by (simp_all add: lowerBound_def upperBound_def)
    from equal_last_round [OF st1(2-4) n] obtain st2 where "myers_round s t (- 2) 2 (- 2) st1 = (st2, Some 0)" "my_paths st2 0 = ?p" by blast
    then show ?thesis using st1(1) fit one two by simp
  next
    case True
    then have two: "lowerBound t 2 = - 1" "upperBound s 2 = 1" "lowerBound t 3 = - 2" "upperBound s 3 = 2"
      using n by (simp_all add: lowerBound_def upperBound_def)
    from equal_first_round [OF st1(2) n] obtain st2 where st2: "myers_round s t (- 1) 1 (- 1) st1 = (st2, None)" "whole_snake s st2 ?p"
      "entry st2 1 = Some (sq_length s)" "my_paths st2 1 = ?p" by blast
    from equal_last_round [OF st2(2-4) n] obtain st3 where "myers_round s t (- 2) 2 (- 2) st2 = (st3, Some 0)" "my_paths st3 0 = ?p" by blast
    then show ?thesis using st1(1) st2(1) fit one two by simp
  qed
qed

section \<open>The result\<close>

lemma myers_compute_ok:
  assumes n: "sq_length s < 2147483648" and fuel: "sq_length s + sq_length t + 3 \<le> int fuel"
  shows "\<exists>r. myers_compute fuel s t valid = Some r \<and> diffs_ok s t (dr_diffs r)"
proof (cases "sq_length s = 0 \<or> sq_length t = 0")
  case True
  then show ?thesis by (auto simp: myers_compute_def trivial_def trivial_ok)
next
  case False
  then have pos: "0 < sq_length s" "0 < sq_length t" using sq_length_nonneg [of s] sq_length_nonneg [of t] by linarith+
  have "\<exists>r. myers_rounds fuel s t valid 0 (myers_start s t) = Some r \<and> (\<forall>p. r = Some p \<longrightarrow> fits s t p (sq_length s) (sq_length t))"
  proof (cases "sq_length t = sq_length s \<and> getXAfterSnake s t 0 0 = sq_length s")
    case True
    have "fuel = Suc (Suc (Suc (fuel - 3)))" using fuel pos by simp
    then show ?thesis using equal_rounds [OF pos(1) n, of t "fuel - 3" valid] True by simp
  next
    case False
    then have "frontier s t (rounds_of t 0) 0 (myers_start s t)"
      using start_frontier [OF pos(1) n pos(2)] pos by (auto simp: rounds_of_def)
    then show ?thesis by (rule rounds_ok [OF pos(1) n pos(2) order_refl]) (use pos fuel in \<open>auto simp: rounds_of_def\<close>)
  qed
  then obtain r where r: "myers_rounds fuel s t valid 0 (myers_start s t) = Some r"
    "\<And>p. r = Some p \<Longrightarrow> fits s t p (sq_length s) (sq_length t)" by blast
  show ?thesis
  proof (cases r)
    case None
    then show ?thesis using r(1) False by (simp add: myers_compute_def trivialTimedOut_def trivial_ok)
  next
    case (Some p)
    from read_back_ok [OF r(2) [OF Some], of "[]"] obtain q where
      "read_back p (Some (sq_length s)) (Some (sq_length t)) [] = Some q" "diffs_ok s t (rev q)" by auto
    then show ?thesis using r(1) Some False by (simp add: myers_compute_def)
  qed
qed

text \<open>
  C10. The algorithm of Myers with fewer diagonals: with \<open>n + m + 3\<close> rounds at most it returns, it never throws, whenever
  the time-out strikes, and its differences rebuild the second sequence from the first, in order and apart from
  each other. No offset that is not a number gets into the result, although such numbers get into the array.
\<close>

theorem myers_diff_rebuilds:
  assumes "sq_length s < 2147483648" "sq_length s + sq_length t + 3 \<le> int fuel"
  shows "\<exists>r. myers_compute fuel s t valid = Some r \<and> diffs_ok s t (dr_diffs r) \<and>
    replay (sq_elements s) (sq_elements t) 0 (dr_diffs r) = sq_elements t"
  using myers_compute_ok [OF assms] diffs_ok_replay by blast

theorem myers_diff_rebuilds_witness:
  "\<exists>r. myers_compute 17 (text_seq ''aaaaaaaaaaaaX'') (text_seq ''X'') (\<lambda>_. True) = Some r \<and>
    replay ''aaaaaaaaaaaaX'' ''X'' 0 (dr_diffs r) = ''X''"
  using myers_diff_rebuilds [of "text_seq ''aaaaaaaaaaaaX''" "text_seq ''X''" 17 "\<lambda>_. True"]
  by (auto simp: text_seq_def sq_length_def)

text \<open>
  But the result need not be the shortest. If the second sequence has an odd length, the bounds of the rounds
  take the other parity once the round passes this length; the last diagonal of a round is then not the upper
  bound, and an entry that was never set, behind the end of the array, is read. Here the common character
  at the end is lost.
\<close>

lemma myers_misses_match:
  "myers_compute 17 (text_seq ''aaaaaaaaaaaaX'') (text_seq ''X'') (\<lambda>_. True) =
     Some (trivial (text_seq ''aaaaaaaaaaaaX'') (text_seq ''X''))"
  "diffs_ok (text_seq ''aaaaaaaaaaaaX'') (text_seq ''X'')
     [\<lparr>sd_seq1 = \<lparr>o_start = 0, o_end = 12\<rparr>, sd_seq2 = \<lparr>o_start = 0, o_end = 0\<rparr>\<rparr>]"
proof -
  show "myers_compute 17 (text_seq ''aaaaaaaaaaaaX'') (text_seq ''X'') (\<lambda>_. True) =
      Some (trivial (text_seq ''aaaaaaaaaaaaX'') (text_seq ''X''))"
    by code_simp
  have "run (text_seq ''aaaaaaaaaaaaX'') (text_seq ''X'') 12 0 1"
    by (rule run_one) (simp add: getElement_def text_seq_def sq_length_def)
  then show "diffs_ok (text_seq ''aaaaaaaaaaaaX'') (text_seq ''X'')
      [\<lparr>sd_seq1 = \<lparr>o_start = 0, o_end = 12\<rparr>, sd_seq2 = \<lparr>o_start = 0, o_end = 0\<rparr>\<rparr>]"
    by (simp add: diffs_ok_def) (simp add: text_seq_def sq_length_def)
qed

end
