(* ===== verification/Line_Alignment.thy ===== *)
theory Line_Alignment
  imports Diff_Optimize Dp_Diff Myers_Correct Wibe_Prelude
begin

text \<open>
  \<open>diff/defaultLinesDiffComputer/lineSequence.ts\<close> and the alignment of lines in
  \<open>diff/defaultLinesDiffComputer/defaultLinesDiffComputer.ts\<close>: lines are numbered by their trimmed text, aligned
  by one of the two algorithms, and what is between the differences is scanned for changes of white space.
  What the characters of a difference have to do with each other (\<open>refineDiff\<close>) is not modelled; the result
  here is the list of the differences that are refined.
\<close>

section \<open>Sequences of lines\<close>

definition line_at :: "string list \<Rightarrow> int \<Rightarrow> string option" where
  "line_at ls i = (if 0 \<le> i \<and> i < int (length ls) then Some (ls ! nat i) else None)"

definition getIndentation :: "string \<Rightarrow> int" where
  "getIndentation str = int (length (takeWhile (\<lambda>c. c = CHR '' '' \<or> c = CHR 0x09) str))"

text \<open>
  \<open>LineSequence\<close>. The score is only asked for offsets from 0 to the length; an offset behind them would make
  \<open>getIndentation\<close> throw.
\<close>

definition boundaryScore :: "string list \<Rightarrow> int \<Rightarrow> int" where
  "boundaryScore ls i =
     (let indentationBefore = (if i = 0 then 0 else getIndentation (or_else (line_at ls (i - 1)) []));
          indentationAfter = (if i = int (length ls) then 0 else getIndentation (or_else (line_at ls i) []))
      in 1000 - (indentationBefore + indentationAfter))"

definition lineSequence :: "nat list \<Rightarrow> string list \<Rightarrow> nat iseq" where
  "lineSequence trimmedHash ls =
     \<lparr>sq_elements = trimmedHash, sq_isStronglyEqual = (\<lambda>i j. line_at ls i = line_at ls j), sq_getBoundaryScore = Some (boundaryScore ls)\<rparr>"

definition line_getText :: "string list \<Rightarrow> offset_range \<Rightarrow> string" where
  "line_getText ls r = join_with [CHR 0x0A] (sub_list (nat (o_start r)) (nat (o_end r)) ls)"

text \<open>\<open>getOrCreateHash\<close>: a text gets the number of texts before it.\<close>

definition getOrCreateHash :: "(string, nat) jmap \<Rightarrow> string \<Rightarrow> (string, nat) jmap \<times> nat" where
  "getOrCreateHash m text =
     (case map_of m text of Some hash \<Rightarrow> (m, hash) | None \<Rightarrow> (m @ [(text, length m)], length m))"

fun hash_lines :: "(string, nat) jmap \<Rightarrow> string list \<Rightarrow> (string, nat) jmap \<times> nat list" where
  "hash_lines m [] = (m, [])"
| "hash_lines m (l # ls) =
     (let (m', h) = getOrCreateHash m (trim l); (m'', hs) = hash_lines m' ls in (m'', h # hs))"

section \<open>The alignment\<close>

text \<open>
  The scores of two lines that are aligned: \<open>0.1\<close> for empty lines, \<open>1 + Math.log(1 + n)\<close> for lines of length
  \<open>n\<close>, \<open>0.99\<close> for lines that differ in white space.
\<close>

record 'n line_scores =
  blank_score :: 'n
  same_score :: "nat \<Rightarrow> 'n"
  trimmed_score :: 'n

definition equalityScore :: "'n line_scores \<Rightarrow> string list \<Rightarrow> string list \<Rightarrow> nat \<Rightarrow> nat \<Rightarrow> 'n" where
  "equalityScore sc original modified i j =
     (if line_at original (int i) = line_at modified (int j)
      then let n = length (or_else (line_at modified (int j)) []) in (if n = 0 then blank_score sc else same_score sc n)
      else trimmed_score sc)"

text \<open>\<open>valid\<close> answers the checks of the timeout by their number.\<close>

definition align_sequences ::
  "nat iseq \<Rightarrow> nat iseq \<Rightarrow> (nat \<Rightarrow> bool) \<Rightarrow> (nat \<Rightarrow> nat \<Rightarrow> 'n::{zero,one,plus,uminus,linorder}) \<Rightarrow> diff_result option" where
  "align_sequences s t valid score =
     (if sq_length s + sq_length t < 1700 then dp_compute s t valid (Some score)
      else myers_compute (nat (sq_length s + sq_length t + 3)) s t (\<lambda>d. valid (nat (d - 1))))"

definition lineAlignments ::
  "'n::{zero,one,plus,uminus,linorder} line_scores \<Rightarrow> (nat \<Rightarrow> bool) \<Rightarrow> string list \<Rightarrow> string list \<Rightarrow> (sequence_diff list \<times> bool) option" where
  "lineAlignments sc valid original modified =
     (let (m, originalHashes) = hash_lines [] original; modifiedHashes = snd (hash_lines m modified);
          s = lineSequence originalHashes original; t = lineSequence modifiedHashes modified
      in case align_sequences s t valid (equalityScore sc original modified) of
           None \<Rightarrow> None
         | Some r \<Rightarrow>
             (case optimizeSequenceDiffs s t (dr_diffs r) of
                None \<Rightarrow> None
              | Some ds \<Rightarrow> Some (removeVeryShortMatchingLinesBetweenDiffs (line_getText original) ds, dr_hitTimeout r)))"

section \<open>The differences that are refined\<close>

text \<open>\<open>scanForWhitespaceChanges\<close>, from two lines on.\<close>

fun scanForWhitespaceChanges :: "string list \<Rightarrow> string list \<Rightarrow> int \<Rightarrow> int \<Rightarrow> nat \<Rightarrow> sequence_diff list" where
  "scanForWhitespaceChanges original modified i j 0 = []"
| "scanForWhitespaceChanges original modified i j (Suc n) =
     (if line_at original i \<noteq> line_at modified j
      then [\<lparr>sd_seq1 = \<lparr>o_start = i, o_end = i + 1\<rparr>, sd_seq2 = \<lparr>o_start = j, o_end = j + 1\<rparr>\<rparr>] else []) @
     scanForWhitespaceChanges original modified (i + 1) (j + 1) n"

text \<open>The loop over the differences; the assertion in it fails with \<open>None\<close>.\<close>

fun refined_from :: "bool \<Rightarrow> string list \<Rightarrow> string list \<Rightarrow> int \<Rightarrow> int \<Rightarrow> sequence_diff list \<Rightarrow> sequence_diff list option" where
  "refined_from considerWhitespace original modified i j [] =
     Some (if considerWhitespace
           then scanForWhitespaceChanges original modified i j (nat (int (length original) - i)) else [])"
| "refined_from considerWhitespace original modified i j (d # ds) =
     (if start1 d - i = start2 d - j
      then map_option
        (\<lambda>r. (if considerWhitespace then scanForWhitespaceChanges original modified i j (nat (start1 d - i)) else []) @ d # r)
        (refined_from considerWhitespace original modified (end1 d) (end2 d) ds)
      else None)"

text \<open>
  \<open>computeDiff\<close> up to the refinement: the differences that are refined, and whether the time was up. Equal
  texts of at most one line have none; if a text is empty, everything is one difference.
\<close>

definition refined_diffs ::
  "'n::{zero,one,plus,uminus,linorder} line_scores \<Rightarrow> (nat \<Rightarrow> bool) \<Rightarrow> bool \<Rightarrow> string list \<Rightarrow> string list
    \<Rightarrow> (sequence_diff list \<times> bool) option" where
  "refined_diffs sc valid considerWhitespace original modified =
     (if length original \<le> 1 \<and> original = modified then Some ([], False)
      else if original = [[]] \<or> modified = [[]]
      then Some ([\<lparr>sd_seq1 = \<lparr>o_start = 0, o_end = int (length original)\<rparr>,
                   sd_seq2 = \<lparr>o_start = 0, o_end = int (length modified)\<rparr>\<rparr>], False)
      else case lineAlignments sc valid original modified of
        None \<Rightarrow> None
      | Some (ds, hitTimeout) \<Rightarrow>
          map_option (\<lambda>r. (r, hitTimeout)) (refined_from considerWhitespace original modified 0 0 ds))"

section \<open>Lines and their numbers\<close>

definition numbered :: "(string, nat) jmap \<Rightarrow> bool" where
  "numbered m \<longleftrightarrow> distinct (map fst m) \<and> map snd m = [0..<length m]"

lemma numbered_inj: "numbered m \<Longrightarrow> map_of m x = Some h \<Longrightarrow> map_of m y = Some h \<Longrightarrow> x = y"
proof -
  assume m: "numbered m" and x: "map_of m x = Some h" and y: "map_of m y = Some h"
  obtain i where i: "i < length m" "m ! i = (x, h)" using map_of_SomeD [OF x] by (auto simp: in_set_conv_nth)
  obtain k where k: "k < length m" "m ! k = (y, h)" using map_of_SomeD [OF y] by (auto simp: in_set_conv_nth)
  have "map snd m ! i = i" "map snd m ! k = k" using m i(1) k(1) by (simp_all add: numbered_def)
  then show "x = y" using i k by simp
qed

lemma getOrCreateHash_ok:
  assumes "numbered m" "getOrCreateHash m x = (m', h)"
  shows "numbered m' \<and> map_of m \<subseteq>\<^sub>m map_of m' \<and> map_of m' x = Some h"
proof (cases "map_of m x")
  case None
  then have new: "m' = m @ [(x, length m)]" "h = length m" using assms(2) by (auto simp: getOrCreateHash_def)
  have "x \<notin> set (map fst m)" using None by (simp add: map_of_eq_None_iff)
  then have "numbered m'" using assms(1) new by (simp add: numbered_def)
  moreover have "map_of m' = (map_of [(x, length m)]) ++ map_of m" by (simp add: new)
  ultimately show ?thesis using None new by (auto simp: map_le_def map_add_def split: option.splits)
qed (use assms in \<open>auto simp: getOrCreateHash_def\<close>)

lemma hash_lines_ok:
  "numbered m \<Longrightarrow> hash_lines m ls = (m', hs) \<Longrightarrow>
   numbered m' \<and> map_of m \<subseteq>\<^sub>m map_of m' \<and> map Some hs = map (\<lambda>l. map_of m' (trim l)) ls"
proof (induction ls arbitrary: m hs)
  case (Cons l ls)
  obtain m1 h where h: "getOrCreateHash m (trim l) = (m1, h)" by force
  obtain hs' where hs: "hash_lines m1 ls = (m', hs')" "hs = h # hs'" using Cons.prems(2) h by (auto split: prod.splits)
  note g = getOrCreateHash_ok [OF Cons.prems(1) h]
  then have ih: "numbered m'" "map_of m1 \<subseteq>\<^sub>m map_of m'" "map Some hs' = map (\<lambda>l. map_of m' (trim l)) ls"
    using Cons.IH [OF _ hs(1)] by auto
  have "map_of m' (trim l) = Some h" using g ih(2) by (metis domI map_le_def)
  then show ?case using g ih hs(2) map_le_trans by auto
qed simp

lemma replay_map: "replay (map f xs) (map f ys) i ds = map f (replay xs ys i ds)"
  by (induction ds arbitrary: i) (simp_all add: drop_map take_map)

lemma replay_subset: "set (replay xs ys i ds) \<subseteq> set xs \<union> set ys"
proof (induction ds arbitrary: i)
  case (Cons d ds)
  then show ?case by (auto dest!: in_set_takeD in_set_dropD)
qed (auto dest: in_set_dropD)

lemma map_Some_eq: "map Some xs = map Some ys \<longleftrightarrow> xs = ys"
  by (simp add: inj_map_eq_map)

text \<open>If differences rebuild the numbers, they rebuild the trimmed lines.\<close>

lemma numbers_to_lines:
  assumes m: "numbered m" and hs: "map Some hs = map (\<lambda>l. map_of m (trim l)) xs" "map Some hs' = map (\<lambda>l. map_of m (trim l)) ys"
    and r: "replay hs hs' i ds = hs'"
  shows "replay (map trim xs) (map trim ys) i ds = map trim ys"
proof -
  let ?f = "map_of m" and ?X = "map trim xs" and ?Y = "map trim ys"
  have "map ?f (replay ?X ?Y i ds) = replay (map Some hs) (map Some hs') i ds"
    by (simp add: hs comp_def flip: replay_map)
  also have "\<dots> = map Some hs'" using r by (simp only: replay_map)
  also have "\<dots> = map ?f ?Y" using hs(2) by (simp add: comp_def)
  finally have eq: "map ?f (replay ?X ?Y i ds) = map ?f ?Y" .
  have dom: "?f x \<noteq> None" if "x \<in> set ?X \<union> set ?Y" for x
  proof -
    from that consider l where "l \<in> set xs" "x = trim l" | l where "l \<in> set ys" "x = trim l" by auto
    then show ?thesis
    proof cases
      case 1
      then have "?f x \<in> set (map Some hs)" unfolding hs by simp
      then show ?thesis by auto
    next
      case 2
      then have "?f x \<in> set (map Some hs')" unfolding hs by simp
      then show ?thesis by auto
    qed
  qed
  have "inj_on ?f (set (replay ?X ?Y i ds) \<union> set ?Y)"
  proof (rule inj_onI)
    fix x y assume "x \<in> set (replay ?X ?Y i ds) \<union> set ?Y" "y \<in> set (replay ?X ?Y i ds) \<union> set ?Y" "?f x = ?f y"
    moreover then have "?f x \<noteq> None" using dom replay_subset [of ?X ?Y i ds] by blast
    ultimately show "x = y" using numbered_inj [OF m] by (metis option.exhaust)
  qed
  from inj_on_map_eq_map [OF this] eq show ?thesis by blast
qed

section \<open>The alignment is a way from one text to the other\<close>

lemma lineSequence_strong:
  assumes hs: "map Some hs = map (\<lambda>l. map_of m (trim l)) ls"
  shows "strong_sound (lineSequence hs ls)"
proof -
  have len: "length hs = length ls" using arg_cong [OF hs, of length] by simp
  have el: "getElement (lineSequence hs ls) i = (case line_at ls i of None \<Rightarrow> None | Some l \<Rightarrow> map_of m (trim l))" for i
  proof (cases "0 \<le> i \<and> i < int (length ls)")
    case True
    then have "nat i < length ls" by auto
    then have "Some (hs ! nat i) = map_of m (trim (ls ! nat i))" using arg_cong [OF hs, of "\<lambda>xs. xs ! nat i"] len by simp
    then show ?thesis using True len by (simp add: getElement_def line_at_def lineSequence_def sq_length_def)
  qed (use len in \<open>auto simp: getElement_def line_at_def lineSequence_def sq_length_def\<close>)
  show ?thesis unfolding strong_sound_def by (simp add: lineSequence_def el [unfolded lineSequence_def])
qed

lemma lineAlignments_ok:
  fixes sc :: "'n::{zero,one,plus,uminus,linorder} line_scores"
  assumes neg: "- 1 < (0::'n)" and len: "length original < 2147483648"
  shows "\<exists>ds b hs hs'. lineAlignments sc valid original modified = Some (ds, b) \<and>
    diffs_ok (lineSequence hs original) (lineSequence hs' modified) ds \<and> length hs = length original \<and> length hs' = length modified \<and>
    replay (map trim original) (map trim modified) 0 ds = map trim modified"
proof -
  obtain m hs where h1: "hash_lines [] original = (m, hs)" by force
  obtain m' hs' where h2: "hash_lines m modified = (m', hs')" by force
  have n1: "numbered m" "map Some hs = map (\<lambda>l. map_of m (trim l)) original"
    using hash_lines_ok [OF _ h1] by (auto simp: numbered_def)
  from hash_lines_ok [OF n1(1) h2] have n2: "numbered m'" "map_of m \<subseteq>\<^sub>m map_of m'" "map Some hs' = map (\<lambda>l. map_of m' (trim l)) modified"
    by simp_all
  have n1': "map Some hs = map (\<lambda>l. map_of m' (trim l)) original"
  proof -
    have "map_of m' (trim l) = map_of m (trim l)" if "l \<in> set original" for l
    proof -
      have "map_of m (trim l) \<in> set (map Some hs)" using that unfolding n1(2) by simp
      then show ?thesis using n2(2) by (auto simp: map_le_def dom_def)
    qed
    then show ?thesis unfolding n1(2) by simp
  qed
  let ?s = "lineSequence hs original" and ?t = "lineSequence hs' modified"
  have lens: "length hs = length original" "length hs' = length modified"
    using arg_cong [OF n1(2), of length] arg_cong [OF n2(3), of length] by simp_all
  have sl: "sq_length ?s = int (length original)" "sq_length ?t = int (length modified)"
    by (simp_all add: sq_length_def lineSequence_def lens)
  have strong: "strong_sound ?s" "strong_sound ?t" by (rule lineSequence_strong [OF n1'], rule lineSequence_strong [OF n2(3)])
  have "\<exists>r. align_sequences ?s ?t valid (equalityScore sc original modified) = Some r \<and> diffs_ok ?s ?t (dr_diffs r)"
  proof (cases "sq_length ?s + sq_length ?t < 1700")
    case True
    then show ?thesis using dp_compute_ok [OF neg] by (simp add: align_sequences_def)
  next
    case False
    then show ?thesis unfolding align_sequences_def
      using myers_compute_ok [of ?s ?t "nat (sq_length ?s + sq_length ?t + 3)"] len by (simp add: sl)
  qed
  then obtain r where r: "align_sequences ?s ?t valid (equalityScore sc original modified) = Some r" "diffs_ok ?s ?t (dr_diffs r)" by blast
  obtain ds where ds: "optimizeSequenceDiffs ?s ?t (dr_diffs r) = Some ds" "diffs_ok ?s ?t ds"
    using optimizeSequenceDiffs_ok [OF strong r(2)] by blast
  let ?ds = "removeVeryShortMatchingLinesBetweenDiffs (line_getText original) ds"
  have ok: "diffs_ok ?s ?t ?ds"
    unfolding removeVeryShortMatchingLinesBetweenDiffs_def by (rule join_rounds_ok [OF ds(2)])
  have "replay hs hs' 0 ?ds = hs'" using diffs_ok_replay [OF ok] by (simp add: lineSequence_def)
  then have "replay (map trim original) (map trim modified) 0 ?ds = map trim modified"
    by (rule numbers_to_lines [OF n2(1) n1' n2(3)])
  moreover have "lineAlignments sc valid original modified = Some (?ds, dr_hitTimeout r)"
    using h1 h2 r(1) ds(1) by (simp add: lineAlignments_def)
  ultimately show ?thesis using ok lens by blast
qed

section \<open>Nothing that changed is left out\<close>

text \<open>Scanned lines and what comes behind them.\<close>

lemma replay_from_next:
  assumes "i < length xs" "case ds of [] \<Rightarrow> True | d # _ \<Rightarrow> int i + 1 \<le> start1 d"
  shows "replay xs ys (int i) ds = xs ! i # replay xs ys (int i + 1) ds"
proof (cases ds)
  case Nil
  then show ?thesis using assms(1) by (simp add: Cons_nth_drop_Suc nat_add_distrib)
next
  case (Cons d ds')
  then have "nat (start1 d - int i) = Suc (nat (start1 d - (int i + 1)))" using assms(2) by auto
  then show ?thesis using assms(1) Cons by (simp add: nat_add_distrib flip: Cons_nth_drop_Suc)
qed

lemma scan_starts: "d \<in> set (scanForWhitespaceChanges xs ys i j n) \<Longrightarrow> i \<le> start1 d"
  by (induction n arbitrary: i j) (auto split: if_splits, fastforce)

lemma replay_scan:
  "i + n \<le> length xs \<Longrightarrow> j + n \<le> length ys \<Longrightarrow> case ds of [] \<Rightarrow> True | d # _ \<Rightarrow> int (i + n) \<le> start1 d \<Longrightarrow>
   replay xs ys (int i) (scanForWhitespaceChanges xs ys (int i) (int j) n @ ds) =
   take n (drop j ys) @ replay xs ys (int (i + n)) ds"
proof (induction n arbitrary: i j)
  case (Suc n)
  let ?rest = "scanForWhitespaceChanges xs ys (int (Suc i)) (int (Suc j)) n @ ds"
  have ih: "replay xs ys (int (Suc i)) ?rest = take n (drop (Suc j) ys) @ replay xs ys (int (Suc i + n)) ds"
    by (rule Suc.IH) (use Suc.prems in \<open>auto split: list.splits\<close>)
  have tk: "take (Suc n) (drop j ys) = ys ! j # take n (drop (Suc j) ys)"
    using Suc.prems(2) by (simp flip: Cons_nth_drop_Suc)
  have lines: "line_at xs (int i) = Some (xs ! i)" "line_at ys (int j) = Some (ys ! j)" using Suc.prems by (simp_all add: line_at_def)
  show ?case
  proof (cases "xs ! i = ys ! j")
    case True
    have "case ?rest of [] \<Rightarrow> True | d # _ \<Rightarrow> int i + 1 \<le> start1 d"
    proof (cases "scanForWhitespaceChanges xs ys (int (Suc i)) (int (Suc j)) n")
      case Nil
      then show ?thesis using Suc.prems(3) by (auto split: list.splits)
    next
      case (Cons d r)
      then show ?thesis using scan_starts [of d xs ys "int (Suc i)" "int (Suc j)" n] by simp
    qed
    from replay_from_next [OF _ this, of xs ys] have "replay xs ys (int i) ?rest = xs ! i # replay xs ys (int (Suc i)) ?rest"
      using Suc.prems(1) by (simp add: add.commute)
    then show ?thesis using True ih tk lines by (simp add: add.commute)
  next
    case False
    have "take (Suc 0) (drop j ys) = [ys ! j]" using Suc.prems(2) by (simp flip: Cons_nth_drop_Suc)
    then show ?thesis using False ih tk lines by (simp add: add.commute)
  qed
qed simp

lemma refined_from_ok:
  assumes s: "sq_length s = int (length xs)" "sq_length t = int (length ys)"
  shows "diffs_from s t g i j ds \<Longrightarrow> 0 \<le> i \<Longrightarrow> 0 \<le> j \<Longrightarrow>
    \<exists>r. refined_from True xs ys i j ds = Some r \<and> replay xs ys i r = drop (nat j) ys"
proof (induction ds arbitrary: g i j)
  case Nil
  let ?n = "nat (int (length xs) - i)"
  have "i + int ?n = int (length xs)" "j + int ?n = int (length ys)" using Nil s by auto
  then have "nat i + ?n \<le> length xs" "nat j + ?n \<le> length ys" "length ys - nat j \<le> ?n" "length xs \<le> nat i + ?n"
    using Nil(2,3) by linarith+
  then show ?case using replay_scan [of "nat i" ?n xs "nat j" ys "[]"] Nil by simp
next
  case (Cons d ds)
  let ?n = "nat (start1 d - i)"
  have d: "start1 d - i = start2 d - j" "i \<le> start1 d" "start1 d \<le> end1 d" "start2 d \<le> end2 d"
    "diffs_from s t 1 (end1 d) (end2 d) ds" using Cons.prems by auto
  from diffs_from_le [OF d(5)] have le: "end1 d \<le> int (length xs)" "end2 d \<le> int (length ys)" by (simp_all add: s)
  from Cons.IH [OF d(5)] d Cons.prems obtain r where r: "refined_from True xs ys (end1 d) (end2 d) ds = Some r"
    "replay xs ys (end1 d) r = drop (nat (end2 d)) ys" by auto
  have "replay xs ys i (scanForWhitespaceChanges xs ys i j ?n @ d # r) = take ?n (drop (nat j) ys) @ replay xs ys (start1 d) (d # r)"
    using replay_scan [of "nat i" ?n xs "nat j" ys "d # r"] d le Cons.prems by (auto simp: nat_add_distrib)
  also have "replay xs ys (start1 d) (d # r) = drop (nat (start2 d)) ys"
  proof -
    have "nat (end2 d - start2 d) + nat (start2 d) = nat (end2 d)" using d Cons.prems by auto
    then show ?thesis using r(2) by (simp, metis append_take_drop_id drop_drop)
  qed
  also have "take ?n (drop (nat j) ys) @ drop (nat (start2 d)) ys = drop (nat j) ys"
  proof -
    have "?n + nat j = nat (start2 d)" using d Cons.prems by auto
    then show ?thesis by (metis append_take_drop_id drop_drop)
  qed
  finally show ?case using r(1) d(1) by simp
qed

lemma refined_from_same: "diffs_from s t g i j ds \<Longrightarrow> refined_from False xs ys i j ds = Some ds"
  by (induction ds arbitrary: g i j) auto

text \<open>
  C21. Aligned lines: whatever the two texts, the scores and the time-out are, \<open>computeDiff\<close> finds the differences that
  it refines: neither algorithm runs on without an end, no range is inverted and the assertion about equal
  gaps holds. Applied in order, the differences turn the original into the modified lines, line by line; if
  changes of white space are ignored, up to white space at the ends of lines.
\<close>

theorem refined_diffs_rebuild:
  fixes sc :: "'n::{zero,one,plus,uminus,linorder} line_scores"
  assumes "- 1 < (0::'n)" "length original < 2147483648"
  shows "\<exists>r b. refined_diffs sc valid considerWhitespace original modified = Some (r, b) \<and>
    (considerWhitespace \<longrightarrow> replay original modified 0 r = modified) \<and>
    (\<not> considerWhitespace \<longrightarrow> replay (map trim original) (map trim modified) 0 r = map trim modified)"
proof (cases "length original \<le> 1 \<and> original = modified")
  case True
  then show ?thesis unfolding refined_diffs_def if_P [OF True] by (intro exI [of _ "[]"] exI [of _ False]) simp
next
  case ne: False
  show ?thesis
  proof (cases "original = [[]] \<or> modified = [[]]")
    case True
    have "\<exists>b. Some (ds, False) = Some (ds, b)" for ds :: "sequence_diff list" by blast
    with ne show ?thesis unfolding refined_diffs_def if_not_P [OF ne] if_P [OF True] by (simp add: ex_disj_distrib)
  next
    case False
    from lineAlignments_ok [OF assms, of sc valid modified] obtain ds b hs hs' where
      ds: "lineAlignments sc valid original modified = Some (ds, b)"
        "diffs_ok (lineSequence hs original) (lineSequence hs' modified) ds"
        "length hs = length original" "length hs' = length modified"
        "replay (map trim original) (map trim modified) 0 ds = map trim modified" by blast
    have sl: "sq_length (lineSequence hs original) = int (length original)" "sq_length (lineSequence hs' modified) = int (length modified)"
      by (simp_all add: sq_length_def lineSequence_def ds(3,4))
    have from_ok: "diffs_from (lineSequence hs original) (lineSequence hs' modified) 0 0 0 ds" using ds(2) by (simp add: diffs_ok_def)
    have eq: "refined_diffs sc valid considerWhitespace original modified =
        map_option (\<lambda>r. (r, b)) (refined_from considerWhitespace original modified 0 0 ds)"
      unfolding refined_diffs_def if_not_P [OF ne] if_not_P [OF False] ds(1) by simp
    show ?thesis
    proof (cases considerWhitespace)
      case True
      then show ?thesis using refined_from_ok [OF sl from_ok] eq by auto
    next
      case False
      then show ?thesis using refined_from_same [OF from_ok, of original modified] eq ds(5) by auto
    qed
  qed
qed

theorem refined_diffs_rebuild_witness:
  "\<exists>r b. refined_diffs \<lparr>blank_score = 0 :: int, same_score = int, trimmed_score = 1\<rparr> (\<lambda>_. True) True
      [''a'', ''b'', '' c''] [''a'', ''x'', ''c''] = Some (r, b) \<and>
    replay [''a'', ''b'', '' c''] [''a'', ''x'', ''c''] 0 r = [''a'', ''x'', ''c'']"
  using refined_diffs_rebuild [of "[''a'', ''b'', '' c'']" "\<lparr>blank_score = 0 :: int, same_score = int, trimmed_score = 1\<rparr>"
    "\<lambda>_. True" True "[''a'', ''x'', ''c'']"] by simp

end
