(* ===== verification/Spec2Isabelle.thy ===== *)
theory Spec2Isabelle
  imports Bridge_Triggers Line_Range Linked_List Linked_Map Map_Collections Keyed_Maps Prefix_Sum String_Edit
    Find_Replace Common_Subsequence Unified_Diff Char_Diff Conversation_Sync Sidecar_Manager Session_History
    Terminal_Security Bracket_Tokens Tool_Round_Trip Agent_Turn
    Line_Alignment
begin

text \<open>
  Wibe: the bridge between an editor and a web chat, its text edits, and their foundations.

  The program. Wibe is a build of Code-OSS with a bundled extension, InControl, that talks to a
  language model. Instead of a programming interface it can use the model's web page: a Python
  service, the sidecar, drives a managed browser, and the extension speaks HTTP to the sidecar.
  The TypeScript that is Wibe's own is under \<open>src/extensions/incontrol/bridge\<close> and in the files
  \<open>uwa*\<close> of \<open>src/extensions/incontrol/core/util\<close>; the edits that a model proposes are found, checked
  and applied by \<open>core/edit\<close> and \<open>core/diff\<close> of the extension; underneath lie the ranges, edits
  and collections of Code-OSS (\<open>src/src/vs/base/common\<close>, \<open>src/src/vs/editor/common\<close>).

  How the parts interact. Sending a message asks the request context for the fields that bind the
  request to a conversation (\<open>Request_Context\<close>), brings the browser to the page of that conversation
  and gets an address that only this page serves (\<open>Conversation_Sync\<close>). The answer's extension
  fields drive the state machine of the binding (\<open>Conversation_Bridge\<close>), which migrates the
  conversation to a new page after a compaction or a change of model (\<open>Bridge_Triggers\<close>). All of
  this needs a running sidecar, which \<open>Sidecar_Manager\<close> starts, watches and stops, together with
  the browser (\<open>Browser_Launcher\<close>). The chat is a session that actions change (\<open>Chat_Session\<close>,
  \<open>Session_Steps\<close>): answers stream into it, calls of tools are collected (\<open>Tool_Calls\<close>, or \<open>System_Tools\<close> where
  they are part of the text), and they are checked and run
  (\<open>Agent_Tools\<close>, \<open>Agent_Turn\<close>), and its history becomes the next request (\<open>Chat_Messages\<close>). That is cut to the
  context of the model (\<open>Context_Pruning\<close>), packed and compacted (\<open>Session_History\<close>). An edit in the
  answer is located in the file (\<open>Search_Match\<close>) and
  applied (\<open>Find_Replace\<close>), or is a unified diff (\<open>Unified_Diff\<close>), and is shown as a line or
  character diff (\<open>Line_Diff\<close>, \<open>Char_Diff\<close>).

  Theories, sources and what is proved.

  \<open>Wibe_Prelude\<close>: strings as lists of 8-bit characters with the operations the code uses, JavaScript
  maps as association lists in insertion order, the locale \<open>bounded_store\<close> of capped stores.
  \<open>Js_Values\<close>: values of type \<open>any\<close>, their coercions, JSON text, answers to requests.

  \<open>Request_Context\<close> (\<open>core/util/uwaRequestContext.ts\<close>): module variables as a record, one definition
  per exported function. Sessions never see each other's binding, the stores stay bounded, a
  one-shot mark is consumed once (C1). \<open>Conversation_Bridge\<close> (\<open>bridge/protocol.ts\<close>,
  \<open>conversationBridge.ts\<close>): \<open>migrate\<close> is split at its await; a step relation interleaves pending
  migrations; invariant, rollback, coherence of events (C5, C6). \<open>Bridge_Triggers\<close>
  (\<open>bridge/bridgeTriggers.ts\<close>, \<open>core/util/compactionEvents.ts\<close>): longest matching prefix,
  switching.

  \<open>Conversation_Sync\<close> (\<open>core/util/uwaConversationSync.ts\<close>): the network, the clock, the URL parser and
  the digest are an environment over a world. Preparing an address always returns and returns
  only a route whose tab is listed (C34); a page that is listed in time is found (C35).
  \<open>Browser_Launcher\<close> (\<open>bridge/browserLauncher.ts\<close>) and \<open>Sidecar_Manager\<close> (\<open>bridge/sidecarManager.ts\<close>):
  the same style over a platform of processes, ports and files. Starting ends (C36), a bundled
  runtime fails closed (C37), a start that gives up leaves nothing running (C38); and a lemma shows
  how a restart loses the browser.

  \<open>Context_Pruning\<close> (\<open>core/llm/countTokens.ts\<close>, \<open>messages.ts\<close>): a chat is cut to the context of the
  model without losing its system message or last sequence (C39). \<open>Session_History\<close>
  (\<open>core/util/historyPacker.ts\<close>, \<open>conversationCompaction.ts\<close>, \<open>uwaImages.ts\<close>, \<open>uwaModelOverlay.ts\<close>):
  images are sent once (C40); lemmas on packing, compaction and the overlay.

  \<open>Tool_Calls\<close> (\<open>gui/src/util/toolCallState.ts\<close>): the state of a streamed tool call and the merging of its
  fragments. \<open>System_Tools\<close> (\<open>core/tools/systemMessageTools\<close>): calls written in the text of an answer, for models
  without native tools, are found and parsed while the answer streams in; \<open>Tool_Round_Trip\<close>: a printed call is read
  back however it is cut (C8). \<open>Chat_Session\<close> (\<open>gui/src/redux/slices/sessionSlice.ts\<close>, \<open>redux/util/index.ts\<close>):
  the session as a record and its reducers as functions; \<open>Chat_Calls\<close>: parallel calls do not disturb each other
  (C18). \<open>Chat_Rules\<close> (\<open>core/llm/rules\<close>): which rules are sent, characterised by a lemma. \<open>Chat_Messages\<close>
  (\<open>redux/util/constructMessages.ts\<close>, \<open>convertSystemTools.ts\<close>): the messages made of a history. \<open>Session_Steps\<close>:
  the actions as a datatype with the reducer over it; every reachable session gives messages that
  compile (C26). \<open>Agent_Tools\<close> (\<open>redux/slices/uiSlice.ts\<close>, \<open>selectors/selectActiveTools.ts\<close>,
  \<open>thunks/evaluateToolPolicies.ts\<close>): the policy of a call. \<open>Agent_Turn\<close> (\<open>thunks/streamNormalInput.ts\<close>,
  \<open>callToolById.ts\<close> and their helpers): a step relation runs the calls of an answer, interleaved with actions of the
  user; what starts without a question was permitted (C3).

  \<open>Search_Match\<close>, \<open>Find_Replace\<close> (\<open>core/edit/searchAndReplace\<close>): matches are sound and complete (C27),
  replacement is exact on every branch (C28), the arguments are checked exactly (C29).
  \<open>Common_Subsequence\<close> (\<open>core/util/lcs.ts\<close>): the dynamic program is optimal (C30). \<open>Line_Diff\<close>,
  \<open>Char_Diff\<close> (\<open>core/diff\<close>): diffs replay both texts, pieces are where they say (C33).
  \<open>Unified_Diff\<close> (\<open>core/edit/lazy/unifiedDiffApply.ts\<close>): applying succeeds exactly if the hunks can be
  placed, and does what they say (C32).

  \<open>Base_Edit\<close>, \<open>String_Edit\<close> (\<open>core/edits/edit.ts\<close>, \<open>stringEdit.ts\<close> of the editor): the abstract class of
  replacements is a record of methods, its contract the locales \<open>replacement_text\<close> and
  \<open>joining_text\<close>, interpreted by the concrete classes. Composition, normal forms, inverses, rebasing,
  offsets (C20, C22, C23, C25). \<open>Text_Position\<close>, \<open>Offset_Range\<close>, \<open>Line_Range\<close> with \<open>Intervals\<close> (\<open>position.ts\<close>,
  \<open>range.ts\<close>, \<open>offsetRange.ts\<close>, \<open>lineRange.ts\<close>): order, containment, sets of ranges as sets of numbers
  (C12, C13). \<open>Prefix_Sum\<close> (\<open>prefixSumComputer.ts\<close>): the cached sums agree with the
  values. \<open>Array_Search\<close> (\<open>arraysFind.ts\<close>), \<open>Linked_List\<close> and \<open>Linked_Map\<close> on the node store of
  \<open>Node_Store\<close> (\<open>linkedList.ts\<close>, \<open>map.ts\<close>), \<open>Map_Collections\<close>, \<open>Keyed_Maps\<close>: refinement of lists and maps, caches
  (C14 to C16). \<open>Js_Numbers\<close> holds the integer functions of the ranges.

  Under \<open>diff/defaultLinesDiffComputer\<close> of the editor: \<open>Sequence_Diff\<close> (\<open>algorithms/diffAlgorithm.ts\<close>) has
  sequences, their differences and what makes a list of them a way from one sequence to the other.
  \<open>Dp_Diff\<close> (\<open>dynamicProgrammingDiffing.ts\<close>) finds such a list, whatever the scores and the time-out;
  so does \<open>Myers_Diff\<close> (\<open>myersDiffAlgorithm.ts\<close>), as \<open>Myers_Correct\<close> shows with an invariant of its
  frontier (C10), though not always the shortest. \<open>Diff_Optimize\<close> (\<open>heuristicSequenceOptimizations.ts\<close>)
  shifts and joins differences and keeps them a way (C17). \<open>Line_Alignment\<close> (\<open>lineSequence.ts\<close>,
  \<open>defaultLinesDiffComputer.ts\<close>) puts them together: the differences that are refined rebuild the
  modified lines (C21).

  \<open>Command_Rules\<close>, \<open>Terminal_Security\<close> (\<open>packages/terminal-security\<close>): the classifier of terminal
  commands, with the tokenizer of shell-quote as a parameter. What is refused (C9), what runs
  without a question (C11); lemmas show that the base policy is a lower bound, and three
  gaps of its rules.

  \<open>Text_Length\<close> (\<open>core/text/textLength.ts\<close>) and, under \<open>model/bracketPairsTextModelPart/bracketPairsTree\<close>,
  \<open>Length_Code\<close> (\<open>length.ts\<close>), \<open>Small_Set\<close> (\<open>smallImmutableSet.ts\<close>), \<open>Bracket_Tree\<close> (\<open>ast.ts\<close>),
  \<open>Concat_Trees\<close> (\<open>concat23Trees.ts\<close>): the syntax tree of brackets. Its encoded lengths and its bit sets
  refine lengths (C4) and sets; lists are balanced (2,3)-trees, and concatenation keeps them so (C31).
  \<open>Node_Reader\<close> (\<open>nodeReader.ts\<close>) walks an old tree, \<open>Edit_Mapper\<close> (\<open>beforeEditPositionMapper.ts\<close>)
  translates positions through edits exactly (C24). \<open>Bracket_Parser\<close> (\<open>parser.ts\<close>): the parser returns a
  well-nested tree of all tokens (C7), and what it reuses of an old tree fits its new place (C2).
  \<open>Bracket_Tokens\<close> (\<open>brackets.ts\<close>, \<open>tokenizer.ts\<close>, \<open>languageBracketsConfiguration.ts\<close>): from the
  configured brackets over the tokens of a text to its tree, which tiles the text (C19).

  Bounds and fuel. Polling loops carry fuel, and running out is \<open>None\<close>: \<open>n + 1\<close> rounds are enough for
  a timeout of at most \<open>700 n\<close> ms in \<open>Conversation_Sync\<close>, and 61 for the 20 s and 60 s of
  \<open>Sidecar_Manager\<close>; C34 and C36 prove this under the law that requests do not turn the clock
  back and sleeping takes its time. The recursion of the bracket parser carries fuel as well; twice
  the number of tokens and one is enough (C7). The rounds of the algorithm of Myers carry fuel: the two
  lengths and three are enough (C10). All other loops are total functions.

  Conventions. A thrown error is an option or a sum; an asynchronous method is a function of the
  world, split at an await where other code can interleave; time, digests, paths, URLs, HTTP and
  packages outside the repository are arguments. Strings have 8-bit characters.

  Not modelled. The adapters to other providers, autocomplete, indexing and configuration of the
  extension (input and output around services and syntax trees that are not in the repository);
  the graphical interface but for the session of the chat; the Python sidecar and the Rust command line (other languages); the
  other extensions (third party or generated); the workbench, the platform services and the rest
  of the editor, of which the text model, the tree of bracket pairs over it, the refinement of differences to characters and moved lines are the next
  candidates.
\<close>

end
